(* ===== verification/TT_Prelude.thy ===== *)
theory TT_Prelude
  imports Main "HOL-Library.Word"
begin

text \<open>
  Shared vocabulary of the development: machine integers at the widths of the SDK's basic
  types, the result codes of \<^verbatim>\<open>misc/tt_error_def.h\<close>, the outcome of running C code (a value,
  a thrown assertion, undefined behaviour, or divergence), the combinators that mirror
  \<^verbatim>\<open>TT_ASSERT\<close> and \<^verbatim>\<open>TT_DO\<close> of \<^verbatim>\<open>misc/tt_util.h\<close>, and generic facts about words and lists.
\<close>

unbundle bit_operations_syntax

section \<open>Basic types\<close>

type_synonym u8 = "8 word"
type_synonym u16 = "16 word"
type_synonym u32 = "32 word"
type_synonym u64 = "64 word"

datatype tt_result =
    TT_SUCCESS
  | TT_FAIL | TT_E_TIMEOUT | TT_E_END | TT_E_PROCEED | TT_E_BADARG
  | TT_E_NOMEM | TT_E_NOEXIST | TT_E_EXIST | TT_E_UNSUPPORT | TT_E_NOSPC
  | TT_E_BUF_NOBUFS
  | TT_E_NTV_FAIL

definition TT_OK :: "tt_result \<Rightarrow> bool" where
  "TT_OK r \<longleftrightarrow> r = TT_SUCCESS"

definition TT_POS_NULL :: u32 where
  "TT_POS_NULL = NOT 0"

definition TT_U32_MUL_WOULD_OVFL :: "u32 \<Rightarrow> u32 \<Rightarrow> bool" where
  "TT_U32_MUL_WOULD_OVFL a b \<longleftrightarrow> (ucast a :: u64) * ucast b > ucast (NOT (0 :: u32))"

definition TT_U32_ADD_WOULD_OVFL :: "u32 \<Rightarrow> u32 \<Rightarrow> bool" where
  "TT_U32_ADD_WOULD_OVFL a b \<longleftrightarrow> (ucast a :: u64) + ucast b > ucast (NOT (0 :: u32))"

section \<open>Runs of C code\<close>

text \<open>
  A C function either returns, or stops in a failed assertion (\<^verbatim>\<open>TT_ASSERT\<close> in a build with
  \<^verbatim>\<open>TT_ASSERT_ENABLE\<close>, \<^verbatim>\<open>TT_ASSERT_ALWAYS\<close> in every build: \<open>Throw\<close>), or performs an operation
  whose behaviour C leaves undefined (\<open>Undef\<close>), or never returns (\<open>Diverge\<close>).
\<close>

datatype fault = Throw | Undef | Diverge

type_synonym 'a run = "fault + 'a"

definition bindr :: "'a run \<Rightarrow> ('a \<Rightarrow> 'b run) \<Rightarrow> 'b run" where
  "bindr m k = (case m of Inl f \<Rightarrow> Inl f | Inr x \<Rightarrow> k x)"

definition TT_ASSERT :: "bool \<Rightarrow> unit run" where
  "TT_ASSERT e = (if e then Inr () else Inl Throw)"

definition TT_ASSERT_ALWAYS :: "bool \<Rightarrow> unit run" where
  "TT_ASSERT_ALWAYS e = (if e then Inr () else Inl Throw)"

text \<open>\<^verbatim>\<open>TT_DO\<close> returns the result of the call from the enclosing function unless it is success.\<close>

definition TT_DO :: "(tt_result \<times> 's) run \<Rightarrow> ('s \<Rightarrow> (tt_result \<times> 's) run) \<Rightarrow> (tt_result \<times> 's) run"
  where "TT_DO c k = bindr c (\<lambda>(r, s). if TT_OK r then k s else Inr (r, s))"

text \<open>The outcome of a loop given as a partial function: \<open>None\<close> is a loop that never ends.\<close>

definition returned :: "'r run option \<Rightarrow> 'r run" where
  "returned r = (case r of None \<Rightarrow> Inl Diverge | Some r \<Rightarrow> r)"

lemma returned_Some [simp]: "returned (Some r) = r"
  by (simp add: returned_def)

lemma bindr_simps [simp]:
  "bindr (Inl f) k = Inl f"
  "bindr (Inr x) k = k x"
  by (simp_all add: bindr_def)

lemma bindr_eq_Inr_iff: "bindr m k = Inr y \<longleftrightarrow> (\<exists>x. m = Inr x \<and> k x = Inr y)"
  by (cases m) auto

lemma bindr_eq_Inl_iff: "bindr m k = Inl f \<longleftrightarrow> m = Inl f \<or> (\<exists>x. m = Inr x \<and> k x = Inl f)"
  by (cases m) auto

lemma bindr_assoc: "bindr (bindr m k) h = bindr m (\<lambda>x. bindr (k x) h)"
  by (cases m) auto

lemma TT_ASSERT_simps [simp]:
  "TT_ASSERT True = Inr ()"
  "TT_ASSERT False = Inl Throw"
  "TT_ASSERT_ALWAYS True = Inr ()"
  "TT_ASSERT_ALWAYS False = Inl Throw"
  by (simp_all add: TT_ASSERT_def TT_ASSERT_ALWAYS_def)

lemma TT_ASSERT_eq_Inr_iff [simp]:
  "TT_ASSERT e = Inr u \<longleftrightarrow> e"
  "TT_ASSERT_ALWAYS e = Inr u \<longleftrightarrow> e"
  by (simp_all add: TT_ASSERT_def TT_ASSERT_ALWAYS_def)

lemma TT_OK_simps [simp]:
  "TT_OK TT_SUCCESS" "\<not> TT_OK TT_FAIL" "\<not> TT_OK TT_E_END" "\<not> TT_OK TT_E_BUF_NOBUFS"
  by (simp_all add: TT_OK_def)

lemma TT_DO_simps [simp]:
  "TT_DO (Inl f) k = Inl f"
  "TT_DO (Inr (TT_SUCCESS, s)) k = k s"
  "TT_DO (Inr (TT_FAIL, s)) k = Inr (TT_FAIL, s)"
  "TT_DO (Inr (TT_E_BUF_NOBUFS, s)) k = Inr (TT_E_BUF_NOBUFS, s)"
  by (simp_all add: TT_DO_def)

lemma TT_DO_fail: "\<not> TT_OK r \<Longrightarrow> TT_DO (Inr (r, s)) k = Inr (r, s)"
  by (simp add: TT_DO_def)

section \<open>Words\<close>

lemma unat_lt_32: "unat (x :: u32) < 4294967296"
  using unsigned_less [of x] by simp

lemma unat_lt_8: "unat (x :: u8) < 256"
  using unsigned_less [of x, where ?'a = nat] by simp

lemma unat_add_u32:
  fixes a b :: u32
  assumes "unat a + unat b < 4294967296"
  shows "unat (a + b) = unat a + unat b"
  using assms unat_add_lem [of a b] by simp

lemma unat_mult_u32:
  fixes a b :: u32
  assumes "unat a * unat b < 4294967296"
  shows "unat (a * b) = unat a * unat b"
  using assms unat_mult_lem [of a b] by simp

lemma unat_sub_u32:
  fixes a b :: u32
  assumes "unat b \<le> unat a"
  shows "unat (a - b) = unat a - unat b"
  using assms by (simp add: unat_sub word_le_nat_alt)

lemma unat_suc_u32:
  fixes a b :: u32
  assumes "unat a < unat b"
  shows "unat (a + 1) = Suc (unat a)"
proof -
  have "unat a + unat (1 :: u32) < 4294967296"
    using assms unat_lt_32 [of b] unsigned_1 [where 'a = nat and 'b = 32] by linarith
  then show ?thesis
    by (simp add: unat_add_u32)
qed

lemma unat_add_wrap_u32:
  fixes a b :: u32
  assumes "4294967296 \<le> unat a + unat b"
  shows "unat (a + b) < unat a"
proof -
  have "unat (a + b) = (unat a + unat b) mod 4294967296"
    by (simp add: unat_word_ariths)
  moreover have "(unat a + unat b) mod 4294967296 = unat a + unat b - 4294967296"
  proof (rule mod_nat_eqI)
    show "unat a + unat b - 4294967296 < 4294967296"
      using unat_lt_32 [of a] unat_lt_32 [of b] by linarith
  qed (use assms in auto)
  ultimately show ?thesis
    using assms unat_lt_32 [of b] by linarith
qed

lemma unat_minus_1_u32 [simp]: "unat (- 1 :: u32) = 4294967295"
  by (simp add: unsigned_minus_1_eq_mask mask_eq_exp_minus_1)

lemma TT_POS_NULL_max [simp]: "unat TT_POS_NULL = 4294967295"
  by (simp add: TT_POS_NULL_def)

lemma unat_ucast_u64: "unat (ucast (x :: u32) :: u64) = unat x"
  using unat_lt_32 [of x] by (simp add: unsigned_ucast_eq take_bit_nat_eq_self)

lemma TT_U32_MUL_WOULD_OVFL_iff:
  "TT_U32_MUL_WOULD_OVFL a b \<longleftrightarrow> 4294967296 \<le> unat a * unat b"
proof -
  have lt: "unat a * unat b < 2 ^ LENGTH(64)"
    using mult_strict_mono [OF unat_lt_32 [of a] unat_lt_32 [of b]] by simp
  have ua: "unat (ucast a :: u64) = unat a" "unat (ucast b :: u64) = unat b"
    by (simp_all add: unat_ucast_u64)
  have "unat ((ucast a :: u64) * ucast b) = unat a * unat b"
    using lt ua unat_mult_lem [of "ucast a :: u64" "ucast b :: u64"] by simp
  moreover have "unat (ucast (NOT (0 :: u32)) :: u64) = 4294967295"
    by (simp add: unat_ucast_u64)
  ultimately show ?thesis
    by (auto simp: TT_U32_MUL_WOULD_OVFL_def word_less_nat_alt)
qed

lemma TT_U32_ADD_WOULD_OVFL_iff:
  "TT_U32_ADD_WOULD_OVFL a b \<longleftrightarrow> 4294967296 \<le> unat a + unat b"
proof -
  have ua: "unat (ucast a :: u64) = unat a" "unat (ucast b :: u64) = unat b"
    by (simp_all add: unat_ucast_u64)
  have "unat a + unat b < 2 ^ LENGTH(64)"
    using add_strict_mono [OF unat_lt_32 [of a] unat_lt_32 [of b]] by simp
  then have "unat ((ucast a :: u64) + ucast b) = unat a + unat b"
    using ua unat_add_lem [of "ucast a :: u64" "ucast b :: u64"] by simp
  moreover have "unat (ucast (NOT (0 :: u32)) :: u64) = 4294967295"
    by (simp add: unat_ucast_u64)
  ultimately show ?thesis
    by (auto simp: TT_U32_ADD_WOULD_OVFL_def word_less_nat_alt)
qed

section \<open>Lists\<close>

text \<open>Overwriting a segment of a list, the effect of copying a run of cells into an array.\<close>

definition overwrite :: "nat \<Rightarrow> 'a list \<Rightarrow> 'a list \<Rightarrow> 'a list" where
  "overwrite i vs xs = take i xs @ vs @ drop (i + length vs) xs"

lemma length_overwrite [simp]:
  "i + length vs \<le> length xs \<Longrightarrow> length (overwrite i vs xs) = length xs"
  by (simp add: overwrite_def)

lemma overwrite_Nil [simp]: "overwrite i [] xs = xs"
  by (simp add: overwrite_def)

lemma take_overwrite: "n \<le> i \<Longrightarrow> i \<le> length xs \<Longrightarrow> take n (overwrite i vs xs) = take n xs"
  by (simp add: overwrite_def min_def)

lemma take_overwrite_end:
  "i \<le> length xs \<Longrightarrow> take (i + length vs) (overwrite i vs xs) = take i xs @ vs"
  by (simp add: overwrite_def)

lemma drop_overwrite:
  "i + length vs \<le> n \<Longrightarrow> i \<le> length xs \<Longrightarrow> drop n (overwrite i vs xs) = drop n xs"
  by (simp add: overwrite_def)

lemma overwrite_single: "i < length xs \<Longrightarrow> overwrite i [v] xs = xs[i := v]"
  by (simp add: overwrite_def upd_conv_take_nth_drop)

lemma nth_overwrite:
  assumes "i + length vs \<le> length xs" "k < length xs"
  shows "overwrite i vs xs ! k = (if i \<le> k \<and> k < i + length vs then vs ! (k - i) else xs ! k)"
  using assms by (auto simp: overwrite_def nth_append)

lemma window_overwrite:
  assumes "r + k + length vs \<le> w" "w \<le> length xs"
  shows "take (w - r) (drop r (overwrite (r + k) vs xs)) = overwrite k vs (take (w - r) (drop r xs))"
  using assms by (intro nth_equalityI) (auto simp: nth_overwrite)

lemma nth_take_drop: "i + k < length xs \<Longrightarrow> k < n \<Longrightarrow> take n (drop i xs) ! k = xs ! (i + k)"
  by simp

end
