(* ===== verification/TT_Memory.thy ===== *)
theory TT_Memory
  imports TT_Prelude
begin

text \<open>
  The store that the containers of the SDK allocate from, and the growth policy of
  \<^verbatim>\<open>memory/tt_memory_spring.c\<close>. A store maps block identifiers to arrays of cells; a cell is
  \<open>w\<close> bytes wide (a byte of a buffer, an object of a vector, a pointer, a heap node), sizes and
  offsets stay in bytes as in the code. Every access is checked: outside the block, at an
  offset that is not a cell boundary, in a freed block, or freeing what \<^verbatim>\<open>malloc\<close> did not hand
  out is \<open>Undef\<close>.
\<close>

section \<open>The store\<close>

record 'c mem =
  mem_blocks :: "nat \<rightharpoonup> 'c list"
  mem_heap :: "nat set"
  mem_next :: nat
  mem_oracle :: "nat \<Rightarrow> bool"
  mem_junk :: "nat \<Rightarrow> nat \<Rightarrow> 'c"

type_synonym ptr = "nat option"

text \<open>
  \<^verbatim>\<open>tt_malloc\<close>: whether the \<open>n\<close>-th request is served is the environment's choice
  (\<open>mem_oracle\<close>), and so are the initial contents of a new block (\<open>mem_junk\<close>).
\<close>

definition tt_malloc :: "nat \<Rightarrow> u32 \<Rightarrow> 'c mem \<Rightarrow> ptr \<times> 'c mem" where
  "tt_malloc w sz m =
    (let n = mem_next m; m' = m\<lparr>mem_next := Suc n\<rparr> in
     if mem_oracle m n
     then (Some n, m'\<lparr>mem_blocks := (mem_blocks m)(n \<mapsto> map (mem_junk m n) [0..<unat sz div w]),
                      mem_heap := insert n (mem_heap m)\<rparr>)
     else (None, m'))"

definition tt_free :: "ptr \<Rightarrow> 'c mem \<Rightarrow> 'c mem run" where
  "tt_free p m = (case p of
      None \<Rightarrow> Inr m
    | Some i \<Rightarrow> if i \<in> mem_heap m
                then Inr (m\<lparr>mem_blocks := (mem_blocks m)(i := None), mem_heap := mem_heap m - {i}\<rparr>)
                else Inl Undef)"

text \<open>Reading and writing \<open>n\<close> bytes at byte offset \<open>off\<close> of the block \<open>p\<close> points to.\<close>

definition mem_load :: "nat \<Rightarrow> 'c mem \<Rightarrow> ptr \<Rightarrow> nat \<Rightarrow> nat \<Rightarrow> 'c list run" where
  "mem_load w m p off n =
    (if n = 0 then Inr []
     else case p of None \<Rightarrow> Inl Undef
     | Some i \<Rightarrow> (case mem_blocks m i of None \<Rightarrow> Inl Undef
       | Some cs \<Rightarrow> if w dvd off \<and> w dvd n \<and> off + n \<le> w * length cs
                     then Inr (take (n div w) (drop (off div w) cs)) else Inl Undef))"

definition mem_store :: "nat \<Rightarrow> 'c mem \<Rightarrow> ptr \<Rightarrow> nat \<Rightarrow> 'c list \<Rightarrow> 'c mem run" where
  "mem_store w m p off vs =
    (if vs = [] then Inr m
     else case p of None \<Rightarrow> Inl Undef
     | Some i \<Rightarrow> (case mem_blocks m i of None \<Rightarrow> Inl Undef
       | Some cs \<Rightarrow> if w dvd off \<and> off + w * length vs \<le> w * length cs
                     then Inr (m\<lparr>mem_blocks := (mem_blocks m)(i \<mapsto> overwrite (off div w) vs cs)\<rparr>)
                     else Inl Undef))"

text \<open>\<^verbatim>\<open>memmove\<close>, and \<^verbatim>\<open>memcpy\<close>, whose source and destination must not overlap.\<close>

definition tt_memmove :: "nat \<Rightarrow> 'c mem \<Rightarrow> ptr \<Rightarrow> nat \<Rightarrow> ptr \<Rightarrow> nat \<Rightarrow> nat \<Rightarrow> 'c mem run" where
  "tt_memmove w m dst doff src soff n =
    bindr (mem_load w m src soff n) (\<lambda>vs. mem_store w m dst doff vs)"

definition tt_memcpy :: "nat \<Rightarrow> 'c mem \<Rightarrow> ptr \<Rightarrow> nat \<Rightarrow> ptr \<Rightarrow> nat \<Rightarrow> nat \<Rightarrow> 'c mem run" where
  "tt_memcpy w m dst doff src soff n =
    (if n \<noteq> 0 \<and> dst = src \<and> soff < doff + n \<and> doff < soff + n then Inl Undef
     else tt_memmove w m dst doff src soff n)"

section \<open>The memory spring\<close>

record tt_memspg =
  min_extend :: u32
  max_extend :: u32
  max_limit :: u32

definition tt_memspg_init :: "u32 \<Rightarrow> u32 \<Rightarrow> u32 \<Rightarrow> tt_memspg run" where
  "tt_memspg_init mine maxe lim =
    bindr (TT_ASSERT (mine > 0)) (\<lambda>_.
    bindr (TT_ASSERT (mine < maxe)) (\<lambda>_.
    bindr (TT_ASSERT (lim = 0 \<or> maxe < lim)) (\<lambda>_.
    Inr \<lparr>min_extend = mine, max_extend = maxe, max_limit = lim\<rparr>)))"

definition tt_memspg_next_size :: "tt_memspg \<Rightarrow> u32 \<Rightarrow> u32" where
  "tt_memspg_next_size mspg sz =
    (if sz < min_extend mspg then min_extend mspg
     else if sz \<le> max_extend mspg then push_bit 1 sz
     else let next_size = sz + max_extend mspg in
       if next_size < sz then 0
       else if max_limit mspg = 0 \<or> next_size \<le> max_limit mspg then next_size
       else 0)"

text \<open>
  The \<^verbatim>\<open>do ... while (new_size < to_size)\<close> loop of \<^verbatim>\<open>tt_memspg_extend_ex\<close>; a result of 0 is the
  loop's \<^verbatim>\<open>return TT_FAIL\<close>, \<open>None\<close> a loop that does not end.
\<close>

partial_function (option) memspg_grow :: "tt_memspg \<Rightarrow> u32 \<Rightarrow> u32 \<Rightarrow> u32 \<Rightarrow> u32 run option" where
  "memspg_grow mspg sz to_size cur =
    (let new_size = tt_memspg_next_size mspg cur in
     if new_size = 0 then Some (Inr 0)
     else if \<not> new_size > sz then Some (Inl Throw)
     else if new_size < to_size then memspg_grow mspg sz to_size new_size
     else Some (Inr new_size))"

text \<open>\<^verbatim>\<open>TT_MSPGEXT_ZERO\<close> and \<^verbatim>\<open>TT_MSPGEXT_NOFREE\<close>, the two flags of an extension.\<close>

definition TT_MSPGEXT_ZERO :: u32 where "TT_MSPGEXT_ZERO = push_bit 0 1"
definition TT_MSPGEXT_NOFREE :: u32 where "TT_MSPGEXT_NOFREE = push_bit 1 1"

definition tt_memspg_extend_ex ::
  "nat \<Rightarrow> 'c \<Rightarrow> tt_memspg \<Rightarrow> ptr \<Rightarrow> u32 \<Rightarrow> u32 \<Rightarrow> u32 \<Rightarrow> 'c mem
    \<Rightarrow> (tt_result \<times> ptr \<times> u32 \<times> 'c mem) run"
  where
  "tt_memspg_extend_ex w zero mspg p sz to_size flag m =
    bindr (TT_ASSERT_ALWAYS (to_size > sz)) (\<lambda>_.
    bindr (case memspg_grow mspg sz to_size sz of None \<Rightarrow> Inl Diverge | Some r \<Rightarrow> r) (\<lambda>new_size.
    if new_size = 0 then Inr (TT_FAIL, p, sz, m) else
    (case tt_malloc w new_size m of
       (None, m) \<Rightarrow> Inr (TT_FAIL, p, sz, m)
     | (Some new_p, m) \<Rightarrow>
       if p \<noteq> None then
         bindr (tt_memcpy w m (Some new_p) 0 p 0 (unat sz)) (\<lambda>m.
         bindr (if flag AND TT_MSPGEXT_ZERO \<noteq> 0
                then mem_store w m (Some new_p) (unat sz)
                       (replicate (unat (new_size - sz) div w) zero)
                else Inr m) (\<lambda>m.
         bindr (if flag AND TT_MSPGEXT_NOFREE = 0 then tt_free p m else Inr m) (\<lambda>m.
         Inr (TT_SUCCESS, Some new_p, new_size, m))))
       else Inr (TT_SUCCESS, Some new_p, new_size, m))))"

definition tt_memspg_extend ::
  "nat \<Rightarrow> 'c \<Rightarrow> tt_memspg \<Rightarrow> ptr \<Rightarrow> u32 \<Rightarrow> u32 \<Rightarrow> 'c mem \<Rightarrow> (tt_result \<times> ptr \<times> u32 \<times> 'c mem) run"
  where "tt_memspg_extend w zero mspg p sz to_size m =
    tt_memspg_extend_ex w zero mspg p sz to_size 0 m"

definition tt_memspg_compress ::
  "nat \<Rightarrow> tt_memspg \<Rightarrow> ptr \<Rightarrow> u32 \<Rightarrow> u32 \<Rightarrow> 'c mem \<Rightarrow> (tt_result \<times> ptr \<times> u32 \<times> 'c mem) run"
  where
  "tt_memspg_compress w mspg p sz to_size m =
    bindr (TT_ASSERT (p \<noteq> None)) (\<lambda>_.
    bindr (TT_ASSERT_ALWAYS (to_size < sz)) (\<lambda>_.
    if to_size \<noteq> 0 then
      (case tt_malloc w to_size m of
         (None, m) \<Rightarrow> Inr (TT_FAIL, p, sz, m)
       | (new_p, m) \<Rightarrow>
         bindr (tt_memcpy w m new_p 0 p 0 (unat to_size)) (\<lambda>m.
         bindr (tt_free p m) (\<lambda>m. Inr (TT_SUCCESS, new_p, to_size, m))))
    else bindr (tt_free p m) (\<lambda>m. Inr (TT_SUCCESS, None, to_size, m))))"

definition tt_memspg_compress_range ::
  "nat \<Rightarrow> tt_memspg \<Rightarrow> ptr \<Rightarrow> u32 \<Rightarrow> u32 \<Rightarrow> u32 \<Rightarrow> 'c mem \<Rightarrow> (tt_result \<times> ptr \<times> u32 \<times> 'c mem) run"
  where
  "tt_memspg_compress_range w mspg p sz from to m =
    (let new_size = to - from in
     bindr (TT_ASSERT (p \<noteq> None)) (\<lambda>_.
     bindr (TT_ASSERT_ALWAYS (from \<le> to)) (\<lambda>_.
     bindr (TT_ASSERT_ALWAYS (to \<le> sz)) (\<lambda>_.
     if new_size \<noteq> 0 then
       (case tt_malloc w new_size m of
          (None, m) \<Rightarrow> Inr (TT_FAIL, p, sz, m)
        | (new_p, m) \<Rightarrow>
          bindr (tt_memcpy w m new_p 0 p (unat from) (unat new_size)) (\<lambda>m.
          bindr (tt_free p m) (\<lambda>m. Inr (TT_SUCCESS, new_p, new_size, m))))
     else bindr (tt_free p m) (\<lambda>m. Inr (TT_SUCCESS, None, new_size, m))))))"


section \<open>Facts about the store\<close>

definition mem_inv :: "'c mem \<Rightarrow> bool" where
  "mem_inv m \<longleftrightarrow> (\<forall>i \<in> dom (mem_blocks m). i < mem_next m) \<and> mem_heap m \<subseteq> dom (mem_blocks m)"

text \<open>Two stores agree on the blocks of the first one outside a set.\<close>

definition mem_frame :: "nat set \<Rightarrow> 'c mem \<Rightarrow> 'c mem \<Rightarrow> bool" where
  "mem_frame S m m' \<longleftrightarrow> (\<forall>i \<in> dom (mem_blocks m) - S.
     mem_blocks m' i = mem_blocks m i \<and> (i \<in> mem_heap m' \<longleftrightarrow> i \<in> mem_heap m))"

text \<open>\<open>p\<close> points to a live block of \<open>sz\<close> bytes with contents \<open>cs\<close>; the null pointer has none.\<close>

definition points_to :: "nat \<Rightarrow> 'c mem \<Rightarrow> ptr \<Rightarrow> u32 \<Rightarrow> 'c list \<Rightarrow> bool" where
  "points_to w m p sz cs \<longleftrightarrow> w * length cs = unat sz \<and>
     (case p of None \<Rightarrow> cs = [] | Some i \<Rightarrow> mem_blocks m i = Some cs)"

definition memspg_ok :: "nat \<Rightarrow> tt_memspg \<Rightarrow> bool" where
  "memspg_ok w g \<longleftrightarrow> 0 < min_extend g \<and> min_extend g < max_extend g
     \<and> (max_limit g = 0 \<or> max_extend g < max_limit g)
     \<and> unat (max_extend g) \<le> 2 ^ 30 \<and> 0 < w \<and> w dvd unat (min_extend g) \<and> w dvd unat (max_extend g)"

lemma mem_frame_refl [simp]: "mem_frame S m m"
  by (simp add: mem_frame_def)

lemma mem_frame_trans:
  "mem_frame S m m' \<Longrightarrow> mem_frame T m' m'' \<Longrightarrow> mem_frame (S \<union> T) m m''"
  unfolding mem_frame_def by (metis Diff_iff UnCI domIff)

lemma mem_frameD:
  assumes "mem_frame S m m'" "mem_blocks m i = Some cs" "i \<notin> S"
  shows "mem_blocks m' i = Some cs" "i \<in> mem_heap m' \<longleftrightarrow> i \<in> mem_heap m"
  using assms by (auto simp: mem_frame_def dom_def)

lemma mem_inv_lt: "mem_inv m \<Longrightarrow> mem_blocks m i = Some cs \<Longrightarrow> i < mem_next m"
  by (auto simp: mem_inv_def)

lemma mem_inv_next: "mem_inv m \<Longrightarrow> mem_blocks m (mem_next m) = None"
  by (auto simp: mem_inv_def)

lemma mem_inv_heap_next: "mem_inv m \<Longrightarrow> mem_next m \<notin> mem_heap m"
  by (auto simp: mem_inv_def)

lemma points_to_NoneD: "points_to w m None sz cs \<Longrightarrow> cs = [] \<and> sz = 0"
  by (auto simp: points_to_def unat_eq_zero)

lemma points_to_SomeD:
  "points_to w m (Some i) sz cs \<Longrightarrow> mem_blocks m i = Some cs \<and> w * length cs = unat sz"
  by (simp add: points_to_def)

lemma mem_load_ok:
  assumes "mem_blocks m i = Some cs" "w dvd off" "w dvd n" "off + n \<le> w * length cs"
  shows "mem_load w m (Some i) off n = Inr (take (n div w) (drop (off div w) cs))"
  using assms by (auto simp: mem_load_def)

lemma mem_store_ok:
  assumes "mem_blocks m i = Some cs" "w dvd off" "off + w * length vs \<le> w * length cs"
  shows "mem_store w m (Some i) off vs =
    Inr (m\<lparr>mem_blocks := (mem_blocks m)(i \<mapsto> overwrite (off div w) vs cs)\<rparr>)"
proof (cases "vs = []")
  case True
  have "m\<lparr>mem_blocks := (mem_blocks m)(i \<mapsto> cs)\<rparr> = m"
    using assms(1) by (simp add: fun_upd_idem)
  with True show ?thesis
    by (simp add: mem_store_def)
next
  case False
  with assms show ?thesis
    by (simp add: mem_store_def)
qed

lemma mem_inv_upd:
  "mem_inv m \<Longrightarrow> mem_blocks m i = Some cs \<Longrightarrow> mem_inv (m\<lparr>mem_blocks := (mem_blocks m)(i \<mapsto> cs')\<rparr>)"
  by (auto simp: mem_inv_def split: if_splits)

lemma mem_frame_upd: "i \<in> S \<Longrightarrow> mem_frame S m (m\<lparr>mem_blocks := (mem_blocks m)(i := v)\<rparr>)"
  by (auto simp: mem_frame_def)

section \<open>Facts about the spring\<close>

lemma tt_memspg_init_ok:
  "tt_memspg_init a b c = Inr g \<longleftrightarrow>
    0 < a \<and> a < b \<and> (c = 0 \<or> b < c) \<and> g = \<lparr>min_extend = a, max_extend = b, max_limit = c\<rparr>"
  by (auto simp: tt_memspg_init_def bindr_eq_Inr_iff)

lemma unat_double_u32: "unat (s :: u32) < 2147483648 \<Longrightarrow> unat (push_bit 1 s) = 2 * unat s"
  by (simp add: push_bit_eq_mult unat_word_ariths)

lemma next_size_cases:
  assumes "memspg_ok w g"
  obtains (small) "unat s < unat (min_extend g)"
      "unat (tt_memspg_next_size g s) = unat (min_extend g)"
    | (double) "unat (min_extend g) \<le> unat s" "unat s \<le> unat (max_extend g)"
      "unat (tt_memspg_next_size g s) = 2 * unat s"
    | (add) "unat (max_extend g) < unat s" "unat s + unat (max_extend g) < 2 ^ 32"
      "max_limit g = 0 \<or> unat s + unat (max_extend g) \<le> unat (max_limit g)"
      "unat (tt_memspg_next_size g s) = unat s + unat (max_extend g)"
    | (none) "unat (max_extend g) < unat s" "tt_memspg_next_size g s = 0"
      "2 ^ 32 \<le> unat s + unat (max_extend g) \<or>
       (max_limit g \<noteq> 0 \<and> unat (max_limit g) < unat s + unat (max_extend g))"
proof -
  have maxb: "unat (max_extend g) \<le> 1073741824"
    using assms by (simp add: memspg_ok_def)
  consider "unat s < unat (min_extend g)"
    | "unat (min_extend g) \<le> unat s" "unat s \<le> unat (max_extend g)"
    | "unat (max_extend g) < unat s" "unat (min_extend g) \<le> unat s"
      "4294967296 \<le> unat s + unat (max_extend g)"
    | "unat (max_extend g) < unat s" "unat (min_extend g) \<le> unat s"
      "unat s + unat (max_extend g) < 4294967296"
    by linarith
  then show thesis
  proof cases
    case 1
    then show thesis
      by (intro small) (simp_all add: tt_memspg_next_size_def word_less_nat_alt)
  next
    case 2
    then show thesis
      using maxb unat_double_u32 [of s]
      by (intro double) (simp_all add: tt_memspg_next_size_def word_less_nat_alt word_le_nat_alt)
  next
    case 3
    then show thesis
      using unat_add_wrap_u32 [of s "max_extend g"]
      by (intro none)
        (simp_all add: tt_memspg_next_size_def word_less_nat_alt word_le_nat_alt Let_def)
  next
    case 4
    then have ua: "unat (s + max_extend g) = unat s + unat (max_extend g)"
      by (simp add: unat_add_u32)
    show thesis
    proof (cases "max_limit g = 0 \<or> unat s + unat (max_extend g) \<le> unat (max_limit g)")
      case True
      with 4 ua show thesis
        by (intro add) (auto simp: tt_memspg_next_size_def word_less_nat_alt word_le_nat_alt Let_def)
    next
      case False
      with 4 ua show thesis
        by (intro none) (auto simp: tt_memspg_next_size_def word_less_nat_alt word_le_nat_alt Let_def)
    qed
  qed
qed

lemma next_size_gt:
  assumes "memspg_ok w g" "tt_memspg_next_size g s \<noteq> 0"
  shows "unat s < unat (tt_memspg_next_size g s)"
  using assms(1)
proof (cases rule: next_size_cases [where s = s])
  case none
  with assms(2) show ?thesis by simp
qed (use assms(1) in \<open>auto simp: memspg_ok_def word_less_nat_alt\<close>)

lemma next_size_dvd:
  assumes "memspg_ok w g" "w dvd unat s"
  shows "w dvd unat (tt_memspg_next_size g s)"
  using assms(1) by (cases rule: next_size_cases [where s = s]) (use assms in \<open>auto simp: memspg_ok_def\<close>)

text \<open>The loop ends: either with a size that is large enough, or with the growth exhausted.\<close>

lemma memspg_grow_total:
  assumes "memspg_ok w g" "unat sz \<le> unat cur" "w dvd unat cur"
  shows "\<exists>r. memspg_grow g sz to_size cur = Some (Inr r) \<and>
    (r \<noteq> 0 \<longrightarrow> unat to_size \<le> unat r \<and> unat sz < unat r \<and> w dvd unat r)"
  using assms(2,3)
proof (induction "4294967296 - unat cur" arbitrary: cur rule: less_induct)
  case less
  let ?n = "tt_memspg_next_size g cur"
  show ?case
  proof (cases "?n = 0")
    case True
    then show ?thesis
      by (subst memspg_grow.simps) simp
  next
    case False
    from next_size_gt [OF assms(1) False] have gt: "unat cur < unat ?n" .
    have dvd: "w dvd unat ?n"
      using assms(1) less.prems(2) by (rule next_size_dvd)
    show ?thesis
    proof (cases "?n < to_size")
      case True
      have "4294967296 - unat ?n < 4294967296 - unat cur"
        using gt unat_lt_32 [of ?n] by linarith
      from less.hyps [OF this] gt less.prems dvd True False show ?thesis
        by (subst memspg_grow.simps) (auto simp: word_less_nat_alt Let_def)
    next
      case False
      with gt \<open>?n \<noteq> 0\<close> less.prems dvd show ?thesis
        by (subst memspg_grow.simps) (auto simp: word_less_nat_alt Let_def)
    qed
  qed
qed

text \<open>Without a limit, growth is refused only within \<open>max_extend\<close> of the end of the 32-bit range.\<close>

lemma memspg_grow_unlimited:
  assumes "memspg_ok w g" "max_limit g = 0" "unat sz \<le> unat cur" "unat cur < unat to_size"
    "unat to_size + unat (max_extend g) < 2 ^ 32"
  shows "memspg_grow g sz to_size cur \<noteq> Some (Inr 0)"
  using assms(3,4)
proof (induction "4294967296 - unat cur" arbitrary: cur rule: less_induct)
  case less
  let ?n = "tt_memspg_next_size g cur"
  from assms(1) have nz: "?n \<noteq> 0"
  proof (cases rule: next_size_cases [where s = cur])
    case small
    then show ?thesis using less.prems assms(1) by (auto simp: memspg_ok_def)
  next
    case double
    then show ?thesis using assms(1) by (auto simp: memspg_ok_def word_less_nat_alt)
  next
    case add
    then show ?thesis by auto
  next
    case none
    then show ?thesis using assms(2,5) less.prems by auto
  qed
  from next_size_gt [OF assms(1) nz] have gt: "unat cur < unat ?n" .
  show ?case
  proof (cases "?n < to_size")
    case True
    have "4294967296 - unat ?n < 4294967296 - unat cur"
      using gt unat_lt_32 [of ?n] by linarith
    from less.hyps [OF this] gt less.prems True nz show ?thesis
      by (subst memspg_grow.simps) (auto simp: word_less_nat_alt Let_def)
  next
    case False
    with gt nz less.prems show ?thesis
      by (subst memspg_grow.simps) (auto simp: word_less_nat_alt Let_def)
  qed
qed


section \<open>What the spring's operations do to the store\<close>

text \<open>
  \<open>moved m S n cs m'\<close>: \<open>m'\<close> is \<open>m\<close> with the blocks \<open>S\<close> released and a new heap block \<open>n\<close> holding \<open>cs\<close>.
\<close>

definition moved :: "'c mem \<Rightarrow> nat set \<Rightarrow> nat \<Rightarrow> 'c list \<Rightarrow> 'c mem \<Rightarrow> bool" where
  "moved m S n cs m' \<longleftrightarrow> mem_blocks m n = None \<and> n \<notin> mem_heap m
     \<and> mem_blocks m' = (mem_blocks m |` (- S))(n \<mapsto> cs)
     \<and> mem_heap m' = insert n (mem_heap m - S)"

definition same_store :: "'c mem \<Rightarrow> 'c mem \<Rightarrow> bool" where
  "same_store m m' \<longleftrightarrow> mem_blocks m' = mem_blocks m \<and> mem_heap m' = mem_heap m"

lemma same_store_refl [simp]: "same_store m m"
  by (simp add: same_store_def)

lemma same_store_points_to: "same_store m m' \<Longrightarrow> points_to w m' p sz cs = points_to w m p sz cs"
  by (auto simp: same_store_def points_to_def split: option.splits)

lemma same_store_frame: "same_store m m' \<Longrightarrow> mem_frame S m m'"
  by (simp add: same_store_def mem_frame_def)

lemma movedD:
  assumes "moved m S n cs m'"
  shows "mem_blocks m n = None" "n \<notin> mem_heap m"
    "mem_blocks m' = (mem_blocks m |` (- S))(n \<mapsto> cs)" "mem_heap m' = insert n (mem_heap m - S)"
  using assms unfolding moved_def by blast+

lemma moved_frame:
  assumes "moved m S n cs m'"
  shows "mem_frame S m m'"
  unfolding mem_frame_def
proof
  fix i
  assume i: "i \<in> dom (mem_blocks m) - S"
  then have "i \<noteq> n"
    using movedD(1) [OF assms] by auto
  with i movedD(3,4) [OF assms] show "mem_blocks m' i = mem_blocks m i \<and> (i \<in> mem_heap m' \<longleftrightarrow> i \<in> mem_heap m)"
    by simp
qed

lemma moved_new: "moved m S n cs m' \<Longrightarrow> mem_blocks m' n = Some cs \<and> n \<in> mem_heap m'"
  by (simp add: moved_def)

lemma malloc_cases:
  assumes "mem_inv m" "w dvd unat sz"
  obtains (fail) m' where "tt_malloc w sz m = (None, m')" "mem_inv m'" "same_store m m'"
  | (ok) n cs m' where "tt_malloc w sz m = (Some n, m')" "mem_inv m'" "moved m {} n cs m'"
      "w * length cs = unat sz" "n = mem_next m"
proof (cases "mem_oracle m (mem_next m)")
  case True
  let ?m = "snd (tt_malloc w sz m)"
  have eq: "tt_malloc w sz m = (Some (mem_next m), ?m)"
    using True by (simp add: tt_malloc_def Let_def)
  have "mem_inv ?m"
    using assms True by (auto simp: tt_malloc_def Let_def mem_inv_def less_Suc_eq)
  moreover have "moved m {} (mem_next m) (map (mem_junk m (mem_next m)) [0..<unat sz div w]) ?m"
    using assms(1) True mem_inv_next [OF assms(1)] mem_inv_heap_next [OF assms(1)]
    by (simp add: tt_malloc_def Let_def moved_def restrict_map_def)
  ultimately show thesis
    using ok [OF eq] assms(2) by simp
next
  case False
  then show thesis
    using fail [of "m\<lparr>mem_next := Suc (mem_next m)\<rparr>"] assms(1)
    by (auto simp: tt_malloc_def Let_def mem_inv_def same_store_def less_Suc_eq)
qed

lemma memcpy_to_new:
  assumes "mem_blocks m n = Some cs" "mem_blocks m i = Some xs" "n \<noteq> i" "0 < w"
    "k \<le> length cs" "j + k \<le> length xs"
  shows "tt_memcpy w m (Some n) 0 (Some i) (w * j) (w * k) =
    Inr (m\<lparr>mem_blocks := (mem_blocks m)(n \<mapsto> take k (drop j xs) @ drop k cs)\<rparr>)"
proof -
  have "w * j + w * k \<le> w * length xs"
    using assms(6) by (metis add_mult_distrib2 mult_le_mono2)
  then have ld: "mem_load w m (Some i) (w * j) (w * k) = Inr (take k (drop j xs))"
    using assms by (simp add: mem_load_ok)
  have len: "length (take k (drop j xs)) = k"
    using assms(6) by simp
  then have "mem_store w m (Some n) 0 (take k (drop j xs)) =
    Inr (m\<lparr>mem_blocks := (mem_blocks m)(n \<mapsto> overwrite 0 (take k (drop j xs)) cs)\<rparr>)"
    using assms mem_store_ok [of m n cs w 0 "take k (drop j xs)"] by simp
  with ld len assms(3) show ?thesis
    by (simp add: tt_memcpy_def tt_memmove_def overwrite_def)
qed

lemma free_ok:
  assumes "i \<in> mem_heap m"
  shows "tt_free (Some i) m =
    Inr (m\<lparr>mem_blocks := (mem_blocks m)(i := None), mem_heap := mem_heap m - {i}\<rparr>)"
  using assms by (simp add: tt_free_def)

lemma mem_inv_free:
  "mem_inv m \<Longrightarrow> mem_inv (m\<lparr>mem_blocks := (mem_blocks m)(i := None), mem_heap := mem_heap m - {i}\<rparr>)"
  by (auto simp: mem_inv_def)

text \<open>
  Copying the \<open>k\<close> cells from \<open>j\<close> of the old block into the new one and releasing the old block
  unless told otherwise: the common tail of extension and compression.
\<close>

lemma copy_and_release:
  assumes inv: "mem_inv m" and new: "moved m0 {} n cs' m" and old: "mem_blocks m0 i = Some xs"
    and own: "rel \<Longrightarrow> i \<in> mem_heap m0" and w: "0 < w" and k: "k \<le> length cs'" "j + k \<le> length xs"
  shows "\<exists>m'. bindr (tt_memcpy w m (Some n) 0 (Some i) (w * j) (w * k))
      (\<lambda>m. if rel then tt_free (Some i) m else Inr m) = Inr m'
    \<and> mem_inv m' \<and> moved m0 (if rel then {i} else {}) n (take k (drop j xs) @ drop k cs') m'"
proof -
  let ?cs = "take k (drop j xs) @ drop k cs'"
  let ?m1 = "m\<lparr>mem_blocks := (mem_blocks m)(n \<mapsto> ?cs)\<rparr>"
  have ni: "n \<noteq> i"
    using movedD(1) [OF new] old by auto
  have blk: "mem_blocks m n = Some cs'" "mem_blocks m i = Some xs"
    using movedD(3) [OF new] old ni by simp_all
  have c: "tt_memcpy w m (Some n) 0 (Some i) (w * j) (w * k) = Inr ?m1"
    using ni blk w k by (simp add: memcpy_to_new)
  have inv1: "mem_inv ?m1"
    using inv blk by (simp add: mem_inv_upd)
  show ?thesis
  proof (cases rel)
    case False
    with c inv1 new show ?thesis
      by (auto simp: moved_def)
  next
    case True
    let ?m2 = "?m1\<lparr>mem_blocks := (mem_blocks ?m1)(i := None), mem_heap := mem_heap ?m1 - {i}\<rparr>"
    have "i \<in> mem_heap ?m1"
      using new own [OF True] by (simp add: moved_def)
    then have "tt_free (Some i) ?m1 = Inr ?m2"
      by (rule free_ok)
    moreover have "moved m0 {i} n ?cs ?m2"
      using movedD [OF new] ni by (simp add: moved_def restrict_map_def fun_eq_iff insert_Diff_if)
    ultimately show ?thesis
      using True c mem_inv_free [OF inv1, of i] by simp
  qed
qed

lemma memspg_extend_ex_cases:
  assumes g: "memspg_ok w g" and inv: "mem_inv m" and pt: "points_to w m p sz cs"
    and own: "flag AND TT_MSPGEXT_NOFREE \<noteq> 0 \<or> set_option p \<subseteq> mem_heap m"
    and nz: "flag AND TT_MSPGEXT_ZERO = 0"
    and gt: "sz < to_size"
  obtains (fail) m' where
      "tt_memspg_extend_ex w z g p sz to_size flag m = Inr (TT_FAIL, p, sz, m')"
      "mem_inv m'" "same_store m m'"
  | (ok) n sz' cs' m' where
      "tt_memspg_extend_ex w z g p sz to_size flag m = Inr (TT_SUCCESS, Some n, sz', m')"
      "mem_inv m'" "w * length cs' = unat sz'" "take (length cs) cs' = cs"
      "unat to_size \<le> unat sz'" "unat sz < unat sz'"
      "moved m (if flag AND TT_MSPGEXT_NOFREE = 0 then set_option p else {}) n cs' m'"
proof -
  have w: "0 < w" and szw: "w * length cs = unat sz"
    using g pt by (auto simp: memspg_ok_def points_to_def)
  from memspg_grow_total [OF g, of sz sz to_size] szw obtain r where
    r: "memspg_grow g sz to_size sz = Some (Inr r)" and
    rr: "r \<noteq> 0 \<Longrightarrow> unat to_size \<le> unat r \<and> unat sz < unat r \<and> w dvd unat r"
    by (metis dvd_triv_left order_refl)
  note unfold = tt_memspg_extend_ex_def gt r
  show thesis
  proof (cases "r = 0")
    case True
    then show thesis
      using fail [of m] inv gt r by (simp add: tt_memspg_extend_ex_def)
  next
    case False
    with rr have rr: "unat to_size \<le> unat r" "unat sz < unat r" "w dvd unat r" by auto
    from inv rr(3) show thesis
    proof (cases rule: malloc_cases)
      case (fail m')
      with that(1) [of m'] False gt r show thesis
        by (simp add: tt_memspg_extend_ex_def)
    next
      case new: (ok n cs' m')
      show thesis
      proof (cases p)
        case None
        with pt have "cs = []" by (simp add: points_to_def)
        with that(2) [of n r m' cs'] new None False gt r rr show thesis
          by (simp add: tt_memspg_extend_ex_def)
      next
        case (Some i)
        let ?rel = "flag AND TT_MSPGEXT_NOFREE = 0"
        have le: "length cs \<le> length cs'"
          using szw new(4) rr(2) w by (metis less_or_eq_imp_le nat_mult_le_cancel_disj not_gr_zero)
        have old: "mem_blocks m i = Some cs"
          using pt Some by (simp add: points_to_def)
        obtain m'' where m'': "bindr (tt_memcpy w m' (Some n) 0 (Some i) (w * 0) (w * length cs))
            (\<lambda>m. if ?rel then tt_free (Some i) m else Inr m) = Inr m''" "mem_inv m''"
            "moved m (if ?rel then {i} else {}) n (take (length cs) (drop 0 cs) @ drop (length cs) cs') m''"
          using copy_and_release [OF new(2,3) old, of ?rel w "length cs" 0] own Some w le
          by auto
        have "tt_memspg_extend_ex w z g p sz to_size flag m = Inr (TT_SUCCESS, Some n, r, m'')"
          using m''(1) new(1) Some False gt r nz szw
          by (auto simp: tt_memspg_extend_ex_def bindr_eq_Inr_iff split: if_splits)
        then show thesis
          using m''(2,3) new(4) rr le Some
          by (intro that(2) [of n r m'' "cs @ drop (length cs) cs'"]) (simp_all split: if_splits)
      qed
    qed
  qed
qed


text \<open>An extension fails only when the growth is exhausted or the allocation is refused, and then it does.\<close>

definition spg_room :: "tt_memspg \<Rightarrow> u32 \<Rightarrow> u32 \<Rightarrow> 'c mem \<Rightarrow> bool" where
  "spg_room g sz to_size m \<longleftrightarrow> memspg_grow g sz to_size sz \<noteq> Some (Inr 0) \<and> mem_oracle m (mem_next m)"

lemma memspg_extend_ex_room:
  "spg_room g sz to_size m \<Longrightarrow> tt_memspg_extend_ex w z g p sz to_size flag m \<noteq> Inr (TT_FAIL, p', sz', m')"
  "\<not> spg_room g sz to_size m \<Longrightarrow> tt_memspg_extend_ex w z g p sz to_size flag m \<noteq> Inr (TT_SUCCESS, p', sz', m')"
  by (auto simp: spg_room_def tt_memspg_extend_ex_def tt_malloc_def Let_def bindr_def split: sum.splits option.splits if_splits)

text \<open>\<open>released m S m'\<close>: \<open>m'\<close> is \<open>m\<close> with the blocks \<open>S\<close> given back.\<close>

definition released :: "'c mem \<Rightarrow> nat set \<Rightarrow> 'c mem \<Rightarrow> bool" where
  "released m S m' \<longleftrightarrow> mem_blocks m' = mem_blocks m |` (- S) \<and> mem_heap m' = mem_heap m - S"

lemma released_frame: "released m S m' \<Longrightarrow> mem_frame S m m'"
  unfolding released_def mem_frame_def by simp

lemma free_released:
  assumes "mem_inv m" "i \<in> mem_heap m"
  shows "\<exists>m'. tt_free (Some i) m = Inr m' \<and> mem_inv m' \<and> released m {i} m'"
  using assms(1) mem_inv_free [OF assms(1), of i] free_ok [OF assms(2)]
  by (auto simp: released_def restrict_map_def fun_eq_iff)

lemma memspg_compress_range_cases:
  assumes inv: "mem_inv m" and pt: "points_to w m (Some i) sz cs" and own: "i \<in> mem_heap m"
    and le: "from \<le> to" "to \<le> sz" and w: "0 < w" "w dvd unat from" "w dvd unat to"
  obtains (fail) m' where "tt_memspg_compress_range w g (Some i) sz from to m = Inr (TT_FAIL, Some i, sz, m')"
      "from \<noteq> to" "mem_inv m'" "same_store m m'"
  | (empty) m' where "tt_memspg_compress_range w g (Some i) sz from to m = Inr (TT_SUCCESS, None, 0, m')"
      "from = to" "mem_inv m'" "released m {i} m'"
  | (ok) n m' where "tt_memspg_compress_range w g (Some i) sz from to m = Inr (TT_SUCCESS, Some n, to - from, m')"
      "from \<noteq> to" "mem_inv m'"
      "moved m {i} n (take (unat (to - from) div w) (drop (unat from div w) cs)) m'"
proof (cases "from = to")
  case True
  with free_released [OF inv own] le empty show thesis
    by (auto simp: tt_memspg_compress_range_def)
next
  case False
  have cs: "mem_blocks m i = Some cs" "w * length cs = unat sz"
    using pt by (auto simp: points_to_def)
  have sub: "unat (to - from) = unat to - unat from"
    using le by (simp add: unat_sub)
  have dv: "w dvd unat (to - from)"
    using w sub by (simp add: dvd_diff_nat)
  from inv dv show thesis
  proof (cases rule: malloc_cases)
    case (fail m')
    with that(1) False le show thesis
      by (simp add: tt_memspg_compress_range_def Let_def)
  next
    case new: (ok n cs' m')
    obtain k j where kj: "unat (to - from) = w * k" "unat from = w * j"
      using dv w(2) by (elim dvdE)
    have "w * (j + k) \<le> w * length cs"
      using kj sub cs(2) le by (simp add: word_le_nat_alt distrib_left)
    then have jk: "j + k \<le> length cs" and kl: "length cs' = k"
      using w(1) new(4) kj(1) by auto
    have "\<exists>m''. bindr (tt_memcpy w m' (Some n) 0 (Some i) (w * j) (w * k))
        (\<lambda>m. if True then tt_free (Some i) m else Inr m) = Inr m''
      \<and> mem_inv m'' \<and> moved m (if True then {i} else {}) n (take k (drop j cs) @ drop k cs') m''"
      using own w jk kl by (intro copy_and_release [OF new(2,3) cs(1)]) auto
    then obtain m'' where "bindr (tt_memcpy w m' (Some n) 0 (Some i) (w * j) (w * k))
        (\<lambda>m. tt_free (Some i) m) = Inr m''"
      "mem_inv m''" "moved m {i} n (take k (drop j cs)) m''"
      using kl by auto
    with that(3) [of n m''] new(1) kj w(1) False le show thesis
      by (auto simp: tt_memspg_compress_range_def Let_def bindr_eq_Inr_iff)
  qed
qed

lemma compress_as_range:
  "to_size < sz \<Longrightarrow> tt_memspg_compress w g p sz to_size m = tt_memspg_compress_range w g p sz 0 to_size m"
  by (simp add: tt_memspg_compress_def tt_memspg_compress_range_def Let_def order.strict_implies_order
      split: prod.split option.split)

lemma memspg_compress_cases:
  assumes inv: "mem_inv m" and pt: "points_to w m (Some i) sz cs" and own: "i \<in> mem_heap m"
    and lt: "to_size < sz" and w: "0 < w" "w dvd unat to_size"
  obtains (fail) m' where "tt_memspg_compress w g (Some i) sz to_size m = Inr (TT_FAIL, Some i, sz, m')"
      "to_size \<noteq> 0" "mem_inv m'" "same_store m m'"
  | (empty) m' where "tt_memspg_compress w g (Some i) sz to_size m = Inr (TT_SUCCESS, None, 0, m')"
      "to_size = 0" "mem_inv m'" "released m {i} m'"
  | (ok) n m' where "tt_memspg_compress w g (Some i) sz to_size m = Inr (TT_SUCCESS, Some n, to_size, m')"
      "to_size \<noteq> 0" "mem_inv m'" "moved m {i} n (take (unat to_size div w) cs) m'"
proof -
  have le: "(0 :: u32) \<le> to_size" "to_size \<le> sz"
    using lt by simp_all
  have w0: "w dvd unat (0 :: u32)"
    by simp
  show thesis
    using inv pt own le w(1) w0 w(2)
  proof (cases rule: memspg_compress_range_cases [where g = g])
    case (fail m')
    with that(1) [of m'] lt show thesis by (simp add: compress_as_range)
  next
    case (empty m')
    with that(2) [of m'] lt show thesis by (auto simp: compress_as_range)
  next
    case (ok n m')
    with that(3) [of n m'] lt show thesis by (auto simp: compress_as_range)
  qed
qed

end
