(* ===== verification/TT_Buffer.thy ===== *)
theory TT_Buffer
  imports TT_Memory
begin

text \<open>
  The byte buffer of \<^verbatim>\<open>algorithm/tt_buffer.h\<close> and \<^verbatim>\<open>algorithm/tt_buffer.c\<close>: a growable array with
  a read and a write position, whose storage is the array \<^verbatim>\<open>initbuf\<close> inside the struct until it
  needs more than 16 bytes. The struct's own array is a block of the store that \<^verbatim>\<open>malloc\<close> did not
  hand out, so that \<^verbatim>\<open>buf->p == buf->initbuf\<close> is a comparison of addresses, and so is the
  caller's memory that a buffer made by \<^verbatim>\<open>tt_buf_create_nocopy\<close> points to. Data the caller passes
  in is given by its bytes; it lies outside the buffer's own storage.
\<close>

section \<open>Data\<close>

definition TT_BUF_INIT_SIZE :: u32 where "TT_BUF_INIT_SIZE = 16"

record tt_buf_attr =
  attr_min_extend :: u32
  attr_max_extend :: u32
  attr_max_limit :: u32

record tt_buf =
  buf_p :: ptr
  buf_size :: u32
  buf_mspg :: tt_memspg
  buf_wpos :: u32
  buf_rpos :: u32
  buf_initbuf :: nat
  buf_readonly :: bool

type_synonym bmem = "u8 mem"

definition TT_BUF_RLEN :: "tt_buf \<Rightarrow> u32" where "TT_BUF_RLEN buf = buf_wpos buf - buf_rpos buf"
definition TT_BUF_WLEN :: "tt_buf \<Rightarrow> u32" where "TT_BUF_WLEN buf = buf_size buf - buf_wpos buf"
definition TT_BUF_REFINABLE :: "tt_buf \<Rightarrow> u32" where "TT_BUF_REFINABLE buf = buf_rpos buf"

definition TT_BUF_CHECK :: "tt_buf \<Rightarrow> unit run" where
  "TT_BUF_CHECK buf =
    bindr (TT_ASSERT (buf_p buf \<noteq> None)) (\<lambda>_.
    bindr (TT_ASSERT (buf_rpos buf \<le> buf_wpos buf)) (\<lambda>_.
    TT_ASSERT (buf_wpos buf \<le> buf_size buf)))"

text \<open>The first \<open>n\<close> bytes at a pointer of the caller.\<close>

definition src_bytes :: "u8 list \<Rightarrow> u32 \<Rightarrow> u8 list run" where
  "src_bytes data n = (if unat n \<le> length data then Inr (take (unat n) data) else Inl Undef)"

section \<open>Creation and destruction\<close>

definition tt_buf_attr_default :: tt_buf_attr where
  "tt_buf_attr_default =
    \<lparr>attr_min_extend = 64, attr_max_extend = push_bit 12 1, attr_max_limit = 0\<rparr>"

definition tt_buf_create ::
  "tt_buf \<Rightarrow> u32 \<Rightarrow> tt_buf_attr option \<Rightarrow> bmem \<Rightarrow> (tt_result \<times> tt_buf \<times> bmem) run" where
  "tt_buf_create buf sz attr m =
    (let attr = (case attr of None \<Rightarrow> tt_buf_attr_default | Some a \<Rightarrow> a) in
     bindr (tt_memspg_init (attr_min_extend attr) (attr_max_extend attr) (attr_max_limit attr)) (\<lambda>mspg.
     let buf = buf\<lparr>buf_mspg := mspg\<rparr> in
     TT_DO
       (if sz < TT_BUF_INIT_SIZE
        then Inr (TT_SUCCESS, buf\<lparr>buf_p := Some (buf_initbuf buf), buf_size := TT_BUF_INIT_SIZE\<rparr>, m)
        else bindr (tt_memspg_extend 1 0 mspg None 0 sz m) (\<lambda>(r, p, s, m).
             Inr (r, buf\<lparr>buf_p := p, buf_size := s\<rparr>, m)))
       (\<lambda>(buf, m).
         let buf = buf\<lparr>buf_wpos := 0, buf_rpos := 0\<rparr> in
         bindr (mem_store 1 m (Some (buf_initbuf buf)) 0 (replicate (unat TT_BUF_INIT_SIZE) 0)) (\<lambda>m.
         Inr (TT_SUCCESS, buf\<lparr>buf_readonly := False\<rparr>, m)))))"

definition tt_buf_init :: "tt_buf \<Rightarrow> tt_buf_attr option \<Rightarrow> bmem \<Rightarrow> (tt_buf \<times> bmem) run" where
  "tt_buf_init buf attr m = bindr (tt_buf_create buf 0 attr m) (\<lambda>(r, buf, m). Inr (buf, m))"

definition tt_buf_create_nocopy ::
  "tt_buf \<Rightarrow> ptr \<Rightarrow> u32 \<Rightarrow> tt_buf_attr option \<Rightarrow> bmem \<Rightarrow> (tt_result \<times> tt_buf \<times> bmem) run" where
  "tt_buf_create_nocopy buf data data_len attr m =
    bindr (tt_buf_create buf 0 attr m) (\<lambda>(r, buf, m).
    if \<not> TT_OK r then Inr (TT_FAIL, buf, m)
    else Inr (TT_SUCCESS, buf\<lparr>buf_p := data, buf_size := data_len, buf_wpos := data_len,
                              buf_readonly := True\<rparr>, m))"

definition tt_buf_destroy :: "tt_buf \<Rightarrow> bmem \<Rightarrow> (tt_buf \<times> bmem) run" where
  "tt_buf_destroy buf m =
    bindr (TT_ASSERT (buf_p buf \<noteq> None)) (\<lambda>_.
    if buf_p buf \<noteq> Some (buf_initbuf buf) \<and> \<not> buf_readonly buf
    then bindr (tt_memspg_compress 1 (buf_mspg buf) (buf_p buf) (buf_size buf) 0 m) (\<lambda>(r, p, s, m).
         Inr (buf\<lparr>buf_p := p, buf_size := s\<rparr>, m))
    else Inr (buf, m))"

section \<open>Memory\<close>

definition buf_extend :: "u32 \<Rightarrow> tt_buf \<Rightarrow> bmem \<Rightarrow> (tt_result \<times> tt_buf \<times> bmem) run" where
  "buf_extend sz buf m =
    (if buf_readonly buf then Inr (TT_FAIL, buf, m)
     else
       let flag = (if buf_p buf = Some (buf_initbuf buf) then 0 OR TT_MSPGEXT_NOFREE else 0) in
       bindr (tt_memspg_extend_ex 1 0 (buf_mspg buf) (buf_p buf) (buf_size buf) sz flag m)
         (\<lambda>(r, p, s, m). Inr (r, buf\<lparr>buf_p := p, buf_size := s\<rparr>, m)))"

definition tt_buf_reserve :: "u32 \<Rightarrow> tt_buf \<Rightarrow> bmem \<Rightarrow> (tt_result \<times> tt_buf \<times> bmem) run" where
  "tt_buf_reserve n buf m =
    (if TT_BUF_WLEN buf \<ge> n then Inr (TT_SUCCESS, buf, m)
     else buf_extend (buf_size buf + n) buf m)"

definition tt_buf_extend :: "tt_buf \<Rightarrow> bmem \<Rightarrow> (tt_result \<times> tt_buf \<times> bmem) run" where
  "tt_buf_extend buf m = buf_extend (buf_size buf + 1) buf m"

definition tt_buf_compress :: "tt_buf \<Rightarrow> bmem \<Rightarrow> (tt_result \<times> tt_buf \<times> bmem) run" where
  "tt_buf_compress buf m =
    (if buf_readonly buf then Inr (TT_FAIL, buf, m)
     else let len = TT_BUF_RLEN buf in
       if len \<le> TT_BUF_INIT_SIZE then
         bindr (tt_memmove 1 m (Some (buf_initbuf buf)) 0 (buf_p buf) (unat (buf_rpos buf)) (unat len)) (\<lambda>m.
         bindr (if buf_p buf \<noteq> Some (buf_initbuf buf)
                then bindr (tt_memspg_compress 1 (buf_mspg buf) (buf_p buf) (buf_size buf) 0 m)
                       (\<lambda>(r, p, s, m). Inr (buf\<lparr>buf_p := p, buf_size := s\<rparr>, m))
                else Inr (buf, m)) (\<lambda>(buf, m).
         let buf = buf\<lparr>buf_p := Some (buf_initbuf buf), buf_size := TT_BUF_INIT_SIZE,
                       buf_rpos := 0, buf_wpos := len\<rparr> in
         bindr (TT_BUF_CHECK buf) (\<lambda>_. Inr (TT_SUCCESS, buf, m))))
       else
         bindr (tt_memspg_compress_range 1 (buf_mspg buf) (buf_p buf) (buf_size buf)
                  (buf_rpos buf) (buf_wpos buf) m)
           (\<lambda>(r, p, s, m). Inr (r, buf\<lparr>buf_p := p, buf_size := s\<rparr>, m)))"

section \<open>Positions\<close>

definition tt_buf_inc_rp :: "u32 \<Rightarrow> tt_buf \<Rightarrow> tt_result \<times> tt_buf" where
  "tt_buf_inc_rp num buf =
    (if num \<le> TT_BUF_RLEN buf then (TT_SUCCESS, buf\<lparr>buf_rpos := buf_rpos buf + num\<rparr>)
     else (TT_E_BUF_NOBUFS, buf))"

definition tt_buf_dec_rp :: "u32 \<Rightarrow> tt_buf \<Rightarrow> tt_result \<times> tt_buf" where
  "tt_buf_dec_rp num buf =
    (if num \<le> buf_rpos buf then (TT_SUCCESS, buf\<lparr>buf_rpos := buf_rpos buf - num\<rparr>)
     else (TT_FAIL, buf))"

definition tt_buf_reset_rp :: "tt_buf \<Rightarrow> tt_buf" where
  "tt_buf_reset_rp buf = buf\<lparr>buf_rpos := 0\<rparr>"

definition tt_buf_inc_wp :: "u32 \<Rightarrow> tt_buf \<Rightarrow> tt_result \<times> tt_buf" where
  "tt_buf_inc_wp num buf =
    (if num \<le> TT_BUF_WLEN buf then (TT_SUCCESS, buf\<lparr>buf_wpos := buf_wpos buf + num\<rparr>)
     else (TT_E_BUF_NOBUFS, buf))"

definition tt_buf_dec_wp :: "u32 \<Rightarrow> tt_buf \<Rightarrow> tt_result \<times> tt_buf" where
  "tt_buf_dec_wp num buf =
    (if num \<le> TT_BUF_RLEN buf then (TT_SUCCESS, buf\<lparr>buf_wpos := buf_wpos buf - num\<rparr>)
     else (TT_FAIL, buf))"

definition tt_buf_reset_rwp :: "tt_buf \<Rightarrow> tt_buf" where
  "tt_buf_reset_rwp buf = buf\<lparr>buf_rpos := 0, buf_wpos := 0\<rparr>"

definition tt_buf_backup_rwp :: "tt_buf \<Rightarrow> u32 \<times> u32" where
  "tt_buf_backup_rwp buf = (buf_rpos buf, buf_wpos buf)"

definition tt_buf_restore_rwp :: "u32 \<Rightarrow> u32 \<Rightarrow> tt_buf \<Rightarrow> tt_buf" where
  "tt_buf_restore_rwp rpos wpos buf = buf\<lparr>buf_wpos := wpos, buf_rpos := rpos\<rparr>"

definition tt_buf_clear :: "tt_buf \<Rightarrow> tt_buf" where
  "tt_buf_clear buf = tt_buf_reset_rwp buf"

definition tt_buf_empty :: "tt_buf \<Rightarrow> bool" where
  "tt_buf_empty buf \<longleftrightarrow> buf_rpos buf = buf_wpos buf"

definition tt_buf_refine :: "tt_buf \<Rightarrow> bmem \<Rightarrow> (u32 \<times> tt_buf \<times> bmem) run" where
  "tt_buf_refine buf m =
    (if buf_readonly buf then Inr (0, buf, m)
     else if buf_rpos buf = 0 then Inr (0, buf, m)
     else let refined = buf_rpos buf in
       bindr (if buf_rpos buf = buf_wpos buf then Inr (tt_buf_reset_rwp buf, m)
              else let len = TT_BUF_RLEN buf in
                bindr (tt_memmove 1 m (buf_p buf) 0 (buf_p buf) (unat (buf_rpos buf)) (unat len)) (\<lambda>m.
                Inr (buf\<lparr>buf_rpos := 0, buf_wpos := len\<rparr>, m))) (\<lambda>(buf, m).
       bindr (TT_BUF_CHECK buf) (\<lambda>_. Inr (refined, buf, m))))"

definition tt_buf_try_refine :: "u32 \<Rightarrow> tt_buf \<Rightarrow> bmem \<Rightarrow> (u32 \<times> tt_buf \<times> bmem) run" where
  "tt_buf_try_refine threshold buf m =
    (if tt_buf_empty buf \<or> TT_BUF_REFINABLE buf \<ge> threshold then tt_buf_refine buf m
     else Inr (0, buf, m))"

section \<open>Input and output\<close>

definition tt_buf_put ::
  "u8 list option \<Rightarrow> u32 \<Rightarrow> tt_buf \<Rightarrow> bmem \<Rightarrow> (tt_result \<times> tt_buf \<times> bmem) run" where
  "tt_buf_put data data_len buf m =
    (if buf_readonly buf then Inr (TT_FAIL, buf, m)
     else case data of
       Some bs \<Rightarrow>
         if data_len \<noteq> 0 then
           TT_DO (tt_buf_reserve data_len buf m) (\<lambda>(buf, m).
           bindr (src_bytes bs data_len) (\<lambda>vs.
           bindr (mem_store 1 m (buf_p buf) (unat (buf_wpos buf)) vs) (\<lambda>m.
           let buf = buf\<lparr>buf_wpos := buf_wpos buf + data_len\<rparr> in
           bindr (TT_BUF_CHECK buf) (\<lambda>_. Inr (TT_SUCCESS, buf, m)))))
         else Inr (TT_SUCCESS, buf, m)
     | None \<Rightarrow> Inr (TT_SUCCESS, buf, m))"

definition tt_buf_create_copy ::
  "tt_buf \<Rightarrow> u8 list option \<Rightarrow> u32 \<Rightarrow> tt_buf_attr option \<Rightarrow> bmem \<Rightarrow> (tt_result \<times> tt_buf \<times> bmem) run"
  where
  "tt_buf_create_copy buf data data_len attr m =
    bindr (tt_buf_create buf data_len attr m) (\<lambda>(r, buf, m).
    if \<not> TT_OK r then Inr (TT_FAIL, buf, m)
    else bindr (tt_buf_put data data_len buf m) (\<lambda>(r, buf, m).
      if \<not> TT_OK r then Inr (TT_FAIL, buf, m) else Inr (TT_SUCCESS, buf, m)))"

definition tt_buf_put_rep :: "u8 \<Rightarrow> u32 \<Rightarrow> tt_buf \<Rightarrow> bmem \<Rightarrow> (tt_result \<times> tt_buf \<times> bmem) run" where
  "tt_buf_put_rep byte rep_num buf m =
    (if buf_readonly buf then Inr (TT_FAIL, buf, m)
     else if rep_num \<noteq> 0 then
       TT_DO (tt_buf_reserve rep_num buf m) (\<lambda>(buf, m).
       bindr (mem_store 1 m (buf_p buf) (unat (buf_wpos buf)) (replicate (unat rep_num) byte)) (\<lambda>m.
       let buf = buf\<lparr>buf_wpos := buf_wpos buf + rep_num\<rparr> in
       bindr (TT_BUF_CHECK buf) (\<lambda>_. Inr (TT_SUCCESS, buf, m))))
     else Inr (TT_SUCCESS, buf, m))"

definition tt_buf_peek :: "u32 \<Rightarrow> tt_buf \<Rightarrow> bmem \<Rightarrow> (tt_result \<times> u8 list) run" where
  "tt_buf_peek len buf m =
    (if TT_BUF_RLEN buf < len then Inr (TT_E_BUF_NOBUFS, [])
     else bindr (mem_load 1 m (buf_p buf) (unat (buf_rpos buf)) (unat len)) (\<lambda>vs.
          Inr (TT_SUCCESS, vs)))"

definition tt_buf_get :: "u32 \<Rightarrow> tt_buf \<Rightarrow> bmem \<Rightarrow> (tt_result \<times> u8 list \<times> tt_buf) run" where
  "tt_buf_get len buf m =
    bindr (tt_buf_peek len buf m) (\<lambda>(r, vs).
    if TT_OK r then Inr (TT_SUCCESS, vs, buf\<lparr>buf_rpos := buf_rpos buf + len\<rparr>)
    else Inr (r, vs, buf))"

text \<open>\<^verbatim>\<open>tt_buf_get_nocopy\<close> hands out an address in the storage: the block and the offset in it.\<close>

definition tt_buf_get_nocopy :: "u32 \<Rightarrow> tt_buf \<Rightarrow> tt_result \<times> (ptr \<times> nat) option \<times> tt_buf" where
  "tt_buf_get_nocopy len buf =
    (if TT_BUF_RLEN buf < len then (TT_E_BUF_NOBUFS, None, buf)
     else (TT_SUCCESS, Some (buf_p buf, unat (buf_rpos buf)), buf\<lparr>buf_rpos := buf_rpos buf + len\<rparr>))"

definition tt_buf_set ::
  "u32 \<Rightarrow> u8 list \<Rightarrow> u32 \<Rightarrow> tt_buf \<Rightarrow> bmem \<Rightarrow> (tt_result \<times> tt_buf \<times> bmem) run" where
  "tt_buf_set pos data data_len buf m =
    (if buf_rpos buf + pos < pos then Inr (TT_FAIL, buf, m)
     else if buf_rpos buf + pos > buf_wpos buf then Inr (TT_FAIL, buf, m)
     else if buf_rpos buf + pos + data_len > buf_wpos buf then Inr (TT_FAIL, buf, m)
     else
       bindr (src_bytes data data_len) (\<lambda>vs.
       bindr (mem_store 1 m (buf_p buf) (unat (buf_rpos buf + pos)) vs) (\<lambda>m.
       bindr (TT_BUF_CHECK buf) (\<lambda>_. Inr (TT_SUCCESS, buf, m)))))"

definition tt_buf_set_range ::
  "u32 \<Rightarrow> u32 \<Rightarrow> u8 list \<Rightarrow> u32 \<Rightarrow> tt_buf \<Rightarrow> bmem \<Rightarrow> (tt_result \<times> tt_buf \<times> bmem) run" where
  "tt_buf_set_range pos len data data_len buf m =
    (if TT_U32_ADD_WOULD_OVFL (buf_rpos buf) pos \<or> TT_U32_ADD_WOULD_OVFL (buf_rpos buf) (pos + len)
     then Inr (TT_FAIL, buf, m)
     else if buf_rpos buf + pos > buf_wpos buf then Inr (TT_FAIL, buf, m)
     else if buf_rpos buf + pos + len > buf_wpos buf then Inr (TT_FAIL, buf, m)
     else if len < data_len then
       let n = data_len - len in
       TT_DO (tt_buf_reserve n buf m) (\<lambda>(buf, m).
       let p = unat (buf_rpos buf + pos) in
       bindr (tt_memmove 1 m (buf_p buf) (p + unat data_len) (buf_p buf) (p + unat len)
                (unat (TT_BUF_RLEN buf - pos - len))) (\<lambda>m.
       bindr (src_bytes data data_len) (\<lambda>vs.
       bindr (mem_store 1 m (buf_p buf) p vs) (\<lambda>m.
       Inr (TT_SUCCESS, buf\<lparr>buf_wpos := buf_wpos buf + n\<rparr>, m)))))
     else if len = data_len then
       bindr (src_bytes data data_len) (\<lambda>vs.
       bindr (mem_store 1 m (buf_p buf) (unat (buf_rpos buf + pos)) vs) (\<lambda>m.
       Inr (TT_SUCCESS, buf, m)))
     else
       let p = unat (buf_rpos buf + pos); n = len - data_len in
       bindr (tt_memmove 1 m (buf_p buf) (p + unat data_len) (buf_p buf) (p + unat len)
                (unat (TT_BUF_RLEN buf - pos - len))) (\<lambda>m.
       bindr (src_bytes data data_len) (\<lambda>vs.
       bindr (mem_store 1 m (buf_p buf) p vs) (\<lambda>m.
       Inr (TT_SUCCESS, buf\<lparr>buf_wpos := buf_wpos buf - n\<rparr>, m)))))"

end
