(* ===== verification/TT_Container_Specs.thy ===== *)
theory TT_Container_Specs
  imports TT_Memory
begin

text \<open>
  What the containers promise, as abstract specifications on lists, and the locales through which
  a client relies on them: a double-ended queue and a stack whose pushes may run out of memory.
  Also structs on the heap: blocks of one cell.
\<close>

section \<open>Structs on the heap\<close>

definition mem_deref :: "'c mem \<Rightarrow> nat \<Rightarrow> 'c run" where
  "mem_deref m p = (case mem_blocks m p of Some [c] \<Rightarrow> Inr c | _ \<Rightarrow> Inl Undef)"

definition mem_assign :: "'c mem \<Rightarrow> nat \<Rightarrow> 'c \<Rightarrow> 'c mem run" where
  "mem_assign m p c = (case mem_blocks m p of
     Some [_] \<Rightarrow> Inr (m\<lparr>mem_blocks := (mem_blocks m)(p \<mapsto> [c])\<rparr>) | _ \<Rightarrow> Inl Undef)"

text \<open>Allocation of a struct: one cell of unspecified contents.\<close>

definition malloc_struct :: "'c mem \<Rightarrow> ptr \<times> 'c mem" where
  "malloc_struct m = tt_malloc 1 1 m"

text \<open>The struct a pointer points to, for the statements.\<close>

definition struct_at :: "'c mem \<Rightarrow> nat \<Rightarrow> 'c" where
  "struct_at m p = hd (the (mem_blocks m p))"

definition is_struct :: "'c mem \<Rightarrow> nat \<Rightarrow> bool" where
  "is_struct m p \<longleftrightarrow> p \<in> mem_heap m \<and> mem_blocks m p = Some [struct_at m p]"

lemma mem_deref_ok: "is_struct m p \<Longrightarrow> mem_deref m p = Inr (struct_at m p)"
  by (simp add: is_struct_def mem_deref_def)

lemma mem_assign_ok:
  assumes "is_struct m p" "mem_inv m"
  obtains m' where "mem_assign m p c = Inr m'" "mem_inv m'" "mem_heap m' = mem_heap m"
    "struct_at m' p = c" "\<forall>q. q \<noteq> p \<longrightarrow> struct_at m' q = struct_at m q"
    "\<forall>q. is_struct m' q \<longleftrightarrow> is_struct m q" "mem_frame {p} m m'"
proof
  let ?m = "m\<lparr>mem_blocks := (mem_blocks m)(p \<mapsto> [c])\<rparr>"
  show "mem_assign m p c = Inr ?m"
    using assms(1) by (simp add: is_struct_def mem_assign_def)
  show "mem_inv ?m"
    using assms by (auto simp: is_struct_def intro: mem_inv_upd)
  show "\<forall>q. is_struct ?m q \<longleftrightarrow> is_struct m q"
    using assms(1) by (auto simp: is_struct_def struct_at_def)
  show "mem_frame {p} m ?m"
    by (simp add: mem_frame_upd)
qed (simp_all add: struct_at_def)

lemma malloc_struct_cases:
  assumes "mem_inv m"
  obtains (fail) m' where "malloc_struct m = (None, m')" "mem_inv m'" "same_store m m'"
  | (ok) n m' where "malloc_struct m = (Some n, m')" "mem_inv m'" "n \<notin> mem_heap m"
      "mem_heap m' = insert n (mem_heap m)" "is_struct m' n" "mem_blocks m n = None"
      "\<forall>q. q \<noteq> n \<longrightarrow> struct_at m' q = struct_at m q" "\<forall>q. is_struct m q \<longrightarrow> q \<noteq> n \<and> is_struct m' q"
      "mem_frame {} m m'"
proof -
  have one: "1 dvd unat (1 :: u32)" by simp
  show thesis
    using assms one
  proof (cases rule: malloc_cases)
    case (fail m')
    with that(1) show thesis by (simp add: malloc_struct_def)
  next
    case (ok n cs m')
    obtain c where c: "cs = [c]"
      using ok(4) by (cases cs) auto
    note D = movedD [OF ok(3)]
    have "is_struct m' n"
      using D c by (simp add: is_struct_def struct_at_def)
    moreover have "\<forall>q. q \<noteq> n \<longrightarrow> struct_at m' q = struct_at m q"
      using D by (simp add: struct_at_def)
    moreover have "\<forall>q. is_struct m q \<longrightarrow> q \<noteq> n \<and> is_struct m' q"
      using D by (auto simp: is_struct_def struct_at_def)
    ultimately show thesis
      using that(2) [of n m'] ok(1,2) D(1,2,4) moved_frame [OF ok(3)] by (simp add: malloc_struct_def)
  qed
qed

lemma free_struct:
  assumes "is_struct m p" "mem_inv m"
  obtains m' where "tt_free (Some p) m = Inr m'" "mem_inv m'" "mem_heap m' = mem_heap m - {p}"
    "\<forall>q. q \<noteq> p \<longrightarrow> struct_at m' q = struct_at m q" "\<forall>q. q \<noteq> p \<longrightarrow> (is_struct m' q \<longleftrightarrow> is_struct m q)"
    "mem_frame {p} m m'"
proof -
  have "p \<in> mem_heap m" using assms(1) by (simp add: is_struct_def)
  from free_released [OF assms(2) this] obtain m' where m': "tt_free (Some p) m = Inr m'" "mem_inv m'"
    "released m {p} m'" by blast
  have b: "mem_blocks m' = mem_blocks m |` (- {p})" "mem_heap m' = mem_heap m - {p}"
    using m'(3) unfolding released_def by blast+
  show thesis
    using that [OF m'(1,2)] b released_frame [OF m'(3)] by (simp add: is_struct_def struct_at_def)
qed

lemma same_store_struct:
  "same_store m m' \<Longrightarrow> struct_at m' = struct_at m \<and> is_struct m' = is_struct m"
  by (simp add: same_store_def struct_at_def is_struct_def fun_eq_iff)

text \<open>
  \<open>owns_step S m S' m'\<close>: a step of a container that owns the blocks \<open>S\<close> before and \<open>S'\<close> after:
  other blocks keep their contents, the new ones are fresh, and the heap blocks of the others are
  the same, so that nothing is leaked and nothing of theirs is freed.
\<close>

definition owns_step :: "nat set \<Rightarrow> 'c mem \<Rightarrow> nat set \<Rightarrow> 'c mem \<Rightarrow> bool" where
  "owns_step S m S' m' \<longleftrightarrow> mem_frame S m m' \<and> S' \<inter> dom (mem_blocks m) \<subseteq> S
     \<and> mem_heap m' - S' = mem_heap m - S"

lemma owns_refl: "owns_step S m S m"
  by (simp add: owns_step_def)

lemma frame_compose:
  assumes "mem_frame S m m'" "mem_frame T m' m''" "T \<inter> dom (mem_blocks m) \<subseteq> S"
  shows "mem_frame S m m''"
  unfolding mem_frame_def
proof
  fix i
  assume i: "i \<in> dom (mem_blocks m) - S"
  then obtain cs where cs: "mem_blocks m i = Some cs" by auto
  have "i \<notin> S" using i by simp
  note one = mem_frameD [OF assms(1) cs this]
  have "i \<notin> T" using i assms(3) by auto
  from one mem_frameD [OF assms(2) one(1) this] cs
  show "mem_blocks m'' i = mem_blocks m i \<and> (i \<in> mem_heap m'' \<longleftrightarrow> i \<in> mem_heap m)"
    by simp
qed

lemma frame_dom:
  assumes "mem_frame S m m'" "i \<in> dom (mem_blocks m)" "i \<notin> S"
  shows "i \<in> dom (mem_blocks m')"
proof -
  obtain cs where "mem_blocks m i = Some cs"
    using assms(2) by auto
  then show ?thesis
    using mem_frameD(1) [OF assms(1) _ assms(3)] by auto
qed

lemma owns_trans:
  assumes "owns_step S m S1 m1" "owns_step S1 m1 S2 m2"
  shows "owns_step S m S2 m2"
proof -
  have a: "mem_frame S m m1" "S1 \<inter> dom (mem_blocks m) \<subseteq> S" "mem_heap m1 - S1 = mem_heap m - S"
    and b: "mem_frame S1 m1 m2" "S2 \<inter> dom (mem_blocks m1) \<subseteq> S1" "mem_heap m2 - S2 = mem_heap m1 - S1"
    using assms unfolding owns_step_def by blast+
  have "S2 \<inter> dom (mem_blocks m) \<subseteq> S"
    using a(2) b(2) frame_dom [OF a(1)] by blast
  with frame_compose [OF a(1) b(1) a(2)] a(3) b(3) show ?thesis
    by (simp add: owns_step_def)
qed

lemma owns_same: "same_store m m' \<Longrightarrow> owns_step S m S m'"
  by (auto simp: owns_step_def same_store_frame same_store_def)

lemma owns_assign: "mem_frame {p} m m' \<Longrightarrow> mem_heap m' = mem_heap m \<Longrightarrow> p \<in> S \<Longrightarrow> owns_step S m S m'"
  by (auto simp: owns_step_def mem_frame_def)

lemma owns_malloc:
  assumes "mem_frame {} m m'" "mem_heap m' = insert n (mem_heap m)" "n \<notin> mem_heap m" "mem_blocks m n = None"
  shows "owns_step S m (insert n S) m'"
  using assms by (auto simp: owns_step_def mem_frame_def)

lemma owns_free:
  assumes "mem_frame {p} m m'" "mem_heap m' = mem_heap m - {p}" "p \<in> S"
  shows "owns_step S m (S - {p}) m'"
  using assms by (auto simp: owns_step_def mem_frame_def)

section \<open>Double-ended queues\<close>

datatype 'a dq_op = PushHead 'a | PushTail 'a | PopHead | PopTail

datatype 'a answer = Done | NoMem | Got 'a | Empty

inductive dq_spec :: "'a dq_op \<Rightarrow> 'a list \<Rightarrow> 'a answer \<Rightarrow> 'a list \<Rightarrow> bool" where
  push_head: "dq_spec (PushHead x) xs Done (x # xs)"
| push_tail: "dq_spec (PushTail x) xs Done (xs @ [x])"
| no_mem_head: "dq_spec (PushHead x) xs NoMem xs"
| no_mem_tail: "dq_spec (PushTail x) xs NoMem xs"
| pop_head: "dq_spec PopHead (x # xs) (Got x) xs"
| pop_tail: "dq_spec PopTail (xs @ [x]) (Got x) xs"
| empty_head: "dq_spec PopHead [] Empty []"
| empty_tail: "dq_spec PopTail [] Empty []"

inductive_simps dq_spec_simps:
  "dq_spec (PushHead x) xs a ys" "dq_spec (PushTail x) xs a ys"
  "dq_spec PopHead xs a ys" "dq_spec PopTail xs a ys"

inductive dq_specs :: "'a dq_op list \<Rightarrow> 'a list \<Rightarrow> 'a answer list \<Rightarrow> 'a list \<Rightarrow> bool" where
  nil: "dq_specs [] xs [] xs"
| cons: "dq_spec op xs a ys \<Longrightarrow> dq_specs ops ys as zs \<Longrightarrow> dq_specs (op # ops) xs (a # as) zs"

inductive_cases dq_specs_NilE: "dq_specs [] xs as ys"
inductive_cases dq_specs_ConsE: "dq_specs (op # ops) xs as ys"

text \<open>A run of operations on the implementation: the answers and the final state.\<close>

primrec run_ops :: "('o \<Rightarrow> 's \<Rightarrow> ('a answer \<times> 's) run) \<Rightarrow> 'o list \<Rightarrow> 's \<Rightarrow> ('a answer list \<times> 's) run" where
  "run_ops step [] s = Inr ([], s)"
| "run_ops step (op # ops) s = bindr (step op s) (\<lambda>(a, s). bindr (run_ops step ops s) (\<lambda>(as, s). Inr (a # as, s)))"

lemma dq_spec_length: "dq_spec op xs a ys \<Longrightarrow> length ys \<le> Suc (length xs)"
  by (cases rule: dq_spec.cases) auto

locale deque =
  fixes ok :: "'s \<Rightarrow> bool" and items :: "'s \<Rightarrow> 'a list"
    and step :: "'a dq_op \<Rightarrow> 's \<Rightarrow> ('a answer \<times> 's) run" and limit :: nat
  assumes step_refines: "ok s \<Longrightarrow> Suc (length (items s)) < limit \<Longrightarrow>
    \<exists>a s'. step op s = Inr (a, s') \<and> ok s' \<and> dq_spec op (items s) a (items s')"
begin

text \<open>Any sequence of operations answers as the list does.\<close>

lemma run_refines:
  assumes "ok s" "length (items s) + length ops < limit"
  shows "\<exists>as s'. run_ops step ops s = Inr (as, s') \<and> ok s' \<and> dq_specs ops (items s) as (items s')"
  using assms
proof (induction ops arbitrary: s)
  case Nil
  then show ?case by (auto intro: dq_specs.nil)
next
  case (Cons op ops)
  have "Suc (length (items s)) < limit" using Cons.prems(2) by simp
  with step_refines [OF Cons.prems(1)] obtain a s1 where s1: "step op s = Inr (a, s1)" "ok s1"
    "dq_spec op (items s) a (items s1)" by blast
  have "length (items s1) + length ops < limit"
    using dq_spec_length [OF s1(3)] Cons.prems(2) by simp
  with Cons.IH [OF s1(2)] obtain as s2 where "run_ops step ops s1 = Inr (as, s2)" "ok s2"
    "dq_specs ops (items s1) as (items s2)" by blast
  with s1 show ?case by (auto intro: dq_specs.cons)
qed

text \<open>First in, first out: with memory for every push, what goes in at the tail comes out at the head.\<close>

lemma fifo:
  assumes "ok s" "items s = []" "2 * length xs < limit"
    and run: "run_ops step (map PushTail xs @ replicate (length xs) PopHead) s = Inr (as, s')"
    and mem: "NoMem \<notin> set as"
  shows "as = replicate (length xs) Done @ map Got xs \<and> items s' = []"
proof -
  have pops: "as = map Got xs \<and> ys = []"
    if "dq_specs (replicate (length xs) PopHead) xs as ys" for xs ys :: "'a list" and as
    using that by (induction xs arbitrary: as) (auto elim!: dq_specs_NilE dq_specs_ConsE simp: dq_spec_simps)
  have pushes: "as = replicate (length xs) Done @ map Got (zs @ xs) \<and> ys = []"
    if "dq_specs (map PushTail xs @ replicate (length (zs @ xs)) PopHead) zs as ys" "NoMem \<notin> set as"
    for xs zs ys :: "'a list" and as
    using that
  proof (induction xs arbitrary: zs as)
    case Nil
    then show ?case using pops [of zs as ys] by simp
  next
    case (Cons x xs)
    from Cons.prems obtain as' where as': "as = Done # as'" "NoMem \<notin> set as'"
      "dq_specs (map PushTail xs @ replicate (length (zs @ x # xs)) PopHead) (zs @ [x]) as' ys"
      by (auto elim!: dq_specs_ConsE simp: dq_spec_simps)
    with Cons.IH [of "zs @ [x]" as'] show ?case by simp
  qed
  have "length (items s) + length (map PushTail xs @ replicate (length xs) PopHead) < limit"
    using assms(2,3) by simp
  from run_refines [OF assms(1) this] run
  have "dq_specs (map PushTail xs @ replicate (length xs) PopHead) (items s) as (items s')" by auto
  with pushes [of xs "[]" as "items s'"] mem assms(2) show ?thesis by simp
qed

end

section \<open>Stacks\<close>

datatype 'a st_op = Push 'a | Pop

inductive st_spec :: "'a st_op \<Rightarrow> 'a list \<Rightarrow> 'a answer \<Rightarrow> 'a list \<Rightarrow> bool" where
  push: "st_spec (Push x) xs Done (x # xs)"
| no_mem: "st_spec (Push x) xs NoMem xs"
| pop: "st_spec Pop (x # xs) (Got x) xs"
| empty: "st_spec Pop [] Empty []"

inductive_simps st_spec_simps: "st_spec (Push x) xs a ys" "st_spec Pop xs a ys"

inductive st_specs :: "'a st_op list \<Rightarrow> 'a list \<Rightarrow> 'a answer list \<Rightarrow> 'a list \<Rightarrow> bool" where
  nil: "st_specs [] xs [] xs"
| cons: "st_spec op xs a ys \<Longrightarrow> st_specs ops ys as zs \<Longrightarrow> st_specs (op # ops) xs (a # as) zs"

lemma st_spec_length: "st_spec op xs a ys \<Longrightarrow> length ys \<le> Suc (length xs)"
  by (cases rule: st_spec.cases) auto

locale lifo =
  fixes ok :: "'s \<Rightarrow> bool" and items :: "'s \<Rightarrow> 'a list"
    and step :: "'a st_op \<Rightarrow> 's \<Rightarrow> ('a answer \<times> 's) run"
  assumes step_refines: "ok s \<Longrightarrow> Suc (length (items s)) < 2 ^ 32 \<Longrightarrow>
    \<exists>a s'. step op s = Inr (a, s') \<and> ok s' \<and> st_spec op (items s) a (items s')"
begin

lemma run_refines:
  assumes "ok s" "length (items s) + length ops < 2 ^ 32"
  shows "\<exists>as s'. run_ops step ops s = Inr (as, s') \<and> ok s' \<and> st_specs ops (items s) as (items s')"
  using assms
proof (induction ops arbitrary: s)
  case Nil
  then show ?case by (auto intro: st_specs.nil)
next
  case (Cons op ops)
  have "Suc (length (items s)) < 2 ^ 32" using Cons.prems(2) by simp
  with step_refines [OF Cons.prems(1)] obtain a s1 where s1: "step op s = Inr (a, s1)" "ok s1"
    "st_spec op (items s) a (items s1)" by blast
  have "length (items s1) + length ops < 2 ^ 32"
    using st_spec_length [OF s1(3)] Cons.prems(2) by simp
  with Cons.IH [OF s1(2)] obtain as s2 where "run_ops step ops s1 = Inr (as, s2)" "ok s2"
    "st_specs ops (items s1) as (items s2)" by blast
  with s1 show ?case by (auto intro: st_specs.cons)
qed

end

end
