(* ===== verification/TT_Buffer_Inv.thy ===== *)
theory TT_Buffer_Inv
  imports TT_Buffer TT_Container_Specs
begin

text \<open>
  The invariant of the byte buffer, its abstraction to the list of unread bytes, and what every
  operation of \<^verbatim>\<open>tt_buffer.c\<close> does to that list, to the invariant and to the rest of the store.
\<close>

section \<open>Invariant and abstraction\<close>

text \<open>The cells of the storage, and the readable bytes \<open>[rpos, wpos)\<close>.\<close>

definition buf_cells :: "tt_buf \<Rightarrow> bmem \<Rightarrow> u8 list" where
  "buf_cells b m = (case buf_p b of None \<Rightarrow> [] | Some i \<Rightarrow>
     (case mem_blocks m i of None \<Rightarrow> [] | Some cs \<Rightarrow> cs))"

definition buf_data :: "tt_buf \<Rightarrow> bmem \<Rightarrow> u8 list" where
  "buf_data b m = take (unat (buf_wpos b) - unat (buf_rpos b)) (drop (unat (buf_rpos b)) (buf_cells b m))"

definition buf_foot :: "tt_buf \<Rightarrow> nat set" where
  "buf_foot b = insert (buf_initbuf b) (set_option (buf_p b))"

text \<open>
  \<^verbatim>\<open>TT_BUF_CHECK\<close> and the ownership of the storage: an ordinary buffer uses its own 16-byte array
  or a heap block it alone frees; a readonly one uses the caller's memory.
\<close>

definition buf_inv :: "tt_buf \<Rightarrow> bmem \<Rightarrow> bool" where
  "buf_inv b m \<longleftrightarrow> mem_inv m \<and> memspg_ok 1 (buf_mspg b)
     \<and> points_to 1 m (buf_p b) (buf_size b) (buf_cells b m) \<and> buf_p b \<noteq> None
     \<and> buf_rpos b \<le> buf_wpos b \<and> buf_wpos b \<le> buf_size b
     \<and> buf_initbuf b \<notin> mem_heap m
     \<and> (\<exists>ib. mem_blocks m (buf_initbuf b) = Some ib \<and> length ib = 16)
     \<and> (buf_readonly b \<or> 0 < buf_size b)
     \<and> (buf_readonly b \<or> buf_p b = Some (buf_initbuf b) \<or> set_option (buf_p b) \<subseteq> mem_heap m)"

lemma buf_invE:
  assumes "buf_inv b m"
  obtains i where "buf_p b = Some i" "mem_blocks m i = Some (buf_cells b m)"
    "length (buf_cells b m) = unat (buf_size b)"
  using assms by (auto simp: buf_inv_def points_to_def)

lemma buf_inv_pos:
  assumes "buf_inv b m"
  shows "unat (buf_rpos b) \<le> unat (buf_wpos b)" "unat (buf_wpos b) \<le> unat (buf_size b)"
    "unat (buf_wpos b) \<le> length (buf_cells b m)"
  using assms by (auto simp: buf_inv_def points_to_def word_le_nat_alt)

lemma buf_rlen: "buf_inv b m \<Longrightarrow> unat (TT_BUF_RLEN b) = unat (buf_wpos b) - unat (buf_rpos b)"
  by (simp add: TT_BUF_RLEN_def unat_sub_u32 buf_inv_pos)

lemma buf_wlen: "buf_inv b m \<Longrightarrow> unat (TT_BUF_WLEN b) = unat (buf_size b) - unat (buf_wpos b)"
  by (simp add: TT_BUF_WLEN_def unat_sub_u32 buf_inv_pos)

lemma length_buf_data: "buf_inv b m \<Longrightarrow> length (buf_data b m) = unat (TT_BUF_RLEN b)"
  using buf_inv_pos [of b m] by (simp add: buf_data_def buf_rlen)

lemma same_store_buf:
  assumes "same_store m m'" "mem_inv m'" "buf_inv b m"
  shows "buf_inv b m'" "buf_data b m' = buf_data b m" "buf_cells b m' = buf_cells b m"
proof -
  show c: "buf_cells b m' = buf_cells b m"
    using assms(1) by (simp add: buf_cells_def same_store_def split: option.split)
  then show "buf_data b m' = buf_data b m"
    by (simp add: buf_data_def)
  show "buf_inv b m'"
    using assms c same_store_points_to [OF assms(1)] by (simp add: buf_inv_def same_store_def)
qed

lemma buf_check_ok:
  assumes "buf_inv b m"
  shows "TT_BUF_CHECK b = Inr ()"
  using assms by (auto simp: TT_BUF_CHECK_def buf_inv_def)

text \<open>Moving the positions within the storage keeps the invariant.\<close>

lemma buf_inv_positions:
  assumes "buf_inv b m" "r \<le> w" "w \<le> buf_size b"
  shows "buf_inv (b\<lparr>buf_rpos := r, buf_wpos := w\<rparr>) m"
  using assms by (simp add: buf_inv_def buf_cells_def)

text \<open>Writing cells of the storage keeps it too.\<close>

lemma buf_store:
  assumes inv: "buf_inv b m" and le: "off + length vs \<le> unat (buf_size b)"
  obtains m' where "mem_store 1 m (buf_p b) off vs = Inr m'" "buf_inv b m'"
    "buf_cells b m' = overwrite off vs (buf_cells b m)" "mem_frame (buf_foot b) m m'"
    "mem_heap m' = mem_heap m"
proof -
  from inv obtain i where i: "buf_p b = Some i" "mem_blocks m i = Some (buf_cells b m)"
    "length (buf_cells b m) = unat (buf_size b)" by (rule buf_invE)
  let ?m = "m\<lparr>mem_blocks := (mem_blocks m)(i \<mapsto> overwrite off vs (buf_cells b m))\<rparr>"
  have st: "mem_store 1 m (buf_p b) off vs = Inr ?m"
    using i le by (simp add: mem_store_ok)
  have c: "buf_cells b ?m = overwrite off vs (buf_cells b m)"
    using i by (simp add: buf_cells_def)
  have "buf_inv b ?m"
    using inv i le c mem_inv_upd [of m i "buf_cells b m"]
    by (auto simp: buf_inv_def points_to_def)
  moreover have "mem_frame (buf_foot b) m ?m"
    using i by (simp add: mem_frame_upd buf_foot_def)
  moreover have "mem_heap ?m = mem_heap m"
    by simp
  ultimately show thesis
    using that st c by blast
qed

lemma buf_load:
  assumes inv: "buf_inv b m" and le: "off + n \<le> unat (buf_size b)"
  shows "mem_load 1 m (buf_p b) off n = Inr (take n (drop off (buf_cells b m)))"
proof -
  from inv obtain i where i: "buf_p b = Some i" "mem_blocks m i = Some (buf_cells b m)"
    "length (buf_cells b m) = unat (buf_size b)" by (rule buf_invE)
  then show ?thesis
    using le by (simp add: mem_load_ok)
qed

section \<open>Reserving space\<close>

lemma flag_bits [simp]:
  "(0 OR TT_MSPGEXT_NOFREE) AND TT_MSPGEXT_NOFREE \<noteq> (0 :: u32)"
  "TT_MSPGEXT_NOFREE \<noteq> (0 :: u32)"
  "TT_MSPGEXT_NOFREE AND TT_MSPGEXT_ZERO = (0 :: u32)"
  by (simp_all add: TT_MSPGEXT_NOFREE_def TT_MSPGEXT_ZERO_def)

text \<open>Extension: the old cells stay in front, the positions do not move, nobody else is touched.\<close>

lemma buf_extend_cases:
  assumes inv: "buf_inv b m" and rw: "\<not> buf_readonly b" and gt: "buf_size b < sz"
  obtains (fail) m' where "buf_extend sz b m = Inr (TT_FAIL, b, m')" "buf_inv b m'" "same_store m m'"
  | (ok) b' m' where "buf_extend sz b m = Inr (TT_SUCCESS, b', m')" "buf_inv b' m'"
      "\<not> buf_readonly b'" "buf_rpos b' = buf_rpos b" "buf_wpos b' = buf_wpos b"
      "buf_initbuf b' = buf_initbuf b" "unat sz \<le> unat (buf_size b')"
      "take (unat (buf_size b)) (buf_cells b' m') = buf_cells b m"
      "mem_frame (buf_foot b) m m'" "buf_foot b' \<inter> dom (mem_blocks m) \<subseteq> buf_foot b"
      "mem_heap m' - buf_foot b' = mem_heap m - buf_foot b"
proof -
  from inv obtain i where i: "buf_p b = Some i" "mem_blocks m i = Some (buf_cells b m)"
    "length (buf_cells b m) = unat (buf_size b)" by (rule buf_invE)
  let ?flag = "if buf_p b = Some (buf_initbuf b) then 0 OR TT_MSPGEXT_NOFREE else (0 :: u32)"
  have g: "memspg_ok 1 (buf_mspg b)" and mi: "mem_inv m"
    and pt: "points_to 1 m (buf_p b) (buf_size b) (buf_cells b m)"
    using inv by (auto simp: buf_inv_def)
  have own: "?flag AND TT_MSPGEXT_NOFREE \<noteq> 0 \<or> set_option (buf_p b) \<subseteq> mem_heap m"
    using inv rw by (auto simp: buf_inv_def split: if_splits)
  have nz: "?flag AND TT_MSPGEXT_ZERO = 0"
    by simp
  show thesis
    using g mi pt own nz gt
  proof (cases rule: memspg_extend_ex_cases [where z = "0 :: u8"])
    case (fail m')
    have "buf_extend sz b m = Inr (TT_FAIL, b, m')"
      using fail(1) rw by (simp add: buf_extend_def Let_def)
    then show thesis
      using that(1) fail(2,3) same_store_buf(1) [OF fail(3,2) inv] by blast
  next
    case (ok n sz' cs' m')
    let ?b = "b\<lparr>buf_p := Some n, buf_size := sz'\<rparr>"
    let ?S = "if ?flag AND TT_MSPGEXT_NOFREE = 0 then set_option (buf_p b) else {}"
    have eq: "buf_extend sz b m = Inr (TT_SUCCESS, ?b, m')"
      using ok(1) rw by (simp add: buf_extend_def Let_def)
    have c: "buf_cells ?b m' = cs'"
      using moved_new [OF ok(7)] by (simp add: buf_cells_def)
    obtain ib where ib: "mem_blocks m (buf_initbuf b) = Some ib" "length ib = 16" "buf_initbuf b \<notin> mem_heap m"
      using inv by (auto simp: buf_inv_def)
    have "buf_initbuf b \<notin> ?S"
      by (auto split: if_splits)
    from mem_frameD [OF moved_frame [OF ok(7)] ib(1) this] ib(3)
    have ib': "mem_blocks m' (buf_initbuf b) = Some ib" "buf_initbuf b \<notin> mem_heap m'"
      by auto
    have "buf_inv ?b m'"
      using inv ok(2,3,6) c ib' ib(2) moved_new [OF ok(7)]
      by (auto simp: buf_inv_def points_to_def word_le_nat_alt word_less_nat_alt)
    moreover have "mem_frame (buf_foot b) m m'"
      using moved_frame [OF ok(7)] by (auto simp: mem_frame_def buf_foot_def)
    moreover have "buf_foot ?b \<inter> dom (mem_blocks m) \<subseteq> buf_foot b"
      using movedD(1) [OF ok(7)] by (auto simp: buf_foot_def)
    moreover have "mem_heap m' - buf_foot ?b = mem_heap m - buf_foot b"
      using movedD(2,4) [OF ok(7)] ib(3) i(1) by (auto simp: buf_foot_def split: if_splits)
    ultimately show thesis
      using that(2) [OF eq] rw ok(4,5) i(3) c by simp
  qed
qed

lemma buf_data_extended:
  assumes "buf_inv b m" "buf_inv b' m'" "buf_rpos b' = buf_rpos b" "buf_wpos b' = buf_wpos b"
    "take (unat (buf_size b)) (buf_cells b' m') = buf_cells b m"
  shows "buf_data b' m' = buf_data b m"
proof -
  let ?r = "unat (buf_rpos b)" and ?w = "unat (buf_wpos b)" and ?s = "unat (buf_size b)"
  have "?r \<le> ?w" "?w \<le> ?s"
    using buf_inv_pos [OF assms(1)] by auto
  then have "take (?w - ?r) (drop ?r (take ?s (buf_cells b' m'))) = take (?w - ?r) (drop ?r (buf_cells b' m'))"
    by (simp add: drop_take min_def)
  then show ?thesis
    using assms(3-5) by (simp add: buf_data_def)
qed

lemma buf_reserve_cases:
  assumes inv: "buf_inv b m" and rw: "\<not> buf_readonly b"
  obtains (throw) "tt_buf_reserve n b m = Inl Throw"
      "unat (buf_size b) - unat (buf_wpos b) < unat n" "2 ^ 32 \<le> unat (buf_size b) + unat n"
  | (fail) m' where "tt_buf_reserve n b m = Inr (TT_FAIL, b, m')" "buf_inv b m'" "same_store m m'"
      "unat (buf_size b) - unat (buf_wpos b) < unat n" "unat (buf_size b) + unat n < 2 ^ 32"
  | (ok) b' m' where "tt_buf_reserve n b m = Inr (TT_SUCCESS, b', m')" "buf_inv b' m'"
      "\<not> buf_readonly b'" "buf_rpos b' = buf_rpos b" "buf_wpos b' = buf_wpos b"
      "buf_initbuf b' = buf_initbuf b" "unat (buf_wpos b) + unat n \<le> unat (buf_size b')"
      "take (unat (buf_wpos b)) (buf_cells b' m') = take (unat (buf_wpos b)) (buf_cells b m)"
      "mem_frame (buf_foot b) m m'" "buf_data b' m' = buf_data b m"
      "buf_foot b' \<inter> dom (mem_blocks m) \<subseteq> buf_foot b"
      "mem_heap m' - buf_foot b' = mem_heap m - buf_foot b"
proof (cases "unat n \<le> unat (buf_size b) - unat (buf_wpos b)")
  case True
  then have "tt_buf_reserve n b m = Inr (TT_SUCCESS, b, m)"
    using inv by (simp add: tt_buf_reserve_def word_le_nat_alt buf_wlen)
  moreover have "unat (buf_wpos b) + unat n \<le> unat (buf_size b)"
    using True buf_inv_pos(2) [OF inv] by linarith
  ultimately show thesis
    using ok [of b m] inv rw by simp
next
  case False
  then have r: "tt_buf_reserve n b m = buf_extend (buf_size b + n) b m"
    using inv by (simp add: tt_buf_reserve_def word_le_nat_alt buf_wlen)
  show thesis
  proof (cases "unat (buf_size b) + unat n < 2 ^ 32")
    case nov: False
    then have "\<not> buf_size b < buf_size b + n"
      using unat_add_wrap_u32 [of "buf_size b" n] by (simp add: word_less_nat_alt)
    then have "tt_buf_reserve n b m = Inl Throw"
      using r rw by (simp add: buf_extend_def tt_memspg_extend_ex_def)
    then show thesis
      using throw False nov by simp
  next
    case nov: True
    then have un: "unat (buf_size b + n) = unat (buf_size b) + unat n"
      by (simp add: unat_add_u32)
    have gt: "buf_size b < buf_size b + n"
      using un False by (simp add: word_less_nat_alt)
    show thesis
      using inv rw gt
    proof (cases rule: buf_extend_cases)
      case (fail m')
      then show thesis
        using that(2) r False nov by simp
    next
      case (ok b' m')
      have "unat (buf_wpos b) \<le> unat (buf_size b)"
        using buf_inv_pos(2) [OF inv] .
      then have t: "take (unat (buf_wpos b)) (buf_cells b' m') = take (unat (buf_wpos b)) (buf_cells b m)"
        using arg_cong [OF ok(8), of "take (unat (buf_wpos b))"] by (simp add: min_def)
      have "unat (buf_wpos b) + unat n \<le> unat (buf_size b')"
        using ok(7) un buf_inv_pos(2) [OF inv] by linarith
      then show thesis
        using that(3) [of b' m'] r ok t buf_data_extended [OF inv ok(2,4,5,8)] by simp
    qed
  qed
qed

text \<open>
  There is room for \<open>n\<close> more bytes: in the storage, or because its size does not wrap, the spring grows that far and
  the allocator grants the next request. Reserving succeeds exactly then.
\<close>

definition buf_room :: "u32 \<Rightarrow> tt_buf \<Rightarrow> bmem \<Rightarrow> bool" where
  "buf_room n b m \<longleftrightarrow> unat n \<le> unat (buf_size b) - unat (buf_wpos b)
     \<or> unat (buf_size b) + unat n < 2 ^ 32 \<and> spg_room (buf_mspg b) (buf_size b) (buf_size b + n) m"

lemma buf_room_0 [simp]: "buf_room 0 b m"
  by (simp add: buf_room_def)

lemma buf_reserve_room:
  assumes inv: "buf_inv b m" and rw: "\<not> buf_readonly b"
  shows "tt_buf_reserve n b m = Inl f \<Longrightarrow> \<not> buf_room n b m"
    "tt_buf_reserve n b m = Inr (TT_FAIL, b', m') \<Longrightarrow> \<not> buf_room n b m"
    "tt_buf_reserve n b m = Inr (TT_SUCCESS, b', m') \<Longrightarrow> buf_room n b m"
proof -
  have e: "tt_buf_reserve n b m = buf_extend (buf_size b + n) b m" if "\<not> unat n \<le> unat (buf_size b) - unat (buf_wpos b)"
    using that inv by (simp add: tt_buf_reserve_def word_le_nat_alt buf_wlen)
  have y: "tt_buf_reserve n b m = Inr (TT_SUCCESS, b, m)" if "unat n \<le> unat (buf_size b) - unat (buf_wpos b)"
    using that inv by (simp add: tt_buf_reserve_def word_le_nat_alt buf_wlen)
  note room = memspg_extend_ex_room [of "buf_mspg b" "buf_size b" "buf_size b + n" m 1 0 "buf_p b"]
  show "\<not> buf_room n b m" if "tt_buf_reserve n b m = Inl f"
    using inv rw that y by (cases rule: buf_reserve_cases [where n = n]) (auto simp: buf_room_def)
  show "\<not> buf_room n b m" if "tt_buf_reserve n b m = Inr (TT_FAIL, b', m')"
    using that y e rw room(1)
    by (cases "unat n \<le> unat (buf_size b) - unat (buf_wpos b)")
      (auto simp: buf_room_def buf_extend_def Let_def bindr_def split: sum.splits)
  show "buf_room n b m" if "tt_buf_reserve n b m = Inr (TT_SUCCESS, b', m')"
    using inv rw
  proof (cases rule: buf_reserve_cases [where n = n])
    case (ok b1 m1)
    show ?thesis
    proof (cases "unat n \<le> unat (buf_size b) - unat (buf_wpos b)")
      case False
      then have "unat (buf_size b) + unat n < 2 ^ 32"
        using that e rw unat_add_wrap_u32 [of "buf_size b" n]
        by (cases "unat (buf_size b) + unat n < 2 ^ 32")
          (auto simp: buf_extend_def tt_memspg_extend_ex_def Let_def word_less_nat_alt)
      moreover have "spg_room (buf_mspg b) (buf_size b) (buf_size b + n) m"
        using that e [OF False] rw room(2) by (auto simp: buf_extend_def Let_def bindr_def split: sum.splits)
      ultimately show ?thesis by (simp add: buf_room_def)
    qed (simp add: buf_room_def)
  qed (use that in simp_all)
qed


section \<open>Appending bytes\<close>

text \<open>
  \<open>appends b m vs out\<close>: running from the buffer \<open>b\<close>, the outcome is success with \<open>vs\<close> appended to
  the readable bytes, or a failure that leaves a prefix of \<open>vs\<close> appended, or a thrown assertion;
  in the first two cases the invariant holds, no other block of the store was touched, and the
  heap blocks in use outside the buffer are the same as before (nothing leaks).
\<close>

definition appends :: "tt_buf \<Rightarrow> bmem \<Rightarrow> u8 list \<Rightarrow> (tt_result \<times> tt_buf \<times> bmem) run \<Rightarrow> bool" where
  "appends b m vs out \<longleftrightarrow> (case out of
     Inl f \<Rightarrow> f = Throw
   | Inr (r, b', m') \<Rightarrow> buf_inv b' m' \<and> \<not> buf_readonly b' \<and> buf_rpos b' = buf_rpos b
       \<and> buf_initbuf b' = buf_initbuf b
       \<and> mem_frame (buf_foot b) m m' \<and> buf_foot b' \<inter> dom (mem_blocks m) \<subseteq> buf_foot b
       \<and> mem_heap m' - buf_foot b' = mem_heap m - buf_foot b
       \<and> (r = TT_SUCCESS \<and> buf_data b' m' = buf_data b m @ vs
          \<or> r = TT_FAIL \<and> (\<exists>k. buf_data b' m' = buf_data b m @ take k vs)))"

lemma appends_cases:
  assumes "appends b m vs out"
  obtains (throw) "out = Inl Throw"
  | (ok) b' m' where "out = Inr (TT_SUCCESS, b', m')" "buf_inv b' m'" "\<not> buf_readonly b'"
      "buf_data b' m' = buf_data b m @ vs" "buf_rpos b' = buf_rpos b" "buf_initbuf b' = buf_initbuf b"
      "mem_frame (buf_foot b) m m'" "buf_foot b' \<inter> dom (mem_blocks m) \<subseteq> buf_foot b"
      "mem_heap m' - buf_foot b' = mem_heap m - buf_foot b"
  | (fail) b' m' k where "out = Inr (TT_FAIL, b', m')" "buf_inv b' m'" "\<not> buf_readonly b'"
      "buf_data b' m' = buf_data b m @ take k vs" "buf_rpos b' = buf_rpos b" "buf_initbuf b' = buf_initbuf b"
      "mem_frame (buf_foot b) m m'" "buf_foot b' \<inter> dom (mem_blocks m) \<subseteq> buf_foot b"
      "mem_heap m' - buf_foot b' = mem_heap m - buf_foot b"
  using assms unfolding appends_def by (auto split: sum.splits prod.splits)

lemma appends_Nil: "buf_inv b m \<Longrightarrow> \<not> buf_readonly b \<Longrightarrow> appends b m [] (Inr (TT_SUCCESS, b, m))"
  by (simp add: appends_def)

text \<open>Appends compose along \<^verbatim>\<open>TT_DO\<close>.\<close>

lemma appends_TT_DO:
  assumes c: "appends b m vs c"
    and k: "\<And>b' m'. buf_inv b' m' \<Longrightarrow> \<not> buf_readonly b' \<Longrightarrow> appends b' m' ws (k (b', m'))"
  shows "appends b m (vs @ ws) (TT_DO c k)"
  using c
proof (cases rule: appends_cases)
  case throw
  then show ?thesis by (simp add: appends_def)
next
  case (fail b' m' i)
  have "\<exists>j. take i vs = take j (vs @ ws)"
    by (rule exI [of _ "min i (length vs)"]) (simp add: min_def)
  with fail show ?thesis
    by (auto simp: appends_def)
next
  case (ok b1 m1)
  have "appends b1 m1 ws (k (b1, m1))"
    using ok by (intro k)
  then show ?thesis
  proof (cases rule: appends_cases)
    case throw
    with ok(1) show ?thesis by (simp add: appends_def)
  next
    case two: (ok b2 m2)
    have "buf_foot b1 \<inter> dom (mem_blocks m) \<subseteq> buf_foot b" by (fact ok(8))
    with ok(7) two(7) have fr: "mem_frame (buf_foot b) m m2" by (rule frame_compose)
    have "buf_foot b2 \<inter> dom (mem_blocks m) \<subseteq> buf_foot b"
      using ok(8) two(8) frame_dom [OF ok(7)] by blast
    with fr ok two show ?thesis
      by (simp add: appends_def)
  next
    case two: (fail b2 m2 i)
    have "buf_foot b1 \<inter> dom (mem_blocks m) \<subseteq> buf_foot b" by (fact ok(8))
    with ok(7) two(7) have fr: "mem_frame (buf_foot b) m m2" by (rule frame_compose)
    have "buf_foot b2 \<inter> dom (mem_blocks m) \<subseteq> buf_foot b"
      using ok(8) two(8) frame_dom [OF ok(7)] by blast
    with fr ok two show ?thesis
      by (auto simp: appends_def intro!: exI [of _ "length vs + i"])
  qed
qed

lemma appends_weaken: "appends b m vs out \<Longrightarrow> vs = ws \<Longrightarrow> appends b m ws out"
  by simp

text \<open>Storing bytes at the write position and advancing it.\<close>

lemma buf_store_at_wpos:
  assumes inv: "buf_inv b m" and n: "length vs = unat n"
    and le: "unat (buf_wpos b) + unat n \<le> unat (buf_size b)"
  obtains m' where "mem_store 1 m (buf_p b) (unat (buf_wpos b)) vs = Inr m'"
    "buf_inv (b\<lparr>buf_wpos := buf_wpos b + n\<rparr>) m'"
    "buf_data (b\<lparr>buf_wpos := buf_wpos b + n\<rparr>) m' = buf_data b m @ vs"
    "mem_frame (buf_foot b) m m'" "mem_heap m' = mem_heap m"
proof -
  let ?w = "unat (buf_wpos b)" and ?r = "unat (buf_rpos b)"
  have wl: "?w + length vs \<le> unat (buf_size b)"
    using n le by simp
  obtain m' where m': "mem_store 1 m (buf_p b) ?w vs = Inr m'" "buf_inv b m'"
    "buf_cells b m' = overwrite ?w vs (buf_cells b m)" "mem_frame (buf_foot b) m m'"
    "mem_heap m' = mem_heap m"
    using inv wl by (rule buf_store)
  have lt: "?w + unat n < 4294967296"
    using le unat_lt_32 [of "buf_size b"] by linarith
  then have un: "unat (buf_wpos b + n) = ?w + unat n"
    by (simp add: unat_add_u32)
  have rw: "?r \<le> ?w" "?w \<le> length (buf_cells b m)"
    using buf_inv_pos [OF inv] by auto
  have inv': "buf_inv (b\<lparr>buf_wpos := buf_wpos b + n\<rparr>) m'"
    using m'(2) un le rw(1) by (simp add: buf_inv_def buf_cells_def word_le_nat_alt)
  have "take (?w + unat n) (overwrite ?w vs (buf_cells b m)) = take ?w (buf_cells b m) @ vs"
    using take_overwrite_end [OF rw(2), of vs] n by simp
  then have "take (?w + unat n - ?r) (drop ?r (overwrite ?w vs (buf_cells b m)))
      = drop ?r (take ?w (buf_cells b m)) @ vs"
    using rw by (simp add: take_drop)
  then have "buf_data (b\<lparr>buf_wpos := buf_wpos b + n\<rparr>) m' = buf_data b m @ vs"
    using m'(3) un by (simp add: buf_data_def buf_cells_def drop_take)
  then show thesis
    using that m'(1,4,5) inv' by blast
qed

lemma TT_DO_reserve_appends:
  assumes inv: "buf_inv b m" and rw: "\<not> buf_readonly b" and len: "length vs = unat n"
    and k: "\<And>b' m'. k (b', m') = bindr (mem_store 1 m' (buf_p b') (unat (buf_wpos b')) vs) (\<lambda>m.
        let b = b'\<lparr>buf_wpos := buf_wpos b' + n\<rparr> in bindr (TT_BUF_CHECK b) (\<lambda>_. Inr (TT_SUCCESS, b, m)))"
  shows "appends b m vs (TT_DO (tt_buf_reserve n b m) k)"
  using inv rw
proof (cases rule: buf_reserve_cases [where n = n])
  case throw
  then show ?thesis by (simp add: appends_def)
next
  case (fail m')
  have "buf_data b m' = buf_data b m @ take 0 vs"
    using same_store_buf(2) [OF fail(3)] fail(2) inv by (simp add: buf_inv_def)
  then show ?thesis
    using fail rw same_store_frame [OF fail(3)]
    by (auto simp: appends_def same_store_def intro!: exI [of _ 0])
next
  case (ok b1 m1)
  have le: "unat (buf_wpos b1) + unat n \<le> unat (buf_size b1)"
    using ok(5,7) by simp
  from ok(2) len le obtain m2 where m2: "mem_store 1 m1 (buf_p b1) (unat (buf_wpos b1)) vs = Inr m2"
    "buf_inv (b1\<lparr>buf_wpos := buf_wpos b1 + n\<rparr>) m2"
    "buf_data (b1\<lparr>buf_wpos := buf_wpos b1 + n\<rparr>) m2 = buf_data b1 m1 @ vs"
    "mem_frame (buf_foot b1) m1 m2" "mem_heap m2 = mem_heap m1"
    by (rule buf_store_at_wpos)
  have "TT_DO (tt_buf_reserve n b m) k = Inr (TT_SUCCESS, b1\<lparr>buf_wpos := buf_wpos b1 + n\<rparr>, m2)"
    using ok(1) m2(1) k buf_check_ok [OF m2(2)] by (simp add: Let_def)
  moreover have "mem_frame (buf_foot b) m m2"
    using ok(9) m2(4) ok(11) by (rule frame_compose)
  ultimately show ?thesis
    using m2(2,3,5) ok by (simp add: appends_def buf_foot_def)
qed

lemma buf_put_appends:
  assumes inv: "buf_inv b m" and rw: "\<not> buf_readonly b" and len: "unat n \<le> length bs"
  shows "appends b m (take (unat n) bs) (tt_buf_put (Some bs) n b m)"
proof (cases "n = 0")
  case True
  then show ?thesis
    using inv rw by (simp add: tt_buf_put_def appends_Nil)
next
  case False
  have "length (take (unat n) bs) = unat n"
    using len by simp
  with False show ?thesis
    using inv rw len unfolding tt_buf_put_def
    by (simp only: if_False if_True option.case simp_thms)
      (rule TT_DO_reserve_appends, auto simp: src_bytes_def)
qed

text \<open>Bytes that fit the storage are put without any allocation.\<close>

lemma buf_put_fits:
  assumes inv: "buf_inv b m" and rw: "\<not> buf_readonly b" and n: "unat n \<le> length bs"
    and le: "unat (buf_wpos b) + unat n \<le> unat (buf_size b)"
  shows "\<exists>b' m'. tt_buf_put (Some bs) n b m = Inr (TT_SUCCESS, b', m')"
proof -
  have len: "length (take (unat n) bs) = unat n" using n by simp
  from inv len le obtain m' where
    m': "mem_store 1 m (buf_p b) (unat (buf_wpos b)) (take (unat n) bs) = Inr m'"
    "buf_inv (b\<lparr>buf_wpos := buf_wpos b + n\<rparr>) m'" by (rule buf_store_at_wpos)
  moreover have "n \<le> TT_BUF_WLEN b"
    using le by (simp add: word_le_nat_alt buf_wlen [OF inv])
  ultimately show ?thesis
    using rw n by (simp add: tt_buf_put_def tt_buf_reserve_def src_bytes_def buf_check_ok)
qed

lemma buf_put_rep_appends:
  assumes inv: "buf_inv b m" and rw: "\<not> buf_readonly b"
  shows "appends b m (replicate (unat n) v) (tt_buf_put_rep v n b m)"
proof (cases "n = 0")
  case True
  then show ?thesis
    using inv rw by (simp add: tt_buf_put_rep_def appends_Nil)
next
  case False
  with inv rw show ?thesis
    unfolding tt_buf_put_rep_def
    by (simp only: if_False if_True option.case simp_thms) (rule TT_DO_reserve_appends, auto)
qed


section \<open>Reading bytes\<close>

lemma buf_peek_eq:
  assumes inv: "buf_inv b m"
  shows "tt_buf_peek n b m = Inr (if unat n \<le> length (buf_data b m)
    then (TT_SUCCESS, take (unat n) (buf_data b m)) else (TT_E_BUF_NOBUFS, []))"
proof (cases "unat n \<le> length (buf_data b m)")
  case True
  then have n: "unat n \<le> unat (buf_wpos b) - unat (buf_rpos b)"
    using inv by (simp add: length_buf_data buf_rlen)
  then have "unat (buf_rpos b) + unat n \<le> unat (buf_size b)"
    using buf_inv_pos [OF inv] by linarith
  from buf_load [OF inv this]
  have "mem_load 1 m (buf_p b) (unat (buf_rpos b)) (unat n) = Inr (take (unat n) (buf_data b m))"
    using n by (simp add: buf_data_def min_def)
  moreover have "\<not> TT_BUF_RLEN b < n"
    using n inv by (simp add: word_less_nat_alt buf_rlen)
  ultimately show ?thesis
    using True by (simp add: tt_buf_peek_def)
next
  case False
  then show ?thesis
    using inv by (simp add: tt_buf_peek_def word_less_nat_alt length_buf_data)
qed

lemma buf_inv_inc_rp:
  assumes inv: "buf_inv b m" and n: "unat n \<le> length (buf_data b m)"
  shows "buf_inv (b\<lparr>buf_rpos := buf_rpos b + n\<rparr>) m"
    "buf_data (b\<lparr>buf_rpos := buf_rpos b + n\<rparr>) m = drop (unat n) (buf_data b m)"
proof -
  let ?r = "unat (buf_rpos b)" and ?w = "unat (buf_wpos b)"
  have le: "?r + unat n \<le> ?w"
    using n buf_inv_pos [OF inv] inv by (simp add: length_buf_data buf_rlen)
  then have "?r + unat n < 4294967296"
    using unat_lt_32 [of "buf_wpos b"] by linarith
  then have un: "unat (buf_rpos b + n) = ?r + unat n"
    by (simp add: unat_add_u32)
  show "buf_inv (b\<lparr>buf_rpos := buf_rpos b + n\<rparr>) m"
    using inv le un by (simp add: buf_inv_def buf_cells_def word_le_nat_alt)
  have "take (?w - (?r + unat n)) (drop (?r + unat n) (buf_cells b m))
      = drop (unat n) (take (?w - ?r) (drop ?r (buf_cells b m)))"
    by (simp add: drop_take add.commute)
  then show "buf_data (b\<lparr>buf_rpos := buf_rpos b + n\<rparr>) m = drop (unat n) (buf_data b m)"
    using un by (simp add: buf_data_def buf_cells_def)
qed

lemma buf_get_eq:
  assumes "buf_inv b m"
  shows "tt_buf_get n b m = Inr (if unat n \<le> length (buf_data b m)
    then (TT_SUCCESS, take (unat n) (buf_data b m), b\<lparr>buf_rpos := buf_rpos b + n\<rparr>)
    else (TT_E_BUF_NOBUFS, [], b))"
  using assms by (simp add: tt_buf_get_def buf_peek_eq)

lemma buf_get_nocopy_eq:
  assumes "buf_inv b m"
  shows "tt_buf_get_nocopy n b = (if unat n \<le> length (buf_data b m)
    then (TT_SUCCESS, Some (buf_p b, unat (buf_rpos b)), b\<lparr>buf_rpos := buf_rpos b + n\<rparr>)
    else (TT_E_BUF_NOBUFS, None, b))"
  using assms by (simp add: tt_buf_get_nocopy_def word_less_nat_alt length_buf_data)

lemma buf_inc_rp_eq:
  assumes "buf_inv b m"
  shows "tt_buf_inc_rp n b = (if unat n \<le> length (buf_data b m)
    then (TT_SUCCESS, b\<lparr>buf_rpos := buf_rpos b + n\<rparr>) else (TT_E_BUF_NOBUFS, b))"
  using assms by (simp add: tt_buf_inc_rp_def word_le_nat_alt length_buf_data)

text \<open>The bytes at the address \<^verbatim>\<open>tt_buf_get_nocopy\<close> hands out.\<close>

lemma buf_nocopy_bytes:
  assumes "buf_inv b m" "unat n \<le> length (buf_data b m)"
  shows "mem_load 1 m (buf_p b) (unat (buf_rpos b)) (unat n) = Inr (take (unat n) (buf_data b m))"
proof -
  have n: "unat n \<le> unat (buf_wpos b) - unat (buf_rpos b)"
    using assms by (simp add: length_buf_data buf_rlen)
  then have "unat (buf_rpos b) + unat n \<le> unat (buf_size b)"
    using buf_inv_pos [OF assms(1)] by linarith
  from buf_load [OF assms(1) this] show ?thesis
    using n by (simp add: buf_data_def min_def)
qed

section \<open>Moving bytes inside the storage\<close>

lemma buf_memmove:
  assumes inv: "buf_inv b m" and le: "d + n \<le> unat (buf_size b)" "s + n \<le> unat (buf_size b)"
  obtains m' where "tt_memmove 1 m (buf_p b) d (buf_p b) s n = Inr m'" "buf_inv b m'"
    "buf_cells b m' = overwrite d (take n (drop s (buf_cells b m))) (buf_cells b m)"
    "mem_frame (buf_foot b) m m'" "mem_heap m' = mem_heap m"
proof -
  from inv obtain i where i: "length (buf_cells b m) = unat (buf_size b)" by (rule buf_invE)
  then have len: "length (take n (drop s (buf_cells b m))) = n"
    using le by simp
  then have "d + length (take n (drop s (buf_cells b m))) \<le> unat (buf_size b)"
    using le by simp
  from inv this obtain m' where m': "mem_store 1 m (buf_p b) d (take n (drop s (buf_cells b m))) = Inr m'"
    "buf_inv b m'" "buf_cells b m' = overwrite d (take n (drop s (buf_cells b m))) (buf_cells b m)"
    "mem_frame (buf_foot b) m m'" "mem_heap m' = mem_heap m" by (rule buf_store)
  have "tt_memmove 1 m (buf_p b) d (buf_p b) s n = Inr m'"
    using m'(1) buf_load [OF inv le(2)] by (simp add: tt_memmove_def)
  with m' that show thesis by blast
qed

lemma buf_refine_ok:
  assumes inv: "buf_inv b m" and rw: "\<not> buf_readonly b"
  obtains b' m' where "tt_buf_refine b m = Inr (buf_rpos b, b', m')" "buf_inv b' m'"
    "buf_data b' m' = buf_data b m" "buf_rpos b' = 0" "buf_size b' = buf_size b"
    "mem_frame (buf_foot b) m m'" "mem_heap m' = mem_heap m" "buf_foot b' = buf_foot b"
    "\<not> buf_readonly b'" "buf_initbuf b' = buf_initbuf b"
proof (cases "buf_rpos b = 0")
  case True
  then show thesis
    using that [of b m] inv rw by (simp add: tt_buf_refine_def)
next
  case r0: False
  let ?r = "unat (buf_rpos b)" and ?w = "unat (buf_wpos b)"
  show thesis
  proof (cases "buf_rpos b = buf_wpos b")
    case True
    let ?b = "tt_buf_reset_rwp b"
    have i: "buf_inv ?b m"
      using inv by (simp add: tt_buf_reset_rwp_def buf_inv_positions)
    have "tt_buf_refine b m = Inr (buf_rpos b, ?b, m)"
      using r0 rw True buf_check_ok [OF i] by (simp add: tt_buf_refine_def)
    then show thesis
      using that [of ?b m] i True rw
      by (simp add: tt_buf_reset_rwp_def buf_data_def buf_foot_def)
  next
    case False
    have l: "unat (TT_BUF_RLEN b) = ?w - ?r" using inv by (rule buf_rlen)
    have le: "0 + (?w - ?r) \<le> unat (buf_size b)" "?r + (?w - ?r) \<le> unat (buf_size b)"
      using buf_inv_pos [OF inv] by linarith+
    from inv le obtain m' where m': "tt_memmove 1 m (buf_p b) 0 (buf_p b) ?r (?w - ?r) = Inr m'"
      "buf_inv b m'" "buf_cells b m' = overwrite 0 (take (?w - ?r) (drop ?r (buf_cells b m))) (buf_cells b m)"
      "mem_frame (buf_foot b) m m'" "mem_heap m' = mem_heap m" by (rule buf_memmove)
    let ?b = "b\<lparr>buf_rpos := 0, buf_wpos := TT_BUF_RLEN b\<rparr>"
    have i: "buf_inv ?b m'"
      using m'(2) l le by (intro buf_inv_positions) (simp_all add: word_le_nat_alt)
    have d: "buf_data ?b m' = buf_data b m"
      using m'(3) l buf_inv_pos [OF inv] by (simp add: buf_data_def buf_cells_def overwrite_def)
    have "tt_buf_refine b m = Inr (buf_rpos b, ?b, m')"
      using r0 rw False m'(1) l buf_check_ok [OF i] by (simp add: tt_buf_refine_def Let_def)
    then show thesis
      using that [of ?b m'] i d m' rw by (simp add: buf_foot_def)
  qed
qed

section \<open>Creation and destruction\<close>

text \<open>A struct before creation: only its embedded array is known.\<close>

definition buf_raw :: "tt_buf \<Rightarrow> bmem \<Rightarrow> bool" where
  "buf_raw b m \<longleftrightarrow> mem_inv m \<and> buf_initbuf b \<notin> mem_heap m
     \<and> (\<exists>ib. mem_blocks m (buf_initbuf b) = Some ib \<and> length ib = 16)"

text \<open>The attributes \<^verbatim>\<open>tt_memspg_init\<close> accepts, with the bound its comment relies on.\<close>

definition buf_attr_ok :: "tt_buf_attr option \<Rightarrow> bool" where
  "buf_attr_ok a \<longleftrightarrow> (case a of None \<Rightarrow> True | Some a \<Rightarrow>
     memspg_ok 1 \<lparr>min_extend = attr_min_extend a, max_extend = attr_max_extend a,
                  max_limit = attr_max_limit a\<rparr>)"

lemma memspg_init_ok1: "memspg_ok w g \<Longrightarrow> tt_memspg_init (min_extend g) (max_extend g) (max_limit g) = Inr g"
  by (simp add: tt_memspg_init_ok memspg_ok_def)

lemma buf_attr_memspg:
  assumes "buf_attr_ok a"
  obtains g where "memspg_ok 1 g"
    "(let a = (case a of None \<Rightarrow> tt_buf_attr_default | Some a \<Rightarrow> a) in
      tt_memspg_init (attr_min_extend a) (attr_max_extend a) (attr_max_limit a)) = Inr g"
proof (cases a)
  case None
  let ?g = "\<lparr>min_extend = 64, max_extend = 4096, max_limit = 0\<rparr>"
  have "memspg_ok 1 ?g" by (simp add: memspg_ok_def)
  with that [of ?g] None memspg_init_ok1 [of 1 ?g] show thesis
    by (simp add: tt_buf_attr_default_def Let_def)
next
  case (Some x)
  with assms have "memspg_ok 1 \<lparr>min_extend = attr_min_extend x, max_extend = attr_max_extend x,
      max_limit = attr_max_limit x\<rparr>"
    by (simp add: buf_attr_ok_def)
  from that [OF this] memspg_init_ok1 [OF this] Some show thesis
    by (simp add: Let_def)
qed

lemma buf_create_inline:
  assumes raw: "buf_raw b m" and g: "memspg_ok 1 g"
    and p: "buf_p b' = Some (buf_initbuf b') \<and> buf_size b' = TT_BUF_INIT_SIZE \<or>
            (\<exists>n cs. buf_p b' = Some n \<and> n \<in> mem_heap m \<and> mem_blocks m n = Some cs
               \<and> length cs = unat (buf_size b') \<and> 0 < buf_size b')"
    and b': "buf_initbuf b' = buf_initbuf b" "buf_mspg b' = g" "buf_wpos b' = 0" "buf_rpos b' = 0"
      "\<not> buf_readonly b'"
  obtains m' where "mem_store 1 m (Some (buf_initbuf b)) 0 (replicate (unat TT_BUF_INIT_SIZE) 0) = Inr m'"
    "buf_inv b' m'" "buf_data b' m' = []" "mem_frame {buf_initbuf b} m m'" "mem_heap m' = mem_heap m"
proof -
  obtain ib where ib: "mem_blocks m (buf_initbuf b) = Some ib" "length ib = 16"
    "buf_initbuf b \<notin> mem_heap m" "mem_inv m"
    using raw by (auto simp: buf_raw_def)
  let ?m = "m\<lparr>mem_blocks := (mem_blocks m)(buf_initbuf b \<mapsto> overwrite 0 (replicate 16 0) ib)\<rparr>"
  have st: "mem_store 1 m (Some (buf_initbuf b)) 0 (replicate (unat TT_BUF_INIT_SIZE) 0) = Inr ?m"
    using ib mem_store_ok [of m "buf_initbuf b" ib 1 0 "replicate 16 0"]
    by (simp add: TT_BUF_INIT_SIZE_def)
  have "buf_inv b' ?m"
    using p ib b' g mem_inv_upd [OF ib(4,1)]
    by (auto simp: buf_inv_def points_to_def buf_cells_def TT_BUF_INIT_SIZE_def)
  moreover have "buf_data b' ?m = []"
    using b' by (simp add: buf_data_def)
  moreover have "mem_frame {buf_initbuf b} m ?m"
    by (simp add: mem_frame_upd)
  ultimately show thesis
    using that st by simp
qed

lemma buf_create_cases:
  assumes raw: "buf_raw b m" and a: "buf_attr_ok a"
  obtains (fail) b' m' where "tt_buf_create b sz a m = Inr (TT_FAIL, b', m')" "16 \<le> unat sz"
      "mem_inv m'" "same_store m m'"
  | (ok) b' m' where "tt_buf_create b sz a m = Inr (TT_SUCCESS, b', m')" "buf_inv b' m'"
      "buf_data b' m' = []" "unat sz \<le> unat (buf_size b')" "\<not> buf_readonly b'"
      "buf_initbuf b' = buf_initbuf b"
      "mem_frame {buf_initbuf b} m m'" "mem_heap m' - buf_foot b' = mem_heap m"
      "buf_foot b' \<inter> dom (mem_blocks m) \<subseteq> {buf_initbuf b}"
proof -
  obtain g where g: "memspg_ok 1 g" "(let a = (case a of None \<Rightarrow> tt_buf_attr_default | Some a \<Rightarrow> a) in
      tt_memspg_init (attr_min_extend a) (attr_max_extend a) (attr_max_limit a)) = Inr g"
    using a by (rule buf_attr_memspg)
  have nh: "buf_initbuf b \<notin> mem_heap m" "mem_inv m"
    using raw by (auto simp: buf_raw_def)
  show thesis
  proof (cases "sz < TT_BUF_INIT_SIZE")
    case True
    let ?b = "b\<lparr>buf_mspg := g, buf_p := Some (buf_initbuf b), buf_size := TT_BUF_INIT_SIZE,
      buf_wpos := 0, buf_rpos := 0, buf_readonly := False\<rparr>"
    obtain m' where m': "mem_store 1 m (Some (buf_initbuf b)) 0 (replicate (unat TT_BUF_INIT_SIZE) 0) = Inr m'"
      "buf_inv ?b m'" "buf_data ?b m' = []" "mem_frame {buf_initbuf b} m m'" "mem_heap m' = mem_heap m"
      using raw g(1) by (rule buf_create_inline [where b' = ?b]) simp_all
    have "tt_buf_create b sz a m = Inr (TT_SUCCESS, ?b, m')"
      using True g(2) m'(1) by (simp add: tt_buf_create_def Let_def)
    moreover have "mem_heap m' - buf_foot ?b = mem_heap m"
      using m'(5) nh by (simp add: buf_foot_def)
    ultimately show thesis
      using that(2) [of ?b m'] m' True
      by (simp add: word_less_nat_alt TT_BUF_INIT_SIZE_def buf_foot_def)
  next
    case False
    have gt: "0 < sz" and ge: "16 \<le> unat sz"
      using False by (auto simp: TT_BUF_INIT_SIZE_def word_less_nat_alt)
    have pt: "points_to 1 m None 0 ([] :: u8 list)"
      by (simp add: points_to_def)
    have own: "(0 :: u32) AND TT_MSPGEXT_NOFREE \<noteq> 0 \<or> set_option (None :: ptr) \<subseteq> mem_heap m"
      and z0: "(0 :: u32) AND TT_MSPGEXT_ZERO = 0" by simp_all
    show thesis
      using g(1) nh(2) pt own z0 gt
    proof (cases rule: memspg_extend_ex_cases [where z = "0 :: u8"])
      case (fail m')
      then have "tt_buf_create b sz a m = Inr (TT_FAIL, b\<lparr>buf_mspg := g, buf_p := None, buf_size := 0\<rparr>, m')"
        using False g(2) by (simp add: tt_buf_create_def Let_def tt_memspg_extend_def)
      then show thesis
        using that(1) ge fail by blast
    next
      case (ok n sz' cs' m1)
      let ?b = "b\<lparr>buf_mspg := g, buf_p := Some n, buf_size := sz', buf_wpos := 0, buf_rpos := 0,
        buf_readonly := False\<rparr>"
      have mv: "moved m {} n cs' m1" using ok(7) by simp
      note D = movedD [OF mv]
      have nb: "n \<noteq> buf_initbuf b"
        using raw D(1) by (auto simp: buf_raw_def)
      have raw1: "buf_raw b m1"
        using raw ok(2) D(3,4) nb unfolding buf_raw_def by simp
      have pb: "\<exists>j cs. buf_p ?b = Some j \<and> j \<in> mem_heap m1 \<and> mem_blocks m1 j = Some cs
          \<and> length cs = unat (buf_size ?b) \<and> 0 < buf_size ?b"
        using moved_new [OF mv] ok(3,6) by (simp add: word_less_nat_alt)
      obtain m' where m': "mem_store 1 m1 (Some (buf_initbuf b)) 0 (replicate (unat TT_BUF_INIT_SIZE) 0) = Inr m'"
        "buf_inv ?b m'" "buf_data ?b m' = []" "mem_frame {buf_initbuf b} m1 m'" "mem_heap m' = mem_heap m1"
        using raw1 g(1) by (rule buf_create_inline [where b' = ?b]) (use pb in simp_all)
      have "tt_buf_create b sz a m = Inr (TT_SUCCESS, ?b, m')"
        using False g(2) m'(1) ok(1) by (simp add: tt_buf_create_def Let_def tt_memspg_extend_def)
      moreover have "mem_frame {buf_initbuf b} m m'"
        using mem_frame_trans [OF moved_frame [OF mv] m'(4)] by simp
      moreover have "mem_heap m' - buf_foot ?b = mem_heap m"
        using m'(5) D(2,4) nh(1) by (simp add: buf_foot_def)
      moreover have "buf_foot ?b \<inter> dom (mem_blocks m) \<subseteq> {buf_initbuf b}"
        using D(1) by (auto simp: buf_foot_def)
      ultimately show thesis
        using that(2) [of ?b m'] m' ok(5) by simp
    qed
  qed
qed

lemma buf_destroy_ok:
  assumes inv: "buf_inv b m"
  obtains b' m' where "tt_buf_destroy b m = Inr (b', m')" "mem_inv m'"
    "mem_frame (buf_foot b) m m'"
    "mem_heap m' = (if buf_readonly b then mem_heap m else mem_heap m - buf_foot b)"
proof -
  from inv obtain i where i: "buf_p b = Some i" by (rule buf_invE)
  have mi: "mem_inv m" and nh: "buf_initbuf b \<notin> mem_heap m"
    and pt: "points_to 1 m (Some i) (buf_size b) (buf_cells b m)"
    using inv i by (auto simp: buf_inv_def)
  show thesis
  proof (cases "buf_p b \<noteq> Some (buf_initbuf b) \<and> \<not> buf_readonly b")
    case True
    then have own: "i \<in> mem_heap m" and sz: "0 < buf_size b"
      using inv i by (auto simp: buf_inv_def)
    show thesis
      using mi pt own sz zero_less_one one_dvd
    proof (cases rule: memspg_compress_cases [where g = "buf_mspg b"])
      case (empty m')
      then have "tt_buf_destroy b m = Inr (b\<lparr>buf_p := None, buf_size := 0\<rparr>, m')"
        using True i by (simp add: tt_buf_destroy_def)
      moreover have "mem_frame (buf_foot b) m m'"
        using released_frame [OF empty(4)] i by (auto simp: mem_frame_def buf_foot_def)
      moreover have "mem_heap m' = mem_heap m - buf_foot b"
        using empty(4) i nh by (simp add: released_def buf_foot_def)
      ultimately show thesis
        using that empty(3) True by simp
    qed simp_all
  next
    case False
    then have "tt_buf_destroy b m = Inr (b, m)"
      using i by (auto simp: tt_buf_destroy_def)
    moreover have "\<not> buf_readonly b \<Longrightarrow> mem_heap m = mem_heap m - buf_foot b"
      using False nh by (auto simp: buf_foot_def)
    ultimately show thesis
      using that [of b m] mi by auto
  qed
qed


section \<open>Compressing\<close>

lemma buf_compress_short:
  assumes inv: "buf_inv b m" and rw: "\<not> buf_readonly b" and len: "length (buf_data b m) \<le> 16"
  obtains b' m' where "tt_buf_compress b m = Inr (TT_SUCCESS, b', m')" "buf_inv b' m'"
    "buf_data b' m' = buf_data b m" "buf_p b' = Some (buf_initbuf b)" "buf_size b' = 16"
    "buf_initbuf b' = buf_initbuf b"
    "mem_frame (buf_foot b) m m'" "mem_heap m' - buf_foot b' = mem_heap m - buf_foot b"
    "\<not> buf_readonly b'"
proof -
  let ?l = "TT_BUF_RLEN b" and ?ib = "buf_initbuf b" and ?d = "buf_data b m"
  let ?b = "b\<lparr>buf_p := Some ?ib, buf_size := TT_BUF_INIT_SIZE, buf_rpos := 0, buf_wpos := ?l\<rparr>"
  have l: "unat ?l = length ?d" "?l \<le> TT_BUF_INIT_SIZE"
    using inv len by (simp_all add: length_buf_data TT_BUF_INIT_SIZE_def word_le_nat_alt)
  obtain ib where ib: "mem_blocks m ?ib = Some ib" "length ib = 16" "?ib \<notin> mem_heap m"
    using inv by (auto simp: buf_inv_def)
  let ?m1 = "m\<lparr>mem_blocks := (mem_blocks m)(?ib \<mapsto> overwrite 0 ?d ib)\<rparr>"
  have mv: "tt_memmove 1 m (Some ?ib) 0 (buf_p b) (unat (buf_rpos b)) (unat ?l) = Inr ?m1"
    using buf_nocopy_bytes [OF inv, of ?l] l(1) ib(1,2) len
      mem_store_ok [of m ?ib ib 1 0 ?d] by (simp add: tt_memmove_def)
  have mi1: "mem_inv ?m1"
    using inv ib(1) by (simp add: mem_inv_upd buf_inv_def)
  have goodI: "buf_inv ?b m' \<and> buf_data ?b m' = ?d"
    if m': "mem_inv m'" "mem_blocks m' ?ib = Some (overwrite 0 ?d ib)" "?ib \<notin> mem_heap m'" for m'
    using m' inv ib(2) l len
    by (auto simp: buf_inv_def points_to_def buf_cells_def buf_data_def TT_BUF_INIT_SIZE_def
        overwrite_def word_le_nat_alt)
  show thesis
  proof (cases "buf_p b = Some ?ib")
    case True
    have g: "buf_inv ?b ?m1 \<and> buf_data ?b ?m1 = ?d"
      using mi1 ib(3) by (intro goodI) simp_all
    then have "tt_buf_compress b m = Inr (TT_SUCCESS, ?b, ?m1)"
      using True rw l(2) mv buf_check_ok [of ?b ?m1] by (simp add: tt_buf_compress_def Let_def)
    then show thesis
      using that [of ?b ?m1] g True rw
      by (simp add: TT_BUF_INIT_SIZE_def mem_frame_upd buf_foot_def)
  next
    case False
    from inv obtain i where i: "buf_p b = Some i" "mem_blocks m i = Some (buf_cells b m)"
      "length (buf_cells b m) = unat (buf_size b)" by (rule buf_invE)
    have ne: "i \<noteq> ?ib" and own: "i \<in> mem_heap ?m1" and sz: "0 < buf_size b"
      using False i inv rw by (auto simp: buf_inv_def)
    have pt: "points_to 1 ?m1 (Some i) (buf_size b) (buf_cells b m)"
      using i ne by (simp add: points_to_def)
    show thesis
      using mi1 pt own sz zero_less_one one_dvd
    proof (cases rule: memspg_compress_cases [where g = "buf_mspg b"])
      case (empty m')
      have m': "mem_blocks m' = mem_blocks ?m1 |` (- {i})" "mem_heap m' = mem_heap ?m1 - {i}"
        using empty(4) unfolding released_def by blast+
      have g: "buf_inv ?b m' \<and> buf_data ?b m' = ?d"
        using empty(3) ib(3) m' ne by (intro goodI) simp_all
      have eq: "tt_buf_compress b m = Inr (TT_SUCCESS, ?b, m')"
        using False rw l(2) mv empty(1) i(1) g buf_check_ok [of ?b m']
        by (simp add: tt_buf_compress_def Let_def)
      have "mem_frame (buf_foot b) m m'"
        using m' i(1) by (auto simp: mem_frame_def buf_foot_def)
      moreover have "mem_heap m' - buf_foot ?b = mem_heap m - buf_foot b"
        using m'(2) i(1) by (auto simp: buf_foot_def)
      ultimately show thesis
        using that [OF eq] g rw by (simp add: TT_BUF_INIT_SIZE_def)
    qed simp_all
  qed
qed

text \<open>
  With more than 16 readable bytes in a heap block, \<^verbatim>\<open>tt_memspg_compress_range\<close> moves them to a
  block of exactly their number, but the positions keep their old values.
\<close>

lemma buf_compress_long:
  assumes inv: "buf_inv b m" and rw: "\<not> buf_readonly b" and len: "16 < length (buf_data b m)"
  obtains (fail) m' where "tt_buf_compress b m = Inr (TT_FAIL, b, m')" "buf_inv b m'" "same_store m m'"
  | (ok) n m' where
      "tt_buf_compress b m = Inr (TT_SUCCESS, b\<lparr>buf_p := Some n, buf_size := TT_BUF_RLEN b\<rparr>, m')"
      "mem_inv m'" "moved m {the (buf_p b)} n (buf_data b m) m'" "the (buf_p b) \<noteq> buf_initbuf b"
proof -
  from inv obtain i where i: "buf_p b = Some i" "mem_blocks m i = Some (buf_cells b m)"
    "length (buf_cells b m) = unat (buf_size b)" by (rule buf_invE)
  have mi: "mem_inv m" and le: "buf_rpos b \<le> buf_wpos b" "buf_wpos b \<le> buf_size b"
    and pt: "points_to 1 m (Some i) (buf_size b) (buf_cells b m)"
    using inv i by (auto simp: buf_inv_def)
  have ne: "i \<noteq> buf_initbuf b"
    using inv i len buf_inv_pos(3) [OF inv] by (auto simp: buf_inv_def buf_data_def)
  then have own: "i \<in> mem_heap m"
    using inv i rw by (auto simp: buf_inv_def)
  have l: "\<not> TT_BUF_RLEN b \<le> TT_BUF_INIT_SIZE"
    using inv len by (simp add: length_buf_data TT_BUF_INIT_SIZE_def word_le_nat_alt)
  have ne': "buf_rpos b \<noteq> buf_wpos b"
    using l by (auto simp: TT_BUF_RLEN_def)
  show thesis
    using mi pt own le zero_less_one one_dvd one_dvd
  proof (cases rule: memspg_compress_range_cases [where g = "buf_mspg b"])
    case (fail m')
    then show thesis
      using that(1) [of m'] rw l i(1) same_store_buf(1) [OF fail(4,3) inv]
      by (simp add: tt_buf_compress_def Let_def)
  next
    case (empty m')
    with ne' show thesis by simp
  next
    case (ok n m')
    have "take (unat (buf_wpos b - buf_rpos b) div 1) (drop (unat (buf_rpos b) div 1) (buf_cells b m))
        = buf_data b m"
      using buf_rlen [OF inv] by (simp add: buf_data_def TT_BUF_RLEN_def)
    with ok have "moved m {the (buf_p b)} n (buf_data b m) m'"
      using i(1) by simp
    then show thesis
      using that(2) [of n m'] rw l i(1) ok(1,3) ne
      by (simp add: tt_buf_compress_def Let_def TT_BUF_RLEN_def)
  qed
qed

section \<open>Overwriting bytes in place\<close>

lemma buf_set_ok:
  assumes inv: "buf_inv b m" and le: "unat pos + unat n \<le> length (buf_data b m)" and n: "unat n \<le> length bs"
  obtains m' where "tt_buf_set pos bs n b m = Inr (TT_SUCCESS, b, m')" "buf_inv b m'"
    "buf_data b m' = overwrite (unat pos) (take (unat n) bs) (buf_data b m)"
    "mem_frame (buf_foot b) m m'" "mem_heap m' = mem_heap m"
proof -
  let ?r = "unat (buf_rpos b)" and ?w = "unat (buf_wpos b)" and ?vs = "take (unat n) bs"
  have rw: "?r + unat pos + unat n \<le> ?w" "?w \<le> length (buf_cells b m)" "?r \<le> ?w"
    using le buf_inv_pos [OF inv] inv by (auto simp: length_buf_data buf_rlen)
  then have lt: "?r + unat pos + unat n < 4294967296"
    using unat_lt_32 [of "buf_wpos b"] by linarith
  then have up: "unat (buf_rpos b + pos) = ?r + unat pos"
    by (intro unat_add_u32) linarith
  have upn: "unat (buf_rpos b + pos + n) = ?r + unat pos + unat n"
    using lt up by (subst unat_add_u32) simp_all
  have "?r + unat pos + length ?vs \<le> unat (buf_size b)"
    using rw n buf_inv_pos(2) [OF inv] by simp
  from inv this obtain m' where m': "mem_store 1 m (buf_p b) (?r + unat pos) ?vs = Inr m'" "buf_inv b m'"
    "buf_cells b m' = overwrite (?r + unat pos) ?vs (buf_cells b m)" "mem_frame (buf_foot b) m m'"
    "mem_heap m' = mem_heap m" by (rule buf_store)
  have "tt_buf_set pos bs n b m = Inr (TT_SUCCESS, b, m')"
    using up upn rw m'(1) n buf_check_ok [OF inv]
    by (simp add: tt_buf_set_def word_less_nat_alt src_bytes_def)
  moreover have "buf_data b m' = overwrite (unat pos) ?vs (buf_data b m)"
  proof -
    have lv: "length ?vs = unat n" using n by simp
    have "take (?w - ?r) (drop ?r (overwrite (?r + unat pos) ?vs (buf_cells b m)))
      = overwrite (unat pos) ?vs (take (?w - ?r) (drop ?r (buf_cells b m)))"
      using rw lv by (intro window_overwrite) simp_all
    then show ?thesis
      using m'(3) by (simp add: buf_data_def)
  qed
  ultimately show thesis
    using that m' by blast
qed

end
