(* ===== verification/TT_Buffer_Run.thy ===== *)
theory TT_Buffer_Run
  imports TT_Buffer_Inv
begin

text \<open>
  What every call of \<^verbatim>\<open>tt_buffer.c\<close> keeps of a byte buffer and of the rest of the store, and the exact effect of
  \<^verbatim>\<open>tt_buf_set_range\<close>. The sequences of calls are in \<^verbatim>\<open>TT_Buffer_Props\<close>.
\<close>

section \<open>What every call keeps\<close>

definition keeps :: "tt_buf \<Rightarrow> bmem \<Rightarrow> tt_buf \<Rightarrow> bmem \<Rightarrow> bool" where
  "keeps b m b' m' \<longleftrightarrow> buf_inv b' m' \<and> \<not> buf_readonly b' \<and> buf_initbuf b' = buf_initbuf b
     \<and> mem_frame (buf_foot b) m m' \<and> buf_foot b' \<inter> dom (mem_blocks m) \<subseteq> buf_foot b
     \<and> mem_heap m' - buf_foot b' = mem_heap m - buf_foot b"

lemma keeps_refl: "buf_inv b m \<Longrightarrow> \<not> buf_readonly b \<Longrightarrow> keeps b m b m"
  by (simp add: keeps_def)

lemma keepsD:
  assumes "keeps b m b' m'"
  shows "buf_inv b' m'" "\<not> buf_readonly b'" "buf_initbuf b' = buf_initbuf b"
    "mem_frame (buf_foot b) m m'" "buf_foot b' \<inter> dom (mem_blocks m) \<subseteq> buf_foot b"
    "mem_heap m' - buf_foot b' = mem_heap m - buf_foot b"
  using assms unfolding keeps_def by blast+

lemma keeps_trans:
  assumes "keeps b m b1 m1" "keeps b1 m1 b2 m2"
  shows "keeps b m b2 m2"
proof -
  note one = keepsD [OF assms(1)] and two = keepsD [OF assms(2)]
  have fr: "mem_frame (buf_foot b) m m2"
    using one(4) two(4) one(5) by (rule frame_compose)
  have "buf_foot b2 \<inter> dom (mem_blocks m) \<subseteq> buf_foot b"
    using one(5) two(5) frame_dom [OF one(4)] by blast
  with fr show ?thesis
    using one(3,6) two(1,2,3,6) by (simp add: keeps_def)
qed

lemma keeps_pos:
  assumes "buf_inv b m" "\<not> buf_readonly b" "r \<le> w" "w \<le> buf_size b"
  shows "keeps b m (b\<lparr>buf_rpos := r, buf_wpos := w\<rparr>) m"
  using assms buf_inv_positions [OF assms(1,3,4)] by (simp add: keeps_def buf_foot_def)

lemma keeps_rpos:
  assumes "buf_inv b m" "\<not> buf_readonly b" "r \<le> buf_wpos b"
  shows "keeps b m (b\<lparr>buf_rpos := r\<rparr>) m"
  using assms by (auto simp: keeps_def buf_foot_def buf_inv_def buf_cells_def)

lemma keeps_wpos:
  assumes "buf_inv b m" "\<not> buf_readonly b" "buf_rpos b \<le> w" "w \<le> buf_size b"
  shows "keeps b m (b\<lparr>buf_wpos := w\<rparr>) m"
  using assms by (auto simp: keeps_def buf_foot_def buf_inv_def buf_cells_def)

lemma keeps_store:
  assumes "buf_inv b m'" "\<not> buf_readonly b" "mem_frame (buf_foot b) m m'" "mem_heap m' = mem_heap m"
  shows "keeps b m b m'"
  using assms by (auto simp: keeps_def)

lemma keeps_same_store:
  assumes "buf_inv b m'" "\<not> buf_readonly b" "same_store m m'"
  shows "keeps b m b m'"
  using assms same_store_frame [OF assms(3)] by (auto simp: keeps_def same_store_def)

lemma appends_keeps:
  "appends b m vs (Inr (r, b', m')) \<Longrightarrow> keeps b m b' m'"
  by (auto simp: appends_def keeps_def)

section \<open>Replacing a range\<close>

lemma window_splice:
  fixes cs :: "'a list"
  assumes "p + l \<le> r" "r \<le> length cs" "p + length vs + (r - (p + l)) \<le> length cs" "q \<le> p"
  shows "drop q (take (p + length vs + (r - (p + l)))
      (overwrite p vs (overwrite (p + length vs) (take (r - (p + l)) (drop (p + l) cs)) cs)))
    = drop q (take p cs) @ vs @ take (r - (p + l)) (drop (p + l) cs)"
proof -
  let ?t = "take (r - (p + l)) (drop (p + l) cs)"
  have lt: "length ?t = r - (p + l)" using assms by simp
  have lo: "length (overwrite (p + length vs) ?t cs) = length cs"
    using assms lt by (intro length_overwrite) simp
  have "take (p + length vs + (r - (p + l))) (overwrite p vs (overwrite (p + length vs) ?t cs))
      = take p cs @ vs @ ?t"
    using assms lt by (simp add: overwrite_def add.commute)
  then show ?thesis
    using assms by simp
qed

text \<open>
  The two moves of \<^verbatim>\<open>tt_buf_set_range\<close>: shift the tail, then store the new bytes. The write
  position \<open>w'\<close> is the old one moved by the difference of the lengths.
\<close>

lemma buf_splice:
  assumes inv: "buf_inv b m"
    and p: "p = unat (buf_rpos b) + i" and t: "t = unat (buf_wpos b) - (p + l)"
    and le: "p + l \<le> unat (buf_wpos b)" "p + length vs + t \<le> unat (buf_size b)"
    and w': "unat w' = p + length vs + t"
  obtains m1 m2 where "tt_memmove 1 m (buf_p b) (p + length vs) (buf_p b) (p + l) t = Inr m1"
    "mem_store 1 m1 (buf_p b) p vs = Inr m2" "buf_inv (b\<lparr>buf_wpos := w'\<rparr>) m2"
    "buf_data (b\<lparr>buf_wpos := w'\<rparr>) m2 =
       take i (buf_data b m) @ vs @ drop (i + l) (buf_data b m)"
    "mem_frame (buf_foot b) m m2" "mem_heap m2 = mem_heap m"
proof -
  let ?r = "unat (buf_rpos b)" and ?w = "unat (buf_wpos b)" and ?cs = "buf_cells b m"
  have pos: "?r \<le> ?w" "?w \<le> unat (buf_size b)" "?w \<le> length ?cs"
    using buf_inv_pos [OF inv] by auto
  have len: "length ?cs = unat (buf_size b)"
    using inv by (rule buf_invE)
  have s1: "p + l + t \<le> unat (buf_size b)" "p + length vs \<le> unat (buf_size b)"
    using le t pos by linarith+
  from inv le(2) s1(1) obtain m1 where m1:
    "tt_memmove 1 m (buf_p b) (p + length vs) (buf_p b) (p + l) t = Inr m1" "buf_inv b m1"
    "buf_cells b m1 = overwrite (p + length vs) (take t (drop (p + l) ?cs)) ?cs"
    "mem_frame (buf_foot b) m m1" "mem_heap m1 = mem_heap m" by (rule buf_memmove)
  from m1(2) s1(2) obtain m2 where m2: "mem_store 1 m1 (buf_p b) p vs = Inr m2" "buf_inv b m2"
    "buf_cells b m2 = overwrite p vs (buf_cells b m1)"
    "mem_frame (buf_foot b) m1 m2" "mem_heap m2 = mem_heap m1" by (rule buf_store)
  have inv2: "buf_inv (b\<lparr>buf_wpos := w'\<rparr>) m2"
    using m2(2) w' le p by (simp add: buf_inv_def buf_cells_def word_le_nat_alt)
  have "drop ?r (take (unat w') (buf_cells b m2)) =
      drop ?r (take p ?cs) @ vs @ take t (drop (p + l) ?cs)"
    using window_splice [of p l ?w ?cs vs ?r] le pos len m1(3) m2(3) w' t p by simp
  moreover have "drop ?r (take p ?cs) = take i (buf_data b m)"
    using p le(1) by (simp add: buf_data_def drop_take min_def)
  moreover have "take t (drop (p + l) ?cs) = drop (i + l) (buf_data b m)"
    using p t by (simp add: buf_data_def drop_take ac_simps)
  ultimately have d: "buf_data (b\<lparr>buf_wpos := w'\<rparr>) m2 =
      take i (buf_data b m) @ vs @ drop (i + l) (buf_data b m)"
    by (simp add: buf_data_def buf_cells_def drop_take)
  have "mem_frame (buf_foot b) m m2"
    using m1(4) m2(4) by (rule frame_compose) simp
  then show thesis
    using that m1(1,5) m2(1,5) inv2 d by simp
qed

lemma buf_set_range_cases:
  assumes inv: "buf_inv b m" and rw: "\<not> buf_readonly b"
    and le: "unat pos + unat len \<le> length (buf_data b m)" and n: "unat n \<le> length bs"
  obtains (throw) "tt_buf_set_range pos len bs n b m = Inl Throw"
      "\<not> buf_room (n - min len n) b m" "2 ^ 32 \<le> unat (buf_size b) + unat (n - min len n)"
  | (fail) m' where "tt_buf_set_range pos len bs n b m = Inr (TT_FAIL, b, m')" "buf_inv b m'" "same_store m m'"
      "\<not> buf_room (n - min len n) b m" "unat (buf_size b) + unat (n - min len n) < 2 ^ 32"
  | (ok) b' m' where "tt_buf_set_range pos len bs n b m = Inr (TT_SUCCESS, b', m')" "keeps b m b' m'"
      "buf_data b' m' = take (unat pos) (buf_data b m) @ take (unat n) bs
         @ drop (unat pos + unat len) (buf_data b m)" "buf_room (n - min len n) b m"
proof -
  let ?r = "unat (buf_rpos b)" and ?w = "unat (buf_wpos b)"
  let ?p = "?r + unat pos" and ?vs = "take (unat n) bs"
  let ?t = "?w - (?p + unat len)"
  have lv: "length ?vs = unat n" using n by simp
  have rp: "?p + unat len \<le> ?w" "?r \<le> ?w"
    using le buf_inv_pos [OF inv] inv by (auto simp: length_buf_data buf_rlen)
  have w32: "?w < 4294967296" using unat_lt_32 .
  have up: "unat (buf_rpos b + pos) = ?p"
    using rp w32 by (intro unat_add_u32) linarith
  have upl: "unat (buf_rpos b + pos + len) = ?p + unat len"
    using rp w32 up by (subst unat_add_u32) simp_all
  have "unat (pos + len) = unat pos + unat len"
    using rp w32 by (intro unat_add_u32) linarith
  then have guards: "\<not> TT_U32_ADD_WOULD_OVFL (buf_rpos b) pos"
    "\<not> TT_U32_ADD_WOULD_OVFL (buf_rpos b) (pos + len)"
    "\<not> buf_rpos b + pos > buf_wpos b" "\<not> buf_rpos b + pos + len > buf_wpos b"
    using rp w32 up upl by (simp_all add: TT_U32_ADD_WOULD_OVFL_iff word_less_nat_alt)
  have tl: "unat (TT_BUF_RLEN c - pos - len) = ?t"
    if "buf_rpos c = buf_rpos b" "buf_wpos c = buf_wpos b" for c
  proof -
    have rl: "unat (TT_BUF_RLEN c) = ?w - ?r"
      using that rp by (simp add: TT_BUF_RLEN_def unat_sub_u32)
    then have "unat (TT_BUF_RLEN c - pos) = ?w - ?r - unat pos"
      using rp by (subst unat_sub_u32) simp_all
    then show ?thesis
      using rp by (subst unat_sub_u32) simp_all
  qed
  consider "len < n" | "len = n" | "n < len" by fastforce
  then show thesis
  proof cases
    case 1
    let ?d = "n - len"
    have ud: "unat ?d = unat n - unat len"
      using 1 by (simp add: unat_sub_u32 word_less_nat_alt)
    have lt: "unat len < unat n" using 1 by (simp add: word_less_nat_alt)
    have mn: "min len n = len" using less_imp_le [OF 1] by (rule min_absorb1)
    note room = buf_reserve_room [OF inv rw, of ?d]
    show thesis
      using inv rw
    proof (cases rule: buf_reserve_cases [where n = ?d])
      case throw
      with 1 guards that(1) room(1) mn show thesis by (simp add: tt_buf_set_range_def Let_def)
    next
      case (fail m')
      with 1 guards that(2) room(2) mn show thesis by (simp add: tt_buf_set_range_def Let_def)
    next
      case (ok b1 m1)
      have pb: "buf_rpos b1 = buf_rpos b" "buf_wpos b1 = buf_wpos b" by fact+
      have sz: "?w + unat ?d < 4294967296"
        using ok(7) unat_lt_32 [of "buf_size b1"] by linarith
      then have uw: "unat (buf_wpos b1 + ?d) = ?p + length ?vs + ?t"
        using pb ud rp lv lt by (simp add: unat_add_u32)
      then have sz': "?p + length ?vs + ?t \<le> unat (buf_size b1)"
        using ok(7) sz pb by (simp add: unat_add_u32)
      have pp: "?p = unat (buf_rpos b1) + unat pos" "?t = unat (buf_wpos b1) - (?p + unat len)"
        "?p + unat len \<le> unat (buf_wpos b1)"
        using pb rp by simp_all
      obtain ma mb where mm:
        "tt_memmove 1 m1 (buf_p b1) (?p + length ?vs) (buf_p b1) (?p + unat len) ?t = Inr ma"
        "mem_store 1 ma (buf_p b1) ?p ?vs = Inr mb" "buf_inv (b1\<lparr>buf_wpos := buf_wpos b1 + ?d\<rparr>) mb"
        "buf_data (b1\<lparr>buf_wpos := buf_wpos b1 + ?d\<rparr>) mb =
           take (unat pos) (buf_data b1 m1) @ ?vs @ drop (unat pos + unat len) (buf_data b1 m1)"
        "mem_frame (buf_foot b1) m1 mb" "mem_heap mb = mem_heap m1"
        using ok(2) pp sz' uw by (rule buf_splice)
      have "tt_buf_set_range pos len bs n b m = Inr (TT_SUCCESS, b1\<lparr>buf_wpos := buf_wpos b1 + ?d\<rparr>, mb)"
        using 1 guards ok(1) mm(1,2) pb tl [OF pb] up lv n
        by (simp add: tt_buf_set_range_def Let_def src_bytes_def)
      moreover have "keeps b m b1 m1"
        using ok by (simp add: keeps_def)
      moreover have "keeps b1 m1 (b1\<lparr>buf_wpos := buf_wpos b1 + ?d\<rparr>) mb"
        using mm(3,5,6) ok(3) by (simp add: keeps_def buf_foot_def)
      ultimately show thesis
        using that(3) mm(4) ok(10) keeps_trans room(3) [OF ok(1)] mn by metis
    qed
  next
    case 2
    have lt: "?p + length ?vs \<le> ?w" "?p + length ?vs + ?t = ?w" using rp 2 lv by simp_all
    have sz: "?p + length ?vs + ?t \<le> unat (buf_size b)" "unat (buf_wpos b) = ?p + length ?vs + ?t"
      using lt buf_inv_pos [OF inv] by simp_all
    have st: "?p + length ?vs \<le> unat (buf_size b)" using sz by linarith
    from inv st obtain m' where m': "mem_store 1 m (buf_p b) ?p ?vs = Inr m'" "buf_inv b m'"
      "buf_cells b m' = overwrite ?p ?vs (buf_cells b m)" "mem_frame (buf_foot b) m m'"
      "mem_heap m' = mem_heap m" by (rule buf_store)
    have "tt_buf_set_range pos len bs n b m = Inr (TT_SUCCESS, b, m')"
      using 2 guards m'(1) up lv n by (simp add: tt_buf_set_range_def src_bytes_def)
    moreover have "buf_data b m' = overwrite (unat pos) ?vs (buf_data b m)"
      using window_overwrite [of ?r "unat pos" ?vs ?w "buf_cells b m"] lt m'(3) buf_inv_pos [OF inv]
      by (simp add: buf_data_def)
    ultimately show thesis
      using that(3) keeps_store [OF m'(2) rw m'(4,5)] 2 lv by (simp add: overwrite_def)
  next
    case 3
    let ?d = "len - n"
    have mn: "min len n = n" using less_imp_le [OF 3] by (rule min_absorb2)
    have ud: "unat ?d = unat len - unat n" and lt: "unat n < unat len"
      using 3 by (simp_all add: unat_sub_u32 word_less_nat_alt)
    have uw: "unat (buf_wpos b - ?d) = ?p + length ?vs + ?t"
      using ud rp lv lt by (subst unat_sub_u32) simp_all
    have sz: "?p + length ?vs + ?t \<le> unat (buf_size b)"
      using rp lv lt buf_inv_pos(2) [OF inv] by simp
    obtain ma mb where mm:
      "tt_memmove 1 m (buf_p b) (?p + length ?vs) (buf_p b) (?p + unat len) ?t = Inr ma"
      "mem_store 1 ma (buf_p b) ?p ?vs = Inr mb" "buf_inv (b\<lparr>buf_wpos := buf_wpos b - ?d\<rparr>) mb"
      "buf_data (b\<lparr>buf_wpos := buf_wpos b - ?d\<rparr>) mb =
         take (unat pos) (buf_data b m) @ ?vs @ drop (unat pos + unat len) (buf_data b m)"
      "mem_frame (buf_foot b) m mb" "mem_heap mb = mem_heap m"
      using inv refl refl rp(1) sz uw by (rule buf_splice)
    have "\<not> len < n" "len \<noteq> n" using 3 by auto
    then have "tt_buf_set_range pos len bs n b m = Inr (TT_SUCCESS, b\<lparr>buf_wpos := buf_wpos b - ?d\<rparr>, mb)"
      using guards mm(1,2) tl [OF refl refl] up lv n
      by (simp add: tt_buf_set_range_def Let_def src_bytes_def)
    moreover have "keeps b m (b\<lparr>buf_wpos := buf_wpos b - ?d\<rparr>) mb"
      using mm(3,5,6) rw by (simp add: keeps_def buf_foot_def)
    ultimately show thesis
      using that(3) mm(4) mn by simp
  qed
qed

text \<open>A range that ends behind the readable bytes.\<close>

lemma buf_set_range_outside:
  assumes inv: "buf_inv b m" and gt: "length (buf_data b m) < unat pos + unat len"
    and w: "unat (buf_rpos b) + unat pos + unat len < 2 ^ 32"
  shows "tt_buf_set_range pos len bs n b m = Inr (TT_FAIL, b, m)"
proof -
  have u: "unat (buf_rpos b + pos) = unat (buf_rpos b) + unat pos" "unat (pos + len) = unat pos + unat len"
    using w by (simp_all add: unat_add_u32)
  have "unat (buf_rpos b + pos + len) = unat (buf_rpos b) + unat pos + unat len"
    using w u by (subst unat_add_u32) simp_all
  moreover have "unat (buf_wpos b) < unat (buf_rpos b) + unat pos + unat len"
    using gt buf_inv_pos(1) [OF inv] by (simp add: length_buf_data [OF inv] buf_rlen [OF inv])
  ultimately show ?thesis by (auto simp: tt_buf_set_range_def word_less_nat_alt)
qed

section \<open>The calls\<close>

definition call_keeps :: "tt_buf \<Rightarrow> bmem \<Rightarrow> (tt_result \<times> tt_buf \<times> bmem) run \<Rightarrow> bool" where
  "call_keeps b m out \<longleftrightarrow> (case out of Inl f \<Rightarrow> f = Throw | Inr (r, b', m') \<Rightarrow> keeps b m b' m')"

lemma call_keeps_simps [simp]:
  "call_keeps b m (Inl f) \<longleftrightarrow> f = Throw"
  "call_keeps b m (Inr (r, b', m')) \<longleftrightarrow> keeps b m b' m'"
  by (simp_all add: call_keeps_def)

lemma appends_call_keeps: "appends b m vs out \<Longrightarrow> call_keeps b m out"
  by (cases rule: appends_cases) (auto intro: appends_keeps)

lemma call_keeps_positions:
  assumes inv: "buf_inv b m" and rw: "\<not> buf_readonly b"
  shows "keeps b m (snd (tt_buf_inc_rp n b)) m" "keeps b m (snd (tt_buf_dec_rp n b)) m"
    "keeps b m (tt_buf_reset_rp b) m" "keeps b m (snd (tt_buf_inc_wp n b)) m"
    "keeps b m (snd (tt_buf_dec_wp n b)) m" "keeps b m (tt_buf_reset_rwp b) m"
proof -
  note pos = buf_inv_pos [OF inv] and lt = unat_lt_32 [of "buf_wpos b"] unat_lt_32 [of "buf_size b"]
  have 1: "buf_rpos b + n \<le> buf_wpos b" if "n \<le> TT_BUF_RLEN b"
    using that pos lt inv by (simp add: word_le_nat_alt buf_rlen unat_add_u32)
  have 2: "buf_rpos b - n \<le> buf_wpos b" if "n \<le> buf_rpos b"
    using that pos by (simp add: word_le_nat_alt unat_sub_u32)
  have 3: "buf_rpos b \<le> buf_wpos b + n" "buf_wpos b + n \<le> buf_size b" if "n \<le> TT_BUF_WLEN b"
    using that pos lt inv by (simp_all add: word_le_nat_alt buf_wlen unat_add_u32)
  have 4: "buf_rpos b \<le> buf_wpos b - n" "buf_wpos b - n \<le> buf_size b" if "n \<le> TT_BUF_RLEN b"
    using that pos inv by (simp_all add: word_le_nat_alt buf_rlen unat_sub_u32)
  note kr = keeps_refl [OF inv rw]
  show "keeps b m (snd (tt_buf_inc_rp n b)) m"
    using 1 kr keeps_rpos [OF inv rw] by (simp add: tt_buf_inc_rp_def)
  show "keeps b m (snd (tt_buf_dec_rp n b)) m"
    using 2 kr keeps_rpos [OF inv rw] by (simp add: tt_buf_dec_rp_def)
  show "keeps b m (tt_buf_reset_rp b) m"
    using keeps_rpos [OF inv rw] by (simp add: tt_buf_reset_rp_def)
  show "keeps b m (snd (tt_buf_inc_wp n b)) m"
    using 3 kr keeps_wpos [OF inv rw] by (simp add: tt_buf_inc_wp_def)
  show "keeps b m (snd (tt_buf_dec_wp n b)) m"
    using 4 kr keeps_wpos [OF inv rw] by (simp add: tt_buf_dec_wp_def)
  show "keeps b m (tt_buf_reset_rwp b) m"
    using keeps_pos [OF inv rw] by (simp add: tt_buf_reset_rwp_def)
qed

lemma call_keeps_get:
  assumes inv: "buf_inv b m" and rw: "\<not> buf_readonly b"
  shows "call_keeps b m (bindr (tt_buf_get n b m) (\<lambda>(r, vs, b). Inr (r, b, m)))"
    "call_keeps b m (case tt_buf_get_nocopy n b of (r, a, b) \<Rightarrow> Inr (r, b, m))"
proof -
  have *: "keeps b m (b\<lparr>buf_rpos := buf_rpos b + n\<rparr>) m" if "unat n \<le> length (buf_data b m)"
    using call_keeps_positions(1) [OF inv rw, of n] that by (simp add: buf_inc_rp_eq [OF inv])
  then show "call_keeps b m (bindr (tt_buf_get n b m) (\<lambda>(r, vs, b). Inr (r, b, m)))"
    "call_keeps b m (case tt_buf_get_nocopy n b of (r, a, b) \<Rightarrow> Inr (r, b, m))"
    using inv rw keeps_refl by (simp_all add: buf_get_eq buf_get_nocopy_eq)
qed

lemma call_keeps_refine:
  assumes inv: "buf_inv b m" and rw: "\<not> buf_readonly b"
  shows "call_keeps b m (bindr (tt_buf_refine b m) (\<lambda>(n, b, m). Inr (TT_SUCCESS, b, m)))"
    "call_keeps b m (bindr (tt_buf_try_refine t b m) (\<lambda>(n, b, m). Inr (TT_SUCCESS, b, m)))"
proof -
  obtain b' m' where "tt_buf_refine b m = Inr (buf_rpos b, b', m')" "buf_inv b' m'"
    "mem_frame (buf_foot b) m m'" "mem_heap m' = mem_heap m" "buf_foot b' = buf_foot b"
    "\<not> buf_readonly b'" "buf_initbuf b' = buf_initbuf b"
    using inv rw by (rule buf_refine_ok)
  then show "call_keeps b m (bindr (tt_buf_refine b m) (\<lambda>(n, b, m). Inr (TT_SUCCESS, b, m)))"
    "call_keeps b m (bindr (tt_buf_try_refine t b m) (\<lambda>(n, b, m). Inr (TT_SUCCESS, b, m)))"
    using keeps_refl [OF inv rw] by (simp_all add: keeps_def tt_buf_try_refine_def)
qed

lemma call_keeps_compress:
  assumes inv: "buf_inv b m" and rw: "\<not> buf_readonly b" and ok: "TT_BUF_RLEN b \<le> TT_BUF_INIT_SIZE \<or> buf_rpos b = 0"
  shows "call_keeps b m (tt_buf_compress b m)"
proof (cases "length (buf_data b m) \<le> 16")
  case True
  with inv rw obtain b' m' where b': "tt_buf_compress b m = Inr (TT_SUCCESS, b', m')" "buf_inv b' m'"
    "buf_p b' = Some (buf_initbuf b)" "buf_initbuf b' = buf_initbuf b"
    "mem_frame (buf_foot b) m m'" "mem_heap m' - buf_foot b' = mem_heap m - buf_foot b"
    "\<not> buf_readonly b'" by (rule buf_compress_short)
  then show ?thesis
    by (simp add: keeps_def) (auto simp: buf_foot_def)
next
  case False
  then have len: "16 < length (buf_data b m)" by simp
  then have r0: "buf_rpos b = 0" and wl: "TT_BUF_RLEN b = buf_wpos b"
    using ok inv by (auto simp: length_buf_data TT_BUF_INIT_SIZE_def word_le_nat_alt TT_BUF_RLEN_def)
  show ?thesis
    using inv rw len
  proof (cases rule: buf_compress_long)
    case (fail m')
    with keeps_same_store [OF _ rw] show ?thesis by simp
  next
    case (ok n m')
    from inv obtain i where i: "buf_p b = Some i" by (rule buf_invE)
    let ?b = "b\<lparr>buf_p := Some n, buf_size := TT_BUF_RLEN b\<rparr>"
    have mv: "moved m {i} n (buf_data b m) m'" and ne: "i \<noteq> buf_initbuf b"
      using ok(3,4) i by auto
    note D = movedD [OF mv]
    obtain ib where ib: "mem_blocks m (buf_initbuf b) = Some ib" "length ib = 16" "buf_initbuf b \<notin> mem_heap m"
      using inv by (auto simp: buf_inv_def)
    have ni: "n \<noteq> buf_initbuf b" "n \<noteq> i"
      using D(1) ib(1) inv i by (auto simp: buf_inv_def points_to_def)
    have "buf_inv ?b m'"
      using inv ok(2) D(3,4) ib ni ne len r0 wl
      by (auto simp: buf_inv_def points_to_def buf_cells_def length_buf_data [OF inv] word_less_nat_alt)
    moreover have "mem_frame (buf_foot b) m m'"
      using moved_frame [OF mv] i by (auto simp: mem_frame_def buf_foot_def)
    moreover have "buf_foot ?b \<inter> dom (mem_blocks m) \<subseteq> buf_foot b"
      using D(1) by (auto simp: buf_foot_def)
    moreover have "mem_heap m' - buf_foot ?b = mem_heap m - buf_foot b"
      using D(2,4) i ni ib(3) by (auto simp: buf_foot_def)
    ultimately show ?thesis
      using ok(1) rw by (simp add: keeps_def)
  qed
qed

lemma call_keeps_reserve:
  assumes inv: "buf_inv b m" and rw: "\<not> buf_readonly b"
  shows "call_keeps b m (tt_buf_reserve n b m)"
  using inv rw
proof (cases rule: buf_reserve_cases [where n = n])
  case (fail m')
  with keeps_same_store [OF _ rw] show ?thesis by simp
qed (simp_all add: keeps_def)

lemma call_keeps_extend:
  assumes inv: "buf_inv b m" and rw: "\<not> buf_readonly b"
  shows "call_keeps b m (tt_buf_extend b m)"
proof (cases "buf_size b < buf_size b + 1")
  case True
  show ?thesis
    using inv rw True
  proof (cases rule: buf_extend_cases)
    case (fail m')
    with keeps_same_store [OF _ rw] show ?thesis by (simp add: tt_buf_extend_def)
  qed (simp_all add: keeps_def tt_buf_extend_def)
next
  case False
  then show ?thesis
    using rw by (simp add: tt_buf_extend_def buf_extend_def tt_memspg_extend_ex_def)
qed

lemma call_keeps_set:
  assumes inv: "buf_inv b m" and rw: "\<not> buf_readonly b" and ok: "unat (buf_rpos b) + unat i + length bs < 2 ^ 32"
  shows "call_keeps b m (tt_buf_set i bs (of_nat (length bs)) b m)"
proof (cases "unat i + length bs \<le> length (buf_data b m)")
  case True
  have n: "unat (of_nat (length bs) :: u32) = length bs"
    using ok by (simp add: unat_of_nat take_bit_nat_eq_self)
  with True have "unat i + unat (of_nat (length bs) :: u32) \<le> length (buf_data b m)"
    "unat (of_nat (length bs) :: u32) \<le> length bs" by simp_all
  with inv obtain m' where "tt_buf_set i bs (of_nat (length bs)) b m = Inr (TT_SUCCESS, b, m')" "buf_inv b m'"
    "mem_frame (buf_foot b) m m'" "mem_heap m' = mem_heap m" by (rule buf_set_ok)
  with keeps_store [OF _ rw] show ?thesis by simp
next
  case False
  let ?n = "of_nat (length bs) :: u32"
  have n: "unat ?n = length bs"
    using ok by (simp add: unat_of_nat take_bit_nat_eq_self)
  have "unat (buf_rpos b + i) = unat (buf_rpos b) + unat i"
    using ok by (intro unat_add_u32) simp
  then have "unat (buf_rpos b + i + ?n) = unat (buf_rpos b) + unat i + length bs"
    using ok n by (subst unat_add_u32) simp_all
  then have "buf_rpos b + i + ?n > buf_wpos b"
    using False buf_inv_pos [OF inv] inv by (simp add: word_less_nat_alt length_buf_data buf_rlen)
  then show ?thesis
    using keeps_refl [OF inv rw] by (simp add: tt_buf_set_def)
qed

lemma call_keeps_set_range:
  assumes inv: "buf_inv b m" and rw: "\<not> buf_readonly b" and ok: "unat (buf_rpos b) + unat i + unat l < 2 ^ 32" "length bs < 2 ^ 32"
  shows "call_keeps b m (tt_buf_set_range i l bs (of_nat (length bs)) b m)"
proof (cases "unat i + unat l \<le> length (buf_data b m)")
  case True
  have n: "unat (of_nat (length bs) :: u32) \<le> length bs"
    using ok by (simp add: unat_of_nat take_bit_nat_eq_self)
  show ?thesis
    using inv rw True n
  proof (cases rule: buf_set_range_cases)
    case (fail m')
    with keeps_same_store [OF _ rw] show ?thesis by simp
  qed simp_all
next
  case False
  have "unat (buf_rpos b + i) = unat (buf_rpos b) + unat i"
    using ok by (intro unat_add_u32) simp
  then have "unat (buf_rpos b + i + l) = unat (buf_rpos b) + unat i + unat l"
    using ok by (subst unat_add_u32) simp_all
  then have "buf_rpos b + i + l > buf_wpos b"
    using False buf_inv_pos [OF inv] inv by (simp add: word_less_nat_alt length_buf_data buf_rlen)
  then show ?thesis
    using keeps_refl [OF inv rw] by (simp add: tt_buf_set_range_def)
qed

end
