(* ===== verification/TT_Util.thy ===== *)
theory TT_Util
  imports TT_Prelude
begin

text \<open>
  The bit and number helpers of \<^verbatim>\<open>misc/tt_util.c\<close>, and the bytes of an integer in memory, in the
  host's order and in network order.
\<close>

section \<open>Bit positions\<close>

function high_bit_loop :: "u32 \<Rightarrow> u32 \<Rightarrow> u32 \<Rightarrow> u32" where
  "high_bit_loop ret cur_value cur_shift =
    (if cur_shift \<noteq> 0 then
       if drop_bit (unat cur_shift) cur_value \<noteq> 0
       then high_bit_loop (ret + cur_shift) (drop_bit (unat cur_shift) cur_value) (drop_bit 1 cur_shift)
       else high_bit_loop ret cur_value (drop_bit 1 cur_shift)
     else ret)"
  by pat_completeness auto

lemma drop_bit_1_less: "(x :: u32) \<noteq> 0 \<Longrightarrow> unat (drop_bit (Suc 0) x) < unat x"
  using unat_gt_0 [of x] by (simp add: drop_bit_Suc unat_div)

termination high_bit_loop
  by (relation "measure (\<lambda>(r, v, s). unat s)") (simp_all add: drop_bit_1_less)

definition tt_high_bit_1 :: "u32 \<Rightarrow> tt_result \<times> u32 option" where
  "tt_high_bit_1 val =
    (if val = 0 then (TT_FAIL, None) else (TT_SUCCESS, Some (high_bit_loop 0 val (push_bit 2 4))))"

function low_bit_loop :: "u32 \<Rightarrow> u32 \<Rightarrow> u32 \<Rightarrow> u32" where
  "low_bit_loop ret cur_value cur_shift =
    (if cur_shift \<noteq> 0 then
       if cur_value AND (push_bit (unat cur_shift) 1 - 1) = 0
       then low_bit_loop (ret + cur_shift) (drop_bit (unat cur_shift) cur_value) (drop_bit 1 cur_shift)
       else low_bit_loop ret cur_value (drop_bit 1 cur_shift)
     else ret)"
  by pat_completeness auto

termination low_bit_loop
  by (relation "measure (\<lambda>(r, v, s). unat s)") (simp_all add: drop_bit_1_less)

definition tt_low_bit_1 :: "u32 \<Rightarrow> tt_result \<times> u32 option" where
  "tt_low_bit_1 val =
    (if val = 0 then (TT_FAIL, None) else (TT_SUCCESS, Some (low_bit_loop 0 val (push_bit 2 4))))"

text \<open>A shift of a 32-bit integer by 32 or more is undefined in C.\<close>

definition shl_1u :: "u32 \<Rightarrow> u32 run" where
  "shl_1u k = (if unat k < 32 then Inr (push_bit (unat k) 1) else Inl Undef)"

definition tt_least_2power :: "u32 \<Rightarrow> u32 run" where
  "tt_least_2power val = (case tt_high_bit_1 val of
      (r, Some ret) \<Rightarrow> bindr (shl_1u ret) (\<lambda>p. Inr (if val > p then ret + 1 else ret))
    | (r, None) \<Rightarrow> Inr 0)"

definition tt_order :: "u32 \<Rightarrow> (tt_result \<times> u32 option) run" where
  "tt_order val =
    bindr (tt_least_2power val) (\<lambda>ret.
    bindr (shl_1u ret) (\<lambda>p.
    if val = p then Inr (TT_SUCCESS, Some ret) else Inr (TT_FAIL, None)))"

section \<open>Numbers\<close>

function tt_gcd_u32 :: "u32 \<Rightarrow> u32 \<Rightarrow> u32" where
  "tt_gcd_u32 a b = (if b \<noteq> 0 then tt_gcd_u32 b (a mod b) else a)"
  by pat_completeness auto

termination tt_gcd_u32
  by (relation "measure (\<lambda>(a, b). unat b)") (simp_all add: unat_mod unat_gt_0)

definition tt_lcm_u32 :: "u32 \<Rightarrow> u32 \<Rightarrow> u32 run" where
  "tt_lcm_u32 a b =
    (let gcd = tt_gcd_u32 a b in if gcd = 0 then Inl Undef else Inr ((a div gcd) * b))"

section \<open>Hexadecimal digits\<close>

text \<open>\<^verbatim>\<open>tt_char_t\<close> is given by its byte; \<^verbatim>\<open>'0'\<close>, \<^verbatim>\<open>'a'\<close>, \<^verbatim>\<open>'A'\<close> are 48, 97, 65.\<close>

definition tt_c2h :: "u8 \<Rightarrow> u8 \<Rightarrow> u8" where
  "tt_c2h c h_if_fail =
    (if c \<ge> 48 \<and> c \<le> 57 then c - 48
     else if c \<ge> 97 \<and> c \<le> 102 then c - 97 + 0xA
     else if c \<ge> 65 \<and> c \<le> 70 then c - 65 + 0xA
     else h_if_fail)"

definition tt_h2c :: "u8 \<Rightarrow> u8 \<Rightarrow> u8" where
  "tt_h2c h c_if_fail =
    (if h \<ge> 0 \<and> h \<le> 9 then h + 48
     else if h \<ge> 0xa \<and> h \<le> 0xf then h - 0xa + 97
     else c_if_fail)"

section \<open>Integers in memory\<close>

text \<open>The bytes of an \<open>n\<close>-byte integer, least significant first, and back.\<close>

primrec bytes_le :: "nat \<Rightarrow> 'a :: len word \<Rightarrow> u8 list" where
  "bytes_le 0 v = []"
| "bytes_le (Suc n) v = ucast v # bytes_le n (drop_bit 8 v)"

primrec word_le :: "u8 list \<Rightarrow> 'a :: len word" where
  "word_le [] = 0"
| "word_le (x # xs) = ucast x OR push_bit 8 (word_le xs)"

text \<open>
  The object representation of an integer on a host, \<open>True\<close> for a big-endian one
  (\<^verbatim>\<open>tt_g_big_endian\<close>), and the \<^verbatim>\<open>hton\<close> and \<^verbatim>\<open>ntoh\<close> family: nothing on a big-endian host, a byte
  swap otherwise.
\<close>

definition host_bytes :: "bool \<Rightarrow> nat \<Rightarrow> 'a :: len word \<Rightarrow> u8 list" where
  "host_bytes big n v = (if big then rev (bytes_le n v) else bytes_le n v)"

definition host_word :: "bool \<Rightarrow> u8 list \<Rightarrow> 'a :: len word" where
  "host_word big bs = word_le (if big then rev bs else bs)"

definition tt_hton :: "bool \<Rightarrow> nat \<Rightarrow> 'a :: len word \<Rightarrow> 'a word" where
  "tt_hton big n v = (if big then v else host_word big (rev (host_bytes big n v)))"

definition tt_ntoh :: "bool \<Rightarrow> nat \<Rightarrow> 'a :: len word \<Rightarrow> 'a word" where
  "tt_ntoh big n v = (if big then v else host_word big (rev (host_bytes big n v)))"

text \<open>Network order: most significant byte first.\<close>

definition be_bytes :: "nat \<Rightarrow> 'a :: len word \<Rightarrow> u8 list" where
  "be_bytes n v = rev (bytes_le n v)"

lemma length_bytes_le [simp]: "length (bytes_le n v) = n"
  by (induction n arbitrary: v) auto

lemma length_be_bytes [simp]: "length (be_bytes n v) = n"
  by (simp add: be_bytes_def)

lemma length_host_bytes [simp]: "length (host_bytes big n v) = n"
  by (simp add: host_bytes_def)

lemma word_le_bytes_le: "word_le (bytes_le n v) = take_bit (8 * n) v"
proof (induction n arbitrary: v)
  case 0
  then show ?case by simp
next
  case (Suc n)
  show ?case
  proof (rule bit_word_eqI)
    fix i
    assume "i < LENGTH('a)"
    then show "bit (word_le (bytes_le (Suc n) v) :: 'a word) i = bit (take_bit (8 * Suc n) v) i"
      by (cases "i < 8") (auto simp: Suc bit_or_iff bit_push_bit_iff bit_unsigned_iff bit_take_bit_iff
          bit_drop_bit_eq)
  qed
qed

lemma ucast_or_push8:
  assumes "8 \<le> LENGTH('a :: len)"
  shows "(ucast (ucast (x :: u8) OR push_bit 8 (y :: 'a word)) :: u8) = x"
  using assms by (intro bit_word_eqI) (auto simp: bit_or_iff bit_push_bit_iff bit_unsigned_iff)

lemma drop_or_push8:
  assumes "8 + k \<le> LENGTH('a :: len)" "take_bit k y = y"
  shows "drop_bit 8 (ucast (x :: u8) OR push_bit 8 (y :: 'a word)) = y"
proof (rule bit_word_eqI)
  fix i
  assume i: "i < LENGTH('a)"
  have "\<not> bit x (8 + i)"
    using bit_imp_le_length [of x "8 + i"] by auto
  moreover have "i < k" if "bit y i"
    using that assms(2) by (metis bit_take_bit_iff)
  ultimately show "bit (drop_bit 8 (ucast x OR push_bit 8 y)) i = bit y i"
    using i assms(1) by (auto simp: bit_drop_bit_eq bit_or_iff bit_push_bit_iff bit_unsigned_iff)
qed

lemma take_bit_word_le: "take_bit (8 * length bs) (word_le bs :: 'a :: len word) = word_le bs"
proof (induction bs)
  case (Cons x xs)
  show ?case
  proof (rule bit_word_eqI)
    fix i
    assume i: "i < LENGTH('a)"
    have "i < 8" if "bit x i"
      using that bit_imp_le_length [of x i] by auto
    moreover have "i - 8 < 8 * length xs" if "bit (word_le xs :: 'a word) (i - 8)"
      using that Cons by (metis bit_take_bit_iff)
    ultimately show "bit (take_bit (8 * length (x # xs)) (word_le (x # xs) :: 'a word)) i
        = bit (word_le (x # xs) :: 'a word) i"
      by (auto simp: bit_take_bit_iff bit_or_iff bit_push_bit_iff bit_unsigned_iff)
  qed
qed simp

lemma bytes_le_word_le:
  "8 * length bs \<le> LENGTH('a :: len) \<Longrightarrow> bytes_le (length bs) (word_le bs :: 'a word) = bs"
proof (induction bs)
  case (Cons x xs)
  then have "8 + 8 * length xs \<le> LENGTH('a)" by simp
  with drop_or_push8 [OF this take_bit_word_le] ucast_or_push8 [where 'a = 'a] Cons show ?case
    by simp
qed simp

lemma host_word_host_bytes: "host_word big (host_bytes big n v) = take_bit (8 * n) v"
  by (simp add: host_word_def host_bytes_def word_le_bytes_le)

lemma host_bytes_host_word:
  assumes "length bs = n" "8 * n \<le> LENGTH('a :: len)"
  shows "host_bytes big n (host_word big bs :: 'a word) = bs"
  using assms bytes_le_word_le [of bs, where 'a = 'a] bytes_le_word_le [of "rev bs", where 'a = 'a]
  by (auto simp: host_word_def host_bytes_def)

text \<open>Whatever the host, what \<^verbatim>\<open>hton\<close> leaves in memory is the big-endian representation.\<close>

lemma host_bytes_hton:
  assumes "8 * n \<le> LENGTH('a :: len)"
  shows "host_bytes big n (tt_hton big n (v :: 'a word)) = be_bytes n v"
  using assms host_bytes_host_word [of "rev (host_bytes big n v)" n big, where 'a = 'a]
  by (cases big) (simp_all add: tt_hton_def host_bytes_def be_bytes_def)

lemma ntoh_host_word:
  assumes "length bs = n" "8 * n \<le> LENGTH('a :: len)"
  shows "tt_ntoh big n (host_word big bs :: 'a word) = word_le (rev bs)"
  using assms host_bytes_host_word [OF assms, of big]
  by (cases big) (simp_all add: tt_ntoh_def host_word_def)

lemma word_of_be_bytes: "word_le (rev (be_bytes n v)) = take_bit (8 * n) v"
  by (simp add: be_bytes_def word_le_bytes_le)

section \<open>What the helpers compute\<close>

declare high_bit_loop.simps [simp del] low_bit_loop.simps [simp del] tt_gcd_u32.simps [simp del]

lemma unat_shl_1:
  assumes "p < 32"
  shows "unat (push_bit p 1 :: u32) = 2 ^ p"
proof -
  have "(2 :: nat) ^ p < 2 ^ 32"
    using assms by (intro power_strict_increasing) auto
  with assms show ?thesis
    by (simp only: unsigned_push_bit_eq) (simp add: take_bit_nat_eq_self)
qed

text \<open>The binary search for the highest bit: halving the shift \<open>2 ^ k\<close> down to 1.\<close>

lemma high_bit_loop_pow:
  assumes "k \<le> 4" "0 < v" "unat v < 2 ^ (2 * 2 ^ k)"
  obtains p where "high_bit_loop ret v (push_bit k 1) = ret + of_nat p"
    "2 ^ p \<le> unat v" "unat v < 2 ^ Suc p"
  using assms
proof (induction k arbitrary: ret v thesis)
  case 0
  then have v: "unat v < 4" "0 < unat v" by (simp_all add: unat_gt_0 word_greater_zero_iff)
  have *: "high_bit_loop ret v 1 = (if drop_bit 1 v \<noteq> 0 then ret + 1 else ret)"
    by (auto simp: drop_bit_Suc high_bit_loop.simps [of _ _ 1] high_bit_loop.simps [of _ _ 0])
  have "drop_bit 1 v \<noteq> 0 \<longleftrightarrow> 2 \<le> unat v"
    using div_greater_zero_iff [of "unat v" 2] by (simp add: drop_bit_Suc word_unat_eq_iff unat_div)
  then show thesis
    using "0.prems"(1) [of 1] "0.prems"(1) [of 0] v * by (cases "2 \<le> unat v") auto
next
  case (Suc k)
  let ?s = "2 ^ Suc k :: nat"
  have us: "unat (push_bit (Suc k) 1 :: u32) = ?s"
    using Suc.prems(2) by (intro unat_shl_1) simp
  have dv: "unat (drop_bit ?s v) = unat v div 2 ^ ?s"
    by (simp only: unsigned_drop_bit_eq) (simp add: drop_bit_eq_div take_bit_nat_eq_self unat_lt_32 del: power_Suc)
  have half: "drop_bit 1 (push_bit (Suc k) 1 :: u32) = push_bit k 1"
    using Suc.prems(2) by (intro bit_word_eqI)
      (auto simp: bit_drop_bit_eq bit_push_bit_iff bit_1_iff simp del: push_bit_of_1 push_bit_Suc)
  have nz: "push_bit (Suc k) 1 \<noteq> (0 :: u32)" using us by (metis power_not_zero unat_0 zero_neq_numeral)
  show thesis
  proof (cases "drop_bit ?s v = 0")
    case True
    then have "unat v < 2 ^ ?s" using dv by (simp add: div_eq_0_iff)
    then have "unat v < 2 ^ (2 * 2 ^ k)" by simp
    from Suc.IH [OF _ _ Suc.prems(3) this] Suc.prems(2)
    obtain p where p: "high_bit_loop ret v (push_bit k 1) = ret + of_nat p" "2 ^ p \<le> unat v" "unat v < 2 ^ Suc p"
      by (metis Suc_leD)
    have "high_bit_loop ret v (push_bit (Suc k) 1) = high_bit_loop ret v (push_bit k 1)"
      by (subst high_bit_loop.simps) (simp only: us True half nz if_True simp_thms if_False)
    with p Suc.prems(1) show thesis by simp
  next
    case False
    let ?v = "drop_bit ?s v"
    have "unat v div 2 ^ ?s < 2 ^ (2 * 2 ^ k)"
      using Suc.prems(4) by (intro less_mult_imp_div_less) (simp flip: power_add add: mult_2)
    with dv have lt: "unat ?v < 2 ^ (2 * 2 ^ k)" by simp
    have pos: "0 < ?v" using False by (simp add: word_greater_zero_iff)
    from Suc.IH [OF _ _ pos lt] Suc.prems(2)
    obtain p where p: "high_bit_loop (ret + push_bit (Suc k) 1) ?v (push_bit k 1) = ret + push_bit (Suc k) 1 + of_nat p"
      "2 ^ p \<le> unat ?v" "unat ?v < 2 ^ Suc p"
      by (metis Suc_leD)
    have "high_bit_loop ret v (push_bit (Suc k) 1) = high_bit_loop (ret + push_bit (Suc k) 1) ?v (push_bit k 1)"
      by (subst high_bit_loop.simps) (simp only: us False half nz if_True simp_thms if_False)
    moreover have "push_bit (Suc k) 1 + of_nat p = (of_nat (?s + p) :: u32)"
      by (simp add: push_bit_eq_mult)
    moreover have "2 ^ (?s + p) \<le> unat v"
    proof -
      have "2 ^ p * 2 ^ ?s \<le> unat v div 2 ^ ?s * 2 ^ ?s"
        using p(2) dv by (intro mult_le_mono1) simp
      also have "\<dots> \<le> unat v" by (rule div_times_less_eq_dividend)
      finally show ?thesis by (simp only: power_add mult.commute)
    qed
    moreover have "unat v < 2 ^ Suc (?s + p)"
    proof -
      have "unat v div 2 ^ ?s < 2 ^ Suc p" using p(3) dv by simp
      then have "unat v < 2 ^ Suc p * 2 ^ ?s" by (simp only: div_less_iff_less_mult zero_less_power zero_less_numeral)
      then show ?thesis by (simp only: power_add mult.commute flip: add_Suc_right)
    qed
    ultimately show thesis
      using p(1) Suc.prems(1) [of "?s + p"] by (simp add: add.assoc)
  qed
qed

lemma high_bit_1_pos:
  assumes "val \<noteq> 0"
  obtains p where "tt_high_bit_1 val = (TT_SUCCESS, Some (of_nat p))"
    "2 ^ p \<le> unat val" "unat val < 2 ^ Suc p" "p < 32"
proof -
  have "(4 :: nat) \<le> 4" "0 < val" "unat val < 2 ^ (2 * 2 ^ 4)"
    using assms unat_lt_32 [of val] by (simp_all add: word_greater_zero_iff)
  then obtain p where p: "high_bit_loop 0 val (push_bit 4 1) = 0 + of_nat p" "2 ^ p \<le> unat val" "unat val < 2 ^ Suc p"
    by (rule high_bit_loop_pow)
  have "(2 :: nat) ^ p < 2 ^ 32" using p(2) unat_lt_32 [of val] by simp
  then have "p < 32" by (simp only: power_strict_increasing_iff one_less_numeral_iff semiring_norm)
  with p assms show thesis
    by (intro that [of p]) (simp_all add: tt_high_bit_1_def)
qed

lemma shl_1u_of_nat: "p < 32 \<Longrightarrow> shl_1u (of_nat p) = Inr (push_bit p 1)"
  by (simp add: shl_1u_def unat_of_nat take_bit_nat_eq_self)

lemma least_2power_pos:
  assumes "val \<noteq> 0"
  obtains q where "tt_least_2power val = Inr (of_nat q)" "unat val \<le> 2 ^ q" "q \<le> 32"
    "\<forall>j. unat val \<le> 2 ^ j \<longrightarrow> q \<le> j"
proof -
  from assms obtain p where p: "tt_high_bit_1 val = (TT_SUCCESS, Some (of_nat p))"
    "2 ^ p \<le> unat val" "unat val < 2 ^ Suc p" "p < 32" by (rule high_bit_1_pos)
  have sh: "shl_1u (of_nat p) = Inr (push_bit p 1)" and us: "unat (push_bit p 1 :: u32) = 2 ^ p"
    using p(4) by (simp_all only: shl_1u_of_nat unat_shl_1)
  show thesis
  proof (cases "unat val = 2 ^ p")
    case True
    then have "\<not> push_bit p 1 < val" using us by (simp add: word_less_nat_alt del: push_bit_of_1)
    then have "tt_least_2power val = Inr (of_nat p)"
      using p(1) sh by (simp add: tt_least_2power_def)
    then show thesis using that [of p] True p(4) by simp
  next
    case False
    then have "push_bit p 1 < val" using us p(2) by (simp add: word_less_nat_alt del: push_bit_of_1)
    then have "tt_least_2power val = Inr (of_nat (Suc p))"
      using p(1) sh by (simp add: tt_least_2power_def add.commute)
    moreover have "\<forall>j. unat val \<le> 2 ^ j \<longrightarrow> Suc p \<le> j"
    proof (intro allI impI)
      fix j
      assume "unat val \<le> 2 ^ j"
      with False p(2) have "(2 :: nat) ^ p < 2 ^ j" by linarith
      then show "Suc p \<le> j" by simp
    qed
    ultimately show thesis using that [of "Suc p"] p(3,4) by simp
  qed
qed

lemma gcd_u32: "unat (tt_gcd_u32 a b) = gcd (unat a) (unat b)"
proof (induction a b rule: tt_gcd_u32.induct)
  case (1 a b)
  show ?case
  proof (cases "b = 0")
    case False
    then have "unat (tt_gcd_u32 a b) = gcd (unat b) (unat (a mod b))"
      using 1 by (simp add: tt_gcd_u32.simps [of a b])
    then show ?thesis
      by (simp add: unat_mod gcd_red_nat [of "unat a" "unat b"])
  qed (simp add: tt_gcd_u32.simps)
qed

end
