(* ===== verification/TT_Buffer_Format.thy ===== *)
theory TT_Buffer_Format
  imports TT_Buffer_Run TT_Util
begin

text \<open>
  Integers, hexadecimal text and formatted text in a byte buffer: \<^verbatim>\<open>algorithm/tt_buffer_format.h\<close>,
  \<^verbatim>\<open>algorithm/tt_buffer_format.c\<close> and the functions of \<^verbatim>\<open>tt_buffer.c\<close> that rest on them. The byte
  order of the host is the parameter \<open>big\<close>; a C string is given by its bytes without the
  terminating null.
\<close>

type_synonym buf_out = "(tt_result \<times> tt_buf \<times> bmem) run"

section \<open>Integers\<close>

definition tt_buf_put_u64 :: "bool \<Rightarrow> u64 \<Rightarrow> tt_buf \<Rightarrow> bmem \<Rightarrow> buf_out" where
  "tt_buf_put_u64 big val_u64 buf m = tt_buf_put (Some (host_bytes big 8 val_u64)) 8 buf m"

definition tt_buf_put_u64_n :: "bool \<Rightarrow> u64 \<Rightarrow> tt_buf \<Rightarrow> bmem \<Rightarrow> buf_out" where
  "tt_buf_put_u64_n big val_u64 buf m =
    (let val_u64 = tt_hton big 8 val_u64 in tt_buf_put (Some (host_bytes big 8 val_u64)) 8 buf m)"

text \<open>\<^verbatim>\<open>tt_buf_get\<close> into an integer variable: the variable keeps its value on failure.\<close>

definition get_into :: "bool \<Rightarrow> 'a :: len word \<Rightarrow> (tt_result \<times> u8 list \<times> 's) run \<Rightarrow> (tt_result \<times> 'a word \<times> 's) run"
  where "get_into big old g = bindr g (\<lambda>(r, vs, s). Inr (r, if TT_OK r then host_word big vs else old, s))"

definition tt_buf_get_u64 :: "bool \<Rightarrow> u64 \<Rightarrow> tt_buf \<Rightarrow> bmem \<Rightarrow> (tt_result \<times> u64 \<times> tt_buf) run" where
  "tt_buf_get_u64 big val_u64 buf m = get_into big val_u64 (tt_buf_get 8 buf m)"

definition tt_buf_get_u64_h :: "bool \<Rightarrow> u64 \<Rightarrow> tt_buf \<Rightarrow> bmem \<Rightarrow> (tt_result \<times> u64 \<times> tt_buf) run" where
  "tt_buf_get_u64_h big val_u64 buf m =
    bindr (get_into big 0 (tt_buf_get 8 buf m)) (\<lambda>(result, v, buf).
    if TT_OK result then Inr (TT_SUCCESS, tt_ntoh big 8 v, buf) else Inr (result, val_u64, buf))"

definition tt_buf_put_u32 :: "bool \<Rightarrow> u32 \<Rightarrow> tt_buf \<Rightarrow> bmem \<Rightarrow> buf_out" where
  "tt_buf_put_u32 big val_u32 buf m = tt_buf_put (Some (host_bytes big 4 val_u32)) 4 buf m"

definition tt_buf_put_u32_n :: "bool \<Rightarrow> u32 \<Rightarrow> tt_buf \<Rightarrow> bmem \<Rightarrow> buf_out" where
  "tt_buf_put_u32_n big val_u32 buf m =
    (let val_u32 = tt_hton big 4 val_u32 in tt_buf_put (Some (host_bytes big 4 val_u32)) 4 buf m)"

definition tt_buf_get_u32 :: "bool \<Rightarrow> u32 \<Rightarrow> tt_buf \<Rightarrow> bmem \<Rightarrow> (tt_result \<times> u32 \<times> tt_buf) run" where
  "tt_buf_get_u32 big val_u32 buf m = get_into big val_u32 (tt_buf_get 4 buf m)"

definition tt_buf_get_u32_h :: "bool \<Rightarrow> u32 \<Rightarrow> tt_buf \<Rightarrow> bmem \<Rightarrow> (tt_result \<times> u32 \<times> tt_buf) run" where
  "tt_buf_get_u32_h big val_u32 buf m =
    bindr (get_into big 0 (tt_buf_get 4 buf m)) (\<lambda>(result, v, buf).
    if TT_OK result then Inr (TT_SUCCESS, tt_ntoh big 4 v, buf) else Inr (result, val_u32, buf))"

definition tt_buf_peek_u32 :: "bool \<Rightarrow> u32 \<Rightarrow> tt_buf \<Rightarrow> bmem \<Rightarrow> (tt_result \<times> u32) run" where
  "tt_buf_peek_u32 big val_u32 buf m =
    bindr (tt_buf_peek 4 buf m) (\<lambda>(r, vs). Inr (r, if TT_OK r then host_word big vs else val_u32))"

definition tt_buf_peek_u32_h :: "bool \<Rightarrow> u32 \<Rightarrow> tt_buf \<Rightarrow> bmem \<Rightarrow> (tt_result \<times> u32) run" where
  "tt_buf_peek_u32_h big val_u32 buf m =
    bindr (tt_buf_peek 4 buf m) (\<lambda>(result, vs).
    if TT_OK result then Inr (TT_SUCCESS, tt_ntoh big 4 (host_word big vs)) else Inr (result, val_u32))"

definition tt_buf_put_u16 :: "bool \<Rightarrow> u16 \<Rightarrow> tt_buf \<Rightarrow> bmem \<Rightarrow> buf_out" where
  "tt_buf_put_u16 big val_u16 buf m = tt_buf_put (Some (host_bytes big 2 val_u16)) 2 buf m"

definition tt_buf_put_u16_n :: "bool \<Rightarrow> u16 \<Rightarrow> tt_buf \<Rightarrow> bmem \<Rightarrow> buf_out" where
  "tt_buf_put_u16_n big val_u16 buf m =
    (let val_u16 = tt_hton big 2 val_u16 in tt_buf_put (Some (host_bytes big 2 val_u16)) 2 buf m)"

definition tt_buf_get_u16 :: "bool \<Rightarrow> u16 \<Rightarrow> tt_buf \<Rightarrow> bmem \<Rightarrow> (tt_result \<times> u16 \<times> tt_buf) run" where
  "tt_buf_get_u16 big val_u16 buf m = get_into big val_u16 (tt_buf_get 2 buf m)"

definition tt_buf_get_u16_h :: "bool \<Rightarrow> u16 \<Rightarrow> tt_buf \<Rightarrow> bmem \<Rightarrow> (tt_result \<times> u16 \<times> tt_buf) run" where
  "tt_buf_get_u16_h big val_u16 buf m =
    bindr (get_into big 0 (tt_buf_get 2 buf m)) (\<lambda>(result, v, buf).
    if TT_OK result then Inr (TT_SUCCESS, tt_ntoh big 2 v, buf) else Inr (result, val_u16, buf))"

definition tt_buf_put_u8 :: "u8 \<Rightarrow> tt_buf \<Rightarrow> bmem \<Rightarrow> buf_out" where
  "tt_buf_put_u8 val_u8 buf m = tt_buf_put (Some [val_u8]) 1 buf m"

definition tt_buf_get_u8 :: "u8 \<Rightarrow> tt_buf \<Rightarrow> bmem \<Rightarrow> (tt_result \<times> u8 \<times> tt_buf) run" where
  "tt_buf_get_u8 val_u8 buf m =
    bindr (tt_buf_get 1 buf m) (\<lambda>(r, vs, buf). Inr (r, if TT_OK r then hd vs else val_u8, buf))"

section \<open>Text\<close>

definition tt_buf_put_cstr :: "u8 list \<Rightarrow> tt_buf \<Rightarrow> bmem \<Rightarrow> buf_out" where
  "tt_buf_put_cstr cstr buf m = tt_buf_put (Some cstr) (of_nat (length cstr)) buf m"

definition tt_buf_put_subcstr :: "u8 list \<Rightarrow> u32 \<Rightarrow> tt_buf \<Rightarrow> bmem \<Rightarrow> buf_out" where
  "tt_buf_put_subcstr cstr len buf m =
    (let n = of_nat (length cstr) in tt_buf_put (Some cstr) (if len < n then len else n) buf m)"

fun tt_buf_put_cstr2hex :: "u8 list \<Rightarrow> tt_buf \<Rightarrow> bmem \<Rightarrow> buf_out" where
  "tt_buf_put_cstr2hex (c # d # pos) buf m =
    (let n = push_bit 4 (tt_c2h c 0 AND 0xF) OR (tt_c2h d 0 AND 0xF) in
     TT_DO (tt_buf_put_u8 n buf m) (\<lambda>(buf, m). tt_buf_put_cstr2hex pos buf m))"
| "tt_buf_put_cstr2hex [c] buf m =
    (let n = push_bit 4 (tt_c2h c 0 AND 0xF) in
     TT_DO (tt_buf_put_u8 n buf m) (\<lambda>(buf, m). Inr (TT_SUCCESS, buf, m)))"
| "tt_buf_put_cstr2hex [] buf m = Inr (TT_SUCCESS, buf, m)"

fun tt_buf_put_hex2cstr :: "u8 list \<Rightarrow> tt_buf \<Rightarrow> bmem \<Rightarrow> buf_out" where
  "tt_buf_put_hex2cstr (h # pos) buf m =
    TT_DO (tt_buf_put_u8 (tt_h2c (drop_bit 4 h AND 0xF) 63) buf m) (\<lambda>(buf, m).
    TT_DO (tt_buf_put_u8 (tt_h2c (h AND 0xF) 63) buf m) (\<lambda>(buf, m).
    tt_buf_put_hex2cstr pos buf m))"
| "tt_buf_put_hex2cstr [] buf m = Inr (TT_SUCCESS, buf, m)"

text \<open>
  The formatted output of \<^verbatim>\<open>vsnprintf\<close> is the parameter \<open>txt\<close>: into \<open>len\<close> bytes it writes at most
  \<open>len - 1\<close> of them and a null, and it returns the length of \<open>txt\<close>.
\<close>

definition vsnprintf :: "u8 list \<Rightarrow> tt_buf \<Rightarrow> bmem \<Rightarrow> (u32 \<times> bmem) run" where
  "vsnprintf txt buf m =
    (let len = unat (TT_BUF_WLEN buf) in
     bindr (if len = 0 then Inr m
            else mem_store 1 m (buf_p buf) (unat (buf_wpos buf)) (take (len - 1) txt @ [0])) (\<lambda>m.
     Inr (of_nat (length txt), m)))"

fun putv_again :: "nat \<Rightarrow> u8 list \<Rightarrow> tt_buf \<Rightarrow> bmem \<Rightarrow> buf_out" where
  "putv_again retry txt buf m =
    (let len = TT_BUF_WLEN buf in
     bindr (vsnprintf txt buf m) (\<lambda>(n, m).
     if n + 1 \<ge> len then
       (case retry of
          0 \<Rightarrow> Inr (TT_FAIL, buf, m)
        | Suc retry \<Rightarrow>
            bindr (tt_buf_extend buf m) (\<lambda>(r, buf, m).
            if TT_OK r then putv_again retry txt buf m else Inr (TT_FAIL, buf, m)))
     else Inr (TT_SUCCESS, snd (tt_buf_inc_wp n buf), m)))"

definition tt_buf_putv :: "u8 list \<Rightarrow> tt_buf \<Rightarrow> bmem \<Rightarrow> buf_out" where
  "tt_buf_putv txt buf m = putv_again 10 txt buf m"

section \<open>Random bytes and hexadecimal output\<close>

text \<open>
  \<^verbatim>\<open>tt_buf_put_rand\<close>: the words the generator hands out are the stream \<open>rnd\<close>, from position \<open>i\<close>
  (the low 32 bits of a word for \<^verbatim>\<open>tt_rand_u32\<close>). The loops run on \<open>k = len - n\<close>, the bytes still
  to put.
\<close>

fun put_rand_loop :: "bool \<Rightarrow> (nat \<Rightarrow> u64) \<Rightarrow> nat \<Rightarrow> nat \<Rightarrow> tt_buf \<Rightarrow> bmem \<Rightarrow> buf_out" where
  "put_rand_loop big rnd i k buf m =
    (if 8 \<le> k then
       TT_DO (tt_buf_put_u64 big (rnd i) buf m) (\<lambda>(buf, m). put_rand_loop big rnd (Suc i) (k - 8) buf m)
     else if 0 < k then
       TT_DO (tt_buf_put_u8 (ucast (ucast (rnd i) :: u32)) buf m) (\<lambda>(buf, m).
       put_rand_loop big rnd (Suc i) (k - 1) buf m)
     else Inr (TT_SUCCESS, buf, m))"

definition tt_buf_put_rand :: "bool \<Rightarrow> (nat \<Rightarrow> u64) \<Rightarrow> u32 \<Rightarrow> tt_buf \<Rightarrow> bmem \<Rightarrow> buf_out" where
  "tt_buf_put_rand big rnd len buf m =
    (if buf_readonly buf then Inr (TT_FAIL, buf, m)
     else if len \<noteq> 0 then
       TT_DO (tt_buf_reserve len buf m) (\<lambda>(buf, m). put_rand_loop big rnd 0 (unat len) buf m)
     else Inr (TT_SUCCESS, buf, m))"

text \<open>The characters \<^verbatim>\<open>tt_buf_get_hexstr\<close> has written so far are \<open>out\<close>; \<open>addr_idx\<close> is their number.\<close>

function hexstr_loop :: "tt_buf \<Rightarrow> bmem \<Rightarrow> u32 \<Rightarrow> u32 \<Rightarrow> u8 list \<Rightarrow> u8 list run" where
  "hexstr_loop buf m buf_idx addr_len out =
    (if buf_idx < buf_wpos buf then
       if length out \<ge> unat addr_len then Inr out
       else
         bindr (mem_load 1 m (buf_p buf) (unat buf_idx) 1) (\<lambda>vs.
         let out = out @ [tt_h2c (drop_bit 4 (hd vs)) 63] in
         if length out \<ge> unat addr_len then Inr out
         else hexstr_loop buf m (buf_idx + 1) addr_len (out @ [tt_h2c (hd vs AND 0xF) 63]))
     else Inr out)"
  by pat_completeness auto

termination hexstr_loop
proof (relation "measure (\<lambda>(b, m, i, a, out). unat (buf_wpos b) - unat i)", goal_cases)
  case (2 b m i a out vs out')
  then have "unat (i + 1) = Suc (unat i)"
    by (intro unat_suc_u32) (simp add: word_less_nat_alt)
  with 2 show ?case
    by (simp add: word_less_nat_alt)
qed simp

definition tt_buf_get_hexstr :: "bool \<Rightarrow> u32 \<Rightarrow> tt_buf \<Rightarrow> bmem \<Rightarrow> (u32 \<times> u8 list) run" where
  "tt_buf_get_hexstr p_null addr_len buf m =
    (if p_null \<or> addr_len = 0 then Inr (2 * TT_BUF_RLEN buf, [])
     else bindr (hexstr_loop buf m (buf_rpos buf) addr_len []) (\<lambda>out.
          Inr (of_nat (length out), out)))"

end
