(* ===== verification/TT_Buffer_Codec.thy ===== *)
theory TT_Buffer_Codec
  imports TT_Buffer_Format
begin

text \<open>
  The contract of a value stored in a buffer, as a locale: a \<^verbatim>\<open>put\<close> appends the encoding of the
  value and the matching \<^verbatim>\<open>get\<close> takes it off the front. Interpreted on each pair of functions of
  \<^verbatim>\<open>tt_buffer_format.h\<close>. Then the text functions.
\<close>

section \<open>Appending and taking off\<close>

lemma buf_put_all:
  assumes "buf_inv b m" "\<not> buf_readonly b" "unat n = length bs"
  shows "appends b m bs (tt_buf_put (Some bs) n b m)"
  using buf_put_appends [OF assms(1,2), of n bs] assms(3) by simp

text \<open>\<open>takes b m bs rest out\<close>: the outcome is success with the value \<open>v\<close> and \<open>rest\<close> left to read.\<close>

definition takes :: "tt_buf \<Rightarrow> bmem \<Rightarrow> 'v \<Rightarrow> u8 list \<Rightarrow> (tt_result \<times> 'v \<times> tt_buf) run \<Rightarrow> bool" where
  "takes b m v rest out \<longleftrightarrow> (\<exists>b'. out = Inr (TT_SUCCESS, v, b') \<and> buf_inv b' m
     \<and> buf_data b' m = rest \<and> buf_readonly b' = buf_readonly b)"

lemma get_takes:
  assumes inv: "buf_inv b m" and d: "buf_data b m = bs @ rest" and n: "unat n = length bs"
  shows "takes b m bs rest (tt_buf_get n b m)"
  using buf_inv_inc_rp [OF inv, of n] d n by (simp add: takes_def buf_get_eq [OF inv])

lemma get_short:
  assumes "buf_inv b m" "length (buf_data b m) < unat n"
  shows "tt_buf_get n b m = Inr (TT_E_BUF_NOBUFS, [], b)"
  using assms by (simp add: buf_get_eq)

primrec put_all :: "('v \<Rightarrow> tt_buf \<Rightarrow> bmem \<Rightarrow> buf_out) \<Rightarrow> 'v list \<Rightarrow> tt_buf \<Rightarrow> bmem \<Rightarrow> buf_out" where
  "put_all put [] b m = Inr (TT_SUCCESS, b, m)"
| "put_all put (v # vs) b m = TT_DO (put v b m) (\<lambda>(b, m). put_all put vs b m)"

primrec get_all :: "(tt_buf \<Rightarrow> bmem \<Rightarrow> (tt_result \<times> 'v \<times> tt_buf) run) \<Rightarrow> nat \<Rightarrow> tt_buf \<Rightarrow> bmem
    \<Rightarrow> (tt_result \<times> 'v list \<times> tt_buf) run" where
  "get_all get 0 b m = Inr (TT_SUCCESS, [], b)"
| "get_all get (Suc n) b m = bindr (get b m) (\<lambda>(r, v, b).
     if \<not> TT_OK r then Inr (r, [], b)
     else bindr (get_all get n b m) (\<lambda>(r, vs, b). Inr (r, v # vs, b)))"

locale buf_codec =
  fixes enc :: "'v \<Rightarrow> u8 list"
    and put :: "'v \<Rightarrow> tt_buf \<Rightarrow> bmem \<Rightarrow> buf_out"
    and get :: "tt_buf \<Rightarrow> bmem \<Rightarrow> (tt_result \<times> 'v \<times> tt_buf) run"
  assumes put_appends: "buf_inv b m \<Longrightarrow> \<not> buf_readonly b \<Longrightarrow> appends b m (enc v) (put v b m)"
    and get_enc: "buf_inv b m \<Longrightarrow> buf_data b m = enc v @ rest \<Longrightarrow> takes b m v rest (get b m)"
begin

lemma put_all_appends:
  assumes "buf_inv b m" "\<not> buf_readonly b"
  shows "appends b m (concat (map enc vs)) (put_all put vs b m)"
  using assms
proof (induction vs arbitrary: b m)
  case Nil
  then show ?case by (simp add: appends_Nil)
next
  case (Cons v vs)
  have "appends b m (enc v @ concat (map enc vs)) (TT_DO (put v b m) (\<lambda>(b, m). put_all put vs b m))"
    using put_appends [OF Cons.prems] by (rule appends_TT_DO) (simp add: Cons.IH)
  then show ?case by simp
qed

lemma get_all_takes:
  assumes "buf_inv b m" "buf_data b m = concat (map enc vs) @ rest"
  shows "takes b m vs rest (get_all get (length vs) b m)"
  using assms
proof (induction vs arbitrary: b)
  case Nil
  then show ?case by (simp add: takes_def)
next
  case (Cons v vs)
  from get_enc [OF Cons.prems(1), of v "concat (map enc vs) @ rest"] Cons.prems(2)
  obtain b1 where b1: "get b m = Inr (TT_SUCCESS, v, b1)" "buf_inv b1 m"
    "buf_data b1 m = concat (map enc vs) @ rest" "buf_readonly b1 = buf_readonly b"
    by (auto simp: takes_def)
  from Cons.IH [OF b1(2,3)] b1(1,4) show ?case
    by (auto simp: takes_def)
qed

text \<open>What was put into an empty buffer comes out of it, in order, and nothing is left.\<close>

lemma round_trip:
  assumes inv: "buf_inv b m" "\<not> buf_readonly b" "buf_data b m = []"
    and put: "put_all put vs b m = Inr (TT_SUCCESS, b', m')"
  shows "takes b' m' vs [] (get_all get (length vs) b' m')"
proof -
  have "appends b m (concat (map enc vs)) (Inr (TT_SUCCESS, b', m'))"
    using put_all_appends [OF inv(1,2), of vs] put by simp
  then show ?thesis
    using inv(3) by (intro get_all_takes) (auto simp: appends_def)
qed

end

section \<open>Integers\<close>

lemma put_int_n_appends:
  assumes "buf_inv b m" "\<not> buf_readonly b" "unat k = n" "8 * n \<le> LENGTH('a :: len)"
  shows "appends b m (be_bytes n (v :: 'a word))
    (tt_buf_put (Some (host_bytes big n (tt_hton big n v))) k b m)"
  using buf_put_all [OF assms(1,2), of k "be_bytes n v"] assms(3,4) by (simp add: host_bytes_hton)

lemma put_int_appends:
  assumes "buf_inv b m" "\<not> buf_readonly b" "unat k = n"
  shows "appends b m (host_bytes big n v) (tt_buf_put (Some (host_bytes big n v)) k b m)"
  using buf_put_all [OF assms(1,2), of k "host_bytes big n v"] assms(3) by simp

lemma get_int_takes:
  assumes "buf_inv b m" "buf_data b m = host_bytes big n (v :: 'a :: len word) @ rest" "unat k = n"
    "8 * n = LENGTH('a)"
  shows "takes b m v rest (get_into big old (tt_buf_get k b m))"
proof -
  have "takes b m (host_bytes big n v) rest (tt_buf_get k b m)"
    using assms by (intro get_takes) simp_all
  then show ?thesis
    using assms(4) by (auto simp: takes_def get_into_def host_word_host_bytes)
qed

lemma get_int_h_takes:
  assumes "buf_inv b m" "buf_data b m = be_bytes n (v :: 'a :: len word) @ rest" "unat k = n"
    "8 * n = LENGTH('a)"
  shows "takes b m v rest (bindr (get_into big 0 (tt_buf_get k b m)) (\<lambda>(result, x, b).
    if TT_OK result then Inr (TT_SUCCESS, tt_ntoh big n x, b) else Inr (result, old, b)))"
proof -
  have "takes b m (be_bytes n v) rest (tt_buf_get k b m)"
    using assms by (intro get_takes) simp_all
  then show ?thesis
    using assms(4) by (auto simp: takes_def get_into_def ntoh_host_word word_of_be_bytes)
qed

interpretation c64: buf_codec "host_bytes big 8" "tt_buf_put_u64 big" "tt_buf_get_u64 big old"
  for big old
  by unfold_locales (simp_all add: tt_buf_put_u64_def tt_buf_get_u64_def put_int_appends get_int_takes)

interpretation c64n: buf_codec "be_bytes 8" "tt_buf_put_u64_n big" "tt_buf_get_u64_h big' old"
  for big big' old
  by unfold_locales (simp_all add: tt_buf_put_u64_n_def tt_buf_get_u64_h_def put_int_n_appends get_int_h_takes)

interpretation c32: buf_codec "host_bytes big 4" "tt_buf_put_u32 big" "tt_buf_get_u32 big old"
  for big old
  by unfold_locales (simp_all add: tt_buf_put_u32_def tt_buf_get_u32_def put_int_appends get_int_takes)

interpretation c32n: buf_codec "be_bytes 4" "tt_buf_put_u32_n big" "tt_buf_get_u32_h big' old"
  for big big' old
  by unfold_locales (simp_all add: tt_buf_put_u32_n_def tt_buf_get_u32_h_def put_int_n_appends get_int_h_takes)

interpretation c16: buf_codec "host_bytes big 2" "tt_buf_put_u16 big" "tt_buf_get_u16 big old"
  for big old
  by unfold_locales (simp_all add: tt_buf_put_u16_def tt_buf_get_u16_def put_int_appends get_int_takes)

interpretation c16n: buf_codec "be_bytes 2" "tt_buf_put_u16_n big" "tt_buf_get_u16_h big' old"
  for big big' old
  by unfold_locales (simp_all add: tt_buf_put_u16_n_def tt_buf_get_u16_h_def put_int_n_appends get_int_h_takes)

lemma put_u8_appends:
  assumes "buf_inv b m" "\<not> buf_readonly b"
  shows "appends b m [v] (tt_buf_put_u8 v b m)"
  using buf_put_all [OF assms, of 1 "[v]"] by (simp add: tt_buf_put_u8_def)

interpretation c8: buf_codec "\<lambda>v. [v]" tt_buf_put_u8 "tt_buf_get_u8 old"
  for old
proof (unfold_locales, goal_cases)
  case (1 b m v)
  then show ?case by (rule put_u8_appends)
next
  case (2 b m v rest)
  then have "takes b m [v] rest (tt_buf_get 1 b m)"
    by (intro get_takes) simp_all
  then show ?case
    by (auto simp: takes_def tt_buf_get_u8_def)
qed

section \<open>Hexadecimal text\<close>

definition hex_digits :: "u8 list \<Rightarrow> u8 list" where
  "hex_digits bs = concat (map (\<lambda>h. [tt_h2c (drop_bit 4 h AND 0xF) 63, tt_h2c (h AND 0xF) 63]) bs)"

fun hex_bytes :: "u8 list \<Rightarrow> u8 list" where
  "hex_bytes (c # d # cs) = (push_bit 4 (tt_c2h c 0 AND 0xF) OR (tt_c2h d 0 AND 0xF)) # hex_bytes cs"
| "hex_bytes [c] = [push_bit 4 (tt_c2h c 0 AND 0xF)]"
| "hex_bytes [] = []"

lemma put_hex2cstr_appends:
  assumes "buf_inv b m" "\<not> buf_readonly b"
  shows "appends b m (hex_digits bs) (tt_buf_put_hex2cstr bs b m)"
  using assms
proof (induction bs arbitrary: b m)
  case Nil
  then show ?case by (simp add: hex_digits_def appends_Nil)
next
  case (Cons h bs)
  let ?x = "tt_h2c (drop_bit 4 h AND 0xF) 63" and ?y = "tt_h2c (h AND 0xF) 63"
  have two: "appends b' m' ([?y] @ hex_digits bs)
      (TT_DO (tt_buf_put_u8 ?y b' m') (\<lambda>(b, m). tt_buf_put_hex2cstr bs b m))"
    if "buf_inv b' m'" "\<not> buf_readonly b'" for b' m'
    by (rule appends_TT_DO [OF put_u8_appends [OF that]]) (simp add: Cons.IH)
  have "appends b m ([?x] @ [?y] @ hex_digits bs) (tt_buf_put_hex2cstr (h # bs) b m)"
    unfolding tt_buf_put_hex2cstr.simps
    by (rule appends_TT_DO [OF put_u8_appends [OF Cons.prems]]) (simp add: two [simplified])
  then show ?case by (simp add: hex_digits_def)
qed

lemma put_cstr2hex_appends:
  assumes "buf_inv b m" "\<not> buf_readonly b"
  shows "appends b m (hex_bytes cs) (tt_buf_put_cstr2hex cs b m)"
  using assms
proof (induction cs arbitrary: b m rule: hex_bytes.induct)
  case (1 c d cs)
  let ?n = "push_bit 4 (tt_c2h c 0 AND 0xF) OR (tt_c2h d 0 AND 0xF)"
  have "appends b m ([?n] @ hex_bytes cs) (tt_buf_put_cstr2hex (c # d # cs) b m)"
    unfolding tt_buf_put_cstr2hex.simps Let_def
    by (rule appends_TT_DO [OF put_u8_appends [OF 1(2,3)]]) (simp add: 1)
  then show ?case by simp
next
  case (2 c)
  have "appends b m ([push_bit 4 (tt_c2h c 0 AND 0xF)] @ []) (tt_buf_put_cstr2hex [c] b m)"
    unfolding tt_buf_put_cstr2hex.simps Let_def
    by (rule appends_TT_DO [OF put_u8_appends [OF 2]]) (simp add: appends_Nil)
  then show ?case by simp
next
  case 3
  then show ?case by (simp add: appends_Nil)
qed

lemma c2h_h2c_all: "\<forall>n \<in> set [0..<16]. tt_c2h (tt_h2c (of_nat n) f) g = of_nat n"
  by (simp add: upt_conv_Cons tt_c2h_def tt_h2c_def)

lemma c2h_h2c:
  assumes "h < 16"
  shows "tt_c2h (tt_h2c h f) g = h"
proof -
  have "unat h \<in> set [0..<16]" using assms by (simp add: word_less_nat_alt)
  then show ?thesis using c2h_h2c_all [of f g] by fastforce
qed

lemma and_15_less: "(x :: u8) AND 0xF < 16"
proof -
  have "x AND 0xF = take_bit 4 x" by (simp add: take_bit_eq_mask mask_eq_exp_minus_1)
  then show ?thesis by (simp add: word_less_nat_alt unsigned_take_bit_eq take_bit_nat_less_exp [of 4, simplified])
qed

lemma nibbles: "push_bit 4 (drop_bit 4 x AND 0xF) OR (x AND 0xF) = (x :: u8)"
proof (rule bit_word_eqI)
  fix i
  assume "i < LENGTH(8)"
  then have "i \<in> {0, 1, 2, 3, 4, 5, 6, 7}" by auto
  then show "bit (push_bit 4 (drop_bit 4 x AND 0xF) OR (x AND 0xF)) i = bit x i"
    by (auto simp: bit_simps)
qed

lemma and_15_idem: "h < 16 \<Longrightarrow> (h :: u8) AND 0xF = h"
proof -
  assume "h < 16"
  then have "take_bit 4 h = h"
    by (simp add: word_less_nat_alt word_unat_eq_iff unsigned_take_bit_eq take_bit_nat_eq_self)
  then show ?thesis by (simp add: take_bit_eq_mask mask_eq_exp_minus_1)
qed

lemma hex_bytes_digits: "hex_bytes (hex_digits bs) = bs"
proof (induction bs)
  case (Cons h bs)
  then show ?case
    using nibbles [of h] by (simp add: hex_digits_def c2h_h2c and_15_less)
qed (simp add: hex_digits_def)

section \<open>Random bytes\<close>

text \<open>The bytes \<^verbatim>\<open>tt_buf_put_rand\<close> draws from the generator for a request of \<open>k\<close> bytes.\<close>

fun rand_bytes :: "bool \<Rightarrow> (nat \<Rightarrow> u64) \<Rightarrow> nat \<Rightarrow> nat \<Rightarrow> u8 list" where
  "rand_bytes big rnd i k =
    (if 8 \<le> k then host_bytes big 8 (rnd i) @ rand_bytes big rnd (Suc i) (k - 8)
     else if 0 < k then ucast (ucast (rnd i) :: u32) # rand_bytes big rnd (Suc i) (k - 1)
     else [])"

declare put_rand_loop.simps [simp del] rand_bytes.simps [simp del]

lemma length_rand_bytes [simp]: "length (rand_bytes big rnd i k) = k"
  by (induction big rnd i k rule: rand_bytes.induct) (subst rand_bytes.simps, simp)

lemma put_rand_loop_appends:
  assumes "buf_inv b m" "\<not> buf_readonly b"
  shows "appends b m (rand_bytes big rnd i k) (put_rand_loop big rnd i k b m)"
  using assms
proof (induction big rnd i k arbitrary: b m rule: rand_bytes.induct)
  case (1 big rnd i k)
  consider "8 \<le> k" | "\<not> 8 \<le> k" "0 < k" | "k = 0" by linarith
  then show ?case
  proof cases
    case k: 1
    have "appends b m (host_bytes big 8 (rnd i) @ rand_bytes big rnd (Suc i) (k - 8))
      (TT_DO (tt_buf_put_u64 big (rnd i) b m) (\<lambda>(b, m). put_rand_loop big rnd (Suc i) (k - 8) b m))"
      using c64.put_appends [OF 1(3,4)] by (rule appends_TT_DO) (simp add: 1 k)
    with k show ?thesis
      by (simp add: put_rand_loop.simps [of big rnd i k] rand_bytes.simps [of big rnd i k])
  next
    case k: 2
    let ?x = "ucast (ucast (rnd i) :: u32) :: u8"
    have "appends b m ([?x] @ rand_bytes big rnd (Suc i) (k - 1))
      (TT_DO (tt_buf_put_u8 ?x b m) (\<lambda>(b, m). put_rand_loop big rnd (Suc i) (k - 1) b m))"
      using put_u8_appends [OF 1(3,4)] by (rule appends_TT_DO) (use 1(2) k in simp)
    with k show ?thesis
      by (simp add: put_rand_loop.simps [of big rnd i k] rand_bytes.simps [of big rnd i k])
  next
    case k: 3
    with 1(3,4) show ?thesis
      by (simp add: put_rand_loop.simps [of big rnd i 0] rand_bytes.simps [of big rnd i 0] appends_Nil)
  qed
qed

lemma reserve_appends:
  assumes inv: "buf_inv b m" and rw: "\<not> buf_readonly b"
  shows "appends b m [] (tt_buf_reserve n b m)"
  using inv rw
proof (cases rule: buf_reserve_cases [where n = n])
  case throw
  then show ?thesis by (simp add: appends_def)
next
  case (fail m')
  then show ?thesis
    using rw same_store_buf(2) [OF fail(3) _ inv] same_store_frame [OF fail(3)]
    by (auto simp: appends_def same_store_def buf_inv_def)
next
  case (ok b' m')
  then show ?thesis by (simp add: appends_def)
qed

lemma put_rand_appends:
  assumes inv: "buf_inv b m" and rw: "\<not> buf_readonly b"
  shows "appends b m (rand_bytes big rnd 0 (unat n)) (tt_buf_put_rand big rnd n b m)"
proof (cases "n = 0")
  case True
  then show ?thesis
    using assms by (simp add: tt_buf_put_rand_def rand_bytes.simps appends_Nil)
next
  case False
  have "appends b m ([] @ rand_bytes big rnd 0 (unat n))
    (TT_DO (tt_buf_reserve n b m) (\<lambda>(b, m). put_rand_loop big rnd 0 (unat n) b m))"
    using reserve_appends [OF assms] by (rule appends_TT_DO) (simp add: put_rand_loop_appends)
  with False rw show ?thesis
    by (simp add: tt_buf_put_rand_def)
qed

section \<open>Hexadecimal output\<close>

declare hexstr_loop.simps [simp del]

lemma drop_4_and_15: "drop_bit 4 (h :: u8) AND 0xF = drop_bit 4 h"
proof (rule and_15_idem)
  have "unat (drop_bit 4 h) = unat h div 16"
    by (simp add: drop_bit_eq_div unat_div)
  then show "drop_bit 4 h < 16"
    using unsigned_less [of h, where ?'a = nat] by (simp add: word_less_nat_alt)
qed

lemma hexstr_loop_eq:
  assumes inv: "buf_inv b m" and i: "buf_rpos b \<le> i" "i \<le> buf_wpos b"
    and out: "length out \<le> unat n"
  shows "hexstr_loop b m i n out =
    Inr (take (unat n) (out @ hex_digits (drop (unat i - unat (buf_rpos b)) (buf_data b m))))"
  using i out
proof (induction "unat (buf_wpos b) - unat i" arbitrary: i out)
  case 0
  then have "i = buf_wpos b" by (simp add: word_le_nat_alt word_unat_eq_iff)
  then show ?case
    using 0(4) inv by (simp add: hexstr_loop.simps hex_digits_def length_buf_data buf_rlen)
next
  case (Suc k)
  let ?r = "unat (buf_rpos b)"
  have lt: "i < buf_wpos b" and lt': "unat i < unat (buf_wpos b)"
    using Suc(2) by (simp_all add: word_less_nat_alt)
  show ?case
  proof (cases "length out = unat n")
    case True
    then show ?thesis using lt by (simp add: hexstr_loop.simps [of b m i])
  next
    case False
    have le: "?r \<le> unat i" using Suc(3) by (simp add: word_le_nat_alt)
    let ?h = "buf_data b m ! (unat i - ?r)"
    have ld: "mem_load 1 m (buf_p b) (unat i) 1 = Inr [?h]"
      using buf_load [OF inv, of "unat i" 1] lt' le buf_inv_pos [OF inv]
      by (simp add: buf_data_def take_Suc_conv_app_nth)
    have dr: "drop (unat i - ?r) (buf_data b m) = ?h # drop (Suc (unat i - ?r)) (buf_data b m)"
      using lt' le inv by (intro Cons_nth_drop_Suc [symmetric]) (simp add: length_buf_data buf_rlen)
    have u1: "unat (i + 1) = Suc (unat i)"
      using lt by (intro unat_suc_u32) (simp add: word_less_nat_alt)
    let ?c = "tt_h2c (drop_bit 4 ?h) 63" and ?d = "tt_h2c (?h AND 0xF) 63"
    have st: "hexstr_loop b m i n out = (if unat n \<le> Suc (length out) then Inr (out @ [?c])
        else hexstr_loop b m (i + 1) n (out @ [?c, ?d]))"
      using lt ld False Suc(5) by (simp add: hexstr_loop.simps [of b m i])
    have "hexstr_loop b m (i + 1) n (out @ [?c, ?d]) =
        Inr (take (unat n) ((out @ [?c, ?d]) @ hex_digits (drop (unat (i + 1) - ?r) (buf_data b m))))"
      if "\<not> unat n \<le> Suc (length out)"
      using Suc(2) u1 le lt' that by (intro Suc(1)) (simp_all add: word_le_nat_alt)
    moreover have "unat n - length out = Suc 0" if "unat n \<le> Suc (length out)"
      using that False Suc(5) by linarith
    ultimately show ?thesis
      using st dr u1 le by (auto simp: hex_digits_def drop_4_and_15 Suc_diff_le not_less_eq_eq)
  qed
qed

lemma get_hexstr_eq:
  assumes "buf_inv b m" "n \<noteq> 0"
  shows "tt_buf_get_hexstr False n b m =
    Inr (of_nat (min (unat n) (2 * length (buf_data b m))), take (unat n) (hex_digits (buf_data b m)))"
proof -
  have "length (hex_digits bs) = 2 * length bs" for bs
    by (induction bs) (simp_all add: hex_digits_def)
  then show ?thesis
    using assms hexstr_loop_eq [OF assms(1), of "buf_rpos b" "[]" n] buf_inv_pos [OF assms(1)]
    by (simp add: tt_buf_get_hexstr_def word_le_nat_alt min.commute)
qed

end
