(* ===== verification/TT_Buffer_Common.thy ===== *)
theory TT_Buffer_Common
  imports TT_Buffer_Run
begin

text \<open>
  The buffer functions of \<^verbatim>\<open>algorithm/tt_buffer_common.c\<close>: swapping, comparing, removing and
  inserting bytes, splitting into tokens and trimming spaces.
\<close>

section \<open>Swapping\<close>

text \<open>\<^verbatim>\<open>tt_swap\<close> of \<^verbatim>\<open>misc/tt_util.c\<close>: the bytes of two objects, one index at a time.\<close>

primrec swap_loop :: "bmem \<Rightarrow> nat \<Rightarrow> nat \<Rightarrow> nat \<Rightarrow> nat \<Rightarrow> bmem run" where
  "swap_loop m a b i 0 = Inr m"
| "swap_loop m a b i (Suc n) =
    bindr (mem_load 1 m (Some a) i 1) (\<lambda>tmp.
    bindr (mem_load 1 m (Some b) i 1) (\<lambda>vb.
    bindr (mem_store 1 m (Some a) i vb) (\<lambda>m.
    bindr (mem_store 1 m (Some b) i tmp) (\<lambda>m.
    swap_loop m a b (Suc i) n))))"

definition tt_swap :: "ptr \<Rightarrow> ptr \<Rightarrow> u32 \<Rightarrow> bmem \<Rightarrow> bmem run" where
  "tt_swap a b sz m =
    bindr (TT_ASSERT (a \<noteq> None)) (\<lambda>_.
    bindr (TT_ASSERT (b \<noteq> None)) (\<lambda>_.
    bindr (TT_ASSERT (sz \<noteq> 0)) (\<lambda>_.
    if a = b then Inr m else swap_loop m (the a) (the b) 0 (unat sz))))"

definition tt_buf_swap :: "tt_buf \<Rightarrow> tt_buf \<Rightarrow> bmem \<Rightarrow> (tt_buf \<times> tt_buf \<times> bmem) run" where
  "tt_buf_swap a b m =
    bindr (TT_ASSERT (\<not> buf_readonly a \<and> \<not> buf_readonly b)) (\<lambda>_.
    let a' = a\<lparr>buf_p := buf_p b, buf_size := buf_size b, buf_wpos := buf_wpos b, buf_rpos := buf_rpos b\<rparr>;
        b' = b\<lparr>buf_p := buf_p a, buf_size := buf_size a, buf_wpos := buf_wpos a, buf_rpos := buf_rpos a\<rparr> in
    if buf_p a' = Some (buf_initbuf b') \<or> buf_p b' = Some (buf_initbuf a') then
      bindr (tt_swap (Some (buf_initbuf a')) (Some (buf_initbuf b')) TT_BUF_INIT_SIZE m) (\<lambda>m.
      let a'' = (if buf_p a' = Some (buf_initbuf b') then a'\<lparr>buf_p := Some (buf_initbuf a')\<rparr> else a');
          b'' = (if buf_p b' = Some (buf_initbuf a') then b'\<lparr>buf_p := Some (buf_initbuf b')\<rparr> else b') in
      Inr (a'', b'', m))
    else Inr (a', b', m))"

section \<open>Comparing\<close>

text \<open>\<^verbatim>\<open>memcmp\<close>: the sign of the difference of the first bytes that differ.\<close>

fun tt_memcmp :: "u8 list \<Rightarrow> u8 list \<Rightarrow> int" where
  "tt_memcmp (x # xs) (y # ys) = (if x < y then -1 else if y < x then 1 else tt_memcmp xs ys)"
| "tt_memcmp xs ys = 0"

text \<open>Two buffers are the same object if they have the same embedded array.\<close>

definition tt_buf_cmp :: "tt_buf \<Rightarrow> tt_buf \<Rightarrow> bmem \<Rightarrow> int run" where
  "tt_buf_cmp a b m =
    (if buf_initbuf a = buf_initbuf b then Inr 0
     else
       let a_len = TT_BUF_RLEN a; b_len = TT_BUF_RLEN b in
       if a_len \<noteq> b_len \<or> a_len = 0 then Inr (sint (a_len - b_len))
       else
         bindr (mem_load 1 m (buf_p a) (unat (buf_rpos a)) (unat a_len)) (\<lambda>x.
         bindr (mem_load 1 m (buf_p b) (unat (buf_rpos b)) (unat a_len)) (\<lambda>y.
         Inr (tt_memcmp x y))))"

text \<open>The loop over the bytes of the buffer behind the string; \<open>i\<close> counts from \<^verbatim>\<open>cstr_len\<close>.\<close>

primrec cmp_cstr_loop :: "u8 list \<Rightarrow> u32 \<Rightarrow> u32 \<Rightarrow> int" where
  "cmp_cstr_loop [] i cstr_len = 0"
| "cmp_cstr_loop (x # xs) i cstr_len =
    (if x \<noteq> 0 then sint (i - cstr_len) else cmp_cstr_loop xs (i + 1) cstr_len)"

definition tt_buf_cmp_cstr :: "tt_buf \<Rightarrow> u8 list \<Rightarrow> bmem \<Rightarrow> int run" where
  "tt_buf_cmp_cstr a cstr m =
    (let a_len = TT_BUF_RLEN a; cstr_len = (of_nat (length cstr) :: u32) in
     if a_len < cstr_len then Inr (sint (a_len - cstr_len))
     else
       bindr (mem_load 1 m (buf_p a) (unat (buf_rpos a)) (unat cstr_len)) (\<lambda>x.
       let r = tt_memcmp x cstr in
       if r \<noteq> 0 then Inr r
       else
         bindr (mem_load 1 m (buf_p a) (unat (buf_rpos a) + unat cstr_len) (unat (a_len - cstr_len))) (\<lambda>y.
         Inr (cmp_cstr_loop y cstr_len cstr_len))))"

definition tt_buf_startwith :: "tt_buf \<Rightarrow> u8 list \<Rightarrow> u32 \<Rightarrow> bmem \<Rightarrow> bool run" where
  "tt_buf_startwith buf p len m =
    (if len = 0 then Inr True
     else if TT_BUF_RLEN buf \<ge> len then
       bindr (mem_load 1 m (buf_p buf) (unat (buf_rpos buf)) (unat len)) (\<lambda>x.
       bindr (src_bytes p len) (\<lambda>y. Inr (tt_memcmp x y = 0)))
     else Inr False)"

definition tt_buf_endwith :: "tt_buf \<Rightarrow> u8 list \<Rightarrow> u32 \<Rightarrow> bmem \<Rightarrow> bool run" where
  "tt_buf_endwith buf p len m =
    (let n = TT_BUF_RLEN buf in
     if len = 0 then Inr True
     else if n \<ge> len then
       bindr (mem_load 1 m (buf_p buf) (unat (buf_rpos buf) + unat n - unat len) (unat len)) (\<lambda>x.
       bindr (src_bytes p len) (\<lambda>y. Inr (tt_memcmp x y = 0)))
     else Inr False)"

section \<open>Removing and inserting\<close>

definition tt_buf_remove_range :: "u32 \<Rightarrow> u32 \<Rightarrow> tt_buf \<Rightarrow> bmem \<Rightarrow> (tt_buf \<times> bmem) run" where
  "tt_buf_remove_range from to buf m =
    (let len = TT_BUF_RLEN buf in
     bindr (TT_ASSERT_ALWAYS (from \<le> to)) (\<lambda>_.
     if buf_rpos buf + from > from then Inr (buf, m)
     else if from \<ge> len then Inr (buf, m)
     else
       let to = (if to \<ge> len then len else to) in
       bindr (tt_memmove 1 m (buf_p buf) (unat (buf_rpos buf + from)) (buf_p buf) (unat (buf_rpos buf + to))
                (unat (len - to))) (\<lambda>m.
       Inr (buf\<lparr>buf_wpos := buf_wpos buf - (to - from)\<rparr>, m))))"

definition tt_buf_remove :: "u32 \<Rightarrow> tt_buf \<Rightarrow> bmem \<Rightarrow> (tt_buf \<times> bmem) run" where
  "tt_buf_remove idx buf m = tt_buf_remove_range idx (idx + 1) buf m"

definition tt_buf_remove_headto :: "u32 \<Rightarrow> tt_buf \<Rightarrow> tt_buf" where
  "tt_buf_remove_headto to buf =
    (let len = TT_BUF_RLEN buf; to = (if to \<ge> len then len else to) in
     buf\<lparr>buf_rpos := buf_rpos buf + to\<rparr>)"

definition tt_buf_remove_tailfrom :: "u32 \<Rightarrow> tt_buf \<Rightarrow> tt_buf" where
  "tt_buf_remove_tailfrom from buf =
    (let len = TT_BUF_RLEN buf in
     if from \<ge> len then buf else buf\<lparr>buf_wpos := buf_wpos buf - (len - from)\<rparr>)"

definition tt_buf_insert ::
  "u32 \<Rightarrow> u8 list \<Rightarrow> u32 \<Rightarrow> tt_buf \<Rightarrow> bmem \<Rightarrow> (tt_result \<times> tt_buf \<times> bmem) run" where
  "tt_buf_insert idx data data_len buf m =
    (let len = TT_BUF_RLEN buf in
     if buf_rpos buf + idx > idx then Inr (TT_FAIL, buf, m)
     else if idx > len then Inr (TT_FAIL, buf, m)
     else
       TT_DO (tt_buf_reserve data_len buf m) (\<lambda>(buf, m).
       bindr (tt_memmove 1 m (buf_p buf) (unat (buf_rpos buf + idx + data_len))
                (buf_p buf) (unat (buf_rpos buf + idx)) (unat (len - idx))) (\<lambda>m.
       bindr (src_bytes data data_len) (\<lambda>vs.
       bindr (mem_store 1 m (buf_p buf) (unat (buf_rpos buf + idx)) vs) (\<lambda>m.
       Inr (TT_SUCCESS, buf\<lparr>buf_wpos := buf_wpos buf + data_len\<rparr>, m))))))"

text \<open>The inline functions of the header.\<close>

definition tt_buf_startwith_u8 :: "tt_buf \<Rightarrow> u8 \<Rightarrow> bmem \<Rightarrow> bool run" where
  "tt_buf_startwith_u8 buf v m = tt_buf_startwith buf [v] 1 m"

definition tt_buf_endwith_u8 :: "tt_buf \<Rightarrow> u8 \<Rightarrow> bmem \<Rightarrow> bool run" where
  "tt_buf_endwith_u8 buf v m = tt_buf_endwith buf [v] 1 m"

definition tt_buf_copy :: "tt_buf \<Rightarrow> tt_buf \<Rightarrow> bmem \<Rightarrow> (tt_result \<times> tt_buf \<times> bmem) run" where
  "tt_buf_copy dst src m =
    (let dst = tt_buf_clear dst in
     bindr (mem_load 1 m (buf_p src) (unat (buf_rpos src)) (unat (TT_BUF_RLEN src))) (\<lambda>vs.
     tt_buf_put (Some vs) (TT_BUF_RLEN src) dst m))"

definition tt_buf_remove_head :: "u32 \<Rightarrow> tt_buf \<Rightarrow> tt_buf" where
  "tt_buf_remove_head len buf = tt_buf_remove_headto len buf"

definition tt_buf_remove_tail :: "u32 \<Rightarrow> tt_buf \<Rightarrow> tt_buf" where
  "tt_buf_remove_tail len buf =
    (let rlen = TT_BUF_RLEN buf in tt_buf_remove_tailfrom (if len \<le> rlen then rlen - len else 0) buf)"

definition tt_buf_insert_cstr :: "u32 \<Rightarrow> u8 list \<Rightarrow> tt_buf \<Rightarrow> bmem \<Rightarrow> (tt_result \<times> tt_buf \<times> bmem) run" where
  "tt_buf_insert_cstr idx cstr buf m = tt_buf_insert idx cstr (of_nat (length cstr)) buf m"

section \<open>Tokens\<close>

definition TT_BUFTOK_NOEMPTY :: u32 where "TT_BUFTOK_NOEMPTY = push_bit 0 1"

text \<open>
  The pointers \<^verbatim>\<open>pos\<close>, \<^verbatim>\<open>end\<close> and \<^verbatim>\<open>tstart\<close> into the storage are offsets from its start. The
  result is the start and length of the token, the new values of \<^verbatim>\<open>*last\<close> and \<^verbatim>\<open>*last_len\<close>.
\<close>

function tok_loop ::
  "tt_buf \<Rightarrow> bmem \<Rightarrow> u8 list \<Rightarrow> u32 \<Rightarrow> nat \<Rightarrow> nat \<Rightarrow> nat \<Rightarrow> (tt_result \<times> (nat \<times> u32) option) run" where
  "tok_loop buf m sep flag pos tstart end =
    (if pos < end then
       bindr (mem_load 1 m (buf_p buf) pos 1) (\<lambda>vs.
       if hd vs \<in> set sep then
         if pos > tstart \<or> flag AND TT_BUFTOK_NOEMPTY = 0
         then Inr (TT_SUCCESS, Some (tstart, of_nat (pos - tstart)))
         else tok_loop buf m sep flag (Suc pos) (Suc pos) end
       else tok_loop buf m sep flag (Suc pos) tstart end)
     else if pos > tstart \<or> flag AND TT_BUFTOK_NOEMPTY = 0
     then Inr (TT_SUCCESS, Some (tstart, of_nat (pos - tstart)))
     else Inr (TT_E_END, None))"
  by pat_completeness auto

termination tok_loop
  by (relation "measure (\<lambda>(b, m, s, f, pos, t, e). e - pos)") auto

definition tt_buf_tok ::
  "tt_buf \<Rightarrow> u8 list \<Rightarrow> u32 \<Rightarrow> u32 \<Rightarrow> (nat \<times> u32) option \<Rightarrow> bmem
    \<Rightarrow> (tt_result \<times> (nat \<times> u32) option) run" where
  "tt_buf_tok buf sep sep_num flag last_tok m =
    bindr (src_bytes sep sep_num) (\<lambda>sep.
    let end = unat (buf_wpos buf) in
    case last_tok of
      Some (pos, last_len) \<Rightarrow>
        let pos = pos + unat last_len in
        if pos < end then tok_loop buf m sep flag (Suc pos) (Suc pos) end
        else Inr (TT_E_END, None)
    | None \<Rightarrow> tok_loop buf m sep flag (unat (buf_rpos buf)) (unat (buf_rpos buf)) end)"

section \<open>Trimming\<close>

definition tt_isspace :: "u8 \<Rightarrow> bool" where
  "tt_isspace c \<longleftrightarrow> c = 32 \<or> 9 \<le> c \<and> c \<le> 13"

text \<open>The position is a \<^verbatim>\<open>tt_u8_t\<close>, so it wraps around at 256.\<close>

partial_function (option) trim_head :: "tt_buf \<Rightarrow> bmem \<Rightarrow> u8 \<Rightarrow> u8 run option" where
  "trim_head buf m pos =
    (if ucast pos < buf_wpos buf then
       (case mem_load 1 m (buf_p buf) (unat pos) 1 of
          Inl f \<Rightarrow> Some (Inl f)
        | Inr vs \<Rightarrow> if tt_isspace (hd vs) then trim_head buf m (pos + 1) else Some (Inr pos))
     else Some (Inr pos))"

function trim_tail :: "tt_buf \<Rightarrow> bmem \<Rightarrow> u8 \<Rightarrow> u8 run" where
  "trim_tail buf m pos =
    (if ucast pos > buf_rpos buf then
       bindr (mem_load 1 m (buf_p buf) (unat pos) 1) (\<lambda>vs.
       if tt_isspace (hd vs) then trim_tail buf m (pos - 1) else Inr pos)
     else Inr pos)"
  by pat_completeness auto

lemma unat_dec_u8: "(pos :: u8) \<noteq> 0 \<Longrightarrow> unat (pos - 1) = unat pos - 1"
  by (simp add: unat_minus_one)

termination trim_tail
proof (relation "measure (\<lambda>(b, m, pos). unat pos)", goal_cases)
  case (2 b m pos vs)
  then have "pos \<noteq> 0" by auto
  then show ?case by (simp add: unat_dec_u8 unat_gt_0)
qed simp

definition tt_buf_trim_sp :: "tt_buf \<Rightarrow> bmem \<Rightarrow> tt_buf run" where
  "tt_buf_trim_sp buf m =
    bindr (if buf_rpos buf < buf_wpos buf then
             (case trim_head buf m (ucast (buf_rpos buf)) of
                None \<Rightarrow> Inl Diverge
              | Some r \<Rightarrow> bindr r (\<lambda>pos. Inr (buf\<lparr>buf_rpos := ucast pos\<rparr>)))
           else Inr buf) (\<lambda>buf.
    if buf_rpos buf < buf_wpos buf then
      bindr (trim_tail buf m (ucast (buf_wpos buf - 1))) (\<lambda>pos.
      Inr (buf\<lparr>buf_wpos := ucast pos + 1\<rparr>))
    else Inr buf)"

section \<open>What the functions do\<close>

declare tok_loop.simps [simp del] trim_tail.simps [simp del] tt_memcmp.simps [simp del]

lemma memcmp_0_iff: "length xs = length ys \<Longrightarrow> tt_memcmp xs ys = 0 \<longleftrightarrow> xs = ys"
  by (induction xs ys rule: list_induct2) (auto simp: tt_memcmp.simps not_less_iff_gr_or_eq)

text \<open>Any part of the readable bytes can be loaded.\<close>

lemma buf_load_part:
  assumes "buf_inv b m" "i + n \<le> length (buf_data b m)"
  shows "mem_load 1 m (buf_p b) (unat (buf_rpos b) + i) n = Inr (take n (drop i (buf_data b m)))"
proof -
  have le: "unat (buf_rpos b) + i + n \<le> unat (buf_wpos b)"
    using assms buf_inv_pos [OF assms(1)] by (simp add: length_buf_data buf_rlen)
  then have "unat (buf_rpos b) + i + n \<le> unat (buf_size b)"
    using buf_inv_pos [OF assms(1)] by linarith
  with le show ?thesis
    using buf_load [OF assms(1)] by (simp add: buf_data_def drop_take min_def add.commute)
qed

lemma startwith_eq:
  assumes inv: "buf_inv b m" and p: "length p = unat n"
  shows "tt_buf_startwith b p n m = Inr (\<exists>rest. buf_data b m = p @ rest)"
proof (cases "unat n \<le> length (buf_data b m)")
  case True
  have "mem_load 1 m (buf_p b) (unat (buf_rpos b)) (unat n) = Inr (take (unat n) (buf_data b m))"
    using buf_load_part [OF inv, of 0 "unat n"] True by simp
  moreover have "tt_memcmp (take (unat n) (buf_data b m)) p = 0 \<longleftrightarrow> take (unat n) (buf_data b m) = p"
    using True p by (intro memcmp_0_iff) simp
  moreover have "take (unat n) (buf_data b m) = p \<longleftrightarrow> (\<exists>rest. buf_data b m = p @ rest)"
    using p by (metis append_take_drop_id append_eq_conv_conj)
  ultimately show ?thesis
    using True p inv by (auto simp: tt_buf_startwith_def word_le_nat_alt length_buf_data src_bytes_def)
next
  case False
  then have "\<nexists>rest. buf_data b m = p @ rest" "n \<noteq> 0"
    using p by auto
  moreover have "\<not> n \<le> TT_BUF_RLEN b"
    using False inv by (simp add: word_le_nat_alt length_buf_data)
  ultimately show ?thesis by (simp add: tt_buf_startwith_def)
qed

lemma endwith_eq:
  assumes inv: "buf_inv b m" and p: "length p = unat n"
  shows "tt_buf_endwith b p n m = Inr (\<exists>rest. buf_data b m = rest @ p)"
proof (cases "unat n \<le> length (buf_data b m)")
  case True
  let ?i = "length (buf_data b m) - unat n"
  have "mem_load 1 m (buf_p b) (unat (buf_rpos b) + ?i) (unat n) = Inr (drop ?i (buf_data b m))"
    using buf_load_part [OF inv, of ?i "unat n"] True by simp
  moreover have "tt_memcmp (drop ?i (buf_data b m)) p = 0 \<longleftrightarrow> drop ?i (buf_data b m) = p"
    using True p by (intro memcmp_0_iff) simp
  moreover have "drop ?i (buf_data b m) = p \<longleftrightarrow> (\<exists>rest. buf_data b m = rest @ p)"
    using p by (metis append_take_drop_id append_eq_conv_conj length_append add_diff_cancel_right')
  ultimately show ?thesis
    using True p inv by (auto simp: tt_buf_endwith_def word_le_nat_alt length_buf_data src_bytes_def Let_def)
next
  case False
  then have "\<nexists>rest. buf_data b m = rest @ p" "n \<noteq> 0"
    using p by auto
  moreover have "\<not> n \<le> TT_BUF_RLEN b"
    using False inv by (simp add: word_le_nat_alt length_buf_data)
  ultimately show ?thesis by (simp add: tt_buf_endwith_def)
qed

lemma cmp_0_iff:
  assumes a: "buf_inv a m" and b: "buf_inv b m" and ne: "buf_initbuf a \<noteq> buf_initbuf b"
  obtains r where "tt_buf_cmp a b m = Inr r" "r = 0 \<longleftrightarrow> buf_data a m = buf_data b m"
proof (cases "TT_BUF_RLEN a = TT_BUF_RLEN b \<and> TT_BUF_RLEN a \<noteq> 0")
  case True
  then have len: "length (buf_data a m) = length (buf_data b m)"
    using a b by (simp add: length_buf_data)
  have "tt_buf_cmp a b m = Inr (tt_memcmp (buf_data a m) (buf_data b m))"
    using True ne buf_load_part [OF a, of 0 "unat (TT_BUF_RLEN a)"]
      buf_load_part [OF b, of 0 "unat (TT_BUF_RLEN a)"] len a b
    by (auto simp: tt_buf_cmp_def length_buf_data Let_def)
  with that memcmp_0_iff [OF len] show thesis by simp
next
  case False
  then have c: "tt_buf_cmp a b m = Inr (sint (TT_BUF_RLEN a - TT_BUF_RLEN b))"
    using ne by (auto simp: tt_buf_cmp_def Let_def)
  have "sint (TT_BUF_RLEN a - TT_BUF_RLEN b) = 0 \<longleftrightarrow> TT_BUF_RLEN a = TT_BUF_RLEN b"
    by (simp add: signed_eq_0_iff)
  moreover have "buf_data a m = buf_data b m \<longleftrightarrow> TT_BUF_RLEN a = TT_BUF_RLEN b"
    using False length_buf_data [OF a] length_buf_data [OF b] by (auto simp: word_unat_eq_iff)
  ultimately show thesis
    using that c by simp
qed

lemma remove_headto_eq:
  assumes inv: "buf_inv b m"
  shows "buf_inv (tt_buf_remove_headto n b) m"
    "buf_data (tt_buf_remove_headto n b) m = drop (unat n) (buf_data b m)"
proof -
  let ?k = "if TT_BUF_RLEN b \<le> n then TT_BUF_RLEN b else n"
  have k: "unat ?k \<le> length (buf_data b m)" "drop (unat ?k) (buf_data b m) = drop (unat n) (buf_data b m)"
    using inv by (auto simp: length_buf_data word_le_nat_alt)
  show "buf_inv (tt_buf_remove_headto n b) m"
    "buf_data (tt_buf_remove_headto n b) m = drop (unat n) (buf_data b m)"
    using buf_inv_inc_rp [OF inv k(1)] k(2) by (simp_all add: tt_buf_remove_headto_def Let_def)
qed

lemma remove_tailfrom_eq:
  assumes inv: "buf_inv b m"
  shows "buf_inv (tt_buf_remove_tailfrom n b) m"
    "buf_data (tt_buf_remove_tailfrom n b) m = take (unat n) (buf_data b m)"
proof -
  let ?b = "b\<lparr>buf_wpos := buf_wpos b - (TT_BUF_RLEN b - n)\<rparr>"
  note pos = buf_inv_pos [OF inv] and rl = buf_rlen [OF inv] and ld = length_buf_data [OF inv]
  have *: "buf_inv ?b m \<and> buf_data ?b m = take (unat n) (buf_data b m)" if lt: "n < TT_BUF_RLEN b"
  proof -
    have "unat (TT_BUF_RLEN b - n) = unat (buf_wpos b) - unat (buf_rpos b) - unat n"
      using lt rl by (simp add: unat_sub_u32 word_less_nat_alt)
    then have u: "unat (buf_wpos ?b) = unat (buf_rpos b) + unat n"
      using lt rl pos by (simp add: unat_sub_u32 word_less_nat_alt)
    then have "buf_inv ?b m"
      using inv lt rl pos by (simp add: buf_inv_def buf_cells_def word_le_nat_alt word_less_nat_alt)
    with u show ?thesis
      using lt rl pos by (simp add: buf_data_def buf_cells_def word_less_nat_alt min_def)
  qed
  show "buf_inv (tt_buf_remove_tailfrom n b) m"
    "buf_data (tt_buf_remove_tailfrom n b) m = take (unat n) (buf_data b m)"
    using * inv ld by (auto simp: tt_buf_remove_tailfrom_def Let_def word_le_nat_alt word_less_nat_alt)
qed

text \<open>With nothing read yet, a range of bytes is cut out; otherwise the function does nothing.\<close>

lemma remove_range_front:
  assumes inv: "buf_inv b m" and rw: "\<not> buf_readonly b" and r: "buf_rpos b = 0" and le: "from \<le> to"
  obtains b' m' where "tt_buf_remove_range from to b m = Inr (b', m')" "keeps b m b' m'"
    "buf_data b' m' = take (unat from) (buf_data b m) @ drop (unat to) (buf_data b m)"
proof (cases "TT_BUF_RLEN b \<le> from")
  case True
  then have "tt_buf_remove_range from to b m = Inr (b, m)"
    using r le by (simp add: tt_buf_remove_range_def)
  moreover have "length (buf_data b m) \<le> unat from" "length (buf_data b m) \<le> unat to"
    using True le inv by (simp_all add: length_buf_data word_le_nat_alt)
  ultimately show thesis
    using that [of b m] keeps_refl [OF inv rw] by simp
next
  case False
  let ?t = "if TT_BUF_RLEN b \<le> to then TT_BUF_RLEN b else to"
  have rl: "TT_BUF_RLEN b = buf_wpos b" using r by (simp add: TT_BUF_RLEN_def)
  have t: "from \<le> ?t" "?t \<le> buf_wpos b" using False le rl by auto
  have ft: "unat from \<le> unat ?t" "unat ?t \<le> unat (buf_wpos b)" using t by (simp_all only: word_le_nat_alt)
  have sub: "unat (?t - from) = unat ?t - unat from" "unat (TT_BUF_RLEN b - ?t) = unat (buf_wpos b) - unat ?t"
    using ft rl by (simp_all only: unat_sub_u32)
  have uw: "unat (buf_wpos b - (?t - from)) = unat from + length ([] :: u8 list) + (unat (buf_wpos b) - unat ?t)"
    using ft sub by (subst unat_sub_u32) auto
  have p0: "unat from = unat (buf_rpos b) + unat from" using r by simp
  have tt: "unat (buf_wpos b) - unat ?t = unat (buf_wpos b) - (unat from + (unat ?t - unat from))"
    "unat from + (unat ?t - unat from) \<le> unat (buf_wpos b)"
    "unat from + length ([] :: u8 list) + (unat (buf_wpos b) - unat ?t) \<le> unat (buf_size b)"
    using ft buf_inv_pos [OF inv] by auto
  obtain m1 m2 where mm: "tt_memmove 1 m (buf_p b) (unat from + length ([] :: u8 list)) (buf_p b)
      (unat from + (unat ?t - unat from)) (unat (buf_wpos b) - unat ?t) = Inr m1"
    "mem_store 1 m1 (buf_p b) (unat from) [] = Inr m2"
    "buf_inv (b\<lparr>buf_wpos := buf_wpos b - (?t - from)\<rparr>) m2"
    "buf_data (b\<lparr>buf_wpos := buf_wpos b - (?t - from)\<rparr>) m2 =
       take (unat from) (buf_data b m) @ [] @ drop (unat from + (unat ?t - unat from)) (buf_data b m)"
    "mem_frame (buf_foot b) m m2" "mem_heap m2 = mem_heap m"
    using inv p0 tt(1,2,3) uw by (rule buf_splice)
  have m2: "m2 = m1" using mm(2) by (simp add: mem_store_def)
  have "tt_buf_remove_range from to b m = Inr (b\<lparr>buf_wpos := buf_wpos b - (?t - from)\<rparr>, m2)"
    using mm(1) False r le sub(2) ft m2 by (simp add: tt_buf_remove_range_def Let_def)
  moreover have "drop (unat from + (unat ?t - unat from)) (buf_data b m) = drop (unat to) (buf_data b m)"
    using ft length_buf_data [OF inv] by (auto simp: word_le_nat_alt)
  moreover have "keeps b m (b\<lparr>buf_wpos := buf_wpos b - (?t - from)\<rparr>) m2"
    using mm(3,5,6) rw by (simp add: keeps_def buf_foot_def)
  ultimately show thesis
    using that mm(4) by simp
qed

lemma remove_range_blocked:
  assumes inv: "buf_inv b m" and r: "0 < buf_rpos b" and fr: "unat from < length (buf_data b m)" "from \<le> to"
  shows "tt_buf_remove_range from to b m = Inr (b, m)"
proof -
  have "unat (buf_rpos b) + unat from < unat (buf_wpos b)"
    using fr(1) buf_inv_pos [OF inv] by (simp add: length_buf_data [OF inv] buf_rlen [OF inv])
  then have "unat (buf_rpos b + from) = unat (buf_rpos b) + unat from"
    using unat_lt_32 [of "buf_wpos b"] by (intro unat_add_u32) linarith
  then have "buf_rpos b + from > from"
    using r by (simp add: word_less_nat_alt)
  then show ?thesis
    using fr(2) by (simp add: tt_buf_remove_range_def Let_def)
qed

text \<open>Insertion likewise works on a buffer nothing was read from.\<close>

lemma insert_front:
  assumes inv: "buf_inv b m" and rw: "\<not> buf_readonly b" and r: "buf_rpos b = 0"
    and i: "unat i \<le> length (buf_data b m)" and n: "unat n = length bs"
  obtains (throw) "tt_buf_insert i bs n b m = Inl Throw" "\<not> buf_room n b m"
  | (fail) m' where "tt_buf_insert i bs n b m = Inr (TT_FAIL, b, m')" "buf_inv b m'" "same_store m m'"
      "\<not> buf_room n b m"
  | (ok) b' m' where "tt_buf_insert i bs n b m = Inr (TT_SUCCESS, b', m')" "keeps b m b' m'"
      "buf_data b' m' = take (unat i) (buf_data b m) @ bs @ drop (unat i) (buf_data b m)" "buf_room n b m"
proof -
  let ?w = "unat (buf_wpos b)"
  have rl: "TT_BUF_RLEN b = buf_wpos b" using r by (simp add: TT_BUF_RLEN_def)
  then have iw: "unat i \<le> ?w" using i length_buf_data [OF inv] by simp
  then have g: "\<not> TT_BUF_RLEN b < i" using rl by (simp add: word_less_nat_alt)
  note room = buf_reserve_room [OF inv rw, of n]
  show thesis
    using inv rw
  proof (cases rule: buf_reserve_cases [where n = n])
    case throw
    with g r that(1) room(1) show thesis by (simp add: tt_buf_insert_def Let_def)
  next
    case (fail m')
    with g r that(2) room(2) show thesis by (simp add: tt_buf_insert_def Let_def)
  next
    case (ok b1 m1)
    have lt: "?w + unat n < 4294967296"
      using ok(7) unat_lt_32 [of "buf_size b1"] by linarith
    have un: "unat (i + n) = unat i + length bs"
      using lt iw n by (subst unat_add_u32) simp_all
    have uw: "unat (buf_wpos b1 + n) = unat i + length bs + (?w - unat i)"
      using lt iw n ok(5) by (subst unat_add_u32) simp_all
    have pp: "unat i = unat (buf_rpos b1) + unat i" "?w - unat i = unat (buf_wpos b1) - (unat i + 0)"
      "unat i + 0 \<le> unat (buf_wpos b1)" "unat i + length bs + (?w - unat i) \<le> unat (buf_size b1)"
      using ok(4,5,7) r iw n by simp_all
    obtain ma mb where mm:
      "tt_memmove 1 m1 (buf_p b1) (unat i + length bs) (buf_p b1) (unat i + 0) (?w - unat i) = Inr ma"
      "mem_store 1 ma (buf_p b1) (unat i) bs = Inr mb" "buf_inv (b1\<lparr>buf_wpos := buf_wpos b1 + n\<rparr>) mb"
      "buf_data (b1\<lparr>buf_wpos := buf_wpos b1 + n\<rparr>) mb =
         take (unat i) (buf_data b1 m1) @ bs @ drop (unat i + 0) (buf_data b1 m1)"
      "mem_frame (buf_foot b1) m1 mb" "mem_heap mb = mem_heap m1"
      using ok(2) pp uw by (rule buf_splice)
    have "unat (TT_BUF_RLEN b - i) = ?w - unat i"
      using rl iw by (simp add: unat_sub_u32)
    then have "tt_buf_insert i bs n b m = Inr (TT_SUCCESS, b1\<lparr>buf_wpos := buf_wpos b1 + n\<rparr>, mb)"
      using g r ok(1,4) mm(1,2) un n by (simp add: tt_buf_insert_def Let_def src_bytes_def)
    moreover have "keeps b m b1 m1"
      using ok by (simp add: keeps_def)
    moreover have "keeps b1 m1 (b1\<lparr>buf_wpos := buf_wpos b1 + n\<rparr>) mb"
      using mm(3,5,6) ok(3) by (simp add: keeps_def buf_foot_def)
    ultimately show thesis
      using that(3) [of "b1\<lparr>buf_wpos := buf_wpos b1 + n\<rparr>" mb] mm(4) ok(10) room(3) [OF ok(1)]
        keeps_trans [of b m b1 m1 "b1\<lparr>buf_wpos := buf_wpos b1 + n\<rparr>" mb] by simp
  qed
qed

section \<open>Tokens\<close>

text \<open>
  The bytes \<open>D\<close> from a position to the end determine the token: up to the first separator, after
  skipping separators if empty tokens are not wanted.
\<close>

definition tok_spec :: "bool \<Rightarrow> u8 list \<Rightarrow> nat \<Rightarrow> u8 list \<Rightarrow> tt_result \<times> (nat \<times> nat) option" where
  "tok_spec noempty sep p D =
    (let k = (if noempty then length (takeWhile (\<lambda>c. c \<in> set sep) D) else 0); E = drop k D in
     if noempty \<and> E = [] then (TT_E_END, None)
     else (TT_SUCCESS, Some (p + k, length (takeWhile (\<lambda>c. c \<notin> set sep) E))))"

definition tok_word :: "tt_result \<times> (nat \<times> nat) option \<Rightarrow> tt_result \<times> (nat \<times> u32) option" where
  "tok_word t = (fst t, map_option (\<lambda>(p, n). (p, of_nat n)) (snd t))"

lemma tok_loop_in_token:
  assumes inv: "buf_inv b m" and "p < q" "q \<le> unat (buf_wpos b)"
  shows "tok_loop b m sep flag q p (unat (buf_wpos b)) = Inr (TT_SUCCESS, Some (p, of_nat
    (q - p + length (takeWhile (\<lambda>c. c \<notin> set sep) (take (unat (buf_wpos b) - q) (drop q (buf_cells b m)))))))"
  using assms(2,3)
proof (induction "unat (buf_wpos b) - q" arbitrary: q)
  case 0
  then show ?case by (simp add: tok_loop.simps)
next
  case (Suc k)
  let ?w = "unat (buf_wpos b)" and ?cs = "buf_cells b m"
  have lt: "q < ?w" "q < length ?cs" using Suc(2) buf_inv_pos [OF inv] by linarith+
  have ld: "mem_load 1 m (buf_p b) q 1 = Inr [?cs ! q]"
    using buf_load [OF inv, of q 1] lt buf_inv_pos [OF inv] by (simp add: take_Suc_conv_app_nth)
  have dr: "take (?w - q) (drop q ?cs) = ?cs ! q # take (?w - Suc q) (drop (Suc q) ?cs)"
    using lt by (simp add: Cons_nth_drop_Suc [symmetric] take_Suc Suc_diff_Suc flip: take_Suc_Cons)
  show ?case
  proof (cases "?cs ! q \<in> set sep")
    case True
    then show ?thesis using lt ld dr Suc.prems by (simp add: tok_loop.simps [of b m sep flag q])
  next
    case False
    have "tok_loop b m sep flag q p ?w = tok_loop b m sep flag (Suc q) p ?w"
      using lt ld False by (simp add: tok_loop.simps [of b m sep flag q])
    also have "\<dots> = Inr (TT_SUCCESS, Some (p, of_nat (Suc q - p +
        length (takeWhile (\<lambda>c. c \<notin> set sep) (take (?w - Suc q) (drop (Suc q) ?cs))))))"
      using Suc.hyps(2) Suc.prems lt by (intro Suc.hyps(1)) linarith+
    finally show ?thesis using dr False Suc.prems by (simp add: Suc_diff_le)
  qed
qed

lemma tok_loop_eq:
  assumes inv: "buf_inv b m" and "p \<le> unat (buf_wpos b)"
  shows "tok_loop b m sep flag p p (unat (buf_wpos b)) =
    Inr (tok_word (tok_spec (flag AND TT_BUFTOK_NOEMPTY \<noteq> 0) sep p
      (take (unat (buf_wpos b) - p) (drop p (buf_cells b m)))))"
  using assms(2)
proof (induction "unat (buf_wpos b) - p" arbitrary: p)
  case 0
  then show ?case by (simp add: tok_loop.simps tok_spec_def tok_word_def)
next
  case (Suc k)
  let ?w = "unat (buf_wpos b)" and ?cs = "buf_cells b m"
  have lt: "p < ?w" "p < length ?cs" using Suc(2) buf_inv_pos [OF inv] by linarith+
  have ld: "mem_load 1 m (buf_p b) p 1 = Inr [?cs ! p]"
    using buf_load [OF inv, of p 1] lt buf_inv_pos [OF inv] by (simp add: take_Suc_conv_app_nth)
  have dr: "take (?w - p) (drop p ?cs) = ?cs ! p # take (?w - Suc p) (drop (Suc p) ?cs)"
    using lt by (simp add: Cons_nth_drop_Suc [symmetric] take_Suc Suc_diff_Suc flip: take_Suc_Cons)
  show ?case
  proof (cases "?cs ! p \<in> set sep")
    case True
    show ?thesis
    proof (cases "flag AND TT_BUFTOK_NOEMPTY = 0")
      case emp: True
      then show ?thesis
        using lt ld dr True by (simp add: tok_loop.simps [of b m sep flag p] tok_spec_def tok_word_def)
    next
      case False
      have "tok_loop b m sep flag p p ?w = tok_loop b m sep flag (Suc p) (Suc p) ?w"
        using lt ld True False by (simp add: tok_loop.simps [of b m sep flag p])
      also have "\<dots> = Inr (tok_word (tok_spec (flag AND TT_BUFTOK_NOEMPTY \<noteq> 0) sep (Suc p)
          (take (?w - Suc p) (drop (Suc p) ?cs))))"
        using Suc.hyps(2) lt by (intro Suc.hyps(1)) linarith+
      finally show ?thesis
        using dr True False by (simp add: tok_spec_def Let_def)
    qed
  next
    case False
    have "tok_loop b m sep flag p p ?w = tok_loop b m sep flag (Suc p) p ?w"
      using lt ld False by (simp add: tok_loop.simps [of b m sep flag p])
    also have "\<dots> = Inr (TT_SUCCESS, Some (p, of_nat (Suc p - p +
        length (takeWhile (\<lambda>c. c \<notin> set sep) (take (?w - Suc p) (drop (Suc p) ?cs))))))"
      using lt by (intro tok_loop_in_token [OF inv]) simp_all
    finally show ?thesis
      using dr False by (simp add: tok_spec_def tok_word_def Let_def)
  qed
qed

lemma tok_first:
  assumes inv: "buf_inv b m" and n: "length sep = unat n"
  shows "tt_buf_tok b sep n flag None m =
    Inr (tok_word (tok_spec (flag AND TT_BUFTOK_NOEMPTY \<noteq> 0) sep (unat (buf_rpos b)) (buf_data b m)))"
  using tok_loop_eq [OF inv buf_inv_pos(1) [OF inv]] n
  by (simp add: tt_buf_tok_def src_bytes_def buf_data_def)

text \<open>The next token starts one byte behind the last one, the separator.\<close>

lemma tok_next:
  assumes inv: "buf_inv b m" and n: "length sep = unat n"
    and p: "p = unat (buf_rpos b) + i" "i + unat len < length (buf_data b m)"
  shows "tt_buf_tok b sep n flag (Some (p, len)) m =
    Inr (tok_word (tok_spec (flag AND TT_BUFTOK_NOEMPTY \<noteq> 0) sep (Suc (p + unat len))
      (drop (Suc (i + unat len)) (buf_data b m))))"
proof -
  have "p + unat len < unat (buf_wpos b)"
    using p length_buf_data [OF inv] buf_rlen [OF inv] by simp
  then show ?thesis
    using n p(1) tok_loop_eq [OF inv, of "Suc (p + unat len)"]
    by (simp add: tt_buf_tok_def src_bytes_def buf_data_def drop_take add.commute add.left_commute Let_def)
qed

section \<open>Trimming\<close>

lemma unat_ucast_8_32 [simp]: "unat (ucast (x :: u8) :: u32) = unat x"
  using unat_lt_8 [of x] by (simp add: unsigned_ucast_eq take_bit_nat_eq_self)

lemma unat_ucast_32_8: "unat x < 256 \<Longrightarrow> unat (ucast (x :: u32) :: u8) = unat x"
  by (simp add: unsigned_ucast_eq take_bit_nat_eq_self)

lemma unat_suc_u8: "unat (x :: u8) < 255 \<Longrightarrow> unat (x + 1) = Suc (unat x)"
  using unat_add_lem [of x 1] by simp

lemma buf_byte:
  assumes "buf_inv b m" "i < unat (buf_wpos b)"
  shows "mem_load 1 m (buf_p b) i 1 = Inr [buf_cells b m ! i]"
  using buf_load [OF assms(1), of i 1] assms(2) buf_inv_pos [OF assms(1)]
  by (simp add: take_Suc_conv_app_nth)

lemma trim_head_eq:
  assumes inv: "buf_inv b m" and w: "unat (buf_wpos b) < 256" and p: "unat pos \<le> unat (buf_wpos b)"
  shows "\<exists>q. trim_head b m pos = Some (Inr q) \<and> unat q = unat pos +
    length (takeWhile tt_isspace (take (unat (buf_wpos b) - unat pos) (drop (unat pos) (buf_cells b m))))"
  using p
proof (induction "unat (buf_wpos b) - unat pos" arbitrary: pos)
  case 0
  then have "\<not> ucast pos < buf_wpos b" by (simp add: word_less_nat_alt)
  with 0 show ?case by (simp add: trim_head.simps)
next
  case (Suc k)
  let ?w = "unat (buf_wpos b)" and ?cs = "buf_cells b m"
  have lt: "unat pos < ?w" "unat pos < length ?cs" using Suc(2) buf_inv_pos [OF inv] by linarith+
  then have c: "ucast pos < buf_wpos b" by (simp add: word_less_nat_alt)
  have u: "unat (pos + 1) = Suc (unat pos)" using lt w by (intro unat_suc_u8) linarith
  have dr: "take (?w - unat pos) (drop (unat pos) ?cs)
      = ?cs ! unat pos # take (?w - Suc (unat pos)) (drop (Suc (unat pos)) ?cs)"
    using lt by (simp add: Cons_nth_drop_Suc [symmetric] take_Suc Suc_diff_Suc flip: take_Suc_Cons)
  have st: "trim_head b m pos = (if tt_isspace (?cs ! unat pos) then trim_head b m (pos + 1) else Some (Inr pos))"
    using c buf_byte [OF inv lt(1)] by (subst trim_head.simps) simp
  show ?case
  proof (cases "tt_isspace (?cs ! unat pos)")
    case True
    have "\<exists>q. trim_head b m (pos + 1) = Some (Inr q) \<and> unat q = unat (pos + 1) +
        length (takeWhile tt_isspace (take (?w - unat (pos + 1)) (drop (unat (pos + 1)) ?cs)))"
      using Suc(2) u lt by (intro Suc(1)) linarith+
    with st True dr u show ?thesis by auto
  qed (use st dr in simp)
qed

lemma trim_tail_eq:
  assumes inv: "buf_inv b m" and p: "unat (buf_rpos b) \<le> unat pos" "unat pos < unat (buf_wpos b)"
    and ns: "\<not> tt_isspace (buf_cells b m ! unat (buf_rpos b))"
  shows "\<exists>q. trim_tail b m pos = Inr q \<and> unat (buf_rpos b) \<le> unat q \<and> unat q \<le> unat pos
    \<and> take (Suc (unat q) - unat (buf_rpos b)) (drop (unat (buf_rpos b)) (buf_cells b m)) =
      rev (dropWhile tt_isspace (rev (take (Suc (unat pos) - unat (buf_rpos b))
        (drop (unat (buf_rpos b)) (buf_cells b m)))))"
  using p
proof (induction "unat pos - unat (buf_rpos b)" arbitrary: pos)
  let ?cs = "buf_cells b m" and ?r = "unat (buf_rpos b)"
  case 0
  then have r: "unat pos = ?r" by simp
  then have "trim_tail b m pos = Inr pos" by (simp add: trim_tail.simps word_less_nat_alt)
  moreover have "take (Suc (unat pos) - ?r) (drop ?r ?cs) = [?cs ! ?r]"
    using r 0(3) buf_inv_pos(3) [OF inv] by (simp add: take_Suc_conv_app_nth)
  ultimately show ?case using ns r by simp
next
  let ?cs = "buf_cells b m" and ?r = "unat (buf_rpos b)"
  case (Suc k)
  have gt: "?r < unat pos" using Suc(2) by linarith
  then have c: "buf_rpos b < ucast pos" by (simp add: word_less_nat_alt)
  have snoc: "take (Suc (unat pos) - ?r) (drop ?r ?cs) = take (unat pos - ?r) (drop ?r ?cs) @ [?cs ! unat pos]"
    using gt Suc(4) buf_inv_pos(3) [OF inv] by (simp add: Suc_diff_le take_Suc_conv_app_nth)
  have st: "trim_tail b m pos = (if tt_isspace (?cs ! unat pos) then trim_tail b m (pos - 1) else Inr pos)"
    using c buf_byte [OF inv Suc(4)] by (subst trim_tail.simps) simp
  show ?case
  proof (cases "tt_isspace (?cs ! unat pos)")
    case True
    have u: "unat (pos - 1) = unat pos - 1"
      using gt by (intro unat_dec_u8) auto
    have "\<exists>q. trim_tail b m (pos - 1) = Inr q \<and> ?r \<le> unat q \<and> unat q \<le> unat (pos - 1)
      \<and> take (Suc (unat q) - ?r) (drop ?r ?cs) =
        rev (dropWhile tt_isspace (rev (take (Suc (unat (pos - 1)) - ?r) (drop ?r ?cs))))"
      using Suc(2,4) u gt by (intro Suc(1)) linarith+
    moreover have "Suc (unat (pos - 1)) = unat pos" using u gt by simp
    ultimately show ?thesis using st True snoc by auto
  next
    case False
    then show ?thesis using st snoc gt by simp
  qed
qed

lemma trim_sp_short:
  assumes inv: "buf_inv b m" and w: "unat (buf_wpos b) < 256"
  obtains b' where "tt_buf_trim_sp b m = Inr b'" "buf_inv b' m"
    "buf_data b' m = rev (dropWhile tt_isspace (rev (dropWhile tt_isspace (buf_data b m))))"
proof (cases "buf_rpos b < buf_wpos b")
  case False
  then have "buf_data b m = []" by (simp add: buf_data_def word_less_nat_alt)
  with False that [of b] inv show thesis by (simp add: tt_buf_trim_sp_def)
next
  case True
  let ?cs = "buf_cells b m" and ?r = "unat (buf_rpos b)" and ?w = "unat (buf_wpos b)"
  have lt: "?r < ?w" using True by (simp add: word_less_nat_alt)
  have u8: "unat (ucast (buf_rpos b) :: u8) = ?r" using lt w by (intro unat_ucast_32_8) linarith
  obtain q where q: "trim_head b m (ucast (buf_rpos b)) = Some (Inr q)"
    "unat q = ?r + length (takeWhile tt_isspace (buf_data b m))"
    using trim_head_eq [OF inv w, of "ucast (buf_rpos b)"] u8 lt by (auto simp: buf_data_def)
  let ?k = "of_nat (length (takeWhile tt_isspace (buf_data b m))) :: u32"
  let ?b = "b\<lparr>buf_rpos := ucast q\<rparr>"
  have le: "length (takeWhile tt_isspace (buf_data b m)) \<le> length (buf_data b m)"
    by (rule length_takeWhile_le)
  then have qw: "unat q \<le> ?w" using q(2) length_buf_data [OF inv] buf_rlen [OF inv] lt by linarith
  have "buf_inv ?b m" using inv qw by (simp add: buf_inv_def buf_cells_def word_le_nat_alt)
  moreover have d1: "buf_data ?b m = dropWhile tt_isspace (buf_data b m)"
    using q(2) by (simp add: dropWhile_eq_drop) (simp add: buf_data_def buf_cells_def drop_take add.commute)
  ultimately have inv1: "buf_inv ?b m" by simp
  show thesis
  proof (cases "unat q < ?w")
    case False
    then have "\<not> buf_rpos ?b < buf_wpos ?b" "buf_data ?b m = []"
      by (simp_all add: word_less_nat_alt buf_data_def)
    with q(1) True that [OF _ inv1] d1 show thesis by (simp add: tt_buf_trim_sp_def)
  next
    case lt': True
    have ne: "buf_data ?b m \<noteq> []" "buf_data ?b m ! 0 = ?cs ! unat q"
      using lt' buf_inv_pos(3) [OF inv] by (simp_all add: buf_data_def buf_cells_def)
    then have ns: "\<not> tt_isspace (buf_cells ?b m ! unat (buf_rpos ?b))"
      using d1 hd_dropWhile [of tt_isspace "buf_data b m"] by (simp add: buf_cells_def hd_conv_nth)
    have w1: "unat (buf_wpos b - 1) = ?w - 1" using lt by (subst unat_sub_u32) auto
    then have p: "unat (ucast (buf_wpos b - 1) :: u8) = ?w - 1" using w by (subst unat_ucast_32_8) auto
    have "\<exists>t. trim_tail ?b m (ucast (buf_wpos b - 1)) = Inr t \<and> unat q \<le> unat t \<and> unat t \<le> ?w - 1
        \<and> take (Suc (unat t) - unat q) (drop (unat q) (buf_cells ?b m)) =
          rev (dropWhile tt_isspace (rev (buf_data ?b m)))"
      using trim_tail_eq [OF inv1 _ _ ns, of "ucast (buf_wpos b - 1)"] p lt' by (simp add: buf_data_def)
    then obtain t where t: "trim_tail ?b m (ucast (buf_wpos b - 1)) = Inr t" "unat q \<le> unat t" "unat t \<le> ?w - 1"
      "take (Suc (unat t) - unat q) (drop (unat q) (buf_cells ?b m)) =
          rev (dropWhile tt_isspace (rev (buf_data ?b m)))" by blast
    let ?c = "?b\<lparr>buf_wpos := ucast t + 1\<rparr>"
    have ut: "unat (ucast t + 1 :: u32) = Suc (unat t)"
      using unat_lt_8 [of t] by (subst unat_add_u32) simp_all
    have "tt_buf_trim_sp b m = Inr ?c"
      using True q(1) lt' t(1) by (simp add: tt_buf_trim_sp_def word_less_nat_alt)
    moreover have "buf_inv ?c m"
      using inv1 ut t(2,3) lt' buf_inv_pos(2) [OF inv]
      by (simp add: buf_inv_def buf_cells_def word_le_nat_alt)
    moreover have "buf_data ?c m = rev (dropWhile tt_isspace (rev (buf_data ?b m)))"
      using t(4) ut by (simp add: buf_data_def buf_cells_def)
    ultimately show thesis using that d1 by simp
  qed
qed

section \<open>Swapping\<close>

lemma swap_loop_eq:
  assumes "a \<noteq> b" "mem_blocks m a = Some xs" "mem_blocks m b = Some ys"
    "length xs = i + n" "length ys = i + n"
  shows "swap_loop m a b i n =
    Inr (m\<lparr>mem_blocks := (mem_blocks m)(a \<mapsto> take i xs @ drop i ys, b \<mapsto> take i ys @ drop i xs)\<rparr>)"
  using assms
proof (induction n arbitrary: m i xs ys)
  case 0
  then have "(mem_blocks m)(a \<mapsto> xs, b \<mapsto> ys) = mem_blocks m" by auto
  then have "m\<lparr>mem_blocks := (mem_blocks m)(a \<mapsto> xs, b \<mapsto> ys)\<rparr> = m" by (simp only:) simp
  moreover have "take i xs @ drop i ys = xs" "take i ys @ drop i xs = ys" using 0 by simp_all
  ultimately show ?case by (simp only: swap_loop.simps)
next
  case (Suc n)
  let ?xs = "xs[i := ys ! i]" and ?ys = "ys[i := xs ! i]"
  let ?m = "m\<lparr>mem_blocks := (mem_blocks m)(a \<mapsto> ?xs, b \<mapsto> ?ys)\<rparr>"
  have ld: "mem_load 1 m (Some a) i 1 = Inr [xs ! i]" "mem_load 1 m (Some b) i 1 = Inr [ys ! i]"
    using Suc.prems by (simp_all add: mem_load_def take_Suc_conv_app_nth)
  have "mem_store 1 m (Some a) i [ys ! i] = Inr (m\<lparr>mem_blocks := (mem_blocks m)(a \<mapsto> ?xs)\<rparr>)"
    using Suc.prems mem_store_ok [of m a xs 1 i "[ys ! i]"] by (simp add: overwrite_single)
  moreover have "mem_store 1 (m\<lparr>mem_blocks := (mem_blocks m)(a \<mapsto> ?xs)\<rparr>) (Some b) i [xs ! i] = Inr ?m"
    using Suc.prems mem_store_ok [of "m\<lparr>mem_blocks := (mem_blocks m)(a \<mapsto> ?xs)\<rparr>" b ys 1 i "[xs ! i]"]
    by (simp add: overwrite_single)
  ultimately have "swap_loop m a b i (Suc n) = swap_loop ?m a b (Suc i) n"
    using ld by simp
  also have "\<dots> = Inr (?m\<lparr>mem_blocks := (mem_blocks ?m)(a \<mapsto> take (Suc i) ?xs @ drop (Suc i) ?ys,
      b \<mapsto> take (Suc i) ?ys @ drop (Suc i) ?xs)\<rparr>)"
    using Suc.prems by (intro Suc.IH) auto
  also have "take (Suc i) ?xs @ drop (Suc i) ?ys = take i xs @ drop i ys"
    using Suc.prems by (simp add: take_Suc_conv_app_nth Cons_nth_drop_Suc)
  also have "take (Suc i) ?ys @ drop (Suc i) ?xs = take i ys @ drop i xs"
    using Suc.prems by (simp add: take_Suc_conv_app_nth Cons_nth_drop_Suc)
  also have "?m\<lparr>mem_blocks := (mem_blocks ?m)(a \<mapsto> take i xs @ drop i ys, b \<mapsto> take i ys @ drop i xs)\<rparr> =
      m\<lparr>mem_blocks := (mem_blocks m)(a \<mapsto> take i xs @ drop i ys, b \<mapsto> take i ys @ drop i xs)\<rparr>"
    by (rule mem.equality) (simp_all add: fun_eq_iff)
  finally show ?case .
qed

text \<open>
  Swapping exchanges the readable bytes of two buffers, also when one or both keep them in the
  array of the struct.
\<close>

lemma buf_swap_ok:
  assumes a: "buf_inv a m" "\<not> buf_readonly a" and b: "buf_inv b m" "\<not> buf_readonly b"
    and dis: "buf_foot a \<inter> buf_foot b = {}"
  obtains a' b' m' where "tt_buf_swap a b m = Inr (a', b', m')" "buf_inv a' m'" "buf_inv b' m'"
    "buf_data a' m' = buf_data b m" "buf_data b' m' = buf_data a m"
    "mem_frame (buf_foot a \<union> buf_foot b) m m'" "mem_heap m' = mem_heap m"
proof -
  let ?ia = "buf_initbuf a" and ?ib = "buf_initbuf b"
  obtain xs ys where xs: "mem_blocks m ?ia = Some xs" "length xs = 16" "?ia \<notin> mem_heap m"
    and ys: "mem_blocks m ?ib = Some ys" "length ys = 16" "?ib \<notin> mem_heap m"
    using a(1) b(1) by (auto simp: buf_inv_def)
  obtain i where i: "buf_p a = Some i" "mem_blocks m i = Some (buf_cells a m)" using a(1) by (rule buf_invE)
  obtain j where j: "buf_p b = Some j" "mem_blocks m j = Some (buf_cells b m)" using b(1) by (rule buf_invE)
  have ne: "?ia \<noteq> ?ib" "i \<noteq> ?ib" "j \<noteq> ?ia" "i \<noteq> j"
    using dis i(1) j(1) by (auto simp: buf_foot_def)
  have ih: "i = ?ia \<or> i \<in> mem_heap m" and jh: "j = ?ib \<or> j \<in> mem_heap m"
    using a b i(1) j(1) by (auto simp: buf_inv_def)
  let ?m = "m\<lparr>mem_blocks := (mem_blocks m)(?ia \<mapsto> ys, ?ib \<mapsto> xs)\<rparr>"
  let ?a = "a\<lparr>buf_p := (if j = ?ib then Some ?ia else Some j), buf_size := buf_size b, buf_wpos := buf_wpos b, buf_rpos := buf_rpos b\<rparr>"
  let ?b = "b\<lparr>buf_p := (if i = ?ia then Some ?ib else Some i), buf_size := buf_size a, buf_wpos := buf_wpos a, buf_rpos := buf_rpos a\<rparr>"
  have sw: "tt_swap (Some ?ia) (Some ?ib) TT_BUF_INIT_SIZE m = Inr ?m"
    using swap_loop_eq [OF ne(1) xs(1) ys(1), of 0 16] xs(2) ys(2) ne(1)
    by (simp add: tt_swap_def TT_BUF_INIT_SIZE_def)
  have mi: "mem_inv ?m"
  proof -
    have "mem_inv (m\<lparr>mem_blocks := (mem_blocks m)(?ia \<mapsto> ys)\<rparr>)"
      using a(1) xs(1) by (simp add: mem_inv_upd buf_inv_def)
    from mem_inv_upd [OF this, of ?ib ys xs] ne(1) ys(1) show ?thesis by simp
  qed
  have sz: "0 < buf_size a" "0 < buf_size b" using a b by (auto simp: buf_inv_def)
  have ca: "buf_cells a m = xs" if "i = ?ia" using that i(2) xs(1) by simp
  have cb: "buf_cells b m = ys" if "j = ?ib" using that j(2) ys(1) by simp
  show thesis
  proof (cases "i = ?ia \<or> j = ?ib")
    case True
    have "tt_buf_swap a b m = Inr (?a, ?b, ?m)"
      using True sw a(2) b(2) i(1) j(1) ne by (auto simp: tt_buf_swap_def Let_def)
    moreover have ca': "buf_cells ?a ?m = buf_cells b m"
      using j ne cb by (auto simp: buf_cells_def)
    moreover have cb': "buf_cells ?b ?m = buf_cells a m"
      using i ne ca by (auto simp: buf_cells_def)
    moreover have "buf_inv ?a ?m"
      using b(1) j jh ne xs ys mi ca' a(1) sz by (auto simp: buf_inv_def points_to_def)
    moreover have "buf_inv ?b ?m"
      using a(1) i ih ne xs ys mi cb' b(1) sz by (auto simp: buf_inv_def points_to_def)
    moreover have "buf_data ?a ?m = buf_data b m" "buf_data ?b ?m = buf_data a m"
      using ca' cb' by (simp_all add: buf_data_def)
    moreover have "mem_frame (buf_foot a \<union> buf_foot b) m ?m"
      by (auto simp: mem_frame_def buf_foot_def)
    ultimately show thesis using that by simp
  next
    case False
    have "tt_buf_swap a b m = Inr (?a, ?b, m)"
      using False a(2) b(2) i(1) j(1) ne by (simp add: tt_buf_swap_def)
    moreover have c': "buf_cells ?a m = buf_cells b m" "buf_cells ?b m = buf_cells a m"
      using False i j by (simp_all add: buf_cells_def)
    moreover have "buf_inv ?a m"
      using b(1) j jh ne xs ys c' a(1) False sz by (auto simp: buf_inv_def points_to_def)
    moreover have "buf_inv ?b m"
      using a(1) i ih ne xs ys c' b(1) False sz by (auto simp: buf_inv_def points_to_def)
    moreover have "buf_data ?a m = buf_data b m" "buf_data ?b m = buf_data a m"
      using c' by (simp_all add: buf_data_def)
    ultimately show thesis using that by simp
  qed
qed

end
