(* ===== verification/TT_Buffer_Props.thy ===== *)
theory TT_Buffer_Props
  imports TT_Buffer_Codec TT_Buffer_Common
begin

text \<open>
  The calls a client can make on a byte buffer, their sequences, and the properties of the byte buffer and of the
  memory spring below it, each with a concrete instance. The instances run on a store with one 16-byte block, the array inside the struct.
\<close>

section \<open>Calls\<close>

text \<open>
  The calls on one buffer that a client can make between its creation and its destruction: all functions of
  \<^verbatim>\<open>tt_buffer.h\<close>, \<^verbatim>\<open>tt_buffer_common.h\<close> and \<^verbatim>\<open>tt_buffer_format.h\<close> that change a buffer, but for \<^verbatim>\<open>tt_buf_swap\<close>, which
  changes two, and \<^verbatim>\<open>tt_buf_set_rptr\<close> and \<^verbatim>\<open>tt_buf_set_wptr\<close>, which take raw pointers. Functions that only read are no
  calls here.
\<close>

datatype buf_call =
    Put "u8 list" | PutRep u8 u32 | Get u32 | GetNocopy u32
  | IncRp u32 | DecRp u32 | ResetRp | IncWp u32 | DecWp u32 | ResetRwp | RestoreRwp u32 u32 | Clear
  | Refine | TryRefine u32 | Compress | Reserve u32 | Extend
  | SetAt u32 "u8 list" | SetRange u32 u32 "u8 list"
  | RemoveRange u32 u32 | Remove u32 | RemoveHeadto u32 | RemoveTailfrom u32 | RemoveHead u32 | RemoveTail u32
  | Insert u32 "u8 list" | InsertCstr u32 "u8 list" | TrimSp | CopyFrom tt_buf
  | PutU8 u8 | PutU16 bool u16 | PutU16N bool u16 | PutU32 bool u32 | PutU32N bool u32 | PutU64 bool u64 | PutU64N bool u64
  | GetU8 u8 | GetU16 bool u16 | GetU16H bool u16 | GetU32 bool u32 | GetU32H bool u32 | GetU64 bool u64 | GetU64H bool u64
  | PutCstr "u8 list" | PutSubcstr "u8 list" u32 | PutCstr2hex "u8 list" | PutHex2cstr "u8 list"
  | Putv "u8 list" | PutRand bool "nat \<Rightarrow> u64" u32

definition no_value :: "(tt_result \<times> 'v \<times> tt_buf) run \<Rightarrow> bmem \<Rightarrow> buf_out" where
  "no_value g m = bindr g (\<lambda>(r, v, b). Inr (r, b, m))"

definition no_result :: "(tt_buf \<times> bmem) run \<Rightarrow> buf_out" where
  "no_result g = bindr g (\<lambda>(b, m). Inr (TT_SUCCESS, b, m))"

fun run_call :: "buf_call \<Rightarrow> tt_buf \<Rightarrow> bmem \<Rightarrow> buf_out" where
  "run_call (Put bs) b m = tt_buf_put (Some bs) (of_nat (length bs)) b m"
| "run_call (PutRep v n) b m = tt_buf_put_rep v n b m"
| "run_call (Get n) b m = no_value (tt_buf_get n b m) m"
| "run_call (GetNocopy n) b m = (case tt_buf_get_nocopy n b of (r, a, b) \<Rightarrow> Inr (r, b, m))"
| "run_call (IncRp n) b m = (case tt_buf_inc_rp n b of (r, b) \<Rightarrow> Inr (r, b, m))"
| "run_call (DecRp n) b m = (case tt_buf_dec_rp n b of (r, b) \<Rightarrow> Inr (r, b, m))"
| "run_call ResetRp b m = Inr (TT_SUCCESS, tt_buf_reset_rp b, m)"
| "run_call (IncWp n) b m = (case tt_buf_inc_wp n b of (r, b) \<Rightarrow> Inr (r, b, m))"
| "run_call (DecWp n) b m = (case tt_buf_dec_wp n b of (r, b) \<Rightarrow> Inr (r, b, m))"
| "run_call ResetRwp b m = Inr (TT_SUCCESS, tt_buf_reset_rwp b, m)"
| "run_call (RestoreRwp r w) b m = Inr (TT_SUCCESS, tt_buf_restore_rwp r w b, m)"
| "run_call Clear b m = Inr (TT_SUCCESS, tt_buf_clear b, m)"
| "run_call Refine b m = bindr (tt_buf_refine b m) (\<lambda>(n, b, m). Inr (TT_SUCCESS, b, m))"
| "run_call (TryRefine t) b m = bindr (tt_buf_try_refine t b m) (\<lambda>(n, b, m). Inr (TT_SUCCESS, b, m))"
| "run_call Compress b m = tt_buf_compress b m"
| "run_call (Reserve n) b m = tt_buf_reserve n b m"
| "run_call Extend b m = tt_buf_extend b m"
| "run_call (SetAt i bs) b m = tt_buf_set i bs (of_nat (length bs)) b m"
| "run_call (SetRange i l bs) b m = tt_buf_set_range i l bs (of_nat (length bs)) b m"
| "run_call (RemoveRange i j) b m = no_result (tt_buf_remove_range i j b m)"
| "run_call (Remove i) b m = no_result (tt_buf_remove i b m)"
| "run_call (RemoveHeadto i) b m = Inr (TT_SUCCESS, tt_buf_remove_headto i b, m)"
| "run_call (RemoveTailfrom i) b m = Inr (TT_SUCCESS, tt_buf_remove_tailfrom i b, m)"
| "run_call (RemoveHead n) b m = Inr (TT_SUCCESS, tt_buf_remove_head n b, m)"
| "run_call (RemoveTail n) b m = Inr (TT_SUCCESS, tt_buf_remove_tail n b, m)"
| "run_call (Insert i bs) b m = tt_buf_insert i bs (of_nat (length bs)) b m"
| "run_call (InsertCstr i bs) b m = tt_buf_insert_cstr i bs b m"
| "run_call TrimSp b m = bindr (tt_buf_trim_sp b m) (\<lambda>b. Inr (TT_SUCCESS, b, m))"
| "run_call (CopyFrom src) b m = tt_buf_copy b src m"
| "run_call (PutU8 v) b m = tt_buf_put_u8 v b m"
| "run_call (PutU16 big v) b m = tt_buf_put_u16 big v b m"
| "run_call (PutU16N big v) b m = tt_buf_put_u16_n big v b m"
| "run_call (PutU32 big v) b m = tt_buf_put_u32 big v b m"
| "run_call (PutU32N big v) b m = tt_buf_put_u32_n big v b m"
| "run_call (PutU64 big v) b m = tt_buf_put_u64 big v b m"
| "run_call (PutU64N big v) b m = tt_buf_put_u64_n big v b m"
| "run_call (GetU8 v) b m = no_value (tt_buf_get_u8 v b m) m"
| "run_call (GetU16 big v) b m = no_value (tt_buf_get_u16 big v b m) m"
| "run_call (GetU16H big v) b m = no_value (tt_buf_get_u16_h big v b m) m"
| "run_call (GetU32 big v) b m = no_value (tt_buf_get_u32 big v b m) m"
| "run_call (GetU32H big v) b m = no_value (tt_buf_get_u32_h big v b m) m"
| "run_call (GetU64 big v) b m = no_value (tt_buf_get_u64 big v b m) m"
| "run_call (GetU64H big v) b m = no_value (tt_buf_get_u64_h big v b m) m"
| "run_call (PutCstr cs) b m = tt_buf_put_cstr cs b m"
| "run_call (PutSubcstr cs n) b m = tt_buf_put_subcstr cs n b m"
| "run_call (PutCstr2hex cs) b m = tt_buf_put_cstr2hex cs b m"
| "run_call (PutHex2cstr bs) b m = tt_buf_put_hex2cstr bs b m"
| "run_call (Putv txt) b m = tt_buf_putv txt b m"
| "run_call (PutRand big rnd n) b m = tt_buf_put_rand big rnd n b m"

text \<open>
  What the caller owes: a length that fits the \<^verbatim>\<open>tt_u32_t\<close> parameter; for \<^verbatim>\<open>tt_buf_set\<close> and \<^verbatim>\<open>tt_buf_set_range\<close> a range whose
  end does not wrap around (they do not notice); no \<^verbatim>\<open>tt_buf_compress\<close> of more than 16 readable bytes while the read
  position is not 0; no \<^verbatim>\<open>tt_buf_trim_sp\<close> while the write position is above 255; positions to restore that are in order
  and within the storage; and another buffer, in a good state, to copy from. Outside of these the code reads and
  writes beyond the storage, or may never return.
\<close>

fun call_ok :: "buf_call \<Rightarrow> tt_buf \<Rightarrow> bmem \<Rightarrow> bool" where
  "call_ok (Put bs) b m \<longleftrightarrow> length bs < 2 ^ 32"
| "call_ok (SetAt i bs) b m \<longleftrightarrow> unat (buf_rpos b) + unat i + length bs < 2 ^ 32"
| "call_ok (SetRange i l bs) b m \<longleftrightarrow> unat (buf_rpos b) + unat i + unat l < 2 ^ 32 \<and> length bs < 2 ^ 32"
| "call_ok (Insert i bs) b m \<longleftrightarrow> length bs < 2 ^ 32"
| "call_ok (InsertCstr i bs) b m \<longleftrightarrow> length bs < 2 ^ 32"
| "call_ok Compress b m \<longleftrightarrow> TT_BUF_RLEN b \<le> TT_BUF_INIT_SIZE \<or> buf_rpos b = 0"
| "call_ok TrimSp b m \<longleftrightarrow> buf_wpos b < 256"
| "call_ok (RestoreRwp r w) b m \<longleftrightarrow> r \<le> w \<and> w \<le> buf_size b"
| "call_ok (CopyFrom src) b m \<longleftrightarrow> buf_inv src m \<and> buf_foot src \<inter> buf_foot b = {}"
| "call_ok c b m \<longleftrightarrow> True"

lemma no_value_gets:
  fixes v8 :: u8 and v16 :: u16 and v32 :: u32 and v64 :: u64
  shows "no_value (tt_buf_get_u8 v8 b m) m = no_value (tt_buf_get 1 b m) m"
    "no_value (tt_buf_get_u16 big v16 b m) m = no_value (tt_buf_get 2 b m) m"
    "no_value (tt_buf_get_u16_h big v16 b m) m = no_value (tt_buf_get 2 b m) m"
    "no_value (tt_buf_get_u32 big v32 b m) m = no_value (tt_buf_get 4 b m) m"
    "no_value (tt_buf_get_u32_h big v32 b m) m = no_value (tt_buf_get 4 b m) m"
    "no_value (tt_buf_get_u64 big v64 b m) m = no_value (tt_buf_get 8 b m) m"
    "no_value (tt_buf_get_u64_h big v64 b m) m = no_value (tt_buf_get 8 b m) m"
  by (auto simp: no_value_def tt_buf_get_u8_def tt_buf_get_u16_def tt_buf_get_u16_h_def tt_buf_get_u32_def tt_buf_get_u32_h_def
      tt_buf_get_u64_def tt_buf_get_u64_h_def get_into_def TT_OK_def bindr_def split: sum.splits)

lemma call_keeps_puts:
  fixes v8 :: u8 and v16 :: u16 and v32 :: u32 and v64 :: u64
  assumes inv: "buf_inv b m" and rw: "\<not> buf_readonly b"
  shows "call_keeps b m (tt_buf_put_u8 v8 b m)"
    "call_keeps b m (tt_buf_put_u16 big v16 b m)" "call_keeps b m (tt_buf_put_u16_n big v16 b m)"
    "call_keeps b m (tt_buf_put_u32 big v32 b m)" "call_keeps b m (tt_buf_put_u32_n big v32 b m)"
    "call_keeps b m (tt_buf_put_u64 big v64 b m)" "call_keeps b m (tt_buf_put_u64_n big v64 b m)"
    "call_keeps b m (tt_buf_put_cstr2hex cs b m)" "call_keeps b m (tt_buf_put_hex2cstr cs b m)"
    "call_keeps b m (tt_buf_put_rand big rnd n b m)" "call_keeps b m (tt_buf_put_rep v8 n b m)"
  by (rule appends_call_keeps [OF put_u8_appends [OF inv rw]]
      appends_call_keeps [OF c16.put_appends [OF inv rw]]
      appends_call_keeps [OF c16n.put_appends [OF inv rw]]
      appends_call_keeps [OF c32.put_appends [OF inv rw]]
      appends_call_keeps [OF c32n.put_appends [OF inv rw]]
      appends_call_keeps [OF c64.put_appends [OF inv rw]]
      appends_call_keeps [OF c64n.put_appends [OF inv rw]]
      appends_call_keeps [OF put_cstr2hex_appends [OF inv rw]]
      appends_call_keeps [OF put_hex2cstr_appends [OF inv rw]]
      appends_call_keeps [OF put_rand_appends [OF inv rw]]
      appends_call_keeps [OF buf_put_rep_appends [OF inv rw]])+

lemma call_keeps_put:
  assumes "buf_inv b m" "\<not> buf_readonly b" "unat n \<le> length bs"
  shows "call_keeps b m (tt_buf_put (Some bs) n b m)"
  using appends_call_keeps [OF buf_put_appends [OF assms]] .

lemma unat_len_le: "unat (of_nat (length bs) :: u32) \<le> length bs"
  by (simp add: unat_of_nat)

lemma call_keeps_put_text:
  assumes inv: "buf_inv b m" and rw: "\<not> buf_readonly b"
  shows "call_keeps b m (tt_buf_put_cstr cs b m)" "call_keeps b m (tt_buf_put_subcstr cs n b m)"
proof -
  have "unat (if n < of_nat (length cs) then n else of_nat (length cs)) \<le> length cs"
    using unat_len_le [of cs] by (simp add: word_less_nat_alt)
  with call_keeps_put [OF inv rw] show "call_keeps b m (tt_buf_put_subcstr cs n b m)"
    by (simp add: tt_buf_put_subcstr_def Let_def)
  show "call_keeps b m (tt_buf_put_cstr cs b m)"
    using call_keeps_put [OF inv rw unat_len_le] by (simp add: tt_buf_put_cstr_def)
qed

lemma call_keeps_removes:
  assumes inv: "buf_inv b m" and rw: "\<not> buf_readonly b"
  shows "keeps b m (tt_buf_remove_headto n b) m" "keeps b m (tt_buf_remove_tailfrom n b) m"
    "keeps b m (tt_buf_remove_head n b) m" "keeps b m (tt_buf_remove_tail n b) m"
proof -
  show h: "keeps b m (tt_buf_remove_headto n b) m" for n
    using remove_headto_eq(1) [OF inv, of n] rw by (auto simp: keeps_def tt_buf_remove_headto_def Let_def buf_foot_def)
  show t: "keeps b m (tt_buf_remove_tailfrom n b) m" for n
    using remove_tailfrom_eq(1) [OF inv, of n] rw by (auto simp: keeps_def tt_buf_remove_tailfrom_def Let_def buf_foot_def)
  show "keeps b m (tt_buf_remove_head n b) m" "keeps b m (tt_buf_remove_tail n b) m"
    using h t by (simp_all add: tt_buf_remove_head_def tt_buf_remove_tail_def Let_def)
qed

lemma call_keeps_remove_range:
  assumes inv: "buf_inv b m" and rw: "\<not> buf_readonly b"
  shows "call_keeps b m (no_result (tt_buf_remove_range i j b m))"
proof (cases "i \<le> j")
  case False
  then show ?thesis by (simp add: no_result_def tt_buf_remove_range_def)
next
  case le: True
  consider "buf_rpos b = 0" | "0 < buf_rpos b" "unat i < length (buf_data b m)" | "TT_BUF_RLEN b \<le> i"
    using inv by (fastforce simp: length_buf_data word_le_nat_alt word_gt_0)
  then show ?thesis
  proof cases
    case 1
    from inv rw this le obtain b' m' where "tt_buf_remove_range i j b m = Inr (b', m')" "keeps b m b' m'"
      by (rule remove_range_front)
    then show ?thesis by (simp add: no_result_def)
  next
    case 2
    then show ?thesis using remove_range_blocked [OF inv _ _ le] keeps_refl [OF inv rw] by (simp add: no_result_def)
  next
    case 3
    then show ?thesis using le keeps_refl [OF inv rw] by (simp add: no_result_def tt_buf_remove_range_def Let_def)
  qed
qed

lemma call_keeps_insert:
  assumes inv: "buf_inv b m" and rw: "\<not> buf_readonly b" and l: "length bs < 2 ^ 32"
  shows "call_keeps b m (tt_buf_insert i bs (of_nat (length bs)) b m)"
proof -
  let ?n = "of_nat (length bs) :: u32"
  have n: "unat ?n = length bs" using l by (simp add: unat_of_nat take_bit_nat_eq_self)
  consider (blocked) "buf_rpos b + i > i \<or> i > TT_BUF_RLEN b" | (front) "buf_rpos b = 0" "unat i \<le> length (buf_data b m)"
  proof (cases "unat i \<le> length (buf_data b m)")
    case True
    then have "unat (buf_rpos b + i) = unat (buf_rpos b) + unat i"
      using buf_inv_pos(1) [OF inv] unat_lt_32 [of "buf_wpos b"]
      by (intro unat_add_u32) (simp add: length_buf_data [OF inv] buf_rlen [OF inv])
    then have "buf_rpos b = 0 \<or> buf_rpos b + i > i" by (auto simp: word_less_nat_alt unat_gt_0)
    then show thesis using that True by blast
  next
    case False
    then have "i > TT_BUF_RLEN b" by (simp add: length_buf_data [OF inv] word_less_nat_alt)
    then show thesis using that by blast
  qed
  then show ?thesis
  proof cases
    case blocked
    then show ?thesis using keeps_refl [OF inv rw] by (auto simp: tt_buf_insert_def Let_def)
  next
    case front
    show ?thesis using inv rw front n
    proof (cases rule: insert_front)
      case (fail m')
      with keeps_same_store [OF _ rw] show ?thesis by simp
    qed simp_all
  qed
qed

lemma call_keeps_trim:
  assumes inv: "buf_inv b m" and rw: "\<not> buf_readonly b" and w: "buf_wpos b < 256"
  shows "call_keeps b m (bindr (tt_buf_trim_sp b m) (\<lambda>b. Inr (TT_SUCCESS, b, m)))"
proof -
  have "unat (buf_wpos b) < 256" using w by (simp add: word_less_nat_alt)
  with inv obtain b' where t: "tt_buf_trim_sp b m = Inr b'" "buf_inv b' m" by (rule trim_sp_short)
  then have "buf_p b' = buf_p b" "buf_readonly b' = buf_readonly b" "buf_initbuf b' = buf_initbuf b"
    by (auto simp: tt_buf_trim_sp_def bindr_def split: if_splits option.splits sum.splits)
  then have "keeps b m b' m" using t(2) rw by (simp add: keeps_def buf_foot_def)
  with t(1) show ?thesis by simp
qed

lemma call_keeps_copy:
  assumes inv: "buf_inv b m" and rw: "\<not> buf_readonly b" and src: "buf_inv src m"
  shows "call_keeps b m (tt_buf_copy b src m)"
proof -
  let ?r = "unat (buf_rpos src)" and ?n = "unat (TT_BUF_RLEN src)"
  have "?r + ?n \<le> unat (buf_size src)" using buf_inv_pos [OF src] buf_rlen [OF src] by simp
  from buf_load [OF src this] have l: "mem_load 1 m (buf_p src) ?r ?n = Inr (take ?n (drop ?r (buf_cells src m)))" .
  have n: "?n \<le> length (take ?n (drop ?r (buf_cells src m)))" using buf_inv_pos [OF src] buf_rlen [OF src] by simp
  have c: "keeps b m (tt_buf_clear b) m"
    using call_keeps_positions(6) [OF inv rw] by (simp add: tt_buf_clear_def)
  have "call_keeps (tt_buf_clear b) m (tt_buf_copy b src m)"
    using call_keeps_put [OF keepsD(1,2) [OF c] n] l by (simp add: tt_buf_copy_def Let_def)
  then show ?thesis
    using keeps_trans [OF c] by (auto simp: call_keeps_def split: sum.splits prod.splits)
qed

lemma call_keeps_then:
  assumes "keeps b m b1 m1" "call_keeps b1 m1 out"
  shows "call_keeps b m out"
  using assms(2) keeps_trans [OF assms(1)] by (auto simp: call_keeps_def split: sum.splits prod.splits)

text \<open>The formatted text goes behind the write position, within the storage, and the room is extended at most ten times.\<close>

lemma vsnprintf_keeps:
  assumes inv: "buf_inv b m" and rw: "\<not> buf_readonly b"
  obtains m' where "vsnprintf txt b m = Inr (of_nat (length txt), m')" "keeps b m b m'"
proof (cases "unat (TT_BUF_WLEN b) = 0")
  case True
  with that keeps_refl [OF inv rw] show thesis by (simp add: vsnprintf_def)
next
  case False
  let ?vs = "take (unat (TT_BUF_WLEN b) - 1) txt @ [0]"
  have "length ?vs \<le> unat (TT_BUF_WLEN b)" using False by simp
  then have "unat (buf_wpos b) + length ?vs \<le> unat (buf_size b)"
    using buf_wlen [OF inv] buf_inv_pos(2) [OF inv] by linarith
  with inv obtain m' where "mem_store 1 m (buf_p b) (unat (buf_wpos b)) ?vs = Inr m'" "buf_inv b m'"
    "mem_frame (buf_foot b) m m'" "mem_heap m' = mem_heap m" by (rule buf_store)
  with that False keeps_store [OF _ rw] show thesis by (simp add: vsnprintf_def Let_def)
qed

lemma call_keeps_putv_again:
  assumes "buf_inv b m" "\<not> buf_readonly b"
  shows "call_keeps b m (putv_again k txt b m)"
  using assms
proof (induction k arbitrary: b m)
  case 0
  from 0 obtain m' where v: "vsnprintf txt b m = Inr (of_nat (length txt), m')" "keeps b m b m'" by (rule vsnprintf_keeps)
  have "call_keeps b m' (Inr (TT_SUCCESS, snd (tt_buf_inc_wp (of_nat (length txt)) b), m'))" "call_keeps b m' (Inr (TT_FAIL, b, m'))"
    using call_keeps_positions(4) [OF keepsD(1,2) [OF v(2)]] keeps_refl [OF keepsD(1,2) [OF v(2)]] by simp_all
  then show ?case using v call_keeps_then [OF v(2)] by (subst putv_again.simps) (simp add: Let_def)
next
  case (Suc k)
  from Suc.prems obtain m' where v: "vsnprintf txt b m = Inr (of_nat (length txt), m')" "keeps b m b m'" by (rule vsnprintf_keeps)
  note k = keepsD(1,2) [OF v(2)]
  have ext: "call_keeps b m' (bindr (tt_buf_extend b m') (\<lambda>(r, b, m). if TT_OK r then putv_again k txt b m else Inr (TT_FAIL, b, m)))"
  proof (cases "tt_buf_extend b m'")
    case (Inl f)
    then show ?thesis using call_keeps_extend [OF k] by simp
  next
    case (Inr x)
    obtain r b1 m1 where x: "x = (r, b1, m1)" by (cases x)
    then have k1: "keeps b m' b1 m1" using call_keeps_extend [OF k] Inr by simp
    then show ?thesis using Suc.IH [OF keepsD(1,2) [OF k1]] Inr x by (auto intro: call_keeps_then)
  qed
  have "call_keeps b m' (Inr (TT_SUCCESS, snd (tt_buf_inc_wp (of_nat (length txt)) b), m'))"
    using call_keeps_positions(4) [OF k] by simp
  with ext show ?case using v call_keeps_then [OF v(2)] by (subst putv_again.simps) (simp add: Let_def)
qed

text \<open>Every call a client may make returns with the invariant, or stops in an assertion.\<close>

lemma run_call_keeps:
  assumes inv: "buf_inv b m" and rw: "\<not> buf_readonly b" and ok: "call_ok c b m"
  shows "call_keeps b m (run_call c b m)"
proof (cases c)
  case (Put bs)
  then show ?thesis using call_keeps_put [OF inv rw unat_len_le] by simp
next
  case (SetAt i bs)
  then show ?thesis using call_keeps_set [OF inv rw] ok by simp
next
  case (SetRange i l bs)
  then show ?thesis using call_keeps_set_range [OF inv rw] ok by simp
next
  case Compress
  then show ?thesis using call_keeps_compress [OF inv rw] ok by simp
next
  case (RestoreRwp r w)
  moreover have "tt_buf_restore_rwp r w b = b\<lparr>buf_rpos := r, buf_wpos := w\<rparr>" by (cases b) (simp add: tt_buf_restore_rwp_def)
  ultimately show ?thesis using keeps_pos [OF inv rw] ok by simp
next
  case (Get n)
  then show ?thesis using call_keeps_get(1) [OF inv rw] by (simp add: no_value_def)
next
  case (Remove i)
  then show ?thesis using call_keeps_remove_range [OF inv rw] by (simp add: tt_buf_remove_def)
next
  case (Insert i bs)
  then show ?thesis using call_keeps_insert [OF inv rw] ok by simp
next
  case (InsertCstr i bs)
  then show ?thesis using call_keeps_insert [OF inv rw] ok by (simp add: tt_buf_insert_cstr_def)
next
  case TrimSp
  then show ?thesis using call_keeps_trim [OF inv rw] ok by simp
next
  case (CopyFrom src)
  then show ?thesis using call_keeps_copy [OF inv rw] ok by simp
next
  case (Putv out)
  then show ?thesis using call_keeps_putv_again [OF inv rw] by (simp add: tt_buf_putv_def)
next
  case Clear
  then show ?thesis using call_keeps_positions(6) [OF inv rw] by (simp add: tt_buf_clear_def)
next
  case (IncRp n)
  then show ?thesis using call_keeps_positions(1) [OF inv rw] by (simp add: case_prod_unfold)
next
  case (DecRp n)
  then show ?thesis using call_keeps_positions(2) [OF inv rw] by (simp add: case_prod_unfold)
next
  case (IncWp n)
  then show ?thesis using call_keeps_positions(4) [OF inv rw] by (simp add: case_prod_unfold)
next
  case (DecWp n)
  then show ?thesis using call_keeps_positions(5) [OF inv rw] by (simp add: case_prod_unfold)
qed (simp_all only: run_call.simps call_keeps_simps call_keeps_positions [OF inv rw] call_keeps_get [OF inv rw]
    call_keeps_refine [OF inv rw] call_keeps_reserve [OF inv rw] call_keeps_extend [OF inv rw] call_keeps_puts [OF inv rw]
    no_value_gets call_keeps_get(1) [OF inv rw, folded no_value_def] call_keeps_put_text [OF inv rw]
    call_keeps_removes [OF inv rw] call_keeps_remove_range [OF inv rw])

section \<open>Life cycle\<close>

text \<open>The states a buffer can be in after a sequence of calls that all returned.\<close>

inductive buf_calls :: "tt_buf \<Rightarrow> bmem \<Rightarrow> tt_buf \<Rightarrow> bmem \<Rightarrow> bool" where
  none: "buf_calls b m b m"
| call: "buf_calls b m b1 m1 \<Longrightarrow> call_ok c b1 m1 \<Longrightarrow> run_call c b1 m1 = Inr (r, b2, m2)
    \<Longrightarrow> buf_calls b m b2 m2"

lemma buf_calls_keeps:
  assumes "buf_calls b m b' m'" "buf_inv b m" "\<not> buf_readonly b"
  shows "keeps b m b' m'"
  using assms
proof (induction rule: buf_calls.induct)
  case (none b m)
  then show ?case by (rule keeps_refl)
next
  case (call b m b1 m1 c r b2 m2)
  then have k: "keeps b m b1 m1" by simp
  then have "call_keeps b1 m1 (run_call c b1 m1)"
    using call.hyps(2) by (intro run_call_keeps keepsD [OF k])
  then have "keeps b1 m1 b2 m2" using call.hyps(3) by simp
  with k show ?case by (rule keeps_trans)
qed

section \<open>A concrete buffer\<close>

definition demo_mem :: bmem where
  "demo_mem = \<lparr>mem_blocks = [0 \<mapsto> replicate 16 0], mem_heap = {}, mem_next = 1,
     mem_oracle = (\<lambda>_. True), mem_junk = (\<lambda>_ _. 0)\<rparr>"

definition demo_raw :: tt_buf where
  "demo_raw = \<lparr>buf_p = None, buf_size = 0, buf_mspg = \<lparr>min_extend = 0, max_extend = 0, max_limit = 0\<rparr>,
     buf_wpos = 0, buf_rpos = 0, buf_initbuf = 0, buf_readonly = False\<rparr>"

definition demo_buf :: tt_buf where
  "demo_buf = \<lparr>buf_p = Some 0, buf_size = 16,
     buf_mspg = \<lparr>min_extend = 64, max_extend = 4096, max_limit = 0\<rparr>,
     buf_wpos = 0, buf_rpos = 0, buf_initbuf = 0, buf_readonly = False\<rparr>"

text \<open>The same buffer holding given bytes in front.\<close>

definition demo_with :: "u8 list \<Rightarrow> bmem" where
  "demo_with bs = demo_mem\<lparr>mem_blocks := [0 \<mapsto> overwrite 0 bs (replicate 16 0)]\<rparr>"

definition demo_at :: "u32 \<Rightarrow> u32 \<Rightarrow> tt_buf" where
  "demo_at r w = demo_buf\<lparr>buf_rpos := r, buf_wpos := w\<rparr>"

lemma demo_raw_ok: "buf_raw demo_raw demo_mem" "buf_attr_ok None"
  by (auto simp: buf_raw_def buf_attr_ok_def demo_raw_def demo_mem_def mem_inv_def split: if_splits)

lemma demo_create: "tt_buf_create demo_raw 0 None demo_mem = Inr (TT_SUCCESS, demo_buf, demo_mem)"
  by (simp add: tt_buf_create_def tt_buf_attr_default_def tt_memspg_init_def demo_raw_def demo_mem_def
      demo_buf_def mem_store_def overwrite_def Let_def TT_BUF_INIT_SIZE_def fun_upd_idem)

lemma demo_inv:
  assumes "length bs \<le> 16" "r \<le> w" "w \<le> 16"
  shows "buf_inv (demo_at r w) (demo_with bs)" "\<not> buf_readonly (demo_at r w)"
  using assms
  by (auto simp: buf_inv_def demo_at_def demo_buf_def demo_with_def demo_mem_def memspg_ok_def mem_inv_def
      points_to_def buf_cells_def split: if_splits)

lemma demo_data:
  "buf_data (demo_at r w) (demo_with bs) =
    take (unat w - unat r) (drop (unat r) (overwrite 0 bs (replicate 16 0)))"
  by (simp add: buf_data_def buf_cells_def demo_at_def demo_buf_def demo_with_def)

lemma demo_buf_inv: "buf_inv demo_buf demo_mem" "\<not> buf_readonly demo_buf" "buf_data demo_buf demo_mem = []"
proof -
  have "demo_buf = demo_at 0 0" by (simp add: demo_at_def demo_buf_def)
  moreover have "demo_mem = demo_with []" by (simp add: demo_with_def demo_mem_def)
  ultimately show "buf_inv demo_buf demo_mem" "\<not> buf_readonly demo_buf"
    using demo_inv [of "[]" 0 0] by simp_all
  show "buf_data demo_buf demo_mem = []"
    by (simp add: buf_data_def demo_buf_def)
qed

section \<open>Properties\<close>

text \<open>
  C1: From a successful \<^verbatim>\<open>tt_buf_create\<close>, through any sequence of the calls \<open>buf_call\<close> that returned and whose
  arguments were as \<open>call_ok\<close> demands, to \<^verbatim>\<open>tt_buf_destroy\<close>: the destruction returns, every heap block the buffer
  ever allocated has been freed (the set of live heap blocks is the one before the creation), and no block of the
  store other than the struct's own array was changed. The calls are the puts of bytes, repeated bytes, integers,
  text, hexadecimal, formatted and random bytes, the gets, the moves, restorations and resets of the positions,
  refining, compressing, reserving and extending, setting, removing, inserting, trimming, clearing and copying from
  another buffer. Not among them are compressing more than 16 readable bytes behind a read position that is not 0,
  setting a range whose end wraps, trimming beyond position 255 and restoring positions outside the storage, for
  which it is false, \<^verbatim>\<open>tt_buf_swap\<close>, which changes two buffers, and the setting of a position by a raw pointer.
\<close>

theorem buf_life_cycle:
  assumes raw: "buf_raw b0 m0" and a: "buf_attr_ok attr"
    and create: "tt_buf_create b0 sz attr m0 = Inr (TT_SUCCESS, b, m)"
    and calls: "buf_calls b m b' m'"
  shows "\<exists>b'' m''. tt_buf_destroy b' m' = Inr (b'', m'') \<and> mem_heap m'' = mem_heap m0
    \<and> mem_frame {buf_initbuf b0} m0 m''"
  using raw a
proof (cases rule: buf_create_cases [where sz = sz])
  case (fail b1 m1)
  with create show ?thesis by simp
next
  case (ok b1 m1)
  with create have bm: "b1 = b" "m1 = m" by simp_all
  note c = ok [unfolded bm]
  note k = keepsD [OF buf_calls_keeps [OF calls c(2,5)]]
  obtain b2 m2 where d: "tt_buf_destroy b' m' = Inr (b2, m2)" "mem_frame (buf_foot b') m' m2"
    "mem_heap m2 = (if buf_readonly b' then mem_heap m' else mem_heap m' - buf_foot b')"
    using k(1) by (rule buf_destroy_ok)
  have fr: "mem_frame {buf_initbuf b0} m0 m'"
    using c(7) k(4) c(9) by (rule frame_compose)
  have "buf_foot b' \<inter> dom (mem_blocks m0) \<subseteq> {buf_initbuf b0}"
    using k(5) c(9) frame_dom [OF c(7)] by blast
  with fr d(2) have "mem_frame {buf_initbuf b0} m0 m2" by (rule frame_compose)
  then show ?thesis
    using d(1,3) k(2,6) c(8) by simp
qed

theorem buf_life_cycle_witness:
  "\<exists>b m b' m'. tt_buf_create demo_raw 0 None demo_mem = Inr (TT_SUCCESS, b, m)
    \<and> run_call (Put (replicate 20 7)) b m = Inr (TT_SUCCESS, b', m') \<and> mem_heap m' = {1}
    \<and> (\<exists>b'' m''. tt_buf_destroy b' m' = Inr (b'', m'') \<and> mem_heap m'' = {})"
proof -
  obtain b' m' where p: "run_call (Put (replicate 20 7)) demo_buf demo_mem = Inr (TT_SUCCESS, b', m')"
    "mem_heap m' = {1}"
    by (simp add: tt_buf_put_def tt_buf_reserve_def TT_BUF_WLEN_def buf_extend_def demo_buf_def demo_mem_def
        tt_memspg_extend_ex_def memspg_grow.simps tt_memspg_next_size_def tt_malloc_def tt_memcpy_def
        tt_memmove_def mem_load_def mem_store_def src_bytes_def TT_BUF_CHECK_def Let_def
        word_less_nat_alt word_le_nat_alt TT_MSPGEXT_NOFREE_def TT_MSPGEXT_ZERO_def overwrite_def)
  have "call_ok (Put (replicate 20 7)) demo_buf demo_mem" by simp
  from buf_calls.call [OF buf_calls.none this p(1)]
  have "buf_calls demo_buf demo_mem b' m'" .
  from buf_life_cycle [OF demo_raw_ok demo_create this] demo_create p show ?thesis
    by (auto simp: demo_mem_def)
qed

text \<open>
  C2: After a successful creation and any sequence of calls, whatever call the client may make
  next, the buffer is in a state satisfying its invariant and the call neither performs an
  operation with undefined behaviour nor runs forever; if it returns, the invariant holds again. The calls and what
  the client owes for them are those of C1.
\<close>

theorem buf_calls_safe:
  assumes "buf_raw b0 m0" "buf_attr_ok attr" "tt_buf_create b0 sz attr m0 = Inr (TT_SUCCESS, b, m)"
    and "buf_calls b m b' m'" "call_ok c b' m'"
  shows "buf_inv b' m' \<and> run_call c b' m' \<noteq> Inl Undef \<and> run_call c b' m' \<noteq> Inl Diverge
    \<and> (\<forall>r b'' m''. run_call c b' m' = Inr (r, b'', m'') \<longrightarrow> buf_inv b'' m'')"
  using assms(1,2)
proof (cases rule: buf_create_cases [where sz = sz])
  case (fail b1 m1)
  with assms(3) show ?thesis by simp
next
  case (ok b1 m1)
  with assms(3) have bm: "buf_inv b m" "\<not> buf_readonly b" by simp_all
  note k = keepsD [OF buf_calls_keeps [OF assms(4) bm]]
  have "call_keeps b' m' (run_call c b' m')"
    using k(1,2) assms(5) by (rule run_call_keeps)
  then show ?thesis
    using k(1) by (auto dest: keepsD)
qed

theorem buf_calls_safe_witness:
  "buf_inv demo_buf demo_mem \<and> run_call (SetRange 0 0 [1, 2, 3]) demo_buf demo_mem \<noteq> Inl Undef"
  using buf_calls_safe [OF demo_raw_ok demo_create buf_calls.none, of "SetRange 0 0 [1, 2, 3]"]
  by (simp add: demo_buf_def)

text \<open>
  C3: \<^verbatim>\<open>tt_buf_put\<close> of \<open>n\<close> bytes either appends exactly them to the readable bytes, or returns
  \<^verbatim>\<open>TT_FAIL\<close> with the buffer and its bytes as before, or stops in an assertion, and that only when
  the new size would not fit 32 bits. In no case is another block of the store touched.
\<close>

theorem buf_put_spec:
  assumes inv: "buf_inv b m" and rw: "\<not> buf_readonly b" and n: "unat n \<le> length bs"
  shows "(\<exists>b' m'. tt_buf_put (Some bs) n b m = Inr (TT_SUCCESS, b', m') \<and> buf_inv b' m'
        \<and> buf_data b' m' = buf_data b m @ take (unat n) bs \<and> mem_frame (buf_foot b) m m')
    \<or> (\<exists>m'. tt_buf_put (Some bs) n b m = Inr (TT_FAIL, b, m') \<and> buf_inv b m'
        \<and> buf_data b m' = buf_data b m \<and> mem_frame {} m m')
    \<or> (tt_buf_put (Some bs) n b m = Inl Throw \<and> 2 ^ 32 \<le> unat (buf_size b) + unat n)"
  using inv rw
proof (cases rule: buf_reserve_cases [where n = n])
  case throw
  moreover from this have "n \<noteq> 0" by auto
  ultimately show ?thesis using rw by (simp add: tt_buf_put_def)
next
  case (fail m')
  moreover from this have "n \<noteq> 0" by auto
  ultimately show ?thesis
    using rw same_store_buf(2) [OF fail(3) _ inv] same_store_frame [OF fail(3)]
    by (simp add: tt_buf_put_def buf_inv_def)
next
  case (ok b1 m1)
  have "tt_buf_put (Some bs) n b m \<noteq> Inl Throw"
  proof (cases "n = 0")
    case False
    have "length (take (unat n) bs) = unat n" "unat (buf_wpos b1) + unat n \<le> unat (buf_size b1)"
      using ok(5,7) n by simp_all
    with ok(2) obtain m2 where "mem_store 1 m1 (buf_p b1) (unat (buf_wpos b1)) (take (unat n) bs) = Inr m2"
      "buf_inv (b1\<lparr>buf_wpos := buf_wpos b1 + n\<rparr>) m2"
      by (rule buf_store_at_wpos)
    then show ?thesis
      using ok(1) False rw n by (simp add: tt_buf_put_def src_bytes_def buf_check_ok)
  qed (use rw in \<open>simp add: tt_buf_put_def\<close>)
  moreover have "tt_buf_put (Some bs) n b m \<noteq> Inr (TT_FAIL, b', m')" for b' m'
    using ok(1) rw by (cases "n = 0")
      (auto simp: tt_buf_put_def Let_def bindr_eq_Inr_iff)
  ultimately have no: "tt_buf_put (Some bs) n b m \<noteq> Inl Throw"
    "\<And>b' m'. tt_buf_put (Some bs) n b m \<noteq> Inr (TT_FAIL, b', m')" by blast+
  show ?thesis
    using buf_put_appends [OF inv rw n] no by (cases rule: appends_cases) auto
qed

theorem buf_put_spec_witness:
  "(\<exists>b' m'. tt_buf_put (Some [1, 2]) 2 demo_buf demo_mem = Inr (TT_SUCCESS, b', m') \<and> buf_data b' m' = [1, 2])
    \<or> (\<exists>m'. tt_buf_put (Some [1, 2]) 2 demo_buf demo_mem = Inr (TT_FAIL, demo_buf, m'))"
  using buf_put_spec [OF demo_buf_inv(1,2), of 2 "[1, 2]"] demo_buf_inv(3) by (auto simp: demo_buf_def)

text \<open>
  C4: \<^verbatim>\<open>tt_buf_get\<close> hands out the first \<open>n\<close> readable bytes and leaves the others, or reports
  \<^verbatim>\<open>TT_E_BUF_NOBUFS\<close> and changes nothing when there are fewer; the store is only read.
\<close>

theorem buf_get_spec:
  assumes inv: "buf_inv b m"
  shows "(unat n \<le> length (buf_data b m) \<longrightarrow>
      (\<exists>b'. tt_buf_get n b m = Inr (TT_SUCCESS, take (unat n) (buf_data b m), b')
        \<and> buf_inv b' m \<and> buf_data b' m = drop (unat n) (buf_data b m)))
    \<and> (length (buf_data b m) < unat n \<longrightarrow> tt_buf_get n b m = Inr (TT_E_BUF_NOBUFS, [], b))"
  using buf_inv_inc_rp [OF inv] by (simp add: buf_get_eq [OF inv])

theorem buf_get_spec_witness:
  "\<exists>b'. tt_buf_get 2 (demo_at 1 4) (demo_with [5, 6, 7, 8]) = Inr (TT_SUCCESS, [6, 7], b')
    \<and> buf_data b' (demo_with [5, 6, 7, 8]) = [8]"
  using buf_get_spec [OF demo_inv(1) [of "[5, 6, 7, 8]" 1 4], of 2] by (auto simp: demo_data overwrite_def)

text \<open>
  C5: Integers written in network order with \<^verbatim>\<open>tt_buf_put_u32_n\<close> into an empty buffer are read
  back by \<^verbatim>\<open>tt_buf_get_u32_h\<close> in the same order with nothing left over, also when the writing and
  the reading host differ in byte order; in between the buffer holds their big-endian bytes.
\<close>

theorem u32_network_round_trip:
  assumes "buf_inv b m" "\<not> buf_readonly b" "buf_data b m = []"
    and "put_all (tt_buf_put_u32_n big) vs b m = Inr (TT_SUCCESS, b', m')"
  shows "buf_data b' m' = concat (map (be_bytes 4) vs)
    \<and> (\<exists>b''. get_all (tt_buf_get_u32_h big' old) (length vs) b' m' = Inr (TT_SUCCESS, vs, b'')
        \<and> buf_data b'' m' = [])"
  using c32n.put_all_appends [OF assms(1,2), of vs big] c32n.round_trip [OF assms, of big' old] assms(3,4)
  by (auto simp: appends_def takes_def)

theorem u32_network_round_trip_witness:
  "\<exists>b' m'. put_all (tt_buf_put_u32_n False) [0x01020304] demo_buf demo_mem = Inr (TT_SUCCESS, b', m')
    \<and> buf_data b' m' = [1, 2, 3, 4]
    \<and> (\<exists>b''. get_all (tt_buf_get_u32_h True 0) 1 b' m' = Inr (TT_SUCCESS, [0x01020304], b''))"
proof -
  obtain b' m' where p: "put_all (tt_buf_put_u32_n False) [0x01020304] demo_buf demo_mem = Inr (TT_SUCCESS, b', m')"
    using buf_put_fits [OF demo_buf_inv(1,2), of 4 "host_bytes False 4 (tt_hton False 4 (0x01020304 :: u32))"]
    by (auto simp: tt_buf_put_u32_n_def demo_buf_def)
  have e: "be_bytes 4 (0x01020304 :: u32) = [1, 2, 3, 4]"
    by code_simp
  show ?thesis
    using u32_network_round_trip [OF demo_buf_inv p, of True 0] p e by auto
qed

text \<open>
  C6: \<^verbatim>\<open>tt_buf_set_range\<close> on a range inside the readable bytes replaces it by the given bytes, longer
  or shorter: the bytes before and behind it stay, and all other blocks of the store keep their contents. It succeeds
  exactly when there is room for the bytes by which the replacement is longer (none for one that is not): in the
  storage, or because the spring grows that far and the allocator grants the new block. Without room it answers
  failure and leaves the buffer and its store as they were, or asserts when the size of the storage would wrap. A
  range that ends behind the readable bytes is refused without effect, as long as its end does not wrap.
\<close>

theorem buf_set_range_spec:
  assumes inv: "buf_inv b m" and rw: "\<not> buf_readonly b" and n: "unat n = length bs"
  shows "(unat pos + unat len \<le> length (buf_data b m) \<longrightarrow> (let d = n - min len n in
      if buf_room d b m
      then \<exists>b' m'. tt_buf_set_range pos len bs n b m = Inr (TT_SUCCESS, b', m') \<and> buf_inv b' m'
        \<and> buf_data b' m' = take (unat pos) (buf_data b m) @ bs @ drop (unat pos + unat len) (buf_data b m)
        \<and> mem_frame (buf_foot b) m m'
      else if unat (buf_size b) + unat d < 2 ^ 32
      then \<exists>m'. tt_buf_set_range pos len bs n b m = Inr (TT_FAIL, b, m') \<and> buf_inv b m'
        \<and> same_store m m' \<and> buf_data b m' = buf_data b m
      else tt_buf_set_range pos len bs n b m = Inl Throw))
    \<and> (length (buf_data b m) < unat pos + unat len \<and> unat (buf_rpos b) + unat pos + unat len < 2 ^ 32
      \<longrightarrow> tt_buf_set_range pos len bs n b m = Inr (TT_FAIL, b, m))"
proof (intro conjI impI)
  assume le: "unat pos + unat len \<le> length (buf_data b m)"
  have "unat n \<le> length bs" using n by simp
  with inv rw le show "let d = n - min len n in
      if buf_room d b m
      then \<exists>b' m'. tt_buf_set_range pos len bs n b m = Inr (TT_SUCCESS, b', m') \<and> buf_inv b' m'
        \<and> buf_data b' m' = take (unat pos) (buf_data b m) @ bs @ drop (unat pos + unat len) (buf_data b m)
        \<and> mem_frame (buf_foot b) m m'
      else if unat (buf_size b) + unat d < 2 ^ 32
      then \<exists>m'. tt_buf_set_range pos len bs n b m = Inr (TT_FAIL, b, m') \<and> buf_inv b m'
        \<and> same_store m m' \<and> buf_data b m' = buf_data b m
      else tt_buf_set_range pos len bs n b m = Inl Throw"
  proof (cases rule: buf_set_range_cases)
    case (fail m')
    then show ?thesis using same_store_buf(2) [OF fail(3) _ inv] by (simp add: Let_def buf_inv_def)
  next
    case (ok b' m')
    then show ?thesis using keepsD [OF ok(2)] n by (simp add: Let_def)
  qed (simp add: Let_def)
next
  assume "length (buf_data b m) < unat pos + unat len \<and> unat (buf_rpos b) + unat pos + unat len < 2 ^ 32"
  then show "tt_buf_set_range pos len bs n b m = Inr (TT_FAIL, b, m)"
    using buf_set_range_outside [OF inv] by simp
qed

theorem buf_set_range_spec_witness:
  "(\<exists>b' m'. tt_buf_set_range 1 2 [9] 1 (demo_at 0 4) (demo_with [5, 6, 7, 8]) = Inr (TT_SUCCESS, b', m')
      \<and> buf_data b' m' = [5, 9, 8])
    \<and> tt_buf_set_range 1 4 [9] 1 (demo_at 0 4) (demo_with [5, 6, 7, 8]) = Inr (TT_FAIL, demo_at 0 4, demo_with [5, 6, 7, 8])"
proof -
  have "min 2 1 = (1 :: u32)" by simp
  then show ?thesis
    using buf_set_range_spec [OF demo_inv [of "[5, 6, 7, 8]" 0 4], of 1 "[9]" 1 2]
      buf_set_range_spec [OF demo_inv [of "[5, 6, 7, 8]" 0 4], of 1 "[9]" 1 4]
    by (simp add: demo_data overwrite_def Let_def) (auto simp: demo_at_def)
qed

text \<open>
  \<^verbatim>\<open>tt_buf_refine\<close> moves the readable bytes to the start of the storage: the bytes and the
  storage's size stay, the read position becomes 0, and its former value, the number of bytes of
  space gained, is returned.
\<close>

theorem buf_refine_spec:
  assumes inv: "buf_inv b m" and rw: "\<not> buf_readonly b"
  shows "\<exists>b' m'. tt_buf_refine b m = Inr (buf_rpos b, b', m') \<and> buf_inv b' m'
    \<and> buf_data b' m' = buf_data b m \<and> buf_rpos b' = 0 \<and> buf_size b' = buf_size b
    \<and> unat (TT_BUF_WLEN b') = unat (TT_BUF_WLEN b) + unat (buf_rpos b)"
proof -
  obtain b' m' where r: "tt_buf_refine b m = Inr (buf_rpos b, b', m')" "buf_inv b' m'"
    "buf_data b' m' = buf_data b m" "buf_rpos b' = 0" "buf_size b' = buf_size b"
    using inv rw by (rule buf_refine_ok)
  have "unat (buf_wpos b') = unat (buf_wpos b) - unat (buf_rpos b)"
    using arg_cong [OF r(3), of length] r(4) inv r(2) by (simp add: length_buf_data buf_rlen)
  then show ?thesis
    using r buf_inv_pos [OF inv] by (simp add: buf_wlen [OF inv] buf_wlen [OF r(2)])
qed

theorem buf_refine_spec_witness:
  "\<exists>b' m'. tt_buf_refine (demo_at 2 4) (demo_with [5, 6, 7, 8]) = Inr (2, b', m') \<and> buf_data b' m' = [7, 8]"
  using buf_refine_spec [OF demo_inv [of "[5, 6, 7, 8]" 2 4]]
  by (auto simp: demo_data overwrite_def) (simp add: demo_at_def)

text \<open>
  C8: The growth loop of \<^verbatim>\<open>tt_memspg_extend_ex\<close> ends, for every spring within the documented
  bounds: with 0 (the request fails) or with a size that is at least the requested one, larger
  than the current one and a whole number of \<open>w\<close>-byte cells. Without an upper limit it does not
  give up as long as the request leaves one step of growth below the 32-bit bound.
\<close>

theorem memspg_growth_ends:
  assumes g: "memspg_ok w g" and sz: "sz < to_size" "w dvd unat sz"
  shows "\<exists>r. memspg_grow g sz to_size sz = Some (Inr r)
    \<and> (r \<noteq> 0 \<longrightarrow> unat to_size \<le> unat r \<and> unat sz < unat r \<and> w dvd unat r)
    \<and> (max_limit g = 0 \<and> unat to_size + unat (max_extend g) < 2 ^ 32 \<longrightarrow> r \<noteq> 0)"
proof -
  obtain r where r: "memspg_grow g sz to_size sz = Some (Inr r)"
    "r \<noteq> 0 \<longrightarrow> unat to_size \<le> unat r \<and> unat sz < unat r \<and> w dvd unat r"
    using memspg_grow_total [OF g order_refl sz(2)] by blast
  moreover have "r \<noteq> 0" if "max_limit g = 0" "unat to_size + unat (max_extend g) < 2 ^ 32"
    using memspg_grow_unlimited [OF g that(1) order_refl _ that(2), of sz] sz(1) r(1)
    by (auto simp: word_less_nat_alt)
  ultimately show ?thesis by blast
qed

theorem memspg_growth_ends_witness:
  "\<exists>r. memspg_grow \<lparr>min_extend = 64, max_extend = 4096, max_limit = 0\<rparr> 16 1000 16 = Some (Inr r) \<and> r \<noteq> 0"
  using memspg_growth_ends [of 1 "\<lparr>min_extend = 64, max_extend = 4096, max_limit = 0\<rparr>" 16 1000]
  by (auto simp: memspg_ok_def)

text \<open>
  C9: Hexadecimal text round trip: the digits \<^verbatim>\<open>tt_buf_put_hex2cstr\<close> writes for some bytes, given
  to \<^verbatim>\<open>tt_buf_put_cstr2hex\<close> as a string, append exactly those bytes to another buffer.
\<close>

theorem hex_text_round_trip:
  assumes "buf_inv b m" "\<not> buf_readonly b" "buf_data b m = []"
    and "tt_buf_put_hex2cstr bs b m = Inr (TT_SUCCESS, b1, m1)"
    and "buf_inv c m1" "\<not> buf_readonly c"
    and "tt_buf_put_cstr2hex (buf_data b1 m1) c m1 = Inr (TT_SUCCESS, c2, m2)"
  shows "buf_data c2 m2 = buf_data c m1 @ bs"
proof -
  have "appends b m (hex_digits bs) (Inr (TT_SUCCESS, b1, m1))"
    using put_hex2cstr_appends [OF assms(1,2), of bs] assms(4) by simp
  then have "buf_data b1 m1 = hex_digits bs"
    using assms(3) by (simp add: appends_def)
  then show ?thesis
    using put_cstr2hex_appends [OF assms(5,6), of "hex_digits bs"] assms(7)
    by (simp add: hex_bytes_digits appends_def)
qed

lemma demo_put_one:
  assumes "length bs < 16" "unat w = length bs"
  shows "tt_buf_put_u8 v (demo_at 0 w) (demo_with bs) = Inr (TT_SUCCESS, demo_at 0 (w + 1), demo_with (bs @ [v]))"
proof -
  have w: "w < 16" "w + 1 \<le> 16" "1 \<le> 16 - w"
    using assms unat_suc_u32 [of w 16] unat_sub_u32 [of w 16] by (simp_all add: word_less_nat_alt word_le_nat_alt)
  have "overwrite (length bs) [v] (overwrite 0 bs (replicate 16 0)) = overwrite 0 (bs @ [v]) (replicate 16 0)"
    using assms(1) by (simp add: overwrite_def)
  then show ?thesis
    using assms w
    by (simp add: tt_buf_put_u8_def tt_buf_put_def tt_buf_reserve_def TT_BUF_WLEN_def demo_at_def demo_buf_def
        demo_with_def demo_mem_def mem_store_def src_bytes_def TT_BUF_CHECK_def Let_def)
qed

theorem hex_text_round_trip_witness:
  "\<exists>b1 m1. tt_buf_put_hex2cstr [0xA7] demo_buf demo_mem = Inr (TT_SUCCESS, b1, m1)
    \<and> (\<exists>c2 m2. tt_buf_put_cstr2hex (buf_data b1 m1) b1 m1 = Inr (TT_SUCCESS, c2, m2)
        \<and> buf_data c2 m2 = buf_data b1 m1 @ [0xA7])"
proof -
  have d: "demo_buf = demo_at 0 0" "demo_mem = demo_with []"
    by (simp_all add: demo_at_def demo_buf_def demo_with_def demo_mem_def)
  have h: "tt_buf_put_hex2cstr [0xA7] demo_buf demo_mem = Inr (TT_SUCCESS, demo_at 0 2, demo_with [97, 55])"
    by (simp add: d demo_put_one tt_h2c_def)
  have x: "buf_data (demo_at 0 2) (demo_with [97, 55]) = [97, 55]"
    by (simp add: demo_data overwrite_def)
  have c: "tt_buf_put_cstr2hex [97, 55] (demo_at 0 2) (demo_with [97, 55])
      = Inr (TT_SUCCESS, demo_at 0 3, demo_with [97, 55, 0xA7])"
    by (simp add: demo_put_one tt_c2h_def)
  show ?thesis
    using hex_text_round_trip [OF demo_buf_inv h, of "demo_at 0 2" "demo_at 0 3" "demo_with [97, 55, 0xA7]"]
      demo_inv [of "[97, 55]" 0 2] h x c by auto
qed

text \<open>
  \<^verbatim>\<open>tt_buf_tok\<close>, called first, finds the token of the readable bytes as specified: the bytes up
  to the first separator (or the end), behind leading separators if empty tokens are to be
  skipped, \<^verbatim>\<open>TT_E_END\<close> when nothing is left; called with the last token, it continues one byte
  behind its end.
\<close>

theorem buf_tok_spec:
  assumes inv: "buf_inv b m" and n: "length sep = unat n"
  shows "tt_buf_tok b sep n flag None m =
      Inr (tok_word (tok_spec (flag AND TT_BUFTOK_NOEMPTY \<noteq> 0) sep (unat (buf_rpos b)) (buf_data b m)))
    \<and> (\<forall>i len. i + unat len < length (buf_data b m) \<longrightarrow>
        tt_buf_tok b sep n flag (Some (unat (buf_rpos b) + i, len)) m =
        Inr (tok_word (tok_spec (flag AND TT_BUFTOK_NOEMPTY \<noteq> 0) sep
          (Suc (unat (buf_rpos b) + i + unat len)) (drop (Suc (i + unat len)) (buf_data b m)))))"
  using tok_first [OF inv n] tok_next [OF inv n] by simp

theorem buf_tok_spec_witness:
  "tt_buf_tok (demo_at 0 5) [44] 1 TT_BUFTOK_NOEMPTY None (demo_with [44, 97, 98, 44, 99])
    = Inr (TT_SUCCESS, Some (1, 2))"
  using buf_tok_spec [OF demo_inv(1) [of "[44, 97, 98, 44, 99]" 0 5], of "[44]" 1 TT_BUFTOK_NOEMPTY]
  by (simp add: demo_data overwrite_def tok_spec_def tok_word_def TT_BUFTOK_NOEMPTY_def)
    (simp add: demo_at_def)

text \<open>
  \<^verbatim>\<open>tt_buf_trim_sp\<close> returns and removes exactly the spaces at both ends of the readable bytes,
  for a buffer whose write position is below 256.
\<close>

theorem buf_trim_spec:
  assumes "buf_inv b m" "unat (buf_wpos b) < 256"
  shows "\<exists>b'. tt_buf_trim_sp b m = Inr b' \<and> buf_inv b' m
    \<and> buf_data b' m = rev (dropWhile tt_isspace (rev (dropWhile tt_isspace (buf_data b m))))"
  using assms by (rule trim_sp_short) blast

theorem buf_trim_spec_witness:
  "\<exists>b'. tt_buf_trim_sp (demo_at 0 5) (demo_with [32, 97, 32, 98, 9]) = Inr b'
    \<and> buf_data b' (demo_with [32, 97, 32, 98, 9]) = [97, 32, 98]"
proof -
  have "unat (buf_wpos (demo_at 0 5)) < 256" by (simp add: demo_at_def)
  with buf_trim_spec [OF demo_inv(1) [of "[32, 97, 32, 98, 9]" 0 5]] show ?thesis
    by (auto simp: demo_data overwrite_def tt_isspace_def)
qed

text \<open>
  Beyond 255 it does not: the 8-bit position wraps, and a buffer with one readable byte at 256
  ends up with the byte at 0, which was read long ago, as its only contents.
\<close>

lemma trim_sp_wraps:
  assumes inv: "buf_inv b m" and r: "buf_rpos b = 256" and w: "buf_wpos b = 257"
    and c: "\<not> tt_isspace (buf_cells b m ! 0)"
  shows "\<exists>b'. tt_buf_trim_sp b m = Inr b' \<and> buf_data b' m = [buf_cells b m ! 0]"
proof -
  have ld: "mem_load 1 m (buf_p b) 0 1 = Inr [buf_cells b m ! 0]"
    using buf_byte [OF inv, of 0] w by simp
  have z: "(256 :: u8) = 0" by simp
  have "trim_head b m 0 = Some (Inr 0)"
    using ld c w by (subst trim_head.simps) simp
  then have "trim_head b m 256 = Some (Inr 0)" by (simp only: z)
  then have "tt_buf_trim_sp b m = Inr (b\<lparr>buf_rpos := 0, buf_wpos := 1\<rparr>)"
    using r w by (simp add: tt_buf_trim_sp_def trim_tail.simps)
  moreover have "length (buf_cells b m) > 0"
    using buf_inv_pos(3) [OF inv] w by auto
  ultimately show ?thesis
    by (auto simp: buf_data_def buf_cells_def take_Suc_conv_app_nth)
qed

text \<open>
  \<^verbatim>\<open>tt_buf_swap\<close> exchanges the readable bytes of two buffers with separate storage, whether
  they live in the structs' own arrays or on the heap; both stay valid, nothing is allocated or
  freed, and no other block changes.
\<close>

theorem buf_swap_spec:
  assumes "buf_inv a m" "\<not> buf_readonly a" "buf_inv b m" "\<not> buf_readonly b"
    "buf_foot a \<inter> buf_foot b = {}"
  shows "\<exists>a' b' m'. tt_buf_swap a b m = Inr (a', b', m') \<and> buf_inv a' m' \<and> buf_inv b' m'
    \<and> buf_data a' m' = buf_data b m \<and> buf_data b' m' = buf_data a m
    \<and> mem_frame (buf_foot a \<union> buf_foot b) m m' \<and> mem_heap m' = mem_heap m"
  using assms by (rule buf_swap_ok) blast

definition demo_pair :: bmem where
  "demo_pair = \<lparr>mem_blocks = [0 \<mapsto> 5 # replicate 15 0, 1 \<mapsto> 6 # 7 # replicate 14 0], mem_heap = {},
     mem_next = 2, mem_oracle = (\<lambda>_. True), mem_junk = (\<lambda>_ _. 0)\<rparr>"

theorem buf_swap_spec_witness:
  "\<exists>a' b' m'. tt_buf_swap (demo_at 0 1) ((demo_at 0 2)\<lparr>buf_p := Some 1, buf_initbuf := 1\<rparr>) demo_pair
      = Inr (a', b', m') \<and> buf_data a' m' = [6, 7] \<and> buf_data b' m' = [5]"
proof -
  let ?a = "demo_at 0 1" and ?b = "(demo_at 0 2)\<lparr>buf_p := Some 1, buf_initbuf := 1\<rparr>"
  have "buf_inv ?a demo_pair" "buf_inv ?b demo_pair" "\<not> buf_readonly ?a" "\<not> buf_readonly ?b"
    "buf_foot ?a \<inter> buf_foot ?b = {}" "buf_data ?a demo_pair = [5]" "buf_data ?b demo_pair = [6, 7]"
    by (auto simp: buf_inv_def demo_at_def demo_buf_def demo_pair_def memspg_ok_def mem_inv_def
        points_to_def buf_cells_def buf_foot_def buf_data_def split: if_splits)
  with buf_swap_spec [of ?a demo_pair ?b] show ?thesis by auto
qed

text \<open>
  C13: \<^verbatim>\<open>tt_buf_remove_range\<close> cuts the bytes \<open>[from, to)\<close> out of a buffer nothing was read from. On a
  buffer with a positive read position its overflow test always fires and it removes nothing.
\<close>

theorem buf_remove_range_spec:
  assumes inv: "buf_inv b m" and rw: "\<not> buf_readonly b" and le: "from \<le> to"
    and fr: "unat from < length (buf_data b m)"
  shows "(buf_rpos b = 0 \<longrightarrow> (\<exists>b' m'. tt_buf_remove_range from to b m = Inr (b', m') \<and> buf_inv b' m'
        \<and> buf_data b' m' = take (unat from) (buf_data b m) @ drop (unat to) (buf_data b m)))
    \<and> (buf_rpos b \<noteq> 0 \<longrightarrow> tt_buf_remove_range from to b m = Inr (b, m))"
proof (cases "buf_rpos b = 0")
  case True
  obtain b' m' where "tt_buf_remove_range from to b m = Inr (b', m')" "keeps b m b' m'"
    "buf_data b' m' = take (unat from) (buf_data b m) @ drop (unat to) (buf_data b m)"
    using inv rw True le by (rule remove_range_front)
  with True show ?thesis by (auto dest: keepsD)
next
  case False
  then show ?thesis
    using remove_range_blocked [OF inv _ fr le] by (simp add: word_greater_zero_iff)
qed

theorem buf_remove_range_spec_witness:
  "(\<exists>b' m'. tt_buf_remove_range 1 3 (demo_at 0 4) (demo_with [5, 6, 7, 8]) = Inr (b', m')
      \<and> buf_data b' m' = [5, 8])
    \<and> tt_buf_remove_range 1 3 (demo_at 1 4) (demo_with [5, 6, 7, 8])
      = Inr (demo_at 1 4, demo_with [5, 6, 7, 8])"
  using buf_remove_range_spec [OF demo_inv [of "[5, 6, 7, 8]" 0 4], of 1 3]
    buf_remove_range_spec [OF demo_inv [of "[5, 6, 7, 8]" 1 4], of 1 3]
  by (auto simp: demo_data overwrite_def) (simp_all add: demo_at_def demo_buf_def)

text \<open>
  C14: \<^verbatim>\<open>tt_buf_compress\<close> keeps the readable bytes when at most 16 of them are left: they move into
  the struct's own array, the heap block is freed. With more, in a buffer part of which was read,
  a successful compression allocates exactly the readable bytes but leaves the positions alone,
  so that the write position lies behind the end of the storage.
\<close>

theorem buf_compress_spec:
  assumes inv: "buf_inv b m" and rw: "\<not> buf_readonly b"
  shows "(length (buf_data b m) \<le> 16 \<longrightarrow> (\<exists>b' m'. tt_buf_compress b m = Inr (TT_SUCCESS, b', m')
        \<and> buf_inv b' m' \<and> buf_data b' m' = buf_data b m \<and> buf_p b' = Some (buf_initbuf b)))
    \<and> (16 < length (buf_data b m) \<and> 0 < buf_rpos b \<longrightarrow>
        (\<forall>b' m'. tt_buf_compress b m = Inr (TT_SUCCESS, b', m') \<longrightarrow> buf_size b' < buf_wpos b'))"
proof (intro conjI impI allI)
  assume "length (buf_data b m) \<le> 16"
  with inv rw show "\<exists>b' m'. tt_buf_compress b m = Inr (TT_SUCCESS, b', m') \<and> buf_inv b' m'
      \<and> buf_data b' m' = buf_data b m \<and> buf_p b' = Some (buf_initbuf b)"
    by (rule buf_compress_short) blast
next
  fix b' m'
  assume l: "16 < length (buf_data b m) \<and> 0 < buf_rpos b" and c: "tt_buf_compress b m = Inr (TT_SUCCESS, b', m')"
  from l have len: "16 < length (buf_data b m)" by simp
  show "buf_size b' < buf_wpos b'"
    using inv rw len
  proof (cases rule: buf_compress_long)
    case (ok n m1)
    then show ?thesis
      using c l buf_inv_pos [OF inv] by (auto simp: word_less_nat_alt buf_rlen [OF inv])
  qed (use c in simp)
qed

theorem buf_compress_spec_witness:
  "\<exists>b' m'. tt_buf_compress (demo_at 1 4) (demo_with [5, 6, 7, 8]) = Inr (TT_SUCCESS, b', m')
    \<and> buf_data b' m' = [6, 7, 8]"
  using buf_compress_spec [OF demo_inv [of "[5, 6, 7, 8]" 1 4]] by (auto simp: demo_data overwrite_def)

end
