(* ===== verification/TT_Queue.thy ===== *)
theory TT_Queue
  imports TT_Container_Specs
begin

text \<open>
  The double-ended queue of objects of \<^verbatim>\<open>algorithm/tt_queue.c\<close>: a list of frames on the heap, each
  an array of \<^verbatim>\<open>obj_per_frame\<close> objects of which \<^verbatim>\<open>[start, end)\<close> are in use, and one spare frame kept
  when a frame falls empty. A frame is a struct of the store, the list of frames the list of
  their addresses; a slot of the array that was never written is \<open>None\<close>. The fields the queue of
  objects shares with the queue of pointers (\<^verbatim>\<open>tt_ptrq_t\<close>) come first in the record.
\<close>

section \<open>Data\<close>

record 'a q_frame =
  f_start :: u32
  f_end :: u32
  f_slots :: "'a option list"

type_synonym 'a q_mem = "'a q_frame mem"

record frame_queue =
  q_frame :: "nat list"
  q_cached_frame :: ptr
  q_count :: u32
  q_per_frame :: u32

record tt_queue = frame_queue +
  q_obj_size :: u32

record queue_iter =
  it_frame :: ptr
  it_idx :: u32

text \<open>\<^verbatim>\<open>__F_OBJ(f, q, idx)\<close> read and written; an index outside the frame's array is undefined.\<close>

definition f_get :: "'a q_frame \<Rightarrow> u32 \<Rightarrow> 'a run" where
  "f_get f i = (if unat i < length (f_slots f)
     then case f_slots f ! unat i of Some x \<Rightarrow> Inr x | None \<Rightarrow> Inl Undef else Inl Undef)"

definition f_put :: "'a q_frame \<Rightarrow> u32 \<Rightarrow> 'a \<Rightarrow> 'a q_frame run" where
  "f_put f i x = (if unat i < length (f_slots f)
     then Inr (f\<lparr>f_slots := (f_slots f)[unat i := Some x]\<rparr>) else Inl Undef)"

section \<open>Frames\<close>

definition q_alloc_frame ::
  "'z frame_queue_scheme \<Rightarrow> 'a q_mem \<Rightarrow> (ptr \<times> 'z frame_queue_scheme \<times> 'a q_mem) run" where
  "q_alloc_frame q m =
    (case q_cached_frame q of
       Some frame \<Rightarrow>
         bindr (mem_deref m frame) (\<lambda>f.
         bindr (mem_assign m frame (f\<lparr>f_start := 0, f_end := 0\<rparr>)) (\<lambda>m.
         Inr (Some frame, q\<lparr>q_cached_frame := None\<rparr>, m)))
     | None \<Rightarrow>
         (case malloc_struct m of
            (None, m) \<Rightarrow> Inr (None, q, m)
          | (Some frame, m) \<Rightarrow>
              bindr (mem_assign m frame
                \<lparr>f_start = 0, f_end = 0, f_slots = replicate (unat (q_per_frame q)) None\<rparr>) (\<lambda>m.
              Inr (Some frame, q, m))))"

definition q_alloc_head_frame ::
  "'z frame_queue_scheme \<Rightarrow> 'a q_mem \<Rightarrow> (ptr \<times> 'z frame_queue_scheme \<times> 'a q_mem) run" where
  "q_alloc_head_frame q m =
    bindr (q_alloc_frame q m) (\<lambda>(p, q, m).
    case p of None \<Rightarrow> Inr (None, q, m)
    | Some frame \<Rightarrow>
        bindr (mem_deref m frame) (\<lambda>f.
        bindr (mem_assign m frame (f\<lparr>f_start := q_per_frame q, f_end := q_per_frame q\<rparr>)) (\<lambda>m.
        Inr (Some frame, q, m))))"

definition q_alloc_tail_frame ::
  "'z frame_queue_scheme \<Rightarrow> 'a q_mem \<Rightarrow> (ptr \<times> 'z frame_queue_scheme \<times> 'a q_mem) run" where
  "q_alloc_tail_frame q m =
    bindr (q_alloc_frame q m) (\<lambda>(p, q, m).
    case p of None \<Rightarrow> Inr (None, q, m)
    | Some frame \<Rightarrow>
        bindr (mem_deref m frame) (\<lambda>f.
        bindr (mem_assign m frame (f\<lparr>f_start := 0, f_end := 0\<rparr>)) (\<lambda>m.
        Inr (Some frame, q, m))))"

definition q_free_frame ::
  "nat \<Rightarrow> 'z frame_queue_scheme \<Rightarrow> 'a q_mem \<Rightarrow> ('z frame_queue_scheme \<times> 'a q_mem) run" where
  "q_free_frame frame q m =
    (if q_cached_frame q \<noteq> None then bindr (tt_free (Some frame) m) (\<lambda>m. Inr (q, m))
     else Inr (q\<lparr>q_cached_frame := Some frame\<rparr>, m))"

section \<open>Operations\<close>

definition tt_queue_attr_default :: u32 where "tt_queue_attr_default = 16"

definition tt_queue_init :: "u32 \<Rightarrow> u32 option \<Rightarrow> tt_queue run" where
  "tt_queue_init obj_size attr =
    bindr (TT_ASSERT (obj_size \<noteq> 0)) (\<lambda>_.
    let obj_per_frame = (case attr of None \<Rightarrow> tt_queue_attr_default | Some n \<Rightarrow> n) in
    bindr (TT_ASSERT (obj_per_frame \<noteq> 0)) (\<lambda>_.
    bindr (TT_ASSERT (\<not> TT_U32_MUL_WOULD_OVFL obj_size obj_per_frame)) (\<lambda>_.
    Inr \<lparr>q_frame = [], q_cached_frame = None, q_count = 0, q_per_frame = obj_per_frame,
         q_obj_size = obj_size\<rparr>)))"

primrec free_frames :: "nat list \<Rightarrow> 'a q_mem \<Rightarrow> 'a q_mem run" where
  "free_frames [] m = Inr m"
| "free_frames (frame # fs) m = bindr (tt_free (Some frame) m) (\<lambda>m. free_frames fs m)"

definition tt_queue_destroy :: "'z frame_queue_scheme \<Rightarrow> 'a q_mem \<Rightarrow> 'a q_mem run" where
  "tt_queue_destroy q m =
    bindr (free_frames (q_frame q) m) (\<lambda>m.
    if q_cached_frame q \<noteq> None then tt_free (q_cached_frame q) m else Inr m)"

primrec clear_frames ::
  "nat list \<Rightarrow> 'z frame_queue_scheme \<Rightarrow> 'a q_mem \<Rightarrow> ('z frame_queue_scheme \<times> 'a q_mem) run" where
  "clear_frames [] q m = Inr (q\<lparr>q_frame := []\<rparr>, m)"
| "clear_frames (frame # fs) q m =
    bindr (q_free_frame frame (q\<lparr>q_frame := fs\<rparr>) m) (\<lambda>(q, m). clear_frames fs q m)"

definition tt_queue_clear :: "'z frame_queue_scheme \<Rightarrow> 'a q_mem \<Rightarrow> ('z frame_queue_scheme \<times> 'a q_mem) run" where
  "tt_queue_clear q m =
    bindr (clear_frames (q_frame q) q m) (\<lambda>(q, m). Inr (q\<lparr>q_count := 0\<rparr>, m))"

definition tt_queue_count :: "'z frame_queue_scheme \<Rightarrow> u32" where "tt_queue_count q = q_count q"

definition tt_queue_empty :: "'z frame_queue_scheme \<Rightarrow> bool" where "tt_queue_empty q \<longleftrightarrow> q_count q = 0"

text \<open>Give the queue a new frame at the head or the tail; \<open>None\<close> when there is no memory.\<close>

definition q_new_head ::
  "'z frame_queue_scheme \<Rightarrow> 'a q_mem \<Rightarrow> (ptr \<times> 'z frame_queue_scheme \<times> 'a q_mem) run" where
  "q_new_head q m = bindr (q_alloc_head_frame q m) (\<lambda>(p, q, m).
    case p of None \<Rightarrow> Inr (None, q, m)
    | Some frame \<Rightarrow> Inr (Some frame, q\<lparr>q_frame := frame # q_frame q\<rparr>, m))"

definition q_new_tail ::
  "'z frame_queue_scheme \<Rightarrow> 'a q_mem \<Rightarrow> (ptr \<times> 'z frame_queue_scheme \<times> 'a q_mem) run" where
  "q_new_tail q m = bindr (q_alloc_tail_frame q m) (\<lambda>(p, q, m).
    case p of None \<Rightarrow> Inr (None, q, m)
    | Some frame \<Rightarrow> Inr (Some frame, q\<lparr>q_frame := q_frame q @ [frame]\<rparr>, m))"

text \<open>Store an object in front of the first or behind the last object of a frame with room.\<close>

definition q_store_head ::
  "'a \<Rightarrow> nat \<Rightarrow> 'z frame_queue_scheme \<Rightarrow> 'a q_mem \<Rightarrow> (tt_result \<times> 'z frame_queue_scheme \<times> 'a q_mem) run" where
  "q_store_head obj frame q m =
    bindr (mem_deref m frame) (\<lambda>f.
    bindr (TT_ASSERT (f_start f > 0)) (\<lambda>_.
    let f = f\<lparr>f_start := f_start f - 1\<rparr> in
    bindr (f_put f (f_start f) obj) (\<lambda>f.
    bindr (mem_assign m frame f) (\<lambda>m.
    Inr (TT_SUCCESS, q\<lparr>q_count := q_count q + 1\<rparr>, m)))))"

definition q_store_tail ::
  "'a \<Rightarrow> nat \<Rightarrow> 'z frame_queue_scheme \<Rightarrow> 'a q_mem \<Rightarrow> (tt_result \<times> 'z frame_queue_scheme \<times> 'a q_mem) run" where
  "q_store_tail obj frame q m =
    bindr (mem_deref m frame) (\<lambda>f.
    bindr (TT_ASSERT (f_end f < q_per_frame q)) (\<lambda>_.
    bindr (f_put f (f_end f) obj) (\<lambda>f.
    bindr (mem_assign m frame (f\<lparr>f_end := f_end f + 1\<rparr>)) (\<lambda>m.
    Inr (TT_SUCCESS, q\<lparr>q_count := q_count q + 1\<rparr>, m)))))"

definition tt_queue_push_head ::
  "'a \<Rightarrow> 'z frame_queue_scheme \<Rightarrow> 'a q_mem \<Rightarrow> (tt_result \<times> 'z frame_queue_scheme \<times> 'a q_mem) run" where
  "tt_queue_push_head obj q m =
    bindr (case q_frame q of frame # fs \<Rightarrow> Inr (Some frame, q, m) | [] \<Rightarrow> q_new_head q m) (\<lambda>(p, q, m).
    case p of None \<Rightarrow> Inr (TT_FAIL, q, m)
    | Some frame \<Rightarrow>
      bindr (mem_deref m frame) (\<lambda>f.
      bindr (if f_start f = 0 then q_new_head q m else Inr (Some frame, q, m)) (\<lambda>(p, q, m).
      case p of None \<Rightarrow> Inr (TT_FAIL, q, m)
      | Some frame \<Rightarrow> q_store_head obj frame q m)))"

definition tt_queue_push_tail ::
  "'a \<Rightarrow> 'z frame_queue_scheme \<Rightarrow> 'a q_mem \<Rightarrow> (tt_result \<times> 'z frame_queue_scheme \<times> 'a q_mem) run" where
  "tt_queue_push_tail obj q m =
    bindr (if q_frame q \<noteq> [] then Inr (Some (last (q_frame q)), q, m) else q_new_tail q m) (\<lambda>(p, q, m).
    case p of None \<Rightarrow> Inr (TT_FAIL, q, m)
    | Some frame \<Rightarrow>
      bindr (mem_deref m frame) (\<lambda>f.
      bindr (if f_end f = q_per_frame q then q_new_tail q m else Inr (Some frame, q, m)) (\<lambda>(p, q, m).
      case p of None \<Rightarrow> Inr (TT_FAIL, q, m)
      | Some frame \<Rightarrow> q_store_tail obj frame q m)))"

definition tt_queue_pop_head ::
  "'z frame_queue_scheme \<Rightarrow> 'a q_mem \<Rightarrow> (tt_result \<times> 'a option \<times> 'z frame_queue_scheme \<times> 'a q_mem) run" where
  "tt_queue_pop_head q m =
    (case q_frame q of [] \<Rightarrow> Inr (TT_FAIL, None, q, m)
     | frame # fs \<Rightarrow>
       bindr (mem_deref m frame) (\<lambda>f.
       bindr (TT_ASSERT (f_start f < f_end f)) (\<lambda>_.
       bindr (f_get f (f_start f)) (\<lambda>obj.
       let f = f\<lparr>f_start := f_start f + 1\<rparr> in
       bindr (mem_assign m frame f) (\<lambda>m.
       bindr (if f_start f = f_end f
              then q_free_frame frame (q\<lparr>q_frame := remove1 frame (q_frame q)\<rparr>) m else Inr (q, m)) (\<lambda>(q, m).
       Inr (TT_SUCCESS, Some obj, q\<lparr>q_count := q_count q - 1\<rparr>, m)))))))"

definition tt_queue_pop_tail ::
  "'z frame_queue_scheme \<Rightarrow> 'a q_mem \<Rightarrow> (tt_result \<times> 'a option \<times> 'z frame_queue_scheme \<times> 'a q_mem) run" where
  "tt_queue_pop_tail q m =
    (if q_frame q = [] then Inr (TT_FAIL, None, q, m)
     else
       let frame = last (q_frame q) in
       bindr (mem_deref m frame) (\<lambda>f.
       bindr (TT_ASSERT (f_start f < f_end f)) (\<lambda>_.
       let f = f\<lparr>f_end := f_end f - 1\<rparr> in
       bindr (f_get f (f_end f)) (\<lambda>obj.
       bindr (mem_assign m frame f) (\<lambda>m.
       bindr (if f_start f = f_end f
              then q_free_frame frame (q\<lparr>q_frame := remove1 frame (q_frame q)\<rparr>) m else Inr (q, m)) (\<lambda>(q, m).
       Inr (TT_SUCCESS, Some obj, q\<lparr>q_count := q_count q - 1\<rparr>, m)))))))"

text \<open>\<^verbatim>\<open>tt_queue_head\<close> and \<^verbatim>\<open>tt_queue_tail\<close> return the address of an object: a frame and an index in it.\<close>

definition tt_queue_head :: "'z frame_queue_scheme \<Rightarrow> 'a q_mem \<Rightarrow> (nat \<times> u32) option run" where
  "tt_queue_head q m = (case q_frame q of [] \<Rightarrow> Inr None
    | frame # fs \<Rightarrow> bindr (mem_deref m frame) (\<lambda>f.
        bindr (TT_ASSERT (f_start f < f_end f)) (\<lambda>_. Inr (Some (frame, f_start f)))))"

definition tt_queue_tail :: "'z frame_queue_scheme \<Rightarrow> 'a q_mem \<Rightarrow> (nat \<times> u32) option run" where
  "tt_queue_tail q m = (if q_frame q = [] then Inr None
    else let frame = last (q_frame q) in bindr (mem_deref m frame) (\<lambda>f.
        bindr (TT_ASSERT (f_start f < f_end f)) (\<lambda>_. Inr (Some (frame, f_end f - 1)))))"

text \<open>The node behind a node in the list of frames.\<close>

fun node_next :: "nat list \<Rightarrow> nat \<Rightarrow> ptr" where
  "node_next (p # q # fs) x = (if x = p then Some q else node_next (q # fs) x)"
| "node_next _ x = None"

definition tt_queue_iter :: "'z frame_queue_scheme \<Rightarrow> queue_iter" where
  "tt_queue_iter q = \<lparr>it_frame = (case q_frame q of [] \<Rightarrow> None | frame # fs \<Rightarrow> Some frame), it_idx = 0\<rparr>"

definition tt_queue_iter_next ::
  "'z frame_queue_scheme \<Rightarrow> 'a q_mem \<Rightarrow> queue_iter \<Rightarrow> ((nat \<times> u32) option \<times> queue_iter) run" where
  "tt_queue_iter_next q m it =
    (case it_frame it of None \<Rightarrow> Inr (None, it)
     | Some frame \<Rightarrow>
       bindr (mem_deref m frame) (\<lambda>f.
       bindr (TT_ASSERT (f_start f + it_idx it \<le> f_end f)) (\<lambda>_.
       if f_start f + it_idx it = f_end f then
         (case node_next (q_frame q) frame of
            Some frame \<Rightarrow>
              bindr (mem_deref m frame) (\<lambda>f.
              Inr (Some (frame, f_start f + 0), \<lparr>it_frame = Some frame, it_idx = 0 + 1\<rparr>))
          | None \<Rightarrow> Inr (None, it))
       else Inr (Some (frame, f_start f + it_idx it), it\<lparr>it_idx := it_idx it + 1\<rparr>))))"

text \<open>The loops of \<^verbatim>\<open>tt_queue_get\<close> and \<^verbatim>\<open>tt_queue_set\<close> over the frames.\<close>

primrec get_loop :: "nat list \<Rightarrow> u32 \<Rightarrow> 'a q_mem \<Rightarrow> (tt_result \<times> 'a option) run" where
  "get_loop [] idx m = bindr (TT_ASSERT False) (\<lambda>_. Inr (TT_FAIL, None))"
| "get_loop (frame # fs) idx m =
    bindr (mem_deref m frame) (\<lambda>f.
    let n = f_end f - f_start f in
    if idx < n then bindr (f_get f idx) (\<lambda>obj. Inr (TT_SUCCESS, Some obj))
    else get_loop fs (idx - n) m)"

definition tt_queue_get :: "u32 \<Rightarrow> 'z frame_queue_scheme \<Rightarrow> 'a q_mem \<Rightarrow> (tt_result \<times> 'a option) run" where
  "tt_queue_get idx q m = (if idx \<ge> q_count q then Inr (TT_FAIL, None) else get_loop (q_frame q) idx m)"

primrec set_loop :: "nat list \<Rightarrow> u32 \<Rightarrow> 'a \<Rightarrow> 'a q_mem \<Rightarrow> (tt_result \<times> 'a q_mem) run" where
  "set_loop [] idx obj m = bindr (TT_ASSERT False) (\<lambda>_. Inr (TT_FAIL, m))"
| "set_loop (frame # fs) idx obj m =
    bindr (mem_deref m frame) (\<lambda>f.
    let n = f_end f - f_start f in
    if idx < n then bindr (f_put f idx obj) (\<lambda>f. bindr (mem_assign m frame f) (\<lambda>m. Inr (TT_SUCCESS, m)))
    else set_loop fs (idx - n) obj m)"

definition tt_queue_set :: "u32 \<Rightarrow> 'a \<Rightarrow> 'z frame_queue_scheme \<Rightarrow> 'a q_mem \<Rightarrow> (tt_result \<times> 'a q_mem) run" where
  "tt_queue_set idx obj q m = (if idx \<ge> q_count q then Inr (TT_FAIL, m) else set_loop (q_frame q) idx obj m)"

end
