(* ===== verification/TT_Queue_Inv.thy ===== *)
theory TT_Queue_Inv
  imports TT_Queue
begin

text \<open>
  The invariant of the frame queue, its abstraction to the list of its objects, and the proof that
  every operation of \<^verbatim>\<open>tt_queue.c\<close> refines the double-ended queue on lists.
\<close>

section \<open>Invariant and abstraction\<close>

definition frame_ok :: "u32 \<Rightarrow> 'a q_frame \<Rightarrow> bool" where
  "frame_ok n f \<longleftrightarrow> length (f_slots f) = unat n \<and> f_start f < f_end f \<and> f_end f \<le> n
     \<and> (\<forall>i. unat (f_start f) \<le> i \<and> i < unat (f_end f) \<longrightarrow> f_slots f ! i \<noteq> None)"

definition frame_objs :: "'a q_frame \<Rightarrow> 'a list" where
  "frame_objs f = map the (take (unat (f_end f) - unat (f_start f)) (drop (unat (f_start f)) (f_slots f)))"

definition frames_items :: "'a q_mem \<Rightarrow> nat list \<Rightarrow> 'a list" where
  "frames_items m ps = concat (map (\<lambda>p. frame_objs (struct_at m p)) ps)"

definition q_own :: "'z frame_queue_scheme \<Rightarrow> nat set" where
  "q_own q = set (q_frame q) \<union> set_option (q_cached_frame q)"

definition q_shape :: "'z frame_queue_scheme \<Rightarrow> 'a q_mem \<Rightarrow> bool" where
  "q_shape q m \<longleftrightarrow> mem_inv m \<and> q_per_frame q \<noteq> 0 \<and> distinct (q_frame q)
     \<and> set_option (q_cached_frame q) \<inter> set (q_frame q) = {}
     \<and> (\<forall>p \<in> set (q_frame q). is_struct m p \<and> frame_ok (q_per_frame q) (struct_at m p))
     \<and> (\<forall>p \<in> set_option (q_cached_frame q). is_struct m p \<and>
          length (f_slots (struct_at m p)) = unat (q_per_frame q))"

definition q_items :: "'z frame_queue_scheme \<Rightarrow> 'a q_mem \<Rightarrow> 'a list" where
  "q_items q m = frames_items m (q_frame q)"

definition q_inv :: "'z frame_queue_scheme \<Rightarrow> 'a q_mem \<Rightarrow> bool" where
  "q_inv q m \<longleftrightarrow> q_shape q m \<and> unat (q_count q) = length (q_items q m)"

lemma frames_items_simps [simp]:
  "frames_items m [] = []"
  "frames_items m (p # ps) = frame_objs (struct_at m p) @ frames_items m ps"
  "frames_items m (ps @ qs) = frames_items m ps @ frames_items m qs"
  by (simp_all add: frames_items_def)

lemma frames_items_cong:
  "(\<And>p. p \<in> set ps \<Longrightarrow> struct_at m' p = struct_at m p) \<Longrightarrow> frames_items m' ps = frames_items m ps"
  unfolding frames_items_def by (rule arg_cong [of _ _ concat]) (rule map_cong, simp_all)

lemma q_shapeD:
  assumes "q_shape q m"
  shows "mem_inv m" "q_per_frame q \<noteq> 0" "distinct (q_frame q)"
    "set_option (q_cached_frame q) \<inter> set (q_frame q) = {}"
    "\<And>p. p \<in> set (q_frame q) \<Longrightarrow> is_struct m p" "\<And>p. p \<in> set (q_frame q) \<Longrightarrow> frame_ok (q_per_frame q) (struct_at m p)"
    "\<And>p. q_cached_frame q = Some p \<Longrightarrow> is_struct m p"
    "\<And>p. q_cached_frame q = Some p \<Longrightarrow> length (f_slots (struct_at m p)) = unat (q_per_frame q)"
  using assms by (simp_all add: q_shape_def)

lemma frame_okD:
  assumes "frame_ok n f"
  shows "length (f_slots f) = unat n" "unat (f_start f) < unat (f_end f)" "unat (f_end f) \<le> unat n"
    "\<And>i. unat (f_start f) \<le> i \<Longrightarrow> i < unat (f_end f) \<Longrightarrow> \<exists>x. f_slots f ! i = Some x"
  using assms by (auto simp: frame_ok_def word_less_nat_alt word_le_nat_alt)

lemma length_frame_objs: "frame_ok n f \<Longrightarrow> length (frame_objs f) = unat (f_end f) - unat (f_start f)"
  using frame_okD [of n f] by (simp add: frame_objs_def)

lemma same_store_shape:
  assumes "same_store m m'" "mem_inv m'" "q_shape q m"
  shows "q_shape q m'" "frames_items m' ps = frames_items m ps"
  using assms same_store_struct [OF assms(1)] by (simp_all add: q_shape_def frames_items_def)

section \<open>One frame\<close>

text \<open>Writing one slot before or behind the objects of a frame, and dropping one at either end.\<close>

lemma frame_push_tail:
  fixes x :: 'a and f :: "'a q_frame"
  assumes "length (f_slots f) = unat n" "unat (f_start f) \<le> unat (f_end f)" "f_end f < n"
    and some: "\<And>i. unat (f_start f) \<le> i \<Longrightarrow> i < unat (f_end f) \<Longrightarrow> f_slots f ! i \<noteq> None"
  defines "f' \<equiv> f\<lparr>f_slots := (f_slots f)[unat (f_end f) := Some x], f_end := f_end f + 1\<rparr>"
  shows "frame_ok n f'" "frame_objs f' = frame_objs f @ [x]"
proof -
  have lt: "unat (f_end f) < unat n" using assms(3) by (simp add: word_less_nat_alt)
  then have u: "unat (f_end f + 1) = Suc (unat (f_end f))" by (rule unat_suc_u32)
  show "frame_ok n f'"
    using assms(1,2) lt u some by (auto simp: f'_def frame_ok_def word_less_nat_alt word_le_nat_alt less_Suc_eq nth_list_update)
  have "drop (unat (f_start f)) ((f_slots f)[unat (f_end f) := Some x])
      = (drop (unat (f_start f)) (f_slots f))[unat (f_end f) - unat (f_start f) := Some x]"
    using assms(2) by (simp add: drop_update_swap)
  moreover have "take (Suc k) (xs[k := Some x]) = take k xs @ [Some x]" if "k < length xs" for k and xs :: "'a option list"
    using that by (simp add: take_Suc_conv_app_nth)
  ultimately show "frame_objs f' = frame_objs f @ [x]"
    using assms(1,2) lt u by (simp add: f'_def frame_objs_def Suc_diff_le)
qed

lemma frame_push_head:
  fixes x :: 'a and f :: "'a q_frame"
  assumes "length (f_slots f) = unat n" "unat (f_start f) \<le> unat (f_end f)" "unat (f_end f) \<le> unat n" "0 < f_start f"
    and some: "\<And>i. unat (f_start f) \<le> i \<Longrightarrow> i < unat (f_end f) \<Longrightarrow> f_slots f ! i \<noteq> None"
  defines "f' \<equiv> f\<lparr>f_start := f_start f - 1, f_slots := (f_slots f)[unat (f_start f - 1) := Some x]\<rparr>"
  shows "frame_ok n f'" "frame_objs f' = x # frame_objs f" "unat (f_start f - 1) < length (f_slots f)"
proof -
  have pos: "0 < unat (f_start f)" using assms(4) by (simp add: word_less_nat_alt)
  then have u: "unat (f_start f - 1) = unat (f_start f) - 1" by (subst unat_sub_u32) auto
  then show lt: "unat (f_start f - 1) < length (f_slots f)" using pos assms(1-3) by linarith
  show "frame_ok n f'"
    using assms(1-3) pos u some by (auto simp: f'_def frame_ok_def word_less_nat_alt word_le_nat_alt nth_list_update)
  obtain k where k: "unat (f_start f) = Suc k" using pos by (cases "unat (f_start f)") auto
  have "drop k ((f_slots f)[k := Some x]) = Some x # drop (Suc k) (f_slots f)"
    using lt u k by (simp add: drop_update_swap Cons_nth_drop_Suc [symmetric])
  moreover have "unat (f_end f) - k = Suc (unat (f_end f) - Suc k)" using assms(2) k by linarith
  ultimately show "frame_objs f' = x # frame_objs f"
    using u k by (simp add: f'_def frame_objs_def)
qed

lemma frame_pop_head:
  assumes ok: "frame_ok n f"
  defines "f' \<equiv> f\<lparr>f_start := f_start f + 1\<rparr>"
  obtains x where "f_get f (f_start f) = Inr x" "frame_objs f = x # frame_objs f'"
    "f_start f' \<noteq> f_end f' \<Longrightarrow> frame_ok n f'" "f_start f' = f_end f' \<Longrightarrow> frame_objs f' = []"
    "length (f_slots f') = unat n"
proof -
  note D = frame_okD [OF ok]
  obtain x where x: "f_slots f ! unat (f_start f) = Some x" using D(2,4) by blast
  have u: "unat (f_start f + 1) = Suc (unat (f_start f))" using D(2) by (rule unat_suc_u32)
  have dr: "drop (unat (f_start f)) (f_slots f) = Some x # drop (Suc (unat (f_start f))) (f_slots f)"
    using D x by (simp add: Cons_nth_drop_Suc [symmetric])
  obtain k where k: "unat (f_end f) - unat (f_start f) = Suc k" "k = unat (f_end f) - Suc (unat (f_start f))"
    using D(2) by (cases "unat (f_end f) - unat (f_start f)") auto
  show thesis
  proof
    show "f_get f (f_start f) = Inr x" using D x by (simp add: f_get_def)
    show "frame_objs f = x # frame_objs f'"
      using dr k u by (simp add: frame_objs_def f'_def)
    show "f_start f' \<noteq> f_end f' \<Longrightarrow> frame_ok n f'"
      using ok D u by (auto simp: f'_def frame_ok_def word_less_nat_alt word_unat_eq_iff)
    show "f_start f' = f_end f' \<Longrightarrow> frame_objs f' = []" by (simp add: frame_objs_def)
    show "length (f_slots f') = unat n" using D(1) by (simp add: f'_def)
  qed
qed

lemma frame_pop_tail:
  assumes ok: "frame_ok n f"
  defines "f' \<equiv> f\<lparr>f_end := f_end f - 1\<rparr>"
  obtains x where "f_get f' (f_end f') = Inr x" "frame_objs f = frame_objs f' @ [x]"
    "f_start f' \<noteq> f_end f' \<Longrightarrow> frame_ok n f'" "f_start f' = f_end f' \<Longrightarrow> frame_objs f' = []"
    "length (f_slots f') = unat n"
proof -
  note D = frame_okD [OF ok]
  have u: "unat (f_end f - 1) = unat (f_end f) - 1" using D(2) by (subst unat_sub_u32) auto
  have "unat (f_start f) \<le> unat (f_end f) - 1" "unat (f_end f) - 1 < unat (f_end f)" using D(2) by linarith+
  from D(4) [OF this] obtain x where x: "f_slots f ! (unat (f_end f) - 1) = Some x" by blast
  let ?s = "unat (f_start f)"
  obtain k where k: "unat (f_end f) - ?s = Suc k" "k = unat (f_end f) - 1 - ?s" "?s + k = unat (f_end f) - 1"
    using D(2) by (cases "unat (f_end f) - ?s") auto
  have "take (Suc k) (drop ?s (f_slots f)) = take k (drop ?s (f_slots f)) @ [Some x]"
    using D x k by (simp add: take_Suc_conv_app_nth)
  then have ob: "frame_objs f = frame_objs f' @ [x]"
    using k u by (simp add: frame_objs_def f'_def)
  show thesis
  proof
    show "f_get f' (f_end f') = Inr x" using D x u by (auto simp: f_get_def f'_def)
    show "frame_objs f = frame_objs f' @ [x]" by (fact ob)
    show "f_start f' \<noteq> f_end f' \<Longrightarrow> frame_ok n f'"
      using ok D u by (auto simp: f'_def frame_ok_def word_less_nat_alt word_le_nat_alt word_unat_eq_iff)
    show "f_start f' = f_end f' \<Longrightarrow> frame_objs f' = []" by (simp add: frame_objs_def)
    show "length (f_slots f') = unat n" using D(1) by (simp add: f'_def)
  qed
qed

section \<open>The list of frames\<close>

text \<open>Putting a frame back among the others, and taking one out.\<close>

lemma shape_put:
  assumes sh: "q_shape q m" and fs: "q_frame q = xs @ ys" and p: "p \<notin> q_own q" "is_struct m p"
    and f: "frame_ok (q_per_frame q) f"
  obtains m' where "mem_assign m p f = Inr m'" "q_shape (q\<lparr>q_frame := xs @ p # ys\<rparr>) m'"
    "frames_items m' (xs @ p # ys) = frames_items m xs @ frame_objs f @ frames_items m ys"
    "owns_step (insert p (q_own q)) m (insert p (q_own q)) m'"
proof -
  obtain m' where m': "mem_assign m p f = Inr m'" "mem_inv m'" "mem_heap m' = mem_heap m"
    "struct_at m' p = f" "\<forall>r. r \<noteq> p \<longrightarrow> struct_at m' r = struct_at m r"
    "\<forall>r. is_struct m' r \<longleftrightarrow> is_struct m r" "mem_frame {p} m m'"
    using p(2) q_shapeD(1) [OF sh] by (rule mem_assign_ok)
  have np: "p \<notin> set xs" "p \<notin> set ys" "q_cached_frame q \<noteq> Some p"
    using p(1) fs by (auto simp: q_own_def)
  have st: "struct_at m' r = struct_at m r" if "r \<in> q_own q" for r
    using that p(1) m'(5) by metis
  have "q_shape (q\<lparr>q_frame := xs @ p # ys\<rparr>) m'"
    using sh fs np p(2) m'(2,4,6) f st by (auto simp: q_shape_def q_own_def)
  moreover have "frames_items m' xs = frames_items m xs" "frames_items m' ys = frames_items m ys"
    using st fs by (auto intro!: frames_items_cong simp: q_own_def)
  moreover have "owns_step (insert p (q_own q)) m (insert p (q_own q)) m'"
    using m'(7,3) by (rule owns_assign) simp
  ultimately show thesis
    using that m'(1,4) by simp
qed

lemma shape_take:
  assumes sh: "q_shape q m" and fs: "q_frame q = xs @ p # ys"
  shows "q_shape (q\<lparr>q_frame := xs @ ys\<rparr>) m" "p \<notin> q_own (q\<lparr>q_frame := xs @ ys\<rparr>)"
    "is_struct m p" "frame_ok (q_per_frame q) (struct_at m p)"
    "insert p (q_own (q\<lparr>q_frame := xs @ ys\<rparr>)) = q_own q"
  using assms by (auto simp: q_shape_def q_own_def)

lemma alloc_frame_cases:
  assumes sh: "q_shape q m"
  obtains (fail) m' where "q_alloc_frame q m = Inr (None, q, m')" "mem_inv m'" "same_store m m'"
  | (ok) p m' where "q_alloc_frame q m = Inr (Some p, q\<lparr>q_cached_frame := None\<rparr>, m')" "mem_inv m'"
      "p \<notin> set (q_frame q)" "is_struct m' p" "length (f_slots (struct_at m' p)) = unat (q_per_frame q)"
      "f_start (struct_at m' p) = 0" "f_end (struct_at m' p) = 0"
      "\<forall>r \<in> set (q_frame q). struct_at m' r = struct_at m r \<and> is_struct m' r"
      "owns_step (q_own q) m (insert p (set (q_frame q))) m'"
proof (cases "q_cached_frame q")
  case (Some c)
  note D = q_shapeD [OF sh]
  let ?f = "(struct_at m c)\<lparr>f_start := 0, f_end := 0\<rparr>"
  obtain m' where m': "mem_assign m c ?f = Inr m'" "mem_inv m'" "mem_heap m' = mem_heap m"
    "struct_at m' c = ?f" "\<forall>r. r \<noteq> c \<longrightarrow> struct_at m' r = struct_at m r"
    "\<forall>r. is_struct m' r \<longleftrightarrow> is_struct m r" "mem_frame {c} m m'"
    using D(7) [OF Some] D(1) by (rule mem_assign_ok)
  have eq: "q_alloc_frame q m = Inr (Some c, q\<lparr>q_cached_frame := None\<rparr>, m')"
    using Some m'(1) mem_deref_ok [OF D(7) [OF Some]] by (simp add: q_alloc_frame_def)
  have nc: "c \<notin> set (q_frame q)" using D(4) Some by auto
  have rs: "struct_at m' r = struct_at m r \<and> is_struct m' r" if "r \<in> set (q_frame q)" for r
    using that nc m'(5,6) D(5) by metis
  have "owns_step (q_own q) m (q_own q) m'"
    using m'(7,3) by (rule owns_assign) (simp add: q_own_def Some)
  then have "owns_step (q_own q) m (insert c (set (q_frame q))) m'"
    by (simp add: q_own_def Some insert_commute Un_commute)
  then show thesis
    using ok [OF eq m'(2) nc] m'(4,6) D(7,8) [OF Some] rs by simp
next
  case None
  from q_shapeD(1) [OF sh] show thesis
  proof (cases rule: malloc_struct_cases)
    case (fail m')
    with that(1) None show thesis by (simp add: q_alloc_frame_def)
  next
    case new: (ok n m1)
    let ?f = "\<lparr>f_start = 0, f_end = 0, f_slots = replicate (unat (q_per_frame q)) None\<rparr> :: 'b q_frame"
    obtain m' where m': "mem_assign m1 n ?f = Inr m'" "mem_inv m'" "mem_heap m' = mem_heap m1"
      "struct_at m' n = ?f" "\<forall>r. r \<noteq> n \<longrightarrow> struct_at m' r = struct_at m1 r"
      "\<forall>r. is_struct m' r \<longleftrightarrow> is_struct m1 r" "mem_frame {n} m1 m'"
      using new(5,2) by (rule mem_assign_ok)
    have st: "r \<noteq> n \<and> struct_at m' r = struct_at m r \<and> is_struct m' r" if "r \<in> set (q_frame q)" for r
      using new(7,8) m'(5,6) q_shapeD(5) [OF sh that] by auto
    have eq: "q_alloc_frame q m = Inr (Some n, q\<lparr>q_cached_frame := None\<rparr>, m')"
      using None new(1) m'(1) by (simp add: q_alloc_frame_def)
    have own: "q_own q = set (q_frame q)" by (simp add: q_own_def None)
    have "owns_step (q_own q) m (insert n (q_own q)) m1"
      using new(9,4,3,6) by (rule owns_malloc)
    moreover have "owns_step (insert n (q_own q)) m1 (insert n (q_own q)) m'"
      using m'(7,3) by (rule owns_assign) simp
    ultimately have "owns_step (q_own q) m (insert n (set (q_frame q))) m'"
      unfolding own by (rule owns_trans)
    then show thesis
      using ok [OF eq m'(2)] st m'(4,6) new(5) by auto
  qed
qed

text \<open>A new frame at either end, before its first object is stored.\<close>

lemma new_frame_cases:
  assumes sh: "q_shape q m"
    and new: "new = q_new_head \<and> fs = (\<lambda>p. p # q_frame q) \<and> k = q_per_frame q
      \<or> new = q_new_tail \<and> fs = (\<lambda>p. q_frame q @ [p]) \<and> k = 0"
  obtains (fail) m' where "new q m = Inr (None, q, m')" "mem_inv m'" "same_store m m'"
  | (ok) p m' where "new q m = Inr (Some p, q\<lparr>q_cached_frame := None, q_frame := fs p\<rparr>, m')"
      "q_shape (q\<lparr>q_cached_frame := None\<rparr>) m'" "p \<notin> set (q_frame q)" "is_struct m' p"
      "length (f_slots (struct_at m' p)) = unat (q_per_frame q)"
      "f_start (struct_at m' p) = k" "f_end (struct_at m' p) = k"
      "frames_items m' (q_frame q) = frames_items m (q_frame q)"
      "owns_step (q_own q) m (insert p (set (q_frame q))) m'"
  using sh
proof (cases rule: alloc_frame_cases)
  case (fail m')
  with that(1) new show thesis
    by (auto simp: q_new_head_def q_new_tail_def q_alloc_head_frame_def q_alloc_tail_frame_def)
next
  case al: (ok p m1)
  let ?f = "(struct_at m1 p)\<lparr>f_start := k, f_end := k\<rparr>"
  obtain m' where m': "mem_assign m1 p ?f = Inr m'" "mem_inv m'" "mem_heap m' = mem_heap m1"
    "struct_at m' p = ?f" "\<forall>r. r \<noteq> p \<longrightarrow> struct_at m' r = struct_at m1 r"
    "\<forall>r. is_struct m' r \<longleftrightarrow> is_struct m1 r" "mem_frame {p} m1 m'"
    using al(4,2) by (rule mem_assign_ok)
  have eq: "new q m = Inr (Some p, q\<lparr>q_cached_frame := None, q_frame := fs p\<rparr>, m')"
    using new al(1) m'(1) mem_deref_ok [OF al(4)]
    by (auto simp: q_new_head_def q_new_tail_def q_alloc_head_frame_def q_alloc_tail_frame_def)
  have st: "struct_at m' r = struct_at m r \<and> is_struct m' r" if "r \<in> set (q_frame q)" for r
    using that al(3,8) m'(5,6) by metis
  have "q_shape (q\<lparr>q_cached_frame := None\<rparr>) m'"
    using sh st m'(2) by (auto simp: q_shape_def)
  moreover have "frames_items m' (q_frame q) = frames_items m (q_frame q)"
    using st by (auto intro!: frames_items_cong)
  moreover have "owns_step (q_own q) m (insert p (set (q_frame q))) m'"
    using al(9) m'(7,3) by (blast intro: owns_trans owns_assign)
  ultimately show thesis
    using that(2) [OF eq] al(3,4,5) m'(4,6) by simp
qed

lemma free_frame_ok:
  assumes sh: "q_shape q m" and p: "p \<notin> q_own q" "is_struct m p"
    and len: "length (f_slots (struct_at m p)) = unat (q_per_frame q)"
  obtains q' m' where "q_free_frame p q m = Inr (q', m')" "q_shape q' m'" "q_frame q' = q_frame q"
    "q_count q' = q_count q" "q_per_frame q' = q_per_frame q" "frames_items m' (q_frame q) = frames_items m (q_frame q)"
    "owns_step (insert p (q_own q)) m (q_own q') m'"
proof (cases "q_cached_frame q")
  case None
  let ?q = "q\<lparr>q_cached_frame := Some p\<rparr>"
  have "q_shape ?q m"
    using sh p len by (auto simp: q_shape_def q_own_def)
  moreover have "q_own ?q = insert p (q_own q)"
    using None by (simp add: q_own_def)
  ultimately show thesis
    using that [of ?q m] None by (simp add: q_free_frame_def owns_refl)
next
  case (Some c)
  obtain m' where m': "tt_free (Some p) m = Inr m'" "mem_inv m'" "mem_heap m' = mem_heap m - {p}"
    "\<forall>q. q \<noteq> p \<longrightarrow> struct_at m' q = struct_at m q" "\<forall>q. q \<noteq> p \<longrightarrow> (is_struct m' q \<longleftrightarrow> is_struct m q)"
    "mem_frame {p} m m'"
    using p(2) q_shapeD(1) [OF sh] by (rule free_struct)
  have st: "struct_at m' r = struct_at m r \<and> is_struct m' r = is_struct m r" if "r \<in> q_own q" for r
    using that p(1) m'(4,5) by metis
  have "q_shape q m'"
    using sh st m'(2) by (auto simp: q_shape_def q_own_def)
  moreover have "frames_items m' (q_frame q) = frames_items m (q_frame q)"
    using st by (auto intro!: frames_items_cong simp: q_own_def)
  moreover have "owns_step (insert p (q_own q)) m (q_own q) m'"
    using owns_free [OF m'(6,3), of "insert p (q_own q)"] p(1) by simp
  ultimately show thesis
    using that [of q m'] Some m'(1) by (simp add: q_free_frame_def)
qed

section \<open>Pushing\<close>

text \<open>
  The outcome of a push: the object was added, or there was no memory and nothing changed.
\<close>

definition pushes ::
  "'z frame_queue_scheme \<Rightarrow> 'a q_mem \<Rightarrow> 'a list \<Rightarrow> (tt_result \<times> 'z frame_queue_scheme \<times> 'a q_mem) run \<Rightarrow> bool" where
  "pushes q m ys out \<longleftrightarrow> (\<exists>r q' m'. out = Inr (r, q', m') \<and> q_shape q' m'
     \<and> owns_step (q_own q) m (q_own q') m'
     \<and> (r = TT_SUCCESS \<and> q_items q' m' = ys \<and> q_count q' = q_count q + 1
        \<or> r = TT_FAIL \<and> q_items q' m' = q_items q m \<and> q_count q' = q_count q))"

lemma pushes_fail:
  assumes "q_shape q m" "mem_inv m'" "same_store m m'"
  shows "pushes q m ys (Inr (TT_FAIL, q, m'))"
  using assms same_store_shape [OF assms(3,2,1)] by (simp add: pushes_def q_items_def owns_same)

text \<open>Storing in a frame with room.\<close>

lemma store_tail_ok:
  fixes f :: "'a q_frame"
  assumes sh: "q_shape (q\<lparr>q_frame := fs\<rparr>) m" and fr: "q_frame q = fs @ [p]"
    and p: "p \<notin> q_own (q\<lparr>q_frame := fs\<rparr>)" "is_struct m p"
    and f: "f = struct_at m p" "length (f_slots f) = unat (q_per_frame q)" "unat (f_start f) \<le> unat (f_end f)"
      "f_end f < q_per_frame q" "\<forall>i. unat (f_start f) \<le> i \<and> i < unat (f_end f) \<longrightarrow> f_slots f ! i \<noteq> None"
  obtains m' where "q_store_tail x p q m = Inr (TT_SUCCESS, q\<lparr>q_count := q_count q + 1\<rparr>, m')"
    "q_shape q m'" "q_items q m' = frames_items m fs @ frame_objs f @ [x]"
    "owns_step (q_own q) m (q_own q) m'"
proof -
  let ?f = "f\<lparr>f_slots := (f_slots f)[unat (f_end f) := Some x], f_end := f_end f + 1\<rparr>"
  have "frame_ok (q_per_frame q) ?f" and ob: "frame_objs ?f = frame_objs f @ [x]"
    using f(2-5) frame_push_tail [of f "q_per_frame q" x] by auto
  then have ok: "frame_ok (q_per_frame (q\<lparr>q_frame := fs\<rparr>)) ?f" by simp
  have fs0: "q_frame (q\<lparr>q_frame := fs\<rparr>) = fs @ []" by simp
  obtain m' where m': "mem_assign m p ?f = Inr m'" "q_shape (q\<lparr>q_frame := fs, q_frame := fs @ p # []\<rparr>) m'"
    "frames_items m' (fs @ p # []) = frames_items m fs @ frame_objs ?f @ frames_items m []"
    "owns_step (insert p (q_own (q\<lparr>q_frame := fs\<rparr>))) m (insert p (q_own (q\<lparr>q_frame := fs\<rparr>))) m'"
    using sh fs0 p ok by (rule shape_put)
  have own: "insert p (q_own (q\<lparr>q_frame := fs\<rparr>)) = q_own q" using fr by (auto simp: q_own_def)
  have qq: "q\<lparr>q_frame := fs, q_frame := fs @ [p]\<rparr> = q" using fr by simp
  have "f_put f (f_end f) x = Inr (f\<lparr>f_slots := (f_slots f)[unat (f_end f) := Some x]\<rparr>)"
    using f(2,4) by (simp add: f_put_def word_less_nat_alt)
  then have "q_store_tail x p q m = Inr (TT_SUCCESS, q\<lparr>q_count := q_count q + 1\<rparr>, m')"
    using m'(1) f(1,4) mem_deref_ok [OF p(2)] by (simp add: q_store_tail_def)
  then show thesis
    using that m'(2-4) qq own ob fr by (simp add: q_items_def)
qed

lemma store_head_ok:
  fixes f :: "'a q_frame"
  assumes sh: "q_shape (q\<lparr>q_frame := fs\<rparr>) m" and fr: "q_frame q = p # fs"
    and p: "p \<notin> q_own (q\<lparr>q_frame := fs\<rparr>)" "is_struct m p"
    and f: "f = struct_at m p" "length (f_slots f) = unat (q_per_frame q)" "unat (f_start f) \<le> unat (f_end f)"
      "unat (f_end f) \<le> unat (q_per_frame q)" "0 < f_start f"
      "\<forall>i. unat (f_start f) \<le> i \<and> i < unat (f_end f) \<longrightarrow> f_slots f ! i \<noteq> None"
  obtains m' where "q_store_head x p q m = Inr (TT_SUCCESS, q\<lparr>q_count := q_count q + 1\<rparr>, m')"
    "q_shape q m'" "q_items q m' = x # frame_objs f @ frames_items m fs"
    "owns_step (q_own q) m (q_own q) m'"
proof -
  let ?f = "f\<lparr>f_start := f_start f - 1, f_slots := (f_slots f)[unat (f_start f - 1) := Some x]\<rparr>"
  have "frame_ok (q_per_frame q) ?f" and ob: "frame_objs ?f = x # frame_objs f"
    using f(2-6) frame_push_head(1,2) [of f "q_per_frame q" x] by auto
  then have ok: "frame_ok (q_per_frame (q\<lparr>q_frame := fs\<rparr>)) ?f" by simp
  have lt: "unat (f_start f - 1) < length (f_slots f)"
    using f(2-6) frame_push_head(3) [of f "q_per_frame q"] by auto
  have fs0: "q_frame (q\<lparr>q_frame := fs\<rparr>) = [] @ fs" by simp
  obtain m' where m': "mem_assign m p ?f = Inr m'" "q_shape (q\<lparr>q_frame := fs, q_frame := [] @ p # fs\<rparr>) m'"
    "frames_items m' ([] @ p # fs) = frames_items m [] @ frame_objs ?f @ frames_items m fs"
    "owns_step (insert p (q_own (q\<lparr>q_frame := fs\<rparr>))) m (insert p (q_own (q\<lparr>q_frame := fs\<rparr>))) m'"
    using sh fs0 p ok by (rule shape_put)
  have own: "insert p (q_own (q\<lparr>q_frame := fs\<rparr>)) = q_own q" using fr by (auto simp: q_own_def)
  have qq: "q\<lparr>q_frame := fs, q_frame := p # fs\<rparr> = q" using fr by simp
  have "q_store_head x p q m = Inr (TT_SUCCESS, q\<lparr>q_count := q_count q + 1\<rparr>, m')"
    using m'(1) f(1,5) lt mem_deref_ok [OF p(2)] by (simp add: q_store_head_def f_put_def Let_def)
  then show thesis
    using that m'(2-4) qq own ob fr by (simp add: q_items_def)
qed

lemma empty_frame_objs: "f_start f = f_end f \<Longrightarrow> frame_objs f = []"
  by (simp add: frame_objs_def)

lemma shape_count [simp]: "q_shape (q\<lparr>q_count := c\<rparr>) m = q_shape q m" "q_items (q\<lparr>q_count := c\<rparr>) m = q_items q m"
  "q_own (q\<lparr>q_count := c\<rparr>) = q_own q"
  by (simp_all add: q_shape_def q_items_def q_own_def)

text \<open>A new frame and the object in it.\<close>

lemma new_tail_pushes:
  assumes sh: "q_shape q m"
  shows "pushes q m (q_items q m @ [x]) (bindr (q_new_tail q m) (\<lambda>(p, q, m).
      case p of None \<Rightarrow> Inr (TT_FAIL, q, m) | Some frame \<Rightarrow> q_store_tail x frame q m))"
    (is ?push)
    "q_new_tail q m = Inr (Some p, q', m') \<Longrightarrow> is_struct m' p \<and> f_end (struct_at m' p) \<noteq> q_per_frame q'"
    (is "?new \<Longrightarrow> ?st")
proof -
  have pf: "0 < q_per_frame q" using q_shapeD(2) [OF sh] by (simp add: word_greater_zero_iff)
  have "?push \<and> (?new \<longrightarrow> ?st)"
  proof (rule new_frame_cases [of q m q_new_tail "\<lambda>p. q_frame q @ [p]" 0])
    show "q_shape q m" by (fact sh)
  next
    fix m1
    assume m1: "q_new_tail q m = Inr (None, q, m1)" "mem_inv m1" "same_store m m1"
    then show ?thesis using pushes_fail [OF sh m1(2,3)] by simp
  next
    fix p1 m1
    let ?q = "q\<lparr>q_cached_frame := None, q_frame := q_frame q @ [p1]\<rparr>"
    assume m1: "q_new_tail q m = Inr (Some p1, ?q, m1)" "q_shape (q\<lparr>q_cached_frame := None\<rparr>) m1"
      "p1 \<notin> set (q_frame q)" "is_struct m1 p1" "length (f_slots (struct_at m1 p1)) = unat (q_per_frame q)"
      "f_start (struct_at m1 p1) = 0" "f_end (struct_at m1 p1) = 0"
      "frames_items m1 (q_frame q) = frames_items m (q_frame q)"
      "owns_step (q_own q) m (insert p1 (set (q_frame q))) m1"
    obtain m2 where m2: "q_store_tail x p1 ?q m1 = Inr (TT_SUCCESS, ?q\<lparr>q_count := q_count ?q + 1\<rparr>, m2)"
      "q_shape ?q m2" "q_items ?q m2 = frames_items m1 (q_frame q) @ frame_objs (struct_at m1 p1) @ [x]"
      "owns_step (q_own ?q) m1 (q_own ?q) m2"
      by (rule store_tail_ok [of "q_frame q" ?q m1 p1 "struct_at m1 p1" x]) (use m1 pf in \<open>simp_all add: q_own_def\<close>)
    have own: "q_own ?q = insert p1 (set (q_frame q))" by (simp add: q_own_def)
    have "owns_step (q_own q) m (q_own ?q) m2"
      using m1(9) m2(4) unfolding own by (rule owns_trans)
    then show ?thesis
      using m1 m2(1-3) pf by (auto simp: pushes_def q_items_def empty_frame_objs)
  qed simp
  then show ?push "?new \<Longrightarrow> ?st" by blast+
qed

lemma new_head_pushes:
  assumes sh: "q_shape q m"
  shows "pushes q m (x # q_items q m) (bindr (q_new_head q m) (\<lambda>(p, q, m).
      case p of None \<Rightarrow> Inr (TT_FAIL, q, m) | Some frame \<Rightarrow> q_store_head x frame q m))"
    (is ?push)
    "q_new_head q m = Inr (Some p, q', m') \<Longrightarrow> is_struct m' p \<and> f_start (struct_at m' p) \<noteq> 0"
    (is "?new \<Longrightarrow> ?st")
proof -
  have pf: "0 < q_per_frame q" using q_shapeD(2) [OF sh] by (simp add: word_greater_zero_iff)
  have "?push \<and> (?new \<longrightarrow> ?st)"
  proof (rule new_frame_cases [of q m q_new_head "\<lambda>p. p # q_frame q" "q_per_frame q"])
    show "q_shape q m" by (fact sh)
  next
    fix m1
    assume m1: "q_new_head q m = Inr (None, q, m1)" "mem_inv m1" "same_store m m1"
    then show ?thesis using pushes_fail [OF sh m1(2,3)] by simp
  next
    fix p1 m1
    let ?q = "q\<lparr>q_cached_frame := None, q_frame := p1 # q_frame q\<rparr>"
    assume m1: "q_new_head q m = Inr (Some p1, ?q, m1)" "q_shape (q\<lparr>q_cached_frame := None\<rparr>) m1"
      "p1 \<notin> set (q_frame q)" "is_struct m1 p1" "length (f_slots (struct_at m1 p1)) = unat (q_per_frame q)"
      "f_start (struct_at m1 p1) = q_per_frame q" "f_end (struct_at m1 p1) = q_per_frame q"
      "frames_items m1 (q_frame q) = frames_items m (q_frame q)"
      "owns_step (q_own q) m (insert p1 (set (q_frame q))) m1"
    obtain m2 where m2: "q_store_head x p1 ?q m1 = Inr (TT_SUCCESS, ?q\<lparr>q_count := q_count ?q + 1\<rparr>, m2)"
      "q_shape ?q m2" "q_items ?q m2 = x # frame_objs (struct_at m1 p1) @ frames_items m1 (q_frame q)"
      "owns_step (q_own ?q) m1 (q_own ?q) m2"
      by (rule store_head_ok [of "q_frame q" ?q m1 p1 "struct_at m1 p1" x]) (use m1 pf in \<open>auto simp: q_own_def\<close>)
    have own: "q_own ?q = insert p1 (set (q_frame q))" by (simp add: q_own_def)
    have "owns_step (q_own q) m (q_own ?q) m2"
      using m1(9) m2(4) unfolding own by (rule owns_trans)
    then show ?thesis
      using m1 m2(1-3) pf by (auto simp: pushes_def q_items_def empty_frame_objs)
  qed simp
  then show ?push "?new \<Longrightarrow> ?st" by blast+
qed

lemma push_tail_pushes:
  assumes sh: "q_shape q m"
  shows "pushes q m (q_items q m @ [x]) (tt_queue_push_tail x q m)"
proof (cases "q_frame q = []")
  case True
  then have "tt_queue_push_tail x q m = bindr (q_new_tail q m) (\<lambda>(p, q, m).
      case p of None \<Rightarrow> Inr (TT_FAIL, q, m) | Some frame \<Rightarrow> q_store_tail x frame q m)"
    using new_tail_pushes(2) [OF sh]
    by (cases "q_new_tail q m") (auto simp: tt_queue_push_tail_def mem_deref_ok split: option.split)
  with new_tail_pushes(1) [OF sh] show ?thesis by simp
next
  case False
  then obtain fs p where fs: "q_frame q = fs @ [p]" by (metis rev_exhaust)
  note T = shape_take [OF sh, of fs p "[]", simplified, OF fs]
  note D = frame_okD [OF T(4)]
  show ?thesis
  proof (cases "f_end (struct_at m p) = q_per_frame q")
    case True
    then show ?thesis
      using new_tail_pushes(1) [OF sh] fs mem_deref_ok [OF T(3)] by (simp add: tt_queue_push_tail_def)
  next
    case False
    obtain m' where "q_store_tail x p q m = Inr (TT_SUCCESS, q\<lparr>q_count := q_count q + 1\<rparr>, m')"
      "q_shape q m'" "q_items q m' = frames_items m fs @ frame_objs (struct_at m p) @ [x]"
      "owns_step (q_own q) m (q_own q) m'"
      by (rule store_tail_ok [of fs q m p "struct_at m p" x])
        (use T fs D False in \<open>auto simp: word_less_nat_alt word_unat_eq_iff\<close>)
    then show ?thesis
      using False fs mem_deref_ok [OF T(3)] by (auto simp: tt_queue_push_tail_def pushes_def q_items_def)
  qed
qed

lemma push_head_pushes:
  assumes sh: "q_shape q m"
  shows "pushes q m (x # q_items q m) (tt_queue_push_head x q m)"
proof (cases "q_frame q")
  case Nil
  then have "tt_queue_push_head x q m = bindr (q_new_head q m) (\<lambda>(p, q, m).
      case p of None \<Rightarrow> Inr (TT_FAIL, q, m) | Some frame \<Rightarrow> q_store_head x frame q m)"
    using new_head_pushes(2) [OF sh]
    by (cases "q_new_head q m") (auto simp: tt_queue_push_head_def mem_deref_ok split: option.split)
  with new_head_pushes(1) [OF sh] show ?thesis by simp
next
  case fs: (Cons p fs)
  note T = shape_take [OF sh, of "[]" p fs, simplified, OF fs]
  note D = frame_okD [OF T(4)]
  show ?thesis
  proof (cases "f_start (struct_at m p) = 0")
    case True
    then show ?thesis
      using new_head_pushes(1) [OF sh] fs mem_deref_ok [OF T(3)] by (simp add: tt_queue_push_head_def)
  next
    case False
    obtain m' where "q_store_head x p q m = Inr (TT_SUCCESS, q\<lparr>q_count := q_count q + 1\<rparr>, m')"
      "q_shape q m'" "q_items q m' = x # frame_objs (struct_at m p) @ frames_items m fs"
      "owns_step (q_own q) m (q_own q) m'"
      by (rule store_head_ok [of fs q m p "struct_at m p" x])
        (use T fs D False in \<open>auto simp: word_greater_zero_iff\<close>)
    then show ?thesis
      using False fs mem_deref_ok [OF T(3)] by (auto simp: tt_queue_push_head_def pushes_def q_items_def)
  qed
qed

section \<open>Popping\<close>

text \<open>
  Taking an object out of the frame \<open>p\<close> leaves \<open>f'\<close>; if that is empty the frame goes to the cache or
  is freed.
\<close>

lemma pop_frame:
  assumes sh: "q_shape q m" and fs: "q_frame q = xs @ p # ys"
    and f': "length (f_slots f') = unat (q_per_frame q)" "f_start f' \<noteq> f_end f' \<Longrightarrow> frame_ok (q_per_frame q) f'"
  obtains m1 q' m' where "mem_assign m p f' = Inr m1"
    "(if f_start f' = f_end f' then q_free_frame p (q\<lparr>q_frame := remove1 p (q_frame q)\<rparr>) m1 else Inr (q, m1)) = Inr (q', m')"
    "q_shape q' m'" "q_items q' m' = frames_items m xs @ frame_objs f' @ frames_items m ys"
    "q_count q' = q_count q" "owns_step (q_own q) m (q_own q') m'"
proof -
  let ?q = "q\<lparr>q_frame := xs @ ys\<rparr>"
  note T = shape_take [OF sh fs]
  show thesis
  proof (cases "f_start f' = f_end f'")
    case False
    have ok: "frame_ok (q_per_frame ?q) f'" using f'(2) [OF False] by simp
    have fs0: "q_frame ?q = xs @ ys" by simp
    obtain m1 where m1: "mem_assign m p f' = Inr m1" "q_shape (?q\<lparr>q_frame := xs @ p # ys\<rparr>) m1"
      "frames_items m1 (xs @ p # ys) = frames_items m xs @ frame_objs f' @ frames_items m ys"
      "owns_step (insert p (q_own ?q)) m (insert p (q_own ?q)) m1"
      using T(1) fs0 T(2,3) ok by (rule shape_put)
    have "q_shape q m1" using m1(2) fs by (simp add: q_shape_def)
    then show thesis
      using that [of m1 q m1] m1 T(5) fs False by (simp add: q_items_def)
  next
    case True
    obtain m1 where m1: "mem_assign m p f' = Inr m1" "mem_inv m1" "mem_heap m1 = mem_heap m"
      "struct_at m1 p = f'" "\<forall>r. r \<noteq> p \<longrightarrow> struct_at m1 r = struct_at m r"
      "\<forall>r. is_struct m1 r \<longleftrightarrow> is_struct m r" "mem_frame {p} m m1"
      using T(3) q_shapeD(1) [OF sh] by (rule mem_assign_ok)
    have st: "struct_at m1 r = struct_at m r" if "r \<in> q_own ?q" for r
      using that T(2) m1(5) by metis
    have sh1: "q_shape ?q m1"
      using T(1) st m1(2,6) by (auto simp: q_shape_def q_own_def)
    have it1: "frames_items m1 xs = frames_items m xs" "frames_items m1 ys = frames_items m ys"
      using st by (auto intro!: frames_items_cong simp: q_own_def)
    have sp: "is_struct m1 p" "length (f_slots (struct_at m1 p)) = unat (q_per_frame ?q)"
      using m1(4,6) T(3) f'(1) by simp_all
    obtain q' m' where q': "q_free_frame p ?q m1 = Inr (q', m')" "q_shape q' m'" "q_frame q' = q_frame ?q"
      "q_count q' = q_count ?q" "q_per_frame q' = q_per_frame ?q"
      "frames_items m' (q_frame ?q) = frames_items m1 (q_frame ?q)"
      "owns_step (insert p (q_own ?q)) m1 (q_own q') m'"
      using sh1 T(2) sp by (rule free_frame_ok)
    have rm: "remove1 p (q_frame q) = xs @ ys"
      using fs q_shapeD(3) [OF sh] by (simp add: remove1_append)
    have "owns_step (q_own q) m (q_own q) m1"
      using m1(7,3) by (rule owns_assign) (simp add: q_own_def fs)
    with q'(7) have "owns_step (q_own q) m (q_own q') m'"
      unfolding T(5) by (blast intro: owns_trans)
    then show thesis
      using that [OF m1(1), of q' m'] q' it1 True rm by (simp add: q_items_def empty_frame_objs)
  qed
qed

lemma pop_head_eq:
  assumes sh: "q_shape q m"
  shows "q_frame q = [] \<Longrightarrow> tt_queue_pop_head q m = Inr (TT_FAIL, None, q, m)"
    "q_frame q \<noteq> [] \<Longrightarrow> \<exists>x q' m'. tt_queue_pop_head q m = Inr (TT_SUCCESS, Some x, q', m')
      \<and> q_shape q' m' \<and> q_items q m = x # q_items q' m' \<and> q_count q' = q_count q - 1
      \<and> owns_step (q_own q) m (q_own q') m'"
proof -
  show "q_frame q = [] \<Longrightarrow> tt_queue_pop_head q m = Inr (TT_FAIL, None, q, m)"
    by (simp add: tt_queue_pop_head_def)
  assume "q_frame q \<noteq> []"
  then obtain p fs where fs: "q_frame q = [] @ p # fs" by (cases "q_frame q") auto
  note T = shape_take [OF sh fs]
  let ?f = "struct_at m p"
  let ?f' = "?f\<lparr>f_start := f_start ?f + 1\<rparr>"
  from T(4) obtain x where x: "f_get ?f (f_start ?f) = Inr x" "frame_objs ?f = x # frame_objs ?f'"
    "f_start ?f' \<noteq> f_end ?f' \<Longrightarrow> frame_ok (q_per_frame q) ?f'" "f_start ?f' = f_end ?f' \<Longrightarrow> frame_objs ?f' = []"
    "length (f_slots ?f') = unat (q_per_frame q)" by (rule frame_pop_head) blast
  from sh fs x(5,3) obtain m1 q' m' where m1: "mem_assign m p ?f' = Inr m1"
    "(if f_start ?f' = f_end ?f' then q_free_frame p (q\<lparr>q_frame := remove1 p (q_frame q)\<rparr>) m1 else Inr (q, m1)) = Inr (q', m')"
    "q_shape q' m'" "q_items q' m' = frames_items m [] @ frame_objs ?f' @ frames_items m fs"
    "q_count q' = q_count q" "owns_step (q_own q) m (q_own q') m'" by (rule pop_frame) blast
  have "tt_queue_pop_head q m = Inr (TT_SUCCESS, Some x, q'\<lparr>q_count := q_count q' - 1\<rparr>, m')"
    using fs mem_deref_ok [OF T(3)] x(1) m1(1,2) frame_okD(2) [OF T(4)]
    by (simp add: tt_queue_pop_head_def Let_def word_less_nat_alt)
  then show "\<exists>x q' m'. tt_queue_pop_head q m = Inr (TT_SUCCESS, Some x, q', m')
      \<and> q_shape q' m' \<and> q_items q m = x # q_items q' m' \<and> q_count q' = q_count q - 1
      \<and> owns_step (q_own q) m (q_own q') m'"
    using m1(3-6) fs x(2) by (auto simp: q_items_def)
qed

lemma pop_tail_eq:
  assumes sh: "q_shape q m"
  shows "q_frame q = [] \<Longrightarrow> tt_queue_pop_tail q m = Inr (TT_FAIL, None, q, m)"
    "q_frame q \<noteq> [] \<Longrightarrow> \<exists>x q' m'. tt_queue_pop_tail q m = Inr (TT_SUCCESS, Some x, q', m')
      \<and> q_shape q' m' \<and> q_items q m = q_items q' m' @ [x] \<and> q_count q' = q_count q - 1
      \<and> owns_step (q_own q) m (q_own q') m'"
proof -
  show "q_frame q = [] \<Longrightarrow> tt_queue_pop_tail q m = Inr (TT_FAIL, None, q, m)"
    by (simp add: tt_queue_pop_tail_def)
  assume "q_frame q \<noteq> []"
  then obtain p fs where fs: "q_frame q = fs @ p # []" by (metis rev_exhaust)
  note T = shape_take [OF sh fs]
  let ?f = "struct_at m p"
  let ?f' = "?f\<lparr>f_end := f_end ?f - 1\<rparr>"
  from T(4) obtain x where x: "f_get ?f' (f_end ?f') = Inr x" "frame_objs ?f = frame_objs ?f' @ [x]"
    "f_start ?f' \<noteq> f_end ?f' \<Longrightarrow> frame_ok (q_per_frame q) ?f'" "f_start ?f' = f_end ?f' \<Longrightarrow> frame_objs ?f' = []"
    "length (f_slots ?f') = unat (q_per_frame q)" by (rule frame_pop_tail) blast
  from sh fs x(5,3) obtain m1 q' m' where m1: "mem_assign m p ?f' = Inr m1"
    "(if f_start ?f' = f_end ?f' then q_free_frame p (q\<lparr>q_frame := remove1 p (q_frame q)\<rparr>) m1 else Inr (q, m1)) = Inr (q', m')"
    "q_shape q' m'" "q_items q' m' = frames_items m fs @ frame_objs ?f' @ frames_items m []"
    "q_count q' = q_count q" "owns_step (q_own q) m (q_own q') m'" by (rule pop_frame) blast
  have "tt_queue_pop_tail q m = Inr (TT_SUCCESS, Some x, q'\<lparr>q_count := q_count q' - 1\<rparr>, m')"
    using fs mem_deref_ok [OF T(3)] x(1) m1(1,2) frame_okD(2) [OF T(4)]
    by (simp add: tt_queue_pop_tail_def Let_def word_less_nat_alt)
  then show "\<exists>x q' m'. tt_queue_pop_tail q m = Inr (TT_SUCCESS, Some x, q', m')
      \<and> q_shape q' m' \<and> q_items q m = q_items q' m' @ [x] \<and> q_count q' = q_count q - 1
      \<and> owns_step (q_own q) m (q_own q') m'"
    using m1(3-6) fs x(2) by (auto simp: q_items_def)
qed

section \<open>The queue is a double-ended queue\<close>

fun queue_step :: "'a dq_op \<Rightarrow> 'z frame_queue_scheme \<times> 'a q_mem \<Rightarrow> ('a answer \<times> ('z frame_queue_scheme \<times> 'a q_mem)) run" where
  "queue_step (PushHead x) (q, m) =
    bindr (tt_queue_push_head x q m) (\<lambda>(r, s). Inr (if TT_OK r then Done else NoMem, s))"
| "queue_step (PushTail x) (q, m) =
    bindr (tt_queue_push_tail x q m) (\<lambda>(r, s). Inr (if TT_OK r then Done else NoMem, s))"
| "queue_step PopHead (q, m) =
    bindr (tt_queue_pop_head q m) (\<lambda>(r, x, s). Inr (case x of Some y \<Rightarrow> Got y | None \<Rightarrow> Empty, s))"
| "queue_step PopTail (q, m) =
    bindr (tt_queue_pop_tail q m) (\<lambda>(r, x, s). Inr (case x of Some y \<Rightarrow> Got y | None \<Rightarrow> Empty, s))"

text \<open>The invariant, and that the queue owns nothing but what it allocated since the store was \<open>m0\<close>.\<close>

definition queue_ok :: "'a q_mem \<Rightarrow> 'z frame_queue_scheme \<times> 'a q_mem \<Rightarrow> bool" where
  "queue_ok m0 s \<longleftrightarrow> (case s of (q, m) \<Rightarrow> q_inv q m \<and> owns_step {} m0 (q_own q) m)"

definition queue_list :: "'z frame_queue_scheme \<times> 'a q_mem \<Rightarrow> 'a list" where
  "queue_list s = (case s of (q, m) \<Rightarrow> q_items q m)"

lemma pushes_cases:
  assumes "pushes q m ys out"
  obtains (ok) q' m' where "out = Inr (TT_SUCCESS, q', m')" "q_shape q' m'" "owns_step (q_own q) m (q_own q') m'"
      "q_items q' m' = ys" "q_count q' = q_count q + 1"
  | (fail) q' m' where "out = Inr (TT_FAIL, q', m')" "q_shape q' m'" "owns_step (q_own q) m (q_own q') m'"
      "q_items q' m' = q_items q m" "q_count q' = q_count q"
  using assms unfolding pushes_def by blast

lemma items_Nil_iff:
  assumes "q_shape q m"
  shows "q_items q m = [] \<longleftrightarrow> q_frame q = []"
proof (cases "q_frame q")
  case (Cons p fs)
  then have "frame_ok (q_per_frame q) (struct_at m p)" using q_shapeD(6) [OF assms] by simp
  from length_frame_objs [OF this] frame_okD(2) [OF this] have "frame_objs (struct_at m p) \<noteq> []" by auto
  with Cons show ?thesis by (simp add: q_items_def)
qed (simp add: q_items_def)

lemma count_up: "unat c = n \<Longrightarrow> Suc n < 2 ^ 32 \<Longrightarrow> unat (c + 1 :: u32) = Suc n"
  using unat_add_u32 [of c 1] by simp

lemma count_down: "unat c = Suc n \<Longrightarrow> unat (c - 1 :: u32) = n"
  using unat_sub_u32 [of 1 c] by simp

lemma push_step_ok:
  assumes inv: "q_inv q m" and own: "owns_step {} m0 (q_own q) m" and lt: "Suc (length (q_items q m)) < 2 ^ 32"
    and p: "pushes q m ys out" and ys: "length ys = Suc (length (q_items q m))"
  shows "\<exists>a s'. bindr out (\<lambda>(r, s). Inr (if TT_OK r then Done else NoMem, s)) = Inr (a, s') \<and> queue_ok m0 s'
    \<and> (a = Done \<and> queue_list s' = ys \<or> a = NoMem \<and> queue_list s' = q_items q m)"
  using p
proof (cases rule: pushes_cases)
  case (ok q' m')
  then show ?thesis
    using inv lt ys count_up [of "q_count q" "length (q_items q m)"] owns_trans [OF own ok(3)]
    by (simp add: queue_ok_def queue_list_def q_inv_def)
next
  case (fail q' m')
  then show ?thesis
    using inv owns_trans [OF own fail(3)] by (simp add: queue_ok_def queue_list_def q_inv_def)
qed

lemma queue_step_refines:
  assumes ok: "queue_ok m0 s" and lt: "Suc (length (queue_list s)) < 2 ^ 32"
  shows "\<exists>a s'. queue_step op s = Inr (a, s') \<and> queue_ok m0 s' \<and> dq_spec op (queue_list s) a (queue_list s')"
proof -
  obtain q m where s: "s = (q, m)" by (cases s)
  have inv: "q_inv q m" and sh: "q_shape q m" and own: "owns_step {} m0 (q_own q) m"
    and lt': "Suc (length (q_items q m)) < 2 ^ 32"
    using ok lt s by (auto simp: queue_ok_def queue_list_def q_inv_def)
  have l: "queue_list s = q_items q m" by (simp add: s queue_list_def)
  show ?thesis
  proof (cases op)
    case (PushHead x)
    with push_step_ok [OF inv own lt' push_head_pushes [OF sh, of x]] l s show ?thesis
      by (auto simp: dq_spec_simps)
  next
    case (PushTail x)
    with push_step_ok [OF inv own lt' push_tail_pushes [OF sh, of x]] l s show ?thesis
      by (auto simp: dq_spec_simps)
  next
    case PopHead
    show ?thesis
    proof (cases "q_frame q = []")
      case True
      then show ?thesis
        using PopHead s ok pop_head_eq(1) [OF sh] items_Nil_iff [OF sh] l by (auto simp: dq_spec_simps)
    next
      case False
      then obtain x q' m' where q': "tt_queue_pop_head q m = Inr (TT_SUCCESS, Some x, q', m')"
        "q_shape q' m'" "q_items q m = x # q_items q' m'" "q_count q' = q_count q - 1"
        "owns_step (q_own q) m (q_own q') m'" using pop_head_eq(2) [OF sh] by blast
      then have "queue_ok m0 (q', m')"
        using inv owns_trans [OF own q'(5)] count_down [of "q_count q" "length (q_items q' m')"]
        by (simp add: queue_ok_def q_inv_def)
      with PopHead s q' l show ?thesis by (auto simp: dq_spec_simps queue_list_def)
    qed
  next
    case PopTail
    show ?thesis
    proof (cases "q_frame q = []")
      case True
      then show ?thesis
        using PopTail s ok pop_tail_eq(1) [OF sh] items_Nil_iff [OF sh] l by (auto simp: dq_spec_simps)
    next
      case False
      then obtain x q' m' where q': "tt_queue_pop_tail q m = Inr (TT_SUCCESS, Some x, q', m')"
        "q_shape q' m'" "q_items q m = q_items q' m' @ [x]" "q_count q' = q_count q - 1"
        "owns_step (q_own q) m (q_own q') m'" using pop_tail_eq(2) [OF sh] by blast
      then have "queue_ok m0 (q', m')"
        using inv owns_trans [OF own q'(5)] count_down [of "q_count q" "length (q_items q' m')"]
        by (simp add: queue_ok_def q_inv_def)
      with PopTail s q' l show ?thesis by (auto simp: dq_spec_simps queue_list_def)
    qed
  qed
qed

interpretation tq: deque "queue_ok m0" queue_list queue_step "2 ^ 32"
  for m0 :: "'a q_mem"
  by unfold_locales (rule queue_step_refines)

section \<open>Destruction\<close>

lemma free_frames_ok:
  assumes "mem_inv m" "distinct ps" "\<forall>p \<in> set ps. is_struct m p"
  obtains m' where "free_frames ps m = Inr m'" "mem_inv m'" "mem_heap m' = mem_heap m - set ps"
    "\<forall>r. r \<notin> set ps \<longrightarrow> (is_struct m' r \<longleftrightarrow> is_struct m r)" "mem_frame (set ps) m m'"
  using assms
proof (induction ps arbitrary: m thesis)
  case Nil
  from Nil.prems(1) [of m] Nil.prems(2) show thesis by simp
next
  case (Cons p ps)
  have "is_struct m p" using Cons.prems(4) by simp
  from this Cons.prems(2) obtain m1 where m1: "tt_free (Some p) m = Inr m1" "mem_inv m1" "mem_heap m1 = mem_heap m - {p}"
    "\<forall>q. q \<noteq> p \<longrightarrow> struct_at m1 q = struct_at m q" "\<forall>q. q \<noteq> p \<longrightarrow> (is_struct m1 q \<longleftrightarrow> is_struct m q)"
    "mem_frame {p} m m1" by (rule free_struct)
  have "\<forall>r \<in> set ps. is_struct m1 r" "distinct ps" using m1(5) Cons.prems(3,4) by auto
  from Cons.IH [OF _ m1(2) this(2,1)]
  obtain m2 where m2: "free_frames ps m1 = Inr m2" "mem_inv m2" "mem_heap m2 = mem_heap m1 - set ps"
    "\<forall>r. r \<notin> set ps \<longrightarrow> (is_struct m2 r \<longleftrightarrow> is_struct m1 r)" "mem_frame (set ps) m1 m2" by blast
  have "mem_frame (set (p # ps)) m m2"
    using mem_frame_trans [OF m1(6) m2(5)] by simp
  with Cons.prems(1) [of m2] m1 m2 show thesis by auto
qed

lemma queue_destroy_ok:
  assumes "q_shape q m"
  obtains m' where "tt_queue_destroy q m = Inr m'" "mem_inv m'" "mem_heap m' = mem_heap m - q_own q"
    "mem_frame (q_own q) m m'"
proof -
  note D = q_shapeD [OF assms]
  have "\<forall>p \<in> set (q_frame q). is_struct m p" using D(5) by simp
  with D(1,3) obtain m1 where m1: "free_frames (q_frame q) m = Inr m1" "mem_inv m1"
    "mem_heap m1 = mem_heap m - set (q_frame q)"
    "\<forall>r. r \<notin> set (q_frame q) \<longrightarrow> (is_struct m1 r \<longleftrightarrow> is_struct m r)" "mem_frame (set (q_frame q)) m m1"
    by (rule free_frames_ok)
  show thesis
  proof (cases "q_cached_frame q")
    case None
    with that [of m1] m1 show thesis by (simp add: tt_queue_destroy_def q_own_def)
  next
    case (Some c)
    have "is_struct m1 c" using m1(4) D(4) D(7) [OF Some] Some by simp
    from this m1(2) obtain m2 where m2: "tt_free (Some c) m1 = Inr m2" "mem_inv m2" "mem_heap m2 = mem_heap m1 - {c}"
      "mem_frame {c} m1 m2" by (rule free_struct) blast
    have own: "q_own q = set (q_frame q) \<union> {c}" by (simp add: q_own_def Some)
    have "tt_queue_destroy q m = Inr m2" using m1(1) m2(1) Some by (simp add: tt_queue_destroy_def)
    moreover have "mem_heap m2 = mem_heap m - q_own q" unfolding own m2(3) m1(3) by blast
    moreover have "mem_frame (q_own q) m m2" unfolding own using m1(5) m2(4) by (rule mem_frame_trans)
    ultimately show thesis using that m2(2) by blast
  qed
qed

section \<open>Clearing\<close>

lemma clear_frames_ok:
  assumes "q_shape q m"
  shows "\<exists>q' m'. clear_frames (q_frame q) q m = Inr (q', m') \<and> q_shape q' m' \<and> q_frame q' = []
    \<and> q_count q' = q_count q \<and> owns_step (q_own q) m (q_own q') m'"
  using assms
proof (induction "q_frame q" arbitrary: q m)
  case Nil
  then have fs: "q_frame q = []" by simp
  with Nil.prems show ?case by (simp add: q_shape_def q_own_def owns_refl)
next
  case (Cons p fs)
  have fs: "q_frame q = [] @ p # fs" using Cons.hyps(2) by simp
  note T = shape_take [OF Cons.prems fs]
  let ?q = "q\<lparr>q_frame := fs\<rparr>"
  have sh: "q_shape ?q m" and np: "p \<notin> q_own ?q" and own: "insert p (q_own ?q) = q_own q" using T(1,2,5) by simp_all
  have len: "length (f_slots (struct_at m p)) = unat (q_per_frame ?q)" using frame_okD(1) [OF T(4)] by simp
  obtain q1 m1 where q0: "q_free_frame p ?q m = Inr (q1, m1)" "q_shape q1 m1" "q_frame q1 = q_frame ?q"
    "q_count q1 = q_count ?q" "owns_step (insert p (q_own ?q)) m (q_own q1) m1"
    using sh np T(3) len by (rule free_frame_ok)
  have q1: "q_free_frame p ?q m = Inr (q1, m1)" "q_shape q1 m1" "q_frame q1 = fs"
    "q_count q1 = q_count q" "owns_step (q_own q) m (q_own q1) m1"
    using q0 own by simp_all
  from Cons.hyps(1) [OF q1(3) [symmetric] q1(2)] obtain q' m' where q': "clear_frames fs q1 m1 = Inr (q', m')"
    "q_shape q' m'" "q_frame q' = []" "q_count q' = q_count q1" "owns_step (q_own q1) m1 (q_own q') m'"
    using q1(3) by auto
  then show ?case
    using q1(1,4) owns_trans [OF q1(5) q'(5)] by (simp add: Cons.hyps(2) [symmetric])
qed

lemma queue_clear_ok:
  assumes "q_shape q m"
  shows "\<exists>q' m'. tt_queue_clear q m = Inr (q', m') \<and> q_inv q' m' \<and> q_items q' m' = []
    \<and> owns_step (q_own q) m (q_own q') m'"
proof -
  obtain q' m' where q': "clear_frames (q_frame q) q m = Inr (q', m')" "q_shape q' m'" "q_frame q' = []"
    "owns_step (q_own q) m (q_own q') m'" using clear_frames_ok [OF assms] by blast
  then show ?thesis
    by (auto simp: tt_queue_clear_def q_inv_def q_items_def q_own_def q_shape_def)
qed

section \<open>Iteration\<close>

lemma node_next_split:
  "distinct (xs @ p # ys) \<Longrightarrow> node_next (xs @ p # ys) p = (case ys of [] \<Rightarrow> None | y # zs \<Rightarrow> Some y)"
proof (induction xs)
  case Nil
  then show ?case by (cases ys) auto
next
  case (Cons x xs)
  then show ?case by (cases xs) auto
qed

text \<open>An iterator stands in a frame of the queue; what it has still to deliver.\<close>

definition iter_at :: "'z frame_queue_scheme \<Rightarrow> 'a q_mem \<Rightarrow> queue_iter \<Rightarrow> 'a list \<Rightarrow> bool" where
  "iter_at q m it rest \<longleftrightarrow> (case it_frame it of None \<Rightarrow> rest = []
     | Some p \<Rightarrow> \<exists>xs ys. q_frame q = xs @ p # ys \<and> unat (it_idx it) \<le> length (frame_objs (struct_at m p))
         \<and> rest = drop (unat (it_idx it)) (frame_objs (struct_at m p)) @ frames_items m ys)"

lemma iter_at_start: "iter_at q m (tt_queue_iter q) (q_items q m)"
proof (cases "q_frame q")
  case (Cons p fs)
  then have "q_frame q = [] @ p # fs" by simp
  then show ?thesis
    using Cons by (auto simp: iter_at_def tt_queue_iter_def q_items_def)
qed (simp add: iter_at_def tt_queue_iter_def q_items_def)

lemma frame_get:
  assumes ok: "frame_ok n f" and k: "unat k < length (frame_objs f)"
  shows "f_get f (f_start f + k) = Inr (frame_objs f ! unat k)" "f_start f + k < f_end f"
    "unat (f_start f + k) = unat (f_start f) + unat k"
proof -
  note D = frame_okD [OF ok] and l = length_frame_objs [OF ok]
  have lt: "unat (f_start f) + unat k < unat (f_end f)" using k l D(2) by linarith
  then show u: "unat (f_start f + k) = unat (f_start f) + unat k"
    using unat_lt_32 [of "f_end f"] by (intro unat_add_u32) linarith
  show "f_start f + k < f_end f" using u lt by (simp add: word_less_nat_alt)
  obtain x where x: "f_slots f ! (unat (f_start f) + unat k) = Some x" using D(4) lt by (meson le_add1)
  moreover have "unat (f_start f) + unat k < length (f_slots f)" using lt D(1,3) by linarith
  moreover have "frame_objs f ! unat k = the (f_slots f ! (unat (f_start f) + unat k))"
    using k l calculation(2) by (simp add: frame_objs_def nth_take_drop)
  ultimately show "f_get f (f_start f + k) = Inr (frame_objs f ! unat k)"
    using u by (simp add: f_get_def)
qed

lemma iter_next_ok:
  assumes sh: "q_shape q m" and it: "iter_at q m it rest"
  shows "case rest of
      [] \<Rightarrow> tt_queue_iter_next q m it = Inr (None, it)
    | x # rest' \<Rightarrow> (\<exists>p i it'. tt_queue_iter_next q m it = Inr (Some (p, i), it')
        \<and> p \<in> set (q_frame q) \<and> f_get (struct_at m p) i = Inr x \<and> iter_at q m it' rest')"
proof (cases "it_frame it")
  case None
  with it show ?thesis by (simp add: iter_at_def tt_queue_iter_next_def)
next
  case (Some p)
  with it obtain xs ys where fs: "q_frame q = xs @ p # ys"
    and le: "unat (it_idx it) \<le> length (frame_objs (struct_at m p))"
    and rest: "rest = drop (unat (it_idx it)) (frame_objs (struct_at m p)) @ frames_items m ys"
    by (auto simp: iter_at_def)
  let ?f = "struct_at m p"
  note T = shape_take [OF sh fs]
  note D = frame_okD [OF T(4)] and l = length_frame_objs [OF T(4)]
  show ?thesis
  proof (cases "unat (it_idx it) < length (frame_objs ?f)")
    case True
    note g = frame_get [OF T(4) True]
    let ?it = "it\<lparr>it_idx := it_idx it + 1\<rparr>"
    have n: "tt_queue_iter_next q m it = Inr (Some (p, f_start ?f + it_idx it), ?it)"
      using Some mem_deref_ok [OF T(3)] g(2) by (auto simp: tt_queue_iter_next_def order.strict_implies_order)
    have r: "rest = frame_objs ?f ! unat (it_idx it) # (drop (Suc (unat (it_idx it))) (frame_objs ?f) @ frames_items m ys)"
      using rest True by (simp add: Cons_nth_drop_Suc [symmetric])
    have "length (frame_objs ?f) < 4294967296" using l unat_lt_32 [of "f_end ?f"] by linarith
    then have u: "unat (it_idx it + 1) = Suc (unat (it_idx it))"
      using True unat_add_u32 [of "it_idx it" 1] by simp
    have "iter_at q m ?it (drop (Suc (unat (it_idx it))) (frame_objs ?f) @ frames_items m ys)"
      using Some fs True u by (auto simp: iter_at_def)
    with n r g(1) fs show ?thesis by auto
  next
    case False
    then have e: "unat (it_idx it) = unat (f_end ?f) - unat (f_start ?f)" using le l by simp
    then have "unat (f_start ?f + it_idx it) = unat (f_end ?f)"
      using D(2) unat_lt_32 [of "f_end ?f"] by (subst unat_add_u32) auto
    then have se: "f_start ?f + it_idx it = f_end ?f" by (simp add: word_unat_eq_iff)
    have r: "rest = frames_items m ys" using rest False by simp
    have nx: "node_next (q_frame q) p = (case ys of [] \<Rightarrow> None | y # zs \<Rightarrow> Some y)"
      using fs q_shapeD(3) [OF sh] by (simp only: node_next_split)
    show ?thesis
    proof (cases ys)
      case Nil
      then show ?thesis
        using Some mem_deref_ok [OF T(3)] se r nx by (simp add: tt_queue_iter_next_def)
    next
      case (Cons y zs)
      have fs': "q_frame q = (xs @ [p]) @ y # zs" using fs Cons by simp
      note T' = shape_take [OF sh fs']
      have pos: "unat (0 :: u32) < length (frame_objs (struct_at m y))"
        using length_frame_objs [OF T'(4)] frame_okD(2) [OF T'(4)] by simp
      note g = frame_get [OF T'(4) pos]
      have n: "tt_queue_iter_next q m it = Inr (Some (y, f_start (struct_at m y)), \<lparr>it_frame = Some y, it_idx = 1\<rparr>)"
        using Some mem_deref_ok [OF T(3)] mem_deref_ok [OF T'(3)] se nx Cons by (simp add: tt_queue_iter_next_def)
      have rr: "rest = frame_objs (struct_at m y) ! 0 # (drop 1 (frame_objs (struct_at m y)) @ frames_items m zs)"
        using r Cons pos by (cases "frame_objs (struct_at m y)") auto
      have "iter_at q m \<lparr>it_frame = Some y, it_idx = 1\<rparr> (drop 1 (frame_objs (struct_at m y)) @ frames_items m zs)"
      proof -
        have "Suc 0 \<le> length (frame_objs (struct_at m y))" using pos by (simp add: Suc_le_eq)
        moreover have "xs @ p # y # zs = (xs @ [p]) @ y # zs" by simp
        ultimately show ?thesis using fs' unfolding iter_at_def by (simp del: append_assoc) blast
      qed
      with n rr g(1) fs' show ?thesis by auto
    qed
  qed
qed

section \<open>Access by index\<close>

text \<open>In a queue all of whose frames start at slot 0, the object at an index is the one of the list.\<close>

lemma get_loop_ok:
  assumes "\<forall>p \<in> set ps. is_struct m p \<and> frame_ok n (struct_at m p) \<and> f_start (struct_at m p) = 0"
    and "unat i < length (frames_items m ps)"
  shows "get_loop ps i m = Inr (TT_SUCCESS, Some (frames_items m ps ! unat i))"
  using assms
proof (induction ps arbitrary: i)
  case (Cons p ps)
  let ?f = "struct_at m p"
  have ok: "frame_ok n ?f" "is_struct m p" "f_start ?f = 0" using Cons.prems(1) by auto
  have l: "length (frame_objs ?f) = unat (f_end ?f)" using length_frame_objs [OF ok(1)] ok(3) by simp
  show ?case
  proof (cases "unat i < unat (f_end ?f)")
    case True
    with frame_get(1) [OF ok(1), of i] l ok mem_deref_ok [OF ok(2)] show ?thesis
      by (simp add: word_less_nat_alt nth_append)
  next
    case False
    then have u: "unat (i - f_end ?f) = unat i - unat (f_end ?f)" by (simp add: unat_sub_u32)
    have "get_loop ps (i - f_end ?f) m = Inr (TT_SUCCESS, Some (frames_items m ps ! unat (i - f_end ?f)))"
      using Cons.prems False u l by (intro Cons.IH) auto
    then show ?thesis
      using False ok(3) mem_deref_ok [OF ok(2)] u l by (simp add: word_less_nat_alt nth_append)
  qed
qed simp

lemma queue_get_ok:
  assumes inv: "q_inv q m" and z: "\<forall>p \<in> set (q_frame q). f_start (struct_at m p) = 0"
  shows "tt_queue_get i q m =
    Inr (if unat i < length (q_items q m) then (TT_SUCCESS, Some (q_items q m ! unat i)) else (TT_FAIL, None))"
  using get_loop_ok [of "q_frame q" m "q_per_frame q" i] inv z
  by (auto simp: tt_queue_get_def q_inv_def q_items_def word_le_nat_alt q_shapeD)

text \<open>
  In general the index counts down over the frames before it by their numbers of objects, and is then taken from the
  start of the frame's array, not from its first object.
\<close>

lemma get_loop_frame:
  assumes "\<forall>p \<in> set (ps @ [p]). is_struct m p \<and> frame_ok n (struct_at m p)"
    and "length (frames_items m ps) \<le> unat i" "unat i < length (frames_items m (ps @ [p]))"
  shows "get_loop (ps @ p # qs) i m
    = bindr (f_get (struct_at m p) (i - of_nat (length (frames_items m ps)))) (\<lambda>x. Inr (TT_SUCCESS, Some x))"
  using assms
proof (induction ps arbitrary: i)
  case Nil
  have ok: "frame_ok n (struct_at m p)" "is_struct m p" using Nil.prems(1) by auto
  have "unat (f_end (struct_at m p) - f_start (struct_at m p)) = length (frame_objs (struct_at m p))"
    using length_frame_objs [OF ok(1)] frame_okD(2) [OF ok(1)] by (simp add: unat_sub_u32)
  then show ?case using Nil.prems(3) mem_deref_ok [OF ok(2)] by (simp add: word_less_nat_alt)
next
  case (Cons y ps)
  let ?f = "struct_at m y" and ?n = "f_end (struct_at m y) - f_start (struct_at m y)"
  have ok: "frame_ok n ?f" "is_struct m y" using Cons.prems(1) by auto
  have l: "unat ?n = length (frame_objs ?f)"
    using length_frame_objs [OF ok(1)] frame_okD(2) [OF ok(1)] by (simp add: unat_sub_u32)
  then have n: "of_nat (length (frame_objs ?f)) = ?n" by (simp flip: l)
  have k: "\<not> i < ?n" "unat (i - ?n) = unat i - length (frame_objs ?f)"
    using Cons.prems(2) l by (simp_all add: word_less_nat_alt unat_sub_u32)
  have "get_loop (ps @ p # qs) (i - ?n) m
      = bindr (f_get (struct_at m p) (i - ?n - of_nat (length (frames_items m ps)))) (\<lambda>x. Inr (TT_SUCCESS, Some x))"
    using Cons.prems k by (intro Cons.IH) auto
  moreover have "i - of_nat (length (frames_items m (y # ps))) = i - ?n - of_nat (length (frames_items m ps))"
    unfolding n [symmetric] by (simp add: diff_diff_eq)
  moreover have "get_loop ((y # ps) @ p # qs) i m = get_loop (ps @ p # qs) (i - ?n) m"
    using k(1) mem_deref_ok [OF ok(2)] by simp
  ultimately show ?case by (simp only:)
qed

lemma queue_get_frame:
  assumes inv: "q_inv q m" and fs: "q_frame q = ps @ p # qs"
    and i: "length (frames_items m ps) \<le> unat i" "unat i < length (frames_items m (ps @ [p]))"
  shows "tt_queue_get i q m
    = bindr (f_get (struct_at m p) (i - of_nat (length (frames_items m ps)))) (\<lambda>x. Inr (TT_SUCCESS, Some x))"
proof -
  have sh: "q_shape q m" and c: "unat (q_count q) = length (q_items q m)" using inv by (auto simp: q_inv_def)
  have "\<forall>y \<in> set (ps @ [p]). is_struct m y \<and> frame_ok (q_per_frame q) (struct_at m y)"
    using q_shapeD(5,6) [OF sh] fs by auto
  from get_loop_frame [OF this i] show ?thesis
    using c fs i(2) by (simp add: tt_queue_get_def q_items_def word_le_nat_alt)
qed

end
