(* ===== verification/TT_Stack.thy ===== *)
theory TT_Stack
  imports TT_Queue
begin

text \<open>
  The stack of objects of \<^verbatim>\<open>algorithm/tt_stack.c\<close> and the stack of pointers of
  \<^verbatim>\<open>algorithm/ptr/tt_ptr_stack.c\<close>. Both keep a list of frames on the heap, each an array filled from
  its start up to \<^verbatim>\<open>top\<close>; the last frame holds the top of the stack, and one spare frame is kept. The
  structs \<^verbatim>\<open>tt_stack_t\<close> and \<^verbatim>\<open>tt_ptrstk_t\<close> have the fields of the queues' structs, hence the same records.
\<close>

section \<open>Data\<close>

record 'a s_frame =
  s_top :: u32
  s_slots :: "'a option list"

type_synonym 'a s_mem = "'a s_frame mem"
type_synonym tt_stack = tt_queue
type_synonym tt_ptrstk = frame_queue
type_synonym stack_iter = queue_iter

definition s_get :: "'a s_frame \<Rightarrow> u32 \<Rightarrow> 'a run" where
  "s_get f i = (if unat i < length (s_slots f)
     then case s_slots f ! unat i of Some x \<Rightarrow> Inr x | None \<Rightarrow> Inl Undef else Inl Undef)"

definition s_put :: "'a s_frame \<Rightarrow> u32 \<Rightarrow> 'a \<Rightarrow> 'a s_frame run" where
  "s_put f i x = (if unat i < length (s_slots f)
     then Inr (f\<lparr>s_slots := (s_slots f)[unat i := Some x]\<rparr>) else Inl Undef)"

section \<open>The stack of objects\<close>

definition s_alloc_frame :: "'z frame_queue_scheme \<Rightarrow> 'a s_mem \<Rightarrow> (ptr \<times> 'z frame_queue_scheme \<times> 'a s_mem) run" where
  "s_alloc_frame stk m =
    (case q_cached_frame stk of
       Some frame \<Rightarrow>
         bindr (mem_deref m frame) (\<lambda>f.
         bindr (mem_assign m frame (f\<lparr>s_top := 0\<rparr>)) (\<lambda>m.
         Inr (Some frame, stk\<lparr>q_cached_frame := None\<rparr>, m)))
     | None \<Rightarrow>
         (case malloc_struct m of
            (None, m) \<Rightarrow> Inr (None, stk, m)
          | (Some frame, m) \<Rightarrow>
              bindr (mem_assign m frame \<lparr>s_top = 0, s_slots = replicate (unat (q_per_frame stk)) None\<rparr>) (\<lambda>m.
              Inr (Some frame, stk, m))))"

definition s_free_frame :: "nat \<Rightarrow> 'z frame_queue_scheme \<Rightarrow> 'a s_mem \<Rightarrow> ('z frame_queue_scheme \<times> 'a s_mem) run" where
  "s_free_frame frame stk m =
    (if q_cached_frame stk \<noteq> None then bindr (tt_free (Some frame) m) (\<lambda>m. Inr (stk, m))
     else Inr (stk\<lparr>q_cached_frame := Some frame\<rparr>, m))"

definition tt_stack_attr_default :: u32 where "tt_stack_attr_default = 16"

definition tt_stack_init :: "u32 \<Rightarrow> u32 option \<Rightarrow> tt_stack run" where
  "tt_stack_init obj_size attr =
    bindr (TT_ASSERT (obj_size \<noteq> 0)) (\<lambda>_.
    let obj_per_frame = (case attr of None \<Rightarrow> tt_stack_attr_default | Some n \<Rightarrow> n) in
    bindr (TT_ASSERT (obj_per_frame \<noteq> 0)) (\<lambda>_.
    bindr (TT_ASSERT (\<not> TT_U32_MUL_WOULD_OVFL obj_size obj_per_frame)) (\<lambda>_.
    Inr \<lparr>q_frame = [], q_cached_frame = None, q_count = 0, q_per_frame = obj_per_frame,
         q_obj_size = obj_size\<rparr>)))"

primrec s_free_frames :: "nat list \<Rightarrow> 'a s_mem \<Rightarrow> 'a s_mem run" where
  "s_free_frames [] m = Inr m"
| "s_free_frames (frame # fs) m = bindr (tt_free (Some frame) m) (\<lambda>m. s_free_frames fs m)"

definition tt_stack_destroy :: "'z frame_queue_scheme \<Rightarrow> 'a s_mem \<Rightarrow> 'a s_mem run" where
  "tt_stack_destroy stk m =
    bindr (s_free_frames (q_frame stk) m) (\<lambda>m.
    if q_cached_frame stk \<noteq> None then tt_free (q_cached_frame stk) m else Inr m)"

primrec s_clear_frames :: "nat list \<Rightarrow> 'z frame_queue_scheme \<Rightarrow> 'a s_mem \<Rightarrow> ('z frame_queue_scheme \<times> 'a s_mem) run" where
  "s_clear_frames [] stk m = Inr (stk\<lparr>q_frame := []\<rparr>, m)"
| "s_clear_frames (frame # fs) stk m =
    bindr (s_free_frame frame (stk\<lparr>q_frame := fs\<rparr>) m) (\<lambda>(stk, m). s_clear_frames fs stk m)"

definition tt_stack_clear :: "'z frame_queue_scheme \<Rightarrow> 'a s_mem \<Rightarrow> ('z frame_queue_scheme \<times> 'a s_mem) run" where
  "tt_stack_clear stk m =
    bindr (s_clear_frames (q_frame stk) stk m) (\<lambda>(stk, m). Inr (stk\<lparr>q_count := 0\<rparr>, m))"

definition tt_stack_count :: "'z frame_queue_scheme \<Rightarrow> u32" where "tt_stack_count stk = q_count stk"

definition tt_stack_empty :: "'z frame_queue_scheme \<Rightarrow> bool" where "tt_stack_empty stk \<longleftrightarrow> q_count stk = 0"

text \<open>Append a new frame; \<open>None\<close> when there is no memory.\<close>

definition s_new_tail :: "'z frame_queue_scheme \<Rightarrow> 'a s_mem \<Rightarrow> (ptr \<times> 'z frame_queue_scheme \<times> 'a s_mem) run" where
  "s_new_tail stk m = bindr (s_alloc_frame stk m) (\<lambda>(p, stk, m).
    case p of None \<Rightarrow> Inr (None, stk, m)
    | Some frame \<Rightarrow> Inr (Some frame, stk\<lparr>q_frame := q_frame stk @ [frame]\<rparr>, m))"

definition tt_stack_push ::
  "'a \<Rightarrow> 'z frame_queue_scheme \<Rightarrow> 'a s_mem \<Rightarrow> (tt_result \<times> 'z frame_queue_scheme \<times> 'a s_mem) run" where
  "tt_stack_push obj stk m =
    bindr (if q_frame stk \<noteq> [] then Inr (Some (last (q_frame stk)), stk, m) else s_new_tail stk m) (\<lambda>(p, stk, m).
    case p of None \<Rightarrow> Inr (TT_FAIL, stk, m)
    | Some frame \<Rightarrow>
      bindr (mem_deref m frame) (\<lambda>f.
      bindr (if s_top f = q_per_frame stk then s_new_tail stk m else Inr (Some frame, stk, m)) (\<lambda>(p, stk, m).
      case p of None \<Rightarrow> Inr (TT_FAIL, stk, m)
      | Some frame \<Rightarrow>
        bindr (mem_deref m frame) (\<lambda>f.
        bindr (TT_ASSERT (s_top f < q_per_frame stk)) (\<lambda>_.
        bindr (s_put f (s_top f) obj) (\<lambda>f.
        bindr (mem_assign m frame (f\<lparr>s_top := s_top f + 1\<rparr>)) (\<lambda>m.
        Inr (TT_SUCCESS, stk\<lparr>q_count := q_count stk + 1\<rparr>, m))))))))"

definition tt_stack_pop ::
  "'z frame_queue_scheme \<Rightarrow> 'a s_mem \<Rightarrow> (tt_result \<times> 'a option \<times> 'z frame_queue_scheme \<times> 'a s_mem) run" where
  "tt_stack_pop stk m =
    (if q_frame stk = [] then Inr (TT_FAIL, None, stk, m)
     else
       let frame = last (q_frame stk) in
       bindr (mem_deref m frame) (\<lambda>f.
       bindr (TT_ASSERT (s_top f > 0)) (\<lambda>_.
       let f = f\<lparr>s_top := s_top f - 1\<rparr> in
       bindr (s_get f (s_top f)) (\<lambda>obj.
       bindr (mem_assign m frame f) (\<lambda>m.
       bindr (if s_top f = 0
              then s_free_frame frame (stk\<lparr>q_frame := remove1 frame (q_frame stk)\<rparr>) m else Inr (stk, m)) (\<lambda>(stk, m).
       Inr (TT_SUCCESS, Some obj, stk\<lparr>q_count := q_count stk - 1\<rparr>, m)))))))"

text \<open>\<^verbatim>\<open>tt_stack_top\<close> and the iterator return the address of an object: a frame and an index in it.\<close>

definition tt_stack_top :: "'z frame_queue_scheme \<Rightarrow> 'a s_mem \<Rightarrow> (nat \<times> u32) option run" where
  "tt_stack_top stk m = (if q_frame stk = [] then Inr None
    else let frame = last (q_frame stk) in bindr (mem_deref m frame) (\<lambda>f.
        bindr (TT_ASSERT (s_top f > 0)) (\<lambda>_. Inr (Some (frame, s_top f - 1)))))"

definition tt_stack_iter :: "'z frame_queue_scheme \<Rightarrow> stack_iter" where
  "tt_stack_iter stk = \<lparr>it_frame = (case q_frame stk of [] \<Rightarrow> None | frame # fs \<Rightarrow> Some frame), it_idx = 0\<rparr>"

definition tt_stack_iter_next ::
  "'z frame_queue_scheme \<Rightarrow> 'a s_mem \<Rightarrow> stack_iter \<Rightarrow> ((nat \<times> u32) option \<times> stack_iter) run" where
  "tt_stack_iter_next stk m it =
    (case it_frame it of None \<Rightarrow> Inr (None, it)
     | Some frame \<Rightarrow>
       bindr (mem_deref m frame) (\<lambda>f.
       bindr (TT_ASSERT (it_idx it \<le> s_top f)) (\<lambda>_.
       if it_idx it = s_top f then
         (case node_next (q_frame stk) frame of
            Some frame \<Rightarrow> bindr (mem_deref m frame) (\<lambda>f. Inr (Some (frame, 0), \<lparr>it_frame = Some frame, it_idx = 0 + 1\<rparr>))
          | None \<Rightarrow> Inr (None, it))
       else Inr (Some (frame, it_idx it), it\<lparr>it_idx := it_idx it + 1\<rparr>))))"

section \<open>The stack of pointers\<close>

definition tt_ptrstk_attr_default :: u32 where "tt_ptrstk_attr_default = 32"

definition tt_ptrstk_init :: "u32 option \<Rightarrow> tt_ptrstk run" where
  "tt_ptrstk_init attr =
    (let ptr_per_frame = (case attr of None \<Rightarrow> tt_ptrstk_attr_default | Some n \<Rightarrow> n) in
     bindr (TT_ASSERT (ptr_per_frame \<noteq> 0)) (\<lambda>_.
     bindr (TT_ASSERT (\<not> TT_U32_MUL_WOULD_OVFL 8 ptr_per_frame)) (\<lambda>_.
     Inr \<lparr>q_frame = [], q_cached_frame = None, q_count = 0, q_per_frame = ptr_per_frame\<rparr>)))"

definition ps_alloc_frame :: "tt_ptrstk \<Rightarrow> 'a s_mem \<Rightarrow> (ptr \<times> tt_ptrstk \<times> 'a s_mem) run" where
  "ps_alloc_frame pstk m =
    (case q_cached_frame pstk of
       Some frame \<Rightarrow>
         bindr (mem_deref m frame) (\<lambda>f.
         bindr (mem_assign m frame (f\<lparr>s_top := 0\<rparr>)) (\<lambda>m.
         Inr (Some frame, pstk\<lparr>q_cached_frame := None\<rparr>, m)))
     | None \<Rightarrow>
         (case malloc_struct m of
            (None, m) \<Rightarrow> Inr (None, pstk, m)
          | (Some frame, m) \<Rightarrow>
              bindr (mem_assign m frame \<lparr>s_top = 0, s_slots = replicate (unat (q_per_frame pstk)) None\<rparr>) (\<lambda>m.
              Inr (Some frame, pstk, m))))"

definition ps_free_frame :: "nat \<Rightarrow> tt_ptrstk \<Rightarrow> 'a s_mem \<Rightarrow> (tt_ptrstk \<times> 'a s_mem) run" where
  "ps_free_frame frame pstk m =
    (if q_cached_frame pstk \<noteq> None then bindr (tt_free (Some frame) m) (\<lambda>m. Inr (pstk, m))
     else Inr (pstk\<lparr>q_cached_frame := Some frame\<rparr>, m))"

definition tt_ptrstk_destroy :: "tt_ptrstk \<Rightarrow> 'a s_mem \<Rightarrow> 'a s_mem run" where
  "tt_ptrstk_destroy pstk m =
    bindr (s_free_frames (q_frame pstk) m) (\<lambda>m.
    if q_cached_frame pstk \<noteq> None then tt_free (q_cached_frame pstk) m else Inr m)"

text \<open>Unlike \<^verbatim>\<open>tt_stack_clear\<close>, this one does not set the count to 0.\<close>

primrec ps_clear_frames :: "nat list \<Rightarrow> tt_ptrstk \<Rightarrow> 'a s_mem \<Rightarrow> (tt_ptrstk \<times> 'a s_mem) run" where
  "ps_clear_frames [] pstk m = Inr (pstk\<lparr>q_frame := []\<rparr>, m)"
| "ps_clear_frames (frame # fs) pstk m =
    bindr (ps_free_frame frame (pstk\<lparr>q_frame := fs\<rparr>) m) (\<lambda>(pstk, m). ps_clear_frames fs pstk m)"

definition tt_ptrstk_clear :: "tt_ptrstk \<Rightarrow> 'a s_mem \<Rightarrow> (tt_ptrstk \<times> 'a s_mem) run" where
  "tt_ptrstk_clear pstk m = ps_clear_frames (q_frame pstk) pstk m"

definition tt_ptrstk_count :: "tt_ptrstk \<Rightarrow> u32" where "tt_ptrstk_count pstk = q_count pstk"

definition tt_ptrstk_empty :: "tt_ptrstk \<Rightarrow> bool" where "tt_ptrstk_empty pstk \<longleftrightarrow> q_count pstk = 0"

definition ps_new_tail :: "tt_ptrstk \<Rightarrow> 'a s_mem \<Rightarrow> (ptr \<times> tt_ptrstk \<times> 'a s_mem) run" where
  "ps_new_tail pstk m = bindr (ps_alloc_frame pstk m) (\<lambda>(p, pstk, m).
    case p of None \<Rightarrow> Inr (None, pstk, m)
    | Some frame \<Rightarrow> Inr (Some frame, pstk\<lparr>q_frame := q_frame pstk @ [frame]\<rparr>, m))"

definition tt_ptrstk_push :: "'a option \<Rightarrow> tt_ptrstk \<Rightarrow> 'a s_mem \<Rightarrow> (tt_result \<times> tt_ptrstk \<times> 'a s_mem) run" where
  "tt_ptrstk_push ptr pstk m =
    (case ptr of None \<Rightarrow> Inr (TT_FAIL, pstk, m)
     | Some x \<Rightarrow>
       bindr (if q_frame pstk \<noteq> [] then Inr (Some (last (q_frame pstk)), pstk, m) else ps_new_tail pstk m) (\<lambda>(p, pstk, m).
       case p of None \<Rightarrow> Inr (TT_FAIL, pstk, m)
       | Some frame \<Rightarrow>
         bindr (mem_deref m frame) (\<lambda>f.
         bindr (if s_top f = q_per_frame pstk then ps_new_tail pstk m else Inr (Some frame, pstk, m)) (\<lambda>(p, pstk, m).
         case p of None \<Rightarrow> Inr (TT_FAIL, pstk, m)
         | Some frame \<Rightarrow>
           bindr (mem_deref m frame) (\<lambda>f.
           bindr (TT_ASSERT (s_top f < q_per_frame pstk)) (\<lambda>_.
           bindr (s_put f (s_top f) x) (\<lambda>f.
           bindr (mem_assign m frame (f\<lparr>s_top := s_top f + 1\<rparr>)) (\<lambda>m.
           Inr (TT_SUCCESS, pstk\<lparr>q_count := q_count pstk + 1\<rparr>, m)))))))))"

definition tt_ptrstk_pop :: "tt_ptrstk \<Rightarrow> 'a s_mem \<Rightarrow> ('a option \<times> tt_ptrstk \<times> 'a s_mem) run" where
  "tt_ptrstk_pop pstk m =
    (if q_frame pstk = [] then Inr (None, pstk, m)
     else
       let frame = last (q_frame pstk) in
       bindr (mem_deref m frame) (\<lambda>f.
       bindr (TT_ASSERT (s_top f > 0)) (\<lambda>_.
       let f = f\<lparr>s_top := s_top f - 1\<rparr> in
       bindr (s_get f (s_top f)) (\<lambda>p.
       bindr (mem_assign m frame f) (\<lambda>m.
       bindr (if s_top f = 0
              then ps_free_frame frame (pstk\<lparr>q_frame := remove1 frame (q_frame pstk)\<rparr>) m else Inr (pstk, m)) (\<lambda>(pstk, m).
       Inr (Some p, pstk\<lparr>q_count := q_count pstk - 1\<rparr>, m)))))))"

definition tt_ptrstk_top :: "tt_ptrstk \<Rightarrow> 'a s_mem \<Rightarrow> 'a option run" where
  "tt_ptrstk_top pstk m = (if q_frame pstk = [] then Inr None
    else let frame = last (q_frame pstk) in bindr (mem_deref m frame) (\<lambda>f.
        bindr (TT_ASSERT (s_top f > 0)) (\<lambda>_. bindr (s_get f (s_top f - 1)) (\<lambda>p. Inr (Some p)))))"

definition tt_ptrstk_iter :: "tt_ptrstk \<Rightarrow> stack_iter" where
  "tt_ptrstk_iter pstk = \<lparr>it_frame = (case q_frame pstk of [] \<Rightarrow> None | frame # fs \<Rightarrow> Some frame), it_idx = 0\<rparr>"

definition tt_ptrstk_iter_next :: "tt_ptrstk \<Rightarrow> 'a s_mem \<Rightarrow> stack_iter \<Rightarrow> ('a option \<times> stack_iter) run" where
  "tt_ptrstk_iter_next pstk m it =
    (case it_frame it of None \<Rightarrow> Inr (None, it)
     | Some frame \<Rightarrow>
       bindr (mem_deref m frame) (\<lambda>f.
       bindr (TT_ASSERT (it_idx it \<le> s_top f)) (\<lambda>_.
       if it_idx it = s_top f then
         (case node_next (q_frame pstk) frame of
            Some frame \<Rightarrow>
              bindr (mem_deref m frame) (\<lambda>f.
              bindr (s_get f 0) (\<lambda>p. Inr (Some p, \<lparr>it_frame = Some frame, it_idx = 0 + 1\<rparr>)))
          | None \<Rightarrow> Inr (None, it))
       else bindr (s_get f (it_idx it)) (\<lambda>p. Inr (Some p, it\<lparr>it_idx := it_idx it + 1\<rparr>)))))"

end
