(* ===== verification/TT_Stack_Inv.thy ===== *)
theory TT_Stack_Inv
  imports TT_Stack TT_Queue_Inv
begin

text \<open>
  The stacks refine the queue of objects used at its tail only: a stack frame is a queue frame whose
  first slot in use is slot 0. Under this map of the store each stack operation is the corresponding
  queue operation, so that the queue's invariant and its refinement to lists carry over.
\<close>

section \<open>Changing the cells of a store\<close>

definition mem_map :: "('c \<Rightarrow> 'd) \<Rightarrow> 'c mem \<Rightarrow> 'd mem" where
  "mem_map g m = \<lparr>mem_blocks = (\<lambda>i. map_option (map g) (mem_blocks m i)), mem_heap = mem_heap m,
     mem_next = mem_next m, mem_oracle = mem_oracle m, mem_junk = (\<lambda>i k. g (mem_junk m i k))\<rparr>"

lemma mem_map_simps [simp]:
  "mem_blocks (mem_map g m) i = map_option (map g) (mem_blocks m i)" "mem_heap (mem_map g m) = mem_heap m"
  "mem_next (mem_map g m) = mem_next m"
  by (simp_all add: mem_map_def)

lemma deref_map: "mem_deref (mem_map g m) p = bindr (mem_deref m p) (\<lambda>c. Inr (g c))"
  by (simp add: mem_deref_def split: option.split list.split)

lemma assign_map: "mem_assign (mem_map g m) p (g c) = bindr (mem_assign m p c) (\<lambda>m. Inr (mem_map g m))"
  by (simp add: mem_assign_def mem_map_def fun_eq_iff split: option.split list.split)

lemma malloc_map: "malloc_struct (mem_map g m) = (case malloc_struct m of (p, m) \<Rightarrow> (p, mem_map g m))"
  by (simp add: malloc_struct_def tt_malloc_def Let_def mem_map_def fun_eq_iff)

lemma free_map: "tt_free p (mem_map g m) = bindr (tt_free p m) (\<lambda>m. Inr (mem_map g m))"
  by (simp add: tt_free_def mem_map_def fun_eq_iff split: option.split)

lemma assign_deref: "mem_assign m p c = Inr m' \<Longrightarrow> mem_deref m' p = Inr c"
  by (auto simp: mem_assign_def mem_deref_def split: option.splits list.splits)

lemma assign_assign:
  "mem_assign m p c = Inr m' \<Longrightarrow> mem_assign m' p c = Inr m'"
  by (auto simp: mem_assign_def split: option.splits list.splits)

section \<open>A stack frame as a queue frame\<close>

definition q_of_s :: "'a s_frame \<Rightarrow> 'a q_frame" where
  "q_of_s f = \<lparr>f_start = 0, f_end = s_top f, f_slots = s_slots f\<rparr>"

abbreviation q_mem_of :: "'a s_mem \<Rightarrow> 'a q_mem" where
  "q_mem_of \<equiv> mem_map q_of_s"

lemma q_of_s_simps [simp]:
  "f_start (q_of_s f) = 0" "f_end (q_of_s f) = s_top f" "f_slots (q_of_s f) = s_slots f"
  by (simp_all add: q_of_s_def)

lemma q_of_s_updates:
  "(q_of_s f)\<lparr>f_end := n\<rparr> = q_of_s (f\<lparr>s_top := n\<rparr>)" "(q_of_s f)\<lparr>f_start := 0\<rparr> = q_of_s f"
  "(q_of_s f)\<lparr>f_slots := xs\<rparr> = q_of_s (f\<lparr>s_slots := xs\<rparr>)"
  "\<lparr>f_start = 0, f_end = n, f_slots = xs\<rparr> = q_of_s \<lparr>s_top = n, s_slots = xs\<rparr>"
  by (simp_all add: q_of_s_def)

lemma f_get_of_s [simp]: "f_get (q_of_s f) i = s_get f i"
  by (simp add: f_get_def s_get_def)

lemma f_put_of_s [simp]: "f_put (q_of_s f) i x = bindr (s_put f i x) (\<lambda>f. Inr (q_of_s f))"
  by (simp add: f_put_def s_put_def q_of_s_updates)

lemmas to_queue = q_of_s_updates deref_map assign_map malloc_map free_map bindr_assoc

section \<open>Each operation is the queue's\<close>

lemma alloc_to_queue:
  "q_alloc_tail_frame stk (q_mem_of m) = bindr (s_alloc_frame stk m) (\<lambda>(p, stk, m). Inr (p, stk, q_mem_of m))"
proof -
  have *: "bindr (mem_assign m p c) (\<lambda>m. bindr (mem_deref m p) (\<lambda>f. bindr (mem_assign m p (f\<lparr>s_top := 0\<rparr>)) k))
    = bindr (mem_assign m p c) k" if "s_top c = 0" for m :: "'b s_mem" and p c and k :: "'b s_mem \<Rightarrow> 'd run"
  proof (cases "mem_assign m p c")
    case (Inr m')
    have "c\<lparr>s_top := 0\<rparr> = c" using that by (cases c) simp
    with Inr assign_deref [OF Inr] assign_assign [OF Inr] show ?thesis by simp
  qed simp
  show ?thesis
    by (simp add: q_alloc_tail_frame_def q_alloc_frame_def s_alloc_frame_def to_queue * split: option.split prod.split)
qed

lemma new_tail_to_queue:
  "q_new_tail stk (q_mem_of m) = bindr (s_new_tail stk m) (\<lambda>(p, stk, m). Inr (p, stk, q_mem_of m))"
  by (simp add: q_new_tail_def s_new_tail_def alloc_to_queue bindr_assoc case_prod_unfold option.case_distrib
      [of "\<lambda>r. bindr r _"] cong: option.case_cong)

lemma free_to_queue:
  "q_free_frame p stk (q_mem_of m) = bindr (s_free_frame p stk m) (\<lambda>(stk, m). Inr (stk, q_mem_of m))"
  by (simp add: q_free_frame_def s_free_frame_def to_queue)

lemma push_to_queue:
  "tt_queue_push_tail x stk (q_mem_of m) = bindr (tt_stack_push x stk m) (\<lambda>(r, stk, m). Inr (r, stk, q_mem_of m))"
  unfolding tt_queue_push_tail_def tt_stack_push_def q_store_tail_def
  by (cases "q_frame stk = []", simp_all add: to_queue new_tail_to_queue case_prod_unfold if_distrib [of "\<lambda>r. bindr r _"]
      option.case_distrib [of "\<lambda>r. bindr r _"] cong: option.case_cong if_cong)

lemma pop_to_queue:
  "tt_queue_pop_tail stk (q_mem_of m) = bindr (tt_stack_pop stk m) (\<lambda>(r, x, stk, m). Inr (r, x, stk, q_mem_of m))"
  unfolding tt_queue_pop_tail_def tt_stack_pop_def Let_def
  by (simp add: to_queue free_to_queue case_prod_unfold if_distrib [of "\<lambda>r. bindr r _"] eq_commute [of 0] cong: if_cong)

lemma free_frames_to_queue:
  "free_frames ps (q_mem_of m) = bindr (s_free_frames ps m) (\<lambda>m. Inr (q_mem_of m))"
  by (induction ps arbitrary: m) (simp_all add: to_queue)

lemma destroy_to_queue:
  "tt_queue_destroy stk (q_mem_of m) = bindr (tt_stack_destroy stk m) (\<lambda>m. Inr (q_mem_of m))"
  by (cases "q_cached_frame stk") (simp_all add: tt_queue_destroy_def tt_stack_destroy_def free_frames_to_queue to_queue)

lemma clear_frames_to_queue:
  "clear_frames ps stk (q_mem_of m) = bindr (s_clear_frames ps stk m) (\<lambda>(stk, m). Inr (stk, q_mem_of m))"
  by (induction ps arbitrary: stk m) (simp_all add: to_queue free_to_queue case_prod_unfold)

lemma clear_to_queue:
  "tt_queue_clear stk (q_mem_of m) = bindr (tt_stack_clear stk m) (\<lambda>(stk, m). Inr (stk, q_mem_of m))"
  by (simp add: tt_queue_clear_def tt_stack_clear_def clear_frames_to_queue bindr_assoc case_prod_unfold)

lemma iter_to_queue:
  "tt_queue_iter stk = tt_stack_iter stk" "tt_queue_iter_next stk (q_mem_of m) it = tt_stack_iter_next stk m it"
  by (simp_all add: tt_queue_iter_def tt_stack_iter_def tt_queue_iter_next_def tt_stack_iter_next_def to_queue
      cong: option.case_cong if_cong)

section \<open>The stack of pointers is the stack of objects\<close>

lemma ps_alloc_eq: "ps_alloc_frame = s_alloc_frame" and ps_free_eq: "ps_free_frame = s_free_frame"
  by (simp_all add: fun_eq_iff ps_alloc_frame_def s_alloc_frame_def ps_free_frame_def s_free_frame_def)

lemma ps_new_eq: "ps_new_tail = s_new_tail"
  by (simp add: fun_eq_iff ps_new_tail_def s_new_tail_def ps_alloc_eq)

lemma ps_push_eq: "tt_ptrstk_push (Some x) stk m = tt_stack_push x stk m"
  unfolding tt_ptrstk_push_def tt_stack_push_def ps_new_eq option.case ..

lemma ps_pop_eq: "tt_ptrstk_pop stk m = bindr (tt_stack_pop stk m) (\<lambda>(r, x, s). Inr (x, s))"
  unfolding tt_ptrstk_pop_def tt_stack_pop_def ps_free_eq by (simp add: bindr_assoc Let_def case_prod_unfold)

lemma ps_destroy_eq: "tt_ptrstk_destroy stk m = tt_stack_destroy stk m"
  by (simp add: tt_ptrstk_destroy_def tt_stack_destroy_def)

lemma ps_clear_eq: "tt_ptrstk_clear stk m = s_clear_frames (q_frame stk) stk m"
proof -
  have "ps_clear_frames fs stk m = s_clear_frames fs stk m" for fs
    by (induction fs arbitrary: stk m) (simp_all add: ps_free_eq)
  then show ?thesis by (simp add: tt_ptrstk_clear_def)
qed

section \<open>The stacks are last-in first-out\<close>

fun stack_step :: "'a st_op \<Rightarrow> 'z frame_queue_scheme \<times> 'a s_mem \<Rightarrow> ('a answer \<times> ('z frame_queue_scheme \<times> 'a s_mem)) run" where
  "stack_step (Push x) (stk, m) =
    bindr (tt_stack_push x stk m) (\<lambda>(r, s). Inr (if TT_OK r then Done else NoMem, s))"
| "stack_step Pop (stk, m) =
    bindr (tt_stack_pop stk m) (\<lambda>(r, x, s). Inr (case x of Some y \<Rightarrow> Got y | None \<Rightarrow> Empty, s))"

fun ptrstk_step :: "'a st_op \<Rightarrow> tt_ptrstk \<times> 'a s_mem \<Rightarrow> ('a answer \<times> (tt_ptrstk \<times> 'a s_mem)) run" where
  "ptrstk_step (Push x) (stk, m) =
    bindr (tt_ptrstk_push (Some x) stk m) (\<lambda>(r, s). Inr (if TT_OK r then Done else NoMem, s))"
| "ptrstk_step Pop (stk, m) =
    bindr (tt_ptrstk_pop stk m) (\<lambda>(x, s). Inr (case x of Some y \<Rightarrow> Got y | None \<Rightarrow> Empty, s))"

lemma ptrstk_step_eq: "ptrstk_step = stack_step"
proof (intro ext)
  fix op :: "'a st_op" and s :: "tt_ptrstk \<times> 'a s_mem"
  obtain q m where "s = (q, m)" by (cases s)
  then show "ptrstk_step op s = stack_step op s"
    by (cases op) (simp_all add: ps_push_eq ps_pop_eq bindr_assoc case_prod_unfold)
qed

definition stack_ok :: "'a s_mem \<Rightarrow> 'z frame_queue_scheme \<times> 'a s_mem \<Rightarrow> bool" where
  "stack_ok m0 s \<longleftrightarrow> (case s of (stk, m) \<Rightarrow> queue_ok (q_mem_of m0) (stk, q_mem_of m))"

text \<open>The objects, the top first.\<close>

definition stack_list :: "'z frame_queue_scheme \<times> 'a s_mem \<Rightarrow> 'a list" where
  "stack_list s = (case s of (stk, m) \<Rightarrow> rev (q_items stk (q_mem_of m)))"

fun dq_of_st :: "'a st_op \<Rightarrow> 'a dq_op" where
  "dq_of_st (Push x) = PushTail x"
| "dq_of_st Pop = PopTail"

lemma st_spec_of_dq: "dq_spec (dq_of_st op) xs a ys \<Longrightarrow> st_spec op (rev xs) a (rev ys)"
  by (cases op) (auto simp: dq_spec_simps st_spec_simps)

lemma stack_step_to_queue:
  "queue_step (dq_of_st op) (stk, q_mem_of m) = bindr (stack_step op (stk, m)) (\<lambda>(a, stk, m). Inr (a, stk, q_mem_of m))"
  by (cases op) (simp_all add: push_to_queue pop_to_queue bindr_assoc case_prod_unfold)

lemma stack_step_refines:
  assumes "stack_ok m0 s" "Suc (length (stack_list s)) < 2 ^ 32"
  shows "\<exists>a s'. stack_step op s = Inr (a, s') \<and> stack_ok m0 s' \<and> st_spec op (stack_list s) a (stack_list s')"
proof -
  obtain stk m where s: "s = (stk, m)" by (cases s)
  have "queue_ok (q_mem_of m0) (stk, q_mem_of m)" "Suc (length (queue_list (stk, q_mem_of m))) < 2 ^ 32"
    using assms s by (auto simp: stack_ok_def stack_list_def queue_list_def)
  from queue_step_refines [OF this, of "dq_of_st op"] obtain a s' where s': "queue_step (dq_of_st op) (stk, q_mem_of m) = Inr (a, s')"
    "queue_ok (q_mem_of m0) s'" "dq_spec (dq_of_st op) (queue_list (stk, q_mem_of m)) a (queue_list s')" by blast
  then obtain stk' m' where st: "stack_step op (stk, m) = Inr (a, stk', m')" "s' = (stk', q_mem_of m')"
    by (auto simp: stack_step_to_queue bindr_eq_Inr_iff)
  moreover have "st_spec op (stack_list s) a (stack_list (stk', m'))"
    using st_spec_of_dq [OF s'(3)] st(2) s by (simp add: stack_list_def queue_list_def)
  ultimately show ?thesis using s s'(2) by (auto simp: stack_ok_def)
qed

interpretation ts: lifo "stack_ok m0" stack_list stack_step
  for m0 :: "'a s_mem"
  by unfold_locales (rule stack_step_refines)

interpretation ps: lifo "stack_ok m0" stack_list ptrstk_step
  for m0 :: "'a s_mem"
  unfolding ptrstk_step_eq by unfold_locales (rule stack_step_refines)

end
