(* ===== verification/TT_Queue_Props.thy ===== *)
theory TT_Queue_Props
  imports TT_PtrQueue TT_Stack_Inv
begin

text \<open>
  The properties of the queues and the stacks, each with a concrete instance.
\<close>

section \<open>From initialisation to destruction\<close>

lemma queue_init_ok:
  assumes "tt_queue_init sz attr = Inr q" "mem_inv m0"
  shows "queue_ok m0 (q, m0)" "queue_list (q, m0) = []"
  using assms
  by (auto simp: tt_queue_init_def Let_def bindr_eq_Inr_iff queue_ok_def queue_list_def q_inv_def q_shape_def q_own_def
      q_items_def owns_refl)

lemma ptrq_init_ok:
  assumes "tt_ptrq_init attr = Inr q" "mem_inv m0"
  shows "queue_ok m0 (q, m0)" "queue_list (q, m0) = []"
  using assms
  by (auto simp: tt_ptrq_init_def Let_def bindr_eq_Inr_iff queue_ok_def queue_list_def q_inv_def q_shape_def q_own_def
      q_items_def owns_refl)

lemma queue_ok_destroy:
  assumes "queue_ok m0 (q, m)"
  shows "\<exists>m'. tt_queue_destroy q m = Inr m' \<and> mem_heap m' = mem_heap m0 \<and> mem_frame {} m0 m'"
proof -
  have sh: "q_shape q m" and own: "mem_frame {} m0 m" "q_own q \<inter> dom (mem_blocks m0) \<subseteq> {}" "mem_heap m - q_own q = mem_heap m0"
    using assms by (auto simp: queue_ok_def q_inv_def owns_step_def)
  from sh obtain m' where m': "tt_queue_destroy q m = Inr m'" "mem_heap m' = mem_heap m - q_own q" "mem_frame (q_own q) m m'"
    by (rule queue_destroy_ok) blast
  with frame_compose [OF own(1) m'(3) own(2)] own(3) show ?thesis by auto
qed

lemma mem_inv_map: "mem_inv (mem_map g m) = mem_inv m"
  by (auto simp: mem_inv_def dom_def)

lemma mem_frame_map:
  assumes "mem_frame {} (q_mem_of m) (q_mem_of m')"
  shows "mem_frame {} m m'"
  unfolding mem_frame_def
proof
  fix i
  assume "i \<in> dom (mem_blocks m) - {}"
  then obtain cs where cs: "mem_blocks m i = Some cs" by auto
  have "inj (q_of_s :: 'a s_frame \<Rightarrow> _)"
    by (rule injI) (simp add: q_of_s_def s_frame.equality)
  then have inj: "map q_of_s xs = map q_of_s ys \<Longrightarrow> xs = ys" for xs ys :: "'a s_frame list"
    by (simp add: inj_map_eq_map)
  have "mem_blocks (q_mem_of m) i = Some (map q_of_s cs)" using cs by simp
  from mem_frameD [OF assms this] inj show "mem_blocks m' i = mem_blocks m i \<and> (i \<in> mem_heap m' \<longleftrightarrow> i \<in> mem_heap m)"
    using cs by auto
qed

lemma stack_ok_destroy:
  assumes "stack_ok m0 (stk, m)"
  shows "\<exists>m'. tt_stack_destroy stk m = Inr m' \<and> mem_heap m' = mem_heap m0 \<and> mem_frame {} m0 m'"
proof -
  obtain m1 where m1: "tt_queue_destroy stk (q_mem_of m) = Inr m1" "mem_heap m1 = mem_heap m0" "mem_frame {} (q_mem_of m0) m1"
    using assms queue_ok_destroy [of "q_mem_of m0" stk "q_mem_of m"] by (auto simp: stack_ok_def)
  then obtain m' where "tt_stack_destroy stk m = Inr m'" "m1 = q_mem_of m'"
    by (auto simp: destroy_to_queue bindr_eq_Inr_iff)
  with m1 mem_frame_map show ?thesis by auto
qed

lemma stack_init_ok:
  assumes "tt_stack_init sz attr = Inr stk" "mem_inv m0"
  shows "stack_ok m0 (stk, m0)" "stack_list (stk, m0) = []"
  using assms
  by (auto simp: tt_stack_init_def Let_def bindr_eq_Inr_iff stack_ok_def stack_list_def queue_ok_def q_inv_def q_shape_def
      q_own_def q_items_def owns_refl mem_inv_map)

lemma ptrstk_init_ok:
  assumes "tt_ptrstk_init attr = Inr stk" "mem_inv m0"
  shows "stack_ok m0 (stk, m0)" "stack_list (stk, m0) = []"
  using assms
  by (auto simp: tt_ptrstk_init_def Let_def bindr_eq_Inr_iff stack_ok_def stack_list_def queue_ok_def q_inv_def q_shape_def
      q_own_def q_items_def owns_refl mem_inv_map)

text \<open>The objects an iterator delivers when it is moved \<open>n\<close> times, read through the addresses it returns.\<close>

primrec q_walk :: "nat \<Rightarrow> 'z frame_queue_scheme \<Rightarrow> 'a q_mem \<Rightarrow> queue_iter \<Rightarrow> ('a list \<times> queue_iter) run" where
  "q_walk 0 q m it = Inr ([], it)"
| "q_walk (Suc n) q m it = bindr (tt_queue_iter_next q m it) (\<lambda>(a, it).
    case a of None \<Rightarrow> Inr ([], it)
    | Some (frame, i) \<Rightarrow>
      bindr (mem_deref m frame) (\<lambda>f. bindr (f_get f i) (\<lambda>x.
      bindr (q_walk n q m it) (\<lambda>(xs, it). Inr (x # xs, it)))))"

lemma q_walk_ok:
  assumes sh: "q_shape q m" and it: "iter_at q m it rest"
  shows "\<exists>it'. q_walk n q m it = Inr (take n rest, it') \<and> iter_at q m it' (drop n rest)"
  using it
proof (induction n arbitrary: it rest)
  case (Suc n)
  note nx = iter_next_ok [OF sh Suc.prems]
  show ?case
  proof (cases rest)
    case Nil
    with nx Suc.prems show ?thesis by simp
  next
    case (Cons x rest')
    with nx obtain p i it' where p: "tt_queue_iter_next q m it = Inr (Some (p, i), it')" "p \<in> set (q_frame q)"
      "f_get (struct_at m p) i = Inr x" "iter_at q m it' rest'" by auto
    from Suc.IH [OF p(4)] obtain it'' where "q_walk n q m it' = Inr (take n rest', it'')"
      "iter_at q m it'' (drop n rest')" by blast
    with p mem_deref_ok [OF q_shapeD(5) [OF sh p(2)]] Cons show ?thesis by simp
  qed
qed simp

section \<open>A concrete store\<close>

definition no_mem :: "'c \<Rightarrow> 'c mem" where
  "no_mem c = \<lparr>mem_blocks = Map.empty, mem_heap = {}, mem_next = 0, mem_oracle = (\<lambda>_. True), mem_junk = (\<lambda>_ _. c)\<rparr>"

lemma no_mem_inv: "mem_inv (no_mem c)"
  by (simp add: no_mem_def mem_inv_def)

abbreviation q_store :: "nat q_mem" where
  "q_store \<equiv> no_mem \<lparr>f_start = 0, f_end = 0, f_slots = []\<rparr>"

abbreviation s_store :: "nat s_mem" where
  "s_store \<equiv> no_mem \<lparr>s_top = 0, s_slots = []\<rparr>"

definition queue_2 :: tt_queue where
  "queue_2 = \<lparr>q_frame = [], q_cached_frame = None, q_count = 0, q_per_frame = 2, q_obj_size = 8\<rparr>"

lemma queue_2_init: "tt_queue_init 8 (Some 2) = Inr queue_2" "tt_stack_init 8 (Some 2) = Inr queue_2"
  by (simp_all add: tt_queue_init_def tt_stack_init_def queue_2_def TT_U32_MUL_WOULD_OVFL_iff)

definition ptrq_2 :: tt_ptrq where
  "ptrq_2 = \<lparr>q_frame = [], q_cached_frame = None, q_count = 0, q_per_frame = 2\<rparr>"

lemma ptrq_2_init: "tt_ptrq_init (Some 2) = Inr ptrq_2" "tt_ptrstk_init (Some 2) = Inr ptrq_2"
  by (simp_all add: tt_ptrq_init_def tt_ptrstk_init_def ptrq_2_def TT_U32_MUL_WOULD_OVFL_iff)

section \<open>Properties\<close>

text \<open>
  C15: A queue of objects answers every sequence of pushes and pops at either end as a list does: a
  push adds the object or reports that there is no memory and changes nothing, a pop of an empty queue
  fails, any other pop returns the object at that end. No step asserts or is undefined, the count is
  the number of objects, and \<^verbatim>\<open>tt_queue_destroy\<close> then frees every block the queue allocated and
  leaves all other blocks as they were before the initialisation.
\<close>

theorem queue_refines_list:
  assumes init: "tt_queue_init sz attr = Inr q" and inv: "mem_inv m0" and len: "length ops < 2 ^ 32"
  shows "\<exists>as q' m'. run_ops queue_step ops (q, m0) = Inr (as, q', m') \<and> dq_specs ops [] as (q_items q' m')
    \<and> unat (tt_queue_count q') = length (q_items q' m')
    \<and> (\<exists>m''. tt_queue_destroy q' m' = Inr m'' \<and> mem_heap m'' = mem_heap m0 \<and> mem_frame {} m0 m'')"
proof -
  note i = queue_init_ok [OF init inv]
  have "length (queue_list (q, m0)) + length ops < 2 ^ 32" using len i(2) by simp
  from tq.run_refines [OF i(1) this] obtain as q' m' where r: "run_ops queue_step ops (q, m0) = Inr (as, q', m')"
    "queue_ok m0 (q', m')" "dq_specs ops (queue_list (q, m0)) as (queue_list (q', m'))" by auto
  from r(2) have "unat (tt_queue_count q') = length (q_items q' m')"
    by (simp add: queue_ok_def q_inv_def tt_queue_count_def)
  with r queue_ok_destroy [OF r(2)] i(2) show ?thesis by (auto simp: queue_list_def)
qed

theorem queue_refines_list_witness:
  "\<exists>as q' m'. run_ops queue_step [PushTail 7, PushHead 8, PopTail] (queue_2, q_store) = Inr (as, q', m')
    \<and> dq_specs [PushTail 7, PushHead 8, PopTail] [] as (q_items q' m')
    \<and> unat (tt_queue_count q') = length (q_items q' m')
    \<and> (\<exists>m''. tt_queue_destroy q' m' = Inr m'' \<and> mem_heap m'' = mem_heap q_store \<and> mem_frame {} q_store m'')"
  by (rule queue_refines_list [OF queue_2_init(1) no_mem_inv]) simp

text \<open>
  First in, first out: objects pushed at the tail of an empty queue come out at the head in the
  order they went in, when no push ran out of memory, and the queue is empty again.
\<close>

theorem queue_first_in_first_out:
  assumes init: "tt_queue_init sz attr = Inr q" and inv: "mem_inv m0" and len: "2 * length xs < 2 ^ 32"
    and run: "run_ops queue_step (map PushTail xs @ replicate (length xs) PopHead) (q, m0) = Inr (as, q', m')"
    and mem: "NoMem \<notin> set as"
  shows "as = replicate (length xs) Done @ map Got xs \<and> q_items q' m' = []"
  using tq.fifo [OF queue_init_ok [OF init inv] len run mem] by (simp add: queue_list_def)

definition demo_answers :: "nat answer list run" where
  "demo_answers = bindr (run_ops queue_step (map PushTail [7, 8, 9] @ replicate 3 PopHead) (queue_2, q_store)) (\<lambda>r. Inr (fst r))"

lemma demo_answers: "demo_answers = Inr [Done, Done, Done, Got 7, Got 8, Got 9]"
  by code_simp

theorem queue_first_in_first_out_witness:
  "\<exists>q' m'. run_ops queue_step (map PushTail [7, 8, 9] @ replicate 3 PopHead) (queue_2, q_store)
      = Inr ([Done, Done, Done, Got 7, Got 8, Got 9], q', m')
    \<and> [Done, Done, Done, Got 7, Got 8, Got 9] = replicate 3 Done @ map Got [7, 8, 9 :: nat] \<and> q_items q' m' = []"
proof -
  obtain q' m' where r: "run_ops queue_step (map PushTail [7, 8, 9] @ replicate 3 PopHead) (queue_2, q_store)
      = Inr ([Done, Done, Done, Got 7, Got 8, Got 9], q', m')"
    using demo_answers by (auto simp: demo_answers_def bindr_eq_Inr_iff)
  have l: "length [7, 8, 9 :: nat] = 3" by simp
  have "2 * 3 < (2 :: nat) ^ 32" "NoMem \<notin> set [Done, Done, Done, Got 7, Got 8, Got (9 :: nat)]" by simp_all
  from queue_first_in_first_out [OF queue_2_init(1) no_mem_inv, of "[7, 8, 9 :: nat]", unfolded l, OF this(1) r this(2)] r
  show ?thesis by blast
qed

text \<open>
  C17: An iterator delivers the objects of the queue in order, across the frames, and then
  answers that there is none left.
\<close>

theorem queue_iteration:
  assumes "q_inv q m"
  shows "\<exists>it. q_walk (length (q_items q m)) q m (tt_queue_iter q) = Inr (q_items q m, it)
    \<and> tt_queue_iter_next q m it = Inr (None, it)"
proof -
  have sh: "q_shape q m" using assms by (simp add: q_inv_def)
  from q_walk_ok [OF sh iter_at_start, of "length (q_items q m)"] obtain it where
    it: "q_walk (length (q_items q m)) q m (tt_queue_iter q) = Inr (q_items q m, it)" "iter_at q m it []" by auto
  with iter_next_ok [OF sh it(2)] show ?thesis by auto
qed

definition demo_3 :: "tt_queue \<times> nat q_mem" where
  "demo_3 = (queue_2\<lparr>q_frame := [0, 1], q_count := 3\<rparr>,
     q_store\<lparr>mem_blocks := [0 \<mapsto> [\<lparr>f_start = 1, f_end = 2, f_slots = [Some 5, Some 6]\<rparr>],
                            1 \<mapsto> [\<lparr>f_start = 0, f_end = 2, f_slots = [Some 7, Some 8]\<rparr>]],
             mem_heap := {0, 1}, mem_next := 2\<rparr>)"

lemma demo_3_inv: "q_inv (fst demo_3) (snd demo_3)" "q_items (fst demo_3) (snd demo_3) = [6, 7, 8]"
proof -
  show i: "q_items (fst demo_3) (snd demo_3) = [6, 7, 8]"
    by (simp add: demo_3_def q_items_def queue_2_def frames_items_def frame_objs_def struct_at_def)
  have "q_shape (fst demo_3) (snd demo_3)"
    by (auto simp: demo_3_def q_shape_def queue_2_def no_mem_def mem_inv_def is_struct_def struct_at_def frame_ok_def
        less_2_cases_iff split: if_splits)
  with i show "q_inv (fst demo_3) (snd demo_3)" by (simp add: q_inv_def demo_3_def)
qed

theorem queue_iteration_witness:
  "\<exists>it. q_walk 3 (fst demo_3) (snd demo_3) (tt_queue_iter (fst demo_3)) = Inr ([6, 7, 8], it)
    \<and> tt_queue_iter_next (fst demo_3) (snd demo_3) it = Inr (None, it)"
proof -
  have "length (q_items (fst demo_3) (snd demo_3)) = 3" by (simp add: demo_3_inv(2))
  with queue_iteration [OF demo_3_inv(1)] demo_3_inv(2) show ?thesis by metis
qed

text \<open>
  C18: \<^verbatim>\<open>tt_queue_get\<close> fails for an index beyond the count, and when every frame is filled from its
  first slot (no object was pushed at the head or popped from it) it returns the object of that
  index. In general it goes past the frames before the object, subtracting their numbers of objects from
  the index, and takes what is left from the start of the frame's array: when the objects \<open>0..n-1\<close> of the queue
  are in the frames \<open>ps\<close> and the object \<open>i\<close> is in the next frame \<open>p\<close>, the answer is slot \<open>i - n\<close> of the array
  of \<open>p\<close>, not the \<open>i\<close>-th object of the queue.
\<close>

theorem queue_get_spec:
  assumes inv: "q_inv q m"
  shows "(length (q_items q m) \<le> unat i \<longrightarrow> tt_queue_get i q m = Inr (TT_FAIL, None))
    \<and> (unat i < length (q_items q m) \<and> (\<forall>p \<in> set (q_frame q). f_start (struct_at m p) = 0)
        \<longrightarrow> tt_queue_get i q m = Inr (TT_SUCCESS, Some (q_items q m ! unat i)))
    \<and> (\<forall>ps p qs. q_frame q = ps @ p # qs
          \<and> length (frames_items m ps) \<le> unat i \<and> unat i < length (frames_items m (ps @ [p]))
        \<longrightarrow> tt_queue_get i q m
          = bindr (f_get (struct_at m p) (i - of_nat (length (frames_items m ps)))) (\<lambda>x. Inr (TT_SUCCESS, Some x)))"
proof (intro conjI impI allI)
  assume "length (q_items q m) \<le> unat i"
  then show "tt_queue_get i q m = Inr (TT_FAIL, None)"
    using inv by (simp add: tt_queue_get_def q_inv_def word_le_nat_alt)
next
  assume "unat i < length (q_items q m) \<and> (\<forall>p \<in> set (q_frame q). f_start (struct_at m p) = 0)"
  then show "tt_queue_get i q m = Inr (TT_SUCCESS, Some (q_items q m ! unat i))"
    using queue_get_ok [OF inv] by simp
next
  fix ps p qs
  assume "q_frame q = ps @ p # qs \<and> length (frames_items m ps) \<le> unat i \<and> unat i < length (frames_items m (ps @ [p]))"
  then show "tt_queue_get i q m
      = bindr (f_get (struct_at m p) (i - of_nat (length (frames_items m ps)))) (\<lambda>x. Inr (TT_SUCCESS, Some x))"
    using queue_get_frame [OF inv] by blast
qed

theorem queue_get_spec_witness:
  "q_items (fst demo_3) (snd demo_3) = [6, 7, 8] \<and> tt_queue_get 0 (fst demo_3) (snd demo_3) = Inr (TT_SUCCESS, Some 5)
    \<and> tt_queue_get 2 (fst demo_3) (snd demo_3) = Inr (TT_SUCCESS, Some 8)
    \<and> tt_queue_get 3 (fst demo_3) (snd demo_3) = Inr (TT_FAIL, None)"
proof -
  have fs: "q_frame (fst demo_3) = [] @ 0 # [1]" "q_frame (fst demo_3) = [0] @ 1 # []" by (simp_all add: demo_3_def)
  have f: "struct_at (snd demo_3) 0 = \<lparr>f_start = 1, f_end = 2, f_slots = [Some 5, Some 6]\<rparr>"
    "struct_at (snd demo_3) 1 = \<lparr>f_start = 0, f_end = 2, f_slots = [Some 7, Some 8]\<rparr>"
    by (simp_all add: demo_3_def struct_at_def)
  note spec = queue_get_spec [OF demo_3_inv(1)]
  have n: "frames_items (snd demo_3) [] = []" "frames_items (snd demo_3) ([] @ [0]) = [6]"
    "frames_items (snd demo_3) [0] = [6]" "frames_items (snd demo_3) ([0] @ [1]) = [6, 7, 8]"
    by (simp_all add: frames_items_def frame_objs_def f f [unfolded One_nat_def])
  have "tt_queue_get 0 (fst demo_3) (snd demo_3) = Inr (TT_SUCCESS, Some 5)"
    using conjunct2 [OF conjunct2 [OF spec [of 0]], rule_format, OF conjI [OF fs(1)]] n(1,2) f(1) by (simp add: f_get_def)
  moreover have "tt_queue_get 2 (fst demo_3) (snd demo_3) = Inr (TT_SUCCESS, Some 8)"
    using conjunct2 [OF conjunct2 [OF spec [of 2]], rule_format, OF conjI [OF fs(2)]] n(3,4) f(2) by (simp add: f_get_def)
  moreover have "tt_queue_get 3 (fst demo_3) (snd demo_3) = Inr (TT_FAIL, None)"
    using conjunct1 [OF spec [of 3]] demo_3_inv(2) by simp
  ultimately show ?thesis using demo_3_inv(2) by simp
qed

text \<open>
  The queue of pointers answers every sequence of pushes and pops of non-null pointers as a list
  does, and its destruction frees what it allocated and touches nothing else; a null pointer is refused
  at either end without any effect.
\<close>

theorem ptrq_refines_list:
  assumes init: "tt_ptrq_init attr = Inr q" and inv: "mem_inv m0" and len: "length ops < 2 ^ 32"
  shows "\<exists>as q' m'. run_ops ptrq_step ops (q, m0) = Inr (as, q', m') \<and> dq_specs ops [] as (q_items q' m')
    \<and> unat (tt_ptrq_count q') = length (q_items q' m')
    \<and> tt_ptrq_push_head None q' m' = Inr (TT_FAIL, q', m') \<and> tt_ptrq_push_tail None q' m' = Inr (TT_FAIL, q', m')
    \<and> (\<exists>m''. tt_ptrq_destroy q' m' = Inr m'' \<and> mem_heap m'' = mem_heap m0 \<and> mem_frame {} m0 m'')"
proof -
  note i = ptrq_init_ok [OF init inv]
  have "length (queue_list (q, m0)) + length ops < 2 ^ 32" using len i(2) by simp
  from pq.run_refines [OF i(1) this] obtain as q' m' where r: "run_ops ptrq_step ops (q, m0) = Inr (as, q', m')"
    "queue_ok m0 (q', m')" "dq_specs ops (queue_list (q, m0)) as (queue_list (q', m'))" by auto
  from r(2) have "unat (tt_ptrq_count q') = length (q_items q' m')"
    by (simp add: queue_ok_def q_inv_def tt_ptrq_count_def)
  moreover have "tt_ptrq_push_head None q' m' = Inr (TT_FAIL, q', m')" "tt_ptrq_push_tail None q' m' = Inr (TT_FAIL, q', m')"
    by (simp_all add: tt_ptrq_push_head_def tt_ptrq_push_tail_def)
  ultimately show ?thesis
    using r queue_ok_destroy [OF r(2)] i(2) by (simp add: queue_list_def destroy_eq)
qed

theorem ptrq_refines_list_witness:
  "\<exists>as q' m'. run_ops ptrq_step [PushTail 7, PushHead 8, PopTail] (ptrq_2, q_store) = Inr (as, q', m')
    \<and> dq_specs [PushTail 7, PushHead 8, PopTail] [] as (q_items q' m')
    \<and> unat (tt_ptrq_count q') = length (q_items q' m')
    \<and> tt_ptrq_push_head None q' m' = Inr (TT_FAIL, q', m') \<and> tt_ptrq_push_tail None q' m' = Inr (TT_FAIL, q', m')
    \<and> (\<exists>m''. tt_ptrq_destroy q' m' = Inr m'' \<and> mem_heap m'' = mem_heap q_store \<and> mem_frame {} q_store m'')"
  by (rule ptrq_refines_list [OF ptrq_2_init(1) no_mem_inv]) simp

text \<open>
  C20: The stack of objects answers every sequence of pushes and pops as a list whose head is the top:
  a push adds the object or reports that there is no memory, a pop returns the last object pushed and
  not yet popped, or fails on an empty stack. The count is the number of objects and the destruction
  frees what the stack allocated and touches nothing else.
\<close>

theorem stack_refines_list:
  assumes init: "tt_stack_init sz attr = Inr stk" and inv: "mem_inv m0" and len: "length ops < 2 ^ 32"
  shows "\<exists>as stk' m'. run_ops stack_step ops (stk, m0) = Inr (as, stk', m') \<and> st_specs ops [] as (stack_list (stk', m'))
    \<and> unat (tt_stack_count stk') = length (stack_list (stk', m'))
    \<and> (\<exists>m''. tt_stack_destroy stk' m' = Inr m'' \<and> mem_heap m'' = mem_heap m0 \<and> mem_frame {} m0 m'')"
proof -
  note i = stack_init_ok [OF init inv]
  have "length (stack_list (stk, m0)) + length ops < 2 ^ 32" using len i(2) by simp
  from ts.run_refines [OF i(1) this] obtain as stk' m' where r: "run_ops stack_step ops (stk, m0) = Inr (as, stk', m')"
    "stack_ok m0 (stk', m')" "st_specs ops (stack_list (stk, m0)) as (stack_list (stk', m'))" by auto
  from r(2) have "unat (tt_stack_count stk') = length (stack_list (stk', m'))"
    by (simp add: stack_ok_def stack_list_def queue_ok_def q_inv_def tt_stack_count_def)
  with r stack_ok_destroy [OF r(2)] i(2) show ?thesis by auto
qed

theorem stack_refines_list_witness:
  "\<exists>as stk' m'. run_ops stack_step [Push 7, Push 8, Push 9, Pop, Pop] (queue_2, s_store) = Inr (as, stk', m')
    \<and> st_specs [Push 7, Push 8, Push 9, Pop, Pop] [] as (stack_list (stk', m'))
    \<and> unat (tt_stack_count stk') = length (stack_list (stk', m'))
    \<and> (\<exists>m''. tt_stack_destroy stk' m' = Inr m'' \<and> mem_heap m'' = mem_heap s_store \<and> mem_frame {} s_store m'')"
  by (rule stack_refines_list [OF queue_2_init(2) no_mem_inv]) simp

text \<open>
  The same for the stack of pointers, which also refuses a null pointer without any effect.
\<close>

theorem ptrstk_refines_list:
  assumes init: "tt_ptrstk_init attr = Inr stk" and inv: "mem_inv m0" and len: "length ops < 2 ^ 32"
  shows "\<exists>as stk' m'. run_ops ptrstk_step ops (stk, m0) = Inr (as, stk', m') \<and> st_specs ops [] as (stack_list (stk', m'))
    \<and> unat (tt_ptrstk_count stk') = length (stack_list (stk', m'))
    \<and> tt_ptrstk_push None stk' m' = Inr (TT_FAIL, stk', m')
    \<and> (\<exists>m''. tt_ptrstk_destroy stk' m' = Inr m'' \<and> mem_heap m'' = mem_heap m0 \<and> mem_frame {} m0 m'')"
proof -
  note i = ptrstk_init_ok [OF init inv]
  have "length (stack_list (stk, m0)) + length ops < 2 ^ 32" using len i(2) by simp
  from ps.run_refines [OF i(1) this] obtain as stk' m' where r: "run_ops ptrstk_step ops (stk, m0) = Inr (as, stk', m')"
    "stack_ok m0 (stk', m')" "st_specs ops (stack_list (stk, m0)) as (stack_list (stk', m'))" by auto
  from r(2) have "unat (tt_ptrstk_count stk') = length (stack_list (stk', m'))"
    by (simp add: stack_ok_def stack_list_def queue_ok_def q_inv_def tt_ptrstk_count_def)
  moreover have "tt_ptrstk_push None stk' m' = Inr (TT_FAIL, stk', m')" by (simp add: tt_ptrstk_push_def)
  ultimately show ?thesis using r stack_ok_destroy [OF r(2)] i(2) by (simp add: ps_destroy_eq)
qed

theorem ptrstk_refines_list_witness:
  "\<exists>as stk' m'. run_ops ptrstk_step [Push 7, Push 8, Push 9, Pop, Pop] (ptrq_2, s_store) = Inr (as, stk', m')
    \<and> st_specs [Push 7, Push 8, Push 9, Pop, Pop] [] as (stack_list (stk', m'))
    \<and> unat (tt_ptrstk_count stk') = length (stack_list (stk', m'))
    \<and> tt_ptrstk_push None stk' m' = Inr (TT_FAIL, stk', m')
    \<and> (\<exists>m''. tt_ptrstk_destroy stk' m' = Inr m'' \<and> mem_heap m'' = mem_heap s_store \<and> mem_frame {} s_store m'')"
  by (rule ptrstk_refines_list [OF ptrq_2_init(2) no_mem_inv]) simp

text \<open>
  Clearing. \<^verbatim>\<open>tt_stack_clear\<close> empties the stack, sets the count to 0 and keeps the invariant.
  \<^verbatim>\<open>tt_ptrstk_clear\<close> releases the same frames, so that a pop answers that the stack is empty, but it
  leaves the count: \<^verbatim>\<open>tt_ptrstk_empty\<close> denies it whenever the stack was not empty before.
\<close>

theorem stack_clear_spec:
  assumes ok: "stack_ok m0 (stk, m)"
  shows "(\<exists>stk' m'. tt_stack_clear stk m = Inr (stk', m') \<and> stack_ok m0 (stk', m') \<and> stack_list (stk', m') = []
      \<and> tt_stack_empty stk')
    \<and> (\<exists>stk' m'. tt_ptrstk_clear stk m = Inr (stk', m') \<and> tt_ptrstk_pop stk' m' = Inr (None, stk', m')
      \<and> tt_ptrstk_count stk' = tt_ptrstk_count stk)"
proof
  have sh: "q_shape stk (q_mem_of m)" and own: "owns_step {} (q_mem_of m0) (q_own stk) (q_mem_of m)"
    using ok by (auto simp: stack_ok_def queue_ok_def q_inv_def)
  obtain stk' m1 where c: "tt_queue_clear stk (q_mem_of m) = Inr (stk', m1)" "q_inv stk' m1" "q_items stk' m1 = []"
    "owns_step (q_own stk) (q_mem_of m) (q_own stk') m1" using queue_clear_ok [OF sh] by blast
  then obtain m' where "tt_stack_clear stk m = Inr (stk', m')" "m1 = q_mem_of m'"
    by (auto simp: clear_to_queue bindr_eq_Inr_iff)
  with c owns_trans [OF own c(4)] show "\<exists>stk' m'. tt_stack_clear stk m = Inr (stk', m') \<and> stack_ok m0 (stk', m')
      \<and> stack_list (stk', m') = [] \<and> tt_stack_empty stk'"
    by (auto simp: stack_ok_def queue_ok_def stack_list_def tt_stack_empty_def q_inv_def unat_eq_0)
  obtain stk' m1 where d: "clear_frames (q_frame stk) stk (q_mem_of m) = Inr (stk', m1)" "q_frame stk' = []"
    "q_count stk' = q_count stk" using clear_frames_ok [OF sh] by blast
  then obtain m' where "s_clear_frames (q_frame stk) stk m = Inr (stk', m')"
    by (auto simp: clear_frames_to_queue bindr_eq_Inr_iff)
  with d show "\<exists>stk' m'. tt_ptrstk_clear stk m = Inr (stk', m') \<and> tt_ptrstk_pop stk' m' = Inr (None, stk', m')
      \<and> tt_ptrstk_count stk' = tt_ptrstk_count stk"
    by (auto simp: ps_clear_eq tt_ptrstk_pop_def tt_ptrstk_count_def)
qed

definition demo_stack :: "tt_ptrstk \<times> nat s_mem" where
  "demo_stack = (ptrq_2\<lparr>q_frame := [0], q_count := 1\<rparr>,
     s_store\<lparr>mem_blocks := [0 \<mapsto> [\<lparr>s_top = 1, s_slots = [Some 5, None]\<rparr>]], mem_heap := {0}, mem_next := 1\<rparr>)"

lemma demo_stack_ok: "stack_ok s_store demo_stack"
  by (auto simp: demo_stack_def ptrq_2_def no_mem_def stack_ok_def queue_ok_def q_inv_def q_shape_def q_own_def q_items_def
      mem_inv_def is_struct_def struct_at_def frame_ok_def frame_objs_def owns_step_def mem_frame_def mem_map_def
      split: if_splits)

theorem stack_clear_spec_witness:
  "\<exists>stk' m'. tt_ptrstk_clear (fst demo_stack) (snd demo_stack) = Inr (stk', m')
    \<and> tt_ptrstk_pop stk' m' = Inr (None, stk', m') \<and> tt_ptrstk_count stk' = 1"
proof -
  have "tt_ptrstk_count (fst demo_stack) = 1" by (simp add: demo_stack_def tt_ptrstk_count_def)
  with stack_clear_spec [of s_store "fst demo_stack" "snd demo_stack"] demo_stack_ok show ?thesis by simp
qed

end
