(* ===== verification/TT_Array.thy ===== *)
theory TT_Array
  imports TT_Container_Specs
begin

text \<open>
  Arrays that grow through the memory spring: what \<^verbatim>\<open>tt_vec_t\<close>, \<^verbatim>\<open>tt_ptrvec_t\<close> and \<^verbatim>\<open>tt_ptrheap_t\<close> have in
  common. The invariant ties the byte size, the capacity in objects and the heap block together;
  the lemmas say what growing, reading, writing and moving objects do to the list of cells.
\<close>

section \<open>Growing\<close>

record growable =
  g_p :: ptr
  g_size :: u32
  g_mspg :: tt_memspg
  g_count :: u32
  g_capacity :: u32

text \<open>
  \<^verbatim>\<open>__vec_reserve\<close>, \<^verbatim>\<open>__ptrvec_reserve\<close> and \<^verbatim>\<open>__ptrheap_reserve\<close> for objects of \<open>osz\<close> bytes; without the flag
  \<^verbatim>\<open>TT_MSPGEXT_ZERO\<close> the spring ignores the value of a zeroed cell.
\<close>

definition arr_extend :: "u32 \<Rightarrow> 'z growable_scheme \<Rightarrow> u32 \<Rightarrow> 'c mem \<Rightarrow> (tt_result \<times> 'z growable_scheme \<times> 'c mem) run" where
  "arr_extend osz a count m =
    TT_DO (bindr (tt_memspg_extend (unat osz) (mem_junk m 0 0) (g_mspg a) (g_p a) (g_size a) ((g_capacity a + count) * osz) m)
             (\<lambda>(r, p, sz, m). Inr (r, a\<lparr>g_p := p, g_size := sz\<rparr>, m)))
      (\<lambda>(a, m). Inr (TT_SUCCESS, a\<lparr>g_capacity := g_size a div osz\<rparr>, m))"

definition arr_reserve :: "u32 \<Rightarrow> 'z growable_scheme \<Rightarrow> u32 \<Rightarrow> 'c mem \<Rightarrow> (tt_result \<times> 'z growable_scheme \<times> 'c mem) run" where
  "arr_reserve osz a count m =
    (if g_count a + count \<le> g_capacity a then Inr (TT_SUCCESS, a, m) else arr_extend osz a count m)"

section \<open>Invariant\<close>

definition arr_cells :: "'z growable_scheme \<Rightarrow> 'c mem \<Rightarrow> 'c list" where
  "arr_cells a m = (case g_p a of None \<Rightarrow> [] | Some i \<Rightarrow> the (mem_blocks m i))"

definition arr_items :: "'z growable_scheme \<Rightarrow> 'c mem \<Rightarrow> 'c list" where
  "arr_items a m = take (unat (g_count a)) (arr_cells a m)"

definition arr_inv :: "u32 \<Rightarrow> 'z growable_scheme \<Rightarrow> 'c mem \<Rightarrow> bool" where
  "arr_inv osz a m \<longleftrightarrow> mem_inv m \<and> memspg_ok (unat osz) (g_mspg a)
     \<and> points_to (unat osz) m (g_p a) (g_size a) (arr_cells a m) \<and> set_option (g_p a) \<subseteq> mem_heap m
     \<and> (g_p a \<noteq> None \<longrightarrow> g_size a \<noteq> 0)
     \<and> unat osz * unat (g_capacity a) = unat (g_size a) \<and> g_count a \<le> g_capacity a"

abbreviation arr_own :: "'z growable_scheme \<Rightarrow> nat set" where
  "arr_own a \<equiv> set_option (g_p a)"

lemma arr_invD:
  assumes "arr_inv osz a m"
  shows "mem_inv m" "memspg_ok (unat osz) (g_mspg a)" "0 < unat osz" "length (arr_cells a m) = unat (g_capacity a)"
    "unat (g_count a) \<le> unat (g_capacity a)" "unat osz * unat (g_capacity a) = unat (g_size a)"
    "points_to (unat osz) m (g_p a) (g_size a) (arr_cells a m)" "arr_own a \<subseteq> mem_heap m"
    "length (arr_items a m) = unat (g_count a)" "g_p a \<noteq> None \<Longrightarrow> g_size a \<noteq> 0"
proof -
  show w: "0 < unat osz" using assms by (simp add: arr_inv_def memspg_ok_def)
  show le: "unat (g_count a) \<le> unat (g_capacity a)" using assms by (simp add: arr_inv_def word_le_nat_alt)
  have "unat osz * length (arr_cells a m) = unat osz * unat (g_capacity a)"
    using assms by (simp add: arr_inv_def points_to_def)
  with w show l: "length (arr_cells a m) = unat (g_capacity a)" by simp
  show "length (arr_items a m) = unat (g_count a)" using l le by (simp add: arr_items_def)
qed (use assms in \<open>simp_all add: arr_inv_def\<close>)

lemma arr_block:
  assumes "arr_inv osz a m" "g_p a = Some i"
  shows "mem_blocks m i = Some (arr_cells a m)"
  using arr_invD(7) [OF assms(1)] assms(2) by (simp add: points_to_def)

lemma arr_count [simp]:
  "arr_cells (a\<lparr>g_count := c\<rparr>) m = arr_cells a m"
  "arr_items (a\<lparr>g_count := c\<rparr>) m = take (unat c) (arr_cells a m)"
  by (simp_all add: arr_cells_def arr_items_def)

lemma arr_inv_count: "arr_inv osz a m \<Longrightarrow> unat c \<le> unat (g_capacity a) \<Longrightarrow> arr_inv osz (a\<lparr>g_count := c\<rparr>) m"
  by (simp add: arr_inv_def word_le_nat_alt)

text \<open>Byte offsets and sizes do not wrap within the array.\<close>

lemma arr_offset:
  fixes osz i :: u32
  assumes "arr_inv osz a m" "unat i \<le> unat (g_capacity a)"
  shows "unat (osz * i) = unat osz * unat i"
proof -
  have "unat osz * unat i \<le> unat osz * unat (g_capacity a)" using assms(2) by simp
  then have "unat osz * unat i < 4294967296"
    using arr_invD(6) [OF assms(1)] unat_lt_32 [of "g_size a"] by linarith
  then show ?thesis by (rule unat_mult_u32)
qed

section \<open>Reading and writing cells\<close>

lemma arr_load:
  assumes inv: "arr_inv osz a m" and le: "i + n \<le> length (arr_cells a m)"
  shows "mem_load (unat osz) m (g_p a) (unat osz * i) (unat osz * n) = Inr (take n (drop i (arr_cells a m)))"
proof (cases "g_p a")
  case None
  with le show ?thesis by (simp add: mem_load_def arr_cells_def)
next
  case (Some k)
  have "unat osz * i + unat osz * n \<le> unat osz * length (arr_cells a m)"
    using le by (metis add_mult_distrib2 mult_le_mono2)
  then show ?thesis
    using mem_load_ok [OF arr_block [OF inv Some], of "unat osz" "unat osz * i" "unat osz * n"] arr_invD(3) [OF inv] Some
    by simp
qed

lemma arr_store:
  assumes inv: "arr_inv osz a m" and le: "i + length vs \<le> length (arr_cells a m)"
  obtains m' where "mem_store (unat osz) m (g_p a) (unat osz * i) vs = Inr m'" "arr_inv osz a m'"
    "arr_cells a m' = overwrite i vs (arr_cells a m)" "owns_step (arr_own a) m (arr_own a) m'"
proof (cases "g_p a")
  case None
  then have "vs = []" using le by (simp add: arr_cells_def)
  with inv that [of m] show thesis by (simp add: mem_store_def owns_refl)
next
  case (Some k)
  let ?cs = "overwrite i vs (arr_cells a m)"
  let ?m = "m\<lparr>mem_blocks := (mem_blocks m)(k \<mapsto> ?cs)\<rparr>"
  have "unat osz * i + unat osz * length vs \<le> unat osz * length (arr_cells a m)"
    using le by (metis add_mult_distrib2 mult_le_mono2)
  then have s: "mem_store (unat osz) m (g_p a) (unat osz * i) vs = Inr ?m"
    using mem_store_ok [OF arr_block [OF inv Some], of "unat osz" "unat osz * i" vs] arr_invD(3) [OF inv] Some by simp
  have c: "arr_cells a ?m = ?cs" using Some by (simp add: arr_cells_def)
  have "mem_inv ?m" using arr_invD(1) [OF inv] arr_block [OF inv Some] by (rule mem_inv_upd)
  then have "arr_inv osz a ?m"
    using inv Some le c by (simp add: arr_inv_def points_to_def)
  moreover have "owns_step (arr_own a) m (arr_own a) ?m"
    using Some by (intro owns_assign [of k]) (simp_all add: mem_frame_upd)
  ultimately show thesis using that [OF s] c by blast
qed

lemma arr_move:
  assumes inv: "arr_inv osz a m" and le: "i + n \<le> length (arr_cells a m)" "j + n \<le> length (arr_cells a m)"
  obtains m' where "tt_memmove (unat osz) m (g_p a) (unat osz * i) (g_p a) (unat osz * j) (unat osz * n) = Inr m'"
    "arr_inv osz a m'" "arr_cells a m' = overwrite i (take n (drop j (arr_cells a m))) (arr_cells a m)"
    "owns_step (arr_own a) m (arr_own a) m'"
proof -
  have "i + length (take n (drop j (arr_cells a m))) \<le> length (arr_cells a m)" using le by simp
  with inv obtain m' where m': "mem_store (unat osz) m (g_p a) (unat osz * i) (take n (drop j (arr_cells a m))) = Inr m'"
    "arr_inv osz a m'" "arr_cells a m' = overwrite i (take n (drop j (arr_cells a m))) (arr_cells a m)"
    "owns_step (arr_own a) m (arr_own a) m'" by (rule arr_store)
  with arr_load [OF inv le(2)] that show thesis by (simp add: tt_memmove_def)
qed

section \<open>Growing keeps the objects\<close>

lemma arr_extend_cases:
  assumes inv: "arr_inv osz a m" and lt: "(unat (g_capacity a) + unat n) * unat osz < 2 ^ 32" and n: "0 < unat n"
  obtains (fail) m' where "arr_extend osz a n m = Inr (TT_FAIL, a, m')" "mem_inv m'" "same_store m m'"
  | (ok) a' m' where "arr_extend osz a n m = Inr (TT_SUCCESS, a', m')" "arr_inv osz a' m'"
      "arr_items a' m' = arr_items a m" "unat (g_capacity a) + unat n \<le> unat (g_capacity a')" "g_count a' = g_count a"
      "growable.more a' = growable.more a" "owns_step (arr_own a) m (arr_own a') m'"
proof -
  note D = arr_invD [OF inv]
  let ?to = "(g_capacity a + n) * osz"
  have "unat (g_capacity a) + unat n \<le> (unat (g_capacity a) + unat n) * unat osz" using D(3) by simp
  then have c: "unat (g_capacity a + n) = unat (g_capacity a) + unat n" using lt by (intro unat_add_u32) (rule order.strict_trans1, assumption, simp)
  then have t: "unat ?to = (unat (g_capacity a) + unat n) * unat osz" using lt by (subst unat_mult_u32) simp_all
  have "unat (g_size a) < unat ?to"
    using D(3,6) n t by (simp add: algebra_simps)
  then have gt: "g_size a < ?to" by (simp add: word_less_nat_alt)
  have own: "0 AND TT_MSPGEXT_NOFREE \<noteq> 0 \<or> set_option (g_p a) \<subseteq> mem_heap m" and z: "0 AND TT_MSPGEXT_ZERO = 0"
    using D(8) by simp_all
  show thesis
    using D(2,1,7) own z gt
  proof (cases rule: memspg_extend_ex_cases [where z = "mem_junk m 0 0"])
    case (fail m')
    have "a\<lparr>g_p := g_p a, g_size := g_size a\<rparr> = a" by simp
    with that(1) fail show thesis by (simp add: arr_extend_def tt_memspg_extend_def)
  next
    case (ok i sz' cs' m')
    let ?a = "a\<lparr>g_p := Some i, g_size := sz', g_capacity := sz' div osz\<rparr>"
    note M = movedD [OF ok(7)]
    have e: "arr_extend osz a n m = Inr (TT_SUCCESS, ?a, m')"
      using ok(1) by (simp add: arr_extend_def tt_memspg_extend_def)
    have cap: "unat (sz' div osz) = length cs'" using ok(3) D(3) by (simp add: unat_div_distrib ok(3) [symmetric])
    have cells: "arr_cells ?a m' = cs'" using M(3) by (simp add: arr_cells_def)
    have to: "unat (g_capacity a) + unat n \<le> length cs'"
      using ok(3,5) t D(3) by (metis mult.commute nat_mult_le_cancel_disj not_gr_zero)
    then have le: "unat (g_count a) \<le> length cs'" using D(5) by linarith
    have b: "mem_blocks m' i = Some cs'" "i \<in> mem_heap m'" using moved_new [OF ok(7)] by simp_all
    have "sz' \<noteq> 0" using ok(6) by auto
    then have "arr_inv osz ?a m'"
      using ok(2,3) D(2) cells cap le b by (simp add: arr_inv_def points_to_def word_le_nat_alt)
    moreover have "arr_items ?a m' = arr_items a m"
    proof -
      have "take (unat (g_count a)) (take (length (arr_cells a m)) cs') = take (unat (g_count a)) cs'" using D(4,5) by (simp add: min_def)
      with ok(4) cells show ?thesis by (simp add: arr_items_def)
    qed
    moreover have "owns_step (arr_own a) m (arr_own ?a) m'"
    proof -
      have "mem_frame (arr_own a) m m'" using moved_frame [OF ok(7)] by simp
      moreover have "{i} \<inter> dom (mem_blocks m) = {}" using M(1) by auto
      moreover have "mem_heap m' - {i} = mem_heap m - arr_own a" using M(2,4) by auto
      ultimately show ?thesis by (simp add: owns_step_def)
    qed
    ultimately show thesis using that(2) [OF e] cap to by simp
  qed
qed

text \<open>Room for one more object: there, made, refused, or the byte size would not fit 32 bits.\<close>

lemma arr_reserve_cases:
  assumes inv: "arr_inv osz a m" and lt: "unat (g_count a) + unat n < 2 ^ 32"
    and big: "(unat (g_capacity a) + unat n) * unat osz < 2 ^ 32"
  obtains (fail) m' where "arr_reserve osz a n m = Inr (TT_FAIL, a, m')" "mem_inv m'" "same_store m m'"
  | (ok) a' m' where "arr_reserve osz a n m = Inr (TT_SUCCESS, a', m')" "arr_inv osz a' m'"
      "arr_items a' m' = arr_items a m" "unat (g_count a') + unat n \<le> unat (g_capacity a')" "g_count a' = g_count a"
      "growable.more a' = growable.more a" "owns_step (arr_own a) m (arr_own a') m'"
proof -
  have c: "unat (g_count a + n) = unat (g_count a) + unat n" using lt by (intro unat_add_u32) simp
  show thesis
  proof (cases "g_count a + n \<le> g_capacity a")
    case True
    then show thesis
      using that(2) [of a m] inv c by (simp add: arr_reserve_def word_le_nat_alt owns_refl)
  next
    case False
    then have n: "0 < unat n" using arr_invD(5) [OF inv] c by (simp add: word_le_nat_alt)
    from False have e: "arr_reserve osz a n m = arr_extend osz a n m" by (simp add: arr_reserve_def)
    show thesis
      using inv big n
    proof (cases rule: arr_extend_cases)
      case (fail m')
      with that(1) e show thesis by simp
    next
      case (ok a' m')
      then show thesis using that(2) [of a' m'] e arr_invD(5) [OF inv] by simp
    qed
  qed
qed

lemma arr_reserve_one_throw:
  assumes inv: "arr_inv osz a m" and lt: "unat (g_count a) + 1 < 2 ^ 32"
    and full: "g_count a = g_capacity a" and big: "2 ^ 32 \<le> (unat (g_capacity a) + 1) * unat osz"
  shows "arr_reserve osz a 1 m = Inl Throw"
proof -
  note D = arr_invD [OF inv]
  let ?to = "(g_capacity a + 1) * osz"
  have c: "unat (g_capacity a + 1) = unat (g_capacity a) + 1" using lt full unat_add_u32 [of "g_capacity a" 1] by simp
  have sz: "unat osz * unat (g_capacity a) < 4294967296" using D(6) unat_lt_32 [of "g_size a"] by simp
  have cap: "1 \<le> unat (g_capacity a)"
  proof (rule ccontr)
    assume "\<not> 1 \<le> unat (g_capacity a)"
    then have "unat (g_capacity a) = 0" by linarith
    then show False using big unat_lt_32 [of osz] by simp
  qed
  have "unat ?to = ((unat (g_capacity a) + 1) * unat osz) mod 4294967296"
    using c by (simp add: unat_word_ariths)
  moreover have "((unat (g_capacity a) + 1) * unat osz) mod 4294967296 = (unat (g_capacity a) + 1) * unat osz - 4294967296"
  proof (rule mod_nat_eqI)
    show "(unat (g_capacity a) + 1) * unat osz - 4294967296 < 4294967296"
      using sz unat_lt_32 [of osz] by (simp add: algebra_simps)
  qed (use big in auto)
  ultimately have "unat ?to \<le> unat osz" using sz by (simp add: algebra_simps)
  also have "\<dots> \<le> unat (g_size a)" using cap D(6) by (metis mult.right_neutral mult_le_mono2)
  finally have "\<not> g_size a < ?to" by (simp add: word_less_nat_alt)
  moreover have "\<not> g_count a + 1 \<le> g_capacity a" using c full by (simp add: word_le_nat_alt)
  ultimately show ?thesis
    by (simp add: arr_reserve_def arr_extend_def tt_memspg_extend_def tt_memspg_extend_ex_def)
qed

section \<open>Releasing\<close>

lemma arr_release:
  assumes inv: "arr_inv osz a m" and p: "g_p a = Some i"
  obtains m' where "tt_memspg_compress (unat osz) (g_mspg a) (g_p a) (g_size a) 0 m = Inr (TT_SUCCESS, None, 0, m')"
    "mem_inv m'" "mem_heap m' = mem_heap m - arr_own a" "mem_frame (arr_own a) m m'"
proof -
  note D = arr_invD [OF inv]
  have pt: "points_to (unat osz) m (Some i) (g_size a) (arr_cells a m)" and h: "i \<in> mem_heap m" using D(7,8) p by simp_all
  have z: "0 < g_size a" using D(10) p by (simp add: word_neq_0_conv)
  have d: "unat osz dvd unat (0 :: u32)" by simp
  show thesis
    using D(1) pt h z D(3) d
  proof (cases rule: memspg_compress_cases [where g = "g_mspg a"])
    case (empty m')
    then have "mem_heap m' = mem_heap m - {i}" unfolding released_def by blast
    with empty that [of m'] p released_frame [OF empty(4)] show thesis by simp
  qed simp_all
qed

end
