(* ===== verification/TT_Vector.thy ===== *)
theory TT_Vector
  imports TT_Array
begin

text \<open>
  The vector of objects of \<^verbatim>\<open>algorithm/tt_vector.c\<close> and the vector of pointers of
  \<^verbatim>\<open>algorithm/ptr/tt_ptr_vector.c\<close>, on a store whose cells are the objects (\<^verbatim>\<open>obj_size\<close> bytes each) or
  the pointers (8 bytes each, a 64-bit build). Byte offsets and sizes are computed in 32 bits as in the
  code; the subscripts of the pointer vector are not. A null pointer is \<open>None\<close>.
\<close>

section \<open>Comparison\<close>

definition tt_cmp_ptr :: "'a :: linorder \<Rightarrow> 'a \<Rightarrow> int" where
  "tt_cmp_ptr l r = (if l < r then -1 else if l = r then 0 else 1)"

definition tt_cmp_u32 :: "u32 \<Rightarrow> u32 \<Rightarrow> int" where
  "tt_cmp_u32 lv rv = (if lv < rv then -1 else if lv = rv then 0 else 1)"

section \<open>The vector of objects\<close>

record tt_vec_attr =
  min_extent_num :: u32
  max_extent_num :: u32
  max_limit_num :: u32

record 'a tt_vec = growable +
  v_cmp :: "('a \<Rightarrow> 'a \<Rightarrow> int) option"
  v_obj_size :: u32

definition V_OBJ :: "'a tt_vec \<Rightarrow> u32 \<Rightarrow> nat" where
  "V_OBJ v idx = unat (v_obj_size v * idx)"

definition V_SIZE :: "'a tt_vec \<Rightarrow> u32 \<Rightarrow> nat" where
  "V_SIZE v num = unat (v_obj_size v * num)"

text \<open>Reading and writing the object at an address, a byte offset into the vector's block.\<close>

definition v_load :: "'a tt_vec \<Rightarrow> 'a mem \<Rightarrow> nat \<Rightarrow> 'a run" where
  "v_load v m off = bindr (mem_load (unat (v_obj_size v)) m (g_p v) off (unat (v_obj_size v))) (\<lambda>cs. Inr (hd cs))"

definition v_store :: "'a tt_vec \<Rightarrow> 'a mem \<Rightarrow> nat \<Rightarrow> 'a \<Rightarrow> 'a mem run" where
  "v_store v m off x = mem_store (unat (v_obj_size v)) m (g_p v) off [x]"

definition v_move :: "'a tt_vec \<Rightarrow> 'a mem \<Rightarrow> nat \<Rightarrow> nat \<Rightarrow> nat \<Rightarrow> 'a mem run" where
  "v_move v m dst src n = tt_memmove (unat (v_obj_size v)) m (g_p v) dst (g_p v) src n"

definition tt_vec_attr_default :: tt_vec_attr where
  "tt_vec_attr_default = \<lparr>min_extent_num = 16, max_extent_num = 128, max_limit_num = 0\<rparr>"

definition tt_vec_init :: "u32 \<Rightarrow> ('a \<Rightarrow> 'a \<Rightarrow> int) option \<Rightarrow> tt_vec_attr option \<Rightarrow> 'a tt_vec run" where
  "tt_vec_init obj_size cmp attr =
    bindr (TT_ASSERT (obj_size \<noteq> 0)) (\<lambda>_.
    let attr = (case attr of None \<Rightarrow> tt_vec_attr_default | Some a \<Rightarrow> a) in
    bindr (TT_ASSERT_ALWAYS (\<not> TT_U32_MUL_WOULD_OVFL obj_size (min_extent_num attr))) (\<lambda>_.
    bindr (TT_ASSERT_ALWAYS (\<not> TT_U32_MUL_WOULD_OVFL obj_size (max_extent_num attr))) (\<lambda>_.
    bindr (TT_ASSERT_ALWAYS (\<not> TT_U32_MUL_WOULD_OVFL obj_size (max_limit_num attr))) (\<lambda>_.
    bindr (tt_memspg_init (min_extent_num attr * obj_size) (max_extent_num attr * obj_size)
             (max_limit_num attr * obj_size)) (\<lambda>mspg.
    Inr \<lparr>g_p = None, g_size = 0, g_mspg = mspg, g_count = 0, g_capacity = 0, v_cmp = cmp, v_obj_size = obj_size\<rparr>)))))"

definition tt_vec_destroy :: "'a tt_vec \<Rightarrow> 'a mem \<Rightarrow> ('a tt_vec \<times> 'a mem) run" where
  "tt_vec_destroy vec m =
    (if g_p vec \<noteq> None then
       bindr (tt_memspg_compress (unat (v_obj_size vec)) (g_mspg vec) (g_p vec) (g_size vec) 0 m)
         (\<lambda>(r, p, sz, m). Inr (vec\<lparr>g_p := p, g_size := sz\<rparr>, m))
     else Inr (vec, m))"

definition vec_reserve :: "'a tt_vec \<Rightarrow> u32 \<Rightarrow> 'a mem \<Rightarrow> (tt_result \<times> 'a tt_vec \<times> 'a mem) run" where
  "vec_reserve vec count m =
    TT_DO (bindr (tt_memspg_extend (unat (v_obj_size vec)) (mem_junk m 0 0) (g_mspg vec) (g_p vec) (g_size vec)
                    ((g_capacity vec + count) * v_obj_size vec) m)
             (\<lambda>(r, p, sz, m). Inr (r, vec\<lparr>g_p := p, g_size := sz\<rparr>, m)))
      (\<lambda>(vec, m). Inr (TT_SUCCESS, vec\<lparr>g_capacity := g_size vec div v_obj_size vec\<rparr>, m))"

definition tt_vec_reserve :: "'a tt_vec \<Rightarrow> u32 \<Rightarrow> 'a mem \<Rightarrow> (tt_result \<times> 'a tt_vec \<times> 'a mem) run" where
  "tt_vec_reserve vec count m =
    (if g_count vec + count \<le> g_capacity vec then Inr (TT_SUCCESS, vec, m) else vec_reserve vec count m)"

definition tt_vec_push_head :: "'a \<Rightarrow> 'a tt_vec \<Rightarrow> 'a mem \<Rightarrow> (tt_result \<times> 'a tt_vec \<times> 'a mem) run" where
  "tt_vec_push_head obj vec m =
    TT_DO (tt_vec_reserve vec 1 m) (\<lambda>(vec, m).
    bindr (v_move vec m (V_OBJ vec 1) 0 (V_SIZE vec (g_count vec))) (\<lambda>m.
    bindr (v_store vec m 0 obj) (\<lambda>m.
    Inr (TT_SUCCESS, vec\<lparr>g_count := g_count vec + 1\<rparr>, m))))"

definition tt_vec_push_tail :: "'a \<Rightarrow> 'a tt_vec \<Rightarrow> 'a mem \<Rightarrow> (tt_result \<times> 'a tt_vec \<times> 'a mem) run" where
  "tt_vec_push_tail obj vec m =
    TT_DO (tt_vec_reserve vec 1 m) (\<lambda>(vec, m).
    bindr (v_store vec m (V_OBJ vec (g_count vec)) obj) (\<lambda>m.
    Inr (TT_SUCCESS, vec\<lparr>g_count := g_count vec + 1\<rparr>, m)))"

text \<open>The pops copy the object out only when the caller gives a place for it (\<open>want\<close>).\<close>

definition tt_vec_pop_head :: "bool \<Rightarrow> 'a tt_vec \<Rightarrow> 'a mem \<Rightarrow> (tt_result \<times> 'a option \<times> 'a tt_vec \<times> 'a mem) run" where
  "tt_vec_pop_head want vec m =
    (if g_count vec = 0 then Inr (TT_FAIL, None, vec, m) else
     bindr (if want then bindr (v_load vec m 0) (\<lambda>obj. Inr (Some obj)) else Inr None) (\<lambda>obj.
     bindr (v_move vec m 0 (V_OBJ vec 1) (V_SIZE vec (g_count vec - 1))) (\<lambda>m.
     Inr (TT_SUCCESS, obj, vec\<lparr>g_count := g_count vec - 1\<rparr>, m))))"

definition tt_vec_pop_tail :: "bool \<Rightarrow> 'a tt_vec \<Rightarrow> 'a mem \<Rightarrow> (tt_result \<times> 'a option \<times> 'a tt_vec \<times> 'a mem) run" where
  "tt_vec_pop_tail want vec m =
    (if g_count vec = 0 then Inr (TT_FAIL, None, vec, m) else
     bindr (if want then bindr (v_load vec m (V_OBJ vec (g_count vec - 1))) (\<lambda>obj. Inr (Some obj)) else Inr None) (\<lambda>obj.
     Inr (TT_SUCCESS, obj, vec\<lparr>g_count := g_count vec - 1\<rparr>, m)))"

text \<open>\<^verbatim>\<open>tt_vec_head\<close>, \<^verbatim>\<open>tt_vec_tail\<close> and \<^verbatim>\<open>tt_vec_get\<close> return the address of an object in the block.\<close>

definition tt_vec_head :: "'a tt_vec \<Rightarrow> nat option" where
  "tt_vec_head vec = (if g_count vec = 0 then None else Some 0)"

definition tt_vec_tail :: "'a tt_vec \<Rightarrow> nat option" where
  "tt_vec_tail vec = (if g_count vec = 0 then None else Some (V_OBJ vec (g_count vec - 1)))"

definition tt_vec_get :: "'a tt_vec \<Rightarrow> u32 \<Rightarrow> nat option" where
  "tt_vec_get vec idx = (if idx \<ge> g_count vec then None else Some (V_OBJ vec idx))"

definition tt_vec_insert :: "u32 \<Rightarrow> 'a \<Rightarrow> 'a tt_vec \<Rightarrow> 'a mem \<Rightarrow> (tt_result \<times> 'a tt_vec \<times> 'a mem) run" where
  "tt_vec_insert idx obj vec m =
    (if idx \<ge> g_count vec then Inr (TT_FAIL, vec, m) else
     TT_DO (tt_vec_reserve vec 1 m) (\<lambda>(vec, m).
     bindr (v_move vec m (V_OBJ vec (idx + 1)) (V_OBJ vec idx) (V_SIZE vec (g_count vec - idx))) (\<lambda>m.
     bindr (v_store vec m (V_OBJ vec idx) obj) (\<lambda>m.
     Inr (TT_SUCCESS, vec\<lparr>g_count := g_count vec + 1\<rparr>, m)))))"

definition tt_vec_capacity :: "'a tt_vec \<Rightarrow> u32" where "tt_vec_capacity vec = g_capacity vec"

definition tt_vec_count :: "'a tt_vec \<Rightarrow> u32" where "tt_vec_count vec = g_count vec"

definition tt_vec_empty :: "'a tt_vec \<Rightarrow> bool" where "tt_vec_empty vec \<longleftrightarrow> g_count vec = 0"

definition tt_vec_clear :: "'a tt_vec \<Rightarrow> 'a tt_vec" where "tt_vec_clear vec = vec\<lparr>g_count := 0\<rparr>"

text \<open>
  Moving objects between two vectors in one store; the two structs are distinct (the code asserts
  \<^verbatim>\<open>dst != src\<close>).
\<close>

definition tt_vec_move_all ::
  "'a tt_vec \<Rightarrow> 'a tt_vec \<Rightarrow> 'a mem \<Rightarrow> (tt_result \<times> ('a tt_vec \<times> 'a tt_vec) \<times> 'a mem) run" where
  "tt_vec_move_all dst src m =
    bindr (TT_ASSERT_ALWAYS (v_obj_size dst = v_obj_size src)) (\<lambda>_.
    bindr (tt_vec_reserve dst (g_count src) m) (\<lambda>(r, dst, m).
    if \<not> TT_OK r then Inr (r, (dst, src), m) else
    bindr (tt_memcpy (unat (v_obj_size src)) m (g_p dst) (V_OBJ dst (g_count dst)) (g_p src) 0 (V_SIZE src (g_count src))) (\<lambda>m.
    Inr (TT_SUCCESS, (dst\<lparr>g_count := g_count dst + g_count src\<rparr>, tt_vec_clear src), m))))"

definition tt_vec_move_from ::
  "'a tt_vec \<Rightarrow> 'a tt_vec \<Rightarrow> u32 \<Rightarrow> 'a mem \<Rightarrow> (tt_result \<times> ('a tt_vec \<times> 'a tt_vec) \<times> 'a mem) run" where
  "tt_vec_move_from dst src from_idx m =
    bindr (TT_ASSERT_ALWAYS (v_obj_size dst = v_obj_size src)) (\<lambda>_.
    if from_idx \<ge> g_count src then Inr (TT_SUCCESS, (dst, src), m) else
    let n = g_count src - from_idx in
    bindr (tt_vec_reserve dst n m) (\<lambda>(r, dst, m).
    if \<not> TT_OK r then Inr (r, (dst, src), m) else
    bindr (tt_memcpy (unat (v_obj_size src)) m (g_p dst) (V_OBJ dst (g_count dst)) (g_p src) (V_OBJ src from_idx) (V_SIZE src n)) (\<lambda>m.
    Inr (TT_SUCCESS, (dst\<lparr>g_count := g_count dst + n\<rparr>, src\<lparr>g_count := g_count src - n\<rparr>), m))))"

definition tt_vec_move_range ::
  "'a tt_vec \<Rightarrow> 'a tt_vec \<Rightarrow> u32 \<Rightarrow> u32 \<Rightarrow> 'a mem \<Rightarrow> (tt_result \<times> ('a tt_vec \<times> 'a tt_vec) \<times> 'a mem) run" where
  "tt_vec_move_range dst src from_idx to_idx m =
    bindr (TT_ASSERT_ALWAYS (v_obj_size dst = v_obj_size src)) (\<lambda>_.
    bindr (TT_ASSERT_ALWAYS (from_idx \<le> to_idx)) (\<lambda>_.
    if from_idx \<ge> g_count src then Inr (TT_SUCCESS, (dst, src), m) else
    let to_idx = (if to_idx \<ge> g_count src then g_count src else to_idx);
        n = to_idx - from_idx in
    bindr (tt_vec_reserve dst n m) (\<lambda>(r, dst, m).
    if \<not> TT_OK r then Inr (r, (dst, src), m) else
    bindr (tt_memcpy (unat (v_obj_size src)) m (g_p dst) (V_OBJ dst (g_count dst)) (g_p src) (V_OBJ src from_idx) (V_SIZE src n)) (\<lambda>m.
    bindr (tt_memcpy (unat (v_obj_size src)) m (g_p src) (V_OBJ src from_idx) (g_p src) (V_OBJ src to_idx)
             (V_SIZE src (g_count src - to_idx))) (\<lambda>m.
    Inr (TT_SUCCESS, (dst\<lparr>g_count := g_count dst + n\<rparr>, src\<lparr>g_count := g_count src - n\<rparr>), m))))))"

definition tt_vec_set :: "u32 \<Rightarrow> 'a \<Rightarrow> 'a tt_vec \<Rightarrow> 'a mem \<Rightarrow> (tt_result \<times> 'a mem) run" where
  "tt_vec_set idx obj vec m =
    (if idx \<ge> g_count vec then Inr (TT_FAIL, m) else
     bindr (v_store vec m (V_OBJ vec idx) obj) (\<lambda>m. Inr (TT_SUCCESS, m)))"

text \<open>The comparison of the searches: the vector's function, or the bytes of the objects.\<close>

definition v_equal :: "'a tt_vec \<Rightarrow> 'a \<Rightarrow> 'a \<Rightarrow> bool" where
  "v_equal v x obj = (case v_cmp v of Some cmp \<Rightarrow> cmp x obj = 0 | None \<Rightarrow> x = obj)"

text \<open>The \<^verbatim>\<open>for\<close> loops of the searches, from \<open>i\<close> up to \<open>to_idx\<close> and from \<open>i\<close> down to 0.\<close>

function vec_find_up :: "'a tt_vec \<Rightarrow> 'a \<Rightarrow> u32 \<Rightarrow> u32 \<Rightarrow> 'a mem \<Rightarrow> u32 run" where
  "vec_find_up v obj i to_idx m =
    (if i < to_idx then
       bindr (v_load v m (V_OBJ v i)) (\<lambda>x. if v_equal v x obj then Inr i else vec_find_up v obj (i + 1) to_idx m)
     else Inr TT_POS_NULL)"
  by pat_completeness auto
termination
proof (relation "measure (\<lambda>(v, obj, i, to_idx, m). unat to_idx - unat i)")
  fix v :: "'a tt_vec" and obj :: 'a and i to_idx :: u32 and m :: "'a mem" and x :: 'a
  assume "i < to_idx"
  then have "unat i < unat to_idx" "unat (i + 1) = Suc (unat i)"
    by (simp_all add: word_less_nat_alt unat_suc_u32 [of i to_idx])
  then show "((v, obj, i + 1, to_idx, m), v, obj, i, to_idx, m) \<in> measure (\<lambda>(v, obj, i, to_idx, m). unat to_idx - unat i)"
    by simp
qed simp

function vec_find_down :: "'a tt_vec \<Rightarrow> 'a \<Rightarrow> u32 \<Rightarrow> 'a mem \<Rightarrow> u32 run" where
  "vec_find_down v obj i m =
    (if i \<noteq> NOT 0 then
       bindr (v_load v m (V_OBJ v i)) (\<lambda>x. if v_equal v x obj then Inr i else vec_find_down v obj (i - 1) m)
     else Inr TT_POS_NULL)"
  by pat_completeness auto
termination
proof (relation "measure (\<lambda>(v, obj, i, m). if i = - 1 then 0 else Suc (unat i))")
  fix v :: "'a tt_vec" and obj :: 'a and i :: u32 and m :: "'a mem" and x :: 'a
  assume "i \<noteq> NOT 0"
  then have ne: "i \<noteq> - 1" by simp
  have "i \<noteq> 0 \<Longrightarrow> unat (i - 1) < unat i" by (simp add: unat_minus_one unat_gt_0)
  with ne show "((v, obj, i - 1, m), v, obj, i, m) \<in> measure (\<lambda>(v, obj, i, m). if i = - 1 then 0 else Suc (unat i))"
    by auto
qed simp

declare vec_find_up.simps [simp del] vec_find_down.simps [simp del]

definition tt_vec_find :: "'a tt_vec \<Rightarrow> 'a \<Rightarrow> 'a mem \<Rightarrow> u32 run" where
  "tt_vec_find vec obj m = vec_find_up vec obj 0 (g_count vec) m"

definition tt_vec_find_last :: "'a tt_vec \<Rightarrow> 'a \<Rightarrow> 'a mem \<Rightarrow> u32 run" where
  "tt_vec_find_last vec obj m = vec_find_down vec obj (g_count vec - 1) m"

definition tt_vec_find_from :: "'a tt_vec \<Rightarrow> 'a \<Rightarrow> u32 \<Rightarrow> 'a mem \<Rightarrow> u32 run" where
  "tt_vec_find_from vec obj from_idx m =
    (if from_idx \<ge> g_count vec then Inr TT_POS_NULL else vec_find_up vec obj from_idx (g_count vec) m)"

definition tt_vec_find_range :: "'a tt_vec \<Rightarrow> 'a \<Rightarrow> u32 \<Rightarrow> u32 \<Rightarrow> 'a mem \<Rightarrow> u32 run" where
  "tt_vec_find_range vec obj from_idx to_idx m =
    bindr (TT_ASSERT_ALWAYS (from_idx \<le> to_idx)) (\<lambda>_.
    if from_idx \<ge> g_count vec then Inr TT_POS_NULL else
    vec_find_up vec obj from_idx (if to_idx \<ge> g_count vec then g_count vec else to_idx) m)"

definition tt_vec_comtain :: "'a tt_vec \<Rightarrow> 'a \<Rightarrow> 'a mem \<Rightarrow> bool run" where
  "tt_vec_comtain vec obj m = bindr (tt_vec_find vec obj m) (\<lambda>i. Inr (i \<noteq> TT_POS_NULL))"

function vec_comtain_loop :: "'a tt_vec \<Rightarrow> 'a tt_vec \<Rightarrow> u32 \<Rightarrow> 'a mem \<Rightarrow> bool run" where
  "vec_comtain_loop vec vec2 i m =
    (if i < g_count vec2 then
       bindr (v_load vec2 m (V_OBJ vec2 i)) (\<lambda>obj.
       bindr (tt_vec_find vec obj m) (\<lambda>k. if k = TT_POS_NULL then Inr False else vec_comtain_loop vec vec2 (i + 1) m))
     else Inr True)"
  by pat_completeness auto
termination
proof (relation "measure (\<lambda>(vec, vec2, i, m). unat (g_count vec2) - unat i)")
  fix vec vec2 :: "'a tt_vec" and i :: u32 and m :: "'a mem" and x :: 'a and k :: u32
  assume "i < g_count vec2"
  then have "unat i < unat (g_count vec2)" "unat (i + 1) = Suc (unat i)"
    by (simp_all add: word_less_nat_alt unat_suc_u32 [of i "g_count vec2"])
  then show "((vec, vec2, i + 1, m), vec, vec2, i, m) \<in> measure (\<lambda>(vec, vec2, i, m). unat (g_count vec2) - unat i)"
    by simp
qed simp

declare vec_comtain_loop.simps [simp del]

definition tt_vec_comtain_all :: "'a tt_vec \<Rightarrow> 'a tt_vec \<Rightarrow> 'a mem \<Rightarrow> bool run" where
  "tt_vec_comtain_all vec vec2 m = vec_comtain_loop vec vec2 0 m"

definition tt_vec_remove :: "u32 \<Rightarrow> 'a tt_vec \<Rightarrow> 'a mem \<Rightarrow> ('a tt_vec \<times> 'a mem) run" where
  "tt_vec_remove idx vec m =
    (if idx \<ge> g_count vec then Inr (vec, m) else
     bindr (v_move vec m (V_OBJ vec idx) (V_OBJ vec (idx + 1)) (V_SIZE vec (g_count vec - idx - 1))) (\<lambda>m.
     Inr (vec\<lparr>g_count := g_count vec - 1\<rparr>, m)))"

definition tt_vec_remove_equal :: "'a \<Rightarrow> 'a tt_vec \<Rightarrow> 'a mem \<Rightarrow> (u32 \<times> 'a tt_vec \<times> 'a mem) run" where
  "tt_vec_remove_equal obj vec m =
    bindr (tt_vec_find vec obj m) (\<lambda>idx.
    bindr (if idx \<noteq> TT_POS_NULL then tt_vec_remove idx vec m else Inr (vec, m)) (\<lambda>(vec, m).
    Inr (idx, vec, m)))"

definition tt_vec_remove_range :: "u32 \<Rightarrow> u32 \<Rightarrow> 'a tt_vec \<Rightarrow> 'a mem \<Rightarrow> ('a tt_vec \<times> 'a mem) run" where
  "tt_vec_remove_range from_idx to_idx vec m =
    bindr (TT_ASSERT_ALWAYS (from_idx \<le> to_idx)) (\<lambda>_.
    if from_idx \<ge> g_count vec then Inr (vec, m) else
    let to_idx = (if to_idx \<ge> g_count vec then g_count vec else to_idx) in
    bindr (v_move vec m (V_OBJ vec from_idx) (V_OBJ vec to_idx) (V_SIZE vec (g_count vec - to_idx))) (\<lambda>m.
    Inr (vec\<lparr>g_count := g_count vec - (to_idx - from_idx)\<rparr>, m)))"

definition tt_vec_trim :: "'a tt_vec \<Rightarrow> 'a mem \<Rightarrow> ('a tt_vec \<times> 'a mem) run" where
  "tt_vec_trim vec m =
    (if g_count vec < g_capacity vec then
       bindr (tt_memspg_compress (unat (v_obj_size vec)) (g_mspg vec) (g_p vec) (g_size vec)
                (v_obj_size vec * g_count vec) m)
         (\<lambda>(r, p, sz, m). let vec = vec\<lparr>g_p := p, g_size := sz\<rparr> in
           Inr (vec\<lparr>g_capacity := g_size vec div v_obj_size vec\<rparr>, m))
     else Inr (vec, m))"

end
