(* ===== verification/TT_Vector_Inv.thy ===== *)
theory TT_Vector_Inv
  imports TT_Vector
begin

text \<open>
  What the operations of the vector do to the list of its objects, that they keep the invariant and
  own one heap block at most, and that the vector is a double-ended queue.
\<close>

section \<open>Cells of a vector\<close>

abbreviation vec_inv :: "'a tt_vec \<Rightarrow> 'a mem \<Rightarrow> bool" where
  "vec_inv v m \<equiv> arr_inv (v_obj_size v) v m"

lemma vec_more:
  "growable.more v' = growable.more v \<Longrightarrow> v_obj_size v' = v_obj_size v \<and> v_cmp v' = v_cmp v"
  by (cases v; cases v') simp

lemma reserve_eq: "tt_vec_reserve v n m = arr_reserve (v_obj_size v) v n m"
  by (simp add: tt_vec_reserve_def vec_reserve_def arr_reserve_def arr_extend_def case_prod_unfold TT_DO_def
      bindr_assoc cong: if_cong)

lemma V_ok:
  assumes "vec_inv v m" "unat i \<le> unat (g_capacity v)"
  shows "V_OBJ v i = unat (v_obj_size v) * unat i" "V_SIZE v i = unat (v_obj_size v) * unat i"
  using arr_offset [OF assms] by (simp_all add: V_OBJ_def V_SIZE_def)

lemma v_load_ok:
  assumes inv: "vec_inv v m" and i: "unat i < unat (g_capacity v)"
  shows "v_load v m (V_OBJ v i) = Inr (arr_cells v m ! unat i)"
proof -
  have "unat i + 1 \<le> length (arr_cells v m)" using i arr_invD(4) [OF inv] by simp
  from arr_load [OF inv this] i show ?thesis
    using arr_invD(4) [OF inv] by (simp add: v_load_def V_ok [OF inv] take_Suc hd_drop_conv_nth)
qed

lemma v_store_ok:
  assumes inv: "vec_inv v m" and i: "unat i < unat (g_capacity v)"
  obtains m' where "v_store v m (V_OBJ v i) x = Inr m'" "vec_inv v m'"
    "arr_cells v m' = overwrite (unat i) [x] (arr_cells v m)" "owns_step (arr_own v) m (arr_own v) m'"
proof -
  have "unat i + length [x] \<le> length (arr_cells v m)" using i arr_invD(4) [OF inv] by simp
  with inv obtain m' where "mem_store (unat (v_obj_size v)) m (g_p v) (unat (v_obj_size v) * unat i) [x] = Inr m'" "vec_inv v m'"
    "arr_cells v m' = overwrite (unat i) [x] (arr_cells v m)" "owns_step (arr_own v) m (arr_own v) m'" by (rule arr_store)
  with that show thesis using i V_ok(1) [OF inv] by (simp add: v_store_def)
qed

lemma v_move_ok:
  assumes inv: "vec_inv v m" and le: "unat i + unat n \<le> unat (g_capacity v)" "unat j + unat n \<le> unat (g_capacity v)"
  obtains m' where "v_move v m (V_OBJ v i) (V_OBJ v j) (V_SIZE v n) = Inr m'" "vec_inv v m'"
    "arr_cells v m' = overwrite (unat i) (take (unat n) (drop (unat j) (arr_cells v m))) (arr_cells v m)"
    "owns_step (arr_own v) m (arr_own v) m'"
proof -
  have "unat i + unat n \<le> length (arr_cells v m)" "unat j + unat n \<le> length (arr_cells v m)"
    using le arr_invD(4) [OF inv] by simp_all
  with inv obtain m' where "tt_memmove (unat (v_obj_size v)) m (g_p v) (unat (v_obj_size v) * unat i) (g_p v)
      (unat (v_obj_size v) * unat j) (unat (v_obj_size v) * unat n) = Inr m'" "vec_inv v m'"
    "arr_cells v m' = overwrite (unat i) (take (unat n) (drop (unat j) (arr_cells v m))) (arr_cells v m)"
    "owns_step (arr_own v) m (arr_own v) m'" by (rule arr_move)
  with that show thesis using le V_ok [OF inv] by (simp add: v_move_def)
qed

lemma V_OBJ_0: "V_OBJ v 0 = 0" by (simp add: V_OBJ_def)

text \<open>Two overwrites: shift the tail up by one and put an element in the gap.\<close>

lemma overwrite_insert:
  assumes "Suc i + length vs \<le> length cs"
  shows "take (Suc i + length vs) (overwrite i [x] (overwrite (Suc i) vs cs)) = take i cs @ x # vs"
  using assms by (simp add: overwrite_def min_def Suc_diff_le)

section \<open>Adding an object\<close>

text \<open>
  The outcome of a push or an insertion: the object was added; there was no memory and nothing
  changed; or the code asserted because the size in bytes would not fit 32 bits.
\<close>

definition vec_adds :: "'a tt_vec \<Rightarrow> 'a mem \<Rightarrow> 'a list \<Rightarrow> (tt_result \<times> 'a tt_vec \<times> 'a mem) run \<Rightarrow> bool" where
  "vec_adds v m ys out \<longleftrightarrow>
     (\<exists>v' m'. out = Inr (TT_SUCCESS, v', m') \<and> vec_inv v' m' \<and> arr_items v' m' = ys
        \<and> v_obj_size v' = v_obj_size v \<and> v_cmp v' = v_cmp v \<and> owns_step (arr_own v) m (arr_own v') m')
   \<or> (\<exists>m'. out = Inr (TT_FAIL, v, m') \<and> mem_inv m' \<and> same_store m m')
   \<or> out = Inl Throw \<and> 2 ^ 32 \<le> Suc (length (arr_items v m)) * unat (v_obj_size v)"

lemma vec_add:
  assumes inv: "vec_inv v m" and lt: "Suc (unat (g_count v)) < 2 ^ 32"
    and k: "\<And>v' m'. vec_inv v' m' \<Longrightarrow> arr_items v' m' = arr_items v m \<Longrightarrow> g_count v' = g_count v
      \<Longrightarrow> unat (g_count v) < unat (g_capacity v')
      \<Longrightarrow> \<exists>m''. k (v', m') = Inr (TT_SUCCESS, v'\<lparr>g_count := g_count v' + 1\<rparr>, m'') \<and> vec_inv v' m''
            \<and> owns_step (arr_own v') m' (arr_own v') m'' \<and> take (Suc (unat (g_count v))) (arr_cells v' m'') = ys"
  shows "vec_adds v m ys (TT_DO (tt_vec_reserve v 1 m) k)"
proof -
  note D = arr_invD [OF inv]
  have u: "unat (g_count v + 1) = Suc (unat (g_count v))" using lt unat_add_u32 [of "g_count v" 1] by simp
  have fin: "vec_adds v m ys (k (v', m'))"
    if v': "vec_inv v' m'" "arr_items v' m' = arr_items v m" "g_count v' = g_count v" "unat (g_count v) < unat (g_capacity v')"
      "v_obj_size v' = v_obj_size v" "v_cmp v' = v_cmp v" and own: "owns_step (arr_own v) m (arr_own v') m'" for v' m'
  proof -
    from k [OF v'(1-4)] obtain m'' where m'': "k (v', m') = Inr (TT_SUCCESS, v'\<lparr>g_count := g_count v' + 1\<rparr>, m'')" "vec_inv v' m''"
      "owns_step (arr_own v') m' (arr_own v') m''" "take (Suc (unat (g_count v))) (arr_cells v' m'') = ys" by blast
    moreover have "vec_inv (v'\<lparr>g_count := g_count v' + 1\<rparr>) m''"
      using arr_inv_count [OF m''(2), of "g_count v' + 1"] u v'(3,4) by simp
    ultimately show ?thesis
      using owns_trans [OF own m''(3)] u v' by (simp add: vec_adds_def)
  qed
  show ?thesis
  proof (cases "unat (g_count v) < unat (g_capacity v)")
    case True
    then have "tt_vec_reserve v 1 m = Inr (TT_SUCCESS, v, m)" using u by (simp add: tt_vec_reserve_def word_le_nat_alt)
    with fin [OF inv _ _ True] show ?thesis by (simp add: owns_refl)
  next
    case False
    then have full: "unat (g_count v) = unat (g_capacity v)" using D(5) by simp
    show ?thesis
    proof (cases "(unat (g_capacity v) + unat (1 :: u32)) * unat (v_obj_size v) < 2 ^ 32")
      case True
      have lt': "unat (g_count v) + unat (1 :: u32) < 2 ^ 32" using lt by simp
      show ?thesis
        using inv lt' True
      proof (cases rule: arr_reserve_cases)
        case (fail m')
        then show ?thesis by (simp add: reserve_eq vec_adds_def)
      next
        case (ok v' m')
        then show ?thesis using fin [of v' m'] vec_more [OF ok(6)] by (simp add: reserve_eq)
      qed
    next
      case big: False
      have "tt_vec_reserve v 1 m = Inl Throw"
        unfolding reserve_eq using inv lt full big by (intro arr_reserve_one_throw) (simp_all add: word_unat_eq_iff)
      with big full D(9) show ?thesis by (simp add: vec_adds_def)
    qed
  qed
qed

lemma push_tail_adds:
  assumes inv: "vec_inv v m" and lt: "Suc (unat (g_count v)) < 2 ^ 32"
  shows "vec_adds v m (arr_items v m @ [x]) (tt_vec_push_tail x v m)"
  unfolding tt_vec_push_tail_def
proof (rule vec_add [OF inv lt])
  fix v' m'
  assume v': "vec_inv v' m'" "arr_items v' m' = arr_items v m" "g_count v' = g_count v" "unat (g_count v) < unat (g_capacity v')"
  have "unat (g_count v') < unat (g_capacity v')" using v'(3,4) by simp
  with v'(1) obtain m'' where m'': "v_store v' m' (V_OBJ v' (g_count v')) x = Inr m''" "vec_inv v' m''"
    "arr_cells v' m'' = overwrite (unat (g_count v')) [x] (arr_cells v' m')" "owns_step (arr_own v') m' (arr_own v') m''"
    by (rule v_store_ok)
  have "take (Suc (unat (g_count v))) (arr_cells v' m'') = arr_items v m @ [x]"
    using take_overwrite_end [of "unat (g_count v')" "arr_cells v' m'" "[x]"] m''(3) v' arr_invD(4,5) [OF v'(1)]
    by (simp add: arr_items_def)
  with m'' show "\<exists>m''. (case (v', m') of (vec, m) \<Rightarrow> bindr (v_store vec m (V_OBJ vec (g_count vec)) x)
      (\<lambda>m. Inr (TT_SUCCESS, vec\<lparr>g_count := g_count vec + 1\<rparr>, m))) = Inr (TT_SUCCESS, v'\<lparr>g_count := g_count v' + 1\<rparr>, m'')
    \<and> vec_inv v' m'' \<and> owns_step (arr_own v') m' (arr_own v') m''
    \<and> take (Suc (unat (g_count v))) (arr_cells v' m'') = arr_items v m @ [x]" by simp
qed

text \<open>Shifting the objects from an index up by one and storing an object there.\<close>

lemma shift_and_store:
  assumes v': "vec_inv v' m'" "unat (g_count v') < unat (g_capacity v')" and i: "unat i \<le> unat (g_count v')"
  obtains m1 m2 where "v_move v' m' (V_OBJ v' (i + 1)) (V_OBJ v' i) (V_SIZE v' (g_count v' - i)) = Inr m1"
    "v_store v' m1 (V_OBJ v' i) x = Inr m2" "vec_inv v' m2" "owns_step (arr_own v') m' (arr_own v') m2"
    "take (Suc (unat (g_count v'))) (arr_cells v' m2) = take (unat i) (arr_items v' m') @ x # drop (unat i) (arr_items v' m')"
proof -
  note D = arr_invD [OF v'(1)]
  have i1: "unat (i + 1) = Suc (unat i)" using i v'(2) by (intro unat_suc_u32 [of i "g_capacity v'"]) simp
  have ni: "unat (g_count v' - i) = unat (g_count v') - unat i" using i by (rule unat_sub_u32)
  have "unat (i + 1) + unat (g_count v' - i) \<le> unat (g_capacity v')" "unat i + unat (g_count v' - i) \<le> unat (g_capacity v')"
    using i1 ni i v'(2) by simp_all
  with v'(1) obtain m1 where m1: "v_move v' m' (V_OBJ v' (i + 1)) (V_OBJ v' i) (V_SIZE v' (g_count v' - i)) = Inr m1" "vec_inv v' m1"
    "arr_cells v' m1 = overwrite (unat (i + 1)) (take (unat (g_count v' - i)) (drop (unat i) (arr_cells v' m'))) (arr_cells v' m')"
    "owns_step (arr_own v') m' (arr_own v') m1" by (rule v_move_ok)
  have "unat i < unat (g_capacity v')" using i v'(2) by simp
  with m1(2) obtain m2 where m2: "v_store v' m1 (V_OBJ v' i) x = Inr m2" "vec_inv v' m2"
    "arr_cells v' m2 = overwrite (unat i) [x] (arr_cells v' m1)" "owns_step (arr_own v') m1 (arr_own v') m2"
    by (rule v_store_ok)
  let ?vs = "take (unat (g_count v') - unat i) (drop (unat i) (arr_cells v' m'))"
  have l: "length ?vs = unat (g_count v') - unat i" using D(4,5) by simp
  have "take (Suc (unat i) + length ?vs) (arr_cells v' m2) = take (unat i) (arr_cells v' m') @ x # ?vs"
    unfolding m2(3) m1(3) i1 ni using l i v'(2) D(4) by (intro overwrite_insert) simp
  moreover have "take (unat i) (arr_cells v' m') = take (unat i) (arr_items v' m')" "?vs = drop (unat i) (arr_items v' m')"
    using i by (simp_all add: arr_items_def min_def drop_take)
  ultimately have "take (Suc (unat (g_count v'))) (arr_cells v' m2) = take (unat i) (arr_items v' m') @ x # drop (unat i) (arr_items v' m')"
    using l i by simp
  then show thesis using that [OF m1(1) m2(1,2) owns_trans [OF m1(4) m2(4)]] by simp
qed

lemma insert_adds:
  assumes inv: "vec_inv v m" and lt: "Suc (unat (g_count v)) < 2 ^ 32" and i: "i < g_count v"
  shows "vec_adds v m (take (unat i) (arr_items v m) @ x # drop (unat i) (arr_items v m)) (tt_vec_insert i x v m)"
proof -
  have "tt_vec_insert i x v m = TT_DO (tt_vec_reserve v 1 m) (\<lambda>(vec, m).
     bindr (v_move vec m (V_OBJ vec (i + 1)) (V_OBJ vec i) (V_SIZE vec (g_count vec - i))) (\<lambda>m.
     bindr (v_store vec m (V_OBJ vec i) x) (\<lambda>m. Inr (TT_SUCCESS, vec\<lparr>g_count := g_count vec + 1\<rparr>, m))))"
    using leD [of "g_count v" i] i by (auto simp: tt_vec_insert_def)
  also have "vec_adds v m (take (unat i) (arr_items v m) @ x # drop (unat i) (arr_items v m)) \<dots>"
  proof (rule vec_add [OF inv lt], goal_cases)
    case (1 v' m')
    have c: "unat (g_count v') < unat (g_capacity v')" "unat i \<le> unat (g_count v')"
      using 1(3,4) i by (simp_all add: word_less_nat_alt)
    from 1(1) c show ?case
      by (rule shift_and_store [where x = x]) (use 1 in auto)
  qed
  finally show ?thesis .
qed

lemma push_head_adds:
  assumes inv: "vec_inv v m" and lt: "Suc (unat (g_count v)) < 2 ^ 32"
  shows "vec_adds v m (x # arr_items v m) (tt_vec_push_head x v m)"
  unfolding tt_vec_push_head_def
proof (rule vec_add [OF inv lt], goal_cases)
  case (1 v' m')
  have c: "unat (g_count v') < unat (g_capacity v')" "unat (0 :: u32) \<le> unat (g_count v')" using 1(3,4) by simp_all
  from 1(1) c show ?case
    by (rule shift_and_store [where x = x]) (use 1 in \<open>auto simp: V_OBJ_0\<close>)
qed

section \<open>Removing objects\<close>

text \<open>The outcome of an operation that cannot fail on a vector of these objects.\<close>

definition vec_becomes :: "'a tt_vec \<Rightarrow> 'a mem \<Rightarrow> 'a list \<Rightarrow> 'a tt_vec \<Rightarrow> 'a mem \<Rightarrow> bool" where
  "vec_becomes v m ys v' m' \<longleftrightarrow> vec_inv v' m' \<and> arr_items v' m' = ys \<and> v_obj_size v' = v_obj_size v
     \<and> v_cmp v' = v_cmp v \<and> owns_step (arr_own v) m (arr_own v') m'"

lemma vec_becomes_refl: "vec_inv v m \<Longrightarrow> vec_becomes v m (arr_items v m) v m"
  by (simp add: vec_becomes_def owns_refl)

lemma cut_range:
  assumes inv: "vec_inv v m" and i: "unat i \<le> unat j" "unat j \<le> unat (g_count v)"
  obtains m' where "v_move v m (V_OBJ v i) (V_OBJ v j) (V_SIZE v (g_count v - j)) = Inr m'"
    "vec_becomes v m (take (unat i) (arr_items v m) @ drop (unat j) (arr_items v m)) (v\<lparr>g_count := g_count v - (j - i)\<rparr>) m'"
proof -
  note D = arr_invD [OF inv]
  have ni: "unat (g_count v - j) = unat (g_count v) - unat j" "unat (j - i) = unat j - unat i"
    using i by (simp_all add: unat_sub_u32)
  then have nc: "unat (g_count v - (j - i)) = unat (g_count v) - (unat j - unat i)"
    using i by (subst unat_sub_u32) simp_all
  have "unat i + unat (g_count v - j) \<le> unat (g_capacity v)" "unat j + unat (g_count v - j) \<le> unat (g_capacity v)"
    using ni i D(5) by simp_all
  with inv obtain m' where m': "v_move v m (V_OBJ v i) (V_OBJ v j) (V_SIZE v (g_count v - j)) = Inr m'" "vec_inv v m'"
    "arr_cells v m' = overwrite (unat i) (take (unat (g_count v - j)) (drop (unat j) (arr_cells v m))) (arr_cells v m)"
    "owns_step (arr_own v) m (arr_own v) m'" by (rule v_move_ok)
  let ?vs = "take (unat (g_count v) - unat j) (drop (unat j) (arr_cells v m))"
  have l: "length ?vs = unat (g_count v) - unat j" using D(4,5) by simp
  then have n: "unat (g_count v - (j - i)) = unat i + length ?vs" using nc i by simp
  have "take (unat i + length ?vs) (arr_cells v m') = take (unat i) (arr_cells v m) @ ?vs"
    unfolding m'(3) ni using i D(4,5) by (intro take_overwrite_end) simp
  moreover have "take (unat i) (arr_cells v m) = take (unat i) (arr_items v m)" "?vs = drop (unat j) (arr_items v m)"
    using i by (simp_all add: arr_items_def min_def drop_take)
  moreover have "vec_inv (v\<lparr>g_count := g_count v - (j - i)\<rparr>) m'"
    using arr_inv_count [OF m'(2), of "g_count v - (j - i)"] nc D(5) by simp
  ultimately show thesis
    using that [OF m'(1)] m'(4) n by (simp add: vec_becomes_def)
qed

lemma remove_range_ok:
  assumes inv: "vec_inv v m" and ij: "i \<le> j"
  shows "\<exists>v' m'. tt_vec_remove_range i j v m = Inr (v', m')
    \<and> vec_becomes v m (take (unat i) (arr_items v m) @ drop (unat j) (arr_items v m)) v' m'"
proof (cases "g_count v \<le> i")
  case True
  have "take (unat i) (arr_items v m) @ drop (unat j) (arr_items v m) = arr_items v m"
    using True ij arr_invD(9) [OF inv] by (simp add: word_le_nat_alt)
  with True ij vec_becomes_refl [OF inv] show ?thesis by (simp add: tt_vec_remove_range_def)
next
  case False
  let ?j = "if g_count v \<le> j then g_count v else j"
  have "unat i \<le> unat ?j" "unat ?j \<le> unat (g_count v)" using False ij by (auto simp: word_le_nat_alt)
  with inv obtain m' where m': "v_move v m (V_OBJ v i) (V_OBJ v ?j) (V_SIZE v (g_count v - ?j)) = Inr m'"
    "vec_becomes v m (take (unat i) (arr_items v m) @ drop (unat ?j) (arr_items v m)) (v\<lparr>g_count := g_count v - (?j - i)\<rparr>) m'"
    by (rule cut_range)
  have "drop (unat ?j) (arr_items v m) = drop (unat j) (arr_items v m)"
    using arr_invD(9) [OF inv] by (simp add: word_le_nat_alt)
  with m' False ij show ?thesis by (simp add: tt_vec_remove_range_def Let_def)
qed

lemma remove_ok:
  assumes inv: "vec_inv v m"
  shows "\<exists>v' m'. tt_vec_remove i v m = Inr (v', m')
    \<and> vec_becomes v m (take (unat i) (arr_items v m) @ drop (Suc (unat i)) (arr_items v m)) v' m'"
proof (cases "g_count v \<le> i")
  case True
  then have "take (unat i) (arr_items v m) @ drop (Suc (unat i)) (arr_items v m) = arr_items v m"
    using arr_invD(9) [OF inv] by (simp add: word_le_nat_alt)
  with True vec_becomes_refl [OF inv] show ?thesis by (simp add: tt_vec_remove_def)
next
  case False
  then have lt: "unat i < unat (g_count v)" by (simp add: word_le_nat_alt)
  then have i1: "unat (i + 1) = Suc (unat i)" by (rule unat_suc_u32)
  have "unat i \<le> unat (i + 1)" "unat (i + 1) \<le> unat (g_count v)" using i1 lt by simp_all
  with inv obtain m' where m': "v_move v m (V_OBJ v i) (V_OBJ v (i + 1)) (V_SIZE v (g_count v - (i + 1))) = Inr m'"
    "vec_becomes v m (take (unat i) (arr_items v m) @ drop (unat (i + 1)) (arr_items v m)) (v\<lparr>g_count := g_count v - (i + 1 - i)\<rparr>) m'"
    by (rule cut_range)
  with False i1 show ?thesis by (simp add: tt_vec_remove_def diff_diff_eq)
qed

lemma count_minus_1: "unat (g_count v) \<noteq> 0 \<Longrightarrow> unat (g_count v - 1) = unat (g_count v) - 1"
  by (subst unat_sub_u32) simp_all

lemma pop_head_ok:
  assumes inv: "vec_inv v m"
  shows "case arr_items v m of
      [] \<Rightarrow> tt_vec_pop_head want v m = Inr (TT_FAIL, None, v, m)
    | x # xs \<Rightarrow> (\<exists>v' m'. tt_vec_pop_head want v m = Inr (TT_SUCCESS, if want then Some x else None, v', m')
        \<and> vec_becomes v m xs v' m')"
proof (cases "arr_items v m")
  case Nil
  then have "g_count v = 0" using arr_invD(9) [OF inv] by (simp add: unat_eq_0)
  with Nil show ?thesis by (simp add: tt_vec_pop_head_def)
next
  case (Cons x xs)
  note D = arr_invD [OF inv]
  have pos: "0 < unat (g_count v)" using D(9) Cons by simp
  then have nz: "g_count v \<noteq> 0" by auto
  have x: "v_load v m 0 = Inr x"
    using v_load_ok [OF inv, of 0] pos D(5) Cons by (simp add: V_OBJ_0 arr_items_def take_eq_Nil2 hd_conv_nth [symmetric])
      (metis D(9) arr_items_def list.sel(1) nth_Cons_0 nth_take pos)
  have "unat (0 :: u32) \<le> unat (1 :: u32)" "unat (1 :: u32) \<le> unat (g_count v)" using pos by simp_all
  with inv obtain m' where m': "v_move v m (V_OBJ v 0) (V_OBJ v 1) (V_SIZE v (g_count v - 1)) = Inr m'"
    "vec_becomes v m (take (unat (0 :: u32)) (arr_items v m) @ drop (unat (1 :: u32)) (arr_items v m)) (v\<lparr>g_count := g_count v - (1 - 0)\<rparr>) m'"
    by (rule cut_range)
  with x nz Cons show ?thesis by (simp add: tt_vec_pop_head_def V_OBJ_0)
qed

lemma pop_tail_ok:
  assumes inv: "vec_inv v m"
  shows "(arr_items v m = [] \<longrightarrow> tt_vec_pop_tail want v m = Inr (TT_FAIL, None, v, m))
    \<and> (\<forall>xs x. arr_items v m = xs @ [x] \<longrightarrow> (\<exists>v'. tt_vec_pop_tail want v m = Inr (TT_SUCCESS, if want then Some x else None, v', m)
        \<and> vec_becomes v m xs v' m))"
proof (intro conjI allI impI)
  note D = arr_invD [OF inv]
  show "tt_vec_pop_tail want v m = Inr (TT_FAIL, None, v, m)" if "arr_items v m = []"
    using that D(9) by (simp add: tt_vec_pop_tail_def unat_eq_0)
  fix xs x
  assume it: "arr_items v m = xs @ [x]"
  have pos: "unat (g_count v) = Suc (length xs)" using D(9) it by simp
  then have n: "unat (g_count v - 1) = length xs" and nz: "g_count v \<noteq> 0" using count_minus_1 [of v] by auto
  have lt: "unat (g_count v - 1) < unat (g_capacity v)" using n pos D(5) by simp
  have "arr_items v m ! length xs = arr_cells v m ! length xs" using pos by (simp add: arr_items_def)
  then have x: "v_load v m (V_OBJ v (g_count v - 1)) = Inr x" using v_load_ok [OF inv lt] n it by simp
  have "take (length xs) (arr_items v m) = take (length xs) (arr_cells v m)" using pos by (simp add: arr_items_def min_def)
  then have "take (length xs) (arr_cells v m) = xs" using it by simp
  moreover have "vec_inv (v\<lparr>g_count := g_count v - 1\<rparr>) m" using arr_inv_count [OF inv, of "g_count v - 1"] lt by simp
  ultimately show "\<exists>v'. tt_vec_pop_tail want v m = Inr (TT_SUCCESS, if want then Some x else None, v', m) \<and> vec_becomes v m xs v' m"
    using x nz n by (auto simp: tt_vec_pop_tail_def vec_becomes_def owns_refl)
qed

lemma set_ok:
  assumes inv: "vec_inv v m"
  shows "g_count v \<le> i \<Longrightarrow> tt_vec_set i x v m = Inr (TT_FAIL, m)"
    "i < g_count v \<Longrightarrow> \<exists>m'. tt_vec_set i x v m = Inr (TT_SUCCESS, m') \<and> vec_becomes v m ((arr_items v m)[unat i := x]) v m'"
proof -
  show "g_count v \<le> i \<Longrightarrow> tt_vec_set i x v m = Inr (TT_FAIL, m)" by (simp add: tt_vec_set_def)
  assume i: "i < g_count v"
  note D = arr_invD [OF inv]
  have lt: "unat i < unat (g_capacity v)" using i D(5) by (simp add: word_less_nat_alt)
  with inv obtain m' where m': "v_store v m (V_OBJ v i) x = Inr m'" "vec_inv v m'"
    "arr_cells v m' = overwrite (unat i) [x] (arr_cells v m)" "owns_step (arr_own v) m (arr_own v) m'" by (rule v_store_ok)
  have "arr_cells v m' = (arr_cells v m)[unat i := x]" using m'(3) lt D(4) by (simp add: overwrite_single)
  then have "arr_items v m' = (arr_items v m)[unat i := x]" by (simp add: arr_items_def take_update_swap)
  with m' i leD [of "g_count v" i] show "\<exists>m'. tt_vec_set i x v m = Inr (TT_SUCCESS, m') \<and> vec_becomes v m ((arr_items v m)[unat i := x]) v m'"
    by (auto simp: tt_vec_set_def vec_becomes_def)
qed

section \<open>Searching\<close>

text \<open>What a search over the indices from \<open>lo\<close> to below \<open>hi\<close> answers, upwards and downwards.\<close>

definition finds_first :: "('a \<Rightarrow> bool) \<Rightarrow> 'a list \<Rightarrow> nat \<Rightarrow> nat \<Rightarrow> u32 \<Rightarrow> bool" where
  "finds_first P xs lo hi r \<longleftrightarrow>
     r = TT_POS_NULL \<and> (\<forall>k. lo \<le> k \<and> k < hi \<longrightarrow> \<not> P (xs ! k))
   \<or> lo \<le> unat r \<and> unat r < hi \<and> P (xs ! unat r) \<and> (\<forall>k. lo \<le> k \<and> k < unat r \<longrightarrow> \<not> P (xs ! k))"

definition finds_last :: "('a \<Rightarrow> bool) \<Rightarrow> 'a list \<Rightarrow> nat \<Rightarrow> u32 \<Rightarrow> bool" where
  "finds_last P xs hi r \<longleftrightarrow>
     r = TT_POS_NULL \<and> (\<forall>k < hi. \<not> P (xs ! k))
   \<or> unat r < hi \<and> P (xs ! unat r) \<and> (\<forall>k. unat r < k \<and> k < hi \<longrightarrow> \<not> P (xs ! k))"

lemma load_item:
  assumes inv: "vec_inv v m" and i: "unat i < unat (g_count v)"
  shows "v_load v m (V_OBJ v i) = Inr (arr_items v m ! unat i)"
  using v_load_ok [OF inv, of i] i arr_invD(5) [OF inv] by (simp add: arr_items_def)

lemma find_up_ok:
  assumes inv: "vec_inv v m" and j: "unat j \<le> unat (g_count v)"
  shows "\<exists>r. vec_find_up v x i j m = Inr r \<and> finds_first (\<lambda>y. v_equal v y x) (arr_items v m) (unat i) (unat j) r"
  using inv j
proof (induction v x i j m rule: vec_find_up.induct)
  case (1 v x i j m)
  show ?case
  proof (cases "i < j")
    case False
    then show ?thesis
      by (subst vec_find_up.simps) (auto simp: finds_first_def word_less_nat_alt)
  next
    case True
    then have lt: "unat i < unat j" by (simp add: word_less_nat_alt)
    then have i1: "unat (i + 1) = Suc (unat i)" by (rule unat_suc_u32)
    have ld: "v_load v m (V_OBJ v i) = Inr (arr_items v m ! unat i)" using 1(2,3) lt by (intro load_item) simp_all
    show ?thesis
    proof (cases "v_equal v (arr_items v m ! unat i) x")
      case eq: True
      then show ?thesis
        using True ld lt by (subst vec_find_up.simps) (auto simp: finds_first_def)
    next
      case ne: False
      from 1(1) [OF True ne 1(2,3)] obtain r where r: "vec_find_up v x (i + 1) j m = Inr r"
        "finds_first (\<lambda>y. v_equal v y x) (arr_items v m) (unat (i + 1)) (unat j) r" by blast
      have k: "unat i \<le> k \<longleftrightarrow> k = unat i \<or> Suc (unat i) \<le> k" for k by auto
      have "finds_first (\<lambda>y. v_equal v y x) (arr_items v m) (unat i) (unat j) r"
        using r(2) ne i1 unfolding finds_first_def k by auto
      then show ?thesis
        using True ld ne r(1) by (subst vec_find_up.simps) simp
    qed
  qed
qed

lemma find_down_ok:
  assumes inv: "vec_inv v m" and i: "i = - 1 \<or> unat i < unat (g_count v)"
  shows "\<exists>r. vec_find_down v x i m = Inr r
    \<and> finds_last (\<lambda>y. v_equal v y x) (arr_items v m) (if i = - 1 then 0 else Suc (unat i)) r"
  using inv i
proof (induction v x i m rule: vec_find_down.induct)
  case (1 v x i m)
  show ?case
  proof (cases "i = - 1")
    case True
    then show ?thesis
      by (subst vec_find_down.simps) (auto simp: finds_last_def)
  next
    case False
    then have lt: "unat i < unat (g_count v)" and ne1: "i \<noteq> NOT 0" using 1(3) by simp_all
    have ld: "v_load v m (V_OBJ v i) = Inr (arr_items v m ! unat i)" using 1(2) lt by (rule load_item)
    show ?thesis
    proof (cases "v_equal v (arr_items v m ! unat i) x")
      case eq: True
      then show ?thesis
        using False ld by (subst vec_find_down.simps) (auto simp: finds_last_def less_Suc_eq)
    next
      case ne: False
      have i1: "i - 1 = - 1 \<or> unat (i - 1) < unat (g_count v)" and
        hi: "(if i - 1 = - 1 then 0 else Suc (unat (i - 1))) = unat i"
        using lt by (cases "i = 0"; simp add: unat_minus_one unat_gt_0)+
      from 1(1) [OF ne1 ne 1(2) i1] obtain r where r: "vec_find_down v x (i - 1) m = Inr r"
        "finds_last (\<lambda>y. v_equal v y x) (arr_items v m) (unat i) r" unfolding hi by blast
      have "finds_last (\<lambda>y. v_equal v y x) (arr_items v m) (Suc (unat i)) r"
        using r(2) ne by (auto simp: finds_last_def less_Suc_eq)
      then show ?thesis
        using False ld ne r(1) by (subst vec_find_down.simps) simp
    qed
  qed
qed

section \<open>Trimming and destruction\<close>

lemma trim_ok:
  assumes inv: "vec_inv v m"
  shows "\<exists>v' m'. tt_vec_trim v m = Inr (v', m') \<and> vec_becomes v m (arr_items v m) v' m'"
proof (cases "g_count v < g_capacity v")
  case False
  then show ?thesis using vec_becomes_refl [OF inv] by (simp add: tt_vec_trim_def)
next
  case True
  note D = arr_invD [OF inv]
  let ?w = "unat (v_obj_size v)" and ?to = "v_obj_size v * g_count v"
  have lt: "unat (g_count v) < unat (g_capacity v)" using True by (simp add: word_less_nat_alt)
  then have "arr_cells v m \<noteq> []" using D(4) by auto
  then obtain i where p: "g_p v = Some i" by (cases "g_p v") (auto simp: arr_cells_def)
  have to: "unat ?to = ?w * unat (g_count v)" using arr_offset [OF inv, of "g_count v"] D(5) by simp
  have less: "?to < g_size v" using to lt D(3,6) by (simp add: word_less_nat_alt flip: D(6))
  have pt: "points_to ?w m (Some i) (g_size v) (arr_cells v m)" and h: "i \<in> mem_heap m" using D(7,8) p by simp_all
  have dv: "?w dvd unat ?to" using to by simp
  have cap: "g_size v div v_obj_size v = g_capacity v"
    using D(3,6) by (simp add: word_unat_eq_iff unat_div_distrib flip: D(6))
  show ?thesis
    using D(1) pt h less D(3) dv
  proof (cases rule: memspg_compress_cases [where g = "g_mspg v"])
    case (fail m')
    then have t: "tt_vec_trim v m = Inr (v\<lparr>g_p := g_p v, g_size := g_size v, g_capacity := g_size v div v_obj_size v\<rparr>, m')"
      using True p by (simp add: tt_vec_trim_def Let_def)
    have "v\<lparr>g_p := g_p v, g_size := g_size v, g_capacity := g_size v div v_obj_size v\<rparr> = v" using cap by simp
    moreover have "arr_cells v m' = arr_cells v m" using fail(4) by (simp add: arr_cells_def same_store_def split: option.split)
    ultimately show ?thesis
      using t inv fail(3,4) same_store_points_to [OF fail(4)] owns_same [OF fail(4)]
      by (auto simp: vec_becomes_def arr_inv_def arr_items_def same_store_def)
  next
    case (empty m')
    then have z: "g_count v = 0" using to D(3) by (auto simp: unat_eq_0)
    let ?v = "v\<lparr>g_p := None, g_size := 0, g_capacity := 0 div v_obj_size v\<rparr>"
    have t: "tt_vec_trim v m = Inr (?v, m')" using True p empty by (simp add: tt_vec_trim_def Let_def)
    have r: "mem_blocks m' = mem_blocks m |` (- {i})" "mem_heap m' = mem_heap m - {i}"
      using empty(4) unfolding released_def by blast+
    have "owns_step (arr_own v) m (arr_own ?v) m'"
      using released_frame [OF empty(4)] r(2) p by (simp add: owns_step_def)
    then show ?thesis
      using t empty(3) z D(2) by (auto simp: vec_becomes_def arr_inv_def points_to_def arr_items_def arr_cells_def)
  next
    case (ok n m')
    let ?v = "v\<lparr>g_p := Some n, g_size := ?to, g_capacity := ?to div v_obj_size v\<rparr>"
    have t: "tt_vec_trim v m = Inr (?v, m')" using True p ok(1) by (simp add: tt_vec_trim_def Let_def)
    note M = movedD [OF ok(4)]
    have c: "?to div v_obj_size v = g_count v"
      using to D(3) by (simp add: word_unat_eq_iff unat_div_distrib)
    have b: "mem_blocks m' n = Some (arr_items v m)" "n \<in> mem_heap m'"
      using moved_new [OF ok(4)] to D(3) by (simp_all add: arr_items_def)
    have "owns_step (arr_own v) m (arr_own ?v) m'"
    proof -
      have "mem_frame (arr_own v) m m'" using moved_frame [OF ok(4)] p by simp
      moreover have "{n} \<inter> dom (mem_blocks m) = {}" using M(1) by auto
      moreover have "mem_heap m' - {n} = mem_heap m - arr_own v" using M(2,4) p by auto
      ultimately show ?thesis by (simp add: owns_step_def)
    qed
    then show ?thesis
      using t ok(2,3) D(2,9) b c to by (simp add: vec_becomes_def arr_inv_def points_to_def arr_items_def arr_cells_def)
  qed
qed

lemma vec_destroy_ok:
  assumes inv: "vec_inv v m"
  shows "\<exists>v' m'. tt_vec_destroy v m = Inr (v', m') \<and> mem_heap m' = mem_heap m - arr_own v \<and> mem_frame (arr_own v) m m'"
proof (cases "g_p v")
  case None
  then show ?thesis by (simp add: tt_vec_destroy_def)
next
  case (Some i)
  from inv Some obtain m' where "tt_memspg_compress (unat (v_obj_size v)) (g_mspg v) (g_p v) (g_size v) 0 m = Inr (TT_SUCCESS, None, 0, m')"
    "mem_heap m' = mem_heap m - arr_own v" "mem_frame (arr_own v) m m'" by (rule arr_release)
  with Some show ?thesis by (simp add: tt_vec_destroy_def)
qed

section \<open>The vector is a double-ended queue\<close>

fun vec_step :: "'a dq_op \<Rightarrow> 'a tt_vec \<times> 'a mem \<Rightarrow> ('a answer \<times> ('a tt_vec \<times> 'a mem)) run" where
  "vec_step (PushHead x) (v, m) =
    bindr (tt_vec_push_head x v m) (\<lambda>(r, s). Inr (if TT_OK r then Done else NoMem, s))"
| "vec_step (PushTail x) (v, m) =
    bindr (tt_vec_push_tail x v m) (\<lambda>(r, s). Inr (if TT_OK r then Done else NoMem, s))"
| "vec_step PopHead (v, m) =
    bindr (tt_vec_pop_head True v m) (\<lambda>(r, x, s). Inr (case x of Some y \<Rightarrow> Got y | None \<Rightarrow> Empty, s))"
| "vec_step PopTail (v, m) =
    bindr (tt_vec_pop_tail True v m) (\<lambda>(r, x, s). Inr (case x of Some y \<Rightarrow> Got y | None \<Rightarrow> Empty, s))"

definition vec_ok :: "u32 \<Rightarrow> 'a mem \<Rightarrow> 'a tt_vec \<times> 'a mem \<Rightarrow> bool" where
  "vec_ok osz m0 s \<longleftrightarrow> (case s of (v, m) \<Rightarrow> vec_inv v m \<and> v_obj_size v = osz \<and> owns_step {} m0 (arr_own v) m)"

definition vec_list :: "'a tt_vec \<times> 'a mem \<Rightarrow> 'a list" where
  "vec_list s = (case s of (v, m) \<Rightarrow> arr_items v m)"

lemma same_store_inv:
  assumes "arr_inv osz a m" "mem_inv m'" "same_store m m'"
  shows "arr_inv osz a m'" "arr_items a m' = arr_items a m" "owns_step (arr_own a) m (arr_own a) m'"
proof -
  have c: "arr_cells a m' = arr_cells a m" using assms(3) by (simp add: arr_cells_def same_store_def split: option.split)
  then show "arr_inv osz a m'" "arr_items a m' = arr_items a m"
    using assms same_store_points_to [OF assms(3)] by (auto simp: arr_inv_def arr_items_def same_store_def)
  show "owns_step (arr_own a) m (arr_own a) m'" using assms(3) by (rule owns_same)
qed

lemma adds_step:
  assumes inv: "vec_inv v m" and own: "owns_step {} m0 (arr_own v) m" and a: "vec_adds v m ys out"
    and lt: "Suc (length (arr_items v m)) * unat (v_obj_size v) < 2 ^ 32"
  shows "\<exists>a s'. bindr out (\<lambda>(r, s). Inr (if TT_OK r then Done else NoMem, s)) = Inr (a, s') \<and> vec_ok (v_obj_size v) m0 s'
    \<and> (a = Done \<and> vec_list s' = ys \<or> a = NoMem \<and> vec_list s' = arr_items v m)"
  using a unfolding vec_adds_def
proof (elim disjE exE conjE)
  fix v' m'
  assume "out = Inr (TT_SUCCESS, v', m')" "vec_inv v' m'" "arr_items v' m' = ys" "v_obj_size v' = v_obj_size v"
    "owns_step (arr_own v) m (arr_own v') m'"
  then show ?thesis using owns_trans [OF own] by (simp add: vec_ok_def vec_list_def)
next
  fix m'
  assume "out = Inr (TT_FAIL, v, m')" "mem_inv m'" "same_store m m'"
  then show ?thesis using same_store_inv [OF inv] owns_trans [OF own] by (simp add: vec_ok_def vec_list_def)
qed (use lt in simp)

lemma becomes_ok:
  "vec_ok osz m0 (v, m) \<Longrightarrow> vec_becomes v m ys v' m' \<Longrightarrow> vec_ok osz m0 (v', m') \<and> vec_list (v', m') = ys"
  by (auto simp: vec_ok_def vec_list_def vec_becomes_def intro: owns_trans)

lemma limit_bound:
  fixes w :: nat
  assumes "0 < w" "n < 2 ^ 32 div w"
  shows "n * w < 2 ^ 32" "n < 2 ^ 32"
proof -
  have "n * w < (2 ^ 32 div w) * w" using assms by simp
  also have "\<dots> \<le> 2 ^ 32" by simp
  finally show "n * w < 2 ^ 32" .
  then show "n < 2 ^ 32" using assms(1) by (metis le_less_trans mult.right_neutral mult_le_mono2 Suc_leI One_nat_def)
qed

lemma vec_step_refines:
  assumes ok: "vec_ok osz m0 s" and lt: "Suc (length (vec_list s)) < 2 ^ 32 div unat osz"
  shows "\<exists>a s'. vec_step op s = Inr (a, s') \<and> vec_ok osz m0 s' \<and> dq_spec op (vec_list s) a (vec_list s')"
proof -
  obtain v m where s: "s = (v, m)" by (cases s)
  have inv: "vec_inv v m" and own: "owns_step {} m0 (arr_own v) m" and osz: "v_obj_size v = osz"
    using ok s by (auto simp: vec_ok_def)
  note D = arr_invD [OF inv]
  have l: "vec_list s = arr_items v m" by (simp add: s vec_list_def)
  have w: "0 < unat osz" using D(3) osz by simp
  have b: "Suc (length (arr_items v m)) * unat (v_obj_size v) < 2 ^ 32" "Suc (unat (g_count v)) < 2 ^ 32"
    using limit_bound [OF w lt] l osz D(9) by simp_all
  show ?thesis
  proof (cases op)
    case (PushHead x)
    from adds_step [OF inv own push_head_adds [OF inv b(2), of x] b(1)] PushHead l s osz show ?thesis
      by (auto simp: dq_spec_simps)
  next
    case (PushTail x)
    from adds_step [OF inv own push_tail_adds [OF inv b(2), of x] b(1)] PushTail l s osz show ?thesis
      by (auto simp: dq_spec_simps)
  next
    case PopHead
    show ?thesis
    proof (cases "arr_items v m")
      case Nil
      with pop_head_ok [OF inv, of True] PopHead s ok l show ?thesis by (simp add: dq_spec_simps)
    next
      case (Cons x xs)
      with pop_head_ok [OF inv, of True] obtain v' m' where
        p: "tt_vec_pop_head True v m = Inr (TT_SUCCESS, Some x, v', m')" "vec_becomes v m xs v' m'" by auto
      with becomes_ok [OF ok [unfolded s] p(2)] PopHead s l Cons show ?thesis by (simp add: dq_spec_simps)
    qed
  next
    case PopTail
    show ?thesis
    proof (cases "arr_items v m" rule: rev_cases)
      case Nil
      with pop_tail_ok [OF inv, of True] PopTail s ok l show ?thesis by (simp add: dq_spec_simps)
    next
      case (snoc xs x)
      with pop_tail_ok [OF inv, of True] obtain v' where
        p: "tt_vec_pop_tail True v m = Inr (TT_SUCCESS, Some x, v', m)" "vec_becomes v m xs v' m" by auto
      with becomes_ok [OF ok [unfolded s] p(2)] PopTail s l snoc show ?thesis by (simp add: dq_spec_simps)
    qed
  qed
qed

interpretation tv: deque "vec_ok osz m0" vec_list vec_step "2 ^ 32 div unat osz"
  for osz :: u32 and m0 :: "'a mem"
  by unfold_locales (rule vec_step_refines)

end
