(* ===== verification/TT_Vector_Move.thy ===== *)
theory TT_Vector_Move
  imports TT_Vector_Inv
begin

text \<open>
  Moving objects from one vector to another in the same store, and where the code copies a range
  onto itself with \<^verbatim>\<open>memcpy\<close>.
\<close>

text \<open>A step of another container leaves an array alone.\<close>

lemma arr_framed:
  assumes inv: "arr_inv osz a m" and step: "owns_step S m S' m'" and disj: "arr_own a \<inter> S = {}" and m': "mem_inv m'"
  shows "arr_inv osz a m'" "arr_cells a m' = arr_cells a m" "arr_items a m' = arr_items a m" "arr_own a \<inter> S' = {}"
proof -
  have fr: "mem_frame S m m'" and fresh: "S' \<inter> dom (mem_blocks m) \<subseteq> S"
    using step by (auto simp: owns_step_def)
  have b: "mem_blocks m' i = Some (arr_cells a m)" "i \<in> mem_heap m'" if "g_p a = Some i" for i
    using mem_frameD [OF fr arr_block [OF inv that]] disj that arr_invD(8) [OF inv] by auto
  then show c: "arr_cells a m' = arr_cells a m"
    by (cases "g_p a") (simp_all add: arr_cells_def)
  then show "arr_items a m' = arr_items a m" by (simp add: arr_items_def)
  show "arr_inv osz a m'"
    using inv m' c b by (cases "g_p a") (auto simp: arr_inv_def points_to_def)
  show "arr_own a \<inter> S' = {}"
    using arr_block [OF inv] fresh disj by (cases "g_p a") auto
qed

lemma copy_between:
  assumes d: "vec_inv dst m" and s: "vec_inv src m" and disj: "arr_own dst \<inter> arr_own src = {}"
    and sz: "v_obj_size dst = v_obj_size src"
    and room: "unat (g_count dst) + unat n \<le> unat (g_capacity dst)" and j: "unat j + unat n \<le> unat (g_count src)"
  obtains m' where "tt_memcpy (unat (v_obj_size src)) m (g_p dst) (V_OBJ dst (g_count dst)) (g_p src) (V_OBJ src j) (V_SIZE src n) = Inr m'"
    "vec_inv (dst\<lparr>g_count := g_count dst + n\<rparr>) m'" "arr_items (dst\<lparr>g_count := g_count dst + n\<rparr>) m'
      = arr_items dst m @ take (unat n) (drop (unat j) (arr_items src m))" "vec_inv src m'" "arr_items src m' = arr_items src m"
    "owns_step (arr_own dst) m (arr_own dst) m'"
proof -
  note D = arr_invD [OF d] and S = arr_invD [OF s]
  let ?w = "unat (v_obj_size src)"
  let ?vs = "take (unat n) (drop (unat j) (arr_cells src m))"
  have off: "V_OBJ dst (g_count dst) = ?w * unat (g_count dst)" "V_OBJ src j = ?w * unat j" "V_SIZE src n = ?w * unat n"
    using V_ok [OF d] V_ok [OF s] D(5) S(5) j sz by simp_all
  have lv: "length ?vs = unat n" using j S(4,5) by simp
  then have "unat (g_count dst) + length ?vs \<le> length (arr_cells dst m)" using room D(4) by simp
  with d obtain m' where m': "mem_store (unat (v_obj_size dst)) m (g_p dst) (unat (v_obj_size dst) * unat (g_count dst)) ?vs = Inr m'"
    "vec_inv dst m'" "arr_cells dst m' = overwrite (unat (g_count dst)) ?vs (arr_cells dst m)"
    "owns_step (arr_own dst) m (arr_own dst) m'" by (rule arr_store)
  have "unat j + unat n \<le> length (arr_cells src m)" using j S(4,5) by simp
  note ld = arr_load [OF s this]
  have "unat n \<noteq> 0 \<Longrightarrow> g_p dst \<noteq> g_p src"
    using disj room D(4) by (cases "g_p dst") (auto simp: arr_cells_def)
  then have cp: "tt_memcpy ?w m (g_p dst) (V_OBJ dst (g_count dst)) (g_p src) (V_OBJ src j) (V_SIZE src n) = Inr m'"
    using off ld m'(1) sz S(3) by (auto simp: tt_memcpy_def tt_memmove_def)
  have n: "unat (g_count dst + n) = unat (g_count dst) + unat n"
    using room unat_lt_32 [of "g_capacity dst"] by (intro unat_add_u32) linarith
  have "arr_items (dst\<lparr>g_count := g_count dst + n\<rparr>) m' = take (unat (g_count dst) + length ?vs) (arr_cells dst m')"
    using n lv by simp
  also have "\<dots> = arr_items dst m @ ?vs"
    unfolding m'(3) arr_items_def using D(4,5) by (intro take_overwrite_end) simp
  also have "?vs = take (unat n) (drop (unat j) (arr_items src m))"
    using j by (simp add: arr_items_def drop_take min_def)
  finally have it: "arr_items (dst\<lparr>g_count := g_count dst + n\<rparr>) m' = arr_items dst m @ take (unat n) (drop (unat j) (arr_items src m))" .
  have "vec_inv (dst\<lparr>g_count := g_count dst + n\<rparr>) m'"
    using arr_inv_count [OF m'(2), of "g_count dst + n"] n room by simp
  moreover have "arr_own src \<inter> arr_own dst = {}" using disj by blast
  ultimately show thesis
    using that [OF cp _ it _ _ m'(4)] arr_framed [OF s m'(4) _ arr_invD(1) [OF m'(2)]] by blast
qed

text \<open>Two distinct vectors of the same object size in one store.\<close>

definition two_vecs :: "'a tt_vec \<Rightarrow> 'a tt_vec \<Rightarrow> 'a mem \<Rightarrow> bool" where
  "two_vecs dst src m \<longleftrightarrow> vec_inv dst m \<and> vec_inv src m \<and> arr_own dst \<inter> arr_own src = {} \<and> v_obj_size dst = v_obj_size src"

text \<open>Room for \<open>n\<close> objects in the first of two vectors.\<close>

lemma reserve_two:
  assumes two: "two_vecs dst src m" and big: "(unat (g_capacity dst) + unat n) * unat (v_obj_size dst) < 2 ^ 32"
  obtains (fail) m' where "tt_vec_reserve dst n m = Inr (TT_FAIL, dst, m')" "two_vecs dst src m'"
      "arr_items dst m' = arr_items dst m" "arr_items src m' = arr_items src m"
      "owns_step (arr_own dst \<union> arr_own src) m (arr_own dst \<union> arr_own src) m'"
  | (ok) dst' m' where "tt_vec_reserve dst n m = Inr (TT_SUCCESS, dst', m')" "two_vecs dst' src m'"
      "arr_items dst' m' = arr_items dst m" "arr_items src m' = arr_items src m"
      "unat (g_count dst') + unat n \<le> unat (g_capacity dst')" "g_count dst' = g_count dst"
      "owns_step (arr_own dst \<union> arr_own src) m (arr_own dst' \<union> arr_own src) m'"
proof -
  have d: "vec_inv dst m" and s: "vec_inv src m" and disj: "arr_own src \<inter> arr_own dst = {}" and sz: "v_obj_size dst = v_obj_size src"
    using two by (auto simp: two_vecs_def)
  note D = arr_invD [OF d]
  have "unat (g_capacity dst) + unat n \<le> (unat (g_capacity dst) + unat n) * unat (v_obj_size dst)" using D(3) by simp
  then have lt: "unat (g_count dst) + unat n < 2 ^ 32" using big D(5) by linarith
  have union: "owns_step (A \<union> arr_own src) m (B \<union> arr_own src) m'"
    if "owns_step A m B m'" "arr_own src \<inter> A = {}" "arr_own src \<inter> B = {}" "arr_own src \<subseteq> mem_heap m'" for A B m'
    using that arr_invD(8) [OF s] by (auto simp: owns_step_def mem_frame_def)
  show thesis
    using d lt big
  proof (cases rule: arr_reserve_cases)
    case (fail m')
    note F = arr_framed [OF s owns_same [OF fail(3)] disj fail(2)] and G = same_store_inv [OF d fail(2,3)]
    show thesis
      using that(1) [of m'] fail F G sz disj union [OF G(3) disj disj arr_invD(8) [OF F(1)]]
      by (auto simp: two_vecs_def reserve_eq)
  next
    case (ok dst' m')
    note F = arr_framed [OF s ok(7) disj arr_invD(1) [OF ok(2)]] and V = vec_more [OF ok(6)]
    have "two_vecs dst' src m'" using ok(2) F(1,4) V sz by (auto simp: two_vecs_def)
    with that(2) [of dst' m'] ok F union [OF ok(7) disj F(4) arr_invD(8) [OF F(1)]] show thesis
      by (simp add: reserve_eq)
  qed
qed

lemma move_all_ok:
  assumes two: "two_vecs dst src m" and big: "(unat (g_capacity dst) + unat (g_count src)) * unat (v_obj_size dst) < 2 ^ 32"
  shows "\<exists>r dst' src' m'. tt_vec_move_all dst src m = Inr (r, (dst', src'), m') \<and> two_vecs dst' src' m'
    \<and> (r = TT_SUCCESS \<and> arr_items dst' m' = arr_items dst m @ arr_items src m \<and> arr_items src' m' = []
       \<or> r = TT_FAIL \<and> arr_items dst' m' = arr_items dst m \<and> arr_items src' m' = arr_items src m)"
  using two big
proof (cases rule: reserve_two)
  case (fail m')
  have "v_obj_size dst = v_obj_size src" using two by (simp add: two_vecs_def)
  with fail show ?thesis by (simp add: tt_vec_move_all_def)
next
  case (ok dst' m')
  have t: "vec_inv dst' m'" "vec_inv src m'" "arr_own dst' \<inter> arr_own src = {}" "v_obj_size dst' = v_obj_size src"
    using ok(2) by (auto simp: two_vecs_def)
  have j: "unat (0 :: u32) + unat (g_count src) \<le> unat (g_count src)" by simp
  from t ok(5) j obtain m'' where m'': "tt_memcpy (unat (v_obj_size src)) m' (g_p dst') (V_OBJ dst' (g_count dst')) (g_p src) (V_OBJ src 0) (V_SIZE src (g_count src)) = Inr m''"
    "vec_inv (dst'\<lparr>g_count := g_count dst' + g_count src\<rparr>) m''" "arr_items (dst'\<lparr>g_count := g_count dst' + g_count src\<rparr>) m''
      = arr_items dst' m' @ take (unat (g_count src)) (drop (unat (0 :: u32)) (arr_items src m'))" "vec_inv src m''" by (rule copy_between)
  have e: "tt_vec_move_all dst src m = Inr (TT_SUCCESS, (dst'\<lparr>g_count := g_count dst' + g_count src\<rparr>, tt_vec_clear src), m'')"
    using ok(1) m''(1) two by (simp add: tt_vec_move_all_def two_vecs_def V_OBJ_0)
  have "two_vecs (dst'\<lparr>g_count := g_count dst' + g_count src\<rparr>) (tt_vec_clear src) m''"
    using m''(2) arr_inv_count [OF m''(4), of 0] t(3,4) by (simp add: two_vecs_def tt_vec_clear_def)
  moreover have "arr_items (dst'\<lparr>g_count := g_count dst' + g_count src\<rparr>) m'' = arr_items dst m @ arr_items src m"
    unfolding m''(3) ok(3,4) using two arr_invD(9) [of "v_obj_size src" src m] by (simp add: two_vecs_def)
  ultimately show ?thesis using e by (simp add: tt_vec_clear_def del: arr_count(2)) (simp add: arr_items_def)
qed

lemma move_range_ok:
  assumes two: "two_vecs dst src m" and ij: "i \<le> j" "i < g_count src" "j \<le> g_count src"
    and big: "(unat (g_capacity dst) + unat (j - i)) * unat (v_obj_size dst) < 2 ^ 32"
  shows "if unat (g_count src) - unat j \<le> unat j - unat i \<or> j = g_count src
    then \<exists>r dst' src' m'. tt_vec_move_range dst src i j m = Inr (r, (dst', src'), m') \<and> two_vecs dst' src' m'
      \<and> (r = TT_SUCCESS \<and> arr_items dst' m' = arr_items dst m @ take (unat j - unat i) (drop (unat i) (arr_items src m))
           \<and> arr_items src' m' = take (unat i) (arr_items src m) @ drop (unat j) (arr_items src m)
         \<or> r = TT_FAIL \<and> arr_items dst' m' = arr_items dst m \<and> arr_items src' m' = arr_items src m)
    else tt_vec_move_range dst src i j m = Inl Undef \<or> (\<exists>m'. tt_vec_move_range dst src i j m = Inr (TT_FAIL, (dst, src), m'))"
proof -
  have nle: "\<not> g_count src \<le> i" using ij(2) by simp
  show ?thesis
  using two big
proof (cases rule: reserve_two)
  case (fail m')
  have "tt_vec_move_range dst src i j m = Inr (TT_FAIL, (dst, src), m')"
    using fail(1) two ij nle by (auto simp: tt_vec_move_range_def two_vecs_def Let_def dest: antisym)
  with fail show ?thesis by simp
next
  case (ok dst' m1)
  have t: "vec_inv dst' m1" "vec_inv src m1" "arr_own dst' \<inter> arr_own src = {}" "v_obj_size dst' = v_obj_size src"
    using ok(2) by (auto simp: two_vecs_def)
  let ?d = "dst'\<lparr>g_count := g_count dst' + (j - i)\<rparr>" and ?w = "unat (v_obj_size src)"
  have u: "unat i \<le> unat j" "unat j \<le> unat (g_count src)" using ij by (simp_all add: word_le_nat_alt)
  then have ji: "unat (j - i) = unat j - unat i" and cj: "unat (g_count src - j) = unat (g_count src) - unat j" by (simp_all add: unat_sub_u32)
  have "unat i + unat (j - i) \<le> unat (g_count src)" using u ji by simp
  with t ok(5) obtain m2 where m2: "tt_memcpy ?w m1 (g_p dst') (V_OBJ dst' (g_count dst')) (g_p src) (V_OBJ src i) (V_SIZE src (j - i)) = Inr m2"
    "vec_inv ?d m2" "arr_items ?d m2 = arr_items dst' m1 @ take (unat (j - i)) (drop (unat i) (arr_items src m1))"
    "vec_inv src m2" "arr_items src m2 = arr_items src m1" by (rule copy_between)
  have e: "tt_vec_move_range dst src i j m = bindr (tt_memcpy ?w m2 (g_p src) (V_OBJ src i) (g_p src) (V_OBJ src j) (V_SIZE src (g_count src - j)))
      (\<lambda>m. Inr (TT_SUCCESS, (?d, src\<lparr>g_count := g_count src - (j - i)\<rparr>), m))"
    using ok(1) m2(1) two ij nle by (auto simp: tt_vec_move_range_def two_vecs_def Let_def dest: antisym)
  from m2(4) u obtain m3 where m3: "v_move src m2 (V_OBJ src i) (V_OBJ src j) (V_SIZE src (g_count src - j)) = Inr m3"
    "vec_becomes src m2 (take (unat i) (arr_items src m2) @ drop (unat j) (arr_items src m2)) (src\<lparr>g_count := g_count src - (j - i)\<rparr>) m3"
    by (rule cut_range)
  have off: "V_OBJ src i = ?w * unat i" "V_OBJ src j = ?w * unat j" "V_SIZE src (g_count src - j) = ?w * (unat (g_count src) - unat j)"
    using V_ok [OF m2(4)] u arr_invD(5) [OF m2(4)] cj by simp_all
  have w: "0 < ?w" using arr_invD(3) [OF m2(4)] by simp
  have ov: "(?w * (unat (g_count src) - unat j) \<noteq> 0 \<and> ?w * unat j < ?w * unat i + ?w * (unat (g_count src) - unat j)
      \<and> ?w * unat i < ?w * unat j + ?w * (unat (g_count src) - unat j))
    \<longleftrightarrow> \<not> (unat (g_count src) - unat j \<le> unat j - unat i \<or> j = g_count src)"
    unfolding distrib_left [symmetric] nat_mult_less_cancel_disj using w u by (auto simp: word_unat_eq_iff)
  show ?thesis
  proof (cases "unat (g_count src) - unat j \<le> unat j - unat i \<or> j = g_count src")
    case False
    then show ?thesis using e ov by (simp add: tt_memcpy_def off)
  next
    case True
    then have cp: "tt_memcpy ?w m2 (g_p src) (V_OBJ src i) (g_p src) (V_OBJ src j) (V_SIZE src (g_count src - j)) = Inr m3"
      using m3(1) ov by (simp add: tt_memcpy_def v_move_def off)
    have "arr_own ?d \<inter> arr_own src = {}" using t(3) by simp
    note F = arr_framed [OF m2(2) _ this arr_invD(1), of "arr_own src" m3]
    have b: "vec_inv (src\<lparr>g_count := g_count src - (j - i)\<rparr>) m3" "owns_step (arr_own src) m2 (arr_own src) m3"
      "arr_items (src\<lparr>g_count := g_count src - (j - i)\<rparr>) m3 = take (unat i) (arr_items src m2) @ drop (unat j) (arr_items src m2)"
      using m3(2) by (auto simp: vec_becomes_def)
    from F [OF b(2) b(1)] have "two_vecs ?d (src\<lparr>g_count := g_count src - (j - i)\<rparr>) m3"
      "arr_items ?d m3 = arr_items ?d m2" using b(1) t(3,4) by (simp_all add: two_vecs_def)
    with True e cp b(3) m2(3,5) ok(3,4) ji show ?thesis by (simp del: arr_count)
  qed
qed
qed

end
