(* ===== verification/TT_PtrVector.thy ===== *)
theory TT_PtrVector
  imports TT_Vector_Move
begin

text \<open>
  The vector of pointers of \<^verbatim>\<open>algorithm/ptr/tt_ptr_vector.c\<close> (\<^verbatim>\<open>tt_ptrvec_t\<close> is \<^verbatim>\<open>tt_vec_t\<close>). Sizes in bytes
  are shifts by 3 in 32 bits, subscripts are 64-bit offsets; on vectors of 8-byte objects that satisfy the
  invariant each function equals the one of \<^verbatim>\<open>tt_vector.c\<close>.
\<close>

section \<open>Definitions\<close>

type_synonym 'a tt_ptrvec = "'a tt_vec"

definition PV_SIZE :: "u32 \<Rightarrow> u32" where "PV_SIZE num = push_bit 3 num"

definition PV_NUM :: "u32 \<Rightarrow> u32" where "PV_NUM sz = drop_bit 3 sz"

text \<open>The byte offset of \<^verbatim>\<open>pvec->ptr[idx]\<close>, the pointer stored there, and the shift of a run of pointers.\<close>

definition pv_off :: "u32 \<Rightarrow> nat" where "pv_off idx = 8 * unat idx"

definition pv_load :: "'a tt_ptrvec \<Rightarrow> 'a mem \<Rightarrow> u32 \<Rightarrow> 'a run" where
  "pv_load v m idx = bindr (mem_load 8 m (g_p v) (pv_off idx) 8) (\<lambda>cs. Inr (hd cs))"

definition pv_store :: "'a tt_ptrvec \<Rightarrow> 'a mem \<Rightarrow> u32 \<Rightarrow> 'a \<Rightarrow> 'a mem run" where
  "pv_store v m idx p = mem_store 8 m (g_p v) (pv_off idx) [p]"

definition pv_move :: "'a tt_ptrvec \<Rightarrow> 'a mem \<Rightarrow> u32 \<Rightarrow> u32 \<Rightarrow> u32 \<Rightarrow> 'a mem run" where
  "pv_move v m dst src n = tt_memmove 8 m (g_p v) (pv_off dst) (g_p v) (pv_off src) (unat (PV_SIZE n))"

definition tt_ptrvec_init :: "('a :: linorder \<Rightarrow> 'a \<Rightarrow> int) option \<Rightarrow> tt_vec_attr option \<Rightarrow> 'a tt_ptrvec run" where
  "tt_ptrvec_init cmp attr = tt_vec_init 8 (case cmp of Some c \<Rightarrow> Some c | None \<Rightarrow> Some tt_cmp_ptr) attr"

definition tt_ptrvec_destroy :: "'a tt_ptrvec \<Rightarrow> 'a mem \<Rightarrow> ('a tt_ptrvec \<times> 'a mem) run" where
  "tt_ptrvec_destroy pvec m = tt_vec_destroy pvec m"

definition ptrvec_reserve :: "'a tt_ptrvec \<Rightarrow> u32 \<Rightarrow> 'a mem \<Rightarrow> (tt_result \<times> 'a tt_ptrvec \<times> 'a mem) run" where
  "ptrvec_reserve pvec count m =
    TT_DO (bindr (tt_memspg_extend 8 (mem_junk m 0 0) (g_mspg pvec) (g_p pvec) (g_size pvec)
                    (PV_SIZE (g_capacity pvec + count)) m)
             (\<lambda>(r, p, sz, m). Inr (r, pvec\<lparr>g_p := p, g_size := sz\<rparr>, m)))
      (\<lambda>(pvec, m). Inr (TT_SUCCESS, pvec\<lparr>g_capacity := PV_NUM (g_size pvec)\<rparr>, m))"

definition tt_ptrvec_reserve :: "'a tt_ptrvec \<Rightarrow> u32 \<Rightarrow> 'a mem \<Rightarrow> (tt_result \<times> 'a tt_ptrvec \<times> 'a mem) run" where
  "tt_ptrvec_reserve pvec count m =
    (if g_count pvec + count \<le> g_capacity pvec then Inr (TT_SUCCESS, pvec, m) else ptrvec_reserve pvec count m)"

definition tt_ptrvec_push_head :: "'a option \<Rightarrow> 'a tt_ptrvec \<Rightarrow> 'a mem \<Rightarrow> (tt_result \<times> 'a tt_ptrvec \<times> 'a mem) run" where
  "tt_ptrvec_push_head ptr pvec m =
    (case ptr of None \<Rightarrow> Inr (TT_FAIL, pvec, m)
     | Some p \<Rightarrow>
       TT_DO (tt_ptrvec_reserve pvec 1 m) (\<lambda>(pvec, m).
       bindr (pv_move pvec m 1 0 (g_count pvec)) (\<lambda>m.
       bindr (pv_store pvec m 0 p) (\<lambda>m.
       Inr (TT_SUCCESS, pvec\<lparr>g_count := g_count pvec + 1\<rparr>, m)))))"

definition tt_ptrvec_push_tail :: "'a option \<Rightarrow> 'a tt_ptrvec \<Rightarrow> 'a mem \<Rightarrow> (tt_result \<times> 'a tt_ptrvec \<times> 'a mem) run" where
  "tt_ptrvec_push_tail ptr pvec m =
    (case ptr of None \<Rightarrow> Inr (TT_FAIL, pvec, m)
     | Some p \<Rightarrow>
       TT_DO (tt_ptrvec_reserve pvec 1 m) (\<lambda>(pvec, m).
       bindr (pv_store pvec m (g_count pvec) p) (\<lambda>m.
       Inr (TT_SUCCESS, pvec\<lparr>g_count := g_count pvec + 1\<rparr>, m))))"

definition tt_ptrvec_pop_head :: "'a tt_ptrvec \<Rightarrow> 'a mem \<Rightarrow> ('a option \<times> 'a tt_ptrvec \<times> 'a mem) run" where
  "tt_ptrvec_pop_head pvec m =
    (if g_count pvec = 0 then Inr (None, pvec, m) else
     bindr (pv_load pvec m 0) (\<lambda>ptr.
     bindr (pv_move pvec m 0 1 (g_count pvec - 1)) (\<lambda>m.
     Inr (Some ptr, pvec\<lparr>g_count := g_count pvec - 1\<rparr>, m))))"

definition tt_ptrvec_pop_tail :: "'a tt_ptrvec \<Rightarrow> 'a mem \<Rightarrow> ('a option \<times> 'a tt_ptrvec \<times> 'a mem) run" where
  "tt_ptrvec_pop_tail pvec m =
    (if g_count pvec = 0 then Inr (None, pvec, m) else
     bindr (pv_load pvec m (g_count pvec - 1)) (\<lambda>ptr.
     Inr (Some ptr, pvec\<lparr>g_count := g_count pvec - 1\<rparr>, m)))"

definition tt_ptrvec_head :: "'a tt_ptrvec \<Rightarrow> 'a mem \<Rightarrow> 'a option run" where
  "tt_ptrvec_head pvec m = (if g_count pvec = 0 then Inr None else bindr (pv_load pvec m 0) (\<lambda>p. Inr (Some p)))"

definition tt_ptrvec_tail :: "'a tt_ptrvec \<Rightarrow> 'a mem \<Rightarrow> 'a option run" where
  "tt_ptrvec_tail pvec m =
    (if g_count pvec = 0 then Inr None else bindr (pv_load pvec m (g_count pvec - 1)) (\<lambda>p. Inr (Some p)))"

definition tt_ptrvec_insert :: "u32 \<Rightarrow> 'a option \<Rightarrow> 'a tt_ptrvec \<Rightarrow> 'a mem \<Rightarrow> (tt_result \<times> 'a tt_ptrvec \<times> 'a mem) run" where
  "tt_ptrvec_insert idx ptr pvec m =
    (case ptr of None \<Rightarrow> Inr (TT_FAIL, pvec, m)
     | Some p \<Rightarrow>
       if idx \<ge> g_count pvec then Inr (TT_FAIL, pvec, m) else
       TT_DO (tt_ptrvec_reserve pvec 1 m) (\<lambda>(pvec, m).
       bindr (pv_move pvec m (idx + 1) idx (g_count pvec - idx)) (\<lambda>m.
       bindr (pv_store pvec m idx p) (\<lambda>m.
       Inr (TT_SUCCESS, pvec\<lparr>g_count := g_count pvec + 1\<rparr>, m)))))"

definition tt_ptrvec_capacity :: "'a tt_ptrvec \<Rightarrow> u32" where "tt_ptrvec_capacity pvec = tt_vec_capacity pvec"
definition tt_ptrvec_count :: "'a tt_ptrvec \<Rightarrow> u32" where "tt_ptrvec_count pvec = tt_vec_count pvec"
definition tt_ptrvec_empty :: "'a tt_ptrvec \<Rightarrow> bool" where "tt_ptrvec_empty pvec = tt_vec_empty pvec"
definition tt_ptrvec_clear :: "'a tt_ptrvec \<Rightarrow> 'a tt_ptrvec" where "tt_ptrvec_clear pvec = tt_vec_clear pvec"

definition tt_ptrvec_move_all ::
  "'a tt_ptrvec \<Rightarrow> 'a tt_ptrvec \<Rightarrow> 'a mem \<Rightarrow> (tt_result \<times> ('a tt_ptrvec \<times> 'a tt_ptrvec) \<times> 'a mem) run" where
  "tt_ptrvec_move_all dst src m =
    bindr (tt_ptrvec_reserve dst (g_count src) m) (\<lambda>(r, dst, m).
    if \<not> TT_OK r then Inr (r, (dst, src), m) else
    bindr (tt_memcpy 8 m (g_p dst) (pv_off (g_count dst)) (g_p src) 0 (unat (PV_SIZE (g_count src)))) (\<lambda>m.
    Inr (TT_SUCCESS, (dst\<lparr>g_count := g_count dst + g_count src\<rparr>, tt_ptrvec_clear src), m)))"

definition tt_ptrvec_move_from ::
  "'a tt_ptrvec \<Rightarrow> 'a tt_ptrvec \<Rightarrow> u32 \<Rightarrow> 'a mem \<Rightarrow> (tt_result \<times> ('a tt_ptrvec \<times> 'a tt_ptrvec) \<times> 'a mem) run" where
  "tt_ptrvec_move_from dst src from_idx m =
    (if from_idx \<ge> g_count src then Inr (TT_SUCCESS, (dst, src), m) else
    let n = g_count src - from_idx in
    bindr (tt_ptrvec_reserve dst n m) (\<lambda>(r, dst, m).
    if \<not> TT_OK r then Inr (r, (dst, src), m) else
    bindr (tt_memcpy 8 m (g_p dst) (pv_off (g_count dst)) (g_p src) (pv_off from_idx) (unat (PV_SIZE n))) (\<lambda>m.
    Inr (TT_SUCCESS, (dst\<lparr>g_count := g_count dst + n\<rparr>, src\<lparr>g_count := g_count src - n\<rparr>), m))))"

definition tt_ptrvec_move_range ::
  "'a tt_ptrvec \<Rightarrow> 'a tt_ptrvec \<Rightarrow> u32 \<Rightarrow> u32 \<Rightarrow> 'a mem \<Rightarrow> (tt_result \<times> ('a tt_ptrvec \<times> 'a tt_ptrvec) \<times> 'a mem) run" where
  "tt_ptrvec_move_range dst src from_idx to_idx m =
    bindr (TT_ASSERT_ALWAYS (from_idx \<le> to_idx)) (\<lambda>_.
    if from_idx \<ge> g_count src then Inr (TT_SUCCESS, (dst, src), m) else
    let to_idx = (if to_idx \<ge> g_count src then g_count src else to_idx);
        n = to_idx - from_idx in
    bindr (tt_ptrvec_reserve dst n m) (\<lambda>(r, dst, m).
    if \<not> TT_OK r then Inr (r, (dst, src), m) else
    bindr (tt_memcpy 8 m (g_p dst) (pv_off (g_count dst)) (g_p src) (pv_off from_idx) (unat (PV_SIZE n))) (\<lambda>m.
    bindr (tt_memcpy 8 m (g_p src) (pv_off from_idx) (g_p src) (pv_off to_idx) (unat (PV_SIZE (g_count src - to_idx)))) (\<lambda>m.
    Inr (TT_SUCCESS, (dst\<lparr>g_count := g_count dst + n\<rparr>, src\<lparr>g_count := g_count src - n\<rparr>), m)))))"

definition tt_ptrvec_get :: "'a tt_ptrvec \<Rightarrow> u32 \<Rightarrow> 'a mem \<Rightarrow> 'a option run" where
  "tt_ptrvec_get pvec idx m = (if idx \<ge> g_count pvec then Inr None else bindr (pv_load pvec m idx) (\<lambda>p. Inr (Some p)))"

definition tt_ptrvec_set :: "u32 \<Rightarrow> 'a option \<Rightarrow> 'a tt_ptrvec \<Rightarrow> 'a mem \<Rightarrow> (tt_result \<times> 'a mem) run" where
  "tt_ptrvec_set idx ptr pvec m =
    (case ptr of None \<Rightarrow> Inr (TT_FAIL, m)
     | Some p \<Rightarrow>
       if idx \<ge> g_count pvec then Inr (TT_FAIL, m) else
       bindr (pv_store pvec m idx p) (\<lambda>m. Inr (TT_SUCCESS, m)))"

text \<open>The loops of the searches; a null comparison function is excluded by the assertion before them.\<close>

definition pv_equal :: "'a tt_ptrvec \<Rightarrow> 'a \<Rightarrow> 'a \<Rightarrow> bool run" where
  "pv_equal pvec x p = (case v_cmp pvec of Some cmp \<Rightarrow> Inr (cmp x p = 0) | None \<Rightarrow> Inl Undef)"

function ptrvec_find_up :: "'a tt_ptrvec \<Rightarrow> 'a \<Rightarrow> u32 \<Rightarrow> u32 \<Rightarrow> 'a mem \<Rightarrow> u32 run" where
  "ptrvec_find_up pvec p i to_idx m =
    (if i < to_idx then
       bindr (pv_load pvec m i) (\<lambda>x.
       bindr (pv_equal pvec x p) (\<lambda>eq. if eq then Inr i else ptrvec_find_up pvec p (i + 1) to_idx m))
     else Inr TT_POS_NULL)"
  by pat_completeness auto
termination
proof (relation "measure (\<lambda>(v, p, i, to_idx, m). unat to_idx - unat i)")
  fix v :: "'a tt_ptrvec" and p x :: 'a and i to_idx :: u32 and m :: "'a mem" and eq :: bool
  assume "i < to_idx"
  then have "unat i < unat to_idx" "unat (i + 1) = Suc (unat i)"
    by (simp_all add: word_less_nat_alt unat_suc_u32 [of i to_idx])
  then show "((v, p, i + 1, to_idx, m), v, p, i, to_idx, m) \<in> measure (\<lambda>(v, p, i, to_idx, m). unat to_idx - unat i)"
    by simp
qed simp

function ptrvec_find_down :: "'a tt_ptrvec \<Rightarrow> 'a \<Rightarrow> u32 \<Rightarrow> 'a mem \<Rightarrow> u32 run" where
  "ptrvec_find_down pvec p i m =
    (if i \<noteq> NOT 0 then
       bindr (pv_load pvec m i) (\<lambda>x.
       bindr (pv_equal pvec x p) (\<lambda>eq. if eq then Inr i else ptrvec_find_down pvec p (i - 1) m))
     else Inr TT_POS_NULL)"
  by pat_completeness auto
termination
proof (relation "measure (\<lambda>(v, p, i, m). if i = - 1 then 0 else Suc (unat i))")
  fix v :: "'a tt_ptrvec" and p x :: 'a and i :: u32 and m :: "'a mem" and eq :: bool
  assume "i \<noteq> NOT 0"
  then have ne: "i \<noteq> - 1" by simp
  have "i \<noteq> 0 \<Longrightarrow> unat (i - 1) < unat i" by (simp add: unat_minus_one unat_gt_0)
  with ne show "((v, p, i - 1, m), v, p, i, m) \<in> measure (\<lambda>(v, p, i, m). if i = - 1 then 0 else Suc (unat i))"
    by auto
qed simp

declare ptrvec_find_up.simps [simp del] ptrvec_find_down.simps [simp del]

definition tt_ptrvec_find :: "'a tt_ptrvec \<Rightarrow> 'a \<Rightarrow> 'a mem \<Rightarrow> u32 run" where
  "tt_ptrvec_find pvec p m =
    bindr (TT_ASSERT (v_cmp pvec \<noteq> None)) (\<lambda>_. ptrvec_find_up pvec p 0 (g_count pvec) m)"

definition tt_ptrvec_find_last :: "'a tt_ptrvec \<Rightarrow> 'a \<Rightarrow> 'a mem \<Rightarrow> u32 run" where
  "tt_ptrvec_find_last pvec p m =
    bindr (TT_ASSERT (v_cmp pvec \<noteq> None)) (\<lambda>_. ptrvec_find_down pvec p (g_count pvec - 1) m)"

definition tt_ptrvec_find_from :: "'a tt_ptrvec \<Rightarrow> 'a \<Rightarrow> u32 \<Rightarrow> 'a mem \<Rightarrow> u32 run" where
  "tt_ptrvec_find_from pvec p from_idx m =
    (if from_idx \<ge> g_count pvec then Inr TT_POS_NULL else
     bindr (TT_ASSERT (v_cmp pvec \<noteq> None)) (\<lambda>_. ptrvec_find_up pvec p from_idx (g_count pvec) m))"

definition tt_ptrvec_find_range :: "'a tt_ptrvec \<Rightarrow> 'a \<Rightarrow> u32 \<Rightarrow> u32 \<Rightarrow> 'a mem \<Rightarrow> u32 run" where
  "tt_ptrvec_find_range pvec p from_idx to_idx m =
    bindr (TT_ASSERT_ALWAYS (from_idx \<le> to_idx)) (\<lambda>_.
    if from_idx \<ge> g_count pvec then Inr TT_POS_NULL else
    bindr (TT_ASSERT (v_cmp pvec \<noteq> None)) (\<lambda>_.
    ptrvec_find_up pvec p from_idx (if to_idx \<ge> g_count pvec then g_count pvec else to_idx) m))"

definition tt_ptrvec_comtain :: "'a tt_ptrvec \<Rightarrow> 'a \<Rightarrow> 'a mem \<Rightarrow> bool run" where
  "tt_ptrvec_comtain pvec p m = bindr (tt_ptrvec_find pvec p m) (\<lambda>i. Inr (i \<noteq> TT_POS_NULL))"

function ptrvec_comtain_loop :: "'a tt_ptrvec \<Rightarrow> 'a tt_ptrvec \<Rightarrow> u32 \<Rightarrow> 'a mem \<Rightarrow> bool run" where
  "ptrvec_comtain_loop pvec pvec2 i m =
    (if i < g_count pvec2 then
       bindr (pv_load pvec2 m i) (\<lambda>p.
       bindr (tt_ptrvec_find pvec p m) (\<lambda>k. if k = TT_POS_NULL then Inr False else ptrvec_comtain_loop pvec pvec2 (i + 1) m))
     else Inr True)"
  by pat_completeness auto
termination
proof (relation "measure (\<lambda>(v, v2, i, m). unat (g_count v2) - unat i)")
  fix v v2 :: "'a tt_ptrvec" and i :: u32 and m :: "'a mem" and x :: 'a and k :: u32
  assume "i < g_count v2"
  then have "unat i < unat (g_count v2)" "unat (i + 1) = Suc (unat i)"
    by (simp_all add: word_less_nat_alt unat_suc_u32 [of i "g_count v2"])
  then show "((v, v2, i + 1, m), v, v2, i, m) \<in> measure (\<lambda>(v, v2, i, m). unat (g_count v2) - unat i)"
    by simp
qed simp

declare ptrvec_comtain_loop.simps [simp del]

definition tt_ptrvec_comtain_all :: "'a tt_ptrvec \<Rightarrow> 'a tt_ptrvec \<Rightarrow> 'a mem \<Rightarrow> bool run" where
  "tt_ptrvec_comtain_all pvec pvec2 m = ptrvec_comtain_loop pvec pvec2 0 m"

definition tt_ptrvec_remove :: "u32 \<Rightarrow> 'a tt_ptrvec \<Rightarrow> 'a mem \<Rightarrow> ('a tt_ptrvec \<times> 'a mem) run" where
  "tt_ptrvec_remove idx pvec m =
    (if idx \<ge> g_count pvec then Inr (pvec, m) else
     bindr (pv_move pvec m idx (idx + 1) (g_count pvec - idx - 1)) (\<lambda>m.
     Inr (pvec\<lparr>g_count := g_count pvec - 1\<rparr>, m)))"

definition tt_ptrvec_remove_equal :: "'a \<Rightarrow> 'a tt_ptrvec \<Rightarrow> 'a mem \<Rightarrow> (u32 \<times> 'a tt_ptrvec \<times> 'a mem) run" where
  "tt_ptrvec_remove_equal p pvec m =
    bindr (tt_ptrvec_find pvec p m) (\<lambda>idx.
    bindr (if idx \<noteq> TT_POS_NULL then tt_ptrvec_remove idx pvec m else Inr (pvec, m)) (\<lambda>(pvec, m).
    Inr (idx, pvec, m)))"

definition tt_ptrvec_remove_range :: "u32 \<Rightarrow> u32 \<Rightarrow> 'a tt_ptrvec \<Rightarrow> 'a mem \<Rightarrow> ('a tt_ptrvec \<times> 'a mem) run" where
  "tt_ptrvec_remove_range from_idx to_idx pvec m =
    bindr (TT_ASSERT_ALWAYS (from_idx \<le> to_idx)) (\<lambda>_.
    if from_idx \<ge> g_count pvec then Inr (pvec, m) else
    let to_idx = (if to_idx \<ge> g_count pvec then g_count pvec else to_idx) in
    bindr (pv_move pvec m from_idx to_idx (g_count pvec - to_idx)) (\<lambda>m.
    Inr (pvec\<lparr>g_count := g_count pvec - (to_idx - from_idx)\<rparr>, m)))"

definition tt_ptrvec_trim :: "'a tt_ptrvec \<Rightarrow> 'a mem \<Rightarrow> ('a tt_ptrvec \<times> 'a mem) run" where
  "tt_ptrvec_trim pvec m =
    (if g_count pvec < g_capacity pvec then
       bindr (tt_memspg_compress 8 (g_mspg pvec) (g_p pvec) (g_size pvec) (PV_SIZE (g_count pvec)) m)
         (\<lambda>(r, p, sz, m). let pvec = pvec\<lparr>g_p := p, g_size := sz\<rparr> in
           Inr (pvec\<lparr>g_capacity := PV_NUM (g_size pvec)\<rparr>, m))
     else Inr (pvec, m))"

section \<open>Equality with the vector of objects\<close>

lemma PV_eq: "PV_SIZE n = n * 8" "PV_NUM n = n div 8"
  by (simp_all add: PV_SIZE_def PV_NUM_def push_bit_eq_mult drop_bit_eq_div)

lemma pv_off_eq:
  assumes "vec_inv v m" "v_obj_size v = 8" "unat i \<le> unat (g_capacity v)"
  shows "pv_off i = V_OBJ v i"
  using V_ok(1) [OF assms(1,3)] assms(2) by (simp add: pv_off_def)

lemma pv_eq:
  assumes inv: "vec_inv v m" and sz: "v_obj_size v = 8"
  shows "unat i \<le> unat (g_capacity v) \<Longrightarrow> pv_load v m' i = v_load v m' (V_OBJ v i)"
    "unat i \<le> unat (g_capacity v) \<Longrightarrow> pv_store v m' i p = v_store v m' (V_OBJ v i) p"
    "unat i \<le> unat (g_capacity v) \<Longrightarrow> unat j \<le> unat (g_capacity v) \<Longrightarrow> pv_move v m' i j n = v_move v m' (V_OBJ v i) (V_OBJ v j) (V_SIZE v n)"
  using pv_off_eq [OF inv sz] sz
  by (simp_all add: pv_load_def v_load_def pv_store_def v_store_def pv_move_def v_move_def V_SIZE_def PV_eq mult.commute)

lemma pv_reserve_eq:
  assumes "v_obj_size v = 8"
  shows "tt_ptrvec_reserve v n m = tt_vec_reserve v n m"
  using assms
  by (simp add: tt_ptrvec_reserve_def ptrvec_reserve_def tt_vec_reserve_def vec_reserve_def PV_eq TT_DO_def bindr_assoc
      case_prod_unfold cong: if_cong)

lemma reserve_one_inv:
  assumes inv: "vec_inv v m" and lt: "Suc (unat (g_count v)) < 2 ^ 32" and r: "tt_vec_reserve v 1 m = Inr (TT_SUCCESS, v', m')"
  shows "vec_inv v' m'" "v_obj_size v' = v_obj_size v" "g_count v' = g_count v" "unat (g_count v) < unat (g_capacity v')"
proof -
  note D = arr_invD [OF inv]
  have u: "unat (g_count v + 1) = Suc (unat (g_count v))" using lt unat_add_u32 [of "g_count v" 1] by simp
  have "vec_inv v' m' \<and> v_obj_size v' = v_obj_size v \<and> g_count v' = g_count v \<and> unat (g_count v) < unat (g_capacity v')"
  proof (cases "unat (g_count v) < unat (g_capacity v)")
    case True
    then show ?thesis using r u inv by (simp add: tt_vec_reserve_def word_le_nat_alt)
  next
    case False
    then have full: "unat (g_count v) = unat (g_capacity v)" using D(5) by simp
    show ?thesis
    proof (cases "(unat (g_capacity v) + unat (1 :: u32)) * unat (v_obj_size v) < 2 ^ 32")
      case True
      have lt': "unat (g_count v) + unat (1 :: u32) < 2 ^ 32" using lt by simp
      show ?thesis
        using inv lt' True
      proof (cases rule: arr_reserve_cases)
        case (ok a' m'')
        then show ?thesis using r vec_more [OF ok(6)] by (simp add: reserve_eq)
      qed (use r in \<open>simp add: reserve_eq\<close>)
    next
      case big: False
      have "tt_vec_reserve v 1 m = Inl Throw"
        unfolding reserve_eq using inv lt full big by (intro arr_reserve_one_throw) (simp_all add: word_unat_eq_iff)
      with r show ?thesis by simp
    qed
  qed
  then show "vec_inv v' m'" "v_obj_size v' = v_obj_size v" "g_count v' = g_count v" "unat (g_count v) < unat (g_capacity v')" by auto
qed

lemma TT_DO_cong: "(\<And>s. c = Inr (TT_SUCCESS, s) \<Longrightarrow> k s = k' s) \<Longrightarrow> TT_DO c k = TT_DO c k'"
  by (cases c) (auto simp: TT_DO_def TT_OK_def)

lemma pv_push_eq:
  assumes inv: "vec_inv v m" and sz: "v_obj_size v = 8" and lt: "Suc (unat (g_count v)) < 2 ^ 32"
  shows "tt_ptrvec_push_head (Some x) v m = tt_vec_push_head x v m"
    "tt_ptrvec_push_tail (Some x) v m = tt_vec_push_tail x v m"
  unfolding tt_ptrvec_push_head_def tt_vec_push_head_def tt_ptrvec_push_tail_def tt_vec_push_tail_def option.case pv_reserve_eq [OF sz]
proof (goal_cases)
  case 1
  show ?case
  proof (rule TT_DO_cong)
    fix s
    assume r: "tt_vec_reserve v 1 m = Inr (TT_SUCCESS, s)"
    obtain v' m' where s: "s = (v', m')" by (cases s)
    note R = reserve_one_inv [OF inv lt r [unfolded s]]
    note E = pv_eq [OF R(1) R(2) [unfolded sz]]
    have "unat (0 :: u32) \<le> unat (g_capacity v')" "unat (1 :: u32) \<le> unat (g_capacity v')" using R(4) by simp_all
    then show "(case s of (pvec, m) \<Rightarrow> bindr (pv_move pvec m 1 0 (g_count pvec)) (\<lambda>m. bindr (pv_store pvec m 0 x)
        (\<lambda>m. Inr (TT_SUCCESS, pvec\<lparr>g_count := g_count pvec + 1\<rparr>, m)))) =
      (case s of (vec, m) \<Rightarrow> bindr (v_move vec m (V_OBJ vec 1) 0 (V_SIZE vec (g_count vec))) (\<lambda>m. bindr (v_store vec m 0 x)
        (\<lambda>m. Inr (TT_SUCCESS, vec\<lparr>g_count := g_count vec + 1\<rparr>, m))))"
      by (simp add: s E V_OBJ_0)
  qed
next
  case 2
  show ?case
  proof (rule TT_DO_cong)
    fix s
    assume r: "tt_vec_reserve v 1 m = Inr (TT_SUCCESS, s)"
    obtain v' m' where s: "s = (v', m')" by (cases s)
    note R = reserve_one_inv [OF inv lt r [unfolded s]]
    have "unat (g_count v') \<le> unat (g_capacity v')" using R(3,4) by simp
    then show "(case s of (pvec, m) \<Rightarrow> bindr (pv_store pvec m (g_count pvec) x)
        (\<lambda>m. Inr (TT_SUCCESS, pvec\<lparr>g_count := g_count pvec + 1\<rparr>, m))) =
      (case s of (vec, m) \<Rightarrow> bindr (v_store vec m (V_OBJ vec (g_count vec)) x)
        (\<lambda>m. Inr (TT_SUCCESS, vec\<lparr>g_count := g_count vec + 1\<rparr>, m)))"
      by (simp add: s pv_eq [OF R(1) R(2) [unfolded sz]])
  qed
qed

lemma pv_pop_eq:
  assumes inv: "vec_inv v m" and sz: "v_obj_size v = 8"
  shows "tt_ptrvec_pop_head v m = bindr (tt_vec_pop_head True v m) (\<lambda>(r, x, s). Inr (x, s))"
    "tt_ptrvec_pop_tail v m = bindr (tt_vec_pop_tail True v m) (\<lambda>(r, x, s). Inr (x, s))"
proof -
  note E = pv_eq [OF inv sz] and D = arr_invD(5) [OF inv]
  have "unat (1 :: u32) \<le> unat (g_capacity v)" "unat (g_count v - 1) \<le> unat (g_capacity v)" if "g_count v \<noteq> 0"
  proof -
    have "0 < unat (g_count v)" using that by (simp add: unat_gt_0)
    then show "unat (1 :: u32) \<le> unat (g_capacity v)" "unat (g_count v - 1) \<le> unat (g_capacity v)"
      using D count_minus_1 [of v] by simp_all
  qed
  then show "tt_ptrvec_pop_head v m = bindr (tt_vec_pop_head True v m) (\<lambda>(r, x, s). Inr (x, s))"
    "tt_ptrvec_pop_tail v m = bindr (tt_vec_pop_tail True v m) (\<lambda>(r, x, s). Inr (x, s))"
    by (simp_all add: tt_ptrvec_pop_head_def tt_vec_pop_head_def tt_ptrvec_pop_tail_def tt_vec_pop_tail_def E V_OBJ_0 bindr_assoc)
qed

lemma pv_remove_range_eq:
  assumes inv: "vec_inv v m" and sz: "v_obj_size v = 8"
  shows "tt_ptrvec_remove_range i j v m = tt_vec_remove_range i j v m"
proof -
  have "unat k \<le> unat (g_capacity v)" if "k \<le> g_count v" for k
    using that arr_invD(5) [OF inv] by (simp add: word_le_nat_alt)
  then show ?thesis
    by (auto simp: tt_ptrvec_remove_range_def tt_vec_remove_range_def Let_def pv_eq [OF inv sz] not_le intro!: arg_cong [of _ _ "bindr _"])
qed

lemma pv_trim_eq: "v_obj_size v = 8 \<Longrightarrow> tt_ptrvec_trim v m = tt_vec_trim v m"
  by (simp add: tt_ptrvec_trim_def tt_vec_trim_def PV_eq mult.commute Let_def)

lemma pv_find_up_eq:
  assumes inv: "vec_inv v m" and sz: "v_obj_size v = 8" and c: "v_cmp v = Some cmp" and j: "unat j \<le> unat (g_count v)"
  shows "ptrvec_find_up v x i j m = vec_find_up v x i j m"
  using assms
proof (induction v x i j m rule: vec_find_up.induct)
  case (1 v x i j m)
  show ?case
  proof (cases "i < j")
    case True
    then have "unat i \<le> unat (g_capacity v)" using 1(2,5) arr_invD(5) [OF 1(2)] by (simp add: word_less_nat_alt)
    then show ?thesis
      using True 1 by (subst vec_find_up.simps, subst ptrvec_find_up.simps)
        (auto simp: pv_eq v_equal_def pv_equal_def intro!: arg_cong [of _ _ "bindr _"])
  next
    case False
    then show ?thesis by (subst vec_find_up.simps, subst ptrvec_find_up.simps) simp
  qed
qed

section \<open>The vector of pointers is a double-ended queue\<close>

fun ptrvec_step :: "'a dq_op \<Rightarrow> 'a tt_ptrvec \<times> 'a mem \<Rightarrow> ('a answer \<times> ('a tt_ptrvec \<times> 'a mem)) run" where
  "ptrvec_step (PushHead x) (v, m) =
    bindr (tt_ptrvec_push_head (Some x) v m) (\<lambda>(r, s). Inr (if TT_OK r then Done else NoMem, s))"
| "ptrvec_step (PushTail x) (v, m) =
    bindr (tt_ptrvec_push_tail (Some x) v m) (\<lambda>(r, s). Inr (if TT_OK r then Done else NoMem, s))"
| "ptrvec_step PopHead (v, m) =
    bindr (tt_ptrvec_pop_head v m) (\<lambda>(x, s). Inr (case x of Some y \<Rightarrow> Got y | None \<Rightarrow> Empty, s))"
| "ptrvec_step PopTail (v, m) =
    bindr (tt_ptrvec_pop_tail v m) (\<lambda>(x, s). Inr (case x of Some y \<Rightarrow> Got y | None \<Rightarrow> Empty, s))"

lemma ptrvec_step_eq:
  assumes ok: "vec_ok 8 m0 s" and lt: "Suc (length (vec_list s)) < 2 ^ 32 div unat (8 :: u32)"
  shows "ptrvec_step op s = vec_step op s"
proof -
  obtain v m where s: "s = (v, m)" by (cases s)
  have inv: "vec_inv v m" and sz: "v_obj_size v = 8" using ok s by (auto simp: vec_ok_def)
  have "Suc (unat (g_count v)) < 2 ^ 32" using lt arr_invD(9) [OF inv] s by (simp add: vec_list_def)
  then show ?thesis
    by (cases op) (simp_all add: s pv_push_eq [OF inv sz] pv_pop_eq [OF inv sz] bindr_assoc case_prod_unfold)
qed

interpretation pv: deque "vec_ok 8 m0" vec_list ptrvec_step "2 ^ 32 div unat (8 :: u32)"
  for m0 :: "'a mem"
proof unfold_locales
  fix s :: "'a tt_ptrvec \<times> 'a mem" and op
  assume "vec_ok 8 m0 s" "Suc (length (vec_list s)) < 2 ^ 32 div unat (8 :: u32)"
  then show "\<exists>a s'. ptrvec_step op s = Inr (a, s') \<and> vec_ok 8 m0 s' \<and> dq_spec op (vec_list s) a (vec_list s')"
    using vec_step_refines ptrvec_step_eq by metis
qed

end
