(* ===== verification/TT_Vector_Props.thy ===== *)
theory TT_Vector_Props
  imports TT_PtrVector TT_Queue_Props
begin

text \<open>
  The properties of the vectors, each with a concrete instance.
\<close>

section \<open>From initialisation to destruction\<close>

lemma vec_init_ok:
  assumes init: "tt_vec_init osz cmp attr = Inr v" and ext: "unat (max_extend (g_mspg v)) \<le> 2 ^ 30" and inv: "mem_inv m0"
  shows "vec_ok osz m0 (v, m0)" "vec_list (v, m0) = []"
proof -
  define at where "at = (case attr of None \<Rightarrow> tt_vec_attr_default | Some a \<Rightarrow> a)"
  have z: "osz \<noteq> 0" and mul: "unat osz * unat (min_extent_num at) < 2 ^ 32" "unat osz * unat (max_extent_num at) < 2 ^ 32"
    and g: "tt_memspg_init (min_extent_num at * osz) (max_extent_num at * osz) (max_limit_num at * osz) = Inr (g_mspg v)"
    and v: "g_p v = None" "g_size v = 0" "g_count v = 0" "g_capacity v = 0" "v_obj_size v = osz"
    using init by (auto simp: tt_vec_init_def Let_def bindr_eq_Inr_iff at_def TT_U32_MUL_WOULD_OVFL_iff not_le)
  have "unat (min_extent_num at * osz) = unat (min_extent_num at) * unat osz" "unat (max_extent_num at * osz) = unat (max_extent_num at) * unat osz"
    using mul by (simp_all add: unat_mult_u32 mult.commute)
  then have "memspg_ok (unat osz) (g_mspg v)"
    using g ext z unfolding tt_memspg_init_ok by (simp add: memspg_ok_def unat_gt_0)
  then show "vec_ok osz m0 (v, m0)" "vec_list (v, m0) = []"
    using v inv by (simp_all add: vec_ok_def vec_list_def arr_inv_def points_to_def arr_cells_def arr_items_def owns_refl)
qed

lemma vec_ok_destroy:
  assumes "vec_ok osz m0 (v, m)"
  shows "\<exists>v' m'. tt_vec_destroy v m = Inr (v', m') \<and> mem_heap m' = mem_heap m0 \<and> mem_frame {} m0 m'"
proof -
  have inv: "vec_inv v m" and own: "mem_frame {} m0 m" "arr_own v \<inter> dom (mem_blocks m0) \<subseteq> {}" "mem_heap m - arr_own v = mem_heap m0"
    using assms by (auto simp: vec_ok_def owns_step_def)
  from vec_destroy_ok [OF inv] obtain v' m' where m': "tt_vec_destroy v m = Inr (v', m')" "mem_heap m' = mem_heap m - arr_own v"
    "mem_frame (arr_own v) m m'" by blast
  with frame_compose [OF own(1) m'(3) own(2)] own(3) show ?thesis by auto
qed

section \<open>Concrete vectors\<close>

definition vec_0 :: "nat tt_vec" where
  "vec_0 = \<lparr>g_p = None, g_size = 0, g_mspg = \<lparr>min_extend = 128, max_extend = 1024, max_limit = 0\<rparr>,
     g_count = 0, g_capacity = 0, v_cmp = None, v_obj_size = 8\<rparr>"

lemma vec_0_init: "tt_vec_init 8 None None = Inr vec_0"
  by (simp add: tt_vec_init_def Let_def tt_vec_attr_default_def tt_memspg_init_def vec_0_def TT_U32_MUL_WOULD_OVFL_iff)

abbreviation v_store0 :: "nat mem" where "v_store0 \<equiv> no_mem 0"

text \<open>A vector of four places holding three numbers, and an empty one, in one store.\<close>

definition vec_3 :: "nat tt_vec" where
  "vec_3 = vec_0\<lparr>g_p := Some 0, g_size := 32, g_count := 3, g_capacity := 4\<rparr>"

definition vec_mem :: "nat mem" where
  "vec_mem = v_store0\<lparr>mem_blocks := [0 \<mapsto> [5, 6, 5, 9]], mem_heap := {0}, mem_next := 1\<rparr>"

lemma vec_0_inv: "vec_inv vec_0 vec_mem" "arr_items vec_0 vec_mem = []"
  by (auto simp: vec_0_def vec_mem_def no_mem_def arr_inv_def mem_inv_def memspg_ok_def points_to_def arr_cells_def arr_items_def
      split: if_splits)

lemma vec_3_inv: "vec_inv vec_3 vec_mem" "arr_items vec_3 vec_mem = [5, 6, 5]"
proof -
  have c: "arr_cells vec_3 vec_mem = [5, 6, 5, 9]" by (simp add: arr_cells_def vec_3_def vec_mem_def)
  then show "arr_items vec_3 vec_mem = [5, 6, 5]" by (simp add: arr_items_def vec_3_def)
  have "mem_inv vec_mem" by (simp add: mem_inv_def vec_mem_def)
  with c show "vec_inv vec_3 vec_mem"
    by (simp add: arr_inv_def points_to_def memspg_ok_def) (simp add: vec_3_def vec_0_def vec_mem_def)
qed

section \<open>Properties\<close>

text \<open>
  C23: A vector of objects answers every sequence of pushes and pops at either end as a list does,
  as long as its size in bytes fits 32 bits: a push adds the object or reports that there is no
  memory, a pop returns the object at that end or fails on an empty vector. No step asserts or is
  undefined, and \<^verbatim>\<open>tt_vec_destroy\<close> frees what the vector allocated and touches nothing else.
\<close>

theorem vec_refines_list:
  assumes init: "tt_vec_init osz cmp attr = Inr v" and ext: "unat (max_extend (g_mspg v)) \<le> 2 ^ 30" and inv: "mem_inv m0"
    and len: "length ops < 2 ^ 32 div unat osz"
  shows "\<exists>as v' m'. run_ops vec_step ops (v, m0) = Inr (as, v', m') \<and> dq_specs ops [] as (arr_items v' m')
    \<and> unat (tt_vec_count v') = length (arr_items v' m')
    \<and> (\<exists>v'' m''. tt_vec_destroy v' m' = Inr (v'', m'') \<and> mem_heap m'' = mem_heap m0 \<and> mem_frame {} m0 m'')"
proof -
  note i = vec_init_ok [OF init ext inv]
  have "length (vec_list (v, m0)) + length ops < 2 ^ 32 div unat osz" using len i(2) by simp
  from tv.run_refines [OF i(1) this] obtain as v' m' where r: "run_ops vec_step ops (v, m0) = Inr (as, v', m')"
    "vec_ok osz m0 (v', m')" "dq_specs ops (vec_list (v, m0)) as (vec_list (v', m'))" by auto
  from r(2) have "unat (tt_vec_count v') = length (arr_items v' m')"
    using arr_invD(9) [of osz v' m'] by (auto simp: vec_ok_def tt_vec_count_def)
  with r vec_ok_destroy [OF r(2)] i(2) show ?thesis by (auto simp: vec_list_def)
qed

theorem vec_refines_list_witness:
  "\<exists>as v' m'. run_ops vec_step [PushTail 7, PushHead 8, PopTail] (vec_0, v_store0) = Inr (as, v', m')
    \<and> dq_specs [PushTail 7, PushHead 8, PopTail] [] as (arr_items v' m')
    \<and> unat (tt_vec_count v') = length (arr_items v' m')
    \<and> (\<exists>v'' m''. tt_vec_destroy v' m' = Inr (v'', m'') \<and> mem_heap m'' = mem_heap v_store0 \<and> mem_frame {} v_store0 m'')"
  by (rule vec_refines_list [OF vec_0_init _ no_mem_inv]) (simp_all add: vec_0_def)

text \<open>
  C24: Editing inside a vector. An insertion below the count puts the object in front of the one at
  that index (or reports no memory, or asserts when the size would not fit 32 bits), an insertion at or beyond the
  count is refused; a removal cuts out exactly the object at the index, a range removal exactly the
  range clipped to the count; setting replaces one object and is refused beyond the count; trimming
  changes no object. All keep the invariant and touch no other block.
\<close>

theorem vec_edit_spec:
  assumes inv: "vec_inv v m" and lt: "Suc (unat (g_count v)) < 2 ^ 32" and ij: "i \<le> j"
  shows "(i < g_count v \<longrightarrow> vec_adds v m (take (unat i) (arr_items v m) @ x # drop (unat i) (arr_items v m)) (tt_vec_insert i x v m))
    \<and> (g_count v \<le> i \<longrightarrow> tt_vec_insert i x v m = Inr (TT_FAIL, v, m) \<and> tt_vec_set i x v m = Inr (TT_FAIL, m))
    \<and> (\<exists>v' m'. tt_vec_remove i v m = Inr (v', m')
         \<and> vec_becomes v m (take (unat i) (arr_items v m) @ drop (Suc (unat i)) (arr_items v m)) v' m')
    \<and> (\<exists>v' m'. tt_vec_remove_range i j v m = Inr (v', m')
         \<and> vec_becomes v m (take (unat i) (arr_items v m) @ drop (unat j) (arr_items v m)) v' m')
    \<and> (i < g_count v \<longrightarrow> (\<exists>m'. tt_vec_set i x v m = Inr (TT_SUCCESS, m') \<and> vec_becomes v m ((arr_items v m)[unat i := x]) v m'))
    \<and> (\<exists>v' m'. tt_vec_trim v m = Inr (v', m') \<and> vec_becomes v m (arr_items v m) v' m')"
  using insert_adds [OF inv lt] set_ok [OF inv] remove_ok [OF inv] remove_range_ok [OF inv ij] trim_ok [OF inv]
  by (simp add: tt_vec_insert_def)

theorem vec_edit_spec_witness:
  "vec_adds vec_3 vec_mem [5, 8, 6, 5] (tt_vec_insert 1 8 vec_3 vec_mem)
    \<and> (\<exists>v' m'. tt_vec_remove_range 1 2 vec_3 vec_mem = Inr (v', m') \<and> vec_becomes vec_3 vec_mem [5, 5] v' m')"
proof -
  have "Suc (unat (g_count vec_3)) < 2 ^ 32" "(1 :: u32) \<le> 2" "(1 :: u32) < g_count vec_3" by (simp_all add: vec_3_def)
  from vec_edit_spec [OF vec_3_inv(1) this(1,2), of 8] this(3) show ?thesis by (simp add: vec_3_inv(2))
qed

text \<open>
  The searches. \<^verbatim>\<open>tt_vec_find\<close>, \<^verbatim>\<open>tt_vec_find_from\<close> and \<^verbatim>\<open>tt_vec_find_range\<close> return the least index of
  their range whose object compares equal, \<^verbatim>\<open>tt_vec_find_last\<close> the greatest index; \<^verbatim>\<open>TT_POS_NULL\<close> means
  that no object of the range compares equal.
\<close>

theorem vec_find_spec:
  fixes x :: 'a
  assumes inv: "vec_inv v m" and ij: "i \<le> j"
  defines "P \<equiv> \<lambda>y. v_equal v y x"
  shows "(\<exists>r. tt_vec_find v x m = Inr r \<and> finds_first P (arr_items v m) 0 (unat (g_count v)) r)
    \<and> (\<exists>r. tt_vec_find_last v x m = Inr r \<and> finds_last P (arr_items v m) (unat (g_count v)) r)
    \<and> (\<exists>r. tt_vec_find_from v x i m = Inr r \<and> finds_first P (arr_items v m) (unat i) (unat (g_count v)) r)
    \<and> (\<exists>r. tt_vec_find_range v x i j m = Inr r \<and> finds_first P (arr_items v m) (unat i) (min (unat j) (unat (g_count v))) r)"
proof (intro conjI)
  have none: "finds_first P (arr_items v m) (unat i) k TT_POS_NULL" if "g_count v \<le> i" "k \<le> unat (g_count v)" for k
    using that by (auto simp: finds_first_def word_le_nat_alt)
  have up: "\<exists>r. vec_find_up v x i' j' m = Inr r \<and> finds_first P (arr_items v m) (unat i') (unat j') r"
    if "unat j' \<le> unat (g_count v)" for i' j'
    using find_up_ok [OF inv that] by (simp add: P_def)
  show "\<exists>r. tt_vec_find v x m = Inr r \<and> finds_first P (arr_items v m) 0 (unat (g_count v)) r"
    using up [of "g_count v" 0] by (simp add: tt_vec_find_def)
  show "\<exists>r. tt_vec_find_from v x i m = Inr r \<and> finds_first P (arr_items v m) (unat i) (unat (g_count v)) r"
    using up [of "g_count v" i] none by (auto simp: tt_vec_find_from_def)
  let ?j = "if g_count v \<le> j then g_count v else j"
  have "unat ?j = min (unat j) (unat (g_count v))" by (auto simp: word_le_nat_alt min_def)
  then show "\<exists>r. tt_vec_find_range v x i j m = Inr r \<and> finds_first P (arr_items v m) (unat i) (min (unat j) (unat (g_count v))) r"
    using up [of ?j i] none ij by (auto simp: tt_vec_find_range_def)
  have i1: "g_count v - 1 = - 1 \<or> unat (g_count v - 1) < unat (g_count v)"
    and hi: "(if g_count v - 1 = - 1 then 0 else Suc (unat (g_count v - 1))) = unat (g_count v)"
    by (cases "g_count v = 0"; simp add: unat_minus_one unat_gt_0)+
  from find_down_ok [OF inv i1, of x] show "\<exists>r. tt_vec_find_last v x m = Inr r \<and> finds_last P (arr_items v m) (unat (g_count v)) r"
    unfolding hi by (simp add: tt_vec_find_last_def P_def)
qed

theorem vec_find_spec_witness:
  "(\<exists>r. tt_vec_find vec_3 5 vec_mem = Inr r \<and> finds_first (\<lambda>y. y = 5) [5, 6, 5 :: nat] 0 3 r)
    \<and> (\<exists>r. tt_vec_find_last vec_3 5 vec_mem = Inr r \<and> finds_last (\<lambda>y. y = 5) [5, 6, 5 :: nat] 3 r)
    \<and> (\<exists>r. tt_vec_find_range vec_3 5 1 9 vec_mem = Inr r \<and> finds_first (\<lambda>y. y = 5) [5, 6, 5 :: nat] 1 3 r)"
proof -
  have e: "(\<lambda>y. v_equal vec_3 y 5) = (\<lambda>y. y = 5)" "unat (g_count vec_3) = 3" "(1 :: u32) \<le> 9"
    by (simp_all add: v_equal_def vec_3_def vec_0_def)
  from vec_find_spec [OF vec_3_inv(1) e(3), of 5, unfolded e(1,2) vec_3_inv(2)] show ?thesis by simp
qed

text \<open>
  C26: Moving objects between two vectors. \<^verbatim>\<open>tt_vec_move_all\<close> appends all objects of the source to the
  destination and empties the source, or reports that there is no memory and changes neither.
  \<^verbatim>\<open>tt_vec_move_range\<close> does the same for a range, closing the gap in the source, provided the objects
  behind the range are no more than those in it; otherwise it either runs out of memory first or copies
  overlapping memory with \<^verbatim>\<open>memcpy\<close>, which is undefined.
\<close>

theorem vec_move_spec:
  assumes two: "two_vecs dst src m" and all: "(unat (g_capacity dst) + unat (g_count src)) * unat (v_obj_size dst) < 2 ^ 32"
    and ij: "i \<le> j" "i < g_count src" "j \<le> g_count src"
  shows "(\<exists>r dst' src' m'. tt_vec_move_all dst src m = Inr (r, (dst', src'), m') \<and> two_vecs dst' src' m'
      \<and> (r = TT_SUCCESS \<and> arr_items dst' m' = arr_items dst m @ arr_items src m \<and> arr_items src' m' = []
         \<or> r = TT_FAIL \<and> arr_items dst' m' = arr_items dst m \<and> arr_items src' m' = arr_items src m))
    \<and> (if unat (g_count src) - unat j \<le> unat j - unat i \<or> j = g_count src
       then \<exists>r dst' src' m'. tt_vec_move_range dst src i j m = Inr (r, (dst', src'), m') \<and> two_vecs dst' src' m'
         \<and> (r = TT_SUCCESS \<and> arr_items dst' m' = arr_items dst m @ take (unat j - unat i) (drop (unat i) (arr_items src m))
              \<and> arr_items src' m' = take (unat i) (arr_items src m) @ drop (unat j) (arr_items src m)
            \<or> r = TT_FAIL \<and> arr_items dst' m' = arr_items dst m \<and> arr_items src' m' = arr_items src m)
       else tt_vec_move_range dst src i j m = Inl Undef
         \<or> (\<exists>m'. tt_vec_move_range dst src i j m = Inr (TT_FAIL, (dst, src), m')))"
proof
  have "unat (j - i) \<le> unat (g_count src)" using ij by (subst unat_sub_u32) (simp_all add: word_le_nat_alt)
  then have "(unat (g_capacity dst) + unat (j - i)) * unat (v_obj_size dst) \<le> (unat (g_capacity dst) + unat (g_count src)) * unat (v_obj_size dst)"
    by simp
  then have "(unat (g_capacity dst) + unat (j - i)) * unat (v_obj_size dst) < 2 ^ 32" using all by linarith
  with move_range_ok [OF two ij] show "if unat (g_count src) - unat j \<le> unat j - unat i \<or> j = g_count src
       then \<exists>r dst' src' m'. tt_vec_move_range dst src i j m = Inr (r, (dst', src'), m') \<and> two_vecs dst' src' m'
         \<and> (r = TT_SUCCESS \<and> arr_items dst' m' = arr_items dst m @ take (unat j - unat i) (drop (unat i) (arr_items src m))
              \<and> arr_items src' m' = take (unat i) (arr_items src m) @ drop (unat j) (arr_items src m)
            \<or> r = TT_FAIL \<and> arr_items dst' m' = arr_items dst m \<and> arr_items src' m' = arr_items src m)
       else tt_vec_move_range dst src i j m = Inl Undef
         \<or> (\<exists>m'. tt_vec_move_range dst src i j m = Inr (TT_FAIL, (dst, src), m'))" .
qed (rule move_all_ok [OF two all])

theorem vec_move_spec_witness:
  "tt_vec_move_range vec_0 vec_3 0 1 vec_mem = Inl Undef
    \<or> (\<exists>m'. tt_vec_move_range vec_0 vec_3 0 1 vec_mem = Inr (TT_FAIL, (vec_0, vec_3), m'))"
proof -
  have two: "two_vecs vec_0 vec_3 vec_mem"
    using vec_0_inv(1) vec_3_inv(1) by (simp add: two_vecs_def) (simp add: vec_0_def vec_3_def)
  have "(unat (g_capacity vec_0) + unat (g_count vec_3)) * unat (v_obj_size vec_0) < 2 ^ 32" "(0 :: u32) \<le> 1"
    "(0 :: u32) < g_count vec_3" "(1 :: u32) \<le> g_count vec_3" by (simp_all add: vec_0_def vec_3_def)
  from vec_move_spec [OF two this] show ?thesis by (simp add: vec_3_def)
qed

text \<open>
  The same refinement for the vector of pointers, which refuses null pointers without effect;
  and \<^verbatim>\<open>tt_ptrvec_remove_range\<close>, \<^verbatim>\<open>tt_ptrvec_trim\<close> behave as those of the vector of objects.
\<close>

theorem ptrvec_refines_list:
  assumes init: "tt_ptrvec_init cmp attr = Inr v" and ext: "unat (max_extend (g_mspg v)) \<le> 2 ^ 30" and inv: "mem_inv m0"
    and len: "length ops < 2 ^ 29"
  shows "\<exists>as v' m'. run_ops ptrvec_step ops (v, m0) = Inr (as, v', m') \<and> dq_specs ops [] as (arr_items v' m')
    \<and> unat (tt_ptrvec_count v') = length (arr_items v' m')
    \<and> tt_ptrvec_push_head None v' m' = Inr (TT_FAIL, v', m') \<and> tt_ptrvec_push_tail None v' m' = Inr (TT_FAIL, v', m')
    \<and> tt_ptrvec_remove_range i j v' m' = tt_vec_remove_range i j v' m' \<and> tt_ptrvec_trim v' m' = tt_vec_trim v' m'
    \<and> (\<exists>v'' m''. tt_ptrvec_destroy v' m' = Inr (v'', m'') \<and> mem_heap m'' = mem_heap m0 \<and> mem_frame {} m0 m'')"
proof -
  note i = vec_init_ok [OF init [unfolded tt_ptrvec_init_def] ext inv]
  have "length (vec_list (v, m0)) + length ops < 2 ^ 32 div unat (8 :: u32)" using len i(2) by simp
  from pv.run_refines [OF i(1) this] obtain as v' m' where r: "run_ops ptrvec_step ops (v, m0) = Inr (as, v', m')"
    "vec_ok 8 m0 (v', m')" "dq_specs ops (vec_list (v, m0)) as (vec_list (v', m'))" by auto
  have inv': "vec_inv v' m'" and sz: "v_obj_size v' = 8" using r(2) by (auto simp: vec_ok_def)
  then have "unat (tt_ptrvec_count v') = length (arr_items v' m')"
    using arr_invD(9) [OF inv'] by (simp add: tt_ptrvec_count_def tt_vec_count_def)
  with r vec_ok_destroy [OF r(2)] i(2) pv_remove_range_eq [OF inv' sz] pv_trim_eq [OF sz] show ?thesis
    by (simp add: vec_list_def tt_ptrvec_destroy_def tt_ptrvec_push_head_def tt_ptrvec_push_tail_def)
qed

definition ptrvec_0 :: "nat tt_ptrvec" where
  "ptrvec_0 = vec_0\<lparr>v_cmp := Some tt_cmp_ptr\<rparr>"

lemma ptrvec_0_init: "tt_ptrvec_init None None = Inr ptrvec_0"
  by (simp add: tt_ptrvec_init_def tt_vec_init_def Let_def tt_vec_attr_default_def tt_memspg_init_def ptrvec_0_def vec_0_def
      TT_U32_MUL_WOULD_OVFL_iff)

theorem ptrvec_refines_list_witness:
  "\<exists>as v' m'. run_ops ptrvec_step [PushTail 7, PushHead 8, PopTail] (ptrvec_0, v_store0) = Inr (as, v', m')
    \<and> dq_specs [PushTail 7, PushHead 8, PopTail] [] as (arr_items v' m')
    \<and> unat (tt_ptrvec_count v') = length (arr_items v' m')
    \<and> tt_ptrvec_push_head None v' m' = Inr (TT_FAIL, v', m') \<and> tt_ptrvec_push_tail None v' m' = Inr (TT_FAIL, v', m')
    \<and> tt_ptrvec_remove_range 0 1 v' m' = tt_vec_remove_range 0 1 v' m' \<and> tt_ptrvec_trim v' m' = tt_vec_trim v' m'
    \<and> (\<exists>v'' m''. tt_ptrvec_destroy v' m' = Inr (v'', m'') \<and> mem_heap m'' = mem_heap v_store0 \<and> mem_frame {} v_store0 m'')"
  by (rule ptrvec_refines_list [OF ptrvec_0_init _ no_mem_inv]) (simp_all add: ptrvec_0_def vec_0_def)

end
