(* ===== verification/TT_PtrHeap.thy ===== *)
theory TT_PtrHeap
  imports TT_Vector
begin

text \<open>
  The heap of pointers of \<^verbatim>\<open>algorithm/ptr/tt_ptr_heap.c\<close>: an array of nodes in which no child compares
  greater than its parent. A node holds the pointer and, optionally, the address of an index variable
  of the caller, in which the heap keeps the position of the node. Those variables are a second store,
  a function from addresses to 32-bit values. A node is a cell of 16 bytes.
\<close>

section \<open>Data\<close>

record 'a tt_phnode =
  ph_p :: 'a
  ph_idx :: ptr

record 'a tt_ptrheap = growable +
  h_cmp :: "'a \<Rightarrow> 'a \<Rightarrow> int"

type_synonym idx_vars = "nat \<Rightarrow> u32"

definition PH_PARENT :: "u32 \<Rightarrow> u32" where "PH_PARENT i = drop_bit 1 (i - 1)"
definition PH_LEFT :: "u32 \<Rightarrow> u32" where "PH_LEFT i = push_bit 1 i + 1"
definition PH_RIGHT :: "u32 \<Rightarrow> u32" where "PH_RIGHT i = push_bit 1 i + 2"

text \<open>\<^verbatim>\<open>ph->node[i]\<close> read and written, and \<^verbatim>\<open>*idx = v\<close> unless the address is null.\<close>

definition h_node :: "'a tt_ptrheap \<Rightarrow> 'a tt_phnode mem \<Rightarrow> u32 \<Rightarrow> 'a tt_phnode run" where
  "h_node ph m i = bindr (mem_load 16 m (g_p ph) (16 * unat i) 16) (\<lambda>cs. Inr (hd cs))"

definition h_put :: "'a tt_ptrheap \<Rightarrow> 'a tt_phnode mem \<Rightarrow> u32 \<Rightarrow> 'a tt_phnode \<Rightarrow> 'a tt_phnode mem run" where
  "h_put ph m i n = mem_store 16 m (g_p ph) (16 * unat i) [n]"

definition set_idx :: "ptr \<Rightarrow> u32 \<Rightarrow> idx_vars \<Rightarrow> idx_vars" where
  "set_idx p v ix = (case p of None \<Rightarrow> ix | Some a \<Rightarrow> ix(a := v))"

definition SWAP_PH_NODE ::
  "'a tt_ptrheap \<Rightarrow> u32 \<Rightarrow> u32 \<Rightarrow> 'a tt_phnode mem \<Rightarrow> idx_vars \<Rightarrow> ('a tt_phnode mem \<times> idx_vars) run" where
  "SWAP_PH_NODE ph a b m ix =
    (if a \<noteq> b then
       bindr (h_node ph m a) (\<lambda>tmp.
       bindr (h_node ph m b) (\<lambda>nb.
       bindr (h_put ph m a nb) (\<lambda>m.
       let ix = set_idx (ph_idx nb) a ix in
       bindr (h_put ph m b tmp) (\<lambda>m.
       Inr (m, set_idx (ph_idx tmp) b ix)))))
     else Inr (m, ix))"

definition COPY_PH_NODE ::
  "'a tt_ptrheap \<Rightarrow> u32 \<Rightarrow> u32 \<Rightarrow> 'a tt_phnode mem \<Rightarrow> idx_vars \<Rightarrow> ('a tt_phnode mem \<times> idx_vars) run" where
  "COPY_PH_NODE ph dst src m ix =
    (if dst \<noteq> src then
       bindr (h_node ph m src) (\<lambda>n.
       bindr (h_put ph m dst n) (\<lambda>m.
       Inr (m, set_idx (ph_idx n) dst ix)))
     else Inr (m, ix))"

section \<open>Restoring the heap order\<close>

text \<open>The position with the greatest pointer among a node and its children, and the \<^verbatim>\<open>make_sub\<close> loop.\<close>

definition ph_max :: "'a tt_ptrheap \<Rightarrow> u32 \<Rightarrow> 'a tt_phnode mem \<Rightarrow> u32 run" where
  "ph_max ph idx m =
    (let l = PH_LEFT idx; r = PH_RIGHT idx in
     bindr (if l < g_count ph then
              bindr (h_node ph m l) (\<lambda>nl. bindr (h_node ph m idx) (\<lambda>ni. Inr (if h_cmp ph (ph_p nl) (ph_p ni) > 0 then l else idx)))
            else Inr idx) (\<lambda>mx.
     if r < g_count ph then
       bindr (h_node ph m r) (\<lambda>nr. bindr (h_node ph m mx) (\<lambda>nm. Inr (if h_cmp ph (ph_p nr) (ph_p nm) > 0 then r else mx)))
     else Inr mx))"

partial_function (option) fix_downward ::
  "'a tt_ptrheap \<Rightarrow> u32 \<Rightarrow> 'a tt_phnode mem \<Rightarrow> idx_vars \<Rightarrow> ('a tt_phnode mem \<times> idx_vars) run option" where
  "fix_downward ph idx m ix =
    (case ph_max ph idx m of
       Inl f \<Rightarrow> Some (Inl f)
     | Inr mx \<Rightarrow>
       if mx \<noteq> idx then
         (case SWAP_PH_NODE ph mx idx m ix of
            Inl f \<Rightarrow> Some (Inl f)
          | Inr s \<Rightarrow> fix_downward ph mx (fst s) (snd s))
       else Some (Inr (m, ix)))"

definition ph_fix_downward ::
  "'a tt_ptrheap \<Rightarrow> u32 \<Rightarrow> 'a tt_phnode mem \<Rightarrow> idx_vars \<Rightarrow> ('a tt_phnode mem \<times> idx_vars) run" where
  "ph_fix_downward ph idx m ix = (case fix_downward ph idx m ix of None \<Rightarrow> Inl Diverge | Some r \<Rightarrow> r)"

lemma parent_less: "idx > 0 \<Longrightarrow> unat (PH_PARENT idx) < unat idx"
proof -
  assume "idx > 0"
  then have "unat (idx - 1) < unat idx" by (simp add: unat_minus_one word_neq_0_conv unat_gt_0)
  moreover have "unat (PH_PARENT idx) = unat (idx - 1) div 2"
    by (simp add: PH_PARENT_def drop_bit_eq_div unat_div_distrib)
  ultimately show ?thesis by linarith
qed

function fix_upward :: "'a tt_ptrheap \<Rightarrow> u32 \<Rightarrow> 'a tt_phnode mem \<Rightarrow> idx_vars \<Rightarrow> ('a tt_phnode mem \<times> idx_vars) run" where
  "fix_upward ph idx m ix =
    (if idx > 0 then
       let parent = PH_PARENT idx in
       bindr (h_node ph m parent) (\<lambda>np.
       bindr (h_node ph m idx) (\<lambda>ni.
       if h_cmp ph (ph_p np) (ph_p ni) \<ge> 0 then Inr (m, ix)
       else bindr (SWAP_PH_NODE ph parent idx m ix) (\<lambda>(m, ix). fix_upward ph parent m ix)))
     else Inr (m, ix))"
  by pat_completeness auto
termination
  by (relation "measure (\<lambda>(ph, idx, m, ix). unat idx)") (simp_all add: parent_less)

declare fix_upward.simps [simp del]

section \<open>Operations\<close>

definition tt_ptrheap_attr_default :: tt_vec_attr where
  "tt_ptrheap_attr_default = \<lparr>min_extent_num = 16, max_extent_num = 128, max_limit_num = 0\<rparr>"

definition tt_ptrheap_init :: "('a :: linorder \<Rightarrow> 'a \<Rightarrow> int) option \<Rightarrow> tt_vec_attr option \<Rightarrow> 'a tt_ptrheap run" where
  "tt_ptrheap_init cmp attr =
    (let attr = (case attr of None \<Rightarrow> tt_ptrheap_attr_default | Some a \<Rightarrow> a) in
     bindr (TT_ASSERT_ALWAYS (\<not> TT_U32_MUL_WOULD_OVFL 16 (min_extent_num attr))) (\<lambda>_.
     bindr (TT_ASSERT_ALWAYS (\<not> TT_U32_MUL_WOULD_OVFL 16 (max_extent_num attr))) (\<lambda>_.
     bindr (TT_ASSERT_ALWAYS (\<not> TT_U32_MUL_WOULD_OVFL 16 (max_limit_num attr))) (\<lambda>_.
     bindr (tt_memspg_init (min_extent_num attr * 16) (max_extent_num attr * 16) (max_limit_num attr * 16)) (\<lambda>mspg.
     Inr \<lparr>g_p = None, g_size = 0, g_mspg = mspg, g_count = 0, g_capacity = 0,
          h_cmp = (case cmp of Some c \<Rightarrow> c | None \<Rightarrow> tt_cmp_ptr)\<rparr>)))))"

definition ptrheap_reserve ::
  "'a tt_ptrheap \<Rightarrow> u32 \<Rightarrow> 'a tt_phnode mem \<Rightarrow> (tt_result \<times> 'a tt_ptrheap \<times> 'a tt_phnode mem) run" where
  "ptrheap_reserve ph count m =
    TT_DO (bindr (tt_memspg_extend 16 (mem_junk m 0 0) (g_mspg ph) (g_p ph) (g_size ph) ((g_capacity ph + count) * 16) m)
             (\<lambda>(r, p, sz, m). Inr (r, ph\<lparr>g_p := p, g_size := sz\<rparr>, m)))
      (\<lambda>(ph, m). Inr (TT_SUCCESS, ph\<lparr>g_capacity := g_size ph div 16\<rparr>, m))"

definition tt_ptrheap_reserve ::
  "'a tt_ptrheap \<Rightarrow> u32 \<Rightarrow> 'a tt_phnode mem \<Rightarrow> (tt_result \<times> 'a tt_ptrheap \<times> 'a tt_phnode mem) run" where
  "tt_ptrheap_reserve ph count m =
    (if g_count ph + count \<le> g_capacity ph then Inr (TT_SUCCESS, ph, m) else ptrheap_reserve ph count m)"

text \<open>The loop of \<^verbatim>\<open>tt_ptrheap_clear\<close> tells every index variable that its node is gone.\<close>

function ph_clear_loop :: "'a tt_ptrheap \<Rightarrow> u32 \<Rightarrow> 'a tt_phnode mem \<Rightarrow> idx_vars \<Rightarrow> idx_vars run" where
  "ph_clear_loop ph i m ix =
    (if i < g_count ph then
       bindr (h_node ph m i) (\<lambda>n. ph_clear_loop ph (i + 1) m (set_idx (ph_idx n) TT_POS_NULL ix))
     else Inr ix)"
  by pat_completeness auto
termination
proof (relation "measure (\<lambda>(ph, i, m, ix). unat (g_count ph) - unat i)")
  fix ph :: "'a tt_ptrheap" and i :: u32 and m :: "'a tt_phnode mem" and ix :: idx_vars and n :: "'a tt_phnode"
  assume "i < g_count ph"
  then have "unat i < unat (g_count ph)" "unat (i + 1) = Suc (unat i)"
    by (simp_all add: word_less_nat_alt unat_suc_u32 [of i "g_count ph"])
  then show "((ph, i + 1, m, set_idx (ph_idx n) TT_POS_NULL ix), ph, i, m, ix) \<in> measure (\<lambda>(ph, i, m, ix). unat (g_count ph) - unat i)"
    by simp
qed simp

declare ph_clear_loop.simps [simp del]

definition tt_ptrheap_clear ::
  "'a tt_ptrheap \<Rightarrow> 'a tt_phnode mem \<Rightarrow> idx_vars \<Rightarrow> ('a tt_ptrheap \<times> idx_vars) run" where
  "tt_ptrheap_clear ph m ix = bindr (ph_clear_loop ph 0 m ix) (\<lambda>ix. Inr (ph\<lparr>g_count := 0\<rparr>, ix))"

definition tt_ptrheap_destroy ::
  "'a tt_ptrheap \<Rightarrow> 'a tt_phnode mem \<Rightarrow> idx_vars \<Rightarrow> ('a tt_ptrheap \<times> 'a tt_phnode mem \<times> idx_vars) run" where
  "tt_ptrheap_destroy ph m ix =
    bindr (tt_ptrheap_clear ph m ix) (\<lambda>(ph, ix).
    if g_p ph \<noteq> None then
      bindr (tt_memspg_compress 16 (g_mspg ph) (g_p ph) (g_size ph) 0 m)
        (\<lambda>(r, p, sz, m). Inr (ph\<lparr>g_p := p, g_size := sz\<rparr>, m, ix))
    else Inr (ph, m, ix))"

definition tt_ptrheap_fix ::
  "'a tt_ptrheap \<Rightarrow> u32 \<Rightarrow> 'a tt_phnode mem \<Rightarrow> idx_vars \<Rightarrow> ('a tt_phnode mem \<times> idx_vars) run" where
  "tt_ptrheap_fix ph idx m ix =
    bindr (TT_ASSERT_ALWAYS (idx < g_count ph)) (\<lambda>_.
    bindr (ph_fix_downward ph idx m ix) (\<lambda>(m, ix). fix_upward ph idx m ix))"

definition tt_ptrheap_add ::
  "'a option \<Rightarrow> ptr \<Rightarrow> 'a tt_ptrheap \<Rightarrow> 'a tt_phnode mem \<Rightarrow> idx_vars
    \<Rightarrow> (tt_result \<times> 'a tt_ptrheap \<times> 'a tt_phnode mem \<times> idx_vars) run" where
  "tt_ptrheap_add p idx ph m ix =
    (case p of None \<Rightarrow> Inr (TT_FAIL, ph, m, ix)
     | Some p \<Rightarrow>
       bindr (tt_ptrheap_reserve ph 1 m) (\<lambda>(r, ph, m).
       if \<not> TT_OK r then Inr (r, ph, m, ix) else
       bindr (h_put ph m (g_count ph) \<lparr>ph_p = p, ph_idx = idx\<rparr>) (\<lambda>m.
       let ix = set_idx idx (g_count ph) ix;
           ph = ph\<lparr>g_count := g_count ph + 1\<rparr> in
       bindr (fix_upward ph (g_count ph - 1) m ix) (\<lambda>(m, ix).
       Inr (TT_SUCCESS, ph, m, ix)))))"

definition tt_ptrheap_remove ::
  "'a tt_ptrheap \<Rightarrow> u32 \<Rightarrow> 'a tt_phnode mem \<Rightarrow> idx_vars \<Rightarrow> ('a tt_ptrheap \<times> 'a tt_phnode mem \<times> idx_vars) run" where
  "tt_ptrheap_remove ph idx m ix =
    bindr (TT_ASSERT_ALWAYS (idx < g_count ph)) (\<lambda>_.
    bindr (h_node ph m idx) (\<lambda>n.
    let ix = set_idx (ph_idx n) TT_POS_NULL ix;
        ph = ph\<lparr>g_count := g_count ph - 1\<rparr> in
    if idx \<noteq> g_count ph then
      bindr (COPY_PH_NODE ph idx (g_count ph) m ix) (\<lambda>(m, ix).
      bindr (ph_fix_downward ph idx m ix) (\<lambda>(m, ix).
      bindr (fix_upward ph idx m ix) (\<lambda>(m, ix).
      Inr (ph, m, ix))))
    else Inr (ph, m, ix)))"

function ph_contain_loop :: "'a tt_ptrheap \<Rightarrow> 'a \<Rightarrow> u32 \<Rightarrow> 'a tt_phnode mem \<Rightarrow> bool run" where
  "ph_contain_loop ph p i m =
    (if i < g_count ph then
       bindr (h_node ph m i) (\<lambda>n. if h_cmp ph (ph_p n) p = 0 then Inr True else ph_contain_loop ph p (i + 1) m)
     else Inr False)"
  by pat_completeness auto
termination
proof (relation "measure (\<lambda>(ph, p, i, m). unat (g_count ph) - unat i)")
  fix ph :: "'a tt_ptrheap" and p :: 'a and i :: u32 and m :: "'a tt_phnode mem" and n :: "'a tt_phnode"
  assume "i < g_count ph"
  then have "unat i < unat (g_count ph)" "unat (i + 1) = Suc (unat i)"
    by (simp_all add: word_less_nat_alt unat_suc_u32 [of i "g_count ph"])
  then show "((ph, p, i + 1, m), ph, p, i, m) \<in> measure (\<lambda>(ph, p, i, m). unat (g_count ph) - unat i)"
    by simp
qed simp

declare ph_contain_loop.simps [simp del]

definition tt_ptrheap_contain :: "'a tt_ptrheap \<Rightarrow> 'a \<Rightarrow> 'a tt_phnode mem \<Rightarrow> bool run" where
  "tt_ptrheap_contain ph p m = ph_contain_loop ph p 0 m"

definition tt_ptrheap_pop ::
  "'a tt_ptrheap \<Rightarrow> 'a tt_phnode mem \<Rightarrow> idx_vars \<Rightarrow> ('a option \<times> 'a tt_ptrheap \<times> 'a tt_phnode mem \<times> idx_vars) run" where
  "tt_ptrheap_pop ph m ix =
    (if g_count ph = 0 then Inr (None, ph, m, ix) else
     bindr (h_node ph m 0) (\<lambda>n.
     bindr (tt_ptrheap_remove ph 0 m ix) (\<lambda>(ph, m, ix).
     Inr (Some (ph_p n), ph, m, ix))))"

definition tt_ptrheap_head :: "'a tt_ptrheap \<Rightarrow> 'a tt_phnode mem \<Rightarrow> 'a option run" where
  "tt_ptrheap_head ph m = (if g_count ph = 0 then Inr None else bindr (h_node ph m 0) (\<lambda>n. Inr (Some (ph_p n))))"

definition tt_ptrheap_count :: "'a tt_ptrheap \<Rightarrow> u32" where "tt_ptrheap_count ph = g_count ph"

definition tt_ptrheap_empty :: "'a tt_ptrheap \<Rightarrow> bool" where "tt_ptrheap_empty ph \<longleftrightarrow> tt_ptrheap_count ph = 0"

end
