(* ===== verification/TT_Heap_Order.thy ===== *)
theory TT_Heap_Order
  imports TT_Vector "HOL-Library.Multiset"
begin

text \<open>
  What the containers rely on of a comparison function (\<^verbatim>\<open>tt_cmp_t\<close>), and the heap order of a list
  laid out as a binary tree: the effect of exchanging a node with its parent or with its greater child.
\<close>

section \<open>Comparison functions\<close>

locale cmp_order =
  fixes cmp :: "'a \<Rightarrow> 'a \<Rightarrow> int"
  assumes sign: "cmp a b < 0 \<longleftrightarrow> 0 < cmp b a"
    and le_trans: "cmp a b \<le> 0 \<Longrightarrow> cmp b c \<le> 0 \<Longrightarrow> cmp a c \<le> 0"
begin

lemma flip: "0 \<le> cmp a b \<longleftrightarrow> cmp b a \<le> 0"
  using sign [of a b] by linarith

lemma le_refl: "cmp a a \<le> 0"
  using sign [of a a] by linarith

lemma le_total: "0 < cmp a b \<Longrightarrow> cmp b a \<le> 0"
  using sign [of b a] by linarith

end

interpretation ptr_order: cmp_order "tt_cmp_ptr :: 'a :: linorder \<Rightarrow> 'a \<Rightarrow> int"
  by unfold_locales (auto simp: tt_cmp_ptr_def split: if_splits)

interpretation u32_order: cmp_order tt_cmp_u32
  by unfold_locales (auto simp: tt_cmp_u32_def split: if_splits)

section \<open>Trees in lists\<close>

definition hparent :: "nat \<Rightarrow> nat" where "hparent i = (i - 1) div 2"

definition swapl :: "'b list \<Rightarrow> nat \<Rightarrow> nat \<Rightarrow> 'b list" where
  "swapl xs a b = xs[a := xs ! b, b := xs ! a]"

lemma length_swapl [simp]: "length (swapl xs a b) = length xs"
  by (simp add: swapl_def)

lemma mset_swapl: "a < length xs \<Longrightarrow> b < length xs \<Longrightarrow> mset (swapl xs a b) = mset xs"
  unfolding swapl_def by (rule mset_swap)

lemma nth_swapl:
  "a < length xs \<Longrightarrow> b < length xs \<Longrightarrow> swapl xs a b ! k = (if k = a then xs ! b else if k = b then xs ! a else xs ! k)"
  by (auto simp: swapl_def nth_list_update)

lemma map_swapl: "a < length xs \<Longrightarrow> b < length xs \<Longrightarrow> map f (swapl xs a b) = swapl (map f xs) a b"
  by (simp add: swapl_def map_update)

lemma hparent_less: "0 < k \<Longrightarrow> hparent k < k"
  by (simp add: hparent_def)

lemma hparent_eq_iff: "0 < k \<Longrightarrow> hparent k = i \<longleftrightarrow> k = 2 * i + 1 \<or> k = 2 * i + 2"
  unfolding hparent_def by presburger

context cmp_order
begin

definition below :: "'a list \<Rightarrow> nat \<Rightarrow> nat \<Rightarrow> bool" where
  "below ks k j \<longleftrightarrow> cmp (ks ! k) (ks ! j) \<le> 0"

definition heap :: "'a list \<Rightarrow> bool" where
  "heap ks \<longleftrightarrow> (\<forall>k. 0 < k \<and> k < length ks \<longrightarrow> below ks k (hparent k))"

text \<open>Only the node \<open>i\<close> may be greater than its parent.\<close>

definition up_inv :: "'a list \<Rightarrow> nat \<Rightarrow> bool" where
  "up_inv ks i \<longleftrightarrow> (\<forall>k. 0 < k \<and> k < length ks \<and> k \<noteq> i \<longrightarrow> below ks k (hparent k))
     \<and> (0 < i \<longrightarrow> (\<forall>k. 0 < k \<and> k < length ks \<and> hparent k = i \<longrightarrow> below ks k (hparent i)))"

text \<open>Only the children of \<open>j\<close> may be greater than it.\<close>

definition down_inv :: "'a list \<Rightarrow> nat \<Rightarrow> bool" where
  "down_inv ks j \<longleftrightarrow> (\<forall>k. 0 < k \<and> k < length ks \<and> hparent k \<noteq> j \<longrightarrow> below ks k (hparent k))
     \<and> (0 < j \<longrightarrow> (\<forall>k. 0 < k \<and> k < length ks \<and> hparent k = j \<longrightarrow> below ks k (hparent j)))"

text \<open>An arbitrary key was put at \<open>j\<close>.\<close>

definition free_at :: "'a list \<Rightarrow> nat \<Rightarrow> bool" where
  "free_at ks j \<longleftrightarrow> (\<forall>k. 0 < k \<and> k < length ks \<and> k \<noteq> j \<and> hparent k \<noteq> j \<longrightarrow> below ks k (hparent k))
     \<and> (0 < j \<longrightarrow> (\<forall>k. 0 < k \<and> k < length ks \<and> hparent k = j \<longrightarrow> below ks k (hparent j)))"

lemma below_trans: "below ks a b \<Longrightarrow> below ks b c \<Longrightarrow> below ks a c"
  unfolding below_def by (rule le_trans)

lemma down_inv_free: "down_inv ks j \<Longrightarrow> free_at ks j"
  by (simp add: down_inv_def free_at_def)

lemma up_step:
  assumes inv: "up_inv ks i" and i: "0 < i" "i < length ks" and gt: "\<not> 0 \<le> cmp (ks ! hparent i) (ks ! i)"
  shows "up_inv (swapl ks (hparent i) i) (hparent i)"
proof -
  let ?p = "hparent i" and ?ks = "swapl ks (hparent i) i"
  have p: "?p < i" using i(1) by (rule hparent_less)
  have nth: "?ks ! k = (if k = ?p then ks ! i else if k = i then ks ! ?p else ks ! k)" for k
    using i p by (simp add: nth_swapl)
  have pi: "below ks ?p i" using gt by (simp add: below_def)
  have ok: "below ks k (hparent k)" if "0 < k" "k < length ks" "k \<noteq> i" for k using inv that by (simp add: up_inv_def)
  have ch: "below ks k ?p" if "0 < k" "k < length ks" "hparent k = i" for k using inv that i(1) by (simp add: up_inv_def)
  have "below ?ks k (hparent k)" if k: "0 < k" "k < length ks" "k \<noteq> ?p" for k
  proof -
    consider "k = i" | "k \<noteq> i" "hparent k = i" | "k \<noteq> i" "hparent k = ?p" | "k \<noteq> i" "hparent k \<noteq> i" "hparent k \<noteq> ?p" by blast
    then show ?thesis
    proof cases
      case 1
      then show ?thesis using pi p by (simp add: below_def nth)
    next
      case 2
      then show ?thesis using ch [OF k(1,2)] k p by (simp add: below_def nth)
    next
      case 3
      then show ?thesis using below_trans [OF ok [OF k(1,2)]] pi k p by (simp add: below_def nth)
    next
      case 4
      then show ?thesis using ok [OF k(1,2)] k by (simp add: below_def nth)
    qed
  qed
  moreover have "below ?ks k (hparent ?p)" if k: "0 < ?p" "0 < k" "k < length ks" "hparent k = ?p" for k
  proof -
    have pp: "hparent ?p < ?p" using k(1) by (rule hparent_less)
    have "below ks ?p (hparent ?p)" using ok [of ?p] k(1) p i(2) by simp
    moreover have "k \<noteq> i \<Longrightarrow> below ks k ?p" using ok [of k] k by simp
    ultimately show ?thesis
      using below_trans [of ks k ?p "hparent ?p"] hparent_less [OF k(2)] k(4) p pp by (auto simp: below_def nth)
  qed
  ultimately show ?thesis by (simp add: up_inv_def)
qed

lemma up_done: "up_inv ks i \<Longrightarrow> i = 0 \<or> 0 \<le> cmp (ks ! hparent i) (ks ! i) \<Longrightarrow> heap ks"
  unfolding up_inv_def heap_def below_def flip by (metis less_irrefl)

lemma heap_up_inv:
  assumes "heap ks" "i < length ks"
  shows "up_inv ks i"
proof -
  have h: "below ks k (hparent k)" if "0 < k" "k < length ks" for k using assms(1) that by (simp add: heap_def)
  have "below ks k (hparent i)" if "0 < i" "0 < k" "k < length ks" "hparent k = i" for k
    using below_trans [of ks k i "hparent i"] h [of k] h [of i] that assms(2) by simp
  with h show ?thesis by (simp add: up_inv_def)
qed

lemma down_step:
  assumes inv: "free_at ks j" and c: "0 < c" "c < length ks" "hparent c = j" and jc: "below ks j c"
    and max: "\<And>k. 0 < k \<Longrightarrow> k < length ks \<Longrightarrow> hparent k = j \<Longrightarrow> below ks k c"
  shows "down_inv (swapl ks c j) c"
proof -
  let ?ks = "swapl ks c j"
  have j: "j < c" using hparent_less [OF c(1)] c(3) by simp
  have nth: "?ks ! k = (if k = c then ks ! j else if k = j then ks ! c else ks ! k)" for k
    using c j by (simp add: nth_swapl)
  have ok: "below ks k (hparent k)" if "0 < k" "k < length ks" "k \<noteq> j" "hparent k \<noteq> j" for k
    using inv that by (simp add: free_at_def)
  have "below ?ks k (hparent k)" if k: "0 < k" "k < length ks" "hparent k \<noteq> c" for k
  proof -
    consider "k = c" | "k = j" | "k \<noteq> c" "k \<noteq> j" "hparent k = j" | "k \<noteq> c" "k \<noteq> j" "hparent k \<noteq> j" by blast
    then show ?thesis
    proof cases
      case 1
      then show ?thesis using jc j c(3) by (simp add: below_def nth)
    next
      case 2
      then have "below ks c (hparent j)" using inv c k(1) by (simp add: free_at_def)
      then show ?thesis using 2 k hparent_less [OF k(1)] j by (simp add: below_def nth)
    next
      case 3
      then show ?thesis using max [OF k(1,2)] j by (simp add: below_def nth)
    next
      case 4
      then show ?thesis using ok [OF k(1,2)] k(3) by (simp add: below_def nth)
    qed
  qed
  moreover have "below ?ks k (hparent c)" if k: "0 < k" "k < length ks" "hparent k = c" for k
  proof -
    have "c < k" using hparent_less [OF k(1)] k(3) by simp
    then show ?thesis using ok [OF k(1,2)] k(3) c(3) j by (simp add: below_def nth)
  qed
  ultimately show ?thesis by (simp add: down_inv_def)
qed

lemma down_done:
  assumes "down_inv ks j" "\<And>k. 0 < k \<Longrightarrow> k < length ks \<Longrightarrow> hparent k = j \<Longrightarrow> below ks k j"
  shows "heap ks"
  using assms unfolding down_inv_def heap_def by metis

lemma free_done:
  assumes "free_at ks j" "\<And>k. 0 < k \<Longrightarrow> k < length ks \<Longrightarrow> hparent k = j \<Longrightarrow> below ks k j"
  shows "up_inv ks j"
  using assms unfolding free_at_def up_inv_def by metis

text \<open>The root of a heap is greatest.\<close>

lemma heap_root: "heap ks \<Longrightarrow> k < length ks \<Longrightarrow> below ks k 0"
proof (induction k rule: less_induct)
  case (less k)
  show ?case
  proof (cases "k = 0")
    case True
    then show ?thesis by (simp add: below_def le_refl)
  next
    case False
    then have "below ks k (hparent k)" using less.prems by (simp add: heap_def)
    moreover have "below ks (hparent k) 0" using less.IH [of "hparent k"] less.prems hparent_less [of k] False by simp
    ultimately show ?thesis by (rule below_trans)
  qed
qed

text \<open>Appending a key, and putting the last key in the place of another.\<close>

lemma snoc_up_inv:
  assumes h: "heap ks"
  shows "up_inv (ks @ [x]) (length ks)"
proof -
  have "below (ks @ [x]) k (hparent k)" if k: "0 < k" "k < length ks" for k
    using h k hparent_less [OF k(1)] by (simp add: heap_def below_def nth_append)
  moreover have "hparent k \<noteq> length ks" if "0 < k" "k \<le> length ks" for k
    using hparent_less [OF that(1)] that(2) by simp
  ultimately show ?thesis by (auto simp: up_inv_def less_Suc_eq_le)
qed

lemma put_free_at:
  assumes h: "heap ks" and i: "i < n" "n < length ks" and x: "ks' = (take n ks)[i := x]"
  shows "free_at ks' i"
proof -
  have l: "length ks' = n" using i x by simp
  have nth: "ks' ! k = ks ! k" if "k < n" "k \<noteq> i" for k using that i x by simp
  have ok: "below ks k (hparent k)" if "0 < k" "k < length ks" for k using h that by (simp add: heap_def)
  have a: "below ks' k (hparent k)" if k: "0 < k" "k < n" "k \<noteq> i" "hparent k \<noteq> i" for k
    using ok [of k] k nth [of k] nth [of "hparent k"] hparent_less [OF k(1)] i(2) by (simp add: below_def)
  have b: "below ks' k (hparent i)" if k: "0 < i" "0 < k" "k < n" "hparent k = i" for k
  proof -
    have "i < k" using hparent_less [OF k(2)] k(4) by simp
    moreover have "hparent i < i" using k(1) by (rule hparent_less)
    moreover have "below ks k (hparent i)" using below_trans [of ks k i "hparent i"] ok [of k] ok [of i] k i by simp
    ultimately show ?thesis using nth [of k] nth [of "hparent i"] k(3) i(1) by (simp add: below_def)
  qed
  show ?thesis using a b by (simp add: free_at_def l)
qed

lemma heap_butlast: "heap ks \<Longrightarrow> n \<le> length ks \<Longrightarrow> heap (take n ks)"
  unfolding heap_def below_def by (auto simp: hparent_def)

lemma heap_Nil: "heap []"
  by (simp add: heap_def)

end

end
