(* ===== verification/TT_PtrHeap_Inv.thy ===== *)
theory TT_PtrHeap_Inv
  imports TT_PtrHeap TT_Heap_Order TT_Vector_Move
begin

text \<open>
  The heap of pointers keeps the heap order, the multiset of its nodes and the callers' index
  variables: every loop ends, and afterwards each variable holds the position of its node.
\<close>

section \<open>Nodes\<close>

abbreviation heap_arr :: "'a tt_ptrheap \<Rightarrow> 'a tt_phnode mem \<Rightarrow> bool" where
  "heap_arr ph m \<equiv> arr_inv 16 ph m"

abbreviation nodes :: "'a tt_ptrheap \<Rightarrow> 'a tt_phnode mem \<Rightarrow> 'a tt_phnode list" where
  "nodes ph m \<equiv> arr_items ph m"

abbreviation keys :: "'a tt_ptrheap \<Rightarrow> 'a tt_phnode mem \<Rightarrow> 'a list" where
  "keys ph m \<equiv> map ph_p (arr_items ph m)"

lemma h_node_ok:
  assumes inv: "heap_arr ph m" and i: "unat i < unat (g_capacity ph)"
  shows "h_node ph m i = Inr (arr_cells ph m ! unat i)"
proof -
  have "unat i + 1 \<le> length (arr_cells ph m)" using i arr_invD(4) [OF inv] by simp
  from arr_load [OF inv this] i show ?thesis
    using arr_invD(4) [OF inv] by (simp add: h_node_def take_Suc hd_drop_conv_nth)
qed

lemma h_node_item:
  assumes inv: "heap_arr ph m" and i: "unat i < unat (g_count ph)"
  shows "h_node ph m i = Inr (nodes ph m ! unat i)"
  using h_node_ok [OF inv, of i] i arr_invD(5) [OF inv] by (simp add: arr_items_def)

lemma h_put_ok:
  assumes inv: "heap_arr ph m" and i: "unat i < unat (g_capacity ph)"
  obtains m' where "h_put ph m i n = Inr m'" "heap_arr ph m'"
    "arr_cells ph m' = (arr_cells ph m)[unat i := n]" "owns_step (arr_own ph) m (arr_own ph) m'"
proof -
  have le: "unat i + length [n] \<le> length (arr_cells ph m)" using i arr_invD(4) [OF inv] by simp
  with inv obtain m' where "mem_store (unat (16 :: u32)) m (g_p ph) (unat (16 :: u32) * unat i) [n] = Inr m'" "heap_arr ph m'"
    "arr_cells ph m' = overwrite (unat i) [n] (arr_cells ph m)" "owns_step (arr_own ph) m (arr_own ph) m'" by (rule arr_store)
  with that le show thesis by (simp add: h_put_def overwrite_single)
qed

section \<open>Index variables\<close>

text \<open>Every index variable of a node holds the node's position; so no two nodes share one.\<close>

definition tracks :: "'a tt_phnode list \<Rightarrow> idx_vars \<Rightarrow> bool" where
  "tracks ns ix \<longleftrightarrow> (\<forall>k < length ns. \<forall>x. ph_idx (ns ! k) = Some x \<longrightarrow> unat (ix x) = k)"

definition idxs :: "'a tt_phnode list \<Rightarrow> nat set" where
  "idxs ns = {x. \<exists>n \<in> set ns. ph_idx n = Some x}"

lemma idxs_mset: "mset ns = mset ns' \<Longrightarrow> idxs ns = idxs ns'"
  unfolding idxs_def by (metis set_mset_mset)

lemma set_idx_same: "(p = Some x \<Longrightarrow> set_idx p v ix x = v)" "(p \<noteq> Some x \<Longrightarrow> set_idx p v ix x = ix x)"
  by (auto simp: set_idx_def split: option.split)

text \<open>What a rearrangement of the nodes keeps.\<close>

definition h_keeps :: "'a tt_ptrheap \<Rightarrow> 'a tt_phnode mem \<Rightarrow> idx_vars \<Rightarrow> 'a tt_phnode mem \<Rightarrow> idx_vars \<Rightarrow> bool" where
  "h_keeps ph m ix m' ix' \<longleftrightarrow> heap_arr ph m' \<and> mset (nodes ph m') = mset (nodes ph m)
     \<and> owns_step (arr_own ph) m (arr_own ph) m' \<and> (\<forall>x. x \<notin> idxs (nodes ph m) \<longrightarrow> ix' x = ix x)
     \<and> (tracks (nodes ph m) ix \<longrightarrow> tracks (nodes ph m') ix')"

lemma h_keeps_refl: "heap_arr ph m \<Longrightarrow> h_keeps ph m ix m ix"
  by (simp add: h_keeps_def owns_refl)

lemma h_keeps_trans: "h_keeps ph m ix m1 ix1 \<Longrightarrow> h_keeps ph m1 ix1 m2 ix2 \<Longrightarrow> h_keeps ph m ix m2 ix2"
  using idxs_mset [of "nodes ph m1" "nodes ph m"] unfolding h_keeps_def by (metis owns_trans)

lemma swap_tracks:
  assumes "tracks ns ix" "unat a < length ns" "unat b < length ns" "a \<noteq> b"
  shows "tracks (swapl ns (unat a) (unat b)) (set_idx (ph_idx (ns ! unat a)) b (set_idx (ph_idx (ns ! unat b)) a ix))"
proof -
  have ab: "unat a \<noteq> unat b" using assms(4) by (simp add: word_unat_eq_iff)
  have uniq: "k = l" if "k < length ns" "l < length ns" "ph_idx (ns ! k) = Some x" "ph_idx (ns ! l) = Some x" for k l x
    using assms(1) that unfolding tracks_def by metis
  have at: "unat (ix x) = k" if "k < length ns" "ph_idx (ns ! k) = Some x" for k x
    using assms(1) that unfolding tracks_def by metis
  show ?thesis
    unfolding tracks_def
  proof (intro allI impI)
    fix k x
    assume k: "k < length (swapl ns (unat a) (unat b))" and x: "ph_idx (swapl ns (unat a) (unat b) ! k) = Some x"
    consider "k = unat a" | "k = unat b" "k \<noteq> unat a" | "k \<noteq> unat a" "k \<noteq> unat b" by blast
    then show "unat (set_idx (ph_idx (ns ! unat a)) b (set_idx (ph_idx (ns ! unat b)) a ix) x) = k"
    proof cases
      case 1
      then have xb: "ph_idx (ns ! unat b) = Some x" using x assms(2,3) by (simp add: nth_swapl)
      then have "ph_idx (ns ! unat a) \<noteq> Some x" using uniq [OF assms(2,3)] ab by blast
      with xb 1 show ?thesis by (simp add: set_idx_same)
    next
      case 2
      then have "ph_idx (ns ! unat a) = Some x" using x assms(2,3) by (simp add: nth_swapl)
      with 2 show ?thesis by (simp add: set_idx_same)
    next
      case 3
      then have xk: "ph_idx (ns ! k) = Some x" using x assms(2,3) by (simp add: nth_swapl)
      have kn: "k < length ns" using k by simp
      have "ph_idx (ns ! unat a) \<noteq> Some x" "ph_idx (ns ! unat b) \<noteq> Some x"
        using uniq [OF kn assms(2) xk] uniq [OF kn assms(3) xk] 3 by blast+
      with at [OF kn xk] show ?thesis by (simp add: set_idx_same)
    qed
  qed
qed

lemma swap_ok:
  assumes inv: "heap_arr ph m" and a: "unat a < unat (g_count ph)" and b: "unat b < unat (g_count ph)" and ne: "a \<noteq> b"
  obtains m' ix' where "SWAP_PH_NODE ph a b m ix = Inr (m', ix')" "nodes ph m' = swapl (nodes ph m) (unat a) (unat b)"
    "h_keeps ph m ix m' ix'"
proof -
  note D = arr_invD [OF inv]
  let ?ns = "nodes ph m"
  have la: "unat a < length ?ns" "unat b < length ?ns" using a b D(9) by simp_all
  have ca: "unat a < unat (g_capacity ph)" "unat b < unat (g_capacity ph)" using a b D(5) by simp_all
  from inv ca(1) obtain m1 where m1: "h_put ph m a (?ns ! unat b) = Inr m1" "heap_arr ph m1"
    "arr_cells ph m1 = (arr_cells ph m)[unat a := ?ns ! unat b]" "owns_step (arr_own ph) m (arr_own ph) m1" by (rule h_put_ok)
  from m1(2) ca(2) obtain m2 where m2: "h_put ph m1 b (?ns ! unat a) = Inr m2" "heap_arr ph m2"
    "arr_cells ph m2 = (arr_cells ph m1)[unat b := ?ns ! unat a]" "owns_step (arr_own ph) m1 (arr_own ph) m2" by (rule h_put_ok)
  let ?ix = "set_idx (ph_idx (?ns ! unat a)) b (set_idx (ph_idx (?ns ! unat b)) a ix)"
  have s: "SWAP_PH_NODE ph a b m ix = Inr (m2, ?ix)"
    using ne h_node_item [OF inv a] h_node_item [OF inv b] m1(1) m2(1) by (simp add: SWAP_PH_NODE_def Let_def)
  have it: "nodes ph m2 = swapl ?ns (unat a) (unat b)"
    using m1(3) m2(3) by (simp add: swapl_def arr_items_def take_update_swap)
  have "ph_idx (?ns ! unat a) \<noteq> Some x \<and> ph_idx (?ns ! unat b) \<noteq> Some x" if "x \<notin> idxs ?ns" for x
    using that la by (auto simp: idxs_def)
  then have "\<forall>x. x \<notin> idxs ?ns \<longrightarrow> ?ix x = ix x" by (simp add: set_idx_same)
  moreover have "mset (nodes ph m2) = mset ?ns" unfolding it using la by (rule mset_swapl)
  moreover have "tracks ?ns ix \<longrightarrow> tracks (nodes ph m2) ?ix" unfolding it using swap_tracks [OF _ la ne] by blast
  ultimately have "h_keeps ph m ix m2 ?ix"
    using m2(2) owns_trans [OF m1(4) m2(4)] by (simp add: h_keeps_def)
  with that s it show thesis by blast
qed

section \<open>Upwards\<close>

lemma unat_parent: "idx > 0 \<Longrightarrow> unat (PH_PARENT idx) = hparent (unat idx)"
  by (simp add: PH_PARENT_def hparent_def drop_bit_eq_div unat_div_distrib unat_minus_one word_neq_0_conv)

lemma fix_upward_ok:
  assumes "cmp_order (h_cmp ph)" "heap_arr ph m" "unat idx < unat (g_count ph)" "cmp_order.up_inv (h_cmp ph) (keys ph m) (unat idx)"
  shows "\<exists>m' ix'. fix_upward ph idx m ix = Inr (m', ix') \<and> h_keeps ph m ix m' ix' \<and> cmp_order.heap (h_cmp ph) (keys ph m')"
  using assms
proof (induction ph idx m ix rule: fix_upward.induct)
  case (1 ph idx m ix)
  note cmp = 1(2) and inv = 1(3) and lt = 1(4) and up = 1(5)
  note D = arr_invD [OF inv]
  let ?ks = "keys ph m" and ?p = "PH_PARENT idx"
  have lk: "length ?ks = unat (g_count ph)" using D(9) by simp
  show ?case
  proof (cases "idx > 0")
    case False
    then have "idx = 0" using word_neq_0_conv by blast
    with cmp_order.up_done [OF cmp up] h_keeps_refl [OF inv] show ?thesis
      by (subst fix_upward.simps) simp
  next
    case pos: True
    then have p: "unat ?p = hparent (unat idx)" "hparent (unat idx) < unat idx" "0 < unat idx"
      using unat_parent [OF pos] parent_less [OF pos] by (simp_all add: unat_gt_0 word_neq_0_conv)
    then have pl: "unat ?p < unat (g_count ph)" using lt by simp
    have nn: "h_node ph m ?p = Inr (nodes ph m ! unat ?p)" "h_node ph m idx = Inr (nodes ph m ! unat idx)"
      using h_node_item [OF inv pl] h_node_item [OF inv lt] by simp_all
    have key: "ph_p (nodes ph m ! unat ?p) = ?ks ! hparent (unat idx)" "ph_p (nodes ph m ! unat idx) = ?ks ! unat idx"
      using pl lt p(1) D(9) by simp_all
    show ?thesis
    proof (cases "0 \<le> h_cmp ph (?ks ! hparent (unat idx)) (?ks ! unat idx)")
      case True
      with cmp_order.up_done [OF cmp up] h_keeps_refl [OF inv] nn key pos show ?thesis
        by (subst fix_upward.simps) (simp add: Let_def)
    next
      case False
      have ne: "?p \<noteq> idx" using p by auto
      from inv pl lt ne obtain m1 ix1 where s: "SWAP_PH_NODE ph ?p idx m ix = Inr (m1, ix1)"
        "nodes ph m1 = swapl (nodes ph m) (unat ?p) (unat idx)" "h_keeps ph m ix m1 ix1" by (rule swap_ok)
      have k1: "keys ph m1 = swapl ?ks (hparent (unat idx)) (unat idx)"
        using s(2) pl lt D(9) p(1) by (simp add: map_swapl)
      have "cmp_order.up_inv (h_cmp ph) (keys ph m1) (unat ?p)"
        unfolding k1 p(1) using up p(3) lt lk False by (intro cmp_order.up_step [OF cmp]) simp_all
      moreover have "heap_arr ph m1" using s(3) by (simp add: h_keeps_def)
      moreover have nle: "\<not> 0 \<le> h_cmp ph (ph_p (nodes ph m ! unat ?p)) (ph_p (nodes ph m ! unat idx))" using False key by simp
      ultimately obtain m' ix' where r: "fix_upward ph ?p m1 ix1 = Inr (m', ix')" "h_keeps ph m1 ix1 m' ix'"
        "cmp_order.heap (h_cmp ph) (keys ph m')"
        using 1(1) [OF pos refl nle cmp _ pl] by blast
      have "fix_upward ph idx m ix = Inr (m', ix')"
        using pos nn nle s(1) r(1) by (subst fix_upward.simps) (simp add: Let_def)
      with r h_keeps_trans [OF s(3) r(2)] show ?thesis by blast
    qed
  qed
qed

section \<open>Downwards\<close>

text \<open>Fewer than \<open>2 ^ 28\<close> nodes fit 32 bits of bytes, so that the positions of children do not wrap.\<close>

lemma heap_small:
  assumes "heap_arr ph m"
  shows "unat (g_count ph) < 2 ^ 28"
proof -
  have "16 * unat (g_capacity ph) < 4294967296" using arr_invD(6) [OF assms] unat_lt_32 [of "g_size ph"] by simp
  then show ?thesis using arr_invD(5) [OF assms] by simp
qed

lemma unat_children:
  fixes i :: u32
  assumes "unat i < 2 ^ 28"
  shows "unat (PH_LEFT i) = 2 * unat i + 1" "unat (PH_RIGHT i) = 2 * unat i + 2"
proof -
  have d: "unat (push_bit 1 i) = 2 * unat i" using assms by (intro unat_double_u32) simp
  then show "unat (PH_LEFT i) = 2 * unat i + 1" "unat (PH_RIGHT i) = 2 * unat i + 2"
    using assms unat_add_u32 [of "push_bit 1 i" 1] unat_add_u32 [of "push_bit 1 i" 2]
    by (simp_all add: PH_LEFT_def PH_RIGHT_def)
qed

lemma ph_max_ok:
  assumes cmp: "cmp_order (h_cmp ph)" and inv: "heap_arr ph m" and lt: "unat idx < unat (g_count ph)"
  obtains mx where "ph_max ph idx m = Inr mx" "unat mx < unat (g_count ph)"
    "mx = idx \<or> 0 < unat mx \<and> hparent (unat mx) = unat idx \<and> cmp_order.below (h_cmp ph) (keys ph m) (unat idx) (unat mx)"
    "\<forall>k. 0 < k \<and> k < length (keys ph m) \<and> hparent k = unat idx \<longrightarrow> cmp_order.below (h_cmp ph) (keys ph m) k (unat mx)"
proof -
  note D = arr_invD [OF inv] and bd = cmp_order.below_def [OF cmp]
  let ?ks = "keys ph m" and ?l = "PH_LEFT idx" and ?r = "PH_RIGHT idx" and ?n = "unat (g_count ph)"
  have ch: "unat ?l = 2 * unat idx + 1" "unat ?r = 2 * unat idx + 2"
    using unat_children [of idx] heap_small [OF inv] lt by simp_all
  have node: "h_node ph m i = Inr (nodes ph m ! unat i)" "ph_p (nodes ph m ! unat i) = ?ks ! unat i" if "unat i < ?n" for i
    using h_node_item [OF inv that] that D(9) by simp_all
  have kid: "hparent k = unat idx \<longleftrightarrow> k = unat ?l \<or> k = unat ?r" if "0 < k" for k
    using hparent_eq_iff [OF that] ch by simp
  define mx1 where "mx1 = (if ?l < g_count ph \<and> 0 < h_cmp ph (?ks ! unat ?l) (?ks ! unat idx) then ?l else idx)"
  define mx where "mx = (if ?r < g_count ph \<and> 0 < h_cmp ph (?ks ! unat ?r) (?ks ! unat mx1) then ?r else mx1)"
  have m1: "unat mx1 < ?n" using lt by (simp add: mx1_def word_less_nat_alt)
  have "ph_max ph idx m = Inr mx"
    using node [OF lt] node [OF m1] node [of ?l] node [of ?r]
    by (auto simp: ph_max_def Let_def mx_def mx1_def word_less_nat_alt)
  moreover have "unat mx < ?n" using m1 by (simp add: mx_def word_less_nat_alt)
  moreover have b1: "cmp_order.below (h_cmp ph) ?ks (unat idx) (unat mx1)"
    "unat ?l < ?n \<Longrightarrow> cmp_order.below (h_cmp ph) ?ks (unat ?l) (unat mx1)"
    using cmp_order.le_total [OF cmp] cmp_order.le_refl [OF cmp] by (auto simp: mx1_def bd word_less_nat_alt)
  moreover have b2: "cmp_order.below (h_cmp ph) ?ks (unat mx1) (unat mx)"
    "unat ?r < ?n \<Longrightarrow> cmp_order.below (h_cmp ph) ?ks (unat ?r) (unat mx)"
    using cmp_order.le_total [OF cmp] cmp_order.le_refl [OF cmp] by (auto simp: mx_def bd word_less_nat_alt)
  moreover note tr = cmp_order.below_trans [OF cmp]
  moreover have "mx = idx \<or> 0 < unat mx \<and> hparent (unat mx) = unat idx"
    using ch kid by (auto simp: mx_def mx1_def)
  moreover have "\<forall>k. 0 < k \<and> k < length ?ks \<and> hparent k = unat idx \<longrightarrow> cmp_order.below (h_cmp ph) ?ks k (unat mx)"
    using kid b1(2) b2 tr D(9) by auto
  ultimately show thesis using that tr [OF b1(1) b2(1)] by blast
qed

lemma fix_downward_ok:
  assumes cmp: "cmp_order (h_cmp ph)" and inv: "heap_arr ph m" and lt: "unat idx < unat (g_count ph)"
    and dn: "cmp_order.down_inv (h_cmp ph) (keys ph m) (unat idx)"
  shows "\<exists>m' ix'. fix_downward ph idx m ix = Some (Inr (m', ix')) \<and> h_keeps ph m ix m' ix' \<and> cmp_order.heap (h_cmp ph) (keys ph m')"
  using inv lt dn
proof (induction "unat (g_count ph) - unat idx" arbitrary: idx m ix rule: less_induct)
  case less
  note D = arr_invD [OF less(2)]
  obtain mx where mx: "ph_max ph idx m = Inr mx" "unat mx < unat (g_count ph)"
    "mx = idx \<or> 0 < unat mx \<and> hparent (unat mx) = unat idx \<and> cmp_order.below (h_cmp ph) (keys ph m) (unat idx) (unat mx)"
    "\<forall>k. 0 < k \<and> k < length (keys ph m) \<and> hparent k = unat idx \<longrightarrow> cmp_order.below (h_cmp ph) (keys ph m) k (unat mx)"
    using cmp less(2,3) by (rule ph_max_ok)
  show ?case
  proof (cases "mx = idx")
    case True
    have "cmp_order.heap (h_cmp ph) (keys ph m)" using mx(4) True by (intro cmp_order.down_done [OF cmp less(4)]) simp
    with True mx(1) h_keeps_refl [OF less(2)] show ?thesis by (subst fix_downward.simps) simp
  next
    case False
    from less(2) mx(2) less(3) False obtain m1 ix1 where s: "SWAP_PH_NODE ph mx idx m ix = Inr (m1, ix1)"
      "nodes ph m1 = swapl (nodes ph m) (unat mx) (unat idx)" "h_keeps ph m ix m1 ix1" by (rule swap_ok)
    have k1: "keys ph m1 = swapl (keys ph m) (unat mx) (unat idx)" using s(2) mx(2) less(3) D(9) by (simp add: map_swapl)
    have c: "0 < unat mx" "hparent (unat mx) = unat idx" "cmp_order.below (h_cmp ph) (keys ph m) (unat idx) (unat mx)"
      using mx(3) False by auto
    have "cmp_order.down_inv (h_cmp ph) (keys ph m1) (unat mx)"
      unfolding k1 using mx(2,4) c D(9) cmp_order.down_inv_free [OF cmp less(4)] by (intro cmp_order.down_step [OF cmp]) simp_all
    moreover have "heap_arr ph m1" using s(3) by (simp add: h_keeps_def)
    moreover have "unat (g_count ph) - unat mx < unat (g_count ph) - unat idx" using hparent_less [OF c(1)] c(2) mx(2) by simp
    ultimately obtain m' ix' where r: "fix_downward ph mx m1 ix1 = Some (Inr (m', ix'))" "h_keeps ph m1 ix1 m' ix'"
      "cmp_order.heap (h_cmp ph) (keys ph m')" using less(1) mx(2) by blast
    have "fix_downward ph idx m ix = Some (Inr (m', ix'))" using False mx(1) s(1) r(1) by (subst fix_downward.simps) simp
    with r h_keeps_trans [OF s(3) r(2)] show ?thesis by blast
  qed
qed

lemma fix_downward_free:
  assumes cmp: "cmp_order (h_cmp ph)" and inv: "heap_arr ph m" and lt: "unat idx < unat (g_count ph)"
    and free: "cmp_order.free_at (h_cmp ph) (keys ph m) (unat idx)"
  shows "\<exists>m' ix'. ph_fix_downward ph idx m ix = Inr (m', ix') \<and> h_keeps ph m ix m' ix'
    \<and> cmp_order.up_inv (h_cmp ph) (keys ph m') (unat idx)"
proof -
  note D = arr_invD [OF inv]
  obtain mx where mx: "ph_max ph idx m = Inr mx" "unat mx < unat (g_count ph)"
    "mx = idx \<or> 0 < unat mx \<and> hparent (unat mx) = unat idx \<and> cmp_order.below (h_cmp ph) (keys ph m) (unat idx) (unat mx)"
    "\<forall>k. 0 < k \<and> k < length (keys ph m) \<and> hparent k = unat idx \<longrightarrow> cmp_order.below (h_cmp ph) (keys ph m) k (unat mx)"
    using cmp inv lt by (rule ph_max_ok)
  show ?thesis
  proof (cases "mx = idx")
    case True
    have "cmp_order.up_inv (h_cmp ph) (keys ph m) (unat idx)" using mx(4) True by (intro cmp_order.free_done [OF cmp free]) simp
    with True mx(1) h_keeps_refl [OF inv] show ?thesis by (simp add: ph_fix_downward_def) (subst fix_downward.simps, simp)
  next
    case False
    from inv mx(2) lt False obtain m1 ix1 where s: "SWAP_PH_NODE ph mx idx m ix = Inr (m1, ix1)"
      "nodes ph m1 = swapl (nodes ph m) (unat mx) (unat idx)" "h_keeps ph m ix m1 ix1" by (rule swap_ok)
    have k1: "keys ph m1 = swapl (keys ph m) (unat mx) (unat idx)" using s(2) mx(2) lt D(9) by (simp add: map_swapl)
    have c: "0 < unat mx" "hparent (unat mx) = unat idx" "cmp_order.below (h_cmp ph) (keys ph m) (unat idx) (unat mx)"
      using mx(3) False by auto
    have dn: "cmp_order.down_inv (h_cmp ph) (keys ph m1) (unat mx)"
      unfolding k1 using mx(2,4) c D(9) free by (intro cmp_order.down_step [OF cmp]) simp_all
    have inv1: "heap_arr ph m1" using s(3) by (simp add: h_keeps_def)
    obtain m' ix' where r: "fix_downward ph mx m1 ix1 = Some (Inr (m', ix'))" "h_keeps ph m1 ix1 m' ix'"
      "cmp_order.heap (h_cmp ph) (keys ph m')" using fix_downward_ok [OF cmp inv1 mx(2) dn] by blast
    have "fix_downward ph idx m ix = Some (Inr (m', ix'))" using False mx(1) s(1) r(1) by (subst fix_downward.simps) simp
    moreover have "cmp_order.up_inv (h_cmp ph) (keys ph m') (unat idx)"
    proof -
      have "heap_arr ph m'" using r(2) by (simp add: h_keeps_def)
      then have "unat idx < length (keys ph m')" using arr_invD(9) [of 16 ph m'] lt by simp
      with r(3) show ?thesis by (rule cmp_order.heap_up_inv [OF cmp])
    qed
    ultimately show ?thesis using h_keeps_trans [OF s(3) r(2)] by (auto simp: ph_fix_downward_def)
  qed
qed

text \<open>Both directions from a position where any key may stand.\<close>

lemma fix_both:
  assumes cmp: "cmp_order (h_cmp ph)" and inv: "heap_arr ph m" and lt: "unat idx < unat (g_count ph)"
    and free: "cmp_order.free_at (h_cmp ph) (keys ph m) (unat idx)"
  obtains m' ix' where "bindr (ph_fix_downward ph idx m ix) (\<lambda>(m, ix). fix_upward ph idx m ix) = Inr (m', ix')"
    "h_keeps ph m ix m' ix'" "cmp_order.heap (h_cmp ph) (keys ph m')"
proof -
  obtain m1 ix1 where d: "ph_fix_downward ph idx m ix = Inr (m1, ix1)" "h_keeps ph m ix m1 ix1"
    "cmp_order.up_inv (h_cmp ph) (keys ph m1) (unat idx)" using fix_downward_free [OF assms] by blast
  have "heap_arr ph m1" using d(2) by (simp add: h_keeps_def)
  from fix_upward_ok [OF cmp this lt d(3)] obtain m' ix' where "fix_upward ph idx m1 ix1 = Inr (m', ix')" "h_keeps ph m1 ix1 m' ix'"
    "cmp_order.heap (h_cmp ph) (keys ph m')" by blast
  with that d h_keeps_trans [OF d(2)] show thesis by simp
qed

section \<open>Operations\<close>

text \<open>The state of a heap in use: an array in heap order whose nodes know their positions.\<close>

definition ph_inv :: "'a tt_ptrheap \<Rightarrow> 'a tt_phnode mem \<Rightarrow> idx_vars \<Rightarrow> bool" where
  "ph_inv ph m ix \<longleftrightarrow> cmp_order (h_cmp ph) \<and> heap_arr ph m \<and> cmp_order.heap (h_cmp ph) (keys ph m) \<and> tracks (nodes ph m) ix"

lemma ph_invD:
  assumes "ph_inv ph m ix"
  shows "cmp_order (h_cmp ph)" "heap_arr ph m" "cmp_order.heap (h_cmp ph) (keys ph m)" "tracks (nodes ph m) ix"
  using assms by (simp_all add: ph_inv_def)

lemma heap_more: "growable.more ph' = growable.more ph \<Longrightarrow> h_cmp ph' = h_cmp ph"
  by (cases ph; cases ph') simp

lemma ph_reserve_eq: "tt_ptrheap_reserve ph n m = arr_reserve 16 ph n m"
  by (simp add: tt_ptrheap_reserve_def ptrheap_reserve_def arr_reserve_def arr_extend_def case_prod_unfold TT_DO_def
      bindr_assoc cong: if_cong)

text \<open>Room for one node while fewer than \<open>2 ^ 28\<close> are in use.\<close>

lemma ph_reserve_cases:
  assumes inv: "heap_arr ph m" and lt: "Suc (unat (g_count ph)) < 2 ^ 28"
  obtains (fail) m' where "tt_ptrheap_reserve ph 1 m = Inr (TT_FAIL, ph, m')" "mem_inv m'" "same_store m m'"
  | (ok) ph' m' where "tt_ptrheap_reserve ph 1 m = Inr (TT_SUCCESS, ph', m')" "heap_arr ph' m'" "nodes ph' m' = nodes ph m"
      "unat (g_count ph') < unat (g_capacity ph')" "g_count ph' = g_count ph" "h_cmp ph' = h_cmp ph"
      "owns_step (arr_own ph) m (arr_own ph') m'"
proof (cases "unat (g_count ph) < unat (g_capacity ph)")
  case True
  have "unat (g_count ph + 1) = Suc (unat (g_count ph))" using lt unat_add_u32 [of "g_count ph" 1] by simp
  with True have "tt_ptrheap_reserve ph 1 m = Inr (TT_SUCCESS, ph, m)" by (simp add: tt_ptrheap_reserve_def word_le_nat_alt)
  from ok [OF this inv refl True refl refl owns_refl] show thesis .
next
  case False
  then have full: "unat (g_capacity ph) = unat (g_count ph)" using arr_invD(5) [OF inv] by simp
  have "unat (g_count ph) + unat (1 :: u32) < 2 ^ 32" "(unat (g_capacity ph) + unat (1 :: u32)) * unat (16 :: u32) < 2 ^ 32"
    using lt full by simp_all
  from inv this show thesis
  proof (cases rule: arr_reserve_cases)
    case r: (fail m')
    show thesis using fail [of m'] r by (simp add: ph_reserve_eq)
  next
    case r: (ok ph' m')
    show thesis using ok [of ph' m'] r heap_more [OF r(6)] by (simp add: ph_reserve_eq)
  qed
qed

lemma tracks_snoc:
  assumes "tracks ns ix" "unat c = length ns" "\<forall>x. idx = Some x \<longrightarrow> x \<notin> idxs ns"
  shows "tracks (ns @ [\<lparr>ph_p = p, ph_idx = idx\<rparr>]) (set_idx idx c ix)"
  unfolding tracks_def
proof (intro allI impI)
  fix k x
  assume k: "k < length (ns @ [\<lparr>ph_p = p, ph_idx = idx\<rparr>])" and x: "ph_idx ((ns @ [\<lparr>ph_p = p, ph_idx = idx\<rparr>]) ! k) = Some x"
  show "unat (set_idx idx c ix x) = k"
  proof (cases "k = length ns")
    case True
    with x have "idx = Some x" by simp
    from set_idx_same(1) [OF this] True assms(2) show ?thesis by simp
  next
    case False
    then have kn: "k < length ns" "ph_idx (ns ! k) = Some x" using k x by (simp_all add: nth_append)
    have "ns ! k \<in> set ns" using kn(1) by simp
    with kn(2) have "x \<in> idxs ns" unfolding idxs_def by blast
    then have "idx \<noteq> Some x" using assms(3) by blast
    from set_idx_same(2) [OF this] kn assms(1) show ?thesis unfolding tracks_def by simp
  qed
qed

text \<open>Adding a node whose index variable is not in use.\<close>

lemma ph_add_ok:
  assumes ph: "ph_inv ph m ix" and lt: "Suc (unat (g_count ph)) < 2 ^ 28" and new: "\<forall>x. idx = Some x \<longrightarrow> x \<notin> idxs (nodes ph m)"
  obtains (fail) m' where "tt_ptrheap_add (Some p) idx ph m ix = Inr (TT_FAIL, ph, m', ix)" "mem_inv m'" "same_store m m'"
  | (ok) ph' m' ix' where "tt_ptrheap_add (Some p) idx ph m ix = Inr (TT_SUCCESS, ph', m', ix')" "ph_inv ph' m' ix'"
      "mset (nodes ph' m') = add_mset \<lparr>ph_p = p, ph_idx = idx\<rparr> (mset (nodes ph m))"
      "owns_step (arr_own ph) m (arr_own ph') m'" "h_cmp ph' = h_cmp ph" "\<forall>x. x \<notin> idxs (nodes ph' m') \<longrightarrow> ix' x = ix x"
proof -
  note P = ph_invD [OF ph]
  show thesis
    using P(2) lt
  proof (cases rule: ph_reserve_cases)
    case (fail m')
    with that(1) show thesis by (simp add: tt_ptrheap_add_def)
  next
    case r: (ok ph1 m1)
    let ?n = "\<lparr>ph_p = p, ph_idx = idx\<rparr>" and ?c = "g_count ph1"
    let ?ph = "ph1\<lparr>g_count := ?c + 1\<rparr>"
    note D = arr_invD [OF r(2)]
    from r(2,4) obtain m2 where m2: "h_put ph1 m1 ?c ?n = Inr m2" "heap_arr ph1 m2"
      "arr_cells ph1 m2 = (arr_cells ph1 m1)[unat ?c := ?n]" "owns_step (arr_own ph1) m1 (arr_own ph1) m2" by (rule h_put_ok)
    have u: "unat (?c + 1) = Suc (unat ?c)" using r(4) by (rule unat_suc_u32)
    have inv: "heap_arr ?ph m2" using arr_inv_count [OF m2(2), of "?c + 1"] u r(4) by simp
    have ns: "nodes ?ph m2 = nodes ph m @ [?n]"
      using m2(3) u r(3,4) D(4) by (simp add: arr_items_def take_Suc_conv_app_nth)
    have len: "length (nodes ph m) = unat ?c" using arr_invD(9) [OF P(2)] r(5) by simp
    have cmp: "cmp_order (h_cmp ?ph)" using P(1) r(6) by simp
    have up: "cmp_order.up_inv (h_cmp ?ph) (keys ?ph m2) (unat ?c)"
      using cmp_order.snoc_up_inv [OF P(1) P(3), of p] ns r(6) len by (simp del: arr_count(2))
    have tr: "tracks (nodes ?ph m2) (set_idx idx ?c ix)"
      unfolding ns using P(4) len new by (intro tracks_snoc) simp_all
    have cl: "unat ?c < unat (g_count ?ph)" using u by simp
    from fix_upward_ok [OF cmp inv cl up] obtain m3 ix3 where f: "fix_upward ?ph ?c m2 (set_idx idx ?c ix) = Inr (m3, ix3)"
      "h_keeps ?ph m2 (set_idx idx ?c ix) m3 ix3" "cmp_order.heap (h_cmp ?ph) (keys ?ph m3)" by blast
    have a: "tt_ptrheap_add (Some p) idx ph m ix = Inr (TT_SUCCESS, ?ph, m3, ix3)"
      using r(1) m2(1) f(1) by (simp add: tt_ptrheap_add_def Let_def)
    have K: "heap_arr ?ph m3" "mset (nodes ?ph m3) = mset (nodes ?ph m2)" "owns_step (arr_own ?ph) m2 (arr_own ?ph) m3" "tracks (nodes ?ph m3) ix3"
      "\<forall>x. x \<notin> idxs (nodes ?ph m2) \<longrightarrow> ix3 x = set_idx idx ?c ix x"
      using f(2) tr unfolding h_keeps_def by blast+
    have "ph_inv ?ph m3 ix3" using cmp K(1,4) f(3) by (simp add: ph_inv_def)
    moreover have "mset (nodes ?ph m3) = add_mset ?n (mset (nodes ph m))" unfolding K(2) ns by simp
    moreover have "owns_step (arr_own ph) m (arr_own ?ph) m3"
      using owns_trans [OF owns_trans [OF r(7) m2(4)]] K(3) by simp
    moreover have "ix3 x = ix x" if x: "x \<notin> idxs (nodes ?ph m3)" for x
    proof -
      have x2: "x \<notin> idxs (nodes ?ph m2)" using x idxs_mset [OF K(2)] by simp
      then have "idx \<noteq> Some x" unfolding ns idxs_def by auto
      with K(5) x2 show ?thesis by (simp add: set_idx_same)
    qed
    ultimately show thesis using that(2) [OF a] r(6) by simp
  qed
qed

end
