(* ===== verification/TT_PtrHeap_Ops.thy ===== *)
theory TT_PtrHeap_Ops
  imports TT_PtrHeap_Inv "HOL-Library.Multiset"
begin

text \<open>
  Removal, popping, repair, clearing and destruction of the heap of pointers, the priority queue it
  promises, and the interpretation of that interface by its operations.

  The priority queue a heap promises: a multiset of keys, some known to the caller by a handle.
  Adding under a handle that is in use replaces its entry; popping takes out a greatest key.
\<close>

datatype 'a pq_op = PqAdd 'a "nat option" | PqPop | PqCancel nat

type_synonym 'a pq = "('a \<times> nat option) multiset"

definition forget :: "nat option \<Rightarrow> 'a pq \<Rightarrow> 'a pq" where
  "forget h M = filter_mset (\<lambda>e. h = None \<or> snd e \<noteq> h) M"

inductive pq_spec :: "('a \<Rightarrow> 'a \<Rightarrow> int) \<Rightarrow> 'a pq_op \<Rightarrow> 'a pq \<Rightarrow> 'a answer \<Rightarrow> 'a pq \<Rightarrow> bool" for cmp where
  add: "pq_spec cmp (PqAdd k h) M Done (add_mset (k, h) (forget h M))"
| no_mem: "pq_spec cmp (PqAdd k h) M NoMem (forget h M)"
| pop: "(\<forall>e \<in># M. cmp (fst e) k \<le> 0) \<Longrightarrow> pq_spec cmp PqPop (add_mset (k, h) M) (Got k) M"
| empty: "pq_spec cmp PqPop {#} Empty {#}"
| cancel: "pq_spec cmp (PqCancel x) M Done (forget (Some x) M)"

inductive_simps pq_spec_simps:
  "pq_spec cmp (PqAdd k h) M a N" "pq_spec cmp PqPop M a N" "pq_spec cmp (PqCancel x) M a N"

inductive pq_specs :: "('a \<Rightarrow> 'a \<Rightarrow> int) \<Rightarrow> 'a pq_op list \<Rightarrow> 'a pq \<Rightarrow> 'a answer list \<Rightarrow> 'a pq \<Rightarrow> bool" for cmp where
  nil: "pq_specs cmp [] M [] M"
| cons: "pq_spec cmp op M a N \<Longrightarrow> pq_specs cmp ops N as K \<Longrightarrow> pq_specs cmp (op # ops) M (a # as) K"

inductive_cases pq_specs_NilE: "pq_specs cmp [] M as N"
inductive_cases pq_specs_ConsE: "pq_specs cmp (op # ops) M as N"

lemma size_forget: "size (forget h M) \<le> size M"
  unfolding forget_def by (rule size_filter_mset_lesseq)

lemma pq_spec_size: "pq_spec cmp op M a N \<Longrightarrow> size N \<le> Suc (size M)"
  by (induction rule: pq_spec.induct) (auto intro: le_SucI size_forget)

lemma pq_specs_size: "pq_specs cmp ops M as N \<Longrightarrow> size N \<le> size M + length ops"
  by (induction rule: pq_specs.induct) (auto dest: pq_spec_size)

text \<open>Popping everything delivers the keys in descending order.\<close>

lemma pops_descend:
  "pq_specs cmp (replicate (size M) PqPop) M as N \<Longrightarrow>
    N = {#} \<and> (\<exists>ks. as = map Got ks \<and> mset ks = image_mset fst M \<and> sorted_wrt (\<lambda>a b. cmp b a \<le> 0) ks)"
proof (induction "size M" arbitrary: M as)
  case 0
  then show ?case by (auto elim!: pq_specs_NilE)
next
  case (Suc n)
  have "pq_specs cmp (PqPop # replicate n PqPop) M as N" using Suc.prems Suc.hyps(2) [symmetric] by simp
  then obtain a as' K where c: "as = a # as'" "pq_spec cmp PqPop M a K" "pq_specs cmp (replicate n PqPop) K as' N"
    by (rule pq_specs_ConsE)
  have "M \<noteq> {#}" using Suc.hyps(2) by auto
  with c(2) obtain k h where k: "M = add_mset (k, h) K" "a = Got k" "\<forall>e \<in># K. cmp (fst e) k \<le> 0"
    by (auto simp: pq_spec_simps)
  have n: "n = size K" using Suc.hyps(2) k(1) by simp
  from Suc.hyps(1) [OF n] c(3) n obtain ks where ks: "N = {#}" "as' = map Got ks" "mset ks = image_mset fst K"
    "sorted_wrt (\<lambda>a b. cmp b a \<le> 0) ks" by auto
  have "\<forall>y \<in> set ks. cmp y k \<le> 0" using k(3) ks(3) by (metis (no_types, lifting) image_iff set_image_mset set_mset_mset)
  with ks k c(1) have "as = map Got (k # ks) \<and> mset (k # ks) = image_mset fst M \<and> sorted_wrt (\<lambda>a b. cmp b a \<le> 0) (k # ks)"
    by simp
  with ks(1) show ?case by blast
qed

locale pqueue =
  fixes ok :: "'s \<Rightarrow> bool" and items :: "'s \<Rightarrow> 'a pq" and cmp :: "'a \<Rightarrow> 'a \<Rightarrow> int"
    and step :: "'a pq_op \<Rightarrow> 's \<Rightarrow> ('a answer \<times> 's) run" and limit :: nat
  assumes step_refines: "ok s \<Longrightarrow> Suc (size (items s)) < limit \<Longrightarrow>
    \<exists>a s'. step op s = Inr (a, s') \<and> ok s' \<and> pq_spec cmp op (items s) a (items s')"
begin

lemma run_refines:
  assumes "ok s" "size (items s) + length ops < limit"
  shows "\<exists>as s'. run_ops step ops s = Inr (as, s') \<and> ok s' \<and> pq_specs cmp ops (items s) as (items s')"
  using assms
proof (induction ops arbitrary: s)
  case Nil
  then show ?case by (auto intro: pq_specs.nil)
next
  case (Cons op ops)
  have "Suc (size (items s)) < limit" using Cons.prems(2) by simp
  with step_refines [OF Cons.prems(1)] obtain a s1 where s1: "step op s = Inr (a, s1)" "ok s1"
    "pq_spec cmp op (items s) a (items s1)" by blast
  have "size (items s1) + length ops < limit"
    using pq_spec_size [OF s1(3)] Cons.prems(2) by simp
  with Cons.IH [OF s1(2)] obtain as s2 where "run_ops step ops s1 = Inr (as, s2)" "ok s2"
    "pq_specs cmp ops (items s1) as (items s2)" by blast
  with s1 show ?case by (auto intro: pq_specs.cons)
qed

lemma drain:
  assumes "ok s" "2 * size (items s) < limit"
  shows "\<exists>ks s'. run_ops step (replicate (size (items s)) PqPop) s = Inr (map Got ks, s') \<and> ok s' \<and> items s' = {#}
    \<and> mset ks = image_mset fst (items s) \<and> sorted_wrt (\<lambda>a b. cmp b a \<le> 0) ks"
  using run_refines [OF assms(1), of "replicate (size (items s)) PqPop"] assms(2) pops_descend [of cmp "items s"] by auto

end

section \<open>Taking a node out\<close>

lemma mset_put_last:
  assumes "i < n" "Suc n = length xs"
  shows "add_mset (xs ! i) (mset ((take n xs)[i := xs ! n])) = mset xs"
proof -
  have i: "i < length (take n xs)" "take n xs ! i = xs ! i" using assms by simp_all
  have "xs ! i \<in># mset (take n xs)" using i nth_mem_mset by metis
  then have "add_mset (xs ! i) (mset ((take n xs)[i := xs ! n])) = add_mset (xs ! n) (mset (take n xs))"
    using i by (simp add: mset_update add_mset_commute)
  also have "\<dots> = mset (take n xs @ [xs ! n])" by simp
  also have "take n xs @ [xs ! n] = xs" using assms(2) by (metis lessI take_Suc_conv_app_nth take_all_iff order_refl)
  finally show ?thesis .
qed

lemma mset_butlast_nth:
  assumes "Suc n = length xs"
  shows "add_mset (xs ! n) (mset (take n xs)) = mset xs"
proof -
  have "take n xs @ [xs ! n] = xs" using assms by (metis lessI take_Suc_conv_app_nth take_all_iff order_refl)
  then show ?thesis by (metis mset_append mset.simps union_mset_add_mset_right add.right_neutral)
qed

text \<open>The index variables after the removal of node \<open>i\<close>: the last node has moved to its place.\<close>

lemma tracks_take: "tracks ns ix \<Longrightarrow> tracks (take n ns) ix"
  by (simp add: tracks_def)

lemma tracks_uniq: "tracks ns ix \<Longrightarrow> k < length ns \<Longrightarrow> l < length ns \<Longrightarrow> ph_idx (ns ! k) = Some x
    \<Longrightarrow> ph_idx (ns ! l) = Some x \<Longrightarrow> k = l"
  unfolding tracks_def by metis

lemma tracks_other:
  assumes "tracks ns ix" "p = None \<or> (\<exists>x. p = Some x \<and> x \<notin> idxs ns)"
  shows "tracks ns (set_idx p v ix)"
  unfolding tracks_def
proof (intro allI impI)
  fix k x
  assume k: "k < length ns" "ph_idx (ns ! k) = Some x"
  then have "x \<in> idxs ns" using nth_mem unfolding idxs_def by blast
  then have "p \<noteq> Some x" using assms(2) by auto
  then show "unat (set_idx p v ix x) = k" using set_idx_same(2) k assms(1) unfolding tracks_def by metis
qed

lemma tracks_put:
  assumes t: "tracks ns ix" and l: "Suc n = length ns" "unat i < n"
  shows "tracks ((take n ns)[unat i := ns ! n]) (set_idx (ph_idx (ns ! n)) i (set_idx (ph_idx (ns ! unat i)) v ix))"
  unfolding tracks_def
proof (intro allI impI)
  fix k x
  assume k: "k < length ((take n ns)[unat i := ns ! n])" "ph_idx ((take n ns)[unat i := ns ! n] ! k) = Some x"
  show "unat (set_idx (ph_idx (ns ! n)) i (set_idx (ph_idx (ns ! unat i)) v ix) x) = k"
  proof (cases "k = unat i")
    case True
    then have "ph_idx (ns ! n) = Some x" using k l by simp
    from set_idx_same(1) [OF this] True show ?thesis by simp
  next
    case False
    then have kk: "k < n" "k < length ns" "ph_idx (ns ! k) = Some x" using k l by simp_all
    have "ph_idx (ns ! n) \<noteq> Some x" using tracks_uniq [OF t, of k n] kk l by auto
    moreover have "ph_idx (ns ! unat i) \<noteq> Some x" using tracks_uniq [OF t, of k "unat i"] kk l False by auto
    moreover have "unat (ix x) = k" using t kk(2,3) unfolding tracks_def by blast
    ultimately show ?thesis by (simp add: set_idx_same)
  qed
qed

lemma idx_gone:
  assumes "tracks ns ix" "k < length ns" "ph_idx (ns ! k) = Some x" "mset ns = add_mset (ns ! k) (mset ns')"
  shows "x \<notin> idxs ns'"
proof
  assume "x \<in> idxs ns'"
  then obtain n where n: "n \<in> set ns'" "ph_idx n = Some x" unfolding idxs_def by blast
  have "mset ns' = mset (take k ns @ drop (Suc k) ns)"
    using assms(4) id_take_nth_drop [OF assms(2)] by (metis add_mset_add_single mset.simps(2) mset_append union_mset_add_mset_right add_mset_remove_trivial)
  then have "n \<in> set (take k ns) \<union> set (drop (Suc k) ns)" using n(1) by (metis set_append set_mset_mset)
  then have "\<exists>l < length ns. l \<noteq> k \<and> ns ! l = n"
  proof
    assume "n \<in> set (take k ns)"
    then obtain i where "i < k" "i < length ns" "ns ! i = n" by (auto simp: in_set_conv_nth)
    then show ?thesis by (intro exI [of _ i]) simp
  next
    assume "n \<in> set (drop (Suc k) ns)"
    then obtain i where "i < length ns - Suc k" "ns ! Suc (k + i) = n" using assms(2) by (auto simp: in_set_conv_nth)
    then show ?thesis by (intro exI [of _ "Suc (k + i)"]) simp
  qed
  then obtain l where "l < length ns" "l \<noteq> k" "ns ! l = n" by blast
  with tracks_uniq [OF assms(1) this(1) assms(2)] n(2) assms(3) show False by simp
qed

lemma ph_remove_ok:
  assumes ph: "ph_inv ph m ix" and lt: "unat idx < unat (g_count ph)"
  obtains ph' m' ix' where "tt_ptrheap_remove ph idx m ix = Inr (ph', m', ix')" "ph_inv ph' m' ix'"
    "mset (nodes ph m) = add_mset (nodes ph m ! unat idx) (mset (nodes ph' m'))"
    "owns_step (arr_own ph) m (arr_own ph') m'" "h_cmp ph' = h_cmp ph"
    "\<forall>x. ph_idx (nodes ph m ! unat idx) = Some x \<longrightarrow> ix' x = TT_POS_NULL" "\<forall>x. x \<notin> idxs (nodes ph m) \<longrightarrow> ix' x = ix x"
proof -
  note P = ph_invD [OF ph]
  note D = arr_invD [OF P(2)]
  let ?ns = "nodes ph m" and ?n = "nodes ph m ! unat idx"
  let ?c = "g_count ph - 1" and ?ph = "ph\<lparr>g_count := g_count ph - 1\<rparr>" and ?ix = "set_idx (ph_idx ?n) TT_POS_NULL ix"
  have c: "Suc (unat ?c) = unat (g_count ph)" using lt by (simp add: unat_sub_u32)
  have len: "Suc (unat ?c) = length ?ns" using c D(9) by simp
  have lt': "idx < g_count ph" using lt by (simp add: word_less_nat_alt)
  have inv: "heap_arr ?ph m'" if "heap_arr ph m'" for m' using arr_inv_count [OF that] c D(5) by simp
  have nd: "nodes ?ph m' = take (unat ?c) (nodes ph m')" for m'
    using c by (simp add: arr_items_def arr_cells_def min_def)
  have gone: "mset ?ns = add_mset ?n (mset ns') \<Longrightarrow> \<forall>x. ph_idx ?n = Some x \<longrightarrow> x \<notin> idxs ns'" for ns'
    using idx_gone [OF P(4), of "unat idx"] len c lt by auto
  have cmp: "cmp_order (h_cmp ?ph)" using P(1) by simp
  have isin: "x \<in> idxs ?ns" if "k < length ?ns" "ph_idx (?ns ! k) = Some x" for k x
    using that nth_mem unfolding idxs_def by blast
  have out: "?ix x = ix x" if "x \<notin> idxs ?ns" for x
    using that isin [of "unat idx" x] lt D(9) set_idx_same(2) by metis
  show thesis
  proof (cases "idx = ?c")
    case True
    have ms: "mset ?ns = add_mset ?n (mset (nodes ?ph m))"
      unfolding nd using mset_butlast_nth [OF len] True by simp
    have "ph_inv ?ph m ?ix"
      unfolding ph_inv_def
    proof (intro conjI)
      show "cmp_order.heap (h_cmp ?ph) (keys ?ph m)"
        unfolding nd using cmp_order.heap_butlast [OF P(1) P(3), of "unat ?c"] len by (simp add: take_map)
      have "tracks (nodes ?ph m) ix" unfolding nd by (rule tracks_take [OF P(4)])
      then show "tracks (nodes ?ph m) ?ix" using gone [OF ms] by (intro tracks_other) auto
    qed (use cmp inv [OF P(2)] in simp_all)
    moreover have "tt_ptrheap_remove ph idx m ix = Inr (?ph, m, ?ix)"
      using h_node_item [OF P(2) lt] lt' True by (simp add: tt_ptrheap_remove_def Let_def)
    ultimately show thesis using that [of ?ph m ?ix] ms out by (simp add: owns_refl set_idx_same)
  next
    case False
    then have il: "unat idx < unat ?c" using c lt by (metis less_antisym word_unat_eq_iff)
    have cc: "unat ?c < unat (g_count ph)" "unat idx < unat (g_capacity ph)" using c lt D(5) by simp_all
    let ?l = "?ns ! unat ?c"
    have ld: "h_node ?ph m ?c = Inr ?l" using h_node_item [OF P(2) cc(1)] by (simp add: h_node_def)
    have cap: "unat idx < unat (g_capacity ?ph)" using cc(2) by simp
    from inv [OF P(2)] cap obtain m1 where m1: "h_put ?ph m idx ?l = Inr m1" "heap_arr ?ph m1"
      "arr_cells ?ph m1 = (arr_cells ?ph m)[unat idx := ?l]" "owns_step (arr_own ?ph) m (arr_own ?ph) m1"
      by (rule h_put_ok)
    let ?ix1 = "set_idx (ph_idx ?l) idx ?ix"
    have cp: "COPY_PH_NODE ?ph idx ?c m ?ix = Inr (m1, ?ix1)" using ld m1(1) False by (simp add: COPY_PH_NODE_def)
    have ns1: "nodes ?ph m1 = (take (unat ?c) ?ns)[unat idx := ?l]"
    proof -
      have "nodes ?ph m1 = take (unat ?c) ((arr_cells ?ph m)[unat idx := ?l])" using m1(3) by (simp add: arr_items_def)
      moreover have "take (unat ?c) (arr_cells ?ph m) = take (unat ?c) ?ns"
        using nd [of m] by (simp add: arr_items_def)
      ultimately show ?thesis by (simp add: take_update_swap)
    qed
    have ms: "mset ?ns = add_mset ?n (mset (nodes ?ph m1))"
      unfolding ns1 using mset_put_last [OF il len] by simp
    have tr: "tracks (nodes ?ph m1) ?ix1" unfolding ns1 by (rule tracks_put [OF P(4) len il])
    have k1: "keys ?ph m1 = (take (unat ?c) (keys ph m))[unat idx := ph_p ?l]" unfolding ns1 by (simp add: take_map map_update)
    have free: "cmp_order.free_at (h_cmp ?ph) (keys ?ph m1) (unat idx)"
      using cmp_order.put_free_at [OF P(1) P(3) il _ k1] len by simp
    from fix_both [OF cmp m1(2) _ free, of ?ix1] il obtain m2 ix2 where
      f: "bindr (ph_fix_downward ?ph idx m1 ?ix1) (\<lambda>(m, ix). fix_upward ?ph idx m ix) = Inr (m2, ix2)"
        "h_keeps ?ph m1 ?ix1 m2 ix2" "cmp_order.heap (h_cmp ?ph) (keys ?ph m2)" by auto
    have K: "heap_arr ?ph m2" "mset (nodes ?ph m2) = mset (nodes ?ph m1)" "owns_step (arr_own ?ph) m1 (arr_own ?ph) m2"
      "\<forall>x. x \<notin> idxs (nodes ?ph m1) \<longrightarrow> ix2 x = ?ix1 x" "tracks (nodes ?ph m2) ix2"
      using f(2) tr unfolding h_keeps_def by blast+
    have r: "tt_ptrheap_remove ph idx m ix = Inr (?ph, m2, ix2)"
      using h_node_item [OF P(2) lt] lt' False cp f(1)
      by (auto simp: tt_ptrheap_remove_def Let_def bindr_eq_Inr_iff case_prod_unfold)
    have "ix2 x = TT_POS_NULL" if x: "ph_idx ?n = Some x" for x
    proof -
      have "ph_idx ?l \<noteq> Some x" using tracks_uniq [OF P(4), of "unat idx" "unat ?c"] il len x by auto
      moreover have "x \<notin> idxs (nodes ?ph m1)" using gone [OF ms] x by blast
      ultimately show ?thesis using K(4) x by (simp add: set_idx_same)
    qed
    moreover have "ix2 x = ix x" if x: "x \<notin> idxs ?ns" for x
    proof -
      have "idxs (nodes ?ph m1) \<subseteq> idxs ?ns" unfolding idxs_def using set_mset_mset [of ?ns] set_mset_mset [of "nodes ?ph m1"] ms by auto
      moreover have "ph_idx ?l \<noteq> Some x" using isin [of "unat ?c" x] len x by auto
      ultimately show ?thesis using K(4) x out [OF x] by (auto simp: set_idx_same)
    qed
    moreover have "ph_inv ?ph m2 ix2" using cmp K(1,5) f(3) by (simp add: ph_inv_def)
    moreover have "owns_step (arr_own ph) m (arr_own ?ph) m2" using owns_trans [OF m1(4) K(3)] by simp
    ultimately show thesis using that [OF r] ms K(2) by simp
  qed
qed

lemma ph_root:
  assumes ph: "ph_inv ph m ix" and k: "k < length (nodes ph m)"
  shows "h_cmp ph (ph_p (nodes ph m ! k)) (ph_p (nodes ph m ! 0)) \<le> 0"
proof -
  note P = ph_invD [OF ph]
  have "nodes ph m \<noteq> []" using k by auto
  then show ?thesis using cmp_order.heap_root [OF P(1) P(3), of k] k by (simp add: cmp_order.below_def [OF P(1)])
qed

text \<open>The first node is a greatest one; it is what \<^verbatim>\<open>tt_ptrheap_pop\<close> takes out.\<close>

lemma ph_pop_ok:
  assumes ph: "ph_inv ph m ix" and ne: "nodes ph m \<noteq> []"
  obtains ph' m' ix' where "tt_ptrheap_pop ph m ix = Inr (Some (ph_p (hd (nodes ph m))), ph', m', ix')" "ph_inv ph' m' ix'"
    "mset (nodes ph m) = add_mset (hd (nodes ph m)) (mset (nodes ph' m'))"
    "owns_step (arr_own ph) m (arr_own ph') m'" "h_cmp ph' = h_cmp ph"
    "\<forall>x. ph_idx (hd (nodes ph m)) = Some x \<longrightarrow> ix' x = TT_POS_NULL" "\<forall>x. x \<notin> idxs (nodes ph m) \<longrightarrow> ix' x = ix x"
    "\<forall>n \<in> set (nodes ph m). h_cmp ph (ph_p n) (ph_p (hd (nodes ph m))) \<le> 0"
proof -
  note P = ph_invD [OF ph]
  have lt: "unat (0 :: u32) < unat (g_count ph)" using ne arr_invD(9) [OF P(2)] by (cases "nodes ph m") auto
  have hd: "nodes ph m ! unat (0 :: u32) = hd (nodes ph m)" using ne by (simp add: hd_conv_nth)
  have top: "\<forall>n \<in> set (nodes ph m). h_cmp ph (ph_p n) (ph_p (hd (nodes ph m))) \<le> 0"
    using ph_root [OF ph] hd by (auto simp: in_set_conv_nth)
  from ph lt obtain ph' m' ix' where r: "tt_ptrheap_remove ph 0 m ix = Inr (ph', m', ix')" "ph_inv ph' m' ix'"
    "mset (nodes ph m) = add_mset (nodes ph m ! unat (0 :: u32)) (mset (nodes ph' m'))"
    "owns_step (arr_own ph) m (arr_own ph') m'" "h_cmp ph' = h_cmp ph"
    "\<forall>x. ph_idx (nodes ph m ! unat (0 :: u32)) = Some x \<longrightarrow> ix' x = TT_POS_NULL"
    "\<forall>x. x \<notin> idxs (nodes ph m) \<longrightarrow> ix' x = ix x" by (rule ph_remove_ok)
  have "tt_ptrheap_pop ph m ix = Inr (Some (ph_p (hd (nodes ph m))), ph', m', ix')"
    using h_node_item [OF P(2) lt] r(1) hd lt by (auto simp: tt_ptrheap_pop_def)
  with that [of ph' m' ix'] r top show thesis unfolding hd by blast
qed

lemma ph_pop_empty: "ph_inv ph m ix \<Longrightarrow> nodes ph m = [] \<Longrightarrow> tt_ptrheap_pop ph m ix = Inr (None, ph, m, ix)"
  using arr_invD(9) [OF ph_invD(2), of ph m ix] by (simp add: tt_ptrheap_pop_def unat_eq_0)

lemma ph_head_ok:
  assumes "ph_inv ph m ix"
  shows "tt_ptrheap_head ph m = Inr (if nodes ph m = [] then None else Some (ph_p (hd (nodes ph m))))"
proof (cases "nodes ph m = []")
  case True
  then show ?thesis using arr_invD(9) [OF ph_invD(2) [OF assms]] by (simp add: tt_ptrheap_head_def unat_eq_0)
next
  case False
  then have lt: "unat (0 :: u32) < unat (g_count ph)" using arr_invD(9) [OF ph_invD(2) [OF assms]] by (cases "nodes ph m") auto
  then show ?thesis
    using h_node_item [OF ph_invD(2) [OF assms] lt] False by (auto simp: tt_ptrheap_head_def hd_conv_nth)
qed

section \<open>Repair, search, clearing, destruction\<close>

text \<open>After the key of one node changed, \<^verbatim>\<open>tt_ptrheap_fix\<close> restores the order.\<close>

lemma ph_fix_ok:
  assumes "cmp_order (h_cmp ph)" "heap_arr ph m" "unat idx < unat (g_count ph)" "tracks (nodes ph m) ix"
    "cmp_order.free_at (h_cmp ph) (keys ph m) (unat idx)"
  shows "\<exists>m' ix'. tt_ptrheap_fix ph idx m ix = Inr (m', ix') \<and> ph_inv ph m' ix' \<and> mset (nodes ph m') = mset (nodes ph m)
    \<and> owns_step (arr_own ph) m (arr_own ph) m'"
proof -
  from assms(1-3,5) obtain m' ix' where f: "bindr (ph_fix_downward ph idx m ix) (\<lambda>(m, ix). fix_upward ph idx m ix) = Inr (m', ix')"
    "h_keeps ph m ix m' ix'" "cmp_order.heap (h_cmp ph) (keys ph m')" by (rule fix_both)
  have "tt_ptrheap_fix ph idx m ix = Inr (m', ix')" using f(1) assms(3) by (simp add: tt_ptrheap_fix_def word_less_nat_alt)
  with f(2,3) assms(1,4) show ?thesis by (auto simp: h_keeps_def ph_inv_def)
qed

lemma suc_idx:
  fixes i n :: u32
  assumes "i < n"
  shows "unat (i + 1) = Suc (unat i)" "unat i < unat n"
  using assms unat_suc_u32 [of i n] by (simp_all add: word_less_nat_alt)

lemma ph_contain_loop_ok:
  assumes inv: "heap_arr ph m"
  shows "ph_contain_loop ph p i m = Inr (\<exists>n \<in> set (drop (unat i) (nodes ph m)). h_cmp ph (ph_p n) p = 0)"
proof (induction "unat (g_count ph) - unat i" arbitrary: i rule: less_induct)
  case less
  note len = arr_invD(9) [OF inv]
  show ?case
  proof (cases "i < g_count ph")
    case True
    note u = suc_idx [OF True]
    have "drop (unat i) (nodes ph m) = nodes ph m ! unat i # drop (unat (i + 1)) (nodes ph m)"
      using u len Cons_nth_drop_Suc [of "unat i" "nodes ph m"] by simp
    with less [of "i + 1"] u True h_node_item [OF inv u(2)] show ?thesis
      by (subst ph_contain_loop.simps) simp
  next
    case False
    moreover from this have "unat (g_count ph) \<le> unat i" by (simp add: not_less word_le_nat_alt)
    ultimately show ?thesis using len by (subst ph_contain_loop.simps) simp
  qed
qed

lemma ph_contain_ok: "heap_arr ph m \<Longrightarrow> tt_ptrheap_contain ph p m = Inr (\<exists>n \<in> set (nodes ph m). h_cmp ph (ph_p n) p = 0)"
  by (simp add: tt_ptrheap_contain_def ph_contain_loop_ok)

lemma ph_clear_loop_ok:
  assumes inv: "heap_arr ph m"
  shows "ph_clear_loop ph i m ix = Inr (fold (\<lambda>n. set_idx (ph_idx n) TT_POS_NULL) (drop (unat i) (nodes ph m)) ix)"
proof (induction "unat (g_count ph) - unat i" arbitrary: i ix rule: less_induct)
  case less
  note len = arr_invD(9) [OF inv]
  show ?case
  proof (cases "i < g_count ph")
    case True
    note u = suc_idx [OF True]
    have "drop (unat i) (nodes ph m) = nodes ph m ! unat i # drop (unat (i + 1)) (nodes ph m)"
      using u len Cons_nth_drop_Suc [of "unat i" "nodes ph m"] by simp
    with less [of "i + 1"] u True h_node_item [OF inv u(2)] show ?thesis
      by (subst ph_clear_loop.simps) simp
  next
    case False
    moreover from this have "unat (g_count ph) \<le> unat i" by (simp add: not_less word_le_nat_alt)
    ultimately show ?thesis using len by (subst ph_clear_loop.simps) simp
  qed
qed

lemma fold_set_idx:
  "fold (\<lambda>n. set_idx (ph_idx n) v) ns ix x = (if x \<in> idxs ns then v else ix x)"
  by (induction ns arbitrary: ix) (auto simp: idxs_def set_idx_same split: if_splits)

lemma ph_clear_ok:
  assumes ph: "ph_inv ph m ix"
  obtains ix' where "tt_ptrheap_clear ph m ix = Inr (ph\<lparr>g_count := 0\<rparr>, ix')" "ph_inv (ph\<lparr>g_count := 0\<rparr>) m ix'"
    "nodes (ph\<lparr>g_count := 0\<rparr>) m = []" "\<forall>x. ix' x = (if x \<in> idxs (nodes ph m) then TT_POS_NULL else ix x)"
proof -
  note P = ph_invD [OF ph]
  let ?ph = "ph\<lparr>g_count := 0\<rparr>"
  have n: "nodes ?ph m = []" by (simp add: arr_items_def)
  have "heap_arr ?ph m" using arr_inv_count [OF P(2), of 0] by simp
  then have "ph_inv ?ph m ix'" for ix'
    unfolding ph_inv_def n using P(1) by (simp add: cmp_order.heap_Nil [OF P(1)] tracks_def)
  with that n show thesis using ph_clear_loop_ok [OF P(2), of 0] by (simp add: tt_ptrheap_clear_def fold_set_idx)
qed

lemma ph_destroy_ok:
  assumes ph: "ph_inv ph m ix"
  shows "\<exists>ph' m' ix'. tt_ptrheap_destroy ph m ix = Inr (ph', m', ix') \<and> mem_heap m' = mem_heap m - arr_own ph
    \<and> mem_frame (arr_own ph) m m' \<and> (\<forall>x. ix' x = (if x \<in> idxs (nodes ph m) then TT_POS_NULL else ix x))"
proof -
  obtain ix' where c: "tt_ptrheap_clear ph m ix = Inr (ph\<lparr>g_count := 0\<rparr>, ix')" "ph_inv (ph\<lparr>g_count := 0\<rparr>) m ix'"
    "\<forall>x. ix' x = (if x \<in> idxs (nodes ph m) then TT_POS_NULL else ix x)" using ph by (rule ph_clear_ok)
  show ?thesis
  proof (cases "g_p ph")
    case None
    with c(1,3) show ?thesis by (simp add: tt_ptrheap_destroy_def)
  next
    case (Some i)
    from ph_invD(2) [OF ph] Some obtain m' where "tt_memspg_compress (unat (16 :: u32)) (g_mspg ph) (g_p ph) (g_size ph) 0 m = Inr (TT_SUCCESS, None, 0, m')"
      "mem_heap m' = mem_heap m - arr_own ph" "mem_frame (arr_own ph) m m'" by (rule arr_release)
    with Some c(1,3) show ?thesis by (simp add: tt_ptrheap_destroy_def)
  qed
qed

section \<open>The heap is a priority queue\<close>

text \<open>
  A client keeps one index variable per handle, \<^verbatim>\<open>TT_POS_NULL\<close> while the handle is not in the heap, and
  removes an entry through it, as the SDK's timers do.
\<close>

type_synonym 'a ph_state = "'a tt_ptrheap \<times> 'a tt_phnode mem \<times> idx_vars"

fun ph_cancel :: "ptr \<Rightarrow> 'a ph_state \<Rightarrow> 'a ph_state run" where
  "ph_cancel None s = Inr s"
| "ph_cancel (Some x) (ph, m, ix) = (if ix x = TT_POS_NULL then Inr (ph, m, ix) else tt_ptrheap_remove ph (ix x) m ix)"

fun ph_step :: "'a pq_op \<Rightarrow> 'a ph_state \<Rightarrow> ('a answer \<times> 'a ph_state) run" where
  "ph_step (PqAdd k h) s = bindr (ph_cancel h s) (\<lambda>(ph, m, ix).
     bindr (tt_ptrheap_add (Some k) h ph m ix) (\<lambda>(r, s). Inr (if TT_OK r then Done else NoMem, s)))"
| "ph_step PqPop (ph, m, ix) =
     bindr (tt_ptrheap_pop ph m ix) (\<lambda>(x, s). Inr (case x of Some y \<Rightarrow> Got y | None \<Rightarrow> Empty, s))"
| "ph_step (PqCancel x) s = bindr (ph_cancel (Some x) s) (\<lambda>s. Inr (Done, s))"

definition ph_ok :: "('a \<Rightarrow> 'a \<Rightarrow> int) \<Rightarrow> 'a tt_phnode mem \<Rightarrow> 'a ph_state \<Rightarrow> bool" where
  "ph_ok cmp m0 s \<longleftrightarrow> (case s of (ph, m, ix) \<Rightarrow> ph_inv ph m ix \<and> h_cmp ph = cmp \<and> owns_step {} m0 (arr_own ph) m
     \<and> (\<forall>x. x \<notin> idxs (nodes ph m) \<longrightarrow> ix x = TT_POS_NULL))"

definition node_entry :: "'a tt_phnode \<Rightarrow> 'a \<times> nat option" where
  "node_entry n = (ph_p n, ph_idx n)"

definition ph_items :: "'a ph_state \<Rightarrow> 'a pq" where
  "ph_items s = (case s of (ph, m, ix) \<Rightarrow> image_mset node_entry (mset (nodes ph m)))"

lemma forget_absent: "\<forall>e \<in># M. snd e \<noteq> Some x \<Longrightarrow> forget (Some x) M = M"
  by (simp add: forget_def filter_mset_eq_conv)

lemma idx_in_heap:
  assumes ph: "ph_inv ph m ix" and x: "x \<in> idxs (nodes ph m)"
  shows "unat (ix x) < length (nodes ph m)" "ph_idx (nodes ph m ! unat (ix x)) = Some x" "ix x \<noteq> TT_POS_NULL"
proof -
  obtain k where k: "k < length (nodes ph m)" "ph_idx (nodes ph m ! k) = Some x"
    using x by (auto simp: idxs_def in_set_conv_nth)
  then have "unat (ix x) = k" using ph_invD(4) [OF ph] unfolding tracks_def by blast
  with k show i: "unat (ix x) < length (nodes ph m)" "ph_idx (nodes ph m ! unat (ix x)) = Some x" by simp_all
  have "unat (ix x) < 2 ^ 28" using i(1) heap_small [OF ph_invD(2) [OF ph]] arr_invD(9) [OF ph_invD(2) [OF ph]] by simp
  then show "ix x \<noteq> TT_POS_NULL" by (auto simp: TT_POS_NULL_def)
qed

lemma ph_cancel_ok:
  assumes ok: "ph_ok cmp m0 s"
  shows "\<exists>s'. ph_cancel h s = Inr s' \<and> ph_ok cmp m0 s' \<and> ph_items s' = forget h (ph_items s)
    \<and> (\<forall>x. h = Some x \<longrightarrow> x \<notin> idxs (nodes (fst s') (fst (snd s'))))"
proof (cases h)
  case None
  then show ?thesis using ok by (simp add: forget_def)
next
  case (Some x)
  obtain ph m ix where s: "s = (ph, m, ix)" by (cases s)
  have ph: "ph_inv ph m ix" and c: "h_cmp ph = cmp" and own: "owns_step {} m0 (arr_own ph) m"
    and out: "\<forall>x. x \<notin> idxs (nodes ph m) \<longrightarrow> ix x = TT_POS_NULL" using ok by (auto simp: ph_ok_def s)
  show ?thesis
  proof (cases "x \<in> idxs (nodes ph m)")
    case False
    then have "ix x = TT_POS_NULL" using out by blast
    moreover have "\<forall>e \<in># ph_items s. snd e \<noteq> Some x" using False by (auto simp: ph_items_def s idxs_def node_entry_def)
    ultimately show ?thesis using ok Some False by (simp add: forget_absent) (simp add: s)
  next
    case True
    note i = idx_in_heap [OF ph True]
    have lt: "unat (ix x) < unat (g_count ph)" using i(1) arr_invD(9) [OF ph_invD(2) [OF ph]] by simp
    let ?n = "nodes ph m ! unat (ix x)"
    from ph lt obtain ph' m' ix' where r: "tt_ptrheap_remove ph (ix x) m ix = Inr (ph', m', ix')" "ph_inv ph' m' ix'"
      "mset (nodes ph m) = add_mset ?n (mset (nodes ph' m'))" "owns_step (arr_own ph) m (arr_own ph') m'" "h_cmp ph' = h_cmp ph"
      "\<forall>y. ph_idx ?n = Some y \<longrightarrow> ix' y = TT_POS_NULL" "\<forall>y. y \<notin> idxs (nodes ph m) \<longrightarrow> ix' y = ix y" by (rule ph_remove_ok)
    have gone: "x \<notin> idxs (nodes ph' m')" using idx_gone [OF ph_invD(4) [OF ph] i(1,2) r(3)] .
    have "ix' y = TT_POS_NULL" if y: "y \<notin> idxs (nodes ph' m')" for y
    proof (cases "y \<in> idxs (nodes ph m)")
      case True
      have st: "set (nodes ph m) = insert ?n (set (nodes ph' m'))" using arg_cong [OF r(3), of set_mset] by simp
      have "ph_idx ?n = Some y" using True y unfolding idxs_def st by blast
      then have "y = x" using i(2) by simp
      then show ?thesis using r(6) i(2) by simp
    next
      case False
      then show ?thesis using r(7) out by simp
    qed
    then have "ph_ok cmp m0 (ph', m', ix')" using r(2,5) c owns_trans [OF own r(4)] by (simp add: ph_ok_def)
    moreover have "ph_items (ph', m', ix') = forget h (ph_items s)"
    proof -
      have "\<forall>e \<in># ph_items (ph', m', ix'). snd e \<noteq> Some x" using gone by (auto simp: ph_items_def idxs_def node_entry_def)
      then have "forget h (ph_items (ph', m', ix')) = ph_items (ph', m', ix')" using Some by (simp add: forget_absent)
      moreover have "ph_items s = add_mset (node_entry ?n) (ph_items (ph', m', ix'))" using r(3) by (simp add: ph_items_def s)
      ultimately show ?thesis using i(2) Some by (simp add: forget_def node_entry_def)
    qed
    ultimately show ?thesis using r(1) i(3) gone Some s by simp
  qed
qed

lemma same_store_ph: "ph_inv ph m ix \<Longrightarrow> mem_inv m' \<Longrightarrow> same_store m m' \<Longrightarrow> ph_inv ph m' ix \<and> nodes ph m' = nodes ph m"
  using same_store_inv [of 16 ph m m'] by (simp add: ph_inv_def)

lemma ph_step_refines:
  assumes ok: "ph_ok cmp m0 s" and lt: "Suc (size (ph_items s)) < 2 ^ 28"
  shows "\<exists>a s'. ph_step op s = Inr (a, s') \<and> ph_ok cmp m0 s' \<and> pq_spec cmp op (ph_items s) a (ph_items s')"
proof (cases op)
  case (PqAdd k h)
  obtain s1 where s1: "ph_cancel h s = Inr s1" "ph_ok cmp m0 s1" "ph_items s1 = forget h (ph_items s)"
    "\<forall>x. h = Some x \<longrightarrow> x \<notin> idxs (nodes (fst s1) (fst (snd s1)))" using ph_cancel_ok [OF ok, of h] by (elim exE conjE) (rule that)
  obtain ph m ix where s: "s1 = (ph, m, ix)" by (cases s1)
  have ph: "ph_inv ph m ix" and c: "h_cmp ph = cmp" and own: "owns_step {} m0 (arr_own ph) m"
    and out: "\<forall>x. x \<notin> idxs (nodes ph m) \<longrightarrow> ix x = TT_POS_NULL" using s1(2) by (auto simp: ph_ok_def s)
  have new: "\<forall>x. h = Some x \<longrightarrow> x \<notin> idxs (nodes ph m)" using s1(4) by (simp add: s)
  have "size (ph_items s1) \<le> size (ph_items s)" unfolding s1(3) by (rule size_forget)
  then have sz: "Suc (unat (g_count ph)) < 2 ^ 28" using lt arr_invD(9) [OF ph_invD(2) [OF ph]] by (simp add: ph_items_def s)
  from ph sz new show ?thesis
  proof (cases rule: ph_add_ok [where p = k])
    case (fail m')
    have "ph_ok cmp m0 (ph, m', ix)" "ph_items (ph, m', ix) = ph_items s1"
      using same_store_ph [OF ph fail(2,3)] owns_trans [OF own owns_same [OF fail(3)]] out c by (simp_all add: ph_ok_def ph_items_def s)
    with fail(1) s1(1,3) PqAdd s show ?thesis by (simp add: pq_spec_simps)
  next
    case r: (ok ph' m' ix')
    have "idxs (nodes ph m) \<subseteq> idxs (nodes ph' m')" unfolding idxs_def using arg_cong [OF r(3), of set_mset] by auto
    then have "ix' x = TT_POS_NULL" if "x \<notin> idxs (nodes ph' m')" for x using that r(6) out by auto
    then have "ph_ok cmp m0 (ph', m', ix')" using r(2,5) c owns_trans [OF own r(4)] by (simp add: ph_ok_def)
    moreover have "ph_items (ph', m', ix') = add_mset (k, h) (ph_items s1)"
      using r(3) by (simp add: ph_items_def s node_entry_def)
    ultimately show ?thesis using r(1) s1(1,3) PqAdd s by (simp add: pq_spec_simps)
  qed
next
  case PqPop
  obtain ph m ix where s: "s = (ph, m, ix)" by (cases s)
  have ph: "ph_inv ph m ix" and c: "h_cmp ph = cmp" and own: "owns_step {} m0 (arr_own ph) m"
    and out: "\<forall>x. x \<notin> idxs (nodes ph m) \<longrightarrow> ix x = TT_POS_NULL" using ok by (auto simp: ph_ok_def s)
  show ?thesis
  proof (cases "nodes ph m = []")
    case True
    with ph_pop_empty [OF ph] PqPop s ok show ?thesis by (simp add: pq_spec_simps ph_items_def)
  next
    case False
    let ?n = "hd (nodes ph m)"
    from ph False obtain ph' m' ix' where r: "tt_ptrheap_pop ph m ix = Inr (Some (ph_p ?n), ph', m', ix')" "ph_inv ph' m' ix'"
      "mset (nodes ph m) = add_mset ?n (mset (nodes ph' m'))" "owns_step (arr_own ph) m (arr_own ph') m'" "h_cmp ph' = h_cmp ph"
      "\<forall>x. ph_idx ?n = Some x \<longrightarrow> ix' x = TT_POS_NULL" "\<forall>x. x \<notin> idxs (nodes ph m) \<longrightarrow> ix' x = ix x"
      "\<forall>n \<in> set (nodes ph m). h_cmp ph (ph_p n) (ph_p ?n) \<le> 0" by (rule ph_pop_ok)
    have st: "set (nodes ph m) = insert ?n (set (nodes ph' m'))" using arg_cong [OF r(3), of set_mset] by simp
    have "ix' x = TT_POS_NULL" if x: "x \<notin> idxs (nodes ph' m')" for x
      using x r(6,7) out unfolding idxs_def st by (cases "ph_idx ?n = Some x") auto
    then have "ph_ok cmp m0 (ph', m', ix')" using r(2,5) c owns_trans [OF own r(4)] by (simp add: ph_ok_def)
    moreover have "ph_items s = add_mset (ph_p ?n, ph_idx ?n) (ph_items (ph', m', ix'))"
      using r(3) by (simp add: ph_items_def s node_entry_def)
    moreover have "\<forall>e \<in># ph_items (ph', m', ix'). cmp (fst e) (ph_p ?n) \<le> 0"
      using r(8) st c by (auto simp: ph_items_def node_entry_def)
    ultimately show ?thesis using r(1) PqPop s by (auto simp: pq_spec_simps)
  qed
next
  case (PqCancel x)
  with ph_cancel_ok [OF ok, of "Some x"] show ?thesis by (auto simp: pq_spec_simps)
qed

interpretation hq: pqueue "ph_ok cmp m0" ph_items cmp ph_step "2 ^ 28"
  for cmp :: "'a \<Rightarrow> 'a \<Rightarrow> int" and m0 :: "'a tt_phnode mem"
  by unfold_locales (rule ph_step_refines)

end
