(* ===== verification/TT_PtrHeap_Props.thy ===== *)
theory TT_PtrHeap_Props
  imports TT_PtrHeap_Ops TT_Vector_Props
begin

text \<open>
  The properties of the heap of pointers, each with a concrete instance.
\<close>

section \<open>From initialisation to destruction\<close>

lemma ph_init_ok:
  assumes init: "tt_ptrheap_init cmp attr = Inr ph" and ord: "cmp_order (h_cmp ph)" and ext: "unat (max_extend (g_mspg ph)) \<le> 2 ^ 30"
    and inv: "mem_inv m0" and ix: "\<forall>x. ix x = TT_POS_NULL"
  shows "ph_ok (h_cmp ph) m0 (ph, m0, ix)" "ph_items (ph, m0, ix) = {#}"
proof -
  define at where "at = (case attr of None \<Rightarrow> tt_ptrheap_attr_default | Some a \<Rightarrow> a)"
  have mul: "16 * unat (min_extent_num at) < 2 ^ 32" "16 * unat (max_extent_num at) < 2 ^ 32"
    and g: "tt_memspg_init (min_extent_num at * 16) (max_extent_num at * 16) (max_limit_num at * 16) = Inr (g_mspg ph)"
    and v: "g_p ph = None" "g_size ph = 0" "g_count ph = 0" "g_capacity ph = 0"
    using init by (auto simp: tt_ptrheap_init_def Let_def bindr_eq_Inr_iff at_def TT_U32_MUL_WOULD_OVFL_iff not_le)
  have "unat (min_extent_num at * 16) = unat (min_extent_num at) * 16" "unat (max_extent_num at * 16) = unat (max_extent_num at) * 16"
    using mul by (simp_all add: unat_mult_u32)
  then have sp: "memspg_ok 16 (g_mspg ph)"
    using g ext unfolding tt_memspg_init_ok by (simp add: memspg_ok_def unat_gt_0)
  have n: "nodes ph m0 = []" using v by (simp add: arr_items_def arr_cells_def)
  have "heap_arr ph m0" using sp v inv by (simp add: arr_inv_def points_to_def arr_cells_def)
  with ord have "ph_inv ph m0 ix" unfolding ph_inv_def n by (simp add: cmp_order.heap_Nil tracks_def)
  then show "ph_ok (h_cmp ph) m0 (ph, m0, ix)" "ph_items (ph, m0, ix) = {#}"
    using v(1) ix n by (simp_all add: ph_ok_def ph_items_def owns_refl)
qed

lemma ph_ok_destroy:
  assumes "ph_ok cmp m0 (ph, m, ix)"
  shows "\<exists>ph' m' ix'. tt_ptrheap_destroy ph m ix = Inr (ph', m', ix') \<and> mem_heap m' = mem_heap m0 \<and> mem_frame {} m0 m'
    \<and> (\<forall>x. ix' x = TT_POS_NULL)"
proof -
  have inv: "ph_inv ph m ix" and own: "mem_frame {} m0 m" "arr_own ph \<inter> dom (mem_blocks m0) \<subseteq> {}" "mem_heap m - arr_own ph = mem_heap m0"
    and out: "\<forall>x. x \<notin> idxs (nodes ph m) \<longrightarrow> ix x = TT_POS_NULL"
    using assms by (auto simp: ph_ok_def owns_step_def)
  from ph_destroy_ok [OF inv] obtain ph' m' ix' where d: "tt_ptrheap_destroy ph m ix = Inr (ph', m', ix')"
    "mem_heap m' = mem_heap m - arr_own ph" "mem_frame (arr_own ph) m m'"
    "\<forall>x. ix' x = (if x \<in> idxs (nodes ph m) then TT_POS_NULL else ix x)" by blast
  have "\<forall>x. ix' x = TT_POS_NULL" using d(4) out by simp
  with d frame_compose [OF own(1) d(3) own(2)] own(3) show ?thesis by auto
qed

section \<open>Concrete heaps\<close>

definition ph_0 :: "nat tt_ptrheap" where
  "ph_0 = \<lparr>g_p = None, g_size = 0, g_mspg = \<lparr>min_extend = 256, max_extend = 2048, max_limit = 0\<rparr>,
     g_count = 0, g_capacity = 0, h_cmp = tt_cmp_ptr\<rparr>"

lemma ph_0_init: "tt_ptrheap_init None None = Inr ph_0"
  by (simp add: tt_ptrheap_init_def Let_def tt_ptrheap_attr_default_def tt_memspg_init_def ph_0_def TT_U32_MUL_WOULD_OVFL_iff)

abbreviation h_store0 :: "nat tt_phnode mem" where "h_store0 \<equiv> no_mem \<lparr>ph_p = 0, ph_idx = None\<rparr>"

abbreviation no_handles :: idx_vars where "no_handles \<equiv> \<lambda>_. TT_POS_NULL"

text \<open>Three nodes in an array of four; the key at position 1 has just become 9, more than its parent's.\<close>

definition ph_3 :: "nat tt_ptrheap" where
  "ph_3 = ph_0\<lparr>g_p := Some 0, g_size := 64, g_count := 3, g_capacity := 4\<rparr>"

definition ph_mem :: "nat tt_phnode mem" where
  "ph_mem = h_store0\<lparr>mem_blocks := [0 \<mapsto> [\<lparr>ph_p = 5, ph_idx = None\<rparr>, \<lparr>ph_p = 9, ph_idx = Some 7\<rparr>,
     \<lparr>ph_p = 2, ph_idx = None\<rparr>, \<lparr>ph_p = 0, ph_idx = None\<rparr>]], mem_heap := {0}, mem_next := 1\<rparr>"

abbreviation ph_vars :: idx_vars where "ph_vars \<equiv> no_handles(7 := 1)"

lemma ph_3_inv: "heap_arr ph_3 ph_mem" "nodes ph_3 ph_mem = [\<lparr>ph_p = 5, ph_idx = None\<rparr>, \<lparr>ph_p = 9, ph_idx = Some 7\<rparr>, \<lparr>ph_p = 2, ph_idx = None\<rparr>]"
proof -
  have c: "arr_cells ph_3 ph_mem = [\<lparr>ph_p = 5, ph_idx = None\<rparr>, \<lparr>ph_p = 9, ph_idx = Some 7\<rparr>, \<lparr>ph_p = 2, ph_idx = None\<rparr>, \<lparr>ph_p = 0, ph_idx = None\<rparr>]"
    by (simp add: arr_cells_def ph_3_def ph_mem_def)
  then show "nodes ph_3 ph_mem = [\<lparr>ph_p = 5, ph_idx = None\<rparr>, \<lparr>ph_p = 9, ph_idx = Some 7\<rparr>, \<lparr>ph_p = 2, ph_idx = None\<rparr>]"
    by (simp add: arr_items_def ph_3_def)
  have "mem_inv ph_mem" by (simp add: mem_inv_def ph_mem_def)
  with c show "heap_arr ph_3 ph_mem"
    by (simp add: arr_inv_def points_to_def memspg_ok_def) (simp add: ph_3_def ph_0_def ph_mem_def)
qed

section \<open>Properties\<close>

text \<open>
  C28: A heap of pointers answers every sequence of additions, pops and cancellations through handles
  as a priority queue does, as long as fewer than \<open>2 ^ 28\<close> entries are in it: an addition enters the key or
  reports that there is no memory, a pop delivers a greatest key, a cancellation takes out exactly the
  entry of its handle. No loop runs forever, no step is undefined. Popping all that is left delivers it in
  descending order, and destruction frees exactly what the heap allocated.
\<close>

theorem ptrheap_refines_pqueue:
  assumes init: "tt_ptrheap_init cmp attr = Inr ph" and ord: "cmp_order (h_cmp ph)" and ext: "unat (max_extend (g_mspg ph)) \<le> 2 ^ 30"
    and inv: "mem_inv m0" and ix: "\<forall>x. ix x = TT_POS_NULL" and len: "3 * length ops < 2 ^ 28"
  shows "\<exists>as ph' m' ix' N. run_ops ph_step ops (ph, m0, ix) = Inr (as, ph', m', ix') \<and> pq_specs (h_cmp ph) ops {#} as N
    \<and> unat (tt_ptrheap_count ph') = size N
    \<and> (\<exists>ks s. run_ops ph_step (replicate (size N) PqPop) (ph', m', ix') = Inr (map Got ks, s)
         \<and> mset ks = image_mset fst N \<and> sorted_wrt (\<lambda>a b. h_cmp ph b a \<le> 0) ks)
    \<and> (\<exists>ph'' m'' ix''. tt_ptrheap_destroy ph' m' ix' = Inr (ph'', m'', ix'') \<and> mem_heap m'' = mem_heap m0 \<and> mem_frame {} m0 m'')"
proof -
  note i = ph_init_ok [OF init ord ext inv ix]
  have "size (ph_items (ph, m0, ix)) + length ops < 2 ^ 28" using len i(2) by simp
  from hq.run_refines [OF i(1) this] obtain as ph' m' ix' where r: "run_ops ph_step ops (ph, m0, ix) = Inr (as, ph', m', ix')"
    "ph_ok (h_cmp ph) m0 (ph', m', ix')" "pq_specs (h_cmp ph) ops {#} as (ph_items (ph', m', ix'))" using i(2) by auto
  have "size (ph_items (ph', m', ix')) \<le> length ops" using pq_specs_size [OF r(3)] by simp
  with hq.drain [OF r(2)] len have dr: "\<exists>ks s. run_ops ph_step (replicate (size (ph_items (ph', m', ix'))) PqPop) (ph', m', ix') = Inr (map Got ks, s)
    \<and> mset ks = image_mset fst (ph_items (ph', m', ix')) \<and> sorted_wrt (\<lambda>a b. h_cmp ph b a \<le> 0) ks" by auto
  have "unat (tt_ptrheap_count ph') = size (ph_items (ph', m', ix'))"
    using r(2) arr_invD(9) [OF ph_invD(2), of ph' m' ix'] by (auto simp: ph_ok_def ph_items_def tt_ptrheap_count_def)
  with r(1,3) dr ph_ok_destroy [OF r(2)] show ?thesis by blast
qed

theorem ptrheap_refines_pqueue_witness:
  "\<exists>as ph' m' ix' N. run_ops ph_step [PqAdd 3 (Some 0), PqAdd 8 None, PqCancel 0] (ph_0, h_store0, no_handles) = Inr (as, ph', m', ix')
    \<and> pq_specs tt_cmp_ptr [PqAdd 3 (Some 0), PqAdd 8 None, PqCancel 0] {#} as N
    \<and> unat (tt_ptrheap_count ph') = size N
    \<and> (\<exists>ks s. run_ops ph_step (replicate (size N) PqPop) (ph', m', ix') = Inr (map Got ks, s)
         \<and> mset ks = image_mset fst N \<and> sorted_wrt (\<lambda>a b. tt_cmp_ptr b a \<le> 0) ks)
    \<and> (\<exists>ph'' m'' ix''. tt_ptrheap_destroy ph' m' ix' = Inr (ph'', m'', ix'') \<and> mem_heap m'' = mem_heap h_store0 \<and> mem_frame {} h_store0 m'')"
proof -
  have c: "h_cmp ph_0 = tt_cmp_ptr" "cmp_order (h_cmp ph_0)" "unat (max_extend (g_mspg ph_0)) \<le> 2 ^ 30"
    using ptr_order.cmp_order_axioms by (simp_all add: ph_0_def)
  have "3 * length [PqAdd (3 :: nat) (Some 0), PqAdd 8 None, PqCancel 0] < 2 ^ 28" by simp
  from ptrheap_refines_pqueue [OF ph_0_init c(2,3) no_mem_inv _ this, of no_handles] show ?thesis unfolding c(1) by simp
qed

text \<open>
  C29: After every such sequence the array is in heap order, the handle of every node holds the position
  of that node in the array, all other handles hold \<^verbatim>\<open>TT_POS_NULL\<close>, and so a handle leads to its own
  node only.
\<close>

theorem ptrheap_handles:
  assumes init: "tt_ptrheap_init cmp attr = Inr ph" and ord: "cmp_order (h_cmp ph)" and ext: "unat (max_extend (g_mspg ph)) \<le> 2 ^ 30"
    and inv: "mem_inv m0" and ix: "\<forall>x. ix x = TT_POS_NULL" and len: "length ops < 2 ^ 28"
    and run: "run_ops ph_step ops (ph, m0, ix) = Inr (as, ph', m', ix')"
  shows "(\<forall>k. 0 < k \<and> k < length (nodes ph' m') \<longrightarrow> h_cmp ph (ph_p (nodes ph' m' ! k)) (ph_p (nodes ph' m' ! ((k - 1) div 2))) \<le> 0)
    \<and> (\<forall>k < length (nodes ph' m'). \<forall>x. ph_idx (nodes ph' m' ! k) = Some x \<longleftrightarrow> unat (ix' x) = k)
    \<and> (\<forall>x. ix' x \<noteq> TT_POS_NULL \<longrightarrow> unat (ix' x) < length (nodes ph' m'))"
proof -
  note i = ph_init_ok [OF init ord ext inv ix]
  have "size (ph_items (ph, m0, ix)) + length ops < 2 ^ 28" using len i(2) by simp
  from hq.run_refines [OF i(1) this] run have ok: "ph_ok (h_cmp ph) m0 (ph', m', ix')" by simp
  then have ph: "ph_inv ph' m' ix'" and c: "h_cmp ph' = h_cmp ph"
    and out: "\<forall>x. x \<notin> idxs (nodes ph' m') \<longrightarrow> ix' x = TT_POS_NULL" by (auto simp: ph_ok_def)
  note P = ph_invD [OF ph]
  have order: "\<forall>k. 0 < k \<and> k < length (nodes ph' m') \<longrightarrow> h_cmp ph (ph_p (nodes ph' m' ! k)) (ph_p (nodes ph' m' ! ((k - 1) div 2))) \<le> 0"
  proof (intro allI impI)
    fix k
    assume k: "0 < k \<and> k < length (nodes ph' m')"
    then have "(k - 1) div 2 < length (nodes ph' m')" by linarith
    with k spec [OF P(3) [unfolded cmp_order.heap_def [OF P(1)] cmp_order.below_def [OF P(1)] hparent_def, unfolded c], of k]
    show "h_cmp ph (ph_p (nodes ph' m' ! k)) (ph_p (nodes ph' m' ! ((k - 1) div 2))) \<le> 0" by simp
  qed
  have inside: "x \<in> idxs (nodes ph' m')" if "unat (ix' x) < length (nodes ph' m')" for x
  proof (rule ccontr)
    assume "x \<notin> idxs (nodes ph' m')"
    with out that heap_small [OF P(2)] arr_invD(9) [OF P(2)] show False by (simp add: TT_POS_NULL_def)
  qed
  have "ph_idx (nodes ph' m' ! k) = Some x \<longleftrightarrow> unat (ix' x) = k" if "k < length (nodes ph' m')" for k x
    using that idx_in_heap(2) [OF ph inside] P(4) unfolding tracks_def by blast
  with order idx_in_heap(1) [OF ph] out show ?thesis by blast
qed

theorem ptrheap_handles_witness:
  "\<exists>as ph' m' ix'. run_ops ph_step [PqAdd 3 (Some 0), PqAdd 8 (Some 1)] (ph_0, h_store0, no_handles) = Inr (as, ph', m', ix')
    \<and> (\<forall>k < length (nodes ph' m'). \<forall>x. ph_idx (nodes ph' m' ! k) = Some x \<longleftrightarrow> unat (ix' x) = k)"
proof -
  have c: "cmp_order (h_cmp ph_0)" "unat (max_extend (g_mspg ph_0)) \<le> 2 ^ 30"
    using ptr_order.cmp_order_axioms by (simp_all add: ph_0_def)
  note i = ph_init_ok [OF ph_0_init c no_mem_inv, of no_handles "\<lparr>ph_p = 0, ph_idx = None\<rparr>"]
  have l: "length [PqAdd (3 :: nat) (Some 0), PqAdd 8 (Some 1)] < 2 ^ 28" by simp
  from hq.run_refines [OF i(1), of "[PqAdd (3 :: nat) (Some 0), PqAdd 8 (Some 1)]"] i(2) l obtain as ph' m' ix' where
    r: "run_ops ph_step [PqAdd 3 (Some 0), PqAdd 8 (Some 1)] (ph_0, h_store0, no_handles) = Inr (as, ph', m', ix')" by auto
  from ptrheap_handles [OF ph_0_init c no_mem_inv _ l r] r show ?thesis by blast
qed

text \<open>
  C30: \<^verbatim>\<open>tt_ptrheap_fix\<close> repairs the heap after the key of the node at a position changed to any value:
  when all other nodes are in order with respect to each other, it returns with the same nodes in heap
  order and the handles updated. \<^verbatim>\<open>tt_ptrheap_head\<close> then is a greatest key and
  \<^verbatim>\<open>tt_ptrheap_contain\<close> decides whether a key is in the heap; both change nothing.
\<close>

theorem ptrheap_fix_spec:
  assumes "cmp_order (h_cmp ph)" "heap_arr ph m" "idx < g_count ph" "tracks (nodes ph m) ix"
    and others: "cmp_order.free_at (h_cmp ph) (keys ph m) (unat idx)"
  shows "\<exists>m' ix'. tt_ptrheap_fix ph idx m ix = Inr (m', ix') \<and> mset (nodes ph m') = mset (nodes ph m)
    \<and> cmp_order.heap (h_cmp ph) (keys ph m') \<and> tracks (nodes ph m') ix' \<and> owns_step (arr_own ph) m (arr_own ph) m'
    \<and> (\<exists>k. tt_ptrheap_head ph m' = Inr (Some k) \<and> (\<forall>n \<in> set (nodes ph m). h_cmp ph (ph_p n) k \<le> 0))
    \<and> tt_ptrheap_contain ph p m' = Inr (\<exists>n \<in> set (nodes ph m). h_cmp ph (ph_p n) p = 0)"
proof -
  have lt: "unat idx < unat (g_count ph)" using assms(3) by (simp add: word_less_nat_alt)
  from ph_fix_ok [OF assms(1,2) lt assms(4) others] obtain m' ix' where f: "tt_ptrheap_fix ph idx m ix = Inr (m', ix')" "ph_inv ph m' ix'"
    "mset (nodes ph m') = mset (nodes ph m)" "owns_step (arr_own ph) m (arr_own ph) m'" by blast
  note P = ph_invD [OF f(2)]
  have st: "set (nodes ph m') = set (nodes ph m)" using f(3) by (rule mset_eq_setD)
  have ne: "nodes ph m' \<noteq> []" using lt arr_invD(9) [OF P(2)] by auto
  have "\<forall>n \<in> set (nodes ph m'). h_cmp ph (ph_p n) (ph_p (hd (nodes ph m'))) \<le> 0"
    using ph_root [OF f(2)] ne by (auto simp: in_set_conv_nth hd_conv_nth)
  with ph_head_ok [OF f(2)] ph_contain_ok [OF P(2)] f P ne st show ?thesis by simp
qed

theorem ptrheap_fix_spec_witness:
  "\<exists>m' ix'. tt_ptrheap_fix ph_3 1 ph_mem ph_vars = Inr (m', ix') \<and> mset (nodes ph_3 m') = mset (nodes ph_3 ph_mem)
    \<and> cmp_order.heap tt_cmp_ptr (keys ph_3 m') \<and> tracks (nodes ph_3 m') ix' \<and> tt_ptrheap_contain ph_3 9 m' = Inr True"
proof -
  have c: "h_cmp ph_3 = tt_cmp_ptr" by (simp add: ph_3_def ph_0_def)
  then have "cmp_order (h_cmp ph_3)" using ptr_order.cmp_order_axioms by simp
  moreover have "(1 :: u32) < g_count ph_3" by (simp add: ph_3_def)
  moreover have "tracks (nodes ph_3 ph_mem) ph_vars" by (auto simp: ph_3_inv(2) tracks_def less_Suc_eq numeral_3_eq_3)
  moreover have "cmp_order.free_at (h_cmp ph_3) (keys ph_3 ph_mem) (unat (1 :: u32))"
    unfolding c ptr_order.free_at_def ptr_order.below_def by (auto simp: ph_3_inv(2) hparent_def less_Suc_eq numeral_3_eq_3 tt_cmp_ptr_def)
  ultimately show ?thesis using ptrheap_fix_spec [of ph_3 ph_mem 1 ph_vars 9, OF _ ph_3_inv(1)] unfolding c
    by (auto simp: ph_3_inv(2) tt_cmp_ptr_def)
qed

end
