(* ===== verification/TT_BinarySearch.thy ===== *)
theory TT_BinarySearch
  imports TT_Heap_Order
begin

text \<open>
  The binary searches of \<^verbatim>\<open>algorithm/tt_binary_search.c\<close>. The array is the list of its objects; a
  pointer into it is its distance from \<^verbatim>\<open>base\<close> in bytes, an integer because the downward scan steps below
  the base. Products of counts and widths are 32-bit, as in the code. The recursion is the
  \<^verbatim>\<open>sub_search\<close> label; \<open>None\<close> is a search that never returns.
\<close>

section \<open>Objects of the array\<close>

definition SHORT_THRESHOLD :: u32 where "SHORT_THRESHOLD = 8"

text \<open>The object \<^verbatim>\<open>cmp\<close> is given.\<close>

definition obj_at :: "u32 \<Rightarrow> 'a list \<Rightarrow> int \<Rightarrow> 'a run" where
  "obj_at w xs off = (if 0 \<le> off \<and> off mod uint w = 0 \<and> nat (off div uint w) < length xs
     then Inr (xs ! nat (off div uint w)) else Inl Undef)"

definition last_off :: "u32 \<Rightarrow> u32 \<Rightarrow> int" where
  "last_off num w = uint ((num - 1) * w)"

section \<open>Scans of short arrays\<close>

text \<open>The loops over \<^verbatim>\<open>pos\<close>, upwards while \<^verbatim>\<open>pos <= end\<close> and downwards while \<^verbatim>\<open>pos >= start\<close>.\<close>

partial_function (option) scan_up :: "('a \<Rightarrow> bool run) \<Rightarrow> u32 \<Rightarrow> 'a list \<Rightarrow> int \<Rightarrow> int \<Rightarrow> int option run option" where
  "scan_up hit w xs pos end =
    (if pos \<le> end then
       (case bindr (obj_at w xs pos) hit of
          Inl f \<Rightarrow> Some (Inl f)
        | Inr h \<Rightarrow> if h then Some (Inr (Some pos)) else scan_up hit w xs (pos + uint w) end)
     else Some (Inr None))"

partial_function (option) scan_down :: "('a \<Rightarrow> bool run) \<Rightarrow> u32 \<Rightarrow> 'a list \<Rightarrow> int \<Rightarrow> int \<Rightarrow> int option run option" where
  "scan_down hit w xs pos start =
    (if pos \<ge> start then
       (case bindr (obj_at w xs pos) hit of
          Inl f \<Rightarrow> Some (Inl f)
        | Inr h \<Rightarrow> if h then Some (Inr (Some pos)) else scan_down hit w xs (pos - uint w) start)
     else Some (Inr None))"

definition short_bsearch :: "'k \<Rightarrow> 'a list \<Rightarrow> u32 \<Rightarrow> u32 \<Rightarrow> ('k \<Rightarrow> 'a \<Rightarrow> int) \<Rightarrow> int option run option" where
  "short_bsearch key xs num w cmp = scan_up (\<lambda>x. Inr (cmp key x = 0)) w xs 0 (last_off num w)"

definition short_bsearch_gteq :: "'k \<Rightarrow> 'a list \<Rightarrow> u32 \<Rightarrow> u32 \<Rightarrow> ('k \<Rightarrow> 'a \<Rightarrow> int) \<Rightarrow> int option run option" where
  "short_bsearch_gteq key xs num w cmp = scan_up (\<lambda>x. Inr (cmp key x \<le> 0)) w xs 0 (last_off num w)"

definition short_bsearch_lteq :: "'k \<Rightarrow> 'a list \<Rightarrow> u32 \<Rightarrow> u32 \<Rightarrow> ('k \<Rightarrow> 'a \<Rightarrow> int) \<Rightarrow> int option run option" where
  "short_bsearch_lteq key xs num w cmp = scan_down (\<lambda>x. Inr (cmp key x \<ge> 0)) w xs (last_off num w) 0"

section \<open>Halving\<close>

definition sub_count :: "u32 \<Rightarrow> int \<Rightarrow> int \<Rightarrow> u32" where
  "sub_count w start end = word_of_int ((end - start) div uint w + 1)"

definition sub_middle :: "u32 \<Rightarrow> int \<Rightarrow> u32 \<Rightarrow> int" where
  "sub_middle w start n = start + uint (drop_bit 1 n * w)"

partial_function (option) bsearch_sub ::
  "'k \<Rightarrow> 'a list \<Rightarrow> u32 \<Rightarrow> u32 \<Rightarrow> ('k \<Rightarrow> 'a \<Rightarrow> int) \<Rightarrow> int \<Rightarrow> int \<Rightarrow> int option run option" where
  "bsearch_sub key xs num w cmp start end =
    (let n = sub_count w start end in
     if n \<le> SHORT_THRESHOLD then short_bsearch key xs num w cmp
     else
       let middle = sub_middle w start n in
       (case obj_at w xs middle of
          Inl f \<Rightarrow> Some (Inl f)
        | Inr x \<Rightarrow>
          if cmp key x < 0 then
            (if start < middle then bsearch_sub key xs num w cmp start (middle - uint w) else Some (Inr None))
          else if cmp key x > 0 then
            (if middle < end then bsearch_sub key xs num w cmp (middle + uint w) end else Some (Inr None))
          else Some (Inr (Some middle))))"

partial_function (option) bsearch_gteq_sub ::
  "'k \<Rightarrow> 'a list \<Rightarrow> u32 \<Rightarrow> u32 \<Rightarrow> ('k \<Rightarrow> 'a \<Rightarrow> int) \<Rightarrow> int \<Rightarrow> int \<Rightarrow> int option run option" where
  "bsearch_gteq_sub key xs num w cmp start end =
    (let n = sub_count w start end in
     if n \<le> SHORT_THRESHOLD then short_bsearch_gteq key xs num w cmp
     else
       let middle = sub_middle w start n in
       (case obj_at w xs middle of
          Inl f \<Rightarrow> Some (Inl f)
        | Inr x \<Rightarrow>
          if cmp key x < 0 then
            (if start < middle then
               let end = middle - uint w in
               (case obj_at w xs end of
                  Inl f \<Rightarrow> Some (Inl f)
                | Inr y \<Rightarrow>
                  if cmp key y > 0 then Some (Inr (Some middle))
                  else bsearch_gteq_sub key xs num w cmp start end)
             else Some (Inr (Some middle)))
          else if cmp key x > 0 then
            (if middle < end then bsearch_gteq_sub key xs num w cmp (middle + uint w) end else Some (Inr None))
          else Some (Inr (Some middle))))"

partial_function (option) bsearch_lteq_sub ::
  "'k \<Rightarrow> 'a list \<Rightarrow> u32 \<Rightarrow> u32 \<Rightarrow> ('k \<Rightarrow> 'a \<Rightarrow> int) \<Rightarrow> int \<Rightarrow> int \<Rightarrow> int option run option" where
  "bsearch_lteq_sub key xs num w cmp start end =
    (let n = sub_count w start end in
     if n \<le> SHORT_THRESHOLD then short_bsearch_lteq key xs num w cmp
     else
       let middle = sub_middle w start n in
       (case obj_at w xs middle of
          Inl f \<Rightarrow> Some (Inl f)
        | Inr x \<Rightarrow>
          if cmp key x < 0 then
            (if start < middle then bsearch_lteq_sub key xs num w cmp start (middle - uint w) else Some (Inr None))
          else if cmp key x > 0 then
            (if middle < end then
               let start = middle + uint w in
               (case obj_at w xs start of
                  Inl f \<Rightarrow> Some (Inl f)
                | Inr y \<Rightarrow>
                  if cmp key y < 0 then Some (Inr (Some middle))
                  else bsearch_lteq_sub key xs num w cmp start end)
             else Some (Inr (Some middle)))
          else Some (Inr (Some middle))))"

definition search_args :: "u32 \<Rightarrow> u32 \<Rightarrow> unit run" where
  "search_args num w = bindr (TT_ASSERT (num \<noteq> 0)) (\<lambda>_. TT_ASSERT (w \<noteq> 0))"

definition tt_bsearch :: "'k \<Rightarrow> 'a list \<Rightarrow> u32 \<Rightarrow> u32 \<Rightarrow> ('k \<Rightarrow> 'a \<Rightarrow> int) \<Rightarrow> int option run" where
  "tt_bsearch key xs num w cmp =
    bindr (search_args num w) (\<lambda>_. returned (bsearch_sub key xs num w cmp 0 (last_off num w)))"

definition tt_bsearch_gteq :: "'k \<Rightarrow> 'a list \<Rightarrow> u32 \<Rightarrow> u32 \<Rightarrow> ('k \<Rightarrow> 'a \<Rightarrow> int) \<Rightarrow> int option run" where
  "tt_bsearch_gteq key xs num w cmp =
    bindr (search_args num w) (\<lambda>_. returned (bsearch_gteq_sub key xs num w cmp 0 (last_off num w)))"

definition tt_bsearch_lteq :: "'k \<Rightarrow> 'a list \<Rightarrow> u32 \<Rightarrow> u32 \<Rightarrow> ('k \<Rightarrow> 'a \<Rightarrow> int) \<Rightarrow> int option run" where
  "tt_bsearch_lteq key xs num w cmp =
    bindr (search_args num w) (\<lambda>_. returned (bsearch_lteq_sub key xs num w cmp 0 (last_off num w)))"

section \<open>Offsets of indices\<close>

text \<open>An array whose bytes can be counted with 32 bits.\<close>

definition search_array :: "u32 \<Rightarrow> u32 \<Rightarrow> 'a list \<Rightarrow> bool" where
  "search_array num w xs \<longleftrightarrow> 0 < unat w \<and> unat num = length xs \<and> xs \<noteq> [] \<and> length xs * unat w \<le> 2 ^ 32"

definition off :: "u32 \<Rightarrow> nat \<Rightarrow> int" where "off w i = int i * uint w"

lemma obj_off: "0 < unat w \<Longrightarrow> i < length xs \<Longrightarrow> obj_at w xs (off w i) = Inr (xs ! i)"
  by (simp add: off_def obj_at_def unat_gt_0 word_neq_0_conv uint_0_iff)

lemma last_off:
  assumes "search_array num w xs"
  shows "last_off num w = off w (length xs - 1)"
proof -
  have n: "0 < unat num" "unat num = length xs" using assms by (simp_all add: search_array_def)
  have m: "unat (num - 1) = length xs - 1" using unat_sub_u32 [of 1 num] n by (simp add: Suc_le_eq)
  have "(length xs - 1) * unat w < length xs * unat w" using n assms by (simp add: search_array_def)
  moreover have "length xs * unat w \<le> 4294967296" using assms by (simp add: search_array_def)
  ultimately have "unat (num - 1) * unat w < 4294967296" unfolding m by (rule less_le_trans)
  then have "unat ((num - 1) * w) = (length xs - 1) * unat w" using m by (simp add: unat_mult_u32)
  then have "uint ((num - 1) * w) = int ((length xs - 1) * unat w)" by (metis int_nat_eq unat_eq_nat_uint uint_ge_0 nat_0_le)
  then show ?thesis by (simp add: last_off_def off_def)
qed

lemma w_pos: "0 < unat w \<Longrightarrow> 0 < uint w"
  unfolding uint_nat by (simp only: of_nat_0_less_iff)

lemma off_le: "0 < unat w \<Longrightarrow> off w i \<le> off w j \<longleftrightarrow> i \<le> j" "0 < unat w \<Longrightarrow> off w i < off w j \<longleftrightarrow> i < j"
  using w_pos [of w] by (simp_all add: off_def mult_le_cancel_right mult_less_cancel_right)

lemma off_suc: "off w i + uint w = off w (Suc i)" "0 < i \<Longrightarrow> off w i - uint w = off w (i - 1)"
  by (simp_all add: off_def algebra_simps of_nat_diff)

text \<open>The middle of the indices \<open>a\<close> to \<open>b\<close>.\<close>

lemma sub_middle_ok:
  assumes arr: "search_array num w xs" and ab: "a \<le> b" "b < length xs"
  shows "sub_count w (off w a) (off w b) \<le> SHORT_THRESHOLD \<longleftrightarrow> b - a < 8"
    "sub_middle w (off w a) (sub_count w (off w a) (off w b)) = off w (a + Suc (b - a) div 2)"
proof -
  have w: "0 < unat w" and l: "length xs < 4294967296" "length xs * unat w \<le> 4294967296"
    using arr unat_lt_32 [of num] by (simp_all add: search_array_def)
  have "off w b - off w a = int (b - a) * uint w" using ab by (simp add: off_def of_nat_diff left_diff_distrib)
  then have "(off w b - off w a) div uint w + 1 = int (Suc (b - a))" using w_pos [OF w] by simp
  then have "sub_count w (off w a) (off w b) = of_nat (Suc (b - a))" by (simp only: sub_count_def of_int_of_nat_eq)
  moreover have "Suc (b - a) < 4294967296" using ab l(1) by linarith
  ultimately have n: "unat (sub_count w (off w a) (off w b)) = Suc (b - a)" by (simp only: unat_of_nat) simp
  then show "sub_count w (off w a) (off w b) \<le> SHORT_THRESHOLD \<longleftrightarrow> b - a < 8"
    by (auto simp: SHORT_THRESHOLD_def word_le_nat_alt)
  let ?n = "sub_count w (off w a) (off w b)"
  have h: "unat (drop_bit 1 ?n) = Suc (b - a) div 2" using n by (simp add: drop_bit_eq_div unat_div_distrib)
  have "Suc (b - a) div 2 < length xs" using ab by linarith
  then have "Suc (b - a) div 2 * unat w < length xs * unat w" using w by simp
  then have "Suc (b - a) div 2 * unat w < 4294967296" using l(2) by (rule less_le_trans)
  then have "unat (drop_bit 1 ?n * w) = Suc (b - a) div 2 * unat w" using h by (simp add: unat_mult_u32)
  then have "uint (drop_bit 1 ?n * w) = int (Suc (b - a) div 2) * uint w" by (metis of_nat_mult uint_nat)
  then show "sub_middle w (off w a) ?n = off w (a + Suc (b - a) div 2)"
    by (simp add: sub_middle_def off_def algebra_simps)
qed

section \<open>Scans\<close>

lemma scan_up_ok:
  assumes arr: "search_array num w xs" and i: "i \<le> length xs"
  shows "scan_up (\<lambda>x. Inr (P x)) w xs (off w i) (last_off num w) = Some (Inr (map_option (off w) (find (\<lambda>k. P (xs ! k)) [i..<length xs])))"
  using i
proof (induction "length xs - i" arbitrary: i)
  case 0
  then have "i = length xs" by simp
  moreover have "\<not> off w (length xs) \<le> off w (length xs - 1)"
    using arr off_le(1) [of w "length xs" "length xs - 1"] by (cases xs) (simp_all add: search_array_def)
  ultimately show ?case unfolding last_off [OF arr] by (subst scan_up.simps) simp
next
  case (Suc n)
  have w: "0 < unat w" using arr by (simp add: search_array_def)
  have i: "i < length xs" "off w i \<le> off w (length xs - 1)" using Suc.hyps(2) off_le(1) [OF w, of i "length xs - 1"] by simp_all
  have "[i..<length xs] = i # [Suc i..<length xs]" using i(1) by (rule upt_conv_Cons)
  with Suc.hyps(1) [of "Suc i"] Suc.hyps(2) i show ?case
    unfolding last_off [OF arr] by (subst scan_up.simps) (simp add: obj_off [OF w] off_suc)
qed

lemma scan_down_ok:
  assumes arr: "search_array num w xs" and i: "i \<le> length xs"
  shows "scan_down (\<lambda>x. Inr (P x)) w xs ((int i - 1) * uint w) 0 = Some (Inr (map_option (off w) (find (\<lambda>k. P (xs ! k)) (rev [0..<i]))))"
  using i
proof (induction i)
  case 0
  have "0 < unat w" using arr by (simp add: search_array_def)
  then show ?case using w_pos [of w] by (subst scan_down.simps) simp
next
  case (Suc i)
  have w: "0 < unat w" using arr by (simp add: search_array_def)
  have e: "(int (Suc i) - 1) * uint w = off w i" and o: "off w i - uint w = (int i - 1) * uint w" "0 \<le> off w i"
    by (simp_all add: off_def algebra_simps)
  have x: "obj_at w xs (off w i) = Inr (xs ! i)" using Suc.prems by (intro obj_off [OF w]) simp
  show ?case unfolding e using Suc o x by (subst scan_down.simps) simp
qed

section \<open>What the searches return\<close>

definition found_eq :: "('k \<Rightarrow> 'a \<Rightarrow> int) \<Rightarrow> 'k \<Rightarrow> u32 \<Rightarrow> 'a list \<Rightarrow> int option \<Rightarrow> bool" where
  "found_eq cmp key w xs r \<longleftrightarrow> (case r of
     Some p \<Rightarrow> \<exists>k < length xs. p = off w k \<and> cmp key (xs ! k) = 0 | None \<Rightarrow> \<forall>x \<in> set xs. cmp key x \<noteq> 0)"

definition found_ge :: "('k \<Rightarrow> 'a \<Rightarrow> int) \<Rightarrow> 'k \<Rightarrow> u32 \<Rightarrow> 'a list \<Rightarrow> int option \<Rightarrow> bool" where
  "found_ge cmp key w xs r \<longleftrightarrow> (case r of
     Some p \<Rightarrow> \<exists>k < length xs. p = off w k \<and> cmp key (xs ! k) \<le> 0
       \<and> (\<forall>i < k. cmp key (xs ! i) \<ge> 0 \<and> (cmp key (xs ! k) < 0 \<longrightarrow> cmp key (xs ! i) > 0))
   | None \<Rightarrow> \<forall>x \<in> set xs. cmp key x > 0)"

definition found_le :: "('k \<Rightarrow> 'a \<Rightarrow> int) \<Rightarrow> 'k \<Rightarrow> u32 \<Rightarrow> 'a list \<Rightarrow> int option \<Rightarrow> bool" where
  "found_le cmp key w xs r \<longleftrightarrow> (case r of
     Some p \<Rightarrow> \<exists>k < length xs. p = off w k \<and> cmp key (xs ! k) \<ge> 0
       \<and> (\<forall>i. k < i \<and> i < length xs \<longrightarrow> cmp key (xs ! i) \<le> 0 \<and> (cmp key (xs ! k) > 0 \<longrightarrow> cmp key (xs ! i) < 0))
   | None \<Rightarrow> \<forall>x \<in> set xs. cmp key x < 0)"

lemma found_eqI: "k < length xs \<Longrightarrow> cmp key (xs ! k) = 0 \<Longrightarrow> found_eq cmp key w xs (Some (off w k))"
  by (auto simp: found_eq_def)

lemma found_geI: "k < length xs \<Longrightarrow> cmp key (xs ! k) \<le> 0 \<Longrightarrow> (\<And>i. i < k \<Longrightarrow> cmp key (xs ! i) \<ge> 0 \<and> (cmp key (xs ! k) < 0 \<longrightarrow> cmp key (xs ! i) > 0))
    \<Longrightarrow> found_ge cmp key w xs (Some (off w k))"
  by (auto simp: found_ge_def)

lemma found_leI: "k < length xs \<Longrightarrow> cmp key (xs ! k) \<ge> 0 \<Longrightarrow> (\<And>i. k < i \<Longrightarrow> i < length xs \<Longrightarrow> cmp key (xs ! i) \<le> 0 \<and> (cmp key (xs ! k) > 0 \<longrightarrow> cmp key (xs ! i) < 0))
    \<Longrightarrow> found_le cmp key w xs (Some (off w k))"
  by (auto simp: found_le_def)

text \<open>The comparison of the key with the objects changes its sign at most once along the array.\<close>

definition graded :: "('k \<Rightarrow> 'a \<Rightarrow> int) \<Rightarrow> 'k \<Rightarrow> 'a list \<Rightarrow> bool" where
  "graded cmp key xs \<longleftrightarrow> (\<forall>i j. i < j \<and> j < length xs \<longrightarrow>
     (cmp key (xs ! i) \<le> 0 \<longrightarrow> cmp key (xs ! j) \<le> 0) \<and> (cmp key (xs ! i) < 0 \<longrightarrow> cmp key (xs ! j) < 0))"

lemma sorted_graded:
  assumes cmp: "cmp_order cmp" and s: "sorted_wrt (\<lambda>x y. cmp x y \<le> 0) xs"
  shows "graded cmp key xs"
  unfolding graded_def
proof (intro allI impI, elim conjE)
  fix i j
  assume "i < j" "j < length xs"
  then have c: "cmp (xs ! i) (xs ! j) \<le> 0" using s by (simp add: sorted_wrt_iff_nth_less)
  note le_trans = cmp_order.le_trans [OF cmp] and sign = cmp_order.sign [OF cmp] and flip = cmp_order.flip [OF cmp]
  have "cmp key (xs ! j) < 0" if "cmp key (xs ! i) < 0"
  proof (rule ccontr)
    assume "\<not> ?thesis"
    then have "cmp (xs ! j) key \<le> 0" using flip by (simp add: not_less)
    with le_trans [OF c] have "cmp (xs ! i) key \<le> 0" by blast
    with that sign [of key "xs ! i"] show False by simp
  qed
  with le_trans [OF _ c] show "(cmp key (xs ! i) \<le> 0 \<longrightarrow> cmp key (xs ! j) \<le> 0) \<and> (cmp key (xs ! i) < 0 \<longrightarrow> cmp key (xs ! j) < 0)"
    by blast
qed

lemma short_ok:
  assumes arr: "search_array num w xs"
  shows "\<exists>r. short_bsearch key xs num w cmp = Some (Inr r) \<and> found_eq cmp key w xs r"
    "\<exists>r. short_bsearch_gteq key xs num w cmp = Some (Inr r) \<and> found_ge cmp key w xs r"
    "\<exists>r. short_bsearch_lteq key xs num w cmp = Some (Inr r) \<and> found_le cmp key w xs r"
proof -
  have s: "scan_up (\<lambda>x. Inr (P x)) w xs 0 (last_off num w) = Some (Inr (map_option (off w) (find (\<lambda>k. P (xs ! k)) [0..<length xs])))" for P
    using scan_up_ok [OF arr, of 0 P] by (simp add: off_def)
  have f: "case find (\<lambda>k. P (xs ! k)) [0..<length xs] of None \<Rightarrow> \<forall>x \<in> set xs. \<not> P x | Some k \<Rightarrow> k < length xs \<and> P (xs ! k) \<and> (\<forall>i < k. \<not> P (xs ! i))" for P
    by (auto simp: find_None_iff find_Some_iff in_set_conv_nth split: option.split)
  have "last_off num w = (int (length xs) - 1) * uint w"
    using arr last_off [OF arr] by (simp add: search_array_def off_def of_nat_diff Suc_le_eq)
  then have d: "scan_down (\<lambda>x. Inr (P x)) w xs (last_off num w) 0 = Some (Inr (map_option (off w) (find (\<lambda>k. P (xs ! k)) (rev [0..<length xs]))))" for P
    using scan_down_ok [OF arr order_refl, of P] by simp
  have g: "case find (\<lambda>k. P (xs ! k)) (rev [0..<length xs]) of None \<Rightarrow> \<forall>x \<in> set xs. \<not> P x
      | Some k \<Rightarrow> k < length xs \<and> P (xs ! k) \<and> (\<forall>i. k < i \<and> i < length xs \<longrightarrow> \<not> P (xs ! i))" for P
  proof (cases "find (\<lambda>k. P (xs ! k)) (rev [0..<length xs])")
    case None
    then have "\<forall>x \<in> set xs. \<not> P x" by (auto simp: find_None_iff in_set_conv_nth)
    with None show ?thesis by simp
  next
    case (Some k)
    then obtain j where j: "j < length xs" "P (xs ! k)" "k = length xs - Suc j" "\<forall>i < j. \<not> P (xs ! (length xs - Suc i))"
      by (auto simp: find_Some_iff rev_nth)
    have "\<not> P (xs ! i)" if "k < i" "i < length xs" for i
      using spec [OF j(4), of "length xs - Suc i"] that j(1,3) by simp
    with j Some show ?thesis by auto
  qed
  show "\<exists>r. short_bsearch key xs num w cmp = Some (Inr r) \<and> found_eq cmp key w xs r"
    using f [of "\<lambda>x. cmp key x = 0"] unfolding short_bsearch_def s by (auto simp: found_eq_def split: option.splits)
  show "\<exists>r. short_bsearch_gteq key xs num w cmp = Some (Inr r) \<and> found_ge cmp key w xs r"
    using f [of "\<lambda>x. cmp key x \<le> 0"] unfolding short_bsearch_gteq_def s by (auto simp: found_ge_def not_le split: option.splits intro: less_imp_le)
  show "\<exists>r. short_bsearch_lteq key xs num w cmp = Some (Inr r) \<and> found_le cmp key w xs r"
    using g [of "\<lambda>x. cmp key x \<ge> 0"] unfolding short_bsearch_lteq_def d by (auto simp: found_le_def not_le split: option.splits intro: less_imp_le)
qed

section \<open>The searches\<close>

text \<open>With more than eight objects the middle lies strictly inside.\<close>

lemma halving:
  assumes arr: "search_array num w xs" and ab: "a \<le> b" "b < length xs" and n: "\<not> sub_count w (off w a) (off w b) \<le> SHORT_THRESHOLD"
  obtains m where "a < m" "m < b" "sub_middle w (off w a) (sub_count w (off w a) (off w b)) = off w m"
    "obj_at w xs (off w m) = Inr (xs ! m)" "obj_at w xs (off w m - uint w) = Inr (xs ! (m - 1))" "obj_at w xs (off w m + uint w) = Inr (xs ! Suc m)"
    "off w m - uint w = off w (m - 1)" "off w m + uint w = off w (Suc m)" "off w a < off w m" "off w m < off w b"
proof -
  have w: "0 < unat w" using arr by (simp add: search_array_def)
  let ?m = "a + Suc (b - a) div 2"
  have m: "a < ?m" "?m < b" "sub_middle w (off w a) (sub_count w (off w a) (off w b)) = off w ?m"
    using sub_middle_ok [OF arr ab] n by simp_all
  have o: "off w ?m - uint w = off w (?m - 1)" "off w ?m + uint w = off w (Suc ?m)" using off_suc(1) [of w ?m] off_suc(2) [of ?m w] m(1) by simp_all
  have "obj_at w xs (off w ?m) = Inr (xs ! ?m)" "obj_at w xs (off w (?m - 1)) = Inr (xs ! (?m - 1))" "obj_at w xs (off w (Suc ?m)) = Inr (xs ! Suc ?m)"
    using m(1,2) ab(2) by (intro obj_off [OF w]; linarith)+
  then show thesis using that [OF m] m(1,2) off_le(2) [OF w] o by simp
qed

lemma bsearch_sub_ok:
  assumes arr: "search_array num w xs" and ab: "a \<le> b" "b < length xs"
  shows "\<exists>r. bsearch_sub key xs num w cmp (off w a) (off w b) = Some (Inr r) \<and> found_eq cmp key w xs r"
  using ab
proof (induction "b - a" arbitrary: a b rule: less_induct)
  case less
  show ?case
  proof (cases "sub_count w (off w a) (off w b) \<le> SHORT_THRESHOLD")
    case True
    then show ?thesis using short_ok(1) [OF arr] by (subst bsearch_sub.simps) (simp add: Let_def)
  next
    case False
    from arr less(2,3) False obtain m where m: "a < m" "m < b" "sub_middle w (off w a) (sub_count w (off w a) (off w b)) = off w m"
      "obj_at w xs (off w m) = Inr (xs ! m)" "obj_at w xs (off w m - uint w) = Inr (xs ! (m - 1))" "obj_at w xs (off w m + uint w) = Inr (xs ! Suc m)"
      "off w m - uint w = off w (m - 1)" "off w m + uint w = off w (Suc m)" "off w a < off w m" "off w m < off w b" by (rule halving)
    note down = less(1) [of "m - 1" a] and up = less(1) [of b "Suc m"]
    show ?thesis
      using False m less(3) down up
      by (subst bsearch_sub.simps) (auto simp: Let_def intro!: found_eqI)
  qed
qed

lemma bsearch_gteq_sub_ok:
  assumes arr: "search_array num w xs" and gr: "graded cmp key xs" and ab: "a \<le> b" "b < length xs"
  shows "\<exists>r. bsearch_gteq_sub key xs num w cmp (off w a) (off w b) = Some (Inr r) \<and> found_ge cmp key w xs r"
  using ab
proof (induction "b - a" arbitrary: a b rule: less_induct)
  case less
  show ?case
  proof (cases "sub_count w (off w a) (off w b) \<le> SHORT_THRESHOLD")
    case True
    then show ?thesis using short_ok(2) [OF arr] by (subst bsearch_gteq_sub.simps) (simp add: Let_def)
  next
    case False
    from arr less(2,3) False obtain m where m: "a < m" "m < b" "sub_middle w (off w a) (sub_count w (off w a) (off w b)) = off w m"
      "obj_at w xs (off w m) = Inr (xs ! m)" "obj_at w xs (off w m - uint w) = Inr (xs ! (m - 1))" "obj_at w xs (off w m + uint w) = Inr (xs ! Suc m)"
      "off w m - uint w = off w (m - 1)" "off w m + uint w = off w (Suc m)" "off w a < off w m" "off w m < off w b" by (rule halving)
    note down = less(1) [of "m - 1" a] and up = less(1) [of b "Suc m"]
    have ml: "m < length xs" using m less(3) by simp
    have h: "cmp key (xs ! j) < 0" if "i < j" "j < length xs" "cmp key (xs ! i) < 0" for i j
      using gr that unfolding graded_def by blast
    have eq: "cmp key (xs ! i) \<ge> 0" if "i < m" "cmp key (xs ! m) = 0" for i
      using h [OF that(1) ml] that(2) by fastforce
    have h': "cmp key (xs ! j) \<le> 0" if "i < j" "j < length xs" "cmp key (xs ! i) \<le> 0" for i j
      using gr that unfolding graded_def by blast
    have gt: "cmp key (xs ! i) > 0" if "i < m" "cmp key (xs ! (m - 1)) > 0" for i
      using h' [of i "m - 1"] that ml by (cases "i = m - 1") fastforce+
    show ?thesis
      using False m less(3) down up eq gt less_imp_le [OF gt]
      by (subst bsearch_gteq_sub.simps) (auto simp: Let_def intro!: found_geI)
  qed
qed

lemma bsearch_lteq_sub_ok:
  assumes arr: "search_array num w xs" and gr: "graded cmp key xs" and ab: "a \<le> b" "b < length xs"
  shows "\<exists>r. bsearch_lteq_sub key xs num w cmp (off w a) (off w b) = Some (Inr r) \<and> found_le cmp key w xs r"
  using ab
proof (induction "b - a" arbitrary: a b rule: less_induct)
  case less
  show ?case
  proof (cases "sub_count w (off w a) (off w b) \<le> SHORT_THRESHOLD")
    case True
    then show ?thesis using short_ok(3) [OF arr] by (subst bsearch_lteq_sub.simps) (simp add: Let_def)
  next
    case False
    from arr less(2,3) False obtain m where m: "a < m" "m < b" "sub_middle w (off w a) (sub_count w (off w a) (off w b)) = off w m"
      "obj_at w xs (off w m) = Inr (xs ! m)" "obj_at w xs (off w m - uint w) = Inr (xs ! (m - 1))" "obj_at w xs (off w m + uint w) = Inr (xs ! Suc m)"
      "off w m - uint w = off w (m - 1)" "off w m + uint w = off w (Suc m)" "off w a < off w m" "off w m < off w b" by (rule halving)
    note down = less(1) [of "m - 1" a] and up = less(1) [of b "Suc m"]
    have h: "cmp key (xs ! j) \<le> 0" if "i < j" "j < length xs" "cmp key (xs ! i) \<le> 0" for i j
      using gr that unfolding graded_def by blast
    have eq: "cmp key (xs ! i) \<le> 0" if "m < i" "i < length xs" "cmp key (xs ! m) = 0" for i
      using h [OF that(1,2)] that(3) by simp
    have h': "cmp key (xs ! j) < 0" if "i < j" "j < length xs" "cmp key (xs ! i) < 0" for i j
      using gr that unfolding graded_def by blast
    have lt: "cmp key (xs ! i) < 0" if "m < i" "i < length xs" "cmp key (xs ! Suc m) < 0" for i
      using h' [of "Suc m" i] that by (cases "i = Suc m") simp_all
    have found: "found_le cmp key w xs (Some (off w m))" if "cmp key (xs ! m) \<ge> 0" "cmp key (xs ! Suc m) < 0"
      using that m less(3) lt [OF _ _ that(2)] less_imp_le [OF lt [OF _ _ that(2)]] by (intro found_leI) simp_all
    show ?thesis
      using False m less(3) down up eq found
      by (subst bsearch_lteq_sub.simps) (auto simp: Let_def intro!: found_leI)
  qed
qed

lemma bsearch_total:
  assumes arr: "search_array num w xs"
  shows "\<exists>r. tt_bsearch key xs num w cmp = Inr r \<and> found_eq cmp key w xs r"
    "graded cmp key xs \<Longrightarrow> \<exists>r. tt_bsearch_gteq key xs num w cmp = Inr r \<and> found_ge cmp key w xs r"
    "graded cmp key xs \<Longrightarrow> \<exists>r. tt_bsearch_lteq key xs num w cmp = Inr r \<and> found_le cmp key w xs r"
proof -
  have z: "0 = off w 0" by (simp add: off_def)
  have "num \<noteq> 0" "w \<noteq> 0" using arr by (auto simp: search_array_def)
  then have args: "search_args num w = Inr ()" by (simp add: search_args_def)
  have b: "0 \<le> length xs - 1" "length xs - 1 < length xs" using arr by (simp_all add: search_array_def)
  show "\<exists>r. tt_bsearch key xs num w cmp = Inr r \<and> found_eq cmp key w xs r"
    using bsearch_sub_ok [OF arr b, of key cmp] by (auto simp: tt_bsearch_def args last_off [OF arr] z [symmetric])
  show "\<exists>r. tt_bsearch_gteq key xs num w cmp = Inr r \<and> found_ge cmp key w xs r" if "graded cmp key xs"
    using bsearch_gteq_sub_ok [OF arr that b] by (auto simp: tt_bsearch_gteq_def args last_off [OF arr] z [symmetric])
  show "\<exists>r. tt_bsearch_lteq key xs num w cmp = Inr r \<and> found_le cmp key w xs r" if "graded cmp key xs"
    using bsearch_lteq_sub_ok [OF arr that b] by (auto simp: tt_bsearch_lteq_def args last_off [OF arr] z [symmetric])
qed

section \<open>The property\<close>

text \<open>
  C31: Every binary search of a non-empty array of fewer than \<open>2 ^ 32\<close> bytes returns, without reading
  outside the array, which is in the order of the comparison. \<^verbatim>\<open>tt_bsearch\<close> finds an object that compares equal to
  the key, or answers \<^verbatim>\<open>NULL\<close> when there is none. \<^verbatim>\<open>tt_bsearch_gteq\<close> finds an object that compares equal if there is
  one, else the first of the objects above the key, and answers \<^verbatim>\<open>NULL\<close> only when all objects are below it;
  \<^verbatim>\<open>tt_bsearch_lteq\<close> finds an object that compares equal if there is one, else the last of the objects below the key,
  and answers \<^verbatim>\<open>NULL\<close> only when all are above it.
\<close>

theorem binary_search_spec:
  assumes arr: "search_array num w xs" and cmp: "cmp_order cmp" and sorted: "sorted_wrt (\<lambda>x y. cmp x y \<le> 0) xs"
  shows "(\<exists>r. tt_bsearch key xs num w cmp = Inr r \<and> found_eq cmp key w xs r)
    \<and> (\<exists>r. tt_bsearch_gteq key xs num w cmp = Inr r \<and> found_ge cmp key w xs r)
    \<and> (\<exists>r. tt_bsearch_lteq key xs num w cmp = Inr r \<and> found_le cmp key w xs r)"
  by (intro conjI bsearch_total [OF arr] sorted_graded [OF cmp sorted])

definition ten :: "u32 list" where "ten = [1, 3, 3, 5, 7, 8, 9, 9, 12, 20]"

theorem binary_search_spec_witness:
  "tt_bsearch 6 ten 10 4 tt_cmp_u32 = Inr None
    \<and> tt_bsearch_gteq 10 ten 10 4 tt_cmp_u32 = Inr (Some 32)
    \<and> tt_bsearch_lteq 10 ten 10 4 tt_cmp_u32 = Inr (Some 28)"
proof -
  have a: "search_array 10 4 ten" by (simp add: search_array_def ten_def)
  have s: "sorted_wrt (\<lambda>x y. tt_cmp_u32 x y \<le> 0) ten" by (simp add: ten_def tt_cmp_u32_def)
  note b = binary_search_spec [OF a u32_order.cmp_order_axioms s]
  have n: "length ten = 10" by (simp add: ten_def)
  have e: "r = None" if "found_eq tt_cmp_u32 6 4 ten r" for r
  proof -
    have "\<forall>k \<in> set [0..<10]. tt_cmp_u32 6 (ten ! k) \<noteq> 0" by code_simp
    then show ?thesis using that n by (auto simp: found_eq_def split: option.splits)
  qed
  have g: "r = Some 32" if f: "found_ge tt_cmp_u32 10 4 ten r" for r
  proof -
    have c: "\<forall>k \<in> set [0..<8]. tt_cmp_u32 10 (ten ! k) > 0" "tt_cmp_u32 10 (ten ! 8) < 0" "\<not> (\<forall>x \<in> set ten. tt_cmp_u32 10 x > 0)"
      by code_simp+
    with f obtain k where k: "r = Some (off 4 k)" "tt_cmp_u32 10 (ten ! k) \<le> 0" "\<forall>i < k. tt_cmp_u32 10 (ten ! i) \<ge> 0"
      by (auto simp: found_ge_def split: option.splits)
    have "\<not> k < 8" using bspec [OF c(1), of k] k(2) by auto
    moreover have "\<not> 8 < k" using spec [OF k(3), of 8] c(2) by auto
    ultimately have "k = 8" by simp
    then show ?thesis using k(1) by (simp add: off_def)
  qed
  have h: "r = Some 28" if f: "found_le tt_cmp_u32 10 4 ten r" for r
  proof -
    have c: "\<forall>k \<in> set [8..<10]. tt_cmp_u32 10 (ten ! k) < 0" "tt_cmp_u32 10 (ten ! 7) > 0" "\<not> (\<forall>x \<in> set ten. tt_cmp_u32 10 x < 0)"
      by code_simp+
    then obtain k where k: "r = Some (off 4 k)" "tt_cmp_u32 10 (ten ! k) \<ge> 0" "k < 10" "\<forall>i. k < i \<and> i < 10 \<longrightarrow> tt_cmp_u32 10 (ten ! i) \<le> 0"
      using f n by (auto simp: found_le_def split: option.splits)
    have "k \<in> set [8..<10]" if "7 < k" using that k(3) by auto
    then have "\<not> 7 < k" using c(1) k(2) by fastforce
    moreover have "\<not> k < 7" using spec [OF k(4), of 7] c(2) by auto
    ultimately have "k = 7" by simp
    then show ?thesis using k(1) by (simp add: off_def)
  qed
  show ?thesis using b [of 6] b [of 10] e g h by blast
qed

end
