(* ===== verification/TT_SList.thy ===== *)
theory TT_SList
  imports TT_Container_Specs
begin

text \<open>
  The singly linked list of \<^verbatim>\<open>algorithm/tt_single_linked_list.h\<close>. A node is a member of a struct of the
  caller, so its record is extensible; \<^verbatim>\<open>TT_CONTAINER\<close> leads from the node to the struct, which here are
  one block of the store. The list struct is passed as a value; \<^verbatim>\<open>tt_slist_move_count\<close>, which compares the
  addresses of its two lists, is told the answer.
\<close>

section \<open>Data\<close>

record snode = s_next :: ptr

record tt_slist = sl_head :: ptr

definition sn_next :: "'z snode_scheme mem \<Rightarrow> nat \<Rightarrow> ptr run" where
  "sn_next m p = bindr (mem_deref m p) (\<lambda>n. Inr (s_next n))"

definition sn_set_next :: "'z snode_scheme mem \<Rightarrow> nat \<Rightarrow> ptr \<Rightarrow> 'z snode_scheme mem run" where
  "sn_set_next m p v = bindr (mem_deref m p) (\<lambda>n. mem_assign m p (n\<lparr>s_next := v\<rparr>))"

section \<open>Operations\<close>

definition tt_snode_init :: "nat \<Rightarrow> 'z snode_scheme mem \<Rightarrow> 'z snode_scheme mem run" where
  "tt_snode_init sn m = sn_set_next m sn None"

definition tt_slist_init :: tt_slist where "tt_slist_init = \<lparr>sl_head = None\<rparr>"

definition tt_slist_head :: "tt_slist \<Rightarrow> ptr" where "tt_slist_head sl = sl_head sl"

partial_function (option) slist_last :: "'z snode_scheme mem \<Rightarrow> nat \<Rightarrow> nat run option" where
  "slist_last m sn = (case sn_next m sn of Inl f \<Rightarrow> Some (Inl f) | Inr None \<Rightarrow> Some (Inr sn) | Inr (Some q) \<Rightarrow> slist_last m q)"

definition tt_slist_tail :: "tt_slist \<Rightarrow> 'z snode_scheme mem \<Rightarrow> ptr run" where
  "tt_slist_tail sl m = (case sl_head sl of None \<Rightarrow> Inr None | Some sn \<Rightarrow> bindr (returned (slist_last m sn)) (\<lambda>p. Inr (Some p)))"

partial_function (option) slist_count_loop :: "'z snode_scheme mem \<Rightarrow> ptr \<Rightarrow> u32 \<Rightarrow> u32 run option" where
  "slist_count_loop m sn count =
    (case sn of None \<Rightarrow> Some (Inr count)
     | Some p \<Rightarrow> (case sn_next m p of Inl f \<Rightarrow> Some (Inl f) | Inr q \<Rightarrow> slist_count_loop m q (count + 1)))"

definition tt_slist_count :: "tt_slist \<Rightarrow> 'z snode_scheme mem \<Rightarrow> u32 run" where
  "tt_slist_count sl m = returned (slist_count_loop m (sl_head sl) 0)"

partial_function (option) slist_clear_loop :: "ptr \<Rightarrow> 'z snode_scheme mem \<Rightarrow> 'z snode_scheme mem run option" where
  "slist_clear_loop sn m =
    (case sn of None \<Rightarrow> Some (Inr m)
     | Some p \<Rightarrow>
       (case sn_next m p of
          Inl f \<Rightarrow> Some (Inl f)
        | Inr q \<Rightarrow> (case sn_set_next m p None of Inl f \<Rightarrow> Some (Inl f) | Inr m \<Rightarrow> slist_clear_loop q m)))"

definition tt_slist_clear :: "tt_slist \<Rightarrow> 'z snode_scheme mem \<Rightarrow> (tt_slist \<times> 'z snode_scheme mem) run" where
  "tt_slist_clear sl m = bindr (returned (slist_clear_loop (sl_head sl) m)) (\<lambda>m. Inr (sl\<lparr>sl_head := None\<rparr>, m))"

definition tt_slist_empty :: "tt_slist \<Rightarrow> bool" where "tt_slist_empty sl \<longleftrightarrow> sl_head sl = None"

definition tt_slist_push_head :: "nat \<Rightarrow> tt_slist \<Rightarrow> 'z snode_scheme mem \<Rightarrow> (tt_slist \<times> 'z snode_scheme mem) run" where
  "tt_slist_push_head sn sl m =
    bindr (sn_next m sn) (\<lambda>q.
    bindr (TT_ASSERT (q = None)) (\<lambda>_.
    bindr (sn_set_next m sn (sl_head sl)) (\<lambda>m. Inr (sl\<lparr>sl_head := Some sn\<rparr>, m))))"

definition tt_slist_push_tail :: "nat \<Rightarrow> tt_slist \<Rightarrow> 'z snode_scheme mem \<Rightarrow> (tt_slist \<times> 'z snode_scheme mem) run" where
  "tt_slist_push_tail sn sl m =
    bindr (tt_slist_tail sl m) (\<lambda>tail.
    bindr (sn_next m sn) (\<lambda>q.
    bindr (TT_ASSERT (q = None)) (\<lambda>_.
    (case tail of
       Some t \<Rightarrow> bindr (sn_set_next m t (Some sn)) (\<lambda>m. Inr (sl, m))
     | None \<Rightarrow> Inr (sl\<lparr>sl_head := Some sn\<rparr>, m)))))"

definition tt_slist_pop_head :: "tt_slist \<Rightarrow> 'z snode_scheme mem \<Rightarrow> (ptr \<times> tt_slist \<times> 'z snode_scheme mem) run" where
  "tt_slist_pop_head sl m =
    (case sl_head sl of
       None \<Rightarrow> Inr (None, sl, m)
     | Some h \<Rightarrow> bindr (sn_next m h) (\<lambda>q. bindr (sn_set_next m h None) (\<lambda>m. Inr (Some h, sl\<lparr>sl_head := q\<rparr>, m))))"

text \<open>The loop of \<^verbatim>\<open>tt_slist_pop_tail\<close>: the last two nodes.\<close>

partial_function (option) slist_last_two :: "'z snode_scheme mem \<Rightarrow> nat \<Rightarrow> (nat \<times> nat) run option" where
  "slist_last_two m sn =
    (case sn_next m sn of
       Inl f \<Rightarrow> Some (Inl f)
     | Inr None \<Rightarrow> Some (Inl Undef)
     | Inr (Some q) \<Rightarrow>
       (case sn_next m q of Inl f \<Rightarrow> Some (Inl f) | Inr None \<Rightarrow> Some (Inr (sn, q)) | Inr (Some _) \<Rightarrow> slist_last_two m q))"

definition tt_slist_pop_tail :: "tt_slist \<Rightarrow> 'z snode_scheme mem \<Rightarrow> (ptr \<times> tt_slist \<times> 'z snode_scheme mem) run" where
  "tt_slist_pop_tail sl m =
    (case sl_head sl of
       None \<Rightarrow> Inr (None, sl, m)
     | Some sn \<Rightarrow>
       bindr (sn_next m sn) (\<lambda>q.
       if q = None then Inr (Some sn, sl\<lparr>sl_head := None\<rparr>, m)
       else bindr (returned (slist_last_two m sn)) (\<lambda>(prev, sn).
         bindr (sn_set_next m prev None) (\<lambda>m.
         bindr (sn_set_next m sn None) (\<lambda>m. Inr (Some sn, sl, m))))))"

definition tt_slist_insert_after :: "nat \<Rightarrow> nat \<Rightarrow> 'z snode_scheme mem \<Rightarrow> 'z snode_scheme mem run" where
  "tt_slist_insert_after pos sn m =
    bindr (sn_next m sn) (\<lambda>q.
    bindr (TT_ASSERT (q = None)) (\<lambda>_.
    bindr (sn_next m pos) (\<lambda>n.
    bindr (sn_set_next m sn n) (\<lambda>m. sn_set_next m pos (Some sn)))))"

partial_function (option) slist_prev :: "'z snode_scheme mem \<Rightarrow> ptr \<Rightarrow> nat \<Rightarrow> ptr run option" where
  "slist_prev m node sn =
    (case node of None \<Rightarrow> Some (Inr None)
     | Some p \<Rightarrow>
       (case sn_next m p of
          Inl f \<Rightarrow> Some (Inl f)
        | Inr q \<Rightarrow> if q \<noteq> Some sn then slist_prev m q sn else Some (Inr (Some p))))"

definition tt_slist_remove :: "tt_slist \<Rightarrow> nat \<Rightarrow> 'z snode_scheme mem \<Rightarrow> (ptr \<times> tt_slist \<times> 'z snode_scheme mem) run" where
  "tt_slist_remove sl sn m =
    bindr (sn_next m sn) (\<lambda>next.
    bindr (if sl_head sl = Some sn then Inr (sl\<lparr>sl_head := next\<rparr>, m)
           else bindr (returned (slist_prev m (sl_head sl) sn)) (\<lambda>node.
             (case node of None \<Rightarrow> Inr (sl, m) | Some p \<Rightarrow> bindr (sn_set_next m p next) (\<lambda>m. Inr (sl, m))))) (\<lambda>(sl, m).
    bindr (sn_set_next m sn None) (\<lambda>m. Inr (next, sl, m))))"

definition tt_slist_fast_remove ::
  "tt_slist \<Rightarrow> ptr \<Rightarrow> nat \<Rightarrow> 'z snode_scheme mem \<Rightarrow> (ptr \<times> tt_slist \<times> 'z snode_scheme mem) run" where
  "tt_slist_fast_remove sl prev sn m =
    bindr (sn_next m sn) (\<lambda>next.
    bindr (case prev of
        Some p \<Rightarrow>
          bindr (sn_next m p) (\<lambda>q.
          bindr (TT_ASSERT (q = Some sn)) (\<lambda>_.
          bindr (sn_set_next m p next) (\<lambda>m. Inr (sl, m))))
      | None \<Rightarrow> bindr (TT_ASSERT (sl_head sl = Some sn)) (\<lambda>_. Inr (sl\<lparr>sl_head := next\<rparr>, m))) (\<lambda>(sl, m).
    bindr (sn_set_next m sn None) (\<lambda>m. Inr (next, sl, m))))"

definition tt_slist_move :: "tt_slist \<Rightarrow> tt_slist \<Rightarrow> 'z snode_scheme mem \<Rightarrow> (tt_slist \<times> tt_slist \<times> 'z snode_scheme mem) run" where
  "tt_slist_move dst src m =
    bindr (tt_slist_tail dst m) (\<lambda>tail.
    bindr (case tail of
        Some t \<Rightarrow> bindr (sn_set_next m t (sl_head src)) (\<lambda>m. Inr (dst, m))
      | None \<Rightarrow> Inr (dst\<lparr>sl_head := sl_head src\<rparr>, m)) (\<lambda>(dst, m).
    Inr (dst, src\<lparr>sl_head := None\<rparr>, m)))"

text \<open>The loop of \<^verbatim>\<open>tt_slist_move_count\<close>: the last node to move and how many there are.\<close>

partial_function (option) slist_advance :: "'z snode_scheme mem \<Rightarrow> ptr \<Rightarrow> ptr \<Rightarrow> u32 \<Rightarrow> u32 \<Rightarrow> (ptr \<times> u32) run option" where
  "slist_advance m prev node n count =
    (case node of
       Some p \<Rightarrow>
         if n < count then
           (case sn_next m p of Inl f \<Rightarrow> Some (Inl f) | Inr q \<Rightarrow> slist_advance m (Some p) q (n + 1) count)
         else Some (Inr (prev, n))
     | None \<Rightarrow> Some (Inr (prev, n)))"

definition tt_slist_move_count ::
  "bool \<Rightarrow> tt_slist \<Rightarrow> tt_slist \<Rightarrow> u32 \<Rightarrow> 'z snode_scheme mem \<Rightarrow> (u32 \<times> tt_slist \<times> tt_slist \<times> 'z snode_scheme mem) run" where
  "tt_slist_move_count same_list dst src count m =
    (if same_list then Inr (0, dst, src, m) else
    bindr (returned (slist_advance m None (sl_head src) 0 count)) (\<lambda>(prev, n).
    (case prev of
       None \<Rightarrow> Inr (n, dst, src, m)
     | Some p \<Rightarrow>
       bindr (if sl_head dst \<noteq> None then
                bindr (tt_slist_tail dst m) (\<lambda>t.
                (case t of None \<Rightarrow> Inl Undef | Some t \<Rightarrow> bindr (sn_set_next m t (sl_head src)) (\<lambda>m. Inr (dst, m))))
              else Inr (dst\<lparr>sl_head := sl_head src\<rparr>, m)) (\<lambda>(dst, m).
       bindr (sn_next m p) (\<lambda>q.
       bindr (sn_set_next m p None) (\<lambda>m.
       Inr (n, dst, src\<lparr>sl_head := q\<rparr>, m)))))))"

definition tt_slist_swap :: "tt_slist \<Rightarrow> tt_slist \<Rightarrow> tt_slist \<times> tt_slist" where
  "tt_slist_swap l r = (l\<lparr>sl_head := sl_head r\<rparr>, r\<lparr>sl_head := sl_head l\<rparr>)"

end
