(* ===== verification/TT_SList_Inv.thy ===== *)
theory TT_SList_Inv
  imports TT_SList
begin

text \<open>
  The singly linked list represents a list of node addresses. Every operation changes only the links of
  the nodes it is given or reaches, never the rest of their structs, and every loop ends.
\<close>

section \<open>Chains of nodes\<close>

abbreviation nxt :: "'z snode_scheme mem \<Rightarrow> nat \<Rightarrow> ptr" where "nxt m p \<equiv> s_next (struct_at m p)"

primrec lseg :: "'z snode_scheme mem \<Rightarrow> ptr \<Rightarrow> nat list \<Rightarrow> ptr \<Rightarrow> bool" where
  "lseg m p [] q \<longleftrightarrow> p = q"
| "lseg m p (x # xs) q \<longleftrightarrow> p = Some x \<and> is_struct m x \<and> lseg m (nxt m x) xs q"

lemma lseg_append: "lseg m p (xs @ ys) q \<longleftrightarrow> (\<exists>r. lseg m p xs r \<and> lseg m r ys q)"
  by (induction xs arbitrary: p) auto

lemma lseg_struct: "lseg m p xs q \<Longrightarrow> x \<in> set xs \<Longrightarrow> is_struct m x"
  by (induction xs arbitrary: p) auto

lemma lseg_cong: "(\<And>x. x \<in> set xs \<Longrightarrow> nxt m' x = nxt m x \<and> is_struct m' x = is_struct m x) \<Longrightarrow> lseg m' p xs q = lseg m p xs q"
  by (induction xs arbitrary: p) auto

lemma lseg_hd: "lseg m p xs None \<Longrightarrow> p = (case xs of [] \<Rightarrow> None | x # _ \<Rightarrow> Some x)"
  by (cases xs) auto

lemma lseg_last_next: "lseg m p xs q \<Longrightarrow> xs \<noteq> [] \<Longrightarrow> nxt m (last xs) = q"
  by (induction xs arbitrary: p) auto

text \<open>A list at its struct.\<close>

definition slist :: "'z snode_scheme mem \<Rightarrow> nat list \<Rightarrow> tt_slist \<Rightarrow> bool" where
  "slist m xs sl \<longleftrightarrow> lseg m (sl_head sl) xs None \<and> distinct xs"

text \<open>Only links inside \<open>S\<close> change.\<close>

definition relinks :: "nat set \<Rightarrow> 'z snode_scheme mem \<Rightarrow> 'z snode_scheme mem \<Rightarrow> bool" where
  "relinks S m m' \<longleftrightarrow> mem_inv m' \<and> mem_heap m' = mem_heap m \<and> is_struct m' = is_struct m
     \<and> (\<forall>q. q \<notin> S \<longrightarrow> struct_at m' q = struct_at m q) \<and> (\<forall>q. snode.more (struct_at m' q) = snode.more (struct_at m q))
     \<and> mem_frame S m m'"

lemma relinks_refl: "mem_inv m \<Longrightarrow> relinks S m m"
  by (simp add: relinks_def)

lemma relinks_trans: "relinks S m m1 \<Longrightarrow> relinks S m1 m2 \<Longrightarrow> relinks S m m2"
  using frame_compose [of S m m1 S m2] by (auto simp: relinks_def)

lemma relinks_mono: "relinks S m m' \<Longrightarrow> S \<subseteq> T \<Longrightarrow> relinks T m m'"
  unfolding relinks_def mem_frame_def by blast

lemma relinksD:
  assumes "relinks S m m'"
  shows "mem_inv m'" "mem_heap m' = mem_heap m" "is_struct m' x = is_struct m x"
    "q \<notin> S \<Longrightarrow> struct_at m' q = struct_at m q" "snode.more (struct_at m' q) = snode.more (struct_at m q)" "mem_frame S m m'"
  using assms by (simp_all add: relinks_def)

lemma relinks_lseg: "relinks S m m' \<Longrightarrow> set xs \<inter> S = {} \<Longrightarrow> lseg m' p xs q = lseg m p xs q"
  by (rule lseg_cong) (auto simp: relinks_def)

lemma relinks_slist: "relinks S m m' \<Longrightarrow> set xs \<inter> S = {} \<Longrightarrow> slist m' xs sl = slist m xs sl"
  by (simp add: slist_def relinks_lseg)

lemma sn_next_ok: "is_struct m p \<Longrightarrow> sn_next m p = Inr (nxt m p)"
  by (simp add: sn_next_def mem_deref_ok)

lemma sn_set_next_ok:
  assumes "is_struct m p" "mem_inv m"
  obtains m' where "sn_set_next m p v = Inr m'" "relinks {p} m m'" "nxt m' p = v"
proof -
  from assms obtain m' where m': "mem_assign m p ((struct_at m p)\<lparr>s_next := v\<rparr>) = Inr m'" "mem_inv m'" "mem_heap m' = mem_heap m"
    "struct_at m' p = (struct_at m p)\<lparr>s_next := v\<rparr>" "\<forall>q. q \<noteq> p \<longrightarrow> struct_at m' q = struct_at m q"
    "\<forall>q. is_struct m' q \<longleftrightarrow> is_struct m q" "mem_frame {p} m m'" by (rule mem_assign_ok)
  have "snode.more (struct_at m' q) = snode.more (struct_at m q)" for q using m'(4,5) by (cases "q = p") simp_all
  with that m' assms(1) show thesis by (simp add: sn_set_next_def mem_deref_ok relinks_def fun_eq_iff)
qed

section \<open>Walking\<close>

lemma slist_last_ok: "lseg m (Some x) (x # xs) None \<Longrightarrow> slist_last m x = Some (Inr (last (x # xs)))"
proof (induction xs arbitrary: x)
  case Nil
  then show ?case by (subst slist_last.simps) (simp add: sn_next_ok)
next
  case (Cons y ys)
  then show ?case by (subst slist_last.simps) (simp add: sn_next_ok)
qed

lemma slist_tail_ok:
  assumes "slist m xs sl"
  shows "tt_slist_tail sl m = Inr (if xs = [] then None else Some (last xs))"
proof (cases xs)
  case Nil
  then show ?thesis using assms by (simp add: slist_def tt_slist_tail_def)
next
  case (Cons x ys)
  then show ?thesis using assms slist_last_ok [of m x ys] by (simp add: slist_def tt_slist_tail_def)
qed

lemma slist_count_loop_ok: "lseg m p xs None \<Longrightarrow> slist_count_loop m p c = Some (Inr (c + of_nat (length xs)))"
proof (induction xs arbitrary: p c)
  case Nil
  then show ?case by (subst slist_count_loop.simps) simp
next
  case (Cons x xs)
  then show ?case by (subst slist_count_loop.simps) (simp add: sn_next_ok algebra_simps)
qed

lemma slist_count_ok: "slist m xs sl \<Longrightarrow> tt_slist_count sl m = Inr (of_nat (length xs))"
  using slist_count_loop_ok [of m "sl_head sl" xs 0] by (simp add: slist_def tt_slist_count_def)

lemma slist_clear_loop_ok:
  assumes "lseg m p xs None" "distinct xs" "mem_inv m"
  shows "\<exists>m'. slist_clear_loop p m = Some (Inr m') \<and> relinks (set xs) m m' \<and> (\<forall>x \<in> set xs. nxt m' x = None)"
  using assms
proof (induction xs arbitrary: p m)
  case Nil
  then show ?case by (subst slist_clear_loop.simps) (simp add: relinks_refl)
next
  case (Cons x xs)
  have x: "p = Some x" "is_struct m x" "lseg m (nxt m x) xs None" "x \<notin> set xs" using Cons.prems by auto
  from x(2) Cons.prems(3) obtain m1 where m1: "sn_set_next m x None = Inr m1" "relinks {x} m m1" "nxt m1 x = None"
    by (rule sn_set_next_ok)
  have "lseg m1 (nxt m x) xs None" using relinks_lseg [OF m1(2), of xs] x(3,4) by simp
  from Cons.IH [OF this] Cons.prems(2) relinksD(1) [OF m1(2)] obtain m' where
    m': "slist_clear_loop (nxt m x) m1 = Some (Inr m')" "relinks (set xs) m1 m'" "\<forall>x \<in> set xs. nxt m' x = None" by auto
  have "relinks (set (x # xs)) m m'"
    using relinks_trans [OF relinks_mono [OF m1(2)] relinks_mono [OF m'(2)], of "set (x # xs)"] by auto
  moreover have "nxt m' x = None" using relinksD(4) [OF m'(2) x(4)] m1(3) by simp
  ultimately show ?case using m'(1,3) m1(1) x(1,2) by (subst slist_clear_loop.simps) (simp add: sn_next_ok)
qed

lemma slist_clear_ok:
  assumes "slist m xs sl" "mem_inv m"
  shows "\<exists>sl' m'. tt_slist_clear sl m = Inr (sl', m') \<and> slist m' [] sl' \<and> relinks (set xs) m m' \<and> (\<forall>x \<in> set xs. nxt m' x = None)"
  using slist_clear_loop_ok [of m "sl_head sl" xs] assms by (auto simp: slist_def tt_slist_clear_def)

section \<open>Adding nodes\<close>

text \<open>A node outside every list has no next node.\<close>

definition lonely :: "'z snode_scheme mem \<Rightarrow> nat \<Rightarrow> bool" where
  "lonely m x \<longleftrightarrow> is_struct m x \<and> nxt m x = None"

lemma slist_push_head_ok:
  assumes sl: "slist m xs sl" and inv: "mem_inv m" and x: "lonely m x" "x \<notin> set xs"
  obtains sl' m' where "tt_slist_push_head x sl m = Inr (sl', m')" "slist m' (x # xs) sl'" "relinks {x} m m'" "sl_head sl' = Some x"
proof -
  have s: "is_struct m x" "nxt m x = None" using x(1) by (simp_all add: lonely_def)
  from s(1) inv obtain m' where m': "sn_set_next m x (sl_head sl) = Inr m'" "relinks {x} m m'" "nxt m' x = sl_head sl" by (rule sn_set_next_ok)
  have "slist m' (x # xs) (sl\<lparr>sl_head := Some x\<rparr>)"
    using sl m'(3) relinks_lseg [OF m'(2), of xs] relinksD(3) [OF m'(2)] s(1) x(2) by (simp add: slist_def)
  with that m' s show thesis by (simp add: tt_slist_push_head_def sn_next_ok)
qed

lemma lseg_snoc_link:
  assumes "lseg m p (ys @ [t]) q" "distinct (ys @ [t])" "relinks {t} m m'" "nxt m' t = r"
  shows "lseg m' p (ys @ [t]) r"
  using assms relinks_lseg [OF assms(3), of ys] relinksD(3) [OF assms(3), of t] by (auto simp: lseg_append)

lemma slist_push_tail_ok:
  assumes sl: "slist m xs sl" and inv: "mem_inv m" and x: "lonely m x" "x \<notin> set xs"
  obtains sl' m' where "tt_slist_push_tail x sl m = Inr (sl', m')" "slist m' (xs @ [x]) sl'" "relinks (set xs) m m'"
proof (cases "xs = []")
  case True
  have "slist m (xs @ [x]) (sl\<lparr>sl_head := Some x\<rparr>)" using True x(1) by (simp add: slist_def lonely_def)
  with that x(1) relinks_refl [OF inv] slist_tail_ok [OF sl] True show thesis
    by (simp add: tt_slist_push_tail_def sn_next_ok lonely_def)
next
  case False
  have s: "is_struct m x" "nxt m x = None" "is_struct m (last xs)" using x(1) sl lseg_struct [of m "sl_head sl" xs None "last xs"] False
    by (simp_all add: lonely_def slist_def)
  from s(3) inv obtain m' where m': "sn_set_next m (last xs) (Some x) = Inr m'" "relinks {last xs} m m'" "nxt m' (last xs) = Some x" by (rule sn_set_next_ok)
  have e: "butlast xs @ [last xs] = xs" using False by simp
  have "lseg m' (sl_head sl) xs (Some x)"
    using lseg_snoc_link [OF _ _ m'(2,3), of "sl_head sl" "butlast xs" None] sl unfolding e by (simp add: slist_def)
  moreover have "x \<noteq> last xs" using x(2) False last_in_set by blast
  ultimately have "slist m' (xs @ [x]) sl"
    using sl s(1,2) x(2) relinksD(3,4) [OF m'(2), of x] by (auto simp: slist_def lseg_append)
  moreover have "relinks (set xs) m m'" using relinks_mono [OF m'(2), of "set xs"] False by simp
  ultimately show thesis using that m'(1) s slist_tail_ok [OF sl] False by (simp add: tt_slist_push_tail_def sn_next_ok)
qed

lemma slist_insert_after_ok:
  assumes sl: "slist m (xs @ p # ys) sl" and inv: "mem_inv m" and x: "lonely m x" "x \<notin> set (xs @ p # ys)"
  obtains m' where "tt_slist_insert_after p x m = Inr m'" "slist m' (xs @ p # x # ys) sl" "relinks {p, x} m m'"
proof -
  have l: "lseg m (sl_head sl) xs (Some p)" "is_struct m p" "lseg m (nxt m p) ys None" using sl by (auto simp: slist_def lseg_append)
  have s: "is_struct m x" "nxt m x = None" "x \<noteq> p" using x by (auto simp: lonely_def)
  from s(1) inv obtain m1 where m1: "sn_set_next m x (nxt m p) = Inr m1" "relinks {x} m m1" "nxt m1 x = nxt m p" by (rule sn_set_next_ok)
  have p1: "is_struct m1 p" using l(2) relinksD(3) [OF m1(2)] by simp
  from p1 relinksD(1) [OF m1(2)] obtain m2 where m2: "sn_set_next m1 p (Some x) = Inr m2" "relinks {p} m1 m2" "nxt m2 p = Some x" by (rule sn_set_next_ok)
  have r: "relinks {p, x} m m2" using relinks_trans [OF relinks_mono [OF m1(2)] relinks_mono [OF m2(2)], of "{p, x}"] by simp
  have "nxt m2 x = nxt m p" using relinksD(4) [OF m2(2), of x] s(3) m1(3) by simp
  moreover have "set xs \<inter> {p, x} = {}" "set ys \<inter> {p, x} = {}" using sl x(2) by (auto simp: slist_def)
  ultimately have "slist m2 (xs @ p # x # ys) sl"
    using sl l m2(3) s x(2) relinksD(3) [OF r] relinks_lseg [OF r] by (auto simp: slist_def lseg_append)
  with that r m1(1) m2(1) s l(2) show thesis by (simp add: tt_slist_insert_after_def sn_next_ok)
qed

section \<open>Taking nodes out\<close>

lemma slist_pop_head_ok:
  assumes sl: "slist m (x # xs) sl" and inv: "mem_inv m"
  obtains sl' m' where "tt_slist_pop_head sl m = Inr (Some x, sl', m')" "slist m' xs sl'" "relinks {x} m m'" "lonely m' x"
proof -
  have s: "sl_head sl = Some x" "is_struct m x" "lseg m (nxt m x) xs None" "x \<notin> set xs" "distinct xs" using sl by (auto simp: slist_def)
  from s(2) inv obtain m' where m': "sn_set_next m x None = Inr m'" "relinks {x} m m'" "nxt m' x = None" by (rule sn_set_next_ok)
  have "slist m' xs (sl\<lparr>sl_head := nxt m x\<rparr>)" using s relinks_lseg [OF m'(2), of xs] by (simp add: slist_def)
  moreover have "lonely m' x" using m'(3) s(2) relinksD(3) [OF m'(2)] by (simp add: lonely_def)
  ultimately show thesis using that m'(1,2) s by (simp add: tt_slist_pop_head_def sn_next_ok)
qed

lemma slist_pop_head_empty: "slist m [] sl \<Longrightarrow> tt_slist_pop_head sl m = Inr (None, sl, m)"
  by (simp add: slist_def tt_slist_pop_head_def)

lemma slist_last_two_ok:
  "lseg m (Some x) (x # xs @ [y]) None \<Longrightarrow> slist_last_two m x = Some (Inr (last (x # xs), y))"
proof (induction xs arbitrary: x)
  case Nil
  then show ?case by (subst slist_last_two.simps) (simp add: sn_next_ok)
next
  case (Cons z zs)
  have "nxt m z \<noteq> None" using Cons.prems by (cases zs) auto
  with Cons show ?case by (subst slist_last_two.simps) (auto simp: sn_next_ok)
qed

text \<open>Unlinking the node behind \<open>p\<close>.\<close>

lemma unlink_after:
  assumes sl: "slist m (xs @ p # x # ys) sl" and inv: "mem_inv m"
  obtains m1 m2 where "sn_set_next m p (nxt m x) = Inr m1" "sn_set_next m1 x None = Inr m2"
    "slist m2 (xs @ p # ys) sl" "relinks {p, x} m m2" "lonely m2 x"
proof -
  have s: "lseg m (sl_head sl) xs (Some p)" "is_struct m p" "nxt m p = Some x" "is_struct m x" "lseg m (nxt m x) ys None"
    and d: "x \<noteq> p" "x \<notin> set xs" "x \<notin> set ys" "p \<notin> set xs" "p \<notin> set ys" "distinct (xs @ p # ys)"
    using sl by (auto simp: slist_def lseg_append)
  from s(2) inv obtain m1 where m1: "sn_set_next m p (nxt m x) = Inr m1" "relinks {p} m m1" "nxt m1 p = nxt m x" by (rule sn_set_next_ok)
  have x1: "is_struct m1 x" using s(4) relinksD(3) [OF m1(2)] by simp
  from x1 relinksD(1) [OF m1(2)] obtain m2 where m2: "sn_set_next m1 x None = Inr m2" "relinks {x} m1 m2" "nxt m2 x = None" by (rule sn_set_next_ok)
  have r: "relinks {p, x} m m2" using relinks_trans [OF relinks_mono [OF m1(2)] relinks_mono [OF m2(2)], of "{p, x}"] by simp
  have "nxt m2 p = nxt m x" using relinksD(4) [OF m2(2), of p] d(1) m1(3) by simp
  then have "slist m2 (xs @ p # ys) sl"
    using s d relinksD(3) [OF r] relinks_lseg [OF r, of xs] relinks_lseg [OF r, of ys] by (simp add: slist_def lseg_append)
  moreover have "lonely m2 x" using m2(3) s(4) relinksD(3) [OF r] by (simp add: lonely_def)
  ultimately show thesis using that m1(1) m2(1) r by blast
qed

lemma slist_pop_tail_ok:
  assumes sl: "slist m (xs @ [x]) sl" and inv: "mem_inv m"
  obtains sl' m' where "tt_slist_pop_tail sl m = Inr (Some x, sl', m')" "slist m' xs sl'" "relinks (set xs \<union> {x}) m m'" "lonely m' x"
proof (cases xs rule: rev_cases)
  case Nil
  have s: "sl_head sl = Some x" "is_struct m x" "nxt m x = None" using sl Nil by (auto simp: slist_def)
  then have "tt_slist_pop_tail sl m = Inr (Some x, sl\<lparr>sl_head := None\<rparr>, m)" by (simp add: tt_slist_pop_tail_def sn_next_ok)
  with that [OF this] s Nil relinks_refl [OF inv] show thesis by (simp add: slist_def lonely_def)
next
  case (snoc ys p)
  from sl snoc have sl2: "slist m (ys @ p # x # []) sl" by simp
  from sl2 inv obtain m1 m2 where m: "sn_set_next m p (nxt m x) = Inr m1" "sn_set_next m1 x None = Inr m2"
    "slist m2 (ys @ p # []) sl" "relinks {p, x} m m2" "lonely m2 x" by (rule unlink_after)
  have n: "nxt m x = None" using sl2 by (auto simp: slist_def lseg_append)
  obtain h zs where h: "ys @ [p] = h # zs" by (cases "ys @ [p]") auto
  have l: "lseg m (Some h) (h # zs @ [x]) None" "sl_head sl = Some h" "last (h # zs) = p" using sl2 h snoc sl
    by (auto simp: slist_def) (metis last_snoc h last.simps)
  obtain y where nh: "is_struct m h" "nxt m h = Some y" using l(1) by (cases zs) auto
  have "tt_slist_pop_tail sl m = Inr (Some x, sl, m2)"
    using l slist_last_two_ok [OF l(1)] nh m(1,2) n by (simp add: tt_slist_pop_tail_def sn_next_ok)
  moreover have "relinks (set xs \<union> {x}) m m2" using relinks_mono [OF m(4)] snoc by simp
  ultimately show thesis using that m(3,5) snoc by simp
qed

lemma slist_pop_tail_empty: "slist m [] sl \<Longrightarrow> tt_slist_pop_tail sl m = Inr (None, sl, m)"
  by (simp add: slist_def tt_slist_pop_tail_def)

lemma unlink_first:
  assumes sl: "slist m (x # ys) sl" and inv: "mem_inv m"
  obtains m' where "sn_set_next m x None = Inr m'" "slist m' ys (sl\<lparr>sl_head := nxt m x\<rparr>)" "relinks {x} m m'" "lonely m' x"
proof -
  from sl inv obtain sl' m' where p: "tt_slist_pop_head sl m = Inr (Some x, sl', m')" "slist m' ys sl'" "relinks {x} m m'" "lonely m' x"
    by (rule slist_pop_head_ok)
  have "sl_head sl = Some x" "is_struct m x" using sl by (auto simp: slist_def)
  then have "sn_set_next m x None = Inr m' \<and> sl' = sl\<lparr>sl_head := nxt m x\<rparr>"
    using p(1) by (auto simp: tt_slist_pop_head_def sn_next_ok bindr_eq_Inr_iff)
  with that p show thesis by simp
qed

lemma slist_prev_ok:
  "lseg m q (zs @ p # x # ys) None \<Longrightarrow> x \<notin> set (zs @ [p]) \<Longrightarrow> slist_prev m q x = Some (Inr (Some p))"
proof (induction zs arbitrary: q)
  case Nil
  then show ?case by (subst slist_prev.simps) (simp add: sn_next_ok)
next
  case (Cons z zs)
  have "nxt m z \<noteq> Some x" using Cons.prems by (cases zs) auto
  with Cons show ?case by (subst slist_prev.simps) (simp add: sn_next_ok)
qed

lemma slist_prev_none: "lseg m q xs None \<Longrightarrow> x \<notin> set xs \<Longrightarrow> slist_prev m q x = Some (Inr None)"
proof (induction xs arbitrary: q)
  case Nil
  then show ?case by (subst slist_prev.simps) simp
next
  case (Cons z zs)
  have "nxt m z \<noteq> Some x" using Cons.prems by (cases zs) auto
  with Cons show ?case by (subst slist_prev.simps) (simp add: sn_next_ok)
qed

lemma slist_remove_ok:
  assumes sl: "slist m (zs @ x # ys) sl" and inv: "mem_inv m"
  obtains sl' m' where "tt_slist_remove sl x m = Inr (case ys of [] \<Rightarrow> None | y # _ \<Rightarrow> Some y, sl', m')"
    "slist m' (zs @ ys) sl'" "relinks (set (zs @ [x])) m m'" "lonely m' x"
proof -
  have n: "is_struct m x" "nxt m x = (case ys of [] \<Rightarrow> None | y # _ \<Rightarrow> Some y)" using sl lseg_hd by (auto simp: slist_def lseg_append)
  show thesis
  proof (cases zs rule: rev_cases)
    case Nil
    from sl Nil have sl1: "slist m (x # ys) sl" by simp
    from sl1 inv obtain m' where m': "sn_set_next m x None = Inr m'" "slist m' ys (sl\<lparr>sl_head := nxt m x\<rparr>)" "relinks {x} m m'" "lonely m' x" by (rule unlink_first)
    have "sl_head sl = Some x" using sl1 by (simp add: slist_def)
    with that m' n Nil show thesis by (simp add: tt_slist_remove_def sn_next_ok)
  next
    case (snoc us p)
    from sl snoc have sl2: "slist m (us @ p # x # ys) sl" by simp
    from sl2 inv obtain m1 m2 where m: "sn_set_next m p (nxt m x) = Inr m1" "sn_set_next m1 x None = Inr m2"
      "slist m2 (us @ p # ys) sl" "relinks {p, x} m m2" "lonely m2 x" by (rule unlink_after)
    have h: "sl_head sl \<noteq> Some x" using sl2 by (cases us) (auto simp: slist_def)
    have "slist_prev m (sl_head sl) x = Some (Inr (Some p))" using sl2 slist_prev_ok [of m "sl_head sl" us p x ys] by (auto simp: slist_def)
    then have "tt_slist_remove sl x m = Inr (nxt m x, sl, m2)" using h n(1) m(1,2) by (simp add: tt_slist_remove_def sn_next_ok)
    with that m(3,5) n(2) snoc relinks_mono [OF m(4)] show thesis by simp
  qed
qed

text \<open>A node that is not in the list only loses its link.\<close>

lemma slist_remove_absent:
  assumes sl: "slist m xs sl" and inv: "mem_inv m" and x: "is_struct m x" "x \<notin> set xs"
  obtains m' where "tt_slist_remove sl x m = Inr (nxt m x, sl, m')" "slist m' xs sl" "relinks {x} m m'" "lonely m' x"
proof -
  from x(1) inv obtain m' where m': "sn_set_next m x None = Inr m'" "relinks {x} m m'" "nxt m' x = None" by (rule sn_set_next_ok)
  have "sl_head sl \<noteq> Some x" using sl x(2) by (cases xs) (auto simp: slist_def)
  moreover have "slist_prev m (sl_head sl) x = Some (Inr None)" using sl x(2) slist_prev_none [of m "sl_head sl" xs x] by (simp add: slist_def)
  ultimately have "tt_slist_remove sl x m = Inr (nxt m x, sl, m')" using m'(1) x(1) by (simp add: tt_slist_remove_def sn_next_ok)
  with that relinks_slist [OF m'(2), of xs] sl x(2) m'(2,3) x(1) relinksD(3) [OF m'(2)] show thesis by (simp add: lonely_def)
qed

lemma slist_fast_remove_ok:
  assumes sl: "slist m (zs @ x # ys) sl" and inv: "mem_inv m"
  obtains sl' m' where "tt_slist_fast_remove sl (if zs = [] then None else Some (last zs)) x m = Inr (case ys of [] \<Rightarrow> None | y # _ \<Rightarrow> Some y, sl', m')"
    "slist m' (zs @ ys) sl'" "relinks (set (zs @ [x])) m m'" "lonely m' x"
proof -
  have n: "is_struct m x" "nxt m x = (case ys of [] \<Rightarrow> None | y # _ \<Rightarrow> Some y)" using sl lseg_hd by (auto simp: slist_def lseg_append)
  show thesis
  proof (cases zs rule: rev_cases)
    case Nil
    from sl Nil have sl1: "slist m (x # ys) sl" by simp
    from sl1 inv obtain m' where m': "sn_set_next m x None = Inr m'" "slist m' ys (sl\<lparr>sl_head := nxt m x\<rparr>)" "relinks {x} m m'" "lonely m' x" by (rule unlink_first)
    have "sl_head sl = Some x" using sl1 by (simp add: slist_def)
    with that m' n Nil show thesis by (simp add: tt_slist_fast_remove_def sn_next_ok)
  next
    case (snoc us p)
    from sl snoc have sl2: "slist m (us @ p # x # ys) sl" by simp
    from sl2 inv obtain m1 m2 where m: "sn_set_next m p (nxt m x) = Inr m1" "sn_set_next m1 x None = Inr m2"
      "slist m2 (us @ p # ys) sl" "relinks {p, x} m m2" "lonely m2 x" by (rule unlink_after)
    have p: "is_struct m p" "nxt m p = Some x" using sl2 by (auto simp: slist_def lseg_append)
    have "tt_slist_fast_remove sl (Some p) x m = Inr (nxt m x, sl, m2)" using p n(1) m(1,2) by (simp add: tt_slist_fast_remove_def sn_next_ok)
    with that m(3,5) n(2) snoc relinks_mono [OF m(4)] show thesis by simp
  qed
qed

section \<open>Moving nodes between lists\<close>

lemma lseg_last_link:
  assumes l: "lseg m p xs q" and ne: "xs \<noteq> []" and d: "distinct xs" and r: "relinks {last xs} m m'" "nxt m' (last xs) = v"
  shows "lseg m' p xs v"
  using lseg_snoc_link [OF _ _ r, of p "butlast xs" q] l ne d by simp

lemma slist_append_link:
  assumes dst: "lseg m p xs None" "xs \<noteq> []" "distinct xs" and inv: "mem_inv m" and src: "lseg m v ys None" "set xs \<inter> set ys = {}"
  obtains m' where "sn_set_next m (last xs) v = Inr m'" "lseg m' p (xs @ ys) None" "lseg m' v ys None" "relinks (set xs) m m'" "nxt m' (last xs) = v"
    "lseg m' p xs v"
proof -
  have s: "is_struct m (last xs)" using lseg_struct [OF dst(1)] dst(2) by simp
  from s inv obtain m' where m': "sn_set_next m (last xs) v = Inr m'" "relinks {last xs} m m'" "nxt m' (last xs) = v" by (rule sn_set_next_ok)
  have x: "lseg m' p xs v" using lseg_last_link [OF dst m'(2,3)] .
  have y: "lseg m' v ys None" using src relinks_lseg [OF m'(2), of ys] last_in_set [OF dst(2)] by auto
  have "relinks (set xs) m m'" using relinks_mono [OF m'(2)] dst(2) by simp
  with that m'(1,3) x y show thesis by (auto simp: lseg_append)
qed

lemma slist_move_ok:
  assumes dst: "slist m xs dst" and src: "slist m ys src" and inv: "mem_inv m" and disj: "set xs \<inter> set ys = {}"
  obtains dst' src' m' where "tt_slist_move dst src m = Inr (dst', src', m')" "slist m' (xs @ ys) dst'" "slist m' [] src'" "relinks (set xs) m m'"
proof (cases "xs = []")
  case True
  have "tt_slist_move dst src m = Inr (dst\<lparr>sl_head := sl_head src\<rparr>, src\<lparr>sl_head := None\<rparr>, m)"
    using slist_tail_ok [OF dst] True by (simp add: tt_slist_move_def)
  with that [OF this] True src relinks_refl [OF inv] show thesis by (simp add: slist_def)
next
  case False
  have l: "lseg m (sl_head dst) xs None" "distinct xs" "lseg m (sl_head src) ys None" using dst src by (simp_all add: slist_def)
  from l(1) False l(2) inv l(3) disj obtain m' where m': "sn_set_next m (last xs) (sl_head src) = Inr m'"
    "lseg m' (sl_head dst) (xs @ ys) None" "lseg m' (sl_head src) ys None" "relinks (set xs) m m'" by (rule slist_append_link)
  have "tt_slist_move dst src m = Inr (dst, src\<lparr>sl_head := None\<rparr>, m')"
    using slist_tail_ok [OF dst] False m'(1) by (simp add: tt_slist_move_def)
  with that [OF this] m' disj dst src show thesis by (simp add: slist_def)
qed

lemma slist_advance_ok:
  assumes "lseg m p zs None" "n \<le> count"
  shows "slist_advance m prev p n count = Some (Inr (if min (unat count - unat n) (length zs) = 0 then prev
    else Some (last (take (min (unat count - unat n) (length zs)) zs)), n + of_nat (min (unat count - unat n) (length zs))))"
  using assms
proof (induction zs arbitrary: p n prev)
  case Nil
  then show ?case by (subst slist_advance.simps) simp
next
  case (Cons z zs)
  show ?case
  proof (cases "n < count")
    case False
    then have "n = count" using Cons.prems(2) by simp
    then show ?thesis using Cons.prems(1) by (subst slist_advance.simps) simp
  next
    case True
    have u: "unat (n + 1) = Suc (unat n)" using unat_suc_u32 [of n count] True by (simp add: word_less_nat_alt)
    then have le: "n + 1 \<le> count" using True by (simp add: word_less_nat_alt word_le_nat_alt)
    define k where "k = min (unat count - unat (n + 1)) (length zs)"
    have k: "min (unat count - unat n) (length (z # zs)) = Suc k" using u True by (simp add: k_def word_less_nat_alt)
    have "k \<noteq> 0 \<Longrightarrow> zs \<noteq> []" by (auto simp: k_def)
    then have "last (take (Suc k) (z # zs)) = (if k = 0 then z else last (take k zs))" by simp
    moreover have "slist_advance m (Some z) (nxt m z) (n + 1) count = Some (Inr (if k = 0 then Some z else Some (last (take k zs)), n + 1 + of_nat k))"
    proof -
      have "lseg m (nxt m z) zs None" using Cons.prems(1) by simp
      from Cons.IH [OF this le, of "Some z"] show ?thesis unfolding k_def [symmetric] by (simp only: if_distrib [of Some])
    qed
    ultimately show ?thesis unfolding k using True Cons.prems(1) by (subst slist_advance.simps) (simp add: sn_next_ok algebra_simps)
  qed
qed

lemma slist_move_count_ok:
  fixes count :: u32
  assumes dst: "slist m xs dst" and src: "slist m ys src" and inv: "mem_inv m" and disj: "set xs \<inter> set ys = {}"
  defines "k \<equiv> min (unat count) (length ys)"
  obtains dst' src' m' where "tt_slist_move_count False dst src count m = Inr (of_nat k, dst', src', m')"
    "slist m' (xs @ take k ys) dst'" "slist m' (drop k ys) src'" "relinks (set xs \<union> set ys) m m'"
proof -
  have adv: "slist_advance m None (sl_head src) 0 count = Some (Inr (if k = 0 then None else Some (last (take k ys)), of_nat k))"
  proof -
    have l: "lseg m (sl_head src) ys None" using src by (simp add: slist_def)
    have z: "(0 :: u32) \<le> count" "unat count - unat (0 :: u32) = unat count" by simp_all
    show ?thesis using slist_advance_ok [OF l z(1), of None] unfolding k_def z(2) by (simp only: add_0_left)
  qed
  show thesis
  proof (cases "k = 0")
    case True
    then have "tt_slist_move_count False dst src count m = Inr (of_nat k, dst, src, m)" using adv by (simp add: tt_slist_move_count_def)
    with that [OF this] True dst src relinks_refl [OF inv] show thesis by simp
  next
    case False
    let ?us = "take k ys" and ?vs = "drop k ys"
    have us: "?us \<noteq> []" "set ?us \<inter> set ?vs = {}" "distinct ?us" "distinct ?vs" "set xs \<inter> set ?us = {}" "set xs \<inter> set ?vs = {}"
      using False src disj set_take_disj_set_drop_if_distinct [of ys k k] set_take_subset [of k ys] set_drop_subset [of k ys]
      by (auto simp: slist_def k_def)
    obtain q where q: "lseg m (sl_head src) ?us q" "lseg m q ?vs None"
      using src lseg_append [of m "sl_head src" ?us ?vs None] by (auto simp: slist_def)
    have "\<exists>dst' m1. (if sl_head dst \<noteq> None then bindr (tt_slist_tail dst m) (\<lambda>t.
        (case t of None \<Rightarrow> Inl Undef | Some t \<Rightarrow> bindr (sn_set_next m t (sl_head src)) (\<lambda>m. Inr (dst, m))))
        else Inr (dst\<lparr>sl_head := sl_head src\<rparr>, m)) = Inr (dst', m1)
      \<and> lseg m1 (sl_head dst') xs (sl_head src) \<and> relinks (set xs) m m1"
    proof (cases "xs = []")
      case True
      then show ?thesis using dst relinks_refl [OF inv] by (simp add: slist_def)
    next
      case xs: False
      have l: "lseg m (sl_head dst) xs None" "distinct xs" "lseg m (sl_head src) ys None" using dst src by (simp_all add: slist_def)
      from l(1) xs l(2) inv l(3) disj obtain m1 where m1: "sn_set_next m (last xs) (sl_head src) = Inr m1" "lseg m1 (sl_head dst) (xs @ ys) None"
        "lseg m1 (sl_head src) ys None" "relinks (set xs) m m1" "nxt m1 (last xs) = sl_head src" "lseg m1 (sl_head dst) xs (sl_head src)"
        by (rule slist_append_link)
      have "sl_head dst \<noteq> None" using l(1) xs by (cases xs) auto
      with m1 slist_tail_ok [OF dst] xs show ?thesis by simp
    qed
    then obtain dst' m1 where m1: "(if sl_head dst \<noteq> None then bindr (tt_slist_tail dst m) (\<lambda>t.
        (case t of None \<Rightarrow> Inl Undef | Some t \<Rightarrow> bindr (sn_set_next m t (sl_head src)) (\<lambda>m. Inr (dst, m))))
        else Inr (dst\<lparr>sl_head := sl_head src\<rparr>, m)) = Inr (dst', m1)" "lseg m1 (sl_head dst') xs (sl_head src)" "relinks (set xs) m m1" by blast
    let ?p = "last ?us"
    have l1: "lseg m1 (sl_head src) ?us q" "lseg m1 q ?vs None"
      using q relinks_lseg [OF m1(3), of ?us] relinks_lseg [OF m1(3), of ?vs] us by (simp_all add: Int_commute)
    have p: "is_struct m1 ?p" "nxt m1 ?p = q" using lseg_struct [OF l1(1)] lseg_last_next [OF l1(1) us(1)] us(1) by simp_all
    from p(1) relinksD(1) [OF m1(3)] obtain m2 where m2: "sn_set_next m1 ?p None = Inr m2" "relinks {?p} m1 m2" "nxt m2 ?p = None" by (rule sn_set_next_ok)
    have pin: "?p \<in> set ?us" using us(1) by (rule last_in_set)
    have l2: "lseg m2 (sl_head src) ?us None" using lseg_last_link [OF l1(1) us(1,3) m2(2,3)] .
    have l3: "lseg m2 q ?vs None" "lseg m2 (sl_head dst') xs (sl_head src)"
    proof -
      have "?p \<notin> set ?vs" "?p \<notin> set xs" using pin us by blast+
      then show "lseg m2 q ?vs None" "lseg m2 (sl_head dst') xs (sl_head src)"
        using l1(2) m1(2) relinks_lseg [OF m2(2), of ?vs] relinks_lseg [OF m2(2), of xs] by simp_all
    qed
    have "slist m2 (xs @ ?us) dst'" using l2 l3(2) us dst by (auto simp: slist_def lseg_append)
    moreover have "slist m2 ?vs (src\<lparr>sl_head := q\<rparr>)" using l3(1) us by (simp add: slist_def)
    moreover have "relinks (set xs \<union> set ys) m m2"
      using relinks_trans [OF relinks_mono [OF m1(3)] relinks_mono [OF m2(2)], of "set xs \<union> set ys"] pin set_take_subset [of k ys] by auto
    moreover have "tt_slist_move_count False dst src count m = Inr (of_nat k, dst', src\<lparr>sl_head := q\<rparr>, m2)"
      using adv False m1(1) p m2(1) by (simp add: tt_slist_move_count_def sn_next_ok)
    ultimately show thesis using that by blast
  qed
qed

end
