(* ===== verification/TT_HashMap.thy ===== *)
theory TT_HashMap
  imports TT_SList_Inv TT_Util
begin

text \<open>
  The hash map of \<^verbatim>\<open>algorithm/tt_hashmap.c\<close>: an array of singly linked lists on the heap, whose nodes
  belong to the caller. Two stores: \<open>m\<close> holds the nodes, \<open>t\<close> the arrays, one cell per list. A key pointer
  is the bytes it points to, which the caller must not change while the node is in the map.

  The hash functions of \<^verbatim>\<open>algorithm/tt_hash.c\<close>. A key is the list of bytes at its address, a context the
  32-bit seed, which \<^verbatim>\<open>tt_hashctx_init\<close> draws from a random source and here is a parameter of the maps.
  \<open>big\<close> says whether the host is big-endian, because murmur reads words in host order.
\<close>

definition murmur_k :: "u32 \<Rightarrow> u32" where
  "murmur_k k =
    (let k = k * 0xcc9e2d51;
         k = push_bit 15 k OR drop_bit (32 - 15) k in
     k * 0x1b873593)"

definition murmur_block :: "bool \<Rightarrow> u8 list \<Rightarrow> u32 \<Rightarrow> nat \<Rightarrow> u32" where
  "murmur_block big key hash i =
    (let hash = hash XOR murmur_k (host_word big (take 4 (drop (4 * i) key))) in
     (push_bit 13 hash OR drop_bit (32 - 13) hash) * 5 + 0xe6546b64)"

text \<open>The \<^verbatim>\<open>switch\<close> over the bytes left, each case falling into the next.\<close>

definition murmur_tail :: "u8 list \<Rightarrow> nat \<Rightarrow> u32 \<Rightarrow> u32" where
  "murmur_tail tail n hash =
    (let k1 = 0;
         k1 = (if n = 3 then k1 XOR push_bit 16 (ucast (tail ! 2)) else k1);
         k1 = (if n \<ge> 2 then k1 XOR push_bit 8 (ucast (tail ! 1)) else k1) in
     if n \<ge> 1 then hash XOR murmur_k (k1 XOR ucast (tail ! 0)) else hash)"

definition murmur_final :: "u32 \<Rightarrow> u32 \<Rightarrow> u32" where
  "murmur_final key_len hash =
    (let hash = hash XOR key_len;
         hash = hash XOR drop_bit 16 hash;
         hash = hash * 0x85ebca6b;
         hash = hash XOR drop_bit 13 hash;
         hash = hash * 0xc2b2ae35 in
     hash XOR drop_bit 16 hash)"

definition tt_hash_murmur3 :: "bool \<Rightarrow> u8 list \<Rightarrow> u32 \<Rightarrow> u32 \<Rightarrow> u32 run" where
  "tt_hash_murmur3 big key key_len seed =
    (if length key < unat key_len then Inl Undef else
     let nblocks = unat (drop_bit 2 key_len);
         hash = foldl (murmur_block big key) seed [0..<nblocks];
         hash = murmur_tail (drop (4 * nblocks) key) (unat (key_len AND 3)) hash in
     Inr (murmur_final key_len hash))"

definition fnv1a_step :: "u32 \<Rightarrow> u8 \<Rightarrow> u32" where
  "fnv1a_step hval b =
    (let hval = hval XOR ucast b in
     hval + (push_bit 1 hval + push_bit 4 hval + push_bit 7 hval + push_bit 8 hval + push_bit 24 hval))"

definition tt_hash_fnv1a :: "u8 list \<Rightarrow> u32 \<Rightarrow> u32 \<Rightarrow> u32 run" where
  "tt_hash_fnv1a key key_len seed =
    (if length key < unat key_len then Inl Undef else Inr (foldl fnv1a_step seed (take (unat key_len) key)))"

datatype tt_hash_alg = TT_HASH_ALG_MURMUR3 | TT_HASH_ALG_FNV1A

type_synonym tt_hash = "u8 list \<Rightarrow> u32 \<Rightarrow> u32 \<Rightarrow> u32 run"

text \<open>A hash function does not fail on a key of its length.\<close>

definition hashes :: "tt_hash \<Rightarrow> bool" where
  "hashes h \<longleftrightarrow> (\<forall>key key_len seed. unat key_len \<le> length key \<longrightarrow> (\<exists>v. h key key_len seed = Inr v))"

lemma hashes_alg: "hashes (tt_hash_murmur3 big)" "hashes tt_hash_fnv1a"
  by (simp_all add: hashes_def tt_hash_murmur3_def tt_hash_fnv1a_def Let_def)

text \<open>
  Multiplying by the 32-bit FNV prime is what the shifts of the loop amount to.
\<close>

lemma fnv1a_step_eq: "fnv1a_step hval b = (hval XOR ucast b) * 0x01000193"
proof -
  have "x + (push_bit 1 x + push_bit 4 x + push_bit 7 x + push_bit 8 x + push_bit 24 x) = x * 0x01000193" for x :: u32
    by (simp add: push_bit_eq_mult flip: distrib_left)
  then show ?thesis by (simp add: fnv1a_step_def Let_def)
qed

section \<open>Data\<close>

record hnode = snode +
  h_key :: "u8 list option"
  h_klen :: u32

record tt_hashmap =
  hm_sll :: ptr
  hm_hash :: tt_hash
  hm_seed :: u32
  hm_num :: u32
  hm_count :: u32

record tt_hmap_iter =
  hi_node :: ptr
  hi_idx :: u32

text \<open>\<^verbatim>\<open>hmap->sll[i]\<close> read and written.\<close>

definition slot_get :: "('z tt_hashmap_scheme) \<Rightarrow> tt_slist mem \<Rightarrow> u32 \<Rightarrow> tt_slist run" where
  "slot_get hm t i = bindr (mem_load 1 t (hm_sll hm) (unat i) 1) (\<lambda>cs. Inr (hd cs))"

definition slot_put :: "('z tt_hashmap_scheme) \<Rightarrow> tt_slist mem \<Rightarrow> u32 \<Rightarrow> tt_slist \<Rightarrow> tt_slist mem run" where
  "slot_put hm t i sl = mem_store 1 t (hm_sll hm) (unat i) [sl]"

text \<open>\<^verbatim>\<open>__KEQ\<close>: the lengths agree and \<^verbatim>\<open>tt_memcmp\<close> finds the bytes equal.\<close>

definition KEQ :: "'z hnode_scheme \<Rightarrow> u8 list \<Rightarrow> u32 \<Rightarrow> bool run" where
  "KEQ hn k klen =
    (if klen = h_klen hn then
       (case h_key hn of
          None \<Rightarrow> Inl Undef
        | Some b \<Rightarrow> if unat klen \<le> length k \<and> unat klen \<le> length b then Inr (take (unat klen) k = take (unat klen) b) else Inl Undef)
     else Inr False)"

definition find_sll :: "'z tt_hashmap_scheme \<Rightarrow> u8 list \<Rightarrow> u32 \<Rightarrow> u32 run" where
  "find_sll hm key key_len =
    bindr (hm_hash hm key key_len (hm_seed hm)) (\<lambda>h. if hm_num hm = 0 then Inl Undef else Inr (h mod hm_num hm))"

text \<open>The search along a list: the first node that passes a test, and the one before it.\<close>

partial_function (option) chain_search ::
  "('z hnode_scheme \<Rightarrow> bool run) \<Rightarrow> 'z hnode_scheme mem \<Rightarrow> ptr \<Rightarrow> ptr \<Rightarrow> (ptr \<times> ptr) run option" where
  "chain_search test m prev sn =
    (case sn of
       None \<Rightarrow> Some (Inr (prev, None))
     | Some p \<Rightarrow>
       (case bindr (mem_deref m p) (\<lambda>hn. bindr (test hn) (\<lambda>e. Inr (e, s_next hn))) of
          Inl f \<Rightarrow> Some (Inl f)
        | Inr r \<Rightarrow> if fst r then Some (Inr (prev, Some p)) else chain_search test m (Some p) (snd r)))"

section \<open>Operations\<close>

definition tt_hnode_init :: "nat \<Rightarrow> 'z hnode_scheme mem \<Rightarrow> 'z hnode_scheme mem run" where
  "tt_hnode_init hnode m = bindr (mem_deref m hnode) (\<lambda>n. mem_assign m hnode (n\<lparr>h_key := None, s_next := None, h_klen := 0\<rparr>))"

function init_slots :: "'z tt_hashmap_scheme \<Rightarrow> u32 \<Rightarrow> tt_slist mem \<Rightarrow> tt_slist mem run" where
  "init_slots hm i t =
    (if i < hm_num hm then bindr (slot_put hm t i tt_slist_init) (\<lambda>t. init_slots hm (i + 1) t) else Inr t)"
  by pat_completeness auto

text \<open>Loops over the slots end because the index grows.\<close>

lemma slot_loop_ends:
  fixes i :: u32
  assumes "i < n"
  shows "unat n - unat (i + 1) < unat n - unat i"
  using assms unat_suc_u32 [of i n] by (simp add: word_less_nat_alt)

termination init_slots
  by (relation "measure (\<lambda>(hm, i, t). unat (hm_num hm) - unat i)") (simp_all add: slot_loop_ends)

declare init_slots.simps [simp del]

definition alg_hash :: "bool \<Rightarrow> tt_hash_alg \<Rightarrow> tt_hash" where
  "alg_hash big alg = (if alg = TT_HASH_ALG_MURMUR3 then tt_hash_murmur3 big else tt_hash_fnv1a)"

definition tt_hmap_attr_default :: tt_hash_alg where "tt_hmap_attr_default = TT_HASH_ALG_MURMUR3"

definition tt_hmap_create ::
  "bool \<Rightarrow> u32 \<Rightarrow> u32 \<Rightarrow> tt_hash_alg option \<Rightarrow> tt_slist mem \<Rightarrow> (tt_result \<times> tt_hashmap option \<times> tt_slist mem) run" where
  "tt_hmap_create big seed slot_num attr t =
    bindr (TT_ASSERT (slot_num \<noteq> 0)) (\<lambda>_.
    let alg = (case attr of None \<Rightarrow> tt_hmap_attr_default | Some a \<Rightarrow> a) in
    (case tt_malloc 1 slot_num t of
       (None, t) \<Rightarrow> Inr (TT_FAIL, None, t)
     | (Some p, t) \<Rightarrow>
       let hm = \<lparr>hm_sll = Some p, hm_hash = alg_hash big alg, hm_seed = seed, hm_num = slot_num, hm_count = 0\<rparr> in
       bindr (init_slots hm 0 t) (\<lambda>t. Inr (TT_SUCCESS, Some hm, t))))"

text \<open>
  \<^verbatim>\<open>tt_hmap_clear\<close> empties the lists and hands each node to the callback \<^verbatim>\<open>hnode_destroy\<close>, if there is one.
\<close>

partial_function (option) clear_slot ::
  "(nat \<Rightarrow> 'z hnode_scheme mem \<Rightarrow> 'z hnode_scheme mem run) option \<Rightarrow> tt_slist \<Rightarrow> 'z hnode_scheme mem
    \<Rightarrow> (tt_slist \<times> 'z hnode_scheme mem) run option" where
  "clear_slot destroy sl m =
    (case tt_slist_pop_head sl m of
       Inl f \<Rightarrow> Some (Inl f)
     | Inr r \<Rightarrow>
       (case fst r of
          None \<Rightarrow> Some (Inr (snd r))
        | Some sn \<Rightarrow>
          (case (case destroy of None \<Rightarrow> Inr (snd (snd r)) | Some d \<Rightarrow> d sn (snd (snd r))) of
             Inl f \<Rightarrow> Some (Inl f)
           | Inr m \<Rightarrow> clear_slot destroy (fst (snd r)) m)))"

function clear_slots ::
  "(nat \<Rightarrow> 'z hnode_scheme mem \<Rightarrow> 'z hnode_scheme mem run) option \<Rightarrow> 'y tt_hashmap_scheme \<Rightarrow> u32
    \<Rightarrow> 'z hnode_scheme mem \<Rightarrow> tt_slist mem \<Rightarrow> ('z hnode_scheme mem \<times> tt_slist mem) run" where
  "clear_slots destroy hm i m t =
    (if i < hm_num hm then
       bindr (slot_get hm t i) (\<lambda>sl.
       bindr (returned (clear_slot destroy sl m)) (\<lambda>(sl, m).
       bindr (slot_put hm t i sl) (\<lambda>t. clear_slots destroy hm (i + 1) m t)))
     else Inr (m, t))"
  by pat_completeness auto
termination clear_slots
  by (relation "measure (\<lambda>(d, hm, i, m, t). unat (hm_num hm) - unat i)") (simp_all add: slot_loop_ends)

declare clear_slots.simps [simp del]

definition tt_hmap_clear ::
  "(nat \<Rightarrow> 'z hnode_scheme mem \<Rightarrow> 'z hnode_scheme mem run) option \<Rightarrow> tt_hashmap
    \<Rightarrow> 'z hnode_scheme mem \<Rightarrow> tt_slist mem \<Rightarrow> (tt_hashmap \<times> 'z hnode_scheme mem \<times> tt_slist mem) run" where
  "tt_hmap_clear destroy hm m t = bindr (clear_slots destroy hm 0 m t) (\<lambda>(m, t). Inr (hm\<lparr>hm_count := 0\<rparr>, m, t))"

definition tt_hmap_destroy ::
  "(nat \<Rightarrow> 'z hnode_scheme mem \<Rightarrow> 'z hnode_scheme mem run) option \<Rightarrow> tt_hashmap
    \<Rightarrow> 'z hnode_scheme mem \<Rightarrow> tt_slist mem \<Rightarrow> (tt_hashmap \<times> 'z hnode_scheme mem \<times> tt_slist mem) run" where
  "tt_hmap_destroy destroy hm m t =
    bindr (tt_hmap_clear destroy hm m t) (\<lambda>(hm, m, t). bindr (tt_free (hm_sll hm) t) (\<lambda>t. Inr (hm, m, t)))"

definition tt_hmap_count :: "tt_hashmap \<Rightarrow> u32" where "tt_hmap_count hm = hm_count hm"

definition tt_hmap_empty :: "tt_hashmap \<Rightarrow> bool" where "tt_hmap_empty hm \<longleftrightarrow> hm_count hm = 0"

text \<open>The slot of a key, its list, and the node with the key with the one before it.\<close>

definition hmap_search ::
  "'y tt_hashmap_scheme \<Rightarrow> u8 list \<Rightarrow> u32 \<Rightarrow> 'z hnode_scheme mem \<Rightarrow> tt_slist mem \<Rightarrow> (u32 \<times> tt_slist \<times> ptr \<times> ptr) run" where
  "hmap_search hm key key_len m t =
    bindr (find_sll hm key key_len) (\<lambda>i.
    bindr (slot_get hm t i) (\<lambda>sl.
    bindr (returned (chain_search (\<lambda>hn. KEQ hn key key_len) m None (sl_head sl))) (\<lambda>(prev, sn). Inr (i, sl, prev, sn))))"

definition tt_hmap_find :: "tt_hashmap \<Rightarrow> u8 list \<Rightarrow> u32 \<Rightarrow> 'z hnode_scheme mem \<Rightarrow> tt_slist mem \<Rightarrow> ptr run" where
  "tt_hmap_find hm key key_len m t = bindr (hmap_search hm key key_len m t) (\<lambda>(i, sl, prev, sn). Inr sn)"

definition tt_hmap_contain_key :: "tt_hashmap \<Rightarrow> u8 list \<Rightarrow> u32 \<Rightarrow> 'z hnode_scheme mem \<Rightarrow> tt_slist mem \<Rightarrow> bool run" where
  "tt_hmap_contain_key hm key key_len m t = bindr (tt_hmap_find hm key key_len m t) (\<lambda>sn. Inr (sn \<noteq> None))"

partial_function (option) chain_has :: "'z snode_scheme mem \<Rightarrow> ptr \<Rightarrow> nat \<Rightarrow> bool run option" where
  "chain_has m sn x =
    (case sn of None \<Rightarrow> Some (Inr False)
     | Some p \<Rightarrow> if x = p then Some (Inr True)
         else (case sn_next m p of Inl f \<Rightarrow> Some (Inl f) | Inr q \<Rightarrow> chain_has m q x))"

function contain_slots :: "'y tt_hashmap_scheme \<Rightarrow> u32 \<Rightarrow> nat \<Rightarrow> 'z hnode_scheme mem \<Rightarrow> tt_slist mem \<Rightarrow> bool run" where
  "contain_slots hm i x m t =
    (if i < hm_num hm then
       bindr (slot_get hm t i) (\<lambda>sl.
       bindr (returned (chain_has m (sl_head sl) x)) (\<lambda>h.
       if h then Inr True else contain_slots hm (i + 1) x m t))
     else Inr False)"
  by pat_completeness auto
termination contain_slots
  by (relation "measure (\<lambda>(hm, i, x, m, t). unat (hm_num hm) - unat i)") (simp_all add: slot_loop_ends)

declare contain_slots.simps [simp del]

definition tt_hmap_contain :: "tt_hashmap \<Rightarrow> nat \<Rightarrow> 'z hnode_scheme mem \<Rightarrow> tt_slist mem \<Rightarrow> bool run" where
  "tt_hmap_contain hm hnode m t = contain_slots hm 0 hnode m t"

definition tt_hmap_add ::
  "u8 list \<Rightarrow> u32 \<Rightarrow> nat \<Rightarrow> tt_hashmap \<Rightarrow> 'z hnode_scheme mem \<Rightarrow> tt_slist mem
    \<Rightarrow> (tt_result \<times> tt_hashmap \<times> 'z hnode_scheme mem \<times> tt_slist mem) run" where
  "tt_hmap_add key key_len hnode hm m t =
    bindr (hmap_search hm key key_len m t) (\<lambda>(i, sl, prev, sn).
    if sn \<noteq> None then Inr (TT_FAIL, hm, m, t) else
    bindr (mem_deref m hnode) (\<lambda>n.
    bindr (mem_assign m hnode (n\<lparr>h_key := Some key, h_klen := key_len\<rparr>)) (\<lambda>m.
    bindr (tt_slist_push_head hnode sl m) (\<lambda>(sl, m).
    bindr (slot_put hm t i sl) (\<lambda>t.
    Inr (TT_SUCCESS, hm\<lparr>hm_count := hm_count hm + 1\<rparr>, m, t))))))"

definition tt_hmap_remove ::
  "nat \<Rightarrow> tt_hashmap \<Rightarrow> 'z hnode_scheme mem \<Rightarrow> tt_slist mem \<Rightarrow> (tt_hashmap \<times> 'z hnode_scheme mem \<times> tt_slist mem) run" where
  "tt_hmap_remove hnode hm m t =
    bindr (mem_deref m hnode) (\<lambda>n.
    bindr (case h_key n of None \<Rightarrow> Inl Undef | Some k \<Rightarrow> find_sll hm k (h_klen n)) (\<lambda>i.
    bindr (slot_get hm t i) (\<lambda>sl.
    bindr (tt_slist_remove sl hnode m) (\<lambda>(next, sl, m).
    bindr (slot_put hm t i sl) (\<lambda>t.
    Inr (hm\<lparr>hm_count := hm_count hm - 1\<rparr>, m, t))))))"

definition tt_hmap_remove_key ::
  "u8 list \<Rightarrow> u32 \<Rightarrow> tt_hashmap \<Rightarrow> 'z hnode_scheme mem \<Rightarrow> tt_slist mem
    \<Rightarrow> (bool \<times> tt_hashmap \<times> 'z hnode_scheme mem \<times> tt_slist mem) run" where
  "tt_hmap_remove_key key key_len hm m t =
    bindr (hmap_search hm key key_len m t) (\<lambda>(i, sl, prev, sn).
    (case sn of
       None \<Rightarrow> Inr (False, hm, m, t)
     | Some x \<Rightarrow>
       bindr (tt_slist_fast_remove sl prev x m) (\<lambda>(next, sl, m).
       bindr (slot_put hm t i sl) (\<lambda>t.
       Inr (True, hm\<lparr>hm_count := hm_count hm - 1\<rparr>, m, t)))))"

text \<open>
  The traversals. The callback of \<^verbatim>\<open>tt_hmap_foreach\<close> gets the key, its length and the node, works on a state of
  the caller and on the nodes, and says whether to go on; the next node is read before it is called.
\<close>

type_synonym ('z, 's) hmap_action =
  "u8 list option \<Rightarrow> u32 \<Rightarrow> nat \<Rightarrow> 's \<Rightarrow> 'z hnode_scheme mem \<Rightarrow> (bool \<times> 's \<times> 'z hnode_scheme mem) run"

partial_function (option) foreach_chain ::
  "('z, 's) hmap_action \<Rightarrow> ptr \<Rightarrow> 's \<Rightarrow> 'z hnode_scheme mem \<Rightarrow> (bool \<times> 's \<times> 'z hnode_scheme mem) run option" where
  "foreach_chain act sn s m =
    (case sn of
       None \<Rightarrow> Some (Inr (True, s, m))
     | Some p \<Rightarrow>
       (case bindr (mem_deref m p) (\<lambda>hn. bindr (act (h_key hn) (h_klen hn) p s m) (\<lambda>r. Inr (s_next hn, r))) of
          Inl f \<Rightarrow> Some (Inl f)
        | Inr r \<Rightarrow>
          if fst (snd r) then foreach_chain act (fst r) (fst (snd (snd r))) (snd (snd (snd r)))
          else Some (Inr (snd r))))"

function foreach_slots ::
  "('z, 's) hmap_action \<Rightarrow> 'y tt_hashmap_scheme \<Rightarrow> u32 \<Rightarrow> 's \<Rightarrow> 'z hnode_scheme mem \<Rightarrow> tt_slist mem \<Rightarrow> ('s \<times> 'z hnode_scheme mem) run" where
  "foreach_slots act hm i s m t =
    (if i < hm_num hm then
       bindr (slot_get hm t i) (\<lambda>sl.
       bindr (returned (foreach_chain act (sl_head sl) s m)) (\<lambda>(go, s, m).
       if go then foreach_slots act hm (i + 1) s m t else Inr (s, m)))
     else Inr (s, m))"
  by pat_completeness auto
termination foreach_slots
  by (relation "measure (\<lambda>(a, hm, i, s, m, t). unat (hm_num hm) - unat i)") (simp_all add: slot_loop_ends)

declare foreach_slots.simps [simp del]

definition tt_hmap_foreach ::
  "('z, 's) hmap_action \<Rightarrow> tt_hashmap \<Rightarrow> 's \<Rightarrow> 'z hnode_scheme mem \<Rightarrow> tt_slist mem \<Rightarrow> ('s \<times> 'z hnode_scheme mem) run" where
  "tt_hmap_foreach act hm s m t = foreach_slots act hm 0 s m t"

text \<open>The iterator: the first node of the first list from a slot on that is not empty.\<close>

function first_from :: "'y tt_hashmap_scheme \<Rightarrow> u32 \<Rightarrow> tt_slist mem \<Rightarrow> tt_hmap_iter run" where
  "first_from hm i t =
    (if i < hm_num hm then
       bindr (slot_get hm t i) (\<lambda>sl.
       if \<not> tt_slist_empty sl then Inr \<lparr>hi_node = tt_slist_head sl, hi_idx = i\<rparr> else first_from hm (i + 1) t)
     else Inr \<lparr>hi_node = None, hi_idx = i\<rparr>)"
  by pat_completeness auto
termination first_from
  by (relation "measure (\<lambda>(hm, i, t). unat (hm_num hm) - unat i)") (simp_all add: slot_loop_ends)

declare first_from.simps [simp del]

definition tt_hmap_iter :: "tt_hashmap \<Rightarrow> tt_slist mem \<Rightarrow> tt_hmap_iter run" where
  "tt_hmap_iter hm t = first_from hm 0 t"

definition tt_hmap_iter_next ::
  "tt_hashmap \<Rightarrow> tt_hmap_iter \<Rightarrow> 'z hnode_scheme mem \<Rightarrow> tt_slist mem \<Rightarrow> (ptr \<times> tt_hmap_iter) run" where
  "tt_hmap_iter_next hm it m t =
    (case hi_node it of
       None \<Rightarrow> bindr (TT_ASSERT (hi_idx it = hm_num hm)) (\<lambda>_. Inr (None, it))
     | Some x \<Rightarrow>
       bindr (TT_ASSERT (hi_idx it < hm_num hm)) (\<lambda>_.
       bindr (sn_next m x) (\<lambda>sn.
       if sn \<noteq> None then Inr (Some x, it\<lparr>hi_node := sn\<rparr>)
       else bindr (first_from hm (hi_idx it + 1) t) (\<lambda>it. Inr (Some x, it)))))"

end
