(* ===== verification/TT_PtrHashMap.thy ===== *)
theory TT_PtrHashMap
  imports TT_HashMap
begin

text \<open>
  The map from keys to pointers of \<^verbatim>\<open>algorithm/ptr/tt_ptr_hashmap.c\<close>. It allocates its nodes and keeps up to
  \<^verbatim>\<open>cache_threshold\<close> released ones in a list for reuse.
\<close>

section \<open>Data\<close>

record 'p phmnode = hnode +
  pn_ptr :: 'p

record tt_ptrhmap = tt_hashmap +
  hm_cache :: tt_slist
  hm_cache_threshold :: u32
  hm_cache_count :: u32

type_synonym 'p phm_state = "tt_ptrhmap \<times> 'p phmnode mem \<times> tt_slist mem"

record tt_ptrhmap_attr =
  pa_hash_alg :: tt_hash_alg
  pa_cache_threshold :: u32

definition tt_ptrhmap_attr_default :: tt_ptrhmap_attr where
  "tt_ptrhmap_attr_default = \<lparr>pa_hash_alg = TT_HASH_ALG_MURMUR3, pa_cache_threshold = 16\<rparr>"

section \<open>Operations\<close>

definition tt_ptrhmap_create ::
  "bool \<Rightarrow> u32 \<Rightarrow> u32 \<Rightarrow> tt_ptrhmap_attr option \<Rightarrow> tt_slist mem \<Rightarrow> (tt_result \<times> tt_ptrhmap option \<times> tt_slist mem) run" where
  "tt_ptrhmap_create big seed slot_num attr t =
    bindr (TT_ASSERT (slot_num \<noteq> 0)) (\<lambda>_.
    let attr = (case attr of None \<Rightarrow> tt_ptrhmap_attr_default | Some a \<Rightarrow> a) in
    (case tt_malloc 1 slot_num t of
       (None, t) \<Rightarrow> Inr (TT_FAIL, None, t)
     | (Some p, t) \<Rightarrow>
       let hm = \<lparr>hm_sll = Some p, hm_hash = alg_hash big (pa_hash_alg attr), hm_seed = seed, hm_num = slot_num, hm_count = 0,
                 hm_cache = tt_slist_init, hm_cache_threshold = pa_cache_threshold attr, hm_cache_count = 0\<rparr> in
       bindr (init_slots hm 0 t) (\<lambda>t. Inr (TT_SUCCESS, Some hm, t))))"

text \<open>The loops that free every node of a list.\<close>

definition free_node :: "nat \<Rightarrow> 'p phmnode mem \<Rightarrow> 'p phmnode mem run" where
  "free_node sn m = tt_free (Some sn) m"

definition tt_ptrhmap_destroy :: "'p phm_state \<Rightarrow> ('p phm_state) run" where
  "tt_ptrhmap_destroy s = (case s of (hm, m, t) \<Rightarrow>
    bindr (clear_slots (Some free_node) hm 0 m t) (\<lambda>(m, t).
    bindr (returned (clear_slot (Some free_node) (hm_cache hm) m)) (\<lambda>(cache, m).
    bindr (tt_free (hm_sll hm) t) (\<lambda>t. Inr (hm\<lparr>hm_cache := cache\<rparr>, m, t)))))"

text \<open>A node that left its list goes to the cache or is freed.\<close>

definition phm_release :: "nat \<Rightarrow> tt_ptrhmap \<Rightarrow> 'p phmnode mem \<Rightarrow> (tt_ptrhmap \<times> 'p phmnode mem) run" where
  "phm_release sn hm m =
    (if hm_cache_count hm < hm_cache_threshold hm then
       bindr (tt_slist_push_head sn (hm_cache hm) m) (\<lambda>(c, m).
       Inr (hm\<lparr>hm_cache := c, hm_cache_count := hm_cache_count hm + 1\<rparr>, m))
     else bindr (tt_free (Some sn) m) (\<lambda>m. Inr (hm, m)))"

partial_function (option) phm_clear_slot :: "tt_slist \<Rightarrow> tt_ptrhmap \<Rightarrow> 'p phmnode mem \<Rightarrow> (tt_slist \<times> tt_ptrhmap \<times> 'p phmnode mem) run option" where
  "phm_clear_slot sl hm m =
    (case tt_slist_pop_head sl m of
       Inl f \<Rightarrow> Some (Inl f)
     | Inr r \<Rightarrow>
       (case fst r of
          None \<Rightarrow> Some (Inr (fst (snd r), hm, snd (snd r)))
        | Some sn \<Rightarrow>
          (case phm_release sn (hm\<lparr>hm_count := hm_count hm - 1\<rparr>) (snd (snd r)) of
             Inl f \<Rightarrow> Some (Inl f)
           | Inr q \<Rightarrow> phm_clear_slot (fst (snd r)) (fst q) (snd q))))"

function phm_clear_slots :: "u32 \<Rightarrow> u32 \<Rightarrow> 'p phm_state \<Rightarrow> 'p phm_state run" where
  "phm_clear_slots num i (hm, m, t) =
    (if i < num then
       bindr (slot_get hm t i) (\<lambda>sl.
       bindr (returned (phm_clear_slot sl hm m)) (\<lambda>(sl, hm, m).
       bindr (slot_put hm t i sl) (\<lambda>t. phm_clear_slots num (i + 1) (hm, m, t))))
     else Inr (hm, m, t))"
  by pat_completeness auto
termination
  by (relation "measure (\<lambda>(num, i, s). unat num - unat i)") (simp_all add: slot_loop_ends)

declare phm_clear_slots.simps [simp del]

definition tt_ptrhmap_clear :: "'p phm_state \<Rightarrow> 'p phm_state run" where
  "tt_ptrhmap_clear s = phm_clear_slots (hm_num (fst s)) 0 s"

definition tt_ptrhmap_count :: "tt_ptrhmap \<Rightarrow> u32" where "tt_ptrhmap_count hm = hm_count hm"

definition tt_ptrhmap_empty :: "tt_ptrhmap \<Rightarrow> bool" where "tt_ptrhmap_empty hm \<longleftrightarrow> hm_count hm = 0"

definition phm_find_node :: "u8 list \<Rightarrow> u32 \<Rightarrow> 'p phm_state \<Rightarrow> ptr run" where
  "phm_find_node key key_len s = (case s of (hm, m, t) \<Rightarrow>
    bindr (hmap_search hm key key_len m t) (\<lambda>(i, sl, prev, sn). Inr sn))"

definition tt_ptrhmap_find :: "u8 list \<Rightarrow> u32 \<Rightarrow> 'p phm_state \<Rightarrow> 'p option run" where
  "tt_ptrhmap_find key key_len s =
    bindr (phm_find_node key key_len s) (\<lambda>pn.
    (case pn of None \<Rightarrow> Inr None | Some x \<Rightarrow> bindr (mem_deref (fst (snd s)) x) (\<lambda>n. Inr (Some (pn_ptr n)))))"

definition tt_ptrhmap_contain_key :: "u8 list \<Rightarrow> u32 \<Rightarrow> 'p phm_state \<Rightarrow> bool run" where
  "tt_ptrhmap_contain_key key key_len s = bindr (tt_ptrhmap_find key key_len s) (\<lambda>p. Inr (p \<noteq> None))"

text \<open>The first slot whose list has a node that passes a test.\<close>

function slots_search ::
  "('z hnode_scheme \<Rightarrow> bool run) \<Rightarrow> 'y tt_hashmap_scheme \<Rightarrow> u32 \<Rightarrow> 'z hnode_scheme mem \<Rightarrow> tt_slist mem
    \<Rightarrow> (u32 \<times> tt_slist \<times> ptr \<times> nat) option run" where
  "slots_search test hm i m t =
    (if i < hm_num hm then
       bindr (slot_get hm t i) (\<lambda>sl.
       bindr (returned (chain_search test m None (sl_head sl))) (\<lambda>(prev, sn).
       (case sn of Some x \<Rightarrow> Inr (Some (i, sl, prev, x)) | None \<Rightarrow> slots_search test hm (i + 1) m t)))
     else Inr None)"
  by pat_completeness auto
termination
  by (relation "measure (\<lambda>(c, hm, i, m, t). unat (hm_num hm) - unat i)") (simp_all add: slot_loop_ends)

declare slots_search.simps [simp del]

definition tt_ptrhmap_contain_ptr :: "'p \<Rightarrow> 'p phm_state \<Rightarrow> bool run" where
  "tt_ptrhmap_contain_ptr p s = (case s of (hm, m, t) \<Rightarrow>
    bindr (slots_search (\<lambda>pn. Inr (pn_ptr pn = p)) hm 0 m t) (\<lambda>r. Inr (r \<noteq> None)))"

text \<open>A node from the cache, else from the heap.\<close>

definition phm_new_node :: "tt_ptrhmap \<Rightarrow> 'p phmnode mem \<Rightarrow> (ptr \<times> tt_ptrhmap \<times> 'p phmnode mem) run" where
  "phm_new_node hm m =
    bindr (tt_slist_pop_head (hm_cache hm) m) (\<lambda>(sn, c, m).
    (case sn of
       Some x \<Rightarrow> Inr (Some x, hm\<lparr>hm_cache := c\<rparr>, m)
     | None \<Rightarrow> (case malloc_struct m of (p, m) \<Rightarrow> Inr (p, hm\<lparr>hm_cache := c\<rparr>, m))))"

definition tt_ptrhmap_add :: "u8 list \<Rightarrow> u32 \<Rightarrow> 'p option \<Rightarrow> 'p phm_state \<Rightarrow> (tt_result \<times> 'p phm_state) run" where
  "tt_ptrhmap_add key key_len p s = (case s of (hm, m, t) \<Rightarrow>
    (case p of None \<Rightarrow> Inl Throw | Some p \<Rightarrow>
    bindr (hmap_search hm key key_len m t) (\<lambda>(i, sl, prev, sn).
    if sn \<noteq> None then Inr (TT_FAIL, hm, m, t) else
    bindr (phm_new_node hm m) (\<lambda>(pn, hm, m).
    (case pn of
       None \<Rightarrow> Inr (TT_FAIL, hm, m, t)
     | Some x \<Rightarrow>
       bindr (mem_deref m x) (\<lambda>n.
       bindr (mem_assign m x (n\<lparr>h_key := Some key, h_klen := key_len, pn_ptr := p\<rparr>)) (\<lambda>m.
       bindr (tt_snode_init x m) (\<lambda>m.
       bindr (tt_slist_push_head x sl m) (\<lambda>(sl, m).
       bindr (slot_put hm t i sl) (\<lambda>t.
       Inr (TT_SUCCESS, hm\<lparr>hm_count := hm_count hm + 1\<rparr>, m, t)))))))))))"

text \<open>The shared end of the removals.\<close>

definition phm_take_out :: "u32 \<Rightarrow> tt_slist \<Rightarrow> ptr \<Rightarrow> nat \<Rightarrow> 'p phm_state \<Rightarrow> 'p phm_state run" where
  "phm_take_out i sl prev x s = (case s of (hm, m, t) \<Rightarrow>
    bindr (tt_slist_fast_remove sl prev x m) (\<lambda>(next, sl, m).
    bindr (slot_put hm t i sl) (\<lambda>t.
    bindr (phm_release x (hm\<lparr>hm_count := hm_count hm - 1\<rparr>) m) (\<lambda>(hm, m). Inr (hm, m, t)))))"

definition tt_ptrhmap_remove_key :: "u8 list \<Rightarrow> u32 \<Rightarrow> 'p phm_state \<Rightarrow> (bool \<times> 'p phm_state) run" where
  "tt_ptrhmap_remove_key key key_len s = (case s of (hm, m, t) \<Rightarrow>
    bindr (hmap_search hm key key_len m t) (\<lambda>(i, sl, prev, sn).
    (case sn of None \<Rightarrow> Inr (False, s) | Some x \<Rightarrow> bindr (phm_take_out i sl prev x s) (\<lambda>s. Inr (True, s)))))"

definition phm_remove_where :: "('p phmnode \<Rightarrow> bool run) \<Rightarrow> 'p phm_state \<Rightarrow> (bool \<times> 'p phm_state) run" where
  "phm_remove_where test s = (case s of (hm, m, t) \<Rightarrow>
    bindr (slots_search test hm 0 m t) (\<lambda>r.
    (case r of None \<Rightarrow> Inr (False, s) | Some (i, sl, prev, x) \<Rightarrow> bindr (phm_take_out i sl prev x s) (\<lambda>s. Inr (True, s)))))"

definition tt_ptrhmap_remove_ptr :: "'p \<Rightarrow> 'p phm_state \<Rightarrow> (bool \<times> 'p phm_state) run" where
  "tt_ptrhmap_remove_ptr p = phm_remove_where (\<lambda>pn. Inr (pn_ptr pn = p))"

definition tt_ptrhmap_remove_pair :: "u8 list \<Rightarrow> u32 \<Rightarrow> 'p \<Rightarrow> 'p phm_state \<Rightarrow> (bool \<times> 'p phm_state) run" where
  "tt_ptrhmap_remove_pair key key_len p =
    phm_remove_where (\<lambda>pn. if pn_ptr pn = p then KEQ pn key key_len else Inr False)"

text \<open>Here the next node is read after the callback, which gets the pointer but works on its own state only.\<close>

partial_function (option) phm_foreach_chain ::
  "(u8 list option \<Rightarrow> u32 \<Rightarrow> 'p \<Rightarrow> 's \<Rightarrow> (bool \<times> 's) run) \<Rightarrow> ptr \<Rightarrow> 's \<Rightarrow> 'p phmnode mem \<Rightarrow> (bool \<times> 's) run option" where
  "phm_foreach_chain act sn s m =
    (case sn of
       None \<Rightarrow> Some (Inr (True, s))
     | Some p \<Rightarrow>
       (case bindr (mem_deref m p) (\<lambda>pn. bindr (act (h_key pn) (h_klen pn) (pn_ptr pn) s) (\<lambda>r. Inr (s_next pn, r))) of
          Inl f \<Rightarrow> Some (Inl f)
        | Inr r \<Rightarrow> if fst (snd r) then phm_foreach_chain act (fst r) (snd (snd r)) m else Some (Inr (snd r))))"

function phm_foreach_slots ::
  "(u8 list option \<Rightarrow> u32 \<Rightarrow> 'p \<Rightarrow> 's \<Rightarrow> (bool \<times> 's) run) \<Rightarrow> tt_ptrhmap \<Rightarrow> u32 \<Rightarrow> 's \<Rightarrow> 'p phmnode mem \<Rightarrow> tt_slist mem \<Rightarrow> 's run" where
  "phm_foreach_slots act hm i s m t =
    (if i < hm_num hm then
       bindr (slot_get hm t i) (\<lambda>sl.
       bindr (returned (phm_foreach_chain act (sl_head sl) s m)) (\<lambda>(go, s).
       if go then phm_foreach_slots act hm (i + 1) s m t else Inr s))
     else Inr s)"
  by pat_completeness auto
termination
  by (relation "measure (\<lambda>(a, hm, i, s, m, t). unat (hm_num hm) - unat i)") (simp_all add: slot_loop_ends)

declare phm_foreach_slots.simps [simp del]

definition tt_ptrhmap_foreach ::
  "(u8 list option \<Rightarrow> u32 \<Rightarrow> 'p \<Rightarrow> 's \<Rightarrow> (bool \<times> 's) run) \<Rightarrow> 's \<Rightarrow> 'p phm_state \<Rightarrow> 's run" where
  "tt_ptrhmap_foreach act s st = (case st of (hm, m, t) \<Rightarrow> phm_foreach_slots act hm 0 s m t)"

definition tt_ptrhmap_replace :: "u8 list \<Rightarrow> u32 \<Rightarrow> 'p option \<Rightarrow> 'p phm_state \<Rightarrow> (bool \<times> 'p phm_state) run" where
  "tt_ptrhmap_replace key key_len new_ptr s = (case s of (hm, m, t) \<Rightarrow>
    bindr (phm_find_node key key_len s) (\<lambda>pn.
    (case new_ptr of None \<Rightarrow> Inl Throw | Some p \<Rightarrow>
    (case pn of
       None \<Rightarrow> Inr (False, s)
     | Some x \<Rightarrow> bindr (mem_deref m x) (\<lambda>n. bindr (mem_assign m x (n\<lparr>pn_ptr := p\<rparr>)) (\<lambda>m. Inr (True, hm, m, t)))))))"

definition tt_ptrhmap_replace_equal :: "u8 list \<Rightarrow> u32 \<Rightarrow> 'p \<Rightarrow> 'p option \<Rightarrow> 'p phm_state \<Rightarrow> (bool \<times> 'p phm_state) run" where
  "tt_ptrhmap_replace_equal key key_len old_ptr new_ptr s = (case s of (hm, m, t) \<Rightarrow>
    bindr (phm_find_node key key_len s) (\<lambda>pn.
    (case new_ptr of None \<Rightarrow> Inl Throw | Some p \<Rightarrow>
    (case pn of
       None \<Rightarrow> Inr (False, s)
     | Some x \<Rightarrow> bindr (mem_deref m x) (\<lambda>n.
       if pn_ptr n = old_ptr then bindr (mem_assign m x (n\<lparr>pn_ptr := p\<rparr>)) (\<lambda>m. Inr (True, hm, m, t))
       else Inr (False, s))))))"

end
