(* ===== verification/TT_HashMap_Inv.thy ===== *)
theory TT_HashMap_Inv
  imports TT_HashMap
begin

text \<open>
  The hash map represents a finite map from keys to nodes: slot \<open>i\<close> holds a list \<open>L i\<close> of nodes whose
  keys hash to \<open>i\<close>, no key occurs twice and no node is in two lists.
\<close>

section \<open>The array of lists\<close>

abbreviation hm_own :: "'y tt_hashmap_scheme \<Rightarrow> nat set" where "hm_own hm \<equiv> set_option (hm_sll hm)"

definition slot_arr :: "'y tt_hashmap_scheme \<Rightarrow> tt_slist mem \<Rightarrow> tt_slist list \<Rightarrow> bool" where
  "slot_arr hm t cells \<longleftrightarrow> mem_inv t \<and> (\<exists>p. hm_sll hm = Some p \<and> p \<in> mem_heap t \<and> mem_blocks t p = Some cells)
     \<and> length cells = unat (hm_num hm) \<and> hm_num hm \<noteq> 0"

lemma slot_get_ok:
  assumes "slot_arr hm t cells" "unat i < unat (hm_num hm)"
  shows "slot_get hm t i = Inr (cells ! unat i)"
  using assms by (auto simp: slot_arr_def slot_get_def mem_load_def take_Suc hd_drop_conv_nth)

lemma slot_put_ok:
  assumes arr: "slot_arr hm t cells" and i: "unat i < unat (hm_num hm)"
  obtains t' where "slot_put hm t i sl = Inr t'" "slot_arr hm t' (cells[unat i := sl])" "owns_step (hm_own hm) t (hm_own hm) t'"
proof -
  obtain p where p: "hm_sll hm = Some p" "p \<in> mem_heap t" "mem_blocks t p = Some cells" "mem_inv t" "length cells = unat (hm_num hm)" "hm_num hm \<noteq> 0"
    using arr by (auto simp: slot_arr_def)
  let ?t = "t\<lparr>mem_blocks := (mem_blocks t)(p \<mapsto> cells[unat i := sl])\<rparr>"
  have "slot_put hm t i sl = Inr ?t"
    using p i mem_store_ok [OF p(3), of 1 "unat i" "[sl]"] by (simp add: slot_put_def overwrite_single)
  moreover have "slot_arr hm ?t (cells[unat i := sl])"
    using p mem_inv_upd [OF p(4,3)] by (simp add: slot_arr_def)
  moreover have "owns_step (hm_own hm) t (hm_own hm) ?t"
    using p owns_assign [OF mem_frame_upd [of p "{p}" t "Some (cells[unat i := sl])"], of "{p}"] by simp
  ultimately show thesis using that by blast
qed

lemma slot_arr_cong: "slot_arr hm t cells \<Longrightarrow> hm_sll hm' = hm_sll hm \<Longrightarrow> hm_num hm' = hm_num hm \<Longrightarrow> slot_arr hm' t cells"
  by (simp add: slot_arr_def)

lemma init_slots_ok:
  assumes "slot_arr hm t cells" "i \<le> hm_num hm"
  shows "\<exists>t'. init_slots hm i t = Inr t' \<and> slot_arr hm t' (take (unat i) cells @ replicate (unat (hm_num hm) - unat i) tt_slist_init)
    \<and> owns_step (hm_own hm) t (hm_own hm) t'"
  using assms
proof (induction "unat (hm_num hm) - unat i" arbitrary: i t cells rule: less_induct)
  case less
  have len: "length cells = unat (hm_num hm)" using less.prems(1) by (simp add: slot_arr_def)
  show ?case
  proof (cases "i < hm_num hm")
    case False
    then have "i = hm_num hm" using less.prems(2) by simp
    then show ?thesis using less.prems(1) len by (subst init_slots.simps) (simp add: owns_refl)
  next
    case True
    then have u: "unat (i + 1) = Suc (unat i)" "unat i < unat (hm_num hm)" using unat_suc_u32 [of i "hm_num hm"] by (simp_all add: word_less_nat_alt)
    then have le: "i + 1 \<le> hm_num hm" by (simp add: word_le_nat_alt)
    from less.prems(1) u(2) obtain t1 where t1: "slot_put hm t i tt_slist_init = Inr t1" "slot_arr hm t1 (cells[unat i := tt_slist_init])"
      "owns_step (hm_own hm) t (hm_own hm) t1" by (rule slot_put_ok)
    have "unat (hm_num hm) - unat (i + 1) < unat (hm_num hm) - unat i" using True by (rule slot_loop_ends)
    from less.hyps [OF this t1(2) le] obtain t' where t': "init_slots hm (i + 1) t1 = Inr t'"
      "slot_arr hm t' (take (unat (i + 1)) (cells[unat i := tt_slist_init]) @ replicate (unat (hm_num hm) - unat (i + 1)) tt_slist_init)"
      "owns_step (hm_own hm) t1 (hm_own hm) t'" by blast
    have "unat (hm_num hm) - unat i = Suc (unat (hm_num hm) - unat (i + 1))" using u by simp
    then have "take (unat (i + 1)) (cells[unat i := tt_slist_init]) @ replicate (unat (hm_num hm) - unat (i + 1)) tt_slist_init
        = take (unat i) cells @ replicate (unat (hm_num hm) - unat i) tt_slist_init"
      using u len by (simp add: take_Suc_conv_app_nth)
    with t' t1(1) True owns_trans [OF t1(3) t'(3)] show ?thesis by (subst init_slots.simps) simp
  qed
qed

section \<open>Searching a list\<close>

primrec walk :: "(nat \<Rightarrow> bool) \<Rightarrow> ptr \<Rightarrow> nat list \<Rightarrow> ptr \<times> ptr" where
  "walk P prev [] = (prev, None)"
| "walk P prev (x # xs) = (if P x then (prev, Some x) else walk P (Some x) xs)"

lemma chain_search_ok:
  assumes "lseg m p xs None" "\<forall>x \<in> set xs. test (struct_at m x) = Inr (P x)"
  shows "chain_search test m prev p = Some (Inr (walk P prev xs))"
  using assms
proof (induction xs arbitrary: p prev)
  case Nil
  then show ?case by (subst chain_search.simps) simp
next
  case (Cons x xs)
  then show ?case by (subst chain_search.simps) (simp add: mem_deref_ok)
qed

lemma walk_none: "\<forall>x \<in> set xs. \<not> P x \<Longrightarrow> snd (walk P prev xs) = None"
  by (induction xs arbitrary: prev) auto

lemma walk_split: "\<forall>u \<in> set us. \<not> P u \<Longrightarrow> P x \<Longrightarrow> walk P prev (us @ x # vs) = (if us = [] then prev else Some (last us), Some x)"
  by (induction us arbitrary: prev) auto

lemma chain_has_ok: "lseg m p xs None \<Longrightarrow> chain_has m p x = Some (Inr (x \<in> set xs))"
proof (induction xs arbitrary: p)
  case Nil
  then show ?case by (subst chain_has.simps) simp
next
  case (Cons y ys)
  then show ?case by (subst chain_has.simps) (auto simp: sn_next_ok)
qed

section \<open>The map represented\<close>

definition key_of :: "'z hnode_scheme mem \<Rightarrow> nat \<Rightarrow> u8 list" where
  "key_of m x = the (h_key (struct_at m x))"

definition hm_slot :: "'y tt_hashmap_scheme \<Rightarrow> u8 list \<Rightarrow> nat" where
  "hm_slot hm k = (case find_sll hm k (of_nat (length k)) of Inr i \<Rightarrow> unat i | Inl _ \<Rightarrow> 0)"

lemma hm_slot_cong: "hm_hash hm' = hm_hash hm \<Longrightarrow> hm_seed hm' = hm_seed hm \<Longrightarrow> hm_num hm' = hm_num hm \<Longrightarrow> hm_slot hm' = hm_slot hm"
  unfolding hm_slot_def find_sll_def fun_eq_iff by metis

text \<open>Node \<open>x\<close> carries a complete key that belongs into slot \<open>i\<close>.\<close>

definition keyed :: "'y tt_hashmap_scheme \<Rightarrow> 'z hnode_scheme mem \<Rightarrow> nat \<Rightarrow> nat \<Rightarrow> bool" where
  "keyed hm m i x \<longleftrightarrow> (\<exists>k. h_key (struct_at m x) = Some k \<and> length k = unat (h_klen (struct_at m x)) \<and> hm_slot hm k = i)"

definition entries :: "(nat \<Rightarrow> nat list) \<Rightarrow> nat set" where
  "entries L = (\<Union>i. set (L i))"

definition map_rep :: "'y tt_hashmap_scheme \<Rightarrow> 'z hnode_scheme mem \<Rightarrow> tt_slist mem \<Rightarrow> (nat \<Rightarrow> nat list) \<Rightarrow> bool" where
  "map_rep hm m t L \<longleftrightarrow> mem_inv m \<and> hashes (hm_hash hm)
     \<and> (\<exists>cells. slot_arr hm t cells \<and> (\<forall>i < unat (hm_num hm). slist m (L i) (cells ! i)))
     \<and> (\<forall>i. \<forall>x \<in> set (L i). keyed hm m i x) \<and> (\<forall>i. inj_on (key_of m) (set (L i)))
     \<and> (\<forall>i j. i \<noteq> j \<longrightarrow> set (L i) \<inter> set (L j) = {}) \<and> (\<forall>i \<ge> unat (hm_num hm). L i = [])"

lemma map_repD:
  assumes "map_rep hm m t L"
  shows "mem_inv m" "hashes (hm_hash hm)" "x \<in> set (L i) \<Longrightarrow> keyed hm m i x" "inj_on (key_of m) (set (L i))"
    "i \<noteq> j \<Longrightarrow> set (L i) \<inter> set (L j) = {}" "unat (hm_num hm) \<le> i \<Longrightarrow> L i = []"
  using assms by (auto simp: map_rep_def)

lemma map_rep_cells:
  assumes "map_rep hm m t L"
  obtains cells where "slot_arr hm t cells" "\<forall>i < unat (hm_num hm). slist m (L i) (cells ! i)" "hm_num hm \<noteq> 0"
  using assms by (auto simp: map_rep_def slot_arr_def)

lemma entriesI: "x \<in> set (L i) \<Longrightarrow> x \<in> entries L"
  by (auto simp: entries_def)

lemma entries_finite: "map_rep hm m t L \<Longrightarrow> finite (entries L)"
proof -
  assume rep: "map_rep hm m t L"
  have "i < unat (hm_num hm)" if "x \<in> set (L i)" for x i using map_repD(6) [OF rep, of i] that by (cases "unat (hm_num hm) \<le> i") auto
  then have "entries L \<subseteq> (\<Union>i < unat (hm_num hm). set (L i))" by (auto simp: entries_def)
  then show ?thesis by (rule finite_subset) simp
qed

lemma entries_struct:
  assumes rep: "map_rep hm m t L" and y: "y \<in> entries L"
  shows "is_struct m y"
proof -
  obtain cells where cl: "slot_arr hm t cells" "\<forall>j < unat (hm_num hm). slist m (L j) (cells ! j)" using rep by (rule map_rep_cells)
  obtain j where j: "y \<in> set (L j)" using y by (auto simp: entries_def)
  then have "j < unat (hm_num hm)" using map_repD(6) [OF rep, of j] by (cases "unat (hm_num hm) \<le> j") auto
  then have "lseg m (sl_head (cells ! j)) (L j) None" using cl(2) by (simp add: slist_def)
  then show ?thesis using j by (rule lseg_struct)
qed

text \<open>A key is complete when it has the length passed with it.\<close>

lemma hm_slot_ok:
  assumes rep: "map_rep hm m t L" and k: "length k = unat klen"
  shows "find_sll hm k klen = Inr (of_nat (hm_slot hm k))" "hm_slot hm k < unat (hm_num hm)"
proof -
  have n: "hm_num hm \<noteq> 0" using rep map_rep_cells by blast
  obtain v where v: "hm_hash hm k klen (hm_seed hm) = Inr v" using map_repD(2) [OF rep] k unfolding hashes_def by (metis order_refl)
  have e: "(of_nat (length k) :: u32) = klen" using k by simp
  have f: "find_sll hm k klen = Inr (v mod hm_num hm)" using v n by (simp add: find_sll_def)
  then have s: "hm_slot hm k = unat (v mod hm_num hm)" unfolding hm_slot_def e by simp
  with f show "find_sll hm k klen = Inr (of_nat (hm_slot hm k))" by simp
  show "hm_slot hm k < unat (hm_num hm)" using n unfolding s by (simp add: unat_mod_distrib unat_gt_0)
qed

lemma KEQ_ok:
  assumes "keyed hm m i x" "length k = unat klen"
  shows "KEQ (struct_at m x) k klen = Inr (key_of m x = k)"
proof -
  obtain b where b: "h_key (struct_at m x) = Some b" "length b = unat (h_klen (struct_at m x))" using assms(1) by (auto simp: keyed_def)
  show ?thesis
  proof (cases "klen = h_klen (struct_at m x)")
    case True
    then show ?thesis using b assms(2) by (auto simp: KEQ_def key_of_def)
  next
    case False
    then have "length b \<noteq> length k" using b(2) assms(2) by (simp add: word_unat_eq_iff)
    then show ?thesis using False b(1) by (auto simp: KEQ_def key_of_def)
  qed
qed

text \<open>The node with a key, if there is one.\<close>

definition hm_find :: "'y tt_hashmap_scheme \<Rightarrow> 'z hnode_scheme mem \<Rightarrow> (nat \<Rightarrow> nat list) \<Rightarrow> u8 list \<Rightarrow> ptr" where
  "hm_find hm m L k = find (\<lambda>x. key_of m x = k) (L (hm_slot hm k))"

lemma keyed_slot: "keyed hm m i x \<Longrightarrow> hm_slot hm (key_of m x) = i"
  by (auto simp: keyed_def key_of_def)

lemma hm_find_iff:
  assumes rep: "map_rep hm m t L"
  shows "hm_find hm m L k = Some x \<longleftrightarrow> x \<in> entries L \<and> key_of m x = k"
proof
  assume "hm_find hm m L k = Some x"
  then have "x \<in> set (L (hm_slot hm k))" "key_of m x = k" by (auto simp: hm_find_def find_Some_iff in_set_conv_nth)
  then show "x \<in> entries L \<and> key_of m x = k" by (blast intro: entriesI)
next
  assume x: "x \<in> entries L \<and> key_of m x = k"
  then obtain i where i: "x \<in> set (L i)" by (auto simp: entries_def)
  then have xs: "x \<in> set (L (hm_slot hm k))" using keyed_slot [OF map_repD(3) [OF rep i]] x by simp
  then obtain y where y: "hm_find hm m L k = Some y" using x unfolding hm_find_def by (cases "find (\<lambda>x. key_of m x = k) (L (hm_slot hm k))") (auto simp: find_None_iff)
  then have "y \<in> set (L (hm_slot hm k))" "key_of m y = k" by (auto simp: hm_find_def find_Some_iff in_set_conv_nth)
  then have "y = x" using inj_onD [OF map_repD(4) [OF rep]] xs x by blast
  with y show "hm_find hm m L k = Some x" by simp
qed

lemma hm_find_split:
  assumes "hm_find hm m L k = Some x"
  obtains us vs where "L (hm_slot hm k) = us @ x # vs" "\<forall>u \<in> set us. key_of m u \<noteq> k" "key_of m x = k"
proof -
  obtain j where j: "j < length (L (hm_slot hm k))" "key_of m (L (hm_slot hm k) ! j) = k" "x = L (hm_slot hm k) ! j"
    "\<forall>l < j. key_of m (L (hm_slot hm k) ! l) \<noteq> k"
    using assms by (auto simp: hm_find_def find_Some_iff)
  show thesis
  proof (rule that)
    show "L (hm_slot hm k) = take j (L (hm_slot hm k)) @ x # drop (Suc j) (L (hm_slot hm k))" unfolding j(3) using j(1) by (rule id_take_nth_drop)
    show "\<forall>u \<in> set (take j (L (hm_slot hm k))). key_of m u \<noteq> k"
    proof
      fix u
      assume "u \<in> set (take j (L (hm_slot hm k)))"
      then obtain l where "l < j" "u = L (hm_slot hm k) ! l" by (auto simp: in_set_conv_nth)
      then show "key_of m u \<noteq> k" using j(4) by simp
    qed
  qed (use j in simp)
qed

text \<open>What the code's search delivers.\<close>

lemma search_ok:
  assumes rep: "map_rep hm m t L" and k: "length k = unat klen" and arr: "slot_arr hm t cells" "\<forall>i < unat (hm_num hm). slist m (L i) (cells ! i)"
  shows "hmap_search hm k klen m t = Inr (of_nat (hm_slot hm k), cells ! hm_slot hm k, walk (\<lambda>x. key_of m x = k) None (L (hm_slot hm k)))"
proof -
  note s = hm_slot_ok [OF rep k]
  let ?i = "hm_slot hm k"
  have u: "unat (of_nat ?i :: u32) = ?i" using s(2) unat_lt_32 [of "hm_num hm"] by (simp add: unat_of_nat)
  have sl: "lseg m (sl_head (cells ! ?i)) (L ?i) None" using arr(2) s(2) by (simp add: slist_def)
  have t: "\<forall>x \<in> set (L ?i). KEQ (struct_at m x) k klen = Inr (key_of m x = k)" using KEQ_ok map_repD(3) [OF rep] k by blast
  show ?thesis
    using s chain_search_ok [OF sl t, of None] slot_get_ok [OF arr(1), of "of_nat ?i"] u
    by (simp add: hmap_search_def case_prod_unfold)
qed

lemma search_found:
  assumes rep: "map_rep hm m t L" and k: "length k = unat klen" and f: "hm_find hm m L k = Some x"
  obtains cells us vs where "slot_arr hm t cells" "\<forall>i < unat (hm_num hm). slist m (L i) (cells ! i)" "L (hm_slot hm k) = us @ x # vs" "key_of m x = k"
    "hmap_search hm k klen m t = Inr (of_nat (hm_slot hm k), cells ! hm_slot hm k, if us = [] then None else Some (last us), Some x)"
proof -
  obtain cells where c: "slot_arr hm t cells" "\<forall>i < unat (hm_num hm). slist m (L i) (cells ! i)" using rep by (rule map_rep_cells)
  obtain us vs where s: "L (hm_slot hm k) = us @ x # vs" "\<forall>u \<in> set us. key_of m u \<noteq> k" "key_of m x = k" using f by (rule hm_find_split)
  with that [OF c s(1,3)] search_ok [OF rep k c] show thesis by (simp add: walk_split)
qed

lemma search_missing:
  assumes rep: "map_rep hm m t L" and k: "length k = unat klen" and f: "hm_find hm m L k = None"
  obtains cells prev where "slot_arr hm t cells" "\<forall>i < unat (hm_num hm). slist m (L i) (cells ! i)"
    "hmap_search hm k klen m t = Inr (of_nat (hm_slot hm k), cells ! hm_slot hm k, prev, None)"
proof -
  obtain cells where c: "slot_arr hm t cells" "\<forall>i < unat (hm_num hm). slist m (L i) (cells ! i)" using rep by (rule map_rep_cells)
  have "\<forall>x \<in> set (L (hm_slot hm k)). key_of m x \<noteq> k" using f by (simp add: hm_find_def find_None_iff)
  then have "snd (walk (\<lambda>x. key_of m x = k) None (L (hm_slot hm k))) = None" by (rule walk_none)
  with that [OF c, of "fst (walk (\<lambda>x. key_of m x = k) None (L (hm_slot hm k)))"] search_ok [OF rep k c] show thesis
    by (metis prod.collapse)
qed

lemma hnode_more:
  assumes "snode.more a = snode.more (b :: 'z hnode_scheme)"
  shows "h_key a = h_key b" "h_klen a = h_klen b" "hnode.more a = hnode.more b"
  using assms by (cases a; cases b; simp)+

lemma slot_arr_unique: "slot_arr hm t cells \<Longrightarrow> slot_arr hm' t cells' \<Longrightarrow> hm_sll hm' = hm_sll hm \<Longrightarrow> cells' = cells"
  by (auto simp: slot_arr_def)

lemma slist_cong:
  assumes "slist m xs sl" "\<forall>x \<in> set xs. struct_at m' x = struct_at m x \<and> is_struct m' x = is_struct m x"
  shows "slist m' xs sl"
proof -
  have "lseg m' (sl_head sl) xs None = lseg m (sl_head sl) xs None" using assms(2) by (intro lseg_cong) simp
  then show ?thesis using assms(1) by (simp add: slist_def)
qed

section \<open>Changing one list\<close>

text \<open>The other lists, their nodes and keys stay as they are.\<close>

lemma map_rep_change:
  assumes rep: "map_rep hm m t L" and arr: "slot_arr hm t cells" "\<forall>j < unat (hm_num hm). slist m (L j) (cells ! j)"
    and hm: "hm_sll hm' = hm_sll hm" "hm_hash hm' = hm_hash hm" "hm_seed hm' = hm_seed hm" "hm_num hm' = hm_num hm"
    and i: "i < unat (hm_num hm)" and arr': "slot_arr hm t' (cells[i := sl])" and inv: "mem_inv m'"
    and new: "slist m' xs sl" "\<forall>x \<in> set xs. keyed hm m' i x" "inj_on (key_of m') (set xs)" "\<forall>j. j \<noteq> i \<longrightarrow> set (L j) \<inter> set xs = {}"
    and old: "\<forall>j. j \<noteq> i \<longrightarrow> (\<forall>x \<in> set (L j). struct_at m' x = struct_at m x \<and> is_struct m' x = is_struct m x)"
  shows "map_rep hm' m' t' (L(i := xs))"
proof -
  have keyed: "keyed hm' m'' j x = keyed hm m'' j x" for m'' j x
    using hm_slot_cong [OF hm(2-4)] by (simp add: keyed_def)
  have len: "length cells = unat (hm_num hm)" using arr(1) by (simp add: slot_arr_def)
  have sl: "slist m' ((L(i := xs)) j) (cells[i := sl] ! j)" if j: "j < unat (hm_num hm)" for j
  proof (cases "j = i")
    case True
    then show ?thesis using new(1) i len by simp
  next
    case False
    have "lseg m' (sl_head (cells ! j)) (L j) None = lseg m (sl_head (cells ! j)) (L j) None"
      using old False by (intro lseg_cong) simp
    then show ?thesis using arr(2) j False by (simp add: slist_def)
  qed
  have k: "keyed hm m' j x" if j: "j \<noteq> i" "x \<in> set (L j)" for j x
    using map_repD(3) [OF rep j(2)] old j by (simp add: keyed_def)
  have inj: "inj_on (key_of m') (set (L j))" if j: "j \<noteq> i" for j
  proof -
    have "key_of m' x = key_of m x" if "x \<in> set (L j)" for x using old j that by (simp add: key_of_def)
    then show ?thesis using map_repD(4) [OF rep, of j] by (simp cong: inj_on_cong)
  qed
  show ?thesis
    unfolding map_rep_def
  proof (intro conjI allI ballI impI)
    show "\<exists>cells. slot_arr hm' t' cells \<and> (\<forall>j < unat (hm_num hm'). slist m' ((L(i := xs)) j) (cells ! j))"
      using slot_arr_cong [OF arr' hm(1,4)] sl hm(4) by (intro exI [of _ "cells[i := sl]"]) simp
    show "keyed hm' m' j x" if "x \<in> set ((L(i := xs)) j)" for j x
      using that new(2) k unfolding keyed by (cases "j = i") simp_all
    show "inj_on (key_of m') (set ((L(i := xs)) j))" for j using new(3) inj by (cases "j = i") simp_all
    show "set ((L(i := xs)) j) \<inter> set ((L(i := xs)) l) = {}" if "j \<noteq> l" for j l
      using that map_repD(5) [OF rep that] new(4) by (cases "j = i"; cases "l = i") (auto simp: Int_commute)
    show "(L(i := xs)) j = []" if "unat (hm_num hm') \<le> j" for j using that map_repD(6) [OF rep, of j] hm(4) i by simp
  qed (use inv map_repD(2) [OF rep] hm(2) in simp_all)
qed

lemma entries_upd: "entries (L(i := xs)) = set xs \<union> (\<Union>j \<in> - {i}. set (L j))"
  by (auto simp: entries_def split: if_splits)

lemma entries_add: "entries (L(i := x # L i)) = insert x (entries L)"
  unfolding entries_upd by (auto simp: entries_def)

lemma entries_cut:
  assumes "L i = us @ x # vs" "distinct (L i)" "\<forall>j. j \<noteq> i \<longrightarrow> set (L i) \<inter> set (L j) = {}"
  shows "entries (L(i := us @ vs)) = entries L - {x}"
proof -
  have "x \<notin> set us" "x \<notin> set vs" using assms(1,2) by auto
  moreover have "x \<notin> (\<Union>j \<in> - {i}. set (L j))" using assms(1,3) by fastforce
  moreover have "entries L = set (L i) \<union> (\<Union>j \<in> - {i}. set (L j))" using entries_upd [of L i "L i"] by simp
  ultimately show ?thesis unfolding entries_upd using assms(1) by auto
qed

text \<open>Putting a node with a new key at the head of its list.\<close>

lemma map_rep_add:
  assumes rep: "map_rep hm m t L" and arr: "slot_arr hm t cells" "\<forall>j < unat (hm_num hm). slist m (L j) (cells ! j)"
    and hm: "hm_sll hm' = hm_sll hm" "hm_hash hm' = hm_hash hm" "hm_seed hm' = hm_seed hm" "hm_num hm' = hm_num hm"
    and k: "length k = unat klen" "hm_find hm m L k = None" and x: "x \<notin> entries L"
    and m': "mem_inv m'" "h_key (struct_at m' x) = Some k" "h_klen (struct_at m' x) = klen"
      "\<forall>y. y \<noteq> x \<longrightarrow> struct_at m' y = struct_at m y" "\<forall>y \<in> entries L. is_struct m' y = is_struct m y"
    and sl: "slist m' (x # L (hm_slot hm k)) sl" and arr': "slot_arr hm t' (cells[hm_slot hm k := sl])"
  shows "map_rep hm' m' t' (L(hm_slot hm k := x # L (hm_slot hm k)))"
    "hm_find hm' m' (L(hm_slot hm k := x # L (hm_slot hm k))) = (hm_find hm m L)(k \<mapsto> x)"
proof -
  let ?i = "hm_slot hm k"
  have xl: "x \<notin> set (L j)" for j using x entriesI [of x L j] by blast
  have same: "struct_at m' y = struct_at m y" "is_struct m' y = is_struct m y" if "y \<in> set (L j)" for y j
    using that m'(4,5) xl [of j] entriesI by metis+
  show rep': "map_rep hm' m' t' (L(?i := x # L ?i))"
  proof (rule map_rep_change [OF rep arr hm hm_slot_ok(2) [OF rep k(1)] arr' m'(1) sl])
    have "keyed hm m' ?i x" using m'(2,3) k(1) by (simp add: keyed_def)
    moreover have "keyed hm m' ?i y" if "y \<in> set (L ?i)" for y using map_repD(3) [OF rep that] same(1) [OF that] by (simp add: keyed_def)
    ultimately show "\<forall>y \<in> set (x # L ?i). keyed hm m' ?i y" by simp
    have kx: "key_of m' x = k" using m'(2) by (simp add: key_of_def)
    have ky: "key_of m' y = key_of m y" if "y \<in> set (L ?i)" for y using same(1) [OF that] by (simp add: key_of_def)
    have "\<forall>y \<in> set (L ?i). key_of m y \<noteq> k" using k(2) by (simp add: hm_find_def find_None_iff)
    moreover have "inj_on (key_of m') (set (L ?i))" using map_repD(4) [OF rep, of ?i] ky by (simp cong: inj_on_cong)
    ultimately show "inj_on (key_of m') (set (x # L ?i))" using kx ky by auto
    show "\<forall>j. j \<noteq> ?i \<longrightarrow> set (L j) \<inter> set (x # L ?i) = {}" using xl map_repD(5) [OF rep] by auto
    show "\<forall>j. j \<noteq> ?i \<longrightarrow> (\<forall>y \<in> set (L j). struct_at m' y = struct_at m y \<and> is_struct m' y = is_struct m y)" using same by blast
  qed
  show "hm_find hm' m' (L(?i := x # L ?i)) = (hm_find hm m L)(k \<mapsto> x)"
  proof
    fix k'
    have "hm_find hm' m' (L(?i := x # L ?i)) k' = Some y \<longleftrightarrow> ((hm_find hm m L)(k \<mapsto> x)) k' = Some y" for y
    proof -
      have "key_of m' y = key_of m y" if "y \<in> entries L" using that m'(4) x by (auto simp: key_of_def)
      moreover have "key_of m' x = k" using m'(2) by (simp add: key_of_def)
      moreover have "key_of m y \<noteq> k" if "y \<in> entries L" using k(2) hm_find_iff [OF rep, of k y] that by auto
      ultimately show ?thesis
        using hm_find_iff [OF rep', of k' y] hm_find_iff [OF rep, of k' y] x by (auto simp: entries_add)
    qed
    then show "hm_find hm' m' (L(?i := x # L ?i)) k' = ((hm_find hm m L)(k \<mapsto> x)) k'" by (metis option.exhaust)
  qed
qed

text \<open>Cutting a node out of its list; its struct may have changed or be gone.\<close>

lemma map_rep_cut:
  assumes rep: "map_rep hm m t L" and arr: "slot_arr hm t cells" "\<forall>j < unat (hm_num hm). slist m (L j) (cells ! j)"
    and hm: "hm_sll hm' = hm_sll hm" "hm_hash hm' = hm_hash hm" "hm_seed hm' = hm_seed hm" "hm_num hm' = hm_num hm"
    and i: "i < unat (hm_num hm)" "L i = us @ x # vs"
    and m': "mem_inv m'" "relinks (set (us @ [x])) m m'"
    and sl: "slist m' (us @ vs) sl" and arr': "slot_arr hm t' (cells[i := sl])"
  shows "map_rep hm' m' t' (L(i := us @ vs))" "hm_find hm' m' (L(i := us @ vs)) = (hm_find hm m L)(key_of m x := None)"
    "entries (L(i := us @ vs)) = entries L - {x}"
proof -
  have key: "h_key (struct_at m' y) = h_key (struct_at m y)" "h_klen (struct_at m' y) = h_klen (struct_at m y)" for y
    using relinksD(5) [OF m'(2), of y] by (cases "struct_at m' y"; cases "struct_at m y"; simp)+
  then have kd: "keyed hm m' j y = keyed hm m j y" "key_of m' = key_of m" for j y by (simp_all add: keyed_def key_of_def fun_eq_iff)
  have li: "distinct (L i)" using arr(2) i(1) by (simp add: slist_def)
  have disj: "\<forall>j. j \<noteq> i \<longrightarrow> set (L i) \<inter> set (L j) = {}" using map_repD(5) [OF rep] by blast
  show e: "entries (L(i := us @ vs)) = entries L - {x}" using entries_cut [OF i(2) li disj] .
  show rep': "map_rep hm' m' t' (L(i := us @ vs))"
  proof (rule map_rep_change [OF rep arr hm i(1) arr' m'(1) sl])
    show "\<forall>y \<in> set (us @ vs). keyed hm m' i y" using map_repD(3) [OF rep, of _ i] i(2) by (simp add: kd)
    show "inj_on (key_of m') (set (us @ vs))" using map_repD(4) [OF rep, of i] i(2) unfolding kd by (auto intro: inj_on_subset)
    show "\<forall>j. j \<noteq> i \<longrightarrow> set (L j) \<inter> set (us @ vs) = {}" using disj i(2) by fastforce
    show "\<forall>j. j \<noteq> i \<longrightarrow> (\<forall>y \<in> set (L j). struct_at m' y = struct_at m y \<and> is_struct m' y = is_struct m y)"
    proof (intro allI impI ballI)
      fix j y
      assume "j \<noteq> i" "y \<in> set (L j)"
      then have "y \<notin> set (us @ [x])" using disj i(2) by fastforce
      then show "struct_at m' y = struct_at m y \<and> is_struct m' y = is_struct m y" using relinksD(3,4) [OF m'(2)] by simp
    qed
  qed
  show "hm_find hm' m' (L(i := us @ vs)) = (hm_find hm m L)(key_of m x := None)"
  proof
    fix k'
    have xe: "x \<in> entries L" using i(2) by (intro entriesI [of x L i]) simp
    have "hm_find hm' m' (L(i := us @ vs)) k' = Some y \<longleftrightarrow> ((hm_find hm m L)(key_of m x := None)) k' = Some y" for y
      using hm_find_iff [OF rep', of k' y] hm_find_iff [OF rep, of k' y] hm_find_iff [OF rep, of k' x] xe
      unfolding e kd by (cases "y = x") auto
    then show "hm_find hm' m' (L(i := us @ vs)) k' = ((hm_find hm m L)(key_of m x := None)) k'" by (metis option.exhaust)
  qed
qed

end
