(* ===== verification/TT_PtrHashMap_Inv.thy ===== *)
theory TT_PtrHashMap_Inv
  imports TT_PtrHashMap TT_HashMap_Inv
begin

text \<open>
  The map from keys to pointers implements the dictionary interface, owns all its nodes, used or cached,
  and frees them.

  What a map from keys to values promises: an addition is refused when the key is in use or there is no
  memory, a search and a removal say whether the key was there.
\<close>

datatype ('k, 'v) d_op = DFind 'k | DAdd 'k 'v | DDel 'k

primrec op_key :: "('k, 'v) d_op \<Rightarrow> 'k" where
  "op_key (DFind k) = k"
| "op_key (DAdd k v) = k"
| "op_key (DDel k) = k"

inductive d_spec :: "('k, 'v) d_op \<Rightarrow> ('k \<rightharpoonup> 'v) \<Rightarrow> 'v answer \<Rightarrow> ('k \<rightharpoonup> 'v) \<Rightarrow> bool" where
  found: "M k = Some v \<Longrightarrow> d_spec (DFind k) M (Got v) M"
| missing: "M k = None \<Longrightarrow> d_spec (DFind k) M Empty M"
| added: "M k = None \<Longrightarrow> d_spec (DAdd k v) M Done (M(k \<mapsto> v))"
| refused: "d_spec (DAdd k v) M NoMem M"
| deleted: "M k = Some v \<Longrightarrow> d_spec (DDel k) M Done (M(k := None))"
| absent: "M k = None \<Longrightarrow> d_spec (DDel k) M Empty M"

inductive_simps d_spec_simps: "d_spec (DFind k) M a N" "d_spec (DAdd k v) M a N" "d_spec (DDel k) M a N"

inductive d_specs :: "('k, 'v) d_op list \<Rightarrow> ('k \<rightharpoonup> 'v) \<Rightarrow> 'v answer list \<Rightarrow> ('k \<rightharpoonup> 'v) \<Rightarrow> bool" where
  nil: "d_specs [] M [] M"
| cons: "d_spec op M a N \<Longrightarrow> d_specs ops N as K \<Longrightarrow> d_specs (op # ops) M (a # as) K"

inductive_cases d_specs_ConsE: "d_specs (op # ops) M as N"

lemma d_spec_other: "d_spec op M a N \<Longrightarrow> k \<noteq> op_key op \<Longrightarrow> N k = M k"
  by (cases rule: d_spec.cases) auto

text \<open>Operations on other keys do not disturb an entry.\<close>

lemma d_specs_other: "d_specs ops M as N \<Longrightarrow> k \<notin> op_key ` set ops \<Longrightarrow> N k = M k"
  by (induction rule: d_specs.induct) (auto simp: d_spec_other)

locale dictionary =
  fixes ok :: "'s \<Rightarrow> bool" and contents :: "'s \<Rightarrow> 'k \<rightharpoonup> 'v" and valid :: "'k \<Rightarrow> bool"
    and step :: "('k, 'v) d_op \<Rightarrow> 's \<Rightarrow> ('v answer \<times> 's) run"
  assumes step_refines: "ok s \<Longrightarrow> valid (op_key op) \<Longrightarrow>
    \<exists>a s'. step op s = Inr (a, s') \<and> ok s' \<and> d_spec op (contents s) a (contents s')"
begin

lemma run_refines:
  assumes "ok s" "\<forall>op \<in> set ops. valid (op_key op)"
  shows "\<exists>as s'. run_ops step ops s = Inr (as, s') \<and> ok s' \<and> d_specs ops (contents s) as (contents s')"
  using assms
proof (induction ops arbitrary: s)
  case Nil
  then show ?case by (auto intro: d_specs.nil)
next
  case (Cons op ops)
  from step_refines [OF Cons.prems(1), of op] Cons.prems(2) obtain a s1 where s1: "step op s = Inr (a, s1)" "ok s1"
    "d_spec op (contents s) a (contents s1)" by auto
  from Cons.IH [OF s1(2)] Cons.prems(2) obtain as s2 where "run_ops step ops s1 = Inr (as, s2)" "ok s2"
    "d_specs ops (contents s1) as (contents s2)" by auto
  with s1 show ?case by (auto intro: d_specs.cons)
qed

text \<open>A key that was added is found again after any operations on other keys.\<close>

lemma found_again:
  assumes s: "ok s" "valid k" "step (DAdd k v) s = Inr (Done, s1)"
    and ops: "\<forall>op \<in> set ops. valid (op_key op)" "k \<notin> op_key ` set ops" "run_ops step ops s1 = Inr (as, s2)"
  shows "\<exists>s3. step (DFind k) s2 = Inr (Got v, s3)"
proof -
  from step_refines [OF s(1), of "DAdd k v"] s(2,3) have o1: "ok s1" "contents s1 k = Some v" by (auto simp: d_spec_simps)
  from run_refines [OF o1(1) ops(1)] ops(3) have o2: "ok s2" "d_specs ops (contents s1) as (contents s2)" by auto
  from d_specs_other [OF o2(2) ops(2)] o1(2) have "contents s2 k = Some v" by simp
  with step_refines [OF o2(1), of "DFind k"] s(2) show ?thesis by (auto simp: d_spec_simps)
qed

end

section \<open>The invariant\<close>

definition phm_rep :: "'p phm_state \<Rightarrow> (nat \<Rightarrow> nat list) \<Rightarrow> nat list \<Rightarrow> bool" where
  "phm_rep s L C \<longleftrightarrow> (case s of (hm, m, t) \<Rightarrow> map_rep hm m t L \<and> slist m C (hm_cache hm) \<and> set C \<inter> entries L = {}
     \<and> hm_count hm = of_nat (card (entries L)))"

definition phm_nodes :: "(nat \<Rightarrow> nat list) \<Rightarrow> nat list \<Rightarrow> nat set" where
  "phm_nodes L C = entries L \<union> set C"

definition phm_map :: "'p phm_state \<Rightarrow> (nat \<Rightarrow> nat list) \<Rightarrow> u8 list \<Rightarrow> 'p option" where
  "phm_map s L k = (case s of (hm, m, t) \<Rightarrow> map_option (\<lambda>x. pn_ptr (struct_at m x)) (hm_find hm m L k))"

text \<open>What a step of the map does to the two stores.\<close>

definition phm_owns :: "'p phm_state \<Rightarrow> nat set \<Rightarrow> 'p phm_state \<Rightarrow> nat set \<Rightarrow> bool" where
  "phm_owns s S s' S' \<longleftrightarrow> (case s of (hm, m, t) \<Rightarrow> case s' of (hm', m', t') \<Rightarrow>
     owns_step S m S' m' \<and> owns_step (hm_own hm) t (hm_own hm') t')"

lemma phm_owns_refl: "phm_owns s S s S"
  by (auto simp: phm_owns_def owns_refl split: prod.split)

lemma phm_owns_trans: "phm_owns s S s1 S1 \<Longrightarrow> phm_owns s1 S1 s2 S2 \<Longrightarrow> phm_owns s S s2 S2"
  by (auto simp: phm_owns_def split: prod.splits intro: owns_trans)

lemma relinks_owns:
  assumes "relinks T m m'" "T \<subseteq> S"
  shows "owns_step S m S m'"
proof -
  have "mem_frame S m m'" using relinksD(6) [OF assms(1)] assms(2) by (auto simp: mem_frame_def)
  then show ?thesis using relinksD(2) [OF assms(1)] by (simp add: owns_step_def)
qed

lemma map_rep_mono:
  assumes rep: "map_rep hm m t L" and m': "mem_inv m'" "\<forall>x \<in> entries L. struct_at m' x = struct_at m x \<and> is_struct m' x = is_struct m x"
    and hm: "hm_sll hm' = hm_sll hm" "hm_hash hm' = hm_hash hm" "hm_seed hm' = hm_seed hm" "hm_num hm' = hm_num hm"
  shows "map_rep hm' m' t L" "hm_find hm' m' L = hm_find hm m L"
proof -
  obtain cells where c: "slot_arr hm t cells" "\<forall>j < unat (hm_num hm). slist m (L j) (cells ! j)" "hm_num hm \<noteq> 0" using rep by (rule map_rep_cells)
  have z: "0 < unat (hm_num hm)" using c(3) by (simp add: unat_gt_0)
  have e: "L(0 := L 0) = L" by simp
  have same: "struct_at m' x = struct_at m x" "is_struct m' x = is_struct m x" if "x \<in> set (L j)" for j x
    using m'(2) entriesI [of x L j] that by blast+
  have sl: "slist m' (L 0) (cells ! 0)"
  proof -
    have "lseg m' (sl_head (cells ! 0)) (L 0) None = lseg m (sl_head (cells ! 0)) (L 0) None"
      using same by (intro lseg_cong) simp
    then show ?thesis using c(2) z by (simp add: slist_def)
  qed
  have arr: "slot_arr hm t (cells[0 := cells ! 0])" using c(1) by simp
  have kd: "keyed hm m' i x" if "x \<in> set (L i)" for i x using map_repD(3) [OF rep that] same(1) [OF that] by (simp add: keyed_def)
  have ky: "key_of m' x = key_of m x" if "x \<in> set (L i)" for i x using same(1) [OF that] by (simp add: key_of_def)
  show rep': "map_rep hm' m' t L"
    using map_rep_change [OF rep c(1,2) hm z arr m'(1) sl] unfolding e
    using kd map_repD(4) [OF rep] map_repD(5) [OF rep] same ky by (simp cong: inj_on_cong)
  show "hm_find hm' m' L = hm_find hm m L"
  proof
    fix k
    have "hm_find hm' m' L k = Some x \<longleftrightarrow> hm_find hm m L k = Some x" for x
      using hm_find_iff [OF rep', of k x] hm_find_iff [OF rep, of k x] ky by (auto simp: entries_def)
    then show "hm_find hm' m' L k = hm_find hm m L k" by (metis option.exhaust)
  qed
qed

section \<open>Searching\<close>

lemma phm_find_ok:
  assumes rep: "phm_rep s L C" and k: "length k = unat klen"
  shows "tt_ptrhmap_find k klen s = Inr (phm_map s L k)"
proof -
  obtain hm m t where s: "s = (hm, m, t)" by (cases s)
  have r: "map_rep hm m t L" using rep by (simp add: phm_rep_def s)
  show ?thesis
  proof (cases "hm_find hm m L k")
    case None
    from r k None obtain cells prev where "hmap_search hm k klen m t = Inr (of_nat (hm_slot hm k), cells ! hm_slot hm k, prev, None)" by (rule search_missing)
    then show ?thesis by (simp add: s tt_ptrhmap_find_def phm_find_node_def phm_map_def None)
  next
    case (Some x)
    from r k Some obtain cells us vs where c: "slot_arr hm t cells" "\<forall>i < unat (hm_num hm). slist m (L i) (cells ! i)" "L (hm_slot hm k) = us @ x # vs"
      "key_of m x = k" "hmap_search hm k klen m t = Inr (of_nat (hm_slot hm k), cells ! hm_slot hm k, if us = [] then None else Some (last us), Some x)"
      by (rule search_found)
    have "lseg m (sl_head (cells ! hm_slot hm k)) (us @ x # vs) None" using c(2,3) hm_slot_ok(2) [OF r k] by (auto simp: slist_def)
    then have "is_struct m x" by (rule lseg_struct) simp
    then show ?thesis using c(5) by (simp add: s tt_ptrhmap_find_def phm_find_node_def phm_map_def Some mem_deref_ok)
  qed
qed

section \<open>Releasing a node\<close>

text \<open>A node that is in no list any more goes to the cache or back to the heap.\<close>

lemma phm_release_ok:
  assumes rep: "map_rep hm m t L" and c: "slist m C (hm_cache hm)" "set C \<inter> entries L = {}" and x: "lonely m x" "x \<notin> entries L" "x \<notin> set C"
  obtains hm' m' C' where "phm_release x hm m = Inr (hm', m')" "map_rep hm' m' t L" "hm_find hm' m' L = hm_find hm m L"
    "slist m' C' (hm_cache hm')" "set C' \<inter> entries L = {}" "\<forall>y \<in> entries L. struct_at m' y = struct_at m y" "hm_count hm' = hm_count hm"
    "hm_sll hm' = hm_sll hm" "owns_step (insert x (phm_nodes L C)) m (phm_nodes L C') m'" "hm_num hm' = hm_num hm" "hm_cache_threshold hm' = hm_cache_threshold hm"
proof -
  have inv: "mem_inv m" using rep by (rule map_repD)
  show thesis
  proof (cases "hm_cache_count hm < hm_cache_threshold hm")
    case True
    from c(1) inv x(1,3) obtain cl m' where p: "tt_slist_push_head x (hm_cache hm) m = Inr (cl, m')" "slist m' (x # C) cl" "relinks {x} m m'"
      by (rule slist_push_head_ok)
    let ?hm = "hm\<lparr>hm_cache := cl, hm_cache_count := hm_cache_count hm + 1\<rparr>"
    have same: "\<forall>y \<in> entries L. struct_at m' y = struct_at m y \<and> is_struct m' y = is_struct m y"
    proof
      fix y
      assume "y \<in> entries L"
      then have "y \<notin> {x}" using x(2) by auto
      then show "struct_at m' y = struct_at m y \<and> is_struct m' y = is_struct m y" using relinksD(3,4) [OF p(3)] by simp
    qed
    have "phm_release x hm m = Inr (?hm, m')" using True p(1) by (simp add: phm_release_def)
    moreover have "owns_step (insert x (phm_nodes L C)) m (phm_nodes L (x # C)) m'"
      using relinks_owns [OF p(3), of "insert x (phm_nodes L C)"] by (simp add: phm_nodes_def)
    ultimately show thesis
      using that [of ?hm m' "x # C"] map_rep_mono [OF rep relinksD(1) [OF p(3)] same, of ?hm] p(2) c(2) x(2) same by simp
  next
    case False
    have "is_struct m x" using x(1) by (simp add: lonely_def)
    from this inv obtain m' where f: "tt_free (Some x) m = Inr m'" "mem_inv m'" "mem_heap m' = mem_heap m - {x}"
      "\<forall>q. q \<noteq> x \<longrightarrow> struct_at m' q = struct_at m q" "\<forall>q. q \<noteq> x \<longrightarrow> (is_struct m' q \<longleftrightarrow> is_struct m q)" "mem_frame {x} m m'" by (rule free_struct)
    have same: "\<forall>y \<in> entries L. struct_at m' y = struct_at m y \<and> is_struct m' y = is_struct m y" using f(4,5) x(2) by auto
    have sl: "slist m' C (hm_cache hm)"
    proof -
      have "lseg m' (sl_head (hm_cache hm)) C None = lseg m (sl_head (hm_cache hm)) C None" using f(4,5) x(3) by (intro lseg_cong) auto
      then show ?thesis using c(1) by (simp add: slist_def)
    qed
    have "owns_step (insert x (phm_nodes L C)) m (insert x (phm_nodes L C) - {x}) m'"
      using owns_free [OF f(6,3), of "insert x (phm_nodes L C)"] by simp
    moreover have "insert x (phm_nodes L C) - {x} = phm_nodes L C" using x(2,3) by (auto simp: phm_nodes_def)
    ultimately have "owns_step (insert x (phm_nodes L C)) m (phm_nodes L C) m'" by simp
    moreover have "phm_release x hm m = Inr (hm, m')" using False f(1) by (simp add: phm_release_def)
    ultimately show thesis using that [of hm m' C] map_rep_mono [OF rep f(2) same, of hm] sl c(2) same by simp
  qed
qed

section \<open>Removing a key\<close>

lemma phm_take_out_ok:
  assumes rep: "phm_rep s L C" and s: "s = (hm, m, t)" and arr: "slot_arr hm t cells" "\<forall>j < unat (hm_num hm). slist m (L j) (cells ! j)"
    and i: "i < unat (hm_num hm)" "L i = us @ x # vs"
  obtains s' C' where "phm_take_out (of_nat i) (cells ! i) (if us = [] then None else Some (last us)) x s = Inr s'"
    "phm_rep s' (L(i := us @ vs)) C'" "phm_map s' (L(i := us @ vs)) = (phm_map s L)(key_of m x := None)"
    "phm_owns s (phm_nodes L C) s' (phm_nodes (L(i := us @ vs)) C')"
proof -
  have r: "map_rep hm m t L" and c: "slist m C (hm_cache hm)" "set C \<inter> entries L = {}" and n: "hm_count hm = of_nat (card (entries L))"
    using rep by (simp_all add: phm_rep_def s)
  have inv: "mem_inv m" using r by (rule map_repD)
  have sl: "slist m (us @ x # vs) (cells ! i)" using arr(2) i by metis
  have xe: "x \<in> entries L" and ue: "set (us @ [x]) \<subseteq> entries L" using i(2) entriesI [of _ L i] by auto
  from sl inv obtain sl' m1 where f: "tt_slist_fast_remove (cells ! i) (if us = [] then None else Some (last us)) x m
      = Inr (case vs of [] \<Rightarrow> None | y # _ \<Rightarrow> Some y, sl', m1)"
    "slist m1 (us @ vs) sl'" "relinks (set (us @ [x])) m m1" "lonely m1 x" by (rule slist_fast_remove_ok)
  have u: "unat (of_nat i :: u32) = i" using i(1) unat_lt_32 [of "hm_num hm"] by (simp add: unat_of_nat)
  from arr(1) obtain t1 where t1: "slot_put hm t (of_nat i) sl' = Inr t1" "slot_arr hm t1 (cells[i := sl'])" "owns_step (hm_own hm) t (hm_own hm) t1"
    by (rule slot_put_ok [of hm t cells "of_nat i"]) (simp_all add: u i(1))
  let ?hm = "hm\<lparr>hm_count := hm_count hm - 1\<rparr>" and ?L = "L(i := us @ vs)"
  note cut = map_rep_cut [OF r arr _ _ _ _ i relinksD(1) [OF f(3)] f(3) f(2) t1(2), of ?hm, simplified]
  have c1: "slist m1 C (hm_cache ?hm)" using relinks_slist [OF f(3), of C] c ue by auto
  have d1: "set C \<inter> entries ?L = {}" using c(2) cut(3) by auto
  have x1: "x \<notin> entries ?L" "x \<notin> set C" using cut(3) c(2) xe by auto
  from cut(1) c1 d1 f(4) x1 obtain hm' m' C' where rl: "phm_release x ?hm m1 = Inr (hm', m')" "map_rep hm' m' t1 ?L"
    "hm_find hm' m' ?L = hm_find ?hm m1 ?L" "slist m' C' (hm_cache hm')" "set C' \<inter> entries ?L = {}"
    "\<forall>y \<in> entries ?L. struct_at m' y = struct_at m1 y" "hm_count hm' = hm_count ?hm" "hm_sll hm' = hm_sll ?hm"
    "owns_step (insert x (phm_nodes ?L C)) m1 (phm_nodes ?L C') m'" by (rule phm_release_ok)
  have fin: "finite (entries L)" using r by (rule entries_finite)
  have "hm_count hm' = of_nat (card (entries ?L))"
    using rl(7) n cut(3) xe fin card_Suc_Diff1 [OF fin xe] by (simp add: of_nat_diff [symmetric])
  then have "phm_rep (hm', m', t1) ?L C'" using rl(2,4,5) by (simp add: phm_rep_def)
  moreover have "phm_map (hm', m', t1) ?L = (phm_map s L)(key_of m x := None)"
  proof
    fix k
    show "phm_map (hm', m', t1) ?L k = ((phm_map s L)(key_of m x := None)) k"
    proof (cases "hm_find ?hm m1 ?L k")
      case None
      then show ?thesis using rl(3) cut(2) by (auto simp: phm_map_def s split: if_splits)
    next
      case (Some y)
      then have "((hm_find hm m L)(key_of m x := None)) k = Some y" using cut(2) by simp
      then have y: "y \<in> entries ?L" "hm_find hm m L k = Some y" "k \<noteq> key_of m x"
        using hm_find_iff [OF cut(1), of k y] Some by (auto split: if_splits)
      have "snode.more (struct_at m' y) = snode.more (struct_at m y)" using rl(6) y(1) relinksD(5) [OF f(3), of y] by simp
      then have "pn_ptr (struct_at m' y) = pn_ptr (struct_at m y)" by (cases "struct_at m' y"; cases "struct_at m y"; simp)
      then show ?thesis using Some y rl(3) by (simp add: phm_map_def s)
    qed
  qed
  moreover have "phm_owns s (phm_nodes L C) (hm', m', t1) (phm_nodes ?L C')"
  proof -
    have "owns_step (phm_nodes L C) m (phm_nodes L C) m1" using relinks_owns [OF f(3), of "phm_nodes L C"] ue by (auto simp: phm_nodes_def)
    moreover have "insert x (phm_nodes ?L C) = phm_nodes L C" using cut(3) xe by (auto simp: phm_nodes_def)
    ultimately show ?thesis using rl(8,9) owns_trans t1(3) by (auto simp: phm_owns_def s)
  qed
  moreover have "phm_take_out (of_nat i) (cells ! i) (if us = [] then None else Some (last us)) x s = Inr (hm', m', t1)"
    using f(1) t1(1) rl(1) by (simp add: phm_take_out_def s)
  ultimately show thesis using that by blast
qed

lemma phm_remove_key_ok:
  assumes rep: "phm_rep s L C" and k: "length k = unat klen"
  shows "case phm_map s L k of
      None \<Rightarrow> tt_ptrhmap_remove_key k klen s = Inr (False, s)
    | Some v \<Rightarrow> \<exists>s' L' C'. tt_ptrhmap_remove_key k klen s = Inr (True, s') \<and> phm_rep s' L' C' \<and> phm_map s' L' = (phm_map s L)(k := None)
        \<and> phm_owns s (phm_nodes L C) s' (phm_nodes L' C')"
proof -
  obtain hm m t where s: "s = (hm, m, t)" by (cases s)
  have r: "map_rep hm m t L" using rep by (simp add: phm_rep_def s)
  show ?thesis
  proof (cases "hm_find hm m L k")
    case None
    from r k None obtain cells prev where "hmap_search hm k klen m t = Inr (of_nat (hm_slot hm k), cells ! hm_slot hm k, prev, None)" by (rule search_missing)
    then show ?thesis by (simp add: s tt_ptrhmap_remove_key_def phm_map_def None)
  next
    case (Some x)
    from r k Some obtain cells us vs where c: "slot_arr hm t cells" "\<forall>i < unat (hm_num hm). slist m (L i) (cells ! i)" "L (hm_slot hm k) = us @ x # vs"
      "key_of m x = k" "hmap_search hm k klen m t = Inr (of_nat (hm_slot hm k), cells ! hm_slot hm k, if us = [] then None else Some (last us), Some x)"
      by (rule search_found)
    let ?L = "L(hm_slot hm k := us @ vs)"
    from rep s c(1,2) hm_slot_ok(2) [OF r k] c(3) obtain s' C' where o: "phm_take_out (of_nat (hm_slot hm k)) (cells ! hm_slot hm k)
        (if us = [] then None else Some (last us)) x s = Inr s'"
      "phm_rep s' ?L C'" "phm_map s' ?L = (phm_map s L)(key_of m x := None)" "phm_owns s (phm_nodes L C) s' (phm_nodes ?L C')" by (rule phm_take_out_ok)
    have "tt_ptrhmap_remove_key k klen s = Inr (True, s')" using c(5) o(1) by (simp add: s tt_ptrhmap_remove_key_def)
    then have "\<exists>s' L' C'. tt_ptrhmap_remove_key k klen s = Inr (True, s') \<and> phm_rep s' L' C' \<and> phm_map s' L' = (phm_map s L)(k := None)
        \<and> phm_owns s (phm_nodes L C) s' (phm_nodes L' C')" using o(2-4) unfolding c(4) by blast
    moreover have "phm_map s L k \<noteq> None" using Some by (simp add: phm_map_def s)
    ultimately show ?thesis by (cases "phm_map s L k") simp_all
  qed
qed

section \<open>Adding a key\<close>

text \<open>A new node: from the cache, or fresh from the heap, or none.\<close>

lemma phm_new_node_cases:
  assumes rep: "map_rep hm m t L" and c: "slist m C (hm_cache hm)" "set C \<inter> entries L = {}"
  obtains (fail) m' where "phm_new_node hm m = Inr (None, hm, m')" "mem_inv m'" "same_store m m'" "C = []"
  | (ok) x hm' m' C' where "phm_new_node hm m = Inr (Some x, hm', m')" "map_rep hm' m' t L" "hm_find hm' m' L = hm_find hm m L"
      "slist m' C' (hm_cache hm')" "set C' \<inter> entries L = {}" "x \<notin> entries L" "x \<notin> set C'" "is_struct m' x"
      "\<forall>y \<in> entries L. struct_at m' y = struct_at m y" "hm_count hm' = hm_count hm" "hm_sll hm' = hm_sll hm"
      "owns_step (phm_nodes L C) m (insert x (phm_nodes L C')) m'" "hm_hash hm' = hm_hash hm" "hm_seed hm' = hm_seed hm" "hm_num hm' = hm_num hm"
proof (cases C)
  case Nil
  have e: "tt_slist_pop_head (hm_cache hm) m = Inr (None, hm_cache hm, m)" using c(1) Nil by (simp add: slist_pop_head_empty)
  have inv: "mem_inv m" using rep by (rule map_repD)
  from inv show thesis
  proof (cases rule: malloc_struct_cases)
    case f: (fail m')
    show thesis using fail [of m'] f e Nil by (simp add: phm_new_node_def)
  next
    case o: (ok n m')
    have same: "\<forall>y \<in> entries L. struct_at m' y = struct_at m y \<and> is_struct m' y = is_struct m y" and n: "n \<notin> entries L"
      using entries_struct [OF rep] o(7,8) by auto
    have "owns_step (phm_nodes L C) m (insert n (phm_nodes L C)) m'" using owns_malloc [OF o(9,4,3,6)] by simp
    then show thesis
      using ok [of n hm m' "[]"] o(1,5) e Nil map_rep_mono [OF rep o(2) same, of hm] same n c(1)
      by (simp add: phm_new_node_def slist_def)
  qed
next
  case (Cons x xs)
  from c(1) Cons have c1: "slist m (x # xs) (hm_cache hm)" by simp
  from c1 map_repD(1) [OF rep] obtain cl m' where p: "tt_slist_pop_head (hm_cache hm) m = Inr (Some x, cl, m')" "slist m' xs cl" "relinks {x} m m'" "lonely m' x"
    by (rule slist_pop_head_ok)
  let ?hm = "hm\<lparr>hm_cache := cl\<rparr>"
  have x: "x \<notin> entries L" "x \<notin> set xs" "set xs \<inter> entries L = {}" using c(2) c1 Cons by (auto simp: slist_def)
  have same: "\<forall>y \<in> entries L. struct_at m' y = struct_at m y \<and> is_struct m' y = is_struct m y"
  proof
    fix y
    assume "y \<in> entries L"
    then have "y \<notin> {x}" using x(1) by auto
    then show "struct_at m' y = struct_at m y \<and> is_struct m' y = is_struct m y" using relinksD(3,4) [OF p(3)] by simp
  qed
  have "owns_step (phm_nodes L C) m (insert x (phm_nodes L xs)) m'"
    using relinks_owns [OF p(3), of "phm_nodes L C"] Cons by (simp add: phm_nodes_def)
  then show thesis
    using ok [of x ?hm m' xs] p(1,2,4) map_rep_mono [OF rep relinksD(1) [OF p(3)] same, of ?hm] same x
    by (simp add: phm_new_node_def lonely_def)
qed

lemma phm_add_duplicate:
  assumes rep: "phm_rep s L C" and k: "length k = unat klen" and old: "phm_map s L k \<noteq> None"
  shows "tt_ptrhmap_add k klen (Some v) s = Inr (TT_FAIL, s)"
proof -
  obtain hm m t where s: "s = (hm, m, t)" by (cases s)
  have r: "map_rep hm m t L" using rep by (simp add: phm_rep_def s)
  obtain x where x: "hm_find hm m L k = Some x" using old by (auto simp: phm_map_def s)
  from r k x obtain cells us where "hmap_search hm k klen m t = Inr (of_nat (hm_slot hm k), cells ! hm_slot hm k, if us = [] then None else Some (last us), Some x)"
    by (rule search_found)
  then show ?thesis by (simp add: s tt_ptrhmap_add_def)
qed

lemma phm_add_new:
  assumes rep: "phm_rep s L C" and k: "length k = unat klen" and new: "phm_map s L k = None"
  obtains (fail) s' where "tt_ptrhmap_add k klen (Some v) s = Inr (TT_FAIL, s')" "phm_rep s' L C" "phm_map s' L = phm_map s L"
      "phm_owns s (phm_nodes L C) s' (phm_nodes L C)"
  | (ok) s' L' C' where "tt_ptrhmap_add k klen (Some v) s = Inr (TT_SUCCESS, s')" "phm_rep s' L' C'" "phm_map s' L' = (phm_map s L)(k \<mapsto> v)"
      "phm_owns s (phm_nodes L C) s' (phm_nodes L' C')"
proof -
  obtain hm m t where s: "s = (hm, m, t)" by (cases s)
  have r: "map_rep hm m t L" and c: "slist m C (hm_cache hm)" "set C \<inter> entries L = {}" and n: "hm_count hm = of_nat (card (entries L))"
    using rep by (simp_all add: phm_rep_def s)
  have f: "hm_find hm m L k = None" using new by (simp add: phm_map_def s)
  from r k f obtain cells prev where sr: "slot_arr hm t cells" "\<forall>i < unat (hm_num hm). slist m (L i) (cells ! i)"
    "hmap_search hm k klen m t = Inr (of_nat (hm_slot hm k), cells ! hm_slot hm k, prev, None)" by (rule search_missing)
  let ?i = "hm_slot hm k"
  have i: "?i < unat (hm_num hm)" "unat (of_nat ?i :: u32) = ?i" using hm_slot_ok(2) [OF r k] unat_lt_32 [of "hm_num hm"] by (simp_all add: unat_of_nat)
  from r c show thesis
  proof (cases rule: phm_new_node_cases)
    case nf: (fail m')
    have st: "struct_at m' = struct_at m" "is_struct m' = is_struct m" using same_store_struct [OF nf(3)] by simp_all
    have same: "\<forall>y \<in> entries L. struct_at m' y = struct_at m y \<and> is_struct m' y = is_struct m y" using st by simp
    have e: "tt_ptrhmap_add k klen (Some v) s = Inr (TT_FAIL, hm, m', t)" using sr(3) nf(1) by (simp add: s tt_ptrhmap_add_def)
    have "phm_rep (hm, m', t) L C" using map_rep_mono(1) [OF r nf(2) same, of hm] c n nf(4) by (simp add: phm_rep_def slist_def)
    moreover have "phm_map (hm, m', t) L = phm_map s L" using map_rep_mono(2) [OF r nf(2) same, of hm] st by (simp add: phm_map_def s fun_eq_iff)
    moreover have "phm_owns s (phm_nodes L C) (hm, m', t) (phm_nodes L C)" using owns_same [OF nf(3)] owns_refl by (simp add: phm_owns_def s)
    ultimately show thesis using fail [OF e] by blast
  next
    case o: (ok x hm1 m1 C1)
    have hs: "hm_slot hm1 k = ?i" using hm_slot_cong [OF o(13-15)] by simp
    obtain cells1 where c1: "slot_arr hm1 t cells1" "\<forall>j < unat (hm_num hm1). slist m1 (L j) (cells1 ! j)" using o(2) by (rule map_rep_cells)
    have ce: "cells1 = cells" using slot_arr_unique [OF sr(1) c1(1) o(11)] .
    from o(8) map_repD(1) [OF o(2)] obtain m2 where m2: "mem_assign m1 x ((struct_at m1 x)\<lparr>h_key := Some k, h_klen := klen, pn_ptr := v\<rparr>) = Inr m2"
      "mem_inv m2" "mem_heap m2 = mem_heap m1" "struct_at m2 x = (struct_at m1 x)\<lparr>h_key := Some k, h_klen := klen, pn_ptr := v\<rparr>"
      "\<forall>q. q \<noteq> x \<longrightarrow> struct_at m2 q = struct_at m1 q" "\<forall>q. is_struct m2 q \<longleftrightarrow> is_struct m1 q" "mem_frame {x} m1 m2" by (rule mem_assign_ok)
    have x2: "is_struct m2 x" using m2(6) o(8) by simp
    from x2 m2(2) obtain m3 where m3: "sn_set_next m2 x None = Inr m3" "relinks {x} m2 m3" "nxt m3 x = None" by (rule sn_set_next_ok)
    have xl: "x \<notin> set (L j)" for j using o(6) entriesI by blast
    have s3: "struct_at m3 y = struct_at m1 y" "is_struct m3 y = is_struct m1 y" if "y \<noteq> x" for y
      using relinksD(3,4) [OF m3(2)] m2(5,6) that by simp_all
    have sl3: "slist m3 (L ?i) (cells ! ?i)"
    proof (rule slist_cong)
      show "slist m1 (L ?i) (cells ! ?i)" using c1(2) i(1) ce o(15) by simp
      show "\<forall>y \<in> set (L ?i). struct_at m3 y = struct_at m1 y \<and> is_struct m3 y = is_struct m1 y" using s3 xl [of ?i] by metis
    qed
    have x3: "lonely m3 x" using m3(3) relinksD(3) [OF m3(2)] x2 by (simp add: lonely_def)
    from sl3 relinksD(1) [OF m3(2)] x3 xl obtain sl4 m4 where m4: "tt_slist_push_head x (cells ! ?i) m3 = Inr (sl4, m4)"
      "slist m4 (x # L ?i) sl4" "relinks {x} m3 m4" by (rule slist_push_head_ok)
    have s4: "struct_at m4 y = struct_at m1 y" "is_struct m4 y = is_struct m1 y" if "y \<noteq> x" for y
      using relinksD(3,4) [OF m4(3)] s3 that by simp_all
    have "snode.more (struct_at m4 x) = snode.more (struct_at m2 x)" using relinksD(5) [OF m4(3)] relinksD(5) [OF m3(2)] by simp
    note mo = hnode_more [OF this]
    have kx: "h_key (struct_at m4 x) = Some k" "h_klen (struct_at m4 x) = klen" "pn_ptr (struct_at m4 x) = v"
      using mo m2(4) by simp_all (cases "struct_at m4 x"; cases "struct_at m1 x"; simp)
    from sr(1) obtain t' where t': "slot_put hm t (of_nat ?i) sl4 = Inr t'" "slot_arr hm t' (cells[?i := sl4])" "owns_step (hm_own hm) t (hm_own hm) t'"
      by (rule slot_put_ok [of hm t cells "of_nat ?i"]) (simp_all add: i)
    let ?hm = "hm1\<lparr>hm_count := hm_count hm1 + 1\<rparr>" and ?L = "L(?i := x # L ?i)"
    have sp: "slot_put hm1 t (of_nat ?i) sl4 = Inr t'" using t'(1) o(11) by (simp add: slot_put_def)
    have f1: "hm_find hm1 m1 L k = None" using f o(3) by simp
    have arr4: "slot_arr hm1 t' (cells1[hm_slot hm1 k := sl4])" using slot_arr_cong [OF t'(2) o(11,15)] unfolding hs ce .
    have old4: "\<forall>y \<in> entries L. is_struct m4 y = is_struct m1 y" using s4(2) o(6) by metis
    have "slist m4 (x # L (hm_slot hm1 k)) sl4" using m4(2) hs by simp
    note add = map_rep_add [OF o(2) c1 _ _ _ _ k f1 o(6) relinksD(1) [OF m4(3)] kx(1,2) _ old4 this arr4, of ?hm, unfolded hs]
    have add1: "map_rep ?hm m4 t' ?L" "hm_find ?hm m4 ?L = (hm_find hm m L)(k \<mapsto> x)" using add s4(1) o(3) by simp_all
    have e: "tt_ptrhmap_add k klen (Some v) s = Inr (TT_SUCCESS, ?hm, m4, t')"
      using sr(3) o(1,8) m2(1) m3(1) m4(1) sp by (simp add: s tt_ptrhmap_add_def mem_deref_ok tt_snode_init_def)
    have "\<forall>y \<in> set C1. struct_at m4 y = struct_at m1 y \<and> is_struct m4 y = is_struct m1 y" using s4 o(7) by metis
    from slist_cong [OF o(4) this] have "slist m4 C1 (hm_cache ?hm)" by simp
    moreover have "hm_count ?hm = of_nat (card (entries ?L))" using n o(6,10) entries_finite [OF r] by (simp add: entries_add)
    moreover have "set C1 \<inter> entries ?L = {}" using o(5,7) by (auto simp: entries_add)
    ultimately have "phm_rep (?hm, m4, t') ?L C1" using add1(1) by (simp add: phm_rep_def)
    moreover have "phm_map (?hm, m4, t') ?L = (phm_map s L)(k \<mapsto> v)"
    proof
      fix k'
      have "pn_ptr (struct_at m4 y) = pn_ptr (struct_at m y)" if "hm_find hm m L k' = Some y" for y
      proof -
        have "y \<in> entries L" using hm_find_iff [OF r] that by simp
        then show ?thesis using s4(1) [of y] o(6,9) by (cases "y = x") auto
      qed
      then show "phm_map (?hm, m4, t') ?L k' = ((phm_map s L)(k \<mapsto> v)) k'"
        using add1(2) kx(3) by (cases "hm_find hm m L k'") (simp_all add: phm_map_def s)
    qed
    moreover have "phm_owns s (phm_nodes L C) (?hm, m4, t') (phm_nodes ?L C1)"
    proof -
      let ?S = "insert x (phm_nodes L C1)"
      have "owns_step ?S m1 ?S m2" using owns_assign [OF m2(7,3), of ?S] by simp
      with owns_trans [OF o(12)] relinks_owns [OF m3(2), of ?S] relinks_owns [OF m4(3), of ?S]
      have "owns_step (phm_nodes L C) m ?S m4" by (meson insertI1 empty_subsetI insert_subset owns_trans)
      moreover have "?S = phm_nodes ?L C1" by (auto simp: phm_nodes_def entries_add)
      ultimately show ?thesis using t'(3) o(11) by (simp add: phm_owns_def s)
    qed
    ultimately show thesis using ok [OF e] by blast
  qed
qed

section \<open>Destruction\<close>

definition freed :: "nat set \<Rightarrow> 'c mem \<Rightarrow> 'c mem \<Rightarrow> bool" where
  "freed S m m' \<longleftrightarrow> mem_inv m' \<and> mem_heap m' = mem_heap m - S \<and> mem_frame S m m'
     \<and> (\<forall>q. q \<notin> S \<longrightarrow> struct_at m' q = struct_at m q \<and> is_struct m' q = is_struct m q)"

lemma freed_refl: "mem_inv m \<Longrightarrow> freed {} m m"
  by (simp add: freed_def)

lemma freed_trans: "freed S m m1 \<Longrightarrow> freed T m1 m2 \<Longrightarrow> freed (S \<union> T) m m2"
  unfolding freed_def by (auto intro: mem_frame_trans)

lemma freed_slist: "freed S m m' \<Longrightarrow> set xs \<inter> S = {} \<Longrightarrow> slist m xs sl \<Longrightarrow> slist m' xs sl"
  by (rule slist_cong) (auto simp: freed_def)

lemma pop_and_free:
  assumes sl: "slist m (x # xs) sl" and inv: "mem_inv m"
  obtains sl1 m1 m2 where "tt_slist_pop_head sl m = Inr (Some x, sl1, m1)" "free_node x m1 = Inr m2" "slist m2 xs sl1" "freed {x} m m2"
proof -
  from sl inv obtain sl1 m1 where p: "tt_slist_pop_head sl m = Inr (Some x, sl1, m1)" "slist m1 xs sl1" "relinks {x} m m1" "lonely m1 x"
    by (rule slist_pop_head_ok)
  have "is_struct m1 x" using p(4) by (simp add: lonely_def)
  from this relinksD(1) [OF p(3)] obtain m2 where f: "tt_free (Some x) m1 = Inr m2" "mem_inv m2" "mem_heap m2 = mem_heap m1 - {x}"
    "\<forall>q. q \<noteq> x \<longrightarrow> struct_at m2 q = struct_at m1 q" "\<forall>q. q \<noteq> x \<longrightarrow> (is_struct m2 q \<longleftrightarrow> is_struct m1 q)" "mem_frame {x} m1 m2" by (rule free_struct)
  have "x \<notin> set xs" using sl by (auto simp: slist_def)
  then have "slist m2 xs sl1" using f(4,5) by (intro slist_cong [OF p(2)]) metis
  moreover have "freed {x} m m2"
    unfolding freed_def
  proof (intro conjI allI impI)
    show "mem_frame {x} m m2" using frame_compose [OF relinksD(6) [OF p(3)] f(6)] by simp
    fix q
    assume "q \<notin> {x}"
    then show "struct_at m2 q = struct_at m q" "is_struct m2 q = is_struct m q" using f(4,5) relinksD(3,4) [OF p(3)] by simp_all
  qed (use f(2,3) relinksD(2) [OF p(3)] in simp_all)
  ultimately show thesis using that p(1) f(1) by (simp add: free_node_def)
qed

lemma clear_slot_free:
  assumes "slist m xs sl" "mem_inv m"
  shows "\<exists>sl' m'. clear_slot (Some free_node) sl m = Some (Inr (sl', m')) \<and> slist m' [] sl' \<and> freed (set xs) m m'"
  using assms
proof (induction xs arbitrary: sl m)
  case Nil
  then show ?case using slist_pop_head_empty [OF Nil(1)] by (subst clear_slot.simps) (simp add: freed_refl)
next
  case (Cons x xs)
  from Cons.prems obtain sl1 m1 m2 where p: "tt_slist_pop_head sl m = Inr (Some x, sl1, m1)" "free_node x m1 = Inr m2" "slist m2 xs sl1" "freed {x} m m2"
    by (rule pop_and_free)
  have "mem_inv m2" using p(4) by (simp add: freed_def)
  from Cons.IH [OF p(3) this] obtain sl' m' where c: "clear_slot (Some free_node) sl1 m2 = Some (Inr (sl', m'))" "slist m' [] sl'" "freed (set xs) m2 m'" by blast
  with p freed_trans [OF p(4) c(3)] show ?case by (subst clear_slot.simps) simp
qed

lemma clear_slots_free:
  assumes "slot_arr hm t cells" "mem_inv m" "\<forall>j. unat i \<le> j \<and> j < unat (hm_num hm) \<longrightarrow> slist m (L j) (cells ! j)"
    "\<forall>j k. j \<noteq> k \<longrightarrow> set (L j) \<inter> set (L k) = {}"
  shows "\<exists>m' t' cells'. clear_slots (Some free_node) hm i m t = Inr (m', t') \<and> slot_arr hm t' cells'
    \<and> freed (\<Union>j \<in> {unat i..<unat (hm_num hm)}. set (L j)) m m' \<and> owns_step (hm_own hm) t (hm_own hm) t'"
  using assms(1-3)
proof (induction "unat (hm_num hm) - unat i" arbitrary: i m t cells rule: less_induct)
  case less
  show ?case
  proof (cases "i < hm_num hm")
    case False
    then have "{unat i..<unat (hm_num hm)} = {}" by (simp add: not_less word_le_nat_alt)
    with False less.prems(1,2) show ?thesis by (subst clear_slots.simps) (auto simp: freed_refl owns_refl)
  next
    case True
    then have u: "unat (i + 1) = Suc (unat i)" "unat i < unat (hm_num hm)" using unat_suc_u32 [of i "hm_num hm"] by (simp_all add: word_less_nat_alt)
    have sl: "slist m (L (unat i)) (cells ! unat i)" using less.prems(3) u(2) by simp
    from clear_slot_free [OF sl less.prems(2)] obtain sl1 m1 where c: "clear_slot (Some free_node) (cells ! unat i) m = Some (Inr (sl1, m1))"
      "slist m1 [] sl1" "freed (set (L (unat i))) m m1" by blast
    from less.prems(1) u(2) obtain t1 where t1: "slot_put hm t i sl1 = Inr t1" "slot_arr hm t1 (cells[unat i := sl1])"
      "owns_step (hm_own hm) t (hm_own hm) t1" by (rule slot_put_ok)
    have lt: "unat (hm_num hm) - unat (i + 1) < unat (hm_num hm) - unat i" using True by (rule slot_loop_ends)
    have i1: "mem_inv m1" using c(3) by (simp add: freed_def)
    have rest: "\<forall>j. unat (i + 1) \<le> j \<and> j < unat (hm_num hm) \<longrightarrow> slist m1 (L j) (cells[unat i := sl1] ! j)"
    proof (intro allI impI)
      fix j
      assume j: "unat (i + 1) \<le> j \<and> j < unat (hm_num hm)"
      then have "slist m (L j) (cells ! j)" "j \<noteq> unat i" using less.prems(3) u(1) by simp_all
      with freed_slist [OF c(3)] assms(4) show "slist m1 (L j) (cells[unat i := sl1] ! j)" by simp
    qed
    from less.hyps [OF lt t1(2) i1 rest] obtain m' t' cells' where r: "clear_slots (Some free_node) hm (i + 1) m1 t1 = Inr (m', t')" "slot_arr hm t' cells'"
      "freed (\<Union>j \<in> {unat (i + 1)..<unat (hm_num hm)}. set (L j)) m1 m'" "owns_step (hm_own hm) t1 (hm_own hm) t'" by blast
    have "{unat i..<unat (hm_num hm)} = insert (unat i) {unat (i + 1)..<unat (hm_num hm)}" using u by auto
    with freed_trans [OF c(3) r(3)] have "freed (\<Union>j \<in> {unat i..<unat (hm_num hm)}. set (L j)) m m'" by simp
    moreover have "clear_slots (Some free_node) hm i m t = Inr (m', t')"
      using True slot_get_ok [OF less.prems(1) u(2)] c(1) t1(1) r(1) by (subst clear_slots.simps) simp
    ultimately show ?thesis using r(2) owns_trans [OF t1(3) r(4)] by blast
  qed
qed

lemma phm_destroy_ok:
  assumes rep: "phm_rep (hm, m, t) L C"
  obtains hm' m' t' where "tt_ptrhmap_destroy (hm, m, t) = Inr (hm', m', t')" "mem_heap m' = mem_heap m - phm_nodes L C" "mem_frame (phm_nodes L C) m m'"
    "mem_heap t' = mem_heap t - hm_own hm" "mem_frame (hm_own hm) t t'"
proof -
  have r: "map_rep hm m t L" and c: "slist m C (hm_cache hm)" "set C \<inter> entries L = {}" using rep by (simp_all add: phm_rep_def)
  obtain cells where a: "slot_arr hm t cells" "\<forall>j < unat (hm_num hm). slist m (L j) (cells ! j)" using r by (rule map_rep_cells)
  have disj: "\<forall>j k. j \<noteq> k \<longrightarrow> set (L j) \<inter> set (L k) = {}" using map_repD(5) [OF r] by blast
  have all: "\<forall>j. unat (0 :: u32) \<le> j \<and> j < unat (hm_num hm) \<longrightarrow> slist m (L j) (cells ! j)" using a(2) by simp
  from clear_slots_free [OF a(1) map_repD(1) [OF r] all disj] obtain m1 t1 cells1 where s: "clear_slots (Some free_node) hm 0 m t = Inr (m1, t1)" "slot_arr hm t1 cells1"
    "freed (\<Union>j \<in> {unat (0 :: u32)..<unat (hm_num hm)}. set (L j)) m m1" "owns_step (hm_own hm) t (hm_own hm) t1" by blast
  have "(\<Union>j \<in> {unat (0 :: u32)..<unat (hm_num hm)}. set (L j)) = entries L"
  proof -
    have "j < unat (hm_num hm)" if "x \<in> set (L j)" for x j using map_repD(6) [OF r, of j] that by (cases "unat (hm_num hm) \<le> j") auto
    then show ?thesis unfolding entries_def by (auto, metis atLeastLessThan_iff zero_le)
  qed
  with s(3) have f1: "freed (entries L) m m1" by simp
  have "slist m1 C (hm_cache hm)" using freed_slist [OF f1 c(2,1)] .
  from clear_slot_free [OF this] f1 obtain cl m2 where f2: "clear_slot (Some free_node) (hm_cache hm) m1 = Some (Inr (cl, m2))" "freed (set C) m1 m2"
    by (auto simp: freed_def)
  have f: "freed (phm_nodes L C) m m2" using freed_trans [OF f1 f2(2)] by (simp add: phm_nodes_def)
  obtain p where p: "hm_sll hm = Some p" "p \<in> mem_heap t1" "mem_inv t1" using s(2) by (auto simp: slot_arr_def)
  from free_released [OF p(3,2)] obtain t2 where t2: "tt_free (Some p) t1 = Inr t2" "released t1 {p} t2" by blast
  have h2: "mem_heap t2 = mem_heap t1 - {p}" using t2(2) unfolding released_def by blast
  have "mem_frame (hm_own hm) t t2"
    using frame_compose [OF _ released_frame [OF t2(2)], of "hm_own hm" t] s(4) p(1) by (simp add: owns_step_def)
  moreover have "mem_heap t2 = mem_heap t - hm_own hm" using h2 s(4) p(1) by (auto simp: owns_step_def)
  moreover have "tt_ptrhmap_destroy (hm, m, t) = Inr (hm\<lparr>hm_cache := cl\<rparr>, m2, t2)"
    using s(1) f2(1) t2(1) p(1) by (simp add: tt_ptrhmap_destroy_def)
  ultimately show thesis using that f by (simp add: freed_def)
qed

section \<open>The map is a dictionary\<close>

fun phm_step :: "(u8 list, 'p) d_op \<Rightarrow> 'p phm_state \<Rightarrow> ('p answer \<times> 'p phm_state) run" where
  "phm_step (DFind k) s = bindr (tt_ptrhmap_find k (of_nat (length k)) s) (\<lambda>p. Inr (case p of Some v \<Rightarrow> Got v | None \<Rightarrow> Empty, s))"
| "phm_step (DAdd k v) s = bindr (tt_ptrhmap_add k (of_nat (length k)) (Some v) s) (\<lambda>(r, s). Inr (if TT_OK r then Done else NoMem, s))"
| "phm_step (DDel k) s = bindr (tt_ptrhmap_remove_key k (of_nat (length k)) s) (\<lambda>(b, s). Inr (if b then Done else Empty, s))"

definition phm_ok :: "'p phmnode mem \<Rightarrow> tt_slist mem \<Rightarrow> 'p phm_state \<Rightarrow> bool" where
  "phm_ok m0 t0 s \<longleftrightarrow> (\<exists>L C. phm_rep s L C \<and> owns_step {} m0 (phm_nodes L C) (fst (snd s)) \<and> owns_step {} t0 (hm_own (fst s)) (snd (snd s)))"

text \<open>Keys are those whose length fits 32 bits.\<close>

definition key_ok :: "u8 list \<Rightarrow> bool" where "key_ok k \<longleftrightarrow> length k < 2 ^ 32"

definition phm_contents :: "'p phm_state \<Rightarrow> u8 list \<Rightarrow> 'p option" where
  "phm_contents s k = (if key_ok k then (case tt_ptrhmap_find k (of_nat (length k)) s of Inr p \<Rightarrow> p | Inl _ \<Rightarrow> None) else None)"

lemma key_ok_len: "key_ok k \<Longrightarrow> length k = unat (of_nat (length k) :: u32)"
  by (simp add: key_ok_def unat_of_nat)

lemma phm_contents_eq:
  assumes "phm_rep s L C"
  shows "phm_contents s = (\<lambda>k. if key_ok k then phm_map s L k else None)"
  using phm_find_ok [OF assms key_ok_len] by (auto simp: phm_contents_def fun_eq_iff)

lemma phm_ok_step:
  assumes s: "phm_rep s L C" "owns_step {} m0 (phm_nodes L C) (fst (snd s))" "owns_step {} t0 (hm_own (fst s)) (snd (snd s))"
    and s': "phm_rep s' L' C'" "phm_owns s (phm_nodes L C) s' (phm_nodes L' C')"
  shows "phm_ok m0 t0 s'"
proof -
  obtain hm m t hm' m' t' where e: "s = (hm, m, t)" "s' = (hm', m', t')" by (cases s; cases s')
  have "owns_step {} m0 (phm_nodes L' C') m'" "owns_step {} t0 (hm_own hm') t'"
    using s(2,3) s'(2) owns_trans unfolding e phm_owns_def by auto
  with s'(1) show ?thesis unfolding phm_ok_def e by auto
qed

lemma phm_step_refines:
  assumes ok: "phm_ok m0 t0 s" and k: "key_ok (op_key op)"
  shows "\<exists>a s'. phm_step op s = Inr (a, s') \<and> phm_ok m0 t0 s' \<and> d_spec op (phm_contents s) a (phm_contents s')"
proof -
  obtain L C where s: "phm_rep s L C" "owns_step {} m0 (phm_nodes L C) (fst (snd s))" "owns_step {} t0 (hm_own (fst s)) (snd (snd s))"
    using ok by (auto simp: phm_ok_def)
  note c = phm_contents_eq [OF s(1)]
  show ?thesis
  proof (cases op)
    case (DFind key)
    then have kk: "key_ok key" using k by simp
    with phm_find_ok [OF s(1) key_ok_len [OF kk]] ok DFind show ?thesis
      by (cases "phm_map s L key") (simp_all add: d_spec_simps c)
  next
    case (DAdd key v)
    then have kk: "key_ok key" using k by simp
    show ?thesis
    proof (cases "phm_map s L key")
      case (Some w)
      with phm_add_duplicate [OF s(1) key_ok_len [OF kk]] ok DAdd show ?thesis by (simp add: d_spec_simps)
    next
      case None
      from s(1) key_ok_len [OF kk] None show ?thesis
      proof (cases rule: phm_add_new [where v = v])
        case f: (fail s')
        have "phm_contents s' = phm_contents s" using phm_contents_eq [OF f(2)] c f(3) by (simp cong: if_cong)
        with f(1) phm_ok_step [OF s f(2,4)] DAdd show ?thesis by (simp add: d_spec_simps)
      next
        case o: (ok s' L' C')
        have "phm_contents s' = (phm_contents s)(key \<mapsto> v)" using phm_contents_eq [OF o(2)] c o(3) kk by auto
        with o(1) phm_ok_step [OF s o(2,4)] DAdd None show ?thesis by (simp add: d_spec_simps c)
      qed
    qed
  next
    case (DDel key)
    then have kk: "key_ok key" using k by simp
    note r = phm_remove_key_ok [OF s(1) key_ok_len [OF kk]]
    show ?thesis
    proof (cases "phm_map s L key")
      case None
      with r ok DDel show ?thesis by (simp add: d_spec_simps c)
    next
      case (Some w)
      with r obtain s' L' C' where o: "tt_ptrhmap_remove_key key (of_nat (length key)) s = Inr (True, s')" "phm_rep s' L' C'"
        "phm_map s' L' = (phm_map s L)(key := None)" "phm_owns s (phm_nodes L C) s' (phm_nodes L' C')" by auto
      have "phm_contents s' = (phm_contents s)(key := None)" using phm_contents_eq [OF o(2)] c o(3) by auto
      with o(1) phm_ok_step [OF s o(2,4)] DDel Some kk show ?thesis by (simp add: d_spec_simps c)
    qed
  qed
qed

interpretation pm: dictionary "phm_ok m0 t0" phm_contents key_ok phm_step
  for m0 :: "'p phmnode mem" and t0 :: "tt_slist mem"
  by unfold_locales (rule phm_step_refines)

end
