(* ===== verification/TT_HashMap_Props.thy ===== *)
theory TT_HashMap_Props
  imports TT_PtrHashMap_Inv TT_Queue_Props
begin

text \<open>
  The properties of the linked lists and the hash maps, each with a concrete instance.
\<close>

section \<open>From creation to destruction\<close>

lemma entries_none: "entries (\<lambda>_. []) = {}"
  by (simp add: entries_def)

lemma slot_create:
  assumes inv: "mem_inv t0" and n: "slot_num \<noteq> 0" and c: "tt_malloc 1 slot_num t0 = (Some p, t1)"
    and hm: "hm_sll hm = Some p" "hm_num hm = slot_num"
  obtains t' where "init_slots hm 0 t1 = Inr t'" "slot_arr hm t' (replicate (unat slot_num) tt_slist_init)" "owns_step {} t0 (hm_own hm) t'"
proof -
  have one: "1 dvd unat slot_num" by simp
  from inv one show thesis
  proof (cases rule: malloc_cases)
    case (fail m')
    with c show thesis by simp
  next
    case (ok n cs m')
    have e: "n = p" "m' = t1" using ok(1) c by simp_all
    note D = movedD [OF ok(3)]
    have "slot_arr hm t1 cs" using ok(2,4) moved_new [OF ok(3)] hm n e by (simp add: slot_arr_def)
    from init_slots_ok [OF this, of 0] hm obtain t' where t': "init_slots hm 0 t1 = Inr t'" "slot_arr hm t' (replicate (unat slot_num) tt_slist_init)"
      "owns_step (hm_own hm) t1 (hm_own hm) t'" by auto
    have o: "owns_step {} t0 {p} t1"
      using owns_malloc [of t0 t1 p "{}"] moved_frame [OF ok(3)] D e mem_inv_next [OF inv] mem_inv_heap_next [OF inv] ok(5) by simp
    have "owns_step {} t0 (hm_own hm) t'" using owns_trans [OF o, of "{p}" t'] t'(3) hm by simp
    with that t'(1,2) show thesis by blast
  qed
qed

lemma phm_create_ok:
  assumes c: "tt_ptrhmap_create big seed slot_num attr t0 = Inr (TT_SUCCESS, Some hm, t)" and inv: "mem_inv m0" "mem_inv t0"
  shows "phm_ok m0 t0 (hm, m0, t)" "phm_contents (hm, m0, t) = Map.empty"
proof -
  have n: "slot_num \<noteq> 0" using c by (auto simp: tt_ptrhmap_create_def bindr_eq_Inr_iff)
  define at where "at = (case attr of None \<Rightarrow> tt_ptrhmap_attr_default | Some a \<Rightarrow> a)"
  obtain p t1 where p: "tt_malloc 1 slot_num t0 = (Some p, t1)"
    using c by (cases "tt_malloc 1 slot_num t0"; cases "fst (tt_malloc 1 slot_num t0)") (auto simp: tt_ptrhmap_create_def Let_def n)
  have h: "hm_sll hm = Some p" "hm_num hm = slot_num" "hm_count hm = 0" "hm_cache hm = tt_slist_init" "hm_hash hm = alg_hash big (pa_hash_alg at)"
    and i: "init_slots hm 0 t1 = Inr t"
    using c by (auto simp: tt_ptrhmap_create_def Let_def n p [unfolded One_nat_def] bindr_eq_Inr_iff at_def)
  from inv(2) n p h(1,2) obtain t' where t': "init_slots hm 0 t1 = Inr t'" "slot_arr hm t' (replicate (unat slot_num) tt_slist_init)" "owns_step {} t0 (hm_own hm) t'"
    by (rule slot_create)
  have e: "t' = t" using i t'(1) by simp
  have "hashes (hm_hash hm)" using h(5) hashes_alg by (simp add: alg_hash_def)
  then have "map_rep hm m0 t (\<lambda>_. [])"
    using t'(2) inv(1) h(2) unfolding e map_rep_def by (auto simp: slist_def tt_slist_init_def)
  then have rep: "phm_rep (hm, m0, t) (\<lambda>_. []) []" using h(3,4) by (simp add: phm_rep_def entries_none slist_def tt_slist_init_def)
  then show "phm_ok m0 t0 (hm, m0, t)"
    using t'(3) unfolding e phm_ok_def by (intro exI [of _ "\<lambda>_. []"] exI [of _ "[]"]) (simp add: phm_nodes_def entries_none owns_refl)
  show "phm_contents (hm, m0, t) = Map.empty"
    using phm_contents_eq [OF rep] by (simp add: phm_map_def hm_find_def fun_eq_iff)
qed

lemma phm_ok_destroy:
  assumes "phm_ok m0 t0 (hm, m, t)"
  shows "\<exists>hm' m' t'. tt_ptrhmap_destroy (hm, m, t) = Inr (hm', m', t') \<and> mem_heap m' = mem_heap m0 \<and> mem_frame {} m0 m'
    \<and> mem_heap t' = mem_heap t0 \<and> mem_frame {} t0 t'"
proof -
  obtain L C where s: "phm_rep (hm, m, t) L C" and o: "owns_step {} m0 (phm_nodes L C) m" "owns_step {} t0 (hm_own hm) t"
    using assms by (auto simp: phm_ok_def)
  from s obtain hm' m' t' where d: "tt_ptrhmap_destroy (hm, m, t) = Inr (hm', m', t')" "mem_heap m' = mem_heap m - phm_nodes L C" "mem_frame (phm_nodes L C) m m'"
    "mem_heap t' = mem_heap t - hm_own hm" "mem_frame (hm_own hm) t t'" by (rule phm_destroy_ok)
  have f: "mem_frame {} m0 m'" "mem_frame {} t0 t'" "mem_heap m' = mem_heap m0" "mem_heap t' = mem_heap t0"
    using o d frame_compose [of "{}" m0 m "phm_nodes L C" m'] frame_compose [of "{}" t0 t "hm_own hm" t']
    unfolding owns_step_def by auto
  with d(1) show ?thesis by blast
qed

section \<open>Concrete maps\<close>

abbreviation t_store0 :: "tt_slist mem" where "t_store0 \<equiv> no_mem tt_slist_init"

abbreviation pn_store0 :: "nat phmnode mem" where
  "pn_store0 \<equiv> no_mem \<lparr>s_next = None, h_key = None, h_klen = 0, pn_ptr = 0\<rparr>"

lemma phm_created: "\<exists>hm t. tt_ptrhmap_create False 7 16 None t_store0 = Inr (TT_SUCCESS, Some hm, t)"
proof -
  obtain t1 where m: "tt_malloc 1 16 t_store0 = (Some 0, t1)" by (simp add: tt_malloc_def no_mem_def)
  let ?hm = "\<lparr>hm_sll = Some 0, hm_hash = alg_hash False TT_HASH_ALG_MURMUR3, hm_seed = 7, hm_num = 16, hm_count = 0,
     hm_cache = tt_slist_init, hm_cache_threshold = 16, hm_cache_count = 0\<rparr>"
  have n: "(16 :: u32) \<noteq> 0" and h: "hm_sll ?hm = Some 0" "hm_num ?hm = 16" by simp_all
  from no_mem_inv n m h obtain t' where "init_slots ?hm 0 t1 = Inr t'" by (rule slot_create)
  with m [unfolded One_nat_def] show ?thesis by (simp add: tt_ptrhmap_create_def tt_ptrhmap_attr_default_def)
qed

section \<open>Properties\<close>

text \<open>
  C32: The map from keys to pointers answers every sequence of additions, searches and removals by key as
  a finite map does, for keys whose length fits 32 bits: a duplicate key is refused, a found pointer is the
  one added last, removal says whether the key was there. No search runs forever or leaves its list, whatever
  the hash function; destruction frees every node, used or cached, and the array of lists.
\<close>

theorem ptrhmap_refines_map:
  assumes c: "tt_ptrhmap_create big seed slot_num attr t0 = Inr (TT_SUCCESS, Some hm, t)" and inv: "mem_inv m0" "mem_inv t0"
    and keys: "\<forall>op \<in> set ops. length (op_key op) < 2 ^ 32"
  shows "\<exists>as hm' m' t'. run_ops phm_step ops (hm, m0, t) = Inr (as, hm', m', t') \<and> d_specs ops Map.empty as (phm_contents (hm', m', t'))
    \<and> (\<exists>hm'' m'' t''. tt_ptrhmap_destroy (hm', m', t') = Inr (hm'', m'', t'') \<and> mem_heap m'' = mem_heap m0 \<and> mem_frame {} m0 m''
        \<and> mem_heap t'' = mem_heap t0 \<and> mem_frame {} t0 t'')"
proof -
  note i = phm_create_ok [OF c inv]
  have "\<forall>op \<in> set ops. key_ok (op_key op)" using keys by (simp add: key_ok_def)
  from pm.run_refines [OF i(1) this] obtain as hm' m' t' where r: "run_ops phm_step ops (hm, m0, t) = Inr (as, hm', m', t')" "phm_ok m0 t0 (hm', m', t')"
    "d_specs ops Map.empty as (phm_contents (hm', m', t'))" using i(2) by auto
  with phm_ok_destroy [OF r(2)] show ?thesis by blast
qed

theorem ptrhmap_refines_map_witness:
  "\<exists>hm t as hm' m' t'. tt_ptrhmap_create False 7 16 None t_store0 = Inr (TT_SUCCESS, Some hm, t)
    \<and> run_ops phm_step [DAdd [1, 2] 5, DFind [1, 2], DDel [3]] (hm, pn_store0, t) = Inr (as, hm', m', t')
    \<and> d_specs [DAdd [1, 2] 5, DFind [1, 2], DDel [3]] Map.empty as (phm_contents (hm', m', t'))"
proof -
  obtain hm t where c: "tt_ptrhmap_create False 7 16 None t_store0 = Inr (TT_SUCCESS, Some hm, t)" using phm_created by blast
  have "\<forall>op \<in> set [DAdd [1, 2] (5 :: nat), DFind [1, 2], DDel [3]]. length (op_key op) < 2 ^ 32" by simp
  from ptrhmap_refines_map [OF c no_mem_inv no_mem_inv this] c show ?thesis by blast
qed

end
