(* ===== verification/TT_Util_Props.thy ===== *)
theory TT_Util_Props
  imports TT_Util
begin

text \<open>
  What the number helpers of \<^verbatim>\<open>misc/tt_util.c\<close> compute, against the mathematical functions: the
  positions of the highest and the lowest bit, the least power of two not below a number, the greatest
  common divisor and the least common multiple, with the inputs for which they are undefined or wrap.
\<close>

section \<open>The lowest bit\<close>

lemma low_mask_zero_iff:
  assumes "s < 32"
  shows "(v :: u32) AND (push_bit s 1 - 1) = 0 \<longleftrightarrow> (\<forall>j < s. \<not> bit v j)"
proof -
  have m: "push_bit s 1 - 1 = (mask s :: u32)" by (simp add: mask_eq_exp_minus_1)
  show ?thesis
    unfolding m using assms bit_imp_le_length [of v] by (fastforce simp: bit_eq_iff bit_and_iff bit_mask_iff)
qed

lemma low_bit_loop_pow:
  assumes "k \<le> 4" "\<exists>j < 2 * 2 ^ k. bit v j"
  obtains p where "low_bit_loop ret v (push_bit k 1) = ret + of_nat p" "p < 2 * 2 ^ k"
    "bit v p" "\<forall>j < p. \<not> bit v j"
  using assms
proof (induction k arbitrary: ret v thesis)
  case 0
  have e: "low_bit_loop ret v 1 = (if bit v 0 then ret else ret + 1)"
    by (auto simp: low_bit_loop.simps [of _ _ 1] low_bit_loop.simps [of _ _ 0] and_one_eq bit_0 odd_iff_mod_2_eq_one
        even_iff_mod_2_eq_zero)
  show thesis
  proof (cases "bit v 0")
    case True
    then show thesis using e by (intro "0.prems"(1) [of 0]) auto
  next
    case False
    obtain j where "j < 2" "bit v j" using "0.prems"(3) by auto
    with False have "bit v 1" by (cases j) auto
    with False show thesis using e by (intro "0.prems"(1) [of 1]) auto
  qed
next
  case (Suc k)
  let ?s = "2 ^ Suc k :: nat"
  have s32: "?s < 32"
  proof -
    have "(2 :: nat) ^ Suc k \<le> 2 ^ 4" using Suc.prems(2) by (intro power_increasing) auto
    then show ?thesis by simp
  qed
  have us: "unat (push_bit (Suc k) 1 :: u32) = ?s"
    using Suc.prems(2) by (intro unat_shl_1) simp
  have half: "drop_bit 1 (push_bit (Suc k) 1 :: u32) = push_bit k 1"
    using Suc.prems(2) by (intro bit_word_eqI)
      (auto simp: bit_drop_bit_eq bit_push_bit_iff bit_1_iff simp del: push_bit_of_1 push_bit_Suc)
  have nz: "push_bit (Suc k) 1 \<noteq> (0 :: u32)" using us by (metis power_not_zero unat_0 zero_neq_numeral)
  show thesis
  proof (cases "v AND (push_bit ?s 1 - 1) = 0")
    case True
    then have low: "\<forall>j < ?s. \<not> bit v j" using low_mask_zero_iff [OF s32] by blast
    let ?v = "drop_bit ?s v"
    obtain j where j: "j < 2 * ?s" "bit v j" using Suc.prems(3) by blast
    then have "?s \<le> j" using low by (meson not_le)
    then have "\<exists>j < 2 * 2 ^ k. bit ?v j"
      using j by (intro exI [of _ "j - ?s"]) (auto simp: bit_drop_bit_eq)
    from Suc.IH [OF _ _ this] Suc.prems(2)
    obtain p where p: "low_bit_loop (ret + push_bit (Suc k) 1) ?v (push_bit k 1) = ret + push_bit (Suc k) 1 + of_nat p"
      "p < 2 * 2 ^ k" "bit ?v p" "\<forall>j < p. \<not> bit ?v j"
      by (metis Suc_leD)
    have e: "low_bit_loop ret v (push_bit (Suc k) 1) = low_bit_loop (ret + push_bit (Suc k) 1) ?v (push_bit k 1)"
      by (subst low_bit_loop.simps) (simp only: us True half nz if_True simp_thms if_False)
    have sum: "push_bit (Suc k) 1 + of_nat p = (of_nat (?s + p) :: u32)"
      by (simp add: push_bit_eq_mult)
    have "\<not> bit v j" if "j < ?s + p" for j
    proof (cases "j < ?s")
      case False
      then have "\<not> bit ?v (j - ?s)" using that p(4) by simp
      then show ?thesis using False by (simp add: bit_drop_bit_eq)
    qed (use low in simp)
    then show thesis
      using p e sum by (intro Suc.prems(1) [of "?s + p"]) (simp_all add: add.assoc bit_drop_bit_eq)
  next
    case False
    then have "\<exists>j < 2 * 2 ^ k. bit v j" using low_mask_zero_iff [OF s32, of v] by auto
    from Suc.IH [OF _ _ this] Suc.prems(2)
    obtain p where p: "low_bit_loop ret v (push_bit k 1) = ret + of_nat p" "p < 2 * 2 ^ k" "bit v p" "\<forall>j < p. \<not> bit v j"
      by (metis Suc_leD)
    have "low_bit_loop ret v (push_bit (Suc k) 1) = low_bit_loop ret v (push_bit k 1)"
      by (subst low_bit_loop.simps) (simp only: us False half nz if_True simp_thms if_False)
    with p show thesis by (intro Suc.prems(1) [of p]) simp_all
  qed
qed

lemma low_bit_1_pos:
  assumes "val \<noteq> 0"
  obtains p where "tt_low_bit_1 val = (TT_SUCCESS, Some (of_nat p))" "p < 32"
    "bit val p" "\<forall>j < p. \<not> bit val j"
proof -
  obtain j where j: "bit val j" using assms by (auto simp: bit_eq_iff)
  then have "j < 32" using bit_imp_le_length [of val j] by simp
  with j have "\<exists>j < 2 * 2 ^ 4. bit val j" by auto
  with low_bit_loop_pow [of 4 val 0] obtain p where p: "low_bit_loop 0 val (push_bit 4 1) = 0 + of_nat p"
    "p < 2 * 2 ^ 4" "bit val p" "\<forall>j < p. \<not> bit val j" by (metis order_refl)
  with assms show thesis
    by (intro that [of p]) (simp_all add: tt_low_bit_1_def)
qed

section \<open>Multiples\<close>

lemma lcm_u32:
  assumes "a \<noteq> 0 \<or> b \<noteq> 0"
  shows "tt_lcm_u32 a b = Inr (of_nat (lcm (unat a) (unat b)))"
proof -
  let ?g = "gcd (unat a) (unat b)"
  have g0: "?g \<noteq> 0" using assms by (simp add: unat_eq_zero)
  then have "tt_gcd_u32 a b \<noteq> 0" using gcd_u32 [of a b] by auto
  moreover have "(a div tt_gcd_u32 a b) * b = of_nat (lcm (unat a) (unat b))"
  proof -
    have "unat (a div tt_gcd_u32 a b) = unat a div ?g"
      by (simp add: unat_div gcd_u32)
    then have "(a div tt_gcd_u32 a b) * b = of_nat (unat a div ?g * unat b)"
      by (simp flip: word_unat_eq_iff add: unat_word_ariths unat_of_nat word_unat_eq_iff)
    moreover have "unat a div ?g * unat b = lcm (unat a) (unat b)"
      by (simp add: lcm_nat_def div_mult_swap dvd_div_mult mult.commute)
    ultimately show ?thesis by simp
  qed
  ultimately show ?thesis by (simp add: tt_lcm_u32_def Let_def)
qed

section \<open>The helpers and the mathematical functions\<close>

text \<open>
  C33. On every 32-bit input the number helpers agree with the mathematical functions: the bit searches
  fail exactly at zero and otherwise give the positions of the highest and of the lowest set bit;
  \<^verbatim>\<open>tt_least_2power\<close> gives the least exponent whose power is not below the value; \<^verbatim>\<open>tt_order\<close> recognises
  exactly the powers of two up to \<open>2 ^ 31\<close>, and above shifts by the word's width, which is undefined;
  \<^verbatim>\<open>tt_gcd_u32\<close> is the greatest common divisor; \<^verbatim>\<open>tt_lcm_u32\<close> is the least common multiple modulo
  \<open>2 ^ 32\<close> and divides by zero when both arguments are zero.
\<close>

lemma bit_unat: "bit v p \<longleftrightarrow> odd (unat (v :: u32) div 2 ^ p)"
  by (simp add: bit_unsigned_iff flip: bit_iff_odd)

lemma high_bit_spec:
  assumes "v \<noteq> 0"
  shows "\<exists>p < 32. tt_high_bit_1 v = (TT_SUCCESS, Some (of_nat p)) \<and> bit v p \<and> (\<forall>j > p. \<not> bit v j)"
proof -
  from assms obtain p where p: "tt_high_bit_1 v = (TT_SUCCESS, Some (of_nat p))"
    "2 ^ p \<le> unat v" "unat v < 2 ^ Suc p" "p < 32" by (rule high_bit_1_pos)
  have "unat v div 2 ^ p = 1"
    using p(2,3) by (intro div_nat_eqI) auto
  then have "bit v p" by (simp add: bit_unat)
  moreover have "\<not> bit v j" if "p < j" for j
  proof -
    have "(2 :: nat) ^ Suc p \<le> 2 ^ j" using that by (intro power_increasing) auto
    with p(3) have "unat v < 2 ^ j" by (rule less_le_trans)
    then have "unat v div 2 ^ j = 0" by (simp add: div_eq_0_iff)
    then show ?thesis by (simp add: bit_unat)
  qed
  ultimately show ?thesis using p(1,4) by blast
qed

lemma low_bit_spec:
  assumes "v \<noteq> 0"
  shows "\<exists>p < 32. tt_low_bit_1 v = (TT_SUCCESS, Some (of_nat p)) \<and> bit v p \<and> (\<forall>j < p. \<not> bit v j)"
  using assms by (rule low_bit_1_pos) blast

lemma least_2power_spec:
  assumes "v \<noteq> 0"
  shows "tt_least_2power v = Inr (of_nat (LEAST q. unat v \<le> 2 ^ q))" "(LEAST q. unat v \<le> 2 ^ q) \<le> 32"
proof -
  from assms obtain q where q: "tt_least_2power v = Inr (of_nat q)" "unat v \<le> 2 ^ q" "q \<le> 32"
    "\<forall>j. unat v \<le> 2 ^ j \<longrightarrow> q \<le> j" by (rule least_2power_pos)
  then have "(LEAST q. unat v \<le> 2 ^ q) = q" by (intro Least_equality) auto
  with q show "tt_least_2power v = Inr (of_nat (LEAST q. unat v \<le> 2 ^ q))" "(LEAST q. unat v \<le> 2 ^ q) \<le> 32" by auto
qed

lemma order_spec:
  "tt_order v = (if 2 ^ 31 < unat v then Inl Undef
     else if \<exists>q. unat v = 2 ^ q then Inr (TT_SUCCESS, Some (of_nat (LEAST q. unat v \<le> 2 ^ q)))
     else Inr (TT_FAIL, None))"
proof (cases "v = 0")
  case True
  then show ?thesis by (simp add: tt_order_def tt_least_2power_def tt_high_bit_1_def shl_1u_def)
next
  case False
  define q where "q = (LEAST q. unat v \<le> 2 ^ q)"
  have q: "tt_least_2power v = Inr (of_nat q)" "q \<le> 32"
    using least_2power_spec [OF False] by (simp_all add: q_def)
  have le: "unat v \<le> 2 ^ j \<longleftrightarrow> q \<le> j" for j
  proof
    show "unat v \<le> 2 ^ j \<Longrightarrow> q \<le> j" unfolding q_def by (rule Least_le)
  next
    have "unat v \<le> 2 ^ 32" using unat_lt_32 [of v] by simp
    then have "unat v \<le> 2 ^ q" unfolding q_def by (rule LeastI)
    moreover assume "q \<le> j"
    then have "(2 :: nat) ^ q \<le> 2 ^ j" by (intro power_increasing) auto
    ultimately show "unat v \<le> 2 ^ j" by linarith
  qed
  have big: "2 ^ 31 < unat v \<longleftrightarrow> q = 32" using le [of 31] q(2) by auto
  show ?thesis
  proof (cases "q = 32")
    case True
    with q(1) have "tt_order v = Inl Undef" by (simp add: tt_order_def shl_1u_def)
    with big True show ?thesis by simp
  next
    case ne: False
    with q(2) have lt: "q < 32" by simp
    have pow: "(\<exists>q. unat v = 2 ^ q) \<longleftrightarrow> unat v = 2 ^ q"
    proof
      assume "\<exists>q. unat v = 2 ^ q"
      then obtain r where r: "unat v = 2 ^ r" by blast
      with le [of r] have "q \<le> r" by simp
      moreover have "\<not> q < r"
      proof
        assume "q < r"
        then have "(2 :: nat) ^ q < 2 ^ r" by (intro power_strict_increasing) auto
        with le [of q] r show False by simp
      qed
      ultimately show "unat v = 2 ^ q" using r by simp
    qed blast
    have "v = push_bit q 1 \<longleftrightarrow> unat v = 2 ^ q"
      using unat_shl_1 [OF lt] by (metis word_unat_eq_iff)
    then have "tt_order v = (if \<exists>q. unat v = 2 ^ q then Inr (TT_SUCCESS, Some (of_nat q)) else Inr (TT_FAIL, None))"
      using q(1) shl_1u_of_nat [OF lt] pow by (simp add: tt_order_def del: push_bit_of_1)
    with big ne show ?thesis by (simp add: q_def)
  qed
qed

section \<open>The helpers and the mathematical functions\<close>

text \<open>
  C33. On every 32-bit input the number helpers agree with the mathematical functions: the bit searches
  fail exactly at zero and otherwise give the positions of the highest and of the lowest set bit;
  \<^verbatim>\<open>tt_least_2power\<close> gives the least exponent whose power is not below the value; \<^verbatim>\<open>tt_order\<close> recognises
  exactly the powers of two up to \<open>2 ^ 31\<close>, and above shifts by the word's width, which is undefined;
  \<^verbatim>\<open>tt_gcd_u32\<close> is the greatest common divisor; \<^verbatim>\<open>tt_lcm_u32\<close> is the least common multiple modulo
  \<open>2 ^ 32\<close> and divides by zero when both arguments are zero.
\<close>

theorem number_helpers_equiv:
  "(if v = 0 then tt_high_bit_1 v = (TT_FAIL, None) \<and> tt_low_bit_1 v = (TT_FAIL, None) \<and> tt_least_2power v = Inr 0
    else (\<exists>p < 32. tt_high_bit_1 v = (TT_SUCCESS, Some (of_nat p)) \<and> bit v p \<and> (\<forall>j > p. \<not> bit v j))
       \<and> (\<exists>p < 32. tt_low_bit_1 v = (TT_SUCCESS, Some (of_nat p)) \<and> bit v p \<and> (\<forall>j < p. \<not> bit v j))
       \<and> tt_least_2power v = Inr (of_nat (LEAST q. unat v \<le> 2 ^ q)))
   \<and> tt_order v = (if 2 ^ 31 < unat v then Inl Undef
       else if \<exists>q. unat v = 2 ^ q then Inr (TT_SUCCESS, Some (of_nat (LEAST q. unat v \<le> 2 ^ q)))
       else Inr (TT_FAIL, None))
   \<and> unat (tt_gcd_u32 a b) = gcd (unat a) (unat b)
   \<and> tt_lcm_u32 a b = (if a = 0 \<and> b = 0 then Inl Undef else Inr (of_nat (lcm (unat a) (unat b))))"
proof (intro conjI)
  show "if v = 0 then tt_high_bit_1 v = (TT_FAIL, None) \<and> tt_low_bit_1 v = (TT_FAIL, None) \<and> tt_least_2power v = Inr 0
    else (\<exists>p < 32. tt_high_bit_1 v = (TT_SUCCESS, Some (of_nat p)) \<and> bit v p \<and> (\<forall>j > p. \<not> bit v j))
       \<and> (\<exists>p < 32. tt_low_bit_1 v = (TT_SUCCESS, Some (of_nat p)) \<and> bit v p \<and> (\<forall>j < p. \<not> bit v j))
       \<and> tt_least_2power v = Inr (of_nat (LEAST q. unat v \<le> 2 ^ q))"
  proof (cases "v = 0")
    case False
    with high_bit_spec [OF False] low_bit_spec [OF False] least_2power_spec(1) [OF False] show ?thesis by simp
  qed (simp add: tt_high_bit_1_def tt_low_bit_1_def tt_least_2power_def)
  show "tt_lcm_u32 a b = (if a = 0 \<and> b = 0 then Inl Undef else Inr (of_nat (lcm (unat a) (unat b))))"
    using lcm_u32 [of a b] by (cases "a = 0 \<and> b = 0") (auto simp: tt_lcm_u32_def tt_gcd_u32.simps [of 0 0])
qed (rule order_spec gcd_u32)+

text \<open>Twelve and eighteen, and the values around the least powers.\<close>

theorem number_helpers_equiv_witness:
  "unat (tt_gcd_u32 12 18) = 6 \<and> tt_order 7 = Inr (TT_FAIL, None) \<and> tt_lcm_u32 0 0 = Inl Undef"
proof -
  have pow: "2 ^ q \<noteq> (7 :: nat)" for q
    by (cases q) (auto, presburger)
  have "gcd 12 18 = (6 :: nat)" by (simp add: gcd_non_0_nat)
  then have 1: "unat (tt_gcd_u32 12 18) = 6"
    using number_helpers_equiv [of 7 12 18] by simp
  have 2: "tt_order 7 = Inr (TT_FAIL, None)"
    using number_helpers_equiv [of 7 0 0] pow by (auto simp: eq_commute [of 7])
  show ?thesis using 1 2 number_helpers_equiv [of 7 0 0] by auto
qed

end
