(* ===== verification/TT_Base64.thy ===== *)
theory TT_Base64
  imports TT_Memory
begin

text \<open>
  The base64 decoder of \<^verbatim>\<open>misc/tt_base64.c\<close>. A block of memory is the list of its bytes from the pointer
  to its end, so that \<^verbatim>\<open>data[i]\<close> beyond it is undefined; \<^verbatim>\<open>decoded\<close> is \<open>None\<close> when the caller only asks for
  the length. A character is given by its byte (\<^verbatim>\<open>'='\<close> is 61, \<^verbatim>\<open>'\r'\<close> 13, \<^verbatim>\<open>'\n'\<close> 10).
\<close>

section \<open>Tables\<close>

definition B64_C_PAD :: u8 where "B64_C_PAD = 61"

definition B64_U_INVALID :: u8 where "B64_U_INVALID = 0xFF"

definition tt_s_base64_u2c_table :: "u8 list" where
  "tt_s_base64_u2c_table = [
    65, 66, 67, 68, 69, 70, 71, 72, 73, 74, 75, 76, 77, 78, 79, 80,
    81, 82, 83, 84, 85, 86, 87, 88, 89, 90, 97, 98, 99, 100, 101, 102,
    103, 104, 105, 106, 107, 108, 109, 110, 111, 112, 113, 114, 115, 116, 117, 118,
    119, 120, 121, 122, 48, 49, 50, 51, 52, 53, 54, 55, 56, 57, 43, 47]"

definition tt_s_base64_c2u_table :: "u8 list" where
  "tt_s_base64_c2u_table = [
    0xFF, 0xFF, 0xFF, 0xFF, 0xFF, 0xFF, 0xFF, 0xFF, 0xFF, 0xFF, 0xFF, 0xFF, 0xFF, 0xFF, 0xFF, 0xFF,
    0xFF, 0xFF, 0xFF, 0xFF, 0xFF, 0xFF, 0xFF, 0xFF, 0xFF, 0xFF, 0xFF, 0xFF, 0xFF, 0xFF, 0xFF, 0xFF,
    0xFF, 0xFF, 0xFF, 0xFF, 0xFF, 0xFF, 0xFF, 0xFF, 0xFF, 0xFF, 0xFF, 0x3E, 0xFF, 0xFF, 0xFF, 0x3F,
    0x34, 0x35, 0x36, 0x37, 0x38, 0x39, 0x3A, 0x3B, 0x3C, 0x3D, 0xFF, 0xFF, 0xFF, 0xFF, 0xFF, 0xFF,
    0xFF, 0x00, 0x01, 0x02, 0x03, 0x04, 0x05, 0x06, 0x07, 0x08, 0x09, 0x0A, 0x0B, 0x0C, 0x0D, 0x0E,
    0x0F, 0x10, 0x11, 0x12, 0x13, 0x14, 0x15, 0x16, 0x17, 0x18, 0x19, 0xFF, 0xFF, 0xFF, 0xFF, 0xFF,
    0xFF, 0x1A, 0x1B, 0x1C, 0x1D, 0x1E, 0x1F, 0x20, 0x21, 0x22, 0x23, 0x24, 0x25, 0x26, 0x27, 0x28,
    0x29, 0x2A, 0x2B, 0x2C, 0x2D, 0x2E, 0x2F, 0x30, 0x31, 0x32, 0x33, 0xFF, 0xFF, 0xFF, 0xFF, 0xFF,
    0xFF, 0xFF, 0xFF, 0xFF, 0xFF, 0xFF, 0xFF, 0xFF, 0xFF, 0xFF, 0xFF, 0xFF, 0xFF, 0xFF, 0xFF, 0xFF,
    0xFF, 0xFF, 0xFF, 0xFF, 0xFF, 0xFF, 0xFF, 0xFF, 0xFF, 0xFF, 0xFF, 0xFF, 0xFF, 0xFF, 0xFF, 0xFF,
    0xFF, 0xFF, 0xFF, 0xFF, 0xFF, 0xFF, 0xFF, 0xFF, 0xFF, 0xFF, 0xFF, 0xFF, 0xFF, 0xFF, 0xFF, 0xFF,
    0xFF, 0xFF, 0xFF, 0xFF, 0xFF, 0xFF, 0xFF, 0xFF, 0xFF, 0xFF, 0xFF, 0xFF, 0xFF, 0xFF, 0xFF, 0xFF,
    0xFF, 0xFF, 0xFF, 0xFF, 0xFF, 0xFF, 0xFF, 0xFF, 0xFF, 0xFF, 0xFF, 0xFF, 0xFF, 0xFF, 0xFF, 0xFF,
    0xFF, 0xFF, 0xFF, 0xFF, 0xFF, 0xFF, 0xFF, 0xFF, 0xFF, 0xFF, 0xFF, 0xFF, 0xFF, 0xFF, 0xFF, 0xFF,
    0xFF, 0xFF, 0xFF, 0xFF, 0xFF, 0xFF, 0xFF, 0xFF, 0xFF, 0xFF, 0xFF, 0xFF, 0xFF, 0xFF, 0xFF, 0xFF,
    0xFF, 0xFF, 0xFF, 0xFF, 0xFF, 0xFF, 0xFF, 0xFF, 0xFF, 0xFF, 0xFF, 0xFF, 0xFF, 0xFF, 0xFF, 0xFF]"

definition b64_u2c :: "u8 \<Rightarrow> u8 run" where
  "b64_u2c u = bindr (TT_ASSERT (unat u < length tt_s_base64_u2c_table)) (\<lambda>_.
    Inr (tt_s_base64_u2c_table ! unat u))"

definition b64_c2u :: "u8 \<Rightarrow> u8" where
  "b64_c2u c = tt_s_base64_c2u_table ! unat c"

definition is_crlf :: "u8 \<Rightarrow> bool" where
  "is_crlf c \<longleftrightarrow> c = 13 \<or> c = 10"

definition byte_at :: "u8 list \<Rightarrow> u32 \<Rightarrow> u8 run" where
  "byte_at data i = (if unat i < length data then Inr (data ! unat i) else Inl Undef)"

section \<open>Removing the boundaries\<close>

record tt_base64_decode_attr =
  start_boundary :: "u8 list option"
  end_boundary :: "u8 list option"

definition tt_base64_decode_attr_default :: tt_base64_decode_attr where
  "tt_base64_decode_attr_default = \<lparr>start_boundary = None, end_boundary = None\<rparr>"

text \<open>
  \<^verbatim>\<open>tt_strstr\<close>: the distance to the first occurrence of a string (without its terminator) in the
  terminated string a pointer points to; undefined when there is no terminator.
\<close>

fun first_match :: "u8 list \<Rightarrow> u8 list \<Rightarrow> nat option" where
  "first_match needle hay =
    (if take (length needle) hay = needle then Some 0
     else case hay of [] \<Rightarrow> None | _ # hay' \<Rightarrow> map_option Suc (first_match needle hay'))"

definition tt_strstr :: "u8 list \<Rightarrow> u8 list \<Rightarrow> nat option run" where
  "tt_strstr hay needle = (if 0 \<in> set hay then Inr (first_match needle (takeWhile (\<lambda>c. c \<noteq> 0) hay)) else Inl Undef)"

definition b64_rm_boundary ::
  "u8 list \<Rightarrow> u32 \<Rightarrow> u8 list \<Rightarrow> u8 list \<Rightarrow> (tt_result \<times> u8 list \<times> u32) run" where
  "b64_rm_boundary data data_len start_b end_b =
    bindr (tt_strstr data start_b) (\<lambda>r. case r of
      None \<Rightarrow> Inr (TT_FAIL, data, data_len)
    | Some pos \<Rightarrow>
        let begin = drop (pos + unat (of_nat (length start_b) :: u32)) data in
        bindr (tt_strstr begin end_b) (\<lambda>r. case r of
          None \<Rightarrow> Inr (TT_FAIL, data, data_len)
        | Some e \<Rightarrow> Inr (TT_SUCCESS, begin, of_nat e)))"

section \<open>Validation\<close>

datatype bv_state = BV_INIT | BV_PAD | BV_END

function validate_loop :: "u8 list \<Rightarrow> u32 \<Rightarrow> u32 \<Rightarrow> bv_state \<Rightarrow> tt_result run" where
  "validate_loop data data_len i state =
    (if i < data_len then
       (case byte_at data i of
          Inl f \<Rightarrow> Inl f
        | Inr c \<Rightarrow>
          (case state of
             BV_PAD \<Rightarrow>
               if c \<noteq> B64_C_PAD \<and> \<not> is_crlf c then Inr TT_FAIL
               else validate_loop data data_len (i + 1) BV_END
           | BV_END \<Rightarrow>
               if \<not> is_crlf c then Inr TT_FAIL
               else validate_loop data data_len (i + 1) BV_END
           | BV_INIT \<Rightarrow>
               if is_crlf c then validate_loop data data_len (i + 1) BV_INIT
               else if c = B64_C_PAD then validate_loop data data_len (i + 1) BV_PAD
               else if b64_c2u c = B64_U_INVALID then Inr TT_FAIL
               else validate_loop data data_len (i + 1) BV_INIT))
     else Inr TT_SUCCESS)"
  by pat_completeness auto

lemma loop_step_u32: "(i :: u32) < n \<Longrightarrow> unat n - unat (i + 1) < unat n - unat i"
  using unat_suc_u32 [of i n] by (simp add: word_less_nat_alt)

termination validate_loop
  by (relation "measure (\<lambda>(d, n, i, s). unat n - unat i)") (simp_all add: loop_step_u32)

definition b64_validate :: "u8 list \<Rightarrow> u32 \<Rightarrow> tt_result run" where
  "b64_validate data data_len = validate_loop data data_len 0 BV_INIT"

section \<open>Decoding\<close>

text \<open>\<^verbatim>\<open>decoded[idx] = v; decoded[idx + 1] = v'; ...\<close>\<close>

primrec put_bytes :: "u8 list \<Rightarrow> u32 \<Rightarrow> u8 list \<Rightarrow> u8 list run" where
  "put_bytes dst idx [] = Inr dst"
| "put_bytes dst idx (v # vs) =
    (if unat idx < length dst then put_bytes (dst[unat idx := v]) (idx + 1) vs else Inl Undef)"

text \<open>One branch of the three: check the space and store, unless only the length is wanted.\<close>

definition b64_emit :: "u32 \<Rightarrow> u8 list option \<Rightarrow> u32 \<Rightarrow> u8 list \<Rightarrow> (tt_result \<times> u8 list option) run" where
  "b64_emit decoded_len decoded decoded_idx vs = (case decoded of
      None \<Rightarrow> Inr (TT_SUCCESS, None)
    | Some dst \<Rightarrow>
        if decoded_idx + of_nat (length vs) > decoded_len then Inr (TT_FAIL, decoded)
        else bindr (put_bytes dst decoded_idx vs) (\<lambda>dst. Inr (TT_SUCCESS, Some dst)))"

text \<open>The bytes of a group of four characters, by the number of paddings seen.\<close>

definition b64_group :: "u32 \<Rightarrow> u32 \<Rightarrow> u8 list" where
  "b64_group pad_num val =
    (if pad_num = 0 then [ucast (drop_bit 16 val AND 0xFF), ucast (drop_bit 8 val AND 0xFF), ucast (val AND 0xFF)]
     else if pad_num = 1 then [ucast (drop_bit 16 val AND 0xFF), ucast (drop_bit 8 val AND 0xFF)]
     else [ucast (drop_bit 16 val AND 0xFF)])"

function decode_loop ::
  "u8 list \<Rightarrow> u32 \<Rightarrow> u32 \<Rightarrow> u32 \<Rightarrow> u32 \<Rightarrow> u32 \<Rightarrow> u32 \<Rightarrow> u8 list option \<Rightarrow> u32
    \<Rightarrow> (tt_result \<times> u8 list option \<times> u32) run" where
  "decode_loop data data_len i n val pad_num decoded_idx decoded decoded_len =
    (if i < data_len then
       bindr (byte_at data i) (\<lambda>c.
       if is_crlf c then decode_loop data data_len (i + 1) n val pad_num decoded_idx decoded decoded_len
       else
         bindr (if c \<noteq> B64_C_PAD
                then bindr (TT_ASSERT (b64_c2u c \<noteq> B64_U_INVALID)) (\<lambda>_. Inr (b64_c2u c, pad_num))
                else Inr (0, pad_num + 1)) (\<lambda>(v, pad_num).
         let val = push_bit 6 val OR ucast v; n = n + 1 in
         if n = 4 then
           bindr (TT_ASSERT (pad_num \<le> 2)) (\<lambda>_.
           let vs = b64_group pad_num val in
           bindr (b64_emit decoded_len decoded decoded_idx vs) (\<lambda>(r, decoded).
           if \<not> TT_OK r then Inr (TT_FAIL, decoded, decoded_len)
           else decode_loop data data_len (i + 1) 0 0 pad_num (decoded_idx + of_nat (length vs)) decoded decoded_len))
         else decode_loop data data_len (i + 1) n val pad_num decoded_idx decoded decoded_len))
     else if n \<noteq> 0 then Inr (TT_FAIL, decoded, decoded_len)
     else Inr (TT_SUCCESS, decoded, decoded_idx))"
  by pat_completeness auto

termination decode_loop
  by (relation "measure (\<lambda>(d, len, i, _). unat len - unat i)") (simp_all add: loop_step_u32)

text \<open>What comes back is the result, the buffer and \<^verbatim>\<open>*decoded_len\<close>.\<close>

definition b64_decode :: "u8 list \<Rightarrow> u32 \<Rightarrow> u8 list option \<Rightarrow> u32 \<Rightarrow> (tt_result \<times> u8 list option \<times> u32) run" where
  "b64_decode data data_len decoded decoded_len = decode_loop data data_len 0 0 0 0 0 decoded decoded_len"

definition tt_base64_decode ::
  "u8 list option \<Rightarrow> u32 \<Rightarrow> tt_base64_decode_attr option \<Rightarrow> u8 list option \<Rightarrow> u32 option
    \<Rightarrow> (tt_result \<times> u8 list option \<times> u32) run" where
  "tt_base64_decode data data_len attr decoded decoded_len = (case (data, decoded_len) of
      (Some data, Some decoded_len) \<Rightarrow>
        if data_len = 0 then Inr (TT_SUCCESS, decoded, 0)
        else if decoded \<noteq> None \<and> decoded_len = 0 then Inr (TT_SUCCESS, decoded, decoded_len)
        else
          let attr = (case attr of None \<Rightarrow> tt_base64_decode_attr_default | Some a \<Rightarrow> a) in
          bindr (case (start_boundary attr, end_boundary attr) of
                   (Some s, Some e) \<Rightarrow> b64_rm_boundary data data_len s e
                 | _ \<Rightarrow> Inr (TT_SUCCESS, data, data_len)) (\<lambda>(r, data, data_len).
          if \<not> TT_OK r then Inr (TT_FAIL, decoded, decoded_len)
          else if data_len = 0 then Inr (TT_SUCCESS, decoded, 0)
          else
            bindr (b64_validate data data_len) (\<lambda>r.
            if \<not> TT_OK r then Inr (TT_FAIL, decoded, decoded_len)
            else b64_decode data data_len decoded decoded_len))
    | _ \<Rightarrow> Inl Throw)"

text \<open>
  The allocating variant. \<open>junk\<close> is the uninitialised length variable the first call is given; the
  results are \<^verbatim>\<open>*decoded\<close> and \<^verbatim>\<open>*decoded_len\<close>.
\<close>

definition tt_base64_decode_alloc ::
  "u32 \<Rightarrow> u8 list option \<Rightarrow> u32 \<Rightarrow> tt_base64_decode_attr option \<Rightarrow> ptr \<Rightarrow> u32 \<Rightarrow> u8 mem
    \<Rightarrow> (tt_result \<times> ptr \<times> u32 \<times> u8 mem) run" where
  "tt_base64_decode_alloc junk data data_len attr decoded decoded_len m =
    bindr (tt_base64_decode data data_len attr None (Some junk)) (\<lambda>(r, _, len).
    if \<not> TT_OK r then Inr (TT_FAIL, decoded, decoded_len, m)
    else if len = 0 then Inr (TT_SUCCESS, None, 0, m)
    else (case tt_malloc 1 len m of
        (None, m) \<Rightarrow> Inr (TT_FAIL, decoded, decoded_len, m)
      | (Some p, m) \<Rightarrow>
        bindr (mem_load 1 m (Some p) 0 (unat len)) (\<lambda>block.
        bindr (tt_base64_decode data data_len attr (Some block) (Some len)) (\<lambda>(r, block, len).
        bindr (mem_store 1 m (Some p) 0 (case block of None \<Rightarrow> [] | Some vs \<Rightarrow> vs)) (\<lambda>m.
        if \<not> TT_OK r then bindr (tt_free (Some p) m) (\<lambda>m. Inr (TT_FAIL, decoded, decoded_len, m))
        else Inr (TT_SUCCESS, Some p, len, m))))))"

declare validate_loop.simps [simp del] decode_loop.simps [simp del] first_match.simps [simp del]

end
