(* ===== verification/TT_Base64_Props.thy ===== *)
theory TT_Base64_Props
  imports TT_Base64
begin

text \<open>
  The texts the base64 decoder accepts and what it makes of them. The loops over the bytes of the block
  are related to functions on lists, the state machine of the validation to a description of the accepted
  texts, and the decoding of the groups of four characters to the encoding of RFC 4648.
\<close>

section \<open>The encoding\<close>

definition b64_sym :: "u8 \<Rightarrow> u8" where
  "b64_sym v = tt_s_base64_u2c_table ! unat v"

text \<open>The reference: three bytes are four characters, a shorter last group is filled with \<^verbatim>\<open>'='\<close>.\<close>

fun b64_enc :: "u8 list \<Rightarrow> u8 list" where
  "b64_enc [] = []"
| "b64_enc [a] = [b64_sym (drop_bit 2 a), b64_sym (push_bit 4 (a AND 3)), B64_C_PAD, B64_C_PAD]"
| "b64_enc [a, b] = [b64_sym (drop_bit 2 a), b64_sym (push_bit 4 (a AND 3) OR drop_bit 4 b),
     b64_sym (push_bit 2 (b AND 15)), B64_C_PAD]"
| "b64_enc (a # b # c # r) = b64_sym (drop_bit 2 a) # b64_sym (push_bit 4 (a AND 3) OR drop_bit 4 b)
     # b64_sym (push_bit 2 (b AND 15) OR drop_bit 6 c) # b64_sym (c AND 63) # b64_enc r"

text \<open>
  The texts the decoder is meant for: characters of the alphabet and line breaks, then at most two
  adjacent paddings, then line breaks only.
\<close>

definition b64_shape :: "u8 list \<Rightarrow> bool" where
  "b64_shape t \<longleftrightarrow>
    (\<forall>c \<in> set (takeWhile (\<lambda>c. c \<noteq> B64_C_PAD) t). is_crlf c \<or> c \<in> set tt_s_base64_u2c_table)
    \<and> (let rest = dropWhile (\<lambda>c. c \<noteq> B64_C_PAD) t in
         length (takeWhile (\<lambda>c. c = B64_C_PAD) rest) \<le> 2
         \<and> (\<forall>c \<in> set (dropWhile (\<lambda>c. c = B64_C_PAD) rest). is_crlf c))"

section \<open>The tables\<close>

lemma c2u_table_ok:
  "list_all (\<lambda>(n, v). v \<noteq> B64_U_INVALID \<longrightarrow> unat v < 64 \<and> tt_s_base64_u2c_table ! unat v = of_nat n)
     (List.enumerate 0 tt_s_base64_c2u_table)"
  by (simp add: tt_s_base64_c2u_table_def B64_U_INVALID_def tt_s_base64_u2c_table_def)

lemma u2c_table_ok:
  "list_all (\<lambda>(n, c). tt_s_base64_c2u_table ! unat c = of_nat n) (List.enumerate 0 tt_s_base64_u2c_table)"
  by (simp add: tt_s_base64_c2u_table_def tt_s_base64_u2c_table_def)

lemma table_lengths: "length tt_s_base64_c2u_table = 256" "length tt_s_base64_u2c_table = 64"
  by (simp_all add: tt_s_base64_c2u_table_def tt_s_base64_u2c_table_def)

lemma list_all_enumerate_iff: "list_all P (List.enumerate 0 xs) \<longleftrightarrow> (\<forall>n < length xs. P (n, xs ! n))"
  by (simp add: list_all_length nth_enumerate_eq)

lemma c2u_sym:
  assumes "v < 64"
  shows "b64_c2u (b64_sym v) = v" "b64_sym v \<in> set tt_s_base64_u2c_table"
proof -
  have v: "unat v < 64" using assms by (simp add: word_less_nat_alt)
  with u2c_table_ok show "b64_c2u (b64_sym v) = v"
    by (simp add: list_all_enumerate_iff table_lengths b64_c2u_def b64_sym_def)
  show "b64_sym v \<in> set tt_s_base64_u2c_table"
    using v by (simp add: b64_sym_def table_lengths)
qed

lemma c2u_valid:
  assumes "b64_c2u c \<noteq> B64_U_INVALID"
  shows "b64_c2u c < 64" "c = b64_sym (b64_c2u c)"
proof -
  have "unat c < 256" using unsigned_less [of c] by simp
  with c2u_table_ok assms have *: "unat (b64_c2u c) < 64" "tt_s_base64_u2c_table ! unat (b64_c2u c) = c"
    by (simp_all add: list_all_enumerate_iff table_lengths b64_c2u_def)
  then show "b64_c2u c < 64" "c = b64_sym (b64_c2u c)"
    by (simp_all add: word_less_nat_alt b64_sym_def)
qed

lemma c2u_valid_iff: "b64_c2u c \<noteq> B64_U_INVALID \<longleftrightarrow> c \<in> set tt_s_base64_u2c_table"
proof
  assume "b64_c2u c \<noteq> B64_U_INVALID"
  then show "c \<in> set tt_s_base64_u2c_table"
    using c2u_valid c2u_sym(2) by metis
next
  assume "c \<in> set tt_s_base64_u2c_table"
  then obtain n where n: "n < 64" "c = tt_s_base64_u2c_table ! n"
    by (auto simp: in_set_conv_nth table_lengths)
  then have c: "c = b64_sym (of_nat n)"
    by (simp add: b64_sym_def unat_of_nat take_bit_nat_eq_self)
  have "(of_nat n :: u8) < 64"
    using n(1) by (simp add: word_less_nat_alt unat_of_nat take_bit_nat_eq_self)
  with c2u_sym(1) [of "of_nat n"] c show "b64_c2u c \<noteq> B64_U_INVALID"
    by (auto simp: B64_U_INVALID_def)
qed

lemma alphabet_no_pad: "c \<in> set tt_s_base64_u2c_table \<Longrightarrow> c \<noteq> B64_C_PAD \<and> \<not> is_crlf c"
  by (auto simp: tt_s_base64_u2c_table_def B64_C_PAD_def is_crlf_def)

lemma pad_no_crlf [simp]: "\<not> is_crlf B64_C_PAD"
  by (simp add: B64_C_PAD_def is_crlf_def)

section \<open>Validation\<close>

fun valid_list :: "bv_state \<Rightarrow> u8 list \<Rightarrow> bool" where
  "valid_list st [] = True"
| "valid_list BV_PAD (c # cs) = ((c = B64_C_PAD \<or> is_crlf c) \<and> valid_list BV_END cs)"
| "valid_list BV_END (c # cs) = (is_crlf c \<and> valid_list BV_END cs)"
| "valid_list BV_INIT (c # cs) =
    (if is_crlf c then valid_list BV_INIT cs else if c = B64_C_PAD then valid_list BV_PAD cs
     else b64_c2u c \<noteq> B64_U_INVALID \<and> valid_list BV_INIT cs)"

lemma drop_take_step:
  fixes i len :: u32
  assumes "i < len" "unat len \<le> length data"
  shows "drop (unat i) (take (unat len) data) = data ! unat i # drop (unat (i + 1)) (take (unat len) data)"
proof -
  have lt: "unat i < unat len" using assms(1) by (simp add: word_less_nat_alt)
  then have "unat i < length (take (unat len) data)" using assms(2) by simp
  from Cons_nth_drop_Suc [OF this] unat_suc_u32 [OF lt] show ?thesis by (simp add: lt)
qed

lemma byte_at_ok: "i < len \<Longrightarrow> unat len \<le> length data \<Longrightarrow> byte_at data i = Inr (data ! unat i)"
  by (simp add: byte_at_def word_less_nat_alt)

lemma validate_loop_list:
  assumes "unat len \<le> length data"
  shows "validate_loop data len i st
    = Inr (if valid_list st (drop (unat i) (take (unat len) data)) then TT_SUCCESS else TT_FAIL)"
proof (induction "unat len - unat i" arbitrary: i st rule: less_induct)
  case less
  show ?case
  proof (cases "i < len")
    case True
    note step = byte_at_ok [OF True assms] drop_take_step [OF True assms] less [OF loop_step_u32 [OF True]]
    show ?thesis
      by (cases st) (simp_all add: validate_loop.simps [of data len i] True step)
  next
    case False
    then show ?thesis by (simp add: validate_loop.simps [of data len i] word_less_nat_alt)
  qed
qed

lemma valid_end_iff: "valid_list BV_END cs \<longleftrightarrow> (\<forall>c \<in> set cs. is_crlf c)"
  by (induction cs) auto

lemma crlf_no_pad: "\<forall>c \<in> set cs. is_crlf c \<Longrightarrow> takeWhile (\<lambda>c. c = B64_C_PAD) cs = [] \<and> dropWhile (\<lambda>c. c = B64_C_PAD) cs = cs"
  by (cases cs) auto

lemma valid_pad_iff:
  "valid_list BV_PAD cs \<longleftrightarrow> length (takeWhile (\<lambda>c. c = B64_C_PAD) cs) \<le> 1
     \<and> (\<forall>c \<in> set (dropWhile (\<lambda>c. c = B64_C_PAD) cs). is_crlf c)"
proof (cases cs)
  case (Cons d ds)
  show ?thesis
  proof (cases "d = B64_C_PAD")
    case True
    have "(\<forall>c \<in> set ds. is_crlf c) \<longleftrightarrow> takeWhile (\<lambda>c. c = B64_C_PAD) ds = []
        \<and> (\<forall>c \<in> set (dropWhile (\<lambda>c. c = B64_C_PAD) ds). is_crlf c)"
      using crlf_no_pad [of ds] by (cases ds) auto
    with Cons True show ?thesis by (simp add: valid_end_iff)
  next
    case False
    with Cons show ?thesis by (simp add: valid_end_iff)
  qed
qed simp

lemma valid_init_iff: "valid_list BV_INIT t \<longleftrightarrow> b64_shape t"
proof (induction t)
  case (Cons c t)
  show ?case
  proof (cases "c = B64_C_PAD")
    case True
    then show ?thesis by (simp add: b64_shape_def Let_def valid_pad_iff)
  next
    case False
    then have "b64_shape (c # t) \<longleftrightarrow> (is_crlf c \<or> c \<in> set tt_s_base64_u2c_table) \<and> b64_shape t"
      by (auto simp: b64_shape_def Let_def)
    with False Cons c2u_valid_iff [of c] show ?thesis by auto
  qed
qed (simp add: b64_shape_def)

lemma validate_spec:
  assumes "unat len \<le> length data"
  shows "b64_validate data len = Inr (if b64_shape (take (unat len) data) then TT_SUCCESS else TT_FAIL)"
  using validate_loop_list [OF assms, of 0 BV_INIT] by (simp add: b64_validate_def valid_init_iff)

section \<open>Decoding\<close>

text \<open>The value of one character and the new number of paddings.\<close>

definition b64_digit :: "u8 \<Rightarrow> u32 \<Rightarrow> (u8 \<times> u32) run" where
  "b64_digit c pad_num = (if c \<noteq> B64_C_PAD
     then bindr (TT_ASSERT (b64_c2u c \<noteq> B64_U_INVALID)) (\<lambda>_. Inr (b64_c2u c, pad_num))
     else Inr (0, pad_num + 1))"

text \<open>The decoding loop on the list of characters without the line breaks.\<close>

fun decode_list :: "u32 \<Rightarrow> u8 list \<Rightarrow> u32 \<Rightarrow> u32 \<Rightarrow> u32 \<Rightarrow> u32 \<Rightarrow> u8 list option \<Rightarrow> (tt_result \<times> u8 list option \<times> u32) run" where
  "decode_list cap [] n val pad idx dst =
    (if n \<noteq> 0 then Inr (TT_FAIL, dst, cap) else Inr (TT_SUCCESS, dst, idx))"
| "decode_list cap (c # cs) n val pad idx dst =
    bindr (b64_digit c pad) (\<lambda>(v, pad).
    let val = push_bit 6 val OR ucast v; n = n + 1 in
    if n = 4 then
      bindr (TT_ASSERT (pad \<le> 2)) (\<lambda>_.
      let vs = b64_group pad val in
      bindr (b64_emit cap dst idx vs) (\<lambda>(r, dst).
      if \<not> TT_OK r then Inr (TT_FAIL, dst, cap)
      else decode_list cap cs 0 0 pad (idx + of_nat (length vs)) dst))
    else decode_list cap cs n val pad idx dst)"

definition no_crlf :: "u8 list \<Rightarrow> u8 list" where
  "no_crlf = filter (\<lambda>c. \<not> is_crlf c)"

lemma decode_loop_list:
  assumes "unat len \<le> length data"
  shows "decode_loop data len i n val pad idx dst cap
    = decode_list cap (no_crlf (drop (unat i) (take (unat len) data))) n val pad idx dst"
proof (induction "unat len - unat i" arbitrary: i n val pad idx dst rule: less_induct)
  case less
  show ?case
  proof (cases "i < len")
    case True
    note step = byte_at_ok [OF True assms] drop_take_step [OF True assms] less [OF loop_step_u32 [OF True]]
    show ?thesis
      by (simp add: decode_loop.simps [of data len i] True step no_crlf_def b64_digit_def cong: if_cong)
  next
    case False
    then show ?thesis by (simp add: decode_loop.simps [of data len i] word_less_nat_alt no_crlf_def)
  qed
qed

text \<open>What a run on the rest of the text comes to when it holds the bytes \<open>vs\<close>.\<close>

definition decoded_to :: "u32 \<Rightarrow> u8 list option \<Rightarrow> u32 \<Rightarrow> u8 list \<Rightarrow> (tt_result \<times> u8 list option \<times> u32) run \<Rightarrow> bool" where
  "decoded_to cap dst idx vs r = (case dst of
      None \<Rightarrow> r = Inr (TT_SUCCESS, None, idx + of_nat (length vs))
    | Some buf \<Rightarrow>
        if unat idx + length vs \<le> unat cap
        then r = Inr (TT_SUCCESS, Some (overwrite (unat idx) vs buf), idx + of_nat (length vs))
        else (\<exists>buf'. length buf' = length buf \<and> r = Inr (TT_FAIL, Some buf', cap)))"

definition dst_ok :: "u32 \<Rightarrow> u32 \<Rightarrow> u8 list option \<Rightarrow> bool" where
  "dst_ok cap idx dst \<longleftrightarrow> (case dst of None \<Rightarrow> True | Some buf \<Rightarrow> idx \<le> cap \<and> unat cap \<le> length buf)"

lemma put_bytes_ok:
  assumes "unat idx + length vs \<le> length buf" "unat idx + length vs < 4294967296"
  shows "put_bytes buf idx vs = Inr (overwrite (unat idx) vs buf)"
  using assms
proof (induction vs arbitrary: buf idx)
  case (Cons v vs)
  have suc: "vs \<noteq> [] \<Longrightarrow> unat (idx + 1) = Suc (unat idx)"
    using Cons.prems(2) unat_add_u32 [of idx 1] by (cases vs) simp_all
  show ?case
  proof (cases vs)
    case Nil
    then show ?thesis using Cons.prems by (simp add: overwrite_single)
  next
    case (Cons w ws)
    then have "unat (idx + 1) = Suc (unat idx)" using suc by simp
    with Cons.IH [of "idx + 1" "buf[unat idx := v]"] Cons.prems
    have "put_bytes buf idx (v # vs) = Inr (overwrite (Suc (unat idx)) vs (buf[unat idx := v]))"
      by simp
    also have "overwrite (Suc (unat idx)) vs (buf[unat idx := v]) = overwrite (unat idx) (v # vs) buf"
      using Cons.prems by (simp add: overwrite_def take_Suc_conv_app_nth drop_update_cancel)
    finally show ?thesis .
  qed
qed simp

lemma overwrite_append:
  "i + length vs + length ws \<le> length xs \<Longrightarrow> overwrite (i + length vs) ws (overwrite i vs xs) = overwrite i (vs @ ws) xs"
  by (simp add: overwrite_def add_ac)

lemma emit_then:
  assumes ok: "dst_ok cap idx dst" and lt: "unat idx + length vs + length ws < 4294967296"
    and rest: "\<And>dst'. dst_ok cap (idx + of_nat (length vs)) dst' \<Longrightarrow> decoded_to cap dst' (idx + of_nat (length vs)) ws
      (k dst')"
  shows "decoded_to cap dst idx (vs @ ws)
    (bindr (b64_emit cap dst idx vs) (\<lambda>(r, dst). if \<not> TT_OK r then Inr (TT_FAIL, dst, cap) else k dst))"
proof -
  have un: "unat (of_nat (length vs) :: u32) = length vs"
    using lt by (simp add: unat_of_nat take_bit_nat_eq_self)
  then have ui: "unat (idx + of_nat (length vs)) = unat idx + length vs"
    using lt by (subst unat_add_u32) simp_all
  show ?thesis
  proof (cases dst)
    case None
    with rest [of None] show ?thesis
      by (simp add: decoded_to_def b64_emit_def dst_ok_def add.assoc)
  next
    case (Some buf)
    show ?thesis
    proof (cases "unat idx + length vs \<le> unat cap")
      case True
      then have put: "put_bytes buf idx vs = Inr (overwrite (unat idx) vs buf)"
        using ok Some lt by (intro put_bytes_ok) (auto simp: dst_ok_def)
      have nle: "\<not> idx + of_nat (length vs) > cap" using True ui by (simp add: word_less_nat_alt)
      have len: "unat idx + length vs \<le> length buf" using True ok Some by (simp add: dst_ok_def)
      have "decoded_to cap (Some (overwrite (unat idx) vs buf)) (idx + of_nat (length vs)) ws
          (k (Some (overwrite (unat idx) vs buf)))"
        using ok Some len nle by (intro rest) (simp add: dst_ok_def)
      then show ?thesis
        using Some put nle ui len ok
        by (auto simp: decoded_to_def b64_emit_def dst_ok_def add.assoc overwrite_append
            split: if_splits)
    next
      case False
      then have "idx + of_nat (length vs) > cap" using ui by (simp add: word_less_nat_alt)
      with False Some show ?thesis by (auto simp: decoded_to_def b64_emit_def)
    qed
  qed
qed

definition b64_val :: "u8 \<Rightarrow> u8" where
  "b64_val c = (if c = B64_C_PAD then 0 else b64_c2u c)"

definition b64_quad :: "u8 \<Rightarrow> u8 \<Rightarrow> u8 \<Rightarrow> u8 \<Rightarrow> u32" where
  "b64_quad c1 c2 c3 c4 = push_bit 6 (push_bit 6 (push_bit 6 (ucast (b64_val c1)) OR ucast (b64_val c2))
     OR ucast (b64_val c3)) OR ucast (b64_val c4)"

definition b64_char :: "u8 \<Rightarrow> bool" where
  "b64_char c \<longleftrightarrow> c = B64_C_PAD \<or> c \<in> set tt_s_base64_u2c_table"

definition b64_pad :: "u8 \<Rightarrow> u32" where
  "b64_pad c = (if c = B64_C_PAD then 1 else 0)"

lemma digit_ok: "b64_char c \<Longrightarrow> b64_digit c pad = Inr (b64_val c, pad + b64_pad c)"
  using c2u_valid_iff [of c] by (auto simp: b64_digit_def b64_val_def b64_char_def b64_pad_def)

lemma decode_list_digit:
  "b64_char c \<Longrightarrow> n + 1 \<noteq> 4 \<Longrightarrow> decode_list cap (c # cs) n val pad idx dst
    = decode_list cap cs (n + 1) (push_bit 6 val OR ucast (b64_val c)) (pad + b64_pad c) idx dst"
  by (simp add: digit_ok Let_def)

lemma decode_list_fourth:
  "b64_char c \<Longrightarrow> decode_list cap (c # cs) 3 val pad idx dst =
    bindr (TT_ASSERT (pad + b64_pad c \<le> 2)) (\<lambda>_.
    bindr (b64_emit cap dst idx (b64_group (pad + b64_pad c) (push_bit 6 val OR ucast (b64_val c)))) (\<lambda>(r, dst).
      if \<not> TT_OK r then Inr (TT_FAIL, dst, cap)
      else decode_list cap cs 0 0 (pad + b64_pad c)
             (idx + of_nat (length (b64_group (pad + b64_pad c) (push_bit 6 val OR ucast (b64_val c))))) dst))"
  by (simp add: digit_ok Let_def)

lemma decode_list_quad:
  assumes "b64_char c1" "b64_char c2" "b64_char c3" "b64_char c4"
    and p: "p = b64_pad c1 + b64_pad c2 + b64_pad c3 + b64_pad c4"
  shows "decode_list cap (c1 # c2 # c3 # c4 # cs) 0 0 0 idx dst =
    bindr (TT_ASSERT (p \<le> 2)) (\<lambda>_.
    bindr (b64_emit cap dst idx (b64_group p (b64_quad c1 c2 c3 c4))) (\<lambda>(r, dst).
      if \<not> TT_OK r then Inr (TT_FAIL, dst, cap)
      else decode_list cap cs 0 0 p (idx + of_nat (length (b64_group p (b64_quad c1 c2 c3 c4)))) dst))"
proof -
  have n: "(0 :: u32) + 1 = 1" "(1 :: u32) + 1 = 2" "(2 :: u32) + 1 = 3" by simp_all
  have ne: "(0 :: u32) + 1 \<noteq> 4" "(1 :: u32) + 1 \<noteq> 4" "(2 :: u32) + 1 \<noteq> 4" by simp_all
  note step = decode_list_digit [OF assms(1) ne(1), unfolded n] decode_list_digit [OF assms(2) ne(2), unfolded n]
    decode_list_digit [OF assms(3) ne(3), unfolded n]
  show ?thesis
    by (simp only: step decode_list_fourth [OF assms(4)] b64_quad_def p push_bit_of_0 or.left_neutral add_0_left)
qed

lemma length_group: "length (b64_group pad v) = (if pad = 0 then 3 else if pad = 1 then 2 else 1)"
  by (simp add: b64_group_def)

text \<open>
  An accepted text, without its line breaks: whole groups, with paddings at its end only. The bytes it
  holds are those of its groups.
\<close>

fun b64_dec :: "u8 list \<Rightarrow> u8 list" where
  "b64_dec (c1 # c2 # c3 # c4 # cs) =
    b64_group (b64_pad c1 + b64_pad c2 + b64_pad c3 + b64_pad c4) (b64_quad c1 c2 c3 c4) @ b64_dec cs"
| "b64_dec _ = []"

lemma decode_group:
  assumes ok: "dst_ok cap idx dst" and c: "b64_char c1" "b64_char c2" "b64_char c3" "b64_char c4"
    and p: "p = b64_pad c1 + b64_pad c2 + b64_pad c3 + b64_pad c4" "p \<le> 2"
    and lt: "unat idx + length (b64_group p (b64_quad c1 c2 c3 c4)) + length ws < 4294967296"
    and rest: "\<And>dst'. dst_ok cap (idx + of_nat (length (b64_group p (b64_quad c1 c2 c3 c4)))) dst' \<Longrightarrow>
      decoded_to cap dst' (idx + of_nat (length (b64_group p (b64_quad c1 c2 c3 c4)))) ws
        (decode_list cap cs 0 0 p (idx + of_nat (length (b64_group p (b64_quad c1 c2 c3 c4)))) dst')"
  shows "decoded_to cap dst idx (b64_group p (b64_quad c1 c2 c3 c4) @ ws)
    (decode_list cap (c1 # c2 # c3 # c4 # cs) 0 0 0 idx dst)"
  using emit_then [OF ok lt rest] decode_list_quad [OF c p(1)] p(2) by simp

lemma decoded_nothing: "dst_ok cap idx dst \<Longrightarrow> decoded_to cap dst idx [] (decode_list cap [] 0 0 p idx dst)"
  by (auto simp: decoded_to_def dst_ok_def word_le_nat_alt split: option.splits)

text \<open>An accepted text: the groups before the last one have no padding.\<close>

definition b64_accepted :: "u8 list \<Rightarrow> bool" where
  "b64_accepted s \<longleftrightarrow> length s mod 4 = 0 \<and>
    (\<exists>body k. s = body @ replicate k B64_C_PAD \<and> k \<le> 2 \<and> set body \<subseteq> set tt_s_base64_u2c_table)"

lemma accepted_group:
  assumes "b64_accepted (c1 # c2 # c3 # c4 # cs)"
  shows "b64_char c1" "b64_char c2" "b64_char c3" "b64_char c4"
    and "b64_pad c1 + b64_pad c2 + b64_pad c3 + b64_pad c4 \<le> 2" "b64_accepted cs"
    and "cs \<noteq> [] \<Longrightarrow> b64_pad c1 + b64_pad c2 + b64_pad c3 + b64_pad c4 = 0"
proof -
  let ?A = "set tt_s_base64_u2c_table"
  obtain body k where s: "c1 # c2 # c3 # c4 # cs = body @ replicate k B64_C_PAD" and k: "k \<le> 2"
    and body: "set body \<subseteq> ?A" and len: "length cs mod 4 = 0"
    using assms by (auto simp: b64_accepted_def mod_Suc split: if_splits)
  have np: "b64_pad c = 0 \<and> b64_char c" if "c \<in> ?A" for c
    using alphabet_no_pad [OF that] that by (simp add: b64_pad_def b64_char_def)
  have two: "length body \<ge> 2"
    using arg_cong [OF s, of length] k by simp
  have c12: "c1 \<in> ?A" "c2 \<in> ?A"
    using s body two by (cases body; cases "tl body"; auto)+
  have all: "c3 \<in> ?A \<and> c4 \<in> ?A \<and> b64_accepted cs" if "cs \<noteq> []"
  proof -
    have "length cs \<ge> 4" using that len by (cases cs) (auto simp: mod_eq_0_iff_dvd dest: dvd_imp_le)
    then have four: "length body \<ge> 4" using arg_cong [OF s, of length] k by simp
    then obtain b1 b2 b3 b4 bs where b: "body = b1 # b2 # b3 # b4 # bs"
      by (auto simp: numeral_eq_Suc Suc_le_length_iff)
    with s body len k show ?thesis by (auto simp: b64_accepted_def)
  qed
  have last: "c3 \<in> ?A \<and> c4 \<in> ?A \<or> c3 \<in> ?A \<and> c4 = B64_C_PAD \<or> c3 = B64_C_PAD \<and> c4 = B64_C_PAD" if "cs = []"
  proof -
    obtain b1 b2 bs where b: "body = b1 # b2 # bs"
      using two by (auto simp: numeral_eq_Suc Suc_le_length_iff)
    have "[c3, c4] = bs @ replicate k B64_C_PAD" using s b that by simp
    then show ?thesis using body b
      by (cases bs; cases "tl bs"; cases k; cases "k - 1"; auto)
  qed
  show "b64_char c1" "b64_char c2" "b64_char c3" "b64_char c4" "b64_accepted cs"
    "b64_pad c1 + b64_pad c2 + b64_pad c3 + b64_pad c4 \<le> 2"
    using c12 all last np
    by (cases "cs = []"; auto simp: b64_accepted_def b64_pad_def b64_char_def)+
  show "cs \<noteq> [] \<Longrightarrow> b64_pad c1 + b64_pad c2 + b64_pad c3 + b64_pad c4 = 0"
    using c12 all np by auto
qed

lemma decode_accepted:
  assumes "b64_accepted s" "dst_ok cap idx dst" "unat idx + length (b64_dec s) < 4294967296"
  shows "decoded_to cap dst idx (b64_dec s) (decode_list cap s 0 0 0 idx dst)"
  using assms
proof (induction s arbitrary: idx dst rule: b64_dec.induct)
  case (1 c1 c2 c3 c4 cs)
  let ?p = "b64_pad c1 + b64_pad c2 + b64_pad c3 + b64_pad c4"
  let ?vs = "b64_group ?p (b64_quad c1 c2 c3 c4)"
  note g = accepted_group [OF "1.prems"(1)]
  have lt: "unat idx + length ?vs + length (b64_dec cs) < 4294967296" using "1.prems"(3) by simp
  have un: "unat (of_nat (length ?vs) :: u32) = length ?vs"
    using lt by (simp add: unat_of_nat take_bit_nat_eq_self)
  have ui: "unat (idx + of_nat (length ?vs)) = unat idx + length ?vs"
    using lt un by (subst unat_add_u32) simp_all
  have "decoded_to cap dst' (idx + of_nat (length ?vs)) (b64_dec cs)
      (decode_list cap cs 0 0 ?p (idx + of_nat (length ?vs)) dst')"
    if "dst_ok cap (idx + of_nat (length ?vs)) dst'" for dst'
  proof (cases "cs = []")
    case True
    with that decoded_nothing show ?thesis by simp
  next
    case False
    then have "?p = 0" by (rule g(7))
    with "1.IH" [OF g(6) that] lt ui show ?thesis by simp
  qed
  from decode_group [OF "1.prems"(2) g(1-4) refl g(5) lt this] show ?case by simp
qed (auto simp: b64_accepted_def decoded_nothing [simplified])

lemma emit_cases:
  assumes "dst_ok cap idx dst" "unat idx + length vs < 4294967296"
  obtains (full) "b64_emit cap dst idx vs = Inr (TT_FAIL, dst)"
  | (put) dst' where "b64_emit cap dst idx vs = Inr (TT_SUCCESS, dst')" "dst_ok cap (idx + of_nat (length vs)) dst'"
      "map_option length dst' = map_option length dst"
proof (cases dst)
  case None
  then show thesis using put [of None] by (simp add: b64_emit_def dst_ok_def)
next
  case (Some buf)
  have un: "unat (idx + of_nat (length vs)) = unat idx + length vs"
    using assms(2) by (subst unat_add_u32) (simp_all add: unat_of_nat take_bit_nat_eq_self)
  show thesis
  proof (cases "idx + of_nat (length vs) > cap")
    case True
    then show thesis using full Some by (simp add: b64_emit_def)
  next
    case False
    then have le: "unat idx + length vs \<le> length buf" "unat idx + length vs \<le> unat cap"
      using assms(1) Some un by (auto simp: dst_ok_def word_le_nat_alt not_less)
    then have "b64_emit cap dst idx vs = Inr (TT_SUCCESS, Some (overwrite (unat idx) vs buf))"
      using False Some put_bytes_ok [OF le(1) assms(2)] by (simp add: b64_emit_def)
    then show thesis
      using False assms(1) Some le by (intro put [of "Some (overwrite (unat idx) vs buf)"]) (auto simp: dst_ok_def)
  qed
qed

lemma decode_refused:
  assumes "\<forall>c \<in> set s. b64_char c" "unat pad + count_list s B64_C_PAD \<le> 2" "unat n < 4"
    "(unat n + length s) mod 4 \<noteq> 0" "dst_ok cap idx dst" "unat idx + unat n + length s < 4294967296"
  shows "\<exists>dst'. decode_list cap s n val pad idx dst = Inr (TT_FAIL, dst', cap)
    \<and> map_option length dst' = map_option length dst"
  using assms
proof (induction s arbitrary: n val pad idx dst)
  case Nil
  then show ?case by (auto simp: unat_eq_zero)
next
  case (Cons c s)
  have c: "b64_char c" using Cons.prems(1) by simp
  have up: "unat (pad + b64_pad c) + count_list s B64_C_PAD \<le> 2"
    using Cons.prems(2) unat_add_u32 [of pad 1] by (auto simp: b64_pad_def split: if_splits)
  show ?case
  proof (cases "n = 3")
    case False
    then have n: "unat n < 3" using Cons.prems(3) by (simp add: word_unat_eq_iff)
    then have un: "unat (n + 1) = Suc (unat n)" by (subst unat_add_u32) simp_all
    then have "n + 1 \<noteq> 4" using n by (auto simp: word_unat_eq_iff)
    then have "decode_list cap (c # s) n val pad idx dst
        = decode_list cap s (n + 1) (push_bit 6 val OR ucast (b64_val c)) (pad + b64_pad c) idx dst"
      by (rule decode_list_digit [OF c])
    moreover have "\<exists>dst'. decode_list cap s (n + 1) (push_bit 6 val OR ucast (b64_val c)) (pad + b64_pad c) idx dst
        = Inr (TT_FAIL, dst', cap) \<and> map_option length dst' = map_option length dst"
      using Cons.prems n un up by (intro Cons.IH) auto
    ultimately show ?thesis by metis
  next
    case True
    define vs where "vs = b64_group (pad + b64_pad c) (push_bit 6 val OR ucast (b64_val c))"
    have vs: "length vs \<le> 3" by (simp add: vs_def length_group)
    have "pad + b64_pad c \<le> 2" using up by (simp add: word_le_nat_alt)
    then have step: "decode_list cap (c # s) n val pad idx dst =
        bindr (b64_emit cap dst idx vs) (\<lambda>(r, dst). if \<not> TT_OK r then Inr (TT_FAIL, dst, cap)
          else decode_list cap s 0 0 (pad + b64_pad c) (idx + of_nat (length vs)) dst)"
      unfolding True decode_list_fourth [OF c] vs_def by simp
    have lt: "unat idx + length vs < 4294967296" using Cons.prems(6) True vs by simp
    have un: "unat (idx + of_nat (length vs)) = unat idx + length vs"
      using lt by (subst unat_add_u32) (simp_all add: unat_of_nat take_bit_nat_eq_self)
    from Cons.prems(5) lt show ?thesis
    proof (cases rule: emit_cases)
      case full
      with step show ?thesis by simp
    next
      case (put dst')
      have "\<exists>dst''. decode_list cap s 0 0 (pad + b64_pad c) (idx + of_nat (length vs)) dst'
          = Inr (TT_FAIL, dst'', cap) \<and> map_option length dst'' = map_option length dst'"
      proof (rule Cons.IH)
        show "\<forall>c \<in> set s. b64_char c" "unat (pad + b64_pad c) + count_list s B64_C_PAD \<le> 2"
          using Cons.prems(1) up by auto
        show "(unat (0 :: u32) + length s) mod 4 \<noteq> 0" using Cons.prems(4) True by (simp add: mod_Suc)
        show "unat (idx + of_nat (length vs)) + unat (0 :: u32) + length s < 4294967296"
          using Cons.prems(6) True vs un by simp
      qed (use put in auto)
      with step put show ?thesis by (auto simp del: decode_list.simps)
    qed
  qed
qed

section \<open>Accepted texts\<close>

lemma shape_chars:
  assumes "b64_shape t"
  obtains body k where "no_crlf t = body @ replicate k B64_C_PAD" "k \<le> 2" "set body \<subseteq> set tt_s_base64_u2c_table"
proof -
  define a where "a = takeWhile (\<lambda>c. c \<noteq> B64_C_PAD) t"
  define rest where "rest = dropWhile (\<lambda>c. c \<noteq> B64_C_PAD) t"
  define p where "p = takeWhile (\<lambda>c. c = B64_C_PAD) rest"
  define q where "q = dropWhile (\<lambda>c. c = B64_C_PAD) rest"
  have t: "t = a @ p @ q" by (simp add: a_def p_def q_def rest_def)
  have sh: "\<forall>c \<in> set a. is_crlf c \<or> c \<in> set tt_s_base64_u2c_table" "length p \<le> 2" "\<forall>c \<in> set q. is_crlf c"
    using assms by (simp_all add: b64_shape_def a_def p_def q_def rest_def Let_def)
  have "p = replicate (length p) B64_C_PAD"
    by (rule replicate_eqI) (auto simp: p_def dest: set_takeWhileD)
  moreover have "no_crlf p = p"
    unfolding no_crlf_def by (rule filter_True) (auto simp: p_def dest: set_takeWhileD)
  moreover have "no_crlf q = []" using sh(3) by (simp add: no_crlf_def filter_empty_conv)
  ultimately have "no_crlf t = no_crlf a @ replicate (length p) B64_C_PAD"
    by (simp add: t no_crlf_def)
  with sh(1,2) show thesis
    by (intro that [of "no_crlf a" "length p"]) (auto simp: no_crlf_def)
qed

lemma shape_accepted: "b64_shape t \<Longrightarrow> length (no_crlf t) mod 4 = 0 \<Longrightarrow> b64_accepted (no_crlf t)"
  by (rule shape_chars) (auto simp: b64_accepted_def)

lemma shape_refused:
  assumes "b64_shape t"
  shows "\<forall>c \<in> set (no_crlf t). b64_char c" "count_list (no_crlf t) B64_C_PAD \<le> 2"
proof -
  obtain body k where t: "no_crlf t = body @ replicate k B64_C_PAD" "k \<le> 2" "set body \<subseteq> set tt_s_base64_u2c_table"
    using assms by (rule shape_chars)
  have "count_list body B64_C_PAD = 0"
    using t(3) alphabet_no_pad by (auto simp: count_list_0_iff)
  moreover have "count_list (replicate k B64_C_PAD) B64_C_PAD = k" by (induction k) auto
  ultimately show "count_list (no_crlf t) B64_C_PAD \<le> 2" using t by simp
  show "\<forall>c \<in> set (no_crlf t). b64_char c" using t by (auto simp: b64_char_def)
qed

section \<open>Encoded texts\<close>

lemma sym_val:
  assumes "v < 64"
  shows "b64_val (b64_sym v) = v" "b64_pad (b64_sym v) = 0" "\<not> is_crlf (b64_sym v)"
  using c2u_sym [OF assms] alphabet_no_pad [of "b64_sym v"] by (auto simp: b64_val_def b64_pad_def)

lemma pad_val: "b64_val B64_C_PAD = 0" "b64_pad B64_C_PAD = 1"
  by (simp_all add: b64_val_def b64_pad_def)

lemma masks: "(63 :: u8) = mask 6" "(3 :: u8) = mask 2" "(15 :: u8) = mask 4" "(0xFF :: u32) = mask 8"
  by (simp_all add: mask_eq_exp_minus_1)

lemma less_64: "(v :: u8) = take_bit 6 v \<Longrightarrow> v < 64"
proof -
  assume v: "v = take_bit 6 v"
  have "unat (take_bit 6 v) < 2 ^ 6"
    by (simp only: unsigned_take_bit_eq take_bit_nat_less_exp)
  with v show "v < 64" by (simp add: word_less_nat_alt)
qed

lemma sextets:
  fixes a b c :: u8
  shows "drop_bit 2 a < 64" "push_bit 4 (a AND 3) < 64" "push_bit 4 (a AND 3) OR drop_bit 4 b < 64"
    "push_bit 2 (b AND 15) < 64" "push_bit 2 (b AND 15) OR drop_bit 6 c < 64" "c AND 63 < 64"
  unfolding masks
  by (rule less_64, rule bit_word_eqI, auto simp: bit_simps dest: bit_imp_le_length)+

lemma u8_eqI:
  fixes x y :: u8
  assumes "bit x 0 = bit y 0" "bit x 1 = bit y 1" "bit x 2 = bit y 2" "bit x 3 = bit y 3"
    "bit x 4 = bit y 4" "bit x 5 = bit y 5" "bit x 6 = bit y 6" "bit x 7 = bit y 7"
  shows "x = y"
proof (rule bit_word_eqI)
  fix n
  assume "n < LENGTH(8)"
  then have "n = 0 \<or> n = 1 \<or> n = 2 \<or> n = 3 \<or> n = 4 \<or> n = 5 \<or> n = 6 \<or> n = 7" by auto
  with assms show "bit x n = bit y n" by (elim disjE) simp_all
qed

lemma u8_bit_high: "8 \<le> n \<Longrightarrow> \<not> bit (x :: u8) n"
  by (auto dest: bit_imp_le_length)

text \<open>The 24 bits of four sextets, most significant first.\<close>

definition sextet_word :: "u8 \<Rightarrow> u8 \<Rightarrow> u8 \<Rightarrow> u8 \<Rightarrow> u32" where
  "sextet_word v1 v2 v3 v4 = push_bit 6 (push_bit 6 (push_bit 6 (ucast v1) OR ucast v2) OR ucast v3) OR ucast v4"

lemma three_bytes:
  fixes a b c :: u8
  defines "v \<equiv> sextet_word (drop_bit 2 a) (push_bit 4 (a AND 3) OR drop_bit 4 b) (push_bit 2 (b AND 15) OR drop_bit 6 c) (c AND 63)"
  shows "ucast (drop_bit 16 v AND 0xFF) = a" "ucast (drop_bit 8 v AND 0xFF) = b" "ucast (v AND 0xFF) = c"
  unfolding masks v_def sextet_word_def
  by (rule u8_eqI; simp add: bit_simps u8_bit_high)+

lemma two_bytes:
  fixes a b :: u8
  defines "v \<equiv> sextet_word (drop_bit 2 a) (push_bit 4 (a AND 3) OR drop_bit 4 b) (push_bit 2 (b AND 15)) 0"
  shows "ucast (drop_bit 16 v AND 0xFF) = a" "ucast (drop_bit 8 v AND 0xFF) = b"
  unfolding masks v_def sextet_word_def
  by (rule u8_eqI; simp add: bit_simps u8_bit_high)+

lemma one_byte:
  fixes a :: u8
  shows "ucast (drop_bit 16 (sextet_word (drop_bit 2 a) (push_bit 4 (a AND 3)) 0 0) AND 0xFF) = a"
  unfolding masks sextet_word_def
  by (rule u8_eqI; simp add: bit_simps u8_bit_high)

lemma quad_sextets: "b64_quad c1 c2 c3 c4 = sextet_word (b64_val c1) (b64_val c2) (b64_val c3) (b64_val c4)"
  by (simp add: b64_quad_def sextet_word_def)

lemma pad_sums: "(0 :: u32) + 0 + 0 + 0 = 0" "(0 :: u32) + 0 + 0 + 1 = 1" "(0 :: u32) + 0 + 1 + 1 = 2"
  "(1 :: u32) \<noteq> 0" "(2 :: u32) \<noteq> 0" "(2 :: u32) \<noteq> 1"
  by simp_all

lemma dec_enc: "b64_dec (b64_enc bs) = bs"
  by (induction bs rule: b64_enc.induct)
    (simp_all only: b64_enc.simps b64_dec.simps quad_sextets sym_val pad_val sextets pad_sums b64_group_def
      one_byte two_bytes three_bytes if_True if_False refl append.simps simp_thms)

lemma length_enc: "length (b64_enc bs) mod 4 = 0"
  by (induction bs rule: b64_enc.induct) (simp_all add: mod_Suc)

lemma length_enc_ge: "length bs \<le> length (b64_enc bs)"
  by (induction bs rule: b64_enc.induct) simp_all

lemma length_dec: "b64_accepted s \<Longrightarrow> length (b64_dec s) + count_list s B64_C_PAD = 3 * (length s div 4)"
proof (induction s rule: b64_dec.induct)
  case (1 c1 c2 c3 c4 cs)
  let ?p = "b64_pad c1 + b64_pad c2 + b64_pad c3 + b64_pad c4"
  note g = accepted_group [OF "1.prems"]
  have "length (b64_group ?p q) + count_list [c1, c2, c3, c4] B64_C_PAD = 3" for q
    using g(5) by (auto simp: length_group b64_pad_def split: if_splits)
  then have "length (b64_group ?p (b64_quad c1 c2 c3 c4)) + count_list [c1, c2, c3, c4] B64_C_PAD = 3" .
  moreover have "count_list (c1 # c2 # c3 # c4 # cs) B64_C_PAD = count_list [c1, c2, c3, c4] B64_C_PAD + count_list cs B64_C_PAD"
    by simp
  ultimately have "length (b64_dec (c1 # c2 # c3 # c4 # cs)) + count_list (c1 # c2 # c3 # c4 # cs) B64_C_PAD
      = 3 + (length (b64_dec cs) + count_list cs B64_C_PAD)"
    by (simp only: b64_dec.simps length_append)
  moreover have "length (c1 # c2 # c3 # c4 # cs) div 4 = Suc (length cs div 4)" by simp
  ultimately show ?case using "1.IH" [OF g(6)] by (simp only: mult_Suc_right)
qed (auto simp: b64_accepted_def)

section \<open>Calls of the decoder\<close>

lemma decode_loop_start:
  "unat len \<le> length data \<Longrightarrow> b64_decode data len dst cap
    = decode_list cap (no_crlf (take (unat len) data)) 0 0 0 0 dst"
  by (simp add: b64_decode_def decode_loop_list)

lemma length_no_crlf: "length (no_crlf t) \<le> length t"
  by (simp add: no_crlf_def)

lemma decode_call:
  assumes "unat len \<le> length data" "len \<noteq> 0" "dst_ok cap 0 dst" "dst = None \<or> cap \<noteq> 0"
  shows "tt_base64_decode (Some data) len None dst (Some cap) =
    (if b64_shape (take (unat len) data)
     then decode_list cap (no_crlf (take (unat len) data)) 0 0 0 0 dst else Inr (TT_FAIL, dst, cap))"
  using assms by (auto simp: tt_base64_decode_def tt_base64_decode_attr_default_def validate_spec decode_loop_start)

lemma decode_ok:
  assumes "unat len \<le> length data" "len \<noteq> 0" "dst_ok cap 0 dst" "dst = None \<or> cap \<noteq> 0"
    "b64_shape (take (unat len) data)" "length (no_crlf (take (unat len) data)) mod 4 = 0"
  shows "decoded_to cap dst 0 (b64_dec (no_crlf (take (unat len) data))) (tt_base64_decode (Some data) len None dst (Some cap))"
proof -
  let ?s = "no_crlf (take (unat len) data)"
  have acc: "b64_accepted ?s" using assms(5,6) by (rule shape_accepted)
  have "length (b64_dec ?s) \<le> 3 * (length ?s div 4)" using length_dec [OF acc] by simp
  also have "\<dots> \<le> length ?s" by simp
  also have "\<dots> \<le> unat len" using length_no_crlf [of "take (unat len) data"] by simp
  finally have "unat (0 :: u32) + length (b64_dec ?s) < 4294967296" using unat_lt_32 [of len] by simp
  from decode_accepted [OF acc assms(3) this] decode_call [OF assms(1-4)] assms(5) show ?thesis by simp
qed

lemma decode_fail:
  assumes "unat len \<le> length data" "len \<noteq> 0" "dst_ok cap 0 dst" "dst = None \<or> cap \<noteq> 0"
    "\<not> (b64_shape (take (unat len) data) \<and> length (no_crlf (take (unat len) data)) mod 4 = 0)"
  shows "\<exists>dst'. tt_base64_decode (Some data) len None dst (Some cap) = Inr (TT_FAIL, dst', cap)
    \<and> map_option length dst' = map_option length dst"
proof (cases "b64_shape (take (unat len) data)")
  case True
  let ?s = "no_crlf (take (unat len) data)"
  have "length ?s \<le> unat len" using length_no_crlf [of "take (unat len) data"] by simp
  then have "unat (0 :: u32) + unat (0 :: u32) + length ?s < 4294967296" using unat_lt_32 [of len] by simp
  then have "\<exists>dst'. decode_list cap ?s 0 0 0 0 dst = Inr (TT_FAIL, dst', cap)
      \<and> map_option length dst' = map_option length dst"
    using assms(3,5) True shape_refused [OF True] by (intro decode_refused) auto
  with decode_call [OF assms(1-4)] True show ?thesis by simp
qed (use decode_call [OF assms(1-4)] in auto)

lemma first_match_at:
  assumes "take (length needle) (drop p hay) = needle" "\<forall>j < p. take (length needle) (drop j hay) \<noteq> needle" "p \<le> length hay"
  shows "first_match needle hay = Some p"
  using assms
proof (induction p arbitrary: hay)
  case (Suc p)
  then obtain x hay' where hay: "hay = x # hay'" by (cases hay) auto
  have "first_match needle hay' = Some p"
    using Suc.prems hay by (intro Suc.IH) auto
  moreover have "take (length needle) hay \<noteq> needle" using Suc.prems(2) by force
  ultimately show ?case by (simp add: hay first_match.simps [of needle "x # hay'"])
next
  case 0
  then show ?case by (simp add: first_match.simps [of needle hay])
qed

text \<open>
  A block with the text between its boundaries, the first occurrence of each, up to a terminator.
\<close>

lemma rm_boundary:
  assumes data: "data = pre @ b @ t @ e @ post @ 0 # rest" "0 \<notin> set (pre @ b @ t @ e @ post)"
    and start: "\<forall>j < length pre. take (length b) (drop j (pre @ b @ t @ e @ post)) \<noteq> b" "length b < 4294967296"
    and stop: "\<forall>j < length t. take (length e) (drop j (t @ e @ post)) \<noteq> e"
  shows "b64_rm_boundary data n b e = Inr (TT_SUCCESS, t @ e @ post @ 0 # rest, of_nat (length t))"
proof -
  have str: "takeWhile (\<lambda>c. c \<noteq> 0) (xs @ 0 # rest) = xs" if "0 \<notin> set xs" for xs :: "u8 list"
    using that by (induction xs) auto
  have un: "unat (of_nat (length b) :: u32) = length b"
    using start(2) by (simp add: unat_of_nat take_bit_nat_eq_self)
  have "first_match b (pre @ b @ t @ e @ post) = Some (length pre)"
    using start by (intro first_match_at) auto
  then have 1: "tt_strstr data b = Inr (Some (length pre))"
    using str [of "pre @ b @ t @ e @ post"] data by (simp add: tt_strstr_def)
  have "first_match e (t @ e @ post) = Some (length t)"
    using stop by (intro first_match_at) auto
  then have 2: "tt_strstr (t @ e @ post @ 0 # rest) e = Inr (Some (length t))"
    using str [of "t @ e @ post"] data by (simp add: tt_strstr_def)
  show ?thesis using 1 2 un data(1) by (simp add: b64_rm_boundary_def)
qed

section \<open>Round trip and acceptance\<close>

text \<open>The allocating call on a text that holds the bytes \<open>bs\<close>.\<close>

lemma decode_alloc_ok:
  assumes len: "unat len \<le> length data" "len \<noteq> 0" "b64_shape (take (unat len) data)"
    "no_crlf (take (unat len) data) = b64_enc bs" and bs: "bs \<noteq> []"
  shows "tt_base64_decode_alloc junk (Some data) len None p0 l0 m =
    (let n = mem_next m; m' = m\<lparr>mem_next := Suc n\<rparr> in
     if mem_oracle m n
     then Inr (TT_SUCCESS, Some n, of_nat (length bs),
            m'\<lparr>mem_blocks := (mem_blocks m)(n \<mapsto> bs), mem_heap := insert n (mem_heap m)\<rparr>)
     else Inr (TT_FAIL, p0, l0, m'))"
proof -
  have lt: "length bs < 4294967296"
    using length_enc_ge [of bs] length_no_crlf [of "take (unat len) data"] unat_lt_32 [of len] len(4) by simp
  have un: "unat (of_nat (length bs) :: u32) = length bs"
    using lt by (simp add: unat_of_nat take_bit_nat_eq_self)
  then have nz: "(of_nat (length bs) :: u32) \<noteq> 0" using bs by (metis length_0_conv unat_0)
  have dec: "decoded_to cap dst 0 bs (tt_base64_decode (Some data) len None dst (Some cap))"
    if "dst_ok cap 0 dst" "dst = None \<or> cap \<noteq> 0" for cap dst
    using decode_ok [OF len(1,2) that len(3)] len(4) length_enc [of bs] by (simp add: dec_enc)
  have 1: "tt_base64_decode (Some data) len None None (Some junk) = Inr (TT_SUCCESS, None, of_nat (length bs))"
    using dec [of junk None] by (simp add: decoded_to_def dst_ok_def)
  have 2: "tt_base64_decode (Some data) len None (Some blk) (Some (of_nat (length bs)))
      = Inr (TT_SUCCESS, Some bs, of_nat (length bs))" if "length blk = length bs" for blk
    using dec [of "of_nat (length bs)" "Some blk"] that un nz by (simp add: decoded_to_def dst_ok_def overwrite_def)
  show ?thesis
    using 1 2 un nz bs
    by (simp add: tt_base64_decode_alloc_def tt_malloc_def mem_load_def mem_store_def Let_def overwrite_def)
qed

section \<open>The text that is decoded\<close>

text \<open>
  Without both boundaries the text is the first \<open>len\<close> bytes of the block; with them it is what stands in a terminated
  string between the first start boundary and the first end boundary behind it, whatever \<open>len\<close> is but 0.
\<close>

definition between :: "u8 list \<Rightarrow> u8 list \<Rightarrow> u8 list \<Rightarrow> u8 list \<Rightarrow> bool" where
  "between b e data t \<longleftrightarrow> length b < 2 ^ 32 \<and> length t < 2 ^ 32 \<and> (\<exists>pre post behind.
     data = pre @ b @ t @ e @ post @ 0 # behind \<and> 0 \<notin> set (pre @ b @ t @ e @ post)
     \<and> (\<forall>j < length pre. take (length b) (drop j (pre @ b @ t @ e @ post)) \<noteq> b)
     \<and> (\<forall>j < length t. take (length e) (drop j (t @ e @ post)) \<noteq> e))"

definition bounds_of :: "tt_base64_decode_attr option \<Rightarrow> (u8 list \<times> u8 list) option" where
  "bounds_of attr = (case attr of None \<Rightarrow> None | Some a \<Rightarrow>
     (case (start_boundary a, end_boundary a) of (Some b, Some e) \<Rightarrow> Some (b, e) | _ \<Rightarrow> None))"

definition b64_selects :: "tt_base64_decode_attr option \<Rightarrow> u8 list \<Rightarrow> u32 \<Rightarrow> u8 list \<Rightarrow> bool" where
  "b64_selects attr data len t \<longleftrightarrow> (case bounds_of attr of
     None \<Rightarrow> unat len \<le> length data \<and> t = take (unat len) data
   | Some (b, e) \<Rightarrow> len \<noteq> 0 \<and> between b e data t)"

lemma decode_bounds:
  "tt_base64_decode (Some data) len attr dst (Some cap) =
    (if len = 0 then Inr (TT_SUCCESS, dst, 0)
     else if dst \<noteq> None \<and> cap = 0 then Inr (TT_SUCCESS, dst, cap)
     else bindr (case bounds_of attr of Some (b, e) \<Rightarrow> b64_rm_boundary data len b e | None \<Rightarrow> Inr (TT_SUCCESS, data, len)) (\<lambda>(r, data, len).
       if \<not> TT_OK r then Inr (TT_FAIL, dst, cap) else if len = 0 then Inr (TT_SUCCESS, dst, 0)
       else bindr (b64_validate data len) (\<lambda>r. if \<not> TT_OK r then Inr (TT_FAIL, dst, cap) else b64_decode data len dst cap)))"
  by (cases attr) (auto simp: tt_base64_decode_def bounds_of_def tt_base64_decode_attr_default_def split: option.splits)

lemma bounds_of_None [simp]: "bounds_of None = None"
  by (simp add: bounds_of_def)

lemma selected:
  assumes sel: "b64_selects attr data len t"
  shows "length t < 2 ^ 32 \<and> (\<exists>x. \<forall>dst cap. tt_base64_decode (Some data) len attr dst (Some cap)
      = tt_base64_decode (Some (t @ x)) (of_nat (length t)) None dst (Some cap))"
proof (cases "bounds_of attr")
  case None
  then have t: "unat len \<le> length data" "t = take (unat len) data" using sel by (simp_all add: b64_selects_def)
  then have l: "length t = unat len" by simp
  have e: "t @ drop (unat len) data = data" "(of_nat (length t) :: u32) = len" using t(2) l by simp_all
  have "tt_base64_decode (Some data) len attr dst (Some cap)
      = tt_base64_decode (Some (t @ drop (unat len) data)) (of_nat (length t)) None dst (Some cap)" for dst cap
    unfolding e by (simp add: decode_bounds None)
  moreover have "length t < 2 ^ 32" using l unat_lt_32 [of len] by simp
  ultimately show ?thesis by blast
next
  case (Some be)
  obtain b e where be: "be = (b, e)" by (cases be)
  have s: "len \<noteq> 0" "between b e data t" using sel Some be by (simp_all add: b64_selects_def)
  then obtain pre post behind where d: "data = pre @ b @ t @ e @ post @ 0 # behind" "0 \<notin> set (pre @ b @ t @ e @ post)"
    "\<forall>j < length pre. take (length b) (drop j (pre @ b @ t @ e @ post)) \<noteq> b"
    "\<forall>j < length t. take (length e) (drop j (t @ e @ post)) \<noteq> e" and l: "length b < 2 ^ 32" "length t < 2 ^ 32"
    by (auto simp: between_def)
  have "b64_rm_boundary data len b e = Inr (TT_SUCCESS, t @ e @ post @ 0 # behind, of_nat (length t))"
    unfolding d(1) using d(2-4) l(1) by (intro rm_boundary) auto
  then have "tt_base64_decode (Some data) len attr dst (Some cap)
      = tt_base64_decode (Some (t @ e @ post @ 0 # behind)) (of_nat (length t)) None dst (Some cap)" for dst cap
    using s(1) Some be by (simp add: decode_bounds)
  then show ?thesis using l(2) by blast
qed

text \<open>No start boundary, or no end boundary behind the first one.\<close>

lemma first_match_Some: "first_match needle hay = Some p \<Longrightarrow> \<exists>post. hay = take p hay @ needle @ post \<and> p \<le> length hay"
proof (induction hay arbitrary: p)
  case Nil
  then show ?case by (auto simp: first_match.simps [of needle "[]"] split: if_splits)
next
  case (Cons x hay)
  show ?case
  proof (cases "take (length needle) (x # hay) = needle")
    case True
    then have "p = 0" using Cons.prems by (simp add: first_match.simps [of needle "x # hay"])
    then show ?thesis using True append_take_drop_id [of "length needle" "x # hay"] by (metis append_Nil le0 take_0)
  next
    case False
    then obtain q where q: "first_match needle hay = Some q" "p = Suc q"
      using Cons.prems by (auto simp: first_match.simps [of needle "x # hay"])
    then show ?thesis using Cons.IH [OF q(1)] by auto
  qed
qed

lemma rm_boundary_none:
  assumes z: "0 \<in> set data" and l: "length b < 2 ^ 32"
    and no: "\<And>pre t post. takeWhile (\<lambda>c. c \<noteq> 0) data \<noteq> pre @ b @ t @ e @ post"
  shows "b64_rm_boundary data len b e = Inr (TT_FAIL, data, len)"
proof (cases "first_match b (takeWhile (\<lambda>c. c \<noteq> 0) data)")
  case None
  then show ?thesis using z by (simp add: b64_rm_boundary_def tt_strstr_def)
next
  case (Some p)
  let ?hay = "takeWhile (\<lambda>c. c \<noteq> 0) data"
  obtain rest where r: "?hay = take p ?hay @ b @ rest" "p \<le> length ?hay" using first_match_Some [OF Some] by blast
  obtain behind where d: "data = ?hay @ 0 # behind"
    using z by (metis (mono_tags, lifting) dropWhile_eq_Cons_conv dropWhile_eq_Nil_conv list.exhaust takeWhile_dropWhile_id)
  have n: "p + length b = length (take p ?hay @ b)" using r(2) by simp
  have "data = (take p ?hay @ b) @ rest @ 0 # behind" using d r(1) by (metis append.assoc)
  then have dr: "drop (p + length b) data = rest @ 0 # behind" unfolding n by (metis append_eq_conv_conj)
  have "0 \<notin> set ?hay" by (auto dest: set_takeWhileD)
  then have "0 \<notin> set rest" using r(1) by (metis UnCI set_append)
  then have tw: "takeWhile (\<lambda>c. c \<noteq> 0) (rest @ 0 # behind) = rest" by (induction rest) auto
  have "first_match e rest = None"
  proof (rule ccontr)
    assume "first_match e rest \<noteq> None"
    then obtain q post where "rest = take q rest @ e @ post" using first_match_Some by blast
    then have "?hay = take p ?hay @ b @ take q rest @ e @ post" using r(1) by metis
    with no show False by blast
  qed
  moreover have "unat (of_nat (length b) :: u32) = length b" using l by (simp add: unat_of_nat take_bit_nat_eq_self)
  ultimately show ?thesis using z Some dr tw by (simp add: b64_rm_boundary_def tt_strstr_def)
qed

lemma accepts_plain:
  assumes "unat len \<le> length data" "len \<noteq> 0" "unat cap \<le> length buf"
  defines "t \<equiv> take (unat len) data"
  defines "need \<equiv> 3 * (length (no_crlf t) div 4) - count_list (no_crlf t) B64_C_PAD"
  defines "good \<equiv> b64_shape t \<and> length (no_crlf t) mod 4 = 0"
  shows "tt_base64_decode (Some data) len None None (Some l)
      = Inr (if good then (TT_SUCCESS, None, of_nat need) else (TT_FAIL, None, l))
    \<and> (\<exists>buf'. length buf' = length buf \<and> tt_base64_decode (Some data) len None (Some buf) (Some cap)
      = Inr (if cap = 0 then (TT_SUCCESS, Some buf, 0)
             else if good \<and> need \<le> unat cap then (TT_SUCCESS, Some buf', of_nat need)
             else (TT_FAIL, Some buf', cap)))"
proof -
  have need: "length (b64_dec (no_crlf t)) = need" if good
    using length_dec [OF shape_accepted, of t] that by (simp add: good_def need_def)
  have ok: "dst_ok l 0 None" "dst_ok cap 0 (Some buf)" using assms(3) by (simp_all add: dst_ok_def)
  note fine = decode_ok [OF assms(1,2), folded t_def] and bad = decode_fail [OF assms(1,2), folded t_def]
  have "tt_base64_decode (Some data) len None None (Some l)
      = Inr (if good then (TT_SUCCESS, None, of_nat need) else (TT_FAIL, None, l))"
    using fine [OF ok(1)] bad [OF ok(1)] need by (auto simp: good_def decoded_to_def)
  moreover have "tt_base64_decode (Some data) len None (Some buf) (Some 0) = Inr (TT_SUCCESS, Some buf, 0)"
    using assms(2) by (simp add: tt_base64_decode_def)
  moreover have "\<exists>buf'. length buf' = length buf \<and> tt_base64_decode (Some data) len None (Some buf) (Some cap)
      = Inr (if good \<and> need \<le> unat cap then (TT_SUCCESS, Some buf', of_nat need) else (TT_FAIL, Some buf', cap))"
    if "cap \<noteq> 0"
  proof (cases good)
    case True
    with fine [OF ok(2)] that have "decoded_to cap (Some buf) 0 (b64_dec (no_crlf t))
        (tt_base64_decode (Some data) len None (Some buf) (Some cap))" by (simp add: good_def)
    then show ?thesis
      using need [OF True] True assms(3)
      by (cases "need \<le> unat cap") (auto simp: decoded_to_def intro!: exI [of _ "overwrite 0 (b64_dec (no_crlf t)) buf"])
  next
    case False
    with bad [OF ok(2)] that have "\<exists>dst'. tt_base64_decode (Some data) len None (Some buf) (Some cap)
        = Inr (TT_FAIL, dst', cap) \<and> map_option length dst' = Some (length buf)"
      by (auto simp: good_def)
    with False show ?thesis by auto
  qed
  ultimately show ?thesis by (cases "cap = 0") auto
qed

section \<open>Properties\<close>

text \<open>
  C34. Decoding what RFC 4648 encodes gives it back. For any bytes, none included, and any text that is their
  encoding, broken into lines anywhere but between two paddings (which the decoder refuses), the decoder tells the
  right length when it is given no buffer, stores exactly the bytes at the front of any buffer that is large enough,
  and the allocating variant returns a new block that holds exactly the bytes, or fails when memory runs out and
  then allocates nothing; for no bytes it allocates nothing and returns \<^verbatim>\<open>NULL\<close>. All of this holds for a text given
  by its length, and for one that stands between two boundaries in a terminated string.
\<close>

theorem base64_round_trip:
  assumes sel: "b64_selects attr data len t" and enc: "b64_shape t" "no_crlf t = b64_enc bs"
  shows "tt_base64_decode (Some data) len attr None (Some l) = Inr (TT_SUCCESS, None, of_nat (length bs))
    \<and> (length bs \<le> unat cap \<and> unat cap \<le> length buf \<longrightarrow>
      tt_base64_decode (Some data) len attr (Some buf) (Some cap)
      = Inr (TT_SUCCESS, Some (overwrite 0 bs buf), of_nat (length bs)))
    \<and> tt_base64_decode_alloc junk (Some data) len attr p0 l0 m =
      (if bs = [] then Inr (TT_SUCCESS, None, 0, m) else
       let n = mem_next m; m' = m\<lparr>mem_next := Suc n\<rparr> in
       if mem_oracle m n
       then Inr (TT_SUCCESS, Some n, of_nat (length bs),
              m'\<lparr>mem_blocks := (mem_blocks m)(n \<mapsto> bs), mem_heap := insert n (mem_heap m)\<rparr>)
       else Inr (TT_FAIL, p0, l0, m'))"
proof -
  obtain x where x: "\<And>dst cap. tt_base64_decode (Some data) len attr dst (Some cap)
      = tt_base64_decode (Some (t @ x)) (of_nat (length t)) None dst (Some cap)" and lt: "length t < 2 ^ 32"
    using selected [OF sel] by blast
  let ?n = "of_nat (length t) :: u32"
  have un: "unat ?n = length t" using lt by (simp add: unat_of_nat take_bit_nat_eq_self)
  have alloc: "tt_base64_decode_alloc junk (Some data) len attr p0 l0 m = tt_base64_decode_alloc junk (Some (t @ x)) ?n None p0 l0 m"
    unfolding tt_base64_decode_alloc_def x ..
  have dec: "decoded_to cap dst 0 bs (tt_base64_decode (Some (t @ x)) ?n None dst (Some cap))"
    if "dst_ok cap 0 dst" "dst = None \<or> cap \<noteq> 0" "?n \<noteq> 0" for cap dst
    using decode_ok [of ?n "t @ x", OF _ that(3) that(1,2)] un enc(1,2) length_enc [of bs] by (simp add: dec_enc)
  show ?thesis
  proof (cases "bs = []")
    case True
    have q: "tt_base64_decode (Some (t @ x)) ?n None None (Some l) = Inr (TT_SUCCESS, None, 0)" for l
      using dec [of l None] True by (cases "?n = 0") (simp_all add: decode_bounds [of _ 0] decoded_to_def dst_ok_def)
    moreover have "tt_base64_decode (Some (t @ x)) ?n None (Some buf) (Some cap) = Inr (TT_SUCCESS, Some buf, 0)" if "unat cap \<le> length buf"
      using dec [of cap "Some buf"] True that
      by (cases "?n = 0 \<or> cap = 0") (auto simp: decode_bounds [of _ _ None "Some buf"] decoded_to_def dst_ok_def overwrite_def)
    ultimately show ?thesis unfolding x alloc using True q [of junk] by (simp add: overwrite_def tt_base64_decode_alloc_def)
  next
    case bs: False
    have "t \<noteq> []" using enc(2) bs length_enc_ge [of bs] by (auto simp: no_crlf_def)
    then have nz: "?n \<noteq> 0" using un by (metis length_0_conv unat_0)
    have "tt_base64_decode (Some (t @ x)) ?n None None (Some l) = Inr (TT_SUCCESS, None, of_nat (length bs))"
      using dec [of l None] nz by (simp add: decoded_to_def dst_ok_def)
    moreover have "tt_base64_decode (Some (t @ x)) ?n None (Some buf) (Some cap)
        = Inr (TT_SUCCESS, Some (overwrite 0 bs buf), of_nat (length bs))" if "length bs \<le> unat cap \<and> unat cap \<le> length buf"
      using dec [of cap "Some buf"] that bs nz by (cases "cap = 0") (simp_all add: decoded_to_def dst_ok_def)
    moreover have "tt_base64_decode_alloc junk (Some (t @ x)) ?n None p0 l0 m =
        (let n = mem_next m; m' = m\<lparr>mem_next := Suc n\<rparr> in
         if mem_oracle m n
         then Inr (TT_SUCCESS, Some n, of_nat (length bs),
                m'\<lparr>mem_blocks := (mem_blocks m)(n \<mapsto> bs), mem_heap := insert n (mem_heap m)\<rparr>)
         else Inr (TT_FAIL, p0, l0, m'))"
      using un nz enc bs by (intro decode_alloc_ok) simp_all
    ultimately show ?thesis unfolding x alloc using bs by simp
  qed
qed

text \<open>The four bytes of \<open>''Man!''\<close> in two lines, with and without boundaries \<open>''-''\<close>.\<close>

theorem base64_round_trip_witness:
  "tt_base64_decode (Some ([84, 87, 70, 117, 13, 10, 73, 81, 61, 61, 10] @ [99])) 11 None (Some [0, 0, 0, 0, 7]) (Some 5)
     = Inr (TT_SUCCESS, Some [77, 97, 110, 33, 7], 4)
   \<and> tt_base64_decode (Some [88, 45, 84, 87, 70, 117, 13, 10, 73, 81, 61, 61, 10, 45, 88, 0]) 1
       (Some \<lparr>start_boundary = Some [45], end_boundary = Some [45]\<rparr>) (Some [0, 0, 0, 0, 7]) (Some 5)
     = Inr (TT_SUCCESS, Some [77, 97, 110, 33, 7], 4)"
proof -
  let ?t = "[84, 87, 70, 117, 13, 10, 73, 81, 61, 61, 10] :: u8 list"
  let ?a = "Some \<lparr>start_boundary = Some [45], end_boundary = Some [45]\<rparr>"
  have shape: "b64_shape ?t" by code_simp
  have enc: "no_crlf ?t = b64_enc [77, 97, 110, 33]" by code_simp
  have s1: "b64_selects None (?t @ [99]) 11 ?t" by (simp add: b64_selects_def)
  have "0 \<notin> set ([88] @ [45] @ ?t @ [45] @ [88])"
    "\<forall>j < length [88 :: u8]. take (length [45 :: u8]) (drop j ([88] @ [45] @ ?t @ [45] @ [88])) \<noteq> [45]"
    "\<forall>j < length ?t. take (length [45 :: u8]) (drop j (?t @ [45] @ [88])) \<noteq> [45]"
    by (simp, simp, code_simp)
  then have "between [45] [45] ([88] @ [45] @ ?t @ [45] @ [88] @ 0 # []) ?t"
    unfolding between_def by (intro conjI exI [of _ "[88]"] exI [of _ "[]"]) simp_all
  then have s2: "b64_selects ?a ([88] @ [45] @ ?t @ [45] @ [88] @ 0 # []) 1 ?t"
    by (simp add: b64_selects_def bounds_of_def)
  show ?thesis
    using base64_round_trip [OF s1 shape enc, where cap = 5 and buf = "[0, 0, 0, 0, 7]"]
      base64_round_trip [OF s2 shape enc, where cap = 5 and buf = "[0, 0, 0, 0, 7]"] by (simp add: overwrite_def)
qed

text \<open>
  C35. What the decoder accepts, for every block of bytes, with or without boundaries: it returns without undefined
  behaviour and without a failed assertion. Asked for the length only, it succeeds exactly when the text is of the
  accepted shape and its characters besides line breaks form whole groups of four, with three bytes for each group
  less one for each padding, and otherwise fails leaving the length alone. With a buffer that is not empty it succeeds
  on the same texts when the bytes fit, and fails otherwise. An empty buffer is answered with success and no bytes,
  whatever the text, and so is a length of 0. A terminated string that does not have the start boundary, or not the
  end boundary behind it, is refused, again but for an empty buffer or a length of 0.
\<close>

theorem base64_accepts:
  assumes "unat cap \<le> length buf"
  defines "need \<equiv> \<lambda>t. 3 * (length (no_crlf t) div 4) - count_list (no_crlf t) B64_C_PAD"
  defines "good \<equiv> \<lambda>t. b64_shape t \<and> length (no_crlf t) mod 4 = 0"
  shows "(\<forall>t. b64_selects attr data len t \<longrightarrow>
      tt_base64_decode (Some data) len attr None (Some l)
        = Inr (if good t then (TT_SUCCESS, None, of_nat (need t)) else (TT_FAIL, None, l))
      \<and> (\<exists>buf'. length buf' = length buf \<and> tt_base64_decode (Some data) len attr (Some buf) (Some cap)
        = Inr (if cap = 0 then (TT_SUCCESS, Some buf, 0)
               else if good t \<and> need t \<le> unat cap then (TT_SUCCESS, Some buf', of_nat (need t))
               else (TT_FAIL, Some buf', cap))))
    \<and> (\<forall>b e. bounds_of attr = Some (b, e) \<and> len \<noteq> 0 \<and> 0 \<in> set data \<and> length b < 2 ^ 32
        \<and> (\<nexists>pre t post. takeWhile (\<lambda>c. c \<noteq> 0) data = pre @ b @ t @ e @ post) \<longrightarrow>
      tt_base64_decode (Some data) len attr None (Some l) = Inr (TT_FAIL, None, l)
      \<and> tt_base64_decode (Some data) len attr (Some buf) (Some cap)
        = Inr (if cap = 0 then TT_SUCCESS else TT_FAIL, Some buf, cap))
    \<and> tt_base64_decode (Some data) 0 attr dst (Some l) = Inr (TT_SUCCESS, dst, 0)"
proof (intro conjI allI impI)
  fix t assume sel: "b64_selects attr data len t"
  obtain x where x: "\<And>dst cap. tt_base64_decode (Some data) len attr dst (Some cap)
      = tt_base64_decode (Some (t @ x)) (of_nat (length t)) None dst (Some cap)" and lt: "length t < 2 ^ 32"
    using selected [OF sel] by blast
  let ?n = "of_nat (length t) :: u32"
  have un: "unat ?n = length t" using lt by (simp add: unat_of_nat take_bit_nat_eq_self)
  note A = accepts_plain [of ?n "t @ x" cap buf l]
  have e: "need t = 0 \<and> good t" if "?n = 0"
  proof -
    have "t = []" using that un by (metis length_0_conv unat_0)
    then show ?thesis by (simp add: need_def good_def no_crlf_def b64_shape_def)
  qed
  have "tt_base64_decode (Some (t @ x)) ?n None None (Some l)
      = Inr (if good t then (TT_SUCCESS, None, of_nat (need t)) else (TT_FAIL, None, l))"
    using A e assms(1) un by (cases "?n = 0") (simp_all add: decode_bounds [of _ 0] need_def good_def)
  moreover have "\<exists>buf'. length buf' = length buf \<and> tt_base64_decode (Some (t @ x)) ?n None (Some buf) (Some cap)
      = Inr (if cap = 0 then (TT_SUCCESS, Some buf, 0)
             else if good t \<and> need t \<le> unat cap then (TT_SUCCESS, Some buf', of_nat (need t))
             else (TT_FAIL, Some buf', cap))"
    using A e assms(1) un by (cases "?n = 0") (auto simp: decode_bounds [of _ 0] need_def good_def)
  ultimately show "tt_base64_decode (Some data) len attr None (Some l)
        = Inr (if good t then (TT_SUCCESS, None, of_nat (need t)) else (TT_FAIL, None, l))"
      "\<exists>buf'. length buf' = length buf \<and> tt_base64_decode (Some data) len attr (Some buf) (Some cap)
        = Inr (if cap = 0 then (TT_SUCCESS, Some buf, 0)
               else if good t \<and> need t \<le> unat cap then (TT_SUCCESS, Some buf', of_nat (need t))
               else (TT_FAIL, Some buf', cap))" unfolding x by blast+
next
  fix b e
  assume a: "bounds_of attr = Some (b, e) \<and> len \<noteq> 0 \<and> 0 \<in> set data \<and> length b < 2 ^ 32
        \<and> (\<nexists>pre t post. takeWhile (\<lambda>c. c \<noteq> 0) data = pre @ b @ t @ e @ post)"
  then have r: "b64_rm_boundary data len b e = Inr (TT_FAIL, data, len)" by (intro rm_boundary_none) blast+
  with a show "tt_base64_decode (Some data) len attr None (Some l) = Inr (TT_FAIL, None, l)"
    "tt_base64_decode (Some data) len attr (Some buf) (Some cap) = Inr (if cap = 0 then TT_SUCCESS else TT_FAIL, Some buf, cap)"
    by (simp_all add: decode_bounds TT_OK_def)
next
  show "tt_base64_decode (Some data) 0 attr dst (Some l) = Inr (TT_SUCCESS, dst, 0)" by (simp add: decode_bounds)
qed

text \<open>A character outside the alphabet, a line break between paddings, a group that is not whole, and no end boundary.\<close>

theorem base64_accepts_witness:
  "tt_base64_decode (Some [77, 81, 64, 61]) 4 None None (Some 9) = Inr (TT_FAIL, None, 9)
   \<and> tt_base64_decode (Some [77, 81, 61, 10, 61]) 5 None None (Some 9) = Inr (TT_FAIL, None, 9)
   \<and> tt_base64_decode (Some [77, 81, 61]) 3 None None (Some 9) = Inr (TT_FAIL, None, 9)
   \<and> tt_base64_decode (Some [77, 81, 61, 61]) 4 None None (Some 9) = Inr (TT_SUCCESS, None, 1)
   \<and> tt_base64_decode (Some [45, 77, 81, 0]) 1 (Some \<lparr>start_boundary = Some [45], end_boundary = Some [45]\<rparr>) None (Some 9)
     = Inr (TT_FAIL, None, 9)"
proof -
  let ?a = "Some \<lparr>start_boundary = Some [45], end_boundary = Some [45]\<rparr>"
  have no: "\<not> b64_shape [77, 81, 64, 61]" "\<not> b64_shape [77, 81, 61, 10, 61]" "length (no_crlf [77, 81, 61]) mod 4 \<noteq> 0"
    and yes: "b64_shape [77, 81, 61, 61] \<and> length (no_crlf [77, 81, 61, 61]) = 4
      \<and> count_list (no_crlf [77, 81, 61, 61]) B64_C_PAD = 2"
    by code_simp+
  have c: "unat (0 :: u32) \<le> length ([] :: u8 list)" by simp
  have sel: "b64_selects None d n d" if "unat n = length d" for d n using that by (simp add: b64_selects_def)
  have "[45, 77, 81 :: u8] \<noteq> pre @ [45] @ t @ [45] @ post" for pre t post
    by (auto simp: Cons_eq_append_conv append_eq_Cons_conv)
  then have b: "bounds_of ?a = Some ([45], [45]) \<and> (1 :: u32) \<noteq> 0 \<and> 0 \<in> set [45, 77, 81, 0 :: u8] \<and> length [45 :: u8] < 2 ^ 32
      \<and> (\<nexists>pre t post. takeWhile (\<lambda>c. c \<noteq> 0) [45, 77, 81, 0 :: u8] = pre @ [45] @ t @ [45] @ post)"
    by (simp add: bounds_of_def)
  note P = conjunct1 [OF base64_accepts [OF c, where l = 9], rule_format, THEN conjunct1]
  have "tt_base64_decode (Some [45, 77, 81, 0]) 1 ?a None (Some 9) = Inr (TT_FAIL, None, 9)"
    using conjunct1 [OF conjunct2 [OF base64_accepts [OF c, where l = 9 and attr = ?a]], rule_format, OF b] by blast
  then show ?thesis
    using P [OF sel, of 4 "[77, 81, 64, 61]"] P [OF sel, of 5 "[77, 81, 61, 10, 61]"] P [OF sel, of 3 "[77, 81, 61]"]
      P [OF sel, of 4 "[77, 81, 61, 61]"] no yes
    by simp
qed

end
