(* ===== verification/TT_Date.thy ===== *)
theory TT_Date
  imports TT_Prelude "HOL-Library.Signed_Division"
begin

text \<open>
  Dates of \<^verbatim>\<open>time/tt_date.h\<close>, \<^verbatim>\<open>time/tt_date.c\<close> and the time zones of \<^verbatim>\<open>time/tt_date_def.c\<close>. A date keeps
  its year from 1583 and its month and day of the month from 0; a month (\<^verbatim>\<open>TT_JANUARY\<close> is 0), a weekday
  (\<^verbatim>\<open>TT_SUNDAY\<close> is 0) and a time zone (\<^verbatim>\<open>TT_UTC_MINUS_12_00\<close> is 0) are their enumeration values, 32 bits
  wide as arguments and 8 bits as fields. Signed 32-bit intermediate results stay below \<open>2 ^ 31\<close> and are
  integers with C's division. Indexing a table out of its bounds is undefined.
\<close>

section \<open>Time zones\<close>

definition TT_MONTH_NUM :: u32 where "TT_MONTH_NUM = 12"
definition TT_WEEKDAY_NUM :: u32 where "TT_WEEKDAY_NUM = 7"
definition TT_TMZONE_NUM :: u32 where "TT_TMZONE_NUM = 39"
definition TT_UTC_00_00 :: u32 where "TT_UTC_00_00 = 14"
definition TT_UTC_14_00 :: u32 where "TT_UTC_14_00 = 38"

definition TT_MONTH_VALID :: "u32 \<Rightarrow> bool" where
  "TT_MONTH_VALID m \<longleftrightarrow> m < TT_MONTH_NUM"

definition TT_TMZONE_VALID :: "u32 \<Rightarrow> bool" where
  "TT_TMZONE_VALID z \<longleftrightarrow> z \<le> TT_TMZONE_NUM"

definition SEC :: "int \<Rightarrow> int \<Rightarrow> int" where
  "SEC h m = h * 3600 + m * 60"

definition tmzone_offset :: "int list" where
  "tmzone_offset =
    [- SEC 12 0, - SEC 11 0, - SEC 10 0, - SEC 9 30, - SEC 9 0,
     - SEC 8 0,  - SEC 7 0,  - SEC 6 0,  - SEC 5 0,  - SEC 4 0,
     - SEC 3 30, - SEC 3 0,  - SEC 2 0,  - SEC 1 0,  SEC 0 0,
     SEC 1 0,    SEC 2 0,    SEC 3 0,    SEC 3 30,   SEC 4 0,
     SEC 4 30,   SEC 5 0,    SEC 5 30,   SEC 5 45,   SEC 6 0,
     SEC 6 30,   SEC 7 30,   SEC 8 0,    SEC 8 30,   SEC 8 45,
     SEC 9 0,    SEC 9 30,   SEC 10 0,   SEC 10 30,  SEC 11 0,
     SEC 12 0,   SEC 12 45,  SEC 13 0,   SEC 14 0]"

definition table_at :: "'a list \<Rightarrow> u32 \<Rightarrow> 'a run" where
  "table_at xs i = (if unat i < length xs then Inr (xs ! unat i) else Inl Undef)"

definition tt_tmzone2offsec :: "u32 \<Rightarrow> int run" where
  "tt_tmzone2offsec tmzone =
    bindr (TT_ASSERT (TT_TMZONE_VALID tmzone)) (\<lambda>_. table_at tmzone_offset tmzone)"

function offsec_loop :: "int \<Rightarrow> u32 \<Rightarrow> u32 run" where
  "offsec_loop offset z =
    (if z < TT_UTC_14_00 then
       (case table_at tmzone_offset z of
          Inl f \<Rightarrow> Inl f
        | Inr o' \<Rightarrow> if offset > o' then offsec_loop offset (z + 1) else Inr z)
     else Inr z)"
  by pat_completeness auto

lemma count_up_u32: "(i :: u32) < n \<Longrightarrow> unat n - unat (i + 1) < unat n - unat i"
  using unat_suc_u32 [of i n] by (simp add: word_less_nat_alt)

termination offsec_loop
  by (relation "measure (\<lambda>(o', z). unat TT_UTC_14_00 - unat z)") (simp_all add: count_up_u32)

definition tt_offsec2tmzone :: "int \<Rightarrow> u32 run" where
  "tt_offsec2tmzone offset = offsec_loop offset 0"

section \<open>Dates\<close>

record tt_date =
  year :: u16
  mday :: u8
  hour :: u8
  minute :: u8
  second :: u8
  month :: u8
  tz :: u8

definition TT_GREGORIAN_BEGIN :: int where "TT_GREGORIAN_BEGIN = 1583"

definition Y_IN :: "int \<Rightarrow> int" where "Y_IN o_year = o_year - TT_GREGORIAN_BEGIN"
definition Y_OUT :: "int \<Rightarrow> int" where "Y_OUT i_year = i_year + TT_GREGORIAN_BEGIN"
definition MDAY_IN :: "int \<Rightarrow> int" where "MDAY_IN d = d - 1"
definition MDAY_OUT :: "int \<Rightarrow> int" where "MDAY_OUT d = d + 1"

definition s_daynum_of :: "u32 list" where
  "s_daynum_of = [31, 28, 31, 30, 31, 30, 31, 31, 30, 31, 30, 31]"

definition s_daynum_before :: "u32 list" where
  "s_daynum_before = [0, 31, 59, 90, 120, 151, 181, 212, 243, 273, 304, 334]"

definition s_daynum_of_leap :: "u32 list" where
  "s_daynum_of_leap = [31, 29, 31, 30, 31, 30, 31, 31, 30, 31, 30, 31]"

definition s_daynum_before_leap :: "u32 list" where
  "s_daynum_before_leap = [0, 31, 60, 91, 121, 152, 182, 213, 244, 274, 305, 335]"

definition leap_year :: "u16 \<Rightarrow> bool" where
  "leap_year y0 =
    (let y = Y_OUT (uint y0); y = (if y < 0 then y + 1 else y) in
     y smod 4 = 0 \<and> (y smod 100 \<noteq> 0 \<or> y smod 400 = 0) \<and> y smod 3200 \<noteq> 0)"

definition daynum_of :: "u16 \<Rightarrow> u32 list" where
  "daynum_of y = (if leap_year y then s_daynum_of_leap else s_daynum_of)"

definition daynum_before :: "u16 \<Rightarrow> u32 list" where
  "daynum_before y = (if leap_year y then s_daynum_before_leap else s_daynum_before)"

definition date_valid :: "u16 \<Rightarrow> u32 \<Rightarrow> u8 \<Rightarrow> bool" where
  "date_valid y m d \<longleftrightarrow> TT_MONTH_VALID m \<and> \<not> ucast d \<ge> daynum_of y ! unat m"

text \<open>The Julian day number of a date, and back.\<close>

definition ymd2cjdn :: "u16 \<Rightarrow> u32 \<Rightarrow> u8 \<Rightarrow> u32 run" where
  "ymd2cjdn y m d =
    (let y = word_of_int (Y_OUT (uint y)) :: u16;
         m = m + 1;
         d = word_of_int (MDAY_OUT (uint d)) :: u8;
         c0 = (if m < 3 then -1 else 0);
         x4 = uint y + c0;
         x3 = x4 sdiv 100;
         x2 = x4 smod 100;
         x1 = sint (m - word_of_int (12 * c0) - 3);
         j = 146097 * x3 sdiv 4 + 36525 * x2 sdiv 100 + (153 * x1 + 2) sdiv 5 + uint d + 1721119
     in bindr (TT_ASSERT (j \<ge> 0)) (\<lambda>_. Inr (word_of_int j)))"

definition cjdn2ymd :: "u32 \<Rightarrow> u16 \<times> u32 \<times> u8" where
  "cjdn2ymd cjdn =
    (let m = 4 * cjdn - 6884477;
         x3 = m div 146097;
         r3 = m mod 146097;
         m = (r3 div 4) * 100 + 99;
         x2 = m div 36525;
         r2 = m mod 36525;
         m = (r2 div 100) * 5 + 2;
         x1 = m div 153;
         r1 = m mod 153;
         d = r1 div 5 + 1;
         c0 = (x1 + 2) div 12;
         j = 100 * x3 + x2 + c0;
         m = x1 - 12 * c0 + 3
     in (ucast (j - word_of_int TT_GREGORIAN_BEGIN), m - 1, ucast (d - 1)))"

text \<open>\<^verbatim>\<open>__s_min_cjdn\<close>, as \<^verbatim>\<open>__date_component_init\<close> leaves it.\<close>

definition s_min_cjdn :: "u32 run" where
  "s_min_cjdn = ymd2cjdn (word_of_int (Y_IN TT_GREGORIAN_BEGIN)) 0 1"

section \<open>Creation and comparison\<close>

definition tt_date_init :: "u32 \<Rightarrow> tt_date run" where
  "tt_date_init z = bindr (TT_ASSERT (TT_TMZONE_VALID z)) (\<lambda>_.
    Inr \<lparr>year = 0, mday = 0, hour = 0, minute = 0, second = 0, month = 0, tz = ucast z\<rparr>)"

definition tt_date_valid :: "tt_date \<Rightarrow> bool" where
  "tt_date_valid date = date_valid (year date) (ucast (month date)) (mday date)"

text \<open>\<^verbatim>\<open>__dcmp\<close>: return unless the fields are equal.\<close>

definition dcmp :: "'a :: linorder \<Rightarrow> 'a \<Rightarrow> int \<Rightarrow> int" where
  "dcmp a b k = (if a > b then 1 else if a < b then -1 else k)"

definition tt_date_cmp :: "tt_date \<Rightarrow> tt_date \<Rightarrow> int" where
  "tt_date_cmp a b = dcmp (year a) (year b) (dcmp (month a) (month b) (dcmp (mday a) (mday b)
    (dcmp (hour a) (hour b) (dcmp (minute a) (minute b) (dcmp (second a) (second b) 0)))))"

definition tt_date_cmp_date :: "tt_date \<Rightarrow> tt_date \<Rightarrow> int" where
  "tt_date_cmp_date a b = dcmp (year a) (year b) (dcmp (month a) (month b) (dcmp (mday a) (mday b) 0))"

definition tt_date_cmp_time :: "tt_date \<Rightarrow> tt_date \<Rightarrow> int" where
  "tt_date_cmp_time a b = dcmp (hour a) (hour b) (dcmp (minute a) (minute b) (dcmp (second a) (second b) 0))"

definition tt_date_cmp_v :: "tt_date \<Rightarrow> u32 \<Rightarrow> u32 \<Rightarrow> u32 \<Rightarrow> u32 \<Rightarrow> u32 \<Rightarrow> u32 \<Rightarrow> int" where
  "tt_date_cmp_v date y m d h mi s =
    dcmp (ucast (year date)) (y - word_of_int TT_GREGORIAN_BEGIN)
    (dcmp (ucast (month date)) m
    (dcmp (ucast (mday date)) (d - 1)
    (dcmp (ucast (hour date)) h (dcmp (ucast (minute date)) mi (dcmp (ucast (second date)) s 0)))))"

definition tt_date_cmp_vdate :: "tt_date \<Rightarrow> u32 \<Rightarrow> u32 \<Rightarrow> u32 \<Rightarrow> int" where
  "tt_date_cmp_vdate date y m d =
    dcmp (ucast (year date)) (y - word_of_int TT_GREGORIAN_BEGIN)
    (dcmp (ucast (month date)) m (dcmp (ucast (mday date)) (d - 1) 0))"

definition tt_date_cmp_vtime :: "tt_date \<Rightarrow> u32 \<Rightarrow> u32 \<Rightarrow> u32 \<Rightarrow> int" where
  "tt_date_cmp_vtime date h mi s =
    dcmp (ucast (hour date)) h (dcmp (ucast (minute date)) mi (dcmp (ucast (second date)) s 0))"

section \<open>Fields\<close>

definition tt_date_set_year :: "tt_date \<Rightarrow> u16 \<Rightarrow> tt_result \<times> tt_date" where
  "tt_date_set_year date y =
    (if uint y < TT_GREGORIAN_BEGIN then (TT_FAIL, date)
     else let y = word_of_int (Y_IN (uint y)) in
       if \<not> date_valid y (ucast (month date)) (mday date) then (TT_FAIL, date)
       else (TT_SUCCESS, date\<lparr>year := y\<rparr>))"

definition tt_date_get_year :: "tt_date \<Rightarrow> u32" where
  "tt_date_get_year date = word_of_int (Y_OUT (uint (year date)))"

definition tt_date_is_leapyear :: "tt_date \<Rightarrow> bool" where
  "tt_date_is_leapyear date = leap_year (year date)"

definition tt_date_set_month :: "tt_date \<Rightarrow> u32 \<Rightarrow> tt_date run" where
  "tt_date_set_month date m = bindr (TT_ASSERT (TT_MONTH_VALID m)) (\<lambda>_. Inr (date\<lparr>month := ucast m\<rparr>))"

definition tt_date_get_month :: "tt_date \<Rightarrow> u32" where
  "tt_date_get_month date = ucast (month date)"

definition tt_date_set_monthday :: "tt_date \<Rightarrow> u32 \<Rightarrow> tt_result \<times> tt_date" where
  "tt_date_set_monthday date d =
    (if d < 1 \<or> d > 31 then (TT_FAIL, date)
     else let md = ucast (d - 1) in
       if \<not> date_valid (year date) (ucast (month date)) md then (TT_FAIL, date)
       else (TT_SUCCESS, date\<lparr>mday := md\<rparr>))"

definition tt_date_get_monthday :: "tt_date \<Rightarrow> u32" where
  "tt_date_get_monthday date = word_of_int (MDAY_OUT (uint (mday date)))"

definition weekday_t :: "u32 list" where
  "weekday_t = [0, 3, 2, 5, 0, 3, 5, 1, 4, 6, 2, 4]"

definition tt_date_get_weekday :: "tt_date \<Rightarrow> u32 run" where
  "tt_date_get_weekday date =
    (let y = word_of_int (Y_OUT (uint (year date)));
         m = ucast (month date);
         d = word_of_int (MDAY_OUT (uint (mday date)));
         y = y - (if m < 3 then 1 else 0)
     in bindr (table_at weekday_t m) (\<lambda>t. Inr ((y + y div 4 - y div 100 + y div 400 + t + d) mod 7)))"

function yearday_loop :: "u32 list \<Rightarrow> tt_date \<Rightarrow> u32 \<Rightarrow> u32 \<Rightarrow> (tt_result \<times> tt_date) run" where
  "yearday_loop dn_of date yday m =
    (if m \<le> 11 then
       (case table_at dn_of m of
          Inl f \<Rightarrow> Inl f
        | Inr n \<Rightarrow>
          if yday < n then Inr (TT_SUCCESS, date\<lparr>month := ucast m, mday := ucast yday\<rparr>)
          else yearday_loop dn_of date (yday - n) (m + 1))
     else Inl Throw)"
  by pat_completeness auto

termination yearday_loop
proof (relation "measure (\<lambda>(dn, date, yday, m). 12 - unat m)")
  fix m :: u32 and dn :: "u32 list" and date :: tt_date and yday n :: u32
  assume "m \<le> 11"
  then have "unat m < 12" by (simp add: word_le_nat_alt)
  moreover then have "unat (m + 1) = Suc (unat m)" by (subst unat_add_u32) simp_all
  ultimately show "((dn, date, yday - n, m + 1), (dn, date, yday, m)) \<in> measure (\<lambda>(dn, date, yday, m). 12 - unat m)"
    by simp
qed simp

definition tt_date_set_yearday :: "tt_date \<Rightarrow> u32 \<Rightarrow> (tt_result \<times> tt_date) run" where
  "tt_date_set_yearday date yday =
    (if yday > 365 then Inr (TT_FAIL, date)
     else if \<not> leap_year (year date) \<and> yday = 365 then Inr (TT_FAIL, date)
     else yearday_loop (daynum_of (year date)) date yday 0)"

definition tt_date_get_yearday :: "tt_date \<Rightarrow> u32 run" where
  "tt_date_get_yearday date =
    bindr (table_at (daynum_before (year date)) (ucast (month date))) (\<lambda>n. Inr (n + ucast (mday date)))"

definition tt_date_set_hour :: "tt_date \<Rightarrow> u32 \<Rightarrow> tt_date run" where
  "tt_date_set_hour date h = bindr (TT_ASSERT (h \<le> 23)) (\<lambda>_. Inr (date\<lparr>hour := ucast h\<rparr>))"

definition tt_date_get_hour :: "tt_date \<Rightarrow> u32" where
  "tt_date_get_hour date = ucast (hour date)"

definition tt_date_get_hour_ampm :: "tt_date \<Rightarrow> u32" where
  "tt_date_get_hour_ampm date = (if hour date \<le> 12 then ucast (hour date) else ucast (hour date) - 12)"

definition tt_date_is_am :: "tt_date \<Rightarrow> bool" where
  "tt_date_is_am date \<longleftrightarrow> hour date < 12"

definition tt_date_is_pm :: "tt_date \<Rightarrow> bool" where
  "tt_date_is_pm date \<longleftrightarrow> \<not> tt_date_is_am date"

definition tt_date_set_minute :: "tt_date \<Rightarrow> u32 \<Rightarrow> tt_date run" where
  "tt_date_set_minute date m = bindr (TT_ASSERT (m \<le> 59)) (\<lambda>_. Inr (date\<lparr>minute := ucast m\<rparr>))"

definition tt_date_get_minute :: "tt_date \<Rightarrow> u32" where
  "tt_date_get_minute date = ucast (minute date)"

definition tt_date_set_second :: "tt_date \<Rightarrow> u32 \<Rightarrow> tt_date run" where
  "tt_date_set_second date s = bindr (TT_ASSERT (s \<le> 59)) (\<lambda>_. Inr (date\<lparr>second := ucast s\<rparr>))"

definition tt_date_get_second :: "tt_date \<Rightarrow> u32" where
  "tt_date_get_second date = ucast (second date)"

definition tt_date_set_date :: "tt_date \<Rightarrow> u32 \<Rightarrow> u32 \<Rightarrow> u32 \<Rightarrow> (tt_result \<times> tt_date) run" where
  "tt_date_set_date date y m d =
    (if uint y < TT_GREGORIAN_BEGIN then Inr (TT_FAIL, date)
     else let y = y - word_of_int TT_GREGORIAN_BEGIN in
       bindr (TT_ASSERT (TT_MONTH_VALID m)) (\<lambda>_.
       if d < 1 \<or> d > 31 then Inr (TT_FAIL, date)
       else let md = d - 1 in
         if \<not> date_valid (ucast y) m (ucast md) then Inr (TT_FAIL, date)
         else Inr (TT_SUCCESS, date\<lparr>year := ucast y, month := ucast m, mday := ucast md\<rparr>)))"

definition tt_date_set_time :: "tt_date \<Rightarrow> u32 \<Rightarrow> u32 \<Rightarrow> u32 \<Rightarrow> tt_date run" where
  "tt_date_set_time date h m s =
    bindr (tt_date_set_hour date h) (\<lambda>date.
    bindr (tt_date_set_minute date m) (\<lambda>date. tt_date_set_second date s))"

definition tt_date_set :: "tt_date \<Rightarrow> u32 \<Rightarrow> u32 \<Rightarrow> u32 \<Rightarrow> u32 \<Rightarrow> u32 \<Rightarrow> u32 \<Rightarrow> (tt_result \<times> tt_date) run" where
  "tt_date_set date y mo d h mi s =
    bindr (tt_date_set_date date y mo d) (\<lambda>(r, date).
    if TT_OK r then bindr (tt_date_set_time date h mi s) (\<lambda>date. Inr (TT_SUCCESS, date))
    else Inr (TT_FAIL, date))"

definition tt_date_get_tmzone :: "tt_date \<Rightarrow> u32" where
  "tt_date_get_tmzone date = ucast (tz date)"

definition tt_date_set_tmzone :: "tt_date \<Rightarrow> u32 \<Rightarrow> tt_date" where
  "tt_date_set_tmzone date z = date\<lparr>tz := ucast z\<rparr>"

definition tt_date_get_week :: "tt_date \<Rightarrow> u32 \<Rightarrow> u32 run" where
  "tt_date_get_week date first_day =
    bindr (tt_date_set_month date 0) (\<lambda>d.
    bindr (tt_date_get_weekday (snd (tt_date_set_monthday d 1))) (\<lambda>wd.
    let n = (if wd < first_day then first_day - wd
             else if wd = first_day then 0
             else TT_WEEKDAY_NUM + first_day - wd) in
    bindr (tt_date_get_yearday date) (\<lambda>w.
    if w \<ge> n then
      let w = (w - n) div 7 in Inr (if n \<noteq> 0 then w + 1 else w)
    else Inr 0)))"

section \<open>Increasing and decreasing\<close>

definition tt_date_inc_day :: "tt_date \<Rightarrow> u32 \<Rightarrow> (tt_result \<times> tt_date) run" where
  "tt_date_inc_day date day =
    bindr (ymd2cjdn (year date) (ucast (month date)) (mday date)) (\<lambda>cjdn.
    if cjdn + day < day then Inr (TT_FAIL, date)
    else
      let (y, m, d) = cjdn2ymd (cjdn + day);
          date = date\<lparr>year := y, mday := d, month := ucast m\<rparr> in
      bindr (TT_ASSERT (date_valid (year date) (ucast (month date)) (mday date))) (\<lambda>_.
      Inr (TT_SUCCESS, date)))"

definition tt_date_dec_day :: "tt_date \<Rightarrow> u32 \<Rightarrow> (tt_result \<times> tt_date) run" where
  "tt_date_dec_day date day =
    bindr (ymd2cjdn (year date) (ucast (month date)) (mday date)) (\<lambda>cjdn.
    bindr s_min_cjdn (\<lambda>min_cjdn.
    if min_cjdn + day < day \<or> min_cjdn + day > cjdn then Inr (TT_FAIL, date)
    else
      let (y, m, d) = cjdn2ymd (cjdn - day);
          date = date\<lparr>year := y, mday := d, month := ucast m\<rparr> in
      bindr (TT_ASSERT (date_valid (year date) (ucast (month date)) (mday date))) (\<lambda>_.
      Inr (TT_SUCCESS, date))))"

definition tt_date_inc_hour :: "tt_date \<Rightarrow> u32 \<Rightarrow> (tt_result \<times> tt_date) run" where
  "tt_date_inc_hour date h =
    (let day = h div 24; h = h mod 24;
         (day, h) = (if ucast (hour date) + h \<ge> 24 then (day + 1, h - 24) else (day, h)) in
     bindr (tt_date_inc_day date day) (\<lambda>(r, date).
     if TT_OK r then
       let date = date\<lparr>hour := ucast (ucast (hour date) + h)\<rparr> in
       bindr (TT_ASSERT (date_valid (year date) (ucast (month date)) (mday date))) (\<lambda>_.
       Inr (TT_SUCCESS, date))
     else Inr (TT_FAIL, date)))"

definition tt_date_dec_hour :: "tt_date \<Rightarrow> u32 \<Rightarrow> (tt_result \<times> tt_date) run" where
  "tt_date_dec_hour date h =
    (let day = h div 24; h = h mod 24;
         (day, h) = (if ucast (hour date) < h then (day + 1, h - 24) else (day, h)) in
     bindr (tt_date_dec_day date day) (\<lambda>(r, date).
     if TT_OK r then
       let date = date\<lparr>hour := ucast (ucast (hour date) - h)\<rparr> in
       bindr (TT_ASSERT (date_valid (year date) (ucast (month date)) (mday date))) (\<lambda>_.
       Inr (TT_SUCCESS, date))
     else Inr (TT_FAIL, date)))"

definition tt_date_inc_minute :: "tt_date \<Rightarrow> u32 \<Rightarrow> (tt_result \<times> tt_date) run" where
  "tt_date_inc_minute date m =
    (let h = m div 60; m = m mod 60;
         (h, m) = (if ucast (minute date) + m \<ge> 60 then (h + 1, m - 60) else (h, m)) in
     bindr (tt_date_inc_hour date h) (\<lambda>(r, date).
     if TT_OK r then Inr (TT_SUCCESS, date\<lparr>minute := ucast (ucast (minute date) + m)\<rparr>)
     else Inr (TT_FAIL, date)))"

definition tt_date_dec_minute :: "tt_date \<Rightarrow> u32 \<Rightarrow> (tt_result \<times> tt_date) run" where
  "tt_date_dec_minute date m =
    (let h = m div 60; m = m mod 60;
         (h, m) = (if ucast (minute date) < m then (h + 1, m - 60) else (h, m)) in
     bindr (tt_date_dec_hour date h) (\<lambda>(r, date).
     if TT_OK r then Inr (TT_SUCCESS, date\<lparr>minute := ucast (ucast (minute date) - m)\<rparr>)
     else Inr (TT_FAIL, date)))"

definition tt_date_inc_second :: "tt_date \<Rightarrow> u32 \<Rightarrow> (tt_result \<times> tt_date) run" where
  "tt_date_inc_second date s =
    (let m = s div 60; s = s mod 60;
         (m, s) = (if ucast (second date) + s \<ge> 60 then (m + 1, s - 60) else (m, s)) in
     bindr (tt_date_inc_minute date m) (\<lambda>(r, date).
     if TT_OK r then Inr (TT_SUCCESS, date\<lparr>second := ucast (ucast (second date) + s)\<rparr>)
     else Inr (TT_FAIL, date)))"

definition tt_date_dec_second :: "tt_date \<Rightarrow> u32 \<Rightarrow> (tt_result \<times> tt_date) run" where
  "tt_date_dec_second date s =
    (let m = s div 60; s = s mod 60;
         (m, s) = (if ucast (second date) < s then (m + 1, s - 60) else (m, s)) in
     bindr (tt_date_dec_minute date m) (\<lambda>(r, date).
     if TT_OK r then Inr (TT_SUCCESS, date\<lparr>second := ucast (ucast (second date) - s)\<rparr>)
     else Inr (TT_FAIL, date)))"

section \<open>Time zones and differences\<close>

definition tt_date_change_tmzone :: "tt_date \<Rightarrow> u32 \<Rightarrow> (tt_result \<times> tt_date) run" where
  "tt_date_change_tmzone date z =
    bindr (TT_ASSERT (TT_TMZONE_VALID z)) (\<lambda>_.
    bindr (tt_tmzone2offsec (ucast (tz date))) (\<lambda>org_s.
    bindr (tt_tmzone2offsec z) (\<lambda>new_s.
    TT_DO (if new_s \<ge> org_s then tt_date_inc_second date (word_of_int (new_s - org_s))
           else tt_date_dec_second date (word_of_int (org_s - new_s))) (\<lambda>date.
    Inr (TT_SUCCESS, date\<lparr>tz := ucast z\<rparr>)))))"

text \<open>The copy in UTC; whether the change succeeded is ignored.\<close>

definition utc_cjdn :: "tt_date \<Rightarrow> (tt_date \<times> u32) run" where
  "utc_cjdn date =
    bindr (tt_date_change_tmzone date TT_UTC_00_00) (\<lambda>(_, utc).
    bindr (ymd2cjdn (year utc) (ucast (month utc)) (mday utc)) (\<lambda>cjdn. Inr (utc, cjdn)))"

definition tt_date_diff_day :: "tt_date \<Rightarrow> tt_date \<Rightarrow> int run" where
  "tt_date_diff_day a b =
    bindr (utc_cjdn a) (\<lambda>(_, a_cjdn). bindr (utc_cjdn b) (\<lambda>(_, b_cjdn). Inr (sint (a_cjdn - b_cjdn))))"

definition tt_date_diff_second :: "tt_date \<Rightarrow> tt_date \<Rightarrow> int run" where
  "tt_date_diff_second a b =
    bindr (utc_cjdn a) (\<lambda>(utc_a, a_cjdn). bindr (utc_cjdn b) (\<lambda>(utc_b, b_cjdn).
    Inr ((uint a_cjdn - uint b_cjdn) * 86400
         + (uint (hour utc_a) - uint (hour utc_b)) * 3600
         + (uint (minute utc_a) - uint (minute utc_b)) * 60
         + (uint (second utc_a) - uint (second utc_b)))))"

definition tt_date_epoch :: "tt_date \<Rightarrow> tt_date run" where
  "tt_date_epoch date =
    bindr (tt_date_set date 1970 0 1 0 0 0) (\<lambda>(_, date). Inr (tt_date_set_tmzone date TT_UTC_00_00))"

definition tt_date_diff_epoch_day :: "tt_date \<Rightarrow> int run" where
  "tt_date_diff_epoch_day date =
    bindr (tt_date_init TT_UTC_00_00) (\<lambda>d. bindr (tt_date_epoch d) (\<lambda>d. tt_date_diff_day date d))"

definition tt_date_diff_epoch_second :: "tt_date \<Rightarrow> int run" where
  "tt_date_diff_epoch_second date =
    bindr (tt_date_init TT_UTC_00_00) (\<lambda>d. bindr (tt_date_epoch d) (\<lambda>d. tt_date_diff_second date d))"

declare offsec_loop.simps [simp del] yearday_loop.simps [simp del]

end
