(* ===== verification/TT_Calendar.thy ===== *)
theory TT_Calendar
  imports TT_Date
begin

text \<open>
  The Gregorian calendar as a reference (its leap years, the lengths of its months and the Julian day number
  of a date), and the proof that the day number arithmetic of \<^verbatim>\<open>__ymd2cjdn\<close> and \<^verbatim>\<open>__cjdn2ymd\<close> computes it
  and its inverse. Months and days of the month count from 0.
\<close>

section \<open>The reference\<close>

definition g_leap :: "nat \<Rightarrow> bool" where
  "g_leap y \<longleftrightarrow> y mod 4 = 0 \<and> (y mod 100 \<noteq> 0 \<or> y mod 400 = 0)"

definition g_len :: "nat \<Rightarrow> nat \<Rightarrow> nat" where
  "g_len y m = (if m = 1 then (if g_leap y then 29 else 28) else if m \<in> {3, 5, 8, 10} then 30 else 31)"

primrec g_before :: "nat \<Rightarrow> nat \<Rightarrow> nat" where
  "g_before y 0 = 0"
| "g_before y (Suc m) = g_before y m + g_len y m"

text \<open>Days before the year after \<open>y\<close>, and the day number: 1 January of year 1 is day 1721426.\<close>

definition g_years :: "nat \<Rightarrow> nat" where
  "g_years y = 365 * y + y div 4 + y div 400 - y div 100"

definition g_day :: "nat \<Rightarrow> nat \<Rightarrow> nat \<Rightarrow> nat" where
  "g_day y m d = g_years (y - 1) + g_before y m + d + 1721426"

definition g_valid :: "nat \<Rightarrow> nat \<Rightarrow> nat \<Rightarrow> bool" where
  "g_valid y m d \<longleftrightarrow> 1 \<le> y \<and> m < 12 \<and> d < g_len y m"

section \<open>Years\<close>

lemma year_parts:
  fixes q r :: nat
  assumes "r < 100"
  shows "146097 * q div 4 + 36525 * r div 100 + (100 * q + r) div 100
    = 365 * (100 * q + r) + (100 * q + r) div 4 + (100 * q + r) div 400"
proof -
  have "(q + 4 * (36524 * q)) div 4 = 36524 * q + q div 4" by simp
  then have 1: "146097 * q div 4 = 36524 * q + q div 4" by simp
  have "(r + 4 * (365 * r)) div 4 = 365 * r + r div 4" by simp
  then have 2: "1461 * r div 4 = 365 * r + r div 4" by simp
  have 3: "36525 * r div 100 = 1461 * r div 4" using div_mult_mult1 [of 25 "1461 * r" 4] by simp
  have "(r + 4 * (25 * q)) div 4 = 25 * q + r div 4" by simp
  then have 4: "(100 * q + r) div 4 = 25 * q + r div 4" by (simp add: add.commute)
  have 5: "(100 * q + r) div 100 = q" using assms by simp
  have "(100 * q + r) div 400 = (100 * q + r) div 100 div 4" by (simp add: div_mult2_eq [symmetric])
  then have 6: "(100 * q + r) div 400 = q div 4" using 5 by simp
  show ?thesis unfolding 1 2 3 4 5 6 by simp
qed

lemma years_le: "y div 100 \<le> y div (4 :: nat)"
  by (rule div_le_mono2) simp_all

lemma years_sum: "g_years y + y div 100 = 365 * y + y div 4 + y div 400"
  unfolding g_years_def
  by (rule le_add_diff_inverse2, rule trans_le_add1, rule trans_le_add2, rule years_le)

lemma years_parts: "146097 * (y div 100) div 4 + 36525 * (y mod 100) div 100 = g_years y"
proof -
  have "y mod 100 < 100" by simp
  from year_parts [OF this, of "y div 100"]
  have "146097 * (y div 100) div 4 + 36525 * (y mod 100) div 100 + y div 100 = 365 * y + y div 4 + y div 400"
    by (simp only: mult_div_mod_eq)
  with years_sum [of y] show ?thesis by (simp only: add_right_cancel flip: years_sum)
qed

lemma div_suc: "0 < n \<Longrightarrow> Suc y div n = y div n + (if Suc y mod n = 0 then 1 else 0)" for n :: nat
  by (simp add: div_Suc)

lemma years_suc: "g_years (Suc y) = g_years y + 365 + (if g_leap (Suc y) then 1 else 0)"
proof -
  let ?c = "\<lambda>n. Suc y mod n = 0" and ?e = "\<lambda>n. if Suc y mod n = 0 then 1 else 0 :: nat"
  have leap: "(if g_leap (Suc y) then 1 else 0) + ?e 100 = ?e 4 + ?e 400"
  proof -
    have "?c 400 \<longrightarrow> ?c 100" "?c 100 \<longrightarrow> ?c 4"
      using mod_mod_cancel [of 100 400 "Suc y"] mod_mod_cancel [of 4 100 "Suc y"] by auto
    then show ?thesis unfolding g_leap_def by (cases "?c 4"; cases "?c 100"; cases "?c 400") simp_all
  qed
  have "g_years (Suc y) + Suc y div 100 = 365 * Suc y + Suc y div 4 + Suc y div 400"
    "g_years y + y div 100 = 365 * y + y div 4 + y div 400"
    by (rule years_sum)+
  then have "g_years (Suc y) + (y div 100 + ?e 100) = 365 * Suc y + (y div 4 + ?e 4) + (y div 400 + ?e 400)"
    "g_years y + y div 100 = 365 * y + y div 4 + y div 400"
    by (simp_all only: div_suc zero_less_numeral)
  then have "g_years (Suc y) + ?e 100 = g_years y + 365 + (?e 4 + ?e 400)"
    unfolding mult_Suc_right by linarith
  with leap show ?thesis by linarith
qed

lemma before_table:
  defines "l y \<equiv> if g_leap y then 1 else 0"
  shows "g_before y 1 = 31" "g_before y 2 = 59 + l y" "g_before y 3 = 90 + l y" "g_before y 4 = 120 + l y"
    "g_before y 5 = 151 + l y" "g_before y 6 = 181 + l y" "g_before y 7 = 212 + l y" "g_before y 8 = 243 + l y"
    "g_before y 9 = 273 + l y" "g_before y 10 = 304 + l y" "g_before y 11 = 334 + l y"
proof -
  show b1: "g_before y 1 = 31" by (simp add: g_len_def)
  have b2: "g_before y 2 = 59 + l y" using g_before.simps(2) [of y 1] b1 by (simp add: g_len_def l_def numeral_2_eq_2)
  have b3: "g_before y 3 = 90 + l y" using g_before.simps(2) [of y 2] b2 by (simp add: g_len_def)
  have b4: "g_before y 4 = 120 + l y" using g_before.simps(2) [of y 3] b3 by (simp add: g_len_def)
  have b5: "g_before y 5 = 151 + l y" using g_before.simps(2) [of y 4] b4 by (simp add: g_len_def)
  have b6: "g_before y 6 = 181 + l y" using g_before.simps(2) [of y 5] b5 by (simp add: g_len_def)
  have b7: "g_before y 7 = 212 + l y" using g_before.simps(2) [of y 6] b6 by (simp add: g_len_def)
  have b8: "g_before y 8 = 243 + l y" using g_before.simps(2) [of y 7] b7 by (simp add: g_len_def)
  have b9: "g_before y 9 = 273 + l y" using g_before.simps(2) [of y 8] b8 by (simp add: g_len_def)
  have b10: "g_before y 10 = 304 + l y" using g_before.simps(2) [of y 9] b9 by (simp add: g_len_def)
  have b11: "g_before y 11 = 334 + l y" using g_before.simps(2) [of y 10] b10 by (simp add: g_len_def)
  show "g_before y 2 = 59 + l y" "g_before y 3 = 90 + l y" "g_before y 4 = 120 + l y"
    "g_before y 5 = 151 + l y" "g_before y 6 = 181 + l y" "g_before y 7 = 212 + l y" "g_before y 8 = 243 + l y"
    "g_before y 9 = 273 + l y" "g_before y 10 = 304 + l y" "g_before y 11 = 334 + l y"
    by (fact b2 b3 b4 b5 b6 b7 b8 b9 b10 b11)+
qed

lemma month_cases:
  assumes "m < (12 :: nat)"
  obtains "m = 0" | "m = 1" | "m = 2" | "m = 3" | "m = 4" | "m = 5" | "m = 6" | "m = 7" | "m = 8" | "m = 9" | "m = 10" | "m = 11"
proof -
  have "m = 0 \<or> m = 1 \<or> m = 2 \<or> m = 3 \<or> m = 4 \<or> m = 5 \<or> m = 6 \<or> m = 7 \<or> m = 8 \<or> m = 9 \<or> m = 10 \<or> m = 11"
    using assms by arith
  then show thesis using that by blast
qed

lemma before_march:
  assumes "m < 12"
  shows "g_before y m + (if m < 2 then 306 else 0)
    = (153 * ((m + 10) mod 12) + 2) div 5 + (if m < 2 then 0 else 59 + (if g_leap y then 1 else 0))"
  using assms by (cases rule: month_cases) (simp_all add: before_table before_table(1) [unfolded One_nat_def] g_len_def)

text \<open>The day number in years that begin in March: century, year of the century, month and day.\<close>

lemma day_parts:
  assumes "1 \<le> y" "m < 12"
  defines "my \<equiv> if m < 2 then y - 1 else y"
  shows "g_day y m d + 306 = 146097 * (my div 100) div 4 + 36525 * (my mod 100) div 100
     + (153 * ((m + 10) mod 12) + 2) div 5 + d + 1721426"
proof -
  have y: "g_years y = g_years (y - 1) + 365 + (if g_leap y then 1 else 0)"
    using years_suc [of "y - 1"] assms(1) by simp
  then show ?thesis
    using before_march [OF assms(2), of y]
    by (cases "m < 2"; simp only: years_parts g_day_def my_def if_True if_False; linarith)
qed

section \<open>The inverse\<close>

text \<open>The quotients \<^verbatim>\<open>x3\<close>, \<^verbatim>\<open>x2\<close>, \<^verbatim>\<open>x1\<close> and the day of \<^verbatim>\<open>__cjdn2ymd\<close>.\<close>

definition cent_of :: "nat \<Rightarrow> nat" where "cent_of n = (4 * n - 6884477) div 146097"
definition cent_day :: "nat \<Rightarrow> nat" where "cent_day n = (4 * n - 6884477) mod 146097 div 4"
definition yoc_of :: "nat \<Rightarrow> nat" where "yoc_of n = (cent_day n * 100 + 99) div 36525"
definition year_day :: "nat \<Rightarrow> nat" where "year_day n = (cent_day n * 100 + 99) mod 36525 div 100"
definition mon_of :: "nat \<Rightarrow> nat" where "mon_of n = (year_day n * 5 + 2) div 153"
definition mday_of :: "nat \<Rightarrow> nat" where "mday_of n = (year_day n * 5 + 2) mod 153 div 5 + 1"

lemma div_mod_sum:
  fixes n q r k :: nat
  assumes "n = k * q + r" "r < k"
  shows "n div k = q" "n mod k = r"
  using assms by simp_all

lemma parts_of:
  fixes q r x d :: nat
  defines "e \<equiv> (153 * x + 2) div 5"
  assumes r: "r < 100" and d: "1 \<le> d" "5 * d \<le> 153 + (153 * x + 2) mod 5"
    and c: "e + d \<le> 365 \<or> e + d = 366 \<and> r mod 4 = 3 \<and> (r \<noteq> 99 \<or> q mod 4 = 3)"
    and n: "n = 146097 * q div 4 + 36525 * r div 100 + e + d + 1721119"
  shows "cent_of n = q" "yoc_of n = r" "mon_of n = x" "mday_of n = d"
proof -
  define b where "b = 36525 * r div 100"
  define f where "f = 36525 * r mod 100"
  have bf: "36525 * r = 100 * b + f" unfolding b_def f_def by (simp only: mult_div_mod_eq)
  have f: "f = 25 * (r mod 4)"
  proof -
    have "36525 * r = 25 * r + 100 * (365 * r)" by simp
    then have "f = 25 * r mod 100" unfolding f_def by (metis mod_mult_self2)
    then show ?thesis using mult_mod_right [of 25 r 4] by simp
  qed
  have a: "4 * (146097 * q div 4) + q mod 4 = 146097 * q"
  proof -
    have "146097 * q mod 4 = q mod 4" using mod_mult_left_eq [of 146097 4 q] by simp
    then show ?thesis by (metis mult_div_mod_eq)
  qed
  have bd: "b + (e + d) \<le> 36524 + (if q mod 4 = 3 then 1 else 0)"
  proof -
    have "r \<le> 98 \<or> r = 99" using r by linarith
    then show ?thesis
    proof
      assume "r \<le> 98"
      then have "b \<le> 35794" using bf by linarith
      with c show ?thesis by auto
    next
      assume "r = 99"
      then show ?thesis using c bf f by auto
    qed
  qed
  have q4: "q mod 4 \<le> 3" using mod_less_divisor [of 4 q] by linarith
  let ?r = "4 * (b + (e + d) - 1) + (3 - q mod 4)"
  have m: "4 * n - 6884477 = 146097 * q + ?r"
    using a n d(1) q4 unfolding b_def [symmetric] by linarith
  have "?r < 146097" using bd q4 by (cases "q mod 4 = 3") simp_all
  note dm = div_mod_sum [OF m this]
  from dm(1) show "cent_of n = q" unfolding cent_of_def .
  have "?r div 4 = b + (e + d) - 1"
    using div_mod_sum(1) [of ?r 4 "b + (e + d) - 1" "3 - q mod 4"] by linarith
  with dm(2) have cd: "cent_day n = b + (e + d) - 1" unfolding cent_day_def by (simp only:)
  have f4: "f \<le> 75" unfolding f using mod_less_divisor [of 4 r] by linarith
  let ?s = "100 * (e + d - 1) + (99 - f)"
  have m2: "cent_day n * 100 + 99 = 36525 * r + ?s"
    using bf f4 d(1) unfolding cd by simp
  have "?s < 36525" using c f4 f by auto
  note dm = div_mod_sum [OF m2 this]
  from dm(1) show "yoc_of n = r" unfolding yoc_of_def .
  have "?s div 100 = e + d - 1"
    using div_mod_sum(1) [of ?s 100 "e + d - 1" "99 - f"] by linarith
  with dm(2) have yd: "year_day n = e + d - 1" unfolding year_day_def by (simp only:)
  define g where "g = (153 * x + 2) mod 5"
  have eg: "153 * x + 2 = 5 * e + g" unfolding e_def g_def by (simp only: mult_div_mod_eq)
  have g4: "g \<le> 4" unfolding g_def using mod_less_divisor [of 5 "153 * x + 2"] by linarith
  let ?t = "5 * (d - 1) + (4 - g)"
  have m3: "year_day n * 5 + 2 = 153 * x + ?t"
    using eg g4 d(1) unfolding yd by simp
  have "?t < 153" using d g4 unfolding g_def [symmetric] by linarith
  note dm = div_mod_sum [OF m3 this]
  from dm(1) show "mon_of n = x" unfolding mon_of_def .
  have "?t div 5 = d - 1"
    using div_mod_sum(1) [of ?t 5 "d - 1" "4 - g"] by linarith
  with dm(2) d(1) show "mday_of n = d" unfolding mday_of_def by linarith
qed

lemma leap_parts:
  assumes "g_leap y" "1 \<le> y"
  shows "(y - 1) mod 100 mod 4 = 3 \<and> ((y - 1) mod 100 \<noteq> 99 \<or> (y - 1) div 100 mod 4 = 3)"
proof -
  obtain z where y: "y = Suc z" using assms(2) by (cases y) auto
  have z: "Suc z mod 4 = 0" "Suc z mod 100 \<noteq> 0 \<or> Suc z mod 400 = 0" using assms(1) y by (simp_all add: g_leap_def)
  have "z mod 100 mod 4 = z mod 4" by (rule mod_mod_cancel) simp
  moreover have "z mod 4 = 3" using z(1) by (simp add: mod_Suc split: if_splits)
  moreover have "z div 100 mod 4 = 3" if "z mod 100 = 99"
  proof -
    have "Suc z mod 100 = 0" using that by (simp add: mod_Suc)
    with z(2) have "z mod 400 = 399" by (simp add: mod_Suc split: if_splits)
    then show ?thesis using mod_mult2_eq [of z 100 4] that by simp
  qed
  ultimately show ?thesis using y by auto
qed

lemma len_fits:
  assumes "g_valid y m d"
  defines "x \<equiv> (m + 10) mod 12" and "my \<equiv> if m < 2 then y - 1 else y"
  shows "5 * (d + 1) \<le> 153 + (153 * x + 2) mod 5"
    and "(153 * x + 2) div 5 + (d + 1) \<le> 365 \<or> (153 * x + 2) div 5 + (d + 1) = 366 \<and> (my mod 100) mod 4 = 3
      \<and> (my mod 100 \<noteq> 99 \<or> (my div 100) mod 4 = 3)"
proof -
  have v: "1 \<le> y" "m < 12" "d < g_len y m" using assms(1) by (simp_all add: g_valid_def)
  from v(2,3) show "5 * (d + 1) \<le> 153 + (153 * x + 2) mod 5"
    unfolding x_def by (cases rule: month_cases) (auto simp: g_len_def split: if_splits)
  have leap: "(y - 1) mod 100 mod 4 = 3 \<and> ((y - 1) mod 100 \<noteq> 99 \<or> (y - 1) div 100 mod 4 = 3)" if "g_leap y"
    using that v(1) by (rule leap_parts)
  from v(2,3) show "(153 * x + 2) div 5 + (d + 1) \<le> 365 \<or> (153 * x + 2) div 5 + (d + 1) = 366 \<and> (my mod 100) mod 4 = 3
      \<and> (my mod 100 \<noteq> 99 \<or> (my div 100) mod 4 = 3)"
    using leap unfolding x_def my_def
    by (cases rule: month_cases) (auto simp: g_len_def split: if_splits)
qed

section \<open>The code computes the reference\<close>

lemma sdiv_nat: "int a sdiv int b = int (a div b)"
  by (simp add: signed_divide_int_def zdiv_int sgn_if)

lemma smod_nat: "int a smod int b = int (a mod b)"
  by (simp add: signed_modulo_int_def zmod_int sgn_if)

lemma uint_of_int_small: "0 \<le> k \<Longrightarrow> k < 2 ^ LENGTH('a) \<Longrightarrow> uint (word_of_int k :: 'a :: len word) = k"
  by (simp add: unsigned_of_int take_bit_int_eq_self)

lemma uint_small_16: "0 \<le> k \<Longrightarrow> k < 65536 \<Longrightarrow> uint (word_of_int k :: u16) = k"
  and uint_small_8: "0 \<le> k \<Longrightarrow> k < 256 \<Longrightarrow> uint (word_of_int k :: u8) = k"
  using uint_of_int_small [of k, where 'a = 16] uint_of_int_small [of k, where 'a = 8] by simp_all

lemma u32_month_cases:
  fixes m :: u32
  assumes "unat m < 12"
  obtains k where "k < 12" "m = of_nat k"
  using assms by (intro that [of "unat m"]) simp_all

lemma month_arith:
  fixes m :: u32
  assumes "unat m < 12"
  shows "m + 1 < 3 \<longleftrightarrow> unat m < 2"
    and "sint (m + 1 - word_of_int (12 * (if unat m < 2 then -1 else 0)) - 3) = int ((unat m + 10) mod 12)"
proof -
  obtain k where k: "k < 12" "m = of_nat k" using assms by (rule u32_month_cases)
  from k show "m + 1 < 3 \<longleftrightarrow> unat m < 2"
    "sint (m + 1 - word_of_int (12 * (if unat m < 2 then -1 else 0)) - 3) = int ((unat m + 10) mod 12)"
    by (cases rule: month_cases; simp)+
qed

text \<open>The day number is that of the calendar for every year up to 65535.\<close>

lemma ymd2cjdn_day:
  assumes "unat y + 1583 < 65536" "unat m < 12" "unat d < 255"
  shows "ymd2cjdn y m d = Inr (of_nat (g_day (unat y + 1583) (unat m) (unat d)))"
proof -
  define Y where "Y = unat y + 1583"
  define my where "my = (if unat m < 2 then Y - 1 else Y)"
  define x where "x = (unat m + 10) mod 12"
  have yi: "Y_OUT (uint y) = int Y" by (simp add: Y_OUT_def TT_GREGORIAN_BEGIN_def Y_def)
  have lt: "int Y < 65536" "int (unat d + 1) < 256"
    using assms(1,3) unfolding Y_def by linarith+
  have y': "uint (word_of_int (Y_OUT (uint y)) :: u16) = int Y"
    unfolding yi by (rule uint_small_16 [OF _ lt(1)]) simp
  have di: "MDAY_OUT (uint d) = int (unat d + 1)" by (simp add: MDAY_OUT_def)
  have d': "uint (word_of_int (MDAY_OUT (uint d)) :: u8) = int (unat d + 1)"
    unfolding di by (rule uint_small_8 [OF _ lt(2)]) simp
  have x4: "int Y + (if unat m < 2 then -1 else 0) = int my" by (simp add: my_def Y_def)
  have "ymd2cjdn y m d = (let j = int (146097 * (my div 100)) sdiv 4 + int (36525 * (my mod 100)) sdiv 100
      + int (153 * x + 2) sdiv 5 + int (unat d + 1) + 1721119
     in bindr (TT_ASSERT (j \<ge> 0)) (\<lambda>_. Inr (word_of_int j)))"
    using smod_nat [of my 100] sdiv_nat [of my 100]
    by (simp only: ymd2cjdn_def Let_def y' d' month_arith [OF assms(2)] x4 x_def of_nat_mult of_nat_add of_nat_numeral)
  also have "\<dots> = Inr (word_of_int (int (146097 * (my div 100) div 4 + 36525 * (my mod 100) div 100
      + (153 * x + 2) div 5 + (unat d + 1) + 1721119)))"
    using sdiv_nat [of _ 4] sdiv_nat [of _ 5] sdiv_nat [of _ 100]
    by (simp only: Let_def of_nat_numeral) simp
  also have "146097 * (my div 100) div 4 + 36525 * (my mod 100) div 100 + (153 * x + 2) div 5 + (unat d + 1) + 1721119
      = g_day Y (unat m) (unat d)"
    using day_parts [of Y "unat m" "unat d"] assms(2) unfolding x_def my_def by (simp add: Y_def)
  finally show ?thesis by (simp add: Y_def)
qed

text \<open>The inverse, for day numbers below \<open>2 ^ 30\<close>.\<close>

lemma unat_of_nat_u32: "n < 4294967296 \<Longrightarrow> unat (of_nat n :: u32) = n"
  by (simp add: unat_of_nat take_bit_nat_eq_self)

lemma div_mod_of_nat_u32:
  assumes "a < 4294967296" "k < 4294967296"
  shows "(of_nat a :: u32) div of_nat k = of_nat (a div k)" "(of_nat a :: u32) mod of_nat k = of_nat (a mod k)"
proof -
  have "a div k < 4294967296" "a mod k < 4294967296"
    using le_less_trans [OF div_le_dividend assms(1)] le_less_trans [OF mod_less_eq_dividend assms(1)] by auto
  then show "(of_nat a :: u32) div of_nat k = of_nat (a div k)" "(of_nat a :: u32) mod of_nat k = of_nat (a mod k)"
    using assms unat_div [of "of_nat a :: u32" "of_nat k"] unat_mod [of "of_nat a :: u32" "of_nat k"]
    by (simp_all add: word_unat_eq_iff unat_of_nat_u32 del: unat_of_nat)
qed

lemmas div_u32 = div_mod_of_nat_u32(1) [where k = "numeral k" for k, unfolded of_nat_numeral]
  and mod_u32 = div_mod_of_nat_u32(2) [where k = "numeral k" for k, unfolded of_nat_numeral]

lemma parts_bounds: "cent_day n \<le> 36524" "year_day n \<le> 365"
proof -
  have "(4 * n - 6884477) mod 146097 < 146097" "(cent_day n * 100 + 99) mod 36525 < 36525"
    by (rule mod_less_divisor, simp)+
  then show "cent_day n \<le> 36524" "year_day n \<le> 365"
    unfolding cent_day_def year_day_def by linarith+
qed

lemma cjdn2ymd_parts:
  assumes "6884477 \<le> 4 * n" "n < 1073741824"
  shows "cjdn2ymd (of_nat n) =
    (let c0 = (mon_of n + 2) div 12 in
     (ucast (of_nat (100 * cent_of n + yoc_of n + c0) - 1583 :: u32),
      of_nat (mon_of n) - 12 * of_nat c0 + 3 - 1, ucast (of_nat (mday_of n) - 1 :: u32)))"
proof -
  define m where "m = 4 * n - 6884477"
  have m: "4 * of_nat n - 6884477 = (of_nat m :: u32)" "m < 4294967296"
    using assms by (simp_all add: m_def of_nat_diff)
  have 1: "(of_nat m :: u32) div 146097 = of_nat (cent_of n)"
    unfolding cent_of_def m_def [symmetric] by (rule div_u32 [OF m(2)]) simp
  have lt: "m mod 146097 < 4294967296" by (rule less_trans [OF mod_less_divisor]) simp_all
  have 2: "(of_nat m :: u32) mod 146097 div 4 = of_nat (cent_day n)"
    unfolding cent_day_def m_def [symmetric]
    by (subst mod_u32 [OF m(2)], simp, rule div_u32 [OF lt], simp)
  define m2 where "m2 = cent_day n * 100 + 99"
  have m2: "of_nat (cent_day n) * 100 + 99 = (of_nat m2 :: u32)" "m2 < 4294967296"
    using parts_bounds(1) [of n] by (simp_all add: m2_def)
  have 3: "(of_nat m2 :: u32) div 36525 = of_nat (yoc_of n)"
    unfolding yoc_of_def m2_def [symmetric] by (rule div_u32 [OF m2(2)]) simp
  have lt: "m2 mod 36525 < 4294967296" by (rule less_trans [OF mod_less_divisor]) simp_all
  have 4: "(of_nat m2 :: u32) mod 36525 div 100 = of_nat (year_day n)"
    unfolding year_day_def m2_def [symmetric]
    by (subst mod_u32 [OF m2(2)], simp, rule div_u32 [OF lt], simp)
  define m3 where "m3 = year_day n * 5 + 2"
  have m3: "of_nat (year_day n) * 5 + 2 = (of_nat m3 :: u32)" "m3 < 4294967296" "m3 \<le> 1827"
    using parts_bounds(2) [of n] by (simp_all add: m3_def)
  have 5: "(of_nat m3 :: u32) div 153 = of_nat (mon_of n)"
    unfolding mon_of_def m3_def [symmetric] by (rule div_u32 [OF m3(2)]) simp
  have lt: "m3 mod 153 < 4294967296" by (rule less_trans [OF mod_less_divisor]) simp_all
  have "(of_nat m3 :: u32) mod 153 div 5 = of_nat (m3 mod 153 div 5)"
    by (subst mod_u32 [OF m3(2)], simp, rule div_u32 [OF lt], simp)
  then have 6: "(of_nat m3 :: u32) mod 153 div 5 + 1 = of_nat (mday_of n)"
    unfolding mday_of_def m3_def [symmetric] by simp
  have "mon_of n \<le> m3" unfolding mon_of_def m3_def by (rule div_le_dividend)
  then have lt: "mon_of n + 2 < 4294967296" using m3(3) by linarith
  have "(of_nat (mon_of n + 2) :: u32) div 12 = of_nat ((mon_of n + 2) div 12)"
    by (rule div_u32 [OF lt]) simp
  then have 7: "(of_nat (mon_of n) + 2 :: u32) div 12 = of_nat ((mon_of n + 2) div 12)"
    by (simp only: of_nat_add of_nat_numeral)
  show ?thesis
    by (simp only: cjdn2ymd_def Let_def m(1) 1 2 m2(1) 3 4 m3(1) 5 6 7 TT_GREGORIAN_BEGIN_def)
      (simp add: add.assoc)
qed

lemma ucast_of_nat_u32: "k < 4294967296 \<Longrightarrow> ucast (of_nat k :: u32) = (of_nat k :: 'a :: len word)"
  by (simp add: unsigned_of_nat take_bit_nat_eq_self)

lemma years_bound: "g_years y \<le> 366 * y"
proof -
  have "y div 400 \<le> y div 100" by (rule div_le_mono2) simp_all
  moreover have "y div 4 \<le> y" by (rule div_le_dividend)
  ultimately show ?thesis unfolding g_years_def by linarith
qed

lemma before_bound:
  assumes "m < 12"
  shows "g_before y m \<le> 335"
  using assms by (cases rule: month_cases) (simp_all add: before_table before_table(1) [unfolded One_nat_def] g_len_def)

lemma day_bound: "m < 12 \<Longrightarrow> g_day y m d \<le> 366 * y + d + 1721761"
  using years_bound [of "y - 1"] before_bound [of m y] unfolding g_day_def by linarith

lemma month_back:
  assumes "m < 12"
  shows "(of_nat ((m + 10) mod 12) :: u32) - 12 * of_nat (((m + 10) mod 12 + 2) div 12) + 3 - 1 = of_nat m"
    "((m + 10) mod 12 + 2) div 12 = (if m < 2 then 1 else 0)"
  using assms by (cases rule: month_cases; simp)+

lemma shift_306: "a + 306 = p + d + 1721426 \<Longrightarrow> a = p + (d + 1) + 1721119" for a p d :: nat
  by simp

text \<open>On the day number of a valid date from 1583 the code finds the date again.\<close>

lemma cjdn2ymd_day:
  assumes v: "g_valid y m d" and y: "1583 \<le> y" "y < 100000"
  shows "cjdn2ymd (of_nat (g_day y m d)) = (of_nat (y - 1583), of_nat m, of_nat d)"
proof -
  define x where "x = (m + 10) mod 12"
  define my where "my = (if m < 2 then y - 1 else y)"
  have m: "m < 12" and "d < g_len y m" using v by (simp_all add: g_valid_def)
  then have d: "d < 31" by (auto simp: g_len_def split: if_splits)
  have n: "g_day y m d = 146097 * (my div 100) div 4 + 36525 * (my mod 100) div 100 + (153 * x + 2) div 5 + (d + 1) + 1721119"
    by (rule shift_306, rule day_parts [of y m d, OF _ m, folded x_def my_def]) (use y in simp)
  have r: "my mod 100 < 100" "1 \<le> d + 1" by simp_all
  note parts = parts_of [OF r len_fits [OF v, folded x_def my_def] n]
  have c0: "my + (x + 2) div 12 = y" "(of_nat x :: u32) - 12 * of_nat ((x + 2) div 12) + 3 - 1 = of_nat m"
    using y month_back [OF m] unfolding x_def my_def by simp_all
  have "g_day y m d < 1073741824" using day_bound [OF m, of y d] y(2) d by simp
  moreover have "6884477 \<le> 4 * g_day y m d" by (simp add: g_day_def)
  ultimately have "cjdn2ymd (of_nat (g_day y m d)) =
    (ucast (of_nat (my + (x + 2) div 12) - 1583 :: u32),
      of_nat x - 12 * of_nat ((x + 2) div 12) + 3 - 1, ucast (of_nat (d + 1) - 1 :: u32))"
    using cjdn2ymd_parts [of "g_day y m d"] by (simp only: parts Let_def) simp
  moreover have "(of_nat y - 1583 :: u32) = of_nat (y - 1583)" using y(1) by (simp add: of_nat_diff)
  ultimately show ?thesis
    using y d ucast_of_nat_u32 [of "y - 1583", where 'a = 16] ucast_of_nat_u32 [of d, where 'a = 8] by (simp only: c0) simp
qed

section \<open>Every day is a date\<close>

text \<open>The next day of the calendar.\<close>

definition g_next :: "nat \<times> nat \<times> nat \<Rightarrow> nat \<times> nat \<times> nat" where
  "g_next = (\<lambda>(y, m, d).
    if Suc d < g_len y m then (y, m, Suc d) else if m < 11 then (y, Suc m, 0) else (Suc y, 0, 0))"

lemma len_pos: "0 < g_len y m"
  by (simp add: g_len_def)

lemma next_day:
  assumes "g_valid y m d" "g_next (y, m, d) = (y', m', d')"
  shows "g_valid y' m' d'" "g_day y' m' d' = Suc (g_day y m d)"
proof -
  have v: "1 \<le> y" "m < 12" "d < g_len y m" using assms(1) by (simp_all add: g_valid_def)
  show "g_valid y' m' d'"
    using assms len_pos by (auto simp: g_next_def g_valid_def split: if_splits)
  consider "Suc d < g_len y m" | "Suc d = g_len y m" "m < 11" | "Suc d = g_len y m" "m = 11"
    using v(2,3) by linarith
  then show "g_day y' m' d' = Suc (g_day y m d)"
  proof cases
    case 1
    with assms(2) show ?thesis by (auto simp: g_next_def g_day_def)
  next
    case 2
    with assms(2) show ?thesis by (auto simp: g_next_def g_day_def)
  next
    case 3
    have "g_years y = g_years (y - 1) + 365 + (if g_leap y then 1 else 0)"
      using years_suc [of "y - 1"] v(1) by simp
    moreover have "g_before y 11 = 334 + (if g_leap y then 1 else 0)" by (simp add: before_table)
    moreover have "y' = Suc y" "m' = 0" "d' = 0" "d = 30" using 3 assms(2) by (auto simp: g_next_def g_len_def)
    ultimately show ?thesis using 3 by (simp add: g_day_def)
  qed
qed

lemma day_reachable:
  "\<exists>y m d. g_valid y m d \<and> 1583 \<le> y \<and> g_day y m d = g_day 1583 0 0 + n"
proof (induction n)
  case 0
  have "g_valid 1583 0 0" by (simp add: g_valid_def g_len_def)
  then show ?case by (intro exI [of _ 1583] exI [of _ 0]) simp
next
  case (Suc n)
  then obtain y m d where i: "g_valid y m d" "1583 \<le> y" "g_day y m d = g_day 1583 0 0 + n" by blast
  obtain y' m' d' where n: "g_next (y, m, d) = (y', m', d')" by (cases "g_next (y, m, d)") auto
  with i(2) have "1583 \<le> y'" by (auto simp: g_next_def split: if_splits)
  with next_day [OF i(1) n] i(3) show ?case by auto
qed

lemma day_exists:
  assumes "g_day 1583 0 0 \<le> n"
  obtains y m d where "g_valid y m d" "1583 \<le> y" "g_day y m d = n"
  using day_reachable [of "n - g_day 1583 0 0"] assms by auto

text \<open>Later dates have greater day numbers, so the date of a day is unique.\<close>

lemma years_mono: "y \<le> y' \<Longrightarrow> g_years y \<le> g_years y'"
  by (rule lift_Suc_mono_le [where f = g_years]) (simp_all add: years_suc)

lemma day_in_year:
  assumes "g_valid y m d"
  shows "g_years (y - 1) + 1721426 \<le> g_day y m d" "g_day y m d < g_years y + 1721426"
proof -
  have v: "1 \<le> y" "m < 12" "d < g_len y m" using assms by (simp_all add: g_valid_def)
  show "g_years (y - 1) + 1721426 \<le> g_day y m d" by (simp add: g_day_def)
  have "g_before y m + g_len y m \<le> 365 + (if g_leap y then 1 else 0)"
    using v(2) by (cases rule: month_cases) (simp_all add: before_table before_table(1) [unfolded One_nat_def] g_len_def)
  moreover have "g_years y = g_years (y - 1) + 365 + (if g_leap y then 1 else 0)"
    using years_suc [of "y - 1"] v(1) by simp
  ultimately show "g_day y m d < g_years y + 1721426" using v(3) by (simp add: g_day_def)
qed

lemma day_year_less:
  assumes "g_valid y m d" "g_day y m d < g_years k + 1721426"
  shows "y \<le> k"
proof (rule ccontr)
  assume "\<not> y \<le> k"
  then have "g_years k \<le> g_years (y - 1)" by (intro years_mono) simp
  with day_in_year(1) [OF assms(1)] assms(2) show False by simp
qed

end
