(* ===== verification/TT_Date_Days.thy ===== *)
theory TT_Date_Days
  imports TT_Calendar
begin

text \<open>
  Dates of the code and days of the calendar: what a valid date is, the day it stands for, and what adding
  and subtracting days does. The code has no 29 February in the years divisible by 3200, the reference has.
\<close>

section \<open>Valid dates\<close>

definition d_year :: "tt_date \<Rightarrow> nat" where
  "d_year date = unat (year date) + 1583"

definition date_day :: "tt_date \<Rightarrow> nat" where
  "date_day date = g_day (d_year date) (unat (month date)) (unat (mday date))"

text \<open>A date of the code's calendar in a year that 16 bits can name.\<close>

definition date_in_range :: "tt_date \<Rightarrow> bool" where
  "date_in_range date \<longleftrightarrow> tt_date_valid date \<and> d_year date < 65536"

text \<open>29 February of a year divisible by 3200.\<close>

definition day_3200 :: "nat \<Rightarrow> bool" where
  "day_3200 n \<longleftrightarrow> (\<exists>y. 1583 \<le> y \<and> y mod 3200 = 0 \<and> n = g_day y 1 28)"

lemma leap_year_iff: "leap_year y \<longleftrightarrow> g_leap (unat y + 1583) \<and> (unat y + 1583) mod 3200 \<noteq> 0"
proof -
  have "Y_OUT (uint y) = int (unat y + 1583)" by (simp add: Y_OUT_def TT_GREGORIAN_BEGIN_def)
  moreover have "\<not> int (unat y + 1583) < 0" by (simp only: of_nat_less_0_iff not_False_eq_True)
  ultimately have "leap_year y \<longleftrightarrow> int (unat y + 1583) smod int 4 = 0
      \<and> (int (unat y + 1583) smod int 100 \<noteq> 0 \<or> int (unat y + 1583) smod int 400 = 0)
      \<and> int (unat y + 1583) smod int 3200 \<noteq> 0"
    by (simp only: leap_year_def Let_def if_False of_nat_numeral)
  then show ?thesis unfolding smod_nat of_nat_eq_0_iff g_leap_def by (simp only: conj_assoc)
qed

lemma table_len:
  assumes "m < 12"
  shows "unat (s_daynum_of ! m) = (if m = 1 then 28 else if m \<in> {3, 5, 8, 10} then 30 else 31)"
    "unat (s_daynum_of_leap ! m) = (if m = 1 then 29 else if m \<in> {3, 5, 8, 10} then 30 else 31)"
  using assms by (cases rule: month_cases; simp add: s_daynum_of_def s_daynum_of_leap_def)+

lemma daynum_len:
  assumes "m < 12"
  shows "unat (daynum_of y ! m) = (if m = 1 \<and> g_leap (unat y + 1583) \<and> (unat y + 1583) mod 3200 = 0
    then 28 else g_len (unat y + 1583) m)"
  by (cases "g_leap (unat y + 1583)"; cases "(unat y + 1583) mod 3200 = 0";
    simp only: daynum_of_def leap_year_iff g_len_def table_len [OF assms] simp_thms if_True if_False; simp)

lemma unat_ucast_8: "unat (ucast (x :: u8) :: u32) = unat x"
  using unat_lt_8 [of x] by (simp add: unsigned_ucast_eq take_bit_nat_eq_self)

lemma date_valid_iff:
  "date_valid y m d \<longleftrightarrow> g_valid (unat y + 1583) (unat m) (unat d)
     \<and> \<not> ((unat y + 1583) mod 3200 = 0 \<and> unat m = 1 \<and> unat d = 28)"
proof (cases "unat m < 12")
  case True
  have c: "unat (ucast d :: u32) = unat d" by (rule unat_ucast_8)
  have "date_valid y m d \<longleftrightarrow> unat d < unat (daynum_of y ! unat m)"
    using True c by (simp add: date_valid_def TT_MONTH_VALID_def TT_MONTH_NUM_def word_less_nat_alt word_le_nat_alt not_le)
  then show ?thesis
    using True daynum_len [OF True, of y] by (auto simp: g_valid_def g_len_def g_leap_def split: if_splits)
next
  case False
  then show ?thesis by (simp add: date_valid_def TT_MONTH_VALID_def TT_MONTH_NUM_def word_less_nat_alt g_valid_def)
qed

lemma date_in_range_iff:
  "date_in_range date \<longleftrightarrow> g_valid (d_year date) (unat (month date)) (unat (mday date)) \<and> d_year date < 65536
     \<and> \<not> (d_year date mod 3200 = 0 \<and> unat (month date) = 1 \<and> unat (mday date) = 28)"
  by (auto simp: date_in_range_def tt_date_valid_def date_valid_iff d_year_def unat_ucast_8)

text \<open>The first day of a year, and the bound of the days of the years that 16 bits can name.\<close>

lemma new_year: "g_day (Suc y) 0 0 = g_years y + 1721426"
  by (simp add: g_day_def)

definition last_day :: nat where
  "last_day = g_day 65536 0 0"

lemma day_before_last: "g_valid y m d \<Longrightarrow> y < 65536 \<Longrightarrow> g_day y m d < last_day"
  using day_in_year(2) [of y m d] years_mono [of y 65535] new_year [of 65535] by (simp add: last_day_def)

lemma before_last_year: "g_valid y m d \<Longrightarrow> g_day y m d < last_day \<Longrightarrow> y < 65536"
  using day_year_less [of y m d 65535] new_year [of 65535] by (simp add: last_day_def)

lemma last_day_small: "last_day < 25800000"
  using day_bound [of 0 65536 0] by (simp add: last_day_def)

text \<open>Two dates of the same day are the same date.\<close>

lemma day_inj:
  assumes "g_valid y m d" "g_valid y' m' d'" "1583 \<le> y" "1583 \<le> y'" "y < 65536" "y' < 65536" "g_day y m d = g_day y' m' d'"
  shows "y = y'" "m = m'" "d = d'"
proof -
  have e: "(of_nat (y - 1583) :: u16, of_nat m :: u32, of_nat d :: u8) = (of_nat (y' - 1583), of_nat m', of_nat d')"
    using cjdn2ymd_day [OF assms(1,3)] cjdn2ymd_day [OF assms(2,4)] assms(5-7) by simp
  have d: "d < 31" "d' < 31" and m: "m < 12" "m' < 12"
    using assms(1,2) by (auto simp: g_valid_def g_len_def split: if_splits)
  have "unat (of_nat (y - 1583) :: u16) = y - 1583" "unat (of_nat (y' - 1583) :: u16) = y' - 1583"
    using assms(5,6) by (simp_all add: unat_of_nat take_bit_nat_eq_self)
  moreover have "unat (of_nat m :: u32) = m" "unat (of_nat m' :: u32) = m'"
    "unat (of_nat d :: u8) = d" "unat (of_nat d' :: u8) = d'"
    using m d by (simp_all add: unat_of_nat take_bit_nat_eq_self)
  ultimately show "y = y'" "m = m'" "d = d'" using e assms(3,4) by (metis Pair_inject le_add_diff_inverse)+
qed

section \<open>Moving to another day\<close>

definition at_day :: "tt_date \<Rightarrow> nat \<Rightarrow> nat \<Rightarrow> nat \<Rightarrow> tt_date" where
  "at_day date y m d = date\<lparr>year := of_nat (y - 1583), month := of_nat m, mday := of_nat d\<rparr>"

lemma at_day:
  assumes "g_valid y m d" "1583 \<le> y" "y < 65536"
  shows "d_year (at_day date y m d) = y" "unat (month (at_day date y m d)) = m" "unat (mday (at_day date y m d)) = d"
    "date_day (at_day date y m d) = g_day y m d"
    "tt_date_valid (at_day date y m d) \<longleftrightarrow> \<not> day_3200 (g_day y m d)"
    "hour (at_day date y m d) = hour date" "minute (at_day date y m d) = minute date"
    "second (at_day date y m d) = second date" "tz (at_day date y m d) = tz date"
proof -
  have d: "d < 31" and m: "m < 12"
    using assms(1) by (auto simp: g_valid_def g_len_def split: if_splits)
  show 1: "d_year (at_day date y m d) = y" "unat (month (at_day date y m d)) = m" "unat (mday (at_day date y m d)) = d"
  proof -
    have "unat (of_nat (y - 1583) :: u16) = y - 1583"
      using assms(3) by (simp add: unat_of_nat take_bit_nat_eq_self)
    with assms(2) show "d_year (at_day date y m d) = y" by (simp add: at_day_def d_year_def del: of_nat_diff)
  qed (use m d in \<open>simp_all add: at_day_def unat_of_nat take_bit_nat_eq_self\<close>)
  then show "date_day (at_day date y m d) = g_day y m d" by (simp add: date_day_def)
  have leap: "g_valid y' 1 28" if "1583 \<le> y'" "y' mod 3200 = 0" for y'
  proof -
    have "y' mod 400 = 0" "y' mod 4 = 0"
      using that(2) mod_mod_cancel [of 400 3200 y'] mod_mod_cancel [of 4 3200 y'] by simp_all
    then show ?thesis using that(1) by (simp add: g_valid_def g_len_def g_leap_def)
  qed
  have "day_3200 (g_day y m d) \<longleftrightarrow> y mod 3200 = 0 \<and> m = 1 \<and> d = 28"
  proof
    assume "day_3200 (g_day y m d)"
    then obtain y' where y': "1583 \<le> y'" "y' mod 3200 = 0" "g_day y m d = g_day y' 1 28" by (auto simp: day_3200_def)
    have "g_day y m d < last_day" using assms(1,3) by (rule day_before_last)
    then have "y' < 65536" using before_last_year [OF leap [OF y'(1,2)]] y'(3) by simp
    with day_inj [OF assms(1) leap [OF y'(1,2)] assms(2) y'(1) assms(3) _ y'(3)] y'(2)
    show "y mod 3200 = 0 \<and> m = 1 \<and> d = 28" by simp
  qed (use assms(2) in \<open>auto simp: day_3200_def\<close>)
  moreover have "unat (year (at_day date y m d)) + 1583 = y" using 1(1) by (simp add: d_year_def)
  ultimately show "tt_date_valid (at_day date y m d) \<longleftrightarrow> \<not> day_3200 (g_day y m d)"
    using 1 assms(1) by (simp add: tt_date_valid_def date_valid_iff unat_ucast_8)
  show "hour (at_day date y m d) = hour date" "minute (at_day date y m d) = minute date"
    "second (at_day date y m d) = second date" "tz (at_day date y m d) = tz date"
    by (simp_all add: at_day_def)
qed

text \<open>The day of a date as the code computes it, and the date it makes of a day.\<close>

lemma day_number:
  assumes "date_in_range date"
  shows "ymd2cjdn (year date) (ucast (month date)) (mday date) = Inr (of_nat (date_day date))"
    "date_day date < last_day" "g_day 1583 0 0 \<le> date_day date"
proof -
  have v: "g_valid (d_year date) (unat (month date)) (unat (mday date))" "d_year date < 65536"
    using assms by (simp_all add: date_in_range_iff)
  then have "unat (mday date) < 255" "unat (month date) < 12"
    by (auto simp: g_valid_def g_len_def split: if_splits)
  with v show "ymd2cjdn (year date) (ucast (month date)) (mday date) = Inr (of_nat (date_day date))"
    by (subst ymd2cjdn_day) (simp_all add: unat_ucast_8 date_day_def d_year_def)
  show "date_day date < last_day" unfolding date_day_def using v by (rule day_before_last)
  have "g_years 1582 \<le> g_years (d_year date - 1)" by (rule years_mono) (simp add: d_year_def)
  then show "g_day 1583 0 0 \<le> date_day date" by (simp add: date_day_def g_day_def)
qed

lemma date_of_day:
  assumes "g_day 1583 0 0 \<le> n" "n < last_day"
  obtains y m d where "g_valid y m d" "1583 \<le> y" "y < 65536" "g_day y m d = n"
    "cjdn2ymd (of_nat n) = (of_nat (y - 1583), of_nat m, of_nat d)"
    "\<And>date. date\<lparr>year := of_nat (y - 1583), mday := of_nat d, month := ucast (of_nat m :: u32)\<rparr> = at_day date y m d"
proof -
  obtain y m d where i: "g_valid y m d" "1583 \<le> y" "g_day y m d = n" using assms(1) by (rule day_exists)
  then have y: "y < 65536" using before_last_year assms(2) by simp
  have "m < 12" using i(1) by (simp add: g_valid_def)
  then have "ucast (of_nat m :: u32) = (of_nat m :: u8)" by (intro ucast_of_nat_u32) simp
  then show thesis
    using i y cjdn2ymd_day [OF i(1,2)] by (intro that [of y m d]) (simp_all add: at_day_def)
qed

lemma inc_day_run:
  assumes "date_in_range date" "date_day date + unat k < last_day"
  shows "\<exists>y m d. g_valid y m d \<and> 1583 \<le> y \<and> y < 65536 \<and> g_day y m d = date_day date + unat k \<and>
    tt_date_inc_day date k = (if day_3200 (g_day y m d) then Inl Throw else Inr (TT_SUCCESS, at_day date y m d))"
proof -
  note n = day_number [OF assms(1)]
  have "g_day 1583 0 0 \<le> date_day date + unat k" using n(3) by simp
  then obtain y m d where i: "g_valid y m d" "1583 \<le> y" "y < 65536" "g_day y m d = date_day date + unat k"
    "cjdn2ymd (of_nat (date_day date + unat k)) = (of_nat (y - 1583), of_nat m, of_nat d)"
    "\<And>date. date\<lparr>year := of_nat (y - 1583), mday := of_nat d, month := ucast (of_nat m :: u32)\<rparr> = at_day date y m d"
    using assms(2) by (rule date_of_day) blast
  have un: "unat (of_nat (date_day date) :: u32) = date_day date"
    using n(2) last_day_small by (intro unat_of_nat_u32) simp
  have sum: "of_nat (date_day date) + k = (of_nat (date_day date + unat k) :: u32)" by simp
  have "unat (of_nat (date_day date) + k) = date_day date + unat k"
    using un assms(2) last_day_small by (subst unat_add_u32) simp_all
  then have nov: "\<not> of_nat (date_day date) + k < k" by (simp add: word_less_nat_alt)
  have valid: "date_valid (of_nat (y - 1583)) (ucast (ucast (of_nat m :: u32) :: u8)) (of_nat d)
      \<longleftrightarrow> \<not> day_3200 (g_day y m d)"
    using at_day(5) [OF i(1-3), of date, folded i(6)] by (simp add: tt_date_valid_def del: of_nat_diff)
  have "tt_date_inc_day date k = (if day_3200 (g_day y m d) then Inl Throw else Inr (TT_SUCCESS, at_day date y m d))"
    using n(1) nov valid by (simp add: tt_date_inc_day_def Let_def i(5,6) sum del: of_nat_add of_nat_diff)
  with i(1-4) show ?thesis by blast
qed

lemma not_day_3200: "n < g_day 3200 1 28 \<Longrightarrow> \<not> day_3200 n"
proof
  assume n: "n < g_day 3200 1 28" "day_3200 n"
  then obtain y where y: "1583 \<le> y" "y mod 3200 = 0" "n = g_day y 1 28" by (auto simp: day_3200_def)
  then have "3200 \<le> y" by (cases "y < 3200") simp_all
  then have "g_years 3199 \<le> g_years (y - 1)" by (intro years_mono) simp
  with n(1) y(3) show False by (simp add: g_day_def g_len_def)
qed

lemma min_cjdn: "s_min_cjdn = Inr (of_nat (g_day 1583 0 1))"
proof -
  have "s_min_cjdn = ymd2cjdn 0 0 1" by (simp add: s_min_cjdn_def Y_IN_def TT_GREGORIAN_BEGIN_def)
  also have "\<dots> = Inr (of_nat (g_day 1583 0 1))" using ymd2cjdn_day [of 0 0 1] by simp
  finally show ?thesis .
qed

lemma dec_day_run:
  assumes "date_in_range date"
  shows "if g_day 1583 0 1 + unat k \<le> date_day date
    then \<exists>y m d. g_valid y m d \<and> 1583 \<le> y \<and> y < 65536 \<and> g_day y m d + unat k = date_day date \<and>
      tt_date_dec_day date k = (if day_3200 (g_day y m d) then Inl Throw else Inr (TT_SUCCESS, at_day date y m d))
    else tt_date_dec_day date k = Inr (TT_FAIL, date)"
proof -
  note n = day_number [OF assms]
  have un: "unat (of_nat (date_day date) :: u32) = date_day date"
    using n(2) last_day_small by (intro unat_of_nat_u32) simp
  have m1: "g_day 1583 0 1 < 25800000" using day_bound [of 0 1583 1] by simp
  then have um: "unat (of_nat (g_day 1583 0 1) :: u32) = g_day 1583 0 1" by (intro unat_of_nat_u32) simp
  have lim: "of_nat (g_day 1583 0 1) + k < k \<or> of_nat (g_day 1583 0 1) + k > of_nat (date_day date)
      \<longleftrightarrow> \<not> g_day 1583 0 1 + unat k \<le> date_day date"
  proof (cases "unat (of_nat (g_day 1583 0 1) :: u32) + unat k < 4294967296")
    case True
    then have "unat (of_nat (g_day 1583 0 1) + k) = g_day 1583 0 1 + unat k" using um unat_add_u32 by simp
    with un show ?thesis by (auto simp: word_less_nat_alt)
  next
    case False
    then have "unat (of_nat (g_day 1583 0 1) + k) < unat k"
      using unat_add_wrap_u32 [of k "of_nat (g_day 1583 0 1)"] by (simp add: add.commute)
    moreover have "\<not> g_day 1583 0 1 + unat k \<le> date_day date"
      using False um n(2) last_day_small by simp
    ultimately show ?thesis by (simp add: word_less_nat_alt)
  qed
  show ?thesis
  proof (cases "g_day 1583 0 1 + unat k \<le> date_day date")
    case True
    have le: "g_day 1583 0 0 \<le> g_day 1583 0 1" by (simp add: g_day_def)
    have "g_day 1583 0 0 \<le> date_day date - unat k" "date_day date - unat k < last_day"
      using True le n(2) by linarith+
    then obtain y m d where i: "g_valid y m d" "1583 \<le> y" "y < 65536" "g_day y m d = date_day date - unat k"
      "cjdn2ymd (of_nat (date_day date - unat k)) = (of_nat (y - 1583), of_nat m, of_nat d)"
      "\<And>date. date\<lparr>year := of_nat (y - 1583), mday := of_nat d, month := ucast (of_nat m :: u32)\<rparr> = at_day date y m d"
      by (rule date_of_day) blast
    have dif: "of_nat (date_day date) - k = (of_nat (date_day date - unat k) :: u32)"
      using True by (simp add: of_nat_diff)
    have valid: "date_valid (of_nat (y - 1583)) (ucast (ucast (of_nat m :: u32) :: u8)) (of_nat d)
        \<longleftrightarrow> \<not> day_3200 (g_day y m d)"
      using at_day(5) [OF i(1-3), of date, folded i(6)] by (simp add: tt_date_valid_def del: of_nat_diff)
    have "tt_date_dec_day date k = (if day_3200 (g_day y m d) then Inl Throw else Inr (TT_SUCCESS, at_day date y m d))"
      using n(1) True lim valid by (simp add: tt_date_dec_day_def min_cjdn Let_def i(5,6) dif del: of_nat_diff)
    moreover have "g_day y m d + unat k = date_day date" using i(4) True by simp
    ultimately show ?thesis using i(1-3) True by auto
  next
    case False
    then have "tt_date_dec_day date k = Inr (TT_FAIL, date)"
      using n(1) lim by (simp add: tt_date_dec_day_def min_cjdn)
    with False show ?thesis by simp
  qed
qed

section \<open>Days\<close>

text \<open>
  C36. Adding and subtracting days follows the Gregorian calendar. For every valid date in a year up to
  65535 and every number of days whose target is in these years too, adding gives the valid date of the
  target day and leaves the time alone; only when the target is 29 February of a year divisible by 3200, a
  day the code's leap year rule does not know but its day numbers do, the assertion behind the computation
  fails. Subtracting does the same down to the second day of 1583 and fails without change below; the first
  day, 1 January 1583, is refused although it is a date.
\<close>

theorem date_days:
  assumes "date_in_range date"
  shows "(date_day date + unat k < last_day \<longrightarrow>
      (if day_3200 (date_day date + unat k) then tt_date_inc_day date k = Inl Throw
       else \<exists>date'. tt_date_inc_day date k = Inr (TT_SUCCESS, date') \<and> date_in_range date'
         \<and> date_day date' = date_day date + unat k
         \<and> date' = date\<lparr>year := year date', month := month date', mday := mday date'\<rparr>))
    \<and> (if \<not> g_day 1583 0 1 + unat k \<le> date_day date then tt_date_dec_day date k = Inr (TT_FAIL, date)
       else if day_3200 (date_day date - unat k) then tt_date_dec_day date k = Inl Throw
       else \<exists>date'. tt_date_dec_day date k = Inr (TT_SUCCESS, date') \<and> date_in_range date'
         \<and> date_day date' + unat k = date_day date
         \<and> date' = date\<lparr>year := year date', month := month date', mday := mday date'\<rparr>)"
proof
  have fields: "at_day date y m d = date\<lparr>year := year (at_day date y m d), month := month (at_day date y m d),
      mday := mday (at_day date y m d)\<rparr>" for y m d
    by (simp add: at_day_def)
  have good: "date_in_range (at_day date y m d) \<and> date_day (at_day date y m d) = g_day y m d"
    if "g_valid y m d" "1583 \<le> y" "y < 65536" "\<not> day_3200 (g_day y m d)" for y m d
    using at_day [OF that(1-3), of date] that by (simp add: date_in_range_def)
  show "date_day date + unat k < last_day \<longrightarrow>
      (if day_3200 (date_day date + unat k) then tt_date_inc_day date k = Inl Throw
       else \<exists>date'. tt_date_inc_day date k = Inr (TT_SUCCESS, date') \<and> date_in_range date'
         \<and> date_day date' = date_day date + unat k
         \<and> date' = date\<lparr>year := year date', month := month date', mday := mday date'\<rparr>)"
    using inc_day_run [OF assms, of k] good fields by metis
  show "if \<not> g_day 1583 0 1 + unat k \<le> date_day date then tt_date_dec_day date k = Inr (TT_FAIL, date)
       else if day_3200 (date_day date - unat k) then tt_date_dec_day date k = Inl Throw
       else \<exists>date'. tt_date_dec_day date k = Inr (TT_SUCCESS, date') \<and> date_in_range date'
         \<and> date_day date' + unat k = date_day date
         \<and> date' = date\<lparr>year := year date', month := month date', mday := mday date'\<rparr>"
  proof (cases "g_day 1583 0 1 + unat k \<le> date_day date")
    case True
    then obtain y m d where i: "g_valid y m d" "1583 \<le> y" "y < 65536" "g_day y m d + unat k = date_day date"
      "tt_date_dec_day date k = (if day_3200 (g_day y m d) then Inl Throw else Inr (TT_SUCCESS, at_day date y m d))"
      using dec_day_run [OF assms, of k] by auto
    then have "date_day date - unat k = g_day y m d" by simp
    with i True good [OF i(1-3)] fields [of y m d] show ?thesis by metis
  next
    case False
    with dec_day_run [OF assms, of k] show ?thesis by simp
  qed
qed

text \<open>From the last of February of 2000 and of 3200 a day on, and back from the first days of 1583.\<close>

theorem date_days_witness:
  "(\<exists>date'. tt_date_inc_day \<lparr>year = 417, mday = 28, hour = 1, minute = 2, second = 3, month = 1, tz = 14\<rparr> 1
     = Inr (TT_SUCCESS, date') \<and> date_day date' = 2451605)
   \<and> tt_date_inc_day \<lparr>year = 1617, mday = 27, hour = 0, minute = 0, second = 0, month = 1, tz = 14\<rparr> 1 = Inl Throw
   \<and> tt_date_dec_day \<lparr>year = 0, mday = 1, hour = 0, minute = 0, second = 0, month = 0, tz = 14\<rparr> 1
     = Inr (TT_FAIL, \<lparr>year = 0, mday = 1, hour = 0, minute = 0, second = 0, month = 0, tz = 14\<rparr>)"
proof -
  let ?a = "\<lparr>year = 417, mday = 28, hour = 1, minute = 2, second = 3, month = 1, tz = 14\<rparr> :: tt_date"
  let ?b = "\<lparr>year = 1617, mday = 27, hour = 0, minute = 0, second = 0, month = 1, tz = 14\<rparr> :: tt_date"
  let ?c = "\<lparr>year = 0, mday = 1, hour = 0, minute = 0, second = 0, month = 0, tz = 14\<rparr> :: tt_date"
  have r: "date_in_range ?a" "date_in_range ?b" "date_in_range ?c"
    by (simp_all add: date_in_range_iff d_year_def g_valid_def g_len_def g_leap_def)
  have d: "date_day ?a = 2451604" "date_day ?b = 2889894" "date_day ?c = 2299240"
    by (simp_all add: date_day_def d_year_def g_day_def g_years_def g_len_def)
  have l: "2889896 < last_day" by (simp add: last_day_def g_day_def g_years_def)
  have no: "\<not> day_3200 2451605" by (rule not_day_3200) (simp add: g_day_def g_years_def g_len_def)
  have yes: "day_3200 2889895"
    unfolding day_3200_def by (rule exI [of _ 3200]) (simp add: g_day_def g_years_def g_len_def)
  have m: "g_day 1583 0 1 = 2299240" by (simp add: g_day_def g_years_def)
  show ?thesis
    using date_days [OF r(1), of 1] date_days [OF r(2), of 1] date_days [OF r(3), of 1] d l no yes m by auto
qed

end
