(* ===== verification/TT_Date_Props.thy ===== *)
theory TT_Date_Props
  imports TT_Date_Days
begin

text \<open>
  Dates with a time of day: adding and subtracting hours, minutes and seconds, time zones, differences and
  comparison in terms of the seconds since a fixed instant, and the day of the week and of the year.
\<close>

section \<open>Carry and borrow\<close>

text \<open>One digit with base \<open>b\<close>: what is carried to the next digit and the new digit.\<close>

lemma carry:
  fixes f :: u8 and k b :: u32
  assumes "unat f < unat b" "unat b \<le> 100" "2 \<le> unat b"
  obtains q r where "(if b \<le> ucast f + k mod b then (k div b + 1, k mod b - b) else (k div b, k mod b)) = (q, r)"
    "unat q * unat b + unat (ucast (ucast f + r) :: u8) = unat f + unat k" "unat (ucast (ucast f + r) :: u8) < unat b"
proof -
  let ?m = "unat k mod unat b" and ?d = "unat k div unat b"
  have mb: "?m < unat b" using assms(3) by (intro mod_less_divisor) simp
  have k: "?d * unat b + ?m = unat k" by (rule div_mult_mod_eq)
  have "unat f + ?m < 4294967296" using assms(1,2) mb by linarith
  then have sum: "unat (ucast f + k mod b) = unat f + ?m"
    by (subst unat_add_u32) (simp_all add: unat_ucast_8 unat_mod)
  have u8: "unat (ucast x :: u8) = unat x" if "unat x < 256" for x :: u32
    using that by (simp add: unsigned_ucast_eq take_bit_nat_eq_self)
  show thesis
  proof (cases "b \<le> ucast f + k mod b")
    case True
    then have le: "unat b \<le> unat f + ?m" using sum by (simp add: word_le_nat_alt)
    have "ucast f + (k mod b - b) = (ucast f + k mod b) - b" by simp
    moreover have "unat ((ucast f + k mod b) - b) = unat f + ?m - unat b"
      using le sum by (subst unat_sub_u32) simp_all
    ultimately have d: "unat (ucast f + (k mod b - b)) = unat f + ?m - unat b" by (simp only:)
    have "?d \<le> unat k div 2" using assms(3) by (intro div_le_mono2) simp_all
    then have "unat (k div b) + unat (1 :: u32) < 4294967296" using unat_lt_32 [of k] by (simp add: unat_div)
    then have "unat (k div b + 1) = Suc ?d" by (simp add: unat_add_u32 unat_div)
    moreover have "Suc ?d * unat b + (unat f + ?m - unat b) = unat f + unat k"
      unfolding mult_Suc using k le by linarith
    moreover have "unat f + ?m - unat b < unat b" using assms(1) mb le by linarith
    ultimately show thesis
      using True d assms(2) u8 [of "ucast f + (k mod b - b)"]
      by (intro that [of "k div b + 1" "k mod b - b"]) simp_all
  next
    case False
    then have lt: "unat f + ?m < unat b" using sum by (simp add: word_le_nat_alt)
    show thesis
      using False k sum lt assms(2) u8 [of "ucast f + k mod b"]
      by (intro that [of "k div b" "k mod b"]) (simp_all add: unat_div)
  qed
qed

lemma borrow:
  fixes f :: u8 and k b :: u32
  assumes "unat f < unat b" "unat b \<le> 100" "2 \<le> unat b"
  obtains q r where "(if ucast f < k mod b then (k div b + 1, k mod b - b) else (k div b, k mod b)) = (q, r)"
    "unat (ucast (ucast f - r) :: u8) + unat k = unat f + unat q * unat b" "unat (ucast (ucast f - r) :: u8) < unat b"
proof -
  let ?m = "unat k mod unat b" and ?d = "unat k div unat b"
  have mb: "?m < unat b" using assms(3) by (intro mod_less_divisor) simp
  have k: "?d * unat b + ?m = unat k" by (rule div_mult_mod_eq)
  have u8: "unat (ucast x :: u8) = unat x" if "unat x < 256" for x :: u32
    using that by (simp add: unsigned_ucast_eq take_bit_nat_eq_self)
  show thesis
  proof (cases "ucast f < k mod b")
    case True
    then have lt: "unat f < ?m" by (simp add: word_less_nat_alt unat_ucast_8 unat_mod)
    have sum: "unat (ucast f + b) = unat f + unat b"
      using assms(1,2) by (subst unat_add_u32) (simp_all add: unat_ucast_8)
    have "ucast f - (k mod b - b) = (ucast f + b) - k mod b" by simp
    moreover have "unat ((ucast f + b) - k mod b) = unat f + unat b - ?m"
      using mb sum by (subst unat_sub_u32) (simp_all add: unat_mod)
    ultimately have d: "unat (ucast f - (k mod b - b)) = unat f + unat b - ?m" by (simp only:)
    have "?d \<le> unat k div 2" using assms(3) by (intro div_le_mono2) simp_all
    then have "unat (k div b) + unat (1 :: u32) < 4294967296" using unat_lt_32 [of k] by (simp add: unat_div)
    then have "unat (k div b + 1) = Suc ?d" by (simp add: unat_add_u32 unat_div)
    moreover have "unat f + unat b - ?m + unat k = unat f + Suc ?d * unat b"
      unfolding mult_Suc using k lt mb by linarith
    moreover have "unat f + unat b - ?m < unat b" using lt mb by linarith
    ultimately show thesis
      using True d assms(2) u8 [of "ucast f - (k mod b - b)"]
      by (intro that [of "k div b + 1" "k mod b - b"]) simp_all
  next
    case False
    then have le: "?m \<le> unat f" by (simp add: word_less_nat_alt unat_ucast_8 unat_mod)
    then have "unat (ucast f - k mod b) = unat f - ?m"
      by (subst unat_sub_u32) (simp_all add: unat_ucast_8 unat_mod)
    moreover have "unat f - ?m + unat k = unat f + ?d * unat b" using k le by linarith
    ultimately show thesis
      using False assms(1,2) u8 [of "ucast f - k mod b"]
      by (intro that [of "k div b" "k mod b"]) (simp_all add: unat_div)
  qed
qed

section \<open>Hours, minutes and seconds\<close>

text \<open>
  What can stop a date from moving to another day: the day is 29 February of a year divisible by 3200, which the
  assertion refuses, or, backwards, a day before 2 January 1583.
\<close>

definition first_day :: nat where "first_day = g_day 1583 0 1"

text \<open>The fields of the time, which days do not touch.\<close>

definition same_time :: "tt_date \<Rightarrow> tt_date \<Rightarrow> bool" where
  "same_time a b \<longleftrightarrow> hour a = hour b \<and> minute a = minute b \<and> second a = second b \<and> tz a = tz b"

lemma inc_day_cases:
  assumes "date_in_range date" "date_day date + unat k < last_day"
  obtains (ok) date' where "\<not> day_3200 (date_day date + unat k)" "tt_date_inc_day date k = Inr (TT_SUCCESS, date')"
    "date_in_range date'" "date_day date' = date_day date + unat k" "same_time date' date"
  | (fault) "day_3200 (date_day date + unat k)" "tt_date_inc_day date k = Inl Throw"
proof -
  from inc_day_run [OF assms] obtain y m d where i: "g_valid y m d" "1583 \<le> y" "y < 65536"
    "g_day y m d = date_day date + unat k"
    "tt_date_inc_day date k = (if day_3200 (g_day y m d) then Inl Throw else Inr (TT_SUCCESS, at_day date y m d))"
    by blast
  show thesis
  proof (cases "day_3200 (g_day y m d)")
    case True
    with i show ?thesis by (intro fault) simp_all
  next
    case False
    with i at_day [OF i(1-3), of date] show ?thesis
      by (intro ok [of "at_day date y m d"]) (simp_all add: date_in_range_def same_time_def)
  qed
qed

lemma dec_day_cases:
  assumes "date_in_range date"
  obtains (ok) date' where "first_day + unat k \<le> date_day date" "\<not> day_3200 (date_day date - unat k)"
    "tt_date_dec_day date k = Inr (TT_SUCCESS, date')"
    "date_in_range date'" "date_day date' + unat k = date_day date" "same_time date' date"
  | (fault) "first_day + unat k \<le> date_day date" "day_3200 (date_day date - unat k)" "tt_date_dec_day date k = Inl Throw"
  | (fail) "\<not> first_day + unat k \<le> date_day date" "tt_date_dec_day date k = Inr (TT_FAIL, date)"
proof (cases "first_day + unat k \<le> date_day date")
  case True
  then obtain y m d where i: "g_valid y m d" "1583 \<le> y" "y < 65536" "g_day y m d + unat k = date_day date"
    "tt_date_dec_day date k = (if day_3200 (g_day y m d) then Inl Throw else Inr (TT_SUCCESS, at_day date y m d))"
    using dec_day_run [OF assms(1), of k] by (auto simp: first_day_def)
  then have e: "date_day date - unat k = g_day y m d" by simp
  show thesis
  proof (cases "day_3200 (g_day y m d)")
    case d: True
    with i e True show ?thesis by (intro fault) simp_all
  next
    case False
    with i e True at_day [OF i(1-3), of date] show ?thesis
      by (intro ok [of "at_day date y m d"]) (simp_all add: date_in_range_def same_time_def)
  qed
next
  case False
  with dec_day_run [OF assms(1), of k] show thesis by (intro fail) (simp_all add: first_day_def)
qed

lemma time_fields [simp]:
  "date_in_range (date\<lparr>hour := h\<rparr>) = date_in_range date" "date_day (date\<lparr>hour := h\<rparr>) = date_day date"
  "date_in_range (date\<lparr>minute := h\<rparr>) = date_in_range date" "date_day (date\<lparr>minute := h\<rparr>) = date_day date"
  "date_in_range (date\<lparr>second := h\<rparr>) = date_in_range date" "date_day (date\<lparr>second := h\<rparr>) = date_day date"
  "date_in_range (date\<lparr>tz := h\<rparr>) = date_in_range date" "date_day (date\<lparr>tz := h\<rparr>) = date_day date"
  by (simp_all add: date_in_range_def tt_date_valid_def date_day_def d_year_def)

lemma date_valid_of_range:
  "date_in_range date \<Longrightarrow> date_valid (year date) (ucast (month date)) (mday date)"
  by (simp add: date_in_range_def tt_date_valid_def)

definition hours :: "tt_date \<Rightarrow> nat" where "hours date = 24 * date_day date + unat (hour date)"
definition minutes :: "tt_date \<Rightarrow> nat" where "minutes date = 60 * hours date + unat (minute date)"
definition seconds :: "tt_date \<Rightarrow> nat" where "seconds date = 60 * minutes date + unat (second date)"

definition hour_ok :: "tt_date \<Rightarrow> bool" where "hour_ok date \<longleftrightarrow> date_in_range date \<and> unat (hour date) < 24"
definition minute_ok :: "tt_date \<Rightarrow> bool" where "minute_ok date \<longleftrightarrow> hour_ok date \<and> unat (minute date) < 60"
definition date_ok :: "tt_date \<Rightarrow> bool" where "date_ok date \<longleftrightarrow> minute_ok date \<and> unat (second date) < 60"

text \<open>The digit above the last one.\<close>

lemma top_digit: "(b :: nat) * x + r = n \<Longrightarrow> r < b \<Longrightarrow> n div b = x"
  by auto

lemma inc_hour_cases:
  assumes "hour_ok date" "hours date + unat k < 24 * last_day"
  defines "to \<equiv> (hours date + unat k) div 24"
  obtains (ok) date' where "\<not> day_3200 to" "tt_date_inc_hour date k = Inr (TT_SUCCESS, date')" "hour_ok date'"
    "hours date' = hours date + unat k" "minute date' = minute date" "second date' = second date" "tz date' = tz date"
  | (fault) "day_3200 to" "tt_date_inc_hour date k = Inl Throw"
proof -
  have f: "unat (hour date) < unat (24 :: u32)" and r: "date_in_range date"
    using assms(1) by (simp_all add: hour_ok_def)
  obtain q r where c: "(if 24 \<le> ucast (hour date) + k mod 24 then (k div 24 + 1, k mod 24 - 24) else (k div 24, k mod 24)) = (q, r)"
    "unat q * unat (24 :: u32) + unat (ucast (ucast (hour date) + r) :: u8) = unat (hour date) + unat k"
    "unat (ucast (ucast (hour date) + r) :: u8) < unat (24 :: u32)"
    by (rule carry [OF f]) simp_all
  have e: "to = date_day date + unat q"
    unfolding to_def using c(2,3) by (intro top_digit) (simp_all add: hours_def)
  have "date_day date + unat q < last_day" using c(2) assms(2) by (simp add: hours_def)
  with r show thesis
  proof (cases rule: inc_day_cases)
    case ok: (ok date')
    let ?d = "date'\<lparr>hour := ucast (ucast (hour date') + r)\<rparr>"
    have h: "hour date' = hour date" using ok by (simp add: same_time_def)
    have "tt_date_inc_hour date k = Inr (TT_SUCCESS, ?d)"
      using ok date_valid_of_range [OF ok(3)] by (simp add: tt_date_inc_hour_def Let_def c(1))
    then show thesis
      using c(2,3) ok h e by (intro that(1) [of ?d]) (simp_all add: hour_ok_def hours_def same_time_def)
  next
    case fault
    with e show thesis by (intro that(2)) (simp_all add: tt_date_inc_hour_def Let_def c(1))
  qed
qed

lemma inc_minute_cases:
  assumes "minute_ok date" "minutes date + unat k < 60 * (24 * last_day)"
  defines "to \<equiv> (minutes date + unat k) div 60 div 24"
  obtains (ok) date' where "\<not> day_3200 to" "tt_date_inc_minute date k = Inr (TT_SUCCESS, date')" "minute_ok date'"
    "minutes date' = minutes date + unat k" "second date' = second date" "tz date' = tz date"
  | (fault) "day_3200 to" "tt_date_inc_minute date k = Inl Throw"
proof -
  have f: "unat (minute date) < unat (60 :: u32)" and r: "hour_ok date"
    using assms(1) by (simp_all add: minute_ok_def)
  obtain q r where c: "(if 60 \<le> ucast (minute date) + k mod 60 then (k div 60 + 1, k mod 60 - 60) else (k div 60, k mod 60)) = (q, r)"
    "unat q * unat (60 :: u32) + unat (ucast (ucast (minute date) + r) :: u8) = unat (minute date) + unat k"
    "unat (ucast (ucast (minute date) + r) :: u8) < unat (60 :: u32)"
    by (rule carry [OF f]) simp_all
  have e: "(minutes date + unat k) div 60 = hours date + unat q"
    using c(2,3) by (intro top_digit) (simp_all add: minutes_def)
  have "hours date + unat q < 24 * last_day" using c(2) assms(2) by (simp add: minutes_def)
  with r show thesis
  proof (cases rule: inc_hour_cases)
    case ok: (ok date')
    let ?d = "date'\<lparr>minute := ucast (ucast (minute date') + r)\<rparr>"
    have "tt_date_inc_minute date k = Inr (TT_SUCCESS, ?d)"
      using ok by (simp add: tt_date_inc_minute_def Let_def c(1))
    then show thesis
      using c(2,3) ok e by (intro that(1) [of ?d]) (simp_all add: to_def hour_ok_def minute_ok_def hours_def minutes_def)
  next
    case fault
    with e show thesis by (intro that(2)) (simp_all add: to_def tt_date_inc_minute_def Let_def c(1))
  qed
qed

lemma inc_second_cases:
  assumes "date_ok date" "seconds date + unat k < 86400 * last_day"
  defines "to \<equiv> (seconds date + unat k) div 86400"
  obtains (ok) date' where "\<not> day_3200 to" "tt_date_inc_second date k = Inr (TT_SUCCESS, date')" "date_ok date'"
    "seconds date' = seconds date + unat k" "tz date' = tz date"
  | (fault) "day_3200 to" "tt_date_inc_second date k = Inl Throw"
proof -
  have f: "unat (second date) < unat (60 :: u32)" and r: "minute_ok date"
    using assms(1) by (simp_all add: date_ok_def)
  obtain q r where c: "(if 60 \<le> ucast (second date) + k mod 60 then (k div 60 + 1, k mod 60 - 60) else (k div 60, k mod 60)) = (q, r)"
    "unat q * unat (60 :: u32) + unat (ucast (ucast (second date) + r) :: u8) = unat (second date) + unat k"
    "unat (ucast (ucast (second date) + r) :: u8) < unat (60 :: u32)"
    by (rule carry [OF f]) simp_all
  have "(seconds date + unat k) div 60 = minutes date + unat q"
    using c(2,3) by (intro top_digit) (simp_all add: seconds_def)
  moreover have "(seconds date + unat k) div 86400 = (seconds date + unat k) div 60 div 60 div 24"
    by (simp only: div_mult2_eq [symmetric] mult_numeral_1) simp
  ultimately have e: "to = (minutes date + unat q) div 60 div 24" by (simp only: to_def)
  have "minutes date + unat q < 60 * (24 * last_day)" using c(2) assms(2) by (simp add: seconds_def)
  with r show thesis
  proof (cases rule: inc_minute_cases)
    case ok: (ok date')
    let ?d = "date'\<lparr>second := ucast (ucast (second date') + r)\<rparr>"
    have "tt_date_inc_second date k = Inr (TT_SUCCESS, ?d)"
      using ok by (simp add: tt_date_inc_second_def Let_def c(1))
    then show thesis
      using c(2,3) ok e
      by (intro that(1) [of ?d]) (simp_all add: date_ok_def hour_ok_def minute_ok_def hours_def minutes_def seconds_def)
  next
    case fault
    with e show thesis by (intro that(2)) (simp_all add: tt_date_inc_second_def Let_def c(1))
  qed
qed

lemma dec_hour_cases:
  fixes k :: u32
  assumes "hour_ok date"
  defines "to \<equiv> (hours date - unat k) div 24"
  obtains (ok) date' where "24 * first_day + unat k \<le> hours date" "\<not> day_3200 to"
    "tt_date_dec_hour date k = Inr (TT_SUCCESS, date')"
    "hour_ok date'" "hours date' + unat k = hours date" "minute date' = minute date" "second date' = second date" "tz date' = tz date"
  | (fault) "24 * first_day + unat k \<le> hours date" "day_3200 to" "tt_date_dec_hour date k = Inl Throw"
  | (fail) "\<not> 24 * first_day + unat k \<le> hours date" "tt_date_dec_hour date k = Inr (TT_FAIL, date)"
proof -
  have f: "unat (hour date) < unat (24 :: u32)" and r: "date_in_range date"
    using assms(1) by (simp_all add: hour_ok_def)
  obtain q r where c: "(if ucast (hour date) < k mod 24 then (k div 24 + 1, k mod 24 - 24) else (k div 24, k mod 24)) = (q, r)"
    "unat (ucast (ucast (hour date) - r) :: u8) + unat k = unat (hour date) + unat q * unat (24 :: u32)"
    "unat (ucast (ucast (hour date) - r) :: u8) < unat (24 :: u32)"
    by (rule borrow [OF f]) simp_all
  have lim: "first_day + unat q \<le> date_day date \<longleftrightarrow> 24 * first_day + unat k \<le> hours date"
    using c(2,3) by (auto simp: hours_def)
  have e: "to = date_day date - unat q" if "first_day + unat q \<le> date_day date"
    unfolding to_def using c(2,3) that by (intro top_digit) (simp_all add: hours_def diff_mult_distrib2)
  from r show thesis
  proof (cases rule: dec_day_cases [where k = q])
    case ok: (ok date')
    let ?d = "date'\<lparr>hour := ucast (ucast (hour date') - r)\<rparr>"
    have h: "hour date' = hour date" using ok by (simp add: same_time_def)
    have "tt_date_dec_hour date k = Inr (TT_SUCCESS, ?d)"
      using ok date_valid_of_range [OF ok(4)] by (simp add: tt_date_dec_hour_def Let_def c(1))
    then show thesis
      using c(2,3) ok h lim e by (intro that(1) [of ?d]) (simp_all add: hour_ok_def hours_def same_time_def)
  next
    case fault
    with e lim show thesis by (intro that(2)) (simp_all add: tt_date_dec_hour_def Let_def c(1))
  next
    case fail
    then have "tt_date_dec_hour date k = Inr (TT_FAIL, date)"
      by (simp add: tt_date_dec_hour_def Let_def c(1) TT_OK_def)
    with fail lim show thesis by (intro that(3)) simp_all
  qed
qed

lemma dec_minute_cases:
  fixes k :: u32
  assumes "minute_ok date"
  defines "to \<equiv> (minutes date - unat k) div 60 div 24"
  obtains (ok) date' where "60 * (24 * first_day) + unat k \<le> minutes date" "\<not> day_3200 to"
    "tt_date_dec_minute date k = Inr (TT_SUCCESS, date')"
    "minute_ok date'" "minutes date' + unat k = minutes date" "second date' = second date" "tz date' = tz date"
  | (fault) "60 * (24 * first_day) + unat k \<le> minutes date" "day_3200 to" "tt_date_dec_minute date k = Inl Throw"
  | (fail) "\<not> 60 * (24 * first_day) + unat k \<le> minutes date" "tt_date_dec_minute date k = Inr (TT_FAIL, date)"
proof -
  have f: "unat (minute date) < unat (60 :: u32)" and r: "hour_ok date"
    using assms(1) by (simp_all add: minute_ok_def)
  obtain q r where c: "(if ucast (minute date) < k mod 60 then (k div 60 + 1, k mod 60 - 60) else (k div 60, k mod 60)) = (q, r)"
    "unat (ucast (ucast (minute date) - r) :: u8) + unat k = unat (minute date) + unat q * unat (60 :: u32)"
    "unat (ucast (ucast (minute date) - r) :: u8) < unat (60 :: u32)"
    by (rule borrow [OF f]) simp_all
  have lim: "24 * first_day + unat q \<le> hours date \<longleftrightarrow> 60 * (24 * first_day) + unat k \<le> minutes date"
    using c(2,3) by (auto simp: minutes_def)
  have e: "(minutes date - unat k) div 60 = hours date - unat q" if "24 * first_day + unat q \<le> hours date"
    using c(2,3) that by (intro top_digit) (simp_all add: minutes_def diff_mult_distrib2)
  from r show thesis
  proof (cases rule: dec_hour_cases [where k = q])
    case ok: (ok date')
    let ?d = "date'\<lparr>minute := ucast (ucast (minute date') - r)\<rparr>"
    have "tt_date_dec_minute date k = Inr (TT_SUCCESS, ?d)"
      using ok by (simp add: tt_date_dec_minute_def Let_def c(1))
    then show thesis
      using c(2,3) ok lim e
      by (intro that(1) [of ?d]) (simp_all add: to_def hour_ok_def minute_ok_def hours_def minutes_def)
  next
    case fault
    with e lim show thesis by (intro that(2)) (simp_all add: to_def tt_date_dec_minute_def Let_def c(1))
  next
    case fail
    then have "tt_date_dec_minute date k = Inr (TT_FAIL, date)"
      by (simp add: tt_date_dec_minute_def Let_def c(1) TT_OK_def)
    with fail lim show thesis by (intro that(3)) simp_all
  qed
qed

lemma dec_second_cases:
  fixes k :: u32
  assumes "date_ok date"
  defines "to \<equiv> (seconds date - unat k) div 86400"
  obtains (ok) date' where "86400 * first_day + unat k \<le> seconds date" "\<not> day_3200 to"
    "tt_date_dec_second date k = Inr (TT_SUCCESS, date')"
    "date_ok date'" "seconds date' + unat k = seconds date" "tz date' = tz date"
  | (fault) "86400 * first_day + unat k \<le> seconds date" "day_3200 to" "tt_date_dec_second date k = Inl Throw"
  | (fail) "\<not> 86400 * first_day + unat k \<le> seconds date" "tt_date_dec_second date k = Inr (TT_FAIL, date)"
proof -
  have f: "unat (second date) < unat (60 :: u32)" and r: "minute_ok date"
    using assms(1) by (simp_all add: date_ok_def)
  obtain q r where c: "(if ucast (second date) < k mod 60 then (k div 60 + 1, k mod 60 - 60) else (k div 60, k mod 60)) = (q, r)"
    "unat (ucast (ucast (second date) - r) :: u8) + unat k = unat (second date) + unat q * unat (60 :: u32)"
    "unat (ucast (ucast (second date) - r) :: u8) < unat (60 :: u32)"
    by (rule borrow [OF f]) simp_all
  have lim: "60 * (24 * first_day) + unat q \<le> minutes date \<longleftrightarrow> 86400 * first_day + unat k \<le> seconds date"
    using c(2,3) by (auto simp: seconds_def)
  have e: "to = (minutes date - unat q) div 60 div 24" if "60 * (24 * first_day) + unat q \<le> minutes date"
  proof -
    have "(seconds date - unat k) div 60 = minutes date - unat q"
      using c(2,3) that by (intro top_digit) (simp_all add: seconds_def diff_mult_distrib2)
    moreover have "(seconds date - unat k) div 86400 = (seconds date - unat k) div 60 div 60 div 24"
      by (simp only: div_mult2_eq [symmetric] mult_numeral_1) simp
    ultimately show ?thesis by (simp only: to_def)
  qed
  from r show thesis
  proof (cases rule: dec_minute_cases [where k = q])
    case ok: (ok date')
    let ?d = "date'\<lparr>second := ucast (ucast (second date') - r)\<rparr>"
    have "tt_date_dec_second date k = Inr (TT_SUCCESS, ?d)"
      using ok by (simp add: tt_date_dec_second_def Let_def c(1))
    then show thesis
      using c(2,3) ok lim e
      by (intro that(1) [of ?d]) (simp_all add: date_ok_def hour_ok_def minute_ok_def hours_def minutes_def seconds_def)
  next
    case fault
    with e lim show thesis by (intro that(2)) (simp_all add: tt_date_dec_second_def Let_def c(1))
  next
    case fail
    then have "tt_date_dec_second date k = Inr (TT_FAIL, date)"
      by (simp add: tt_date_dec_second_def Let_def c(1) TT_OK_def)
    with fail lim show thesis by (intro that(3)) simp_all
  qed
qed

section \<open>Time zones\<close>

definition zone_off :: "u32 \<Rightarrow> int" where
  "zone_off z = tmzone_offset ! unat z"

lemma zone_bounds:
  assumes "unat z < 39"
  shows "- 43200 \<le> zone_off z" "zone_off z \<le> 50400" "tt_tmzone2offsec z = Inr (zone_off z)"
proof -
  have len: "length tmzone_offset = 39" by (simp add: tmzone_offset_def)
  have "list_all (\<lambda>x. - 43200 \<le> x \<and> x \<le> 50400) tmzone_offset" by (simp add: tmzone_offset_def SEC_def)
  then show "- 43200 \<le> zone_off z" "zone_off z \<le> 50400"
    using assms len by (simp_all add: list_all_length zone_off_def)
  show "tt_tmzone2offsec z = Inr (zone_off z)"
    using assms len
    by (simp add: tt_tmzone2offsec_def TT_TMZONE_VALID_def TT_TMZONE_NUM_def table_at_def zone_off_def word_le_nat_alt)
qed

lemma unat_word_of_int_u32: "0 \<le> i \<Longrightarrow> i < 4294967296 \<Longrightarrow> int (unat (word_of_int i :: u32)) = i"
  using uint_of_int_small [of i, where 'a = 32] by simp

text \<open>
  Changing the time zone keeps the instant: it goes to the local time \<open>t\<close> that is the difference of the two offsets
  away, or is stopped as a step of that many seconds is.
\<close>

lemma change_tmzone_cases:
  assumes ok: "date_ok date" and z: "unat (tz date) < 39" "unat z < 39"
    and t: "t = int (seconds date) + (zone_off z - zone_off (ucast (tz date)))" "t < 86400 * int last_day"
  defines "early \<equiv> zone_off z < zone_off (ucast (tz date)) \<and> t < 86400 * int first_day"
  shows "if early then tt_date_change_tmzone date z = Inr (TT_FAIL, date)
    else if day_3200 (nat t div 86400) then tt_date_change_tmzone date z = Inl Throw
    else \<exists>date'. tt_date_change_tmzone date z = Inr (TT_SUCCESS, date') \<and> date_ok date' \<and> int (seconds date') = t
      \<and> tz date' = ucast z"
proof -
  let ?o = "zone_off (ucast (tz date))" and ?n = "zone_off z"
  have uz: "unat (ucast (tz date) :: u32) < 39" using z(1) by (simp add: unat_ucast_8)
  note b = zone_bounds [OF uz] zone_bounds [OF z(2)]
  have zv: "TT_TMZONE_VALID z" using z(2) by (simp add: TT_TMZONE_VALID_def TT_TMZONE_NUM_def word_le_nat_alt)
  have keep: "date_ok (d\<lparr>tz := x\<rparr>) = date_ok d \<and> seconds (d\<lparr>tz := x\<rparr>) = seconds d" for d x
    by (simp add: date_ok_def minute_ok_def hour_ok_def seconds_def minutes_def hours_def)
  show ?thesis
  proof (cases "?o \<le> ?n")
    case True
    have k: "int (unat (word_of_int (?n - ?o) :: u32)) = ?n - ?o"
      using True b by (intro unat_word_of_int_u32) simp_all
    then have to: "nat t = seconds date + unat (word_of_int (?n - ?o) :: u32)" "0 \<le> t"
      using t(1) by linarith+
    then have "seconds date + unat (word_of_int (?n - ?o) :: u32) < 86400 * last_day" using t(2) by linarith
    with ok show ?thesis
    proof (cases rule: inc_second_cases)
      case ok: (ok d)
      have "tt_date_change_tmzone date z = Inr (TT_SUCCESS, d\<lparr>tz := ucast z\<rparr>)"
        using zv b True ok(2) by (simp add: tt_date_change_tmzone_def)
      moreover have "int (seconds d) = t" using ok(4) to by linarith
      ultimately show ?thesis using ok to keep True by (simp add: early_def)
    next
      case fault
      then have "tt_date_change_tmzone date z = Inl Throw" using zv b True by (simp add: tt_date_change_tmzone_def)
      with fault to True show ?thesis by (simp add: early_def)
    qed
  next
    case False
    have k: "int (unat (word_of_int (?o - ?n) :: u32)) = ?o - ?n"
      using False b by (intro unat_word_of_int_u32) simp_all
    have early: "early \<longleftrightarrow> \<not> 86400 * first_day + unat (word_of_int (?o - ?n) :: u32) \<le> seconds date"
      unfolding early_def using False k t(1) by linarith
    have to: "nat t = seconds date - unat (word_of_int (?o - ?n) :: u32)" using k t(1) by linarith
    from ok show ?thesis
    proof (cases rule: dec_second_cases [where k = "word_of_int (?o - ?n)"])
      case ok: (ok d)
      have "tt_date_change_tmzone date z = Inr (TT_SUCCESS, d\<lparr>tz := ucast z\<rparr>)"
        using zv b False ok(3) by (simp add: tt_date_change_tmzone_def)
      moreover have "int (seconds d) = t" using ok(5) k t(1) by linarith
      ultimately show ?thesis using ok early to keep by simp
    next
      case fault
      then have "tt_date_change_tmzone date z = Inl Throw" using zv b False by (simp add: tt_date_change_tmzone_def)
      with fault early to show ?thesis by simp
    next
      case fail
      then have "tt_date_change_tmzone date z = Inr (TT_FAIL, date)"
        using zv b False by (simp add: tt_date_change_tmzone_def TT_OK_def)
      with fail early show ?thesis by simp
    qed
  qed
qed



end
