(* ===== verification/TT_Date_Week.thy ===== *)
theory TT_Date_Week
  imports TT_Date_Props
begin

text \<open>The day of the week and the day of the year.\<close>

section \<open>Weekday\<close>

lemma mod_7_shift: "a + 7 * p = b \<Longrightarrow> a mod 7 = b mod (7 :: nat)"
  by (metis mod_mult_self2)

text \<open>Days of whole years modulo a week.\<close>

definition week_years :: "nat \<Rightarrow> nat" where
  "week_years y = y + y div 4 - y div 100 + y div 400"

lemma week_years_sum: "week_years y + 7 * (52 * y) = g_years y"
proof -
  have "week_years y + y div 100 = y + y div 4 + y div 400"
    using years_le [of y] by (simp add: week_years_def)
  with years_sum [of y] show ?thesis by linarith
qed

lemma week_years_word:
  assumes "y < 100000"
  shows "(of_nat y + of_nat y div 4 - of_nat y div 100 + of_nat y div 400 :: u32) = of_nat (week_years y)"
proof -
  have y: "y < 4294967296" using assms by simp
  have "(of_nat y :: u32) div 4 = of_nat (y div 4)" "(of_nat y :: u32) div 100 = of_nat (y div 100)"
    "(of_nat y :: u32) div 400 = of_nat (y div 400)"
    by (rule div_u32 [OF y], simp)+
  then show ?thesis
    using years_le [of y] by (simp add: week_years_def of_nat_diff)
qed

text \<open>What the formula gives for month \<open>m\<close> with the entry \<open>t\<close> of its table.\<close>

lemma weekday_sum:
  assumes "1 \<le> y" "m < 12" "t = unat (weekday_t ! m)"
  shows "(week_years (if m < 3 then y - 1 else y) + t + (d + 1)) mod 7
    = (g_day y m d + (if m = 2 then 7 - (if g_leap y then 1 else 0) else 1)) mod 7"
proof -
  have "g_years y = g_years (y - 1) + 365 + (if g_leap y then 1 else 0)"
    using years_suc [of "y - 1"] assms(1) by simp
  then have w: "week_years y + 7 * (52 * y) = g_years (y - 1) + 365 + (if g_leap y then 1 else 0)"
    "week_years (y - 1) + 7 * (52 * (y - 1)) = g_years (y - 1)"
    using week_years_sum [of y] week_years_sum [of "y - 1"] by simp_all
  define p where "p = [245918, 245922, 245927, 245878, 245883, 245887, 245891, 245896, 245900, 245904, 245909, 245913 :: nat] ! m"
  let ?y = "if m < 3 then y - 1 else y"
  have "week_years ?y + t + (d + 1) + 7 * (52 * ?y + p)
      = g_day y m d + (if m = 2 then 7 - (if g_leap y then 1 else 0) else 1)"
    using assms(2) w unfolding assms(3) p_def g_day_def
    by (cases rule: month_cases)
      (simp_all add: weekday_t_def before_table before_table(1) [unfolded One_nat_def] g_len_def)
  then show ?thesis by (rule mod_7_shift)
qed

lemma weekday_run:
  assumes "date_in_range date"
  shows "tt_date_get_weekday date = Inr (of_nat ((date_day date
    + (if unat (month date) = 2 then 7 - (if g_leap (d_year date) then 1 else 0) else 1)) mod 7))"
proof -
  let ?y = "if unat (month date) < 3 then d_year date - 1 else d_year date" and ?m = "unat (month date)"
  have v: "g_valid (d_year date) ?m (unat (mday date))" "d_year date < 65536"
    using assms by (simp_all add: date_in_range_iff)
  then have m: "?m < 12" and d: "unat (mday date) < 31"
    by (auto simp: g_valid_def g_len_def split: if_splits)
  have y: "word_of_int (Y_OUT (uint (year date))) = (of_nat (d_year date) :: u32)"
    by (simp add: Y_OUT_def TT_GREGORIAN_BEGIN_def d_year_def)
  have md: "word_of_int (MDAY_OUT (uint (mday date))) = (of_nat (unat (mday date) + 1) :: u32)"
    by (simp add: MDAY_OUT_def)
  have ml: "(ucast (month date) :: u32) < 3 \<longleftrightarrow> ?m < 3" by (simp add: word_less_nat_alt unat_ucast_8)
  have y': "of_nat (d_year date) - (if ?m < 3 then 1 else 0) = (of_nat ?y :: u32)"
    by (simp add: of_nat_diff d_year_def)
  have t: "table_at weekday_t (ucast (month date)) = Inr (of_nat (unat (weekday_t ! ?m)))"
    using m by (simp add: table_at_def weekday_t_def unat_ucast_8)
  have "(of_nat (week_years ?y) + of_nat (unat (weekday_t ! ?m)) + of_nat (unat (mday date) + 1) :: u32) mod 7
      = of_nat ((week_years ?y + unat (weekday_t ! ?m) + (unat (mday date) + 1)) mod 7)"
  proof -
    have "week_years ?y \<le> 2 * ?y" unfolding week_years_def by linarith
    moreover have "unat (weekday_t ! ?m) \<le> 6" using m by (cases rule: month_cases) (simp_all add: weekday_t_def)
    ultimately have "week_years ?y + unat (weekday_t ! ?m) + (unat (mday date) + 1) < 4294967296"
      using v(2) d by (simp split: if_splits)
    then have "(of_nat (week_years ?y + unat (weekday_t ! ?m) + (unat (mday date) + 1)) :: u32) mod 7
        = of_nat ((week_years ?y + unat (weekday_t ! ?m) + (unat (mday date) + 1)) mod 7)"
      by (rule mod_u32) simp
    then show ?thesis by (simp only: of_nat_add)
  qed
  moreover have "?y < 100000" by (rule le_less_trans [of _ "d_year date"]) (use v(2) in simp_all)
  ultimately have "tt_date_get_weekday date
      = Inr (of_nat ((week_years ?y + unat (weekday_t ! ?m) + (unat (mday date) + 1)) mod 7))"
    using t by (simp only: tt_date_get_weekday_def Let_def y ml y' md week_years_word bindr_simps)
  moreover have "1 \<le> d_year date" by (simp add: d_year_def)
  ultimately show ?thesis using weekday_sum [OF _ m refl, of "d_year date" "unat (mday date)"] by (simp only: date_day_def)
qed

section \<open>Day of the year\<close>

text \<open>The tables of the code as numbers: days in a month and before it.\<close>

definition c_len :: "u16 \<Rightarrow> nat \<Rightarrow> nat" where "c_len y m = unat (daynum_of y ! m)"
definition c_before :: "u16 \<Rightarrow> nat \<Rightarrow> nat" where "c_before y m = unat (daynum_before y ! m)"

definition c_days :: "u16 \<Rightarrow> nat" where
  "c_days y = (if leap_year y then 366 else 365)"

lemma c_tables:
  "c_before y 0 = 0" "m < 11 \<Longrightarrow> c_before y (Suc m) = c_before y m + c_len y m"
  "c_before y 11 + c_len y 11 = c_days y" "m < 12 \<Longrightarrow> c_len y m \<le> 31"
proof -
  note tabs = c_before_def c_len_def c_days_def daynum_of_def daynum_before_def s_daynum_of_def
    s_daynum_of_leap_def s_daynum_before_def s_daynum_before_leap_def
  show "c_before y 0 = 0" "c_before y 11 + c_len y 11 = c_days y" by (simp_all add: tabs)
  show "c_before y (Suc m) = c_before y m + c_len y m" if "m < 11"
  proof -
    have "m < 12" using that by simp
    then show ?thesis using that by (cases rule: month_cases) (simp_all add: tabs)
  qed
  show "m < 12 \<Longrightarrow> c_len y m \<le> 31"
    unfolding c_len_def daynum_of_def using table_len [of m] by (auto split: if_splits)
qed

lemma table_months:
  "unat m < 12 \<Longrightarrow> table_at (daynum_of y) m = Inr (of_nat (c_len y (unat m)))"
  "unat m < 12 \<Longrightarrow> table_at (daynum_before y) m = Inr (of_nat (c_before y (unat m)))"
  by (simp_all add: table_at_def daynum_of_def daynum_before_def s_daynum_of_def s_daynum_of_leap_def
    s_daynum_before_def s_daynum_before_leap_def c_len_def c_before_def)

text \<open>The loop over the months finds the month and the day.\<close>

lemma yearday_loop_ok:
  assumes "unat m < 12" "c_before (year date) (unat m) + unat k < c_days (year date)"
  shows "\<exists>m' d. yearday_loop (daynum_of (year date)) date k m
      = Inr (TT_SUCCESS, date\<lparr>month := of_nat m', mday := of_nat d\<rparr>)
    \<and> m' < 12 \<and> d < c_len (year date) m' \<and> c_before (year date) m' + d = c_before (year date) (unat m) + unat k"
  using assms
proof (induction "12 - unat m" arbitrary: m k rule: less_induct)
  case less
  let ?y = "year date"
  have le: "m \<le> 11" using less.prems(1) by (simp add: word_le_nat_alt)
  have ul: "unat (of_nat (c_len ?y (unat m)) :: u32) = c_len ?y (unat m)"
    using c_tables(4) [OF less.prems(1), of ?y] by (intro unat_of_nat_u32) simp
  show ?case
  proof (cases "unat k < c_len ?y (unat m)")
    case True
    then have "k < of_nat (c_len ?y (unat m))" using ul by (simp add: word_less_nat_alt)
    then have "yearday_loop (daynum_of ?y) date k m = Inr (TT_SUCCESS, date\<lparr>month := ucast m, mday := ucast k\<rparr>)"
      using le table_months(1) [OF less.prems(1)] by (simp add: yearday_loop.simps [of _ _ _ m])
    then have "yearday_loop (daynum_of ?y) date k m
        = Inr (TT_SUCCESS, date\<lparr>month := of_nat (unat m), mday := of_nat (unat k)\<rparr>)"
      by (simp only: of_nat_unat)
    with True less.prems(1) show ?thesis by blast
  next
    case False
    then have nk: "\<not> k < of_nat (c_len ?y (unat m))" using ul by (simp add: word_less_nat_alt)
    have m11: "unat m < 11"
    proof (rule ccontr)
      assume "\<not> unat m < 11"
      then have "unat m = 11" using less.prems(1) by simp
      then show False using False less.prems(2) c_tables(3) [of ?y] by simp
    qed
    then have um: "unat (m + 1) = Suc (unat m)" by (subst unat_add_u32) simp_all
    have uk: "unat (k - of_nat (c_len ?y (unat m))) = unat k - c_len ?y (unat m)"
      using False ul by (subst unat_sub_u32) simp_all
    have sum: "c_before ?y (unat (m + 1)) + unat (k - of_nat (c_len ?y (unat m))) = c_before ?y (unat m) + unat k"
      using um uk False c_tables(2) [OF m11, of ?y] by simp
    have "yearday_loop (daynum_of ?y) date k m
        = yearday_loop (daynum_of ?y) date (k - of_nat (c_len ?y (unat m))) (m + 1)"
      using le nk table_months(1) [OF less.prems(1)] by (simp add: yearday_loop.simps [of _ _ _ m])
    moreover have "12 - unat (m + 1) < 12 - unat m" "unat (m + 1) < 12"
      "c_before ?y (unat (m + 1)) + unat (k - of_nat (c_len ?y (unat m))) < c_days ?y"
      using um m11 sum less.prems(2) by simp_all
    ultimately show ?thesis using less.hyps [of "m + 1" "k - of_nat (c_len ?y (unat m))"] sum by simp
  qed
qed

lemma date_valid_c_len: "date_valid y m d \<longleftrightarrow> unat m < 12 \<and> unat d < c_len y (unat m)"
  by (auto simp: date_valid_def TT_MONTH_VALID_def TT_MONTH_NUM_def word_less_nat_alt word_le_nat_alt unat_ucast_8 c_len_def)

lemma get_yearday_run:
  "tt_date_valid date \<Longrightarrow> tt_date_get_yearday date = Inr (of_nat (c_before (year date) (unat (month date)) + unat (mday date)))"
  by (simp add: tt_date_get_yearday_def tt_date_valid_def date_valid_c_len unat_ucast_8 table_months)

lemma yearday_is_day:
  assumes "date_in_range date" "d_year date mod 3200 \<noteq> 0"
  shows "c_before (year date) (unat (month date)) + unat (mday date) + g_day (d_year date) 0 0 = date_day date"
proof -
  have m: "unat (month date) < 12" using assms(1) by (simp add: date_in_range_iff g_valid_def)
  have leap: "leap_year (year date) \<longleftrightarrow> g_leap (d_year date)" using assms(2) by (simp add: leap_year_iff d_year_def)
  have "c_before (year date) (unat (month date)) = g_before (d_year date) (unat (month date))"
    using m by (cases rule: month_cases) (simp_all add: c_before_def daynum_before_def leap s_daynum_before_def
      s_daynum_before_leap_def before_table before_table(1) [unfolded One_nat_def] g_len_def)
  then show ?thesis by (simp add: date_day_def g_day_def)
qed

lemma c_before_mono:
  assumes "m < m'" "m' < 12"
  shows "c_before y m + c_len y m \<le> c_before y m'"
  using assms
proof (induction m')
  case (Suc j)
  then have step: "c_before y (Suc j) = c_before y j + c_len y j" by (simp add: c_tables(2))
  show ?case
  proof (cases "m = j")
    case False
    with Suc have "c_before y m + c_len y m \<le> c_before y j" by simp
    with step show ?thesis by simp
  qed (use step in simp)
qed simp

lemma c_day_unique:
  assumes "m < 12" "m' < 12" "d < c_len y m" "d' < c_len y m'" "c_before y m + d = c_before y m' + d'"
  shows "m = m'" "d = d'"
proof -
  show "m = m'"
    using c_before_mono [of m m' y] c_before_mono [of m' m y] assms by (cases m m' rule: linorder_cases) simp_all
  with assms(5) show "d = d'" by simp
qed

lemma set_yearday_run:
  assumes "d_year date < 65536"
  shows "if unat k < c_days (year date)
    then \<exists>m d. tt_date_set_yearday date k = Inr (TT_SUCCESS, date\<lparr>month := of_nat m, mday := of_nat d\<rparr>)
      \<and> m < 12 \<and> d < c_len (year date) m \<and> c_before (year date) m + d = unat k
    else tt_date_set_yearday date k = Inr (TT_FAIL, date)"
proof (cases "unat k < c_days (year date)")
  case True
  then have "\<not> k > 365" "\<not> (\<not> leap_year (year date) \<and> k = 365)"
    by (auto simp: c_days_def word_less_nat_alt split: if_splits)
  then have "tt_date_set_yearday date k = yearday_loop (daynum_of (year date)) date k 0"
    by (simp only: tt_date_set_yearday_def if_False)
  with True yearday_loop_ok [of 0 date k] c_tables(1) show ?thesis by simp
next
  case False
  then have "k > 365 \<or> (\<not> leap_year (year date) \<and> k = 365)"
    by (auto simp: c_days_def word_less_nat_alt word_unat_eq_iff split: if_splits)
  with False show ?thesis by (auto simp: tt_date_set_yearday_def)
qed

text \<open>
  C38. The day of the week and the day of the year. For a valid date the weekday is the day number plus one
  modulo seven, Sunday being zero, in every month but March; in March the code counts as if the year had not
  begun, and is one day behind, two in a leap year. The day of the year is the number of days since 1 January
  (in years divisible by 3200, which the code takes for common years, by the code's own tables); setting it to
  what it is changes nothing, setting it to any number below the length of the year gives the valid date of the
  same year with that day, and any other number is refused.
\<close>

theorem date_week_year:
  assumes "date_in_range date"
  shows "tt_date_get_weekday date = Inr (of_nat ((date_day date
      + (if unat (month date) = 2 then 7 - (if g_leap (d_year date) then 1 else 0) else 1)) mod 7))
    \<and> (\<exists>n. tt_date_get_yearday date = Inr n \<and> tt_date_set_yearday date n = Inr (TT_SUCCESS, date)
        \<and> (d_year date mod 3200 \<noteq> 0 \<longrightarrow> unat n + g_day (d_year date) 0 0 = date_day date))
    \<and> (if unat k < c_days (year date)
       then \<exists>date'. tt_date_set_yearday date k = Inr (TT_SUCCESS, date') \<and> date_in_range date'
         \<and> year date' = year date \<and> same_time date' date \<and> tt_date_get_yearday date' = Inr k
       else tt_date_set_yearday date k = Inr (TT_FAIL, date))"
proof (intro conjI)
  let ?y = "year date" and ?m = "unat (month date)" and ?d = "unat (mday date)"
  have v: "tt_date_valid date" "d_year date < 65536" using assms by (simp_all add: date_in_range_def)
  then have md: "?m < 12" "?d < c_len ?y ?m" by (simp_all add: tt_date_valid_def date_valid_c_len unat_ucast_8)
  show "tt_date_get_weekday date = Inr (of_nat ((date_day date
      + (if ?m = 2 then 7 - (if g_leap (d_year date) then 1 else 0) else 1)) mod 7))"
    by (rule weekday_run [OF assms])
  show "\<exists>n. tt_date_get_yearday date = Inr n \<and> tt_date_set_yearday date n = Inr (TT_SUCCESS, date)
        \<and> (d_year date mod 3200 \<noteq> 0 \<longrightarrow> unat n + g_day (d_year date) 0 0 = date_day date)"
  proof (intro exI conjI impI)
    show "tt_date_get_yearday date = Inr (of_nat (c_before ?y ?m + ?d))" by (rule get_yearday_run [OF v(1)])
    have "c_before ?y ?m + ?d < c_days ?y"
      using md c_before_mono [of ?m 11 ?y] c_tables(3) [of ?y] by (cases "?m = 11") simp_all
    then have lt: "unat (of_nat (c_before ?y ?m + ?d) :: u32) = c_before ?y ?m + ?d" "c_before ?y ?m + ?d < c_days ?y"
      by (simp_all only:) (intro unat_of_nat_u32, simp add: c_days_def split: if_splits)
    then obtain m d where s: "tt_date_set_yearday date (of_nat (c_before ?y ?m + ?d)) = Inr (TT_SUCCESS, date\<lparr>month := of_nat m, mday := of_nat d\<rparr>)"
      "m < 12" "d < c_len ?y m" "c_before ?y m + d = c_before ?y ?m + ?d"
      using set_yearday_run [OF v(2), of "of_nat (c_before ?y ?m + ?d)"] by auto
    have "m = ?m" "d = ?d" using c_day_unique [OF s(2) md(1) s(3) md(2) s(4)] by simp_all
    then show "tt_date_set_yearday date (of_nat (c_before ?y ?m + ?d)) = Inr (TT_SUCCESS, date)"
      using s(1) by simp
    show "unat (of_nat (c_before ?y ?m + ?d) :: u32) + g_day (d_year date) 0 0 = date_day date" if "d_year date mod 3200 \<noteq> 0"
      unfolding lt(1) by (rule yearday_is_day [OF assms that])
  qed
  show "if unat k < c_days ?y
       then \<exists>date'. tt_date_set_yearday date k = Inr (TT_SUCCESS, date') \<and> date_in_range date'
         \<and> year date' = year date \<and> same_time date' date \<and> tt_date_get_yearday date' = Inr k
       else tt_date_set_yearday date k = Inr (TT_FAIL, date)"
  proof (cases "unat k < c_days ?y")
    case True
    then obtain m d where s: "tt_date_set_yearday date k = Inr (TT_SUCCESS, date\<lparr>month := of_nat m, mday := of_nat d\<rparr>)"
      "m < 12" "d < c_len ?y m" "c_before ?y m + d = unat k"
      using set_yearday_run [OF v(2), of k] by auto
    let ?d' = "date\<lparr>month := of_nat m, mday := of_nat d\<rparr>"
    have "unat (of_nat m :: u8) = m" "unat (of_nat d :: u8) = d"
      using s(2,3) c_tables(4) [OF s(2), of ?y] by (simp_all add: unat_of_nat take_bit_nat_eq_self)
    then have "tt_date_valid ?d'" "tt_date_get_yearday ?d' = Inr k"
      using s(2-4) get_yearday_run [of ?d'] by (simp_all add: tt_date_valid_def date_valid_c_len unat_ucast_8)
    with s(1) v True show ?thesis by (auto simp: date_in_range_def d_year_def same_time_def)
  next
    case False
    with set_yearday_run [OF v(2), of k] show ?thesis by simp
  qed
qed

text \<open>Tuesday 29 February 2000 is Tuesday, Wednesday 1 March 2000 is taken for Monday.\<close>

theorem date_week_year_witness:
  "tt_date_get_weekday \<lparr>year = 417, mday = 28, hour = 0, minute = 0, second = 0, month = 1, tz = 14\<rparr> = Inr 2
   \<and> tt_date_get_weekday \<lparr>year = 417, mday = 0, hour = 0, minute = 0, second = 0, month = 2, tz = 14\<rparr> = Inr 1
   \<and> g_day 2000 2 0 + 1 = g_day 2000 1 28 + 2"
proof -
  let ?a = "\<lparr>year = 417, mday = 28, hour = 0, minute = 0, second = 0, month = 1, tz = 14\<rparr> :: tt_date"
  let ?b = "\<lparr>year = 417, mday = 0, hour = 0, minute = 0, second = 0, month = 2, tz = 14\<rparr> :: tt_date"
  have r: "date_in_range ?a" "date_in_range ?b"
    by (simp_all add: date_in_range_iff d_year_def g_valid_def g_len_def g_leap_def)
  have g: "g_day 2000 (Suc 0) 28 = 2451604" "g_day 2000 2 0 = 2451605" "g_leap 2000"
    by (simp_all add: g_day_def g_years_def before_table g_len_def g_leap_def)
  show ?thesis
    using date_week_year [OF r(1), of 0] date_week_year [OF r(2), of 0] g by (simp add: date_day_def d_year_def)
qed

end
