(* ===== verification/TT_RBTree.thy ===== *)
theory TT_RBTree
  imports TT_Container_Specs TT_Buffer_Common
begin

text \<open>
  The red-black tree of \<^verbatim>\<open>algorithm/tt_red_black_tree.c\<close>. A node is a member of a struct of the caller, so
  its record is extensible. The sentinel \<^verbatim>\<open>tnil\<close> is a member of the tree struct; it is a node of the store like
  the others and the tree holds its address. A key pointer is the bytes it leads to, which the caller must not
  change while the node is in the tree.
\<close>

section \<open>Data\<close>

record rbnode =
  rb_parent :: ptr
  rb_left :: ptr
  rb_right :: ptr
  rb_key :: "u8 list option"
  rb_klen :: u32
  rb_black :: bool

type_synonym 'z cmpkey = "'z rbnode_scheme \<Rightarrow> u8 list \<Rightarrow> u32 \<Rightarrow> int run"

record 'z tt_rbtree =
  rb_root :: ptr
  rb_cmpkey :: "'z cmpkey"
  rb_tnil :: nat
  rb_count :: u32

type_synonym 'z rbstore = "'z rbnode_scheme mem"

text \<open>\<^verbatim>\<open>&tree->tnil\<close>, and a member of \<^verbatim>\<open>*p\<close> read and written.\<close>

abbreviation tnil :: "'z tt_rbtree \<Rightarrow> ptr" where "tnil T \<equiv> Some (rb_tnil T)"

definition rb_ld :: "('z rbnode_scheme \<Rightarrow> 'b) \<Rightarrow> 'z rbstore \<Rightarrow> ptr \<Rightarrow> 'b run" where
  "rb_ld f m p = (case p of None \<Rightarrow> Inl Undef | Some a \<Rightarrow> bindr (mem_deref m a) (\<lambda>n. Inr (f n)))"

definition rb_st :: "('z rbnode_scheme \<Rightarrow> 'z rbnode_scheme) \<Rightarrow> 'z rbstore \<Rightarrow> ptr \<Rightarrow> 'z rbstore run" where
  "rb_st u m p = (case p of None \<Rightarrow> Inl Undef | Some a \<Rightarrow> bindr (mem_deref m a) (\<lambda>n. mem_assign m a (u n)))"

definition set_parent :: "ptr \<Rightarrow> 'z rbnode_scheme \<Rightarrow> 'z rbnode_scheme" where "set_parent q n = n\<lparr>rb_parent := q\<rparr>"
definition set_left :: "ptr \<Rightarrow> 'z rbnode_scheme \<Rightarrow> 'z rbnode_scheme" where "set_left q n = n\<lparr>rb_left := q\<rparr>"
definition set_right :: "ptr \<Rightarrow> 'z rbnode_scheme \<Rightarrow> 'z rbnode_scheme" where "set_right q n = n\<lparr>rb_right := q\<rparr>"
definition set_black :: "bool \<Rightarrow> 'z rbnode_scheme \<Rightarrow> 'z rbnode_scheme" where "set_black b n = n\<lparr>rb_black := b\<rparr>"

section \<open>Creation\<close>

definition tt_rbnode_init :: "ptr \<Rightarrow> 'z rbstore \<Rightarrow> 'z rbstore run" where
  "tt_rbnode_init node m =
    rb_st (\<lambda>n. n\<lparr>rb_left := None, rb_right := None, rb_parent := None, rb_key := None, rb_klen := 0, rb_black := False\<rparr>) m node"

definition rbn_cmpkey :: "'z cmpkey" where
  "rbn_cmpkey node key key_len =
    (if rb_klen node < key_len then Inr (- 1)
     else if rb_klen node = key_len then
       (case rb_key node of
          None \<Rightarrow> Inl Undef
        | Some k \<Rightarrow>
          if unat key_len \<le> length k \<and> unat key_len \<le> length key
          then Inr (tt_memcmp (take (unat key_len) k) (take (unat key_len) key)) else Inl Undef)
     else Inr 1)"

definition tt_rbtree_attr_default :: "'z cmpkey" where "tt_rbtree_attr_default = rbn_cmpkey"

definition tt_rbtree_init :: "nat \<Rightarrow> 'z cmpkey option \<Rightarrow> 'z rbstore \<Rightarrow> ('z tt_rbtree \<times> 'z rbstore) run" where
  "tt_rbtree_init nil attr m =
    (let attr = (case attr of None \<Rightarrow> tt_rbtree_attr_default | Some a \<Rightarrow> a);
         T = \<lparr>rb_root = Some nil, rb_cmpkey = attr, rb_tnil = nil, rb_count = 0\<rparr> in
     bindr (tt_rbnode_init (tnil T) m) (\<lambda>m.
     bindr (rb_st (set_black True) m (tnil T)) (\<lambda>m. Inr (T, m))))"

definition tt_rbtree_root :: "'z tt_rbtree \<Rightarrow> ptr" where
  "tt_rbtree_root T = (if rb_root T \<noteq> tnil T then rb_root T else None)"

definition tt_rbtree_count :: "'z tt_rbtree \<Rightarrow> u32" where "tt_rbtree_count T = rb_count T"

definition tt_rbtree_empty :: "'z tt_rbtree \<Rightarrow> bool" where "tt_rbtree_empty T \<longleftrightarrow> rb_count T = 0"

section \<open>Walking\<close>

partial_function (option) rbt_min_loop :: "'z tt_rbtree \<Rightarrow> ptr \<Rightarrow> 'z rbstore \<Rightarrow> ptr run option" where
  "rbt_min_loop T from m =
    (case rb_ld rb_left m from of
       Inl f \<Rightarrow> Some (Inl f)
     | Inr l \<Rightarrow> if l \<noteq> tnil T then rbt_min_loop T l m else Some (Inr from))"

definition rbt_min :: "'z tt_rbtree \<Rightarrow> ptr \<Rightarrow> 'z rbstore \<Rightarrow> ptr run" where
  "rbt_min T from m = bindr (TT_ASSERT (from \<noteq> tnil T)) (\<lambda>_. returned (rbt_min_loop T from m))"

partial_function (option) rbt_max_loop :: "'z tt_rbtree \<Rightarrow> ptr \<Rightarrow> 'z rbstore \<Rightarrow> ptr run option" where
  "rbt_max_loop T from m =
    (case rb_ld rb_right m from of
       Inl f \<Rightarrow> Some (Inl f)
     | Inr r \<Rightarrow> if r \<noteq> tnil T then rbt_max_loop T r m else Some (Inr from))"

definition rbt_max :: "'z tt_rbtree \<Rightarrow> ptr \<Rightarrow> 'z rbstore \<Rightarrow> ptr run" where
  "rbt_max T from m = bindr (TT_ASSERT (from \<noteq> tnil T)) (\<lambda>_. returned (rbt_max_loop T from m))"

definition tt_rbtree_min :: "'z tt_rbtree \<Rightarrow> 'z rbstore \<Rightarrow> ptr run" where
  "tt_rbtree_min T m = (if rb_root T \<noteq> tnil T then rbt_min T (rb_root T) m else Inr None)"

definition tt_rbtree_max :: "'z tt_rbtree \<Rightarrow> 'z rbstore \<Rightarrow> ptr run" where
  "tt_rbtree_max T m = (if rb_root T \<noteq> tnil T then rbt_max T (rb_root T) m else Inr None)"

text \<open>The loops of \<^verbatim>\<open>tt_rbtree_next\<close> and \<^verbatim>\<open>tt_rbtree_prev\<close>: up while the node is the child on the given side.\<close>

partial_function (option) rbt_up_loop ::
  "'z tt_rbtree \<Rightarrow> ('z rbnode_scheme \<Rightarrow> ptr) \<Rightarrow> ptr \<Rightarrow> ptr \<Rightarrow> 'z rbstore \<Rightarrow> ptr run option" where
  "rbt_up_loop T side node parent m =
    (if parent \<noteq> tnil T then
       (case rb_ld side m parent of
          Inl f \<Rightarrow> Some (Inl f)
        | Inr c \<Rightarrow>
          if node = c then
            (case rb_ld rb_parent m parent of Inl f \<Rightarrow> Some (Inl f) | Inr q \<Rightarrow> rbt_up_loop T side parent q m)
          else Some (Inr parent))
     else Some (Inr parent))"

definition tt_rbtree_next :: "'z tt_rbtree \<Rightarrow> ptr \<Rightarrow> 'z rbstore \<Rightarrow> ptr run" where
  "tt_rbtree_next T node m =
    bindr (rb_ld rb_right m node) (\<lambda>r.
    if r \<noteq> tnil T then rbt_min T r m
    else
      bindr (rb_ld rb_parent m node) (\<lambda>parent.
      bindr (returned (rbt_up_loop T rb_right node parent m)) (\<lambda>parent.
      Inr (if parent \<noteq> tnil T then parent else None))))"

definition tt_rbtree_prev :: "'z tt_rbtree \<Rightarrow> ptr \<Rightarrow> 'z rbstore \<Rightarrow> ptr run" where
  "tt_rbtree_prev T node m =
    bindr (rb_ld rb_left m node) (\<lambda>l.
    if l \<noteq> tnil T then rbt_max T l m
    else
      bindr (rb_ld rb_parent m node) (\<lambda>parent.
      bindr (returned (rbt_up_loop T rb_left node parent m)) (\<lambda>parent.
      Inr (if parent \<noteq> tnil T then parent else None))))"

section \<open>Searching\<close>

definition rbt_cmp :: "'z tt_rbtree \<Rightarrow> ptr \<Rightarrow> u8 list \<Rightarrow> u32 \<Rightarrow> 'z rbstore \<Rightarrow> int run" where
  "rbt_cmp T node key key_len m = bindr (rb_ld (\<lambda>n. n) m node) (\<lambda>n. rb_cmpkey T n key key_len)"

partial_function (option) rbt_find_loop ::
  "'z tt_rbtree \<Rightarrow> ptr \<Rightarrow> u8 list \<Rightarrow> u32 \<Rightarrow> 'z rbstore \<Rightarrow> ptr run option" where
  "rbt_find_loop T node key key_len m =
    (if node \<noteq> tnil T then
       (case rbt_cmp T node key key_len m of
          Inl f \<Rightarrow> Some (Inl f)
        | Inr r \<Rightarrow>
          if r > 0 then
            (case rb_ld rb_left m node of Inl f \<Rightarrow> Some (Inl f) | Inr n \<Rightarrow> rbt_find_loop T n key key_len m)
          else if r = 0 then Some (Inr node)
          else (case rb_ld rb_right m node of Inl f \<Rightarrow> Some (Inl f) | Inr n \<Rightarrow> rbt_find_loop T n key key_len m))
     else Some (Inr None))"

definition tt_rbtree_find :: "'z tt_rbtree \<Rightarrow> u8 list \<Rightarrow> u32 \<Rightarrow> 'z rbstore \<Rightarrow> ptr run" where
  "tt_rbtree_find T key key_len m = returned (rbt_find_loop T (rb_root T) key key_len m)"

partial_function (option) rbt_gteq_loop ::
  "'z tt_rbtree \<Rightarrow> ptr \<Rightarrow> ptr \<Rightarrow> u8 list \<Rightarrow> u32 \<Rightarrow> 'z rbstore \<Rightarrow> ptr run option" where
  "rbt_gteq_loop T node gt key key_len m =
    (if node \<noteq> tnil T then
       (case rbt_cmp T node key key_len m of
          Inl f \<Rightarrow> Some (Inl f)
        | Inr r \<Rightarrow>
          if r > 0 then
            (case rb_ld rb_left m node of Inl f \<Rightarrow> Some (Inl f) | Inr n \<Rightarrow> rbt_gteq_loop T n node key key_len m)
          else if r = 0 then Some (Inr node)
          else (case rb_ld rb_right m node of Inl f \<Rightarrow> Some (Inl f) | Inr n \<Rightarrow> rbt_gteq_loop T n gt key key_len m))
     else Some (Inr gt))"

definition tt_rbtree_find_gteq :: "'z tt_rbtree \<Rightarrow> u8 list \<Rightarrow> u32 \<Rightarrow> 'z rbstore \<Rightarrow> ptr run" where
  "tt_rbtree_find_gteq T key key_len m = returned (rbt_gteq_loop T (rb_root T) None key key_len m)"

partial_function (option) rbt_lteq_loop ::
  "'z tt_rbtree \<Rightarrow> ptr \<Rightarrow> ptr \<Rightarrow> u8 list \<Rightarrow> u32 \<Rightarrow> 'z rbstore \<Rightarrow> ptr run option" where
  "rbt_lteq_loop T node lt key key_len m =
    (if node \<noteq> tnil T then
       (case rbt_cmp T node key key_len m of
          Inl f \<Rightarrow> Some (Inl f)
        | Inr r \<Rightarrow>
          if r > 0 then
            (case rb_ld rb_left m node of Inl f \<Rightarrow> Some (Inl f) | Inr n \<Rightarrow> rbt_lteq_loop T n lt key key_len m)
          else if r = 0 then Some (Inr node)
          else (case rb_ld rb_right m node of Inl f \<Rightarrow> Some (Inl f) | Inr n \<Rightarrow> rbt_lteq_loop T n node key key_len m))
     else Some (Inr lt))"

definition tt_rbtree_find_lteq :: "'z tt_rbtree \<Rightarrow> u8 list \<Rightarrow> u32 \<Rightarrow> 'z rbstore \<Rightarrow> ptr run" where
  "tt_rbtree_find_lteq T key key_len m = returned (rbt_lteq_loop T (rb_root T) None key key_len m)"

end
