(* ===== verification/TT_RBTree_Edit.thy ===== *)
theory TT_RBTree_Edit
  imports TT_RBTree
begin

text \<open>
  Adding and removing nodes of the red-black tree of \<^verbatim>\<open>algorithm/tt_red_black_tree.c\<close>, with the rotations and
  the two loops that restore the colours, and the check that the source runs after each change in a build with
  \<^verbatim>\<open>TT_RBTREE_SANITY_CHECK\<close>.
\<close>

section \<open>Rotations\<close>

text \<open>The child \<open>x\<close> of its parent becomes \<open>y\<close>: the same lines in both rotations and in \<^verbatim>\<open>__rbn_transplant\<close>.\<close>

definition rbn_replace :: "'z tt_rbtree \<Rightarrow> ptr \<Rightarrow> ptr \<Rightarrow> 'z rbstore \<Rightarrow> ('z tt_rbtree \<times> 'z rbstore) run" where
  "rbn_replace T x y m =
    bindr (rb_ld rb_parent m x) (\<lambda>q.
    if q = tnil T then Inr (T\<lparr>rb_root := y\<rparr>, m)
    else
      bindr (rb_ld rb_left m q) (\<lambda>c.
      if x = c then bindr (rb_st (set_left y) m q) (\<lambda>m. Inr (T, m))
      else bindr (rb_st (set_right y) m q) (\<lambda>m. Inr (T, m))))"

definition rbn_transplant :: "'z tt_rbtree \<Rightarrow> ptr \<Rightarrow> ptr \<Rightarrow> 'z rbstore \<Rightarrow> ('z tt_rbtree \<times> 'z rbstore) run" where
  "rbn_transplant T u v m =
    bindr (rbn_replace T u v m) (\<lambda>(T, m).
    bindr (rb_ld rb_parent m u) (\<lambda>q.
    bindr (rb_st (set_parent q) m v) (\<lambda>m. Inr (T, m))))"

definition rbt_left_rotate :: "'z tt_rbtree \<Rightarrow> ptr \<Rightarrow> 'z rbstore \<Rightarrow> ('z tt_rbtree \<times> 'z rbstore) run" where
  "rbt_left_rotate T x m =
    bindr (rb_ld rb_right m x) (\<lambda>y.
    bindr (TT_ASSERT (y \<noteq> tnil T)) (\<lambda>_.
    bindr (rb_ld rb_left m y) (\<lambda>b.
    bindr (rb_st (set_right b) m x) (\<lambda>m.
    bindr (rb_ld rb_left m y) (\<lambda>b.
    bindr (if b \<noteq> tnil T then rb_st (set_parent x) m b else Inr m) (\<lambda>m.
    bindr (rb_ld rb_parent m x) (\<lambda>q.
    bindr (rb_st (set_parent q) m y) (\<lambda>m.
    bindr (rbn_replace T x y m) (\<lambda>(T, m).
    bindr (rb_st (set_left x) m y) (\<lambda>m.
    bindr (rb_st (set_parent y) m x) (\<lambda>m. Inr (T, m))))))))))))"

definition rbt_right_rotate :: "'z tt_rbtree \<Rightarrow> ptr \<Rightarrow> 'z rbstore \<Rightarrow> ('z tt_rbtree \<times> 'z rbstore) run" where
  "rbt_right_rotate T x m =
    bindr (rb_ld rb_left m x) (\<lambda>y.
    bindr (TT_ASSERT (y \<noteq> tnil T)) (\<lambda>_.
    bindr (rb_ld rb_right m y) (\<lambda>b.
    bindr (rb_st (set_left b) m x) (\<lambda>m.
    bindr (rb_ld rb_right m y) (\<lambda>b.
    bindr (if b \<noteq> tnil T then rb_st (set_parent x) m b else Inr m) (\<lambda>m.
    bindr (rb_ld rb_parent m x) (\<lambda>q.
    bindr (rb_st (set_parent q) m y) (\<lambda>m.
    bindr (rbn_replace T x y m) (\<lambda>(T, m).
    bindr (rb_st (set_right x) m y) (\<lambda>m.
    bindr (rb_st (set_parent y) m x) (\<lambda>m. Inr (T, m))))))))))))"

section \<open>Adding a node\<close>

text \<open>
  The body of the loop of \<^verbatim>\<open>__rbt_add_fixup\<close>, one definition for each side on which the parent \<open>p\<close> of \<open>z\<close> is
  below the grandparent \<open>g\<close>; its result is the next \<open>z\<close>.
\<close>

definition rbt_add_fixup_left :: "'z tt_rbtree \<Rightarrow> ptr \<Rightarrow> ptr \<Rightarrow> ptr \<Rightarrow> 'z rbstore \<Rightarrow> (ptr \<times> 'z tt_rbtree \<times> 'z rbstore) run" where
  "rbt_add_fixup_left T z p g m =
    bindr (rb_ld rb_right m g) (\<lambda>y.
    bindr (rb_ld rb_black m y) (\<lambda>yb.
    if \<not> yb then
      bindr (rb_st (set_black True) m p) (\<lambda>m.
      bindr (rb_st (set_black True) m y) (\<lambda>m.
      bindr (rb_st (set_black False) m g) (\<lambda>m. Inr (g, T, m))))
    else
      bindr (rb_ld rb_right m p) (\<lambda>c.
      bindr (if z = c then bindr (rbt_left_rotate T p m) (\<lambda>(T, m). Inr (p, T, m)) else Inr (z, T, m)) (\<lambda>(z, T, m).
      bindr (rb_ld rb_parent m z) (\<lambda>p.
      bindr (rb_st (set_black True) m p) (\<lambda>m.
      bindr (rb_ld rb_parent m z) (\<lambda>p.
      bindr (rb_ld rb_parent m p) (\<lambda>g.
      bindr (rb_st (set_black False) m g) (\<lambda>m.
      bindr (rb_ld rb_parent m z) (\<lambda>p.
      bindr (rb_ld rb_parent m p) (\<lambda>g.
      bindr (rbt_right_rotate T g m) (\<lambda>(T, m). Inr (z, T, m)))))))))))))"

definition rbt_add_fixup_right :: "'z tt_rbtree \<Rightarrow> ptr \<Rightarrow> ptr \<Rightarrow> ptr \<Rightarrow> 'z rbstore \<Rightarrow> (ptr \<times> 'z tt_rbtree \<times> 'z rbstore) run" where
  "rbt_add_fixup_right T z p g m =
    bindr (rb_ld rb_left m g) (\<lambda>y.
    bindr (rb_ld rb_black m y) (\<lambda>yb.
    if \<not> yb then
      bindr (rb_st (set_black True) m p) (\<lambda>m.
      bindr (rb_st (set_black True) m y) (\<lambda>m.
      bindr (rb_st (set_black False) m g) (\<lambda>m. Inr (g, T, m))))
    else
      bindr (rb_ld rb_left m p) (\<lambda>c.
      bindr (if z = c then bindr (rbt_right_rotate T p m) (\<lambda>(T, m). Inr (p, T, m)) else Inr (z, T, m)) (\<lambda>(z, T, m).
      bindr (rb_ld rb_parent m z) (\<lambda>p.
      bindr (rb_st (set_black True) m p) (\<lambda>m.
      bindr (rb_ld rb_parent m z) (\<lambda>p.
      bindr (rb_ld rb_parent m p) (\<lambda>g.
      bindr (rb_st (set_black False) m g) (\<lambda>m.
      bindr (rb_ld rb_parent m z) (\<lambda>p.
      bindr (rb_ld rb_parent m p) (\<lambda>g.
      bindr (rbt_left_rotate T g m) (\<lambda>(T, m). Inr (z, T, m)))))))))))))"

definition rbt_add_fixup_body :: "'z tt_rbtree \<Rightarrow> ptr \<Rightarrow> 'z rbstore \<Rightarrow> (ptr \<times> 'z tt_rbtree \<times> 'z rbstore) run" where
  "rbt_add_fixup_body T z m =
    bindr (rb_ld rb_parent m z) (\<lambda>p.
    bindr (rb_ld rb_parent m p) (\<lambda>g.
    bindr (rb_ld rb_left m g) (\<lambda>gl.
    if p = gl then rbt_add_fixup_left T z p g m else rbt_add_fixup_right T z p g m)))"

partial_function (option) rbt_add_fixup_loop ::
  "'z tt_rbtree \<Rightarrow> ptr \<Rightarrow> 'z rbstore \<Rightarrow> ('z tt_rbtree \<times> 'z rbstore) run option" where
  "rbt_add_fixup_loop T z m =
    (case bindr (rb_ld rb_parent m z) (rb_ld rb_black m) of
       Inl f \<Rightarrow> Some (Inl f)
     | Inr b \<Rightarrow>
       if \<not> b then
         (case rbt_add_fixup_body T z m of
            Inl f \<Rightarrow> Some (Inl f)
          | Inr s \<Rightarrow> rbt_add_fixup_loop (fst (snd s)) (fst s) (snd (snd s)))
       else Some (Inr (T, m)))"

definition rbt_add_fixup :: "'z tt_rbtree \<Rightarrow> ptr \<Rightarrow> 'z rbstore \<Rightarrow> ('z tt_rbtree \<times> 'z rbstore) run" where
  "rbt_add_fixup T z m =
    bindr (returned (rbt_add_fixup_loop T z m)) (\<lambda>(T, m).
    bindr (rb_st (set_black True) m (rb_root T)) (\<lambda>m. Inr (T, m)))"

text \<open>The search for the place: the node \<open>y\<close> below which to insert, and on which side. \<open>left\<close> is undefined at first.\<close>

partial_function (option) rbt_place_loop ::
  "'z tt_rbtree \<Rightarrow> ptr \<Rightarrow> ptr \<Rightarrow> bool option \<Rightarrow> u8 list \<Rightarrow> u32 \<Rightarrow> 'z rbstore \<Rightarrow> (ptr \<times> bool option) run option" where
  "rbt_place_loop T x y left key key_len m =
    (if x \<noteq> tnil T then
       (case rbt_cmp T x key key_len m of
          Inl f \<Rightarrow> Some (Inl f)
        | Inr r \<Rightarrow>
          if r > 0 then
            (case rb_ld rb_left m x of Inl f \<Rightarrow> Some (Inl f) | Inr c \<Rightarrow> rbt_place_loop T c x (Some True) key key_len m)
          else
            (case rb_ld rb_right m x of Inl f \<Rightarrow> Some (Inl f) | Inr c \<Rightarrow> rbt_place_loop T c x (Some False) key key_len m))
     else Some (Inr (y, left)))"

definition tt_rbtree_add ::
  "u8 list \<Rightarrow> u32 \<Rightarrow> ptr \<Rightarrow> 'z tt_rbtree \<Rightarrow> 'z rbstore \<Rightarrow> ('z tt_rbtree \<times> 'z rbstore) run" where
  "tt_rbtree_add key key_len z T m =
    bindr (rb_ld rb_parent m z) (\<lambda>q.
    bindr (TT_ASSERT (q = None)) (\<lambda>_.
    bindr (returned (rbt_place_loop T (rb_root T) (tnil T) None key key_len m)) (\<lambda>(y, left).
    bindr (rb_st (set_parent y) m z) (\<lambda>m.
    bindr (if y = tnil T then Inr (T\<lparr>rb_root := z\<rparr>, m)
           else (case left of
               None \<Rightarrow> Inl Undef
             | Some True \<Rightarrow> bindr (rb_st (set_left z) m y) (\<lambda>m. Inr (T, m))
             | Some False \<Rightarrow> bindr (rb_st (set_right z) m y) (\<lambda>m. Inr (T, m)))) (\<lambda>(T, m).
    bindr (rb_st (set_left (tnil T)) m z) (\<lambda>m.
    bindr (rb_st (set_right (tnil T)) m z) (\<lambda>m.
    bindr (rb_st (\<lambda>n. n\<lparr>rb_key := Some key, rb_klen := key_len, rb_black := False\<rparr>) m z) (\<lambda>m.
    bindr (rbt_add_fixup T z m) (\<lambda>(T, m).
    Inr (T\<lparr>rb_count := rb_count T + 1\<rparr>, m))))))))))"

section \<open>Removing a node\<close>

text \<open>The body of the loop of \<^verbatim>\<open>__rbt_remove_fixup\<close>, for \<open>x\<close> the left and the right child of \<open>p\<close>; its result is the next \<open>x\<close>.\<close>

definition rbt_remove_fixup_left :: "'z tt_rbtree \<Rightarrow> ptr \<Rightarrow> ptr \<Rightarrow> 'z rbstore \<Rightarrow> (ptr \<times> 'z tt_rbtree \<times> 'z rbstore) run" where
  "rbt_remove_fixup_left T x p m =
    bindr (rb_ld rb_right m p) (\<lambda>w.
    bindr (rb_ld rb_black m w) (\<lambda>wb.
    bindr (if \<not> wb then
             bindr (rb_st (set_black True) m w) (\<lambda>m.
             bindr (rb_ld rb_parent m x) (\<lambda>p.
             bindr (rb_st (set_black False) m p) (\<lambda>m.
             bindr (rbt_left_rotate T p m) (\<lambda>(T, m).
             bindr (rb_ld rb_parent m x) (\<lambda>p.
             bindr (rb_ld rb_right m p) (\<lambda>w. Inr (w, T, m)))))))
           else Inr (w, T, m)) (\<lambda>(w, T, m).
    bindr (rb_ld rb_left m w) (\<lambda>wl.
    bindr (rb_ld rb_black m wl) (\<lambda>wlb.
    bindr (rb_ld rb_right m w) (\<lambda>wr.
    bindr (rb_ld rb_black m wr) (\<lambda>wrb.
    if wlb \<and> wrb then
      bindr (rb_st (set_black False) m w) (\<lambda>m.
      bindr (rb_ld rb_parent m x) (\<lambda>p. Inr (p, T, m)))
    else
      bindr (if wrb then
               bindr (rb_st (set_black True) m wl) (\<lambda>m.
               bindr (rb_st (set_black False) m w) (\<lambda>m.
               bindr (rbt_right_rotate T w m) (\<lambda>(T, m).
               bindr (rb_ld rb_parent m x) (\<lambda>p.
               bindr (rb_ld rb_right m p) (\<lambda>w. Inr (w, T, m))))))
             else Inr (w, T, m)) (\<lambda>(w, T, m).
      bindr (rb_ld rb_parent m x) (\<lambda>p.
      bindr (rb_ld rb_black m p) (\<lambda>pb.
      bindr (rb_st (set_black pb) m w) (\<lambda>m.
      bindr (rb_st (set_black True) m p) (\<lambda>m.
      bindr (rb_ld rb_right m w) (\<lambda>wf.
      bindr (rb_st (set_black True) m wf) (\<lambda>m.
      bindr (rbt_left_rotate T p m) (\<lambda>(T, m). Inr (rb_root T, T, m))))))))))))))))"

definition rbt_remove_fixup_right :: "'z tt_rbtree \<Rightarrow> ptr \<Rightarrow> ptr \<Rightarrow> 'z rbstore \<Rightarrow> (ptr \<times> 'z tt_rbtree \<times> 'z rbstore) run" where
  "rbt_remove_fixup_right T x p m =
    bindr (rb_ld rb_left m p) (\<lambda>w.
    bindr (rb_ld rb_black m w) (\<lambda>wb.
    bindr (if \<not> wb then
             bindr (rb_st (set_black True) m w) (\<lambda>m.
             bindr (rb_ld rb_parent m x) (\<lambda>p.
             bindr (rb_st (set_black False) m p) (\<lambda>m.
             bindr (rbt_right_rotate T p m) (\<lambda>(T, m).
             bindr (rb_ld rb_parent m x) (\<lambda>p.
             bindr (rb_ld rb_left m p) (\<lambda>w. Inr (w, T, m)))))))
           else Inr (w, T, m)) (\<lambda>(w, T, m).
    bindr (rb_ld rb_left m w) (\<lambda>wl.
    bindr (rb_ld rb_black m wl) (\<lambda>wlb.
    bindr (rb_ld rb_right m w) (\<lambda>wr.
    bindr (rb_ld rb_black m wr) (\<lambda>wrb.
    if wlb \<and> wrb then
      bindr (rb_st (set_black False) m w) (\<lambda>m.
      bindr (rb_ld rb_parent m x) (\<lambda>p. Inr (p, T, m)))
    else
      bindr (if wlb then
               bindr (rb_st (set_black True) m wr) (\<lambda>m.
               bindr (rb_st (set_black False) m w) (\<lambda>m.
               bindr (rbt_left_rotate T w m) (\<lambda>(T, m).
               bindr (rb_ld rb_parent m x) (\<lambda>p.
               bindr (rb_ld rb_left m p) (\<lambda>w. Inr (w, T, m))))))
             else Inr (w, T, m)) (\<lambda>(w, T, m).
      bindr (rb_ld rb_parent m x) (\<lambda>p.
      bindr (rb_ld rb_black m p) (\<lambda>pb.
      bindr (rb_st (set_black pb) m w) (\<lambda>m.
      bindr (rb_st (set_black True) m p) (\<lambda>m.
      bindr (rb_ld rb_left m w) (\<lambda>wf.
      bindr (rb_st (set_black True) m wf) (\<lambda>m.
      bindr (rbt_right_rotate T p m) (\<lambda>(T, m). Inr (rb_root T, T, m))))))))))))))))"

definition rbt_remove_fixup_body :: "'z tt_rbtree \<Rightarrow> ptr \<Rightarrow> 'z rbstore \<Rightarrow> (ptr \<times> 'z tt_rbtree \<times> 'z rbstore) run" where
  "rbt_remove_fixup_body T x m =
    bindr (rb_ld rb_parent m x) (\<lambda>p.
    bindr (rb_ld rb_left m p) (\<lambda>pl.
    if x = pl then rbt_remove_fixup_left T x p m else rbt_remove_fixup_right T x p m))"

partial_function (option) rbt_remove_fixup_loop ::
  "'z tt_rbtree \<Rightarrow> ptr \<Rightarrow> 'z rbstore \<Rightarrow> (ptr \<times> 'z tt_rbtree \<times> 'z rbstore) run option" where
  "rbt_remove_fixup_loop T x m =
    (if x \<noteq> rb_root T then
       (case rb_ld rb_black m x of
          Inl f \<Rightarrow> Some (Inl f)
        | Inr b \<Rightarrow>
          if b then
            (case rbt_remove_fixup_body T x m of
               Inl f \<Rightarrow> Some (Inl f)
             | Inr s \<Rightarrow> rbt_remove_fixup_loop (fst (snd s)) (fst s) (snd (snd s)))
          else Some (Inr (x, T, m)))
     else Some (Inr (x, T, m)))"

definition rbt_remove_fixup :: "'z tt_rbtree \<Rightarrow> ptr \<Rightarrow> 'z rbstore \<Rightarrow> ('z tt_rbtree \<times> 'z rbstore) run" where
  "rbt_remove_fixup T x m =
    bindr (returned (rbt_remove_fixup_loop T x m)) (\<lambda>(x, T, m).
    bindr (rb_st (set_black True) m x) (\<lambda>m. Inr (T, m)))"

text \<open>The part of \<^verbatim>\<open>tt_rbtree_remove\<close> for a node with two children: its successor \<open>y\<close> takes its place.\<close>

definition rbt_unlink_two :: "'z tt_rbtree \<Rightarrow> ptr \<Rightarrow> 'z rbstore \<Rightarrow> (bool \<times> ptr \<times> 'z tt_rbtree \<times> 'z rbstore) run" where
  "rbt_unlink_two T z m =
    bindr (rb_ld rb_right m z) (\<lambda>zr.
    bindr (rbt_min T zr m) (\<lambda>y.
    bindr (rb_ld rb_black m y) (\<lambda>black.
    bindr (rb_ld rb_right m y) (\<lambda>x.
    bindr (rb_ld rb_parent m y) (\<lambda>yp.
    bindr (if yp = z then bindr (rb_st (set_parent y) m x) (\<lambda>m. Inr (T, m))
           else
             bindr (rbn_transplant T y x m) (\<lambda>(T, m).
             bindr (rb_ld rb_right m z) (\<lambda>zr.
             bindr (rb_st (set_right zr) m y) (\<lambda>m.
             bindr (rb_st (set_parent y) m zr) (\<lambda>m. Inr (T, m)))))) (\<lambda>(T, m).
    bindr (rbn_transplant T z y m) (\<lambda>(T, m).
    bindr (rb_ld rb_left m z) (\<lambda>zl.
    bindr (rb_st (set_left zl) m y) (\<lambda>m.
    bindr (rb_st (set_parent y) m zl) (\<lambda>m.
    bindr (rb_ld rb_black m z) (\<lambda>zb.
    bindr (rb_st (set_black zb) m y) (\<lambda>m.
    Inr (black, x, T, m)))))))))))))"

definition rbt_unlink :: "'z tt_rbtree \<Rightarrow> ptr \<Rightarrow> 'z rbstore \<Rightarrow> (bool \<times> ptr \<times> 'z tt_rbtree \<times> 'z rbstore) run" where
  "rbt_unlink T z m =
    bindr (rb_ld rb_left m z) (\<lambda>zl.
    bindr (rb_ld rb_right m z) (\<lambda>zr.
    if zl = tnil T then
      bindr (rb_ld rb_black m z) (\<lambda>black.
      bindr (rbn_transplant T z zr m) (\<lambda>(T, m). Inr (black, zr, T, m)))
    else if zr = tnil T then
      bindr (rb_ld rb_black m z) (\<lambda>black.
      bindr (rbn_transplant T z zl m) (\<lambda>(T, m). Inr (black, zl, T, m)))
    else rbt_unlink_two T z m))"

definition tt_rbtree_remove :: "ptr \<Rightarrow> 'z tt_rbtree \<Rightarrow> 'z rbstore \<Rightarrow> ('z tt_rbtree \<times> 'z rbstore) run" where
  "tt_rbtree_remove z T m =
    bindr (rb_ld rb_parent m z) (\<lambda>q.
    if q = None then Inr (T, m)
    else
      bindr (rbt_unlink T z m) (\<lambda>(black, x, T, m).
      bindr (if black then rbt_remove_fixup T x m else Inr (T, m)) (\<lambda>(T, m).
      bindr (tt_rbnode_init z m) (\<lambda>m.
      Inr (T\<lparr>rb_count := rb_count T - 1\<rparr>, m)))))"

section \<open>The check of the colours\<close>

text \<open>\<^verbatim>\<open>__rbt_expensive_check\<close>: the black height of the subtree, or \<open>None\<close> for \<^verbatim>\<open>TT_FAIL\<close>. And \<^verbatim>\<open>__rbt_count\<close>.\<close>

partial_function (option) rbt_expensive_check :: "'z tt_rbtree \<Rightarrow> ptr \<Rightarrow> 'z rbstore \<Rightarrow> u32 option run option" where
  "rbt_expensive_check T node m =
    (case rb_ld (\<lambda>n. n) m node of
       Inl f \<Rightarrow> Some (Inl f)
     | Inr n \<Rightarrow>
       if node = tnil T then Some (Inr (if rb_black n then Some 1 else None))
       else if node = rb_root T \<and> \<not> rb_black n then Some (Inr None)
       else
         (case (if rb_black n then Inr True
                else bindr (rb_ld rb_black m (rb_left n)) (\<lambda>lb.
                  if lb then rb_ld rb_black m (rb_right n) else Inr False)) of
            Inl f \<Rightarrow> Some (Inl f)
          | Inr ok \<Rightarrow>
            if \<not> ok then Some (Inr None)
            else
              Option.bind (rbt_expensive_check T (rb_left n) m) (\<lambda>l.
              (case l of
                 Inl f \<Rightarrow> Some (Inl f)
               | Inr lh \<Rightarrow>
                 if lh = None then Some (Inr None)
                 else
                   Option.bind (rbt_expensive_check T (rb_right n) m) (\<lambda>r.
                   Some (bindr r (\<lambda>rh.
                     Inr (if rh = None \<or> rh \<noteq> lh then None
                          else if rb_black n then Some (the lh + 1) else lh))))))))"

partial_function (option) rbt_count :: "'z tt_rbtree \<Rightarrow> ptr \<Rightarrow> 'z rbstore \<Rightarrow> u32 run option" where
  "rbt_count T node m =
    (if node = tnil T then Some (Inr 0)
     else
       (case rb_ld (\<lambda>n. n) m node of
          Inl f \<Rightarrow> Some (Inl f)
        | Inr n \<Rightarrow>
          Option.bind (rbt_count T (rb_left n) m) (\<lambda>l.
          (case l of
             Inl f \<Rightarrow> Some (Inl f)
           | Inr lc \<Rightarrow>
             Option.bind (rbt_count T (rb_right n) m) (\<lambda>r. Some (bindr r (\<lambda>rc. Inr (lc + rc + 1))))))))"

end
