(* ===== verification/TT_Cells.thy ===== *)
theory TT_Cells
  imports TT_Container_Specs
begin

text \<open>
  Stores of structs that are linked to each other: a struct is a block of one cell. The linked lists keep
  their heads, which are members of structs of the caller, in a second map, so that two of their arguments
  may be the same list.
\<close>

section \<open>Cells\<close>

definition cell :: "'c mem \<Rightarrow> nat \<Rightarrow> bool" where
  "cell m a \<longleftrightarrow> mem_blocks m a = Some [struct_at m a]"

definition cell_upd :: "'c mem \<Rightarrow> nat \<Rightarrow> 'c \<Rightarrow> 'c mem" where
  "cell_upd m a n = m\<lparr>mem_blocks := (mem_blocks m)(a \<mapsto> [n])\<rparr>"

lemma cell_upd_simps [simp]:
  "struct_at (cell_upd m a n) = (struct_at m)(a := n)"
  "cell (cell_upd m a n) b \<longleftrightarrow> b = a \<or> cell m b"
  "mem_heap (cell_upd m a n) = mem_heap m"
  by (auto simp: cell_upd_def cell_def struct_at_def fun_eq_iff)

lemma cell_upd_inv: "mem_inv m \<Longrightarrow> cell m a \<Longrightarrow> mem_inv (cell_upd m a n)"
  by (auto simp: cell_upd_def cell_def intro: mem_inv_upd)

lemma mem_deref_cell: "cell m a \<Longrightarrow> mem_deref m a = Inr (struct_at m a)"
  by (simp add: mem_deref_def cell_def)

lemma mem_assign_cell: "cell m a \<Longrightarrow> mem_assign m a c = Inr (cell_upd m a c)"
  by (simp add: mem_assign_def cell_def cell_upd_def)

lemma is_struct_cell: "is_struct m a \<longleftrightarrow> a \<in> mem_heap m \<and> cell m a"
  by (simp add: is_struct_def cell_def)

section \<open>Stores of lists\<close>

record ('l, 'h, 'n) lstore =
  ls_lists :: "'l \<Rightarrow> 'h option"
  ls_nodes :: "'n mem"

text \<open>A member of a node \<^verbatim>\<open>*p\<close> and of a list \<^verbatim>\<open>*l\<close> read and written.\<close>

definition ln_ld :: "('n \<Rightarrow> 'b) \<Rightarrow> ('l, 'h, 'n) lstore \<Rightarrow> nat \<Rightarrow> 'b run" where
  "ln_ld f s a = bindr (mem_deref (ls_nodes s) a) (\<lambda>n. Inr (f n))"

definition ln_st :: "('n \<Rightarrow> 'n) \<Rightarrow> ('l, 'h, 'n) lstore \<Rightarrow> nat \<Rightarrow> ('l, 'h, 'n) lstore run" where
  "ln_st u s a = bindr (mem_deref (ls_nodes s) a) (\<lambda>n. bindr (mem_assign (ls_nodes s) a (u n)) (\<lambda>m. Inr (s\<lparr>ls_nodes := m\<rparr>)))"

definition lh_ld :: "('h \<Rightarrow> 'b) \<Rightarrow> ('l, 'h, 'n) lstore \<Rightarrow> 'l \<Rightarrow> 'b run" where
  "lh_ld f s l = (case ls_lists s l of None \<Rightarrow> Inl Undef | Some h \<Rightarrow> Inr (f h))"

definition lh_st :: "('h \<Rightarrow> 'h) \<Rightarrow> ('l, 'h, 'n) lstore \<Rightarrow> 'l \<Rightarrow> ('l, 'h, 'n) lstore run" where
  "lh_st u s l = (case ls_lists s l of None \<Rightarrow> Inl Undef | Some h \<Rightarrow> Inr (s\<lparr>ls_lists := (ls_lists s)(l \<mapsto> u h)\<rparr>))"

abbreviation lnd :: "('l, 'h, 'n) lstore \<Rightarrow> nat \<Rightarrow> 'n" where "lnd s a \<equiv> struct_at (ls_nodes s) a"

abbreviation lcell :: "('l, 'h, 'n) lstore \<Rightarrow> nat \<Rightarrow> bool" where "lcell s a \<equiv> cell (ls_nodes s) a"

text \<open>What the reads and writes do where they are defined.\<close>

named_theorems ll_run "evaluation of reads and writes of nodes and lists"

lemma ln_ld_cell [ll_run]: "lcell s a \<Longrightarrow> ln_ld f s a = Inr (f (lnd s a))"
  by (simp add: ln_ld_def mem_deref_cell)

lemma ln_st_cell [ll_run]: "lcell s a \<Longrightarrow> ln_st u s a = Inr (s\<lparr>ls_nodes := cell_upd (ls_nodes s) a (u (lnd s a))\<rparr>)"
  by (simp add: ln_st_def mem_deref_cell mem_assign_cell)

lemma lh_ld_list [ll_run]: "ls_lists s l = Some h \<Longrightarrow> lh_ld f s l = Inr (f h)"
  by (simp add: lh_ld_def)

lemma lh_st_list [ll_run]: "ls_lists s l = Some h \<Longrightarrow> lh_st u s l = Inr (s\<lparr>ls_lists := (ls_lists s)(l \<mapsto> u h)\<rparr>)"
  by (simp add: lh_st_def)

text \<open>A change of links only: the same structs, each with the same data \<open>d\<close>.\<close>

definition same_cells :: "('n \<Rightarrow> 'd) \<Rightarrow> 'n mem \<Rightarrow> 'n mem \<Rightarrow> bool" where
  "same_cells d m m' \<longleftrightarrow> mem_heap m' = mem_heap m \<and> cell m' = cell m \<and> (\<forall>a. d (struct_at m' a) = d (struct_at m a))
     \<and> (\<forall>a. \<not> cell m a \<longrightarrow> mem_blocks m' a = mem_blocks m a) \<and> (mem_inv m \<longrightarrow> mem_inv m')"

lemma same_cells_refl [simp]: "same_cells d m m"
  by (simp add: same_cells_def)

lemma same_cells_trans: "same_cells d m m1 \<Longrightarrow> same_cells d m1 m2 \<Longrightarrow> same_cells d m m2"
  by (simp add: same_cells_def)

lemma same_cells_upd: "same_cells d m m1 \<Longrightarrow> cell m a \<Longrightarrow> d n = d (struct_at m a) \<Longrightarrow> same_cells d m (cell_upd m1 a n)"
  by (auto simp: same_cells_def fun_eq_iff cell_upd_inv) (auto simp: cell_upd_def)

lemma same_cellsD:
  assumes "same_cells d m m'"
  shows "cell m' a = cell m a" "d (struct_at m' a) = d (struct_at m a)" "mem_inv m \<Longrightarrow> mem_inv m'" "mem_heap m' = mem_heap m"
  using assms by (simp_all add: same_cells_def)

definition same_structs :: "('n \<Rightarrow> 'd) \<Rightarrow> ('l, 'h, 'n) lstore \<Rightarrow> ('l, 'h, 'n) lstore \<Rightarrow> bool" where
  "same_structs d s s' \<longleftrightarrow> same_cells d (ls_nodes s) (ls_nodes s') \<and> dom (ls_lists s') = dom (ls_lists s)"

lemma same_structs_refl [simp]: "same_structs d s s"
  by (simp add: same_structs_def)

lemma same_structs_trans: "same_structs d s s1 \<Longrightarrow> same_structs d s1 s2 \<Longrightarrow> same_structs d s s2"
  using same_cells_trans by (auto simp: same_structs_def)

lemma same_structsD:
  assumes "same_structs d s s'"
  shows "lcell s' a = lcell s a" "d (lnd s' a) = d (lnd s a)" "(ls_lists s' l = None) = (ls_lists s l = None)"
    "mem_inv (ls_nodes s) \<Longrightarrow> mem_inv (ls_nodes s')" "mem_heap (ls_nodes s') = mem_heap (ls_nodes s)"
proof -
  have c: "same_cells d (ls_nodes s) (ls_nodes s')" and "dom (ls_lists s') = dom (ls_lists s)"
    using assms by (simp_all add: same_structs_def)
  then show "(ls_lists s' l = None) = (ls_lists s l = None)" by (metis domIff)
  show "lcell s' a = lcell s a" "d (lnd s' a) = d (lnd s a)" "mem_inv (ls_nodes s) \<Longrightarrow> mem_inv (ls_nodes s')"
    "mem_heap (ls_nodes s') = mem_heap (ls_nodes s)" using same_cellsD [OF c] by simp_all
qed

section \<open>Neighbours in a list\<close>

primrec first :: "'a list \<Rightarrow> 'a option" where
  "first [] = None"
| "first (x # xs) = Some x"

definition final :: "'a list \<Rightarrow> 'a option" where "final xs = first (rev xs)"

primrec after :: "'a list \<Rightarrow> 'a \<Rightarrow> 'a option" where
  "after [] a = None"
| "after (x # xs) a = (if x = a then first xs else after xs a)"

definition before :: "'a list \<Rightarrow> 'a \<Rightarrow> 'a option" where "before xs a = after (rev xs) a"

lemma first_append [simp]: "first (xs @ ys) = (if xs = [] then first ys else first xs)"
  by (cases xs) simp_all

lemma first_None [simp]: "first xs = None \<longleftrightarrow> xs = []" "None = first xs \<longleftrightarrow> xs = []"
  by (cases xs; simp)+

lemma final_simps [simp]: "final [] = None" "final (xs @ [x]) = Some x"
  by (simp_all add: final_def)

lemma after_out [simp]: "a \<notin> set xs \<Longrightarrow> after (xs @ ys) a = after ys a"
  by (induction xs) auto

lemma after_out_all [simp]: "a \<notin> set xs \<Longrightarrow> after xs a = None"
  by (induction xs) auto

lemma after_in: "a \<in> set xs \<Longrightarrow> after (xs @ y # ys) a = after (xs @ [y]) a"
proof (induction xs)
  case (Cons x xs)
  then show ?case by (cases "x = a") (cases xs; simp)+
qed simp

lemma final_Cons [simp]: "final (x # xs) = (if xs = [] then Some x else final xs)"
  by (cases xs rule: rev_cases) (simp_all add: final_def)

lemma before_out [simp]: "a \<notin> set xs \<Longrightarrow> before xs a = None"
  by (simp add: before_def)

lemma final_eq_Some: "final xs = Some a \<longleftrightarrow> (\<exists>ys. xs = ys @ [a])"
  by (cases xs rule: rev_cases) auto

lemma first_eq_Some: "first xs = Some a \<longleftrightarrow> (\<exists>ys. xs = a # ys)"
  by (cases xs) auto

lemma final_rev [simp]: "final (rev xs) = first xs" "first (rev xs) = final xs"
  by (simp_all add: final_def)

lemma final_None [simp]: "final xs = None \<longleftrightarrow> xs = []" "None = final xs \<longleftrightarrow> xs = []"
  by (cases xs rule: rev_cases; simp)+

lemma final_append [simp]: "final (xs @ ys) = (if ys = [] then final xs else final ys)"
proof (cases ys rule: rev_cases)
  case (snoc zs y)
  then have "xs @ ys = (xs @ zs) @ [y]" by simp
  then show ?thesis using snoc by (metis append_is_Nil_conv final_simps(2) list.distinct(1))
qed simp

lemma after_middle: "distinct (us @ c # vs) \<Longrightarrow> after (us @ c # vs) c = first vs"
  by simp

lemma first_in: "first xs = Some a \<Longrightarrow> a \<in> set xs"
  by (auto simp: first_eq_Some)

lemma final_in: "final xs = Some a \<Longrightarrow> a \<in> set xs"
  by (auto simp: final_eq_Some)

lemma map_upd_eq: "f(l \<mapsto> x) = f(l \<mapsto> y) \<longleftrightarrow> x = y" "f = f(l \<mapsto> x) \<longleftrightarrow> f l = Some x"
  by (metis fun_upd_same option.inject) (metis fun_upd_same fun_upd_triv)

text \<open>A node put between \<open>xs\<close> and \<open>ys\<close> is the neighbour of both sides; all other neighbours are as before.\<close>

lemma after_insert:
  assumes "distinct (xs @ a # ys)"
  shows "after (xs @ a # ys) c = (if c = a then first ys else if final xs = Some c then Some a else after (xs @ ys) c)"
proof -
  consider "c = a" | zs where "xs = zs @ [c]" "c \<noteq> a" | "c \<in> set xs" "final xs \<noteq> Some c" "c \<noteq> a" | "c \<notin> set xs" "c \<noteq> a"
    by (auto simp: final_eq_Some)
  then show ?thesis
  proof cases
    case 3
    then obtain us vs where "xs = us @ c # vs" by (meson split_list)
    moreover obtain v ws where "vs = v # ws" using 3 calculation by (cases vs) (auto simp: final_eq_Some)
    ultimately show ?thesis using assms 3 by simp
  next
    case 4
    then show ?thesis using assms by (auto simp: final_eq_Some)
  qed (use assms in simp_all)
qed

lemma before_insert:
  assumes "distinct (xs @ a # ys)"
  shows "before (xs @ a # ys) c = (if c = a then final xs else if first ys = Some c then Some a else before (xs @ ys) c)"
proof -
  have "distinct (rev ys @ a # rev xs)" using assms by auto
  from after_insert [OF this] show ?thesis by (simp add: before_def)
qed

lemma after_final: "distinct xs \<Longrightarrow> final xs = Some a \<Longrightarrow> after xs a = None"
  by (auto simp: final_eq_Some)

lemma before_first: "distinct xs \<Longrightarrow> first xs = Some a \<Longrightarrow> before xs a = None"
  using after_final [of "rev xs" a] by (simp add: before_def)

lemma after_join:
  assumes "distinct (xs @ ys)"
  shows "after (xs @ ys) c = (if c \<in> set ys then after ys c else if final xs = Some c then first ys else after xs c)"
proof (cases "c \<in> set xs")
  case True
  then obtain us vs where xs: "xs = us @ c # vs" by (meson split_list)
  have "c \<notin> set ys" using assms True by auto
  moreover have "final xs = Some c \<longleftrightarrow> vs = []"
    using assms xs by (cases vs rule: rev_cases) auto
  moreover have "after (xs @ ys) c = first (vs @ ys)" "after xs c = first vs" using assms xs by auto
  ultimately show ?thesis by (cases vs) auto
next
  case False
  then show ?thesis by (auto simp: final_eq_Some)
qed

lemma before_join:
  assumes "distinct (xs @ ys)"
  shows "before (xs @ ys) c = (if c \<in> set xs then before xs c else if first ys = Some c then final xs else before ys c)"
proof -
  have "distinct (rev ys @ rev xs)" using assms by auto
  from after_join [OF this] show ?thesis by (simp add: before_def)
qed

end
