(* ===== verification/TT_RBTree_Shape.thy ===== *)
theory TT_RBTree_Shape
  imports TT_RBTree_Edit TT_Cells
begin

text \<open>
  The nodes of a red-black tree in the store as a tree datatype: what it means that the links of the nodes form a
  tree below a node and around it, and how the rotations of \<^verbatim>\<open>algorithm/tt_red_black_tree.c\<close> act on it. The two
  sides of a node are treated at once: a side is a truth value, \<open>True\<close> for left.
\<close>

section \<open>Nodes of the store\<close>

named_theorems rb_run "evaluation of reads and writes of nodes"

lemma rb_ld_cell [rb_run]: "cell m a \<Longrightarrow> rb_ld f m (Some a) = Inr (f (struct_at m a))"
  by (simp add: rb_ld_def mem_deref_def cell_def)

lemma rb_st_cell [rb_run]: "cell m a \<Longrightarrow> rb_st u m (Some a) = Inr (cell_upd m a (u (struct_at m a)))"
  by (simp add: rb_st_def mem_deref_def mem_assign_def cell_def cell_upd_def)

definition child :: "bool \<Rightarrow> 'z rbnode_scheme \<Rightarrow> ptr" where "child d n = (if d then rb_left n else rb_right n)"
definition set_child :: "bool \<Rightarrow> ptr \<Rightarrow> 'z rbnode_scheme \<Rightarrow> 'z rbnode_scheme" where
  "set_child d q = (if d then set_left q else set_right q)"

lemma node_simps [simp]:
  "rb_parent (set_parent q n) = q" "rb_black (set_parent q n) = rb_black n" "child d (set_parent q n) = child d n"
  "rb_parent (set_child e q n) = rb_parent n" "rb_black (set_child e q n) = rb_black n"
  "child d (set_child e q n) = (if d = e then q else child d n)"
  "rb_parent (set_black b n) = rb_parent n" "rb_black (set_black b n) = b" "child d (set_black b n) = child d n"
  by (simp_all add: set_parent_def set_child_def set_left_def set_right_def set_black_def child_def)

text \<open>The members that the tree does not own: key and the caller's struct.\<close>

definition node_data :: "'z rbnode_scheme \<Rightarrow> u8 list option \<times> u32 \<times> 'z" where
  "node_data n = (rb_key n, rb_klen n, rbnode.more n)"

lemma node_data_simps [simp]:
  "node_data (set_parent q n) = node_data n" "node_data (set_child e q n) = node_data n" "node_data (set_black b n) = node_data n"
  by (simp_all add: set_parent_def set_child_def set_left_def set_right_def set_black_def node_data_def)

text \<open>A change of links and colours of nodes in \<open>S\<close> only.\<close>

definition relinked :: "nat set \<Rightarrow> 'z rbstore \<Rightarrow> 'z rbstore \<Rightarrow> bool" where
  "relinked S m m' \<longleftrightarrow> mem_heap m' = mem_heap m \<and> cell m' = cell m
     \<and> (\<forall>a. a \<notin> S \<longrightarrow> mem_blocks m' a = mem_blocks m a) \<and> (\<forall>a. node_data (struct_at m' a) = node_data (struct_at m a))"

lemma relinked_refl [simp]: "relinked S m m"
  by (simp add: relinked_def)

lemma relinked_trans: "relinked S m m1 \<Longrightarrow> relinked S m1 m2 \<Longrightarrow> relinked S m m2"
  by (simp add: relinked_def)

lemma relinked_mono: "relinked S m m' \<Longrightarrow> S \<subseteq> S' \<Longrightarrow> relinked S' m m'"
  by (auto simp: relinked_def)

lemma relinked_upd:
  assumes "relinked S m m1" "cell m a" "a \<in> S" "node_data n = node_data (struct_at m1 a)"
  shows "relinked S m (cell_upd m1 a n)"
  using assms by (auto simp: relinked_def fun_eq_iff cell_upd_def [of m1 a n] struct_at_def cell_def)

lemma relinked_struct: "relinked S m m' \<Longrightarrow> a \<notin> S \<Longrightarrow> struct_at m' a = struct_at m a"
  by (simp add: relinked_def struct_at_def)

lemma relinked_cell: "relinked S m m' \<Longrightarrow> cell m' a = cell m a"
  by (simp add: relinked_def)

lemma relinked_data: "relinked S m m' \<Longrightarrow> node_data (struct_at m' a) = node_data (struct_at m a)"
  by (simp add: relinked_def)

section \<open>Trees\<close>

datatype rbt = Lf | Nd rbt nat bool rbt

primrec addrs :: "rbt \<Rightarrow> nat list" where
  "addrs Lf = []"
| "addrs (Nd l a c r) = addrs l @ a # addrs r"

primrec root_of :: "nat \<Rightarrow> rbt \<Rightarrow> nat" where
  "root_of z Lf = z"
| "root_of z (Nd l a c r) = a"

primrec tree_at :: "nat \<Rightarrow> (nat \<Rightarrow> 'z rbnode_scheme) \<Rightarrow> nat \<Rightarrow> rbt \<Rightarrow> bool" where
  "tree_at z h p Lf \<longleftrightarrow> True"
| "tree_at z h p (Nd l a c r) \<longleftrightarrow> rb_parent (h a) = Some p \<and> rb_left (h a) = Some (root_of z l) \<and> rb_right (h a) = Some (root_of z r)
     \<and> rb_black (h a) = c \<and> tree_at z h a l \<and> tree_at z h a r"

text \<open>A node whose child on side \<open>d\<close> is \<open>s\<close>.\<close>

definition mk :: "bool \<Rightarrow> rbt \<Rightarrow> nat \<Rightarrow> bool \<Rightarrow> rbt \<Rightarrow> rbt" where
  "mk d s a c t = (if d then Nd s a c t else Nd t a c s)"

lemma mk_simps [simp]:
  "root_of z (mk d s a c t) = a" "mk d s a c t \<noteq> Lf"
  "set (addrs (mk d s a c t)) = insert a (set (addrs s) \<union> set (addrs t))"
  "distinct (addrs (mk d s a c t)) \<longleftrightarrow> a \<notin> set (addrs s) \<and> a \<notin> set (addrs t) \<and> distinct (addrs s) \<and> distinct (addrs t)
     \<and> set (addrs s) \<inter> set (addrs t) = {}"
  by (cases d; auto simp: mk_def)+

lemma tree_at_mk [simp]:
  "tree_at z h p (mk d s a c t) \<longleftrightarrow> rb_parent (h a) = Some p \<and> child d (h a) = Some (root_of z s) \<and> child (\<not> d) (h a) = Some (root_of z t)
     \<and> rb_black (h a) = c \<and> tree_at z h a s \<and> tree_at z h a t"
  by (cases d) (auto simp: mk_def child_def)

lemma rbt_mk_cases:
  obtains "t = Lf" | s a c s' where "t = mk d s a c s'"
proof (cases t)
  case (Nd l a c r)
  then have "t = (if d then mk d l a c r else mk d r a c l)" by (simp add: mk_def)
  then show thesis using that(2) by (metis (full_types))
qed

lemma tree_at_cong: "(\<And>a. a \<in> set (addrs t) \<Longrightarrow> h' a = h a) \<Longrightarrow> tree_at z h' p t = tree_at z h p t"
  by (induction t arbitrary: p) auto

lemma tree_at_upd [simp]: "a \<notin> set (addrs t) \<Longrightarrow> tree_at z (h(a := n)) p t = tree_at z h p t"
  by (rule tree_at_cong) auto

lemma root_of_cases: "root_of z t = z \<and> t = Lf \<or> root_of z t \<in> set (addrs t)"
  by (cases t) auto

lemma root_of_neq [simp]: "a \<noteq> z \<Longrightarrow> a \<notin> set (addrs t) \<Longrightarrow> root_of z t \<noteq> a" "a \<noteq> z \<Longrightarrow> a \<notin> set (addrs t) \<Longrightarrow> a \<noteq> root_of z t"
  using root_of_cases [of z t] by auto

section \<open>The tree around a node\<close>

text \<open>A frame: the address and colour of a node, which of its children is being looked at, and the other child.\<close>

datatype frame = Fr bool nat bool rbt

type_synonym ctx = "frame list"

primrec plug1 :: "frame \<Rightarrow> rbt \<Rightarrow> rbt" where
  "plug1 (Fr d a c s) t = mk d t a c s"

primrec plug :: "ctx \<Rightarrow> rbt \<Rightarrow> rbt" where
  "plug [] t = t"
| "plug (F # K) t = plug K (plug1 F t)"

primrec frame_addr :: "frame \<Rightarrow> nat" where
  "frame_addr (Fr d a c s) = a"

primrec frame_addrs :: "frame \<Rightarrow> nat list" where
  "frame_addrs (Fr d a c s) = a # addrs s"

definition caddrs :: "ctx \<Rightarrow> nat list" where
  "caddrs K = concat (map frame_addrs K)"

lemma caddrs_simps [simp]: "caddrs [] = []" "caddrs (Fr d a c s # K) = a # addrs s @ caddrs K"
  by (simp_all add: caddrs_def)

definition ctop :: "nat \<Rightarrow> ctx \<Rightarrow> nat" where
  "ctop z K = (case K of [] \<Rightarrow> z | F # _ \<Rightarrow> frame_addr F)"

lemma ctop_simps [simp]: "ctop z [] = z" "ctop z (Fr d a c s # K) = a"
  by (simp_all add: ctop_def)

fun ctx_at :: "nat \<Rightarrow> (nat \<Rightarrow> 'z rbnode_scheme) \<Rightarrow> ptr \<Rightarrow> ctx \<Rightarrow> nat \<Rightarrow> bool" where
  "ctx_at z h R [] v \<longleftrightarrow> R = Some v"
| "ctx_at z h R (Fr d a c s # K) v \<longleftrightarrow> rb_parent (h a) = Some (ctop z K) \<and> child d (h a) = Some v
     \<and> child (\<not> d) (h a) = Some (root_of z s) \<and> rb_black (h a) = c \<and> tree_at z h a s \<and> ctx_at z h R K a"

lemma croot_of_cases: "K = [] \<and> ctop z K = z \<or> ctop z K \<in> set (caddrs K)"
  by (cases K; cases "hd K") auto

lemma ctx_at_cong: "(\<And>a. a \<in> set (caddrs K) \<Longrightarrow> h' a = h a) \<Longrightarrow> ctx_at z h' R K v = ctx_at z h R K v"
proof (induction z h R K v rule: ctx_at.induct)
  case (2 z h R d a c s K v)
  moreover have "tree_at z h' a s = tree_at z h a s" by (rule tree_at_cong) (simp add: 2)
  ultimately show ?case by simp
qed simp

lemma ctx_at_upd [simp]: "a \<notin> set (caddrs K) \<Longrightarrow> ctx_at z (h(a := n)) R K v = ctx_at z h R K v"
  by (rule ctx_at_cong) auto

lemma set_plug: "set (addrs (plug K t)) = set (addrs t) \<union> set (caddrs K)"
proof (induction K arbitrary: t)
  case (Cons F K)
  then show ?case by (cases F) auto
qed simp

lemma distinct_plug:
  "distinct (addrs (plug K t)) \<longleftrightarrow> distinct (addrs t) \<and> distinct (caddrs K) \<and> set (addrs t) \<inter> set (caddrs K) = {}"
proof (induction K arbitrary: t)
  case (Cons F K)
  then show ?case by (cases F) auto
qed simp

text \<open>What is left and right of the hole does not depend on what is in it.\<close>

primrec caddrs_l :: "ctx \<Rightarrow> nat list" where
  "caddrs_l [] = []"
| "caddrs_l (F # K) = caddrs_l K @ (case F of Fr d a c s \<Rightarrow> if d then [] else addrs s @ [a])"

primrec caddrs_r :: "ctx \<Rightarrow> nat list" where
  "caddrs_r [] = []"
| "caddrs_r (F # K) = (case F of Fr d a c s \<Rightarrow> if d then a # addrs s else []) @ caddrs_r K"

lemma addrs_plug: "addrs (plug K t) = caddrs_l K @ addrs t @ caddrs_r K"
proof (induction K arbitrary: t)
  case (Cons F K)
  then show ?case by (cases F) (auto simp: mk_def)
qed simp

lemma set_caddrs: "set (caddrs K) = set (caddrs_l K) \<union> set (caddrs_r K)"
proof (induction K)
  case (Cons F K)
  then show ?case by (cases F) auto
qed simp

section \<open>A tree in the store, seen from one of its nodes\<close>

definition focus :: "'z tt_rbtree \<Rightarrow> 'z rbstore \<Rightarrow> ctx \<Rightarrow> rbt \<Rightarrow> bool" where
  "focus T m K t \<longleftrightarrow>
     (let z = rb_tnil T; h = struct_at m in
      ctx_at z h (rb_root T) K (root_of z t) \<and> tree_at z h (ctop z K) t
      \<and> distinct (addrs t) \<and> distinct (caddrs K) \<and> set (addrs t) \<inter> set (caddrs K) = {}
      \<and> z \<notin> set (addrs t) \<and> z \<notin> set (caddrs K) \<and> rb_black (h z)
      \<and> cell m z \<and> (\<forall>a \<in> set (addrs t) \<union> set (caddrs K). cell m a))"

lemma focus_up: "focus T m (Fr d a c s # K) t \<longleftrightarrow> focus T m K (mk d t a c s)"
  by (auto simp: focus_def Let_def)

lemma focus_plug: "focus T m K t \<longleftrightarrow> focus T m [] (plug K t)"
proof (induction K arbitrary: t)
  case (Cons F K)
  then show ?case by (cases F) (simp add: focus_up)
qed simp

definition same_tree :: "'z tt_rbtree \<Rightarrow> 'z tt_rbtree \<Rightarrow> bool" where
  "same_tree T T' \<longleftrightarrow> rb_cmpkey T' = rb_cmpkey T \<and> rb_tnil T' = rb_tnil T \<and> rb_count T' = rb_count T"

lemma same_tree_refl [simp]: "same_tree T T"
  by (simp add: same_tree_def)

lemma same_tree_trans: "same_tree T T1 \<Longrightarrow> same_tree T1 T2 \<Longrightarrow> same_tree T T2"
  by (simp add: same_tree_def)

section \<open>Replacing a child\<close>

definition put_T :: "ctx \<Rightarrow> nat \<Rightarrow> 'z tt_rbtree \<Rightarrow> 'z tt_rbtree" where
  "put_T K y T = (case K of [] \<Rightarrow> T\<lparr>rb_root := Some y\<rparr> | _ \<Rightarrow> T)"

definition put_m :: "ctx \<Rightarrow> nat \<Rightarrow> 'z rbstore \<Rightarrow> 'z rbstore" where
  "put_m K y m = (case K of [] \<Rightarrow> m | Fr d a c s # _ \<Rightarrow> cell_upd m a (set_child d (Some y) (struct_at m a)))"

lemma same_tree_put [simp]: "same_tree T (put_T K y T)" "rb_tnil (put_T K y T) = rb_tnil T"
  by (cases K; simp add: put_T_def same_tree_def)+

lemma put_m_simps [simp]:
  "a \<notin> set (caddrs K) \<Longrightarrow> struct_at (put_m K y m) a = struct_at m a"
  "\<forall>a \<in> set (caddrs K). cell m a \<Longrightarrow> cell (put_m K y m) a = cell m a"
  "\<forall>a \<in> set (caddrs K). cell m a \<Longrightarrow> mem_heap (put_m K y m) = mem_heap m"
  by (cases K; cases "hd K"; auto simp: put_m_def)+

lemma tree_at_put [simp]: "set (addrs t) \<inter> set (caddrs K) = {} \<Longrightarrow> tree_at z (struct_at (put_m K y m)) p t = tree_at z (struct_at m) p t"
  by (rule tree_at_cong) (auto intro: put_m_simps(1))

lemma tree_at_put' [simp]: "set (caddrs K) \<inter> set (addrs t) = {} \<Longrightarrow> tree_at z (struct_at (put_m K y m)) p t = tree_at z (struct_at m) p t"
  by (rule tree_at_cong) (auto intro: put_m_simps(1))

lemma ctx_at_put:
  assumes "ctx_at (rb_tnil T) (struct_at m) (rb_root T) K x" "distinct (caddrs K)"
  shows "ctx_at (rb_tnil T) (struct_at (put_m K y m)) (rb_root (put_T K y T)) K y"
proof (cases K)
  case (Cons F K')
  with assms show ?thesis by (cases F) (auto simp: put_m_def put_T_def)
qed (simp add: put_m_def put_T_def)

lemma relinked_put:
  assumes "relinked S m m1" "\<forall>a \<in> set (caddrs K). cell m a" "set (caddrs K) \<subseteq> S"
  shows "relinked S m (put_m K y m1)"
proof (cases K)
  case (Cons F K')
  with assms show ?thesis by (cases F) (auto simp: put_m_def intro!: relinked_upd)
qed (simp add: put_m_def assms(1))

lemma rbn_replace_ok:
  assumes "ctx_at (rb_tnil T) (struct_at m) (rb_root T) K x" "rb_parent (struct_at m x) = Some (ctop (rb_tnil T) K)"
    "cell m x" "\<forall>a \<in> set (caddrs K). cell m a" "x \<noteq> rb_tnil T" "x \<notin> set (caddrs K)" "rb_tnil T \<notin> set (caddrs K)"
  shows "rbn_replace T (Some x) (Some y) m = Inr (put_T K y T, put_m K y m)"
proof (cases K)
  case Nil
  with assms show ?thesis by (simp add: rbn_replace_def rb_run put_T_def put_m_def)
next
  case (Cons F K')
  obtain d a c s where F: "F = Fr d a c s" by (cases F)
  have "rb_left (struct_at m a) = Some x \<longleftrightarrow> d"
    using assms Cons F by (cases d) (auto simp: child_def)
  then show ?thesis
    using assms Cons F
    by (cases d) (auto simp: rbn_replace_def rb_run put_T_def put_m_def set_child_def)
qed

section \<open>Rotations\<close>

definition rotate :: "bool \<Rightarrow> 'z tt_rbtree \<Rightarrow> ptr \<Rightarrow> 'z rbstore \<Rightarrow> ('z tt_rbtree \<times> 'z rbstore) run" where
  "rotate d T x m =
    bindr (rb_ld (child (\<not> d)) m x) (\<lambda>y.
    bindr (TT_ASSERT (y \<noteq> tnil T)) (\<lambda>_.
    bindr (rb_ld (child d) m y) (\<lambda>b.
    bindr (rb_st (set_child (\<not> d) b) m x) (\<lambda>m.
    bindr (rb_ld (child d) m y) (\<lambda>b.
    bindr (if b \<noteq> tnil T then rb_st (set_parent x) m b else Inr m) (\<lambda>m.
    bindr (rb_ld rb_parent m x) (\<lambda>q.
    bindr (rb_st (set_parent q) m y) (\<lambda>m.
    bindr (rbn_replace T x y m) (\<lambda>(T, m).
    bindr (rb_st (set_child d x) m y) (\<lambda>m.
    bindr (rb_st (set_parent y) m x) (\<lambda>m. Inr (T, m))))))))))))"

lemma child_eta: "rb_left = child True" "rb_right = child False" "set_left = set_child True" "set_right = set_child False"
  by (simp_all add: child_def set_child_def fun_eq_iff)

lemma rotate_sides: "rbt_left_rotate = rotate True" "rbt_right_rotate = rotate False"
  by (simp_all add: fun_eq_iff rbt_left_rotate_def rbt_right_rotate_def rotate_def child_eta)

text \<open>Another parent for the root of a subtree.\<close>

definition adopt :: "nat \<Rightarrow> rbt \<Rightarrow> 'z rbstore \<Rightarrow> 'z rbstore" where
  "adopt p t m = (case t of Lf \<Rightarrow> m | Nd l a c r \<Rightarrow> cell_upd m a (set_parent (Some p) (struct_at m a)))"

lemma adopt_simps [simp]:
  "a \<notin> set (addrs t) \<Longrightarrow> struct_at (adopt p t m) a = struct_at m a"
  "\<forall>a \<in> set (addrs t). cell m a \<Longrightarrow> cell (adopt p t m) a = cell m a"
  "\<forall>a \<in> set (addrs t). cell m a \<Longrightarrow> mem_heap (adopt p t m) = mem_heap m"
  "tree_at z (struct_at m) q t \<Longrightarrow> distinct (addrs t) \<Longrightarrow> tree_at z (struct_at (adopt p t m)) p t"
  by (cases t; auto simp: adopt_def child_eta)+

lemma tree_at_adopt [simp]: "set (addrs s) \<inter> set (addrs t) = {} \<Longrightarrow> tree_at z (struct_at (adopt p t m)) q s = tree_at z (struct_at m) q s"
  by (rule tree_at_cong) (auto intro: adopt_simps(1))

lemma tree_at_adopt' [simp]: "set (addrs t) \<inter> set (addrs s) = {} \<Longrightarrow> tree_at z (struct_at (adopt p t m)) q s = tree_at z (struct_at m) q s"
  by (rule tree_at_cong) (auto intro: adopt_simps(1))

lemma ctx_at_adopt [simp]: "set (caddrs K) \<inter> set (addrs t) = {} \<Longrightarrow> ctx_at z (struct_at (adopt p t m)) R K v = ctx_at z (struct_at m) R K v"
  by (rule ctx_at_cong) (auto intro: adopt_simps(1))

lemma ctx_at_adopt' [simp]: "set (addrs t) \<inter> set (caddrs K) = {} \<Longrightarrow> ctx_at z (struct_at (adopt p t m)) R K v = ctx_at z (struct_at m) R K v"
  by (rule ctx_at_cong) (auto intro: adopt_simps(1))

lemma relinked_adopt:
  assumes "relinked S m m1" "\<forall>a \<in> set (addrs t). cell m a" "set (addrs t) \<subseteq> S"
  shows "relinked S m (adopt p t m1)"
  using assms by (cases t) (auto simp: adopt_def intro!: relinked_upd)

lemma adopt_run:
  assumes "z \<notin> set (addrs t)" "\<forall>a \<in> set (addrs t). cell m a"
  shows "(if root_of z t \<noteq> z then rb_st (set_parent (Some p)) m (Some (root_of z t)) else Inr m) = Inr (adopt p t m)"
  using assms by (cases t) (simp_all add: adopt_def rb_run)

lemma rotate_ok:
  assumes f: "focus T m K (mk d a x c (mk d b y e r))"
  shows "\<exists>T' m'. rotate d T (Some x) m = Inr (T', m') \<and> focus T' m' K (mk d (mk d a x c b) y e r) \<and> same_tree T T'
    \<and> relinked (set (addrs (plug K (mk d a x c (mk d b y e r))))) m m' \<and> struct_at m' (rb_tnil T) = struct_at m (rb_tnil T)"
proof -
  let ?z = "rb_tnil T" and ?S = "set (addrs (plug K (mk d a x c (mk d b y e r))))"
  note F = f [unfolded focus_def Let_def, simplified, simplified Int_Un_distrib Int_Un_distrib2 Un_empty conj_assoc]
  define m1 where "m1 = cell_upd m x (set_child (\<not> d) (Some (root_of ?z b)) (struct_at m x))"
  define m2 where "m2 = adopt x b m1"
  define m3 where "m3 = cell_upd m2 y (set_parent (Some (ctop ?z K)) (struct_at m2 y))"
  define m4 where "m4 = put_m K y m3"
  define m5 where "m5 = cell_upd m4 y (set_child d (Some x) (struct_at m4 y))"
  define m6 where "m6 = cell_upd m5 x (set_parent (Some y) (struct_at m5 x))"
  have m2: "(if root_of ?z b \<noteq> ?z then rb_st (set_parent (Some x)) m1 (Some (root_of ?z b)) else Inr m1) = Inr m2"
    unfolding m2_def by (rule adopt_run) (use F in \<open>auto simp: m1_def\<close>)
  have c: "ctx_at ?z (struct_at m3) (rb_root T) K x"
    using F by (simp add: m3_def m2_def m1_def)
  have m4: "rbn_replace T (Some x) (Some y) m3 = Inr (put_T K y T, m4)"
    unfolding m4_def by (rule rbn_replace_ok [OF c]) (use F in \<open>auto simp: m3_def m2_def m1_def\<close>)
  have cells: "cell m x" "cell m y" "cell m1 x" "cell m1 y" "cell m2 x" "cell m2 y" "cell m4 y" "cell m5 x"
    using F by (simp_all add: m5_def m4_def m3_def m2_def m1_def)
  have links: "child (\<not> d) (struct_at m x) = Some y" "y \<noteq> ?z" "x \<noteq> y" "y \<noteq> x" "child d (struct_at m y) = Some (root_of ?z b)"
    "child d (struct_at m1 y) = Some (root_of ?z b)" "rb_parent (struct_at m2 x) = Some (ctop ?z K)"
    using F by (auto simp: m2_def m1_def)
  have "rotate d T (Some x) m = Inr (put_T K y T, m6)"
    by (simp add: rotate_def rb_run cells links m1_def [symmetric] m2 m3_def [symmetric] m4 m5_def [symmetric] m6_def [symmetric] cong: if_cong)
  moreover have "focus (put_T K y T) m6 K (mk d (mk d a x c b) y e r)"
    using F ctx_at_put [OF c, of y] by (auto simp: focus_def Let_def m6_def m5_def m4_def m3_def m2_def m1_def)
  moreover have "relinked ?S m m6"
    unfolding m6_def m5_def m4_def m3_def m2_def m1_def
    by (intro relinked_upd relinked_put relinked_adopt relinked_refl) (use F in \<open>auto simp: set_plug\<close>)
  moreover have "struct_at m6 ?z = struct_at m ?z"
    using F by (simp add: m6_def m5_def m4_def m3_def m2_def m1_def)
  ultimately show ?thesis by auto
qed

end
