(* ===== verification/TT_RBTree_Balance.thy ===== *)
theory TT_RBTree_Balance
  imports TT_RBTree_Shape
begin

text \<open>
  The colours of a red-black tree: no red node has a red child and every path to a leaf has as many black nodes.
  The loop of \<^verbatim>\<open>__rbt_add_fixup\<close> ends and restores them after a red node was added.
\<close>

section \<open>Colours\<close>

primrec black_root :: "rbt \<Rightarrow> bool" where
  "black_root Lf \<longleftrightarrow> True"
| "black_root (Nd l a c r) \<longleftrightarrow> c"

text \<open>\<open>good t n\<close>: the colours of \<open>t\<close> are right and its black height is \<open>n\<close>.\<close>

primrec good :: "rbt \<Rightarrow> nat \<Rightarrow> bool" where
  "good Lf n \<longleftrightarrow> n = 0"
| "good (Nd l a c r) n \<longleftrightarrow>
     (if c then (case n of 0 \<Rightarrow> False | Suc k \<Rightarrow> good l k \<and> good r k)
      else black_root l \<and> black_root r \<and> good l n \<and> good r n)"

definition rbt_ok :: "rbt \<Rightarrow> bool" where
  "rbt_ok t \<longleftrightarrow> black_root t \<and> (\<exists>n. good t n)"

lemma colour_mk [simp]:
  "black_root (mk d s a c t) \<longleftrightarrow> c"
  "good (mk d s a True t) n \<longleftrightarrow> (\<exists>k. n = Suc k \<and> good s k \<and> good t k)"
  "good (mk d s a False t) n \<longleftrightarrow> black_root s \<and> black_root t \<and> good s n \<and> good t n"
  by (cases n; cases d; auto simp: mk_def)+

lemma addrs_mk: "addrs (mk d s a c t) = (if d then addrs s @ a # addrs t else addrs t @ a # addrs s)"
  by (simp add: mk_def)

lemma mk_other: "mk (\<not> d) s a c t = mk d t a c s"
  by (simp add: mk_def)

lemma black_root_at: "tree_at z h p t \<Longrightarrow> rb_black (h z) \<Longrightarrow> rb_black (h (root_of z t)) = black_root t"
  by (cases t) auto

text \<open>The colours around a hole that takes a tree of black height \<open>n\<close>.\<close>

definition cblack :: "ctx \<Rightarrow> bool" where
  "cblack K = (case K of [] \<Rightarrow> True | Fr d a c s # _ \<Rightarrow> c)"

lemma cblack_simps [simp]: "cblack []" "cblack (Fr d a c s # K) = c"
  by (simp_all add: cblack_def)

fun cgood :: "ctx \<Rightarrow> nat \<Rightarrow> bool" where
  "cgood [] n \<longleftrightarrow> True"
| "cgood (Fr d a c s # K) n \<longleftrightarrow> good s n
     \<and> (if c then cgood K (Suc n) else black_root s \<and> K \<noteq> [] \<and> cblack K \<and> cgood K n)"

lemma good_plug: "cgood K n \<Longrightarrow> good t n \<Longrightarrow> black_root t \<or> cblack K \<Longrightarrow> \<exists>N. good (plug K t) N"
proof (induction K n arbitrary: t rule: cgood.induct)
  case (2 d a c s K n)
  then show ?case by (cases c) auto
qed auto

lemma black_plug: "cgood K n \<Longrightarrow> K \<noteq> [] \<or> black_root t \<Longrightarrow> black_root (plug K t)"
proof (induction K n arbitrary: t rule: cgood.induct)
  case (2 d a c s K n)
  then show ?case by (cases c; cases "K = []") auto
qed auto

lemma rbt_ok_plugD: "rbt_ok (plug K t) \<Longrightarrow> \<exists>n. good t n \<and> cgood K n \<and> (black_root t \<or> cblack K)"
proof (induction K arbitrary: t)
  case (Cons F K)
  obtain d a c s where F: "F = Fr d a c s" by (cases F)
  from Cons.prems have ok: "rbt_ok (plug K (mk d t a c s))" by (simp add: F)
  from Cons.IH [OF ok] obtain n where n: "good (mk d t a c s) n" "cgood K n" "c \<or> cblack K" by auto
  have "c \<or> K \<noteq> []" using ok by (cases K) (auto simp: rbt_ok_def)
  with n F show ?case by (cases c) auto
qed (auto simp: rbt_ok_def)

section \<open>Painting\<close>

definition paint :: "nat \<Rightarrow> bool \<Rightarrow> 'z rbstore \<Rightarrow> 'z rbstore" where
  "paint a b m = cell_upd m a (set_black b (struct_at m a))"

declare rb_st_cell [rb_run del]

lemma paint_run [rb_run]: "cell m a \<Longrightarrow> rb_st (set_black b) m (Some a) = Inr (paint a b m)"
  by (simp add: rb_st_cell paint_def)

lemma paint_simps [simp]:
  "rb_parent (struct_at (paint a b m) v) = rb_parent (struct_at m v)"
  "child d (struct_at (paint a b m) v) = child d (struct_at m v)"
  "rb_black (struct_at (paint a b m) v) = (if v = a then b else rb_black (struct_at m v))"
  "v \<noteq> a \<Longrightarrow> struct_at (paint a b m) v = struct_at m v"
  "cell (paint a b m) v \<longleftrightarrow> v = a \<or> cell m v"
  "a \<notin> set (addrs t) \<Longrightarrow> tree_at z (struct_at (paint a b m)) p t = tree_at z (struct_at m) p t"
  "a \<notin> set (caddrs K) \<Longrightarrow> ctx_at z (struct_at (paint a b m)) R K v = ctx_at z (struct_at m) R K v"
  by (simp_all add: paint_def)

lemma relinked_paint: "relinked S m m1 \<Longrightarrow> cell m a \<Longrightarrow> a \<in> S \<Longrightarrow> relinked S m (paint a b m1)"
  by (auto simp: paint_def intro: relinked_upd)

lemma focus_paint:
  assumes "focus T m K (mk d s a c t)"
  shows "focus T (paint a b m) K (mk d s a b t)"
  using assms by (auto simp: focus_def Let_def)

section \<open>The loop after an addition\<close>

definition add_fixup_side ::
  "bool \<Rightarrow> 'z tt_rbtree \<Rightarrow> ptr \<Rightarrow> ptr \<Rightarrow> ptr \<Rightarrow> 'z rbstore \<Rightarrow> (ptr \<times> 'z tt_rbtree \<times> 'z rbstore) run" where
  "add_fixup_side d T z p g m =
    bindr (rb_ld (child (\<not> d)) m g) (\<lambda>y.
    bindr (rb_ld rb_black m y) (\<lambda>yb.
    if \<not> yb then
      bindr (rb_st (set_black True) m p) (\<lambda>m.
      bindr (rb_st (set_black True) m y) (\<lambda>m.
      bindr (rb_st (set_black False) m g) (\<lambda>m. Inr (g, T, m))))
    else
      bindr (rb_ld (child (\<not> d)) m p) (\<lambda>c.
      bindr (if z = c then bindr (rotate d T p m) (\<lambda>(T, m). Inr (p, T, m)) else Inr (z, T, m)) (\<lambda>(z, T, m).
      bindr (rb_ld rb_parent m z) (\<lambda>p.
      bindr (rb_st (set_black True) m p) (\<lambda>m.
      bindr (rb_ld rb_parent m z) (\<lambda>p.
      bindr (rb_ld rb_parent m p) (\<lambda>g.
      bindr (rb_st (set_black False) m g) (\<lambda>m.
      bindr (rb_ld rb_parent m z) (\<lambda>p.
      bindr (rb_ld rb_parent m p) (\<lambda>g.
      bindr (rotate (\<not> d) T g m) (\<lambda>(T, m). Inr (z, T, m)))))))))))))"

lemma add_fixup_sides: "rbt_add_fixup_left = add_fixup_side True" "rbt_add_fixup_right = add_fixup_side False"
  by (simp_all add: fun_eq_iff rbt_add_fixup_left_def rbt_add_fixup_right_def add_fixup_side_def child_eta rotate_sides cong: if_cong)

text \<open>A red uncle: repaint and continue at the grandparent.\<close>

lemma add_side_red:
  assumes f: "focus T m K (mk d (mk e Z p False s) g True (mk d ul u False ur))"
  shows "\<exists>m'. add_fixup_side d T z (Some p) (Some g) m = Inr (Some g, T, m')
    \<and> focus T m' K (mk d (mk e Z p True s) g False (mk d ul u True ur))
    \<and> relinked (set (addrs (plug K (mk d (mk e Z p False s) g True (mk d ul u False ur))))) m m'
    \<and> struct_at m' (rb_tnil T) = struct_at m (rb_tnil T)"
proof -
  note F = f [unfolded focus_def Let_def, simplified, simplified Int_Un_distrib Int_Un_distrib2 Un_empty conj_assoc]
  let ?m = "paint g False (paint u True (paint p True m))"
  have "add_fixup_side d T z (Some p) (Some g) m = Inr (Some g, T, ?m)"
    using F by (simp add: add_fixup_side_def rb_run)
  moreover have "focus T ?m K (mk d (mk e Z p True s) g False (mk d ul u True ur))"
    using F by (auto simp: focus_def Let_def)
  moreover have "relinked (set (addrs (plug K (mk d (mk e Z p False s) g True (mk d ul u False ur))))) m ?m"
    by (intro relinked_paint relinked_refl) (use F in \<open>auto simp: set_plug\<close>)
  moreover have "struct_at ?m (rb_tnil T) = struct_at m (rb_tnil T)"
    using F by simp
  ultimately show ?thesis by blast
qed

text \<open>The last steps with a black uncle: \<open>z\<close> is on the outer side of its parent, and one rotation is left.\<close>

definition add_finish :: "bool \<Rightarrow> ptr \<Rightarrow> 'z tt_rbtree \<Rightarrow> 'z rbstore \<Rightarrow> (ptr \<times> 'z tt_rbtree \<times> 'z rbstore) run" where
  "add_finish d z T m =
    bindr (rb_ld rb_parent m z) (\<lambda>p.
    bindr (rb_st (set_black True) m p) (\<lambda>m.
    bindr (rb_ld rb_parent m z) (\<lambda>p.
    bindr (rb_ld rb_parent m p) (\<lambda>g.
    bindr (rb_st (set_black False) m g) (\<lambda>m.
    bindr (rb_ld rb_parent m z) (\<lambda>p.
    bindr (rb_ld rb_parent m p) (\<lambda>g.
    bindr (rotate (\<not> d) T g m) (\<lambda>(T, m). Inr (z, T, m)))))))))"

lemma add_finish_ok:
  assumes f: "focus T m K (mk d (mk d Z p False s) g True t)" and Z: "Z \<noteq> Lf" "z = root_of (rb_tnil T) Z"
  shows "\<exists>T' m'. add_finish d (Some z) T m = Inr (Some z, T', m')
    \<and> focus T' m' K (mk d Z p True (mk d s g False t)) \<and> same_tree T T'
    \<and> relinked (set (addrs (plug K (mk d (mk d Z p False s) g True t)))) m m'
    \<and> struct_at m' (rb_tnil T) = struct_at m (rb_tnil T)"
proof -
  note F = f [unfolded focus_def Let_def, simplified, simplified Int_Un_distrib Int_Un_distrib2 Un_empty conj_assoc]
  let ?m = "paint g False (paint p True m)"
  have z: "rb_parent (struct_at m z) = Some p" "z \<in> set (addrs Z)"
    using F Z by (cases Z; simp)+
  have "focus T ?m K (mk d (mk d Z p True s) g False t)"
    using F by (auto simp: focus_def Let_def)
  then have "focus T ?m K (mk (\<not> d) t g False (mk (\<not> d) s p True Z))" by (simp add: mk_other)
  from rotate_ok [OF this] obtain T' m' where r: "rotate (\<not> d) T (Some g) ?m = Inr (T', m')"
    "focus T' m' K (mk (\<not> d) (mk (\<not> d) t g False s) p True Z)" "same_tree T T'"
    "relinked (set (addrs (plug K (mk (\<not> d) t g False (mk (\<not> d) s p True Z))))) ?m m'"
    "struct_at m' (rb_tnil T) = struct_at ?m (rb_tnil T)" by blast
  have "relinked (set (addrs (plug K (mk d (mk d Z p False s) g True t)))) m ?m"
    by (intro relinked_paint relinked_refl) (use F in \<open>auto simp: set_plug\<close>)
  moreover have "set (addrs (plug K (mk (\<not> d) t g False (mk (\<not> d) s p True Z)))) = set (addrs (plug K (mk d (mk d Z p False s) g True t)))"
    by (auto simp: set_plug)
  ultimately have "relinked (set (addrs (plug K (mk d (mk d Z p False s) g True t)))) m m'"
    using r(4) by (auto intro: relinked_trans)
  moreover have "cell m z" "cell m p" "cell m g" "p \<noteq> z" "g \<noteq> z" "p \<noteq> g" "rb_parent (struct_at m p) = Some g"
    using F z(2) by auto
  then have "add_finish d (Some z) T m = Inr (Some z, T', m')"
    by (simp add: add_finish_def rb_run z r(1))
  moreover have "struct_at m' (rb_tnil T) = struct_at m (rb_tnil T)" using F r(5) by simp
  ultimately show ?thesis using r(2,3) by (auto simp: mk_other)
qed

lemma add_side_outer:
  assumes f: "focus T m K (mk d (mk d Z p False s) g True t)" and t: "black_root t" and Z: "Z \<noteq> Lf" "z = root_of (rb_tnil T) Z"
  shows "\<exists>T' m'. add_fixup_side d T (Some z) (Some p) (Some g) m = Inr (Some z, T', m')
    \<and> focus T' m' K (mk d Z p True (mk d s g False t)) \<and> same_tree T T'
    \<and> relinked (set (addrs (plug K (mk d (mk d Z p False s) g True t)))) m m'
    \<and> struct_at m' (rb_tnil T) = struct_at m (rb_tnil T)"
proof -
  note F = f [unfolded focus_def Let_def, simplified, simplified Int_Un_distrib Int_Un_distrib2 Un_empty conj_assoc]
  have z: "z \<in> set (addrs Z)" using Z by (cases Z) auto
  then have "root_of (rb_tnil T) s \<noteq> z" using F root_of_cases [of "rb_tnil T" s] by auto
  moreover have "rb_black (struct_at m (root_of (rb_tnil T) t))" using black_root_at [of "rb_tnil T" "struct_at m" g t] F t by simp
  moreover have "cell m (root_of (rb_tnil T) t)" using F root_of_cases [of "rb_tnil T" t] by auto
  ultimately have "add_fixup_side d T (Some z) (Some p) (Some g) m = add_finish d (Some z) T m"
    using F z by (simp add: add_fixup_side_def add_finish_def rb_run)
  with add_finish_ok [OF f Z] show ?thesis by simp
qed

text \<open>A black uncle and \<open>z\<close> on the inner side: first a rotation to the outer side.\<close>

lemma add_side_inner:
  assumes f: "focus T m K (mk d (mk d s p False (mk d a z False b)) g True t)" and t: "black_root t"
  shows "\<exists>T' m'. add_fixup_side d T (Some z) (Some p) (Some g) m = Inr (Some p, T', m')
    \<and> focus T' m' K (mk d (mk d s p False a) z True (mk d b g False t)) \<and> same_tree T T'
    \<and> relinked (set (addrs (plug K (mk d (mk d s p False (mk d a z False b)) g True t)))) m m'
    \<and> struct_at m' (rb_tnil T) = struct_at m (rb_tnil T)"
proof -
  let ?S = "set (addrs (plug K (mk d (mk d s p False (mk d a z False b)) g True t)))"
  note F = f [unfolded focus_def Let_def, simplified, simplified Int_Un_distrib Int_Un_distrib2 Un_empty conj_assoc]
  have tc: "rb_black (struct_at m (root_of (rb_tnil T) t))" "cell m (root_of (rb_tnil T) t)"
    using black_root_at [of "rb_tnil T" "struct_at m" g t] F t root_of_cases [of "rb_tnil T" t] by auto
  from f have "focus T m (Fr d g True t # K) (mk d s p False (mk d a z False b))" by (simp add: focus_up)
  from rotate_ok [OF this] obtain T1 m1 where r: "rotate d T (Some p) m = Inr (T1, m1)"
    "focus T1 m1 K (mk d (mk d (mk d s p False a) z False b) g True t)" "same_tree T T1"
    "relinked ?S m m1" "struct_at m1 (rb_tnil T) = struct_at m (rb_tnil T)" by (auto simp: focus_up)
  from add_finish_ok [OF r(2), of p] obtain T' m' where r': "add_finish d (Some p) T1 m1 = Inr (Some p, T', m')"
    "focus T' m' K (mk d (mk d s p False a) z True (mk d b g False t))" "same_tree T1 T'"
    "relinked (set (addrs (plug K (mk d (mk d (mk d s p False a) z False b) g True t)))) m1 m'"
    "struct_at m' (rb_tnil T) = struct_at m1 (rb_tnil T)"
    using r(3) by (auto simp: same_tree_def)
  have "set (addrs (plug K (mk d (mk d (mk d s p False a) z False b) g True t))) = ?S" by (auto simp: set_plug)
  with relinked_trans [OF r(4)] r'(4) have "relinked ?S m m'" by simp
  moreover have "add_fixup_side d T (Some z) (Some p) (Some g) m = add_finish d (Some p) T1 m1"
    using F tc r(1) by (simp add: add_fixup_side_def add_finish_def rb_run)
  ultimately show ?thesis using r' r(5) same_tree_trans [OF r(3) r'(3)] by auto
qed

text \<open>The outcome of restoring the colours: the same nodes in the same order.\<close>

definition restores :: "'z tt_rbtree \<Rightarrow> 'z rbstore \<Rightarrow> rbt \<Rightarrow> 'z tt_rbtree \<Rightarrow> 'z rbstore \<Rightarrow> rbt \<Rightarrow> bool" where
  "restores T m t T' m' t' \<longleftrightarrow> focus T' m' [] t' \<and> addrs t' = addrs t \<and> (\<exists>N. good t' N) \<and> same_tree T T'
     \<and> relinked (set (addrs t)) m m' \<and> struct_at m' (rb_tnil T) = struct_at m (rb_tnil T)"

lemma restores_trans:
  assumes "same_tree T T1" "relinked (set (addrs t)) m m1" "struct_at m1 (rb_tnil T) = struct_at m (rb_tnil T)"
    "restores T1 m1 t1 T' m' t'" "addrs t1 = addrs t"
  shows "restores T m t T' m' t'"
  using assms same_tree_trans [of T T1 T'] relinked_trans [of _ m m1 m'] by (auto simp: restores_def same_tree_def)

lemma add_fixup_exit:
  assumes f: "focus T m K Z" and Z: "Z \<noteq> Lf" "z = root_of (rb_tnil T) Z" and K: "cblack K"
  shows "rbt_add_fixup_loop T (Some z) m = Some (Inr (T, m))"
proof -
  have z: "rb_parent (struct_at m z) = Some (ctop (rb_tnil T) K)" "cell m z"
    using f Z by (cases Z; simp add: focus_def Let_def)+
  have "cell m (ctop (rb_tnil T) K) \<and> rb_black (struct_at m (ctop (rb_tnil T) K))"
  proof (cases K)
    case (Cons F K')
    with f K show ?thesis by (cases F) (simp add: focus_def Let_def)
  qed (use f in \<open>simp add: focus_def Let_def\<close>)
  with z show ?thesis by (subst rbt_add_fixup_loop.simps) (simp add: rb_run)
qed

lemma add_fixup_body_side:
  assumes f: "focus T m (Fr e p c s # Fr d g c' t # K) Z" and Z: "Z \<noteq> Lf" "z = root_of (rb_tnil T) Z"
  shows "rbt_add_fixup_body T (Some z) m = add_fixup_side d T (Some z) (Some p) (Some g) m"
proof -
  have F: "rb_parent (struct_at m z) = Some p" "cell m z" "cell m p" "cell m g" "rb_parent (struct_at m p) = Some g"
    "child d (struct_at m g) = Some p" "child (\<not> d) (struct_at m g) = Some (root_of (rb_tnil T) t)" "root_of (rb_tnil T) t \<noteq> p"
    using f Z by (cases Z; simp add: focus_def Let_def)+
  show ?thesis
    using F by (cases d) (simp_all add: rbt_add_fixup_body_def rb_run add_fixup_sides child_eta)
qed

lemma mk_Nd: "\<exists>l r. mk d s a c t = Nd l a c r" "\<exists>s t. Nd l a c r = mk d s a c t"
  by (cases d; simp add: mk_def)+

lemma add_fixup_loop_step:
  assumes "\<not> cblack K" "focus T m K Z" "Z \<noteq> Lf" "z = root_of (rb_tnil T) Z" "rbt_add_fixup_body T (Some z) m = Inr (z', T', m')"
  shows "rbt_add_fixup_loop T (Some z) m = rbt_add_fixup_loop T' z' m'"
proof -
  obtain d a s K' where K: "K = Fr d a False s # K'" using assms(1) by (cases K; cases "hd K") auto
  have "rb_parent (struct_at m z) = Some a" "cell m z" "cell m a" "\<not> rb_black (struct_at m a)"
    using assms(2,3,4) K by (cases Z; simp add: focus_def Let_def)+
  with assms(5) show ?thesis by (subst rbt_add_fixup_loop.simps) (simp add: rb_run)
qed

lemma add_fixup_loop_ok:
  assumes "focus T m K (Nd l z False r)" "good (Nd l z False r) n" "cgood K n"
  shows "\<exists>T' m' t'. rbt_add_fixup_loop T (Some z) m = Some (Inr (T', m')) \<and> restores T m (plug K (Nd l z False r)) T' m' t'"
  using assms
proof (induction "length K" arbitrary: T m K l z r n rule: less_induct)
  case less
  let ?Z = "Nd l z False r"
  show ?case
  proof (cases "cblack K")
    case True
    have "rbt_add_fixup_loop T (Some z) m = Some (Inr (T, m))"
      using add_fixup_exit [OF less.prems(1)] True by simp
    moreover have "restores T m (plug K ?Z) T m (plug K ?Z)"
      using less.prems good_plug [of K n ?Z] True by (auto simp: restores_def focus_plug [of T m K])
    ultimately show ?thesis by blast
  next
    case False
    then obtain e p s K1 where K1: "K = Fr e p False s # K1" by (cases K; cases "hd K") auto
    with less.prems(3) have g1: "good s n" "black_root s" "K1 \<noteq> []" "cblack K1" "cgood K1 n" by auto
    then obtain d g t K2 where K2: "K1 = Fr d g True t # K2" by (cases K1; cases "hd K1") auto
    with g1 have g2: "good t n" "cgood K2 (Suc n)" by auto
    note f = less.prems(1) [unfolded K1 K2]
    have f': "focus T m K2 (mk d (mk e ?Z p False s) g True t)" using f by (simp add: focus_up)
    have step: "rbt_add_fixup_loop T (Some z) m = rbt_add_fixup_loop T' z' m'"
      if "add_fixup_side d T (Some z) (Some p) (Some g) m = Inr (z', T', m')" for z' T' m'
      using add_fixup_loop_step [OF False less.prems(1)] add_fixup_body_side [OF f] that by simp
    show ?thesis
    proof (cases "black_root t")
      case red: False
      then obtain ul u ur where t: "t = mk d ul u False ur"
        by (cases t; simp) (metis mk_Nd(2))
      from add_side_red [OF f' [unfolded t], of "Some z"] obtain m1 where m1:
        "add_fixup_side d T (Some z) (Some p) (Some g) m = Inr (Some g, T, m1)"
        "focus T m1 K2 (mk d (mk e ?Z p True s) g False (mk d ul u True ur))"
        "relinked (set (addrs (plug K ?Z))) m m1" "struct_at m1 (rb_tnil T) = struct_at m (rb_tnil T)"
        unfolding K1 K2 t by auto
      obtain l' r' where Nd: "mk d (mk e ?Z p True s) g False (mk d ul u True ur) = Nd l' g False r'" using mk_Nd(1) by blast
      have "good (mk d (mk e ?Z p True s) g False (mk d ul u True ur)) (Suc n)"
        using less.prems(2) g1 g2 t by auto
      with less.hyps [of K2 T m1 l' g r' "Suc n"] m1(2) g2(2) Nd obtain T' m' t' where
        I: "rbt_add_fixup_loop T (Some g) m1 = Some (Inr (T', m'))" "restores T m1 (plug K2 (Nd l' g False r')) T' m' t'"
        by (auto simp: K1 K2)
      have "addrs (plug K2 (Nd l' g False r')) = addrs (plug K ?Z)"
        unfolding Nd [symmetric] K1 K2 t by (simp add: addrs_plug mk_def)
      from restores_trans [OF same_tree_refl m1(3,4) I(2) this] I(1) step [OF m1(1)] show ?thesis by auto
    next
      case black: True
      have fin: ?thesis
        if run: "add_fixup_side d T (Some z) (Some p) (Some g) m = Inr (Some y, T1, m1)"
          and f1: "focus T1 m1 K2 (mk d Y v True (mk d a g False t))" "Y \<noteq> Lf" "y = root_of (rb_tnil T1) Y"
          and st: "same_tree T T1" "relinked (set (addrs (plug K ?Z))) m m1" "struct_at m1 (rb_tnil T) = struct_at m (rb_tnil T)"
          and gd: "good Y n" "good a n" "black_root a"
          and ad: "addrs (mk d Y v True (mk d a g False t)) = addrs (mk d (mk e ?Z p False s) g True t)"
        for y T1 m1 Y v a
      proof -
        let ?t = "plug K2 (mk d Y v True (mk d a g False t))"
        have "rbt_add_fixup_loop T1 (Some y) m1 = Some (Inr (T1, m1))"
          using add_fixup_exit [of T1 m1 "Fr d v True (mk d a g False t) # K2" Y y] f1 by (simp add: focus_up)
        moreover have "\<exists>N. good ?t N"
          using good_plug [OF g2(2), of "mk d Y v True (mk d a g False t)"] gd g2(1) black by simp
        moreover have "addrs ?t = addrs (plug K ?Z)" using ad by (simp add: addrs_plug K1 K2)
        ultimately have "restores T m (plug K ?Z) T1 m1 ?t"
          using f1(1) st by (auto simp: restores_def focus_plug [of T1 m1 K2])
        with step [OF run] \<open>rbt_add_fixup_loop T1 (Some y) m1 = _\<close> show ?thesis by auto
      qed
      show ?thesis
      proof (cases "e = d")
        case True
        with f' have "focus T m K2 (mk d (mk d ?Z p False s) g True t)" by simp
        from add_side_outer [OF this black, of z] obtain T1 m1 where
          o: "add_fixup_side d T (Some z) (Some p) (Some g) m = Inr (Some z, T1, m1)"
          "focus T1 m1 K2 (mk d ?Z p True (mk d s g False t))" "same_tree T T1"
          "relinked (set (addrs (plug K ?Z))) m m1" "struct_at m1 (rb_tnil T) = struct_at m (rb_tnil T)"
          unfolding K1 K2 using True by auto
        show ?thesis
          by (rule fin [OF o(1,2) _ _ o(3,4,5)]) (use less.prems(2) g1 True in \<open>auto simp: mk_def\<close>)
      next
        case e: False
        then have e: "e = (\<not> d)" by simp
        obtain a b where Z: "?Z = mk d a z False b" using mk_Nd(2) by blast
        have gz: "good a n" "good b n" "black_root a" "black_root b" using less.prems(2) [unfolded Z] by simp_all
        have fi: "focus T m K2 (mk d (mk d s p False (mk d a z False b)) g True t)"
          using f' unfolding Z e mk_other .
        from add_side_inner [OF fi black] obtain T1 m1 where
          o: "add_fixup_side d T (Some z) (Some p) (Some g) m = Inr (Some p, T1, m1)"
          "focus T1 m1 K2 (mk d (mk d s p False a) z True (mk d b g False t))" "same_tree T T1"
          "relinked (set (addrs (plug K ?Z))) m m1" "struct_at m1 (rb_tnil T) = struct_at m (rb_tnil T)"
          unfolding K1 K2 Z e mk_other by (auto simp: mk_other)
        show ?thesis
          by (rule fin [OF o(1,2) _ _ o(3,4,5)]) (use gz g1 in \<open>auto simp: Z e mk_other addrs_mk\<close>)
      qed
    qed
  qed
qed

end
