(* ===== verification/TT_RBTree_Unbalance.thy ===== *)
theory TT_RBTree_Unbalance
  imports TT_RBTree_Balance
begin

text \<open>
  The loop of \<^verbatim>\<open>__rbt_remove_fixup\<close> ends and restores the colours of a red-black tree of which one subtree has
  lost a black node.
\<close>

section \<open>The sides of the loop body\<close>

definition remove_tail :: "bool \<Rightarrow> ptr \<Rightarrow> ptr \<Rightarrow> 'z tt_rbtree \<Rightarrow> 'z rbstore \<Rightarrow> (ptr \<times> 'z tt_rbtree \<times> 'z rbstore) run" where
  "remove_tail d x w T m =
    bindr (rb_ld rb_parent m x) (\<lambda>p.
    bindr (rb_ld rb_black m p) (\<lambda>pb.
    bindr (rb_st (set_black pb) m w) (\<lambda>m.
    bindr (rb_st (set_black True) m p) (\<lambda>m.
    bindr (rb_ld (child (\<not> d)) m w) (\<lambda>wf.
    bindr (rb_st (set_black True) m wf) (\<lambda>m.
    bindr (rotate d T p m) (\<lambda>(T, m). Inr (rb_root T, T, m))))))))"

definition remove_mid :: "bool \<Rightarrow> ptr \<Rightarrow> ptr \<Rightarrow> 'z tt_rbtree \<Rightarrow> 'z rbstore \<Rightarrow> (ptr \<times> 'z tt_rbtree \<times> 'z rbstore) run" where
  "remove_mid d x w T m =
    bindr (rb_ld rb_left m w) (\<lambda>wl.
    bindr (rb_ld rb_black m wl) (\<lambda>wlb.
    bindr (rb_ld rb_right m w) (\<lambda>wr.
    bindr (rb_ld rb_black m wr) (\<lambda>wrb.
    if wlb \<and> wrb then
      bindr (rb_st (set_black False) m w) (\<lambda>m.
      bindr (rb_ld rb_parent m x) (\<lambda>p. Inr (p, T, m)))
    else
      bindr (if if d then wrb else wlb then
               bindr (rb_st (set_black True) m (if d then wl else wr)) (\<lambda>m.
               bindr (rb_st (set_black False) m w) (\<lambda>m.
               bindr (rotate (\<not> d) T w m) (\<lambda>(T, m).
               bindr (rb_ld rb_parent m x) (\<lambda>p.
               bindr (rb_ld (child (\<not> d)) m p) (\<lambda>w. Inr (w, T, m))))))
             else Inr (w, T, m)) (\<lambda>(w, T, m). remove_tail d x w T m)))))"

definition remove_side :: "bool \<Rightarrow> 'z tt_rbtree \<Rightarrow> ptr \<Rightarrow> ptr \<Rightarrow> 'z rbstore \<Rightarrow> (ptr \<times> 'z tt_rbtree \<times> 'z rbstore) run" where
  "remove_side d T x p m =
    bindr (rb_ld (child (\<not> d)) m p) (\<lambda>w.
    bindr (rb_ld rb_black m w) (\<lambda>wb.
    bindr (if \<not> wb then
             bindr (rb_st (set_black True) m w) (\<lambda>m.
             bindr (rb_ld rb_parent m x) (\<lambda>p.
             bindr (rb_st (set_black False) m p) (\<lambda>m.
             bindr (rotate d T p m) (\<lambda>(T, m).
             bindr (rb_ld rb_parent m x) (\<lambda>p.
             bindr (rb_ld (child (\<not> d)) m p) (\<lambda>w. Inr (w, T, m)))))))
           else Inr (w, T, m)) (\<lambda>(w, T, m). remove_mid d x w T m)))"

lemma remove_sides: "rbt_remove_fixup_left = remove_side True" "rbt_remove_fixup_right = remove_side False"
  by (simp_all add: fun_eq_iff rbt_remove_fixup_left_def rbt_remove_fixup_right_def remove_side_def remove_mid_def
      remove_tail_def child_eta rotate_sides cong: if_cong)

section \<open>A black sibling\<close>

primrec blacken :: "rbt \<Rightarrow> rbt" where
  "blacken Lf = Lf"
| "blacken (Nd l a c r) = Nd l a True r"

lemma blacken_simps [simp]:
  "addrs (blacken t) = addrs t" "root_of z (blacken t) = root_of z t" "black_root (blacken t)"
  "blacken (mk d s a c t) = mk d s a True t"
  by (cases t; simp add: mk_def)+

lemma good_blacken: "good t n \<Longrightarrow> \<not> black_root t \<Longrightarrow> good (blacken t) (Suc n)"
  by (cases t) auto

lemma blacken_id: "black_root t \<Longrightarrow> blacken t = t"
  by (cases t) auto

definition hangs :: "'z tt_rbtree \<Rightarrow> 'z rbstore \<Rightarrow> ctx \<Rightarrow> rbt \<Rightarrow> bool" where
  "hangs T m K t \<longleftrightarrow> focus T m K t \<and> rb_parent (struct_at m (root_of (rb_tnil T) t)) = Some (ctop (rb_tnil T) K)"

lemma hangsD: "hangs T m K t \<Longrightarrow> focus T m K t"
  by (simp add: hangs_def)

lemma hangsI: "focus T m K t \<Longrightarrow> t \<noteq> Lf \<or> rb_parent (struct_at m (rb_tnil T)) = Some (ctop (rb_tnil T) K) \<Longrightarrow> hangs T m K t"
  by (cases t) (auto simp: hangs_def focus_def Let_def)

lemma hangs_nil: "hangs T m K t \<Longrightarrow> t \<noteq> Lf \<or> rb_parent (struct_at m (rb_tnil T)) = Some (ctop (rb_tnil T) K)"
  by (cases t) (auto simp: hangs_def)

lemma hangs_cell: "hangs T m K t \<Longrightarrow> cell m (root_of (rb_tnil T) t)"
  using root_of_cases [of "rb_tnil T" t] by (auto simp: hangs_def focus_def Let_def)

lemma remove_tail_ok:
  assumes h: "hangs T m (Fr d p c (mk d a w True e) # K) t" and e: "\<not> black_root e" and x: "x = root_of (rb_tnil T) t"
  shows "\<exists>T' m'. remove_tail d (Some x) (Some w) T m = Inr (rb_root T', T', m')
    \<and> focus T' m' K (mk d (mk d t p True a) w c (blacken e)) \<and> same_tree T T'
    \<and> relinked (set (addrs (plug K (mk d t p c (mk d a w True e))))) m m'
    \<and> struct_at m' (rb_tnil T) = struct_at m (rb_tnil T)"
proof -
  let ?z = "rb_tnil T" and ?S = "set (addrs (plug K (mk d t p c (mk d a w True e))))"
  note F = hangsD [OF h, unfolded focus_up focus_def Let_def, simplified, simplified Int_Un_distrib Int_Un_distrib2 Un_empty conj_assoc]
  obtain e1 f e2 where e': "e = mk d e1 f False e2" using e by (cases e; simp) (metis mk_Nd(2))
  let ?m = "paint f True (paint p True (paint w c m))"
  have x': "rb_parent (struct_at m x) = Some p" "cell m x" using h hangs_cell [OF h] x by (simp_all add: hangs_def)
  have "focus T ?m K (mk d t p True (mk d a w c (blacken e)))"
    using F by (auto simp: focus_def Let_def e')
  from rotate_ok [OF this] obtain T' m' where r: "rotate d T (Some p) ?m = Inr (T', m')"
    "focus T' m' K (mk d (mk d t p True a) w c (blacken e))" "same_tree T T'"
    "relinked (set (addrs (plug K (mk d t p True (mk d a w c (blacken e)))))) ?m m'" "struct_at m' ?z = struct_at ?m ?z" by blast
  have "relinked ?S m ?m"
    by (intro relinked_paint relinked_refl) (use F in \<open>auto simp: set_plug e'\<close>)
  moreover have "set (addrs (plug K (mk d t p True (mk d a w c (blacken e))))) = ?S" by (auto simp: set_plug)
  ultimately have "relinked ?S m m'" using r(4) by (auto intro: relinked_trans)
  moreover have "remove_tail d (Some x) (Some w) T m = Inr (rb_root T', T', m')"
    using F x' r(1) by (simp add: remove_tail_def rb_run e')
  ultimately show ?thesis using r F by (auto simp: e')
qed

text \<open>
  With a black sibling whose children are black the sibling becomes red and the loop goes on at the parent;
  otherwise the tree is finished.
\<close>

lemma sibling_reads:
  assumes "hangs T m (Fr d p c (mk d a w k e) # K) t"
  shows "rb_ld (child d) m (Some w) = Inr (Some (root_of (rb_tnil T) a))"
    "rb_ld (child (\<not> d)) m (Some w) = Inr (Some (root_of (rb_tnil T) e))"
    "rb_ld rb_black m (Some (root_of (rb_tnil T) a)) = Inr (black_root a)"
    "rb_ld rb_black m (Some (root_of (rb_tnil T) e)) = Inr (black_root e)"
    "rb_ld rb_black m (Some w) = Inr k" "rb_ld (child (\<not> d)) m (Some p) = Inr (Some w)"
    "rb_ld rb_parent m (Some (root_of (rb_tnil T) t)) = Inr (Some p)"
proof -
  let ?z = "rb_tnil T"
  note F = hangsD [OF assms, unfolded focus_def Let_def, simplified]
  have "cell m (root_of ?z a)" "cell m (root_of ?z e)"
    using F root_of_cases [of ?z a] root_of_cases [of ?z e] by auto
  then show "rb_ld (child d) m (Some w) = Inr (Some (root_of ?z a))" "rb_ld (child (\<not> d)) m (Some w) = Inr (Some (root_of ?z e))"
    "rb_ld rb_black m (Some (root_of ?z a)) = Inr (black_root a)" "rb_ld rb_black m (Some (root_of ?z e)) = Inr (black_root e)"
    "rb_ld rb_black m (Some w) = Inr k" "rb_ld (child (\<not> d)) m (Some p) = Inr (Some w)"
    using F black_root_at [of ?z "struct_at m" w a] black_root_at [of ?z "struct_at m" w e] by (simp_all add: rb_run)
  show "rb_ld rb_parent m (Some (root_of ?z t)) = Inr (Some p)"
    using assms hangs_cell [OF assms] by (simp add: hangs_def rb_run)
qed

lemma remove_mid_recolour:
  assumes h: "hangs T m (Fr d p c (mk d a w True e) # K) t" and b: "black_root a" "black_root e" and x: "x = root_of (rb_tnil T) t"
  shows "\<exists>m'. remove_mid d (Some x) (Some w) T m = Inr (Some p, T, m')
    \<and> focus T m' K (mk d t p c (mk d a w False e))
    \<and> relinked (set (addrs (plug K (mk d t p c (mk d a w True e))))) m m'
    \<and> struct_at m' (rb_tnil T) = struct_at m (rb_tnil T)"
proof -
  note F = hangsD [OF h, unfolded focus_up focus_def Let_def, simplified, simplified Int_Un_distrib Int_Un_distrib2 Un_empty conj_assoc]
  note R = sibling_reads [OF h]
  have x': "rb_parent (struct_at m x) = Some p" "cell m x" using h hangs_cell [OF h] x by (simp_all add: hangs_def)
  have "remove_mid d (Some x) (Some w) T m = Inr (Some p, T, paint w False m)"
    using R F b x' by (cases d) (simp_all add: remove_mid_def rb_run child_eta)
  moreover have "focus T (paint w False m) K (mk d t p c (mk d a w False e))"
    using F by (auto simp: focus_def Let_def)
  moreover have "relinked (set (addrs (plug K (mk d t p c (mk d a w True e))))) m (paint w False m)"
    by (intro relinked_paint relinked_refl) (use F in \<open>auto simp: set_plug\<close>)
  ultimately show ?thesis using F by auto
qed

lemma remove_mid_finish:
  assumes h: "hangs T m (Fr d p c (mk d a w True e) # K) t" and b: "\<not> (black_root a \<and> black_root e)" and x: "x = root_of (rb_tnil T) t"
  shows "\<exists>T' m' s v s'. remove_mid d (Some x) (Some w) T m = Inr (rb_root T', T', m')
    \<and> focus T' m' K (mk d s v c s') \<and> same_tree T T'
    \<and> addrs (mk d s v c s') = addrs (mk d t p c (mk d a w True e))
    \<and> black_root s \<and> black_root s' \<and> (\<forall>n. good t n \<longrightarrow> good a n \<longrightarrow> good e n \<longrightarrow> good s (Suc n) \<and> good s' (Suc n))
    \<and> relinked (set (addrs (plug K (mk d t p c (mk d a w True e))))) m m'
    \<and> struct_at m' (rb_tnil T) = struct_at m (rb_tnil T)"
proof -
  let ?z = "rb_tnil T" and ?S = "set (addrs (plug K (mk d t p c (mk d a w True e))))"
  note F = hangsD [OF h, unfolded focus_up focus_def Let_def, simplified, simplified Int_Un_distrib Int_Un_distrib2 Un_empty conj_assoc]
  note R = sibling_reads [OF h]
  show ?thesis
  proof (cases "black_root e")
    case False
    from remove_tail_ok [OF h False x] obtain T' m' where o: "remove_tail d (Some x) (Some w) T m = Inr (rb_root T', T', m')"
      "focus T' m' K (mk d (mk d t p True a) w c (blacken e))" "same_tree T T'" "relinked ?S m m'"
      "struct_at m' ?z = struct_at m ?z" by blast
    have "remove_mid d (Some x) (Some w) T m = Inr (rb_root T', T', m')"
      using R False o(1) by (cases d) (simp_all add: remove_mid_def child_eta)
    moreover have "addrs (mk d (mk d t p True a) w c (blacken e)) = addrs (mk d t p c (mk d a w True e))"
      by (simp add: addrs_mk)
    moreover have "\<forall>n. good t n \<longrightarrow> good a n \<longrightarrow> good e n \<longrightarrow> good (mk d t p True a) (Suc n) \<and> good (blacken e) (Suc n)"
      using good_blacken [OF _ False] by auto
    ultimately show ?thesis using o(2-5) by (metis blacken_simps(3) colour_mk(1))
  next
    case True
    with b obtain a1 v a2 where a: "a = mk d a1 v False a2" by (cases a; simp) (metis mk_Nd(2))
    let ?m = "paint w False (paint v True m)"
    have "focus T ?m (Fr d p c (mk d (mk d a1 v True a2) w False e) # K) t"
      using hangsD [OF h, unfolded a] by (auto simp: focus_def Let_def)
    then have "focus T ?m (Fr (\<not> d) p c t # K) (mk (\<not> d) e w False (mk (\<not> d) a2 v True a1))"
      by (simp add: focus_up mk_other)
    from rotate_ok [OF this] obtain T1 m1 where r: "rotate (\<not> d) T (Some w) ?m = Inr (T1, m1)"
      "focus T1 m1 (Fr (\<not> d) p c t # K) (mk (\<not> d) (mk (\<not> d) e w False a2) v True a1)" "same_tree T T1"
      "relinked (set (addrs (plug (Fr (\<not> d) p c t # K) (mk (\<not> d) e w False (mk (\<not> d) a2 v True a1))))) ?m m1"
      "struct_at m1 ?z = struct_at ?m ?z" by blast
    have S: "set (addrs (plug (Fr (\<not> d) p c t # K) (mk (\<not> d) e w False (mk (\<not> d) a2 v True a1)))) = ?S"
      "set (addrs (plug K (mk d t p c (mk d a1 v True (mk d a2 w False e))))) = ?S"
      by (auto simp: set_plug a)
    have m: "relinked ?S m ?m" "struct_at ?m ?z = struct_at m ?z"
      by ((intro relinked_paint relinked_refl)?; use F in \<open>auto simp: set_plug a\<close>)+
    have m1: "relinked ?S m m1" "struct_at m1 ?z = struct_at m ?z"
      using relinked_trans [OF m(1)] r(4) S m(2) r(5) by simp_all
    have h1: "hangs T1 m1 (Fr d p c (mk d a1 v True (mk d a2 w False e)) # K) t"
      using r(2,3) m1(2) hangs_nil [OF h] by (intro hangsI) (auto simp: focus_up mk_other same_tree_def)
    have z1: "rb_tnil T1 = ?z" using r(3) by (simp add: same_tree_def)
    from remove_tail_ok [OF h1] obtain T' m' where o: "remove_tail d (Some x) (Some v) T1 m1 = Inr (rb_root T', T', m')"
      "focus T' m' K (mk d (mk d t p True a1) v c (mk d a2 w True e))" "same_tree T1 T'" "relinked ?S m1 m'"
      "struct_at m' ?z = struct_at m1 ?z" by (auto simp: x z1 S)
    have x1: "rb_ld rb_parent m1 (Some x) = Inr (Some p)" "rb_ld (child (\<not> d)) m1 (Some p) = Inr (Some v)"
      using sibling_reads [OF h1] by (simp_all add: x z1)
    have c: "cell m v" "cell (paint v True m) w" using F by (simp_all add: a)
    have "remove_mid d (Some x) (Some w) T m = Inr (rb_root T', T', m')"
      using R True o(1) r(1) x1 c by (cases d) (simp_all add: remove_mid_def child_eta a rb_run)
    moreover have "addrs (mk d (mk d t p True a1) v c (mk d a2 w True e)) = addrs (mk d t p c (mk d a w True e))"
      by (simp add: addrs_mk a)
    moreover have "\<forall>n. good t n \<longrightarrow> good a n \<longrightarrow> good e n \<longrightarrow> good (mk d t p True a1) (Suc n) \<and> good (mk d a2 w True e) (Suc n)"
      by (simp add: a)
    moreover have "same_tree T T'" "relinked ?S m m'" "struct_at m' ?z = struct_at m ?z"
      using same_tree_trans [OF r(3) o(3)] relinked_trans [OF m1(1) o(4)] m1(2) o(5) by simp_all
    ultimately show ?thesis using o(2) by (metis colour_mk(1))
  qed
qed

section \<open>The loop\<close>

text \<open>The black height of \<open>t\<close> is one too small, or \<open>t\<close> only has to become black.\<close>

definition pending :: "ctx \<Rightarrow> rbt \<Rightarrow> nat \<Rightarrow> bool" where
  "pending K t n \<longleftrightarrow> cgood K (Suc n) \<and> good t n \<and> black_root t"

definition settled :: "ctx \<Rightarrow> rbt \<Rightarrow> bool" where
  "settled K t \<longleftrightarrow> (\<exists>n. cgood K n \<and> good (blacken t) n) \<and> (K = [] \<or> \<not> black_root t)"

definition mends :: "'z tt_rbtree \<Rightarrow> 'z rbstore \<Rightarrow> rbt \<Rightarrow> 'z tt_rbtree \<Rightarrow> 'z rbstore \<Rightarrow> ctx \<Rightarrow> rbt \<Rightarrow> bool" where
  "mends T m u T' m' K t \<longleftrightarrow> hangs T' m' K t \<and> same_tree T T' \<and> addrs (plug K t) = addrs u
     \<and> relinked (set (addrs u)) m m' \<and> struct_at m' (rb_tnil T) = struct_at m (rb_tnil T)"

lemma mends_trans:
  assumes "same_tree T T1" "relinked (set (addrs u)) m m1" "struct_at m1 (rb_tnil T) = struct_at m (rb_tnil T)"
    "mends T1 m1 u1 T' m' K t" "addrs u1 = addrs u"
  shows "mends T m u T' m' K t"
  using assms same_tree_trans [of T T1 T'] relinked_trans [of _ m m1 m'] by (auto simp: mends_def same_tree_def)

lemma remove_mid_ok:
  assumes h: "hangs T m (Fr d p c (mk d a w True e) # K) t" and x: "x = root_of (rb_tnil T) t"
    and g: "pending (Fr d p c (mk d a w True e) # K) t n"
  shows "\<exists>T' m' K' t'. remove_mid d (Some x) (Some w) T m = Inr (Some (root_of (rb_tnil T) t'), T', m')
    \<and> mends T m (plug K (mk d t p c (mk d a w True e))) T' m' K' t' \<and> (c \<and> K' = K \<and> pending K t' (Suc n) \<or> settled K' t')"
proof (cases "black_root a \<and> black_root e")
  case True
  then have b: "black_root a" "black_root e" by simp_all
  from remove_mid_recolour [OF h b x] obtain m' where m': "remove_mid d (Some x) (Some w) T m = Inr (Some p, T, m')"
    "focus T m' K (mk d t p c (mk d a w False e))" "relinked (set (addrs (plug K (mk d t p c (mk d a w True e))))) m m'"
    "struct_at m' (rb_tnil T) = struct_at m (rb_tnil T)" by blast
  let ?t = "mk d t p c (mk d a w False e)"
  have "mends T m (plug K (mk d t p c (mk d a w True e))) T m' K ?t"
    using m'(2-4) by (auto simp: mends_def addrs_plug addrs_mk intro: hangsI)
  moreover have "c \<and> pending K ?t (Suc n) \<or> settled K ?t"
    using g b by (cases c) (auto simp: pending_def settled_def)
  ultimately show ?thesis using m'(1) by (metis mk_simps(1))
next
  case False
  from remove_mid_finish [OF h False x] obtain T' m' s v s' where o: "remove_mid d (Some x) (Some w) T m = Inr (rb_root T', T', m')"
    "focus T' m' K (mk d s v c s')" "same_tree T T'" "addrs (mk d s v c s') = addrs (mk d t p c (mk d a w True e))"
    "black_root s" "black_root s'" "\<forall>n. good t n \<longrightarrow> good a n \<longrightarrow> good e n \<longrightarrow> good s (Suc n) \<and> good s' (Suc n)"
    "relinked (set (addrs (plug K (mk d t p c (mk d a w True e))))) m m'" "struct_at m' (rb_tnil T) = struct_at m (rb_tnil T)" by blast
  let ?t = "plug K (mk d s v c s')"
  have f: "focus T' m' [] ?t" using o(2) by (simp add: focus_plug [of T' m' K])
  have ne: "?t \<noteq> Lf" using set_plug [of K "mk d s v c s'"] by auto
  have g': "good s (Suc n)" "good s' (Suc n)" using o(7) g by (auto simp: pending_def)
  have "\<exists>N. good ?t N"
  proof (cases c)
    case True
    with g g' good_plug [of K "Suc (Suc n)" "mk d s v c s'"] show ?thesis by (auto simp: pending_def)
  next
    case False
    with g g' o(5,6) good_plug [of K "Suc n" "mk d s v c s'"] show ?thesis by (auto simp: pending_def)
  qed
  then have "settled [] ?t"
    using good_blacken [of ?t] blacken_id [of ?t] by (cases "black_root ?t") (auto simp: settled_def)
  moreover have "mends T m (plug K (mk d t p c (mk d a w True e))) T' m' [] ?t"
    using o f ne by (auto simp: mends_def addrs_plug intro: hangsI)
  moreover have "rb_root T' = Some (root_of (rb_tnil T) ?t)"
    using f o(3) by (simp add: focus_def Let_def same_tree_def)
  ultimately show ?thesis using o(1) by metis
qed

lemma remove_side_ok:
  assumes h: "hangs T m (Fr d p c s # K) t" and x: "x = root_of (rb_tnil T) t" and g: "pending (Fr d p c s # K) t n"
  shows "\<exists>T' m' K' t'. remove_side d T (Some x) (Some p) m = Inr (Some (root_of (rb_tnil T) t'), T', m')
    \<and> mends T m (plug K (mk d t p c s)) T' m' K' t' \<and> (K' = K \<and> pending K t' (Suc n) \<or> settled K' t')"
proof -
  let ?z = "rb_tnil T"
  have gs: "good s (Suc n)" using g by (simp add: pending_def)
  obtain b w k e where s: "s = mk d b w k e" using rbt_mk_cases [of s] gs by (metis good.simps(1) nat.distinct(1))
  note R = sibling_reads [OF h [unfolded s]]
  show ?thesis
  proof (cases k)
    case True
    have "remove_side d T (Some x) (Some p) m = remove_mid d (Some x) (Some w) T m"
      using R True by (simp add: remove_side_def)
    with remove_mid_ok [of T m d p c b w e K t x n] h x g True show ?thesis unfolding s by auto
  next
    case False
    note h' = h [unfolded s]
    note F = hangsD [OF h', unfolded focus_up focus_def Let_def, simplified, simplified Int_Un_distrib Int_Un_distrib2 Un_empty conj_assoc]
    let ?S = "set (addrs (plug K (mk d t p c s)))"
    have c: c and gb: "good b (Suc n)" "black_root b" "good e (Suc n)" "black_root e" "cgood K (Suc (Suc n))" "good t n" "black_root t"
      using g False s by (auto simp: pending_def split: if_splits)
    obtain a v a' where b: "b = mk d a v True a'"
    proof (cases b)
      case (Nd l q k' r)
      with gb(2) have "b = Nd l q True r" by simp
      with that show thesis using mk_Nd(2) by metis
    qed (use gb in simp)
    let ?m = "paint p False (paint w True m)"
    have "focus T ?m K (mk d t p False (mk d b w True e))"
      using F by (auto simp: focus_def Let_def)
    from rotate_ok [OF this] obtain T1 m1 where r: "rotate d T (Some p) ?m = Inr (T1, m1)"
      "focus T1 m1 K (mk d (mk d t p False b) w True e)" "same_tree T T1"
      "relinked (set (addrs (plug K (mk d t p False (mk d b w True e))))) ?m m1" "struct_at m1 ?z = struct_at ?m ?z" by blast
    have "relinked ?S m ?m" unfolding s
      by (intro relinked_paint relinked_refl) (use F in \<open>auto simp: set_plug\<close>)
    moreover have "set (addrs (plug K (mk d t p False (mk d b w True e)))) = ?S" by (auto simp: set_plug s)
    ultimately have m1: "relinked ?S m m1" "struct_at m1 ?z = struct_at m ?z"
      using r(4,5) F by (auto intro: relinked_trans)
    have h1: "hangs T1 m1 (Fr d p False (mk d a v True a') # Fr d w True e # K) t"
      using r(2,3) m1(2) hangs_nil [OF h] by (intro hangsI) (auto simp: focus_up b same_tree_def)
    have z1: "rb_tnil T1 = ?z" using r(3) by (simp add: same_tree_def)
    have "pending (Fr d p False (mk d a v True a') # Fr d w True e # K) t n"
      using gb by (auto simp: pending_def b)
    from remove_mid_ok [OF h1 _ this, of x] obtain T' m' K' t' where
      o: "remove_mid d (Some x) (Some v) T1 m1 = Inr (Some (root_of ?z t'), T', m')"
      "mends T1 m1 (plug (Fr d w True e # K) (mk d t p False (mk d a v True a'))) T' m' K' t'" "settled K' t'"
      by (auto simp: x z1)
    have "addrs (plug (Fr d w True e # K) (mk d t p False (mk d a v True a'))) = addrs (plug K (mk d t p c s))"
      by (simp add: addrs_plug addrs_mk s b)
    from mends_trans [OF r(3) m1 o(2) this] have "mends T m (plug K (mk d t p c s)) T' m' K' t'" .
    moreover have x1: "rb_ld rb_parent m1 (Some x) = Inr (Some p)" "rb_ld (child (\<not> d)) m1 (Some p) = Inr (Some v)"
      using sibling_reads [OF h1] by (simp_all add: x z1)
    have "cell m w" "cell (paint w True m) p" "rb_parent (struct_at m x) = Some p" "cell m x" "x \<noteq> w"
      using F h hangs_cell [OF h] root_of_cases [of ?z t] by (auto simp: hangs_def x)
    then have "remove_side d T (Some x) (Some p) m = Inr (Some (root_of ?z t'), T', m')"
      using R False r(1) x1 o(1) by (simp add: remove_side_def rb_run)
    ultimately show ?thesis using o(3) by blast
  qed
qed

lemma remove_fixup_body_side:
  assumes h: "hangs T m (Fr d p c s # K) t" and s: "s \<noteq> Lf" and x: "x = root_of (rb_tnil T) t"
  shows "rbt_remove_fixup_body T (Some x) m = remove_side d T (Some x) (Some p) m"
proof -
  have F: "rb_parent (struct_at m x) = Some p" "cell m x" "cell m p" "child d (struct_at m p) = Some x"
    "child (\<not> d) (struct_at m p) = Some (root_of (rb_tnil T) s)"
    using h hangs_cell [OF h] by (simp_all add: hangs_def focus_def Let_def x)
  have "root_of (rb_tnil T) s \<in> set (addrs s)" using s by (cases s) auto
  then have "root_of (rb_tnil T) s \<noteq> x"
    using hangsD [OF h] x root_of_cases [of "rb_tnil T" t] by (auto simp: focus_def Let_def)
  with F show ?thesis by (cases d) (simp_all add: rbt_remove_fixup_body_def rb_run remove_sides child_eta)
qed

lemma root_of_plug: "root_of z (plug (F # K) t) \<in> set (caddrs (F # K))"
proof (induction K arbitrary: F t)
  case (Cons F' K)
  from Cons [of F' "plug1 F t"] show ?case by (cases F; cases F') auto
next
  case Nil
  then show ?case by (cases F) simp
qed

lemma root_at_top:
  assumes "focus T m K t"
  shows "rb_root T = Some (root_of (rb_tnil T) t) \<longleftrightarrow> K = []"
proof (cases K)
  case (Cons F K')
  from assms have "focus T m [] (plug K t)" by (simp add: focus_plug [of T m K])
  then have "rb_root T = Some (root_of (rb_tnil T) (plug K t))" by (simp add: focus_def Let_def)
  moreover have "root_of (rb_tnil T) t \<notin> set (caddrs K)"
    using assms root_of_cases [of "rb_tnil T" t] by (auto simp: focus_def Let_def)
  ultimately show ?thesis
    using Cons root_of_plug [of "rb_tnil T" F K' t] by auto
qed (use assms in \<open>simp add: focus_def Let_def\<close>)

lemma remove_fixup_exit:
  assumes "hangs T m K t" "settled K t"
  shows "rbt_remove_fixup_loop T (Some (root_of (rb_tnil T) t)) m = Some (Inr (Some (root_of (rb_tnil T) t), T, m))"
proof (cases "K = []")
  case True
  then show ?thesis using root_at_top [OF hangsD [OF assms(1)]] by (subst rbt_remove_fixup_loop.simps) simp
next
  case False
  then have "\<not> rb_black (struct_at m (root_of (rb_tnil T) t))"
    using assms black_root_at [of "rb_tnil T" "struct_at m" "ctop (rb_tnil T) K" t]
    by (auto simp: settled_def hangs_def focus_def Let_def)
  then show ?thesis
    using hangs_cell [OF assms(1)] by (subst rbt_remove_fixup_loop.simps) (simp add: rb_run)
qed

lemma remove_fixup_loop_ok:
  assumes "hangs T m K t" "pending K t n"
  shows "\<exists>T' m' K' t'. rbt_remove_fixup_loop T (Some (root_of (rb_tnil T) t)) m = Some (Inr (Some (root_of (rb_tnil T) t'), T', m'))
    \<and> mends T m (plug K t) T' m' K' t' \<and> settled K' t'"
  using assms
proof (induction K arbitrary: T m t n)
  case Nil
  then have "settled [] t" using blacken_id [of t] by (auto simp: pending_def settled_def)
  moreover from remove_fixup_exit [OF Nil(1) this] have
    "rbt_remove_fixup_loop T (Some (root_of (rb_tnil T) t)) m = Some (Inr (Some (root_of (rb_tnil T) t), T, m))" .
  moreover have "mends T m (plug [] t) T m [] t" using Nil by (simp add: mends_def)
  ultimately show ?case by blast
next
  case (Cons F K)
  let ?z = "rb_tnil T"
  obtain d p c s where F: "F = Fr d p c s" by (cases F)
  have s: "s \<noteq> Lf" using Cons.prems(2) F by (auto simp: pending_def)
  note h = Cons.prems(1) [unfolded F] and g = Cons.prems(2) [unfolded F]
  from remove_side_ok [OF h refl g] obtain T1 m1 K1 t1 where
    o: "remove_side d T (Some (root_of ?z t)) (Some p) m = Inr (Some (root_of ?z t1), T1, m1)"
    "mends T m (plug K (mk d t p c s)) T1 m1 K1 t1" "K1 = K \<and> pending K t1 (Suc n) \<or> settled K1 t1" by blast
  have z1: "rb_tnil T1 = ?z" using o(2) by (simp add: mends_def same_tree_def)
  have "rb_root T \<noteq> Some (root_of ?z t)" using root_at_top [OF hangsD [OF Cons.prems(1)]] by simp
  moreover have "rb_ld rb_black m (Some (root_of ?z t)) = Inr True"
    using hangs_cell [OF h] hangsD [OF h] black_root_at [of ?z "struct_at m" p t] g by (simp add: rb_run pending_def focus_def Let_def)
  ultimately have step: "rbt_remove_fixup_loop T (Some (root_of ?z t)) m = rbt_remove_fixup_loop T1 (Some (root_of ?z t1)) m1"
    using o(1) remove_fixup_body_side [OF h s refl] by (subst rbt_remove_fixup_loop.simps) auto
  have e: "plug (F # K) t = plug K (mk d t p c s)" by (simp add: F)
  show ?case
  proof (cases "settled K1 t1")
    case True
    with remove_fixup_exit [of T1 m1 K1 t1] o(2) step z1 e show ?thesis by (auto simp: mends_def)
  next
    case False
    with o(2,3) have g1: "hangs T1 m1 K t1" "pending K t1 (Suc n)" and K1: "K1 = K" by (auto simp: mends_def)
    from Cons.IH [OF g1] obtain T' m' K' t' where
      I: "rbt_remove_fixup_loop T1 (Some (root_of ?z t1)) m1 = Some (Inr (Some (root_of ?z t'), T', m'))"
      "mends T1 m1 (plug K t1) T' m' K' t'" "settled K' t'" by (auto simp: z1)
    have "mends T m (plug (F # K) t) T' m' K' t'"
      using mends_trans [OF _ _ _ I(2)] o(2) unfolding e by (auto simp: mends_def K1)
    with I step show ?thesis by auto
  qed
qed

end
