(* ===== verification/TT_RBTree_Unlink.thy ===== *)
theory TT_RBTree_Unlink
  imports TT_RBTree_Unbalance
begin

text \<open>
  Taking a node out of the red-black tree: \<^verbatim>\<open>__rbn_transplant\<close> and the three cases of \<^verbatim>\<open>tt_rbtree_remove\<close>, and the
  walk to the least node of a subtree.
\<close>

section \<open>The least and the greatest node\<close>

lemma focus_root: "focus T m [] t \<Longrightarrow> rb_root T = Some (root_of (rb_tnil T) t)"
  by (simp add: focus_def Let_def)

lemma focus_child:
  assumes "focus T m K (mk d s a c t)"
  shows "cell m a" "a \<noteq> rb_tnil T" "child d (struct_at m a) = Some (root_of (rb_tnil T) s)"
    "child (\<not> d) (struct_at m a) = Some (root_of (rb_tnil T) t)" "rb_parent (struct_at m a) = Some (ctop (rb_tnil T) K)"
    "rb_black (struct_at m a) = c"
  using assms by (auto simp: focus_def Let_def)

text \<open>A path down on side \<open>d\<close>, to a node without a child on that side.\<close>

definition spine :: "bool \<Rightarrow> ctx \<Rightarrow> bool" where
  "spine d K \<longleftrightarrow> (\<forall>F \<in> set K. \<exists>a c s. F = Fr d a c s)"

lemma plug_append: "plug (K @ K') t = plug K' (plug K t)"
  by (induction K arbitrary: t) simp_all

lemma caddrs_append [simp]: "caddrs (K @ K') = caddrs K @ caddrs K'"
  by (simp add: caddrs_def)

lemma spine_ex:
  "t \<noteq> Lf \<Longrightarrow> \<exists>K a c s. t = plug K (mk d Lf a c s) \<and> spine d K"
proof (induction t)
  case (Nd l a c r)
  obtain s s' where t: "Nd l a c r = mk d s a c s'" using mk_Nd(2) by blast
  have s: "s = (if d then l else r)" using t by (cases d) (simp_all add: mk_def)
  show ?case
  proof (cases "s = Lf")
    case True
    then show ?thesis using t by (intro exI [of _ "[]"]) (auto simp: spine_def)
  next
    case False
    then obtain K b e u where K: "s = plug K (mk d Lf b e u)" "spine d K" using Nd.IH s by (cases d) auto
    have "Nd l a c r = plug (K @ [Fr d a c s']) (mk d Lf b e u)" using t K(1) by (simp add: plug_append)
    moreover have "spine d (K @ [Fr d a c s'])" using K(2) by (auto simp: spine_def)
    ultimately show ?thesis by blast
  qed
qed simp

lemma spine_addrs: "spine d K \<Longrightarrow> (if d then caddrs_l K else caddrs_r K) = []"
proof (induction K)
  case (Cons F K)
  then show ?case by (cases F) (auto simp: spine_def)
qed simp

lemma first_spine: "spine True K \<Longrightarrow> addrs (plug K (mk True Lf a c s)) = a # addrs (plug K s)"
  using spine_addrs [of True K] by (simp add: addrs_plug addrs_mk)

lemma last_spine: "spine False K \<Longrightarrow> addrs (plug K (mk False Lf a c s)) = addrs (plug K s) @ [a]"
  using spine_addrs [of False K] by (simp add: addrs_plug addrs_mk)

lemma min_loop_spine:
  assumes "focus T m K0 (plug K (mk True Lf a c s))" "spine True K"
  shows "rbt_min_loop T (Some (root_of (rb_tnil T) (plug K (mk True Lf a c s)))) m = Some (Inr (Some a))"
  using assms
proof (induction K arbitrary: K0 rule: rev_induct)
  case Nil
  then show ?case using focus_child [of T m K0 True Lf a c s]
    by (subst rbt_min_loop.simps) (simp add: rb_run child_eta)
next
  case (snoc F K)
  then obtain b e u where F: "F = Fr True b e u" by (auto simp: spine_def)
  let ?t = "plug K (mk True Lf a c s)"
  have f: "focus T m K0 (mk True ?t b e u)" using snoc.prems(1) by (simp add: plug_append F)
  then have "focus T m (Fr True b e u # K0) ?t" by (simp add: focus_up)
  from snoc.IH [OF this] snoc.prems(2) have I: "rbt_min_loop T (Some (root_of (rb_tnil T) ?t)) m = Some (Inr (Some a))"
    by (simp add: spine_def)
  have "?t \<noteq> Lf" using set_plug [of K "mk True Lf a c s"] by auto
  then have "root_of (rb_tnil T) ?t \<noteq> rb_tnil T"
    using f root_of_cases [of "rb_tnil T" ?t] by (auto simp: focus_def Let_def)
  then show ?case using I focus_child [OF f]
    by (subst rbt_min_loop.simps) (simp add: rb_run child_eta plug_append F)
qed

lemma max_loop_spine:
  assumes "focus T m K0 (plug K (mk False Lf a c s))" "spine False K"
  shows "rbt_max_loop T (Some (root_of (rb_tnil T) (plug K (mk False Lf a c s)))) m = Some (Inr (Some a))"
  using assms
proof (induction K arbitrary: K0 rule: rev_induct)
  case Nil
  then show ?case using focus_child [of T m K0 False Lf a c s]
    by (subst rbt_max_loop.simps) (simp add: rb_run child_eta)
next
  case (snoc F K)
  then obtain b e u where F: "F = Fr False b e u" by (auto simp: spine_def)
  let ?t = "plug K (mk False Lf a c s)"
  have f: "focus T m K0 (mk False ?t b e u)" using snoc.prems(1) by (simp add: plug_append F)
  then have "focus T m (Fr False b e u # K0) ?t" by (simp add: focus_up)
  from snoc.IH [OF this] snoc.prems(2) have I: "rbt_max_loop T (Some (root_of (rb_tnil T) ?t)) m = Some (Inr (Some a))"
    by (simp add: spine_def)
  have "?t \<noteq> Lf" using set_plug [of K "mk False Lf a c s"] by auto
  then have "root_of (rb_tnil T) ?t \<noteq> rb_tnil T"
    using f root_of_cases [of "rb_tnil T" ?t] by (auto simp: focus_def Let_def)
  then show ?case using I focus_child [OF f]
    by (subst rbt_max_loop.simps) (simp add: rb_run child_eta plug_append F)
qed

lemma rbt_min_ok:
  assumes "focus T m K t" "t \<noteq> Lf"
  shows "rbt_min T (Some (root_of (rb_tnil T) t)) m = Inr (Some (hd (addrs t)))"
proof -
  obtain K' a c s where t: "t = plug K' (mk True Lf a c s)" "spine True K'" using spine_ex [OF assms(2), of True] by blast
  have "root_of (rb_tnil T) t \<noteq> rb_tnil T"
    using assms root_of_cases [of "rb_tnil T" t] by (auto simp: focus_def Let_def)
  with min_loop_spine [of T m K K' a c s] assms(1) t first_spine [OF t(2)] show ?thesis
    by (simp add: rbt_min_def)
qed

lemma rbt_max_ok:
  assumes "focus T m K t" "t \<noteq> Lf"
  shows "rbt_max T (Some (root_of (rb_tnil T) t)) m = Inr (Some (last (addrs t)))"
proof -
  obtain K' a c s where t: "t = plug K' (mk False Lf a c s)" "spine False K'" using spine_ex [OF assms(2), of False] by blast
  have "root_of (rb_tnil T) t \<noteq> rb_tnil T"
    using assms root_of_cases [of "rb_tnil T" t] by (auto simp: focus_def Let_def)
  with max_loop_spine [of T m K K' a c s] assms(1) t last_spine [OF t(2)] show ?thesis
    by (simp add: rbt_max_def)
qed

section \<open>A node with at most one child\<close>

lemma transplant_child:
  assumes f: "focus T m K (mk d Lf z c r)"
  shows "\<exists>T' m'. rbn_transplant T (Some z) (Some (root_of (rb_tnil T) r)) m = Inr (T', m') \<and> hangs T' m' K r \<and> same_tree T T'
    \<and> relinked (insert (rb_tnil T) (set (addrs (plug K r)))) m m'"
proof -
  let ?n = "rb_tnil T" and ?x = "root_of (rb_tnil T) r" and ?S = "insert (rb_tnil T) (set (addrs (plug K r)))"
  note F = f [unfolded focus_def Let_def, simplified, simplified Int_Un_distrib Int_Un_distrib2 Un_empty conj_assoc]
  let ?m1 = "put_m K ?x m"
  let ?m2 = "cell_upd ?m1 ?x (set_parent (Some (ctop ?n K)) (struct_at ?m1 ?x))"
  have c: "ctx_at ?n (struct_at m) (rb_root T) K z" using F by simp
  have rep: "rbn_replace T (Some z) (Some ?x) m = Inr (put_T K ?x T, ?m1)"
    by (rule rbn_replace_ok [OF c]) (use F in auto)
  have x: "?x \<notin> set (caddrs K)" "cell m ?x" "?x \<in> ?S"
    using F root_of_cases [of ?n r] by (auto simp: set_plug)
  have "rbn_transplant T (Some z) (Some ?x) m = Inr (put_T K ?x T, ?m2)"
    using F x by (simp add: rbn_transplant_def rep rb_run rb_st_cell)
  moreover have "hangs (put_T K ?x T) ?m2 K r"
  proof (cases r)
    case Lf
    then show ?thesis using F ctx_at_put [OF c, of ?x] by (auto simp: hangs_def focus_def Let_def)
  next
    case (Nd r1 b e r2)
    then show ?thesis using F ctx_at_put [OF c, of ?x]
      by (auto simp: hangs_def focus_def Let_def child_eta Int_Un_distrib2)
  qed
  moreover have "relinked ?S m ?m2"
    by (rule relinked_upd, rule relinked_put) (use F x in \<open>auto simp: set_plug\<close>)
  ultimately show ?thesis using same_tree_put(1) by blast
qed

text \<open>What removing a node with at most one child does to the colours.\<close>

lemma unlink_colours:
  assumes "rbt_ok (plug K (mk d Lf z c r))"
  shows "if c then (\<exists>n. pending K r n) \<or> settled K r else rbt_ok (plug K r)"
proof -
  obtain n where n: "good (mk d Lf z c r) n" "cgood K n" "c \<or> cblack K" using rbt_ok_plugD [OF assms] by auto
  show ?thesis
  proof (cases c)
    case True
    with n have "good r 0" "cgood K (Suc 0)" by auto
    then show ?thesis using True good_blacken [of r 0] by (cases "black_root r") (auto simp: pending_def settled_def)
  next
    case False
    with n have r: "good r n" "black_root r" by auto
    with n good_plug [of K n r] black_plug [of K n r] show ?thesis using False by (auto simp: rbt_ok_def)
  qed
qed

section \<open>A node with two children\<close>

lemma adopt_step:
  assumes "t \<noteq> Lf" "\<forall>a \<in> set (addrs t). cell m a"
  shows "rb_st (set_parent (Some p)) m (Some (root_of z t)) = Inr (adopt p t m)"
  using assms by (cases t) (simp_all add: adopt_def rb_st_cell)

text \<open>The node \<open>y\<close>, whose right subtree is ready, takes the place of \<open>z\<close>.\<close>

definition take_place :: "ptr \<Rightarrow> ptr \<Rightarrow> 'z tt_rbtree \<Rightarrow> 'z rbstore \<Rightarrow> ('z tt_rbtree \<times> 'z rbstore) run" where
  "take_place z y T m =
    bindr (rbn_transplant T z y m) (\<lambda>(T, m).
    bindr (rb_ld rb_left m z) (\<lambda>zl.
    bindr (rb_st (set_left zl) m y) (\<lambda>m.
    bindr (rb_st (set_parent y) m zl) (\<lambda>m.
    bindr (rb_ld rb_black m z) (\<lambda>zb.
    bindr (rb_st (set_black zb) m y) (\<lambda>m. Inr (T, m)))))))"

definition ready :: "'z tt_rbtree \<Rightarrow> 'z rbstore \<Rightarrow> ctx \<Rightarrow> rbt \<Rightarrow> nat \<Rightarrow> bool \<Rightarrow> nat \<Rightarrow> rbt \<Rightarrow> bool" where
  "ready T m K l z c y r \<longleftrightarrow>
     (let n = rb_tnil T; h = struct_at m in
      ctx_at n h (rb_root T) K z \<and> rb_parent (h z) = Some (ctop n K) \<and> child True (h z) = Some (root_of n l) \<and> tree_at n h z l
      \<and> rb_black (h z) = c \<and> child False (h y) = Some (root_of n r) \<and> tree_at n h y r
      \<and> distinct (n # y # z # addrs l @ addrs r @ caddrs K)
      \<and> (\<forall>a \<in> {n, y, z} \<union> set (addrs l) \<union> set (addrs r) \<union> set (caddrs K). cell m a) \<and> rb_black (h n) \<and> l \<noteq> Lf)"

lemma take_place_ok:
  assumes "ready T m K l z c y r"
  shows "\<exists>T' m'. take_place (Some z) (Some y) T m = Inr (T', m') \<and> focus T' m' K (mk False r y c l) \<and> same_tree T T'
    \<and> relinked (insert y (set (addrs l) \<union> set (caddrs K))) m m' \<and> struct_at m' (rb_tnil T) = struct_at m (rb_tnil T)"
proof -
  let ?n = "rb_tnil T" and ?S = "insert y (set (addrs l) \<union> set (caddrs K))"
  note F = assms [unfolded ready_def Let_def, simplified, simplified Int_Un_distrib Int_Un_distrib2 Un_empty conj_assoc]
  define m1 where "m1 = put_m K y m"
  define m2 where "m2 = cell_upd m1 y (set_parent (Some (ctop ?n K)) (struct_at m1 y))"
  define m3 where "m3 = cell_upd m2 y (set_child True (Some (root_of ?n l)) (struct_at m2 y))"
  define m4 where "m4 = adopt y l m3"
  define m5 where "m5 = paint y c m4"
  have c: "ctx_at ?n (struct_at m) (rb_root T) K z" using F by simp
  have "rbn_replace T (Some z) (Some y) m = Inr (put_T K y T, m1)"
    unfolding m1_def by (rule rbn_replace_ok [OF c]) (use F in auto)
  moreover have 1: "cell m1 z" "cell m1 y" "rb_parent (struct_at m1 z) = Some (ctop ?n K)"
    using F by (auto simp: m1_def)
  ultimately have t: "rbn_transplant T (Some z) (Some y) m = Inr (put_T K y T, m2)"
    by (simp add: rbn_transplant_def rb_run rb_st_cell m2_def)
  have 2: "cell m2 z" "cell m2 y" "child True (struct_at m2 z) = Some (root_of ?n l)"
    using F by (auto simp: m1_def m2_def)
  have 3: "rb_st (set_parent (Some y)) m3 (Some (root_of ?n l)) = Inr m4"
    unfolding m4_def by (rule adopt_step) (use F in \<open>auto simp: m1_def m2_def m3_def\<close>)
  have 4: "cell m4 z" "cell m4 y" "rb_black (struct_at m4 z) = c"
    using F by (auto simp: m1_def m2_def m3_def m4_def)
  have "take_place (Some z) (Some y) T m = Inr (put_T K y T, m5)"
    using 2 4 by (simp add: take_place_def t rb_run rb_st_cell [of m2] child_eta m3_def [symmetric] 3 m5_def)
  moreover have "focus (put_T K y T) m5 K (mk False r y c l)"
    using F ctx_at_put [OF c, of y]
    by (auto simp: focus_def Let_def m5_def m4_def m3_def m2_def m1_def)
  moreover have "relinked ?S m m5"
    unfolding m5_def m4_def m3_def m2_def m1_def
    by (intro relinked_paint relinked_adopt relinked_upd relinked_put relinked_refl) (use F in auto)
  moreover have "struct_at m5 ?n = struct_at m ?n"
    using F by (simp add: m5_def m4_def m3_def m2_def m1_def)
  ultimately show ?thesis using same_tree_put(1) by blast
qed

lemma unlink_two_ok:
  assumes f: "focus T m K (mk False (plug Ky (mk True Lf y cy ry)) z c l)" and l: "l \<noteq> Lf" and sp: "spine True Ky"
  shows "\<exists>T' m'. rbt_unlink_two T (Some z) m = Inr (cy, Some (root_of (rb_tnil T) ry), T', m')
    \<and> hangs T' m' (Ky @ Fr False y c l # K) ry \<and> same_tree T T'
    \<and> relinked (insert (rb_tnil T) (set (addrs (plug K (mk False (plug Ky (mk True Lf y cy ry)) z c l))))) m m'"
proof -
  let ?n = "rb_tnil T" and ?r = "plug Ky (mk True Lf y cy ry)" and ?x = "root_of (rb_tnil T) ry"
  let ?S = "insert ?n (set (addrs (plug K (mk False ?r z c l))))"
  note F = f [unfolded focus_def Let_def, simplified, simplified Int_Un_distrib Int_Un_distrib2 Un_empty conj_assoc]
  note z = focus_child [OF f]
  have r: "?r \<noteq> Lf" using set_plug [of Ky "mk True Lf y cy ry"] by auto
  have fr: "focus T m (Fr False z c l # K) ?r" using f by (simp add: focus_up)
  have min: "rbt_min T (Some (root_of ?n ?r)) m = Inr (Some y)"
    using rbt_min_ok [OF fr r] first_spine [OF sp] by simp
  have fy: "focus T m (Ky @ Fr False z c l # K) (mk True Lf y cy ry)"
    using fr focus_plug [of T m "Fr False z c l # K" ?r] focus_plug [of T m "Ky @ Fr False z c l # K"] by (simp add: plug_append)
  note y = focus_child [OF fy]
  have S: "set (addrs ?r) = insert y (set (addrs ry) \<union> set (caddrs Ky))" by (simp add: set_plug)
  have D: "y \<notin> set (addrs ry)" "y \<notin> set (caddrs Ky)" "set (addrs ry) \<inter> set (caddrs Ky) = {}" "distinct (addrs ry)" "distinct (caddrs Ky)"
    using F distinct_plug [of Ky "mk True Lf y cy ry"] by auto
  define go where "go = (if ctop z Ky = z then bindr (rb_st (set_parent (Some y)) m (Some ?x)) (\<lambda>m. Inr (T, m))
           else
             bindr (rbn_transplant T (Some y) (Some ?x) m) (\<lambda>(T, m).
             bindr (rb_ld rb_right m (Some z)) (\<lambda>zr.
             bindr (rb_st (set_right zr) m (Some y)) (\<lambda>m.
             bindr (rb_st (set_parent (Some y)) m zr) (\<lambda>m. Inr (T, m))))))"
  have yp: "rb_parent (struct_at m y) = Some (ctop z Ky)"
    using y(5) by (cases Ky) (auto simp: ctop_def)
  have run: "rbt_unlink_two T (Some z) m = bindr go (\<lambda>(T, m). bindr (take_place (Some z) (Some y) T m) (\<lambda>(T, m). Inr (cy, Some ?x, T, m)))"
    using z y(1-4,6) yp min
    by (cases "ctop z Ky = z")
      (simp_all add: rbt_unlink_two_def rb_run child_eta go_def take_place_def bindr_assoc split_def)
  have "\<exists>T1 m1. go = Inr (T1, m1) \<and> ready T1 m1 K l z c y (plug Ky ry) \<and> same_tree T T1 \<and> relinked ?S m m1
      \<and> (ry \<noteq> Lf \<or> rb_parent (struct_at m1 ?n) = Some (ctop ?n (Ky @ Fr False y c l # K)))"
  proof (cases "Ky = []")
    case True
    let ?m = "cell_upd m ?x (set_parent (Some y) (struct_at m ?x))"
    have x: "cell m ?x" "?x \<in> insert ?n (set (addrs ry))" using F True root_of_cases [of ?n ry] by auto
    have "go = Inr (T, ?m)" using x True by (simp add: go_def rb_st_cell)
    moreover have "ready T ?m K l z c y ry"
      using F l True by (cases ry) (auto simp: ready_def Let_def child_eta Int_Un_distrib2)
    moreover have "relinked ?S m ?m"
      by (rule relinked_upd) (use x F True in \<open>auto simp: set_plug\<close>)
    ultimately show ?thesis using True by auto
  next
    case False
    then obtain q e u Kq where Ky: "Ky = Fr True q e u # Kq" using sp by (cases Ky) (auto simp: spine_def)
    from transplant_child [OF fy] obtain T1 m1 where t: "rbn_transplant T (Some y) (Some ?x) m = Inr (T1, m1)"
      "hangs T1 m1 (Ky @ Fr False z c l # K) ry" "same_tree T T1"
      "relinked (insert ?n (set (addrs (plug (Ky @ Fr False z c l # K) ry)))) m m1" by blast
    have n1: "rb_tnil T1 = ?n" using t(3) by (simp add: same_tree_def)
    let ?r' = "plug Ky ry"
    have f1: "focus T1 m1 K (mk False ?r' z c l)"
      using hangsD [OF t(2)] focus_plug [of T1 m1 K] focus_plug [of T1 m1 "Ky @ Fr False z c l # K"] by (simp add: plug_append)
    note F1 = f1 [unfolded focus_def Let_def n1, simplified, simplified Int_Un_distrib Int_Un_distrib2 Un_empty conj_assoc]
    let ?m2 = "cell_upd m1 y (set_child False (Some (root_of ?n ?r')) (struct_at m1 y))"
    let ?m3 = "adopt y ?r' ?m2"
    have r': "?r' \<noteq> Lf" using set_plug [of Kq "plug1 (Fr True q e u) ry"] by (auto simp: Ky)
    have y1: "cell m1 y" "y \<noteq> z" "y \<notin> set (addrs ?r')" "y \<notin> set (addrs l)" "y \<notin> set (caddrs K)" "y \<noteq> ?n"
      using relinked_cell [OF t(4)] F D by (auto simp: set_plug)
    have z1: "cell m1 z" "child False (struct_at m1 z) = Some (root_of ?n ?r')" using F1 by simp_all
    have a: "rb_st (set_parent (Some y)) ?m2 (Some (root_of ?n ?r')) = Inr ?m3"
      by (rule adopt_step [OF r']) (use F1 in auto)
    have "q \<in> set (addrs ?r)" using S by (simp add: Ky)
    then have "ctop z Ky \<noteq> z" using F Ky by auto
    then have "go = Inr (T1, ?m3)"
      using t(1) z1 y1 a by (simp add: go_def rb_run child_eta rb_st_cell)
    moreover have "ready T1 ?m3 K l z c y ?r'"
      using F1 l y1 by (auto simp: ready_def Let_def n1)
    moreover have "relinked ?S m ?m3"
    proof (rule relinked_adopt, rule relinked_upd)
      show "relinked ?S m m1"
        by (rule relinked_mono [OF t(4)]) (use S in \<open>auto simp: set_plug\<close>)
    qed (use F S in \<open>auto simp: set_plug\<close>)
    moreover have "ry \<noteq> Lf \<or> rb_parent (struct_at ?m3 ?n) = Some (ctop ?n (Ky @ Fr False y c l # K))"
      using hangs_nil [OF t(2)] F1 y1 by (auto simp: n1 Ky)
    ultimately show ?thesis using t(3) by blast
  qed
  then obtain T1 m1 where 1: "go = Inr (T1, m1)" "ready T1 m1 K l z c y (plug Ky ry)" "same_tree T T1" "relinked ?S m m1"
    "ry \<noteq> Lf \<or> rb_parent (struct_at m1 ?n) = Some (ctop ?n (Ky @ Fr False y c l # K))" by blast
  from take_place_ok [OF 1(2)] obtain T' m' where 2: "take_place (Some z) (Some y) T1 m1 = Inr (T', m')"
    "focus T' m' K (mk False (plug Ky ry) y c l)" "same_tree T1 T'" "relinked (insert y (set (addrs l) \<union> set (caddrs K))) m1 m'"
    "struct_at m' (rb_tnil T1) = struct_at m1 (rb_tnil T1)" by blast
  have n: "rb_tnil T1 = ?n" "rb_tnil T' = ?n" using 1(3) 2(3) by (simp_all add: same_tree_def)
  have "focus T' m' (Ky @ Fr False y c l # K) ry"
    using 2(2) focus_plug [of T' m' K] focus_plug [of T' m' "Ky @ Fr False y c l # K"] by (simp add: plug_append)
  then have "hangs T' m' (Ky @ Fr False y c l # K) ry"
    using 1(5) 2(5) n by (intro hangsI) auto
  moreover have "relinked ?S m m'"
    using relinked_trans [OF 1(4) relinked_mono [OF 2(4)]] S by (auto simp: set_plug)
  moreover have "same_tree T T'" using same_tree_trans [OF 1(3) 2(3)] .
  ultimately show ?thesis using run 1(1) 2(1) by auto
qed

section \<open>All cases\<close>

text \<open>Colours do not depend on addresses.\<close>

lemma cgood_rename: "cgood (K @ Fr d z c l # K') n = cgood (K @ Fr d y c l # K') n"
proof (induction K arbitrary: n)
  case (Cons F K)
  have "cblack (K @ Fr d z c l # K') = cblack (K @ Fr d y c l # K')" by (cases K; cases "hd K") auto
  with Cons show ?case by (cases F) auto
qed simp

lemma rbt_ok_plug_cong:
  assumes "\<forall>n. good t n = good t' n" "black_root t = black_root t'"
  shows "rbt_ok (plug K t) = rbt_ok (plug K t')"
  using assms
proof (induction K arbitrary: t t')
  case Nil
  then show ?case by (simp add: rbt_ok_def)
next
  case (Cons F K)
  obtain d a c s where F: "F = Fr d a c s" by (cases F)
  have "rbt_ok (plug K (mk d t a c s)) = rbt_ok (plug K (mk d t' a c s))"
    by (rule Cons.IH) (use Cons.prems in \<open>cases c; auto\<close>)+
  then show ?case by (simp add: F)
qed

lemma unlink_colours_two:
  assumes "rbt_ok (plug K (mk False (plug Ky (mk True Lf y cy ry)) z c l))"
  shows "if cy then (\<exists>n. pending (Ky @ Fr False y c l # K) ry n) \<or> settled (Ky @ Fr False y c l # K) ry
    else rbt_ok (plug (Ky @ Fr False y c l # K) ry)"
proof -
  have "rbt_ok (plug (Ky @ Fr False z c l # K) (mk True Lf y cy ry))"
    using assms by (simp add: plug_append)
  note u = unlink_colours [OF this]
  have "rbt_ok (plug (Ky @ Fr False z c l # K) ry) = rbt_ok (plug (Ky @ Fr False y c l # K) ry)"
    by (simp add: plug_append, rule rbt_ok_plug_cong; cases c; simp)
  moreover have "pending (Ky @ Fr False z c l # K) = pending (Ky @ Fr False y c l # K)"
    "settled (Ky @ Fr False z c l # K) = settled (Ky @ Fr False y c l # K)"
    by (simp_all add: fun_eq_iff pending_def settled_def cgood_rename [of Ky False z c l K _ y])
  ultimately show ?thesis using u by (cases cy) simp_all
qed

lemma unlink_ok:
  assumes f: "focus T m K (mk False r z c l)" and ok: "rbt_ok (plug K (mk False r z c l))"
  shows "\<exists>b T' m' K' t'. rbt_unlink T (Some z) m = Inr (b, Some (root_of (rb_tnil T) t'), T', m') \<and> hangs T' m' K' t' \<and> same_tree T T'
    \<and> addrs (plug K' t') = removeAll z (addrs (plug K (mk False r z c l)))
    \<and> relinked (insert (rb_tnil T) (set (addrs (plug K (mk False r z c l))))) m m'
    \<and> (if b then (\<exists>n. pending K' t' n) \<or> settled K' t' else rbt_ok (plug K' t'))"
proof -
  let ?n = "rb_tnil T" and ?S = "insert (rb_tnil T) (set (addrs (plug K (mk False r z c l))))"
  note z = focus_child [OF f, unfolded not_False_eq_True]
  have fresh: "z \<notin> set (addrs l)" "z \<notin> set (addrs r)" "z \<notin> set (caddrs_l K)" "z \<notin> set (caddrs_r K)"
    using f by (auto simp: focus_def Let_def set_caddrs)
  then have A: "removeAll z (addrs (plug K (mk False r z c l))) = caddrs_l K @ addrs l @ addrs r @ caddrs_r K"
    by (simp add: addrs_plug addrs_mk)
  have l0: "root_of ?n l = ?n \<longleftrightarrow> l = Lf" "root_of ?n r = ?n \<longleftrightarrow> r = Lf"
    using f by (cases l; cases r; auto simp: focus_def Let_def)+
  have one: ?thesis if t: "mk False r z c l = mk d Lf z c s" "rbt_unlink T (Some z) m
      = bindr (rbn_transplant T (Some z) (Some (root_of ?n s)) m) (\<lambda>(T, m). Inr (c, Some (root_of ?n s), T, m))"
      and a: "addrs s = addrs l @ addrs r" for d s
  proof -
    from transplant_child [OF f [unfolded t(1)]] obtain T' m' where o:
      "rbn_transplant T (Some z) (Some (root_of ?n s)) m = Inr (T', m')" "hangs T' m' K s" "same_tree T T'"
      "relinked (insert ?n (set (addrs (plug K s)))) m m'" by blast
    have "rbt_unlink T (Some z) m = Inr (c, Some (root_of ?n s), T', m')" using t(2) o(1) by simp
    moreover have "addrs (plug K s) = removeAll z (addrs (plug K (mk False r z c l)))" using A a by (simp add: addrs_plug)
    moreover have "relinked ?S m m'" by (rule relinked_mono [OF o(4)]) (auto simp: set_plug a)
    moreover have "if c then (\<exists>n. pending K s n) \<or> settled K s else rbt_ok (plug K s)"
      using unlink_colours [OF ok [unfolded t(1)]] .
    ultimately show ?thesis using o(2,3) by blast
  qed
  show ?thesis
  proof (cases "l = Lf")
    case True
    show ?thesis
      by (rule one [of True r]) (use True z in \<open>simp_all add: mk_def rbt_unlink_def rb_run child_eta\<close>)
  next
    case l: False
    show ?thesis
    proof (cases "r = Lf")
      case True
      show ?thesis
        by (rule one [of False l]) (use True l l0 z in \<open>simp_all add: mk_def rbt_unlink_def rb_run child_eta\<close>)
    next
      case False
      then obtain Ky y cy ry where r: "r = plug Ky (mk True Lf y cy ry)" "spine True Ky" using spine_ex by blast
      from unlink_two_ok [OF f [unfolded r(1)] l r(2)] obtain T' m' where o:
        "rbt_unlink_two T (Some z) m = Inr (cy, Some (root_of ?n ry), T', m')" "hangs T' m' (Ky @ Fr False y c l # K) ry"
        "same_tree T T'" "relinked ?S m m'" unfolding r(1) by blast
      have "rbt_unlink T (Some z) m = Inr (cy, Some (root_of ?n ry), T', m')"
        using o(1) l False l0 z by (simp add: rbt_unlink_def rb_run child_eta)
      moreover have "addrs (plug (Ky @ Fr False y c l # K) ry) = removeAll z (addrs (plug K (mk False r z c l)))"
        unfolding A using spine_addrs [OF r(2)] by (simp add: addrs_plug plug_append addrs_mk r(1))
      ultimately show ?thesis using o(2,3,4) unlink_colours_two [OF ok [unfolded r(1)]] by blast
    qed
  qed
qed

end
