(* ===== verification/TT_RBTree_Ops.thy ===== *)
theory TT_RBTree_Ops
  imports TT_RBTree_Unlink "HOL-Library.List_Lexorder"
begin

text \<open>
  The operations of the red-black tree against the list of its nodes in order: adding, removing, searching and
  walking, for every comparison function that is an order on keys. The default comparison is one: it orders by length
  first and then by bytes.
\<close>

section \<open>Subtrees and lists\<close>

definition subtree :: "'z tt_rbtree \<Rightarrow> 'z rbstore \<Rightarrow> nat \<Rightarrow> rbt \<Rightarrow> bool" where
  "subtree T m p t \<longleftrightarrow> tree_at (rb_tnil T) (struct_at m) p t \<and> rb_tnil T \<notin> set (addrs t) \<and> (\<forall>a \<in> set (addrs t). cell m a)"

lemma subtree_Nd: "subtree T m p (Nd l a c r) \<longleftrightarrow> rb_parent (struct_at m a) = Some p \<and> rb_left (struct_at m a) = Some (root_of (rb_tnil T) l)
    \<and> rb_right (struct_at m a) = Some (root_of (rb_tnil T) r) \<and> rb_black (struct_at m a) = c \<and> a \<noteq> rb_tnil T \<and> cell m a
    \<and> subtree T m a l \<and> subtree T m a r"
  by (auto simp: subtree_def)

text \<open>On which side of its parent a hole is.\<close>

definition hole_side :: "ctx \<Rightarrow> bool option" where
  "hole_side K = (case K of [] \<Rightarrow> None | Fr d a c s # _ \<Rightarrow> Some d)"

lemma hole_side_simps [simp]: "hole_side [] = None" "hole_side (Fr d a c s # K) = Some d"
  by (simp_all add: hole_side_def)

lemma find_append: "List.find P (xs @ ys) = (case List.find P xs of None \<Rightarrow> List.find P ys | Some x \<Rightarrow> Some x)"
  by (induction xs) auto

section \<open>Comparison functions\<close>

type_synonym 'z ndata = "u8 list option \<times> u32 \<times> 'z"

text \<open>
  What the tree relies on in \<^verbatim>\<open>cmpkey\<close>: on nodes and keys that are \<open>valid\<close> it compares their ranks in a linear order.
  It looks at the key and the caller's struct only, and a node that is given a key has the rank of the key.
\<close>

definition rank_at :: "('z ndata \<Rightarrow> 'k) \<Rightarrow> 'z rbstore \<Rightarrow> nat \<Rightarrow> 'k" where
  "rank_at nr m a = nr (node_data (struct_at m a))"

definition rb_ordered ::
  "'z cmpkey \<Rightarrow> ('z ndata \<Rightarrow> bool) \<Rightarrow> ('z ndata \<Rightarrow> 'k :: linorder) \<Rightarrow> 'z tt_rbtree \<Rightarrow> 'z rbstore \<Rightarrow> nat list \<Rightarrow> bool" where
  "rb_ordered cmp nv nr T m xs \<longleftrightarrow>
     rb_cmpkey T = cmp \<and> (\<forall>a \<in> set xs. nv (node_data (struct_at m a))) \<and> sorted (map (rank_at nr m) xs)"

locale key_order =
  fixes cmp :: "'z cmpkey" and valid :: "u8 list \<Rightarrow> u32 \<Rightarrow> bool" and key_rank :: "u8 list \<Rightarrow> u32 \<Rightarrow> 'k :: linorder"
    and node_valid :: "'z ndata \<Rightarrow> bool" and node_rank :: "'z ndata \<Rightarrow> 'k"
  assumes compares: "node_valid (node_data n) \<Longrightarrow> valid key len \<Longrightarrow>
      \<exists>r. cmp n key len = Inr r \<and> (r > 0 \<longleftrightarrow> node_rank (node_data n) > key_rank key len)
        \<and> (r = 0 \<longleftrightarrow> node_rank (node_data n) = key_rank key len)"
    and takes_key: "valid key len \<Longrightarrow> node_valid (Some key, len, c) \<and> node_rank (Some key, len, c) = key_rank key len"
begin

abbreviation "rk \<equiv> rank_at node_rank"
abbreviation "ordered \<equiv> rb_ordered cmp node_valid node_rank"

lemma orderedD: "ordered T m xs \<Longrightarrow> rb_cmpkey T = cmp" "ordered T m xs \<Longrightarrow> a \<in> set xs \<Longrightarrow> node_valid (node_data (struct_at m a))"
  by (simp_all add: rb_ordered_def)

lemma cmp_at:
  assumes "cell m a" "rb_cmpkey T = cmp" "node_valid (node_data (struct_at m a))" "valid key len"
  obtains (greater) r where "rbt_cmp T (Some a) key len m = Inr r" "r > 0" "rk m a > key_rank key len"
  | (equal) "rbt_cmp T (Some a) key len m = Inr 0" "rk m a = key_rank key len"
  | (less) r where "rbt_cmp T (Some a) key len m = Inr r" "r < 0" "rk m a < key_rank key len"
proof -
  obtain r where r: "cmp (struct_at m a) key len = Inr r" "r > 0 \<longleftrightarrow> rk m a > key_rank key len"
    "r = 0 \<longleftrightarrow> rk m a = key_rank key len" using compares [OF assms(3,4)] by (auto simp: rank_at_def)
  have "rbt_cmp T (Some a) key len m = Inr r" using assms(1,2) r(1) by (simp add: rbt_cmp_def rb_run)
  with r that show thesis by (cases "r > 0"; cases "r = 0"; force)
qed

lemma ordered_same:
  assumes "ordered T m xs" "same_tree T T'" "\<And>a. a \<in> set xs \<Longrightarrow> node_data (struct_at m' a) = node_data (struct_at m a)"
  shows "ordered T' m' xs"
proof -
  have "map (rk m') xs = map (rk m) xs" using assms(3) by (simp add: rank_at_def)
  with assms show ?thesis by (simp add: rb_ordered_def same_tree_def del: map_eq_conv)
qed

section \<open>Searching\<close>

lemma ordered_Nd: "ordered T m (addrs (Nd l a c r)) \<longleftrightarrow> ordered T m (addrs l) \<and> ordered T m (addrs r)
    \<and> node_valid (node_data (struct_at m a)) \<and> (\<forall>b \<in> set (addrs l). rk m b \<le> rk m a) \<and> (\<forall>b \<in> set (addrs r). rk m a \<le> rk m b)"
  by (auto simp: rb_ordered_def sorted_append intro: order_trans)

lemma find_loop_ok:
  assumes "subtree T m p t" "ordered T m (addrs t)" "valid key len"
  shows "\<exists>r. rbt_find_loop T (Some (root_of (rb_tnil T) t)) key len m = Some (Inr r)
    \<and> (case r of None \<Rightarrow> \<forall>a \<in> set (addrs t). rk m a \<noteq> key_rank key len
       | Some a \<Rightarrow> a \<in> set (addrs t) \<and> rk m a = key_rank key len)"
  using assms
proof (induction t arbitrary: p)
  case Lf
  then show ?case by (subst rbt_find_loop.simps) simp
next
  case (Nd l a c r)
  note S = Nd.prems(1) [unfolded subtree_Nd] and O = Nd.prems(2) [unfolded ordered_Nd]
  have a: "cell m a" "rb_cmpkey T = cmp" "node_valid (node_data (struct_at m a))" using S O by (auto simp: rb_ordered_def)
  from a Nd.prems(3) show ?case
  proof (cases rule: cmp_at)
    case (greater k)
    from S O Nd.IH(1) [of a] Nd.prems(3) obtain q where q: "rbt_find_loop T (Some (root_of (rb_tnil T) l)) key len m = Some (Inr q)"
      "case q of None \<Rightarrow> \<forall>a \<in> set (addrs l). rk m a \<noteq> key_rank key len | Some a \<Rightarrow> a \<in> set (addrs l) \<and> rk m a = key_rank key len"
      by blast
    with S greater show ?thesis
      using O by (subst rbt_find_loop.simps) (auto simp: rb_run split: option.splits)
  next
    case equal
    with S show ?thesis by (subst rbt_find_loop.simps) simp
  next
    case (less k)
    from S O Nd.IH(2) [of a] Nd.prems(3) obtain q where q: "rbt_find_loop T (Some (root_of (rb_tnil T) r)) key len m = Some (Inr q)"
      "case q of None \<Rightarrow> \<forall>a \<in> set (addrs r). rk m a \<noteq> key_rank key len | Some a \<Rightarrow> a \<in> set (addrs r) \<and> rk m a = key_rank key len"
      by blast
    with S less show ?thesis
      using O by (subst rbt_find_loop.simps) (auto simp: rb_run split: option.splits)
  qed
qed

text \<open>The first node above and the last node below a key.\<close>

lemma gteq_loop_ok:
  assumes "subtree T m p t" "ordered T m (addrs t)" "valid key len"
  shows "\<exists>r. rbt_gteq_loop T (Some (root_of (rb_tnil T) t)) g key len m = Some (Inr r)
    \<and> ((\<exists>a \<in> set (addrs t). r = Some a \<and> rk m a = key_rank key len)
      \<or> (\<forall>a \<in> set (addrs t). rk m a \<noteq> key_rank key len)
        \<and> r = (case List.find (\<lambda>a. key_rank key len < rk m a) (addrs t) of None \<Rightarrow> g | Some a \<Rightarrow> Some a))"
  using assms
proof (induction t arbitrary: p g)
  case Lf
  then show ?case by (subst rbt_gteq_loop.simps) simp
next
  case (Nd l a c r)
  note S = Nd.prems(1) [unfolded subtree_Nd] and O = Nd.prems(2) [unfolded ordered_Nd]
  have a: "cell m a" "rb_cmpkey T = cmp" "node_valid (node_data (struct_at m a))" using S O by (auto simp: rb_ordered_def)
  from a Nd.prems(3) show ?case
  proof (cases rule: cmp_at)
    case (greater k)
    have r: "\<forall>b \<in> set (addrs r). key_rank key len < rk m b" using O greater(3) by auto
    from S O Nd.IH(1) [of a "Some a"] Nd.prems(3) obtain q where
      q: "rbt_gteq_loop T (Some (root_of (rb_tnil T) l)) (Some a) key len m = Some (Inr q)"
      "(\<exists>b \<in> set (addrs l). q = Some b \<and> rk m b = key_rank key len)
      \<or> (\<forall>b \<in> set (addrs l). rk m b \<noteq> key_rank key len)
        \<and> q = (case List.find (\<lambda>b. key_rank key len < rk m b) (addrs l) of None \<Rightarrow> Some a | Some b \<Rightarrow> Some b)"
      by blast
    have "rbt_gteq_loop T (Some a) g key len m = Some (Inr q)"
      using S greater q(1) by (subst rbt_gteq_loop.simps) (simp add: rb_run)
    with q(2) r greater(3) show ?thesis
      by (auto simp: find_append split: option.splits)
  next
    case equal
    with S show ?thesis by (subst rbt_gteq_loop.simps) auto
  next
    case (less k)
    have l: "\<forall>b \<in> set (addrs l). rk m b < key_rank key len" using O less(3) by auto
    then have nl: "List.find (\<lambda>b. key_rank key len < rk m b) (addrs l) = None" by (auto simp: find_None_iff)
    from S O Nd.IH(2) [of a g] Nd.prems(3) obtain q where
      q: "rbt_gteq_loop T (Some (root_of (rb_tnil T) r)) g key len m = Some (Inr q)"
      "(\<exists>b \<in> set (addrs r). q = Some b \<and> rk m b = key_rank key len)
      \<or> (\<forall>b \<in> set (addrs r). rk m b \<noteq> key_rank key len)
        \<and> q = (case List.find (\<lambda>b. key_rank key len < rk m b) (addrs r) of None \<Rightarrow> g | Some b \<Rightarrow> Some b)"
      by blast
    have "rbt_gteq_loop T (Some a) g key len m = Some (Inr q)"
      using S less q(1) by (subst rbt_gteq_loop.simps) (simp add: rb_run)
    with q(2) l nl less(3) show ?thesis
      by (auto simp: find_append)
  qed
qed

lemma lteq_loop_ok:
  assumes "subtree T m p t" "ordered T m (addrs t)" "valid key len"
  shows "\<exists>r. rbt_lteq_loop T (Some (root_of (rb_tnil T) t)) g key len m = Some (Inr r)
    \<and> ((\<exists>a \<in> set (addrs t). r = Some a \<and> rk m a = key_rank key len)
      \<or> (\<forall>a \<in> set (addrs t). rk m a \<noteq> key_rank key len)
        \<and> r = (case List.find (\<lambda>a. rk m a < key_rank key len) (rev (addrs t)) of None \<Rightarrow> g | Some a \<Rightarrow> Some a))"
  using assms
proof (induction t arbitrary: p g)
  case Lf
  then show ?case by (subst rbt_lteq_loop.simps) simp
next
  case (Nd l a c r)
  note S = Nd.prems(1) [unfolded subtree_Nd] and O = Nd.prems(2) [unfolded ordered_Nd]
  have a: "cell m a" "rb_cmpkey T = cmp" "node_valid (node_data (struct_at m a))" using S O by (auto simp: rb_ordered_def)
  from a Nd.prems(3) show ?case
  proof (cases rule: cmp_at)
    case (less k)
    have l: "\<forall>b \<in> set (addrs l). rk m b < key_rank key len" using O less(3) by auto
    from S O Nd.IH(2) [of a "Some a"] Nd.prems(3) obtain q where
      q: "rbt_lteq_loop T (Some (root_of (rb_tnil T) r)) (Some a) key len m = Some (Inr q)"
      "(\<exists>b \<in> set (addrs r). q = Some b \<and> rk m b = key_rank key len)
      \<or> (\<forall>b \<in> set (addrs r). rk m b \<noteq> key_rank key len)
        \<and> q = (case List.find (\<lambda>b. rk m b < key_rank key len) (rev (addrs r)) of None \<Rightarrow> Some a | Some b \<Rightarrow> Some b)"
      by blast
    have "rbt_lteq_loop T (Some a) g key len m = Some (Inr q)"
      using S less q(1) by (subst rbt_lteq_loop.simps) (simp add: rb_run)
    with q(2) l less(3) show ?thesis
      by (auto simp: find_append split: option.splits)
  next
    case equal
    with S show ?thesis by (subst rbt_lteq_loop.simps) auto
  next
    case (greater k)
    have r: "\<forall>b \<in> set (addrs r). key_rank key len < rk m b" using O greater(3) by auto
    then have nr: "List.find (\<lambda>b. rk m b < key_rank key len) (rev (addrs r)) = None" by (auto simp: find_None_iff)
    from S O Nd.IH(1) [of a g] Nd.prems(3) obtain q where
      q: "rbt_lteq_loop T (Some (root_of (rb_tnil T) l)) g key len m = Some (Inr q)"
      "(\<exists>b \<in> set (addrs l). q = Some b \<and> rk m b = key_rank key len)
      \<or> (\<forall>b \<in> set (addrs l). rk m b \<noteq> key_rank key len)
        \<and> q = (case List.find (\<lambda>b. rk m b < key_rank key len) (rev (addrs l)) of None \<Rightarrow> g | Some b \<Rightarrow> Some b)"
      by blast
    have "rbt_lteq_loop T (Some a) g key len m = Some (Inr q)"
      using S greater q(1) by (subst rbt_lteq_loop.simps) (simp add: rb_run)
    with q(2) r nr greater(3) show ?thesis
      by (auto simp: find_append)
  qed
qed

section \<open>Adding\<close>

lemma place_loop_ok:
  assumes "focus T m K t" "ordered T m (addrs (plug K t))" "valid key len"
    "\<forall>a \<in> set (caddrs_l K). rk m a \<le> key_rank key len" "\<forall>a \<in> set (caddrs_r K). key_rank key len < rk m a"
  shows "\<exists>K'. rbt_place_loop T (Some (root_of (rb_tnil T) t)) (Some (ctop (rb_tnil T) K)) (hole_side K) key len m
      = Some (Inr (Some (ctop (rb_tnil T) K'), hole_side K')) \<and> plug K' Lf = plug K t
    \<and> (\<forall>a \<in> set (caddrs_l K'). rk m a \<le> key_rank key len) \<and> (\<forall>a \<in> set (caddrs_r K'). key_rank key len < rk m a)"
  using assms
proof (induction t arbitrary: K)
  case Lf
  then show ?case by (subst rbt_place_loop.simps) auto
next
  case (Nd l a c r)
  have O: "ordered T m (addrs (Nd l a c r))" using Nd.prems(2) by (auto simp: rb_ordered_def addrs_plug sorted_append)
  then have le: "\<forall>b \<in> set (addrs l). rk m b \<le> rk m a" "\<forall>b \<in> set (addrs r). rk m a \<le> rk m b"
    unfolding ordered_Nd by auto
  have F: "cell m a" "a \<noteq> rb_tnil T" "rb_left (struct_at m a) = Some (root_of (rb_tnil T) l)" "rb_right (struct_at m a) = Some (root_of (rb_tnil T) r)"
    using Nd.prems(1) by (auto simp: focus_def Let_def)
  have fl: "focus T m (Fr True a c r # K) l" and fr: "focus T m (Fr False a c l # K) r"
    using Nd.prems(1) by (simp_all add: focus_up mk_def)
  have pl: "plug (Fr True a c r # K) l = plug K (Nd l a c r)" "plug (Fr False a c l # K) r = plug K (Nd l a c r)"
    by (simp_all add: mk_def)
  have "rb_cmpkey T = cmp" "node_valid (node_data (struct_at m a))" using O by (auto simp: rb_ordered_def)
  from F(1) this Nd.prems(3) show ?case
  proof (cases rule: cmp_at)
    case (greater k)
    have "\<forall>b \<in> set (caddrs_r (Fr True a c r # K)). key_rank key len < rk m b"
      using Nd.prems(5) le(2) greater(3) by auto
    from Nd.IH(1) [OF fl _ Nd.prems(3) _ this] Nd.prems(2,4) pl(1) F greater show ?thesis
      by (subst rbt_place_loop.simps) (simp add: rb_run)
  next
    case equal
    have "\<forall>b \<in> set (caddrs_l (Fr False a c l # K)). rk m b \<le> key_rank key len"
      using Nd.prems(4) le(1) equal(2) by auto
    from Nd.IH(2) [OF fr _ Nd.prems(3) this] Nd.prems(2,5) pl(2) F equal show ?thesis
      by (subst rbt_place_loop.simps) (simp add: rb_run)
  next
    case (less k)
    have "\<forall>b \<in> set (caddrs_l (Fr False a c l # K)). rk m b \<le> key_rank key len"
      using Nd.prems(4) le(1) less(3) by auto
    from Nd.IH(2) [OF fr _ Nd.prems(3) this] Nd.prems(2,5) pl(2) F less show ?thesis
      by (subst rbt_place_loop.simps) (simp add: rb_run)
  qed
qed

end

text \<open>A new red node in an empty place.\<close>

definition hung :: "u8 list \<Rightarrow> u32 \<Rightarrow> nat \<Rightarrow> ctx \<Rightarrow> 'z tt_rbtree \<Rightarrow> 'z rbstore \<Rightarrow> 'z tt_rbtree \<times> 'z rbstore" where
  "hung key len z K T m =
     (put_T K z T, cell_upd (put_m K z m) z
       ((struct_at m z)\<lparr>rb_parent := Some (ctop (rb_tnil T) K), rb_left := tnil T, rb_right := tnil T,
          rb_key := Some key, rb_klen := len, rb_black := False\<rparr>))"

lemma hung_focus:
  assumes "focus T m K Lf" "cell m z" "z \<notin> set (caddrs K)" "z \<noteq> rb_tnil T" "hung key len z K T m = (T', m')"
  shows "focus T' m' K (Nd Lf z False Lf)"
proof -
  have c: "ctx_at (rb_tnil T) (struct_at m) (rb_root T) K (rb_tnil T)" using assms(1) by (simp add: focus_def Let_def)
  have "ctx_at (rb_tnil T) (struct_at (put_m K z m)) (rb_root (put_T K z T)) K z"
    by (rule ctx_at_put [OF c]) (use assms(1) in \<open>simp add: focus_def Let_def\<close>)
  then show ?thesis using assms by (auto simp: focus_def Let_def hung_def)
qed

lemma cell_upd_again:
  "cell_upd (cell_upd m a x) a y = cell_upd m a y"
  "a \<noteq> b \<Longrightarrow> cell_upd (cell_upd (cell_upd m a x) b w) a y = cell_upd (cell_upd m b w) a y"
  by (auto simp: cell_upd_def fun_upd_twist)

lemma add_writes:
  assumes f: "focus T m K Lf" and z: "cell m z" "z \<notin> set (caddrs K)" "z \<noteq> rb_tnil T" "rb_parent (struct_at m z) = None"
    and place: "rbt_place_loop T (rb_root T) (tnil T) None key len m = Some (Inr (Some (ctop (rb_tnil T) K), hole_side K))"
  shows "tt_rbtree_add key len (Some z) T m =
    bindr (rbt_add_fixup (fst (hung key len z K T m)) (Some z) (snd (hung key len z K T m)))
      (\<lambda>(T, m). Inr (T\<lparr>rb_count := rb_count T + 1\<rparr>, m))"
proof (cases K)
  case Nil
  with place z show ?thesis
    by (simp add: tt_rbtree_add_def rb_run rb_st_cell hung_def put_T_def put_m_def cell_upd_again
        set_parent_def set_left_def set_right_def)
next
  case (Cons F K')
  obtain d q c s where F: "F = Fr d q c s" by (cases F)
  have q: "cell m q" "q \<noteq> rb_tnil T" "q \<noteq> z" using f z Cons F by (auto simp: focus_def Let_def)
  show ?thesis
    using place z q Cons F
    by (cases d) (simp_all add: tt_rbtree_add_def rb_run rb_st_cell hung_def put_T_def put_m_def cell_upd_again
        set_parent_def set_left_def set_right_def set_child_def)
qed

end
