(* ===== verification/TT_RBTree_Refine.thy ===== *)
theory TT_RBTree_Refine
  imports TT_RBTree_Ops
begin

text \<open>
  The red-black tree as the list of its nodes in order: addition, removal and the walk along the nodes, with the
  colours restored and nothing else of the store touched.
\<close>

section \<open>The invariant\<close>

definition rbtree_inv :: "'z tt_rbtree \<Rightarrow> 'z rbstore \<Rightarrow> nat list \<Rightarrow> bool" where
  "rbtree_inv T m xs \<longleftrightarrow> (\<exists>t. focus T m [] t \<and> rbt_ok t \<and> addrs t = xs) \<and> rb_count T = of_nat (length xs)"

lemma rbtree_invI:
  "focus T m [] t \<Longrightarrow> rbt_ok t \<Longrightarrow> addrs t = xs \<Longrightarrow> c = of_nat (length xs) \<Longrightarrow> rbtree_inv (T\<lparr>rb_count := c\<rparr>) m xs"
  by (auto simp: rbtree_inv_def focus_def Let_def)

definition only_nodes :: "nat set \<Rightarrow> 'z rbstore \<Rightarrow> 'z rbstore \<Rightarrow> bool" where
  "only_nodes S m m' \<longleftrightarrow> mem_heap m' = mem_heap m \<and> cell m' = cell m \<and> (\<forall>a. a \<notin> S \<longrightarrow> mem_blocks m' a = mem_blocks m a)"

lemma only_nodes_relinked: "relinked S m m' \<Longrightarrow> only_nodes S m m'"
  by (simp add: only_nodes_def relinked_def)

lemma only_nodes_trans: "only_nodes S m m1 \<Longrightarrow> only_nodes S m1 m2 \<Longrightarrow> only_nodes S m m2"
  by (simp add: only_nodes_def)

lemma only_nodes_mono: "only_nodes S m m' \<Longrightarrow> S \<subseteq> S' \<Longrightarrow> only_nodes S' m m'"
  by (auto simp: only_nodes_def)

lemma only_nodes_upd: "only_nodes S m m1 \<Longrightarrow> cell m a \<Longrightarrow> a \<in> S \<Longrightarrow> only_nodes S m (cell_upd m1 a n)"
  by (auto simp: only_nodes_def fun_eq_iff cell_upd_def [of m1 a n] struct_at_def cell_def)

lemma put_m_data [simp]: "node_data (struct_at (put_m K z m) a) = node_data (struct_at m a)"
  by (cases K; cases "hd K"; auto simp: put_m_def)

section \<open>Adding\<close>

lemma paint_root:
  assumes "focus T m [] t" "t \<noteq> Lf"
  shows "rb_st (set_black True) m (rb_root T) = Inr (paint (root_of (rb_tnil T) t) True m)
    \<and> focus T (paint (root_of (rb_tnil T) t) True m) [] (blacken t) \<and> relinked (set (addrs t)) m (paint (root_of (rb_tnil T) t) True m)"
proof -
  obtain s a c u where t: "t = mk True s a c u" using assms(2) rbt_mk_cases [of t] by blast
  have a: "cell m a" using focus_child [of T m "[]" True s a c u] assms(1) t by simp
  show ?thesis
    using focus_paint [of T m "[]" True s a c u True] focus_root [OF assms(1)] assms(1) a
    by (simp add: t rb_run relinked_paint)
qed

lemma rbt_ok_blacken: "good t n \<Longrightarrow> rbt_ok (blacken t)"
  using good_blacken [of t n] blacken_id [of t] by (cases "black_root t") (auto simp: rbt_ok_def)

lemma rbt_ok_hole: "rbt_ok (plug K Lf) \<Longrightarrow> cgood K 0"
  using rbt_ok_plugD [of K Lf] by auto

lemma add_fixup_ok:
  assumes f: "focus T m K (Nd Lf z False Lf)" and g: "cgood K 0"
  shows "\<exists>T' m' t'. rbt_add_fixup T (Some z) m = Inr (T', m') \<and> focus T' m' [] t' \<and> rbt_ok t' \<and> same_tree T T'
    \<and> addrs t' = caddrs_l K @ z # caddrs_r K \<and> relinked (set (addrs t')) m m'"
proof -
  let ?t = "plug K (Nd Lf z False Lf)"
  from add_fixup_loop_ok [OF f _ g] obtain T' m' t' where
    o: "rbt_add_fixup_loop T (Some z) m = Some (Inr (T', m'))" "restores T m ?t T' m' t'" by auto
  have r: "focus T' m' [] t'" "addrs t' = caddrs_l K @ z # caddrs_r K" "\<exists>N. good t' N" "same_tree T T'" "relinked (set (addrs t')) m m'"
    using o(2) by (auto simp: restores_def addrs_plug)
  from r(2) have ne: "t' \<noteq> Lf" by auto
  note p = paint_root [OF r(1) ne]
  show ?thesis
    using o(1) p r rbt_ok_blacken [of t'] relinked_trans [OF r(5)] by (auto simp: rbt_add_fixup_def)
qed

context key_order
begin

lemma add_ok:
  assumes inv: "rbtree_inv T m xs" and ord: "ordered T m xs" and v: "valid key len"
    and z: "cell m z" "z \<notin> set xs" "z \<noteq> rb_tnil T" "rb_parent (struct_at m z) = None"
  shows "\<exists>T' m' ys zs. tt_rbtree_add key len (Some z) T m = Inr (T', m') \<and> xs = ys @ zs
    \<and> (\<forall>a \<in> set ys. rk m a \<le> key_rank key len) \<and> (\<forall>a \<in> set zs. key_rank key len < rk m a)
    \<and> rbtree_inv T' m' (ys @ z # zs) \<and> ordered T' m' (ys @ z # zs) \<and> rb_tnil T' = rb_tnil T
    \<and> node_data (struct_at m' z) = (Some key, len, rbnode.more (struct_at m z))
    \<and> (\<forall>a. a \<noteq> z \<longrightarrow> node_data (struct_at m' a) = node_data (struct_at m a)) \<and> only_nodes (insert z (set xs)) m m'"
proof -
  obtain t where t: "focus T m [] t" "rbt_ok t" "addrs t = xs" "rb_count T = of_nat (length xs)"
    using inv by (auto simp: rbtree_inv_def)
  from place_loop_ok [of T m "[]" t key len] t ord v focus_root [OF t(1)] obtain K where
    K: "rbt_place_loop T (rb_root T) (tnil T) None key len m = Some (Inr (Some (ctop (rb_tnil T) K), hole_side K))"
    "plug K Lf = t" "\<forall>a \<in> set (caddrs_l K). rk m a \<le> key_rank key len" "\<forall>a \<in> set (caddrs_r K). key_rank key len < rk m a"
    by auto
  have xs: "xs = caddrs_l K @ caddrs_r K" using t(3) K(2) by (auto simp: addrs_plug)
  have f: "focus T m K Lf" using t(1) K(2) focus_plug [of T m K Lf] by simp
  have zK: "z \<notin> set (caddrs K)" using z(2) xs by (simp add: set_caddrs)
  obtain T1 m1 where h: "hung key len z K T m = (T1, m1)" by (cases "hung key len z K T m")
  note f1 = hung_focus [OF f z(1) zK z(3) h]
  from add_fixup_ok [OF f1] t(2) K(2) rbt_ok_hole obtain T' m' t' where
    a: "rbt_add_fixup T1 (Some z) m1 = Inr (T', m')" "focus T' m' [] t'" "rbt_ok t'" "same_tree T1 T'"
    "addrs t' = caddrs_l K @ z # caddrs_r K" "relinked (set (addrs t')) m1 m'" by blast
  have T1: "same_tree T T1" using h same_tree_put(1) [of T K z] by (simp add: hung_def)
  have st: "same_tree T T'" using same_tree_trans [OF T1 a(4)] .
  have m1: "node_data (struct_at m1 z) = (Some key, len, rbnode.more (struct_at m z))"
    "b \<noteq> z \<Longrightarrow> node_data (struct_at m1 b) = node_data (struct_at m b)" for b
    using h by (auto simp: hung_def) (simp add: node_data_def)
  have data: "node_data (struct_at m' z) = (Some key, len, rbnode.more (struct_at m z))"
    "b \<noteq> z \<Longrightarrow> node_data (struct_at m' b) = node_data (struct_at m b)" for b
    using relinked_data [OF a(6)] m1 by simp_all
  have cells: "\<forall>a \<in> set (caddrs K). cell m a" using f by (auto simp: focus_def Let_def)
  have "only_nodes (insert z (set xs)) m m1"
  proof -
    have "relinked (set (caddrs K)) m (put_m K z m)" by (rule relinked_put) (use cells in auto)
    then have "only_nodes (insert z (set xs)) m (put_m K z m)"
      by (intro only_nodes_mono [OF only_nodes_relinked]) (auto simp: xs set_caddrs)
    then show ?thesis using h z(1) by (auto simp: hung_def intro: only_nodes_upd)
  qed
  then have frame: "only_nodes (insert z (set xs)) m m'"
    by (rule only_nodes_trans) (rule only_nodes_mono [OF only_nodes_relinked [OF a(6)]], use a(5) xs in auto)
  have rank: "rk m' z = key_rank key len" "node_valid (node_data (struct_at m' z))"
    using data(1) takes_key [OF v] by (simp_all add: rank_at_def)
  have other: "rk m' b = rk m b" if "b \<noteq> z" for b using data(2) [OF that] by (simp add: rank_at_def)
  have xz: "z \<notin> set (caddrs_l K)" "z \<notin> set (caddrs_r K)" using zK by (auto simp: set_caddrs)
  have maps: "map (rk m') (caddrs_l K) = map (rk m) (caddrs_l K)" "map (rk m') (caddrs_r K) = map (rk m) (caddrs_r K)"
    by (rule map_cong [OF refl], rule other, use xz in metis)+
  have "sorted (map (rk m') (caddrs_l K))" "sorted (map (rk m') (caddrs_r K))"
    "\<forall>a \<in> set (caddrs_l K). \<forall>b \<in> set (caddrs_r K). rk m a \<le> rk m b"
    unfolding maps using ord by (simp_all add: rb_ordered_def xs sorted_append)
  moreover have "\<forall>a \<in> set (caddrs_l K). rk m' a = rk m a" "\<forall>a \<in> set (caddrs_r K). rk m' a = rk m a"
    using maps by simp_all
  ultimately have "sorted (map (rk m') (caddrs_l K @ z # caddrs_r K))"
    using K(3,4) rank(1) by (auto simp: sorted_append intro: less_imp_le)
  moreover have "node_valid (node_data (struct_at m' b))" if "b \<in> set (caddrs_l K @ z # caddrs_r K)" for b
    using that rank(2) data(2) [of b] ord by (cases "b = z") (auto simp: rb_ordered_def xs)
  ultimately have o: "ordered T' m' (caddrs_l K @ z # caddrs_r K)"
    using ord st by (simp add: rb_ordered_def same_tree_def)
  have run: "tt_rbtree_add key len (Some z) T m = Inr (T'\<lparr>rb_count := rb_count T' + 1\<rparr>, m')"
    using add_writes [OF f z(1) zK z(3,4) K(1)] h a(1) by simp
  have "rbtree_inv (T'\<lparr>rb_count := rb_count T' + 1\<rparr>) m' (caddrs_l K @ z # caddrs_r K)"
    by (rule rbtree_invI [OF a(2,3,5)]) (use st t(4) in \<open>simp add: same_tree_def xs\<close>)
  moreover have "ordered (T'\<lparr>rb_count := rb_count T' + 1\<rparr>) m' (caddrs_l K @ z # caddrs_r K)"
    using o by (simp add: rb_ordered_def)
  moreover have "rb_tnil (T'\<lparr>rb_count := rb_count T' + 1\<rparr>) = rb_tnil T" using st by (simp add: same_tree_def)
  ultimately show ?thesis using run xs K(3,4) data frame by blast
qed

end

section \<open>Removing\<close>

lemma split_at:
  assumes "z \<in> set (addrs t)"
  obtains K l c r where "t = plug K (mk False r z c l)"
proof -
  have "\<exists>K l c r. t = plug K (mk False r z c l)" using assms
  proof (induction t)
    case (Nd l a c r)
    then consider "z = a" | "z \<in> set (addrs l)" | "z \<in> set (addrs r)" by auto
    then show ?case
    proof cases
      case 1
      then show ?thesis by (intro exI [of _ "[]"] exI [of _ l] exI [of _ c] exI [of _ r]) (simp add: mk_def)
    next
      case 2
      with Nd.IH(1) obtain K l' c' r' where "l = plug K (mk False r' z c' l')" by blast
      then have "Nd l a c r = plug (K @ [Fr True a c r]) (mk False r' z c' l')" by (simp add: plug_append mk_def)
      then show ?thesis by blast
    next
      case 3
      with Nd.IH(2) obtain K l' c' r' where "r = plug K (mk False r' z c' l')" by blast
      then have "Nd l a c r = plug (K @ [Fr False a c l]) (mk False r' z c' l')" by (simp add: plug_append mk_def)
      then show ?thesis by blast
    qed
  qed simp
  with that show thesis by blast
qed

lemma good_settled: "settled K t \<Longrightarrow> rbt_ok (plug K (blacken t))"
proof -
  assume "settled K t"
  then obtain n where n: "cgood K n" "good (blacken t) n" by (auto simp: settled_def)
  then show ?thesis using good_plug [of K n "blacken t"] black_plug [of K n "blacken t"] by (auto simp: rbt_ok_def)
qed

lemma remove_fixup_ok:
  assumes h: "hangs T m K t" and s: "(\<exists>n. pending K t n) \<or> settled K t"
  shows "\<exists>T' m' t'. rbt_remove_fixup T (Some (root_of (rb_tnil T) t)) m = Inr (T', m') \<and> focus T' m' [] t' \<and> rbt_ok t'
    \<and> same_tree T T' \<and> addrs t' = addrs (plug K t) \<and> relinked (insert (rb_tnil T) (set (addrs (plug K t)))) m m'"
proof -
  let ?n = "rb_tnil T" and ?S = "insert (rb_tnil T) (set (addrs (plug K t)))"
  have "\<exists>T' m' K' t'. rbt_remove_fixup_loop T (Some (root_of ?n t)) m = Some (Inr (Some (root_of ?n t'), T', m'))
    \<and> mends T m (plug K t) T' m' K' t' \<and> settled K' t'"
  proof (cases "settled K t")
    case True
    have "mends T m (plug K t) T m K t" using h by (simp add: mends_def)
    with remove_fixup_exit [OF h True] True show ?thesis by blast
  next
    case False
    with s remove_fixup_loop_ok [OF h] show ?thesis by blast
  qed
  then obtain T' m' K' t' where o: "rbt_remove_fixup_loop T (Some (root_of ?n t)) m = Some (Inr (Some (root_of ?n t'), T', m'))"
    "mends T m (plug K t) T' m' K' t'" "settled K' t'" by blast
  have o2: "hangs T' m' K' t'" "same_tree T T'" "addrs (plug K' t') = addrs (plug K t)" "relinked (set (addrs (plug K t))) m m'"
    "rb_tnil T' = ?n"
    using o(2) by (auto simp: mends_def same_tree_def)
  let ?m = "paint (root_of ?n t') True m'"
  have c: "cell m' (root_of ?n t')" "root_of ?n t' \<in> ?S"
    using hangs_cell [OF o2(1)] root_of_cases [of ?n t'] o2(3,5) set_plug [of K' t'] by auto
  have "focus T' ?m K' (blacken t')"
  proof (cases t')
    case Lf
    have "struct_at ?m v = struct_at m' v" if "v \<noteq> rb_tnil T'" for v using that o2(5) Lf by simp
    moreover have "rb_tnil T' \<notin> set (caddrs K')" using hangsD [OF o2(1)] by (simp add: focus_def Let_def)
    ultimately have "ctx_at (rb_tnil T') (struct_at ?m) (rb_root T') K' v = ctx_at (rb_tnil T') (struct_at m') (rb_root T') K' v" for v
      by (intro ctx_at_cong) metis
    then show ?thesis using hangsD [OF o2(1)] Lf o2(5) by (auto simp: focus_def Let_def)
  next
    case (Nd l a c r)
    then have "t' = mk True l a c r" by (simp add: mk_def)
    with focus_paint [of T' m' K' True l a c r True] hangsD [OF o2(1)] show ?thesis by simp
  qed
  then have "focus T' ?m [] (plug K' (blacken t'))" by (simp add: focus_plug [of T' ?m K'])
  moreover have "rbt_remove_fixup T (Some (root_of ?n t)) m = Inr (T', ?m)"
    using o(1) c(1) by (simp add: rbt_remove_fixup_def rb_run)
  moreover have "relinked ?S m ?m"
    using relinked_paint [OF relinked_mono [OF o2(4), of ?S], of "root_of ?n t'" True] c relinked_cell [OF o2(4)] by auto
  moreover have "addrs (plug K' (blacken t')) = addrs (plug K t)" using o2(3) by (simp add: addrs_plug)
  ultimately show ?thesis using good_settled [OF o(3)] o2(2) by blast
qed

lemma rbtree_remove_ok:
  assumes inv: "rbtree_inv T m xs" and z: "z \<in> set xs"
  shows "\<exists>T' m'. tt_rbtree_remove (Some z) T m = Inr (T', m') \<and> rbtree_inv T' m' (removeAll z xs)
    \<and> rb_cmpkey T' = rb_cmpkey T \<and> rb_tnil T' = rb_tnil T
    \<and> (\<forall>a. a \<noteq> z \<longrightarrow> node_data (struct_at m' a) = node_data (struct_at m a)) \<and> rb_parent (struct_at m' z) = None
    \<and> only_nodes (insert (rb_tnil T) (set xs)) m m'"
proof -
  let ?S = "insert (rb_tnil T) (set xs)"
  obtain t where t: "focus T m [] t" "rbt_ok t" "addrs t = xs" "rb_count T = of_nat (length xs)"
    using inv by (auto simp: rbtree_inv_def)
  obtain K l c r where K: "t = plug K (mk False r z c l)" using split_at z t(3) by metis
  have f: "focus T m K (mk False r z c l)" using t(1) K focus_plug [of T m K] by simp
  from unlink_ok [OF f] t(2,3) K obtain b T1 m1 K1 t1 where
    u: "rbt_unlink T (Some z) m = Inr (b, Some (root_of (rb_tnil T) t1), T1, m1)" "hangs T1 m1 K1 t1" "same_tree T T1"
    "addrs (plug K1 t1) = removeAll z xs" "relinked ?S m m1"
    "if b then (\<exists>n. pending K1 t1 n) \<or> settled K1 t1 else rbt_ok (plug K1 t1)" by auto
  have n1: "rb_tnil T1 = rb_tnil T" using u(3) by (simp add: same_tree_def)
  have "\<exists>T2 m2 t2. (if b then rbt_remove_fixup T1 (Some (root_of (rb_tnil T) t1)) m1 else Inr (T1, m1)) = Inr (T2, m2)
      \<and> focus T2 m2 [] t2 \<and> rbt_ok t2 \<and> same_tree T1 T2 \<and> addrs t2 = removeAll z xs \<and> relinked ?S m1 m2"
  proof (cases b)
    case True
    with remove_fixup_ok [OF u(2)] u(4,6) n1 show ?thesis by (auto intro: relinked_mono)
  next
    case False
    with u(2,4,6) focus_plug [of T1 m1 K1 t1] show ?thesis by (auto simp: hangs_def)
  qed
  then obtain T2 m2 t2 where v: "(if b then rbt_remove_fixup T1 (Some (root_of (rb_tnil T) t1)) m1 else Inr (T1, m1)) = Inr (T2, m2)"
      "focus T2 m2 [] t2" "rbt_ok t2" "same_tree T1 T2" "addrs t2 = removeAll z xs" "relinked ?S m1 m2" by blast
  let ?e = "(struct_at m2 z)\<lparr>rb_left := None, rb_right := None, rb_parent := None, rb_key := None, rb_klen := 0, rb_black := False\<rparr>"
  have st: "same_tree T T2" using same_tree_trans [OF u(3) v(4)] .
  have rl: "relinked ?S m m2" using relinked_trans [OF u(5) v(6)] .
  have z2: "cell m2 z" "cell m z" "z \<noteq> rb_tnil T" using focus_child [OF f] relinked_cell [OF rl] by auto
  have run: "tt_rbtree_remove (Some z) T m = Inr (T2\<lparr>rb_count := rb_count T2 - 1\<rparr>, cell_upd m2 z ?e)"
    using focus_child [OF f] u(1) v(1) z2
    by (simp add: tt_rbtree_remove_def rb_run tt_rbnode_init_def rb_st_cell cong: if_cong)
  have d: "distinct xs" using t(1,3) by (simp add: focus_def Let_def)
  have "focus T2 (cell_upd m2 z ?e) [] t2"
  proof -
    have "z \<notin> set (addrs t2)" using v(5) by simp
    then show ?thesis using v(2) z2 st by (auto simp: focus_def Let_def same_tree_def)
  qed
  moreover have "rb_count T2 - 1 = of_nat (length (removeAll z xs))"
  proof -
    have "length xs = Suc (length (removeAll z xs))"
      using d z by (simp add: distinct_remove1_removeAll [symmetric] length_remove1) (cases xs; simp)
    with st t(4) show ?thesis by (simp add: same_tree_def)
  qed
  ultimately have "rbtree_inv (T2\<lparr>rb_count := rb_count T2 - 1\<rparr>) (cell_upd m2 z ?e) (removeAll z xs)"
    by (intro rbtree_invI [OF _ v(3,5)])
  moreover have "only_nodes ?S m (cell_upd m2 z ?e)"
    using only_nodes_upd [OF only_nodes_relinked [OF rl] z2(2)] z by simp
  ultimately show ?thesis
    using run st relinked_data [OF rl] by (auto simp: same_tree_def)
qed

end
