(* ===== verification/TT_RBTree_Walk.thy ===== *)
theory TT_RBTree_Walk
  imports TT_RBTree_Refine
begin

text \<open>
  Walking along the red-black tree, the check of its colours, its height, and the comparison function that the tree
  uses unless it is given another.
\<close>

section \<open>From node to node\<close>

lemma up_loop_ok:
  assumes "focus T m K u" "u \<noteq> Lf"
  shows "rbt_up_loop T (child e) (Some (root_of (rb_tnil T) u)) (Some (ctop (rb_tnil T) K)) m
    = Some (Inr (Some (if e then last (rb_tnil T # caddrs_l K) else hd (caddrs_r K @ [rb_tnil T]))))"
  using assms
proof (induction K arbitrary: u)
  case Nil
  then show ?case by (subst rbt_up_loop.simps) simp
next
  case (Cons F K)
  let ?z = "rb_tnil T"
  obtain d p c s where F: "F = Fr d p c s" by (cases F)
  from Cons.prems(1) have f: "focus T m K (mk d u p c s)" by (simp add: F focus_up)
  note p = focus_child [OF f]
  have "root_of ?z u \<in> set (addrs u)" using Cons.prems(2) by (cases u) auto
  then have ne: "root_of ?z s \<noteq> root_of ?z u"
    using f root_of_cases [of ?z s] by (auto simp: focus_def Let_def)
  show ?case
  proof (cases "d = e")
    case True
    have "rbt_up_loop T (child e) (Some (root_of ?z u)) (Some p) m = rbt_up_loop T (child e) (Some p) (Some (ctop ?z K)) m"
      using p True by (subst rbt_up_loop.simps) (simp add: rb_run)
    with Cons.IH [OF f] True show ?thesis by (auto simp: F)
  next
    case False
    then have "child e (struct_at m p) = Some (root_of ?z s)" using p(4) by (cases d; cases e) auto
    then have "rbt_up_loop T (child e) (Some (root_of ?z u)) (Some p) m = Some (Inr (Some p))"
      using p ne by (subst rbt_up_loop.simps) (simp add: rb_run)
    with False show ?thesis by (cases e) (auto simp: F)
  qed
qed

lemma inv_split:
  assumes "rbtree_inv T m (ys @ a # zs)"
  obtains K l c r where "focus T m K (mk False r a c l)" "ys = caddrs_l K @ addrs l" "zs = addrs r @ caddrs_r K"
    "a \<noteq> rb_tnil T" "rb_tnil T \<notin> set ys" "rb_tnil T \<notin> set zs"
proof -
  obtain t where t: "focus T m [] t" "addrs t = ys @ a # zs" using assms by (auto simp: rbtree_inv_def)
  have "a \<in> set (addrs t)" using t(2) by simp
  then obtain K l c r where K: "t = plug K (mk False r a c l)" by (rule split_at)
  have f: "focus T m K (mk False r a c l)" using t(1) K focus_plug [of T m K] by simp
  have d: "distinct (ys @ a # zs)" "rb_tnil T \<notin> set (ys @ a # zs)" using t by (simp_all add: focus_def Let_def)
  have "ys @ a # zs = (caddrs_l K @ addrs l) @ a # (addrs r @ caddrs_r K)"
    using t(2) K by (simp add: addrs_plug addrs_mk)
  moreover have "a \<notin> set ys" "a \<notin> set zs" using d by auto
  ultimately have "ys = caddrs_l K @ addrs l" "zs = addrs r @ caddrs_r K"
    using append_Cons_eq_iff [of a ys zs "caddrs_l K @ addrs l" "addrs r @ caddrs_r K"] by auto
  with that f d show thesis by simp
qed

lemma sub_nonleaf: "focus T m K (mk d s a c t) \<Longrightarrow> root_of (rb_tnil T) s \<noteq> rb_tnil T \<longleftrightarrow> s \<noteq> Lf"
  "focus T m K (mk d s a c t) \<Longrightarrow> root_of (rb_tnil T) t \<noteq> rb_tnil T \<longleftrightarrow> t \<noteq> Lf"
  by (cases s; cases t; auto simp: focus_def Let_def)+

lemma rbtree_next_ok:
  assumes "rbtree_inv T m (ys @ a # zs)"
  shows "tt_rbtree_next T (Some a) m = Inr (case zs of [] \<Rightarrow> None | b # _ \<Rightarrow> Some b)"
  using assms
proof (cases rule: inv_split)
  case (1 K l c r)
  note z = focus_child [OF 1(1), unfolded not_False_eq_True]
  show ?thesis
  proof (cases "r = Lf")
    case True
    have "zs = caddrs_r K" using 1(3) True by simp
    moreover have "rbt_up_loop T (child False) (Some a) (Some (ctop (rb_tnil T) K)) m = Some (Inr (Some (hd (caddrs_r K @ [rb_tnil T]))))"
      using up_loop_ok [OF 1(1), of False] by simp
    ultimately show ?thesis
      using z True 1(6) by (cases "caddrs_r K") (simp_all add: tt_rbtree_next_def rb_run child_eta)
  next
    case False
    have f: "focus T m (Fr False a c l # K) r" using 1(1) by (simp add: focus_up)
    obtain b bs where "addrs r = b # bs" using False by (cases "addrs r"; cases r) auto
    with rbt_min_ok [OF f False] 1(3) sub_nonleaf(1) [OF 1(1)] False z show ?thesis
      by (simp add: tt_rbtree_next_def rb_run child_eta)
  qed
qed

lemma rbtree_prev_ok:
  assumes "rbtree_inv T m (ys @ a # zs)"
  shows "tt_rbtree_prev T (Some a) m = Inr (if ys = [] then None else Some (last ys))"
  using assms
proof (cases rule: inv_split)
  case (1 K l c r)
  note z = focus_child [OF 1(1), unfolded not_False_eq_True]
  show ?thesis
  proof (cases "l = Lf")
    case True
    have "ys = caddrs_l K" using 1(2) True by simp
    moreover have "rbt_up_loop T (child True) (Some a) (Some (ctop (rb_tnil T) K)) m = Some (Inr (Some (last (rb_tnil T # caddrs_l K))))"
      using up_loop_ok [OF 1(1), of True] by simp
    moreover have "ys \<noteq> [] \<Longrightarrow> last ys \<noteq> rb_tnil T" using 1(5) last_in_set [of ys] by metis
    ultimately show ?thesis
      using z True by (simp add: tt_rbtree_prev_def rb_run child_eta)
  next
    case False
    have f: "focus T m (Fr True a c r # K) l" using 1(1) by (simp add: focus_up mk_def)
    have ne: "addrs l \<noteq> []" using False by (cases l) auto
    with rbt_max_ok [OF f False] 1(2) sub_nonleaf(2) [OF 1(1)] False z show ?thesis
      by (simp add: tt_rbtree_prev_def rb_run child_eta)
  qed
qed

lemma inv_root:
  assumes "rbtree_inv T m xs"
  obtains t where "focus T m [] t" "rbt_ok t" "addrs t = xs" "rb_root T = Some (root_of (rb_tnil T) t)" "t = Lf \<longleftrightarrow> xs = []"
    "root_of (rb_tnil T) t = rb_tnil T \<longleftrightarrow> xs = []" "rb_count T = of_nat (length xs)"
proof -
  obtain t where t: "focus T m [] t" "rbt_ok t" "addrs t = xs" "rb_count T = of_nat (length xs)"
    using assms by (auto simp: rbtree_inv_def)
  have "t = Lf \<longleftrightarrow> xs = []" using t(3) by (cases t) auto
  moreover have "root_of (rb_tnil T) t = rb_tnil T \<longleftrightarrow> t = Lf" using t(1) by (cases t) (auto simp: focus_def Let_def)
  ultimately show thesis using that t focus_root [OF t(1)] by simp
qed

lemma rbtree_ends_ok:
  assumes "rbtree_inv T m xs"
  shows "tt_rbtree_min T m = Inr (if xs = [] then None else Some (hd xs))"
    "tt_rbtree_max T m = Inr (if xs = [] then None else Some (last xs))"
    "tt_rbtree_count T = of_nat (length xs)"
    "tt_rbtree_root T = None \<longleftrightarrow> xs = []"
  using assms rbt_min_ok [of T m "[]"] rbt_max_ok [of T m "[]"]
  by (cases rule: inv_root; simp add: tt_rbtree_min_def tt_rbtree_max_def tt_rbtree_count_def tt_rbtree_root_def)+

section \<open>The check of the colours\<close>

lemma expensive_check_ok:
  assumes "focus T m K t" "good t n" "K = [] \<Longrightarrow> black_root t"
  shows "rbt_expensive_check T (Some (root_of (rb_tnil T) t)) m = Some (Inr (Some (of_nat (Suc n))))"
  using assms
proof (induction t arbitrary: K n)
  case Lf
  then show ?case by (subst rbt_expensive_check.simps) (simp add: focus_def Let_def rb_run)
next
  case (Nd l a c r)
  let ?z = "rb_tnil T"
  have f: "focus T m K (mk True l a c r)" using Nd.prems(1) by (simp add: mk_def)
  have fl: "focus T m (Fr True a c r # K) l" and fr: "focus T m (Fr False a c l # K) r"
    using Nd.prems(1) by (simp_all add: focus_up mk_def)
  note a = focus_child [OF f, unfolded not_True_eq_False]
  have root: "rb_root T = Some a \<longleftrightarrow> K = []" using root_at_top [OF Nd.prems(1)] by simp
  have b: "rb_ld rb_black m (Some (root_of ?z l)) = Inr (black_root l)" "rb_ld rb_black m (Some (root_of ?z r)) = Inr (black_root r)"
    using f black_root_at [of ?z "struct_at m" a l] black_root_at [of ?z "struct_at m" a r] root_of_cases [of ?z l] root_of_cases [of ?z r]
    by (auto simp: focus_def Let_def rb_run)
  show ?case
  proof (cases c)
    case True
    with Nd.prems(2) obtain k where k: "n = Suc k" "good l k" "good r k" by (cases n) auto
    from Nd.IH(1) [OF fl k(2)] Nd.IH(2) [OF fr k(3)] k(1) a True show ?thesis
      by (subst rbt_expensive_check.simps) (simp add: rb_run child_eta)
  next
    case False
    with Nd.prems(2) have k: "good l n" "good r n" "black_root l" "black_root r" by auto
    have "K \<noteq> []" using Nd.prems(3) False by auto
    with Nd.IH(1) [OF fl k(1)] Nd.IH(2) [OF fr k(2)] k a b root False show ?thesis
      by (subst rbt_expensive_check.simps) (simp add: rb_run child_eta)
  qed
qed

lemma rbt_count_ok:
  assumes "focus T m K t"
  shows "rbt_count T (Some (root_of (rb_tnil T) t)) m = Some (Inr (of_nat (length (addrs t))))"
  using assms
proof (induction t arbitrary: K)
  case Lf
  then show ?case by (subst rbt_count.simps) simp
next
  case (Nd l a c r)
  have f: "focus T m K (mk True l a c r)" using Nd.prems(1) by (simp add: mk_def)
  have fl: "focus T m (Fr True a c r # K) l" and fr: "focus T m (Fr False a c l # K) r"
    using Nd.prems(1) by (simp_all add: focus_up mk_def)
  note a = focus_child [OF f, unfolded not_True_eq_False]
  from Nd.IH(1) [OF fl] Nd.IH(2) [OF fr] a show ?case
    by (subst rbt_count.simps) (simp add: rb_run child_eta algebra_simps)
qed

section \<open>Height\<close>

primrec ht :: "rbt \<Rightarrow> nat" where
  "ht Lf = 0"
| "ht (Nd l a c r) = Suc (max (ht l) (ht r))"

lemma good_size: "good t n \<Longrightarrow> 2 ^ n \<le> Suc (length (addrs t))"
proof (induction t arbitrary: n)
  case (Nd l a c r)
  show ?case
  proof (cases c)
    case True
    with Nd.prems obtain k where k: "n = Suc k" "good l k" "good r k" by (cases n) auto
    with Nd.IH(1) [OF k(2)] Nd.IH(2) [OF k(3)] show ?thesis by simp
  next
    case False
    with Nd.prems Nd.IH(1) [of n] show ?thesis by simp
  qed
qed simp

lemma good_height: "good t n \<Longrightarrow> ht t \<le> (if black_root t then 2 * n else Suc (2 * n))"
proof (induction t arbitrary: n)
  case (Nd l a c r)
  show ?case
  proof (cases c)
    case True
    with Nd.prems obtain k where k: "n = Suc k" "good l k" "good r k" by (cases n) auto
    have "ht l \<le> Suc (2 * k)" "ht r \<le> Suc (2 * k)" using Nd.IH(1) [OF k(2)] Nd.IH(2) [OF k(3)] by (auto split: if_splits)
    then show ?thesis using True k(1) by simp
  next
    case False
    with Nd.prems Nd.IH(1) [of n] Nd.IH(2) [of n] show ?thesis by simp
  qed
qed simp

lemma rbt_ok_height: "rbt_ok t \<Longrightarrow> 2 ^ ht t \<le> (Suc (length (addrs t))) ^ 2"
proof -
  assume "rbt_ok t"
  then obtain n where n: "black_root t" "good t n" by (auto simp: rbt_ok_def)
  have "(2 :: nat) ^ ht t \<le> 2 ^ (2 * n)" using good_height [OF n(2)] n(1) by (intro power_increasing) auto
  also have "\<dots> = (2 ^ n) ^ 2" by (simp add: power_mult [symmetric] mult.commute)
  also have "\<dots> \<le> (Suc (length (addrs t))) ^ 2" by (rule power_mono [OF good_size [OF n(2)]]) simp
  finally show ?thesis .
qed

section \<open>The default comparison\<close>

text \<open>Length first, then the bytes: the order of the lists that start with the length.\<close>

definition bytes_rank :: "u8 list \<Rightarrow> u32 \<Rightarrow> nat list" where
  "bytes_rank key len = unat len # map unat (take (unat len) key)"

definition bytes_valid :: "u8 list \<Rightarrow> u32 \<Rightarrow> bool" where
  "bytes_valid key len \<longleftrightarrow> unat len \<le> length key"

definition node_bytes_valid :: "'z ndata \<Rightarrow> bool" where
  "node_bytes_valid d \<longleftrightarrow> (case fst d of None \<Rightarrow> False | Some k \<Rightarrow> bytes_valid k (fst (snd d)))"

definition node_bytes_rank :: "'z ndata \<Rightarrow> nat list" where
  "node_bytes_rank d = (case fst d of None \<Rightarrow> [] | Some k \<Rightarrow> bytes_rank k (fst (snd d)))"

lemma memcmp_rank:
  "length xs = length ys \<Longrightarrow> (tt_memcmp xs ys > 0 \<longleftrightarrow> map unat xs > map unat ys) \<and> (tt_memcmp xs ys = 0 \<longleftrightarrow> map unat xs = map unat ys)"
proof (induction xs ys rule: list_induct2)
  case (Cons x xs y ys)
  then show ?case
    by (cases x y rule: linorder_cases) (auto simp: tt_memcmp.simps word_less_nat_alt)
qed (simp add: tt_memcmp.simps)

lemma rbn_cmpkey_order:
  assumes "node_bytes_valid (node_data n)" "bytes_valid key len"
  shows "\<exists>r. rbn_cmpkey n key len = Inr r \<and> (r > 0 \<longleftrightarrow> node_bytes_rank (node_data n) > bytes_rank key len)
    \<and> (r = 0 \<longleftrightarrow> node_bytes_rank (node_data n) = bytes_rank key len)"
proof -
  obtain k where k: "rb_key n = Some k" "unat (rb_klen n) \<le> length k"
    using assms(1) by (auto simp: node_bytes_valid_def node_data_def bytes_valid_def split: option.splits)
  have rank: "node_bytes_rank (node_data n) = unat (rb_klen n) # map unat (take (unat (rb_klen n)) k)"
    using k(1) by (simp add: node_bytes_rank_def node_data_def bytes_rank_def)
  show ?thesis
  proof (cases "rb_klen n" len rule: linorder_cases)
    case equal
    have "length (take (unat len) k) = length (take (unat len) key)" using k(2) assms(2) equal by (simp add: bytes_valid_def)
    from memcmp_rank [OF this] k assms(2) equal show ?thesis
      unfolding rank by (simp add: rbn_cmpkey_def bytes_valid_def bytes_rank_def)
  qed (use k in \<open>auto simp: rbn_cmpkey_def bytes_rank_def rank word_less_nat_alt\<close>)
qed

interpretation rbn: key_order rbn_cmpkey bytes_valid bytes_rank node_bytes_valid node_bytes_rank
  by unfold_locales (use rbn_cmpkey_order in \<open>auto simp: node_bytes_valid_def node_bytes_rank_def\<close>)

end
