(* ===== verification/TT_RBTree_Props.thy ===== *)
theory TT_RBTree_Props
  imports TT_RBTree_Walk
begin

text \<open>
  The properties of the red-black tree under sequences of calls, with the default comparison of keys.
\<close>

section \<open>Calls and what they mean\<close>

text \<open>
  A call adds a node under a key or removes a node. The specification is a list of nodes with their ranks: a new node
  goes behind those whose rank is not greater.
\<close>

datatype rb_op = RAdd "u8 list" u32 nat | RDel nat

primrec rb_call :: "rb_op \<Rightarrow> 'z tt_rbtree \<times> 'z rbstore \<Rightarrow> ('z tt_rbtree \<times> 'z rbstore) run" where
  "rb_call (RAdd key len z) s = tt_rbtree_add key len (Some z) (fst s) (snd s)"
| "rb_call (RDel z) s = tt_rbtree_remove (Some z) (fst s) (snd s)"

primrec rb_calls :: "rb_op list \<Rightarrow> 'z tt_rbtree \<times> 'z rbstore \<Rightarrow> ('z tt_rbtree \<times> 'z rbstore) run" where
  "rb_calls [] s = Inr s"
| "rb_calls (op # ops) s = bindr (rb_call op s) (rb_calls ops)"

type_synonym entry = "nat \<times> nat list"

primrec spec_call :: "rb_op \<Rightarrow> entry list \<Rightarrow> entry list" where
  "spec_call (RAdd key len z) L = takeWhile (\<lambda>e. snd e \<le> bytes_rank key len) L @ (z, bytes_rank key len) # dropWhile (\<lambda>e. snd e \<le> bytes_rank key len) L"
| "spec_call (RDel z) L = filter (\<lambda>e. fst e \<noteq> z) L"

primrec spec_calls :: "rb_op list \<Rightarrow> entry list \<Rightarrow> entry list" where
  "spec_calls [] L = L"
| "spec_calls (op # ops) L = spec_calls ops (spec_call op L)"

text \<open>
  What the caller must keep to, for nodes from a set \<open>Z\<close>: it does not add a node that is in the tree, and the key pointer
  leads to at least as many bytes as it says. Any node may be removed.
\<close>

primrec allowed :: "nat set \<Rightarrow> rb_op \<Rightarrow> entry list \<Rightarrow> bool" where
  "allowed Z (RAdd key len z) L \<longleftrightarrow> z \<in> Z \<and> z \<notin> fst ` set L \<and> unat len \<le> length key"
| "allowed Z (RDel z) L \<longleftrightarrow> z \<in> Z"

primrec all_allowed :: "nat set \<Rightarrow> rb_op list \<Rightarrow> entry list \<Rightarrow> bool" where
  "all_allowed Z [] L \<longleftrightarrow> True"
| "all_allowed Z (op # ops) L \<longleftrightarrow> allowed Z op L \<and> all_allowed Z ops (spec_call op L)"

section \<open>The state between calls\<close>

abbreviation node_rank_at :: "'z rbstore \<Rightarrow> nat \<Rightarrow> nat list" where "node_rank_at \<equiv> rank_at node_bytes_rank"

definition rb_holds :: "nat set \<Rightarrow> nat \<Rightarrow> 'z tt_rbtree \<times> 'z rbstore \<Rightarrow> entry list \<Rightarrow> bool" where
  "rb_holds Z nil s L \<longleftrightarrow> rbtree_inv (fst s) (snd s) (map fst L)
     \<and> rb_ordered rbn_cmpkey node_bytes_valid node_bytes_rank (fst s) (snd s) (map fst L)
     \<and> (\<forall>e \<in> set L. node_rank_at (snd s) (fst e) = snd e) \<and> rb_tnil (fst s) = nil \<and> nil \<notin> Z \<and> fst ` set L \<subseteq> Z
     \<and> (\<forall>z \<in> Z. cell (snd s) z) \<and> (\<forall>z \<in> Z - fst ` set L. rb_parent (struct_at (snd s) z) = None)"

lemma rb_holdsD:
  assumes "rb_holds Z nil (T, m) L"
  shows "rbtree_inv T m (map fst L)" "rb_ordered rbn_cmpkey node_bytes_valid node_bytes_rank T m (map fst L)"
    "e \<in> set L \<Longrightarrow> node_rank_at m (fst e) = snd e" "rb_tnil T = nil" "nil \<notin> Z" "fst ` set L \<subseteq> Z" "z \<in> Z \<Longrightarrow> cell m z"
    "z \<in> Z \<Longrightarrow> z \<notin> fst ` set L \<Longrightarrow> rb_parent (struct_at m z) = None"
  using assms by (auto simp: rb_holds_def)

lemma holds_sorted: "rb_holds Z nil s L \<Longrightarrow> sorted (map snd L)"
proof -
  assume h: "rb_holds Z nil s L"
  then have "sorted (map (node_rank_at (snd s)) (map fst L))" by (simp add: rb_holds_def rb_ordered_def)
  moreover have "map (node_rank_at (snd s)) (map fst L) = map snd L" using h by (simp add: rb_holds_def)
  ultimately show ?thesis by (simp only:)
qed

lemma sorted_split:
  fixes k :: "'a :: linorder"
  assumes "ys @ zs = map fst L" "\<forall>a \<in> set ys. r a \<le> k" "\<forall>a \<in> set zs. k < r a" "\<forall>e \<in> set L. r (fst e) = snd e"
  shows "map fst (takeWhile (\<lambda>e. snd e \<le> k) L) = ys \<and> map fst (dropWhile (\<lambda>e. snd e \<le> k) L) = zs"
  using assms
proof (induction L arbitrary: ys)
  case (Cons e L)
  show ?case
  proof (cases ys)
    case Nil
    then have "k < snd e" using Cons.prems by (cases zs) auto
    then show ?thesis using Nil Cons.prems(1) by simp
  next
    case (Cons a ys')
    with Cons.prems have "a = fst e" "ys' @ zs = map fst L" by auto
    with Cons.IH [of ys'] Cons.prems Cons show ?thesis by auto
  qed
qed simp

lemma add_holds:
  assumes h: "rb_holds Z nil (T, m) L" and a: "allowed Z (RAdd key len z) L"
  shows "\<exists>T' m'. tt_rbtree_add key len (Some z) T m = Inr (T', m') \<and> rb_holds Z nil (T', m') (spec_call (RAdd key len z) L)
    \<and> only_nodes (insert nil Z) m m'"
proof -
  note H = rb_holdsD [OF h]
  let ?k = "bytes_rank key len"
  have z: "z \<in> Z" "z \<notin> fst ` set L" "bytes_valid key len" using a by (simp_all add: bytes_valid_def)
  have "cell m z" "z \<notin> set (map fst L)" "z \<noteq> rb_tnil T" "rb_parent (struct_at m z) = None"
    using H(4,5) H(7) [OF z(1)] H(8) [OF z(1,2)] z by auto
  from rbn.add_ok [OF H(1,2) z(3) this] obtain T' m' ys zs where
    o: "tt_rbtree_add key len (Some z) T m = Inr (T', m')" "map fst L = ys @ zs"
    "\<forall>a \<in> set ys. node_rank_at m a \<le> ?k" "\<forall>a \<in> set zs. ?k < node_rank_at m a" "rbtree_inv T' m' (ys @ z # zs)"
    "rb_ordered rbn_cmpkey node_bytes_valid node_bytes_rank T' m' (ys @ z # zs)" "rb_tnil T' = rb_tnil T"
    "node_data (struct_at m' z) = (Some key, len, rbnode.more (struct_at m z))"
    "\<forall>a. a \<noteq> z \<longrightarrow> node_data (struct_at m' a) = node_data (struct_at m a)" "only_nodes (insert z (set (map fst L))) m m'" by blast
  let ?L = "spec_call (RAdd key len z) L"
  have "map fst (takeWhile (\<lambda>e. snd e \<le> ?k) L) = ys \<and> map fst (dropWhile (\<lambda>e. snd e \<le> ?k) L) = zs"
    by (rule sorted_split [of ys zs L "node_rank_at m"]) (use o(2,3,4) H(3) in auto)
  then have L: "map fst ?L = ys @ z # zs" by simp
  have rk: "node_rank_at m' z = ?k" "b \<noteq> z \<Longrightarrow> node_rank_at m' b = node_rank_at m b" for b
    using o(8,9) by (simp_all add: rank_at_def node_bytes_rank_def)
  have mem: "set ?L = insert (z, ?k) (set L)"
    using set_append [of "takeWhile (\<lambda>e. snd e \<le> ?k) L" "dropWhile (\<lambda>e. snd e \<le> ?k) L"] by auto
  have "rb_holds Z nil (T', m') ?L"
    unfolding rb_holds_def fst_conv snd_conv L
  proof (intro conjI ballI)
    fix e assume "e \<in> set ?L"
    then consider "e = (z, ?k)" | "e \<in> set L" "fst e \<noteq> z" unfolding mem using z(2) by blast
    then show "node_rank_at m' (fst e) = snd e" by cases (use rk H(3) [of e] in simp_all)
  next
    fix y assume "y \<in> Z" then show "cell m' y" using o(10) H(7) by (simp add: only_nodes_def)
  next
    fix y assume y: "y \<in> Z - fst ` set ?L"
    then have "y \<notin> insert z (set (map fst L))" unfolding mem by auto
    moreover from this have "struct_at m' y = struct_at m y" using o(10) by (simp add: only_nodes_def struct_at_def)
    ultimately show "rb_parent (struct_at m' y) = None" using H(8) y by auto
  qed (use o H z mem in auto)
  moreover have "only_nodes (insert nil Z) m m'" by (rule only_nodes_mono [OF o(10)]) (use z H(6) in auto)
  ultimately show ?thesis using o(1) by blast
qed

lemma remove_holds:
  assumes h: "rb_holds Z nil (T, m) L" and z: "z \<in> Z"
  shows "\<exists>T' m'. tt_rbtree_remove (Some z) T m = Inr (T', m') \<and> rb_holds Z nil (T', m') (filter (\<lambda>e. fst e \<noteq> z) L)
    \<and> only_nodes (insert nil Z) m m'"
proof (cases "z \<in> fst ` set L")
  case False
  note H = rb_holdsD [OF h]
  have "tt_rbtree_remove (Some z) T m = Inr (T, m)"
    using H(7) [OF z] H(8) [OF z False] by (simp add: tt_rbtree_remove_def rb_run)
  moreover have "filter (\<lambda>e. fst e \<noteq> z) L = L" using False by (auto intro!: filter_True)
  moreover have "only_nodes (insert nil Z) m m" by (simp add: only_nodes_def)
  ultimately show ?thesis using h by auto
next
  case True
  note H = rb_holdsD [OF h]
  have "z \<in> set (map fst L)" using True by simp
  from rbtree_remove_ok [OF H(1) this] obtain T' m' where o: "tt_rbtree_remove (Some z) T m = Inr (T', m')"
    "rbtree_inv T' m' (removeAll z (map fst L))" "rb_cmpkey T' = rb_cmpkey T" "rb_tnil T' = rb_tnil T"
    "\<forall>a. a \<noteq> z \<longrightarrow> node_data (struct_at m' a) = node_data (struct_at m a)" "rb_parent (struct_at m' z) = None"
    "only_nodes (insert (rb_tnil T) (set (map fst L))) m m'" by blast
  let ?L = "filter (\<lambda>e. fst e \<noteq> z) L"
  have L: "removeAll z (map fst L) = map fst ?L" by (induction L) auto
  have rk: "b \<noteq> z \<Longrightarrow> node_rank_at m' b = node_rank_at m b" for b using o(5) by (simp add: rank_at_def)
  have "map (node_rank_at m') (map fst ?L) = map snd ?L" using rk H(3) by simp
  moreover have "sorted (map snd ?L)" using sorted_filter [of snd L] holds_sorted [OF h] by simp
  moreover have "node_bytes_valid (node_data (struct_at m' a))" if "a \<in> set (map fst ?L)" for a
    using that o(5) H(2) by (auto simp: rb_ordered_def)
  ultimately have ord: "rb_ordered rbn_cmpkey node_bytes_valid node_bytes_rank T' m' (map fst ?L)"
    using H(2) o(3) by (simp add: rb_ordered_def del: map_map)
  have "rb_holds Z nil (T', m') ?L"
    unfolding rb_holds_def fst_conv snd_conv
  proof (intro conjI ballI)
    show "rbtree_inv T' m' (map fst ?L)" using o(2) L by simp
    fix e assume "e \<in> set ?L" then show "node_rank_at m' (fst e) = snd e" using rk H(3) [of e] by auto
  next
    fix y assume "y \<in> Z" then show "cell m' y" using o(7) H(7) by (simp add: only_nodes_def)
  next
    fix y assume y: "y \<in> Z - fst ` set ?L"
    show "rb_parent (struct_at m' y) = None"
    proof (cases "y = z")
      case False
      with y have "y \<notin> insert (rb_tnil T) (set (map fst L))" using H(4,5) by auto
      then have "struct_at m' y = struct_at m y" "y \<notin> fst ` set L" using o(7) by (simp_all add: only_nodes_def struct_at_def)
      then show ?thesis using H(8) [of y] y by simp
    qed (use o(6) in simp)
  qed (use ord o H in auto)
  moreover have "only_nodes (insert nil Z) m m'" by (rule only_nodes_mono [OF o(7)]) (use H(4,6) in auto)
  ultimately show ?thesis using o(1) by blast
qed

lemma call_holds:
  assumes "rb_holds Z nil s L" "allowed Z op L"
  shows "\<exists>s'. rb_call op s = Inr s' \<and> rb_holds Z nil s' (spec_call op L) \<and> only_nodes (insert nil Z) (snd s) (snd s')"
proof (cases op)
  case (RAdd key len z)
  with add_holds [of Z nil "fst s" "snd s" L key len z] assms show ?thesis by auto
next
  case (RDel z)
  with remove_holds [of Z nil "fst s" "snd s" L z] assms show ?thesis by auto
qed

lemma calls_hold:
  assumes "rb_holds Z nil s L" "all_allowed Z ops L"
  shows "\<exists>s'. rb_calls ops s = Inr s' \<and> rb_holds Z nil s' (spec_calls ops L) \<and> only_nodes (insert nil Z) (snd s) (snd s')"
  using assms
proof (induction ops arbitrary: s L)
  case Nil
  then show ?case by (simp add: only_nodes_def)
next
  case (Cons op ops)
  then obtain s1 where s1: "rb_call op s = Inr s1" "rb_holds Z nil s1 (spec_call op L)" "only_nodes (insert nil Z) (snd s) (snd s1)"
    using call_holds [of Z nil s L op] by auto
  with Cons.IH [OF s1(2)] Cons.prems(2) only_nodes_trans show ?case by fastforce
qed

text \<open>A new tree.\<close>

definition rb_fresh :: "nat set \<Rightarrow> nat \<Rightarrow> 'z rbstore \<Rightarrow> bool" where
  "rb_fresh Z nil m \<longleftrightarrow> cell m nil \<and> nil \<notin> Z \<and> (\<forall>z \<in> Z. cell m z \<and> rb_parent (struct_at m z) = None)"

lemma init_holds:
  assumes "rb_fresh Z nil m"
  shows "\<exists>s. tt_rbtree_init nil None m = Inr s \<and> rb_holds Z nil s [] \<and> only_nodes (insert nil Z) m (snd s)"
proof -
  let ?n = "(struct_at m nil)\<lparr>rb_left := None, rb_right := None, rb_parent := None, rb_key := None, rb_klen := 0, rb_black := False\<rparr>"
  let ?T = "\<lparr>rb_root = Some nil, rb_cmpkey = rbn_cmpkey, rb_tnil = nil, rb_count = 0\<rparr>" and ?m = "paint nil True (cell_upd m nil ?n)"
  have "tt_rbtree_init nil None m = Inr (?T, ?m)"
    using assms by (simp add: tt_rbtree_init_def tt_rbnode_init_def tt_rbtree_attr_default_def rb_st_cell [of m] rb_run rb_fresh_def)
  moreover have "focus ?T ?m [] Lf" by (simp add: focus_def)
  then have "rbtree_inv ?T ?m []" by (auto simp: rbtree_inv_def rbt_ok_def intro!: exI [of _ Lf])
  moreover have "only_nodes (insert nil Z) m ?m"
    using assms by (auto simp: only_nodes_def paint_def rb_fresh_def fun_eq_iff) (auto simp: cell_upd_def)
  ultimately show ?thesis using assms by (auto simp: rb_holds_def rb_ordered_def rb_fresh_def)
qed

lemma reached:
  assumes "rb_fresh Z nil m0" "tt_rbtree_init nil None m0 = Inr s0" "all_allowed Z ops []"
  shows "\<exists>s. rb_calls ops s0 = Inr s \<and> rb_holds Z nil s (spec_calls ops []) \<and> only_nodes (insert nil Z) m0 (snd s)"
  using init_holds [OF assms(1)] assms(2) calls_hold [OF _ assms(3), of nil s0] only_nodes_trans by fastforce

section \<open>Order\<close>

lemma holds_split:
  assumes "rb_holds Z nil (T, m) L" "i < length L"
  shows "rbtree_inv T m (map fst (take i L) @ fst (L ! i) # map fst (drop (Suc i) L))"
proof -
  have "map fst L = map fst (take i L) @ fst (L ! i) # map fst (drop (Suc i) L)"
    using arg_cong [OF id_take_nth_drop [OF assms(2)], of "map fst"] by simp
  with rb_holdsD(1) [OF assms(1)] show ?thesis by simp
qed

lemma holds_walk:
  assumes h: "rb_holds Z nil (T, m) L" and i: "i < length L"
  shows "tt_rbtree_next T (Some (fst (L ! i))) m = Inr (if Suc i < length L then Some (fst (L ! Suc i)) else None)"
    "tt_rbtree_prev T (Some (fst (L ! i))) m = Inr (if i = 0 then None else Some (fst (L ! (i - 1))))"
proof -
  note n = rbtree_next_ok [OF holds_split [OF h i]] and p = rbtree_prev_ok [OF holds_split [OF h i]]
  show "tt_rbtree_next T (Some (fst (L ! i))) m = Inr (if Suc i < length L then Some (fst (L ! Suc i)) else None)"
  proof (cases "Suc i < length L")
    case True
    then have "drop (Suc i) L = L ! Suc i # drop (Suc (Suc i)) L" by (simp add: Cons_nth_drop_Suc)
    with n True show ?thesis by simp
  qed (use n in simp)
  show "tt_rbtree_prev T (Some (fst (L ! i))) m = Inr (if i = 0 then None else Some (fst (L ! (i - 1))))"
  proof (cases i)
    case (Suc j)
    then have "take i L = take j L @ [L ! j]" using i by (simp add: take_Suc_conv_app_nth)
    moreover have "L \<noteq> []" using i by auto
    ultimately show ?thesis using p Suc by simp
  qed (use p in simp)
qed

lemma holds_distinct: "rb_holds Z nil (T, m) L \<Longrightarrow> distinct (map fst L)"
  by (auto simp: rb_holds_def rbtree_inv_def focus_def Let_def)

text \<open>
  C22: The red-black tree implements a sorted list. From a new tree, any allowed sequence of additions and removals
  returns, without a failed assertion or undefined behaviour; the nodes are then in the order of the list that the
  sequence specifies, with equal keys in the order of their addition: \<^verbatim>\<open>tt_rbtree_min\<close>, \<^verbatim>\<open>tt_rbtree_max\<close>,
  \<^verbatim>\<open>tt_rbtree_next\<close>, \<^verbatim>\<open>tt_rbtree_prev\<close> and the count answer as the list does, nodes that are not in the tree can be
  added again, and only the nodes and the sentinel were written.
\<close>

theorem rbtree_refines_sorted:
  assumes "rb_fresh Z nil m0" "tt_rbtree_init nil None m0 = Inr s0" "all_allowed Z ops []"
  shows "\<exists>T m. rb_calls ops s0 = Inr (T, m) \<and> (let L = spec_calls ops [] in
      sorted (map snd L) \<and> distinct (map fst L) \<and> tt_rbtree_count T = of_nat (length L)
    \<and> tt_rbtree_min T m = Inr (if L = [] then None else Some (fst (hd L)))
    \<and> tt_rbtree_max T m = Inr (if L = [] then None else Some (fst (last L)))
    \<and> (\<forall>i < length L. tt_rbtree_next T (Some (fst (L ! i))) m = Inr (if Suc i < length L then Some (fst (L ! Suc i)) else None)
        \<and> tt_rbtree_prev T (Some (fst (L ! i))) m = Inr (if i = 0 then None else Some (fst (L ! (i - 1)))))
    \<and> (\<forall>z \<in> Z. z \<in> fst ` set L \<or> rb_parent (struct_at m z) = None) \<and> only_nodes (insert nil Z) m0 m)"
proof -
  let ?L = "spec_calls ops []"
  from reached [OF assms] obtain T m where s: "rb_calls ops s0 = Inr (T, m)" "rb_holds Z nil (T, m) ?L" "only_nodes (insert nil Z) m0 m"
    by (metis prod.collapse snd_conv)
  note e = rbtree_ends_ok [OF rb_holdsD(1) [OF s(2)]]
  have "tt_rbtree_min T m = Inr (if ?L = [] then None else Some (fst (hd ?L)))"
    "tt_rbtree_max T m = Inr (if ?L = [] then None else Some (fst (last ?L)))"
    using e by (simp_all add: hd_map last_map)
  moreover have "\<forall>z \<in> Z. z \<in> fst ` set ?L \<or> rb_parent (struct_at m z) = None" using rb_holdsD(8) [OF s(2)] by metis
  ultimately show ?thesis using s e(3) holds_sorted [OF s(2)] holds_distinct [OF s(2)] holds_walk [OF s(2)]
    unfolding Let_def by (intro exI [of _ T] exI [of _ m]) auto
qed

text \<open>Three nodes and the sentinel at address 0.\<close>

definition demo_node :: rbnode where
  "demo_node = \<lparr>rb_parent = None, rb_left = None, rb_right = None, rb_key = None, rb_klen = 0, rb_black = False\<rparr>"

definition demo_store :: "unit rbstore" where
  "demo_store = \<lparr>mem_blocks = (\<lambda>a. if a < 4 then Some [demo_node] else None), mem_heap = {}, mem_next = 4,
     mem_oracle = (\<lambda>_. True), mem_junk = (\<lambda>_ _. demo_node)\<rparr>"

definition demo_tree :: "unit tt_rbtree \<times> unit rbstore" where
  "demo_tree = (\<lparr>rb_root = Some 0, rb_cmpkey = rbn_cmpkey, rb_tnil = 0, rb_count = 0\<rparr>,
     paint 0 True (cell_upd demo_store 0 demo_node))"

definition demo_ops :: "rb_op list" where
  "demo_ops = [RAdd [7] 1 1, RAdd [3] 1 2, RAdd [7] 1 3, RDel 1]"

lemma demo_ready: "rb_fresh {1, 2, 3} 0 demo_store" "tt_rbtree_init 0 None demo_store = Inr demo_tree"
  "all_allowed {1, 2, 3} demo_ops []" "spec_calls demo_ops [] = [(2, [1, 3]), (3, [1, 7])]"
proof -
  have "struct_at demo_store a = demo_node \<and> cell demo_store a" if "a < 4" for a
    using that by (simp add: demo_store_def cell_def struct_at_def)
  then have c: "struct_at demo_store 0 = demo_node" "struct_at demo_store 1 = demo_node" "struct_at demo_store 2 = demo_node"
    "struct_at demo_store 3 = demo_node" "cell demo_store 0" "cell demo_store 1" "cell demo_store 2" "cell demo_store 3"
    by simp_all
  show "rb_fresh {1, 2, 3} 0 demo_store" using c by (simp add: rb_fresh_def demo_node_def)
  show "tt_rbtree_init 0 None demo_store = Inr demo_tree"
    using c by (simp add: tt_rbtree_init_def tt_rbnode_init_def tt_rbtree_attr_default_def rb_st_cell [of demo_store] rb_run
        demo_tree_def demo_node_def)
qed (simp_all add: demo_ops_def bytes_rank_def)

theorem rbtree_refines_sorted_witness:
  "\<exists>T m. rb_calls demo_ops demo_tree = Inr (T, m) \<and> tt_rbtree_count T = 2 \<and> tt_rbtree_next T (Some 2) m = Inr (Some 3)
    \<and> rb_parent (struct_at m 1) = None"
proof -
  from rbtree_refines_sorted [OF demo_ready(1-3)] obtain T m where r: "rb_calls demo_ops demo_tree = Inr (T, m)"
    "tt_rbtree_count T = of_nat 2"
    "\<forall>i < 2. tt_rbtree_next T (Some (fst ([(2 :: nat, [1 :: nat, 3]), (3, [1, 7])] ! i))) m
      = Inr (if Suc i < 2 then Some (fst ([(2 :: nat, [1 :: nat, 3]), (3, [1, 7])] ! Suc i)) else None)"
    "\<forall>z \<in> {1, 2, 3}. z \<in> {2, 3} \<or> rb_parent (struct_at m z) = None"
    unfolding demo_ready(4) Let_def by auto
  from r(3) [rule_format, of 0] r(4) [rule_format, of 1] r(1,2) show ?thesis by auto
qed

section \<open>Search\<close>

lemma find_map: "List.find P (map f xs) = map_option f (List.find (P \<circ> f) xs)"
  by (induction xs) auto

lemma case_option_id: "(case x of None \<Rightarrow> None | Some a \<Rightarrow> Some a) = x"
  by (cases x) auto

lemma find_cong_set: "(\<And>x. x \<in> set xs \<Longrightarrow> P x = Q x) \<Longrightarrow> List.find P xs = List.find Q xs"
  by (induction xs) auto

lemma holds_search:
  assumes h: "rb_holds Z nil (T, m) L" and v: "unat len \<le> length key"
  shows "if bytes_rank key len \<in> snd ` set L then \<exists>z. tt_rbtree_find T key len m = Inr (Some z) \<and> (z, bytes_rank key len) \<in> set L
      else tt_rbtree_find T key len m = Inr None"
    "if bytes_rank key len \<in> snd ` set L then \<exists>z. tt_rbtree_find_gteq T key len m = Inr (Some z) \<and> (z, bytes_rank key len) \<in> set L
      else tt_rbtree_find_gteq T key len m = Inr (map_option fst (List.find (\<lambda>e. bytes_rank key len < snd e) L))"
    "if bytes_rank key len \<in> snd ` set L then \<exists>z. tt_rbtree_find_lteq T key len m = Inr (Some z) \<and> (z, bytes_rank key len) \<in> set L
      else tt_rbtree_find_lteq T key len m = Inr (map_option fst (List.find (\<lambda>e. snd e < bytes_rank key len) (rev L)))"
proof -
  let ?k = "bytes_rank key len"
  obtain t where t: "focus T m [] t" "addrs t = map fst L" "rb_root T = Some (root_of (rb_tnil T) t)"
    using inv_root [OF rb_holdsD(1) [OF h]] by metis
  have s: "subtree T m (rb_tnil T) t" using t(1) by (simp add: subtree_def focus_def Let_def)
  have o: "rb_ordered rbn_cmpkey node_bytes_valid node_bytes_rank T m (addrs t)" using rb_holdsD(2) [OF h] t(2) by simp
  have v: "bytes_valid key len" using v by (simp add: bytes_valid_def)
  have rk: "\<And>e. e \<in> set L \<Longrightarrow> node_rank_at m (fst e) = snd e" using rb_holdsD(3) [OF h] .
  have answer: "if ?k \<in> snd ` set L then \<exists>z. r = Some z \<and> (z, ?k) \<in> set L else r = X"
    if r: "(\<exists>a \<in> fst ` set L. r = Some a \<and> node_rank_at m a = ?k) \<or> (\<forall>a \<in> fst ` set L. node_rank_at m a \<noteq> ?k) \<and> r = X" for r X
  proof (cases "\<exists>a \<in> fst ` set L. r = Some a \<and> node_rank_at m a = ?k")
    case True
    then obtain e where "e \<in> set L" "r = Some (fst e)" "node_rank_at m (fst e) = ?k" by blast
    with rk [of e] have "e = (fst e, ?k)" "e \<in> set L" by (simp_all add: prod_eq_iff)
    then have "(fst e, ?k) \<in> set L" "?k \<in> snd ` set L" by (metis, metis image_eqI snd_conv)
    with \<open>r = Some (fst e)\<close> show ?thesis by auto
  next
    case False
    with r have "\<forall>a \<in> fst ` set L. node_rank_at m a \<noteq> ?k" "r = X" by blast+
    with rk show ?thesis by (auto simp: image_iff)
  qed
  have fd: "List.find (\<lambda>a. ?k < node_rank_at m a) (map fst L) = map_option fst (List.find (\<lambda>e. ?k < snd e) L)"
    "List.find (\<lambda>a. node_rank_at m a < ?k) (rev (map fst L)) = map_option fst (List.find (\<lambda>e. snd e < ?k) (rev L))"
    unfolding find_map rev_map by (intro arg_cong [of _ _ "map_option fst"] find_cong_set; simp add: rk)+
  from rbn.find_loop_ok [OF s o v] obtain r where r: "rbt_find_loop T (rb_root T) key len m = Some (Inr r)"
    "case r of None \<Rightarrow> \<forall>a \<in> fst ` set L. node_rank_at m a \<noteq> ?k | Some a \<Rightarrow> a \<in> fst ` set L \<and> node_rank_at m a = ?k"
    unfolding t(2,3) set_map by (elim exE conjE)
  have "if ?k \<in> snd ` set L then \<exists>z. r = Some z \<and> (z, ?k) \<in> set L else r = None"
    by (rule answer) (use r(2) in \<open>auto split: option.splits\<close>)
  with r(1) show "if ?k \<in> snd ` set L then \<exists>z. tt_rbtree_find T key len m = Inr (Some z) \<and> (z, ?k) \<in> set L
      else tt_rbtree_find T key len m = Inr None"
    by (cases "?k \<in> snd ` set L") (simp_all add: tt_rbtree_find_def)
  from rbn.gteq_loop_ok [OF s o v, of None] obtain r where r: "rbt_gteq_loop T (rb_root T) None key len m = Some (Inr r)"
    "(\<exists>a \<in> fst ` set L. r = Some a \<and> node_rank_at m a = ?k) \<or> (\<forall>a \<in> fst ` set L. node_rank_at m a \<noteq> ?k)
      \<and> r = (case List.find (\<lambda>a. ?k < node_rank_at m a) (map fst L) of None \<Rightarrow> None | Some a \<Rightarrow> Some a)"
    unfolding t(2,3) set_map by (elim exE conjE)
  from answer [OF r(2) [unfolded case_option_id fd(1)]] r(1) show "if ?k \<in> snd ` set L then \<exists>z. tt_rbtree_find_gteq T key len m = Inr (Some z) \<and> (z, ?k) \<in> set L
      else tt_rbtree_find_gteq T key len m = Inr (map_option fst (List.find (\<lambda>e. ?k < snd e) L))"
    by (cases "?k \<in> snd ` set L") (simp_all add: tt_rbtree_find_gteq_def)
  from rbn.lteq_loop_ok [OF s o v, of None] obtain r where r: "rbt_lteq_loop T (rb_root T) None key len m = Some (Inr r)"
    "(\<exists>a \<in> fst ` set L. r = Some a \<and> node_rank_at m a = ?k) \<or> (\<forall>a \<in> fst ` set L. node_rank_at m a \<noteq> ?k)
      \<and> r = (case List.find (\<lambda>a. node_rank_at m a < ?k) (rev (map fst L)) of None \<Rightarrow> None | Some a \<Rightarrow> Some a)"
    unfolding t(2,3) set_map by (elim exE conjE)
  from answer [OF r(2) [unfolded case_option_id fd(2)]] r(1) show "if ?k \<in> snd ` set L then \<exists>z. tt_rbtree_find_lteq T key len m = Inr (Some z) \<and> (z, ?k) \<in> set L
      else tt_rbtree_find_lteq T key len m = Inr (map_option fst (List.find (\<lambda>e. snd e < ?k) (rev L)))"
    by (cases "?k \<in> snd ` set L") (simp_all add: tt_rbtree_find_lteq_def)
qed

text \<open>
  C39: Searching. After any allowed sequence of calls \<^verbatim>\<open>tt_rbtree_find\<close> finds a node with the key if there is one and
  answers NULL otherwise; \<^verbatim>\<open>tt_rbtree_find_gteq\<close> and \<^verbatim>\<open>tt_rbtree_find_lteq\<close> find a node with the key, or else the
  first node with a greater key and the last one with a less key, the longer key being the greater and keys of one
  length being in the order of their bytes. The comments of the header promise a strictly larger and a strictly less
  node; the code, as the names of the functions say, answers the node with the key when there is one.
\<close>

theorem rbtree_search:
  assumes "rb_fresh Z nil m0" "tt_rbtree_init nil None m0 = Inr s0" "all_allowed Z ops []" "unat len \<le> length key"
  shows "\<exists>T m. rb_calls ops s0 = Inr (T, m) \<and> (let L = spec_calls ops []; k = bytes_rank key len in
      if k \<in> snd ` set L
      then (\<exists>z. tt_rbtree_find T key len m = Inr (Some z) \<and> (z, k) \<in> set L)
        \<and> (\<exists>z. tt_rbtree_find_gteq T key len m = Inr (Some z) \<and> (z, k) \<in> set L)
        \<and> (\<exists>z. tt_rbtree_find_lteq T key len m = Inr (Some z) \<and> (z, k) \<in> set L)
      else tt_rbtree_find T key len m = Inr None
        \<and> tt_rbtree_find_gteq T key len m = Inr (map_option fst (List.find (\<lambda>e. k < snd e) L))
        \<and> tt_rbtree_find_lteq T key len m = Inr (map_option fst (List.find (\<lambda>e. snd e < k) (rev L))))"
proof -
  from reached [OF assms(1-3)] obtain T m where s: "rb_calls ops s0 = Inr (T, m)" "rb_holds Z nil (T, m) (spec_calls ops [])"
    by (metis prod.collapse)
  from holds_search [OF s(2) assms(4)] s(1) show ?thesis
    unfolding Let_def by (intro exI [of _ T] exI [of _ m]) simp
qed

theorem rbtree_search_witness:
  "\<exists>T m. rb_calls demo_ops demo_tree = Inr (T, m) \<and> tt_rbtree_find T [5] 1 m = Inr None
    \<and> tt_rbtree_find_gteq T [5] 1 m = Inr (Some 3) \<and> tt_rbtree_find_lteq T [5] 1 m = Inr (Some 2)"
proof -
  have "unat (1 :: u32) \<le> length [5 :: u8]" by simp
  from rbtree_search [OF demo_ready(1-3) this] show ?thesis
    unfolding demo_ready(4) Let_def by (simp add: bytes_rank_def)
qed

section \<open>Balance\<close>

text \<open>The paths down from a node.\<close>

fun descends :: "'z tt_rbtree \<Rightarrow> 'z rbstore \<Rightarrow> ptr \<Rightarrow> bool list \<Rightarrow> bool" where
  "descends T m p [] \<longleftrightarrow> p \<noteq> tnil T"
| "descends T m p (d # ds) \<longleftrightarrow> p \<noteq> tnil T
     \<and> (case rb_ld (if d then rb_left else rb_right) m p of Inl f \<Rightarrow> False | Inr q \<Rightarrow> descends T m q ds)"

lemma descends_height: "subtree T m p t \<Longrightarrow> descends T m (Some (root_of (rb_tnil T) t)) ds \<Longrightarrow> length ds < ht t"
proof (induction ds arbitrary: t p)
  case Nil
  then show ?case by (cases t) auto
next
  case (Cons d ds)
  obtain l a c r where t: "t = Nd l a c r" using Cons.prems(2) by (cases t) auto
  note S = Cons.prems(1) [unfolded t subtree_Nd]
  have "descends T m (Some (root_of (rb_tnil T) (if d then l else r))) ds"
    using Cons.prems(2) S by (cases d) (simp_all add: t rb_run)
  with Cons.IH [of a "if d then l else r"] S show ?case by (cases d) (auto simp: t less_max_iff_disj)
qed

text \<open>
  C7: Balance. After any allowed sequence of calls the check of the source, \<^verbatim>\<open>__rbt_expensive_check\<close>, passes: the root
  and the sentinel are black, no red node has a red child and all paths have as many black nodes. The tree has as many
  nodes as its count says, and with \<open>n\<close> nodes no path down the tree visits more than \<open>2 * log 2 (n + 1)\<close> nodes, so that
  every search compares at most so many keys.
\<close>

theorem rbtree_balanced:
  assumes "rb_fresh Z nil m0" "tt_rbtree_init nil None m0 = Inr s0" "all_allowed Z ops []"
  shows "\<exists>T m. rb_calls ops s0 = Inr (T, m) \<and> (let n = length (spec_calls ops []) in
      (\<exists>h. rbt_expensive_check T (rb_root T) m = Some (Inr (Some h)))
    \<and> rbt_count T (rb_root T) m = Some (Inr (of_nat n)) \<and> tt_rbtree_count T = of_nat n
    \<and> (\<forall>ds. \<not> (descends T m (rb_root T) ds \<and> (n + 1) ^ 2 < 2 ^ (length ds + 1))))"
proof -
  from reached [OF assms] obtain T m where s: "rb_calls ops s0 = Inr (T, m)" "rb_holds Z nil (T, m) (spec_calls ops [])"
    by (metis prod.collapse)
  obtain t where t: "focus T m [] t" "rbt_ok t" "addrs t = map fst (spec_calls ops [])" "rb_root T = Some (root_of (rb_tnil T) t)"
    "rb_count T = of_nat (length (spec_calls ops []))"
    using inv_root [OF rb_holdsD(1) [OF s(2)]] by (metis length_map)
  obtain n where "good t n" "black_root t" using t(2) by (auto simp: rbt_ok_def)
  with expensive_check_ok [OF t(1)] have "\<exists>h. rbt_expensive_check T (rb_root T) m = Some (Inr (Some h))" by (auto simp: t(4))
  moreover have "rbt_count T (rb_root T) m = Some (Inr (of_nat (length (spec_calls ops []))))"
    using rbt_count_ok [OF t(1)] by (simp add: t(3,4))
  moreover have "2 ^ (length ds + 1) \<le> (length (spec_calls ops []) + 1) ^ 2" if "descends T m (rb_root T) ds" for ds
  proof -
    have "subtree T m (rb_tnil T) t" using t(1) by (simp add: subtree_def focus_def Let_def)
    from descends_height [OF this] that have "length ds + 1 \<le> ht t" by (simp add: t(4) Suc_le_eq)
    then have "(2 :: nat) ^ (length ds + 1) \<le> 2 ^ ht t" by (rule power_increasing) simp
    with rbt_ok_height [OF t(2)] show ?thesis by (simp add: t(3))
  qed
  ultimately show ?thesis
    using s(1) t(5) unfolding Let_def tt_rbtree_count_def by (intro exI [of _ T] exI [of _ m]) (auto simp: not_less)
qed

theorem rbtree_balanced_witness:
  "\<exists>T m. rb_calls demo_ops demo_tree = Inr (T, m) \<and> (\<exists>h. rbt_expensive_check T (rb_root T) m = Some (Inr (Some h)))
    \<and> \<not> descends T m (rb_root T) [True, False, True]"
proof -
  from rbtree_balanced [OF demo_ready(1-3)] obtain T m where r: "rb_calls demo_ops demo_tree = Inr (T, m)"
    "\<exists>h. rbt_expensive_check T (rb_root T) m = Some (Inr (Some h))"
    "\<forall>ds. \<not> (descends T m (rb_root T) ds \<and> (Suc (Suc (Suc 0))) ^ 2 < (2 :: nat) ^ (length ds + 1))"
    unfolding demo_ready(4) Let_def by auto
  from r(3) [rule_format, of "[True, False, True]"] r(1,2) show ?thesis by (auto simp: power2_eq_square)
qed

end
