(* ===== verification/TT_List.thy ===== *)
theory TT_List
  imports TT_Cells
begin

text \<open>
  The list of \<^verbatim>\<open>algorithm/tt_list.c\<close>. Its nodes are members of structs of the caller, so their record is
  extensible; a node knows the list it is in. \<^verbatim>\<open>'l\<close> are the addresses of lists.
\<close>

section \<open>Data\<close>

record 'l lnode =
  l_lst :: "'l option"
  l_prev :: ptr
  l_next :: ptr

record tt_list =
  ls_head :: ptr
  ls_tail :: ptr
  ls_count :: u32

type_synonym ('l, 'z) lists = "('l, tt_list, ('l, 'z) lnode_scheme) lstore"

section \<open>Initialisation and reading\<close>

definition tt_lnode_init :: "nat \<Rightarrow> ('l, 'z) lists \<Rightarrow> ('l, 'z) lists run" where
  "tt_lnode_init node s =
    bindr (ln_st (\<lambda>n. n\<lparr>l_lst := None\<rparr>) s node) (\<lambda>s.
    bindr (ln_st (\<lambda>n. n\<lparr>l_prev := None\<rparr>) s node) (\<lambda>s.
    ln_st (\<lambda>n. n\<lparr>l_next := None\<rparr>) s node))"

definition tt_list_init :: "'l \<Rightarrow> ('l, 'z) lists \<Rightarrow> ('l, 'z) lists run" where
  "tt_list_init lst s =
    bindr (lh_st (\<lambda>h. h\<lparr>ls_head := None\<rparr>) s lst) (\<lambda>s.
    bindr (lh_st (\<lambda>h. h\<lparr>ls_tail := None\<rparr>) s lst) (\<lambda>s.
    lh_st (\<lambda>h. h\<lparr>ls_count := 0\<rparr>) s lst))"

definition tt_list_count :: "'l \<Rightarrow> ('l, 'z) lists \<Rightarrow> u32 run" where "tt_list_count lst s = lh_ld ls_count s lst"

definition tt_list_empty :: "'l \<Rightarrow> ('l, 'z) lists \<Rightarrow> bool run" where
  "tt_list_empty lst s = bindr (tt_list_count lst s) (\<lambda>c. Inr (c = 0))"

definition tt_list_head :: "'l \<Rightarrow> ('l, 'z) lists \<Rightarrow> ptr run" where "tt_list_head lst s = lh_ld ls_head s lst"

definition tt_list_tail :: "'l \<Rightarrow> ('l, 'z) lists \<Rightarrow> ptr run" where "tt_list_tail lst s = lh_ld ls_tail s lst"

definition tt_list_contain :: "'l \<Rightarrow> nat \<Rightarrow> ('l, 'z) lists \<Rightarrow> bool run" where
  "tt_list_contain lst node s = bindr (ln_ld l_lst s node) (\<lambda>l. Inr (Some lst = l))"

section \<open>Linking\<close>

definition tt_list_push_head :: "'l \<Rightarrow> nat \<Rightarrow> ('l, 'z) lists \<Rightarrow> ('l, 'z) lists run" where
  "tt_list_push_head lst node s =
    bindr (ln_ld l_lst s node) (\<lambda>nl.
    bindr (TT_ASSERT (nl = None)) (\<lambda>_.
    bindr (lh_ld ls_head s lst) (\<lambda>head.
    bindr (ln_st (\<lambda>n. n\<lparr>l_next := head\<rparr>) s node) (\<lambda>s.
    bindr (ln_st (\<lambda>n. n\<lparr>l_lst := Some lst\<rparr>) s node) (\<lambda>s.
    bindr (case head of
             Some h \<Rightarrow> ln_st (\<lambda>n. n\<lparr>l_prev := Some node\<rparr>) s h
           | None \<Rightarrow> lh_st (\<lambda>h. h\<lparr>ls_tail := Some node\<rparr>) s lst) (\<lambda>s.
    bindr (lh_st (\<lambda>h. h\<lparr>ls_head := Some node\<rparr>) s lst) (\<lambda>s.
    lh_st (\<lambda>h. h\<lparr>ls_count := ls_count h + 1\<rparr>) s lst)))))))"

definition tt_list_push_tail :: "'l \<Rightarrow> nat \<Rightarrow> ('l, 'z) lists \<Rightarrow> ('l, 'z) lists run" where
  "tt_list_push_tail lst node s =
    bindr (ln_ld l_lst s node) (\<lambda>nl.
    bindr (TT_ASSERT (nl = None)) (\<lambda>_.
    bindr (lh_ld ls_tail s lst) (\<lambda>tail.
    bindr (ln_st (\<lambda>n. n\<lparr>l_prev := tail\<rparr>) s node) (\<lambda>s.
    bindr (ln_st (\<lambda>n. n\<lparr>l_lst := Some lst\<rparr>) s node) (\<lambda>s.
    bindr (case tail of
             Some t \<Rightarrow> ln_st (\<lambda>n. n\<lparr>l_next := Some node\<rparr>) s t
           | None \<Rightarrow> lh_st (\<lambda>h. h\<lparr>ls_head := Some node\<rparr>) s lst) (\<lambda>s.
    bindr (lh_st (\<lambda>h. h\<lparr>ls_tail := Some node\<rparr>) s lst) (\<lambda>s.
    lh_st (\<lambda>h. h\<lparr>ls_count := ls_count h + 1\<rparr>) s lst)))))))"

text \<open>The end of the removals: the node forgets its list and its neighbours.\<close>

definition lnode_unlink :: "nat \<Rightarrow> ('l, 'z) lists \<Rightarrow> ('l, 'z) lists run" where
  "lnode_unlink node s =
    bindr (ln_st (\<lambda>n. n\<lparr>l_lst := None\<rparr>) s node) (\<lambda>s.
    bindr (ln_st (\<lambda>n. n\<lparr>l_prev := None\<rparr>) s node) (\<lambda>s.
    ln_st (\<lambda>n. n\<lparr>l_next := None\<rparr>) s node))"

definition tt_list_pop_head :: "'l \<Rightarrow> ('l, 'z) lists \<Rightarrow> (ptr \<times> ('l, 'z) lists) run" where
  "tt_list_pop_head lst s =
    bindr (lh_ld ls_head s lst) (\<lambda>head.
    case head of None \<Rightarrow> Inr (None, s)
    | Some h \<Rightarrow>
      bindr (ln_ld l_next s h) (\<lambda>nx.
      bindr (lh_st (\<lambda>h. h\<lparr>ls_head := nx\<rparr>) s lst) (\<lambda>s.
      bindr (case nx of
               Some x \<Rightarrow> ln_st (\<lambda>n. n\<lparr>l_prev := None\<rparr>) s x
             | None \<Rightarrow> lh_st (\<lambda>h. h\<lparr>ls_tail := None\<rparr>) s lst) (\<lambda>s.
      bindr (lh_st (\<lambda>h. h\<lparr>ls_count := ls_count h - 1\<rparr>) s lst) (\<lambda>s.
      bindr (lnode_unlink h s) (\<lambda>s. Inr (Some h, s)))))))"

definition tt_list_pop_tail :: "'l \<Rightarrow> ('l, 'z) lists \<Rightarrow> (ptr \<times> ('l, 'z) lists) run" where
  "tt_list_pop_tail lst s =
    bindr (lh_ld ls_tail s lst) (\<lambda>tail.
    case tail of None \<Rightarrow> Inr (None, s)
    | Some t \<Rightarrow>
      bindr (ln_ld l_prev s t) (\<lambda>pv.
      bindr (lh_st (\<lambda>h. h\<lparr>ls_tail := pv\<rparr>) s lst) (\<lambda>s.
      bindr (case pv of
               Some x \<Rightarrow> ln_st (\<lambda>n. n\<lparr>l_next := None\<rparr>) s x
             | None \<Rightarrow> lh_st (\<lambda>h. h\<lparr>ls_head := None\<rparr>) s lst) (\<lambda>s.
      bindr (lh_st (\<lambda>h. h\<lparr>ls_count := ls_count h - 1\<rparr>) s lst) (\<lambda>s.
      bindr (lnode_unlink t s) (\<lambda>s. Inr (Some t, s)))))))"

partial_function (option) list_clear_loop :: "'l \<Rightarrow> ('l, 'z) lists \<Rightarrow> ('l, 'z) lists run option" where
  "list_clear_loop lst s =
    (case tt_list_pop_head lst s of
       Inl f \<Rightarrow> Some (Inl f)
     | Inr r \<Rightarrow> if fst r \<noteq> None then list_clear_loop lst (snd r) else Some (Inr (snd r)))"

definition tt_list_clear :: "'l \<Rightarrow> ('l, 'z) lists \<Rightarrow> ('l, 'z) lists run" where
  "tt_list_clear lst s = returned (list_clear_loop lst s)"

definition tt_list_insert_before :: "nat \<Rightarrow> nat \<Rightarrow> ('l, 'z) lists \<Rightarrow> ('l, 'z) lists run" where
  "tt_list_insert_before pos node s =
    bindr (ln_ld l_lst s pos) (\<lambda>pl.
    bindr (ln_ld l_lst s node) (\<lambda>nl.
    bindr (TT_ASSERT (nl = None)) (\<lambda>_.
    case pl of None \<Rightarrow> Inl Throw
    | Some lst \<Rightarrow>
      bindr (ln_st (\<lambda>n. n\<lparr>l_next := Some pos\<rparr>) s node) (\<lambda>s.
      bindr (ln_ld l_prev s pos) (\<lambda>pv.
      bindr (ln_st (\<lambda>n. n\<lparr>l_prev := pv\<rparr>) s node) (\<lambda>s.
      bindr (ln_st (\<lambda>n. n\<lparr>l_lst := Some lst\<rparr>) s node) (\<lambda>s.
      bindr (case pv of
               Some x \<Rightarrow> ln_st (\<lambda>n. n\<lparr>l_next := Some node\<rparr>) s x
             | None \<Rightarrow> lh_st (\<lambda>h. h\<lparr>ls_head := Some node\<rparr>) s lst) (\<lambda>s.
      bindr (ln_st (\<lambda>n. n\<lparr>l_prev := Some node\<rparr>) s pos) (\<lambda>s.
      lh_st (\<lambda>h. h\<lparr>ls_count := ls_count h + 1\<rparr>) s lst))))))))) "

definition tt_list_insert_after :: "nat \<Rightarrow> nat \<Rightarrow> ('l, 'z) lists \<Rightarrow> ('l, 'z) lists run" where
  "tt_list_insert_after pos node s =
    bindr (ln_ld l_lst s pos) (\<lambda>pl.
    bindr (ln_ld l_lst s node) (\<lambda>nl.
    bindr (TT_ASSERT (nl = None)) (\<lambda>_.
    case pl of None \<Rightarrow> Inl Throw
    | Some lst \<Rightarrow>
      bindr (ln_st (\<lambda>n. n\<lparr>l_prev := Some pos\<rparr>) s node) (\<lambda>s.
      bindr (ln_ld l_next s pos) (\<lambda>nx.
      bindr (ln_st (\<lambda>n. n\<lparr>l_next := nx\<rparr>) s node) (\<lambda>s.
      bindr (ln_st (\<lambda>n. n\<lparr>l_lst := Some lst\<rparr>) s node) (\<lambda>s.
      bindr (case nx of
               Some x \<Rightarrow> ln_st (\<lambda>n. n\<lparr>l_prev := Some node\<rparr>) s x
             | None \<Rightarrow> lh_st (\<lambda>h. h\<lparr>ls_tail := Some node\<rparr>) s lst) (\<lambda>s.
      bindr (ln_st (\<lambda>n. n\<lparr>l_next := Some node\<rparr>) s pos) (\<lambda>s.
      lh_st (\<lambda>h. h\<lparr>ls_count := ls_count h + 1\<rparr>) s lst))))))))) "

definition tt_list_remove :: "nat \<Rightarrow> ('l, 'z) lists \<Rightarrow> (ptr \<times> ('l, 'z) lists) run" where
  "tt_list_remove node s =
    bindr (ln_ld l_lst s node) (\<lambda>nl.
    case nl of None \<Rightarrow> Inr (None, s)
    | Some lst \<Rightarrow>
      bindr (ln_ld l_next s node) (\<lambda>nx.
      bindr (ln_ld l_prev s node) (\<lambda>pv.
      bindr (case pv of
               Some x \<Rightarrow> ln_st (\<lambda>n. n\<lparr>l_next := nx\<rparr>) s x
             | None \<Rightarrow> lh_st (\<lambda>h. h\<lparr>ls_head := nx\<rparr>) s lst) (\<lambda>s.
      bindr (case nx of
               Some x \<Rightarrow> bindr (ln_ld l_prev s node) (\<lambda>pv. ln_st (\<lambda>n. n\<lparr>l_prev := pv\<rparr>) s x)
             | None \<Rightarrow> bindr (ln_ld l_prev s node) (\<lambda>pv. lh_st (\<lambda>h. h\<lparr>ls_tail := pv\<rparr>) s lst)) (\<lambda>s.
      bindr (lh_st (\<lambda>h. h\<lparr>ls_count := ls_count h - 1\<rparr>) s lst) (\<lambda>s.
      bindr (lnode_unlink node s) (\<lambda>s. Inr (nx, s))))))))"

end
