(* ===== verification/TT_List_Spec.thy ===== *)
theory TT_List_Spec
  imports TT_Cells
begin

text \<open>
  What the linked lists promise: several lists of nodes, each node in at most one place. The locale
  \<open>node_lists\<close> states the contract that \<^verbatim>\<open>tt_list\<close> and \<^verbatim>\<open>tt_dlist\<close> share.
\<close>

datatype 'l list_op =
    ListPushHead 'l nat | ListPushTail 'l nat | ListPopHead 'l | ListPopTail 'l
  | ListBefore 'l nat nat | ListAfter 'l nat nat | ListRemove 'l nat | ListClear 'l

definition off_lists :: "nat \<Rightarrow> ('l \<Rightarrow> nat list) \<Rightarrow> bool" where "off_lists a A \<longleftrightarrow> (\<forall>l. a \<notin> set (A l))"

inductive list_spec :: "'l list_op \<Rightarrow> ('l \<Rightarrow> nat list) \<Rightarrow> ptr \<Rightarrow> ('l \<Rightarrow> nat list) \<Rightarrow> bool" where
  push_head: "off_lists a A \<Longrightarrow> list_spec (ListPushHead l a) A None (A(l := a # A l))"
| push_tail: "off_lists a A \<Longrightarrow> list_spec (ListPushTail l a) A None (A(l := A l @ [a]))"
| pop_head: "A l = a # xs \<Longrightarrow> list_spec (ListPopHead l) A (Some a) (A(l := xs))"
| pop_tail: "A l = xs @ [a] \<Longrightarrow> list_spec (ListPopTail l) A (Some a) (A(l := xs))"
| empty_head: "A l = [] \<Longrightarrow> list_spec (ListPopHead l) A None A"
| empty_tail: "A l = [] \<Longrightarrow> list_spec (ListPopTail l) A None A"
| insert_before: "A k = xs @ p # ys \<Longrightarrow> off_lists a A \<Longrightarrow> list_spec (ListBefore l p a) A None (A(k := xs @ a # p # ys))"
| insert_after: "A k = xs @ p # ys \<Longrightarrow> off_lists a A \<Longrightarrow> list_spec (ListAfter l p a) A None (A(k := xs @ p # a # ys))"
| remove: "A k = xs @ a # ys \<Longrightarrow> list_spec (ListRemove l a) A (first ys) (A(k := xs @ ys))"
| remove_none: "off_lists a A \<Longrightarrow> list_spec (ListRemove l a) A None A"
| clear: "list_spec (ListClear l) A None (A(l := []))"

inductive list_specs :: "'l list_op list \<Rightarrow> ('l \<Rightarrow> nat list) \<Rightarrow> ptr list \<Rightarrow> ('l \<Rightarrow> nat list) \<Rightarrow> bool" where
  nil: "list_specs [] A [] A"
| cons: "list_spec op A r B \<Longrightarrow> list_specs ops B rs C \<Longrightarrow> list_specs (op # ops) A (r # rs) C"

inductive_cases list_specs_NilE: "list_specs [] A rs B"
inductive_cases list_specs_ConsE: "list_specs (op # ops) A rs B"
inductive_simps list_spec_simps: "list_spec (ListPushHead l a) A r B" "list_spec (ListPushTail l a) A r B"
  "list_spec (ListPopHead l) A r B" "list_spec (ListPopTail l) A r B"

text \<open>
  The calls that respect the contract: a node to be put in is in no list, and its neighbour is in a list. A node
  that does not know its list needs to be told: the neighbour, or the node to remove, is in the list given.
\<close>

fun list_allowed :: "'l list_op \<Rightarrow> ('l \<Rightarrow> nat list) \<Rightarrow> bool" where
  "list_allowed (ListPushHead l a) A \<longleftrightarrow> off_lists a A"
| "list_allowed (ListPushTail l a) A \<longleftrightarrow> off_lists a A"
| "list_allowed (ListBefore l p a) A \<longleftrightarrow> off_lists a A \<and> \<not> off_lists p A"
| "list_allowed (ListAfter l p a) A \<longleftrightarrow> off_lists a A \<and> \<not> off_lists p A"
| "list_allowed op A \<longleftrightarrow> True"

fun list_told :: "'l list_op \<Rightarrow> ('l \<Rightarrow> nat list) \<Rightarrow> bool" where
  "list_told (ListBefore l p a) A \<longleftrightarrow> p \<in> set (A l)"
| "list_told (ListAfter l p a) A \<longleftrightarrow> p \<in> set (A l)"
| "list_told (ListRemove l a) A \<longleftrightarrow> off_lists a A \<or> a \<in> set (A l)"
| "list_told op A \<longleftrightarrow> True"

text \<open>The nodes and lists that a call names exist.\<close>

fun list_names :: "'l list_op \<Rightarrow> (nat \<Rightarrow> bool) \<Rightarrow> ('l \<Rightarrow> bool) \<Rightarrow> bool" where
  "list_names (ListPushHead l a) N L \<longleftrightarrow> N a \<and> L l"
| "list_names (ListPushTail l a) N L \<longleftrightarrow> N a \<and> L l"
| "list_names (ListPopHead l) N L \<longleftrightarrow> L l"
| "list_names (ListPopTail l) N L \<longleftrightarrow> L l"
| "list_names (ListBefore l p a) N L \<longleftrightarrow> N p \<and> N a \<and> L l"
| "list_names (ListAfter l p a) N L \<longleftrightarrow> N p \<and> N a \<and> L l"
| "list_names (ListRemove l a) N L \<longleftrightarrow> N a \<and> L l"
| "list_names (ListClear l) N L \<longleftrightarrow> L l"

text \<open>
  A run of calls. It stops with an error at the first one that has none; the state it leaves there does not matter.
\<close>

primrec list_run :: "('l list_op \<Rightarrow> 's \<Rightarrow> (ptr \<times> 's) run) \<Rightarrow> 'l list_op list \<Rightarrow> 's \<Rightarrow> (ptr list \<times> 's) run" where
  "list_run step [] s = Inr ([], s)"
| "list_run step (op # ops) s = bindr (step op s) (\<lambda>(r, s). bindr (list_run step ops s) (\<lambda>(rs, s). Inr (r # rs, s)))"

locale node_lists =
  fixes ok :: "'s \<Rightarrow> ('l \<Rightarrow> nat list) \<Rightarrow> bool" and node :: "'s \<Rightarrow> nat \<Rightarrow> bool" and list :: "'s \<Rightarrow> 'l \<Rightarrow> bool"
    and allowed :: "'l list_op \<Rightarrow> ('l \<Rightarrow> nat list) \<Rightarrow> bool"
    and step :: "'l list_op \<Rightarrow> 's \<Rightarrow> (ptr \<times> 's) run" and data :: "'s \<Rightarrow> nat \<Rightarrow> 'd"
  assumes queue_allowed: "off_lists a A \<Longrightarrow> allowed (ListPushTail l a) A" "allowed (ListPopHead l) A"
    and step_refines: "ok s A \<Longrightarrow> list_names op (node s) (list s) \<Longrightarrow> allowed op A \<Longrightarrow>
    \<exists>r s' B. step op s = Inr (r, s') \<and> list_spec op A r B \<and> ok s' B \<and> node s' = node s \<and> list s' = list s \<and> data s' = data s"
begin

text \<open>As long as the calls respect the contract, they answer as the lists do and change no data of the nodes.\<close>

lemma run_refines:
  assumes "ok s A" "\<forall>op \<in> set ops. list_names op (node s) (list s)"
  shows "(\<exists>rs s' B. list_run step ops s = Inr (rs, s') \<and> list_specs ops A rs B \<and> ok s' B \<and> node s' = node s \<and> list s' = list s \<and> data s' = data s)
    \<or> (\<exists>xs op ys rs s' B. ops = xs @ op # ys \<and> list_run step xs s = Inr (rs, s') \<and> list_specs xs A rs B \<and> ok s' B \<and> node s' = node s
         \<and> list_run step ops s = bindr (step op s') (\<lambda>(r, s). bindr (list_run step ys s) (\<lambda>(qs, s). Inr (rs @ r # qs, s)))
         \<and> \<not> allowed op B)"
  using assms
proof (induction ops arbitrary: s A)
  case Nil
  then show ?case by (auto intro: list_specs.nil)
next
  case (Cons op ops)
  show ?case
  proof (cases "allowed op A")
    case False
    then show ?thesis using Cons.prems(1)
      by (intro disjI2 exI [of _ "[]"] exI [of _ op] exI [of _ ops] exI [of _ s] exI [of _ A]) (simp add: list_specs.nil)
  next
    case True
    with step_refines [OF Cons.prems(1)] Cons.prems(2) obtain r s1 B where s1: "step op s = Inr (r, s1)" "list_spec op A r B" "ok s1 B"
      "node s1 = node s" "list s1 = list s" "data s1 = data s" by (metis list.set_intros(1))
    have "\<forall>op \<in> set ops. list_names op (node s1) (list s1)" using Cons.prems(2) s1(4,5) by simp
    from Cons.IH [OF s1(3) this] show ?thesis
    proof (elim disjE exE conjE)
      fix rs s' C
      assume "list_run step ops s1 = Inr (rs, s')" "list_specs ops B rs C" "ok s' C" "node s' = node s1" "list s' = list s1" "data s' = data s1"
      with s1 show ?thesis by (intro disjI1 exI [of _ "r # rs"] exI [of _ s'] exI [of _ C]) (simp add: list_specs.cons)
    next
      fix xs op' ys rs s' C
      assume "ops = xs @ op' # ys" "list_run step xs s1 = Inr (rs, s')" "list_specs xs B rs C" "ok s' C" "node s' = node s1"
        "list_run step ops s1 = bindr (step op' s') (\<lambda>(r, s). bindr (list_run step ys s) (\<lambda>(qs, s). Inr (rs @ r # qs, s)))"
        "\<not> allowed op' C"
      with s1 show ?thesis
        by (intro disjI2 exI [of _ "op # xs"] exI [of _ op'] exI [of _ ys] exI [of _ "r # rs"] exI [of _ s'] exI [of _ C])
          (simp add: list_specs.cons bindr_assoc split_def)
    qed
  qed
qed

text \<open>A queue: what is pushed at the tail of an empty list comes out at its head.\<close>

lemma fifo:
  assumes "ok s A" "list s l" "distinct xs" "\<forall>a \<in> set xs. node s a \<and> off_lists a A" "A l = []"
  shows "\<exists>s'. list_run step (map (ListPushTail l) xs @ replicate (length xs) (ListPopHead l)) s
    = Inr (replicate (length xs) None @ map Some xs, s') \<and> ok s' A \<and> data s' = data s"
proof -
  have pops: "\<exists>s'. list_run step (replicate (length ys) (ListPopHead l)) s = Inr (map Some ys, s') \<and> ok s' (B(l := [])) \<and> data s' = data s"
    if "ok s B" "list s l" "B l = ys" for s B ys
    using that
  proof (induction ys arbitrary: s B)
    case Nil
    then have "B(l := []) = B" by auto
    then show ?case using Nil by simp
  next
    case (Cons y ys)
    from step_refines [OF Cons.prems(1), of "ListPopHead l"] Cons.prems queue_allowed(2) obtain r s1 C where
      s1: "step (ListPopHead l) s = Inr (r, s1)" "list_spec (ListPopHead l) B r C" "ok s1 C" "list s1 l" "data s1 = data s" by auto
    then have C: "r = Some y" "C = B(l := ys)" using Cons.prems(3) by (auto elim: list_spec.cases)
    have Cl: "C l = ys" "C(l := []) = B(l := [])" using C(2) by simp_all
    from Cons.IH [OF s1(3,4) Cl(1)] obtain s2 where "list_run step (replicate (length ys) (ListPopHead l)) s1 = Inr (map Some ys, s2)"
      and s2: "ok s2 (B(l := []))" "data s2 = data s1" unfolding Cl(2) by blast
    then have "list_run step (replicate (length (y # ys)) (ListPopHead l)) s = Inr (map Some (y # ys), s2)" using s1(1) C(1) by simp
    then show ?case using s2 s1(5) by metis
  qed
  have "\<exists>s'. list_run step (map (ListPushTail l) xs @ replicate (length zs + length xs) (ListPopHead l)) s
    = Inr (replicate (length xs) None @ map Some (zs @ xs), s') \<and> ok s' (B(l := [])) \<and> data s' = data s"
    if "ok s B" "list s l" "distinct xs" "\<forall>a \<in> set xs. node s a \<and> off_lists a B" "B l = zs" for s B zs
    using that
  proof (induction xs arbitrary: s B zs)
    case Nil
    then show ?case using pops [of s B zs] by (simp del: fun_upd_apply)
  next
    case (Cons x xs)
    from step_refines [OF Cons.prems(1), of "ListPushTail l x"] Cons.prems queue_allowed(1) obtain r s1 C where
      s1: "step (ListPushTail l x) s = Inr (r, s1)" "list_spec (ListPushTail l x) B r C" "ok s1 C" "list s1 l" "data s1 = data s" "node s1 = node s" by auto
    then have C: "r = None" "C = B(l := zs @ [x])" using Cons.prems(5) by (auto elim: list_spec.cases)
    have "\<forall>a \<in> set xs. node s1 a \<and> off_lists a C" using Cons.prems(3,4,5) C(2) s1(6) unfolding off_lists_def by auto
    moreover have "distinct xs" "C l = zs @ [x]" and Cl: "C(l := []) = B(l := [])" using Cons.prems(3) C(2) by simp_all
    ultimately obtain s2 where
      "list_run step (map (ListPushTail l) xs @ replicate (length (zs @ [x]) + length xs) (ListPopHead l)) s1
        = Inr (replicate (length xs) None @ map Some ((zs @ [x]) @ xs), s2)" and s2: "ok s2 (B(l := []))" "data s2 = data s1"
      using Cons.IH [OF s1(3,4), of "zs @ [x]"] \<open>\<forall>a \<in> set xs. node s1 a \<and> off_lists a C\<close> unfolding Cl by blast
    then have "list_run step (map (ListPushTail l) (x # xs) @ replicate (length zs + length (x # xs)) (ListPopHead l)) s
      = Inr (replicate (length (x # xs)) None @ map Some (zs @ x # xs), s2)" using s1(1) C(1) by simp
    then show ?case using s2 s1(5) by metis
  qed
  from this [OF assms(1-4), of "[]"] assms(5) show ?thesis by (simp add: fun_upd_idem)
qed

end

end
