(* ===== verification/TT_List_Inv.thy ===== *)
theory TT_List_Inv
  imports TT_List TT_List_Spec
begin

text \<open>
  The lists of a store as lists of node addresses: \<open>A l\<close> are the nodes of list \<open>l\<close> in order. Every operation
  is shown to link or unlink one node of one list, whatever the neighbours.
\<close>

section \<open>The invariant\<close>

abbreviation links :: "('l, 'z) lists \<Rightarrow> nat \<Rightarrow> 'l option \<times> ptr \<times> ptr" where
  "links s a \<equiv> (l_lst (lnd s a), l_prev (lnd s a), l_next (lnd s a))"

definition list_ok :: "('l, 'z) lists \<Rightarrow> ('l \<Rightarrow> nat list) \<Rightarrow> bool" where
  "list_ok s A \<longleftrightarrow>
     (\<forall>l h. ls_lists s l = Some h \<longrightarrow> ls_head h = first (A l) \<and> ls_tail h = final (A l) \<and> ls_count h = of_nat (length (A l)))
   \<and> (\<forall>l. ls_lists s l = None \<longrightarrow> A l = []) \<and> (\<forall>l. distinct (A l))
   \<and> (\<forall>l. \<forall>a \<in> set (A l). lcell s a \<and> links s a = (Some l, before (A l) a, after (A l) a))
   \<and> (\<forall>a. lcell s a \<longrightarrow> links s a = (None, None, None) \<or> (\<exists>l. a \<in> set (A l)))"

lemma list_okD:
  assumes "list_ok s A"
  shows "ls_lists s l = Some h \<Longrightarrow> ls_head h = first (A l) \<and> ls_tail h = final (A l) \<and> ls_count h = of_nat (length (A l))"
    "ls_lists s l = None \<Longrightarrow> A l = []" "distinct (A l)"
    "a \<in> set (A l) \<Longrightarrow> lcell s a" "a \<in> set (A l) \<Longrightarrow> l_lst (lnd s a) = Some l"
    "a \<in> set (A l) \<Longrightarrow> l_prev (lnd s a) = before (A l) a" "a \<in> set (A l) \<Longrightarrow> l_next (lnd s a) = after (A l) a"
    "lcell s a \<Longrightarrow> l_lst (lnd s a) = Some l \<Longrightarrow> a \<in> set (A l)"
    "lcell s a \<Longrightarrow> l_lst (lnd s a) = None \<Longrightarrow> l_prev (lnd s a) = None \<and> l_next (lnd s a) = None"
proof -
  show "lcell s a \<Longrightarrow> l_lst (lnd s a) = Some l \<Longrightarrow> a \<in> set (A l)"
    using assms unfolding list_ok_def by (metis option.distinct(1) option.inject prod.inject)
  show "lcell s a \<Longrightarrow> l_lst (lnd s a) = None \<Longrightarrow> l_prev (lnd s a) = None \<and> l_next (lnd s a) = None"
    using assms unfolding list_ok_def by (metis option.distinct(1) prod.inject)
qed (use assms in \<open>auto simp: list_ok_def\<close>)

lemma list_ok_lists:
  assumes "list_ok s A" "a \<in> set (A l)"
  obtains h where "ls_lists s l = Some h" "ls_head h = first (A l)" "ls_tail h = final (A l)" "ls_count h = of_nat (length (A l))"
proof (cases "ls_lists s l")
  case None
  then show thesis using list_okD(2) [OF assms(1)] assms(2) by fastforce
next
  case (Some h)
  then show thesis using that list_okD(1) [OF assms(1) Some] by blast
qed

lemma list_ok_one: "list_ok s A \<Longrightarrow> a \<in> set (A l) \<Longrightarrow> a \<in> set (A k) \<Longrightarrow> k = l"
  using list_okD(5) [of s A a l] list_okD(5) [of s A a k] by simp

lemma list_ok_outside: "list_ok s A \<Longrightarrow> l_lst (lnd s a) = None \<Longrightarrow> a \<notin> set (A l)"
  using list_okD(5) [of s A a l] by auto

section \<open>One node in or out\<close>

definition linked_in :: "'l \<Rightarrow> nat \<Rightarrow> nat list \<Rightarrow> nat list \<Rightarrow> ('l, 'z) lists \<Rightarrow> ('l, 'z) lists \<Rightarrow> bool" where
  "linked_in l a xs ys s s' \<longleftrightarrow> same_structs lnode.more s s' \<and>
     (\<exists>h. ls_lists s' = (ls_lists s)(l \<mapsto> h) \<and> ls_head h = first (xs @ a # ys) \<and> ls_tail h = final (xs @ a # ys)
        \<and> ls_count h = of_nat (length (xs @ a # ys)))
     \<and> (\<forall>c. links s' c = (if c = a then (Some l, final xs, first ys)
          else (l_lst (lnd s c), if first ys = Some c then Some a else l_prev (lnd s c), if final xs = Some c then Some a else l_next (lnd s c))))"

definition unlinked :: "'l \<Rightarrow> nat \<Rightarrow> nat list \<Rightarrow> nat list \<Rightarrow> ('l, 'z) lists \<Rightarrow> ('l, 'z) lists \<Rightarrow> bool" where
  "unlinked l a xs ys s s' \<longleftrightarrow> same_structs lnode.more s s' \<and>
     (\<exists>h. ls_lists s' = (ls_lists s)(l \<mapsto> h) \<and> ls_head h = first (xs @ ys) \<and> ls_tail h = final (xs @ ys)
        \<and> ls_count h = of_nat (length (xs @ ys)))
     \<and> (\<forall>c. links s' c = (if c = a then (None, None, None)
          else (l_lst (lnd s c), if first ys = Some c then final xs else l_prev (lnd s c), if final xs = Some c then first ys else l_next (lnd s c))))"

lemma linked_in_ok:
  assumes ok: "list_ok s A" and A: "A l = xs @ ys" and a: "lcell s a" "l_lst (lnd s a) = None" and s': "linked_in l a xs ys s s'"
  shows "list_ok s' (A(l := xs @ a # ys))"
proof -
  note D = list_okD [OF ok]
  obtain h where same: "same_structs lnode.more s s'" and h: "ls_lists s' = (ls_lists s)(l \<mapsto> h)"
    "ls_head h = first (xs @ a # ys)" "ls_tail h = final (xs @ a # ys)" "ls_count h = of_nat (length (xs @ a # ys))"
    and k: "\<And>c. links s' c = (if c = a then (Some l, final xs, first ys)
      else (l_lst (lnd s c), if first ys = Some c then Some a else l_prev (lnd s c), if final xs = Some c then Some a else l_next (lnd s c)))"
    using s' unfolding linked_in_def by blast
  have out: "a \<notin> set (A k)" for k using list_ok_outside [OF ok a(2)] .
  have dist: "distinct (xs @ a # ys)" using D(3) [of l] out [of l] unfolding A by auto
  have c: "lcell s' = lcell s" using same_structsD(1) [OF same] by (simp add: fun_eq_iff)
  have other: "first ys \<noteq> Some b \<and> final xs \<noteq> Some b" if "b \<in> set (A k)" "k \<noteq> l" for b k
    using list_ok_one [OF ok that(1), of l] that(2) first_in [of ys b] final_in [of xs b] unfolding A by auto
  show ?thesis
    unfolding list_ok_def
  proof (intro conjI allI impI ballI)
    fix k b
    assume b: "b \<in> set ((A(l := xs @ a # ys)) k)"
    show "links s' b = (Some k, before ((A(l := xs @ a # ys)) k) b, after ((A(l := xs @ a # ys)) k) b)"
    proof (cases "k = l")
      case True
      consider "b = a" | "b \<noteq> a" "b \<in> set (A l)" using b True A by auto
      then show ?thesis
      proof cases
        case 2
        have "l_prev (lnd s b) = before (xs @ ys) b" "l_next (lnd s b) = after (xs @ ys) b"
          using D(6,7) [OF 2(2)] A by simp_all
        then show ?thesis using True D(5) [OF 2(2)] 2(1) by (simp add: k after_insert [OF dist] before_insert [OF dist])
      qed (simp add: True k after_insert [OF dist] before_insert [OF dist])
    next
      case False
      then show ?thesis using b other [of b k] D(5,6,7) [of b k] out [of k] by (auto simp: k)
    qed
  next
    fix b
    assume "lcell s' b"
    then have b: "lcell s b" by (simp add: c)
    show "links s' b = (None, None, None) \<or> (\<exists>k. b \<in> set ((A(l := xs @ a # ys)) k))"
    proof (cases "l_lst (lnd s b)")
      case None
      then have "first ys \<noteq> Some b" "final xs \<noteq> Some b" using list_ok_outside [OF ok None, of l] first_in [of ys b] final_in [of xs b] A by auto
      then show ?thesis using D(9) [OF b None] None by (cases "b = a") (auto simp: k)
    next
      case (Some j)
      then show ?thesis using D(8) [OF b Some] A by (intro disjI2 exI [of _ j]) auto
    qed
  next
    fix k j
    assume j: "ls_lists s' k = Some j"
    show "ls_head j = first ((A(l := xs @ a # ys)) k)" "ls_tail j = final ((A(l := xs @ a # ys)) k)"
      "ls_count j = of_nat (length ((A(l := xs @ a # ys)) k))"
      using j h D(1) [of k j] by (cases "k = l"; simp)+
  next
    fix k
    assume "ls_lists s' k = None"
    then show "(A(l := xs @ a # ys)) k = []" using h D(2) [of k] by (cases "k = l") simp_all
  next
    fix k
    show "distinct ((A(l := xs @ a # ys)) k)" using dist D(3) [of k] by simp
  next
    fix k b
    assume "b \<in> set ((A(l := xs @ a # ys)) k)"
    then show "lcell s' b" using c D(4) [of b k] D(4) [of b l] a A by (auto split: if_splits)
  qed
qed

lemma unlinked_ok:
  assumes ok: "list_ok s A" and A: "A l = xs @ a # ys" and s': "unlinked l a xs ys s s'"
  shows "list_ok s' (A(l := xs @ ys))"
proof -
  note D = list_okD [OF ok]
  obtain h where same: "same_structs lnode.more s s'" and h: "ls_lists s' = (ls_lists s)(l \<mapsto> h)"
    "ls_head h = first (xs @ ys)" "ls_tail h = final (xs @ ys)" "ls_count h = of_nat (length (xs @ ys))"
    and k: "\<And>c. links s' c = (if c = a then (None, None, None)
      else (l_lst (lnd s c), if first ys = Some c then final xs else l_prev (lnd s c), if final xs = Some c then first ys else l_next (lnd s c)))"
    using s' unfolding unlinked_def by blast
  have dist: "distinct (xs @ a # ys)" using D(3) [of l] unfolding A .
  then have dist': "distinct (xs @ ys)" by auto
  have c: "lcell s' = lcell s" using same_structsD(1) [OF same] by (simp add: fun_eq_iff)
  have other: "first ys \<noteq> Some b \<and> final xs \<noteq> Some b \<and> b \<noteq> a" if "b \<in> set (A k)" "k \<noteq> l" for b k
    using list_ok_one [OF ok that(1), of l] that(2) first_in [of ys b] final_in [of xs b] unfolding A by auto
  have nb: "before (xs @ ys) b = (if first ys = Some b then final xs else l_prev (lnd s b))"
    "after (xs @ ys) b = (if final xs = Some b then first ys else l_next (lnd s b))" if "b \<in> set (xs @ ys)" for b
  proof -
    have b: "b \<in> set (A l)" "b \<noteq> a" using that dist A by auto
    have "first ys = Some b \<Longrightarrow> b \<notin> set xs" "final xs = Some b \<Longrightarrow> b \<notin> set ys"
      using dist' by (auto dest!: first_in final_in)
    then show "before (xs @ ys) b = (if first ys = Some b then final xs else l_prev (lnd s b))"
      "after (xs @ ys) b = (if final xs = Some b then first ys else l_next (lnd s b))"
      using D(6,7) [OF b(1)] b(2) before_insert [OF dist, of b] after_insert [OF dist, of b]
        before_join [OF dist', of b] after_join [OF dist', of b] A by (auto dest: first_in final_in)
  qed
  show ?thesis
    unfolding list_ok_def
  proof (intro conjI allI impI ballI)
    fix k b
    assume b: "b \<in> set ((A(l := xs @ ys)) k)"
    show "links s' b = (Some k, before ((A(l := xs @ ys)) k) b, after ((A(l := xs @ ys)) k) b)"
    proof (cases "k = l")
      case True
      then have "b \<in> set (xs @ ys)" "b \<in> set (A l)" "b \<noteq> a" using b A dist by auto
      then show ?thesis using True nb [of b] D(5) [of b l] by (simp add: k)
    next
      case False
      then show ?thesis using b other [of b k] D(5,6,7) [of b k] by (auto simp: k)
    qed
  next
    fix b
    assume "lcell s' b"
    then have b: "lcell s b" by (simp add: c)
    show "links s' b = (None, None, None) \<or> (\<exists>k. b \<in> set ((A(l := xs @ ys)) k))"
    proof (cases "l_lst (lnd s b)")
      case None
      then have "first ys \<noteq> Some b" "final xs \<noteq> Some b" using list_ok_outside [OF ok None, of l] first_in [of ys b] final_in [of xs b] A by auto
      then show ?thesis using D(9) [OF b None] None by (cases "b = a") (auto simp: k)
    next
      case (Some j)
      then show ?thesis using D(8) [OF b Some] A by (cases "b = a") (auto simp: k intro!: exI [of _ j])
    qed
  next
    fix k j
    assume j: "ls_lists s' k = Some j"
    show "ls_head j = first ((A(l := xs @ ys)) k)" "ls_tail j = final ((A(l := xs @ ys)) k)"
      "ls_count j = of_nat (length ((A(l := xs @ ys)) k))"
      using j h D(1) [of k j] by (cases "k = l"; simp)+
  next
    fix k
    assume "ls_lists s' k = None"
    then show "(A(l := xs @ ys)) k = []" using h D(2) [of k] by (cases "k = l") simp_all
  next
    fix k
    show "distinct ((A(l := xs @ ys)) k)" using dist' D(3) [of k] by simp
  next
    fix k b
    assume "b \<in> set ((A(l := xs @ ys)) k)"
    then show "lcell s' b" using c D(4) [of b k] D(4) [of b l]  A by (auto split: if_splits)
  qed
qed

section \<open>The operations\<close>

lemmas links_eval = map_upd_eq linked_in_def unlinked_def same_structs_def same_cells_upd lnode_unlink_def

lemma list_push_head_ok:
  assumes ok: "list_ok s A" and a: "lcell s a" "l_lst (lnd s a) = None" and l: "ls_lists s l = Some h"
  shows "\<exists>s'. tt_list_push_head l a s = Inr s' \<and> linked_in l a [] (A l) s s'"
proof (cases "A l")
  case Nil
  then show ?thesis using a l list_okD(1) [OF ok l] list_okD(9) [OF ok a]
    by (simp add: tt_list_push_head_def ll_run links_eval insert_absorb domI)
next
  case (Cons y ys)
  then have y: "lcell s y" "y \<noteq> a" using list_okD(4) [OF ok, of y l] list_ok_outside [OF ok a(2), of l] by auto
  then show ?thesis using a l list_okD(1) [OF ok l] list_okD(9) [OF ok a] Cons
    by (simp add: tt_list_push_head_def ll_run links_eval insert_absorb domI)
qed

lemma list_push_tail_ok:
  assumes ok: "list_ok s A" and a: "lcell s a" "l_lst (lnd s a) = None" and l: "ls_lists s l = Some h"
  shows "\<exists>s'. tt_list_push_tail l a s = Inr s' \<and> linked_in l a (A l) [] s s'"
proof (cases "A l" rule: rev_cases)
  case Nil
  then show ?thesis using a l list_okD(1) [OF ok l] list_okD(9) [OF ok a]
    by (simp add: tt_list_push_tail_def ll_run links_eval insert_absorb domI)
next
  case (snoc ys y)
  then have y: "lcell s y" "y \<noteq> a" using list_okD(4) [OF ok, of y l] list_ok_outside [OF ok a(2), of l] by auto
  then show ?thesis using a l list_okD(1) [OF ok l] list_okD(9) [OF ok a] snoc
    by (cases ys) (simp_all add: tt_list_push_tail_def ll_run links_eval insert_absorb domI)
qed

text \<open>The neighbours of a node in a list, as the node sees them.\<close>

lemma list_ok_at:
  assumes ok: "list_ok s A" and A: "A l = xs @ a # ys"
  shows "lcell s a" "l_lst (lnd s a) = Some l" "l_prev (lnd s a) = final xs" "l_next (lnd s a) = first ys"
    "final xs = Some b \<Longrightarrow> lcell s b \<and> b \<noteq> a \<and> b \<notin> set ys" "first ys = Some b \<Longrightarrow> lcell s b \<and> b \<noteq> a \<and> b \<notin> set xs"
proof -
  have d: "distinct (xs @ a # ys)" using list_okD(3) [OF ok, of l] unfolding A .
  have a: "a \<in> set (A l)" unfolding A by simp
  show "lcell s a" "l_lst (lnd s a) = Some l" "l_prev (lnd s a) = final xs" "l_next (lnd s a) = first ys"
    using list_okD(4-7) [OF ok a] after_insert [OF d] before_insert [OF d] unfolding A by simp_all
  show "final xs = Some b \<Longrightarrow> lcell s b \<and> b \<noteq> a \<and> b \<notin> set ys" "first ys = Some b \<Longrightarrow> lcell s b \<and> b \<noteq> a \<and> b \<notin> set xs"
    using d list_okD(4) [OF ok, of b l] unfolding A by (auto dest!: first_in final_in)
qed

lemma list_remove_ok:
  assumes ok: "list_ok s A" and A: "A l = xs @ a # ys"
  shows "\<exists>s'. tt_list_remove a s = Inr (first ys, s') \<and> unlinked l a xs ys s s'"
proof -
  note L = list_ok_at [OF ok A]
  have "a \<in> set (A l)" unfolding A by simp
  from list_ok_lists [OF ok this] obtain h where h: "ls_lists s l = Some h" "ls_head h = first (A l)" "ls_tail h = final (A l)"
    "ls_count h = of_nat (length (A l))" .
  show ?thesis
  proof (cases "final xs"; cases "first ys")
    assume *: "final xs = None" "first ys = None"
    then show ?thesis using L(1-4) h A by (simp add: tt_list_remove_def ll_run links_eval insert_absorb domI)
  next
    fix q
    assume *: "final xs = None" "first ys = Some q"
    then show ?thesis using L(1-4) L(6) [OF *(2)] h A
      by (auto simp add: tt_list_remove_def ll_run links_eval insert_absorb domI first_eq_Some)
  next
    fix p
    assume *: "final xs = Some p" "first ys = None"
    then show ?thesis using L(1-4) L(5) [OF *(1)] h A
      by (auto simp add: tt_list_remove_def ll_run links_eval insert_absorb domI final_eq_Some)
  next
    fix p q
    assume *: "final xs = Some p" "first ys = Some q"
    then have "p \<noteq> q" using L(5) [OF *(1)] first_in by fastforce
    then show ?thesis using * L(1-4) L(5) [OF *(1)] L(6) [OF *(2)] h A
      by (auto simp add: tt_list_remove_def ll_run links_eval insert_absorb domI final_eq_Some first_eq_Some)
  qed
qed

lemma list_insert_before_ok:
  assumes ok: "list_ok s A" and A: "A l = xs @ p # ys" and a: "lcell s a" "l_lst (lnd s a) = None"
  shows "\<exists>s'. tt_list_insert_before p a s = Inr s' \<and> linked_in l a xs (p # ys) s s'"
proof -
  note L = list_ok_at [OF ok A]
  have "p \<in> set (A l)" unfolding A by simp
  from list_ok_lists [OF ok this] obtain h where h: "ls_lists s l = Some h" "ls_head h = first (A l)" "ls_tail h = final (A l)"
    "ls_count h = of_nat (length (A l))" .
  have pa: "p \<noteq> a" using L(2) a(2) by auto
  show ?thesis
  proof (cases "final xs")
    case None
    then show ?thesis using L(1-4) h A a pa list_okD(9) [OF ok a]
      by (auto simp: tt_list_insert_before_def ll_run links_eval insert_absorb domI)
  next
    case (Some q)
    then have "q \<noteq> a" using list_ok_outside [OF ok a(2), of l] A final_in by fastforce
    then show ?thesis using L(1-4) L(5) [OF Some] Some h A a pa list_okD(9) [OF ok a]
      by (auto simp: tt_list_insert_before_def ll_run links_eval insert_absorb domI final_eq_Some)
  qed
qed

lemma list_insert_after_ok:
  assumes ok: "list_ok s A" and A: "A l = xs @ p # ys" and a: "lcell s a" "l_lst (lnd s a) = None"
  shows "\<exists>s'. tt_list_insert_after p a s = Inr s' \<and> linked_in l a (xs @ [p]) ys s s'"
proof -
  note L = list_ok_at [OF ok A]
  have "p \<in> set (A l)" unfolding A by simp
  from list_ok_lists [OF ok this] obtain h where h: "ls_lists s l = Some h" "ls_head h = first (A l)" "ls_tail h = final (A l)"
    "ls_count h = of_nat (length (A l))" .
  have pa: "p \<noteq> a" using L(2) a(2) by auto
  show ?thesis
  proof (cases "first ys")
    case None
    then show ?thesis using L(1-4) h A a pa list_okD(9) [OF ok a]
      by (auto simp: tt_list_insert_after_def ll_run links_eval insert_absorb domI)
  next
    case (Some q)
    then have "q \<noteq> a" using list_ok_outside [OF ok a(2), of l] A first_in by fastforce
    then show ?thesis using L(1-4) L(6) [OF Some] Some h A a pa list_okD(9) [OF ok a]
      by (auto simp: tt_list_insert_after_def ll_run links_eval insert_absorb domI first_eq_Some)
  qed
qed

lemma list_pop_head_ok:
  assumes ok: "list_ok s A" and A: "A l = a # ys"
  shows "\<exists>s'. tt_list_pop_head l s = Inr (Some a, s') \<and> unlinked l a [] ys s s'"
proof -
  have A': "A l = [] @ a # ys" using A by simp
  note L = list_ok_at [OF ok A']
  have "a \<in> set (A l)" unfolding A by simp
  from list_ok_lists [OF ok this] obtain h where h: "ls_lists s l = Some h" "ls_head h = first (A l)" "ls_tail h = final (A l)"
    "ls_count h = of_nat (length (A l))" .
  show ?thesis
  proof (cases "first ys")
    case None
    then show ?thesis using L(1-4) h A by (auto simp: tt_list_pop_head_def ll_run links_eval insert_absorb domI)
  next
    case (Some q)
    then show ?thesis using L(1-4) L(6) [OF Some] h A
      by (auto simp: tt_list_pop_head_def ll_run links_eval insert_absorb domI first_eq_Some)
  qed
qed

lemma list_pop_tail_ok:
  assumes ok: "list_ok s A" and A: "A l = xs @ [a]"
  shows "\<exists>s'. tt_list_pop_tail l s = Inr (Some a, s') \<and> unlinked l a xs [] s s'"
proof -
  note L = list_ok_at [OF ok A]
  have "a \<in> set (A l)" unfolding A by simp
  from list_ok_lists [OF ok this] obtain h where h: "ls_lists s l = Some h" "ls_head h = first (A l)" "ls_tail h = final (A l)"
    "ls_count h = of_nat (length (A l))" .
  show ?thesis
  proof (cases "final xs")
    case None
    then show ?thesis using L(1-4) h A by (auto simp: tt_list_pop_tail_def ll_run links_eval insert_absorb domI)
  next
    case (Some q)
    then show ?thesis using L(1-4) L(5) [OF Some] h A
      by (auto simp: tt_list_pop_tail_def ll_run links_eval insert_absorb domI final_eq_Some)
  qed
qed

lemma list_pop_empty:
  assumes "list_ok s A" "A l = []" "ls_lists s l = Some h"
  shows "tt_list_pop_head l s = Inr (None, s)" "tt_list_pop_tail l s = Inr (None, s)"
  using assms list_okD(1) [OF assms(1,3)] by (simp_all add: tt_list_pop_head_def tt_list_pop_tail_def ll_run)

end
