(* ===== verification/TT_DList.thy ===== *)
theory TT_DList
  imports TT_Cells
begin

text \<open>
  The doubly linked list of \<^verbatim>\<open>algorithm/tt_double_linked_list.h\<close>: like \<^verbatim>\<open>tt_list\<close>, but a node does not know its
  list and the list has no count.
\<close>

section \<open>Data\<close>

record dnode =
  d_prev :: ptr
  d_next :: ptr

record tt_dlist =
  dl_head :: ptr
  dl_tail :: ptr

type_synonym ('l, 'z) dlists = "('l, tt_dlist, 'z dnode_scheme) lstore"

section \<open>Initialisation and reading\<close>

definition tt_dnode_init :: "nat \<Rightarrow> ('l, 'z) dlists \<Rightarrow> ('l, 'z) dlists run" where
  "tt_dnode_init dn s =
    bindr (ln_st (\<lambda>n. n\<lparr>d_prev := None\<rparr>) s dn) (\<lambda>s. ln_st (\<lambda>n. n\<lparr>d_next := None\<rparr>) s dn)"

definition tt_dlist_init :: "'l \<Rightarrow> ('l, 'z) dlists \<Rightarrow> ('l, 'z) dlists run" where
  "tt_dlist_init dl s =
    bindr (lh_st (\<lambda>h. h\<lparr>dl_head := None\<rparr>) s dl) (\<lambda>s. lh_st (\<lambda>h. h\<lparr>dl_tail := None\<rparr>) s dl)"

partial_function (option) dlist_count_loop :: "ptr \<Rightarrow> u32 \<Rightarrow> ('l, 'z) dlists \<Rightarrow> u32 run option" where
  "dlist_count_loop dn count s =
    (case dn of None \<Rightarrow> Some (Inr count)
     | Some a \<Rightarrow> (case ln_ld d_next s a of Inl f \<Rightarrow> Some (Inl f) | Inr nx \<Rightarrow> dlist_count_loop nx (count + 1) s))"

definition tt_dlist_count :: "'l \<Rightarrow> ('l, 'z) dlists \<Rightarrow> u32 run" where
  "tt_dlist_count dl s = bindr (lh_ld dl_head s dl) (\<lambda>h. returned (dlist_count_loop h 0 s))"

definition tt_dlist_empty :: "'l \<Rightarrow> ('l, 'z) dlists \<Rightarrow> bool run" where
  "tt_dlist_empty dl s = bindr (lh_ld dl_head s dl) (\<lambda>h. Inr (h = None))"

definition tt_dlist_head :: "'l \<Rightarrow> ('l, 'z) dlists \<Rightarrow> ptr run" where "tt_dlist_head dl s = lh_ld dl_head s dl"

definition tt_dlist_tail :: "'l \<Rightarrow> ('l, 'z) dlists \<Rightarrow> ptr run" where "tt_dlist_tail dl s = lh_ld dl_tail s dl"

text \<open>The assertion of the insertions: both links of the new node are null.\<close>

definition dnode_fresh :: "nat \<Rightarrow> ('l, 'z) dlists \<Rightarrow> unit run" where
  "dnode_fresh dn s =
    bindr (ln_ld d_next s dn) (\<lambda>nx. bindr (ln_ld d_prev s dn) (\<lambda>pv. TT_ASSERT (nx = None \<and> pv = None)))"

section \<open>Linking\<close>

definition tt_dlist_push_head :: "'l \<Rightarrow> nat \<Rightarrow> ('l, 'z) dlists \<Rightarrow> ('l, 'z) dlists run" where
  "tt_dlist_push_head dl dn s =
    bindr (dnode_fresh dn s) (\<lambda>_.
    bindr (lh_ld dl_head s dl) (\<lambda>head.
    bindr (case head of
             Some h \<Rightarrow> bindr (ln_st (\<lambda>n. n\<lparr>d_prev := Some dn\<rparr>) s h) (\<lambda>s. ln_st (\<lambda>n. n\<lparr>d_next := Some h\<rparr>) s dn)
           | None \<Rightarrow> lh_st (\<lambda>h. h\<lparr>dl_tail := Some dn\<rparr>) s dl) (\<lambda>s.
    lh_st (\<lambda>h. h\<lparr>dl_head := Some dn\<rparr>) s dl)))"

definition tt_dlist_push_tail :: "'l \<Rightarrow> nat \<Rightarrow> ('l, 'z) dlists \<Rightarrow> ('l, 'z) dlists run" where
  "tt_dlist_push_tail dl dn s =
    bindr (dnode_fresh dn s) (\<lambda>_.
    bindr (lh_ld dl_tail s dl) (\<lambda>tail.
    bindr (case tail of
             Some t \<Rightarrow> bindr (ln_st (\<lambda>n. n\<lparr>d_next := Some dn\<rparr>) s t) (\<lambda>s. ln_st (\<lambda>n. n\<lparr>d_prev := Some t\<rparr>) s dn)
           | None \<Rightarrow> lh_st (\<lambda>h. h\<lparr>dl_head := Some dn\<rparr>) s dl) (\<lambda>s.
    lh_st (\<lambda>h. h\<lparr>dl_tail := Some dn\<rparr>) s dl)))"

definition dnode_unlink :: "nat \<Rightarrow> ('l, 'z) dlists \<Rightarrow> ('l, 'z) dlists run" where
  "dnode_unlink dn s =
    bindr (ln_st (\<lambda>n. n\<lparr>d_next := None\<rparr>) s dn) (\<lambda>s. ln_st (\<lambda>n. n\<lparr>d_prev := None\<rparr>) s dn)"

definition tt_dlist_pop_head :: "'l \<Rightarrow> ('l, 'z) dlists \<Rightarrow> (ptr \<times> ('l, 'z) dlists) run" where
  "tt_dlist_pop_head dl s =
    bindr (lh_ld dl_head s dl) (\<lambda>head.
    case head of None \<Rightarrow> Inr (None, s)
    | Some h \<Rightarrow>
      bindr (ln_ld d_next s h) (\<lambda>nx.
      bindr (lh_st (\<lambda>h. h\<lparr>dl_head := nx\<rparr>) s dl) (\<lambda>s.
      bindr (case nx of
               Some x \<Rightarrow> ln_st (\<lambda>n. n\<lparr>d_prev := None\<rparr>) s x
             | None \<Rightarrow> lh_st (\<lambda>h. h\<lparr>dl_tail := None\<rparr>) s dl) (\<lambda>s.
      bindr (dnode_unlink h s) (\<lambda>s. Inr (Some h, s))))))"

definition tt_dlist_pop_tail :: "'l \<Rightarrow> ('l, 'z) dlists \<Rightarrow> (ptr \<times> ('l, 'z) dlists) run" where
  "tt_dlist_pop_tail dl s =
    bindr (lh_ld dl_tail s dl) (\<lambda>tail.
    case tail of None \<Rightarrow> Inr (None, s)
    | Some t \<Rightarrow>
      bindr (ln_ld d_prev s t) (\<lambda>pv.
      bindr (case pv of
               Some x \<Rightarrow> ln_st (\<lambda>n. n\<lparr>d_next := None\<rparr>) s x
             | None \<Rightarrow> lh_st (\<lambda>h. h\<lparr>dl_head := None\<rparr>) s dl) (\<lambda>s.
      bindr (lh_st (\<lambda>h. h\<lparr>dl_tail := pv\<rparr>) s dl) (\<lambda>s.
      bindr (dnode_unlink t s) (\<lambda>s. Inr (Some t, s))))))"

partial_function (option) dlist_clear_loop :: "'l \<Rightarrow> ('l, 'z) dlists \<Rightarrow> ('l, 'z) dlists run option" where
  "dlist_clear_loop dl s =
    (case tt_dlist_pop_head dl s of
       Inl f \<Rightarrow> Some (Inl f)
     | Inr r \<Rightarrow> if fst r \<noteq> None then dlist_clear_loop dl (snd r) else Some (Inr (snd r)))"

definition tt_dlist_clear :: "'l \<Rightarrow> ('l, 'z) dlists \<Rightarrow> ('l, 'z) dlists run" where
  "tt_dlist_clear dl s = returned (dlist_clear_loop dl s)"

partial_function (option) dlist_contain_loop :: "ptr \<Rightarrow> nat \<Rightarrow> ('l, 'z) dlists \<Rightarrow> bool run option" where
  "dlist_contain_loop node dn s =
    (case node of None \<Rightarrow> Some (Inr False)
     | Some a \<Rightarrow>
       if a = dn then Some (Inr True)
       else (case ln_ld d_next s a of Inl f \<Rightarrow> Some (Inl f) | Inr nx \<Rightarrow> dlist_contain_loop nx dn s))"

definition tt_dlist_contain :: "'l \<Rightarrow> nat \<Rightarrow> ('l, 'z) dlists \<Rightarrow> bool run" where
  "tt_dlist_contain dl dn s = bindr (lh_ld dl_head s dl) (\<lambda>h. returned (dlist_contain_loop h dn s))"

definition tt_dlist_remove :: "'l \<Rightarrow> nat \<Rightarrow> ('l, 'z) dlists \<Rightarrow> (ptr \<times> ('l, 'z) dlists) run" where
  "tt_dlist_remove dl dn s =
    bindr (ln_ld d_next s dn) (\<lambda>nx.
    bindr (ln_ld d_prev s dn) (\<lambda>pv.
    bindr (lh_ld dl_head s dl) (\<lambda>head.
    if nx = None \<and> pv = None \<and> head \<noteq> Some dn then Inr (None, s)
    else
      bindr (tt_dlist_contain dl dn s) (\<lambda>c.
      bindr (TT_ASSERT c) (\<lambda>_.
      bindr (case nx of
               Some x \<Rightarrow> ln_st (\<lambda>n. n\<lparr>d_prev := pv\<rparr>) s x
             | None \<Rightarrow> lh_st (\<lambda>h. h\<lparr>dl_tail := pv\<rparr>) s dl) (\<lambda>s.
      bindr (ln_ld d_prev s dn) (\<lambda>pv.
      bindr (case pv of
               Some x \<Rightarrow> ln_st (\<lambda>n. n\<lparr>d_next := nx\<rparr>) s x
             | None \<Rightarrow> lh_st (\<lambda>h. h\<lparr>dl_head := nx\<rparr>) s dl) (\<lambda>s.
      bindr (dnode_unlink dn s) (\<lambda>s. Inr (nx, s))))))))))"

definition tt_dlist_move :: "'l \<Rightarrow> 'l \<Rightarrow> ('l, 'z) dlists \<Rightarrow> ('l, 'z) dlists run" where
  "tt_dlist_move dst src s =
    bindr (tt_dlist_empty src s) (\<lambda>e.
    if e then Inr s else
    bindr (lh_ld dl_tail s dst) (\<lambda>dt.
    bindr (lh_ld dl_head s src) (\<lambda>sh.
    bindr (case dt of
             Some t \<Rightarrow>
               bindr (ln_st (\<lambda>n. n\<lparr>d_next := sh\<rparr>) s t) (\<lambda>s.
               case sh of None \<Rightarrow> Inl Undef | Some h \<Rightarrow> ln_st (\<lambda>n. n\<lparr>d_prev := Some t\<rparr>) s h)
           | None \<Rightarrow> lh_st (\<lambda>h. h\<lparr>dl_head := sh\<rparr>) s dst) (\<lambda>s.
    bindr (lh_ld dl_tail s src) (\<lambda>st.
    bindr (lh_st (\<lambda>h. h\<lparr>dl_tail := st\<rparr>) s dst) (\<lambda>s.
    tt_dlist_init src s))))))"

definition tt_dlist_insert_before :: "'l \<Rightarrow> nat \<Rightarrow> nat \<Rightarrow> ('l, 'z) dlists \<Rightarrow> ('l, 'z) dlists run" where
  "tt_dlist_insert_before dl pos dn s =
    bindr (dnode_fresh dn s) (\<lambda>_.
    bindr (ln_ld d_prev s pos) (\<lambda>pv.
    bindr (case pv of
             Some x \<Rightarrow> ln_st (\<lambda>n. n\<lparr>d_next := Some dn\<rparr>) s x
           | None \<Rightarrow> lh_st (\<lambda>h. h\<lparr>dl_head := Some dn\<rparr>) s dl) (\<lambda>s.
    bindr (ln_ld d_prev s pos) (\<lambda>pv.
    bindr (ln_st (\<lambda>n. n\<lparr>d_prev := pv\<rparr>) s dn) (\<lambda>s.
    bindr (ln_st (\<lambda>n. n\<lparr>d_next := Some pos\<rparr>) s dn) (\<lambda>s.
    ln_st (\<lambda>n. n\<lparr>d_prev := Some dn\<rparr>) s pos))))))"

definition tt_dlist_insert_after :: "'l \<Rightarrow> nat \<Rightarrow> nat \<Rightarrow> ('l, 'z) dlists \<Rightarrow> ('l, 'z) dlists run" where
  "tt_dlist_insert_after dl pos dn s =
    bindr (dnode_fresh dn s) (\<lambda>_.
    bindr (ln_ld d_next s pos) (\<lambda>nx.
    bindr (case nx of
             Some x \<Rightarrow> ln_st (\<lambda>n. n\<lparr>d_prev := Some dn\<rparr>) s x
           | None \<Rightarrow> lh_st (\<lambda>h. h\<lparr>dl_tail := Some dn\<rparr>) s dl) (\<lambda>s.
    bindr (ln_ld d_next s pos) (\<lambda>nx.
    bindr (ln_st (\<lambda>n. n\<lparr>d_next := nx\<rparr>) s dn) (\<lambda>s.
    bindr (ln_st (\<lambda>n. n\<lparr>d_prev := Some pos\<rparr>) s dn) (\<lambda>s.
    ln_st (\<lambda>n. n\<lparr>d_next := Some dn\<rparr>) s pos))))))"

end
