(* ===== verification/TT_DList_Inv.thy ===== *)
theory TT_DList_Inv
  imports TT_DList TT_List_Spec
begin

text \<open>
  The doubly linked lists of a store as lists of node addresses, and what each operation does to them.
\<close>

section \<open>The invariant\<close>

abbreviation dlinks :: "('l, 'z) dlists \<Rightarrow> nat \<Rightarrow> ptr \<times> ptr" where
  "dlinks s a \<equiv> (d_prev (lnd s a), d_next (lnd s a))"

definition dlist_ok :: "('l, 'z) dlists \<Rightarrow> ('l \<Rightarrow> nat list) \<Rightarrow> bool" where
  "dlist_ok s A \<longleftrightarrow>
     (\<forall>l h. ls_lists s l = Some h \<longrightarrow> dl_head h = first (A l) \<and> dl_tail h = final (A l))
   \<and> (\<forall>l. ls_lists s l = None \<longrightarrow> A l = []) \<and> (\<forall>l. distinct (A l)) \<and> (\<forall>l k a. a \<in> set (A l) \<longrightarrow> a \<in> set (A k) \<longrightarrow> k = l)
   \<and> (\<forall>l. \<forall>a \<in> set (A l). lcell s a \<and> dlinks s a = (before (A l) a, after (A l) a))
   \<and> (\<forall>a. lcell s a \<longrightarrow> off_lists a A \<longrightarrow> dlinks s a = (None, None))"

lemma dlist_okD:
  assumes "dlist_ok s A"
  shows "ls_lists s l = Some h \<Longrightarrow> dl_head h = first (A l) \<and> dl_tail h = final (A l)"
    "ls_lists s l = None \<Longrightarrow> A l = []" "distinct (A l)" "a \<in> set (A l) \<Longrightarrow> a \<in> set (A k) \<Longrightarrow> k = l"
    "a \<in> set (A l) \<Longrightarrow> lcell s a" "a \<in> set (A l) \<Longrightarrow> d_prev (lnd s a) = before (A l) a" "a \<in> set (A l) \<Longrightarrow> d_next (lnd s a) = after (A l) a"
    "lcell s a \<Longrightarrow> off_lists a A \<Longrightarrow> d_prev (lnd s a) = None \<and> d_next (lnd s a) = None"
proof -
  show "a \<in> set (A l) \<Longrightarrow> a \<in> set (A k) \<Longrightarrow> k = l" using assms unfolding dlist_ok_def by metis
qed (use assms in \<open>auto simp: dlist_ok_def\<close>)

lemma dlist_ok_lists:
  assumes "dlist_ok s A" "a \<in> set (A l)"
  obtains h where "ls_lists s l = Some h" "dl_head h = first (A l)" "dl_tail h = final (A l)"
proof (cases "ls_lists s l")
  case None
  then show thesis using dlist_okD(2) [OF assms(1)] assms(2) by fastforce
next
  case (Some h)
  then show thesis using that dlist_okD(1) [OF assms(1) Some] by blast
qed

section \<open>One node in or out\<close>

definition dlinked_in :: "'l \<Rightarrow> nat \<Rightarrow> nat list \<Rightarrow> nat list \<Rightarrow> ('l, 'z) dlists \<Rightarrow> ('l, 'z) dlists \<Rightarrow> bool" where
  "dlinked_in l a xs ys s s' \<longleftrightarrow> same_structs dnode.more s s' \<and>
     (\<exists>h. ls_lists s' = (ls_lists s)(l \<mapsto> h) \<and> dl_head h = first (xs @ a # ys) \<and> dl_tail h = final (xs @ a # ys))
     \<and> (\<forall>c. dlinks s' c = (if c = a then (final xs, first ys)
          else (if first ys = Some c then Some a else d_prev (lnd s c), if final xs = Some c then Some a else d_next (lnd s c))))"

definition dunlinked :: "'l \<Rightarrow> nat \<Rightarrow> nat list \<Rightarrow> nat list \<Rightarrow> ('l, 'z) dlists \<Rightarrow> ('l, 'z) dlists \<Rightarrow> bool" where
  "dunlinked l a xs ys s s' \<longleftrightarrow> same_structs dnode.more s s' \<and>
     (\<exists>h. ls_lists s' = (ls_lists s)(l \<mapsto> h) \<and> dl_head h = first (xs @ ys) \<and> dl_tail h = final (xs @ ys))
     \<and> (\<forall>c. dlinks s' c = (if c = a then (None, None)
          else (if first ys = Some c then final xs else d_prev (lnd s c), if final xs = Some c then first ys else d_next (lnd s c))))"

lemma dlinked_in_ok:
  assumes ok: "dlist_ok s A" and A: "A l = xs @ ys" and a: "lcell s a" "off_lists a A" and s': "dlinked_in l a xs ys s s'"
  shows "dlist_ok s' (A(l := xs @ a # ys))"
proof -
  note D = dlist_okD [OF ok]
  obtain h where same: "same_structs dnode.more s s'" and h: "ls_lists s' = (ls_lists s)(l \<mapsto> h)"
    "dl_head h = first (xs @ a # ys)" "dl_tail h = final (xs @ a # ys)"
    and k: "\<And>c. dlinks s' c = (if c = a then (final xs, first ys)
      else (if first ys = Some c then Some a else d_prev (lnd s c), if final xs = Some c then Some a else d_next (lnd s c)))"
    using s' unfolding dlinked_in_def by blast
  have out: "a \<notin> set (A k)" for k using a(2) by (simp add: off_lists_def)
  have dist: "distinct (xs @ a # ys)" using D(3) [of l] out [of l] unfolding A by auto
  have c: "lcell s' = lcell s" using same_structsD(1) [OF same] by (simp add: fun_eq_iff)
  have other: "first ys \<noteq> Some b \<and> final xs \<noteq> Some b" if "b \<notin> set (A l)" for b
    using that first_in [of ys b] final_in [of xs b] unfolding A by auto
  have mem: "b \<in> set ((A(l := xs @ a # ys)) k) \<longleftrightarrow> b \<in> set (A k) \<or> (b = a \<and> k = l)" for b k
    using A by auto
  show ?thesis
    unfolding dlist_ok_def
  proof (intro conjI allI impI ballI)
    fix k b
    assume b: "b \<in> set ((A(l := xs @ a # ys)) k)"
    show "dlinks s' b = (before ((A(l := xs @ a # ys)) k) b, after ((A(l := xs @ a # ys)) k) b)"
    proof (cases "k = l")
      case True
      consider "b = a" | "b \<noteq> a" "b \<in> set (A l)" using b True A by auto
      then show ?thesis
      proof cases
        case 2
        have "d_prev (lnd s b) = before (xs @ ys) b" "d_next (lnd s b) = after (xs @ ys) b"
          using D(6,7) [OF 2(2)] A by simp_all
        then show ?thesis using True 2(1) by (simp add: k after_insert [OF dist] before_insert [OF dist])
      qed (simp add: True k after_insert [OF dist] before_insert [OF dist])
    next
      case False
      then have "b \<notin> set (A l)" using b D(4) [of b k l] by auto
      then show ?thesis using b other [of b] D(6,7) [of b k] out [of k] False by (auto simp: k)
    qed
  next
    fix b
    assume b: "lcell s' b" "off_lists b (A(l := xs @ a # ys))"
    then have "b \<noteq> a" "off_lists b A" unfolding off_lists_def mem by metis+
    then show "dlinks s' b = (None, None)" using D(8) [of b] b(1) other [of b] by (simp add: c k off_lists_def)
  next
    fix k j
    assume j: "ls_lists s' k = Some j"
    show "dl_head j = first ((A(l := xs @ a # ys)) k)" "dl_tail j = final ((A(l := xs @ a # ys)) k)"
      using j h D(1) [of k j] by (cases "k = l"; simp)+
  next
    fix k
    assume "ls_lists s' k = None"
    then show "(A(l := xs @ a # ys)) k = []" using h D(2) [of k] by (cases "k = l") simp_all
  next
    fix k
    show "distinct ((A(l := xs @ a # ys)) k)" using dist D(3) [of k] by simp
  next
    fix k b
    assume "b \<in> set ((A(l := xs @ a # ys)) k)"
    then show "lcell s' b" using c D(5) [of b k] D(5) [of b l] a A by (auto split: if_splits)
  next
    fix k j b
    assume "b \<in> set ((A(l := xs @ a # ys)) k)" "b \<in> set ((A(l := xs @ a # ys)) j)"
    then show "j = k" unfolding mem using D(4) out by metis
  qed
qed

lemma dunlinked_ok:
  assumes ok: "dlist_ok s A" and A: "A l = xs @ a # ys" and s': "dunlinked l a xs ys s s'"
  shows "dlist_ok s' (A(l := xs @ ys))"
proof -
  note D = dlist_okD [OF ok]
  obtain h where same: "same_structs dnode.more s s'" and h: "ls_lists s' = (ls_lists s)(l \<mapsto> h)"
    "dl_head h = first (xs @ ys)" "dl_tail h = final (xs @ ys)"
    and k: "\<And>c. dlinks s' c = (if c = a then (None, None)
      else (if first ys = Some c then final xs else d_prev (lnd s c), if final xs = Some c then first ys else d_next (lnd s c)))"
    using s' unfolding dunlinked_def by blast
  have dist: "distinct (xs @ a # ys)" using D(3) [of l] unfolding A .
  then have dist': "distinct (xs @ ys)" by auto
  have c: "lcell s' = lcell s" using same_structsD(1) [OF same] by (simp add: fun_eq_iff)
  have other: "first ys \<noteq> Some b \<and> final xs \<noteq> Some b \<and> b \<noteq> a" if "b \<notin> set (A l)" for b
    using that first_in [of ys b] final_in [of xs b] unfolding A by auto
  have nb: "before (xs @ ys) b = (if first ys = Some b then final xs else d_prev (lnd s b))"
    "after (xs @ ys) b = (if final xs = Some b then first ys else d_next (lnd s b))" if "b \<in> set (xs @ ys)" for b
  proof -
    have b: "b \<in> set (A l)" "b \<noteq> a" using that dist A by auto
    have "first ys = Some b \<Longrightarrow> b \<notin> set xs" "final xs = Some b \<Longrightarrow> b \<notin> set ys"
      using dist' by (auto dest!: first_in final_in)
    then show "before (xs @ ys) b = (if first ys = Some b then final xs else d_prev (lnd s b))"
      "after (xs @ ys) b = (if final xs = Some b then first ys else d_next (lnd s b))"
      using D(6,7) [OF b(1)] b(2) before_insert [OF dist, of b] after_insert [OF dist, of b]
        before_join [OF dist', of b] after_join [OF dist', of b] A by (auto dest: first_in final_in)
  qed
  have mem: "b \<in> set ((A(l := xs @ ys)) k) \<longleftrightarrow> b \<in> set (A k) \<and> b \<noteq> a" for b k
  proof (cases "k = l")
    case True
    then show ?thesis using A dist by auto
  next
    case False
    then show ?thesis using D(4) [of a k l] A by auto
  qed
  show ?thesis
    unfolding dlist_ok_def
  proof (intro conjI allI impI ballI)
    fix k b
    assume b: "b \<in> set ((A(l := xs @ ys)) k)"
    show "dlinks s' b = (before ((A(l := xs @ ys)) k) b, after ((A(l := xs @ ys)) k) b)"
    proof (cases "k = l")
      case True
      then have "b \<in> set (xs @ ys)" "b \<noteq> a" using b dist by auto
      then show ?thesis using True nb [of b] by (simp add: k)
    next
      case False
      then have "b \<notin> set (A l)" using b D(4) [of b k l] by auto
      then show ?thesis using b other [of b] D(6,7) [of b k] False by (auto simp: k)
    qed
  next
    fix b
    assume b: "lcell s' b" "off_lists b (A(l := xs @ ys))"
    show "dlinks s' b = (None, None)"
    proof (cases "b = a")
      case False
      then have "off_lists b A" using b(2) unfolding off_lists_def mem by blast
      moreover have "b \<notin> set (A l)" using calculation by (simp add: off_lists_def)
      ultimately show ?thesis using D(8) [of b] b(1) other [of b] False by (simp add: c k)
    qed (simp add: k)
  next
    fix k j
    assume j: "ls_lists s' k = Some j"
    show "dl_head j = first ((A(l := xs @ ys)) k)" "dl_tail j = final ((A(l := xs @ ys)) k)"
      using j h D(1) [of k j] by (cases "k = l"; simp)+
  next
    fix k
    assume "ls_lists s' k = None"
    then show "(A(l := xs @ ys)) k = []" using h D(2) [of k] by (cases "k = l") simp_all
  next
    fix k
    show "distinct ((A(l := xs @ ys)) k)" using dist' D(3) [of k] by simp
  next
    fix k b
    assume "b \<in> set ((A(l := xs @ ys)) k)"
    then show "lcell s' b" using c D(5) [of b k] D(5) [of b l] A by (auto split: if_splits)
  next
    fix k j b
    assume "b \<in> set ((A(l := xs @ ys)) k)" "b \<in> set ((A(l := xs @ ys)) j)"
    then show "j = k" unfolding mem using D(4) by metis
  qed
qed

section \<open>Walking\<close>

lemma dlist_ok_at:
  assumes ok: "dlist_ok s A" and A: "A l = xs @ a # ys"
  shows "lcell s a" "d_prev (lnd s a) = final xs" "d_next (lnd s a) = first ys"
    "final xs = Some b \<Longrightarrow> lcell s b \<and> b \<noteq> a \<and> b \<notin> set ys" "first ys = Some b \<Longrightarrow> lcell s b \<and> b \<noteq> a \<and> b \<notin> set xs"
proof -
  have d: "distinct (xs @ a # ys)" using dlist_okD(3) [OF ok, of l] unfolding A .
  have a: "a \<in> set (A l)" unfolding A by simp
  show "lcell s a" "d_prev (lnd s a) = final xs" "d_next (lnd s a) = first ys"
    using dlist_okD(5-7) [OF ok a] after_insert [OF d] before_insert [OF d] unfolding A by simp_all
  show "final xs = Some b \<Longrightarrow> lcell s b \<and> b \<noteq> a \<and> b \<notin> set ys" "first ys = Some b \<Longrightarrow> lcell s b \<and> b \<noteq> a \<and> b \<notin> set xs"
    using d dlist_okD(5) [OF ok, of b l] unfolding A by (auto dest!: first_in final_in)
qed

lemma dlist_walk:
  assumes ok: "dlist_ok s A" and A: "A l = xs @ ys"
  shows "dlist_contain_loop (first ys) d s = Some (Inr (d \<in> set ys))"
    "dlist_count_loop (first ys) c s = Some (Inr (c + of_nat (length ys)))"
  using A
proof (induction ys arbitrary: xs c)
  case Nil
  {
    case 1
    show ?case by (subst dlist_contain_loop.simps) simp
  next
    case 2
    show ?case by (subst dlist_count_loop.simps) simp
  }
next
  case (Cons y ys)
  {
    case 1
    then have "A l = (xs @ [y]) @ ys" by simp
    note IH = Cons.IH(1) [OF this] and L = dlist_ok_at [OF ok 1]
    show ?case using IH L by (subst dlist_contain_loop.simps) (simp add: ll_run)
  next
    case 2
    then have "A l = (xs @ [y]) @ ys" by simp
    note IH = Cons.IH(2) [OF this, of "c + 1"] and L = dlist_ok_at [OF ok 2]
    show ?case using IH L by (subst dlist_count_loop.simps) (simp add: ll_run algebra_simps)
  }
qed

lemma dlist_reads:
  assumes ok: "dlist_ok s A" and l: "ls_lists s l = Some h"
  shows "tt_dlist_contain l d s = Inr (d \<in> set (A l))" "tt_dlist_count l s = Inr (of_nat (length (A l)))"
    "tt_dlist_empty l s = Inr (A l = [])" "tt_dlist_head l s = Inr (first (A l))" "tt_dlist_tail l s = Inr (final (A l))"
  using dlist_walk [OF ok, of l "[]" "A l"] dlist_okD(1) [OF ok l]
  by (simp_all add: tt_dlist_contain_def tt_dlist_count_def tt_dlist_empty_def tt_dlist_head_def tt_dlist_tail_def ll_run lh_ld_list [OF l])

section \<open>The operations\<close>

lemmas dlinks_eval = map_upd_eq dlinked_in_def dunlinked_def same_structs_def same_cells_upd dnode_unlink_def dnode_fresh_def

lemma dlist_push_head_ok:
  assumes ok: "dlist_ok s A" and a: "lcell s a" "off_lists a A" and l: "ls_lists s l = Some h"
  shows "\<exists>s'. tt_dlist_push_head l a s = Inr s' \<and> dlinked_in l a [] (A l) s s'"
proof (cases "A l")
  case Nil
  then show ?thesis using a l dlist_okD(1) [OF ok l] dlist_okD(8) [OF ok a]
    by (simp add: tt_dlist_push_head_def ll_run dlinks_eval insert_absorb domI)
next
  case (Cons y ys)
  then have y: "lcell s y" "y \<noteq> a" using dlist_okD(5) [OF ok, of y l] a(2) unfolding off_lists_def by (auto dest: spec [of _ l])
  then show ?thesis using a l dlist_okD(1) [OF ok l] dlist_okD(8) [OF ok a] Cons
    by (simp add: tt_dlist_push_head_def ll_run dlinks_eval insert_absorb domI)
qed

lemma dlist_push_tail_ok:
  assumes ok: "dlist_ok s A" and a: "lcell s a" "off_lists a A" and l: "ls_lists s l = Some h"
  shows "\<exists>s'. tt_dlist_push_tail l a s = Inr s' \<and> dlinked_in l a (A l) [] s s'"
proof (cases "A l" rule: rev_cases)
  case Nil
  then show ?thesis using a l dlist_okD(1) [OF ok l] dlist_okD(8) [OF ok a]
    by (simp add: tt_dlist_push_tail_def ll_run dlinks_eval insert_absorb domI)
next
  case (snoc ys y)
  then have y: "lcell s y" "y \<noteq> a" using dlist_okD(5) [OF ok, of y l] a(2) unfolding off_lists_def by (auto dest: spec [of _ l])
  then show ?thesis using a l dlist_okD(1) [OF ok l] dlist_okD(8) [OF ok a] snoc
    by (cases ys) (simp_all add: tt_dlist_push_tail_def ll_run dlinks_eval insert_absorb domI)
qed

lemma dlist_insert_before_ok:
  assumes ok: "dlist_ok s A" and A: "A l = xs @ p # ys" and a: "lcell s a" "off_lists a A"
  shows "\<exists>s'. tt_dlist_insert_before l p a s = Inr s' \<and> dlinked_in l a xs (p # ys) s s'"
proof -
  note L = dlist_ok_at [OF ok A]
  have "p \<in> set (A l)" unfolding A by simp
  from dlist_ok_lists [OF ok this] obtain h where h: "ls_lists s l = Some h" "dl_head h = first (A l)" "dl_tail h = final (A l)" .
  have out: "a \<notin> set (A l)" using a(2) by (simp add: off_lists_def)
  show ?thesis
  proof (cases "final xs")
    case None
    then show ?thesis using L(1-3) h A a out dlist_okD(8) [OF ok a]
      by (auto simp: tt_dlist_insert_before_def ll_run dlinks_eval insert_absorb domI)
  next
    case (Some q)
    then have "q \<noteq> a" using out A final_in by fastforce
    then show ?thesis using L(1-3) L(4) [OF Some] Some h A a out dlist_okD(8) [OF ok a]
      by (auto simp: tt_dlist_insert_before_def ll_run dlinks_eval insert_absorb domI final_eq_Some)
  qed
qed

lemma dlist_insert_after_ok:
  assumes ok: "dlist_ok s A" and A: "A l = xs @ p # ys" and a: "lcell s a" "off_lists a A"
  shows "\<exists>s'. tt_dlist_insert_after l p a s = Inr s' \<and> dlinked_in l a (xs @ [p]) ys s s'"
proof -
  note L = dlist_ok_at [OF ok A]
  have "p \<in> set (A l)" unfolding A by simp
  from dlist_ok_lists [OF ok this] obtain h where h: "ls_lists s l = Some h" "dl_head h = first (A l)" "dl_tail h = final (A l)" .
  have out: "a \<notin> set (A l)" using a(2) by (simp add: off_lists_def)
  show ?thesis
  proof (cases "first ys")
    case None
    then show ?thesis using L(1-3) h A a out dlist_okD(8) [OF ok a]
      by (auto simp: tt_dlist_insert_after_def ll_run dlinks_eval insert_absorb domI)
  next
    case (Some q)
    then have "q \<noteq> a" using out A first_in by fastforce
    then show ?thesis using L(1-3) L(5) [OF Some] Some h A a out dlist_okD(8) [OF ok a]
      by (auto simp: tt_dlist_insert_after_def ll_run dlinks_eval insert_absorb domI first_eq_Some)
  qed
qed

lemma dlist_pop_head_ok:
  assumes ok: "dlist_ok s A" and A: "A l = a # ys"
  shows "\<exists>s'. tt_dlist_pop_head l s = Inr (Some a, s') \<and> dunlinked l a [] ys s s'"
proof -
  have A': "A l = [] @ a # ys" using A by simp
  note L = dlist_ok_at [OF ok A']
  have "a \<in> set (A l)" unfolding A by simp
  from dlist_ok_lists [OF ok this] obtain h where h: "ls_lists s l = Some h" "dl_head h = first (A l)" "dl_tail h = final (A l)" .
  show ?thesis
  proof (cases "first ys")
    case None
    then show ?thesis using L(1-3) h A by (auto simp: tt_dlist_pop_head_def ll_run dlinks_eval insert_absorb domI)
  next
    case (Some q)
    then show ?thesis using L(1-3) L(5) [OF Some] h A
      by (auto simp: tt_dlist_pop_head_def ll_run dlinks_eval insert_absorb domI first_eq_Some)
  qed
qed

lemma dlist_pop_tail_ok:
  assumes ok: "dlist_ok s A" and A: "A l = xs @ [a]"
  shows "\<exists>s'. tt_dlist_pop_tail l s = Inr (Some a, s') \<and> dunlinked l a xs [] s s'"
proof -
  note L = dlist_ok_at [OF ok A]
  have "a \<in> set (A l)" unfolding A by simp
  from dlist_ok_lists [OF ok this] obtain h where h: "ls_lists s l = Some h" "dl_head h = first (A l)" "dl_tail h = final (A l)" .
  show ?thesis
  proof (cases "final xs")
    case None
    then show ?thesis using L(1-3) h A by (auto simp: tt_dlist_pop_tail_def ll_run dlinks_eval insert_absorb domI)
  next
    case (Some q)
    then show ?thesis using L(1-3) L(4) [OF Some] h A
      by (auto simp: tt_dlist_pop_tail_def ll_run dlinks_eval insert_absorb domI final_eq_Some)
  qed
qed

lemma dlist_pop_empty:
  assumes "dlist_ok s A" "A l = []" "ls_lists s l = Some h"
  shows "tt_dlist_pop_head l s = Inr (None, s)" "tt_dlist_pop_tail l s = Inr (None, s)"
  using assms dlist_okD(1) [OF assms(1,3)] by (simp_all add: tt_dlist_pop_head_def tt_dlist_pop_tail_def ll_run)

lemma dlist_remove_ok:
  assumes ok: "dlist_ok s A" and A: "A l = xs @ a # ys"
  shows "\<exists>s'. tt_dlist_remove l a s = Inr (first ys, s') \<and> dunlinked l a xs ys s s'"
proof -
  note L = dlist_ok_at [OF ok A]
  have "a \<in> set (A l)" unfolding A by simp
  from dlist_ok_lists [OF ok this] obtain h where h: "ls_lists s l = Some h" "dl_head h = first (A l)" "dl_tail h = final (A l)" .
  have c: "tt_dlist_contain l a s = Inr True" using dlist_reads(1) [OF ok h(1), of a] unfolding A by simp
  have g: "\<not> (first ys = None \<and> final xs = None \<and> dl_head h \<noteq> Some a)" using h(2) A by auto
  show ?thesis
  proof (cases "final xs"; cases "first ys")
    assume *: "final xs = None" "first ys = None"
    then show ?thesis using L(1-3) h A c g by (simp add: tt_dlist_remove_def ll_run dlinks_eval insert_absorb domI)
  next
    fix q
    assume *: "final xs = None" "first ys = Some q"
    then show ?thesis using L(1-3) L(5) [OF *(2)] h A c g
      by (auto simp add: tt_dlist_remove_def ll_run dlinks_eval insert_absorb domI first_eq_Some)
  next
    fix p
    assume *: "final xs = Some p" "first ys = None"
    then show ?thesis using L(1-3) L(4) [OF *(1)] h A c g
      by (auto simp add: tt_dlist_remove_def ll_run dlinks_eval insert_absorb domI final_eq_Some)
  next
    fix p q
    assume *: "final xs = Some p" "first ys = Some q"
    then have "p \<noteq> q" using L(4) [OF *(1)] first_in by fastforce
    then show ?thesis using * L(1-3) L(4) [OF *(1)] L(5) [OF *(2)] h A c g
      by (auto simp add: tt_dlist_remove_def ll_run dlinks_eval insert_absorb domI final_eq_Some first_eq_Some)
  qed
qed

lemma dlist_remove_none:
  assumes ok: "dlist_ok s A" and a: "lcell s a" "off_lists a A" and l: "ls_lists s l = Some h"
  shows "tt_dlist_remove l a s = Inr (None, s)"
proof -
  have "first (A l) \<noteq> Some a" using a(2) first_in [of "A l" a] by (auto simp: off_lists_def)
  then show ?thesis using dlist_okD(1) [OF ok l] dlist_okD(8) [OF ok a] a l by (simp add: tt_dlist_remove_def ll_run)
qed

end
