(* ===== verification/TT_List_Props.thy ===== *)
theory TT_List_Props
  imports TT_List_Inv TT_DList_Inv
begin

text \<open>
  The lists keep the contract of \<open>node_lists\<close>: its interpretations by the operations of \<^verbatim>\<open>tt_list\<close> and of
  \<^verbatim>\<open>tt_dlist\<close>, and their properties with concrete stores.
\<close>

section \<open>Lists with a count\<close>

fun list_step :: "'l list_op \<Rightarrow> ('l, 'z) lists \<Rightarrow> (ptr \<times> ('l, 'z) lists) run" where
  "list_step (ListPushHead l a) s = bindr (tt_list_push_head l a s) (\<lambda>s. Inr (None, s))"
| "list_step (ListPushTail l a) s = bindr (tt_list_push_tail l a s) (\<lambda>s. Inr (None, s))"
| "list_step (ListPopHead l) s = tt_list_pop_head l s"
| "list_step (ListPopTail l) s = tt_list_pop_tail l s"
| "list_step (ListBefore l p a) s = bindr (tt_list_insert_before p a s) (\<lambda>s. Inr (None, s))"
| "list_step (ListAfter l p a) s = bindr (tt_list_insert_after p a s) (\<lambda>s. Inr (None, s))"
| "list_step (ListRemove l a) s = tt_list_remove a s"
| "list_step (ListClear l) s = bindr (tt_list_clear l s) (\<lambda>s. Inr (None, s))"

lemma linked_in_same: "linked_in l a xs ys s s' \<Longrightarrow> same_structs lnode.more s s'"
  by (simp add: linked_in_def)

lemma unlinked_same: "unlinked l a xs ys s s' \<Longrightarrow> same_structs lnode.more s s'"
  by (simp add: unlinked_def)

lemma list_clear_loop_ok:
  assumes "list_ok s A" "ls_lists s l \<noteq> None"
  shows "\<exists>s'. list_clear_loop l s = Some (Inr s') \<and> list_ok s' (A(l := [])) \<and> same_structs lnode.more s s'"
  using assms
proof (induction "A l" arbitrary: s A)
  case Nil
  then have "A(l := []) = A" by auto
  then show ?case using Nil list_pop_empty(1) [OF Nil(2)] by (subst list_clear_loop.simps) auto
next
  case (Cons a xs)
  from list_pop_head_ok [OF Cons.prems(1) Cons.hyps(2) [symmetric]] obtain s1 where
    s1: "tt_list_pop_head l s = Inr (Some a, s1)" "unlinked l a [] xs s s1" by blast
  have ok: "list_ok s1 (A(l := xs))" using unlinked_ok [OF Cons.prems(1), of l "[]" a xs s1] Cons.hyps(2) s1(2) by simp
  note same = unlinked_same [OF s1(2)]
  have "ls_lists s1 l \<noteq> None" using same_structsD(3) [OF same] Cons.prems(2) by simp
  with Cons.hyps(1) [of "A(l := xs)" s1] ok obtain s2 where
    "list_clear_loop l s1 = Some (Inr s2)" "list_ok s2 (A(l := []))" "same_structs lnode.more s1 s2" by auto
  then show ?case using s1(1) same_structs_trans [OF same] by (subst list_clear_loop.simps) auto
qed

lemma in_split:
  assumes "a \<in> set xs"
  obtains us vs where "xs = us @ a # vs"
  using assms by (auto simp: in_set_conv_decomp)

lemma off_split:
  assumes "\<not> off_lists a A"
  obtains k us vs where "A k = us @ a # vs"
  using assms by (auto simp: off_lists_def in_set_conv_decomp)

lemma off_lists_lst: "list_ok s A \<Longrightarrow> lcell s a \<Longrightarrow> off_lists a A \<longleftrightarrow> l_lst (lnd s a) = None"
  unfolding off_lists_def using list_okD(5,8) [of s A a] by (metis not_Some_eq)

lemma same_structs_view:
  assumes "same_structs d s s'"
  shows "lcell s' = lcell s" "(\<lambda>l. ls_lists s' l \<noteq> None) = (\<lambda>l. ls_lists s l \<noteq> None)" "(\<lambda>a. d (lnd s' a)) = (\<lambda>a. d (lnd s a))"
  using same_structsD [OF assms] by (simp_all add: fun_eq_iff)

lemma list_step_ok:
  assumes ok: "list_ok s A" and names: "list_names op (lcell s) (\<lambda>l. ls_lists s l \<noteq> None)" and allowed: "list_allowed op A"
  shows "\<exists>r s' B. list_step op s = Inr (r, s') \<and> list_spec op A r B \<and> list_ok s' B \<and> same_structs lnode.more s s'"
proof (cases op)
  case (ListPushHead l a)
  then have a: "lcell s a" "l_lst (lnd s a) = None" and l: "ls_lists s l \<noteq> None"
    using names allowed off_lists_lst [OF ok, of a] by auto
  from l obtain h where "ls_lists s l = Some h" by blast
  from list_push_head_ok [OF ok a this] obtain s' where s': "tt_list_push_head l a s = Inr s'" "linked_in l a [] (A l) s s'" by blast
  have "list_ok s' (A(l := [] @ a # A l))" by (rule linked_in_ok [OF ok _ a s'(2)]) simp
  then show ?thesis using ListPushHead s' linked_in_same [OF s'(2)] allowed by (auto intro: list_spec.intros)
next
  case (ListPushTail l a)
  then have a: "lcell s a" "l_lst (lnd s a) = None" and l: "ls_lists s l \<noteq> None"
    using names allowed off_lists_lst [OF ok, of a] by auto
  from l obtain h where "ls_lists s l = Some h" by blast
  from list_push_tail_ok [OF ok a this] obtain s' where s': "tt_list_push_tail l a s = Inr s'" "linked_in l a (A l) [] s s'" by blast
  have "list_ok s' (A(l := A l @ [a]))" by (rule linked_in_ok [OF ok _ a s'(2)]) simp
  then show ?thesis using ListPushTail s' linked_in_same [OF s'(2)] allowed by (auto intro: list_spec.intros)
next
  case (ListPopHead l)
  then obtain h where h: "ls_lists s l = Some h" using names by auto
  show ?thesis
  proof (cases "A l")
    case Nil
    then show ?thesis using ListPopHead list_pop_empty(1) [OF ok Nil h] ok by (auto intro: list_spec.intros)
  next
    case (Cons a ys)
    from list_pop_head_ok [OF ok Cons] obtain s' where s': "tt_list_pop_head l s = Inr (Some a, s')" "unlinked l a [] ys s s'" by blast
    have "list_ok s' (A(l := [] @ ys))" by (rule unlinked_ok [OF ok _ s'(2)]) (simp add: Cons)
    then show ?thesis using ListPopHead s' unlinked_same [OF s'(2)] Cons by (auto intro: list_spec.intros)
  qed
next
  case (ListPopTail l)
  then obtain h where h: "ls_lists s l = Some h" using names by auto
  show ?thesis
  proof (cases "A l" rule: rev_cases)
    case Nil
    then show ?thesis using ListPopTail list_pop_empty(2) [OF ok Nil h] ok by (auto intro: list_spec.intros)
  next
    case (snoc xs a)
    from list_pop_tail_ok [OF ok snoc] obtain s' where s': "tt_list_pop_tail l s = Inr (Some a, s')" "unlinked l a xs [] s s'" by blast
    have "list_ok s' (A(l := xs @ []))" by (rule unlinked_ok [OF ok _ s'(2)]) (simp add: snoc)
    then show ?thesis using ListPopTail s' unlinked_same [OF s'(2)] snoc by (auto intro: list_spec.intros)
  qed
next
  case (ListBefore l p a)
  then have a: "lcell s a" "l_lst (lnd s a) = None" and p: "\<not> off_lists p A" using names allowed off_lists_lst [OF ok, of a] by auto
  from p obtain k xs ys where A: "A k = xs @ p # ys" by (rule off_split)
  from list_insert_before_ok [OF ok A a] obtain s' where s': "tt_list_insert_before p a s = Inr s'" "linked_in k a xs (p # ys) s s'" by blast
  show ?thesis using ListBefore s' linked_in_same [OF s'(2)] linked_in_ok [OF ok A a s'(2)] allowed A by (auto intro: list_spec.intros)
next
  case (ListAfter l p a)
  then have a: "lcell s a" "l_lst (lnd s a) = None" and p: "\<not> off_lists p A" using names allowed off_lists_lst [OF ok, of a] by auto
  from p obtain k xs ys where A: "A k = xs @ p # ys" by (rule off_split)
  from list_insert_after_ok [OF ok A a] obtain s' where s': "tt_list_insert_after p a s = Inr s'" "linked_in k a (xs @ [p]) ys s s'" by blast
  have "list_ok s' (A(k := (xs @ [p]) @ a # ys))" by (rule linked_in_ok [OF ok _ a s'(2)]) (simp add: A)
  then show ?thesis using ListAfter s' linked_in_same [OF s'(2)] allowed A by (auto intro: list_spec.intros)
next
  case (ListRemove l a)
  show ?thesis
  proof (cases "off_lists a A")
    case True
    then have "tt_list_remove a s = Inr (None, s)"
      using ListRemove names off_lists_lst [OF ok, of a] by (simp add: tt_list_remove_def ll_run)
    then show ?thesis using ListRemove ok True by (auto intro: list_spec.intros)
  next
    case False
    then obtain k xs ys where A: "A k = xs @ a # ys" by (rule off_split)
    from list_remove_ok [OF ok A] obtain s' where s': "tt_list_remove a s = Inr (first ys, s')" "unlinked k a xs ys s s'" by blast
    show ?thesis using ListRemove s' unlinked_same [OF s'(2)] unlinked_ok [OF ok A s'(2)] A by (auto intro: list_spec.intros)
  qed
next
  case (ListClear l)
  then obtain s' where "list_clear_loop l s = Some (Inr s')" "list_ok s' (A(l := []))" "same_structs lnode.more s s'"
    using list_clear_loop_ok [OF ok, of l] names by auto
  then show ?thesis using ListClear by (auto simp: tt_list_clear_def intro: list_spec.intros)
qed

interpretation ll: node_lists list_ok lcell "\<lambda>s l. ls_lists s l \<noteq> None" list_allowed list_step "\<lambda>s a. lnode.more (lnd s a)"
proof unfold_locales
  fix s :: "('l, 'z) lists" and A :: "'l \<Rightarrow> nat list" and op
  assume "list_ok s A" "list_names op (lcell s) (\<lambda>l. ls_lists s l \<noteq> None)" "list_allowed op A"
  from list_step_ok [OF this] show "\<exists>r s' B. list_step op s = Inr (r, s') \<and> list_spec op A r B \<and> list_ok s' B \<and> lcell s' = lcell s
    \<and> (\<lambda>l. ls_lists s' l \<noteq> None) = (\<lambda>l. ls_lists s l \<noteq> None) \<and> (\<lambda>a. lnode.more (lnd s' a)) = (\<lambda>a. lnode.more (lnd s a))"
    using same_structs_view by blast
qed simp_all

text \<open>Calls that break the contract fail an assertion before they change anything.\<close>

lemma list_refused:
  assumes ok: "list_ok s A" and a: "lcell s a"
  shows "\<not> off_lists a A \<Longrightarrow> tt_list_push_head l a s = Inl Throw" "\<not> off_lists a A \<Longrightarrow> tt_list_push_tail l a s = Inl Throw"
    "lcell s p \<Longrightarrow> \<not> off_lists a A \<or> off_lists p A \<Longrightarrow> tt_list_insert_before p a s = Inl Throw"
    "lcell s p \<Longrightarrow> \<not> off_lists a A \<or> off_lists p A \<Longrightarrow> tt_list_insert_after p a s = Inl Throw"
proof -
  have n: "off_lists b A \<longleftrightarrow> l_lst (lnd s b) = None" if "lcell s b" for b by (rule off_lists_lst [OF ok that])
  show "\<not> off_lists a A \<Longrightarrow> tt_list_push_head l a s = Inl Throw" "\<not> off_lists a A \<Longrightarrow> tt_list_push_tail l a s = Inl Throw"
    using n [OF a] a by (cases "l_lst (lnd s a)"; simp add: tt_list_push_head_def tt_list_push_tail_def ll_run)+
  show "tt_list_insert_before p a s = Inl Throw" "tt_list_insert_after p a s = Inl Throw"
    if "lcell s p" "\<not> off_lists a A \<or> off_lists p A"
    using n [OF a] n [OF that(1)] a that
    by (cases "l_lst (lnd s a)"; simp add: tt_list_insert_before_def tt_list_insert_after_def ll_run)+
qed

lemma list_reads:
  assumes ok: "list_ok s A" and l: "ls_lists s l = Some h"
  shows "tt_list_count l s = Inr (of_nat (length (A l)))" "tt_list_head l s = Inr (first (A l))" "tt_list_tail l s = Inr (final (A l))"
    "lcell s a \<Longrightarrow> tt_list_contain l a s = Inr (a \<in> set (A l))"
proof -
  have "lcell s a \<Longrightarrow> l_lst (lnd s a) = Some l \<longleftrightarrow> a \<in> set (A l)" using list_okD(5,8) [OF ok, of a l] by blast
  then show "lcell s a \<Longrightarrow> tt_list_contain l a s = Inr (a \<in> set (A l))" by (auto simp: tt_list_contain_def ll_run)
qed (use list_okD(1) [OF ok l] l in \<open>simp_all add: tt_list_count_def tt_list_head_def tt_list_tail_def ll_run\<close>)

section \<open>Lists without a count\<close>

fun dlist_step :: "'l list_op \<Rightarrow> ('l, 'z) dlists \<Rightarrow> (ptr \<times> ('l, 'z) dlists) run" where
  "dlist_step (ListPushHead l a) s = bindr (tt_dlist_push_head l a s) (\<lambda>s. Inr (None, s))"
| "dlist_step (ListPushTail l a) s = bindr (tt_dlist_push_tail l a s) (\<lambda>s. Inr (None, s))"
| "dlist_step (ListPopHead l) s = tt_dlist_pop_head l s"
| "dlist_step (ListPopTail l) s = tt_dlist_pop_tail l s"
| "dlist_step (ListBefore l p a) s = bindr (tt_dlist_insert_before l p a s) (\<lambda>s. Inr (None, s))"
| "dlist_step (ListAfter l p a) s = bindr (tt_dlist_insert_after l p a s) (\<lambda>s. Inr (None, s))"
| "dlist_step (ListRemove l a) s = tt_dlist_remove l a s"
| "dlist_step (ListClear l) s = bindr (tt_dlist_clear l s) (\<lambda>s. Inr (None, s))"

lemma dlinked_in_same: "dlinked_in l a xs ys s s' \<Longrightarrow> same_structs dnode.more s s'"
  by (simp add: dlinked_in_def)

lemma dunlinked_same: "dunlinked l a xs ys s s' \<Longrightarrow> same_structs dnode.more s s'"
  by (simp add: dunlinked_def)

lemma dlist_clear_loop_ok:
  assumes "dlist_ok s A" "ls_lists s l \<noteq> None"
  shows "\<exists>s'. dlist_clear_loop l s = Some (Inr s') \<and> dlist_ok s' (A(l := [])) \<and> same_structs dnode.more s s'"
  using assms
proof (induction "A l" arbitrary: s A)
  case Nil
  then have "A(l := []) = A" by auto
  then show ?case using Nil dlist_pop_empty(1) [OF Nil(2)] by (subst dlist_clear_loop.simps) auto
next
  case (Cons a xs)
  from dlist_pop_head_ok [OF Cons.prems(1) Cons.hyps(2) [symmetric]] obtain s1 where
    s1: "tt_dlist_pop_head l s = Inr (Some a, s1)" "dunlinked l a [] xs s s1" by blast
  have ok: "dlist_ok s1 (A(l := xs))" using dunlinked_ok [OF Cons.prems(1), of l "[]" a xs s1] Cons.hyps(2) s1(2) by simp
  note same = dunlinked_same [OF s1(2)]
  have "ls_lists s1 l \<noteq> None" using same_structsD(3) [OF same] Cons.prems(2) by simp
  with Cons.hyps(1) [of "A(l := xs)" s1] ok obtain s2 where
    "dlist_clear_loop l s1 = Some (Inr s2)" "dlist_ok s2 (A(l := []))" "same_structs dnode.more s1 s2" by auto
  then show ?case using s1(1) same_structs_trans [OF same] by (subst dlist_clear_loop.simps) auto
qed

lemma dlist_step_ok:
  assumes ok: "dlist_ok s A" and names: "list_names op (lcell s) (\<lambda>l. ls_lists s l \<noteq> None)" and allowed: "list_allowed op A" "list_told op A"
  shows "\<exists>r s' B. dlist_step op s = Inr (r, s') \<and> list_spec op A r B \<and> dlist_ok s' B \<and> same_structs dnode.more s s'"
proof (cases op)
  case (ListPushHead l a)
  then have a: "lcell s a" "off_lists a A" and l: "ls_lists s l \<noteq> None" using names allowed by auto
  from l obtain h where "ls_lists s l = Some h" by blast
  from dlist_push_head_ok [OF ok a this] obtain s' where s': "tt_dlist_push_head l a s = Inr s'" "dlinked_in l a [] (A l) s s'" by blast
  have "dlist_ok s' (A(l := [] @ a # A l))" by (rule dlinked_in_ok [OF ok _ a s'(2)]) simp
  then show ?thesis using ListPushHead s' dlinked_in_same [OF s'(2)] allowed by (auto intro: list_spec.intros)
next
  case (ListPushTail l a)
  then have a: "lcell s a" "off_lists a A" and l: "ls_lists s l \<noteq> None" using names allowed by auto
  from l obtain h where "ls_lists s l = Some h" by blast
  from dlist_push_tail_ok [OF ok a this] obtain s' where s': "tt_dlist_push_tail l a s = Inr s'" "dlinked_in l a (A l) [] s s'" by blast
  have "dlist_ok s' (A(l := A l @ [a]))" by (rule dlinked_in_ok [OF ok _ a s'(2)]) simp
  then show ?thesis using ListPushTail s' dlinked_in_same [OF s'(2)] allowed by (auto intro: list_spec.intros)
next
  case (ListPopHead l)
  then obtain h where h: "ls_lists s l = Some h" using names by auto
  show ?thesis
  proof (cases "A l")
    case Nil
    then show ?thesis using ListPopHead dlist_pop_empty(1) [OF ok Nil h] ok by (auto intro: list_spec.intros)
  next
    case (Cons a ys)
    from dlist_pop_head_ok [OF ok Cons] obtain s' where s': "tt_dlist_pop_head l s = Inr (Some a, s')" "dunlinked l a [] ys s s'" by blast
    have "dlist_ok s' (A(l := [] @ ys))" by (rule dunlinked_ok [OF ok _ s'(2)]) (simp add: Cons)
    then show ?thesis using ListPopHead s' dunlinked_same [OF s'(2)] Cons by (auto intro: list_spec.intros)
  qed
next
  case (ListPopTail l)
  then obtain h where h: "ls_lists s l = Some h" using names by auto
  show ?thesis
  proof (cases "A l" rule: rev_cases)
    case Nil
    then show ?thesis using ListPopTail dlist_pop_empty(2) [OF ok Nil h] ok by (auto intro: list_spec.intros)
  next
    case (snoc xs a)
    from dlist_pop_tail_ok [OF ok snoc] obtain s' where s': "tt_dlist_pop_tail l s = Inr (Some a, s')" "dunlinked l a xs [] s s'" by blast
    have "dlist_ok s' (A(l := xs @ []))" by (rule dunlinked_ok [OF ok _ s'(2)]) (simp add: snoc)
    then show ?thesis using ListPopTail s' dunlinked_same [OF s'(2)] snoc by (auto intro: list_spec.intros)
  qed
next
  case (ListBefore l p a)
  then have a: "lcell s a" "off_lists a A" and p: "p \<in> set (A l)" using names allowed by auto
  from p obtain xs ys where A: "A l = xs @ p # ys" by (rule in_split)
  from dlist_insert_before_ok [OF ok A a] obtain s' where s': "tt_dlist_insert_before l p a s = Inr s'" "dlinked_in l a xs (p # ys) s s'" by blast
  show ?thesis using ListBefore s' dlinked_in_same [OF s'(2)] dlinked_in_ok [OF ok A a s'(2)] allowed A by (auto intro: list_spec.intros)
next
  case (ListAfter l p a)
  then have a: "lcell s a" "off_lists a A" and p: "p \<in> set (A l)" using names allowed by auto
  from p obtain xs ys where A: "A l = xs @ p # ys" by (rule in_split)
  from dlist_insert_after_ok [OF ok A a] obtain s' where s': "tt_dlist_insert_after l p a s = Inr s'" "dlinked_in l a (xs @ [p]) ys s s'" by blast
  have "dlist_ok s' (A(l := (xs @ [p]) @ a # ys))" by (rule dlinked_in_ok [OF ok _ a s'(2)]) (simp add: A)
  then show ?thesis using ListAfter s' dlinked_in_same [OF s'(2)] allowed A by (auto intro: list_spec.intros)
next
  case (ListRemove l a)
  then obtain h where h: "ls_lists s l = Some h" and c: "lcell s a" using names by auto
  show ?thesis
  proof (cases "off_lists a A")
    case True
    then show ?thesis using ListRemove ok dlist_remove_none [OF ok c True h] by (auto intro: list_spec.intros)
  next
    case False
    then have "a \<in> set (A l)" using ListRemove allowed by simp
    then obtain xs ys where A: "A l = xs @ a # ys" by (rule in_split)
    from dlist_remove_ok [OF ok A] obtain s' where s': "tt_dlist_remove l a s = Inr (first ys, s')" "dunlinked l a xs ys s s'" by blast
    show ?thesis using ListRemove s' dunlinked_same [OF s'(2)] dunlinked_ok [OF ok A s'(2)] A by (auto intro: list_spec.intros)
  qed
next
  case (ListClear l)
  then obtain s' where "dlist_clear_loop l s = Some (Inr s')" "dlist_ok s' (A(l := []))" "same_structs dnode.more s s'"
    using dlist_clear_loop_ok [OF ok, of l] names by auto
  then show ?thesis using ListClear by (auto simp: tt_dlist_clear_def intro: list_spec.intros)
qed

interpretation dl: node_lists dlist_ok lcell "\<lambda>s l. ls_lists s l \<noteq> None" "\<lambda>op A. list_allowed op A \<and> list_told op A" dlist_step "\<lambda>s a. dnode.more (lnd s a)"
proof unfold_locales
  fix s :: "('l, 'z) dlists" and A :: "'l \<Rightarrow> nat list" and op
  assume "dlist_ok s A" "list_names op (lcell s) (\<lambda>l. ls_lists s l \<noteq> None)" "list_allowed op A \<and> list_told op A"
  then show "\<exists>r s' B. dlist_step op s = Inr (r, s') \<and> list_spec op A r B \<and> dlist_ok s' B \<and> lcell s' = lcell s
    \<and> (\<lambda>l. ls_lists s' l \<noteq> None) = (\<lambda>l. ls_lists s l \<noteq> None) \<and> (\<lambda>a. dnode.more (lnd s' a)) = (\<lambda>a. dnode.more (lnd s a))"
    using dlist_step_ok [of s A op] same_structs_view by blast
qed simp_all

text \<open>\<^verbatim>\<open>tt_dlist_move\<close> puts the nodes of one list behind those of another.\<close>

lemma map_upd2_eq: "k \<noteq> l \<Longrightarrow> f(k \<mapsto> x, l \<mapsto> y) = f(k \<mapsto> x', l \<mapsto> y') \<longleftrightarrow> x = x' \<and> y = y'"
  by (metis fun_upd_other fun_upd_same option.inject)

lemma dlist_move_eval:
  assumes ok: "dlist_ok s A" and ne: "dst \<noteq> src" and l: "ls_lists s dst = Some h1" "ls_lists s src = Some h2" and A: "A src = b # ys"
  shows "\<exists>s' h h'. tt_dlist_move dst src s = Inr s' \<and> ls_lists s' = (ls_lists s)(dst \<mapsto> h, src \<mapsto> h')
    \<and> dl_head h = first (A dst @ A src) \<and> dl_tail h = final (A dst @ A src) \<and> dl_head h' = None \<and> dl_tail h' = None
    \<and> same_structs dnode.more s s' \<and> (\<forall>c. dlinks s' c = (if b = c then final (A dst) else d_prev (lnd s c),
      if final (A dst) = Some c then Some b else d_next (lnd s c)))"
proof -
  note D = dlist_okD [OF ok]
  have e: "tt_dlist_empty src s = Inr False" using dlist_reads(3) [OF ok l(2)] A by simp
  have A': "A src = [] @ b # ys" using A by simp
  note L = dlist_ok_at [OF ok A']
  note H = D(1) [OF l(1)] D(1) [OF l(2)]
  have dom: "insert src (dom (ls_lists s)) = dom (ls_lists s)" "insert dst (insert src (dom (ls_lists s))) = dom (ls_lists s)"
    "insert src (insert dst (dom (ls_lists s))) = dom (ls_lists s)" using l by auto
  show ?thesis
  proof (cases "final (A dst)")
    case None
    then show ?thesis using H L(1-3) l ne A e
      by (simp add: tt_dlist_move_def tt_dlist_init_def lh_ld_def lh_st_def same_structs_def dom map_upd2_eq)
  next
    case (Some t)
    then have t: "lcell s t" "t \<noteq> b" "A dst \<noteq> []" using final_in [OF Some] D(5) [of t dst] D(4) [of t dst src] ne A by auto
    then show ?thesis using H L(1-3) l ne A e Some
      by (simp add: tt_dlist_move_def tt_dlist_init_def lh_ld_def lh_st_def ln_st_cell same_structs_def dom same_cells_upd map_upd2_eq)
  qed
qed

lemma dlist_move_ok:
  assumes ok: "dlist_ok s A" and ne: "dst \<noteq> src" and l: "ls_lists s dst \<noteq> None" "ls_lists s src \<noteq> None"
  shows "\<exists>s'. tt_dlist_move dst src s = Inr s' \<and> dlist_ok s' (A(dst := A dst @ A src, src := [])) \<and> same_structs dnode.more s s'"
proof (cases "A src")
  case Nil
  then have "A(dst := A dst @ A src, src := []) = A" by auto
  then show ?thesis using Nil dlist_reads(3) [OF ok] ok l by (auto simp: tt_dlist_move_def)
next
  case (Cons b ys)
  note D = dlist_okD [OF ok]
  let ?B = "A(dst := A dst @ A src, src := [])"
  have dist: "distinct (A dst @ A src)" using D(3) [of dst] D(3) [of src] D(4) [of _ dst src] ne by auto
  obtain s' h h' where s': "tt_dlist_move dst src s = Inr s'" "ls_lists s' = (ls_lists s)(dst \<mapsto> h, src \<mapsto> h')"
    "dl_head h = first (A dst @ A src)" "dl_tail h = final (A dst @ A src)" "dl_head h' = None" "dl_tail h' = None"
    and same: "same_structs dnode.more s s'" and k: "\<And>c. dlinks s' c = (if b = c then final (A dst) else d_prev (lnd s c),
      if final (A dst) = Some c then Some b else d_next (lnd s c))"
    using dlist_move_eval [OF ok ne _ _ Cons] l by blast
  have c: "lcell s' = lcell s" using same_structsD(1) [OF same] by (simp add: fun_eq_iff)
  have mem: "a \<in> set (?B j) \<longleftrightarrow> (\<exists>i. a \<in> set (A i) \<and> (if i = src then j = dst else j = i))" for a j
    using ne by (cases "j = dst"; cases "j = src"; simp; blast)
  have lk: "dlinks s' a = (before (A dst @ A src) a, after (A dst @ A src) a)" if "a \<in> set (A dst @ A src)" for a
  proof (cases "a \<in> set (A src)")
    case True
    have n: "a \<notin> set (A dst)" "final (A dst) \<noteq> Some a" using True D(4) [of a src dst] ne final_in [of "A dst" a] by auto
    have "first (A src) = Some a \<longleftrightarrow> b = a" using Cons by simp
    then show ?thesis using n True D(6,7) [OF True] by (simp add: k before_join [OF dist] after_join [OF dist])
  next
    case False
    then have d: "a \<in> set (A dst)" using that by simp
    have "b \<noteq> a" "first (A src) = Some b" using False Cons by auto
    then show ?thesis using d False D(6,7) [OF d] by (simp add: k before_join [OF dist] after_join [OF dist])
  qed
  have "dlist_ok s' ?B"
    unfolding dlist_ok_def
  proof (intro conjI allI impI ballI)
    fix j a
    assume a: "a \<in> set (?B j)"
    then show "lcell s' a" using D(5) unfolding mem c by blast
    show "dlinks s' a = (before (?B j) a, after (?B j) a)"
    proof (cases "j = dst")
      case True
      then show ?thesis using a lk [of a] ne by simp
    next
      case False
      then have j: "j \<noteq> src" "a \<in> set (A j)" using a by (auto split: if_splits)
      then have "b \<noteq> a" "final (A dst) \<noteq> Some a" using D(4) [of a j src] D(4) [of a j dst] Cons False final_in [of "A dst" a] by auto
      then show ?thesis using False j D(6,7) [OF j(2)] by (simp add: k)
    qed
  next
    fix a
    assume a: "lcell s' a" "off_lists a ?B"
    then have o: "off_lists a A" unfolding off_lists_def mem by metis
    then have "b \<noteq> a" "final (A dst) \<noteq> Some a" using Cons final_in [of "A dst" a] unfolding off_lists_def by (metis list.set_intros(1), blast)
    then show "dlinks s' a = (None, None)" using D(8) [OF _ o] a(1) by (simp add: k c)
  next
    fix j i a
    assume "a \<in> set (?B j)" "a \<in> set (?B i)"
    then show "i = j" unfolding mem using D(4) by metis
  next
    fix j x
    assume "ls_lists s' j = Some x"
    then show "dl_head x = first (?B j)" "dl_tail x = final (?B j)"
      using s'(2-6) ne D(1) [of j x] by (auto split: if_splits)
  next
    fix j
    assume "ls_lists s' j = None"
    then show "?B j = []" using s'(2) D(2) [of j] by (auto split: if_splits)
  next
    fix j
    show "distinct (?B j)" using dist D(3) [of j] by simp
  qed
  with s'(1) same show ?thesis by blast
qed

section \<open>Concrete stores\<close>

text \<open>Four nodes in no list, at the addresses 0 to 3, and two empty lists, named by truth values.\<close>

definition cells4 :: "'n \<Rightarrow> 'n mem" where
  "cells4 n = \<lparr>mem_blocks = (\<lambda>a. if a < 4 then Some [n] else None), mem_heap = {0, 1, 2, 3}, mem_next = 4,
     mem_oracle = \<lambda>_. True, mem_junk = \<lambda>_ _. n\<rparr>"

lemma cells4_simps [simp]: "a < 4 \<Longrightarrow> struct_at (cells4 n) a = n" "cell (cells4 n) a \<longleftrightarrow> a < 4"
  by (auto simp: cells4_def struct_at_def cell_def)

definition list_store :: "(bool, unit) lists" where
  "list_store = \<lparr>ls_lists = \<lambda>_. Some \<lparr>ls_head = None, ls_tail = None, ls_count = 0\<rparr>,
     ls_nodes = cells4 \<lparr>l_lst = None, l_prev = None, l_next = None\<rparr>\<rparr>"

definition dlist_store :: "(bool, unit) dlists" where
  "dlist_store = \<lparr>ls_lists = \<lambda>_. Some \<lparr>dl_head = None, dl_tail = None\<rparr>, ls_nodes = cells4 \<lparr>d_prev = None, d_next = None\<rparr>\<rparr>"

lemma list_store_ok: "list_ok list_store (\<lambda>_. [])" "dlist_ok dlist_store (\<lambda>_. [])"
  by (simp_all add: list_ok_def dlist_ok_def list_store_def dlist_store_def off_lists_def)

section \<open>Properties\<close>

text \<open>
  C16: Any sequence of calls on the lists of a store answers as lists of nodes do, from any state of them: pushes and
  pops at both ends, insertions before and after a node, removal of a node from whichever list it is in, clearing. A
  node is in one list at most. The count of each list is its length modulo \<open>2 ^ 32\<close>, the membership test is right, and
  nothing but the links changes. The first call that puts in a node which is in a list, or names a neighbour which is
  in none, fails an assertion; no call has undefined behaviour or runs forever.
\<close>

theorem list_refines_lists:
  assumes "list_ok s A" "\<forall>op \<in> set ops. list_names op (lcell s) (\<lambda>l. ls_lists s l \<noteq> None)"
  shows "(\<exists>rs s' B. list_run list_step ops s = Inr (rs, s') \<and> list_specs ops A rs B \<and> list_ok s' B
      \<and> (\<forall>a. lnode.more (lnd s' a) = lnode.more (lnd s a))
      \<and> (\<forall>l. ls_lists s l \<noteq> None \<longrightarrow> tt_list_count l s' = Inr (of_nat (length (B l)))
          \<and> (\<forall>a. lcell s a \<longrightarrow> tt_list_contain l a s' = Inr (a \<in> set (B l)))))
    \<or> (list_run list_step ops s = Inl Throw
      \<and> (\<exists>xs op ys rs B. ops = xs @ op # ys \<and> list_specs xs A rs B \<and> \<not> list_allowed op B))"
  using ll.run_refines [OF assms]
proof (elim disjE exE conjE)
  fix rs s' B
  assume r: "list_run list_step ops s = Inr (rs, s')" "list_specs ops A rs B" "list_ok s' B" "lcell s' = lcell s"
    "(\<lambda>l. ls_lists s' l \<noteq> None) = (\<lambda>l. ls_lists s l \<noteq> None)" "(\<lambda>a. lnode.more (lnd s' a)) = (\<lambda>a. lnode.more (lnd s a))"
  have "tt_list_count l s' = Inr (of_nat (length (B l))) \<and> (\<forall>a. lcell s a \<longrightarrow> tt_list_contain l a s' = Inr (a \<in> set (B l)))"
    if l: "ls_lists s l \<noteq> None" for l
  proof -
    have "ls_lists s' l \<noteq> None" using l fun_cong [OF r(5), of l] by simp
    then obtain h where "ls_lists s' l = Some h" by blast
    with list_reads [OF r(3)] r(4) show ?thesis by simp
  qed
  with r show ?thesis by (metis (no_types, lifting))
next
  fix xs op ys rs s' B
  assume o: "ops = xs @ op # ys" "list_specs xs A rs B" "list_ok s' B" "lcell s' = lcell s" "\<not> list_allowed op B"
    "list_run list_step ops s = bindr (list_step op s') (\<lambda>(r, s). bindr (list_run list_step ys s) (\<lambda>(qs, s). Inr (rs @ r # qs, s)))"
  have "list_names op (lcell s') (\<lambda>l. ls_lists s l \<noteq> None)" using assms(2) o(1,4) by simp
  then have "list_step op s' = Inl Throw" using o(5) list_refused [OF o(3)] by (cases op) auto
  then show ?thesis using o by auto
qed

theorem list_refines_lists_witness:
  "\<exists>rs s' B. list_run list_step [ListPushTail True 0, ListPushHead True 1, ListAfter True 1 2, ListRemove True 0, ListPopTail True] list_store
      = Inr (rs, s') \<and> rs = [None, None, None, None, Some 2] \<and> list_ok s' B
    \<and> tt_list_count True s' = Inr (of_nat (length (B True))) \<and> tt_list_contain True 1 s' = Inr True"
proof -
  let ?ops = "[ListPushTail True 0, ListPushHead True 1, ListAfter True 1 2, ListRemove True 0, ListPopTail True]"
  have n: "\<forall>op \<in> set ?ops. list_names op (lcell list_store) (\<lambda>l. ls_lists list_store l \<noteq> None)" by (simp add: list_store_def)
  have l: "ls_lists list_store True \<noteq> None" "lcell list_store 1" by (simp_all add: list_store_def)
  have run: "\<exists>s'. list_run list_step ?ops list_store = Inr ([None, None, None, None, Some 2], s') \<and> tt_list_contain True 1 s' = Inr True"
    by (simp add: list_store_def tt_list_push_tail_def tt_list_push_head_def tt_list_insert_after_def tt_list_remove_def
      tt_list_pop_tail_def lnode_unlink_def ll_run tt_list_contain_def)
  from list_refines_lists [OF list_store_ok(1) n] run l show ?thesis by fastforce
qed

text \<open>
  C21: The doubly linked lists keep the same contract when every call names the list that its nodes are in: any such
  sequence answers as lists of nodes do, and counting, searching and moving all nodes of a list behind those of
  another one are right in the state it leads to. The nodes do not know their list, so a call that breaks the
  contract need not be noticed.
\<close>

theorem dlist_refines_lists:
  assumes "dlist_ok s A" "\<forall>op \<in> set ops. list_names op (lcell s) (\<lambda>l. ls_lists s l \<noteq> None)"
  shows "(\<exists>rs s' B. list_run dlist_step ops s = Inr (rs, s') \<and> list_specs ops A rs B \<and> dlist_ok s' B
      \<and> (\<forall>a. dnode.more (lnd s' a) = dnode.more (lnd s a))
      \<and> (\<forall>l. ls_lists s l \<noteq> None \<longrightarrow> tt_dlist_count l s' = Inr (of_nat (length (B l)))
          \<and> (\<forall>a. tt_dlist_contain l a s' = Inr (a \<in> set (B l)))
          \<and> (\<forall>k. ls_lists s k \<noteq> None \<longrightarrow> k \<noteq> l \<longrightarrow>
               (\<exists>s''. tt_dlist_move k l s' = Inr s'' \<and> dlist_ok s'' (B(k := B k @ B l, l := []))))))
    \<or> (\<exists>xs op ys rs B. ops = xs @ op # ys \<and> list_specs xs A rs B \<and> \<not> (list_allowed op B \<and> list_told op B))"
  using dl.run_refines [OF assms]
proof (elim disjE exE conjE)
  fix rs s' B
  assume r: "list_run dlist_step ops s = Inr (rs, s')" "list_specs ops A rs B" "dlist_ok s' B" "lcell s' = lcell s"
    "(\<lambda>l. ls_lists s' l \<noteq> None) = (\<lambda>l. ls_lists s l \<noteq> None)" "(\<lambda>a. dnode.more (lnd s' a)) = (\<lambda>a. dnode.more (lnd s a))"
  have "tt_dlist_count l s' = Inr (of_nat (length (B l))) \<and> (\<forall>a. tt_dlist_contain l a s' = Inr (a \<in> set (B l)))
      \<and> (\<forall>k. ls_lists s k \<noteq> None \<longrightarrow> k \<noteq> l \<longrightarrow> (\<exists>s''. tt_dlist_move k l s' = Inr s'' \<and> dlist_ok s'' (B(k := B k @ B l, l := []))))"
    if l: "ls_lists s l \<noteq> None" for l
  proof -
    have ex: "ls_lists s' k \<noteq> None" if "ls_lists s k \<noteq> None" for k using that fun_cong [OF r(5), of k] by simp
    from ex [OF l] obtain h where "ls_lists s' l = Some h" by auto
    with dlist_reads [OF r(3)] dlist_move_ok [OF r(3) _ ex ex [OF l]] show ?thesis by blast
  qed
  with r show ?thesis by (metis (no_types, lifting))
qed blast

theorem dlist_refines_lists_witness:
  "\<exists>s' B. list_run dlist_step [ListPushTail True 0, ListPushHead True 1, ListPushTail False 2] dlist_store = Inr ([None, None, None], s')
    \<and> tt_dlist_contain True 1 s' = Inr True \<and> tt_dlist_count True s' = Inr (of_nat (length (B True)))
    \<and> (\<exists>s''. tt_dlist_move True False s' = Inr s'' \<and> dlist_ok s'' (B(True := B True @ B False, False := [])))"
proof -
  let ?ops = "[ListPushTail True 0, ListPushHead True 1, ListPushTail False 2]"
  have n: "\<forall>op \<in> set ?ops. list_names op (lcell dlist_store) (\<lambda>l. ls_lists dlist_store l \<noteq> None)" by (simp add: dlist_store_def)
  have l: "ls_lists dlist_store True \<noteq> None" "ls_lists dlist_store False \<noteq> None" by (simp_all add: dlist_store_def)
  have run: "\<exists>s'. list_run dlist_step ?ops dlist_store = Inr ([None, None, None], s') \<and> tt_dlist_contain True 1 s' = Inr True"
    by (simp add: dlist_store_def tt_dlist_push_tail_def tt_dlist_push_head_def dnode_fresh_def ll_run tt_dlist_contain_def
      dlist_contain_loop.simps)
  have "\<not> (\<exists>xs op ys rs B. ?ops = xs @ op # ys \<and> list_specs xs (\<lambda>_. []) rs B \<and> \<not> (list_allowed op B \<and> list_told op B))"
    by (auto simp: Cons_eq_append_conv list_spec_simps off_lists_def elim!: list_specs_NilE list_specs_ConsE)
  with dlist_refines_lists [OF list_store_ok(2) n] obtain rs s' B where
    r: "list_run dlist_step ?ops dlist_store = Inr (rs, s')" "\<And>l. ls_lists dlist_store l \<noteq> None \<Longrightarrow>
      tt_dlist_count l s' = Inr (of_nat (length (B l))) \<and> (\<forall>k. ls_lists dlist_store k \<noteq> None \<longrightarrow> k \<noteq> l \<longrightarrow>
        (\<exists>s''. tt_dlist_move k l s' = Inr s'' \<and> dlist_ok s'' (B(k := B k @ B l, l := []))))" by blast
  from r(2) [OF l(1)] r(2) [OF l(2)] l have "tt_dlist_count True s' = Inr (of_nat (length (B True)))"
    "\<exists>s''. tt_dlist_move True False s' = Inr s'' \<and> dlist_ok s'' (B(True := B True @ B False, False := []))" by blast+
  with r(1) run show ?thesis by (intro exI [of _ s'] exI [of _ B]) auto
qed

end
