(* ===== verification/TT_Fiber.thy ===== *)
theory TT_Fiber
  imports TT_List TT_PtrHeap
begin

text \<open>
  The state that fibers and timers of one task share, and the scheduler of \<^verbatim>\<open>os/tt_fiber.c\<close>. There is one scheduler
  and one timer manager, as a thread has; the code of the fibers is not part of the program, so that
  \<^verbatim>\<open>tt_fiber_switch_wrap\<close>, which runs other fibers until control comes back, is the parameter \<open>switch\<close>: it takes the
  fiber that is left, the fiber that is entered and the whole state, of which there may be more than is named here.
  The clock is a sequence of readings chosen by the environment. Times are \<^verbatim>\<open>tt_s64_t\<close>: integers, and an operation
  that leaves 64 bits is undefined.
\<close>

section \<open>State\<close>

datatype sched_list = Active | Pending

record fiber = "sched_list lnode" +
  fb_name :: "string option"
  fb_can_yield :: bool
  fb_recving :: bool

text \<open>The lists of timers are members of the structs of the fibers.\<close>

datatype tmr_list = Unexpired nat | Expired nat

datatype tmr_status = TT_TMR_INACTIVE | TT_TMR_ACTIVE | TT_TMR_ORPHAN

record tt_tmr = "tmr_list lnode" +
  t_delay_ms :: int
  t_absolute_ref :: int
  t_owner :: nat
  t_param :: ptr
  t_ev :: u32
  t_status :: tmr_status

text \<open>
  The heap of timers holds the addresses of timers; the member \<^verbatim>\<open>heap_pos\<close> of the timer at an address is the index
  variable with that address.
\<close>

record world =
  w_fibers :: "(sched_list, tt_list, fiber) lstore"
  w_main :: nat
  w_current :: nat
  w_tmrs :: "(tmr_list, tt_list, tt_tmr) lstore"
  w_heap :: "nat tt_ptrheap"
  w_nodes :: "nat tt_phnode mem"
  w_heap_pos :: idx_vars
  w_clock :: "nat \<Rightarrow> int"
  w_tick :: nat

type_synonym 'z switch = "nat \<Rightarrow> nat \<Rightarrow> 'z world_scheme \<Rightarrow> 'z world_scheme run"

text \<open>Operations on the lists of fibers and of timers.\<close>

definition on_fibers :: "((sched_list, tt_list, fiber) lstore \<Rightarrow> (sched_list, tt_list, fiber) lstore run) \<Rightarrow> 'z world_scheme \<Rightarrow> 'z world_scheme run" where
  "on_fibers f w = bindr (f (w_fibers w)) (\<lambda>s. Inr (w\<lparr>w_fibers := s\<rparr>))"

definition on_tmrs :: "((tmr_list, tt_list, tt_tmr) lstore \<Rightarrow> (tmr_list, tt_list, tt_tmr) lstore run) \<Rightarrow> 'z world_scheme \<Rightarrow> 'z world_scheme run" where
  "on_tmrs f w = bindr (f (w_tmrs w)) (\<lambda>s. Inr (w\<lparr>w_tmrs := s\<rparr>))"

section \<open>The scheduler\<close>

definition tt_current_fiber :: "'z world_scheme \<Rightarrow> nat" where "tt_current_fiber w = w_current w"

definition tt_fiber_sched_empty :: "'z world_scheme \<Rightarrow> bool run" where
  "tt_fiber_sched_empty w =
    bindr (tt_list_empty Active (w_fibers w)) (\<lambda>e. if e then tt_list_empty Pending (w_fibers w) else Inr False)"

partial_function (option) fiber_find_loop :: "ptr \<Rightarrow> string \<Rightarrow> (sched_list, tt_list, fiber) lstore \<Rightarrow> ptr run option" where
  "fiber_find_loop node name s =
    (case node of None \<Rightarrow> Some (Inr None)
     | Some fb \<Rightarrow>
       (case ln_ld fb_name s fb of Inl f \<Rightarrow> Some (Inl f)
        | Inr nm \<Rightarrow>
          if nm = Some name then Some (Inr (Some fb))
          else (case ln_ld l_next s fb of Inl f \<Rightarrow> Some (Inl f) | Inr nx \<Rightarrow> fiber_find_loop nx name s)))"

definition tt_fiber_sched_find :: "string \<Rightarrow> 'z world_scheme \<Rightarrow> ptr run" where
  "tt_fiber_sched_find name w =
    bindr (tt_list_head Active (w_fibers w)) (\<lambda>node.
    bindr (returned (fiber_find_loop node name (w_fibers w))) (\<lambda>fb.
    if fb \<noteq> None then Inr fb
    else
      bindr (tt_list_head Pending (w_fibers w)) (\<lambda>node.
      returned (fiber_find_loop node name (w_fibers w)))))"

definition tt_fiber_sched_next :: "'z world_scheme \<Rightarrow> nat run" where
  "tt_fiber_sched_next w =
    bindr (tt_list_head Active (w_fibers w)) (\<lambda>node. case node of Some fb \<Rightarrow> Inr fb | None \<Rightarrow> Inr (w_main w))"

text \<open>
  A new fiber starts pending; whether \<^verbatim>\<open>tt_fiber_create_wrap\<close> finds a stack for it is told by \<open>wrapped\<close>. Its two lists of
  timers come with its struct.
\<close>

definition fiber_struct :: "string option \<Rightarrow> fiber" where
  "fiber_struct name = \<lparr>l_lst = None, l_prev = None, l_next = None, fb_name = name, fb_can_yield = True, fb_recving = False\<rparr>"

definition tt_fiber_create :: "string option \<Rightarrow> bool \<Rightarrow> 'z world_scheme \<Rightarrow> (ptr \<times> 'z world_scheme) run" where
  "tt_fiber_create name wrapped w =
    bindr (case name of None \<Rightarrow> Inr None | Some nm \<Rightarrow> tt_fiber_sched_find nm w) (\<lambda>dup.
    if dup \<noteq> None then Inr (None, w)
    else
      (case malloc_struct (ls_nodes (w_fibers w)) of
         (None, m) \<Rightarrow> Inr (None, w\<lparr>w_fibers := (w_fibers w)\<lparr>ls_nodes := m\<rparr>\<rparr>)
       | (Some fb, m) \<Rightarrow>
         if \<not> wrapped then
           bindr (tt_free (Some fb) m) (\<lambda>m. Inr (None, w\<lparr>w_fibers := (w_fibers w)\<lparr>ls_nodes := m\<rparr>\<rparr>))
         else
           let w = w\<lparr>w_fibers := (w_fibers w)\<lparr>ls_nodes := m\<rparr>,
             w_tmrs := (w_tmrs w)\<lparr>ls_lists := (ls_lists (w_tmrs w))
               (Unexpired fb \<mapsto> \<lparr>ls_head = None, ls_tail = None, ls_count = 0\<rparr>, Expired fb \<mapsto> \<lparr>ls_head = None, ls_tail = None, ls_count = 0\<rparr>)\<rparr>\<rparr> in
           bindr (on_fibers (\<lambda>s. ln_st (\<lambda>_. fiber_struct name) s fb) w) (\<lambda>w.
           bindr (on_fibers (tt_list_push_tail Pending fb) w) (\<lambda>w. Inr (Some fb, w)))))"

text \<open>\<^verbatim>\<open>tt_list_remove\<close> followed by \<^verbatim>\<open>tt_list_push_tail\<close> or \<^verbatim>\<open>tt_list_push_head\<close>.\<close>

definition requeue :: "bool \<Rightarrow> 'l \<Rightarrow> nat \<Rightarrow> ('l, 'z) lists \<Rightarrow> ('l, 'z) lists run" where
  "requeue at_head l a s =
    bindr (tt_list_remove a s) (\<lambda>(_, s). if at_head then tt_list_push_head l a s else tt_list_push_tail l a s)"

definition tt_fiber_resume :: "'z switch \<Rightarrow> nat \<Rightarrow> bool \<Rightarrow> 'z world_scheme \<Rightarrow> 'z world_scheme run" where
  "tt_fiber_resume switch fb suspend w =
    (let cfb = w_current w in
     if cfb \<noteq> fb then
       bindr (if cfb \<noteq> w_main w then on_fibers (requeue False (if suspend then Pending else Active) cfb) w else Inr w) (\<lambda>w.
       bindr (if fb \<noteq> w_main w then on_fibers (requeue True Active fb) w else Inr w) (\<lambda>w.
       bindr (switch cfb fb (w\<lparr>w_current := fb\<rparr>)) (\<lambda>w. Inr (w\<lparr>w_current := cfb\<rparr>))))
     else Inr w)"

definition fiber_yield :: "'z switch \<Rightarrow> bool \<Rightarrow> 'z world_scheme \<Rightarrow> 'z world_scheme run" where
  "fiber_yield switch pend w =
    (let cfb = w_current w in
     bindr (ln_ld fb_can_yield (w_fibers w) cfb) (\<lambda>can.
     bindr (TT_ASSERT can) (\<lambda>_.
     bindr (if cfb \<noteq> w_main w then on_fibers (requeue False (if pend then Pending else Active) cfb) w else Inr w) (\<lambda>w.
     bindr (tt_fiber_sched_next w) (\<lambda>nx.
     if nx \<noteq> cfb then
       bindr (switch cfb nx (w\<lparr>w_current := nx\<rparr>)) (\<lambda>w. Inr (w\<lparr>w_current := cfb\<rparr>))
     else Inr w)))))"

definition tt_fiber_suspend :: "'z switch \<Rightarrow> 'z world_scheme \<Rightarrow> 'z world_scheme run" where
  "tt_fiber_suspend switch w = fiber_yield switch True w"

definition tt_fiber_yield :: "'z switch \<Rightarrow> 'z world_scheme \<Rightarrow> 'z world_scheme run" where
  "tt_fiber_yield switch w = fiber_yield switch False w"

definition tt_fiber_can_suspend :: "'z world_scheme \<Rightarrow> bool run" where
  "tt_fiber_can_suspend w = ln_ld fb_can_yield (w_fibers w) (w_current w)"

end
