(* ===== verification/TT_Timer.thy ===== *)
theory TT_Timer
  imports TT_Fiber
begin

text \<open>
  Timers: \<^verbatim>\<open>time/tt_timer.c\<close>, the delivery of timers to fibers in \<^verbatim>\<open>os/tt_fiber_event.c\<close>, the end of a fiber in
  \<^verbatim>\<open>os/tt_fiber.c\<close> and the timer manager of \<^verbatim>\<open>time/tt_timer_manager.c\<close>. A clock reading is in milliseconds, as
  \<^verbatim>\<open>native/linux-gnu/tt_time_reference_native.h\<close> has it.
\<close>

section \<open>Time\<close>

definition TT_TIME_INFINITE :: int where "TT_TIME_INFINITE = 0x7FFFFFFFFFFFFFFF"

definition tt_time_ref2ms :: "int \<Rightarrow> int" where "tt_time_ref2ms ref = ref"

definition tt_time_ms2ref :: "int \<Rightarrow> int" where "tt_time_ms2ref ms = ms"

definition tt_time_ref :: "'z world_scheme \<Rightarrow> int \<times> 'z world_scheme" where
  "tt_time_ref w = (w_clock w (w_tick w), w\<lparr>w_tick := Suc (w_tick w)\<rparr>)"

definition fits_s64 :: "int \<Rightarrow> bool" where "fits_s64 x \<longleftrightarrow> - (2 ^ 63) \<le> x \<and> x < 2 ^ 63"

definition s64 :: "int \<Rightarrow> int run" where "s64 x = (if fits_s64 x then Inr x else Inl Undef)"

section \<open>Calls of the heap\<close>

text \<open>
  The comparison function reads both timers. The heap is given it as a function of their addresses in the present
  store, on the condition that every timer which it could be called on exists and that no difference overflows.
\<close>

definition tmr_cmp :: "tt_tmr mem \<Rightarrow> nat \<Rightarrow> nat \<Rightarrow> int" where
  "tmr_cmp m l r =
    (let diff = t_absolute_ref (struct_at m l) - t_absolute_ref (struct_at m r) in
     if diff < 0 then 1 else if diff = 0 then 0 else - 1)"

definition comparable :: "tt_tmr mem \<Rightarrow> nat list \<Rightarrow> bool" where
  "comparable m ts \<longleftrightarrow> list_all (\<lambda>a. mem_blocks m a = Some [struct_at m a]) ts
     \<and> list_all (\<lambda>a. list_all (\<lambda>b. fits_s64 (t_absolute_ref (struct_at m a) - t_absolute_ref (struct_at m b))) ts) ts"

definition heap_tmrs :: "'z world_scheme \<Rightarrow> nat list" where
  "heap_tmrs w = map ph_p (arr_items (w_heap w) (w_nodes w))"

definition tmr_heap :: "'z world_scheme \<Rightarrow> nat tt_ptrheap" where
  "tmr_heap w = (w_heap w)\<lparr>h_cmp := tmr_cmp (ls_nodes (w_tmrs w))\<rparr>"

definition with_heap :: "nat list \<Rightarrow> 'z world_scheme \<Rightarrow> (nat tt_ptrheap \<Rightarrow> 'r run) \<Rightarrow> 'r run" where
  "with_heap ts w k = (if comparable (ls_nodes (w_tmrs w)) (ts @ heap_tmrs w) then k (tmr_heap w) else Inl Undef)"

definition mgr_pop :: "'z world_scheme \<Rightarrow> (ptr \<times> 'z world_scheme) run" where
  "mgr_pop w = with_heap [] w (\<lambda>ph.
     bindr (tt_ptrheap_pop ph (w_nodes w) (w_heap_pos w)) (\<lambda>(p, ph, m, ix).
     Inr (p, w\<lparr>w_heap := ph, w_nodes := m, w_heap_pos := ix\<rparr>)))"

section \<open>Timers\<close>

definition tmr_ld :: "(tt_tmr \<Rightarrow> 'b) \<Rightarrow> nat \<Rightarrow> 'z world_scheme \<Rightarrow> 'b run" where
  "tmr_ld f t w = ln_ld f (w_tmrs w) t"

definition tmr_st :: "(tt_tmr \<Rightarrow> tt_tmr) \<Rightarrow> nat \<Rightarrow> 'z world_scheme \<Rightarrow> 'z world_scheme run" where
  "tmr_st u t w = on_tmrs (\<lambda>s. ln_st u s t) w"

definition tmr_heap_pos :: "nat \<Rightarrow> 'z world_scheme \<Rightarrow> u32 run" where
  "tmr_heap_pos t w = tmr_ld (\<lambda>_. w_heap_pos w t) t w"

definition tt_tmr_create :: "int \<Rightarrow> u32 \<Rightarrow> ptr \<Rightarrow> 'z world_scheme \<Rightarrow> (ptr \<times> 'z world_scheme) run" where
  "tt_tmr_create delay_ms ev param w =
    bindr (TT_ASSERT (delay_ms \<ge> 0)) (\<lambda>_.
    case malloc_struct (ls_nodes (w_tmrs w)) of
      (None, m) \<Rightarrow> Inr (None, w\<lparr>w_tmrs := (w_tmrs w)\<lparr>ls_nodes := m\<rparr>\<rparr>)
    | (Some tmr, m) \<Rightarrow>
      let w = w\<lparr>w_tmrs := (w_tmrs w)\<lparr>ls_nodes := m\<rparr>\<rparr>; cfb = tt_current_fiber w in
      bindr (tmr_st (\<lambda>t. t\<lparr>t_delay_ms := delay_ms, t_absolute_ref := 0\<rparr>) tmr w) (\<lambda>w.
      bindr (tmr_st (\<lambda>t. t\<lparr>t_owner := cfb\<rparr>) tmr w) (\<lambda>w.
      bindr (on_tmrs (tt_lnode_init tmr) w) (\<lambda>w.
      bindr (on_tmrs (tt_list_push_tail (Unexpired cfb) tmr) w) (\<lambda>w.
      bindr (tmr_st (\<lambda>t. t\<lparr>t_param := param, t_ev := ev\<rparr>) tmr w) (\<lambda>w.
      let w = w\<lparr>w_heap_pos := (w_heap_pos w)(tmr := TT_POS_NULL)\<rparr> in
      bindr (tmr_st (\<lambda>t. t\<lparr>t_status := TT_TMR_INACTIVE\<rparr>) tmr w) (\<lambda>w. Inr (Some tmr, w))))))))"

definition tt_tmr_destroy :: "nat \<Rightarrow> 'z world_scheme \<Rightarrow> 'z world_scheme run" where
  "tt_tmr_destroy tmr w =
    bindr (on_tmrs (\<lambda>s. bindr (tt_list_remove tmr s) (\<lambda>(_, s). Inr s)) w) (\<lambda>w.
    bindr (tmr_heap_pos tmr w) (\<lambda>pos.
    if pos = TT_POS_NULL
    then on_tmrs (\<lambda>s. bindr (tt_free (Some tmr) (ls_nodes s)) (\<lambda>m. Inr (s\<lparr>ls_nodes := m\<rparr>))) w
    else tmr_st (\<lambda>t. t\<lparr>t_status := TT_TMR_ORPHAN\<rparr>) tmr w))"

definition tt_tmr_start :: "nat \<Rightarrow> 'z world_scheme \<Rightarrow> (tt_result \<times> 'z world_scheme) run" where
  "tt_tmr_start tmr w =
    (let (now, w) = tt_time_ref w in
     bindr (tmr_st (\<lambda>t. t\<lparr>t_absolute_ref := now\<rparr>) tmr w) (\<lambda>w.
     bindr (tmr_ld t_delay_ms tmr w) (\<lambda>delay_ms.
     let delay_ref = tt_time_ms2ref delay_ms in
     bindr (s64 (now + delay_ref)) (\<lambda>due.
     if due \<le> delay_ref then Inr (TT_FAIL, w)
     else
       bindr (tmr_st (\<lambda>t. t\<lparr>t_absolute_ref := due\<rparr>) tmr w) (\<lambda>w.
       bindr (tmr_st (\<lambda>t. t\<lparr>t_status := TT_TMR_ACTIVE\<rparr>) tmr w) (\<lambda>w.
       bindr (tmr_heap_pos tmr w) (\<lambda>pos.
       if pos = TT_POS_NULL then
         with_heap [tmr] w (\<lambda>ph.
           bindr (tt_ptrheap_add (Some tmr) (Some tmr) ph (w_nodes w) (w_heap_pos w)) (\<lambda>(r, ph, m, ix).
           Inr (r, w\<lparr>w_heap := ph, w_nodes := m, w_heap_pos := ix\<rparr>)))
       else
         with_heap [tmr] w (\<lambda>ph.
           bindr (tt_ptrheap_fix ph pos (w_nodes w) (w_heap_pos w)) (\<lambda>(m, ix).
           Inr (TT_SUCCESS, w\<lparr>w_nodes := m, w_heap_pos := ix\<rparr>)))))))))) "

definition tt_tmr_stop :: "nat \<Rightarrow> 'z world_scheme \<Rightarrow> 'z world_scheme run" where
  "tt_tmr_stop tmr w = tmr_st (\<lambda>t. t\<lparr>t_status := TT_TMR_INACTIVE\<rparr>) tmr w"

definition tt_tmr_set_delay :: "nat \<Rightarrow> int \<Rightarrow> 'z world_scheme \<Rightarrow> 'z world_scheme run" where
  "tt_tmr_set_delay tmr delay_ms w = tmr_st (\<lambda>t. t\<lparr>t_delay_ms := delay_ms\<rparr>) tmr w"

definition tt_tmr_set_ev :: "nat \<Rightarrow> u32 \<Rightarrow> 'z world_scheme \<Rightarrow> 'z world_scheme run" where
  "tt_tmr_set_ev tmr ev w = tmr_st (\<lambda>t. t\<lparr>t_ev := ev\<rparr>) tmr w"

definition tt_tmr_set_param :: "nat \<Rightarrow> ptr \<Rightarrow> 'z world_scheme \<Rightarrow> 'z world_scheme run" where
  "tt_tmr_set_param tmr param w = tmr_st (\<lambda>t. t\<lparr>t_param := param\<rparr>) tmr w"

section \<open>Timers and fibers\<close>

definition tt_fiber_send_timer :: "'z switch \<Rightarrow> nat \<Rightarrow> nat \<Rightarrow> 'z world_scheme \<Rightarrow> 'z world_scheme run" where
  "tt_fiber_send_timer switch dst tmr w =
    bindr (tmr_ld l_lst tmr w) (\<lambda>l.
    bindr (TT_ASSERT (l = Some (Unexpired dst))) (\<lambda>_.
    bindr (on_tmrs (requeue False (Expired dst) tmr) w) (\<lambda>w.
    bindr (ln_ld fb_recving (w_fibers w) dst) (\<lambda>recving.
    if recving then tt_fiber_resume switch dst False w else Inr w))))"

text \<open>Receiving waits for as long as no timer has expired.\<close>

partial_function (option) recv_timer_loop :: "'z switch \<Rightarrow> nat \<Rightarrow> bool \<Rightarrow> 'z world_scheme \<Rightarrow> (ptr \<times> 'z world_scheme) run option" where
  "recv_timer_loop switch current wait w =
    (case tt_list_pop_head (Expired current) (w_tmrs w) of
       Inl f \<Rightarrow> Some (Inl f)
     | Inr (Some node, s) \<Rightarrow>
         Some (bindr (on_tmrs (tt_list_push_tail (Unexpired current) node) (w\<lparr>w_tmrs := s\<rparr>)) (\<lambda>w. Inr (Some node, w)))
     | Inr (None, s) \<Rightarrow>
         if wait then
           (case bindr (on_fibers (\<lambda>s. ln_st (\<lambda>f. f\<lparr>fb_recving := True\<rparr>) s current) (w\<lparr>w_tmrs := s\<rparr>)) (\<lambda>w.
                 bindr (tt_fiber_suspend switch w) (\<lambda>w.
                 on_fibers (\<lambda>s. ln_st (\<lambda>f. f\<lparr>fb_recving := False\<rparr>) s current) w)) of
              Inl f \<Rightarrow> Some (Inl f)
            | Inr w \<Rightarrow> recv_timer_loop switch current wait w)
         else Some (Inr (None, w\<lparr>w_tmrs := s\<rparr>)))"

definition tt_fiber_recv_timer :: "'z switch \<Rightarrow> nat \<Rightarrow> bool \<Rightarrow> 'z world_scheme \<Rightarrow> (ptr \<times> 'z world_scheme) run" where
  "tt_fiber_recv_timer switch current wait w = returned (recv_timer_loop switch current wait w)"

text \<open>The end of a fiber destroys its timers; its events and its stack are left out.\<close>

partial_function (option) destroy_tmrs :: "tmr_list \<Rightarrow> 'z world_scheme \<Rightarrow> 'z world_scheme run option" where
  "destroy_tmrs l w =
    (case tt_list_pop_head l (w_tmrs w) of
       Inl f \<Rightarrow> Some (Inl f)
     | Inr (None, s) \<Rightarrow> Some (Inr (w\<lparr>w_tmrs := s\<rparr>))
     | Inr (Some t, s) \<Rightarrow> (case tt_tmr_destroy t (w\<lparr>w_tmrs := s\<rparr>) of Inl f \<Rightarrow> Some (Inl f) | Inr w \<Rightarrow> destroy_tmrs l w))"

definition tt_fiber_destroy :: "nat \<Rightarrow> 'z world_scheme \<Rightarrow> 'z world_scheme run" where
  "tt_fiber_destroy fb w =
    bindr (returned (destroy_tmrs (Unexpired fb) w)) (\<lambda>w.
    bindr (returned (destroy_tmrs (Expired fb) w)) (\<lambda>w.
    bindr (tt_free (Some fb) (ls_nodes (w_fibers w))) (\<lambda>m.
    Inr (w\<lparr>w_fibers := (w_fibers w)\<lparr>ls_nodes := m\<rparr>,
      w_tmrs := (w_tmrs w)\<lparr>ls_lists := (ls_lists (w_tmrs w))(Unexpired fb := None, Expired fb := None)\<rparr>\<rparr>))))"

section \<open>The timer manager\<close>

definition tt_tmr_mgr_attr_default :: tt_vec_attr where "tt_tmr_mgr_attr_default = tt_ptrheap_attr_default"

definition tt_tmr_mgr_init :: "tt_vec_attr option \<Rightarrow> 'z world_scheme \<Rightarrow> 'z world_scheme run" where
  "tt_tmr_mgr_init attr w =
    (let attr = (case attr of None \<Rightarrow> tt_tmr_mgr_attr_default | Some a \<Rightarrow> a) in
     bindr (tt_ptrheap_init (Some (tmr_cmp (ls_nodes (w_tmrs w)))) (Some attr)) (\<lambda>ph. Inr (w\<lparr>w_heap := ph\<rparr>)))"

definition tt_tmr_mgr_destroy :: "'z world_scheme \<Rightarrow> 'z world_scheme run" where
  "tt_tmr_mgr_destroy w =
    bindr (tt_ptrheap_destroy (tmr_heap w) (w_nodes w) (w_heap_pos w)) (\<lambda>(ph, m, ix).
    Inr (w\<lparr>w_heap := ph, w_nodes := m, w_heap_pos := ix\<rparr>))"

definition tt_tmr_mgr_pop :: "'z world_scheme \<Rightarrow> (ptr \<times> 'z world_scheme) run" where
  "tt_tmr_mgr_pop w = mgr_pop w"

text \<open>
  The loop of \<^verbatim>\<open>tt_tmr_mgr_run\<close>; \<^verbatim>\<open>goto again\<close> tests the same head against a new reading, and \<open>mgr_due\<close> is the code
  from that label on: the timer is delivered (\<open>Inl\<close> the state to go on with), or the manager returns (\<open>Inr\<close>).
\<close>

definition mgr_deliver :: "'z switch \<Rightarrow> nat \<Rightarrow> 'z world_scheme \<Rightarrow> 'z world_scheme run" where
  "mgr_deliver switch head w =
    bindr (mgr_pop w) (\<lambda>(_, w). bindr (tmr_ld t_owner head w) (\<lambda>owner. tt_fiber_send_timer switch owner head w))"

definition mgr_wait :: "nat \<Rightarrow> int \<Rightarrow> 'z world_scheme \<Rightarrow> int run" where
  "mgr_wait head now w =
    bindr (tmr_ld t_absolute_ref head w) (\<lambda>ref. bindr (s64 (ref - now)) (\<lambda>d. Inr (tt_time_ref2ms d)))"

definition mgr_due :: "'z switch \<Rightarrow> nat \<Rightarrow> int \<Rightarrow> bool \<Rightarrow> 'z world_scheme \<Rightarrow> (int \<times> 'z world_scheme + int \<times> 'z world_scheme) run" where
  "mgr_due switch head now cb_exec w =
    bindr (tmr_ld t_absolute_ref head w) (\<lambda>ref.
    if ref \<le> now then bindr (mgr_deliver switch head w) (\<lambda>w. Inr (Inl (now, w)))
    else if cb_exec then
      let (now, w) = tt_time_ref w in
      if ref \<le> now then bindr (mgr_deliver switch head w) (\<lambda>w. Inr (Inl (now, w)))
      else bindr (mgr_wait head now w) (\<lambda>d. Inr (Inr (d, w)))
    else bindr (mgr_wait head now w) (\<lambda>d. Inr (Inr (d, w))))"

partial_function (option) mgr_run_loop :: "'z switch \<Rightarrow> int \<Rightarrow> bool \<Rightarrow> 'z world_scheme \<Rightarrow> (int \<times> 'z world_scheme) run option" where
  "mgr_run_loop switch now cb_exec w =
    (case tt_ptrheap_head (tmr_heap w) (w_nodes w) of
       Inl f \<Rightarrow> Some (Inl f)
     | Inr None \<Rightarrow> Some (Inr (TT_TIME_INFINITE, w))
     | Inr (Some head) \<Rightarrow>
       (case tmr_ld t_status head w of
          Inl f \<Rightarrow> Some (Inl f)
        | Inr TT_TMR_ACTIVE \<Rightarrow>
            (case (let (now, w) = (if now = 0 then tt_time_ref w else (now, w)) in mgr_due switch head now cb_exec w) of
               Inl f \<Rightarrow> Some (Inl f)
             | Inr (Inr r) \<Rightarrow> Some (Inr r)
             | Inr (Inl (now, w)) \<Rightarrow> mgr_run_loop switch now True w)
        | Inr TT_TMR_INACTIVE \<Rightarrow>
            (case mgr_pop w of Inl f \<Rightarrow> Some (Inl f) | Inr (_, w) \<Rightarrow> mgr_run_loop switch now cb_exec w)
        | Inr TT_TMR_ORPHAN \<Rightarrow>
            (case bindr (mgr_pop w) (\<lambda>(_, w). tt_tmr_destroy head w) of
               Inl f \<Rightarrow> Some (Inl f) | Inr w \<Rightarrow> mgr_run_loop switch now cb_exec w)))"

definition tt_tmr_mgr_run :: "'z switch \<Rightarrow> 'z world_scheme \<Rightarrow> (int \<times> 'z world_scheme) run" where
  "tt_tmr_mgr_run switch w = returned (mgr_run_loop switch 0 False w)"

end
