(* ===== verification/TT_Timer_Inv.thy ===== *)
theory TT_Timer_Inv
  imports TT_Timer TT_List_Props TT_PtrHeap_Ops
begin

text \<open>
  The invariant of timers and fibers: every timer in the heap exists and knows its place, an active one is in the
  list of unexpired timers of its owner, an orphan is in no list, and a timer outside the heap has no place in it.
\<close>

section \<open>The heap of timers\<close>

lemma tmr_cmp_order: "cmp_order (tmr_cmp m)"
  by unfold_locales (auto simp: tmr_cmp_def Let_def split: if_splits)

lemma arr_cmp [simp]: "arr_inv w (ph\<lparr>h_cmp := c\<rparr>) m = arr_inv w ph m" "arr_items (ph\<lparr>h_cmp := c\<rparr>) m = arr_items ph m"
  "arr_own (ph\<lparr>h_cmp := c\<rparr>) = arr_own ph"
  by (simp_all add: arr_inv_def arr_items_def arr_cells_def)

lemma heap_tmrs_keys: "heap_tmrs w = keys (w_heap w) (w_nodes w)"
  by (simp add: heap_tmrs_def)

text \<open>The heap order depends on the comparisons of the timers in the heap only.\<close>

lemma ph_inv_cong:
  assumes "ph_inv (ph\<lparr>h_cmp := c\<rparr>) m ix" "cmp_order c'" "\<And>a b. a \<in> set (keys ph m) \<Longrightarrow> b \<in> set (keys ph m) \<Longrightarrow> c' a b = c a b"
    "\<And>x. x \<in> idxs (nodes ph m) \<Longrightarrow> ix' x = ix x"
  shows "ph_inv (ph\<lparr>h_cmp := c'\<rparr>) m ix'"
proof -
  note P = ph_invD [OF assms(1), simplified]
  have "c' (keys ph m ! k) (keys ph m ! hparent k) = c (keys ph m ! k) (keys ph m ! hparent k)" if "0 < k" "k < length (nodes ph m)" for k
    using that hparent_less [OF that(1)] by (intro assms(3)) (auto intro!: imageI nth_mem)
  then have "cmp_order.heap c' (keys ph m)"
    using P(3) unfolding cmp_order.heap_def [OF P(1)] cmp_order.heap_def [OF assms(2)] cmp_order.below_def [OF P(1)]
      cmp_order.below_def [OF assms(2)] by (metis length_map)
  moreover have "tracks (nodes ph m) ix'"
    unfolding tracks_def
  proof (intro allI impI)
    fix k x
    assume k: "k < length (nodes ph m)" "ph_idx (nodes ph m ! k) = Some x"
    then have "x \<in> idxs (nodes ph m)" unfolding idxs_def using nth_mem by blast
    then show "unat (ix' x) = k" using assms(4) P(4) k unfolding tracks_def by simp
  qed
  ultimately show ?thesis using assms(2) P(2) by (simp add: ph_inv_def)
qed

section \<open>The invariant\<close>

abbreviation tmr :: "'z world_scheme \<Rightarrow> nat \<Rightarrow> tt_tmr" where "tmr w t \<equiv> lnd (w_tmrs w) t"

abbreviation tcell :: "'z world_scheme \<Rightarrow> nat \<Rightarrow> bool" where "tcell w t \<equiv> lcell (w_tmrs w) t"

definition fibers_ok :: "'z world_scheme \<Rightarrow> bool" where
  "fibers_ok w \<longleftrightarrow> (\<exists>F. list_ok (w_fibers w) F) \<and> ls_lists (w_fibers w) Active \<noteq> None \<and> ls_lists (w_fibers w) Pending \<noteq> None
     \<and> lcell (w_fibers w) (w_main w) \<and> lcell (w_fibers w) (w_current w)
     \<and> (\<forall>f. ls_lists (w_tmrs w) (Unexpired f) \<noteq> None \<longrightarrow> ls_lists (w_tmrs w) (Expired f) \<noteq> None \<and> lcell (w_fibers w) f)"

definition heap_ok :: "'z world_scheme \<Rightarrow> bool" where
  "heap_ok w \<longleftrightarrow> ph_inv (tmr_heap w) (w_nodes w) (w_heap_pos w) \<and> (\<forall>n \<in> set (nodes (w_heap w) (w_nodes w)). ph_idx n = Some (ph_p n))
     \<and> (\<forall>t. t \<notin> set (heap_tmrs w) \<longrightarrow> w_heap_pos w t = TT_POS_NULL)
     \<and> (\<forall>t \<in> set (heap_tmrs w). tcell w t \<and> 0 < t_absolute_ref (tmr w t) \<and> t_absolute_ref (tmr w t) < 2 ^ 63)"

text \<open>Orphans outside the heap, which the manager is about to free, are listed in \<open>X\<close>.\<close>

definition tmrs_ok :: "'z world_scheme \<Rightarrow> (tmr_list \<Rightarrow> nat list) \<Rightarrow> nat set \<Rightarrow> bool" where
  "tmrs_ok w A X \<longleftrightarrow> list_ok (w_tmrs w) A \<and> mem_inv (ls_nodes (w_tmrs w))
     \<and> (\<forall>t. tcell w t \<longrightarrow> t \<in> mem_heap (ls_nodes (w_tmrs w)) \<and> 0 \<le> t_delay_ms (tmr w t))
     \<and> (\<forall>l. \<forall>t \<in> set (A l). l = Unexpired (t_owner (tmr w t)) \<or> l = Expired (t_owner (tmr w t)))
     \<and> (\<forall>t. tcell w t \<longrightarrow> t_status (tmr w t) = TT_TMR_ORPHAN \<longrightarrow> off_lists t A \<and> (t \<in> set (heap_tmrs w) \<or> t \<in> X))
     \<and> (\<forall>t \<in> set (heap_tmrs w). t_status (tmr w t) = TT_TMR_ACTIVE \<longrightarrow> t \<in> set (A (Unexpired (t_owner (tmr w t)))))"

definition tmr_ok :: "'z world_scheme \<Rightarrow> (tmr_list \<Rightarrow> nat list) \<Rightarrow> nat set \<Rightarrow> bool" where
  "tmr_ok w A X \<longleftrightarrow> fibers_ok w \<and> heap_ok w \<and> tmrs_ok w A X"

definition tmr_inv :: "'z world_scheme \<Rightarrow> bool" where "tmr_inv w \<longleftrightarrow> (\<exists>A. tmr_ok w A {})"

lemma heap_okD:
  assumes "heap_ok w"
  shows "ph_inv (tmr_heap w) (w_nodes w) (w_heap_pos w)" "heap_arr (w_heap w) (w_nodes w)"
    "n \<in> set (nodes (w_heap w) (w_nodes w)) \<Longrightarrow> ph_idx n = Some (ph_p n)"
    "t \<notin> set (heap_tmrs w) \<Longrightarrow> w_heap_pos w t = TT_POS_NULL" "t \<in> set (heap_tmrs w) \<Longrightarrow> tcell w t"
    "t \<in> set (heap_tmrs w) \<Longrightarrow> 0 < t_absolute_ref (tmr w t)" "t \<in> set (heap_tmrs w) \<Longrightarrow> t_absolute_ref (tmr w t) < 2 ^ 63"
    "idxs (nodes (w_heap w) (w_nodes w)) = set (heap_tmrs w)"
proof -
  show i: "ph_inv (tmr_heap w) (w_nodes w) (w_heap_pos w)" using assms by (simp add: heap_ok_def)
  show "heap_arr (w_heap w) (w_nodes w)" using ph_invD(2) [OF i] by (simp add: tmr_heap_def)
  have "\<forall>n \<in> set (nodes (w_heap w) (w_nodes w)). ph_idx n = Some (ph_p n)" using assms by (simp add: heap_ok_def)
  then show "idxs (nodes (w_heap w) (w_nodes w)) = set (heap_tmrs w)" unfolding idxs_def heap_tmrs_keys by force
qed (use assms in \<open>auto simp: heap_ok_def\<close>)

lemma heap_distinct:
  assumes "heap_ok w"
  shows "distinct (heap_tmrs w)"
proof -
  note D = heap_okD [OF assms]
  have t: "tracks (nodes (w_heap w) (w_nodes w)) (w_heap_pos w)" using ph_invD(4) [OF D(1)] by (simp add: tmr_heap_def)
  have "i = j" if "i < length (nodes (w_heap w) (w_nodes w))" "j < length (nodes (w_heap w) (w_nodes w))"
    "ph_p (nodes (w_heap w) (w_nodes w) ! i) = ph_p (nodes (w_heap w) (w_nodes w) ! j)" for i j
    using tracks_uniq [OF t that(1,2)] D(3) [OF nth_mem [OF that(1)]] D(3) [OF nth_mem [OF that(2)]] that(3) by simp
  then show ?thesis unfolding heap_tmrs_keys distinct_conv_nth by auto
qed

lemma heap_pos_iff:
  assumes "heap_ok w"
  shows "w_heap_pos w t = TT_POS_NULL \<longleftrightarrow> t \<notin> set (heap_tmrs w)"
  using heap_okD(4) [OF assms] heap_okD(8) [OF assms] idx_in_heap(3) [OF heap_okD(1) [OF assms], of t]
  by (auto simp: tmr_heap_def)

lemma heap_comparable:
  assumes "heap_ok w" "\<forall>t \<in> set ts. tcell w t \<and> 0 < t_absolute_ref (tmr w t) \<and> t_absolute_ref (tmr w t) < 2 ^ 63"
  shows "comparable (ls_nodes (w_tmrs w)) (ts @ heap_tmrs w)"
proof -
  have c: "tcell w t" "0 < t_absolute_ref (tmr w t)" "t_absolute_ref (tmr w t) < 2 ^ 63" if "t \<in> set (ts @ heap_tmrs w)" for t
    using that assms(2) heap_okD(5,6,7) [OF assms(1)] by auto
  have "fits_s64 (t_absolute_ref (tmr w a) - t_absolute_ref (tmr w b))" if "a \<in> set (ts @ heap_tmrs w)" "b \<in> set (ts @ heap_tmrs w)" for a b
    using c(2,3) [OF that(1)] c(2,3) [OF that(2)] by (simp add: fits_s64_def)
  moreover have "mem_blocks (ls_nodes (w_tmrs w)) a = Some [tmr w a]" if "a \<in> set (ts @ heap_tmrs w)" for a
    using c(1) [OF that] by (simp add: cell_def)
  ultimately show ?thesis unfolding comparable_def list_all_iff by blast
qed

lemma with_heap_ok: "heap_ok w \<Longrightarrow> with_heap [] w k = k (tmr_heap w)"
  using heap_comparable [of w "[]"] by (simp add: with_heap_def)

lemma heap_head:
  assumes "heap_ok w"
  shows "tt_ptrheap_head (tmr_heap w) (w_nodes w) = Inr (first (heap_tmrs w))"
  using ph_head_ok [OF heap_okD(1) [OF assms]]
  by (cases "nodes (w_heap w) (w_nodes w)") (simp_all add: tmr_heap_def heap_tmrs_keys)

section \<open>Taking a timer out of the heap\<close>

text \<open>A step that changes the heap only.\<close>

definition heap_step :: "'z world_scheme \<Rightarrow> 'z world_scheme \<Rightarrow> bool" where
  "heap_step w w' \<longleftrightarrow> (\<exists>ph m ix. w' = w\<lparr>w_heap := ph, w_nodes := m, w_heap_pos := ix\<rparr>)"

lemma heap_stepD:
  assumes "heap_step w w'"
  shows "w_fibers w' = w_fibers w" "w_main w' = w_main w" "w_current w' = w_current w" "w_tmrs w' = w_tmrs w"
    "w_clock w' = w_clock w" "w_tick w' = w_tick w" "fibers_ok w' = fibers_ok w"
  using assms by (auto simp: heap_step_def fibers_ok_def)

lemma mgr_pop_ok:
  assumes ok: "heap_ok w" and ts: "heap_tmrs w = t # ts"
  obtains w' where "mgr_pop w = Inr (Some t, w')" "heap_step w w'" "heap_ok w'" "mset (heap_tmrs w') = mset ts"
    "\<forall>u \<in> set (heap_tmrs w). t_absolute_ref (tmr w t) \<le> t_absolute_ref (tmr w u)"
proof -
  note D = heap_okD [OF ok]
  let ?ph = "tmr_heap w" and ?ns = "nodes (w_heap w) (w_nodes w)"
  have n: "nodes ?ph (w_nodes w) = ?ns" by (simp add: tmr_heap_def)
  have c: "h_cmp ?ph = tmr_cmp (ls_nodes (w_tmrs w))" by (simp add: tmr_heap_def)
  have ne: "nodes ?ph (w_nodes w) \<noteq> []" and hd: "ph_p (hd ?ns) = t" using ts unfolding n heap_tmrs_keys by auto
  from D(1) ne obtain ph m ix where r: "tt_ptrheap_pop ?ph (w_nodes w) (w_heap_pos w) = Inr (Some (ph_p (hd ?ns)), ph, m, ix)" "ph_inv ph m ix"
    "mset ?ns = add_mset (hd ?ns) (mset (nodes ph m))" "h_cmp ph = h_cmp ?ph"
    "\<forall>x. ph_idx (hd ?ns) = Some x \<longrightarrow> ix x = TT_POS_NULL" "\<forall>x. x \<notin> idxs ?ns \<longrightarrow> ix x = w_heap_pos w x"
    "\<forall>k \<in> set ?ns. h_cmp ?ph (ph_p k) (ph_p (hd ?ns)) \<le> 0"
    by (rule ph_pop_ok [unfolded n]) (auto simp: n)
  let ?w = "w\<lparr>w_heap := ph, w_nodes := m, w_heap_pos := ix\<rparr>"
  have hin: "hd ?ns \<in> set ?ns" using ne n by simp
  have st: "set ?ns = insert (hd ?ns) (set (nodes ph m))" using arg_cong [OF r(3), of set_mset] by simp
  have ms: "mset (heap_tmrs w) = add_mset t (mset (heap_tmrs ?w))"
    using arg_cong [OF r(3), of "image_mset ph_p"] hd by (simp add: heap_tmrs_def)
  have ms': "mset (heap_tmrs ?w) = mset ts" using ms ts by simp
  have sub: "u \<in> set (heap_tmrs w) \<longleftrightarrow> u = t \<or> u \<in> set (heap_tmrs ?w)" for u
    using arg_cong [OF ms, of set_mset] by (metis insert_iff set_mset_add_mset_insert set_mset_mset)
  have cmp: "tmr_heap ?w = ph" using r(4) c by (cases ph) (simp add: tmr_heap_def)
  have "heap_ok ?w"
    unfolding heap_ok_def
  proof (intro conjI ballI allI impI)
    show "ph_inv (tmr_heap ?w) (w_nodes ?w) (w_heap_pos ?w)" using r(2) unfolding cmp by simp
    show "ph_idx k = Some (ph_p k)" if "k \<in> set (nodes (w_heap ?w) (w_nodes ?w))" for k using that st D(3) [of k] by simp
    fix u
    assume u: "u \<notin> set (heap_tmrs ?w)"
    show "w_heap_pos ?w u = TT_POS_NULL"
    proof (cases "u = t")
      case True
      then show ?thesis using r(5) D(3) [OF hin] hd by simp
    next
      case False
      then have "u \<notin> set (heap_tmrs w)" using u sub by simp
      then show ?thesis using r(6) D(4) [of u] unfolding D(8) by simp
    qed
  next
    fix u
    assume "u \<in> set (heap_tmrs ?w)"
    then have "u \<in> set (heap_tmrs w)" using sub by simp
    then show "tcell ?w u" "0 < t_absolute_ref (tmr ?w u)" "t_absolute_ref (tmr ?w u) < 2 ^ 63" using D(5,6,7) [of u] by simp_all
  qed
  moreover have "t_absolute_ref (tmr w t) \<le> t_absolute_ref (tmr w u)" if u: "u \<in> set (heap_tmrs w)" for u
  proof -
    obtain k where "k \<in> set ?ns" "u = ph_p k" using u by (auto simp: heap_tmrs_keys)
    then have "tmr_cmp (ls_nodes (w_tmrs w)) u t \<le> 0" using r(7) hd c by auto
    then show ?thesis by (auto simp: tmr_cmp_def Let_def split: if_splits)
  qed
  moreover have "mgr_pop w = Inr (Some t, ?w)" using r(1) hd by (simp add: mgr_pop_def with_heap_ok [OF ok])
  ultimately show thesis using that [of ?w] ms' by (auto simp: heap_step_def)
qed

text \<open>Steps on the timers that keep those in the heap.\<close>

lemma heap_ok_tmrs:
  assumes ok: "heap_ok w" and s: "\<And>t. t \<in> set (heap_tmrs w) \<Longrightarrow> lcell s t \<and> t_absolute_ref (lnd s t) = t_absolute_ref (tmr w t)"
  shows "heap_ok (w\<lparr>w_tmrs := s\<rparr>)"
proof -
  note D = heap_okD [OF ok]
  have "tmr_cmp (ls_nodes s) a b = tmr_cmp (ls_nodes (w_tmrs w)) a b" if "a \<in> set (heap_tmrs w)" "b \<in> set (heap_tmrs w)" for a b
    using s that by (simp add: tmr_cmp_def)
  with ph_inv_cong [OF D(1) [unfolded tmr_heap_def] tmr_cmp_order, of "ls_nodes s" "w_heap_pos w"]
  have "ph_inv (tmr_heap (w\<lparr>w_tmrs := s\<rparr>)) (w_nodes w) (w_heap_pos w)" by (simp add: tmr_heap_def heap_tmrs_keys)
  moreover have "heap_tmrs (w\<lparr>w_tmrs := s\<rparr>) = heap_tmrs w" by (simp add: heap_tmrs_def)
  ultimately show ?thesis using ok s by (auto simp: heap_ok_def)
qed

lemma heap_tmrs_upd [simp]: "heap_tmrs (w\<lparr>w_tmrs := s\<rparr>) = heap_tmrs w" "heap_tmrs (w\<lparr>w_fibers := r\<rparr>) = heap_tmrs w"
  "heap_tmrs (w\<lparr>w_current := c\<rparr>) = heap_tmrs w" "heap_tmrs (w\<lparr>w_tick := k\<rparr>) = heap_tmrs w"
  by (simp_all add: heap_tmrs_def)

lemma tmrs_okD:
  assumes "tmrs_ok w A X"
  shows "list_ok (w_tmrs w) A" "mem_inv (ls_nodes (w_tmrs w))" "tcell w t \<Longrightarrow> t \<in> mem_heap (ls_nodes (w_tmrs w))"
    "tcell w t \<Longrightarrow> 0 \<le> t_delay_ms (tmr w t)"
    "t \<in> set (A l) \<Longrightarrow> l = Unexpired (t_owner (tmr w t)) \<or> l = Expired (t_owner (tmr w t))"
    "tcell w t \<Longrightarrow> t_status (tmr w t) = TT_TMR_ORPHAN \<Longrightarrow> off_lists t A \<and> (t \<in> set (heap_tmrs w) \<or> t \<in> X)"
    "t \<in> set (heap_tmrs w) \<Longrightarrow> t_status (tmr w t) = TT_TMR_ACTIVE \<Longrightarrow> t \<in> set (A (Unexpired (t_owner (tmr w t))))"
  using assms by (auto simp: tmrs_ok_def)

lemma tmrs_ok_pop:
  assumes ok: "tmrs_ok w A X" and s: "heap_step w w'" and ms: "heap_tmrs w = t # ts" "mset (heap_tmrs w') = mset ts"
  shows "tmrs_ok w' A (if t_status (tmr w t) = TT_TMR_ORPHAN then insert t X else X)"
proof -
  have "set (heap_tmrs w) = insert t (set (heap_tmrs w'))" using ms mset_eq_setD [OF ms(2)] by simp
  then show ?thesis using ok unfolding tmrs_ok_def heap_stepD(4) [OF s] by auto
qed

section \<open>Releasing an orphan\<close>

lemma list_ok_free:
  assumes ok: "list_ok s A" and out: "off_lists a A" and m: "\<And>b. b \<noteq> a \<Longrightarrow> mem_blocks m b = mem_blocks (ls_nodes s) b" "mem_blocks m a = None"
  shows "list_ok (s\<lparr>ls_nodes := m\<rparr>) A"
proof -
  have c: "cell m b \<longleftrightarrow> cell (ls_nodes s) b \<and> b \<noteq> a" for b using m by (cases "b = a") (auto simp: cell_def struct_at_def)
  have n: "struct_at m b = lnd s b" if "b \<noteq> a" for b using m(1) [OF that] by (simp add: struct_at_def)
  have "b \<noteq> a" if "b \<in> set (A l)" for b l using that out by (auto simp: off_lists_def)
  then show ?thesis using ok c n unfolding list_ok_def by auto
qed

lemma tmr_free_ok:
  assumes ok: "tmr_ok w A X" and t: "tcell w t" "off_lists t A" "t \<notin> set (heap_tmrs w)"
  obtains w' where "on_tmrs (\<lambda>s. bindr (tt_free (Some t) (ls_nodes s)) (\<lambda>m. Inr (s\<lparr>ls_nodes := m\<rparr>))) w = Inr w'"
    "tmr_ok w' A (X - {t})" "\<exists>s. w' = w\<lparr>w_tmrs := s\<rparr>" "\<And>u. u \<noteq> t \<Longrightarrow> tmr w' u = tmr w u"
    "\<And>u. tcell w' u \<longleftrightarrow> tcell w u \<and> u \<noteq> t"
proof -
  have T: "tmrs_ok w A X" and H: "heap_ok w" and F: "fibers_ok w" using ok by (simp_all add: tmr_ok_def)
  note D = tmrs_okD [OF T]
  let ?s = "w_tmrs w"
  from free_released [OF D(2) D(3) [OF t(1)]] obtain m where f: "tt_free (Some t) (ls_nodes ?s) = Inr m" "mem_inv m" "released (ls_nodes ?s) {t} m" by blast
  have b: "mem_blocks m = mem_blocks (ls_nodes ?s) |` (- {t})" "mem_heap m = mem_heap (ls_nodes ?s) - {t}"
    using f(3) unfolding released_def by blast+
  let ?w = "w\<lparr>w_tmrs := ?s\<lparr>ls_nodes := m\<rparr>\<rparr>"
  have l: "list_ok (?s\<lparr>ls_nodes := m\<rparr>) A" using list_ok_free [OF D(1) t(2), of m] b(1) by simp
  have n: "tmr ?w u = tmr w u" if "u \<noteq> t" for u using b(1) that by (simp add: struct_at_def)
  have c: "tcell ?w u \<longleftrightarrow> tcell w u \<and> u \<noteq> t" for u using b(1) by (cases "u = t") (simp_all add: cell_def struct_at_def)
  have ht: "u \<noteq> t \<and> tcell w u" if "u \<in> set (heap_tmrs w)" for u using that t(3) heap_okD(5) [OF H that] by blast
  have "heap_ok ?w"
  proof (rule heap_ok_tmrs [OF H])
    fix u
    assume "u \<in> set (heap_tmrs w)"
    then show "lcell (?s\<lparr>ls_nodes := m\<rparr>) u \<and> t_absolute_ref (lnd (?s\<lparr>ls_nodes := m\<rparr>) u) = t_absolute_ref (tmr w u)"
      using ht [of u] c [of u] n [of u] by simp
  qed
  moreover have "tmrs_ok ?w A (X - {t})"
    unfolding tmrs_ok_def
  proof (intro conjI allI ballI impI)
    show "list_ok (w_tmrs ?w) A" "mem_inv (ls_nodes (w_tmrs ?w))" using l f(2) by simp_all
    fix u
    assume u: "tcell ?w u"
    then have u': "tcell w u" "u \<noteq> t" using c by simp_all
    show "u \<in> mem_heap (ls_nodes (w_tmrs ?w))" "0 \<le> t_delay_ms (tmr ?w u)" using D(3,4) [OF u'(1)] n [OF u'(2)] u'(2) b(2) by simp_all
    assume "t_status (tmr ?w u) = TT_TMR_ORPHAN"
    then show "off_lists u A" "u \<in> set (heap_tmrs ?w) \<or> u \<in> X - {t}" using D(6) [OF u'(1)] n [OF u'(2)] u'(2) by auto
  next
    fix u k
    assume k: "u \<in> set (A k)"
    then have "u \<noteq> t" using t(2) by (auto simp: off_lists_def)
    then show "k = Unexpired (t_owner (tmr ?w u)) \<or> k = Expired (t_owner (tmr ?w u))" using D(5) [OF k] n [of u] by simp
  next
    fix u
    assume u: "u \<in> set (heap_tmrs ?w)" "t_status (tmr ?w u) = TT_TMR_ACTIVE"
    then have "u \<noteq> t" using ht [of u] by simp
    then show "u \<in> set (A (Unexpired (t_owner (tmr ?w u))))" using u D(7) [of u] n [of u] by simp
  qed
  moreover have "fibers_ok ?w" using F by (simp add: fibers_ok_def)
  ultimately show thesis using that [of ?w] f(1) n c by (auto simp: on_tmrs_def tmr_ok_def)
qed

end
