(* ===== verification/TT_Timer_Run.thy ===== *)
theory TT_Timer_Run
  imports TT_Timer_Inv
begin

text \<open>
  Delivery of timers: moving a timer between the lists of its owner, resuming the owner, and the loop of the timer
  manager, for fibers which start no timer while they run.
\<close>

section \<open>Moving a node to the end of a list\<close>

definition requeued :: "bool \<Rightarrow> 'l \<Rightarrow> nat \<Rightarrow> ('l \<Rightarrow> nat list) \<Rightarrow> 'l \<Rightarrow> nat list" where
  "requeued at_head l a A =
    (\<lambda>k. removeAll a (A k))(l := if at_head then a # removeAll a (A l) else removeAll a (A l) @ [a])"

lemma removeAll_lists:
  assumes "list_ok s A" "A k = xs @ a # ys"
  shows "A(k := xs @ ys) = (\<lambda>j. removeAll a (A j))"
proof
  fix j
  have "distinct (xs @ a # ys)" using list_okD(3) [OF assms(1), of k] assms(2) by simp
  moreover have "j \<noteq> k \<Longrightarrow> a \<notin> set (A j)" using list_ok_one [OF assms(1), of a k j] assms(2) by auto
  ultimately show "(A(k := xs @ ys)) j = removeAll a (A j)" using assms(2) by (simp add: removeAll_id)
qed

lemma list_take_out:
  assumes ok: "list_ok s A" and a: "lcell s a"
  shows "\<exists>r s'. tt_list_remove a s = Inr (r, s') \<and> list_ok s' (\<lambda>j. removeAll a (A j)) \<and> same_structs lnode.more s s'"
proof (cases "off_lists a A")
  case True
  then have "(\<lambda>j. removeAll a (A j)) = A" by (simp add: off_lists_def fun_eq_iff)
  moreover have "tt_list_remove a s = Inr (None, s)" using True off_lists_lst [OF ok a] a by (simp add: tt_list_remove_def ll_run)
  ultimately show ?thesis using ok by simp
next
  case False
  then obtain k xs ys where A: "A k = xs @ a # ys" by (rule off_split)
  from list_remove_ok [OF ok A] obtain s' where s': "tt_list_remove a s = Inr (first ys, s')" "unlinked k a xs ys s s'" by blast
  show ?thesis using s'(1) unlinked_ok [OF ok A s'(2)] unlinked_same [OF s'(2)] unfolding removeAll_lists [OF ok A] by blast
qed

lemma requeue_ok:
  assumes ok: "list_ok s A" and a: "lcell s a" and l: "ls_lists s l \<noteq> None"
  shows "\<exists>s'. requeue h l a s = Inr s' \<and> list_ok s' (requeued h l a A) \<and> same_structs lnode.more s s'"
proof -
  let ?B = "\<lambda>j. removeAll a (A j)"
  from list_take_out [OF ok a] obtain r s1 where s1: "tt_list_remove a s = Inr (r, s1)" "list_ok s1 ?B" "same_structs lnode.more s s1" by blast
  have c: "lcell s1 a" "ls_lists s1 l \<noteq> None" using same_structsD(1,3) [OF s1(3)] a l by simp_all
  have "off_lists a ?B" by (simp add: off_lists_def)
  then have n: "l_lst (lnd s1 a) = None" using off_lists_lst [OF s1(2) c(1)] by simp
  from c(2) obtain x where x: "ls_lists s1 l = Some x" by blast
  show ?thesis
  proof (cases h)
    case True
    from list_push_head_ok [OF s1(2) c(1) n x] obtain s2 where s2: "tt_list_push_head l a s1 = Inr s2" "linked_in l a [] (?B l) s1 s2" by blast
    have "list_ok s2 (?B(l := [] @ a # ?B l))" by (rule linked_in_ok [OF s1(2) _ c(1) n s2(2)]) simp
    then show ?thesis using True s1(1) s2(1) same_structs_trans [OF s1(3) linked_in_same [OF s2(2)]] by (simp add: requeue_def requeued_def)
  next
    case False
    from list_push_tail_ok [OF s1(2) c(1) n x] obtain s2 where s2: "tt_list_push_tail l a s1 = Inr s2" "linked_in l a (?B l) [] s1 s2" by blast
    have "list_ok s2 (?B(l := ?B l @ [a]))" by (rule linked_in_ok [OF s1(2) _ c(1) n s2(2)]) simp
    then show ?thesis using False s1(1) s2(1) same_structs_trans [OF s1(3) linked_in_same [OF s2(2)]] by (simp add: requeue_def requeued_def)
  qed
qed

section \<open>Moving timers\<close>

lemma tmr_fields:
  fixes a b :: tt_tmr
  assumes "lnode.more a = lnode.more b"
  shows "t_delay_ms a = t_delay_ms b" "t_absolute_ref a = t_absolute_ref b" "t_owner a = t_owner b" "t_status a = t_status b"
    "t_param a = t_param b" "t_ev a = t_ev b"
  using assms by (cases a; cases b; simp)+

lemma tmr_ok_relink:
  assumes ok: "tmr_ok w A X" and same: "same_structs lnode.more (w_tmrs w) s" and l: "list_ok s B"
    and own: "\<And>l t. t \<in> set (B l) \<Longrightarrow> l = Unexpired (t_owner (tmr w t)) \<or> l = Expired (t_owner (tmr w t))"
    and orph: "\<And>t. tcell w t \<Longrightarrow> t_status (tmr w t) = TT_TMR_ORPHAN \<Longrightarrow> off_lists t B"
    and act: "\<And>t. t \<in> set (heap_tmrs w) \<Longrightarrow> t_status (tmr w t) = TT_TMR_ACTIVE \<Longrightarrow> t \<in> set (B (Unexpired (t_owner (tmr w t))))"
  shows "tmr_ok (w\<lparr>w_tmrs := s\<rparr>) B X"
proof -
  have T: "tmrs_ok w A X" and H: "heap_ok w" and F: "fibers_ok w" using ok by (simp_all add: tmr_ok_def)
  note D = tmrs_okD [OF T] and S = same_structsD [OF same]
  note f = tmr_fields [OF S(2)]
  have "heap_ok (w\<lparr>w_tmrs := s\<rparr>)" using heap_okD(5) [OF H] S(1) f(2) by (intro heap_ok_tmrs [OF H]) simp
  moreover have "fibers_ok (w\<lparr>w_tmrs := s\<rparr>)" using F S(3) by (simp add: fibers_ok_def)
  moreover have "tmrs_ok (w\<lparr>w_tmrs := s\<rparr>) B X"
    unfolding tmrs_ok_def using D(2,3,4) D(6) S f l own orph act by simp
  ultimately show ?thesis by (simp add: tmr_ok_def)
qed

lemma in_requeued: "b \<in> set (requeued h l a A k) \<longleftrightarrow> (if b = a then k = l else b \<in> set (A k))"
  by (auto simp: requeued_def)

text \<open>\<^verbatim>\<open>tt_fiber_send_timer\<close> up to the point where it may resume the owner.\<close>

definition expire :: "nat \<Rightarrow> nat \<Rightarrow> (tmr_list \<Rightarrow> nat list) \<Rightarrow> tmr_list \<Rightarrow> nat list" where
  "expire f t = requeued False (Expired f) t"

lemma owner_lists:
  assumes ok: "tmr_ok w A X" and t: "t \<in> set (A (Unexpired f))"
  shows "f = t_owner (tmr w t)" "ls_lists (w_tmrs w) (Unexpired f) \<noteq> None" "ls_lists (w_tmrs w) (Expired f) \<noteq> None"
    "lcell (w_fibers w) f" "tcell w t" "t_status (tmr w t) \<noteq> TT_TMR_ORPHAN" "l_lst (tmr w t) = Some (Unexpired f)"
proof -
  have T: "tmrs_ok w A X" and F: "fibers_ok w" using ok by (simp_all add: tmr_ok_def)
  note D = tmrs_okD [OF T]
  show "f = t_owner (tmr w t)" using D(5) [OF t] by simp
  show u: "ls_lists (w_tmrs w) (Unexpired f) \<noteq> None" using list_okD(2) [OF D(1)] t by fastforce
  show "ls_lists (w_tmrs w) (Expired f) \<noteq> None" "lcell (w_fibers w) f" using F u by (simp_all add: fibers_ok_def)
  show c: "tcell w t" using list_okD(4) [OF D(1) t] .
  show "t_status (tmr w t) \<noteq> TT_TMR_ORPHAN" using D(6) [OF c] t by (auto simp: off_lists_def)
  show "l_lst (tmr w t) = Some (Unexpired f)" using list_okD(5) [OF D(1) t] .
qed

lemma expire_ok:
  assumes ok: "tmr_ok w A X" and t: "t \<in> set (A (Unexpired f))" "t \<notin> set (heap_tmrs w)"
  obtains s where "on_tmrs (requeue False (Expired f) t) w = Inr (w\<lparr>w_tmrs := s\<rparr>)" "tmr_ok (w\<lparr>w_tmrs := s\<rparr>) (expire f t A) X"
    "same_structs lnode.more (w_tmrs w) s"
proof -
  have T: "tmrs_ok w A X" using ok by (simp add: tmr_ok_def)
  note D = tmrs_okD [OF T] and O = owner_lists [OF ok t(1)]
  from requeue_ok [OF D(1) O(5) O(3), of False] obtain s where
    s: "requeue False (Expired f) t (w_tmrs w) = Inr s" "list_ok s (expire f t A)" "same_structs lnode.more (w_tmrs w) s"
    unfolding expire_def by blast
  have "tmr_ok (w\<lparr>w_tmrs := s\<rparr>) (expire f t A) X"
  proof (rule tmr_ok_relink [OF ok s(3,2)])
    fix l u
    assume "u \<in> set (expire f t A l)"
    then show "l = Unexpired (t_owner (tmr w u)) \<or> l = Expired (t_owner (tmr w u))"
      using D(5) [of u l] O(1) unfolding expire_def in_requeued by (auto split: if_splits)
  next
    fix u
    assume u: "tcell w u" "t_status (tmr w u) = TT_TMR_ORPHAN"
    then have "u \<noteq> t" using O(6) by auto
    then show "off_lists u (expire f t A)" using D(6) [OF u] unfolding off_lists_def expire_def in_requeued by simp
  next
    fix u
    assume u: "u \<in> set (heap_tmrs w)" "t_status (tmr w u) = TT_TMR_ACTIVE"
    then have "u \<noteq> t" using t(2) by auto
    then show "u \<in> set (expire f t A (Unexpired (t_owner (tmr w u))))" using D(7) [OF u] unfolding expire_def in_requeued by simp
  qed
  with s show thesis using that by (simp add: on_tmrs_def)
qed

section \<open>Resuming a fiber\<close>

text \<open>
  What is relied on: the fibers that run while another one waits for the switch to return keep the invariant, leave that
  fiber alive and start no timer; they may receive, stop, destroy and create timers and read the clock.
\<close>

definition starts_none :: "'z world_scheme \<Rightarrow> 'z world_scheme \<Rightarrow> bool" where
  "starts_none w w' \<longleftrightarrow> tmr_inv w' \<and> w_main w' = w_main w \<and> w_clock w' = w_clock w \<and> w_tick w \<le> w_tick w'
     \<and> set (heap_tmrs w') \<subseteq> set (heap_tmrs w)
     \<and> (\<forall>t \<in> set (heap_tmrs w'). t_absolute_ref (tmr w' t) = t_absolute_ref (tmr w t)
          \<and> (t_status (tmr w' t) = TT_TMR_ACTIVE \<longrightarrow> t_status (tmr w t) = TT_TMR_ACTIVE))"

definition fibers_start_none :: "'z switch \<Rightarrow> bool" where
  "fibers_start_none switch \<longleftrightarrow> (\<forall>from_fb to w. tmr_inv w \<longrightarrow> w_current w = to \<longrightarrow> lcell (w_fibers w) from_fb \<longrightarrow>
     (\<exists>w'. switch from_fb to w = Inr w' \<and> starts_none w w' \<and> lcell (w_fibers w') from_fb))"

lemma starts_none_refl: "tmr_inv w \<Longrightarrow> starts_none w w"
  by (simp add: starts_none_def)

lemma starts_none_trans: "starts_none w w1 \<Longrightarrow> starts_none w1 w2 \<Longrightarrow> starts_none w w2"
  unfolding starts_none_def by (auto simp: subset_iff)

lemma tmr_ok_fibers:
  assumes ok: "tmr_ok w A X" and same: "same_structs d (w_fibers w) r" and l: "list_ok r F"
  shows "tmr_ok (w\<lparr>w_fibers := r\<rparr>) A X"
proof -
  have "fibers_ok (w\<lparr>w_fibers := r\<rparr>)"
    using ok l same_structsD(1,3) [OF same] unfolding tmr_ok_def fibers_ok_def by auto
  then show ?thesis using ok by (simp add: tmr_ok_def heap_ok_def tmrs_ok_def tmr_heap_def)
qed

lemma tmr_ok_current:
  assumes "tmr_ok w A X" "lcell (w_fibers w) c"
  shows "tmr_ok (w\<lparr>w_current := c\<rparr>) A X"
  using assms by (simp add: tmr_ok_def fibers_ok_def heap_ok_def tmrs_ok_def tmr_heap_def)

lemma tmr_ok_tick: "tmr_ok w A X \<Longrightarrow> tmr_ok (w\<lparr>w_tick := k\<rparr>) A X"
  by (simp add: tmr_ok_def fibers_ok_def heap_ok_def tmrs_ok_def tmr_heap_def)

lemma fiber_requeue_ok:
  assumes ok: "tmr_ok w A X" and f: "lcell (w_fibers w) f"
  obtains r where "on_fibers (requeue h l f) w = Inr (w\<lparr>w_fibers := r\<rparr>)" "tmr_ok (w\<lparr>w_fibers := r\<rparr>) A X"
    "same_structs lnode.more (w_fibers w) r"
proof -
  obtain F where F: "list_ok (w_fibers w) F" and l: "ls_lists (w_fibers w) l \<noteq> None"
    using ok by (cases l) (auto simp: tmr_ok_def fibers_ok_def)
  from requeue_ok [OF F f l, of h] obtain r where r: "requeue h l f (w_fibers w) = Inr r" "list_ok r (requeued h l f F)"
    "same_structs lnode.more (w_fibers w) r" by blast
  show thesis using that [of r] r(1,3) tmr_ok_fibers [OF ok r(3,2)] by (simp add: on_fibers_def)
qed

lemma resume_ok:
  assumes sw: "fibers_start_none switch" and ok: "tmr_ok w A {}" and f: "lcell (w_fibers w) f"
  obtains w' where "tt_fiber_resume switch f b w = Inr w'" "starts_none w w'" "w_current w' = w_current w"
proof (cases "w_current w = f")
  case True
  then show thesis using that [of w] starts_none_refl ok by (auto simp: tt_fiber_resume_def tmr_inv_def)
next
  case False
  let ?c = "w_current w"
  have c: "lcell (w_fibers w) ?c" using ok by (simp add: tmr_ok_def fibers_ok_def)
  obtain r1 where r1: "(if ?c \<noteq> w_main w then on_fibers (requeue False (if b then Pending else Active) ?c) w else Inr w) = Inr (w\<lparr>w_fibers := r1\<rparr>)"
    "tmr_ok (w\<lparr>w_fibers := r1\<rparr>) A {}" "lcell r1 = lcell (w_fibers w)"
  proof (cases "?c \<noteq> w_main w")
    case True
    from fiber_requeue_ok [OF ok c, of False "if b then Pending else Active"] obtain r where
      "on_fibers (requeue False (if b then Pending else Active) ?c) w = Inr (w\<lparr>w_fibers := r\<rparr>)" "tmr_ok (w\<lparr>w_fibers := r\<rparr>) A {}"
      "same_structs lnode.more (w_fibers w) r" .
    then show thesis using that [of r] True same_structs_view(1) by auto
  next
    case False
    then show thesis using that [of "w_fibers w"] ok by simp
  qed
  let ?w1 = "w\<lparr>w_fibers := r1\<rparr>"
  have f1: "lcell (w_fibers ?w1) f" "lcell (w_fibers ?w1) ?c" using f c r1(3) by simp_all
  obtain r2 where r2: "(if f \<noteq> w_main ?w1 then on_fibers (requeue True Active f) ?w1 else Inr ?w1) = Inr (?w1\<lparr>w_fibers := r2\<rparr>)"
    "tmr_ok (?w1\<lparr>w_fibers := r2\<rparr>) A {}" "lcell r2 = lcell r1"
  proof (cases "f \<noteq> w_main ?w1")
    case True
    from fiber_requeue_ok [OF r1(2) f1(1), of True Active] obtain r where
      "on_fibers (requeue True Active f) ?w1 = Inr (?w1\<lparr>w_fibers := r\<rparr>)" "tmr_ok (?w1\<lparr>w_fibers := r\<rparr>) A {}"
      "same_structs lnode.more (w_fibers ?w1) r" .
    then show thesis using that [of r] True same_structs_view(1) [of lnode.more "w_fibers ?w1" r] by auto
  next
    case False
    then show thesis using that [of r1] r1(2) by simp
  qed
  let ?w2 = "?w1\<lparr>w_fibers := r2\<rparr>\<lparr>w_current := f\<rparr>"
  have "tmr_ok ?w2 A {}" using tmr_ok_current [OF r2(2), of f] f1 r2(3) by simp
  then have i: "tmr_inv ?w2" unfolding tmr_inv_def by blast
  have c2: "w_current ?w2 = f" "lcell (w_fibers ?w2) ?c" using f1(2) r2(3) by simp_all
  from sw [unfolded fibers_start_none_def, rule_format, OF i c2]
  obtain w3 where w3: "switch ?c f ?w2 = Inr w3" "starts_none ?w2 w3" "lcell (w_fibers w3) ?c" by blast
  let ?w4 = "w3\<lparr>w_current := ?c\<rparr>"
  obtain B where "tmr_ok w3 B {}" using w3(2) by (auto simp: starts_none_def tmr_inv_def)
  then have "tmr_inv ?w4" using tmr_ok_current [OF _ w3(3)] unfolding tmr_inv_def by blast
  then have "starts_none w ?w4" using w3(2) by (simp add: starts_none_def)
  moreover have "tt_fiber_resume switch f b w = Inr ?w4"
    using False r1(1) r2(1) w3(1) unfolding tt_fiber_resume_def Let_def by simp
  ultimately show thesis using that [of ?w4] by simp
qed

section \<open>The steps of the manager\<close>

lemma starts_none_step:
  assumes "heap_step w w1" "heap_tmrs w = t # ts" "mset (heap_tmrs w1) = mset ts" "tmr_inv w2"
    and w2: "w_main w2 = w_main w1" "w_clock w2 = w_clock w1" "w_tick w2 = w_tick w1" "heap_tmrs w2 = heap_tmrs w1"
      "\<And>u. u \<in> set (heap_tmrs w1) \<Longrightarrow> t_absolute_ref (tmr w2 u) = t_absolute_ref (tmr w1 u) \<and> t_status (tmr w2 u) = t_status (tmr w1 u)"
  shows "starts_none w w2"
  unfolding starts_none_def using assms(2,4) w2 mset_eq_setD [OF assms(3)] heap_stepD [OF assms(1)] by auto

lemma heap_shrinks:
  assumes "heap_ok w" "heap_ok w'" "set (heap_tmrs w') \<subseteq> set (heap_tmrs w)" "t \<in> set (heap_tmrs w)" "t \<notin> set (heap_tmrs w')"
  shows "length (heap_tmrs w') < length (heap_tmrs w)"
  using heap_distinct [OF assms(1)] heap_distinct [OF assms(2)] assms(3-5) psubset_card_mono [of "set (heap_tmrs w)" "set (heap_tmrs w')"]
  by (auto simp: distinct_card)

lemma tmr_inv_heap: "tmr_inv w \<Longrightarrow> heap_ok w"
  by (auto simp: tmr_inv_def tmr_ok_def)

lemma drop_ok:
  assumes ok: "tmr_ok w A {}" and ts: "heap_tmrs w = t # ts" and st: "t_status (tmr w t) \<noteq> TT_TMR_ORPHAN"
  obtains w' where "mgr_pop w = Inr (Some t, w')" "tmr_ok w' A {}" "starts_none w w'" "t \<notin> set (heap_tmrs w')" "heap_step w w'"
    "set (heap_tmrs w) = insert t (set (heap_tmrs w'))"
proof -
  have H: "heap_ok w" and T: "tmrs_ok w A {}" and F: "fibers_ok w" using ok by (simp_all add: tmr_ok_def)
  from H ts obtain w1 where w1: "mgr_pop w = Inr (Some t, w1)" "heap_step w w1" "heap_ok w1" "mset (heap_tmrs w1) = mset ts" by (rule mgr_pop_ok)
  have o: "tmr_ok w1 A {}" using tmrs_ok_pop [OF T w1(2) ts w1(4)] st w1(3) F heap_stepD(7) [OF w1(2)] by (simp add: tmr_ok_def)
  then have "tmr_inv w1" unfolding tmr_inv_def by blast
  then have "starts_none w w1" by (rule starts_none_step [OF w1(2) ts w1(4)]) simp_all
  moreover have "t \<notin> set (heap_tmrs w1)" using heap_distinct [OF H] ts mset_eq_setD [OF w1(4)] by simp
  moreover have "set (heap_tmrs w) = insert t (set (heap_tmrs w1))" using ts mset_eq_setD [OF w1(4)] by simp
  ultimately show thesis using that w1(1,2) o by blast
qed

lemma orphan_ok:
  assumes ok: "tmr_ok w A {}" and ts: "heap_tmrs w = t # ts" and st: "t_status (tmr w t) = TT_TMR_ORPHAN"
  obtains w' where "bindr (mgr_pop w) (\<lambda>(_, w). tt_tmr_destroy t w) = Inr w'" "tmr_ok w' A {}" "starts_none w w'" "\<not> tcell w' t"
    "t \<notin> set (heap_tmrs w')" "\<forall>u. u \<noteq> t \<longrightarrow> tmr w' u = tmr w u" "w_fibers w' = w_fibers w" "w_tick w' = w_tick w"
    "set (heap_tmrs w) = insert t (set (heap_tmrs w'))" "\<forall>u. tcell w' u \<longleftrightarrow> tcell w u \<and> u \<noteq> t" "w_current w' = w_current w"
proof -
  have H: "heap_ok w" and T: "tmrs_ok w A {}" and F: "fibers_ok w" using ok by (simp_all add: tmr_ok_def)
  from H ts obtain w1 where w1: "mgr_pop w = Inr (Some t, w1)" "heap_step w w1" "heap_ok w1" "mset (heap_tmrs w1) = mset ts" by (rule mgr_pop_ok)
  note S = heap_stepD [OF w1(2)]
  have o: "tmr_ok w1 A {t}" using tmrs_ok_pop [OF T w1(2) ts w1(4)] st w1(3) F S(7) by (simp add: tmr_ok_def)
  have out: "t \<notin> set (heap_tmrs w1)" using heap_distinct [OF H] ts mset_eq_setD [OF w1(4)] by simp
  have c: "tcell w1 t" using heap_okD(5) [OF H] ts S(4) by simp
  have off: "off_lists t A" using tmrs_okD(6) [OF T _ st] c S(4) by simp
  have l: "tt_list_remove t (w_tmrs w1) = Inr (None, w_tmrs w1)"
    using off_lists_lst [OF tmrs_okD(1) [OF T], of t] off c S(4) by (simp add: tt_list_remove_def ll_run)
  have pos: "w_heap_pos w1 t = TT_POS_NULL" using heap_okD(4) [OF w1(3) out] .
  from tmr_free_ok [OF o c off out] obtain w2 where
    w2: "on_tmrs (\<lambda>s. bindr (tt_free (Some t) (ls_nodes s)) (\<lambda>m. Inr (s\<lparr>ls_nodes := m\<rparr>))) w1 = Inr w2"
    "tmr_ok w2 A ({t} - {t})" "\<exists>s. w2 = w1\<lparr>w_tmrs := s\<rparr>" "\<And>u. u \<noteq> t \<Longrightarrow> tmr w2 u = tmr w1 u" "\<And>u. tcell w2 u \<longleftrightarrow> tcell w1 u \<and> u \<noteq> t" by blast
  have d: "tt_tmr_destroy t w1 = Inr w2"
    using l pos c w2(1) by (simp add: tt_tmr_destroy_def on_tmrs_def tmr_heap_pos_def tmr_ld_def ll_run)
  have e: "w_main w2 = w_main w1" "w_clock w2 = w_clock w1" "w_tick w2 = w_tick w1" "heap_tmrs w2 = heap_tmrs w1" "w_fibers w2 = w_fibers w1"
    "w_current w2 = w_current w1" using w2(3) by auto
  have "tmr_inv w2" using w2(2) unfolding tmr_inv_def by auto
  moreover have "tmr w2 u = tmr w1 u" if "u \<in> set (heap_tmrs w1)" for u using w2(4) [of u] that out by metis
  ultimately have "starts_none w w2" using e by (intro starts_none_step [OF w1(2) ts w1(4)]) simp_all
  moreover have "set (heap_tmrs w) = insert t (set (heap_tmrs w2))" using ts mset_eq_setD [OF w1(4)] e(4) by simp
  moreover have "bindr (mgr_pop w) (\<lambda>(_, w). tt_tmr_destroy t w) = Inr w2" using w1(1) d by simp
  moreover have "tmr_ok w2 A {}" using w2(2) by simp
  moreover have "tcell w2 u \<longleftrightarrow> tcell w u \<and> u \<noteq> t" for u using w2(5) S(4) by simp
  moreover have "\<not> tcell w2 t" "t \<notin> set (heap_tmrs w2)" using w2(5) out e(4) by simp_all
  moreover have "tmr w2 u = tmr w u" if "u \<noteq> t" for u using w2(4) [OF that] S(4) by simp
  ultimately show thesis using that [of w2] e(3,5,6) S(1,3,6) by metis
qed

lemma deliver_ok:
  assumes sw: "fb_recving (lnd (w_fibers w) (t_owner (tmr w t))) \<Longrightarrow> fibers_start_none switch" and ok: "tmr_ok w A {}" and ts: "heap_tmrs w = t # ts" and st: "t_status (tmr w t) = TT_TMR_ACTIVE"
  obtains w' where "mgr_deliver switch t w = Inr w'" "starts_none w w'" "t \<notin> set (heap_tmrs w')"
    "\<not> fb_recving (lnd (w_fibers w) (t_owner (tmr w t))) \<Longrightarrow> tmr_ok w' (expire (t_owner (tmr w t)) t A) {} \<and> w_tick w' = w_tick w
      \<and> w_fibers w' = w_fibers w \<and> w_current w' = w_current w \<and> (\<forall>u. lnode.more (tmr w' u) = lnode.more (tmr w u) \<and> tcell w' u = tcell w u)
      \<and> set (heap_tmrs w) = insert t (set (heap_tmrs w'))"
proof -
  have H: "heap_ok w" and T: "tmrs_ok w A {}" using ok by (simp_all add: tmr_ok_def)
  let ?o = "t_owner (tmr w t)"
  have "t_status (tmr w t) \<noteq> TT_TMR_ORPHAN" using st by simp
  from drop_ok [OF ok ts this] obtain w1 where w1: "mgr_pop w = Inr (Some t, w1)" "tmr_ok w1 A {}" "starts_none w w1" "t \<notin> set (heap_tmrs w1)"
    "heap_step w w1" "set (heap_tmrs w) = insert t (set (heap_tmrs w1))" .
  note S = heap_stepD [OF w1(5)]
  have t: "t \<in> set (A (Unexpired ?o))" using tmrs_okD(7) [OF T] ts st by simp
  note O = owner_lists [OF w1(2) t]
  from expire_ok [OF w1(2) t w1(4)] obtain s where s: "on_tmrs (requeue False (Expired ?o) t) w1 = Inr (w1\<lparr>w_tmrs := s\<rparr>)"
    "tmr_ok (w1\<lparr>w_tmrs := s\<rparr>) (expire ?o t A) {}" "same_structs lnode.more (w_tmrs w1) s" .
  let ?w2 = "w1\<lparr>w_tmrs := s\<rparr>"
  have i2: "tmr_inv ?w2" using s(2) unfolding tmr_inv_def by blast
  have f: "lnode.more (tmr ?w2 u) = lnode.more (tmr w1 u)" for u using same_structsD(2) [OF s(3)] by simp
  have n2: "starts_none w ?w2"
    using starts_none_trans [OF w1(3), of ?w2] w1(3) i2 tmr_fields [OF f] by (simp add: starts_none_def)
  have d: "mgr_deliver switch t w = (if fb_recving (lnd (w_fibers w1) ?o) then tt_fiber_resume switch ?o False ?w2 else Inr ?w2)"
    using w1(1) O(4,5,7) s(1) S(4) by (simp add: mgr_deliver_def tt_fiber_send_timer_def tmr_ld_def ll_run)
  show thesis
  proof (cases "fb_recving (lnd (w_fibers w1) ?o)")
    case True
    have "lcell (w_fibers ?w2) ?o" "fibers_start_none switch" using O(4) sw True S(1) by simp_all
    then obtain w3 where w3: "tt_fiber_resume switch ?o False ?w2 = Inr w3" "starts_none ?w2 w3"
      using resume_ok [OF _ s(2)] by blast
    have "t \<notin> set (heap_tmrs w3)" using w3(2) w1(4) by (auto simp: starts_none_def)
    then show thesis using that [of w3] True d w3 starts_none_trans [OF n2 w3(2)] S(1) by simp
  next
    case False
    then show thesis using that [of ?w2] d n2 w1(4,6) s(2) S f same_structsD(1) [OF s(3)] by simp
  qed
qed

section \<open>Steps that start no timer\<close>

text \<open>A clock that does not run out of its 64 bits.\<close>

definition clock_ok :: "'z world_scheme \<Rightarrow> bool" where
  "clock_ok w \<longleftrightarrow> (\<forall>k. 0 < w_clock w k \<and> w_clock w k < 2 ^ 63)"

lemma starts_none_tick: "tmr_inv w \<Longrightarrow> w_tick w \<le> k \<Longrightarrow> starts_none w (w\<lparr>w_tick := k\<rparr>)"
  using tmr_ok_tick unfolding starts_none_def tmr_inv_def by fastforce

lemma starts_noneD:
  assumes "starts_none w w'"
  shows "tmr_inv w'" "w_clock w' = w_clock w" "w_tick w \<le> w_tick w'" "clock_ok w' = clock_ok w" "set (heap_tmrs w') \<subseteq> set (heap_tmrs w)"
    "t \<in> set (heap_tmrs w') \<Longrightarrow> t_absolute_ref (tmr w' t) = t_absolute_ref (tmr w t)"
  using assms by (auto simp: starts_none_def clock_ok_def)

section \<open>What was delivered\<close>

definition no_waiter :: "'z world_scheme \<Rightarrow> bool" where
  "no_waiter w \<longleftrightarrow> (\<forall>f. lcell (w_fibers w) f \<longrightarrow> \<not> fb_recving (lnd (w_fibers w) f))"

text \<open>
  From one state to the other the timers \<open>ts\<close> moved, in this order, to the lists of expired timers of their owners;
  every timer keeps its data, and only destroyed ones are freed.
\<close>

definition delivered :: "'z world_scheme \<Rightarrow> (tmr_list \<Rightarrow> nat list) \<Rightarrow> 'z world_scheme \<Rightarrow> (tmr_list \<Rightarrow> nat list) \<Rightarrow> nat list \<Rightarrow> bool" where
  "delivered w A w' B ts \<longleftrightarrow> w_fibers w' = w_fibers w \<and> w_current w' = w_current w \<and> B = fold (\<lambda>t. expire (t_owner (tmr w t)) t) ts A
     \<and> sorted (map (\<lambda>t. t_absolute_ref (tmr w t)) ts) \<and> distinct ts
     \<and> set ts = {t \<in> set (heap_tmrs w). t_status (tmr w t) = TT_TMR_ACTIVE \<and> t \<notin> set (heap_tmrs w')}
     \<and> (\<forall>u. tcell w' u \<longrightarrow> tcell w u \<and> lnode.more (tmr w' u) = lnode.more (tmr w u))
     \<and> (\<forall>u. tcell w u \<longrightarrow> t_status (tmr w u) \<noteq> TT_TMR_ORPHAN \<longrightarrow> tcell w' u)"

definition mgr_step :: "'z world_scheme \<Rightarrow> (tmr_list \<Rightarrow> nat list) \<Rightarrow> 'z world_scheme \<Rightarrow> (tmr_list \<Rightarrow> nat list) \<Rightarrow> nat list \<Rightarrow> bool" where
  "mgr_step w A w' B ts \<longleftrightarrow> starts_none w w' \<and> tmr_ok w' B {} \<and> (no_waiter w \<longrightarrow> delivered w A w' B ts)"

lemma mgr_step_refl: "tmr_ok w A {} \<Longrightarrow> mgr_step w A w A []"
  using starts_none_refl by (auto simp: mgr_step_def delivered_def tmr_inv_def)

lemma mgr_step_tick: "tmr_ok w A {} \<Longrightarrow> w_tick w \<le> k \<Longrightarrow> mgr_step w A (w\<lparr>w_tick := k\<rparr>) A []"
  using tmr_ok_tick starts_none_tick by (fastforce simp: mgr_step_def delivered_def tmr_inv_def)

lemma delivered_trans:
  assumes d: "delivered w A w1 B ts" "delivered w1 B w2 C us" and s: "starts_none w w1" "starts_none w1 w2"
    and c: "\<And>t. t \<in> set (heap_tmrs w1) \<Longrightarrow> tcell w1 t"
    and min: "\<And>t u. t \<in> set ts \<Longrightarrow> u \<in> set (heap_tmrs w1) \<Longrightarrow> t_absolute_ref (tmr w t) \<le> t_absolute_ref (tmr w u)"
  shows "delivered w A w2 C (ts @ us)"
proof -
  note d1 = d(1) [unfolded delivered_def] and d2 = d(2) [unfolded delivered_def]
  have us: "u \<in> set (heap_tmrs w1)" if "u \<in> set us" for u using d2 that by blast
  have f: "t_owner (tmr w1 u) = t_owner (tmr w u)" "t_absolute_ref (tmr w1 u) = t_absolute_ref (tmr w u)"
    "t_status (tmr w1 u) = t_status (tmr w u)" if "u \<in> set (heap_tmrs w1)" for u
    using d1 c [OF that] tmr_fields [of "tmr w1 u" "tmr w u"] by blast+
  have "fold (\<lambda>t. expire (t_owner (tmr w1 t)) t) us B = fold (\<lambda>t. expire (t_owner (tmr w t)) t) us B"
    using f(1) us by (intro List.fold_cong) simp_all
  then have C: "C = fold (\<lambda>t. expire (t_owner (tmr w t)) t) (ts @ us) A" using d1 d2 by simp
  have "map (\<lambda>t. t_absolute_ref (tmr w1 t)) us = map (\<lambda>t. t_absolute_ref (tmr w t)) us" using f(2) us by simp
  then have "sorted (map (\<lambda>t. t_absolute_ref (tmr w t)) us)" using d2 by metis
  then have S: "sorted (map (\<lambda>t. t_absolute_ref (tmr w t)) (ts @ us))" using d1 min us by (auto simp: sorted_append)
  have h: "set (heap_tmrs w1) \<subseteq> set (heap_tmrs w)" "set (heap_tmrs w2) \<subseteq> set (heap_tmrs w1)" using starts_noneD(5) s by blast+
  have "set us = {t \<in> set (heap_tmrs w1). t_status (tmr w1 t) = TT_TMR_ACTIVE \<and> t \<notin> set (heap_tmrs w2)}" using d2 by blast
  then have u: "set us = {t \<in> set (heap_tmrs w1). t_status (tmr w t) = TT_TMR_ACTIVE \<and> t \<notin> set (heap_tmrs w2)}" using f(3) by auto
  moreover have t: "set ts = {t \<in> set (heap_tmrs w). t_status (tmr w t) = TT_TMR_ACTIVE \<and> t \<notin> set (heap_tmrs w1)}" using d1 by blast
  ultimately have "set (ts @ us) = {t \<in> set (heap_tmrs w). t_status (tmr w t) = TT_TMR_ACTIVE \<and> t \<notin> set (heap_tmrs w2)}"
    using h by auto
  moreover have "distinct (ts @ us)" using d1 d2 t u by auto
  moreover have "tcell w v \<and> lnode.more (tmr w2 v) = lnode.more (tmr w v)" if v: "tcell w2 v" for v
  proof -
    have "tcell w1 v \<and> lnode.more (tmr w2 v) = lnode.more (tmr w1 v)" using d2 v by blast
    moreover from this have "tcell w v \<and> lnode.more (tmr w1 v) = lnode.more (tmr w v)" using d1 by blast
    ultimately show ?thesis by simp
  qed
  moreover have "tcell w2 v" if v: "tcell w v" "t_status (tmr w v) \<noteq> TT_TMR_ORPHAN" for v
  proof -
    have v1: "tcell w1 v" using d1 v by blast
    then have "lnode.more (tmr w1 v) = lnode.more (tmr w v)" using d1 by blast
    then have "t_status (tmr w1 v) \<noteq> TT_TMR_ORPHAN" using v(2) tmr_fields(4) by metis
    then show ?thesis using d2 v1 by blast
  qed
  moreover have "w_fibers w2 = w_fibers w" "w_current w2 = w_current w" using d1 d2 by metis+
  ultimately show ?thesis unfolding delivered_def using C S by blast
qed

lemma mgr_step_trans:
  assumes s: "mgr_step w A w1 B ts" "mgr_step w1 B w2 C us"
    and min: "\<And>t u. t \<in> set ts \<Longrightarrow> u \<in> set (heap_tmrs w1) \<Longrightarrow> t_absolute_ref (tmr w t) \<le> t_absolute_ref (tmr w u)"
  shows "mgr_step w A w2 C (ts @ us)"
proof -
  have i: "starts_none w w1" "starts_none w1 w2" "tmr_ok w2 C {}" and ok: "tmr_ok w1 B {}" using s by (simp_all add: mgr_step_def)
  have "delivered w A w2 C (ts @ us)" if n: "no_waiter w"
  proof -
    have d: "delivered w A w1 B ts" using s(1) n by (simp add: mgr_step_def)
    then have "no_waiter w1" using n by (simp add: delivered_def no_waiter_def)
    then have d2: "delivered w1 B w2 C us" using s(2) by (simp add: mgr_step_def)
    show ?thesis using heap_okD(5) ok min by (intro delivered_trans [OF d d2 i(1,2)]) (auto simp: tmr_ok_def)
  qed
  then show ?thesis using i starts_none_trans [OF i(1,2)] by (simp add: mgr_step_def)
qed

definition switch_ok :: "'z switch \<Rightarrow> 'z world_scheme \<Rightarrow> bool" where
  "switch_ok switch w \<longleftrightarrow> fibers_start_none switch \<or> no_waiter w"

lemma switch_ok_step: "switch_ok switch w \<Longrightarrow> mgr_step w A w' B ts \<Longrightarrow> switch_ok switch w'"
  by (auto simp: switch_ok_def mgr_step_def delivered_def no_waiter_def)

lemma deliver_step:
  assumes sw: "switch_ok switch w" and ok: "tmr_ok w A {}" and ts: "heap_tmrs w = t # ts" and st: "t_status (tmr w t) = TT_TMR_ACTIVE"
  obtains w' B where "mgr_deliver switch t w = Inr w'" "mgr_step w A w' B [t]" "t \<notin> set (heap_tmrs w')"
proof -
  let ?o = "t_owner (tmr w t)"
  have T: "tmrs_ok w A {}" using ok by (simp add: tmr_ok_def)
  have "t \<in> set (A (Unexpired ?o))" using tmrs_okD(7) [OF T] ts st by simp
  then have o: "lcell (w_fibers w) ?o" using owner_lists(4) [OF ok] by blast
  then have "fb_recving (lnd (w_fibers w) ?o) \<Longrightarrow> fibers_start_none switch" using sw by (auto simp: switch_ok_def no_waiter_def)
  from deliver_ok [OF this ok ts st] obtain w1 where w1: "mgr_deliver switch t w = Inr w1" "starts_none w w1" "t \<notin> set (heap_tmrs w1)"
    "\<not> fb_recving (lnd (w_fibers w) ?o) \<Longrightarrow> tmr_ok w1 (expire ?o t A) {} \<and> w_tick w1 = w_tick w
      \<and> w_fibers w1 = w_fibers w \<and> w_current w1 = w_current w \<and> (\<forall>u. lnode.more (tmr w1 u) = lnode.more (tmr w u) \<and> tcell w1 u = tcell w u)
      \<and> set (heap_tmrs w) = insert t (set (heap_tmrs w1))" by blast
  show thesis
  proof (cases "fb_recving (lnd (w_fibers w) ?o)")
    case True
    obtain B where "tmr_ok w1 B {}" using w1(2) by (auto simp: starts_none_def tmr_inv_def)
    then show thesis using that [of w1 B] w1(1-3) True o by (auto simp: mgr_step_def no_waiter_def)
  next
    case False
    note r = w1(4) [OF False]
    have "set [t] = {u \<in> set (heap_tmrs w). t_status (tmr w u) = TT_TMR_ACTIVE \<and> u \<notin> set (heap_tmrs w1)}" using r st w1(3) by auto
    then have "delivered w A w1 (expire ?o t A) [t]" using r by (simp add: delivered_def)
    then show thesis using that [of w1 "expire ?o t A"] w1(1-3) r by (simp add: mgr_step_def)
  qed
qed

lemma drop_step:
  assumes ok: "tmr_ok w A {}" and ts: "heap_tmrs w = t # ts" and st: "t_status (tmr w t) = TT_TMR_INACTIVE"
  obtains w' where "mgr_pop w = Inr (Some t, w')" "mgr_step w A w' A []" "t \<notin> set (heap_tmrs w')" "w_tick w' = w_tick w"
proof -
  have "t_status (tmr w t) \<noteq> TT_TMR_ORPHAN" using st by simp
  from drop_ok [OF ok ts this] obtain w1 where w1: "mgr_pop w = Inr (Some t, w1)" "tmr_ok w1 A {}" "starts_none w w1" "t \<notin> set (heap_tmrs w1)"
    "heap_step w w1" "set (heap_tmrs w) = insert t (set (heap_tmrs w1))" .
  note S = heap_stepD [OF w1(5)]
  have "{u \<in> set (heap_tmrs w). t_status (tmr w u) = TT_TMR_ACTIVE \<and> u \<notin> set (heap_tmrs w1)} = {}" using w1(6) st by auto
  then have "delivered w A w1 A []" using S(1,3,4) by (simp add: delivered_def)
  then show thesis using that [of w1] w1(1-4) S(6) by (simp add: mgr_step_def)
qed

lemma orphan_step:
  assumes ok: "tmr_ok w A {}" and ts: "heap_tmrs w = t # ts" and st: "t_status (tmr w t) = TT_TMR_ORPHAN"
  obtains w' where "bindr (mgr_pop w) (\<lambda>(_, w). tt_tmr_destroy t w) = Inr w'" "mgr_step w A w' A []" "t \<notin> set (heap_tmrs w')" "w_tick w' = w_tick w"
proof -
  from orphan_ok [OF ok ts st] obtain w1 where w1: "bindr (mgr_pop w) (\<lambda>(_, w). tt_tmr_destroy t w) = Inr w1" "tmr_ok w1 A {}" "starts_none w w1"
    "\<not> tcell w1 t" "t \<notin> set (heap_tmrs w1)" "\<forall>u. u \<noteq> t \<longrightarrow> tmr w1 u = tmr w u" "w_fibers w1 = w_fibers w" "w_tick w1 = w_tick w"
    "set (heap_tmrs w) = insert t (set (heap_tmrs w1))" "\<forall>u. tcell w1 u \<longleftrightarrow> tcell w u \<and> u \<noteq> t" "w_current w1 = w_current w" .
  have e: "{u \<in> set (heap_tmrs w). t_status (tmr w u) = TT_TMR_ACTIVE \<and> u \<notin> set (heap_tmrs w1)} = {}" using w1(9) st by auto
  have "tcell w u \<and> lnode.more (tmr w1 u) = lnode.more (tmr w u)" if "tcell w1 u" for u
    using w1(10) w1(6) w1(4) that by metis
  moreover have "tcell w1 u" if "tcell w u" "t_status (tmr w u) \<noteq> TT_TMR_ORPHAN" for u
    using that st w1(10) by metis
  ultimately have "delivered w A w1 A []" using e w1(7,11) by (simp add: delivered_def)
  then show thesis using that [of w1] w1(1-3,5,8) by (simp add: mgr_step_def)
qed

section \<open>The loop of the manager\<close>

text \<open>What the manager returns: the time to wait for the first timer, since a reading not before the \<open>k0\<close>-th.\<close>

definition mgr_result :: "nat \<Rightarrow> 'z world_scheme \<Rightarrow> int \<Rightarrow> bool" where
  "mgr_result k0 w d \<longleftrightarrow> (d = TT_TIME_INFINITE \<and> heap_tmrs w = [])
     \<or> (\<exists>t k. t \<in> set (heap_tmrs w) \<and> t_status (tmr w t) = TT_TMR_ACTIVE \<and> k0 \<le> k \<and> k < w_tick w \<and> 0 < d
          \<and> d = t_absolute_ref (tmr w t) - w_clock w k \<and> (\<forall>u \<in> set (heap_tmrs w). t_absolute_ref (tmr w t) \<le> t_absolute_ref (tmr w u)))"

lemma heap_min: "heap_ok w \<Longrightarrow> heap_tmrs w = t # ts \<Longrightarrow> u \<in> set (heap_tmrs w) \<Longrightarrow> t_absolute_ref (tmr w t) \<le> t_absolute_ref (tmr w u)"
  using mgr_pop_ok [of w t ts] by metis

lemma wait_ok:
  assumes i: "tmr_inv w" and ts: "heap_tmrs w = t # ts" and st: "t_status (tmr w t) = TT_TMR_ACTIVE"
    and n: "k0 \<le> k" "k < w_tick w" "now = w_clock w k" "0 < now" "now < t_absolute_ref (tmr w t)"
  obtains d where "mgr_wait t now w = Inr d" "mgr_result k0 w d"
proof -
  have H: "heap_ok w" using tmr_inv_heap [OF i] .
  let ?d = "t_absolute_ref (tmr w t) - now"
  have t: "tcell w t" "t_absolute_ref (tmr w t) < 2 ^ 63" using heap_okD(5,7) [OF H] ts by simp_all
  then have "mgr_wait t now w = Inr ?d"
    using n(4,5) by (simp add: mgr_wait_def tmr_ld_def ll_run s64_def fits_s64_def tt_time_ref2ms_def)
  moreover have "mgr_result k0 w ?d"
    unfolding mgr_result_def using n ts st heap_min [OF H ts] by (intro disjI2 exI [of _ t] exI [of _ k]) auto
  ultimately show thesis using that by blast
qed

lemma due_ok:
  assumes sw: "switch_ok switch w" and A: "tmr_ok w A {}" and c: "clock_ok w" and ts: "heap_tmrs w = t # ts"
    and st: "t_status (tmr w t) = TT_TMR_ACTIVE" and n: "k0 \<le> k" "k < w_tick w" "now = w_clock w k"
  obtains (deliver) n' w' B k' where "mgr_due switch t now cb w = Inr (Inl (n', w'))" "mgr_step w A w' B [t]" "t \<notin> set (heap_tmrs w')"
      "k0 \<le> k'" "k' < w_tick w'" "n' = w_clock w' k'" "n' = now \<or> now < t_absolute_ref (tmr w t)"
      "t_absolute_ref (tmr w t) \<le> n'"
  | (wait) d w' where "mgr_due switch t now cb w = Inr (Inr (d, w'))" "mgr_step w A w' A []" "mgr_result k0 w' d" "now < t_absolute_ref (tmr w t)"
proof -
  have i: "tmr_inv w" using A unfolding tmr_inv_def by blast
  have H: "heap_ok w" using tmr_inv_heap [OF i] .
  have t: "tcell w t" using heap_okD(5) [OF H] ts by simp
  note eval = mgr_due_def tmr_ld_def ll_run t
  consider (due) "t_absolute_ref (tmr w t) \<le> now" | (later) "now < t_absolute_ref (tmr w t)" "\<not> cb" | (again) "now < t_absolute_ref (tmr w t)" cb
    by linarith
  then show thesis
  proof cases
    case due
    from deliver_step [OF sw A ts st] obtain w1 B where w1: "mgr_deliver switch t w = Inr w1" "mgr_step w A w1 B [t]" "t \<notin> set (heap_tmrs w1)" .
    have "k < w_tick w1" "w_clock w1 = w_clock w" using w1(2) n(2) by (auto simp: mgr_step_def starts_none_def)
    then show thesis using deliver [of now w1 B k] due w1 n by (simp add: eval)
  next
    case later
    have "0 < now" using c n(3) by (simp add: clock_ok_def)
    from wait_ok [OF i ts st n this later(1)] obtain d where "mgr_wait t now w = Inr d" "mgr_result k0 w d" .
    then show thesis using wait [of d w] later mgr_step_refl [OF A] by (simp add: eval)
  next
    case again
    let ?w = "w\<lparr>w_tick := Suc (w_tick w)\<rparr>" and ?n = "w_clock w (w_tick w)"
    have s: "mgr_step w A ?w A []" using mgr_step_tick [OF A] by simp
    have i': "tmr_ok ?w A {}" "tmr_inv ?w" using tmr_ok_tick [OF A] unfolding tmr_inv_def by blast+
    have ts': "heap_tmrs ?w = t # ts" "t_status (tmr ?w t) = TT_TMR_ACTIVE" using ts st by simp_all
    show thesis
    proof (cases "t_absolute_ref (tmr w t) \<le> ?n")
      case True
      from deliver_step [OF switch_ok_step [OF sw s] i'(1) ts'] obtain w1 B where
        w1: "mgr_deliver switch t ?w = Inr w1" "mgr_step ?w A w1 B [t]" "t \<notin> set (heap_tmrs w1)" .
      have k: "w_tick w < w_tick w1" "?n = w_clock w1 (w_tick w)" using w1(2) by (auto simp: mgr_step_def starts_none_def)
      have "mgr_due switch t now cb w = Inr (Inl (?n, w1))" using True again w1(1) by (simp add: eval tt_time_ref_def)
      moreover have "mgr_step w A w1 B [t]" using mgr_step_trans [OF s w1(2)] by simp
      moreover have "k0 \<le> w_tick w" using n by simp
      ultimately show thesis using deliver w1(3) k again(1) True by blast
    next
      case False
      have "0 < ?n" using c by (simp add: clock_ok_def)
      with wait_ok [OF i'(2) ts', of k0 "w_tick w" ?n] False n obtain d where "mgr_wait t ?n ?w = Inr d" "mgr_result k0 ?w d" by auto
      then show thesis using wait [of d ?w] False again s by (simp add: eval tt_time_ref_def)
    qed
  qed
qed

definition first_reading :: "int \<Rightarrow> 'z world_scheme \<Rightarrow> int" where
  "first_reading now w = (if now = 0 then w_clock w (w_tick w) else now)"

lemma mgr_step_refs:
  assumes "mgr_step w A w1 B ts" "tmr_ok w A {}" "heap_tmrs w = t # us" "u \<in> set (heap_tmrs w1)"
  shows "t_absolute_ref (tmr w1 u) = t_absolute_ref (tmr w u)" "t_absolute_ref (tmr w t) \<le> t_absolute_ref (tmr w u)"
proof -
  have s: "starts_none w w1" using assms(1) by (simp add: mgr_step_def)
  show "t_absolute_ref (tmr w1 u) = t_absolute_ref (tmr w u)" using starts_noneD(6) [OF s assms(4)] .
  have "u \<in> set (heap_tmrs w)" using starts_noneD(5) [OF s] assms(4) by blast
  then show "t_absolute_ref (tmr w t) \<le> t_absolute_ref (tmr w u)" using heap_min [OF _ assms(3)] assms(2) by (simp add: tmr_ok_def)
qed

text \<open>No timer is delivered before a reading of the clock, from the \<open>k0\<close>-th on, has reached its time.\<close>

definition on_time :: "nat \<Rightarrow> 'z world_scheme \<Rightarrow> 'z world_scheme \<Rightarrow> nat list \<Rightarrow> bool" where
  "on_time k0 w w' ts \<longleftrightarrow> (\<forall>t \<in> set ts. \<exists>k. k0 \<le> k \<and> k < w_tick w' \<and> t_absolute_ref (tmr w t) \<le> w_clock w k)"

lemma on_time_trans:
  assumes "on_time k0 w w1 ts" "on_time k0 w1 w2 us" "starts_none w w1" "starts_none w1 w2" "set us \<subseteq> set (heap_tmrs w1)"
  shows "on_time k0 w w2 (ts @ us)"
proof -
  note S = starts_noneD(2,3,6) [OF assms(3)] and k = starts_noneD(3) [OF assms(4)]
  have "\<exists>k. k0 \<le> k \<and> k < w_tick w2 \<and> t_absolute_ref (tmr w u) \<le> w_clock w k" if "u \<in> set us" for u
    using assms(2,5) S(1) S(3) [of u] that unfolding on_time_def by fastforce
  moreover have "\<exists>k. k0 \<le> k \<and> k < w_tick w2 \<and> t_absolute_ref (tmr w u) \<le> w_clock w k" if "u \<in> set ts" for u
    using assms(1) k that unfolding on_time_def by (meson less_le_trans)
  ultimately show ?thesis unfolding on_time_def by auto
qed

text \<open>The loop returns, and then every timer in the heap is due after the first reading of the clock.\<close>

lemma mgr_loop_ok:
  "switch_ok switch w \<Longrightarrow> tmr_ok w A {} \<Longrightarrow> clock_ok w \<Longrightarrow> k0 \<le> w_tick w \<Longrightarrow> now = 0 \<or> (\<exists>k. k0 \<le> k \<and> k < w_tick w \<and> now = w_clock w k) \<Longrightarrow>
    \<exists>d w' B ts. mgr_run_loop switch now cb w = Some (Inr (d, w')) \<and> mgr_step w A w' B ts \<and> mgr_result k0 w' d
      \<and> (\<forall>u \<in> set (heap_tmrs w'). first_reading now w < t_absolute_ref (tmr w u)) \<and> (no_waiter w \<longrightarrow> on_time k0 w w' ts)"
proof (induction "length (heap_tmrs w)" arbitrary: w A now cb rule: less_induct)
  case less
  note sw = less.prems(1) and A = less.prems(2) and c = less.prems(3) and k0 = less.prems(4) and now = less.prems(5)
  have H: "heap_ok w" using A by (simp add: tmr_ok_def)
  have next_step: "\<exists>d w' B' us. mgr_run_loop switch now' cb' w1 = Some (Inr (d, w')) \<and> mgr_step w A w' B' us \<and> mgr_result k0 w' d
      \<and> (\<forall>u \<in> set (heap_tmrs w'). first_reading now' w1 < t_absolute_ref (tmr w u)) \<and> (no_waiter w \<longrightarrow> on_time k0 w w' us)"
    if w1: "mgr_step w A w1 B us" "heap_tmrs w = t # ts" "t \<notin> set (heap_tmrs w1)" "set us \<subseteq> {t}" "on_time k0 w w1 us"
      and n: "now' = 0 \<or> (\<exists>k. k0 \<le> k \<and> k < w_tick w1 \<and> now' = w_clock w1 k)" for now' cb' w1 B t ts us
  proof -
    have s: "starts_none w w1" "tmr_ok w1 B {}" using w1(1) by (simp_all add: mgr_step_def)
    note S = starts_noneD [OF s(1)] and R = mgr_step_refs [OF w1(1) A w1(2)]
    have "length (heap_tmrs w1) < length (heap_tmrs w)" using heap_shrinks [OF H tmr_inv_heap [OF S(1)] S(5) _ w1(3)] w1(2) by simp
    moreover have "clock_ok w1" "k0 \<le> w_tick w1" using S(3,4) c k0 by simp_all
    ultimately obtain d w' B' vs where l: "mgr_run_loop switch now' cb' w1 = Some (Inr (d, w'))" "mgr_step w1 B w' B' vs" "mgr_result k0 w' d"
      "\<forall>u \<in> set (heap_tmrs w'). first_reading now' w1 < t_absolute_ref (tmr w1 u)" "no_waiter w1 \<longrightarrow> on_time k0 w1 w' vs"
      using less.hyps [OF _ switch_ok_step [OF sw w1(1)] s(2) _ _ n] by blast
    have "mgr_step w A w' B' (us @ vs)" using w1(4) R(2) by (intro mgr_step_trans [OF w1(1) l(2)]) auto
    moreover have "u \<in> set (heap_tmrs w1)" if "u \<in> set (heap_tmrs w')" for u
      using starts_noneD(5) [of w1 w'] l(2) that unfolding mgr_step_def by blast
    then have "\<forall>u \<in> set (heap_tmrs w'). first_reading now' w1 < t_absolute_ref (tmr w u)" using l(4) R(1) by simp
    moreover have "on_time k0 w w' (us @ vs)" if n: "no_waiter w"
    proof -
      have n1: "no_waiter w1" using w1(1) n by (simp add: mgr_step_def delivered_def no_waiter_def)
      then have "delivered w1 B w' B' vs" using l(2) by (simp add: mgr_step_def)
      then have "set vs \<subseteq> set (heap_tmrs w1)" unfolding delivered_def by blast
      moreover have "starts_none w1 w'" using l(2) by (simp add: mgr_step_def)
      ultimately show ?thesis using on_time_trans [OF w1(5) _ s(1)] l(5) n1 by blast
    qed
    ultimately show ?thesis using l(1,3) by blast
  qed
  show ?case
  proof (cases "heap_tmrs w")
    case Nil
    then show ?thesis using heap_head [OF H] mgr_step_refl [OF A] by (subst mgr_run_loop.simps) (force simp: mgr_result_def on_time_def)
  next
    case ts: (Cons t ts)
    have t: "tcell w t" using heap_okD(5) [OF H] ts by simp
    have hd: "tt_ptrheap_head (tmr_heap w) (w_nodes w) = Inr (Some t)" using heap_head [OF H] ts by simp
    have ld: "tmr_ld t_status t w = Inr (t_status (tmr w t))" using t by (simp add: tmr_ld_def ll_run)
    have skip: "\<exists>d w' B' us. mgr_run_loop switch now cb w1 = Some (Inr (d, w')) \<and> mgr_step w A w' B' us \<and> mgr_result k0 w' d
      \<and> (\<forall>u \<in> set (heap_tmrs w'). first_reading now w < t_absolute_ref (tmr w u)) \<and> (no_waiter w \<longrightarrow> on_time k0 w w' us)"
      if w1: "mgr_step w A w1 A []" "t \<notin> set (heap_tmrs w1)" "w_tick w1 = w_tick w" for w1
    proof -
      have S: "w_clock w1 = w_clock w" using starts_noneD(2) w1(1) by (auto simp: mgr_step_def)
      have "first_reading now w1 = first_reading now w" using S w1(3) by (simp add: first_reading_def)
      moreover have "now = 0 \<or> (\<exists>k. k0 \<le> k \<and> k < w_tick w1 \<and> now = w_clock w1 k)" using now S w1(3) by simp
      ultimately show ?thesis using next_step [OF w1(1) ts w1(2), of now cb] by (simp add: on_time_def)
    qed
    show ?thesis
    proof (cases "t_status (tmr w t)")
      case st: TT_TMR_INACTIVE
      from drop_step [OF A ts st] obtain w1 where w1: "mgr_pop w = Inr (Some t, w1)" "mgr_step w A w1 A []" "t \<notin> set (heap_tmrs w1)"
        "w_tick w1 = w_tick w" .
      from skip [OF w1(2-4)] show ?thesis by (subst mgr_run_loop.simps) (simp add: hd ld st w1(1))
    next
      case st: TT_TMR_ORPHAN
      from orphan_step [OF A ts st] obtain w1 where w1: "bindr (mgr_pop w) (\<lambda>(_, w). tt_tmr_destroy t w) = Inr w1" "mgr_step w A w1 A []"
        "t \<notin> set (heap_tmrs w1)" "w_tick w1 = w_tick w" .
      from skip [OF w1(2-4)] show ?thesis by (subst mgr_run_loop.simps) (simp add: hd ld st w1(1))
    next
      case st: TT_TMR_ACTIVE
      define n where "n = first_reading now w"
      define w1 where "w1 = (if now = 0 then w\<lparr>w_tick := Suc (w_tick w)\<rparr> else w)"
      have e: "(if now = 0 then tt_time_ref w else (now, w)) = (n, w1)" by (simp add: n_def w1_def first_reading_def tt_time_ref_def)
      have s1: "mgr_step w A w1 A []" using mgr_step_tick [OF A] mgr_step_refl [OF A] by (simp add: w1_def)
      then have A1: "tmr_ok w1 A {}" by (simp add: mgr_step_def)
      have x: "heap_tmrs w1 = heap_tmrs w" "tmr w1 = tmr w" "w_clock w1 = w_clock w" by (simp_all add: w1_def)
      obtain k where k: "k0 \<le> k" "k < w_tick w1" "n = w_clock w1 k"
        using now k0 by (cases "now = 0") (auto simp: w1_def n_def first_reading_def)
      have c1: "clock_ok w1" using c x(3) by (simp add: clock_ok_def)
      have ts1: "heap_tmrs w1 = t # ts" "t_status (tmr w1 t) = TT_TMR_ACTIVE" using ts st x by simp_all
      from switch_ok_step [OF sw s1] A1 c1 ts1 k show ?thesis
      proof (cases rule: due_ok [where cb = cb])
        case (deliver n' w2 B k')
        have s2: "mgr_step w A w2 B [t]" using mgr_step_trans [OF s1 deliver(2)] by simp
        have "n' = 0 \<or> (\<exists>k. k0 \<le> k \<and> k < w_tick w2 \<and> n' = w_clock w2 k)" using deliver(4-6) by blast
        moreover have "w_clock w2 = w_clock w" using starts_noneD(2) s2 by (auto simp: mgr_step_def)
        then have "on_time k0 w w2 [t]" using deliver(4-6,8) x(2) unfolding on_time_def by auto
        ultimately obtain d w' B' us where l: "mgr_run_loop switch n' True w2 = Some (Inr (d, w'))" "mgr_step w A w' B' us" "mgr_result k0 w' d"
          "\<forall>u \<in> set (heap_tmrs w'). first_reading n' w2 < t_absolute_ref (tmr w u)" "no_waiter w \<longrightarrow> on_time k0 w w' us"
          using next_step [OF s2 ts deliver(3), of n' True] by auto
        have "w_clock w2 = w_clock w1" using starts_noneD(2) deliver(2) by (auto simp: mgr_step_def)
        then have "n' \<noteq> 0" using c1 deliver(6) unfolding clock_ok_def by (metis less_irrefl)
        then have f: "first_reading n' w2 = n'" by (simp add: first_reading_def)
        have "n < t_absolute_ref (tmr w u)" if u: "u \<in> set (heap_tmrs w')" for u
          using deliver(7) l(4) mgr_step_refs(2) [OF l(2) A ts u] u f x(2) by fastforce
        then show ?thesis unfolding n_def [symmetric] using l(1-3,5) by (subst mgr_run_loop.simps) (force simp: hd ld st e deliver(1))
      next
        case (wait d w2)
        have s2: "mgr_step w A w2 A []" using mgr_step_trans [OF s1 wait(2)] by simp
        have "n < t_absolute_ref (tmr w u)" if u: "u \<in> set (heap_tmrs w2)" for u
          using mgr_step_refs(2) [OF s2 A ts u] wait(4) x(2) by simp
        then show ?thesis using s2 wait(3) unfolding n_def [symmetric]
          by (subst mgr_run_loop.simps) (force simp: hd ld st e wait(1) on_time_def)
      qed
    qed
  qed
qed

end
