(* ===== verification/TT_Timer_Calls.thy ===== *)
theory TT_Timer_Calls
  imports TT_Timer_Run
begin

text \<open>
  The calls on timers as transitions of the state that fibers share: what each call needs, that it then returns and
  keeps the invariant, and what it does to its timer.
\<close>

section \<open>Stores into timers\<close>

definition tmr_upd :: "nat \<Rightarrow> (tt_tmr \<Rightarrow> tt_tmr) \<Rightarrow> 'z world_scheme \<Rightarrow> 'z world_scheme" where
  "tmr_upd t u w = w\<lparr>w_tmrs := (w_tmrs w)\<lparr>ls_nodes := cell_upd (ls_nodes (w_tmrs w)) t (u (tmr w t))\<rparr>\<rparr>"

lemma tmr_st_upd: "tcell w t \<Longrightarrow> tmr_st u t w = Inr (tmr_upd t u w)"
  by (simp add: tmr_st_def on_tmrs_def ll_run tmr_upd_def)

lemma tmr_upd_view [simp]:
  "tmr (tmr_upd t u w) a = (if a = t then u (tmr w t) else tmr w a)" "tcell (tmr_upd t u w) a \<longleftrightarrow> a = t \<or> tcell w a"
  "w_fibers (tmr_upd t u w) = w_fibers w" "w_heap (tmr_upd t u w) = w_heap w" "w_nodes (tmr_upd t u w) = w_nodes w"
  "w_heap_pos (tmr_upd t u w) = w_heap_pos w" "w_clock (tmr_upd t u w) = w_clock w" "w_tick (tmr_upd t u w) = w_tick w"
  "w_current (tmr_upd t u w) = w_current w" "w_main (tmr_upd t u w) = w_main w"
  "heap_tmrs (tmr_upd t u w) = heap_tmrs w" "ls_lists (w_tmrs (tmr_upd t u w)) = ls_lists (w_tmrs w)"
  by (simp_all add: tmr_upd_def heap_tmrs_def)

lemma tmr_upd_upd: "tmr_upd t v (tmr_upd t u w) = tmr_upd t (v \<circ> u) w"
  by (simp add: tmr_upd_def cell_upd_def struct_at_def)

lemma list_ok_data:
  assumes ok: "list_ok s A" and a: "lcell s a" and n: "l_lst n = l_lst (lnd s a)" "l_prev n = l_prev (lnd s a)" "l_next n = l_next (lnd s a)"
  shows "list_ok (s\<lparr>ls_nodes := cell_upd (ls_nodes s) a n\<rparr>) A"
proof -
  let ?s = "s\<lparr>ls_nodes := cell_upd (ls_nodes s) a n\<rparr>"
  have l: "links ?s b = links s b" for b using n by simp
  moreover have "lcell ?s b = lcell s b" for b using a by auto
  ultimately show ?thesis using ok unfolding list_ok_def by simp
qed

lemma tmr_ok_edit:
  assumes ok: "tmr_ok w A X" and same: "same_structs t_absolute_ref (w_tmrs w) s" and l: "list_ok s B"
    and delay: "\<And>t. lcell s t \<Longrightarrow> 0 \<le> t_delay_ms (lnd s t)"
    and own: "\<And>l t. t \<in> set (B l) \<Longrightarrow> l = Unexpired (t_owner (lnd s t)) \<or> l = Expired (t_owner (lnd s t))"
    and orph: "\<And>t. lcell s t \<Longrightarrow> t_status (lnd s t) = TT_TMR_ORPHAN \<Longrightarrow> off_lists t B \<and> (t \<in> set (heap_tmrs w) \<or> t \<in> Y)"
    and act: "\<And>t. t \<in> set (heap_tmrs w) \<Longrightarrow> t_status (lnd s t) = TT_TMR_ACTIVE \<Longrightarrow> t \<in> set (B (Unexpired (t_owner (lnd s t))))"
  shows "tmr_ok (w\<lparr>w_tmrs := s\<rparr>) B Y"
proof -
  have T: "tmrs_ok w A X" and H: "heap_ok w" and F: "fibers_ok w" using ok by (simp_all add: tmr_ok_def)
  note D = tmrs_okD [OF T] and S = same_structsD [OF same]
  have "heap_ok (w\<lparr>w_tmrs := s\<rparr>)" using heap_okD(5) [OF H] S(1,2) by (intro heap_ok_tmrs [OF H]) simp
  moreover have "fibers_ok (w\<lparr>w_tmrs := s\<rparr>)" using F S(3) by (simp add: fibers_ok_def)
  moreover have "tmrs_ok (w\<lparr>w_tmrs := s\<rparr>) B Y"
    unfolding tmrs_ok_def using D(2,3) S(1,4,5) l delay own orph act by simp
  ultimately show ?thesis by (simp add: tmr_ok_def)
qed

text \<open>A store that leaves the links, the owner and the time of a timer as they are.\<close>

lemma tmr_set_ok:
  assumes ok: "tmr_ok w A X" and t: "tcell w t" and u: "links (w_tmrs (tmr_upd t u w)) t = links (w_tmrs w) t"
      "t_owner (u (tmr w t)) = t_owner (tmr w t)" "t_absolute_ref (u (tmr w t)) = t_absolute_ref (tmr w t)" "0 \<le> t_delay_ms (u (tmr w t))"
      "t_status (u (tmr w t)) = TT_TMR_INACTIVE \<or> t_status (u (tmr w t)) = t_status (tmr w t)"
  shows "tmr_ok (tmr_upd t u w) A X"
proof -
  have T: "tmrs_ok w A X" using ok by (simp add: tmr_ok_def)
  note D = tmrs_okD [OF T]
  let ?s = "(w_tmrs w)\<lparr>ls_nodes := cell_upd (ls_nodes (w_tmrs w)) t (u (tmr w t))\<rparr>"
  have "tmr_ok (w\<lparr>w_tmrs := ?s\<rparr>) A X"
  proof (rule tmr_ok_edit [OF ok])
    show "same_structs t_absolute_ref (w_tmrs w) ?s" using t u(3) by (simp add: same_structs_def same_cells_upd)
    show "list_ok ?s A" using u(1) by (intro list_ok_data [OF D(1) t]) simp_all
    fix a
    show "lcell ?s a \<Longrightarrow> 0 \<le> t_delay_ms (lnd ?s a)" using D(4) [of a] u(4) t by auto
    show "lcell ?s a \<Longrightarrow> t_status (lnd ?s a) = TT_TMR_ORPHAN \<Longrightarrow> off_lists a A \<and> (a \<in> set (heap_tmrs w) \<or> a \<in> X)"
      using D(6) [of a] u(5) t by (auto split: if_splits)
    show "a \<in> set (heap_tmrs w) \<Longrightarrow> t_status (lnd ?s a) = TT_TMR_ACTIVE \<Longrightarrow> a \<in> set (A (Unexpired (t_owner (lnd ?s a))))"
      using D(7) [of a] u(2,5) by (auto split: if_splits)
    show "a \<in> set (A l) \<Longrightarrow> l = Unexpired (t_owner (lnd ?s a)) \<or> l = Expired (t_owner (lnd ?s a))" for l
      using D(5) [of a l] u(2) by auto
  qed
  then show ?thesis by (simp add: tmr_upd_def)
qed

section \<open>The heap\<close>

text \<open>An addition fails when the array is full and the memory spring or the allocation refuses to let it grow, and only then.\<close>

definition ph_room :: "'a tt_ptrheap \<Rightarrow> 'a tt_phnode mem \<Rightarrow> bool" where
  "ph_room ph m \<longleftrightarrow> g_count ph + 1 \<le> g_capacity ph \<or> spg_room (g_mspg ph) (g_size ph) ((g_capacity ph + 1) * 16) m"

lemma ph_add_room:
  "ph_room ph m \<Longrightarrow> tt_ptrheap_add (Some p) idx ph m ix \<noteq> Inr (TT_FAIL, y)"
  "\<not> ph_room ph m \<Longrightarrow> tt_ptrheap_add (Some p) idx ph m ix \<noteq> Inr (TT_SUCCESS, y)"
  using memspg_extend_ex_room [of "g_mspg ph" "g_size ph" "(g_capacity ph + 1) * 16" m 16 "mem_junk m 0 0" "g_p ph" 0]
  by (cases "g_count ph + 1 \<le> g_capacity ph"; force simp: ph_room_def tt_ptrheap_add_def tt_ptrheap_reserve_def ptrheap_reserve_def
      tt_memspg_extend_def TT_DO_def TT_OK_def bindr_def Let_def split: sum.splits prod.splits if_splits)+

lemma heap_add:
  assumes ok: "heap_ok w" and t: "tcell w t" "0 < t_absolute_ref (tmr w t)" "t_absolute_ref (tmr w t) < 2 ^ 63" "t \<notin> set (heap_tmrs w)"
    and lt: "Suc (length (heap_tmrs w)) < 2 ^ 28"
  obtains r w' where "with_heap [t] w (\<lambda>ph. bindr (tt_ptrheap_add (Some t) (Some t) ph (w_nodes w) (w_heap_pos w)) (\<lambda>(r, ph, m, ix).
        Inr (r, w\<lparr>w_heap := ph, w_nodes := m, w_heap_pos := ix\<rparr>))) = Inr (r, w')"
      "heap_step w w'" "heap_ok w'" "r = TT_FAIL \<and> \<not> ph_room (w_heap w) (w_nodes w) \<and> set (heap_tmrs w') = set (heap_tmrs w)
        \<or> r = TT_SUCCESS \<and> ph_room (w_heap w) (w_nodes w) \<and> set (heap_tmrs w') = insert t (set (heap_tmrs w))"
proof -
  note D = heap_okD [OF ok]
  let ?ph = "tmr_heap w" and ?ns = "nodes (w_heap w) (w_nodes w)"
  let ?r = "with_heap [t] w (\<lambda>ph. bindr (tt_ptrheap_add (Some t) (Some t) ph (w_nodes w) (w_heap_pos w)) (\<lambda>(r, ph, m, ix).
        Inr (r, w\<lparr>w_heap := ph, w_nodes := m, w_heap_pos := ix\<rparr>)))"
  have n: "nodes ?ph (w_nodes w) = ?ns" by (simp add: tmr_heap_def)
  have room: "ph_room (w_heap w) (w_nodes w) = ph_room ?ph (w_nodes w)" by (simp add: ph_room_def tmr_heap_def)
  have r: "?r = bindr (tt_ptrheap_add (Some t) (Some t) ?ph (w_nodes w) (w_heap_pos w)) (\<lambda>(r, ph, m, ix).
        Inr (r, w\<lparr>w_heap := ph, w_nodes := m, w_heap_pos := ix\<rparr>))"
    using heap_comparable [OF ok, of "[t]"] t(1-3) by (simp add: with_heap_def)
  have len: "length (heap_tmrs w) = unat (g_count ?ph)"
    using arr_invD(9) [OF ph_invD(2) [OF D(1)]] by (simp add: heap_tmrs_def tmr_heap_def)
  have lt': "Suc (unat (g_count ?ph)) < 2 ^ 28" using lt len by simp
  have new: "\<forall>x. Some t = Some x \<longrightarrow> x \<notin> idxs (nodes ?ph (w_nodes w))" using t(4) D(8) unfolding n by simp
  from D(1) lt' new show thesis
  proof (cases rule: ph_add_ok [where p = t])
    case (fail m')
    let ?w = "w\<lparr>w_heap := ?ph, w_nodes := m'\<rparr>"
    from same_store_ph [OF D(1) fail(2,3)] have p: "ph_inv ?ph m' (w_heap_pos w)" "nodes ?ph m' = ?ns" unfolding n by simp_all
    have h: "heap_tmrs ?w = heap_tmrs w" using p(2) by (simp add: heap_tmrs_def tmr_heap_def)
    have "tmr_heap ?w = ?ph" by (simp add: tmr_heap_def)
    then have "heap_ok ?w" unfolding heap_ok_def h using p D(3-7) by simp
    moreover have "w\<lparr>w_heap := ?ph, w_nodes := m', w_heap_pos := w_heap_pos w\<rparr> = ?w" by simp
    then have "heap_step w ?w" unfolding heap_step_def by metis
    moreover have "\<not> ph_room ?ph (w_nodes w)" using ph_add_room(1) [of ?ph "w_nodes w"] fail(1) by auto
    ultimately show thesis using that [of TT_FAIL ?w] fail(1) h unfolding r room by simp
  next
    case a: (ok ph m ix)
    let ?w = "w\<lparr>w_heap := ph, w_nodes := m, w_heap_pos := ix\<rparr>"
    have c: "tmr_heap ?w = ph" using a(5) by (cases ph) (simp add: tmr_heap_def)
    have st: "set (nodes ph m) = insert \<lparr>ph_p = t, ph_idx = Some t\<rparr> (set ?ns)"
      using arg_cong [OF a(3), of set_mset] unfolding n by simp
    have hs: "set (heap_tmrs ?w) = insert t (set (heap_tmrs w))" using st by (simp add: heap_tmrs_def)
    have sub: "idxs (nodes ph m) = insert t (set (heap_tmrs w))" using st D(8) unfolding idxs_def by auto
    have "heap_ok ?w"
      unfolding heap_ok_def hs
    proof (intro conjI allI ballI impI)
      show "ph_inv (tmr_heap ?w) (w_nodes ?w) (w_heap_pos ?w)" using a(2) unfolding c by simp
      show "ph_idx k = Some (ph_p k)" if "k \<in> set (nodes (w_heap ?w) (w_nodes ?w))" for k using that st D(3) [of k] by auto
      fix x
      show "x \<notin> insert t (set (heap_tmrs w)) \<Longrightarrow> w_heap_pos ?w x = TT_POS_NULL" using a(6) D(4) [of x] unfolding sub by simp
    next
      fix x
      assume "x \<in> insert t (set (heap_tmrs w))"
      then show "tcell ?w x" "0 < t_absolute_ref (tmr ?w x)" "t_absolute_ref (tmr ?w x) < 2 ^ 63" using t D(5,6,7) [of x] by auto
    qed
    moreover have "heap_step w ?w" unfolding heap_step_def by blast
    moreover have "ph_room ?ph (w_nodes w)" using ph_add_room(2) [of ?ph "w_nodes w"] a(1) by metis
    ultimately show thesis using that [of TT_SUCCESS ?w] a(1) hs unfolding r room by simp
  qed
qed

text \<open>Changing the time of a timer in the heap frees its position, and \<^verbatim>\<open>tt_ptrheap_fix\<close> restores the order.\<close>

lemma heap_free_at:
  assumes c: "cmp_order c" "cmp_order c'" and h: "cmp_order.heap c ks" and j: "\<And>k. k < length ks \<Longrightarrow> ks ! k = t \<Longrightarrow> k = j"
    and eq: "\<And>a b. a \<noteq> t \<Longrightarrow> b \<noteq> t \<Longrightarrow> c' a b = c a b"
    and t: "j < length ks" "ks ! j = t"
  shows "cmp_order.free_at c' ks j"
proof -
  have le: "cmp_order.below c ks k (hparent k)" if "0 < k" "k < length ks" for k using h that by (simp add: cmp_order.heap_def [OF c(1)])
  have bel: "cmp_order.below c' ks a b \<longleftrightarrow> cmp_order.below c ks a b" if "a < length ks" "b < length ks" "a \<noteq> j" "b \<noteq> j" for a b
  proof -
    have "ks ! a \<noteq> t" "ks ! b \<noteq> t" using j [OF that(1)] j [OF that(2)] that(3,4) by blast+
    then show ?thesis using eq by (simp add: cmp_order.below_def [OF c(1)] cmp_order.below_def [OF c(2)])
  qed
  have p: "hparent k < length ks" if "0 < k" "k < length ks" for k using hparent_less [OF that(1)] that(2) by simp
  have "cmp_order.below c' ks k (hparent j)" if k: "0 < j" "0 < k" "k < length ks" "hparent k = j" for k
  proof -
    have "cmp_order.below c ks k (hparent j)"
      using cmp_order.below_trans [OF c(1) le [OF k(2,3), unfolded k(4)] le [OF k(1) t(1)]] .
    moreover have "k \<noteq> j" "hparent j \<noteq> j" using hparent_less [OF k(2)] hparent_less [OF k(1)] k(4) by auto
    ultimately show ?thesis using bel [OF k(3) p [OF k(1) t(1)]] by simp
  qed
  then show ?thesis unfolding cmp_order.free_at_def [OF c(2)] using le bel p by simp
qed

lemma heap_fix:
  assumes ok: "heap_ok w" and t: "t \<in> set (heap_tmrs w)" "0 < t_absolute_ref (u (tmr w t))" "t_absolute_ref (u (tmr w t)) < 2 ^ 63"
  obtains w' where "with_heap [t] (tmr_upd t u w) (\<lambda>ph. bindr (tt_ptrheap_fix ph (w_heap_pos w t) (w_nodes w) (w_heap_pos w)) (\<lambda>(m, ix).
        Inr (TT_SUCCESS, (tmr_upd t u w)\<lparr>w_nodes := m, w_heap_pos := ix\<rparr>))) = Inr (TT_SUCCESS, w')"
      "heap_step (tmr_upd t u w) w'" "heap_ok w'" "set (heap_tmrs w') = set (heap_tmrs w)" "w_heap_pos w t \<noteq> TT_POS_NULL"
proof -
  note D = heap_okD [OF ok]
  let ?w = "tmr_upd t u w" and ?ns = "nodes (w_heap w) (w_nodes w)" and ?pos = "w_heap_pos w t"
  let ?ph = "tmr_heap ?w"
  have n: "nodes (tmr_heap w) (w_nodes w) = ?ns" "nodes ?ph (w_nodes w) = ?ns" by (simp_all add: tmr_heap_def)
  have cm: "h_cmp (tmr_heap w) = tmr_cmp (ls_nodes (w_tmrs w))" "h_cmp ?ph = tmr_cmp (ls_nodes (w_tmrs ?w))" by (simp_all add: tmr_heap_def)
  have x: "t \<in> idxs ?ns" using t(1) D(8) by simp
  note I = idx_in_heap [OF D(1), of t, unfolded n, OF x]
  have tr: "tracks ?ns (w_heap_pos w)" using ph_invD(4) [OF D(1)] unfolding n .
  have pt: "ph_p (?ns ! unat ?pos) = t" using I(2) D(3) [OF nth_mem [OF I(1)]] by simp
  have one: "k = unat ?pos" if "k < length ?ns" "ph_p (?ns ! k) = t" for k
    using tracks_uniq [OF tr that(1) I(1), of t] D(3) [OF nth_mem [OF that(1)]] I(2) that(2) by simp
  have free: "cmp_order.free_at (h_cmp ?ph) (map ph_p ?ns) (unat ?pos)"
    unfolding cm
  proof (rule heap_free_at [OF tmr_cmp_order tmr_cmp_order, where t = t])
    show "cmp_order.heap (tmr_cmp (ls_nodes (w_tmrs w))) (map ph_p ?ns)" using ph_invD(3) [OF D(1)] unfolding n cm .
    show "tmr_cmp (ls_nodes (w_tmrs ?w)) a b = tmr_cmp (ls_nodes (w_tmrs w)) a b" if "a \<noteq> t" "b \<noteq> t" for a b
      using that by (simp add: tmr_cmp_def)
    show "unat ?pos < length (map ph_p ?ns)" "map ph_p ?ns ! unat ?pos = t" using I(1) pt by simp_all
    show "k = unat ?pos" if "k < length (map ph_p ?ns)" "map ph_p ?ns ! k = t" for k using one [of k] that by simp
  qed
  have arr: "heap_arr ?ph (w_nodes w)" using D(2) by (simp add: tmr_heap_def)
  have cnt: "unat ?pos < unat (g_count ?ph)" using I(1) arr_invD(9) [OF arr] unfolding n by simp
  have ord: "cmp_order (h_cmp ?ph)" unfolding cm by (rule tmr_cmp_order)
  from ord arr cnt free [folded n(2)] obtain m ix where f: "bindr (ph_fix_downward ?ph ?pos (w_nodes w) (w_heap_pos w)) (\<lambda>(m, ix). fix_upward ?ph ?pos m ix) = Inr (m, ix)"
    "h_keeps ?ph (w_nodes w) (w_heap_pos w) m ix" "cmp_order.heap (h_cmp ?ph) (keys ?ph m)" by (rule fix_both)
  have fx: "tt_ptrheap_fix ?ph ?pos (w_nodes w) (w_heap_pos w) = Inr (m, ix)" using f(1) cnt by (simp add: tt_ptrheap_fix_def word_less_nat_alt)
  note K = f(2) [unfolded h_keeps_def n]
  let ?w' = "?w\<lparr>w_nodes := m, w_heap_pos := ix\<rparr>"
  have hp: "tmr_heap ?w' = ?ph" by (simp add: tmr_heap_def)
  have st: "set (nodes ?ph m) = set ?ns" using K mset_eq_setD by blast
  then have hs: "set (heap_tmrs ?w') = set (heap_tmrs w)" by (simp add: heap_tmrs_def tmr_heap_def)
  have ref: "tcell ?w a" "0 < t_absolute_ref (tmr ?w a)" "t_absolute_ref (tmr ?w a) < 2 ^ 63" if "a \<in> set (heap_tmrs w)" for a
    using D(5,6,7) [OF that] t(2,3) by auto
  have "heap_ok ?w'"
    unfolding heap_ok_def hs
  proof (intro conjI allI ballI impI)
    show "ph_inv (tmr_heap ?w') (w_nodes ?w') (w_heap_pos ?w')" using K tr ord f(3) unfolding hp by (simp add: ph_inv_def)
    show "ph_idx k = Some (ph_p k)" if "k \<in> set (nodes (w_heap ?w') (w_nodes ?w'))" for k
      using that st D(3) [of k] by (simp add: tmr_heap_def)
    fix a
    show "a \<notin> set (heap_tmrs w) \<Longrightarrow> w_heap_pos ?w' a = TT_POS_NULL" using K D(4) [of a] unfolding D(8) by simp
    show "a \<in> set (heap_tmrs w) \<Longrightarrow> tcell ?w' a" "a \<in> set (heap_tmrs w) \<Longrightarrow> 0 < t_absolute_ref (tmr ?w' a)"
      "a \<in> set (heap_tmrs w) \<Longrightarrow> t_absolute_ref (tmr ?w' a) < 2 ^ 63" using ref [of a] by simp_all
  qed
  moreover have "comparable (ls_nodes (w_tmrs ?w)) ([t] @ heap_tmrs ?w)"
    unfolding comparable_def list_all_iff
  proof (intro conjI ballI)
    fix a b
    assume "a \<in> set ([t] @ heap_tmrs ?w)" "b \<in> set ([t] @ heap_tmrs ?w)"
    then have ab: "a \<in> set (heap_tmrs w)" "b \<in> set (heap_tmrs w)" using t(1) by auto
    show "mem_blocks (ls_nodes (w_tmrs ?w)) a = Some [tmr ?w a]" using ref(1) [OF ab(1)] unfolding cell_def .
    show "fits_s64 (t_absolute_ref (tmr ?w a) - t_absolute_ref (tmr ?w b))"
      using ref(2,3) [OF ab(1)] ref(2,3) [OF ab(2)] unfolding fits_s64_def by linarith
  qed
  moreover have "heap_step ?w ?w'"
  proof -
    have "?w' = ?w\<lparr>w_heap := w_heap ?w, w_nodes := m, w_heap_pos := ix\<rparr>" by simp
    then show ?thesis unfolding heap_step_def by metis
  qed
  ultimately show thesis using that [of ?w'] fx hs I(3) by (simp add: with_heap_def)
qed

section \<open>The calls\<close>

datatype tmr_call = TmrCreate int u32 ptr | TmrDestroy nat | TmrStart nat | TmrStop nat | TmrSetDelay nat int
  | TmrSetEv nat u32 | TmrSetParam nat ptr | TmrReceive | TmrRun

datatype tmr_answer = TmrDone | TmrGot ptr | TmrResult tt_result | TmrWait int

fun tmr_call_step :: "'z switch \<Rightarrow> tmr_call \<Rightarrow> 'z world_scheme \<Rightarrow> (tmr_answer \<times> 'z world_scheme) run" where
  "tmr_call_step switch (TmrCreate d ev p) w = bindr (tt_tmr_create d ev p w) (\<lambda>(t, w). Inr (TmrGot t, w))"
| "tmr_call_step switch (TmrDestroy t) w = bindr (tt_tmr_destroy t w) (\<lambda>w. Inr (TmrDone, w))"
| "tmr_call_step switch (TmrStart t) w = bindr (tt_tmr_start t w) (\<lambda>(r, w). Inr (TmrResult r, w))"
| "tmr_call_step switch (TmrStop t) w = bindr (tt_tmr_stop t w) (\<lambda>w. Inr (TmrDone, w))"
| "tmr_call_step switch (TmrSetDelay t d) w = bindr (tt_tmr_set_delay t d w) (\<lambda>w. Inr (TmrDone, w))"
| "tmr_call_step switch (TmrSetEv t ev) w = bindr (tt_tmr_set_ev t ev w) (\<lambda>w. Inr (TmrDone, w))"
| "tmr_call_step switch (TmrSetParam t p) w = bindr (tt_tmr_set_param t p w) (\<lambda>w. Inr (TmrDone, w))"
| "tmr_call_step switch TmrReceive w = bindr (tt_fiber_recv_timer switch (w_current w) False w) (\<lambda>(t, w). Inr (TmrGot t, w))"
| "tmr_call_step switch TmrRun w = bindr (tt_tmr_mgr_run switch w) (\<lambda>(d, w). Inr (TmrWait d, w))"

text \<open>
  What a call needs: a timer that was not destroyed; to start it, that its owner has received its last expiry, that
  the time stays within 64 bits and that the heap has room; to create or receive, a fiber with lists of timers.
\<close>

definition live :: "nat \<Rightarrow> 'z world_scheme \<Rightarrow> bool" where
  "live t w \<longleftrightarrow> tcell w t \<and> t_status (tmr w t) \<noteq> TT_TMR_ORPHAN"

fun tmr_allowed :: "tmr_call \<Rightarrow> 'z world_scheme \<Rightarrow> bool" where
  "tmr_allowed (TmrCreate d ev p) w \<longleftrightarrow> 0 \<le> d \<and> ls_lists (w_tmrs w) (Unexpired (w_current w)) \<noteq> None"
| "tmr_allowed (TmrStart t) w \<longleftrightarrow> live t w \<and> l_lst (tmr w t) = Some (Unexpired (t_owner (tmr w t)))
     \<and> w_clock w (w_tick w) + t_delay_ms (tmr w t) < 2 ^ 63 \<and> Suc (length (heap_tmrs w)) < 2 ^ 28"
| "tmr_allowed (TmrDestroy t) w \<longleftrightarrow> live t w"
| "tmr_allowed (TmrStop t) w \<longleftrightarrow> live t w"
| "tmr_allowed (TmrSetDelay t d) w \<longleftrightarrow> live t w \<and> 0 \<le> d"
| "tmr_allowed (TmrSetEv t ev) w \<longleftrightarrow> live t w"
| "tmr_allowed (TmrSetParam t p) w \<longleftrightarrow> live t w"
| "tmr_allowed TmrReceive w \<longleftrightarrow> ls_lists (w_tmrs w) (Unexpired (w_current w)) \<noteq> None"
| "tmr_allowed TmrRun w \<longleftrightarrow> True"

text \<open>
  What a call does: its answer, its timer, and the lists of timers of each fiber, which are \<open>A\<close> before the call and
  \<open>B\<close> after it. \<open>others t\<close>: every timer but \<open>t\<close> keeps its data.
\<close>

definition others :: "nat option \<Rightarrow> 'z world_scheme \<Rightarrow> 'z world_scheme \<Rightarrow> bool" where
  "others t w w' \<longleftrightarrow> (\<forall>u. Some u \<noteq> t \<longrightarrow> tcell w u \<longrightarrow> tcell w' u \<and> lnode.more (tmr w' u) = lnode.more (tmr w u))
     \<and> w_fibers w' = w_fibers w \<and> w_current w' = w_current w \<and> w_main w' = w_main w \<and> w_clock w' = w_clock w"

definition due :: "'z world_scheme \<Rightarrow> nat set" where
  "due w = {t \<in> set (heap_tmrs w). t_status (tmr w t) = TT_TMR_ACTIVE \<and> t_absolute_ref (tmr w t) \<le> w_clock w (w_tick w)}"

fun tmr_post :: "tmr_call \<Rightarrow> 'z world_scheme \<Rightarrow> (tmr_list \<Rightarrow> nat list) \<Rightarrow> tmr_answer \<Rightarrow> 'z world_scheme \<Rightarrow> (tmr_list \<Rightarrow> nat list) \<Rightarrow> bool" where
  "tmr_post (TmrCreate d ev p) w A a w' B \<longleftrightarrow> others None w w' \<and> heap_tmrs w' = heap_tmrs w
     \<and> (if mem_oracle (ls_nodes (w_tmrs w)) (mem_next (ls_nodes (w_tmrs w)))
        then \<exists>t. a = TmrGot (Some t) \<and> \<not> tcell w t \<and> live t w' \<and> t_delay_ms (tmr w' t) = d \<and> t_owner (tmr w' t) = w_current w
          \<and> t_ev (tmr w' t) = ev \<and> t_param (tmr w' t) = p \<and> t_status (tmr w' t) = TT_TMR_INACTIVE \<and> t \<notin> set (heap_tmrs w')
          \<and> B = A(Unexpired (w_current w) := A (Unexpired (w_current w)) @ [t])
        else a = TmrGot None \<and> B = A)"
| "tmr_post (TmrDestroy t) w A a w' B \<longleftrightarrow> others (Some t) w w' \<and> a = TmrDone \<and> heap_tmrs w' = heap_tmrs w
     \<and> (if t \<in> set (heap_tmrs w) then tcell w' t \<and> t_status (tmr w' t) = TT_TMR_ORPHAN else \<not> tcell w' t)
     \<and> B = (\<lambda>l. removeAll t (A l))"
| "tmr_post (TmrStart t) w A a w' B \<longleftrightarrow> others (Some t) w w' \<and> B = A
     \<and> (if t \<in> set (heap_tmrs w) \<or> ph_room (w_heap w) (w_nodes w)
        then a = TmrResult TT_SUCCESS \<and> set (heap_tmrs w') = insert t (set (heap_tmrs w))
        else a = TmrResult TT_FAIL \<and> set (heap_tmrs w') = set (heap_tmrs w))
     \<and> tmr w' t = (tmr w t)\<lparr>t_absolute_ref := w_clock w (w_tick w) + t_delay_ms (tmr w t), t_status := TT_TMR_ACTIVE\<rparr>"
| "tmr_post (TmrStop t) w A a w' B \<longleftrightarrow> others (Some t) w w' \<and> a = TmrDone \<and> tmr w' t = (tmr w t)\<lparr>t_status := TT_TMR_INACTIVE\<rparr>
     \<and> heap_tmrs w' = heap_tmrs w \<and> B = A"
| "tmr_post (TmrSetDelay t d) w A a w' B \<longleftrightarrow> others (Some t) w w' \<and> a = TmrDone \<and> tmr w' t = (tmr w t)\<lparr>t_delay_ms := d\<rparr>
     \<and> heap_tmrs w' = heap_tmrs w \<and> B = A"
| "tmr_post (TmrSetEv t ev) w A a w' B \<longleftrightarrow> others (Some t) w w' \<and> a = TmrDone \<and> tmr w' t = (tmr w t)\<lparr>t_ev := ev\<rparr>
     \<and> heap_tmrs w' = heap_tmrs w \<and> B = A"
| "tmr_post (TmrSetParam t p) w A a w' B \<longleftrightarrow> others (Some t) w w' \<and> a = TmrDone \<and> tmr w' t = (tmr w t)\<lparr>t_param := p\<rparr>
     \<and> heap_tmrs w' = heap_tmrs w \<and> B = A"
| "tmr_post TmrReceive w A a w' B \<longleftrightarrow> others None w w' \<and> heap_tmrs w' = heap_tmrs w
     \<and> (case A (Expired (w_current w)) of
          [] \<Rightarrow> a = TmrGot None \<and> B = A
        | t # ts \<Rightarrow> a = TmrGot (Some t) \<and> B = A(Expired (w_current w) := ts, Unexpired (w_current w) := A (Unexpired (w_current w)) @ [t]))"
| "tmr_post TmrRun w A a w' B \<longleftrightarrow> (\<exists>d ts. a = TmrWait d \<and> mgr_result (w_tick w) w' d \<and> delivered w A w' B ts \<and> due w \<subseteq> set ts
     \<and> on_time (w_tick w) w w' ts \<and> starts_none w w')"

section \<open>Stop and the setters\<close>

lemma others_upd: "tcell w t \<Longrightarrow> others (Some t) w (tmr_upd t u w)"
  by (simp add: others_def)

lemma tmr_simple_ok:
  assumes ok: "tmr_ok w A {}" and t: "live t w" and u: "links (w_tmrs (tmr_upd t u w)) t = links (w_tmrs w) t"
      "t_owner (u (tmr w t)) = t_owner (tmr w t)" "t_absolute_ref (u (tmr w t)) = t_absolute_ref (tmr w t)" "0 \<le> t_delay_ms (u (tmr w t))"
      "t_status (u (tmr w t)) = TT_TMR_INACTIVE \<or> t_status (u (tmr w t)) = t_status (tmr w t)"
  shows "tmr_st u t w = Inr (tmr_upd t u w)" "tmr_ok (tmr_upd t u w) A {}" "others (Some t) w (tmr_upd t u w)"
proof -
  have c: "tcell w t" using t by (simp add: live_def)
  from tmr_set_ok [OF ok c u] show "tmr_ok (tmr_upd t u w) A {}" .
  show "tmr_st u t w = Inr (tmr_upd t u w)" using tmr_st_upd [OF c] .
  show "others (Some t) w (tmr_upd t u w)" using others_upd [OF c] .
qed

lemma tmr_delay_ok: "tmr_ok w A {} \<Longrightarrow> live t w \<Longrightarrow> 0 \<le> t_delay_ms (tmr w t)"
  using tmrs_okD(4) by (auto simp: tmr_ok_def live_def)

definition call_ok :: "'z switch \<Rightarrow> tmr_call \<Rightarrow> 'z world_scheme \<Rightarrow> (tmr_list \<Rightarrow> nat list) \<Rightarrow> bool" where
  "call_ok switch c w A \<longleftrightarrow> (\<exists>a w' B. tmr_call_step switch c w = Inr (a, w') \<and> tmr_ok w' B {} \<and> tmr_post c w A a w' B)"

lemma call_okI: "tmr_call_step switch c w = Inr (a, w') \<Longrightarrow> tmr_ok w' B {} \<Longrightarrow> tmr_post c w A a w' B \<Longrightarrow> call_ok switch c w A"
  unfolding call_ok_def by blast

lemma setters_ok:
  assumes i: "tmr_ok w A {}"
  shows "tmr_allowed (TmrStop t) w \<Longrightarrow> call_ok switch (TmrStop t) w A" "tmr_allowed (TmrSetDelay t d) w \<Longrightarrow> call_ok switch (TmrSetDelay t d) w A"
    "tmr_allowed (TmrSetEv t ev) w \<Longrightarrow> call_ok switch (TmrSetEv t ev) w A" "tmr_allowed (TmrSetParam t p) w \<Longrightarrow> call_ok switch (TmrSetParam t p) w A"
proof -
  show "call_ok switch (TmrStop t) w A" if a: "tmr_allowed (TmrStop t) w"
    using tmr_simple_ok [OF i, of t "\<lambda>t. t\<lparr>t_status := TT_TMR_INACTIVE\<rparr>"] tmr_delay_ok [OF i, of t] a
    by (intro call_okI [where a = TmrDone and w' = "tmr_upd t (\<lambda>t. t\<lparr>t_status := TT_TMR_INACTIVE\<rparr>) w" and B = A]) (simp_all add: tt_tmr_stop_def)
  show "call_ok switch (TmrSetDelay t d) w A" if a: "tmr_allowed (TmrSetDelay t d) w"
    using tmr_simple_ok [OF i, of t "\<lambda>t. t\<lparr>t_delay_ms := d\<rparr>"] a by (intro call_okI [where a = TmrDone and w' = "tmr_upd t (\<lambda>t. t\<lparr>t_delay_ms := d\<rparr>) w" and B = A]) (simp_all add: tt_tmr_set_delay_def)
  show "call_ok switch (TmrSetEv t ev) w A" if a: "tmr_allowed (TmrSetEv t ev) w"
    using tmr_simple_ok [OF i, of t "\<lambda>t. t\<lparr>t_ev := ev\<rparr>"] tmr_delay_ok [OF i, of t] a
    by (intro call_okI [where a = TmrDone and w' = "tmr_upd t (\<lambda>t. t\<lparr>t_ev := ev\<rparr>) w" and B = A]) (simp_all add: tt_tmr_set_ev_def)
  show "call_ok switch (TmrSetParam t p) w A" if a: "tmr_allowed (TmrSetParam t p) w"
    using tmr_simple_ok [OF i, of t "\<lambda>t. t\<lparr>t_param := p\<rparr>"] tmr_delay_ok [OF i, of t] a
    by (intro call_okI [where a = TmrDone and w' = "tmr_upd t (\<lambda>t. t\<lparr>t_param := p\<rparr>) w" and B = A]) (simp_all add: tt_tmr_set_param_def)
qed

section \<open>Destroying, starting, receiving\<close>

lemma others_relink:
  assumes "same_structs lnode.more (w_tmrs w) s"
  shows "others t w (w\<lparr>w_tmrs := s\<rparr>)"
  using same_structsD(1,2) [OF assms] by (simp add: others_def)

lemma removed_own:
  assumes "tmr_ok w A X" "same_structs lnode.more (w_tmrs w) s" "a \<in> set (removeAll t (A l))"
  shows "l = Unexpired (t_owner (lnd s a)) \<or> l = Expired (t_owner (lnd s a))" "a \<noteq> t"
  using tmrs_okD(5) [of w A X a l] assms tmr_fields(3) [OF same_structsD(2) [OF assms(2)], of a] by (auto simp: tmr_ok_def)

lemma tmr_destroy_ok:
  assumes ok: "tmr_ok w A {}" and a: "tmr_allowed (TmrDestroy t) w"
  shows "call_ok switch (TmrDestroy t) w A"
proof -
  have T: "tmrs_ok w A {}" using ok by (simp add: tmr_ok_def)
  note D = tmrs_okD [OF T]
  have t: "tcell w t" "t_status (tmr w t) \<noteq> TT_TMR_ORPHAN" using a by (simp_all add: live_def)
  let ?B = "\<lambda>j. removeAll t (A j)"
  from list_take_out [OF D(1) t(1)] obtain r s where s: "tt_list_remove t (w_tmrs w) = Inr (r, s)" "list_ok s ?B"
    "same_structs lnode.more (w_tmrs w) s" by blast
  note S = same_structsD [OF s(3)]
  note f = tmr_fields [OF S(2)]
  have off: "off_lists t ?B" by (simp add: off_lists_def)
  let ?w = "w\<lparr>w_tmrs := s\<rparr>"
  have oth: "others (Some t) w ?w" by (rule others_relink [OF s(3)])
  have rem: "on_tmrs (\<lambda>s. bindr (tt_list_remove t s) (\<lambda>(_, s). Inr s)) w = Inr ?w" using s(1) by (simp add: on_tmrs_def)
  have c: "tcell ?w t" using t(1) S(1) by simp
  have pos: "tmr_heap_pos t ?w = Inr (w_heap_pos w t)" using c by (simp add: tmr_heap_pos_def tmr_ld_def ll_run)
  have H: "w_heap_pos w t = TT_POS_NULL \<longleftrightarrow> t \<notin> set (heap_tmrs w)" using heap_pos_iff [of w t] ok by (simp add: tmr_ok_def)
  have off': "off_lists u ?B" if "off_lists u A" for u using that by (simp add: off_lists_def)
  show ?thesis
  proof (cases "t \<in> set (heap_tmrs w)")
    case False
    have "tmr_ok ?w ?B {}"
    proof (rule tmr_ok_relink [OF ok s(3,2)])
      show "l = Unexpired (t_owner (tmr w u)) \<or> l = Expired (t_owner (tmr w u))" if "u \<in> set (removeAll t (A l))" for l u
        using removed_own(1) [OF ok s(3) that] f(3) by simp
      show "off_lists u ?B" if "tcell w u" "t_status (tmr w u) = TT_TMR_ORPHAN" for u using D(6) [OF that] off' by blast
      show "u \<in> set (removeAll t (A (Unexpired (t_owner (tmr w u)))))" if "u \<in> set (heap_tmrs w)" "t_status (tmr w u) = TT_TMR_ACTIVE" for u
        using D(7) [OF that] that(1) False by auto
    qed
    from tmr_free_ok [OF this c off] False obtain w' where w': "on_tmrs (\<lambda>s. bindr (tt_free (Some t) (ls_nodes s)) (\<lambda>m. Inr (s\<lparr>ls_nodes := m\<rparr>))) ?w = Inr w'"
      "tmr_ok w' ?B ({} - {t})" "\<exists>s. w' = ?w\<lparr>w_tmrs := s\<rparr>" "\<And>u. u \<noteq> t \<Longrightarrow> tmr w' u = tmr ?w u" "\<And>u. tcell w' u \<longleftrightarrow> tcell ?w u \<and> u \<noteq> t"
      by auto
    have "tmr_call_step switch (TmrDestroy t) w = Inr (TmrDone, w')" using False H rem pos w'(1) by (simp add: tt_tmr_destroy_def)
    moreover have "tmr_ok w' ?B {}" using w'(2) by simp
    moreover have "heap_tmrs w' = heap_tmrs w" "w_fibers w' = w_fibers w" "w_current w' = w_current w" "w_main w' = w_main w" "w_clock w' = w_clock w"
      using w'(3) by auto
    then have "tmr_post (TmrDestroy t) w A TmrDone w' ?B" using False oth w'(4,5) by (simp add: others_def)
    ultimately show ?thesis by (rule call_okI)
  next
    case True
    let ?u = "\<lambda>t. t\<lparr>t_status := TT_TMR_ORPHAN\<rparr> :: tt_tmr"
    let ?s = "s\<lparr>ls_nodes := cell_upd (ls_nodes s) t (?u (lnd s t))\<rparr>"
    have e: "tmr_upd t ?u ?w = w\<lparr>w_tmrs := ?s\<rparr>" by (simp add: tmr_upd_def)
    have "tmr_ok (w\<lparr>w_tmrs := ?s\<rparr>) ?B {}"
    proof (rule tmr_ok_edit [OF ok])
      have "same_structs t_absolute_ref (w_tmrs w) s" using s(3) f(2) by (simp add: same_structs_def same_cells_def)
      then show "same_structs t_absolute_ref (w_tmrs w) ?s" using t(1) f(2) by (simp add: same_structs_def same_cells_upd)
      show "list_ok ?s ?B" using c by (intro list_ok_data [OF s(2)]) simp_all
      show "0 \<le> t_delay_ms (lnd ?s u)" if "lcell ?s u" for u using that D(4) [of u] D(4) [OF t(1)] f(1) S(1) by auto
      show "l = Unexpired (t_owner (lnd ?s u)) \<or> l = Expired (t_owner (lnd ?s u))" if "u \<in> set (removeAll t (A l))" for l u
        using removed_own [OF ok s(3) that] by simp
      show "off_lists u ?B \<and> (u \<in> set (heap_tmrs w) \<or> u \<in> {})" if u: "lcell ?s u" "t_status (lnd ?s u) = TT_TMR_ORPHAN" for u
      proof (cases "u = t")
        case True
        then show ?thesis using off \<open>t \<in> set (heap_tmrs w)\<close> by simp
      next
        case False
        then have "tcell w u" "t_status (tmr w u) = TT_TMR_ORPHAN" using u S(1) f(4) by simp_all
        then show ?thesis using D(6) [of u] off' by simp
      qed
      show "u \<in> set (removeAll t (A (Unexpired (t_owner (lnd ?s u)))))" if u: "u \<in> set (heap_tmrs w)" "t_status (lnd ?s u) = TT_TMR_ACTIVE" for u
      proof -
        have "u \<noteq> t" using u(2) by auto
        then have "t_status (tmr w u) = TT_TMR_ACTIVE" using u(2) f(4) by simp
        from D(7) [OF u(1) this] show ?thesis using \<open>u \<noteq> t\<close> f(3) by simp
      qed
    qed
    then have "tmr_ok (tmr_upd t ?u ?w) ?B {}" unfolding e .
    moreover have "tmr_call_step switch (TmrDestroy t) w = Inr (TmrDone, tmr_upd t ?u ?w)"
      using True H rem pos tmr_st_upd [OF c] by (simp add: tt_tmr_destroy_def)
    moreover have "tmr_post (TmrDestroy t) w A TmrDone (tmr_upd t ?u ?w) ?B"
      using oth True by (simp add: others_def)
    ultimately show ?thesis by (intro call_okI)
  qed
qed

lemma tmr_receive_ok:
  assumes ok: "tmr_ok w A {}" and a: "tmr_allowed TmrReceive w"
  shows "call_ok switch TmrReceive w A"
proof -
  have T: "tmrs_ok w A {}" and F: "fibers_ok w" using ok by (simp_all add: tmr_ok_def)
  note D = tmrs_okD [OF T]
  let ?c = "w_current w" and ?s = "w_tmrs w"
  have l: "ls_lists ?s (Unexpired ?c) \<noteq> None" "ls_lists ?s (Expired ?c) \<noteq> None" using a F by (simp_all add: fibers_ok_def)
  then obtain h where h: "ls_lists ?s (Expired ?c) = Some h" by blast
  have run: "tmr_call_step switch TmrReceive w = bindr (returned (recv_timer_loop switch ?c False w)) (\<lambda>(t, w). Inr (TmrGot t, w))"
    by (simp add: tt_fiber_recv_timer_def)
  show ?thesis
  proof (cases "A (Expired ?c)")
    case Nil
    have "recv_timer_loop switch ?c False w = Some (Inr (None, w))"
      using list_pop_empty(1) [OF D(1) Nil h] by (subst recv_timer_loop.simps) simp
    then have "tmr_call_step switch TmrReceive w = Inr (TmrGot None, w)" using run by (simp add: returned_def)
    moreover have "tmr_post TmrReceive w A (TmrGot None) w A" using Nil by (simp add: others_def)
    ultimately show ?thesis using ok by (intro call_okI)
  next
    case (Cons t ts)
    from list_pop_head_ok [OF D(1) Cons] obtain s1 where s1: "tt_list_pop_head (Expired ?c) ?s = Inr (Some t, s1)" "unlinked (Expired ?c) t [] ts ?s s1" by blast
    note S1 = same_structsD [OF unlinked_same [OF s1(2)]]
    let ?A1 = "A(Expired ?c := ts)"
    have t: "t \<in> set (A (Expired ?c))" using Cons by simp
    have l1: "list_ok s1 ?A1" using unlinked_ok [OF D(1) _ s1(2)] Cons by simp
    have c: "tcell w t" "lcell s1 t" using list_okD(4) [OF D(1) t] S1(1) by simp_all
    have dis: "distinct (t # ts)" using list_okD(3) [OF D(1), of "Expired ?c"] Cons by simp
    have once: "k = Expired ?c" if "t \<in> set (A k)" for k using list_ok_one [OF D(1) t that] .
    have "off_lists t ?A1" using dis once by (auto simp: off_lists_def)
    then have n: "l_lst (lnd s1 t) = None" using off_lists_lst [OF l1 c(2)] by simp
    obtain h1 where h1: "ls_lists s1 (Unexpired ?c) = Some h1" using l(1) S1(3) [of "Unexpired ?c"] by auto
    from list_push_tail_ok [OF l1 c(2) n h1] obtain s2 where s2: "tt_list_push_tail (Unexpired ?c) t s1 = Inr s2"
      "linked_in (Unexpired ?c) t (?A1 (Unexpired ?c)) [] s1 s2" by blast
    let ?B = "?A1(Unexpired ?c := A (Unexpired ?c) @ [t])"
    have l2: "list_ok s2 ?B" using linked_in_ok [OF l1 _ c(2) n s2(2)] by simp
    note same = same_structs_trans [OF unlinked_same [OF s1(2)] linked_in_same [OF s2(2)]]
    have own: "t_owner (tmr w t) = ?c" using D(5) [OF t] by simp
    have st: "t_status (tmr w t) \<noteq> TT_TMR_ORPHAN" using D(6) [OF c(1)] t by (auto simp: off_lists_def)
    let ?w = "w\<lparr>w_tmrs := s2\<rparr>"
    have "tmr_ok ?w ?B {}"
    proof (rule tmr_ok_relink [OF ok same l2])
      show "k = Unexpired (t_owner (tmr w u)) \<or> k = Expired (t_owner (tmr w u))" if "u \<in> set (?B k)" for k u
        using that D(5) [of u k] own Cons by (auto split: if_splits)
      show "off_lists u ?B" if u: "tcell w u" "t_status (tmr w u) = TT_TMR_ORPHAN" for u
      proof -
        have "set (?B k) \<subseteq> insert t (set (A k))" for k using Cons by auto
        moreover have "u \<noteq> t" using u(2) st by auto
        ultimately show ?thesis using D(6) [OF u] unfolding off_lists_def by blast
      qed
      show "u \<in> set (?B (Unexpired (t_owner (tmr w u))))" if u: "u \<in> set (heap_tmrs w)" "t_status (tmr w u) = TT_TMR_ACTIVE" for u
        using D(7) [OF u] by auto
    qed
    moreover have "recv_timer_loop switch ?c False w = Some (Inr (Some t, ?w))"
      using s1(1) s2(1) by (subst recv_timer_loop.simps) (simp add: on_tmrs_def)
    then have "tmr_call_step switch TmrReceive w = Inr (TmrGot (Some t), ?w)" using run by (simp add: returned_def)
    moreover have "tmr_post TmrReceive w A (TmrGot (Some t)) ?w ?B" using others_relink [OF same] Cons by simp
    ultimately show ?thesis by (intro call_okI)
  qed
qed

text \<open>Starting a timer sets its time and its status, then it enters the heap or is moved in it.\<close>

definition started :: "nat \<Rightarrow> 'z world_scheme \<Rightarrow> 'z world_scheme" where
  "started t w = tmr_upd t (\<lambda>n. n\<lparr>t_absolute_ref := w_clock w (w_tick w) + t_delay_ms n, t_status := TT_TMR_ACTIVE\<rparr>) (w\<lparr>w_tick := Suc (w_tick w)\<rparr>)"

lemma start_eval:
  assumes t: "tcell w t" and n: "0 < w_clock w (w_tick w)" "0 \<le> t_delay_ms (tmr w t)" "w_clock w (w_tick w) + t_delay_ms (tmr w t) < 2 ^ 63"
  shows "tt_tmr_start t w = (if w_heap_pos w t = TT_POS_NULL then
      with_heap [t] (started t w) (\<lambda>ph. bindr (tt_ptrheap_add (Some t) (Some t) ph (w_nodes (started t w)) (w_heap_pos (started t w))) (\<lambda>(r, ph, m, ix).
        Inr (r, (started t w)\<lparr>w_heap := ph, w_nodes := m, w_heap_pos := ix\<rparr>)))
    else with_heap [t] (started t w) (\<lambda>ph. bindr (tt_ptrheap_fix ph (w_heap_pos w t) (w_nodes w) (w_heap_pos w)) (\<lambda>(m, ix).
        Inr (TT_SUCCESS, (started t w)\<lparr>w_nodes := m, w_heap_pos := ix\<rparr>))))"
proof -
  let ?now = "w_clock w (w_tick w)" and ?w = "w\<lparr>w_tick := Suc (w_tick w)\<rparr>"
  let ?u1 = "\<lambda>n. n\<lparr>t_absolute_ref := ?now\<rparr> :: tt_tmr" and ?u2 = "\<lambda>n. n\<lparr>t_absolute_ref := ?now + t_delay_ms (tmr w t)\<rparr> :: tt_tmr"
  have "tmr_upd t (\<lambda>n. n\<lparr>t_status := TT_TMR_ACTIVE\<rparr>) (tmr_upd t ?u2 (tmr_upd t ?u1 ?w)) = started t w"
    by (simp add: started_def tmr_upd_upd) (simp add: tmr_upd_def)
  moreover have "fits_s64 (?now + t_delay_ms (tmr w t))" using n by (simp add: fits_s64_def)
  ultimately show ?thesis
    using t n(1) by (simp add: tt_tmr_start_def tt_time_ref_def tmr_st_upd tmr_heap_pos_def tmr_ld_def ll_run tt_time_ms2ref_def s64_def started_def)
qed

lemma started_tmrs_ok:
  assumes ok: "tmrs_ok w A {}" and t: "live t w" "l_lst (tmr w t) = Some (Unexpired (t_owner (tmr w t)))"
    and w': "w_tmrs w' = w_tmrs (started t w)" "set (heap_tmrs w') \<subseteq> insert t (set (heap_tmrs w))" "set (heap_tmrs w) \<subseteq> set (heap_tmrs w')"
  shows "tmrs_ok w' A {}"
proof -
  note D = tmrs_okD [OF ok]
  let ?n = "(tmr w t)\<lparr>t_absolute_ref := w_clock w (w_tick w) + t_delay_ms (tmr w t), t_status := TT_TMR_ACTIVE\<rparr>"
  let ?s = "(w_tmrs w)\<lparr>ls_nodes := cell_upd (ls_nodes (w_tmrs w)) t ?n\<rparr>"
  have s: "w_tmrs w' = ?s" unfolding w'(1) started_def tmr_upd_def by simp
  have c: "tcell w t" using t(1) by (simp add: live_def)
  have tA: "t \<in> set (A (Unexpired (t_owner (tmr w t))))" using list_okD(8) [OF D(1) c t(2)] .
  have l: "list_ok ?s A" by (rule list_ok_data [OF D(1) c]) simp_all
  show ?thesis
    unfolding tmrs_ok_def s
  proof (intro conjI allI ballI impI)
    show "list_ok ?s A" by (rule l)
    show "mem_inv (ls_nodes ?s)" using D(2) c by (simp add: cell_upd_inv)
    fix u
    assume "lcell ?s u"
    then have u: "tcell w u" using c by auto
    show "u \<in> mem_heap (ls_nodes ?s)" "0 \<le> t_delay_ms (lnd ?s u)" using D(3,4) [OF u] D(4) [OF c] by simp_all
    assume "t_status (lnd ?s u) = TT_TMR_ORPHAN"
    then have "t_status (tmr w u) = TT_TMR_ORPHAN" by (auto split: if_splits)
    with D(6) [OF u] w'(3) show "off_lists u A" "u \<in> set (heap_tmrs w') \<or> u \<in> {}" by auto
  next
    fix k u
    assume "u \<in> set (A k)"
    then show "k = Unexpired (t_owner (lnd ?s u)) \<or> k = Expired (t_owner (lnd ?s u))" using D(5) [of u k] by auto
  next
    fix u
    assume u: "u \<in> set (heap_tmrs w')" "t_status (lnd ?s u) = TT_TMR_ACTIVE"
    show "u \<in> set (A (Unexpired (t_owner (lnd ?s u))))" using u w'(2) tA D(7) [of u] by (cases "u = t") auto
  qed
qed

lemma started_view [simp]:
  "w_fibers (started t w) = w_fibers w" "w_heap (started t w) = w_heap w" "w_nodes (started t w) = w_nodes w"
  "w_heap_pos (started t w) = w_heap_pos w" "w_clock (started t w) = w_clock w" "w_current (started t w) = w_current w"
  "w_main (started t w) = w_main w" "heap_tmrs (started t w) = heap_tmrs w" "tcell (started t w) a \<longleftrightarrow> a = t \<or> tcell w a"
  "tmr (started t w) a = (if a = t then (tmr w t)\<lparr>t_absolute_ref := w_clock w (w_tick w) + t_delay_ms (tmr w t), t_status := TT_TMR_ACTIVE\<rparr> else tmr w a)"
  "ls_lists (w_tmrs (started t w)) = ls_lists (w_tmrs w)"
  by (simp_all add: started_def)

lemma started_fibers_ok: "fibers_ok (started t w) = fibers_ok w"
  by (simp add: fibers_ok_def)

lemma tmr_start_ok:
  assumes ok: "tmr_ok w A {}" and c: "clock_ok w" and a: "tmr_allowed (TmrStart t) w"
  shows "call_ok switch (TmrStart t) w A"
proof -
  have T: "tmrs_ok w A {}" and H: "heap_ok w" and F: "fibers_ok w" using ok by (simp_all add: tmr_ok_def)
  let ?now = "w_clock w (w_tick w)" and ?w = "started t w"
  have t: "live t w" "l_lst (tmr w t) = Some (Unexpired (t_owner (tmr w t)))" and lt: "Suc (length (heap_tmrs w)) < 2 ^ 28"
    and d: "?now + t_delay_ms (tmr w t) < 2 ^ 63" using a by simp_all
  have tc: "tcell w t" using t(1) by (simp add: live_def)
  have n: "0 < ?now" "0 \<le> t_delay_ms (tmr w t)" using c tmr_delay_ok [OF ok t(1)] by (simp_all add: clock_ok_def)
  note eval = start_eval [OF tc n d]
  have done_post: "call_ok switch (TmrStart t) w A"
    if r: "tt_tmr_start t w = Inr (r, w')" "heap_step ?w w'" "heap_ok w'"
      "if t \<in> set (heap_tmrs w) \<or> ph_room (w_heap w) (w_nodes w) then r = TT_SUCCESS \<and> set (heap_tmrs w') = insert t (set (heap_tmrs w))
       else r = TT_FAIL \<and> set (heap_tmrs w') = set (heap_tmrs w)" for r w'
  proof -
    note S = heap_stepD [OF r(2)]
    have "tmrs_ok w' A {}" using r(4) S(4) by (intro started_tmrs_ok [OF T t]) (auto split: if_splits)
    then have "tmr_ok w' A {}" using r(3) S(7) F started_fibers_ok [of t w] unfolding tmr_ok_def by blast
    moreover have "tmr_post (TmrStart t) w A (TmrResult r) w' A" using r(4) S(1-5) by (simp add: others_def split: if_splits)
    moreover have "tmr_call_step switch (TmrStart t) w = Inr (TmrResult r, w')" using r(1) by simp
    ultimately show ?thesis by (intro call_okI)
  qed
  show ?thesis
  proof (cases "t \<in> set (heap_tmrs w)")
    case False
    then have pos: "w_heap_pos w t = TT_POS_NULL" using heap_pos_iff [OF H] by simp
    have "heap_ok (w\<lparr>w_tick := Suc (w_tick w), w_tmrs := w_tmrs ?w\<rparr>)"
    proof (rule heap_ok_tmrs)
      show "heap_ok (w\<lparr>w_tick := Suc (w_tick w)\<rparr>)" using H by (simp add: heap_ok_def tmr_heap_def)
      show "lcell (w_tmrs ?w) u \<and> t_absolute_ref (lnd (w_tmrs ?w) u) = t_absolute_ref (tmr (w\<lparr>w_tick := Suc (w_tick w)\<rparr>) u)"
        if "u \<in> set (heap_tmrs (w\<lparr>w_tick := Suc (w_tick w)\<rparr>))" for u using that False heap_okD(5) [OF H, of u] by auto
    qed
    then have H': "heap_ok ?w" unfolding started_def tmr_upd_def by simp
    have r: "tcell ?w t" "0 < t_absolute_ref (tmr ?w t)" "t_absolute_ref (tmr ?w t) < 2 ^ 63" "t \<notin> set (heap_tmrs ?w)"
      "Suc (length (heap_tmrs ?w)) < 2 ^ 28" using n d False lt by simp_all
    from heap_add [OF H' r] obtain r w' where w': "with_heap [t] ?w (\<lambda>ph. bindr (tt_ptrheap_add (Some t) (Some t) ph (w_nodes ?w) (w_heap_pos ?w)) (\<lambda>(r, ph, m, ix).
        Inr (r, ?w\<lparr>w_heap := ph, w_nodes := m, w_heap_pos := ix\<rparr>))) = Inr (r, w')" "heap_step ?w w'" "heap_ok w'"
      "r = TT_FAIL \<and> \<not> ph_room (w_heap ?w) (w_nodes ?w) \<and> set (heap_tmrs w') = set (heap_tmrs ?w)
       \<or> r = TT_SUCCESS \<and> ph_room (w_heap ?w) (w_nodes ?w) \<and> set (heap_tmrs w') = insert t (set (heap_tmrs ?w))" .
    have "tt_tmr_start t w = Inr (r, w')" unfolding eval using pos w'(1) by simp
    from done_post [OF this w'(2,3)] w'(4) False show ?thesis by auto
  next
    case True
    let ?u = "\<lambda>n. n\<lparr>t_absolute_ref := ?now + t_delay_ms n, t_status := TT_TMR_ACTIVE\<rparr> :: tt_tmr" and ?v = "w\<lparr>w_tick := Suc (w_tick w)\<rparr>"
    have H0: "heap_ok ?v" using H by (simp add: heap_ok_def tmr_heap_def)
    have e: "tmr_upd t ?u ?v = ?w" by (simp add: started_def)
    have r: "t \<in> set (heap_tmrs ?v)" "0 < t_absolute_ref (?u (tmr ?v t))" "t_absolute_ref (?u (tmr ?v t)) < 2 ^ 63" using True n d by simp_all
    from heap_fix [where u = ?u, OF H0 r] obtain w' where w': "with_heap [t] ?w (\<lambda>ph. bindr (tt_ptrheap_fix ph (w_heap_pos w t) (w_nodes w) (w_heap_pos w)) (\<lambda>(m, ix).
        Inr (TT_SUCCESS, ?w\<lparr>w_nodes := m, w_heap_pos := ix\<rparr>))) = Inr (TT_SUCCESS, w')" "heap_step ?w w'" "heap_ok w'"
      "set (heap_tmrs w') = set (heap_tmrs w)" "w_heap_pos w t \<noteq> TT_POS_NULL" unfolding e by auto
    have "tt_tmr_start t w = Inr (TT_SUCCESS, w')" unfolding eval using w'(1,5) by simp
    from done_post [OF this w'(2,3)] w'(4) True show ?thesis by auto
  qed
qed

section \<open>Creating\<close>

lemma list_ok_alloc:
  assumes ok: "list_ok s A" and a: "\<not> lcell s a" and m: "\<And>b. b \<noteq> a \<Longrightarrow> mem_blocks m b = mem_blocks (ls_nodes s) b"
    and n: "cell m a" "l_lst (struct_at m a) = None" "l_prev (struct_at m a) = None" "l_next (struct_at m a) = None"
  shows "list_ok (s\<lparr>ls_nodes := m\<rparr>) A"
proof -
  have c: "cell m b \<longleftrightarrow> b = a \<or> lcell s b" for b using m [of b] n(1) by (cases "b = a") (auto simp: cell_def struct_at_def)
  have e: "struct_at m b = lnd s b" if "b \<noteq> a" for b using m [OF that] by (simp add: struct_at_def)
  have x: "b \<noteq> a" if "b \<in> set (A l)" for b l using list_okD(4) [OF ok that] a by auto
  have "links (s\<lparr>ls_nodes := m\<rparr>) b = (None, None, None) \<or> (\<exists>l. b \<in> set (A l))" if "lcell (s\<lparr>ls_nodes := m\<rparr>) b" for b
    using that ok c [of b] e [of b] n unfolding list_ok_def by (cases "b = a") simp_all
  moreover have "\<forall>l. \<forall>b \<in> set (A l). lcell (s\<lparr>ls_nodes := m\<rparr>) b \<and> links (s\<lparr>ls_nodes := m\<rparr>) b = (Some l, before (A l) b, after (A l) b)"
    using ok c e x unfolding list_ok_def by simp
  ultimately show ?thesis using ok unfolding list_ok_def by simp
qed

lemma cell_upd_twice: "cell_upd (cell_upd m a x) a y = cell_upd m a y"
  by (simp add: cell_upd_def)

lemma lnode_init_upd:
  "tcell w t \<Longrightarrow> on_tmrs (tt_lnode_init t) w = Inr (tmr_upd t (\<lambda>n. n\<lparr>l_lst := None, l_prev := None, l_next := None\<rparr>) w)"
  by (simp add: on_tmrs_def tt_lnode_init_def ll_run tmr_upd_def cell_upd_twice)

definition new_tmr :: "int \<Rightarrow> nat \<Rightarrow> tt_tmr \<Rightarrow> tt_tmr" where
  "new_tmr d f n = n\<lparr>l_lst := None, l_prev := None, l_next := None, t_delay_ms := d, t_absolute_ref := 0, t_owner := f\<rparr>"

lemma create_eval:
  assumes d: "0 \<le> d" and m: "malloc_struct (ls_nodes (w_tmrs w)) = (Some t, m)" "cell m t"
    and w1: "w1 = tmr_upd t (new_tmr d (w_current w)) (w\<lparr>w_tmrs := (w_tmrs w)\<lparr>ls_nodes := m\<rparr>\<rparr>)"
    and p: "tt_list_push_tail (Unexpired (w_current w)) t (w_tmrs w1) = Inr s" "lcell s t" "w_heap_pos w t = TT_POS_NULL"
  shows "tt_tmr_create d ev p w = Inr (Some t, tmr_upd t (\<lambda>n. n\<lparr>t_param := p, t_ev := ev, t_status := TT_TMR_INACTIVE\<rparr>) (w1\<lparr>w_tmrs := s\<rparr>))"
proof -
  let ?v = "w\<lparr>w_tmrs := (w_tmrs w)\<lparr>ls_nodes := m\<rparr>\<rparr>" and ?c = "w_current w"
  have c: "tcell ?v t" using m(2) by simp
  have u: "tmr_upd t (\<lambda>n. n\<lparr>l_lst := None, l_prev := None, l_next := None\<rparr>) (tmr_upd t (\<lambda>t. t\<lparr>t_owner := ?c\<rparr>)
      (tmr_upd t (\<lambda>t. t\<lparr>t_delay_ms := d, t_absolute_ref := 0\<rparr>) ?v)) = w1"
  proof -
    have "(\<lambda>x. x\<lparr>t_delay_ms := d, t_absolute_ref := 0, t_owner := ?c, l_lst := None, l_prev := None, l_next := None\<rparr>) = new_tmr d ?c"
    proof
      show "x\<lparr>t_delay_ms := d, t_absolute_ref := 0, t_owner := ?c, l_lst := None, l_prev := None, l_next := None\<rparr> = new_tmr d ?c x" for x
        by (cases x) (simp add: new_tmr_def)
    qed
    then show ?thesis unfolding w1 by (simp add: tmr_upd_upd comp_def)
  qed
  have w: "w_heap_pos w1 = w_heap_pos w" unfolding w1 by simp
  have h: "(w_heap_pos w)(t := TT_POS_NULL) = w_heap_pos w" using p(3) by (simp add: fun_upd_idem)
  have e: "tmr_upd t u (w1\<lparr>w_tmrs := s\<rparr>)\<lparr>w_heap_pos := w_heap_pos w\<rparr> = tmr_upd t u (w1\<lparr>w_tmrs := s\<rparr>)" for u
    using w unfolding tmr_upd_def by simp
  have v: "tmr_upd t (\<lambda>t. t\<lparr>t_status := TT_TMR_INACTIVE\<rparr>) (tmr_upd t (\<lambda>t. t\<lparr>t_param := p, t_ev := ev\<rparr>) (w1\<lparr>w_tmrs := s\<rparr>))
      = tmr_upd t (\<lambda>n. n\<lparr>t_param := p, t_ev := ev, t_status := TT_TMR_INACTIVE\<rparr>) (w1\<lparr>w_tmrs := s\<rparr>)"
    by (simp add: tmr_upd_upd comp_def)
  have q: "on_tmrs (tt_list_push_tail (Unexpired ?c) t) w1 = Inr (w1\<lparr>w_tmrs := s\<rparr>)" using p(1) by (simp add: on_tmrs_def)
  show ?thesis
    using d m(1) c p(2) q
    by (simp add: tt_tmr_create_def tt_current_fiber_def Let_def tmr_st_upd lnode_init_upd u w h e v)
qed

lemma tmr_create_ok:
  assumes ok: "tmr_ok w A {}" and a: "tmr_allowed (TmrCreate d ev p) w"
  shows "call_ok switch (TmrCreate d ev p) w A"
proof -
  have T: "tmrs_ok w A {}" and H: "heap_ok w" and F: "fibers_ok w" using ok by (simp_all add: tmr_ok_def)
  note D = tmrs_okD [OF T]
  let ?c = "w_current w"
  have d: "0 \<le> d" and l: "ls_lists (w_tmrs w) (Unexpired ?c) \<noteq> None" using a by simp_all
  have get: "call_ok switch (TmrCreate d ev p) w A"
    if g: "tmr_ok w' B {}" "tmr_post (TmrCreate d ev p) w A (TmrGot r) w' B" "tt_tmr_create d ev p w = Inr (r, w')" for r w' B
  proof -
    have "tmr_call_step switch (TmrCreate d ev p) w = Inr (TmrGot r, w')" using g(3) by simp
    from call_okI [OF this g(1,2)] show ?thesis .
  qed
  have granted: "mem_oracle (ls_nodes (w_tmrs w)) (mem_next (ls_nodes (w_tmrs w))) \<longleftrightarrow> fst (malloc_struct (ls_nodes (w_tmrs w))) \<noteq> None"
    by (simp add: malloc_struct_def tt_malloc_def Let_def)
  from D(2) show ?thesis
  proof (cases rule: malloc_struct_cases)
    case (fail m)
    let ?w = "w\<lparr>w_tmrs := (w_tmrs w)\<lparr>ls_nodes := m\<rparr>\<rparr>"
    have b: "mem_blocks m = mem_blocks (ls_nodes (w_tmrs w))" "mem_heap m = mem_heap (ls_nodes (w_tmrs w))"
      using fail(3) by (simp_all add: same_store_def)
    have s: "struct_at m = struct_at (ls_nodes (w_tmrs w))" "cell m = cell (ls_nodes (w_tmrs w))"
      using b by (simp_all add: fun_eq_iff cell_def struct_at_def)
    have "tmr_ok ?w A {}"
    proof (rule tmr_ok_relink [OF ok])
      show "same_structs lnode.more (w_tmrs w) ((w_tmrs w)\<lparr>ls_nodes := m\<rparr>)" using b s fail(2) by (simp add: same_structs_def same_cells_def)
      show "list_ok ((w_tmrs w)\<lparr>ls_nodes := m\<rparr>) A" using D(1) s by (simp add: list_ok_def)
    qed (use D(5,6,7) in blast)+
    moreover have "tmr_post (TmrCreate d ev p) w A (TmrGot None) ?w A" using s granted fail(1) by (simp add: others_def)
    moreover have "tt_tmr_create d ev p w = Inr (None, ?w)" using d fail(1) by (simp add: tt_tmr_create_def)
    ultimately show ?thesis by (rule get)
  next
    case (ok t m)
    have out: "\<not> tcell w t" using ok(6) by (simp add: cell_def)
    have tm: "cell m t" using ok(5) by (simp add: is_struct_cell)
    have fr: "mem_blocks m b = mem_blocks (ls_nodes (w_tmrs w)) b" if "b \<noteq> t" for b
      using ok(1) that unfolding malloc_struct_def tt_malloc_def by (auto simp: Let_def split: if_splits)
    have nh: "t \<notin> set (heap_tmrs w)" using heap_okD(5) [OF H, of t] out by blast
    define w1 where "w1 = tmr_upd t (new_tmr d ?c) (w\<lparr>w_tmrs := (w_tmrs w)\<lparr>ls_nodes := m\<rparr>\<rparr>)"
    let ?m1 = "cell_upd m t (new_tmr d ?c (struct_at m t))"
    have w1: "w_tmrs w1 = (w_tmrs w)\<lparr>ls_nodes := ?m1\<rparr>" "w_heap_pos w1 = w_heap_pos w" "heap_tmrs w1 = heap_tmrs w"
      "w1 = w\<lparr>w_tmrs := w_tmrs w1\<rparr>" by (simp_all add: w1_def tmr_upd_def)
    have l1: "list_ok (w_tmrs w1) A"
      unfolding w1(1) using fr by (intro list_ok_alloc [OF D(1) out]) (simp_all add: new_tmr_def, simp add: cell_upd_def)
    have n1: "lcell (w_tmrs w1) t" "l_lst (lnd (w_tmrs w1) t) = None" unfolding w1(1) by (simp_all add: new_tmr_def)
    obtain h where h: "ls_lists (w_tmrs w1) (Unexpired ?c) = Some h" using l w1(1) by auto
    from list_push_tail_ok [OF l1 n1 h] obtain s where s: "tt_list_push_tail (Unexpired ?c) t (w_tmrs w1) = Inr s"
      "linked_in (Unexpired ?c) t (A (Unexpired ?c)) [] (w_tmrs w1) s" by blast
    note S = same_structsD [OF linked_in_same [OF s(2)]]
    let ?B = "A(Unexpired ?c := A (Unexpired ?c) @ [t])"
    have l2: "list_ok s ?B" using linked_in_ok [OF l1 _ n1 s(2)] by simp
    have c: "lcell s t" using S(1) n1 by simp
    let ?n = "(lnd s t)\<lparr>t_param := p, t_ev := ev, t_status := TT_TMR_INACTIVE\<rparr>"
    let ?w = "tmr_upd t (\<lambda>n. n\<lparr>t_param := p, t_ev := ev, t_status := TT_TMR_INACTIVE\<rparr>) (w1\<lparr>w_tmrs := s\<rparr>)"
    have run: "tt_tmr_create d ev p w = Inr (Some t, ?w)"
      using create_eval [OF d ok(1) tm w1_def s(1) c] heap_okD(4) [OF H nh] by simp
    let ?s = "s\<lparr>ls_nodes := cell_upd (ls_nodes s) t ?n\<rparr>"
    have e: "?w = w\<lparr>w_tmrs := ?s\<rparr>" by (subst w1(4)) (simp add: tmr_upd_def)
    have l3: "list_ok ?s ?B" by (rule list_ok_data [OF l2 c]) simp_all
    have cs: "lcell ?s u \<longleftrightarrow> u = t \<or> tcell w u" for u
      using S(1) [of u] fr [of u] c by (cases "u = t") (auto simp: w1(1) cell_def struct_at_def cell_upd_def)
    have more: "lnode.more (lnd ?s u) = lnode.more (tmr w u)" if "u \<noteq> t" for u
      using S(2) [of u] fr [OF that] that by (simp add: w1(1) struct_at_def cell_upd_def)
    note f = tmr_fields [OF more]
    have new: "t_delay_ms (lnd ?s t) = d" "t_owner (lnd ?s t) = ?c" "t_status (lnd ?s t) = TT_TMR_INACTIVE"
      using tmr_fields [OF S(2) [of t]] by (simp_all add: w1(1) new_tmr_def)
    have ne: "u \<noteq> t" if "u \<in> set (heap_tmrs w)" for u using that nh by auto
    have tk: "u \<noteq> t" if "u \<in> set (A k)" for u k using list_okD(4) [OF D(1) that] out by auto
    have "heap_ok ?w"
      unfolding e
    proof (rule heap_ok_tmrs [OF H])
      show "lcell ?s u \<and> t_absolute_ref (lnd ?s u) = t_absolute_ref (tmr w u)" if "u \<in> set (heap_tmrs w)" for u
        using cs [of u] f(2) [OF ne [OF that]] heap_okD(5) [OF H that] by blast
    qed
    moreover have "fibers_ok ?w"
    proof -
      have "ls_lists ?s k = None \<longleftrightarrow> ls_lists (w_tmrs w) k = None" for k using S(3) [of k] by (simp add: w1(1))
      then show ?thesis using F unfolding e by (simp add: fibers_ok_def)
    qed
    moreover have "tmrs_ok ?w ?B {}"
      unfolding tmrs_ok_def e
    proof (intro conjI allI ballI impI)
      show "list_ok (w_tmrs (w\<lparr>w_tmrs := ?s\<rparr>)) ?B" using l3 by simp
      have "mem_inv ?m1" using cell_upd_inv [OF ok(2) tm] .
      then have "mem_inv (ls_nodes s)" using S(4) by (simp add: w1(1))
      then show "mem_inv (ls_nodes (w_tmrs (w\<lparr>w_tmrs := ?s\<rparr>)))" using cell_upd_inv [OF _ c] by simp
      fix u
      assume "tcell (w\<lparr>w_tmrs := ?s\<rparr>) u"
      then have u: "u = t \<or> tcell w u" using cs by simp
      have "mem_heap (ls_nodes ?s) = insert t (mem_heap (ls_nodes (w_tmrs w)))" using S(5) ok(4) by (simp add: w1(1))
      then show "u \<in> mem_heap (ls_nodes (w_tmrs (w\<lparr>w_tmrs := ?s\<rparr>)))" using u D(3) by auto
      show "0 \<le> t_delay_ms (tmr (w\<lparr>w_tmrs := ?s\<rparr>) u)" using u new(1) d f(1) [of u] D(4) [of u] by (cases "u = t") simp_all
      assume "t_status (tmr (w\<lparr>w_tmrs := ?s\<rparr>) u) = TT_TMR_ORPHAN"
      then have st: "t_status (lnd ?s u) = TT_TMR_ORPHAN" by simp
      have "u \<noteq> t" using st by auto
      then have "u \<noteq> t" "t_status (tmr w u) = TT_TMR_ORPHAN" using st f(4) [of u] by simp_all
      then show "off_lists u ?B" "u \<in> set (heap_tmrs (w\<lparr>w_tmrs := ?s\<rparr>)) \<or> u \<in> {}" using D(6) [of u] u by (auto simp: off_lists_def)
    next
      fix k u
      assume "u \<in> set (?B k)"
      then have "u \<in> set (A k) \<or> u = t \<and> k = Unexpired ?c" by (auto split: if_splits)
      then show "k = Unexpired (t_owner (tmr (w\<lparr>w_tmrs := ?s\<rparr>) u)) \<or> k = Expired (t_owner (tmr (w\<lparr>w_tmrs := ?s\<rparr>) u))"
        using D(5) [of u k] tk [of u k] new(2) f(3) [of u] by auto
    next
      fix u
      assume u: "u \<in> set (heap_tmrs (w\<lparr>w_tmrs := ?s\<rparr>))" "t_status (tmr (w\<lparr>w_tmrs := ?s\<rparr>) u) = TT_TMR_ACTIVE"
      have n: "u \<noteq> t" using ne u(1) by simp
      then have "u \<in> set (A (Unexpired (t_owner (tmr w u))))" using D(7) [of u] u f(4) [OF n] by simp
      then show "u \<in> set (?B (Unexpired (t_owner (tmr (w\<lparr>w_tmrs := ?s\<rparr>) u))))" using f(3) [OF n] by auto
    qed
    ultimately have "tmr_ok ?w ?B {}" unfolding tmr_ok_def by blast
    moreover have "tmr_post (TmrCreate d ev p) w A (TmrGot (Some t)) ?w ?B"
    proof -
      have "others None w ?w" unfolding others_def e using cs more out by auto
      moreover have "t_ev (lnd ?s t) = ev" "t_param (lnd ?s t) = p" by simp_all
      ultimately show ?thesis using out new nh cs [of t] granted ok(1) unfolding e by (simp add: live_def)
    qed
    ultimately show ?thesis using run by (rule get)
  qed
qed

end
