(* ===== verification/TT_Timer_Props.thy ===== *)
theory TT_Timer_Props
  imports TT_Timer_Calls
begin

text \<open>
  What the timer manager achieves: when no fiber waits for a timer, every timer that is due at the first reading of
  the clock is handed to its owner, in the order of the times.
\<close>

section \<open>The lists after a delivery\<close>

lemma expire_lists:
  "expire f t A (Expired g) = removeAll t (A (Expired g)) @ (if g = f then [t] else [])"
  "expire f t A (Unexpired g) = removeAll t (A (Unexpired g))"
  by (simp_all add: expire_def requeued_def)

lemma expire_all:
  assumes "\<forall>t \<in> set ts. \<forall>f. t \<notin> set (A (Expired f))" "distinct ts"
  shows "fold (\<lambda>t. expire (o1 t) t) ts A (Expired f) = A (Expired f) @ filter (\<lambda>t. o1 t = f) ts
    \<and> fold (\<lambda>t. expire (o1 t) t) ts A (Unexpired f) = filter (\<lambda>t. t \<notin> set ts) (A (Unexpired f))"
  using assms
proof (induction ts arbitrary: A)
  case (Cons t ts)
  let ?A = "expire (o1 t) t A"
  have "\<forall>u \<in> set ts. \<forall>g. u \<notin> set (?A (Expired g))" using Cons.prems by (auto simp: expire_lists)
  note IH = Cons.IH [of ?A, OF this]
  have "filter (\<lambda>u. u \<notin> set ts) (removeAll t xs) = filter (\<lambda>u. u \<notin> set (t # ts)) xs" for xs
    by (induction xs) auto
  then show ?case using IH Cons.prems by (simp add: expire_lists removeAll_id)
qed simp

lemma active_unexpired:
  assumes "tmr_ok w A X" "t \<in> set (heap_tmrs w)" "t_status (tmr w t) = TT_TMR_ACTIVE"
  shows "t \<notin> set (A (Expired f))"
proof -
  have T: "tmrs_ok w A X" using assms(1) by (simp add: tmr_ok_def)
  have "t \<in> set (A (Unexpired (t_owner (tmr w t))))" using tmrs_okD(7) [OF T assms(2,3)] .
  then show ?thesis using list_ok_one [OF tmrs_okD(1) [OF T], of t _ "Expired f"] by blast
qed

section \<open>A task with one fiber and two timers\<close>

definition duo_tmr :: "ptr \<Rightarrow> ptr \<Rightarrow> int \<Rightarrow> int \<Rightarrow> tt_tmr" where
  "duo_tmr p n delay ref = \<lparr>l_lst = Some (Unexpired 0), l_prev = p, l_next = n, t_delay_ms = delay, t_absolute_ref = ref,
     t_owner = 0, t_param = None, t_ev = 7, t_status = TT_TMR_ACTIVE\<rparr>"

definition duo_fibers :: "(sched_list, tt_list, fiber) lstore" where
  "duo_fibers = \<lparr>ls_lists = (\<lambda>_. Some \<lparr>ls_head = None, ls_tail = None, ls_count = 0\<rparr>),
     ls_nodes = \<lparr>mem_blocks = [0 \<mapsto> [fiber_struct None]], mem_heap = {0}, mem_next = 1, mem_oracle = (\<lambda>_. True), mem_junk = (\<lambda>_ _. fiber_struct None)\<rparr>\<rparr>"

definition duo_tmrs :: "(tmr_list, tt_list, tt_tmr) lstore" where
  "duo_tmrs = \<lparr>ls_lists = [Unexpired 0 \<mapsto> \<lparr>ls_head = Some 2, ls_tail = Some 3, ls_count = 2\<rparr>, Expired 0 \<mapsto> \<lparr>ls_head = None, ls_tail = None, ls_count = 0\<rparr>],
     ls_nodes = \<lparr>mem_blocks = [2 \<mapsto> [duo_tmr None (Some 3) 10 60], 3 \<mapsto> [duo_tmr (Some 2) None 10 40]], mem_heap = {2, 3}, mem_next = 4,
       mem_oracle = (\<lambda>_. True), mem_junk = (\<lambda>_ _. duo_tmr None None 0 0)\<rparr>\<rparr>"

definition duo_world :: world where
  "duo_world = \<lparr>w_fibers = duo_fibers, w_main = 0, w_current = 0, w_tmrs = duo_tmrs,
     w_heap = \<lparr>g_p = Some 0, g_size = 32, g_mspg = \<lparr>min_extend = 32, max_extend = 64, max_limit = 0\<rparr>, g_count = 2, g_capacity = 2, h_cmp = (\<lambda>_ _. 0)\<rparr>,
     w_nodes = \<lparr>mem_blocks = [0 \<mapsto> [\<lparr>ph_p = 3, ph_idx = Some 3\<rparr>, \<lparr>ph_p = 2, ph_idx = Some 2\<rparr>]], mem_heap = {0}, mem_next = 1,
       mem_oracle = (\<lambda>_. True), mem_junk = (\<lambda>_ _. \<lparr>ph_p = 0, ph_idx = None\<rparr>)\<rparr>,
     w_heap_pos = (\<lambda>t. if t = 3 then 0 else if t = 2 then 1 else TT_POS_NULL), w_clock = (\<lambda>_. 50), w_tick = 0\<rparr>"

definition duo_lists :: "tmr_list \<Rightarrow> nat list" where
  "duo_lists = (\<lambda>_. [])(Unexpired 0 := [2, 3])"

lemma duo_world_simps [simp]:
  "w_fibers duo_world = duo_fibers" "w_tmrs duo_world = duo_tmrs" "w_main duo_world = 0" "w_current duo_world = 0"
  "w_clock duo_world k = 50" "w_tick duo_world = 0"
  "w_heap_pos duo_world t = (if t = 3 then 0 else if t = 2 then 1 else TT_POS_NULL)"
  by (simp_all add: duo_world_def)

lemma duo_cells [simp]: "lcell duo_fibers f \<longleftrightarrow> f = 0" "lcell duo_tmrs t \<longleftrightarrow> t = 2 \<or> t = 3"
  by (auto simp: duo_fibers_def duo_tmrs_def cell_def struct_at_def)

lemma duo_structs [simp]: "lnd duo_fibers 0 = fiber_struct None" "lnd duo_tmrs 2 = duo_tmr None (Some 3) 10 60"
  "lnd duo_tmrs 3 = duo_tmr (Some 2) None 10 40"
  by (simp_all add: duo_fibers_def duo_tmrs_def struct_at_def)

lemma duo_headers: "ls_lists duo_tmrs l = (if l = Unexpired 0 then Some \<lparr>ls_head = Some 2, ls_tail = Some 3, ls_count = 2\<rparr>
    else if l = Expired 0 then Some \<lparr>ls_head = None, ls_tail = None, ls_count = 0\<rparr> else None)"
  "ls_lists duo_fibers k = Some \<lparr>ls_head = None, ls_tail = None, ls_count = 0\<rparr>"
  by (simp_all add: duo_tmrs_def duo_fibers_def)

lemma duo_fibers_ok: "fibers_ok duo_world"
proof -
  have "list_ok duo_fibers (\<lambda>_. [])"
    by (simp add: list_ok_def duo_headers fiber_struct_def final_def)
  then show ?thesis by (auto simp: fibers_ok_def duo_headers split: if_splits)
qed

lemma duo_lists_simps [simp]: "duo_lists (Unexpired f) = (if f = 0 then [2, 3] else [])" "duo_lists (Expired f) = []"
  by (simp_all add: duo_lists_def)

lemma duo_list_ok: "list_ok duo_tmrs duo_lists"
  unfolding list_ok_def
proof (intro conjI allI impI ballI)
  fix l h
  assume "ls_lists duo_tmrs l = Some h"
  then show "ls_head h = first (duo_lists l)" "ls_tail h = final (duo_lists l)" "ls_count h = of_nat (length (duo_lists l))"
    by (cases l; simp add: duo_headers split: if_splits; fastforce)+
next
  fix l
  show "distinct (duo_lists l)" by (cases l) simp_all
  show "ls_lists duo_tmrs l = None \<Longrightarrow> duo_lists l = []" by (cases l) (simp_all add: duo_headers split: if_splits)
  fix a
  assume a: "a \<in> set (duo_lists l)"
  then have "l = Unexpired 0" "a = 2 \<or> a = 3" by (cases l; simp split: if_splits)+
  then show "lcell duo_tmrs a" "links duo_tmrs a = (Some l, before (duo_lists l) a, after (duo_lists l) a)"
    by (auto simp: duo_tmr_def before_def)
next
  fix a
  assume "lcell duo_tmrs a"
  then have "a \<in> set (duo_lists (Unexpired 0))" by simp
  then show "links duo_tmrs a = (None, None, None) \<or> (\<exists>l. a \<in> set (duo_lists l))" by blast
qed

lemma duo_heap: "heap_tmrs duo_world = [3, 2]"
  by (simp add: heap_tmrs_def duo_world_def arr_items_def arr_cells_def)

lemma duo_heap_ok: "heap_ok duo_world"
proof -
  have n: "nodes (w_heap duo_world) (w_nodes duo_world) = [\<lparr>ph_p = 3, ph_idx = Some 3\<rparr>, \<lparr>ph_p = 2, ph_idx = Some 2\<rparr>]"
    by (simp add: duo_world_def arr_items_def arr_cells_def)
  have c: "h_cmp (tmr_heap duo_world) = tmr_cmp (ls_nodes duo_tmrs)" by (simp add: tmr_heap_def)
  have "heap_arr (w_heap duo_world) (w_nodes duo_world)"
    by (simp add: duo_world_def arr_inv_def mem_inv_def memspg_ok_def points_to_def arr_cells_def)
  moreover have "cmp_order.heap (tmr_cmp (ls_nodes duo_tmrs)) [3, 2]"
    by (auto simp: cmp_order.heap_def [OF tmr_cmp_order] cmp_order.below_def [OF tmr_cmp_order] less_Suc_eq hparent_def
      tmr_cmp_def duo_tmr_def)
  moreover have "tracks [\<lparr>ph_p = 3, ph_idx = Some 3\<rparr>, \<lparr>ph_p = 2, ph_idx = Some (2::nat)\<rparr>] (w_heap_pos duo_world)"
    by (auto simp: tracks_def less_Suc_eq)
  ultimately have "ph_inv (tmr_heap duo_world) (w_nodes duo_world) (w_heap_pos duo_world)"
    using tmr_cmp_order n c by (simp add: ph_inv_def tmr_heap_def)
  then show ?thesis using n by (simp add: heap_ok_def duo_heap duo_tmr_def)
qed

lemma duo_ok: "tmr_ok duo_world duo_lists {}"
proof -
  have "mem_inv (ls_nodes duo_tmrs)" "mem_heap (ls_nodes duo_tmrs) = {2, 3}" by (simp_all add: duo_tmrs_def mem_inv_def)
  then have "tmrs_ok duo_world duo_lists {}"
    unfolding tmrs_ok_def duo_heap using duo_list_ok by (auto simp: duo_lists_def duo_tmr_def)
  then show ?thesis using duo_fibers_ok duo_heap_ok by (simp add: tmr_ok_def)
qed

lemma duo_clock: "clock_ok duo_world"
  by (simp add: clock_ok_def)

lemma duo_no_waiter: "no_waiter duo_world"
  by (simp add: no_waiter_def fiber_struct_def)

section \<open>Delivery\<close>

lemma mgr_run_steps:
  assumes A: "tmr_ok w A {}" and c: "clock_ok w" and n: "no_waiter w"
  obtains d w' B ts where "tt_tmr_mgr_run switch w = Inr (d, w')" "tmr_ok w' B {}" "starts_none w w'" "delivered w A w' B ts"
    "due w \<subseteq> set ts" "on_time (w_tick w) w w' ts" "mgr_result (w_tick w) w' d"
proof -
  have "switch_ok switch w" using n by (simp add: switch_ok_def)
  from mgr_loop_ok [OF this A c order_refl, of 0 False] obtain d w' B ts where
    r: "mgr_run_loop switch 0 False w = Some (Inr (d, w'))" "mgr_step w A w' B ts" "mgr_result (w_tick w) w' d"
      "\<forall>u \<in> set (heap_tmrs w'). w_clock w (w_tick w) < t_absolute_ref (tmr w u)" "on_time (w_tick w) w w' ts"
    using n by (auto simp: first_reading_def)
  have d: "delivered w A w' B ts" "tmr_ok w' B {}" "starts_none w w'" using r(2) n by (simp_all add: mgr_step_def)
  have "set ts = {t \<in> set (heap_tmrs w). t_status (tmr w t) = TT_TMR_ACTIVE \<and> t \<notin> set (heap_tmrs w')}"
    using d(1) unfolding delivered_def by blast
  then have "due w \<subseteq> set ts" unfolding due_def using r(4) by fastforce
  moreover have "tt_tmr_mgr_run switch w = Inr (d, w')" using r(1) by (simp add: tt_tmr_mgr_run_def returned_def)
  ultimately show thesis using that d r(3,5) by blast
qed

text \<open>
  C40: When no fiber waits for a timer, \<^verbatim>\<open>tt_tmr_mgr_run\<close> returns, whatever the clock reads. Every active timer that is
  due at the first reading has then left the heap, and each active timer that left the heap has moved from the
  unexpired to the end of the expired timers of its owner, in the order of the times; none was moved before its time.
  The manager answers how long to wait for the first timer that is left, counted from one of its own readings, or
  \<^verbatim>\<open>TT_TIME_INFINITE\<close> when there is none, and timers, fibers and heap are consistent as before.
\<close>
theorem tmr_run_delivers:
  assumes "tmr_ok w A {}" "clock_ok w" "no_waiter w"
  shows "\<exists>d w' B ts. tt_tmr_mgr_run switch w = Inr (d, w') \<and> tmr_ok w' B {}
    \<and> (\<forall>f. B (Expired f) = A (Expired f) @ filter (\<lambda>t. t_owner (tmr w t) = f) ts
        \<and> B (Unexpired f) = filter (\<lambda>t. t \<notin> set ts) (A (Unexpired f)))
    \<and> sorted (map (\<lambda>t. t_absolute_ref (tmr w t)) ts)
    \<and> set ts = {t \<in> set (heap_tmrs w). t_status (tmr w t) = TT_TMR_ACTIVE \<and> t \<notin> set (heap_tmrs w')}
    \<and> {t \<in> set (heap_tmrs w). t_status (tmr w t) = TT_TMR_ACTIVE \<and> t_absolute_ref (tmr w t) \<le> w_clock w (w_tick w)} \<subseteq> set ts
    \<and> on_time (w_tick w) w w' ts \<and> mgr_result (w_tick w) w' d"
proof -
  from mgr_run_steps [OF assms, of switch] obtain d w' B ts where
    r: "tt_tmr_mgr_run switch w = Inr (d, w')" "tmr_ok w' B {}" "delivered w A w' B ts" "due w \<subseteq> set ts"
      "on_time (w_tick w) w w' ts" "mgr_result (w_tick w) w' d" .
  note D = r(3) [unfolded delivered_def]
  have B: "B = fold (\<lambda>t. expire (t_owner (tmr w t)) t) ts A"
    and ts: "set ts = {t \<in> set (heap_tmrs w). t_status (tmr w t) = TT_TMR_ACTIVE \<and> t \<notin> set (heap_tmrs w')}" "distinct ts" using D by blast+
  have "\<forall>t \<in> set ts. \<forall>f. t \<notin> set (A (Expired f))" using active_unexpired [OF assms(1)] ts(1) by blast
  note lists = expire_all [OF this ts(2), of "\<lambda>t. t_owner (tmr w t)"]
  show ?thesis using r(1,2,5,6) r(4) [unfolded due_def] D ts(1) lists unfolding B [symmetric] by blast
qed

theorem tmr_run_delivers_witness:
  "\<exists>d w' B ts. tt_tmr_mgr_run (\<lambda>_ _ _. Inl Undef) duo_world = Inr (d, w') \<and> 3 \<in> set ts
     \<and> tmr_ok w' B {} \<and> B (Expired 0) = filter (\<lambda>t. t_owner (tmr duo_world t) = 0) ts"
proof -
  let ?sw = "\<lambda>_ _ _ :: world. Inl Undef :: world run"
  have t: "t_status (tmr duo_world 3) = TT_TMR_ACTIVE" "t_absolute_ref (tmr duo_world 3) \<le> w_clock duo_world (w_tick duo_world)"
    "3 \<in> set (heap_tmrs duo_world)" by (simp_all add: duo_tmr_def duo_heap)
  have l: "duo_lists (Expired 0) = []" by (simp add: duo_lists_def)
  from tmr_run_delivers [OF duo_ok duo_clock duo_no_waiter, of ?sw] obtain d w' B ts where
    r: "tt_tmr_mgr_run ?sw duo_world = Inr (d, w')" "tmr_ok w' B {}"
      "\<forall>f. B (Expired f) = duo_lists (Expired f) @ filter (\<lambda>t. t_owner (tmr duo_world t) = f) ts
        \<and> B (Unexpired f) = filter (\<lambda>t. t \<notin> set ts) (duo_lists (Unexpired f))"
      "{t \<in> set (heap_tmrs duo_world). t_status (tmr duo_world t) = TT_TMR_ACTIVE
        \<and> t_absolute_ref (tmr duo_world t) \<le> w_clock duo_world (w_tick duo_world)} \<subseteq> set ts" by blast
  have "3 \<in> set ts" using r(4) t by blast
  moreover have "B (Expired 0) = filter (\<lambda>t. t_owner (tmr duo_world t) = 0) ts" using r(3) l by simp
  ultimately show ?thesis using r(1,2) by blast
qed

section \<open>Sequences of calls\<close>

lemma tmr_run_ok:
  assumes "tmr_ok w A {}" "clock_ok w" "no_waiter w"
  shows "call_ok switch TmrRun w A"
proof -
  from mgr_run_steps [OF assms, of switch] obtain d w' B ts where
    r: "tt_tmr_mgr_run switch w = Inr (d, w')" "tmr_ok w' B {}" "starts_none w w'" "delivered w A w' B ts"
    "due w \<subseteq> set ts" "on_time (w_tick w) w w' ts" "mgr_result (w_tick w) w' d" .
  from r(3-7) have "tmr_post TmrRun w A (TmrWait d) w' B" unfolding tmr_post.simps by blast
  with r(1,2) show ?thesis by (intro call_okI [of _ _ _ "TmrWait d" w' B]) simp_all
qed

lemma tmr_call_ok:
  assumes "tmr_ok w A {}" "clock_ok w" "no_waiter w" "tmr_allowed c w"
  shows "call_ok switch c w A"
proof (cases c)
  case (TmrCreate d ev p)
  then show ?thesis using tmr_create_ok assms(1,4) by simp
next
  case (TmrDestroy t)
  then show ?thesis using tmr_destroy_ok assms(1,4) by simp
next
  case (TmrStart t)
  then show ?thesis using tmr_start_ok assms(1,2,4) by simp
next
  case TmrReceive
  then show ?thesis using tmr_receive_ok assms(1,4) by simp
next
  case TmrRun
  then show ?thesis using tmr_run_ok assms(1-3) by simp
qed (use assms(1,4) setters_ok in simp_all)

lemma tmr_post_keeps:
  assumes "tmr_post c w A a w' B"
  shows "clock_ok w' = clock_ok w" "no_waiter w' = no_waiter w"
proof -
  have "w_clock w' = w_clock w \<and> w_fibers w' = w_fibers w"
    using assms by (cases c) (auto simp: others_def starts_none_def delivered_def)
  then show "clock_ok w' = clock_ok w" "no_waiter w' = no_waiter w" by (simp_all add: clock_ok_def no_waiter_def)
qed

text \<open>The fibers take turns: between two calls any of them may become the current one.\<close>

inductive tmr_reaches :: "'z switch \<Rightarrow> 'z world_scheme \<Rightarrow> 'z world_scheme \<Rightarrow> bool" for switch w0 where
  here: "tmr_reaches switch w0 w0"
| call: "tmr_reaches switch w0 w \<Longrightarrow> tmr_allowed c w \<Longrightarrow> tmr_call_step switch c w = Inr (a, w') \<Longrightarrow> tmr_reaches switch w0 w'"
| turn: "tmr_reaches switch w0 w \<Longrightarrow> lcell (w_fibers w) f \<Longrightarrow> tmr_reaches switch w0 (w\<lparr>w_current := f\<rparr>)"

lemma tmr_reaches_ok:
  assumes "tmr_reaches switch w0 w" "tmr_inv w0" "clock_ok w0" "no_waiter w0"
  shows "tmr_inv w \<and> clock_ok w \<and> no_waiter w"
  using assms
proof induction
  case (call w c a w')
  then obtain A where "tmr_ok w A {}" "clock_ok w" "no_waiter w" by (auto simp: tmr_inv_def)
  then have "call_ok switch c w A" using tmr_call_ok call(2) by blast
  then obtain B where r: "tmr_ok w' B {}" "tmr_post c w A a w' B" using call(3) unfolding call_ok_def by auto
  then show ?case using tmr_post_keeps [OF r(2)] call unfolding tmr_inv_def by blast
next
  case (turn w f)
  then have w: "tmr_inv w" "clock_ok w" "no_waiter w" by blast+
  then obtain A where "tmr_ok w A {}" unfolding tmr_inv_def by blast
  from tmr_ok_current [OF this turn(2)] have "tmr_inv (w\<lparr>w_current := f\<rparr>)" unfolding tmr_inv_def by blast
  then show ?case using w(2,3) by (simp add: clock_ok_def no_waiter_def)
qed simp

text \<open>The state before \<^verbatim>\<open>tt_tmr_mgr_init\<close>: fibers, and no timer yet.\<close>

definition no_timers :: "'z world_scheme \<Rightarrow> bool" where
  "no_timers w \<longleftrightarrow> fibers_ok w \<and> list_ok (w_tmrs w) (\<lambda>_. []) \<and> (\<forall>t. \<not> tcell w t) \<and> mem_inv (ls_nodes (w_tmrs w))
     \<and> mem_inv (w_nodes w) \<and> (\<forall>t. w_heap_pos w t = TT_POS_NULL)"

lemmas mgr_init_eval = tt_ptrheap_init_def Let_def tt_tmr_mgr_attr_default_def tt_ptrheap_attr_default_def tt_memspg_init_def
  TT_U32_MUL_WOULD_OVFL_iff

lemma mgr_init_ok:
  assumes "no_timers w" "tt_tmr_mgr_init None w = Inr w0"
  shows "tmr_inv w0" "clock_ok w0 = clock_ok w" "no_waiter w0 = no_waiter w"
proof -
  let ?ph = "\<lparr>g_p = None, g_size = 0, g_mspg = \<lparr>min_extend = 256, max_extend = 2048, max_limit = 0\<rparr>, g_count = 0, g_capacity = 0,
    h_cmp = tmr_cmp (ls_nodes (w_tmrs w))\<rparr> :: nat tt_ptrheap"
  have "tt_ptrheap_init (Some (tmr_cmp (ls_nodes (w_tmrs w)))) (Some tt_tmr_mgr_attr_default) = Inr ?ph"
    by (simp add: mgr_init_eval)
  then have w0: "w0 = w\<lparr>w_heap := ?ph\<rparr>" using assms(2) by (simp add: tt_tmr_mgr_init_def)
  have n: "nodes ?ph m = []" for m by (simp add: arr_items_def)
  have "heap_arr ?ph (w_nodes w)" using assms(1) by (simp add: no_timers_def arr_inv_def arr_cells_def points_to_def memspg_ok_def)
  then have "ph_inv ?ph (w_nodes w) (w_heap_pos w)"
    using tmr_cmp_order n by (simp add: ph_inv_def tracks_def cmp_order.heap_def [OF tmr_cmp_order])
  moreover have "tmr_heap w0 = ?ph" "heap_tmrs w0 = []" using n by (simp_all add: w0 tmr_heap_def heap_tmrs_def)
  ultimately have "heap_ok w0" using assms(1) n unfolding heap_ok_def by (simp add: w0 no_timers_def)
  moreover have "fibers_ok w0" "tmrs_ok w0 (\<lambda>_. []) {}" using assms(1) \<open>heap_tmrs w0 = []\<close> by (simp_all add: w0 no_timers_def fibers_ok_def tmrs_ok_def)
  ultimately show "tmr_inv w0" unfolding tmr_inv_def tmr_ok_def by blast
  show "clock_ok w0 = clock_ok w" "no_waiter w0 = no_waiter w" by (simp_all add: w0 clock_ok_def no_waiter_def)
qed

definition solo_world :: world where
  "solo_world = duo_world\<lparr>w_tmrs := \<lparr>ls_lists = (\<lambda>l. if l = Unexpired 0 \<or> l = Expired 0 then Some \<lparr>ls_head = None, ls_tail = None, ls_count = 0\<rparr> else None),
     ls_nodes = \<lparr>mem_blocks = Map.empty, mem_heap = {}, mem_next = 0, mem_oracle = (\<lambda>_. True), mem_junk = (\<lambda>_ _. duo_tmr None None 0 0)\<rparr>\<rparr>,
     w_heap_pos := (\<lambda>_. TT_POS_NULL)\<rparr>"

lemma solo_no_timers: "no_timers solo_world"
proof -
  have "mem_inv (w_nodes solo_world)" by (simp add: solo_world_def duo_world_def mem_inv_def)
  moreover have "fibers_ok solo_world" using duo_fibers_ok by (auto simp: fibers_ok_def solo_world_def split: if_splits)
  moreover have "list_ok (w_tmrs solo_world) (\<lambda>_. [])" by (auto simp: list_ok_def solo_world_def cell_def final_def)
  moreover have "\<not> tcell solo_world t" for t by (simp add: solo_world_def cell_def)
  moreover have "mem_inv (ls_nodes (w_tmrs solo_world))" "w_heap_pos solo_world t = TT_POS_NULL" for t by (simp_all add: solo_world_def mem_inv_def)
  ultimately show ?thesis by (simp add: no_timers_def)
qed

lemma solo_clock: "clock_ok solo_world"
  using duo_clock by (simp add: clock_ok_def solo_world_def)

lemma solo_no_waiter: "no_waiter solo_world"
  using duo_no_waiter by (simp add: no_waiter_def solo_world_def)

text \<open>
  C27: Fibers that take turns to create, start, stop, change, receive and destroy timers and to run the manager, in any
  order, keep timers, fibers and heap consistent from \<^verbatim>\<open>tt_tmr_mgr_init\<close> on: each timer in the heap exists and knows
  its place, each active one is in the list of unexpired timers of its owner, and a destroyed one is in no list and
  waits in the heap to be freed. It is assumed that the fibers ask for timers without waiting, so that none is blocked
  in a receive and the manager resumes no other code, and that the clock reads positive times of 64 bits. Every call
  whose needs are met then returns, with no failed assertion, no undefined behaviour and no endless loop, gives the
  right answer, does to its timer and to the lists of timers what it is meant to, and nothing to the other timers: a
  timer is created exactly when the allocator grants its memory, starting fails exactly when the heap has no room and
  gets none, receiving takes the first of the expired timers, and running the manager moves every due timer to the end
  of the expired timers of its owner, in the order of the times and none too early, and tells how long to wait. The
  needs are that the timer was not destroyed, that a timer is started only after its last expiry was received, that its
  time fits 64 bits, that the heap holds fewer than \<open>2 ^ 28\<close> timers, and that the fiber has lists of timers.
\<close>
theorem timer_calls_safe:
  assumes "no_timers w" "clock_ok w" "no_waiter w" "tt_tmr_mgr_init None w = Inr w0" "tmr_reaches switch w0 w1"
  shows "tmr_inv w1 \<and> (\<forall>A c. tmr_ok w1 A {} \<and> tmr_allowed c w1 \<longrightarrow>
    (\<exists>a w2 B. tmr_call_step switch c w1 = Inr (a, w2) \<and> tmr_ok w2 B {} \<and> tmr_post c w1 A a w2 B))"
proof -
  have "tmr_inv w0" "clock_ok w0" "no_waiter w0" using mgr_init_ok [OF assms(1,4)] assms(2,3) by simp_all
  then have i: "tmr_inv w1" "clock_ok w1" "no_waiter w1" using tmr_reaches_ok [OF assms(5)] by blast+
  then show ?thesis using tmr_call_ok [OF _ i(2,3)] unfolding call_ok_def by blast
qed

theorem timer_calls_safe_witness:
  "\<exists>w0 t w1. tt_tmr_mgr_init None solo_world = Inr w0 \<and> tmr_call_step (\<lambda>_ _ w. Inl Undef) (TmrCreate 10 7 None) w0 = Inr (TmrGot (Some t), w1)
     \<and> tmr_inv w1 \<and> t_owner (tmr w1 t) = 0 \<and> (\<exists>d w2. tmr_call_step (\<lambda>_ _ w. Inl Undef) TmrRun w1 = Inr (TmrWait d, w2))"
proof -
  let ?sw = "\<lambda>_ _ w. Inl Undef :: world run" and ?c = "TmrCreate 10 7 None"
  have "\<exists>w0. tt_tmr_mgr_init None solo_world = Inr w0 \<and> w_current w0 = 0 \<and> w_tmrs w0 = w_tmrs solo_world"
    by (simp add: tt_tmr_mgr_init_def mgr_init_eval) (simp add: solo_world_def)
  then obtain w0 where w0: "tt_tmr_mgr_init None solo_world = Inr w0" "w_current w0 = 0" "w_tmrs w0 = w_tmrs solo_world" by blast
  note safe = timer_calls_safe [OF solo_no_timers solo_clock solo_no_waiter w0(1)]
  have a: "tmr_allowed ?c w0" using w0(2,3) by (simp add: solo_world_def)
  have "tmr_inv w0" using safe [OF tmr_reaches.here] by blast
  then obtain A where A: "tmr_ok w0 A {}" unfolding tmr_inv_def by blast
  with safe [OF tmr_reaches.here] a obtain r w1 B where
    w1: "tmr_call_step ?sw ?c w0 = Inr (r, w1)" "tmr_ok w1 B {}" "tmr_post ?c w0 A r w1 B" by blast
  have "mem_oracle (ls_nodes (w_tmrs w0)) n" for n unfolding w0(3) by (simp add: solo_world_def)
  then obtain t where t: "r = TmrGot (Some t)" "t_owner (tmr w1 t) = 0" using w1(3) w0(2) by auto
  have "tmr_reaches ?sw w0 w1" using tmr_reaches.call [OF tmr_reaches.here a w1(1)] .
  from safe [OF this] w1(2) obtain b w2 C where "tmr_call_step ?sw TmrRun w1 = Inr (b, w2)" "tmr_post TmrRun w1 B b w2 C"
    using tmr_allowed.simps(9) by blast
  moreover from this(2) obtain d where "b = TmrWait d" by auto
  moreover have "tmr_inv w1" using w1(2) unfolding tmr_inv_def by blast
  ultimately show ?thesis using w0(1) w1(1) t by blast
qed

end
