(* ===== verification/TT_String.thy ===== *)
theory TT_String
  imports TT_Buffer_Common TT_Buffer_Format
begin

text \<open>
  Strings: \<^verbatim>\<open>algorithm/tt_string.c\<close>, \<^verbatim>\<open>algorithm/tt_string.h\<close>, \<^verbatim>\<open>algorithm/tt_string_common.c\<close> and its header. A
  string is a byte buffer whose readable bytes end with a null. A C string passed in is given by its characters before
  the null and lies outside the string's own storage; characters are bytes, and a signed char is read with \<open>sint\<close>.
\<close>

section \<open>The C library\<close>

text \<open>The characters from an offset of a block up to the null.\<close>

definition cstr_load :: "bmem \<Rightarrow> ptr \<Rightarrow> nat \<Rightarrow> u8 list run" where
  "cstr_load m p off =
    (case p of None \<Rightarrow> Inl Undef
     | Some i \<Rightarrow>
       (case mem_blocks m i of None \<Rightarrow> Inl Undef
        | Some cs \<Rightarrow> if 0 \<in> set (drop off cs) then Inr (takeWhile (\<lambda>c. c \<noteq> 0) (drop off cs)) else Inl Undef))"

definition tt_strlen :: "u8 list \<Rightarrow> u32" where "tt_strlen cstr = of_nat (length cstr)"

fun tt_strstr :: "u8 list \<Rightarrow> u8 list \<Rightarrow> nat option" where
  "tt_strstr [] ys = (if ys = [] then Some 0 else None)"
| "tt_strstr (x # xs) ys = (if take (length ys) (x # xs) = ys then Some 0 else map_option Suc (tt_strstr xs ys))"

text \<open>The terminating null counts as a character.\<close>

fun tt_strchr :: "u8 list \<Rightarrow> u8 \<Rightarrow> nat option" where
  "tt_strchr [] c = (if c = 0 then Some 0 else None)"
| "tt_strchr (x # xs) c = (if x = c then Some 0 else map_option Suc (tt_strchr xs c))"

fun tt_strrchr :: "u8 list \<Rightarrow> u8 \<Rightarrow> nat option" where
  "tt_strrchr [] c = (if c = 0 then Some 0 else None)"
| "tt_strrchr (x # xs) c = (case tt_strrchr xs c of Some i \<Rightarrow> Some (Suc i) | None \<Rightarrow> if x = c then Some 0 else None)"

fun tt_strncmp :: "u8 list \<Rightarrow> u8 list \<Rightarrow> nat \<Rightarrow> int" where
  "tt_strncmp xs ys 0 = 0"
| "tt_strncmp [] [] (Suc n) = 0"
| "tt_strncmp [] (y # ys) (Suc n) = - 1"
| "tt_strncmp (x # xs) [] (Suc n) = 1"
| "tt_strncmp (x # xs) (y # ys) (Suc n) = (if x < y then - 1 else if y < x then 1 else tt_strncmp xs ys n)"

definition tt_strcmp :: "u8 list \<Rightarrow> u8 list \<Rightarrow> int" where
  "tt_strcmp xs ys = tt_strncmp xs ys (Suc (max (length xs) (length ys)))"

fun tt_memicmp :: "u8 list \<Rightarrow> u8 list \<Rightarrow> int" where
  "tt_memicmp (c1 # xs) (c2 # ys) =
    (if c1 = c2 then tt_memicmp xs ys
     else if sint c1 + - 32 = sint c2 \<or> sint c2 + - 32 = sint c1 then tt_memicmp xs ys
     else sint c1 - sint c2)"
| "tt_memicmp xs ys = 0"

definition tt_tolower :: "u8 \<Rightarrow> u8" where "tt_tolower c = (if 65 \<le> c \<and> c \<le> 90 then c + 32 else c)"

definition tt_toupper :: "u8 \<Rightarrow> u8" where "tt_toupper c = (if 97 \<le> c \<and> c \<le> 122 then c - 32 else c)"

section \<open>Creation\<close>

definition tt_string_attr_default :: tt_buf_attr where "tt_string_attr_default = tt_buf_attr_default"

definition string_attr :: "tt_buf_attr option \<Rightarrow> tt_buf_attr" where
  "string_attr attr = (case attr of None \<Rightarrow> tt_string_attr_default | Some a \<Rightarrow> a)"

definition tt_string_create :: "tt_buf \<Rightarrow> u8 list \<Rightarrow> tt_buf_attr option \<Rightarrow> bmem \<Rightarrow> buf_out" where
  "tt_string_create str cstr attr m =
    (let n = tt_strlen cstr in
     bindr (tt_buf_create_copy str (Some (cstr @ [0])) (n + 1) (Some (string_attr attr)) m) (\<lambda>(r, str, m).
     if \<not> TT_OK r then Inr (TT_FAIL, str, m) else Inr (TT_SUCCESS, str, m)))"

definition tt_string_create_sub :: "tt_buf \<Rightarrow> u8 list \<Rightarrow> u32 \<Rightarrow> u32 \<Rightarrow> tt_buf_attr option \<Rightarrow> bmem \<Rightarrow> buf_out" where
  "tt_string_create_sub str cstr from len attr m =
    (let n = tt_strlen cstr in
     if from > n then Inr (TT_FAIL, str, m)
     else
       let len = (if from + len > n then n - from else len) in
       bindr (tt_buf_create_copy str (Some (drop (unat from) (cstr @ [0]))) len (Some (string_attr attr)) m) (\<lambda>(r, str, m).
       if \<not> TT_OK r then Inr (TT_FAIL, str, m)
       else
         bindr (tt_buf_put_u8 0 str m) (\<lambda>(r, str, m).
         if \<not> TT_OK r then bindr (tt_buf_destroy str m) (\<lambda>(str, m). Inr (TT_FAIL, str, m))
         else Inr (TT_SUCCESS, str, m))))"

definition tt_string_create_nocopy :: "tt_buf \<Rightarrow> ptr \<Rightarrow> tt_buf_attr option \<Rightarrow> bmem \<Rightarrow> buf_out" where
  "tt_string_create_nocopy str p attr m =
    bindr (cstr_load m p 0) (\<lambda>cstr.
    let n = tt_strlen cstr in tt_buf_create_nocopy str p (n + 1) (Some (string_attr attr)) m)"

definition tt_string_init :: "tt_buf \<Rightarrow> tt_buf_attr option \<Rightarrow> bmem \<Rightarrow> (tt_buf \<times> bmem) run" where
  "tt_string_init str attr m = bindr (tt_string_create str [] attr m) (\<lambda>(r, str, m). Inr (str, m))"

definition tt_string_destroy :: "tt_buf \<Rightarrow> bmem \<Rightarrow> (tt_buf \<times> bmem) run" where
  "tt_string_destroy str m = tt_buf_destroy str m"

section \<open>Length and parts\<close>

definition tt_string_len :: "tt_buf \<Rightarrow> u32" where "tt_string_len str = TT_BUF_RLEN str - 1"

definition tt_string_empty :: "tt_buf \<Rightarrow> bool" where "tt_string_empty str \<longleftrightarrow> TT_BUF_RLEN str = 1"

text \<open>An address in the storage is its offset there.\<close>

definition tt_string_cstr :: "tt_buf \<Rightarrow> nat" where "tt_string_cstr str = unat (buf_rpos str)"

definition tt_string_subcstr :: "tt_buf \<Rightarrow> u32 \<Rightarrow> nat option \<times> u32" where
  "tt_string_subcstr str from =
    (let len = tt_string_len str in
     if from \<le> len then (Some (unat (buf_rpos str) + unat from), len - from) else (None, 0))"

definition tt_string_backup_rwp :: "tt_buf \<Rightarrow> u32 \<times> u32" where "tt_string_backup_rwp str = tt_buf_backup_rwp str"

definition tt_string_restore_rwp :: "u32 \<Rightarrow> u32 \<Rightarrow> tt_buf \<Rightarrow> tt_buf" where
  "tt_string_restore_rwp rpos wpos str = tt_buf_restore_rwp rpos wpos str"

section \<open>Setting\<close>

definition tt_string_set :: "u8 list \<Rightarrow> tt_buf \<Rightarrow> bmem \<Rightarrow> buf_out" where
  "tt_string_set cstr str m = tt_buf_put (Some (cstr @ [0])) (tt_strlen cstr + 1) (tt_buf_clear str) m"

definition tt_string_set_sub :: "u8 list \<Rightarrow> u32 \<Rightarrow> u32 \<Rightarrow> tt_buf \<Rightarrow> bmem \<Rightarrow> buf_out" where
  "tt_string_set_sub cstr from len str m =
    (let n = tt_strlen cstr in
     if from > n then Inr (TT_FAIL, str, m)
     else
       let len = (if from + len > n then n - from else len) in
       TT_DO (tt_buf_put (Some (drop (unat from) (cstr @ [0]))) len (tt_buf_clear str) m) (\<lambda>(str, m).
       TT_DO (tt_buf_put_u8 0 str m) (\<lambda>(str, m). Inr (TT_SUCCESS, str, m))))"

definition tt_string_setfrom :: "u32 \<Rightarrow> u8 list \<Rightarrow> tt_buf \<Rightarrow> bmem \<Rightarrow> buf_out" where
  "tt_string_setfrom from cstr str m =
    (let len = tt_string_len str in
     if from > len then Inr (TT_FAIL, str, m)
     else tt_buf_put (Some (cstr @ [0])) (tt_strlen cstr + 1) (str\<lparr>buf_wpos := buf_rpos str + from\<rparr>) m)"

definition tt_string_setfrom_c :: "u32 \<Rightarrow> u8 \<Rightarrow> tt_buf \<Rightarrow> bmem \<Rightarrow> buf_out" where
  "tt_string_setfrom_c from c str m =
    (if from \<ge> tt_string_len str then Inr (TT_FAIL, str, m)
     else bindr (mem_store 1 m (buf_p str) (unat (buf_rpos str) + unat from) [c]) (\<lambda>m. Inr (TT_SUCCESS, str, m)))"

definition tt_string_set_range :: "u32 \<Rightarrow> u32 \<Rightarrow> u8 list \<Rightarrow> tt_buf \<Rightarrow> bmem \<Rightarrow> buf_out" where
  "tt_string_set_range from len cstr str m =
    (let n = tt_string_len str in
     if from + len > n then Inr (TT_E_BADARG, str, m)
     else tt_buf_set_range from len cstr (tt_strlen cstr) str m)"

definition tt_string_clear :: "tt_buf \<Rightarrow> bmem \<Rightarrow> (tt_buf \<times> bmem) run" where
  "tt_string_clear str m =
    (if buf_readonly str then Inr (str, m)
     else
       bindr (TT_ASSERT (buf_size str > 0)) (\<lambda>_.
       let str = str\<lparr>buf_rpos := 0, buf_wpos := 1\<rparr> in
       bindr (mem_store 1 m (buf_p str) 0 [0]) (\<lambda>m. Inr (str, m))))"

section \<open>Comparing\<close>

definition tt_string_getchar :: "tt_buf \<Rightarrow> u32 \<Rightarrow> bmem \<Rightarrow> u8 run" where
  "tt_string_getchar s pos m =
    (let len = TT_BUF_RLEN s in
     if pos < len then bindr (mem_load 1 m (buf_p s) (unat (buf_rpos s) + unat pos) 1) (\<lambda>vs. Inr (hd vs)) else Inr 0)"

definition tt_string_cmp :: "tt_buf \<Rightarrow> u8 list \<Rightarrow> bmem \<Rightarrow> int run" where
  "tt_string_cmp a b m = bindr (cstr_load m (buf_p a) (tt_string_cstr a)) (\<lambda>x. Inr (tt_strcmp x b))"

definition tt_string_equal_range :: "tt_buf \<Rightarrow> u8 list \<Rightarrow> u32 \<Rightarrow> u32 \<Rightarrow> bmem \<Rightarrow> bool run" where
  "tt_string_equal_range a b from len m =
    (let a_len = tt_string_len a in
     if from > a_len \<or> from + len > a_len then Inr False
     else
       let b_len = tt_strlen b in
       if from > b_len \<or> from + len > b_len then Inr False
       else
         bindr (mem_load 1 m (buf_p a) (tt_string_cstr a + unat from) (unat len)) (\<lambda>x.
         bindr (src_bytes (drop (unat from) (b @ [0])) len) (\<lambda>y. Inr (tt_memcmp x y = 0))))"

definition tt_string_ncasecmp :: "tt_buf \<Rightarrow> u8 list \<Rightarrow> bmem \<Rightarrow> int run" where
  "tt_string_ncasecmp a b m =
    (let a_len = TT_BUF_RLEN a; b_len = tt_strlen b + 1 in
     if a_len \<noteq> b_len \<or> a_len = 0 then Inr (sint (a_len - b_len))
     else
       bindr (mem_load 1 m (buf_p a) (unat (buf_rpos a)) (unat a_len)) (\<lambda>x.
       bindr (src_bytes (b @ [0]) a_len) (\<lambda>y. Inr (tt_memicmp x y))))"

definition tt_string_startwith :: "tt_buf \<Rightarrow> u8 list \<Rightarrow> bmem \<Rightarrow> bool run" where
  "tt_string_startwith s substr m =
    (let n = tt_strlen substr in
     if n = 0 then Inr True
     else if tt_string_len s < n then Inr False
     else bindr (cstr_load m (buf_p s) (tt_string_cstr s)) (\<lambda>x. Inr (tt_strncmp x substr (unat n) = 0)))"

definition tt_string_endwith :: "tt_buf \<Rightarrow> u8 list \<Rightarrow> bmem \<Rightarrow> bool run" where
  "tt_string_endwith s substr m =
    (let s_len = tt_string_len s; n = tt_strlen substr in
     if n = 0 then Inr True
     else if s_len < n then Inr False
     else
       bindr (cstr_load m (buf_p s) (tt_string_cstr s + unat s_len - unat n)) (\<lambda>x. Inr (tt_strncmp x substr (unat n) = 0)))"

end
