(* ===== verification/TT_String_Ops.thy ===== *)
theory TT_String_Ops
  imports TT_String
begin

text \<open>
  Strings, continued: searching and editing, \<^verbatim>\<open>algorithm/tt_string_common.c\<close> from \<^verbatim>\<open>tt_string_copy\<close> on.
\<close>

section \<open>Two strings\<close>

definition tt_string_copy :: "tt_buf \<Rightarrow> tt_buf \<Rightarrow> bmem \<Rightarrow> buf_out" where
  "tt_string_copy dst src m = tt_buf_copy dst src m"

definition tt_string_swap :: "tt_buf \<Rightarrow> tt_buf \<Rightarrow> bmem \<Rightarrow> (tt_buf \<times> tt_buf \<times> bmem) run" where
  "tt_string_swap a b m = tt_buf_swap a b m"

definition tt_string_substr :: "tt_buf \<Rightarrow> u32 \<Rightarrow> u32 \<Rightarrow> tt_buf \<Rightarrow> bmem \<Rightarrow> buf_out" where
  "tt_string_substr s from len substr m =
    (case tt_string_subcstr s from of
       (None, n) \<Rightarrow> Inr (TT_FAIL, substr, m)
     | (Some p, n) \<Rightarrow>
         let len = (if len > n then n else len) in
         bindr (mem_load 1 m (buf_p s) p (unat len)) (\<lambda>vs.
         TT_DO (tt_buf_put (Some vs) len (tt_buf_clear substr) m) (\<lambda>(substr, m).
         TT_DO (tt_buf_put_u8 0 substr m) (\<lambda>(substr, m). Inr (TT_SUCCESS, substr, m)))))"

section \<open>Searching\<close>

text \<open>The end of the searches: the address found, as an offset from \<open>off\<close>, lies in the string.\<close>

definition found_at :: "tt_buf \<Rightarrow> nat \<Rightarrow> nat option \<Rightarrow> u32 run" where
  "found_at s off pos =
    (case pos of None \<Rightarrow> Inr TT_POS_NULL
     | Some i \<Rightarrow>
       bindr (TT_ASSERT (unat (buf_rpos s) \<le> off + i \<and> off + i \<le> unat (buf_wpos s))) (\<lambda>_.
       Inr (of_nat (off + i - unat (buf_rpos s)))))"

definition tt_string_find :: "tt_buf \<Rightarrow> u8 list \<Rightarrow> bmem \<Rightarrow> u32 run" where
  "tt_string_find s substr m =
    (if substr = [] then Inr 0
     else bindr (cstr_load m (buf_p s) (tt_string_cstr s)) (\<lambda>x. found_at s (tt_string_cstr s) (tt_strstr x substr)))"

definition tt_string_findfrom :: "tt_buf \<Rightarrow> u32 \<Rightarrow> u8 list \<Rightarrow> bmem \<Rightarrow> u32 run" where
  "tt_string_findfrom s from substr m =
    (case fst (tt_string_subcstr s from) of
       None \<Rightarrow> Inr TT_POS_NULL
     | Some off \<Rightarrow>
         if substr = [] then found_at s off (Some 0)
         else bindr (cstr_load m (buf_p s) off) (\<lambda>x. found_at s off (tt_strstr x substr)))"

definition tt_string_find_c :: "tt_buf \<Rightarrow> u8 \<Rightarrow> bmem \<Rightarrow> u32 run" where
  "tt_string_find_c s c m =
    bindr (cstr_load m (buf_p s) (tt_string_cstr s)) (\<lambda>x. found_at s (tt_string_cstr s) (tt_strchr x c))"

definition tt_string_findfrom_c :: "tt_buf \<Rightarrow> u32 \<Rightarrow> u8 \<Rightarrow> bmem \<Rightarrow> u32 run" where
  "tt_string_findfrom_c s from c m =
    (case fst (tt_string_subcstr s from) of
       None \<Rightarrow> Inr TT_POS_NULL
     | Some off \<Rightarrow> bindr (cstr_load m (buf_p s) off) (\<lambda>x. found_at s off (tt_strchr x c)))"

definition tt_string_rfind_c :: "tt_buf \<Rightarrow> u8 \<Rightarrow> bmem \<Rightarrow> u32 run" where
  "tt_string_rfind_c s c m =
    bindr (cstr_load m (buf_p s) (tt_string_cstr s)) (\<lambda>x. found_at s (tt_string_cstr s) (tt_strrchr x c))"

text \<open>The loop ends when \<^verbatim>\<open>--from\<close> wraps to \<^verbatim>\<open>~0\<close>.\<close>

function rfind_loop :: "tt_buf \<Rightarrow> u32 \<Rightarrow> u8 \<Rightarrow> bmem \<Rightarrow> u32 run" where
  "rfind_loop s from c m =
    (if from = 0 then Inr TT_POS_NULL
     else
       bindr (mem_load 1 m (buf_p s) (tt_string_cstr s + unat (from - 1)) 1) (\<lambda>vs.
       if hd vs = c then Inr (from - 1) else rfind_loop s (from - 1) c m))"
  by pat_completeness auto
termination by (relation "measure (\<lambda>(s, from, c, m). unat from)") (auto simp: unat_gt_0 unat_minus_one)

declare rfind_loop.simps [simp del]

definition tt_string_rfindfrom_c :: "tt_buf \<Rightarrow> u32 \<Rightarrow> u8 \<Rightarrow> bmem \<Rightarrow> u32 run" where
  "tt_string_rfindfrom_c s from c m =
    (let n = tt_string_len s; from = (if from > n then n else from) in rfind_loop s from c m)"

section \<open>Removing\<close>

definition tt_string_remove_range :: "u32 \<Rightarrow> u32 \<Rightarrow> tt_buf \<Rightarrow> bmem \<Rightarrow> (tt_buf \<times> bmem) run" where
  "tt_string_remove_range from len s m =
    (let n = tt_string_len s in
     if from \<ge> n then Inr (s, m)
     else
       let len = (if from + len \<ge> n then n - from else len) in
       tt_buf_remove_range from (from + len) s m)"

definition tt_string_remove_headto :: "u32 \<Rightarrow> tt_buf \<Rightarrow> tt_buf" where
  "tt_string_remove_headto to s =
    (let n = tt_string_len s; to = (if to \<ge> n then n else to) in tt_buf_remove_headto to s)"

definition tt_string_remove_head :: "u32 \<Rightarrow> tt_buf \<Rightarrow> tt_buf" where
  "tt_string_remove_head len s = tt_string_remove_headto len s"

definition tt_string_remove_tailfrom :: "u32 \<Rightarrow> tt_buf \<Rightarrow> bmem \<Rightarrow> (tt_buf \<times> bmem) run" where
  "tt_string_remove_tailfrom from s m =
    (let n = tt_string_len s in
     if from \<ge> n then Inr (s, m)
     else bindr (tt_buf_put_u8 0 (tt_buf_remove_tailfrom from s) m) (\<lambda>(_, s, m). Inr (s, m)))"

definition tt_string_remove_tail :: "u32 \<Rightarrow> tt_buf \<Rightarrow> bmem \<Rightarrow> (tt_buf \<times> bmem) run" where
  "tt_string_remove_tail len s m =
    (let n = tt_string_len s in tt_string_remove_tailfrom (if len \<le> n then n - len else 0) s m)"

section \<open>Appending\<close>

definition tt_string_append :: "u8 list \<Rightarrow> tt_buf \<Rightarrow> bmem \<Rightarrow> buf_out" where
  "tt_string_append substr s m =
    bindr (TT_ASSERT (buf_wpos s > 0)) (\<lambda>_.
    bindr (tt_buf_put (Some (substr @ [0])) (tt_strlen substr + 1) (s\<lparr>buf_wpos := buf_wpos s - 1\<rparr>) m) (\<lambda>(r, s, m).
    if TT_OK r then Inr (TT_SUCCESS, s, m) else Inr (TT_FAIL, s\<lparr>buf_wpos := buf_wpos s + 1\<rparr>, m)))"

definition tt_string_append_c :: "u8 \<Rightarrow> tt_buf \<Rightarrow> bmem \<Rightarrow> buf_out" where
  "tt_string_append_c c s m =
    (if c = 0 then Inr (TT_SUCCESS, s, m)
     else
       TT_DO (tt_buf_reserve 1 s m) (\<lambda>(s, m).
       bindr (TT_ASSERT (buf_wpos s > 0)) (\<lambda>_.
       bindr (mem_store 1 m (buf_p s) (unat (buf_wpos s - 1)) [c]) (\<lambda>m.
       bindr (mem_store 1 m (buf_p s) (unat (buf_wpos s)) [0]) (\<lambda>m.
       Inr (TT_SUCCESS, s\<lparr>buf_wpos := buf_wpos s + 1\<rparr>, m))))))"

definition tt_string_append_rep :: "u8 \<Rightarrow> u32 \<Rightarrow> tt_buf \<Rightarrow> bmem \<Rightarrow> buf_out" where
  "tt_string_append_rep c c_num s m =
    (if c = 0 then Inr (TT_SUCCESS, s, m)
     else
       bindr (TT_ASSERT (buf_wpos s > 0)) (\<lambda>_.
       TT_DO (tt_buf_put_rep c c_num (s\<lparr>buf_wpos := buf_wpos s - 1\<rparr>) m) (\<lambda>(s, m).
       TT_DO (tt_buf_put_u8 0 s m) (\<lambda>(s, m). Inr (TT_SUCCESS, s, m)))))"

definition tt_string_append_sub :: "u8 list \<Rightarrow> u32 \<Rightarrow> u32 \<Rightarrow> tt_buf \<Rightarrow> bmem \<Rightarrow> buf_out" where
  "tt_string_append_sub substr from len s m =
    (let n = tt_strlen substr in
     if from > n then Inr (TT_FAIL, s, m)
     else
       let len = (if from + len > n then n - from else len) in
       bindr (TT_ASSERT (buf_wpos s > 0)) (\<lambda>_.
       TT_DO (tt_buf_put (Some (drop (unat from) (substr @ [0]))) len (s\<lparr>buf_wpos := buf_wpos s - 1\<rparr>) m) (\<lambda>(s, m).
       TT_DO (tt_buf_put_u8 0 s m) (\<lambda>(s, m). Inr (TT_SUCCESS, s, m)))))"

text \<open>\<open>txt\<close> is what the format and its arguments print.\<close>

definition tt_string_append_f :: "u8 list \<Rightarrow> tt_buf \<Rightarrow> bmem \<Rightarrow> buf_out" where
  "tt_string_append_f txt s m =
    bindr (TT_ASSERT (buf_wpos s > 0)) (\<lambda>_.
    bindr (tt_buf_putv txt (s\<lparr>buf_wpos := buf_wpos s - 1\<rparr>) m) (\<lambda>(_, s, m).
    TT_DO (tt_buf_put_u8 0 s m) (\<lambda>(s, m). Inr (TT_SUCCESS, s, m))))"

section \<open>Changing\<close>

text \<open>The loops over the characters up to the null, which read and write each place once.\<close>

definition tt_string_replace_c :: "u8 \<Rightarrow> u8 \<Rightarrow> tt_buf \<Rightarrow> bmem \<Rightarrow> (int \<times> bmem) run" where
  "tt_string_replace_c oldchar newchar s m =
    bindr (cstr_load m (buf_p s) (tt_string_cstr s)) (\<lambda>x.
    let n = length (filter (\<lambda>c. c = oldchar) x) in
    bindr (mem_store 1 m (buf_p s) (tt_string_cstr s) (map (\<lambda>c. if c = oldchar then newchar else c) x)) (\<lambda>m.
    if n < 2 ^ 31 then Inr (int n, m) else Inl Undef))"

definition tt_string_tolower :: "tt_buf \<Rightarrow> bmem \<Rightarrow> bmem run" where
  "tt_string_tolower s m =
    (if buf_readonly s then Inr m
     else
       bindr (cstr_load m (buf_p s) (tt_string_cstr s)) (\<lambda>x.
       mem_store 1 m (buf_p s) (tt_string_cstr s) (map tt_tolower x)))"

definition tt_string_toupper :: "tt_buf \<Rightarrow> bmem \<Rightarrow> bmem run" where
  "tt_string_toupper s m =
    (if buf_readonly s then Inr m
     else
       bindr (cstr_load m (buf_p s) (tt_string_cstr s)) (\<lambda>x.
       mem_store 1 m (buf_p s) (tt_string_cstr s) (map tt_toupper x)))"

text \<open>\<^verbatim>\<open>begin\<close> and \<^verbatim>\<open>end\<close> of \<^verbatim>\<open>tt_string_trim\<close> as offsets from \<^verbatim>\<open>p\<close>; \<open>x\<close> holds the characters from \<^verbatim>\<open>p\<close> up to the null.\<close>

fun str_trim_end :: "u8 list \<Rightarrow> nat \<Rightarrow> nat \<Rightarrow> nat" where
  "str_trim_end x b 0 = 0"
| "str_trim_end x b (Suc e) = (if b < Suc e \<and> x ! Suc e = 32 then str_trim_end x b e else Suc e)"

definition tt_string_trim :: "tt_buf \<Rightarrow> bmem \<Rightarrow> (tt_buf \<times> bmem) run" where
  "tt_string_trim s m =
    (if buf_readonly s then Inr (s, m)
     else
       let len = tt_string_len s in
       if len = 0 then Inr (s, m)
       else
         let p = tt_string_cstr s in
         bindr (cstr_load m (buf_p s) p) (\<lambda>z.
         bindr (mem_load 1 m (buf_p s) p (unat len)) (\<lambda>x.
         let b = length (takeWhile (\<lambda>c. c = 32) z); e = str_trim_end x b (unat len - 1);
             len = of_int (int e - int b + 1) :: u32 in
         bindr (if b \<noteq> 0 then tt_memmove 1 m (buf_p s) p (buf_p s) (p + b) (unat len) else Inr m) (\<lambda>m.
         bindr (mem_store 1 m (buf_p s) (p + unat len) [0]) (\<lambda>m.
         Inr (s\<lparr>buf_wpos := buf_rpos s + (len + 1)\<rparr>, m))))))"

section \<open>Inserting\<close>

definition tt_string_insert :: "u32 \<Rightarrow> u8 list \<Rightarrow> tt_buf \<Rightarrow> bmem \<Rightarrow> buf_out" where
  "tt_string_insert from substr s m =
    (let n = tt_string_len s; from = (if from \<ge> n then n else from) in
     TT_DO (tt_buf_insert from substr (tt_strlen substr) s m) (\<lambda>(s, m). Inr (TT_SUCCESS, s, m)))"

definition tt_string_insert_c :: "u32 \<Rightarrow> u8 \<Rightarrow> tt_buf \<Rightarrow> bmem \<Rightarrow> buf_out" where
  "tt_string_insert_c from c s m =
    (if c = 0 then Inr (TT_FAIL, s, m)
     else
       let n = tt_string_len s; from = (if from \<ge> n then n else from) in
       TT_DO (tt_buf_insert from [c] 1 s m) (\<lambda>(s, m). Inr (TT_SUCCESS, s, m)))"

end
