(* ===== verification/TT_String_Inv.thy ===== *)
theory TT_String_Inv
  imports TT_String_Ops TT_Buffer_Codec
begin

text \<open>
  The invariant of strings, that the readable bytes are the characters and one null, and what the operations on the
  buffer do to it.
\<close>

section \<open>The invariant\<close>

definition str_ok :: "tt_buf \<Rightarrow> bmem \<Rightarrow> u8 list \<Rightarrow> bool" where
  "str_ok s m xs \<longleftrightarrow> buf_inv s m \<and> \<not> buf_readonly s \<and> buf_data s m = xs @ [0] \<and> 0 \<notin> set xs"

lemma str_okD:
  assumes "str_ok s m xs"
  shows "buf_inv s m" "\<not> buf_readonly s" "buf_data s m = xs @ [0]" "0 \<notin> set xs" "unat (TT_BUF_RLEN s) = Suc (length xs)"
    "unat (buf_wpos s) = unat (buf_rpos s) + Suc (length xs)" "Suc (length xs) < 2 ^ 32" "unat (tt_string_len s) = length xs"
    "tt_string_len s = of_nat (length xs)"
proof -
  show i: "buf_inv s m" "\<not> buf_readonly s" "buf_data s m = xs @ [0]" "0 \<notin> set xs" using assms by (simp_all add: str_ok_def)
  show r: "unat (TT_BUF_RLEN s) = Suc (length xs)" using length_buf_data [OF i(1)] i(3) by simp
  then show "unat (buf_wpos s) = unat (buf_rpos s) + Suc (length xs)" using buf_rlen [OF i(1)] buf_inv_pos [OF i(1)] by simp
  show "Suc (length xs) < 2 ^ 32" using r unat_lt_32 [of "TT_BUF_RLEN s"] by simp
  have "TT_BUF_RLEN s \<noteq> 0" using r by auto
  then show l: "unat (tt_string_len s) = length xs" using r by (simp add: tt_string_len_def unat_minus_one)
  then show "tt_string_len s = of_nat (length xs)" by (metis ucast_id of_nat_unat)
qed

lemma buf_cells_parts:
  assumes "buf_inv s m"
  shows "\<exists>post. buf_cells s m = take (unat (buf_rpos s)) (buf_cells s m) @ buf_data s m @ post"
    "length (take (unat (buf_rpos s)) (buf_cells s m)) = unat (buf_rpos s)"
proof -
  let ?r = "unat (buf_rpos s)" and ?w = "unat (buf_wpos s)" and ?cs = "buf_cells s m"
  have "?cs = take ?r ?cs @ take (?w - ?r) (drop ?r ?cs) @ drop (?w - ?r) (drop ?r ?cs)" by (simp only: append_take_drop_id)
  then show "\<exists>post. ?cs = take ?r ?cs @ buf_data s m @ post" unfolding buf_data_def by blast
  show "length (take ?r ?cs) = ?r" using buf_inv_pos [OF assms] by simp
qed

lemma takeWhile_null: "0 \<notin> set xs \<Longrightarrow> takeWhile (\<lambda>c. c \<noteq> 0) (xs @ 0 # ys) = xs"
  by (induction xs) auto

lemma cstr_load_str:
  assumes "str_ok s m xs" "i \<le> length xs"
  shows "cstr_load m (buf_p s) (unat (buf_rpos s) + i) = Inr (drop i xs)"
proof -
  note D = str_okD [OF assms(1)]
  from D(1) obtain b where b: "buf_p s = Some b" "mem_blocks m b = Some (buf_cells s m)" by (rule buf_invE)
  let ?pre = "take (unat (buf_rpos s)) (buf_cells s m)"
  obtain post where p: "buf_cells s m = ?pre @ (xs @ [0]) @ post" using buf_cells_parts(1) [OF D(1)] D(3) by auto
  have "drop (unat (buf_rpos s) + i) (?pre @ (xs @ [0]) @ post) = drop i xs @ 0 # post"
    using buf_cells_parts(2) [OF D(1)] assms(2) by simp
  then have d: "drop (unat (buf_rpos s) + i) (buf_cells s m) = drop i xs @ 0 # post" using p by metis
  have "0 \<notin> set (drop i xs)" using D(4) by (meson in_set_dropD)
  then show ?thesis using b d by (simp add: cstr_load_def takeWhile_null)
qed

lemma mem_load_str:
  assumes "str_ok s m xs" "i + n \<le> Suc (length xs)"
  shows "mem_load 1 m (buf_p s) (unat (buf_rpos s) + i) n = Inr (take n (drop i (xs @ [0])))"
  using buf_load_part [OF str_okD(1) [OF assms(1)], of i n] assms(2) by (simp add: str_okD(3) [OF assms(1)])

section \<open>Putting bytes\<close>

lemma reserve_store_cases:
  assumes inv: "buf_inv b m" and rw: "\<not> buf_readonly b" and len: "length vs = unat n"
    and k: "\<And>b' m'. k (b', m') = bindr (mem_store 1 m' (buf_p b') (unat (buf_wpos b')) vs) (\<lambda>m.
        let b = b'\<lparr>buf_wpos := buf_wpos b' + n\<rparr> in bindr (TT_BUF_CHECK b) (\<lambda>_. Inr (TT_SUCCESS, b, m)))"
  obtains (throw) "TT_DO (tt_buf_reserve n b m) k = Inl Throw" "unat (buf_size b) < unat (buf_wpos b) + unat n" "\<not> buf_room n b m"
  | (fail) m' where "TT_DO (tt_buf_reserve n b m) k = Inr (TT_FAIL, b, m')" "keeps b m b m'" "buf_data b m' = buf_data b m" "same_store m m'"
      "unat (buf_size b) < unat (buf_wpos b) + unat n" "\<not> buf_room n b m"
  | (ok) b' m' where "TT_DO (tt_buf_reserve n b m) k = Inr (TT_SUCCESS, b', m')" "keeps b m b' m'" "buf_rpos b' = buf_rpos b"
      "buf_data b' m' = buf_data b m @ vs" "buf_room n b m"
  using inv rw
proof (cases rule: buf_reserve_cases [where n = n])
  case throw
  then have "unat (buf_size b) < unat (buf_wpos b) + unat n" by linarith
  with throw show thesis using that(1) buf_reserve_room(1) [OF inv rw] by simp
next
  case (fail m')
  then have "unat (buf_size b) < unat (buf_wpos b) + unat n" by linarith
  with fail show thesis using that(2) [of m'] buf_reserve_room(2) [OF inv rw fail(1)] keeps_same_store [OF fail(2) rw fail(3)] same_store_buf(2) [OF fail(3) _ inv]
    by (simp add: buf_inv_def)
next
  case (ok b1 m1)
  have le: "unat (buf_wpos b1) + unat n \<le> unat (buf_size b1)" using ok(5,7) by simp
  from ok(2) len le obtain m2 where m2: "mem_store 1 m1 (buf_p b1) (unat (buf_wpos b1)) vs = Inr m2"
    "buf_inv (b1\<lparr>buf_wpos := buf_wpos b1 + n\<rparr>) m2" "buf_data (b1\<lparr>buf_wpos := buf_wpos b1 + n\<rparr>) m2 = buf_data b1 m1 @ vs"
    "mem_frame (buf_foot b1) m1 m2" "mem_heap m2 = mem_heap m1" by (rule buf_store_at_wpos)
  let ?b = "b1\<lparr>buf_wpos := buf_wpos b1 + n\<rparr>"
  have "TT_DO (tt_buf_reserve n b m) k = Inr (TT_SUCCESS, ?b, m2)" using ok(1) m2(1) k buf_check_ok [OF m2(2)] by (simp add: Let_def)
  moreover have "mem_frame (buf_foot b) m m2" using ok(9) m2(4) ok(11) by (rule frame_compose)
  then have "keeps b m ?b m2" using m2(2,5) ok by (simp add: keeps_def buf_foot_def)
  ultimately show thesis using that(3) [of ?b m2] m2(3) ok(4,10) buf_reserve_room(3) [OF inv rw ok(1)] by simp
qed

lemma buf_put_cases:
  assumes inv: "buf_inv b m" and rw: "\<not> buf_readonly b" and len: "unat n \<le> length bs"
  obtains (throw) "tt_buf_put (Some bs) n b m = Inl Throw" "unat (buf_size b) < unat (buf_wpos b) + unat n" "\<not> buf_room n b m"
  | (fail) m' where "tt_buf_put (Some bs) n b m = Inr (TT_FAIL, b, m')" "keeps b m b m'" "buf_data b m' = buf_data b m" "same_store m m'"
      "unat (buf_size b) < unat (buf_wpos b) + unat n" "\<not> buf_room n b m"
  | (ok) b' m' where "tt_buf_put (Some bs) n b m = Inr (TT_SUCCESS, b', m')" "keeps b m b' m'" "buf_rpos b' = buf_rpos b"
      "buf_data b' m' = buf_data b m @ take (unat n) bs" "buf_room n b m"
proof (cases "n = 0")
  case True
  then show thesis using that(3) [of b m] rw keeps_refl [OF inv rw] by (simp add: tt_buf_put_def)
next
  case False
  let ?k = "\<lambda>(buf, m). bindr (src_bytes bs n) (\<lambda>vs. bindr (mem_store 1 m (buf_p buf) (unat (buf_wpos buf)) vs) (\<lambda>m.
           let buf = buf\<lparr>buf_wpos := buf_wpos buf + n\<rparr> in bindr (TT_BUF_CHECK buf) (\<lambda>_. Inr (TT_SUCCESS, buf, m))))"
  have e: "tt_buf_put (Some bs) n b m = TT_DO (tt_buf_reserve n b m) ?k" using False rw by (simp add: tt_buf_put_def)
  have l: "length (take (unat n) bs) = unat n" using len by simp
  show thesis
    by (rule reserve_store_cases [OF inv rw l, of ?k]) (use len that in \<open>auto simp: e src_bytes_def\<close>)
qed

lemma buf_put_rep_cases:
  assumes inv: "buf_inv b m" and rw: "\<not> buf_readonly b"
  obtains (throw) "tt_buf_put_rep v n b m = Inl Throw" "unat (buf_size b) < unat (buf_wpos b) + unat n" "\<not> buf_room n b m"
  | (fail) m' where "tt_buf_put_rep v n b m = Inr (TT_FAIL, b, m')" "keeps b m b m'" "buf_data b m' = buf_data b m" "same_store m m'"
      "unat (buf_size b) < unat (buf_wpos b) + unat n" "\<not> buf_room n b m"
  | (ok) b' m' where "tt_buf_put_rep v n b m = Inr (TT_SUCCESS, b', m')" "keeps b m b' m'" "buf_rpos b' = buf_rpos b"
      "buf_data b' m' = buf_data b m @ replicate (unat n) v" "buf_room n b m"
proof (cases "n = 0")
  case True
  then show thesis using that(3) [of b m] rw keeps_refl [OF inv rw] by (simp add: tt_buf_put_rep_def)
next
  case False
  let ?k = "\<lambda>(buf, m). bindr (mem_store 1 m (buf_p buf) (unat (buf_wpos buf)) (replicate (unat n) v)) (\<lambda>m.
       let buf = buf\<lparr>buf_wpos := buf_wpos buf + n\<rparr> in bindr (TT_BUF_CHECK buf) (\<lambda>_. Inr (TT_SUCCESS, buf, m)))"
  have e: "tt_buf_put_rep v n b m = TT_DO (tt_buf_reserve n b m) ?k" using False rw by (simp add: tt_buf_put_rep_def)
  show thesis
    by (rule reserve_store_cases [OF inv rw length_replicate, where k = ?k]) (use that in \<open>auto simp: e\<close>)
qed

text \<open>Cutting the end off by moving the write position back.\<close>

lemma buf_cut:
  assumes inv: "buf_inv b m" and rw: "\<not> buf_readonly b" and k: "unat k \<le> length (buf_data b m)"
  shows "keeps b m (b\<lparr>buf_wpos := buf_rpos b + k\<rparr>) m" "buf_data (b\<lparr>buf_wpos := buf_rpos b + k\<rparr>) m = take (unat k) (buf_data b m)"
proof -
  note P = buf_inv_pos [OF inv]
  have le: "unat (buf_rpos b) + unat k \<le> unat (buf_wpos b)" using k P by (simp add: length_buf_data [OF inv] buf_rlen [OF inv])
  then have u: "unat (buf_rpos b + k) = unat (buf_rpos b) + unat k" using unat_lt_32 [of "buf_wpos b"] by (intro unat_add_u32) linarith
  then show "keeps b m (b\<lparr>buf_wpos := buf_rpos b + k\<rparr>) m"
    using le P by (intro keeps_wpos [OF inv rw]) (simp_all add: word_le_nat_alt)
  show "buf_data (b\<lparr>buf_wpos := buf_rpos b + k\<rparr>) m = take (unat k) (buf_data b m)"
    using u le by (simp add: buf_data_def buf_cells_def min_def)
qed

lemma str_cut:
  assumes ok: "str_ok s m xs" and k: "unat k \<le> length xs"
  shows "keeps s m (s\<lparr>buf_wpos := buf_rpos s + k\<rparr>) m" "buf_data (s\<lparr>buf_wpos := buf_rpos s + k\<rparr>) m = take (unat k) xs"
  using buf_cut [OF str_okD(1,2) [OF ok], of k] k by (simp_all add: str_okD(3) [OF ok])

lemma str_cut_null:
  assumes ok: "str_ok s m xs"
  shows "s\<lparr>buf_wpos := buf_wpos s - 1\<rparr> = s\<lparr>buf_wpos := buf_rpos s + of_nat (length xs)\<rparr>" "buf_wpos s > 0"
    "buf_wpos (s\<lparr>buf_wpos := buf_wpos s - 1\<rparr>) + 1 = buf_wpos s" "s\<lparr>buf_wpos := buf_wpos s - 1 + 1\<rparr> = s"
proof -
  note D = str_okD [OF ok]
  have "buf_wpos s = buf_rpos s + of_nat (Suc (length xs))"
    using arg_cong [OF D(6), of "of_nat :: nat \<Rightarrow> u32"] by (simp only: of_nat_add of_nat_unat ucast_id)
  then show "s\<lparr>buf_wpos := buf_wpos s - 1\<rparr> = s\<lparr>buf_wpos := buf_rpos s + of_nat (length xs)\<rparr>" by simp
  show "buf_wpos s > 0" using D(6) by (simp add: word_less_nat_alt)
qed simp_all

lemma str_clear_buf:
  assumes ok: "buf_inv s m" "\<not> buf_readonly s"
  shows "keeps s m (tt_buf_clear s) m" "buf_data (tt_buf_clear s) m = []" "buf_rpos (tt_buf_clear s) = 0"
  using keeps_pos [OF ok, of 0 0] by (simp_all add: tt_buf_clear_def tt_buf_reset_rwp_def buf_data_def)

section \<open>Rewriting characters in place\<close>

lemma buf_data_overwrite:
  assumes inv: "buf_inv b m" and c: "buf_cells b m' = overwrite (unat (buf_rpos b) + i) vs (buf_cells b m)"
    and le: "i + length vs \<le> length (buf_data b m)"
  shows "buf_data b m' = overwrite i vs (buf_data b m)"
proof -
  have "unat (buf_rpos b) + i + length vs \<le> unat (buf_wpos b)"
    using le buf_inv_pos [OF inv] by (simp add: length_buf_data [OF inv] buf_rlen [OF inv])
  then show ?thesis using buf_inv_pos [OF inv] by (simp add: buf_data_def c window_overwrite)
qed

lemma str_overwrite:
  assumes ok: "str_ok s m xs" and le: "i + length vs \<le> length xs" and nz: "0 \<notin> set vs"
  obtains m' where "mem_store 1 m (buf_p s) (unat (buf_rpos s) + i) vs = Inr m'" "keeps s m s m'" "str_ok s m' (overwrite i vs xs)"
proof -
  note D = str_okD [OF ok]
  have sz: "unat (buf_rpos s) + i + length vs \<le> unat (buf_size s)" using D(6) le buf_inv_pos [OF D(1)] by linarith
  from D(1) sz obtain m' where m': "mem_store 1 m (buf_p s) (unat (buf_rpos s) + i) vs = Inr m'" "buf_inv s m'"
    "buf_cells s m' = overwrite (unat (buf_rpos s) + i) vs (buf_cells s m)" "mem_frame (buf_foot s) m m'"
    "mem_heap m' = mem_heap m" by (rule buf_store)
  have d: "buf_data s m' = overwrite i vs (xs @ [0])" using buf_data_overwrite [OF D(1) m'(3)] le by (simp add: D(3))
  have "overwrite i vs (xs @ [0]) = overwrite i vs xs @ [0]" using le by (simp add: overwrite_def)
  moreover have "0 \<notin> set (overwrite i vs xs)"
    using nz D(4) set_take_subset [of i xs] set_drop_subset [of "i + length vs" xs] by (auto simp: overwrite_def)
  ultimately have "str_ok s m' (overwrite i vs xs)" using m'(2) D(2) d by (simp add: str_ok_def)
  then show thesis using that [of m'] m'(1) keeps_store [OF m'(2) D(2) m'(4,5)] by simp
qed

lemma buf_cells_length: "buf_inv b m \<Longrightarrow> length (buf_cells b m) = unat (buf_size b)"
  by (erule buf_invE) simp

text \<open>Moving the tail of the string to its front and ending it there.\<close>

lemma str_move_front:
  assumes ok: "str_ok s m xs" and le: "i + n \<le> length xs"
  obtains m1 m2 where "tt_memmove 1 m (buf_p s) (unat (buf_rpos s)) (buf_p s) (unat (buf_rpos s) + i) n = Inr m1"
    "mem_store 1 m1 (buf_p s) (unat (buf_rpos s) + n) [0] = Inr m2"
    "keeps s m (s\<lparr>buf_wpos := buf_rpos s + (of_nat n + 1)\<rparr>) m2" "str_ok (s\<lparr>buf_wpos := buf_rpos s + (of_nat n + 1)\<rparr>) m2 (take n (drop i xs))"
proof -
  note D = str_okD [OF ok]
  let ?r = "unat (buf_rpos s)" and ?cs = "buf_cells s m" and ?s = "s\<lparr>buf_wpos := buf_rpos s + (of_nat n + 1)\<rparr>"
  have sz: "?r + n \<le> unat (buf_size s)" "?r + i + n \<le> unat (buf_size s)" "?r + n + length [0 :: u8] \<le> unat (buf_size s)"
    and cl: "length ?cs = unat (buf_size s)"
    using D(6) le buf_inv_pos [OF D(1)] by (simp_all add: buf_cells_length [OF D(1)])
  from D(1) sz(1,2) obtain m1 where m1: "tt_memmove 1 m (buf_p s) ?r (buf_p s) (?r + i) n = Inr m1" "buf_inv s m1"
    "buf_cells s m1 = overwrite ?r (take n (drop (?r + i) ?cs)) ?cs" "mem_frame (buf_foot s) m m1" "mem_heap m1 = mem_heap m"
    by (rule buf_memmove)
  from m1(2) sz(3) obtain m2 where m2: "mem_store 1 m1 (buf_p s) (?r + n) [0] = Inr m2" "buf_inv s m2"
    "buf_cells s m2 = overwrite (?r + n) [0] (buf_cells s m1)" "mem_frame (buf_foot s) m1 m2" "mem_heap m2 = mem_heap m1"
    by (rule buf_store)
  have nn: "unat (of_nat n + 1 :: u32) = Suc n" using le D(7) by (subst unat_add_u32) (simp_all add: unat_of_nat take_bit_nat_eq_self)
  have wr: "?r + Suc n \<le> unat (buf_wpos s)" using le D(6) by linarith
  then have u: "unat (buf_wpos ?s) = ?r + Suc n" using unat_lt_32 [of "buf_wpos s"] nn by (simp add: unat_add_u32)
  have fr: "mem_frame (buf_foot s) m m2" using m1(4) m2(4) by (rule frame_compose) simp
  have inv: "buf_inv ?s m2" using m2(2) u wr buf_inv_pos [OF D(1)] by (auto simp: buf_inv_def buf_cells_def word_le_nat_alt)
  then have k: "keeps s m ?s m2" using fr D(2) m1(5) m2(5) by (simp add: keeps_def buf_foot_def)
  have lt: "length (take n (drop (?r + i) ?cs)) = n" using sz cl by simp
  have "take (?r + n) (overwrite ?r (take n (drop (?r + i) ?cs)) ?cs) = take ?r ?cs @ take n (drop (?r + i) ?cs)"
    using take_overwrite_end [of ?r ?cs "take n (drop (?r + i) ?cs)"] sz cl lt by simp
  moreover have "length (buf_cells s m1) = length ?cs" unfolding m1(3) using sz cl lt by (intro length_overwrite) simp
  ultimately have "take (?r + Suc n) (buf_cells s m2) = take ?r ?cs @ take n (drop (?r + i) ?cs) @ [0]"
    using take_overwrite_end [of "?r + n" "buf_cells s m1" "[0]"] sz cl m1(3) m2(3) by simp
  moreover have "take n (drop (?r + i) ?cs) = take n (drop i xs)"
  proof -
    have "take n (drop i (buf_data s m)) = take n (drop (?r + i) ?cs)"
      using le D(6) by (simp add: buf_data_def drop_take min_def add.commute)
    then show ?thesis using le by (simp add: D(3))
  qed
  ultimately have e: "take (?r + Suc n) (buf_cells s m2) = take ?r ?cs @ take n (drop i xs) @ [0]" by (simp only:)
  have "buf_data ?s m2 = drop ?r (take (?r + Suc n) (buf_cells s m2))"
    using u by (simp add: buf_data_def buf_cells_def take_drop add.commute)
  then have "buf_data ?s m2 = take n (drop i xs) @ [0]" using cl sz by (simp only: e) simp
  moreover have "0 \<notin> set (take n (drop i xs))" using D(4) by (meson in_set_takeD in_set_dropD)
  ultimately have "str_ok ?s m2 (take n (drop i xs))" using inv D(2) by (simp add: str_ok_def)
  then show thesis using that m1(1) m2(1) k by blast
qed

section \<open>The read position\<close>

lemma reserve_rpos: "tt_buf_reserve n b m = Inr (r, b', m') \<Longrightarrow> buf_rpos b' = buf_rpos b"
  by (auto simp: tt_buf_reserve_def buf_extend_def bindr_def Let_def split: if_splits sum.splits prod.splits)

lemma remove_range_rpos: "tt_buf_remove_range i j b m = Inr (b', m') \<Longrightarrow> buf_rpos b' = buf_rpos b"
  by (auto simp: tt_buf_remove_range_def bindr_def Let_def split: if_splits sum.splits)

lemma insert_rpos: "tt_buf_insert i bs n b m = Inr (r, b', m') \<Longrightarrow> buf_rpos b' = buf_rpos b"
  by (auto simp: tt_buf_insert_def TT_DO_def bindr_def Let_def split: if_splits sum.splits) (metis reserve_rpos)+

lemma set_range_rpos: "tt_buf_set_range i l bs n b m = Inr (r, b', m') \<Longrightarrow> buf_rpos b' = buf_rpos b"
  by (auto simp: tt_buf_set_range_def TT_DO_def bindr_def Let_def split: if_splits sum.splits) (metis reserve_rpos)+

text \<open>Without growing, insertion and replacement do not run out of memory.\<close>

lemma no_throw [simp]: "mem_store w m p i vs \<noteq> Inl Throw" "tt_memmove w m p i q j n \<noteq> Inl Throw" "src_bytes bs k \<noteq> Inl Throw"
  by (simp_all add: mem_store_def tt_memmove_def mem_load_def src_bytes_def bindr_def split: option.splits)

lemma room_reserve: "buf_inv b m \<Longrightarrow> unat (buf_wpos b) + unat n \<le> unat (buf_size b) \<Longrightarrow> tt_buf_reserve n b m = Inr (TT_SUCCESS, b, m)"
  using buf_inv_pos(2) [of b m] by (auto simp: tt_buf_reserve_def word_le_nat_alt buf_wlen)

lemma memmove_same:
  assumes inv: "buf_inv b m" and le: "d + n \<le> unat (buf_size b)"
  shows "tt_memmove 1 m (buf_p b) d (buf_p b) d n = Inr m"
proof -
  from inv obtain i where i: "buf_p b = Some i" "mem_blocks m i = Some (buf_cells b m)"
    "length (buf_cells b m) = unat (buf_size b)" by (rule buf_invE)
  let ?v = "take n (drop d (buf_cells b m))"
  have l: "length ?v = n" using i le by simp
  have "overwrite d ?v (buf_cells b m) = buf_cells b m"
    unfolding overwrite_def l by (metis append_take_drop_id drop_drop add.commute)
  then have "mem_store 1 m (buf_p b) d ?v = Inr m" using i le l by (simp add: mem_store_def fun_upd_idem)
  then show ?thesis using buf_load [OF inv le] by (simp add: tt_memmove_def)
qed

lemma str_same_store:
  assumes "str_ok s m xs" "same_store m m'" "mem_inv m'"
  shows "str_ok s m' xs" "keeps s m s m'"
  using assms same_store_buf [OF assms(2,3) str_okD(1) [OF assms(1)]] keeps_same_store [of s m' m] by (simp_all add: str_ok_def)

end
