(* ===== verification/TT_String_Calls.thy ===== *)
theory TT_String_Calls
  imports TT_String_Inv
begin

text \<open>
  That every call on a string answers as its specification says: \<open>str_answer\<close> holds of each operation of
  \<^verbatim>\<open>tt_string_common.c\<close>, and from that of \<open>str_step\<close>.

  What strings promise: the calls on a string, what each does to a text, and what a call may do when the storage has to
  grow. The text is the list of the characters and whether the read position has left the start of the storage, since
  \<^verbatim>\<open>tt_buf_insert\<close> and \<^verbatim>\<open>tt_buf_remove_range\<close> work only as long as it has not.
\<close>

section \<open>Calls\<close>

datatype str_call =
    StrSet "u8 list" | StrSetSub "u8 list" u32 u32 | StrSetFrom u32 "u8 list" | StrSetChar u32 u8
  | StrSetRange u32 u32 "u8 list" | StrClear
  | StrRemoveRange u32 u32 | StrRemoveHeadTo u32 | StrRemoveHead u32 | StrRemoveTailFrom u32 | StrRemoveTail u32
  | StrAppend "u8 list" | StrAppendChar u8 | StrAppendRep u8 u32 | StrAppendSub "u8 list" u32 u32
  | StrReplace u8 u8 | StrLower | StrUpper | StrTrim | StrInsert u32 "u8 list" | StrInsertChar u32 u8

definition str_void :: "(tt_buf \<times> bmem) run \<Rightarrow> buf_out" where "str_void r = bindr r (\<lambda>(s, m). Inr (TT_SUCCESS, s, m))"

fun str_step :: "str_call \<Rightarrow> tt_buf \<Rightarrow> bmem \<Rightarrow> buf_out" where
  "str_step (StrSet ys) s m = tt_string_set ys s m"
| "str_step (StrSetSub ys f n) s m = tt_string_set_sub ys f n s m"
| "str_step (StrSetFrom f ys) s m = tt_string_setfrom f ys s m"
| "str_step (StrSetChar f c) s m = tt_string_setfrom_c f c s m"
| "str_step (StrSetRange f n ys) s m = tt_string_set_range f n ys s m"
| "str_step StrClear s m = str_void (tt_string_clear s m)"
| "str_step (StrRemoveRange f n) s m = str_void (tt_string_remove_range f n s m)"
| "str_step (StrRemoveHeadTo n) s m = Inr (TT_SUCCESS, tt_string_remove_headto n s, m)"
| "str_step (StrRemoveHead n) s m = Inr (TT_SUCCESS, tt_string_remove_head n s, m)"
| "str_step (StrRemoveTailFrom f) s m = str_void (tt_string_remove_tailfrom f s m)"
| "str_step (StrRemoveTail n) s m = str_void (tt_string_remove_tail n s m)"
| "str_step (StrAppend ys) s m = tt_string_append ys s m"
| "str_step (StrAppendChar c) s m = tt_string_append_c c s m"
| "str_step (StrAppendRep c n) s m = tt_string_append_rep c n s m"
| "str_step (StrAppendSub ys f n) s m = tt_string_append_sub ys f n s m"
| "str_step (StrReplace c d) s m = bindr (tt_string_replace_c c d s m) (\<lambda>(k, m). Inr (TT_SUCCESS, s, m))"
| "str_step StrLower s m = bindr (tt_string_tolower s m) (\<lambda>m. Inr (TT_SUCCESS, s, m))"
| "str_step StrUpper s m = bindr (tt_string_toupper s m) (\<lambda>m. Inr (TT_SUCCESS, s, m))"
| "str_step StrTrim s m = str_void (tt_string_trim s m)"
| "str_step (StrInsert f ys) s m = tt_string_insert f ys s m"
| "str_step (StrInsertChar f c) s m = tt_string_insert_c f c s m"

section \<open>Their effect on a text\<close>

definition trimmed :: "u8 list \<Rightarrow> u8 list" where
  "trimmed xs = rev (dropWhile (\<lambda>c. c = 32) (rev (dropWhile (\<lambda>c. c = 32) xs)))"

fun str_spec :: "str_call \<Rightarrow> u8 list \<times> bool \<Rightarrow> tt_result \<times> u8 list \<times> bool" where
  "str_spec (StrSet ys) (xs, sh) = (TT_SUCCESS, ys, False)"
| "str_spec (StrSetSub ys f n) (xs, sh) =
    (if length ys < unat f then (TT_FAIL, xs, sh) else (TT_SUCCESS, take (unat n) (drop (unat f) ys), False))"
| "str_spec (StrSetFrom f ys) (xs, sh) =
    (if length xs < unat f then (TT_FAIL, xs, sh) else (TT_SUCCESS, take (unat f) xs @ ys, sh))"
| "str_spec (StrSetChar f c) (xs, sh) =
    (if length xs \<le> unat f then (TT_FAIL, xs, sh) else (TT_SUCCESS, xs[unat f := c], sh))"
| "str_spec (StrSetRange f n ys) (xs, sh) =
    (if length xs < unat f + unat n then (TT_E_BADARG, xs, sh)
     else (TT_SUCCESS, take (unat f) xs @ ys @ drop (unat f + unat n) xs, sh))"
| "str_spec StrClear (xs, sh) = (TT_SUCCESS, [], False)"
| "str_spec (StrRemoveRange f n) (xs, sh) =
    (TT_SUCCESS, if sh then xs else take (unat f) xs @ drop (unat f + unat n) xs, sh)"
| "str_spec (StrRemoveHeadTo n) (xs, sh) = (TT_SUCCESS, drop (unat n) xs, sh \<or> xs \<noteq> [] \<and> n \<noteq> 0)"
| "str_spec (StrRemoveHead n) (xs, sh) = (TT_SUCCESS, drop (unat n) xs, sh \<or> xs \<noteq> [] \<and> n \<noteq> 0)"
| "str_spec (StrRemoveTailFrom f) (xs, sh) = (TT_SUCCESS, take (unat f) xs, sh)"
| "str_spec (StrRemoveTail n) (xs, sh) = (TT_SUCCESS, take (length xs - unat n) xs, sh)"
| "str_spec (StrAppend ys) (xs, sh) = (TT_SUCCESS, xs @ ys, sh)"
| "str_spec (StrAppendChar c) (xs, sh) = (TT_SUCCESS, if c = 0 then xs else xs @ [c], sh)"
| "str_spec (StrAppendRep c n) (xs, sh) = (TT_SUCCESS, if c = 0 then xs else xs @ replicate (unat n) c, sh)"
| "str_spec (StrAppendSub ys f n) (xs, sh) =
    (if length ys < unat f then (TT_FAIL, xs, sh) else (TT_SUCCESS, xs @ take (unat n) (drop (unat f) ys), sh))"
| "str_spec (StrReplace c d) (xs, sh) = (TT_SUCCESS, map (\<lambda>x. if x = c then d else x) xs, sh)"
| "str_spec StrLower (xs, sh) = (TT_SUCCESS, map tt_tolower xs, sh)"
| "str_spec StrUpper (xs, sh) = (TT_SUCCESS, map tt_toupper xs, sh)"
| "str_spec StrTrim (xs, sh) = (TT_SUCCESS, trimmed xs, sh)"
| "str_spec (StrInsert f ys) (xs, sh) =
    (if sh then (TT_FAIL, xs, sh) else (TT_SUCCESS, take (unat f) xs @ ys @ drop (unat f) xs, sh))"
| "str_spec (StrInsertChar f c) (xs, sh) =
    (if sh \<or> c = 0 then (TT_FAIL, xs, sh) else (TT_SUCCESS, take (unat f) xs @ c # drop (unat f) xs, sh))"

text \<open>
  What the caller owes: a C string has no null inside and a length that fits 32 bits, a range does not end beyond them, and
  no character becomes a null.
\<close>

definition cstr_arg :: "u8 list \<Rightarrow> bool" where "cstr_arg ys \<longleftrightarrow> 0 \<notin> set ys \<and> Suc (length ys) < 2 ^ 32"

fun str_allowed :: "str_call \<Rightarrow> u8 list \<times> bool \<Rightarrow> bool" where
  "str_allowed (StrSet ys) t \<longleftrightarrow> cstr_arg ys"
| "str_allowed (StrSetSub ys f n) t \<longleftrightarrow> cstr_arg ys \<and> unat f + unat n < 2 ^ 32"
| "str_allowed (StrSetFrom f ys) t \<longleftrightarrow> cstr_arg ys"
| "str_allowed (StrSetChar f c) t \<longleftrightarrow> c \<noteq> 0"
| "str_allowed (StrSetRange f n ys) t \<longleftrightarrow> cstr_arg ys \<and> unat f + unat n < 2 ^ 32"
| "str_allowed (StrRemoveRange f n) t \<longleftrightarrow> unat f + unat n < 2 ^ 32"
| "str_allowed (StrAppend ys) t \<longleftrightarrow> cstr_arg ys"
| "str_allowed (StrAppendSub ys f n) t \<longleftrightarrow> cstr_arg ys \<and> unat f + unat n < 2 ^ 32"
| "str_allowed (StrReplace c d) t \<longleftrightarrow> d \<noteq> 0 \<and> length (fst t) < 2 ^ 31"
| "str_allowed (StrInsert f ys) t \<longleftrightarrow> cstr_arg ys"
| "str_allowed c t \<longleftrightarrow> True"

text \<open>
  The bytes from the start of the storage to the end of a text with its null: a text that has been shifted stays behind
  the read position, others begin at 0.
\<close>

definition str_end :: "tt_buf \<Rightarrow> u8 list \<times> bool \<Rightarrow> nat" where
  "str_end s t = (if snd t then unat (buf_rpos s) else 0) + Suc (length (fst t))"

text \<open>
  Whether the string has room for what a call puts into it. Some calls put their characters first and then the null; the
  outcome \<open>c\<close> of the first put then tells what is left for the null.
\<close>

definition null_room :: "buf_out \<Rightarrow> bool" where
  "null_room c \<longleftrightarrow> (case c of Inl f \<Rightarrow> True | Inr (r, b, m) \<Rightarrow> r = TT_SUCCESS \<longrightarrow> buf_room 1 b m)"

definition put_room :: "u8 list \<Rightarrow> tt_buf \<Rightarrow> bmem \<Rightarrow> bool" where
  "put_room vs b m \<longleftrightarrow> (let n = of_nat (length vs) in buf_room n b m \<and> null_room (tt_buf_put (Some vs) n b m))"

fun str_room :: "str_call \<Rightarrow> tt_buf \<Rightarrow> bmem \<Rightarrow> bool" where
  "str_room (StrSet ys) s m \<longleftrightarrow> buf_room (tt_strlen ys + 1) (tt_buf_clear s) m"
| "str_room (StrSetSub ys f n) s m \<longleftrightarrow> put_room (take (unat n) (drop (unat f) ys)) (tt_buf_clear s) m"
| "str_room (StrSetFrom f ys) s m \<longleftrightarrow> buf_room (tt_strlen ys + 1) (s\<lparr>buf_wpos := buf_rpos s + f\<rparr>) m"
| "str_room (StrSetRange f n ys) s m \<longleftrightarrow> buf_room (tt_strlen ys - min n (tt_strlen ys)) s m"
| "str_room (StrAppend ys) s m \<longleftrightarrow> buf_room (tt_strlen ys + 1) (s\<lparr>buf_wpos := buf_wpos s - 1\<rparr>) m"
| "str_room (StrAppendChar c) s m \<longleftrightarrow> c = 0 \<or> buf_room 1 s m"
| "str_room (StrAppendRep c n) s m \<longleftrightarrow> c = 0 \<or> (let b = s\<lparr>buf_wpos := buf_wpos s - 1\<rparr> in
     buf_room n b m \<and> null_room (tt_buf_put_rep c n b m))"
| "str_room (StrAppendSub ys f n) s m \<longleftrightarrow> put_room (take (unat n) (drop (unat f) ys)) (s\<lparr>buf_wpos := buf_wpos s - 1\<rparr>) m"
| "str_room (StrInsert f ys) s m \<longleftrightarrow> buf_room (tt_strlen ys) s m"
| "str_room (StrInsertChar f c) s m \<longleftrightarrow> buf_room 1 s m"
| "str_room c s m \<longleftrightarrow> True"

text \<open>Whether a call that has no room leaves the string alone.\<close>

fun str_holds :: "str_call \<Rightarrow> bool" where
  "str_holds (StrSet ys) \<longleftrightarrow> False"
| "str_holds (StrSetSub ys f n) \<longleftrightarrow> False"
| "str_holds (StrSetFrom f ys) \<longleftrightarrow> False"
| "str_holds (StrAppendRep c n) \<longleftrightarrow> False"
| "str_holds (StrAppendSub ys f n) \<longleftrightarrow> False"
| "str_holds c \<longleftrightarrow> True"

section \<open>What the calls do\<close>

fun str_is :: "tt_buf \<Rightarrow> bmem \<Rightarrow> u8 list \<times> bool \<Rightarrow> bool" where
  "str_is s m (xs, sh) \<longleftrightarrow> str_ok s m xs \<and> (sh \<longleftrightarrow> buf_rpos s \<noteq> 0)"

definition str_done :: "tt_buf \<Rightarrow> bmem \<Rightarrow> tt_result \<times> u8 list \<times> bool \<Rightarrow> buf_out \<Rightarrow> bool" where
  "str_done s m a out \<longleftrightarrow> (\<exists>s' m'. out = Inr (fst a, s', m') \<and> keeps s m s' m' \<and> str_is s' m' (snd a))"

definition str_failed :: "tt_buf \<Rightarrow> bmem \<Rightarrow> bool \<Rightarrow> u8 list \<times> bool \<Rightarrow> buf_out \<Rightarrow> bool" where
  "str_failed s m holds t out \<longleftrightarrow>
     out = Inl Throw \<or> (\<exists>s' m'. out = Inr (TT_FAIL, s', m') \<and> keeps s m s' m' \<and> (holds \<longrightarrow> str_is s' m' t))"

text \<open>
  A call that the specification lets succeed does so exactly when it has room. Without room the text with its null would
  end beyond the storage, and the call fails.
\<close>

definition str_answer :: "str_call \<Rightarrow> tt_buf \<Rightarrow> bmem \<Rightarrow> u8 list \<times> bool \<Rightarrow> buf_out \<Rightarrow> bool" where
  "str_answer c s m t out \<longleftrightarrow> (if fst (str_spec c t) = TT_SUCCESS \<and> \<not> str_room c s m
     then unat (buf_size s) < str_end s (snd (str_spec c t)) \<and> str_failed s m (str_holds c) t out
     else str_done s m (str_spec c t) out)"

lemma answer_done:
  assumes "str_step c s m = Inr (fst (str_spec c t), s', m')" "keeps s m s' m'" "str_is s' m' (snd (str_spec c t))"
    "fst (str_spec c t) = TT_SUCCESS \<Longrightarrow> str_room c s m"
  shows "str_answer c s m t (str_step c s m)"
  using assms by (auto simp: str_answer_def str_done_def)

lemma answer_throw:
  assumes "str_step c s m = Inl Throw" "fst (str_spec c t) = TT_SUCCESS" "\<not> str_room c s m"
    "unat (buf_size s) < str_end s (snd (str_spec c t))"
  shows "str_answer c s m t (str_step c s m)"
  using assms by (simp add: str_answer_def str_failed_def)

lemma answer_lost:
  assumes "str_step c s m = Inr (TT_FAIL, s', m')" "keeps s m s' m'" "fst (str_spec c t) = TT_SUCCESS" "\<not> str_room c s m"
    "unat (buf_size s) < str_end s (snd (str_spec c t))" "\<not> str_holds c"
  shows "str_answer c s m t (str_step c s m)"
  using assms by (simp add: str_answer_def str_failed_def)

lemma answer_held:
  assumes "str_step c s m = Inr (TT_FAIL, s', m')" "keeps s m s' m'" "fst (str_spec c (xs, sh)) = TT_SUCCESS" "\<not> str_room c s m"
    "unat (buf_size s) < str_end s (snd (str_spec c (xs, sh)))" "str_ok s' m' xs" "sh \<longleftrightarrow> buf_rpos s' \<noteq> 0"
  shows "str_answer c s m (xs, sh) (str_step c s m)"
  using assms by (simp add: str_answer_def str_failed_def)

lemma answer_same:
  assumes "str_is s m (xs, sh)" "str_step c s m = Inr (r, s, m)" "str_spec c (xs, sh) = (r, xs, sh)" "r = TT_SUCCESS \<Longrightarrow> str_room c s m"
  shows "str_answer c s m (xs, sh) (str_step c s m)"
  using assms keeps_refl [of s m] by (intro answer_done [where s' = s]) (auto dest: str_okD)

section \<open>Putting and ending\<close>

lemma TT_OK_iff [simp]: "TT_OK r \<longleftrightarrow> r = TT_SUCCESS"
  by (cases r) (simp_all add: TT_OK_def)

lemma TT_DO_ret [simp]: "TT_DO c (\<lambda>(s, m). Inr (TT_SUCCESS, s, m)) = c"
  by (auto simp: TT_DO_def bindr_def split: sum.splits)

lemma strlen_suc: "cstr_arg ys \<Longrightarrow> unat (tt_strlen ys + 1) = Suc (length ys)" "cstr_arg ys \<Longrightarrow> unat (tt_strlen ys) = length ys"
  by (simp_all add: tt_strlen_def cstr_arg_def unat_add_u32 unat_of_nat take_bit_nat_eq_self)

lemma put_cstr_cases:
  assumes inv: "buf_inv b m" "\<not> buf_readonly b" and ys: "cstr_arg ys" and z: "0 \<notin> set (buf_data b m)"
  obtains (throw) "tt_buf_put (Some (ys @ [0])) (tt_strlen ys + 1) b m = Inl Throw" "unat (buf_size b) < unat (buf_wpos b) + Suc (length ys)"
      "\<not> buf_room (tt_strlen ys + 1) b m"
  | (fail) m' where "tt_buf_put (Some (ys @ [0])) (tt_strlen ys + 1) b m = Inr (TT_FAIL, b, m')" "keeps b m b m'"
      "same_store m m'" "unat (buf_size b) < unat (buf_wpos b) + Suc (length ys)" "\<not> buf_room (tt_strlen ys + 1) b m"
  | (ok) s' m' where "tt_buf_put (Some (ys @ [0])) (tt_strlen ys + 1) b m = Inr (TT_SUCCESS, s', m')" "keeps b m s' m'"
      "str_ok s' m' (buf_data b m @ ys)" "buf_rpos s' = buf_rpos b" "buf_room (tt_strlen ys + 1) b m"
proof -
  have le: "unat (tt_strlen ys + 1) \<le> length (ys @ [0])" using strlen_suc [OF ys] by simp
  have z': "0 \<notin> set (buf_data b m @ ys)" using z ys by (simp add: cstr_arg_def)
  show thesis
  proof (rule buf_put_cases [OF inv le], goal_cases)
    case 1
    then show thesis using that(1) strlen_suc [OF ys] by simp
  next
    case (2 m')
    then show thesis using that(2) strlen_suc [OF ys] by simp
  next
    case (3 b' m')
    then have "str_ok b' m' (buf_data b m @ ys)" using z' strlen_suc [OF ys] keepsD [OF 3(2)] by (simp add: str_ok_def)
    with 3 show thesis using that(3) by simp
  qed
qed

lemma put_null_cases:
  assumes inv: "buf_inv b m" "\<not> buf_readonly b" and z: "0 \<notin> set (buf_data b m)"
  obtains (throw) "tt_buf_put_u8 0 b m = Inl Throw" "unat (buf_size b) < unat (buf_wpos b) + 1" "\<not> buf_room 1 b m"
  | (fail) m' where "tt_buf_put_u8 0 b m = Inr (TT_FAIL, b, m')" "keeps b m b m'" "unat (buf_size b) < unat (buf_wpos b) + 1" "\<not> buf_room 1 b m"
  | (ok) s' m' where "tt_buf_put_u8 0 b m = Inr (TT_SUCCESS, s', m')" "keeps b m s' m'" "str_ok s' m' (buf_data b m)"
      "buf_rpos s' = buf_rpos b" "buf_room 1 b m"
proof -
  have "cstr_arg []" by (simp add: cstr_arg_def)
  from inv this z show thesis
    by (rule put_cstr_cases) (use that in \<open>simp_all add: tt_buf_put_u8_def tt_strlen_def\<close>)
qed

lemma put_within:
  assumes "buf_inv b m" "unat (buf_wpos b) + unat n \<le> unat (buf_size b)"
  shows "tt_buf_put (Some bs) n b m = Inr (r, b', m') \<Longrightarrow> buf_size b' = buf_size b"
    "tt_buf_put_rep v n b m = Inr (r, b', m') \<Longrightarrow> buf_size b' = buf_size b"
  by (auto simp: tt_buf_put_def tt_buf_put_rep_def room_reserve [OF assms] bindr_def Let_def split: if_splits sum.splits)

text \<open>Bytes, then the null: \<open>n\<close> is the number of the bytes and \<open>zs\<close> what is readable after them.\<close>

definition put_out :: "tt_buf \<Rightarrow> bmem \<Rightarrow> u32 \<Rightarrow> u8 list \<Rightarrow> buf_out \<Rightarrow> bool" where
  "put_out b m n zs c \<longleftrightarrow> c = Inl Throw \<and> unat (buf_size b) < unat (buf_wpos b) + unat n \<and> \<not> buf_room n b m
     \<or> (\<exists>m'. c = Inr (TT_FAIL, b, m') \<and> keeps b m b m' \<and> unat (buf_size b) < unat (buf_wpos b) + unat n \<and> \<not> buf_room n b m)
     \<or> (\<exists>b' m'. c = Inr (TT_SUCCESS, b', m') \<and> keeps b m b' m' \<and> buf_rpos b' = buf_rpos b \<and> buf_data b' m' = zs \<and> buf_room n b m
          \<and> (unat (buf_wpos b) + unat n < unat (buf_size b) \<longrightarrow> unat (buf_wpos b') < unat (buf_size b')))"

lemma put_out_room:
  assumes inv: "buf_inv b m" and k: "keeps b m b' m'" and r: "buf_rpos b' = buf_rpos b" and d: "buf_data b' m' = buf_data b m @ vs"
    and sz: "unat (buf_wpos b) + length vs \<le> unat (buf_size b) \<Longrightarrow> buf_size b' = buf_size b"
  shows "unat (buf_wpos b) + length vs < unat (buf_size b) \<longrightarrow> unat (buf_wpos b') < unat (buf_size b')"
proof -
  note P = buf_inv_pos [OF inv] and Q = buf_inv_pos [OF keepsD(1) [OF k]]
  have "unat (buf_wpos b') = unat (buf_wpos b) + length vs"
    using arg_cong [OF d, of length] P Q r
    by (simp add: length_buf_data [OF inv] length_buf_data [OF keepsD(1) [OF k]] buf_rlen [OF inv] buf_rlen [OF keepsD(1) [OF k]])
  then show ?thesis using sz by auto
qed

lemma put_out_put:
  assumes inv: "buf_inv b m" "\<not> buf_readonly b" and n: "unat n \<le> length bs"
  shows "put_out b m n (buf_data b m @ take (unat n) bs) (tt_buf_put (Some bs) n b m)"
proof (rule buf_put_cases [OF inv n], goal_cases)
  case (3 b' m')
  have "length (take (unat n) bs) = unat n" using n by simp
  with put_out_room [OF inv(1) 3(2-4)] put_within(1) [OF inv(1) _ 3(1)] 3 show ?case by (simp add: put_out_def)
qed (auto simp: put_out_def)

lemma put_out_rep:
  assumes inv: "buf_inv b m" "\<not> buf_readonly b"
  shows "put_out b m n (buf_data b m @ replicate (unat n) v) (tt_buf_put_rep v n b m)"
proof (rule buf_put_rep_cases [OF inv, of v n], goal_cases)
  case (3 b' m')
  with put_out_room [OF inv(1) 3(2-4)] put_within(2) [OF inv(1) _ 3(1)] show ?case by (simp add: put_out_def)
qed (auto simp: put_out_def)

lemma put_room_part:
  assumes n: "unat k \<le> length bs" and vs: "take (unat k) bs = vs"
  shows "put_room vs b m \<longleftrightarrow> buf_room k b m \<and> null_room (tt_buf_put (Some bs) k b m)"
proof -
  have "length vs = unat k" using vs n by auto
  then have k: "of_nat (length vs) = k" by simp
  have "src_bytes bs k = src_bytes vs k"
    using n vs arg_cong [OF vs, of length] by (auto simp: src_bytes_def min_def)
  then show ?thesis by (simp add: put_room_def k tt_buf_put_def)
qed

lemma put_then_null:
  assumes c: "put_out b m n zs c" and z: "0 \<notin> set zs"
  obtains (throw) "TT_DO c (\<lambda>(s, m). tt_buf_put_u8 0 s m) = Inl Throw" "unat (buf_size b) < unat (buf_wpos b) + Suc (unat n)"
      "\<not> (buf_room n b m \<and> null_room c)"
  | (fail) s' m' where "TT_DO c (\<lambda>(s, m). tt_buf_put_u8 0 s m) = Inr (TT_FAIL, s', m')" "keeps b m s' m'"
      "unat (buf_size b) < unat (buf_wpos b) + Suc (unat n)" "\<not> (buf_room n b m \<and> null_room c)"
  | (ok) s' m' where "TT_DO c (\<lambda>(s, m). tt_buf_put_u8 0 s m) = Inr (TT_SUCCESS, s', m')" "keeps b m s' m'"
      "str_ok s' m' zs" "buf_rpos s' = buf_rpos b" "buf_room n b m \<and> null_room c"
proof -
  consider "c = Inl Throw" "unat (buf_size b) < unat (buf_wpos b) + unat n" "\<not> buf_room n b m"
    | m' where "c = Inr (TT_FAIL, b, m')" "keeps b m b m'" "unat (buf_size b) < unat (buf_wpos b) + unat n" "\<not> buf_room n b m"
    | b1 m1 where "c = Inr (TT_SUCCESS, b1, m1)" "keeps b m b1 m1" "buf_rpos b1 = buf_rpos b" "buf_data b1 m1 = zs"
        "unat (buf_wpos b) + unat n < unat (buf_size b) \<Longrightarrow> unat (buf_wpos b1) < unat (buf_size b1)" "buf_room n b m"
    using c by (auto simp: put_out_def)
  then show thesis
  proof cases
    case 1
    then show thesis using that(1) by simp
  next
    case (2 m')
    then show thesis using that(2) by simp
  next
    case (3 b1 m1)
    have z1: "0 \<notin> set (buf_data b1 m1)" using 3(4) z by simp
    have sh: "unat (buf_size b) < unat (buf_wpos b) + Suc (unat n)" if "unat (buf_size b1) < unat (buf_wpos b1) + 1"
      using 3(5) that by (cases "unat (buf_wpos b) + unat n < unat (buf_size b)") auto
    show thesis
    proof (rule put_null_cases [OF keepsD(1,2) [OF 3(2)] z1], goal_cases)
      case 1
      then show thesis using that(1) sh \<open>c = Inr (TT_SUCCESS, b1, m1)\<close> by (simp add: null_room_def)
    next
      case (2 m')
      then show thesis using that(2) [of b1 m'] sh \<open>c = Inr (TT_SUCCESS, b1, m1)\<close> keeps_trans [OF 3(2) 2(2)] by (simp add: null_room_def)
    next
      note p = \<open>c = Inr (TT_SUCCESS, b1, m1)\<close> \<open>keeps b m b1 m1\<close> \<open>buf_rpos b1 = buf_rpos b\<close> \<open>buf_data b1 m1 = zs\<close> \<open>buf_room n b m\<close>
      case (3 s' m')
      show thesis using that(3) [of s' m'] 3 p(1,3,4,5) keeps_trans [OF p(2) 3(2)] by (simp add: null_room_def)
    qed
  qed
qed

section \<open>Setting\<close>

lemma clear_simps [simp]: "buf_size (tt_buf_clear s) = buf_size s" "buf_wpos (tt_buf_clear s) = 0" "buf_rpos (tt_buf_clear s) = 0"
  "buf_readonly (tt_buf_clear s) = buf_readonly s"
  by (simp_all add: tt_buf_clear_def tt_buf_reset_rwp_def)

lemma str_isD:
  assumes "str_is s m (xs, sh)"
  shows "str_ok s m xs" "sh \<longleftrightarrow> buf_rpos s \<noteq> 0" "buf_inv s m" "\<not> buf_readonly s" "unat (tt_string_len s) = length xs"
    "unat (buf_wpos s) = unat (buf_rpos s) + Suc (length xs)" "0 \<notin> set xs" "buf_data s m = xs @ [0]" "Suc (length xs) < 2 ^ 32"
    "str_end s (zs, sh) = unat (buf_rpos s) + Suc (length zs)"
  using assms str_okD [of s m xs] by (simp_all add: str_end_def)

lemma answer_set:
  assumes st: "str_is s m (xs, sh)" and ys: "cstr_arg ys"
  shows "str_answer (StrSet ys) s m (xs, sh) (str_step (StrSet ys) s m)"
proof -
  note D = str_isD [OF st]
  note k = str_clear_buf [OF D(3,4)]
  have z: "0 \<notin> set (buf_data (tt_buf_clear s) m)" using k by simp
  show ?thesis
  proof (rule put_cstr_cases [OF keepsD(1,2) [OF k(1)] ys z], goal_cases)
    case 1
    then show ?case by (intro answer_throw) (simp_all add: tt_string_set_def str_end_def)
  next
    case (2 m')
    then show ?case using keeps_trans [OF k(1) 2(2)] by (intro answer_lost [where s' = "tt_buf_clear s"]) (simp_all add: tt_string_set_def str_end_def)
  next
    case (3 s' m')
    then show ?case
      using keeps_trans [OF k(1) 3(2)] k(2) by (intro answer_done [where s' = s']) (simp_all add: tt_string_set_def)
  qed
qed

text \<open>The part of an argument from an offset, cut at its end.\<close>

lemma sub_len:
  assumes ys: "cstr_arg ys" and f: "unat f \<le> length ys" and w: "unat f + unat n < 2 ^ 32"
  shows "unat (if tt_strlen ys < f + n then tt_strlen ys - f else n) = min (unat n) (length ys - unat f)"
    "take (unat (if tt_strlen ys < f + n then tt_strlen ys - f else n)) (drop (unat f) (ys @ [0])) = take (unat n) (drop (unat f) ys)"
    "\<not> tt_strlen ys < f"
proof -
  have u: "unat (f + n) = unat f + unat n" using w by (intro unat_add_u32) simp
  show "\<not> tt_strlen ys < f" using f strlen_suc(2) [OF ys] by (simp add: word_less_nat_alt)
  show k: "unat (if tt_strlen ys < f + n then tt_strlen ys - f else n) = min (unat n) (length ys - unat f)"
    using u f strlen_suc(2) [OF ys] by (auto simp: word_less_nat_alt unat_sub_u32)
  show "take (unat (if tt_strlen ys < f + n then tt_strlen ys - f else n)) (drop (unat f) (ys @ [0])) = take (unat n) (drop (unat f) ys)"
    unfolding k using f by (simp add: min_def)
qed

lemma answer_set_sub:
  assumes st: "str_is s m (xs, sh)" and ys: "cstr_arg ys" and w: "unat f + unat n < 2 ^ 32"
  shows "str_answer (StrSetSub ys f n) s m (xs, sh) (str_step (StrSetSub ys f n) s m)"
proof (cases "length ys < unat f")
  case True
  then have "tt_strlen ys < f" using strlen_suc(2) [OF ys] by (simp add: word_less_nat_alt)
  then show ?thesis using True st by (intro answer_same [where r = TT_FAIL]) (simp_all add: tt_string_set_sub_def Let_def)
next
  case False
  note D = str_isD [OF st]
  note k = str_clear_buf [OF D(3,4)]
  have f: "unat f \<le> length ys" using False by simp
  note L = sub_len [OF ys f w]
  let ?k = "if tt_strlen ys < f + n then tt_strlen ys - f else n"
  let ?c = "tt_buf_put (Some (drop (unat f) (ys @ [0]))) ?k (tt_buf_clear s) m"
  have kl: "unat ?k \<le> length (drop (unat f) (ys @ [0]))" using L(1) f by simp
  note R = put_room_part [OF kl L(2), of "tt_buf_clear s" m]
  from put_out_put [OF keepsD(1,2) [OF k(1)] kl] have c: "put_out (tt_buf_clear s) m ?k (take (unat n) (drop (unat f) ys)) ?c"
    unfolding L(2) by (simp only: k(2) append_Nil)
  have z: "0 \<notin> set (take (unat n) (drop (unat f) ys))" using ys unfolding cstr_arg_def by (meson in_set_takeD in_set_dropD)
  have e: "str_step (StrSetSub ys f n) s m = TT_DO ?c (\<lambda>(s, m). tt_buf_put_u8 0 s m)" using L(3) by (simp add: tt_string_set_sub_def Let_def)
  show ?thesis
  proof (rule put_then_null [OF c z], goal_cases)
    case 1
    then show ?case using L(1) False R by (intro answer_throw) (simp_all only: e, simp_all add: str_end_def)
  next
    case (2 s' m')
    then show ?case using keeps_trans [OF k(1) 2(2)] L(1) False R by (intro answer_lost [where s' = s']) (simp_all only: e, simp_all add: str_end_def)
  next
    case (3 s' m')
    then show ?case using keeps_trans [OF k(1) 3(2)] False R by (intro answer_done [where s' = s']) (simp_all only: e, simp_all)
  qed
qed

text \<open>The string without what is behind a position.\<close>

lemma str_cut_is:
  assumes st: "str_is s m (xs, sh)" and k: "unat k \<le> length xs"
  shows "keeps s m (s\<lparr>buf_wpos := buf_rpos s + k\<rparr>) m" "buf_data (s\<lparr>buf_wpos := buf_rpos s + k\<rparr>) m = take (unat k) xs"
    "0 \<notin> set (buf_data (s\<lparr>buf_wpos := buf_rpos s + k\<rparr>) m)" "unat (buf_rpos s + k) \<le> unat (buf_wpos s) - 1" "0 < unat (buf_wpos s)"
proof -
  note D = str_isD [OF st]
  note c = str_cut [OF D(1) k]
  show "keeps s m (s\<lparr>buf_wpos := buf_rpos s + k\<rparr>) m" "buf_data (s\<lparr>buf_wpos := buf_rpos s + k\<rparr>) m = take (unat k) xs" by (fact c)+
  show "0 \<notin> set (buf_data (s\<lparr>buf_wpos := buf_rpos s + k\<rparr>) m)" using D(7) unfolding c(2) by (meson in_set_takeD)
  have "unat (buf_rpos s + k) = unat (buf_rpos s) + unat k" using k D(6) unat_lt_32 [of "buf_wpos s"] by (intro unat_add_u32) linarith
  then show "unat (buf_rpos s + k) \<le> unat (buf_wpos s) - 1" "0 < unat (buf_wpos s)" using k D(6) by simp_all
qed

lemma answer_setfrom:
  assumes st: "str_is s m (xs, sh)" and ys: "cstr_arg ys"
  shows "str_answer (StrSetFrom f ys) s m (xs, sh) (str_step (StrSetFrom f ys) s m)"
proof (cases "length xs < unat f")
  case True
  then have "tt_string_len s < f" using str_isD(5) [OF st] by (simp add: word_less_nat_alt)
  then show ?thesis using True st by (intro answer_same [where r = TT_FAIL]) (simp_all add: tt_string_setfrom_def Let_def)
next
  case False
  note D = str_isD [OF st]
  let ?b = "s\<lparr>buf_wpos := buf_rpos s + f\<rparr>"
  have f: "unat f \<le> length xs" using False by simp
  note c = str_cut_is [OF st f]
  have u: "unat (buf_rpos s + f) = unat (buf_rpos s) + unat f" using f D(6) unat_lt_32 [of "buf_wpos s"] by (intro unat_add_u32) linarith
  have e: "str_step (StrSetFrom f ys) s m = tt_buf_put (Some (ys @ [0])) (tt_strlen ys + 1) ?b m"
    using False D(5) by (simp add: tt_string_setfrom_def Let_def word_less_nat_alt)
  show ?thesis
  proof (rule put_cstr_cases [OF keepsD(1,2) [OF c(1)] ys c(3)], goal_cases)
    case 1
    then show ?case using f u D(10) by (intro answer_throw) (simp_all only: e, simp_all)
  next
    case (2 m')
    then show ?case using keeps_trans [OF c(1) 2(2)] f u D(10) by (intro answer_lost [where s' = ?b]) (simp_all only: e, simp_all)
  next
    case (3 s' m')
    then show ?case using keeps_trans [OF c(1) 3(2)] False D(2) c(2) by (intro answer_done [where s' = s']) (simp_all only: e, simp_all)
  qed
qed

lemma answer_setfrom_c:
  assumes st: "str_is s m (xs, sh)" and c: "c \<noteq> 0"
  shows "str_answer (StrSetChar f c) s m (xs, sh) (str_step (StrSetChar f c) s m)"
proof (cases "length xs \<le> unat f")
  case True
  then have "tt_string_len s \<le> f" using str_isD(5) [OF st] by (simp add: word_le_nat_alt)
  then show ?thesis using True st by (intro answer_same [where r = TT_FAIL]) (simp_all add: tt_string_setfrom_c_def)
next
  case False
  note D = str_isD [OF st]
  have le: "unat f + length [c] \<le> length xs" "0 \<notin> set [c]" using False c by simp_all
  obtain m' where m': "mem_store 1 m (buf_p s) (unat (buf_rpos s) + unat f) [c] = Inr m'" "keeps s m s m'"
    "str_ok s m' (overwrite (unat f) [c] xs)" using D(1) le by (rule str_overwrite)
  then show ?thesis
    using False D(2,5) by (intro answer_done [where s' = s]) (simp_all add: tt_string_setfrom_c_def word_le_nat_alt overwrite_single)
qed

end
