(* ===== verification/TT_String_Change.thy ===== *)
theory TT_String_Change
  imports TT_String_Calls
begin

text \<open>
  The answers of the calls on strings, continued: ranges, removal, appending, changing characters,
  trimming, insertion, and the theorem that every allowed call answers as specified.
\<close>

section \<open>Replacing a range\<close>

lemma sub_ok_null: "i \<le> length xs \<Longrightarrow> take i (xs @ [0]) = take i xs" "i \<le> length xs \<Longrightarrow> drop i (xs @ [0]) = drop i xs @ [0]"
  by simp_all

lemma str_okI:
  assumes "keeps s m s' m'" "buf_data s' m' = ys @ [0]" "0 \<notin> set ys"
  shows "str_ok s' m' ys"
  using assms keepsD [OF assms(1)] by (simp add: str_ok_def)

lemma no_null_parts: "0 \<notin> set xs \<Longrightarrow> 0 \<notin> set ys \<Longrightarrow> 0 \<notin> set (take i xs @ ys @ drop j xs)"
  using in_set_takeD [of 0 i xs] in_set_dropD [of 0 j xs] by auto

lemma answer_set_range:
  assumes st: "str_is s m (xs, sh)" and ys: "cstr_arg ys" and w: "unat f + unat n < 2 ^ 32"
  shows "str_answer (StrSetRange f n ys) s m (xs, sh) (str_step (StrSetRange f n ys) s m)"
proof -
  note D = str_isD [OF st]
  have u: "unat (f + n) = unat f + unat n" using w by (intro unat_add_u32) simp
  show ?thesis
  proof (cases "length xs < unat f + unat n")
    case True
    then show ?thesis using st u D(5) by (intro answer_same [where r = TT_E_BADARG]) (simp_all add: tt_string_set_range_def word_less_nat_alt)
  next
    case False
    have e: "str_step (StrSetRange f n ys) s m = tt_buf_set_range f n ys (tt_strlen ys) s m"
      using False u D(5) by (simp add: tt_string_set_range_def word_less_nat_alt)
    have le: "unat f + unat n \<le> length (buf_data s m)" and le': "unat f \<le> length xs" "unat f + unat n \<le> length xs"
      using False D(8) by simp_all
    have yl: "unat (tt_strlen ys) = length ys" using strlen_suc(2) [OF ys] .
    then have bl: "unat (tt_strlen ys) \<le> length ys" by simp
    let ?d = "tt_strlen ys - min n (tt_strlen ys)"
    have d: "unat ?d = length ys - unat n"
      using yl by (simp add: min_def word_le_nat_alt unat_sub_u32)
    have sz: "unat (buf_size s) < unat (buf_rpos s) + Suc (length ys + (length xs - unat n))" if "\<not> buf_room ?d s m"
      using that d D(6) False by (auto simp: buf_room_def)
    show ?thesis
    proof (rule buf_set_range_cases [OF D(3,4) le bl], goal_cases)
      case 1
      then show ?case using False sz D(10) by (intro answer_throw) (simp_all only: e, simp_all)
    next
      case (2 m')
      moreover have "keeps s m s m'" using 2(2,3) D(4) by (intro keeps_same_store)
      moreover have "mem_inv m'" using 2(2) by (simp add: buf_inv_def)
      ultimately show ?case using False str_same_store [OF D(1) 2(3)] D(2,10) sz
        by (intro answer_held [where s' = s]) (simp_all only: e, simp_all)
    next
      case (3 b' m')
      have "buf_data b' m' = (take (unat f) xs @ ys @ drop (unat f + unat n) xs) @ [0]"
        using 3(3) le' yl by (simp add: D(8))
      then have "str_ok b' m' (take (unat f) xs @ ys @ drop (unat f + unat n) xs)"
        using 3(2) no_null_parts [OF D(7), of ys] ys by (intro str_okI) (simp_all add: cstr_arg_def)
      then show ?case using 3(1,2,4) False D(2) set_range_rpos [OF 3(1)] by (intro answer_done [where s' = b']) (simp_all only: e, simp_all)
    qed
  qed
qed

section \<open>Removing\<close>

lemma answer_clear:
  assumes st: "str_is s m (xs, sh)"
  shows "str_answer StrClear s m (xs, sh) (str_step StrClear s m)"
proof -
  note D = str_isD [OF st]
  have sz: "0 + length [0 :: u8] \<le> unat (buf_size s)" using D(6) buf_inv_pos [OF D(3)] by simp
  from D(3) sz obtain m' where m': "mem_store 1 m (buf_p s) 0 [0] = Inr m'" "buf_inv s m'"
    "buf_cells s m' = overwrite 0 [0] (buf_cells s m)" "mem_frame (buf_foot s) m m'" "mem_heap m' = mem_heap m" by (rule buf_store)
  let ?s = "s\<lparr>buf_rpos := 0, buf_wpos := 1\<rparr>"
  have gt: "buf_size s > 0" using sz by (simp add: word_less_nat_alt)
  then have "keeps s m' ?s m'" using m'(2) D(4) sz by (intro keeps_pos) (simp_all add: word_le_nat_alt)
  then have k: "keeps s m ?s m'" by (rule keeps_trans [OF keeps_store [OF m'(2) D(4) m'(4,5)]])
  have "buf_data ?s m' = take 1 (buf_cells s m')" by (simp add: buf_data_def buf_cells_def)
  then have "buf_data ?s m' = [0]" using m'(3) by (simp add: overwrite_def)
  then have "str_ok ?s m' []" using k by (intro str_okI) simp_all
  then show ?thesis using k m'(1) gt D(4) by (intro answer_done [where s' = ?s]) (simp_all add: str_void_def tt_string_clear_def)
qed

lemma answer_remove_range:
  assumes st: "str_is s m (xs, sh)" and w: "unat f + unat n < 2 ^ 32"
  shows "str_answer (StrRemoveRange f n) s m (xs, sh) (str_step (StrRemoveRange f n) s m)"
proof (cases "length xs \<le> unat f")
  case True
  then show ?thesis using st str_isD(5) [OF st]
    by (intro answer_same [where r = TT_SUCCESS]) (simp_all add: tt_string_remove_range_def str_void_def word_le_nat_alt)
next
  case False
  note D = str_isD [OF st]
  have u: "unat (f + n) = unat f + unat n" using w by (intro unat_add_u32) simp
  let ?n = "if f + n \<ge> tt_string_len s then tt_string_len s - f else n"
  have t: "unat (f + ?n) = min (unat f + unat n) (length xs)"
    using u False D(5) by (auto simp: word_le_nat_alt)
  then have le: "f \<le> f + ?n" using False by (simp add: word_le_nat_alt)
  have e: "str_step (StrRemoveRange f n) s m = str_void (tt_buf_remove_range f (f + ?n) s m)"
    using False D(5) by (simp add: tt_string_remove_range_def word_le_nat_alt)
  show ?thesis
  proof (cases sh)
    case True
    then have "0 < buf_rpos s" using D(2) by (simp add: word_gt_0)
    from remove_range_blocked [OF D(3) this _ le] False D(8) have "tt_buf_remove_range f (f + ?n) s m = Inr (s, m)" by simp
    then show ?thesis using True st by (intro answer_same) (simp_all only: e, simp_all add: str_void_def)
  next
    case sh: False
    then have "buf_rpos s = 0" using D(2) by simp
    then obtain b' m' where r: "tt_buf_remove_range f (f + ?n) s m = Inr (b', m')" "keeps s m b' m'"
      "buf_data b' m' = take (unat f) (buf_data s m) @ drop (unat (f + ?n)) (buf_data s m)"
      using D(3,4) le by (elim remove_range_front [rotated 2])
    have "drop (min (unat f + unat n) (length xs)) xs = drop (unat f + unat n) xs" by (simp add: min_def)
    then have "buf_data b' m' = (take (unat f) xs @ [] @ drop (unat f + unat n) xs) @ [0]"
      using r(3) False by (simp add: D(8) t)
    then have "str_ok b' m' (take (unat f) xs @ [] @ drop (unat f + unat n) xs)"
      using r(2) no_null_parts [OF D(7), of "[]"] by (intro str_okI) simp_all
    then show ?thesis using r(1,2) sh D(2) remove_range_rpos [OF r(1)]
      by (intro answer_done [where s' = b']) (simp_all only: e, simp_all add: str_void_def)
  qed
qed

lemma answer_remove_head:
  assumes st: "str_is s m (xs, sh)"
  shows "str_answer (StrRemoveHead n) s m (xs, sh) (str_step (StrRemoveHead n) s m)"
proof -
  note D = str_isD [OF st]
  let ?k = "if n \<ge> tt_string_len s then tt_string_len s else n"
  have k: "unat ?k = min (unat n) (length xs)" using D(5) by (auto simp: word_le_nat_alt)
  have u: "unat (buf_rpos s + ?k) = unat (buf_rpos s) + min (unat n) (length xs)"
    unfolding k [symmetric] using k D(6) unat_lt_32 [of "buf_wpos s"] by (intro unat_add_u32) linarith
  let ?s = "s\<lparr>buf_rpos := buf_rpos s + ?k\<rparr>"
  have "\<not> ?k \<ge> TT_BUF_RLEN s" using k D(6) buf_rlen [OF D(3)] by (simp only: word_le_nat_alt)
  then have e: "str_step (StrRemoveHead n) s m = Inr (TT_SUCCESS, ?s, m)"
    by (simp only: str_step.simps tt_string_remove_head_def tt_string_remove_headto_def tt_buf_remove_headto_def Let_def if_False)
  have "buf_rpos s + ?k \<le> buf_wpos s" by (subst word_le_nat_alt, subst u) (simp add: D(6))
  then have kp: "keeps s m ?s m" by (rule keeps_rpos [OF D(3,4)])
  have "buf_data ?s m = drop (unat ?k) (buf_data s m)"
    using u k by (simp add: buf_data_def buf_cells_def drop_take add.commute)
  also have "\<dots> = drop (unat n) xs @ [0]" unfolding k D(8) by (simp add: min_def)
  finally have "str_ok ?s m (drop (unat n) xs)" using kp D(7) by (intro str_okI) (auto dest: in_set_dropD)
  moreover have "buf_rpos ?s \<noteq> 0 \<longleftrightarrow> sh \<or> xs \<noteq> [] \<and> n \<noteq> 0"
  proof -
    have "buf_rpos ?s = 0 \<longleftrightarrow> unat (buf_rpos s + ?k) = 0" by (simp only: unat_eq_0) simp
    then show ?thesis unfolding u using D(2) by (auto simp: min_def unat_eq_0)
  qed
  ultimately show ?thesis using e kp by (intro answer_done [where s' = ?s]) simp_all
qed

lemma answer_remove_headto:
  assumes st: "str_is s m (xs, sh)"
  shows "str_answer (StrRemoveHeadTo n) s m (xs, sh) (str_step (StrRemoveHeadTo n) s m)"
  using answer_remove_head [OF st, of n] by (simp add: str_answer_def tt_string_remove_head_def)

lemma answer_remove_tailfrom:
  assumes st: "str_is s m (xs, sh)"
  shows "str_answer (StrRemoveTailFrom f) s m (xs, sh) (str_step (StrRemoveTailFrom f) s m)"
proof (cases "length xs \<le> unat f")
  case True
  then show ?thesis using st str_isD(5) [OF st]
    by (intro answer_same) (simp_all add: tt_string_remove_tailfrom_def str_void_def word_le_nat_alt)
next
  case False
  note D = str_isD [OF st]
  let ?b = "s\<lparr>buf_wpos := buf_rpos s + f\<rparr>"
  have f: "unat f \<le> length xs" using False by simp
  note c = str_cut_is [OF st f]
  have "tt_buf_remove_tailfrom f s = ?b"
    using False D(6) buf_rlen [OF D(3)] by (simp add: tt_buf_remove_tailfrom_def word_le_nat_alt) (simp add: TT_BUF_RLEN_def)
  then have e: "str_step (StrRemoveTailFrom f) s m = str_void (bindr (tt_buf_put_u8 0 ?b m) (\<lambda>(_, s, m). Inr (s, m)))"
    using False D(5) by (simp add: tt_string_remove_tailfrom_def word_le_nat_alt)
  have sz: "\<not> unat (buf_size ?b) < unat (buf_wpos ?b) + 1" using c(4,5) buf_inv_pos [OF D(3)] by simp
  show ?thesis
  proof (rule put_null_cases [OF keepsD(1,2) [OF c(1)] c(3)], goal_cases)
    case (3 s' m')
    then show ?case using keeps_trans [OF c(1) 3(2)] D(2) c(2)
      by (intro answer_done [where s' = s']) (simp_all only: e, simp_all add: str_void_def)
  qed (use sz in simp_all)
qed

lemma answer_remove_tail:
  assumes st: "str_is s m (xs, sh)"
  shows "str_answer (StrRemoveTail n) s m (xs, sh) (str_step (StrRemoveTail n) s m)"
proof -
  note D = str_isD [OF st]
  let ?k = "if n \<le> tt_string_len s then tt_string_len s - n else 0"
  have "unat ?k = length xs - unat n" using D(5) by (auto simp: word_le_nat_alt unat_sub_u32)
  then have "str_spec (StrRemoveTail n) (xs, sh) = str_spec (StrRemoveTailFrom ?k) (xs, sh)" by simp
  moreover have "str_step (StrRemoveTail n) s m = str_step (StrRemoveTailFrom ?k) s m" by (simp add: tt_string_remove_tail_def Let_def)
  ultimately show ?thesis using answer_remove_tailfrom [OF st, of ?k] by (simp add: str_answer_def)
qed

section \<open>Appending\<close>

text \<open>Stepping back over the null leaves the characters.\<close>

lemma str_open:
  assumes st: "str_is s m (xs, sh)"
  shows "keeps s m (s\<lparr>buf_wpos := buf_wpos s - 1\<rparr>) m" "buf_data (s\<lparr>buf_wpos := buf_wpos s - 1\<rparr>) m = xs" "0 < buf_wpos s"
    "unat (buf_wpos s - 1) = unat (buf_wpos s) - 1" "unat (buf_wpos s - 1) = unat (buf_rpos s) + length xs" "s\<lparr>buf_wpos := buf_wpos s - 1 + 1\<rparr> = s"
proof -
  note D = str_isD [OF st]
  note n = str_cut_null [OF D(1)]
  have l: "unat (of_nat (length xs) :: u32) = length xs" using D(9) by (simp add: unat_of_nat take_bit_nat_eq_self)
  show "keeps s m (s\<lparr>buf_wpos := buf_wpos s - 1\<rparr>) m" "buf_data (s\<lparr>buf_wpos := buf_wpos s - 1\<rparr>) m = xs"
    using str_cut_is(1,2) [OF st, of "of_nat (length xs)"] l by (simp_all add: n(1))
  show "0 < buf_wpos s" by (fact n(2))
  then have "buf_wpos s \<noteq> 0" by simp
  then show u: "unat (buf_wpos s - 1) = unat (buf_wpos s) - 1" by (rule unat_minus_one)
  then show "unat (buf_wpos s - 1) = unat (buf_rpos s) + length xs" using D(6) by simp
qed simp

lemma answer_append:
  assumes st: "str_is s m (xs, sh)" and ys: "cstr_arg ys"
  shows "str_answer (StrAppend ys) s m (xs, sh) (str_step (StrAppend ys) s m)"
proof -
  note D = str_isD [OF st] and O = str_open [OF st]
  let ?b = "s\<lparr>buf_wpos := buf_wpos s - 1\<rparr>"
  have z: "0 \<notin> set (buf_data ?b m)" using O(2) D(7) by simp
  have e: "str_step (StrAppend ys) s m = bindr (tt_buf_put (Some (ys @ [0])) (tt_strlen ys + 1) ?b m) (\<lambda>(r, s, m).
      if TT_OK r then Inr (TT_SUCCESS, s, m) else Inr (TT_FAIL, s\<lparr>buf_wpos := buf_wpos s + 1\<rparr>, m))"
    using O(3) by (simp add: tt_string_append_def)
  show ?thesis
  proof (rule put_cstr_cases [OF keepsD(1,2) [OF O(1)] ys z], goal_cases)
    case 1
    then show ?case using O(5) D(10) by (intro answer_throw) (simp_all only: e, simp_all)
  next
    case (2 m')
    have "mem_inv m'" using keepsD(1) [OF 2(2)] by (simp add: buf_inv_def)
    note k = str_same_store [OF D(1) 2(3) this]
    show ?case using 2 k O(5) D(2,10) by (intro answer_held [where s' = s]) (simp_all only: e, simp_all)
  next
    case (3 s' m')
    then show ?case using keeps_trans [OF O(1) 3(2)] D(2) O(2) by (intro answer_done [where s' = s']) (simp_all only: e, simp_all)
  qed
qed

lemma answer_append_c:
  assumes st: "str_is s m (xs, sh)"
  shows "str_answer (StrAppendChar c) s m (xs, sh) (str_step (StrAppendChar c) s m)"
proof (cases "c = 0")
  case True
  then show ?thesis using st by (intro answer_same [where r = TT_SUCCESS]) (simp_all add: tt_string_append_c_def)
next
  case c: False
  note D = str_isD [OF st] and O = str_open [OF st]
  let ?k = "\<lambda>(s, m). bindr (TT_ASSERT (buf_wpos s > 0)) (\<lambda>_. bindr (mem_store 1 m (buf_p s) (unat (buf_wpos s - 1)) [c]) (\<lambda>m.
    bindr (mem_store 1 m (buf_p s) (unat (buf_wpos s)) [0]) (\<lambda>m. Inr (TT_SUCCESS, s\<lparr>buf_wpos := buf_wpos s + 1\<rparr>, m))))"
  have e: "str_step (StrAppendChar c) s m = TT_DO (tt_buf_reserve 1 s m) ?k" using c by (simp add: tt_string_append_c_def)
  note room = buf_reserve_room [OF D(3,4), of 1]
  show ?thesis
  proof (rule buf_reserve_cases [OF D(3,4), of 1], goal_cases)
    case 1
    then show ?case using room(1) c D(6,10) by (intro answer_throw) (simp_all only: e, simp_all)
  next
    case (2 m')
    have "mem_inv m'" using 2(2) by (simp add: buf_inv_def)
    note k = str_same_store [OF D(1) 2(3) this] and k' = keeps_same_store [OF 2(2) D(4) 2(3)]
    show ?case using 2 k k' room(2) [OF 2(1)] c D(2,6,10) by (intro answer_held [where s' = s]) (simp_all only: e, simp_all)
  next
    case (3 b1 m1)
    have k1: "keeps s m b1 m1" using 3 by (simp add: keeps_def)
    have d1: "buf_data b1 m1 = xs @ [0]" using 3(10) D(8) by simp
    have sz: "unat (buf_rpos b1) + length xs + length [c] \<le> unat (buf_size b1)" using 3(4,7) D(6) by simp
    from 3(2) sz obtain m2 where m2: "mem_store 1 m1 (buf_p b1) (unat (buf_rpos b1) + length xs) [c] = Inr m2" "buf_inv b1 m2"
      "buf_cells b1 m2 = overwrite (unat (buf_rpos b1) + length xs) [c] (buf_cells b1 m1)" "mem_frame (buf_foot b1) m1 m2"
      "mem_heap m2 = mem_heap m1" by (rule buf_store)
    have d2: "buf_data b1 m2 = xs @ [c]" using buf_data_overwrite [OF 3(2) m2(3)] by (simp add: d1 overwrite_def)
    have k2: "keeps s m b1 m2" by (rule keeps_trans [OF k1 keeps_store [OF m2(2) 3(3) m2(4,5)]])
    have l: "length [0 :: u8] = unat (1 :: u32)" and w: "unat (buf_wpos b1) + unat (1 :: u32) \<le> unat (buf_size b1)" using 3(5,7) by simp_all
    from m2(2) l w obtain m3 where m3: "mem_store 1 m2 (buf_p b1) (unat (buf_wpos b1)) [0] = Inr m3"
      "buf_inv (b1\<lparr>buf_wpos := buf_wpos b1 + 1\<rparr>) m3" "buf_data (b1\<lparr>buf_wpos := buf_wpos b1 + 1\<rparr>) m3 = buf_data b1 m2 @ [0]"
      "mem_frame (buf_foot b1) m2 m3" "mem_heap m3 = mem_heap m2" by (rule buf_store_at_wpos)
    let ?s = "b1\<lparr>buf_wpos := buf_wpos b1 + 1\<rparr>"
    have "keeps b1 m2 ?s m3" using m3(2,4,5) 3(3) by (simp add: keeps_def buf_foot_def)
    with k2 have k: "keeps s m ?s m3" by (rule keeps_trans)
    have "unat (buf_wpos b1 - 1) = unat (buf_rpos b1) + length xs" using O(5) 3(4,5) by simp
    then have "str_step (StrAppendChar c) s m = Inr (TT_SUCCESS, ?s, m3)" unfolding e using 3(1,5) O(3) m2(1) m3(1) by simp
    moreover have "str_ok ?s m3 (xs @ [c])" using k m3(3) d2 D(7) c by (intro str_okI) simp_all
    ultimately show ?case using k c D(2) 3(4) room(3) [OF 3(1)] by (intro answer_done [where s' = ?s]) simp_all
  qed
qed

lemma answer_append_rep:
  assumes st: "str_is s m (xs, sh)"
  shows "str_answer (StrAppendRep c n) s m (xs, sh) (str_step (StrAppendRep c n) s m)"
proof (cases "c = 0")
  case True
  then show ?thesis using st by (intro answer_same [where r = TT_SUCCESS]) (simp_all add: tt_string_append_rep_def)
next
  case False
  note D = str_isD [OF st] and O = str_open [OF st]
  let ?b = "s\<lparr>buf_wpos := buf_wpos s - 1\<rparr>"
  note c = put_out_rep [OF keepsD(1,2) [OF O(1)], of n c, unfolded O(2)]
  have z: "0 \<notin> set (xs @ replicate (unat n) c)" using D(7) False by auto
  have e: "str_step (StrAppendRep c n) s m = TT_DO (tt_buf_put_rep c n ?b m) (\<lambda>(s, m). tt_buf_put_u8 0 s m)"
    using O(3) False by (simp add: tt_string_append_rep_def)
  show ?thesis
  proof (rule put_then_null [OF c z], goal_cases)
    case 1
    then show ?case using O(5) D(10) False by (intro answer_throw) (simp_all only: e, simp_all add: Let_def)
  next
    case (2 s' m')
    then show ?case using keeps_trans [OF O(1) 2(2)] O(5) D(10) False by (intro answer_lost [where s' = s']) (simp_all only: e, simp_all add: Let_def)
  next
    case (3 s' m')
    then show ?case using keeps_trans [OF O(1) 3(2)] False D(2) by (intro answer_done [where s' = s']) (simp_all only: e, simp_all add: Let_def)
  qed
qed

lemma answer_append_sub:
  assumes st: "str_is s m (xs, sh)" and ys: "cstr_arg ys" and w: "unat f + unat n < 2 ^ 32"
  shows "str_answer (StrAppendSub ys f n) s m (xs, sh) (str_step (StrAppendSub ys f n) s m)"
proof (cases "length ys < unat f")
  case True
  then have "tt_strlen ys < f" using strlen_suc(2) [OF ys] by (simp add: word_less_nat_alt)
  then show ?thesis using True st by (intro answer_same [where r = TT_FAIL]) (simp_all add: tt_string_append_sub_def Let_def)
next
  case False
  note D = str_isD [OF st] and O = str_open [OF st]
  have f: "unat f \<le> length ys" using False by simp
  note L = sub_len [OF ys f w]
  let ?b = "s\<lparr>buf_wpos := buf_wpos s - 1\<rparr>"
  let ?k = "if tt_strlen ys < f + n then tt_strlen ys - f else n"
  let ?c = "tt_buf_put (Some (drop (unat f) (ys @ [0]))) ?k ?b m"
  have kl: "unat ?k \<le> length (drop (unat f) (ys @ [0]))" using L(1) f by simp
  note R = put_room_part [OF kl L(2), of ?b m]
  from put_out_put [OF keepsD(1,2) [OF O(1)] kl] have c: "put_out ?b m ?k (xs @ take (unat n) (drop (unat f) ys)) ?c"
    unfolding L(2) O(2) .
  have z: "0 \<notin> set (xs @ take (unat n) (drop (unat f) ys))"
    using ys D(7) unfolding cstr_arg_def by (auto dest: in_set_takeD in_set_dropD)
  have e: "str_step (StrAppendSub ys f n) s m = TT_DO ?c (\<lambda>(s, m). tt_buf_put_u8 0 s m)"
    using L(3) O(3) by (simp add: tt_string_append_sub_def Let_def)
  show ?thesis
  proof (rule put_then_null [OF c z], goal_cases)
    case 1
    then show ?case using L(1) f O(5) D(10) R by (intro answer_throw) (simp_all only: e, simp_all)
  next
    case (2 s' m')
    then show ?case using keeps_trans [OF O(1) 2(2)] L(1) f O(5) D(10) R by (intro answer_lost [where s' = s']) (simp_all only: e, simp_all)
  next
    case (3 s' m')
    then show ?case using keeps_trans [OF O(1) 3(2)] False D(2) R by (intro answer_done [where s' = s']) (simp_all only: e, simp_all)
  qed
qed

section \<open>Changing characters\<close>

lemma str_load_all: "str_is s m (xs, sh) \<Longrightarrow> cstr_load m (buf_p s) (tt_string_cstr s) = Inr xs"
  using cstr_load_str [of s m xs 0] by (simp add: tt_string_cstr_def)

lemma str_map:
  assumes st: "str_is s m (xs, sh)" and f: "\<And>c. c \<in> set xs \<Longrightarrow> f c \<noteq> 0"
  obtains m' where "mem_store 1 m (buf_p s) (tt_string_cstr s) (map f xs) = Inr m'" "keeps s m s m'" "str_is s m' (map f xs, sh)"
proof -
  note D = str_isD [OF st]
  have le: "0 + length (map f xs) \<le> length xs" and z: "0 \<notin> set (map f xs)" using f by (auto simp: image_iff)
  obtain m' where "mem_store 1 m (buf_p s) (unat (buf_rpos s) + 0) (map f xs) = Inr m'" "keeps s m s m'"
    "str_ok s m' (overwrite 0 (map f xs) xs)" using D(1) le z by (rule str_overwrite)
  then show thesis using that D(2) by (simp add: tt_string_cstr_def overwrite_def)
qed

lemma lower_upper_nz: "tt_tolower c = 0 \<longleftrightarrow> c = 0" "tt_toupper c = 0 \<longleftrightarrow> c = 0"
proof -
  have "c + 32 \<noteq> 0" if "c \<le> 90" using that by (auto simp: add_eq_0_iff2)
  then show "tt_tolower c = 0 \<longleftrightarrow> c = 0" by (auto simp: tt_tolower_def)
  show "tt_toupper c = 0 \<longleftrightarrow> c = 0" by (auto simp: tt_toupper_def)
qed

lemma answer_lower:
  assumes st: "str_is s m (xs, sh)"
  shows "str_answer StrLower s m (xs, sh) (str_step StrLower s m)" "str_answer StrUpper s m (xs, sh) (str_step StrUpper s m)"
proof -
  note D = str_isD [OF st]
  have nz: "c \<in> set xs \<Longrightarrow> tt_tolower c \<noteq> 0" "c \<in> set xs \<Longrightarrow> tt_toupper c \<noteq> 0" for c using D(7) by (auto simp: lower_upper_nz)
  obtain m1 where "mem_store 1 m (buf_p s) (tt_string_cstr s) (map tt_tolower xs) = Inr m1" "keeps s m s m1"
    "str_is s m1 (map tt_tolower xs, sh)" using st nz(1) by (rule str_map)
  then show "str_answer StrLower s m (xs, sh) (str_step StrLower s m)"
    using D(4) str_load_all [OF st] by (intro answer_done [where s' = s and m' = m1]) (simp_all add: tt_string_tolower_def)
  obtain m2 where "mem_store 1 m (buf_p s) (tt_string_cstr s) (map tt_toupper xs) = Inr m2" "keeps s m s m2"
    "str_is s m2 (map tt_toupper xs, sh)" using st nz(2) by (rule str_map)
  then show "str_answer StrUpper s m (xs, sh) (str_step StrUpper s m)"
    using D(4) str_load_all [OF st] by (intro answer_done [where s' = s and m' = m2]) (simp_all add: tt_string_toupper_def)
qed

text \<open>The number \<^verbatim>\<open>tt_string_replace_c\<close> returns is the number of the places it changed.\<close>

lemma replace_ok:
  assumes st: "str_is s m (xs, sh)" and d: "d \<noteq> 0" and l: "length xs < 2 ^ 31"
  obtains m' where "tt_string_replace_c c d s m = Inr (int (count_list xs c), m')" "keeps s m s m'"
    "str_is s m' (map (\<lambda>x. if x = c then d else x) xs, sh)"
proof -
  have nz: "(if x = c then d else x) \<noteq> 0" if "x \<in> set xs" for x using that d str_isD(7) [OF st] by auto
  obtain m' where m': "mem_store 1 m (buf_p s) (tt_string_cstr s) (map (\<lambda>x. if x = c then d else x) xs) = Inr m'" "keeps s m s m'"
    "str_is s m' (map (\<lambda>x. if x = c then d else x) xs, sh)" using st nz by (rule str_map)
  have "length (filter (\<lambda>x. x = c) xs) = count_list xs c" by (induction xs) auto
  moreover have "count_list xs c \<le> length xs" by (rule count_le_length)
  ultimately show thesis using that m' l str_load_all [OF st] by (simp add: tt_string_replace_c_def)
qed

lemma answer_replace:
  assumes st: "str_is s m (xs, sh)" and d: "d \<noteq> 0" and l: "length xs < 2 ^ 31"
  shows "str_answer (StrReplace c d) s m (xs, sh) (str_step (StrReplace c d) s m)"
proof -
  obtain m' where "tt_string_replace_c c d s m = Inr (int (count_list xs c), m')" "keeps s m s m'"
    "str_is s m' (map (\<lambda>x. if x = c then d else x) xs, sh)" using assms by (rule replace_ok)
  then show ?thesis by (intro answer_done [where s' = s and m' = m']) simp_all
qed

section \<open>Trimming\<close>

lemma trim_end_eq:
  assumes "b \<le> e" "e < length xs" "xs ! b \<noteq> 32"
  shows "b \<le> str_trim_end xs b e" "str_trim_end xs b e \<le> e"
    "take (Suc (str_trim_end xs b e) - b) (drop b xs) = rev (dropWhile (\<lambda>c. c = 32) (rev (take (Suc e - b) (drop b xs))))"
proof -
  have "b \<le> str_trim_end xs b e \<and> str_trim_end xs b e \<le> e \<and>
    take (Suc (str_trim_end xs b e) - b) (drop b xs) = rev (dropWhile (\<lambda>c. c = 32) (rev (take (Suc e - b) (drop b xs))))"
    using assms(1,2)
  proof (induction e)
    case 0
    then show ?case using assms(3) by (cases xs) auto
  next
    case (Suc e)
    have t: "take (Suc (Suc e) - b) (drop b xs) = take (Suc e - b) (drop b xs) @ [xs ! Suc e]"
      using Suc.prems by (simp add: Suc_diff_le take_Suc_conv_app_nth)
    show ?case
    proof (cases "b < Suc e \<and> xs ! Suc e = 32")
      case True
      then show ?thesis using Suc.IH Suc.prems t by simp
    next
      case False
      then have "xs ! Suc e \<noteq> 32" using assms(3) Suc.prems by (cases "b = Suc e") auto
      with False show ?thesis using Suc.prems t by auto
    qed
  qed
  then show "b \<le> str_trim_end xs b e" "str_trim_end xs b e \<le> e"
    "take (Suc (str_trim_end xs b e) - b) (drop b xs) = rev (dropWhile (\<lambda>c. c = 32) (rev (take (Suc e - b) (drop b xs))))" by blast+
qed

text \<open>Where the loops of \<^verbatim>\<open>tt_string_trim\<close> end, as the number \<open>n\<close> of characters from \<open>b\<close> on that stay.\<close>

lemma trim_bounds:
  assumes xs: "xs \<noteq> []" and b: "b = length (takeWhile (\<lambda>c. c = 32) xs)" and e: "e = str_trim_end xs b (length xs - 1)"
  obtains n where "int e - int b + 1 = int n" "b + n \<le> length xs" "take n (drop b xs) = trimmed xs"
proof (cases "b < length xs")
  case True
  have nb: "xs ! b \<noteq> 32" using nth_length_takeWhile [of "\<lambda>c. c = 32" xs] True b by simp
  note t = trim_end_eq [of b "length xs - 1" xs, folded e]
  have dw: "drop b xs = dropWhile (\<lambda>c. c = 32) xs" by (simp add: b dropWhile_eq_drop)
  have "take (length xs - b) (drop b xs) = drop b xs" by simp
  moreover have "trimmed xs = rev (dropWhile (\<lambda>c. c = 32) (rev (drop b xs)))" by (simp add: trimmed_def dw)
  ultimately have "take (Suc e - b) (drop b xs) = trimmed xs" using t(3) True nb by simp
  moreover have "int e - int b + 1 = int (Suc e - b)" "b + (Suc e - b) \<le> length xs" using t(1,2) True nb by linarith+
  ultimately show thesis using that by blast
next
  case False
  have bl: "b = length xs" using False length_takeWhile_le [of "\<lambda>c. c = 32" xs] by (simp add: b)
  then have "takeWhile (\<lambda>c. c = 32) xs = xs" using b takeWhile_eq_take [of "\<lambda>c. c = 32" xs] by simp
  then have "\<forall>x \<in> set xs. x = 32" by (simp add: takeWhile_eq_all_conv)
  then have "dropWhile (\<lambda>c. c = 32) xs = []" by simp
  then have "trimmed xs = []" by (simp only: trimmed_def rev.simps dropWhile.simps)
  moreover have "e = length xs - 1" using bl e by (cases "length xs - 1") auto
  then have "int e - int b + 1 = int 0" using bl xs by (cases xs) auto
  ultimately show thesis using that [of 0] bl by simp
qed

lemma answer_trim:
  assumes st: "str_is s m (xs, sh)"
  shows "str_answer StrTrim s m (xs, sh) (str_step StrTrim s m)"
proof (cases "xs = []")
  case True
  then have "tt_string_len s = 0" using str_isD(5) [OF st] by (simp add: unat_eq_0)
  then show ?thesis using True st str_isD(4) [OF st]
    by (intro answer_same [where r = TT_SUCCESS]) (simp_all add: tt_string_trim_def str_void_def trimmed_def)
next
  case False
  note D = str_isD [OF st]
  let ?b = "length (takeWhile (\<lambda>c. c = 32) xs)" and ?e = "str_trim_end xs (length (takeWhile (\<lambda>c. c = 32) xs)) (length xs - 1)"
  obtain n where n: "int ?e - int ?b + 1 = int n" "?b + n \<le> length xs" "take n (drop ?b xs) = trimmed xs"
    using False refl refl by (rule trim_bounds)
  obtain m1 m2 where mm: "tt_memmove 1 m (buf_p s) (unat (buf_rpos s)) (buf_p s) (unat (buf_rpos s) + ?b) n = Inr m1"
    "mem_store 1 m1 (buf_p s) (unat (buf_rpos s) + n) [0] = Inr m2"
    "keeps s m (s\<lparr>buf_wpos := buf_rpos s + (of_nat n + 1)\<rparr>) m2"
    "str_ok (s\<lparr>buf_wpos := buf_rpos s + (of_nat n + 1)\<rparr>) m2 (take n (drop ?b xs))" using D(1) n(2) by (rule str_move_front)
  have m0: "?b = 0 \<Longrightarrow> m1 = m" using mm(1) memmove_same [OF D(3), of "unat (buf_rpos s)" n] n(2) D(6) buf_inv_pos [OF D(3)] by simp
  have len: "tt_string_len s \<noteq> 0" using False D(5) by auto
  have ld: "mem_load 1 m (buf_p s) (tt_string_cstr s) (length xs) = Inr xs"
    using mem_load_str [OF D(1), of 0 "length xs"] by (simp add: tt_string_cstr_def)
  have un: "(of_int (int ?e - int ?b + 1) :: u32) = of_nat n" "unat (of_nat n :: u32) = n"
    using n(1,2) D(9) by (simp_all add: unat_of_nat take_bit_nat_eq_self)
  have mv: "(if ?b \<noteq> 0 then tt_memmove 1 m (buf_p s) (tt_string_cstr s) (buf_p s) (tt_string_cstr s + ?b) n else Inr m) = Inr m1"
    using mm(1) m0 by (cases "?b = 0") (simp_all add: tt_string_cstr_def)
  have "tt_string_trim s m = Inr (s\<lparr>buf_wpos := buf_rpos s + (of_nat n + 1)\<rparr>, m2)"
    unfolding tt_string_trim_def Let_def D(5) str_load_all [OF st] ld bindr_simps un mv
    using len D(4) mm(2) by (simp add: tt_string_cstr_def)
  then show ?thesis using mm(3,4) n(3) D(2) by (intro answer_done [where s' = "s\<lparr>buf_wpos := buf_rpos s + (of_nat n + 1)\<rparr>" and m' = m2]) (simp_all add: str_void_def)
qed

section \<open>Inserting\<close>

lemma insert_blocked:
  assumes inv: "buf_inv b m" and r: "0 < buf_rpos b" and i: "unat i \<le> length (buf_data b m)"
    and nn: "buf_data b m \<noteq> []" and i': "unat i < length (buf_data b m)"
  shows "tt_buf_insert i bs n b m = Inr (TT_FAIL, b, m)"
proof -
  have "unat (buf_rpos b) + unat i < unat (buf_wpos b)"
    using i' buf_inv_pos [OF inv] by (simp add: length_buf_data [OF inv] buf_rlen [OF inv])
  then have "unat (buf_rpos b + i) = unat (buf_rpos b) + unat i"
    using unat_lt_32 [of "buf_wpos b"] by (intro unat_add_u32) linarith
  then have "buf_rpos b + i > i" using r by (simp add: word_less_nat_alt)
  then show ?thesis by (simp add: tt_buf_insert_def)
qed

text \<open>Both insertions put characters \<open>ys\<close> at a position that is cut at the end.\<close>

lemma answer_insert_at:
  assumes st: "str_is s m (xs, sh)" and ys: "0 \<notin> set ys" "unat k = length ys"
    and e: "str_step c s m = TT_DO (tt_buf_insert (if f \<ge> tt_string_len s then tt_string_len s else f) ys k s m) (\<lambda>(s, m). Inr (TT_SUCCESS, s, m))"
    and sp: "str_spec c (xs, sh) = (if sh then (TT_FAIL, xs, sh) else (TT_SUCCESS, take (unat f) xs @ ys @ drop (unat f) xs, sh))"
    and need: "str_room c s m \<longleftrightarrow> buf_room k s m"
  shows "str_answer c s m (xs, sh) (str_step c s m)"
proof -
  note D = str_isD [OF st]
  let ?f = "if f \<ge> tt_string_len s then tt_string_len s else f"
  have u: "unat ?f = min (unat f) (length xs)" using D(5) by (auto simp: word_le_nat_alt)
  have f: "unat ?f \<le> length (buf_data s m)" "unat ?f < length (buf_data s m)" unfolding u D(8) by simp_all
  have e': "str_step c s m = tt_buf_insert ?f ys k s m" unfolding e by simp
  show ?thesis
  proof (cases sh)
    case True
    then have "0 < buf_rpos s" using D(2) by (simp add: word_gt_0)
    from insert_blocked [OF D(3) this f(1) _ f(2)] have "str_step c s m = Inr (TT_FAIL, s, m)" unfolding e' by (simp add: D(8))
    then show ?thesis using True st sp by (intro answer_same [where r = TT_FAIL]) simp_all
  next
    case False
    then have r: "buf_rpos s = 0" using D(2) by simp
    have sz: "unat (buf_size s) < Suc (length ys + length xs)" if "\<not> buf_room k s m"
      using that ys(2) D(6) r by (auto simp: buf_room_def)
    show ?thesis
    proof (rule insert_front [OF D(3,4) r f(1) ys(2)], goal_cases)
      case 1
      then show ?case using False sp need sz r D(10) by (intro answer_throw) (simp_all only: e', simp_all)
    next
      case (2 m')
      moreover have "mem_inv m'" using 2(2) by (simp add: buf_inv_def)
      moreover have "keeps s m s m'" using 2(2) D(4) 2(3) by (rule keeps_same_store)
      ultimately show ?case using False sp need str_same_store [OF D(1) 2(3)] D(2,10) sz r
        by (intro answer_held [where s' = s]) (simp_all only: e', simp_all)
    next
      case (3 b' m')
      have "buf_data b' m' = (take (unat f) xs @ ys @ drop (unat f) xs) @ [0]"
        using 3(3) unfolding u D(8) by (simp add: min_def split: if_splits)
      then have "str_ok b' m' (take (unat f) xs @ ys @ drop (unat f) xs)"
        using 3(2) no_null_parts [OF D(7) ys(1)] by (intro str_okI) simp_all
      then show ?case using 3(1,2,4) False D(2) sp need insert_rpos [OF 3(1)] by (intro answer_done [where s' = b']) (simp_all only: e', simp_all)
    qed
  qed
qed

lemma answer_insert:
  assumes st: "str_is s m (xs, sh)" and ys: "cstr_arg ys"
  shows "str_answer (StrInsert f ys) s m (xs, sh) (str_step (StrInsert f ys) s m)"
  using ys strlen_suc(2) [OF ys] by (intro answer_insert_at [OF st]) (auto simp: cstr_arg_def tt_string_insert_def Let_def)

lemma answer_insert_c:
  assumes st: "str_is s m (xs, sh)"
  shows "str_answer (StrInsertChar f c) s m (xs, sh) (str_step (StrInsertChar f c) s m)"
proof (cases "c = 0")
  case True
  then show ?thesis using st by (intro answer_same [where r = TT_FAIL]) (simp_all add: tt_string_insert_c_def)
next
  case False
  then show ?thesis by (intro answer_insert_at [OF st, where ys = "[c]" and k = 1 and f = f]) (simp_all add: tt_string_insert_c_def Let_def)
qed

section \<open>Every call\<close>

lemmas str_answers = answer_set answer_set_sub answer_setfrom answer_setfrom_c answer_set_range answer_clear answer_remove_range
  answer_remove_headto answer_remove_head answer_remove_tailfrom answer_remove_tail answer_append answer_append_c answer_append_rep answer_append_sub
  answer_replace answer_lower answer_trim answer_insert answer_insert_c

lemma str_step_answers:
  assumes "str_is s m t" "str_allowed c t"
  shows "str_answer c s m t (str_step c s m)"
proof -
  obtain xs sh where "t = (xs, sh)" by (cases t)
  then show ?thesis using assms by (cases c) (auto simp del: str_step.simps str_spec.simps str_is.simps intro: str_answers)
qed

end
