(* ===== verification/TT_String_Find.thy ===== *)
theory TT_String_Find
  imports TT_String_Change
begin

text \<open>
  The searches and comparisons of strings, on the characters: \<^verbatim>\<open>tt_strstr\<close> and its relatives find the first or the
  last occurrence, and the functions of \<^verbatim>\<open>tt_string_common.c\<close> report it as an index from the read position.
\<close>

section \<open>The C library\<close>

definition occurs :: "u8 list \<Rightarrow> u8 list \<Rightarrow> nat \<Rightarrow> bool" where "occurs ys xs i \<longleftrightarrow> take (length ys) (drop i xs) = ys"

text \<open>The first and the last of the positions below \<open>n\<close> a search is after, and the answer that reports it.\<close>

definition first_pos :: "(nat \<Rightarrow> bool) \<Rightarrow> nat \<Rightarrow> nat option \<Rightarrow> bool" where
  "first_pos P n r \<longleftrightarrow> (case r of None \<Rightarrow> \<forall>i<n. \<not> P i | Some i \<Rightarrow> i < n \<and> P i \<and> (\<forall>j<i. \<not> P j))"

definition last_pos :: "(nat \<Rightarrow> bool) \<Rightarrow> nat \<Rightarrow> nat option \<Rightarrow> bool" where
  "last_pos P n r \<longleftrightarrow> (case r of None \<Rightarrow> \<forall>i<n. \<not> P i | Some i \<Rightarrow> i < n \<and> P i \<and> (\<forall>j<n. i < j \<longrightarrow> \<not> P j))"

definition pos_word :: "nat option \<Rightarrow> u32" where "pos_word r = (case r of None \<Rightarrow> TT_POS_NULL | Some i \<Rightarrow> of_nat i)"

lemma first_pos_step:
  assumes "first_pos (\<lambda>i. P (Suc i)) n r"
  shows "first_pos P (Suc n) (if P 0 then Some 0 else map_option Suc r)"
  using assms by (cases r) (auto simp: first_pos_def All_less_Suc2)

lemma last_pos_step:
  assumes "last_pos (\<lambda>i. P (Suc i)) n r"
  shows "last_pos P (Suc n) (case r of Some i \<Rightarrow> Some (Suc i) | None \<Rightarrow> if P 0 then Some 0 else None)"
  using assms by (cases r) (auto simp: last_pos_def All_less_Suc2)

lemma strstr_first: "first_pos (occurs ys xs) (Suc (length xs)) (tt_strstr xs ys)"
proof (induction xs)
  case Nil
  then show ?case by (auto simp: first_pos_def occurs_def)
next
  case (Cons x xs)
  have "(\<lambda>i. occurs ys (x # xs) (Suc i)) = occurs ys xs"
    and "occurs ys (x # xs) 0 \<longleftrightarrow> take (length ys) (x # xs) = ys" by (simp_all add: occurs_def fun_eq_iff)
  with Cons first_pos_step [of "occurs ys (x # xs)" "Suc (length xs)" "tt_strstr xs ys"] show ?case by simp
qed

lemma strchr_first: "first_pos (\<lambda>i. (xs @ [0]) ! i = c) (Suc (length xs)) (tt_strchr xs c)"
proof (induction xs)
  case Nil
  then show ?case by (auto simp: first_pos_def)
next
  case (Cons x xs)
  with first_pos_step [of "\<lambda>i. ((x # xs) @ [0]) ! i = c" "Suc (length xs)" "tt_strchr xs c"] show ?case by simp
qed

lemma strrchr_last: "last_pos (\<lambda>i. (xs @ [0]) ! i = c) (Suc (length xs)) (tt_strrchr xs c)"
proof (induction xs)
  case Nil
  then show ?case by (auto simp: last_pos_def)
next
  case (Cons x xs)
  with last_pos_step [of "\<lambda>i. ((x # xs) @ [0]) ! i = c" "Suc (length xs)" "tt_strrchr xs c"] show ?case
    by (cases "tt_strrchr xs c"; cases "x = c") simp_all
qed

lemma strncmp_0: "tt_strncmp xs ys n = 0 \<longleftrightarrow> take n xs = take n ys"
  by (induction xs ys n rule: tt_strncmp.induct) auto

lemma strcmp_0: "tt_strcmp xs ys = 0 \<longleftrightarrow> xs = ys"
  by (simp add: tt_strcmp_def strncmp_0)

section \<open>The searches\<close>

lemma found_at_eq:
  assumes ok: "str_ok s m xs" and le: "\<And>i. r = Some i \<Longrightarrow> k + i \<le> length xs"
  shows "found_at s (unat (buf_rpos s) + k) r = Inr (pos_word (map_option ((+) k) r))"
  using le str_okD(6) [OF ok] by (cases r) (auto simp: found_at_def pos_word_def)

lemma first_pos_le: "first_pos P (Suc n) r \<Longrightarrow> r = Some i \<Longrightarrow> i \<le> n" "last_pos P (Suc n) r \<Longrightarrow> r = Some i \<Longrightarrow> i \<le> n"
  by (simp_all add: first_pos_def last_pos_def)

text \<open>From a position \<open>k\<close> on: the first at or behind it.\<close>

definition first_from :: "(nat \<Rightarrow> bool) \<Rightarrow> nat \<Rightarrow> nat \<Rightarrow> nat option \<Rightarrow> bool" where
  "first_from P k n r \<longleftrightarrow> (case r of None \<Rightarrow> \<forall>i<n. k \<le> i \<longrightarrow> \<not> P i | Some i \<Rightarrow> k \<le> i \<and> i < n \<and> P i \<and> (\<forall>j<i. k \<le> j \<longrightarrow> \<not> P j))"

lemma first_from_shift:
  assumes "first_pos (\<lambda>i. P (k + i)) (n - k) r"
  shows "first_from P k n (map_option ((+) k) r)"
proof (cases r)
  case None
  have "\<not> P i" if "i < n" "k \<le> i" for i using assms None that spec [of "\<lambda>i. i < n - k \<longrightarrow> \<not> P (k + i)" "i - k"] by (auto simp: first_pos_def)
  then show ?thesis using None by (simp add: first_from_def)
next
  case (Some i)
  have "\<not> P j" if "j < k + i" "k \<le> j" for j
    using assms Some that spec [of "\<lambda>j. j < i \<longrightarrow> \<not> P (k + j)" "j - k"] by (auto simp: first_pos_def)
  then show ?thesis using assms Some by (auto simp: first_from_def first_pos_def)
qed

lemma subcstr_eq:
  assumes ok: "str_ok s m xs"
  shows "fst (tt_string_subcstr s f) = (if unat f \<le> length xs then Some (unat (buf_rpos s) + unat f) else None)"
  using str_okD(8) [OF ok] by (simp add: tt_string_subcstr_def word_le_nat_alt)

lemma find_ok:
  assumes ok: "str_ok s m xs"
  shows "\<exists>r. tt_string_find s ys m = Inr (pos_word r) \<and> first_pos (occurs ys xs) (Suc (length xs)) r"
    "\<exists>r. tt_string_find_c s c m = Inr (pos_word r) \<and> first_pos (\<lambda>i. (xs @ [0]) ! i = c) (Suc (length xs)) r"
    "\<exists>r. tt_string_rfind_c s c m = Inr (pos_word r) \<and> last_pos (\<lambda>i. (xs @ [0]) ! i = c) (Suc (length xs)) r"
proof -
  have l: "cstr_load m (buf_p s) (tt_string_cstr s) = Inr xs" using cstr_load_str [OF ok, of 0] by (simp add: tt_string_cstr_def)
  have f: "found_at s (tt_string_cstr s) r = Inr (pos_word r)" if "\<And>i. r = Some i \<Longrightarrow> i \<le> length xs" for r
    using found_at_eq [OF ok, of r 0] that by (cases r) (simp_all add: tt_string_cstr_def)
  show "\<exists>r. tt_string_find s ys m = Inr (pos_word r) \<and> first_pos (occurs ys xs) (Suc (length xs)) r"
  proof (cases "ys = []")
    case True
    then show ?thesis by (intro exI [of _ "Some 0"]) (simp add: tt_string_find_def pos_word_def first_pos_def occurs_def)
  next
    case False
    then show ?thesis using strstr_first [of ys xs] f [of "tt_strstr xs ys"] first_pos_le(1) [OF strstr_first, of xs ys] l
      by (auto simp: tt_string_find_def)
  qed
  show "\<exists>r. tt_string_find_c s c m = Inr (pos_word r) \<and> first_pos (\<lambda>i. (xs @ [0]) ! i = c) (Suc (length xs)) r"
    using strchr_first [of xs c] f [of "tt_strchr xs c"] first_pos_le(1) [OF strchr_first, of xs c] l by (auto simp: tt_string_find_c_def)
  show "\<exists>r. tt_string_rfind_c s c m = Inr (pos_word r) \<and> last_pos (\<lambda>i. (xs @ [0]) ! i = c) (Suc (length xs)) r"
    using strrchr_last [of xs c] f [of "tt_strrchr xs c"] first_pos_le(2) [OF strrchr_last, of xs c] l by (auto simp: tt_string_rfind_c_def)
qed

lemma findfrom_ok:
  assumes ok: "str_ok s m xs"
  shows "\<exists>r. tt_string_findfrom s k ys m = Inr (pos_word r) \<and> first_from (occurs ys xs) (unat k) (Suc (length xs)) r"
    "\<exists>r. tt_string_findfrom_c s k c m = Inr (pos_word r) \<and> first_from (\<lambda>i. (xs @ [0]) ! i = c) (unat k) (Suc (length xs)) r"
proof -
  let ?k = "unat k"
  have none: "first_from P ?k (Suc (length xs)) None" if "\<not> ?k \<le> length xs" for P using that by (simp add: first_from_def)
  have "\<exists>r. tt_string_findfrom s k ys m = Inr (pos_word (map_option ((+) ?k) r))
      \<and> first_pos (\<lambda>i. occurs ys xs (?k + i)) (Suc (length xs) - ?k) r" if le: "?k \<le> length xs"
  proof -
    have o: "(\<lambda>i. occurs ys xs (?k + i)) = occurs ys (drop ?k xs)" by (simp add: occurs_def fun_eq_iff add.commute)
    have n: "Suc (length xs) - ?k = Suc (length (drop ?k xs))" using le by simp
    show ?thesis
    proof (cases "ys = []")
      case True
      then show ?thesis using le found_at_eq [OF ok, of "Some 0" ?k] subcstr_eq [OF ok, of k]
        by (intro exI [of _ "Some 0"]) (simp add: tt_string_findfrom_def first_pos_def occurs_def)
    next
      case False
      have "found_at s (unat (buf_rpos s) + ?k) (tt_strstr (drop ?k xs) ys) = Inr (pos_word (map_option ((+) ?k) (tt_strstr (drop ?k xs) ys)))"
        using first_pos_le(1) [OF strstr_first, of "drop ?k xs" ys] le by (intro found_at_eq [OF ok]) fastforce
      then show ?thesis using False le subcstr_eq [OF ok, of k] cstr_load_str [OF ok le] strstr_first [of ys "drop ?k xs"]
        unfolding o n by (auto simp: tt_string_findfrom_def)
    qed
  qed
  then show "\<exists>r. tt_string_findfrom s k ys m = Inr (pos_word r) \<and> first_from (occurs ys xs) ?k (Suc (length xs)) r"
    using none [of "occurs ys xs"] first_from_shift subcstr_eq [OF ok, of k]
    by (cases "?k \<le> length xs") (fastforce simp: tt_string_findfrom_def pos_word_def intro: exI [of _ None])+
  have "\<exists>r. tt_string_findfrom_c s k c m = Inr (pos_word (map_option ((+) ?k) r))
      \<and> first_pos (\<lambda>i. (xs @ [0]) ! (?k + i) = c) (Suc (length xs) - ?k) r" if le: "?k \<le> length xs"
  proof -
    have o: "(xs @ [0]) ! (?k + i) = (drop ?k xs @ [0]) ! i" for i
      using le nth_drop [of ?k "xs @ [0]" i] by simp
    have n: "Suc (length xs) - ?k = Suc (length (drop ?k xs))" using le by simp
    have "found_at s (unat (buf_rpos s) + ?k) (tt_strchr (drop ?k xs) c) = Inr (pos_word (map_option ((+) ?k) (tt_strchr (drop ?k xs) c)))"
      using first_pos_le(1) [OF strchr_first, of "drop ?k xs" c] le by (intro found_at_eq [OF ok]) fastforce
    then show ?thesis using le subcstr_eq [OF ok, of k] cstr_load_str [OF ok le] strchr_first [of "drop ?k xs" c]
      unfolding o n by (auto simp: tt_string_findfrom_c_def)
  qed
  then show "\<exists>r. tt_string_findfrom_c s k c m = Inr (pos_word r) \<and> first_from (\<lambda>i. (xs @ [0]) ! i = c) ?k (Suc (length xs)) r"
    using none [of "\<lambda>i. (xs @ [0]) ! i = c"] first_from_shift subcstr_eq [OF ok, of k]
    by (cases "?k \<le> length xs") (fastforce simp: tt_string_findfrom_c_def pos_word_def intro: exI [of _ None])+
qed

text \<open>The loop downwards finds the last place before the limit, which is cut at the end.\<close>

lemma rfind_loop_ok:
  assumes ok: "str_ok s m xs" and le: "unat f \<le> length xs"
  shows "\<exists>r. rfind_loop s f c m = Inr (pos_word r) \<and> last_pos (\<lambda>i. xs ! i = c) (unat f) r"
  using le
proof (induction "unat f" arbitrary: f)
  case 0
  then have "f = 0" by (simp add: unat_eq_0)
  then show ?case by (intro exI [of _ None]) (simp add: rfind_loop.simps pos_word_def last_pos_def)
next
  case (Suc n)
  then have nz: "f \<noteq> 0" by auto
  then have u: "unat (f - 1) = n" using Suc.hyps(2) by (simp add: unat_minus_one)
  then have fn: "f - 1 = of_nat n" by (metis of_nat_unat ucast_id)
  have n: "n < length xs" using Suc.hyps(2) Suc.prems by simp
  have "take 1 (drop n (xs @ [0])) = [xs ! n]" using n by (simp add: take_Suc_conv_app_nth nth_append take_Suc hd_drop_conv_nth)
  then have ld: "mem_load 1 m (buf_p s) (tt_string_cstr s + n) 1 = Inr [xs ! n]"
    using mem_load_str [OF ok, of n 1] n by (simp add: tt_string_cstr_def)
  show ?case
  proof (cases "xs ! n = c")
    case True
    have "rfind_loop s f c m = Inr (of_nat n)" using nz ld u True fn by (subst rfind_loop.simps) simp
    then show ?thesis using True Suc.hyps(2) by (intro exI [of _ "Some n"]) (simp add: pos_word_def last_pos_def flip: Suc.hyps(2))
  next
    case False
    have "rfind_loop s f c m = rfind_loop s (f - 1) c m" using nz ld u False by (subst rfind_loop.simps) simp
    moreover obtain r where r: "rfind_loop s (f - 1) c m = Inr (pos_word r)" "last_pos (\<lambda>i. xs ! i = c) n r"
      using Suc.hyps(1) [of "f - 1"] u n by auto
    moreover have "last_pos (\<lambda>i. xs ! i = c) (Suc n) r"
      using r(2) False by (auto simp: last_pos_def less_Suc_eq split: option.splits)
    ultimately show ?thesis by (metis Suc.hyps(2))
  qed
qed

lemma rfindfrom_ok:
  assumes ok: "str_ok s m xs"
  shows "\<exists>r. tt_string_rfindfrom_c s f c m = Inr (pos_word r) \<and> last_pos (\<lambda>i. xs ! i = c) (min (unat f) (length xs)) r"
proof -
  let ?f = "if f > tt_string_len s then tt_string_len s else f"
  have u: "unat ?f = min (unat f) (length xs)" using str_okD(8) [OF ok] by (auto simp: word_less_nat_alt)
  then show ?thesis using rfind_loop_ok [OF ok, of ?f c] unfolding u by (simp add: tt_string_rfindfrom_c_def Let_def)
qed

section \<open>The comparisons\<close>

lemma compare_ok:
  assumes ok: "str_ok s m xs" and ys: "cstr_arg ys"
  shows "tt_string_startwith s ys m = Inr (\<exists>zs. xs = ys @ zs)" "tt_string_endwith s ys m = Inr (\<exists>zs. xs = zs @ ys)"
    "\<exists>d. tt_string_cmp s ys m = Inr d \<and> (d = 0 \<longleftrightarrow> xs = ys)"
proof -
  have l: "cstr_load m (buf_p s) (tt_string_cstr s) = Inr xs" using cstr_load_str [OF ok, of 0] by (simp add: tt_string_cstr_def)
  note yl = strlen_suc(2) [OF ys] and sl = str_okD(8) [OF ok]
  have y0: "tt_strlen ys = 0 \<longleftrightarrow> ys = []" using yl by (auto simp: unat_eq_0 [symmetric])
  have "take (length ys) xs = ys \<longleftrightarrow> (\<exists>zs. xs = ys @ zs)" by (metis append_take_drop_id append_eq_conv_conj)
  then show "tt_string_startwith s ys m = Inr (\<exists>zs. xs = ys @ zs)"
    using y0 l yl sl by (auto simp: tt_string_startwith_def strncmp_0 word_less_nat_alt)
  let ?n = "length xs - length ys"
  show "tt_string_endwith s ys m = Inr (\<exists>zs. xs = zs @ ys)"
  proof (cases "length ys \<le> length xs")
    case True
    have ld: "cstr_load m (buf_p s) (tt_string_cstr s + unat (tt_string_len s) - unat (tt_strlen ys)) = Inr (drop ?n xs)"
      using cstr_load_str [OF ok, of ?n] True by (simp add: tt_string_cstr_def sl yl)
    have "drop ?n xs = ys \<longleftrightarrow> (\<exists>zs. xs = zs @ ys)" by (metis append_eq_conv_conj append_take_drop_id diff_add_inverse2 length_append)
    then show ?thesis using True y0 yl sl ld by (auto simp: tt_string_endwith_def strncmp_0 word_less_nat_alt)
  next
    case False
    then show ?thesis using y0 yl sl by (auto simp: tt_string_endwith_def word_less_nat_alt)
  qed
  show "\<exists>d. tt_string_cmp s ys m = Inr d \<and> (d = 0 \<longleftrightarrow> xs = ys)" using l by (simp add: tt_string_cmp_def strcmp_0)
qed

lemma getchar_ok:
  assumes ok: "str_ok s m xs"
  shows "tt_string_getchar s i m = Inr (if unat i < length xs then xs ! unat i else 0)" "tt_string_empty s \<longleftrightarrow> xs = []"
proof -
  have e: "take 1 (drop (unat i) (xs @ [0])) = [(xs @ [0]) ! unat i]" if "unat i \<le> length xs"
    using that Cons_nth_drop_Suc [of "unat i" "xs @ [0]", symmetric] by (simp del: drop_append)
  show "tt_string_getchar s i m = Inr (if unat i < length xs then xs ! unat i else 0)"
    using mem_load_str [OF ok, of "unat i" 1] e str_okD(5) [OF ok] nth_append_length [of xs "0 :: u8" "[]"]
    by (cases "unat i < length xs"; cases "unat i = length xs")
      (auto simp: tt_string_getchar_def Let_def word_less_nat_alt nth_append)
  have "unat (1 :: u32) = 1" by simp
  then show "tt_string_empty s \<longleftrightarrow> xs = []" using str_okD(5) [OF ok] by (simp add: tt_string_empty_def word_unat_eq_iff)
qed

end
