(* ===== verification/TT_String_Props.thy ===== *)
theory TT_String_Props
  imports TT_String_Find TT_Buffer_Props
begin

text \<open>
  The properties of strings: the life cycle from creation to destruction against the text, and the searches.
\<close>

section \<open>Life cycle\<close>

lemma create_rpos: "tt_buf_create b sz a m = Inr (TT_SUCCESS, b', m') \<Longrightarrow> buf_rpos b' = 0"
  by (auto simp: tt_buf_create_def TT_DO_def bindr_def Let_def split: if_splits sum.splits prod.splits)

lemma string_create_ok:
  assumes raw: "buf_raw b0 m0" and a: "buf_attr_ok (Some (string_attr attr))" and cs: "cstr_arg cs"
    and create: "tt_string_create b0 cs attr m0 = Inr (TT_SUCCESS, s, m)"
  shows "str_is s m (cs, False)" "buf_initbuf s = buf_initbuf b0" "mem_frame {buf_initbuf b0} m0 m" "mem_heap m - buf_foot s = mem_heap m0"
    "buf_foot s \<inter> dom (mem_blocks m0) \<subseteq> {buf_initbuf b0}"
proof -
  have "str_is s m (cs, False) \<and> buf_initbuf s = buf_initbuf b0 \<and> mem_frame {buf_initbuf b0} m0 m \<and>
      mem_heap m - buf_foot s = mem_heap m0 \<and> buf_foot s \<inter> dom (mem_blocks m0) \<subseteq> {buf_initbuf b0}" (is ?goal)
    using raw a
  proof (cases rule: buf_create_cases [where sz = "tt_strlen cs + 1"])
    case (fail b1 m1)
    then show ?goal using create by (simp add: tt_string_create_def tt_buf_create_copy_def Let_def)
  next
    case (ok b1 m1)
    have z: "0 \<notin> set (buf_data b1 m1)" using ok(3) by simp
    have "str_is s m (cs, False) \<and> keeps b1 m1 s m"
      by (rule put_cstr_cases [OF ok(2,5) cs z])
        (use create ok(1,3) create_rpos [OF ok(1)] in \<open>auto simp: tt_string_create_def tt_buf_create_copy_def Let_def\<close>)
    then have st: "str_is s m (cs, False)" and k: "keeps b1 m1 s m" by blast+
    note K = keepsD [OF k]
    have "mem_frame {buf_initbuf b0} m0 m" using ok(7) K(4) ok(9) by (rule frame_compose)
    moreover have "buf_foot s \<inter> dom (mem_blocks m0) \<subseteq> {buf_initbuf b0}" using K(5) ok(9) frame_dom [OF ok(7)] by blast
    ultimately show ?goal using st ok(6,8) K(3,6) by simp
  qed
  then show "str_is s m (cs, False)" "buf_initbuf s = buf_initbuf b0" "mem_frame {buf_initbuf b0} m0 m" "mem_heap m - buf_foot s = mem_heap m0"
    "buf_foot s \<inter> dom (mem_blocks m0) \<subseteq> {buf_initbuf b0}" by blast+
qed

text \<open>
  The states a string can be in after a sequence of allowed calls, with the text it stands for: a call either reported what
  is specified, or reported a lack of memory and is one that then leaves the text alone.
\<close>

inductive str_calls :: "tt_buf \<Rightarrow> bmem \<Rightarrow> u8 list \<times> bool \<Rightarrow> tt_buf \<Rightarrow> bmem \<Rightarrow> u8 list \<times> bool \<Rightarrow> bool" where
  none: "str_calls s m t s m t"
| call: "str_calls s m t s1 m1 t1 \<Longrightarrow> str_allowed c t1 \<Longrightarrow> str_step c s1 m1 = Inr (fst (str_spec c t1), s2, m2)
    \<Longrightarrow> str_calls s m t s2 m2 (snd (str_spec c t1))"
| held: "str_calls s m t s1 m1 t1 \<Longrightarrow> str_allowed c t1 \<Longrightarrow> str_holds c \<Longrightarrow> fst (str_spec c t1) = TT_SUCCESS
    \<Longrightarrow> str_step c s1 m1 = Inr (TT_FAIL, s2, m2) \<Longrightarrow> str_calls s m t s2 m2 t1"

lemma str_is_keeps: "str_is s m t \<Longrightarrow> keeps s m s m"
  by (cases t) (auto intro: keeps_refl dest: str_okD)

lemma str_calls_is:
  assumes "str_calls s m t s' m' t'" "str_is s m t"
  shows "str_is s' m' t' \<and> keeps s m s' m'"
  using assms
proof (induction rule: str_calls.induct)
  case (none s m t)
  then show ?case using str_is_keeps by simp
next
  case (call s m t s1 m1 t1 c s2 m2)
  have "str_answer c s1 m1 t1 (str_step c s1 m1)" using call by (intro str_step_answers) simp_all
  then have "keeps s1 m1 s2 m2 \<and> str_is s2 m2 (snd (str_spec c t1))"
    using call.hyps(3) by (auto simp: str_answer_def str_done_def str_failed_def split: if_splits)
  then show ?case using call keeps_trans by blast
next
  case (held s m t s1 m1 t1 c s2 m2)
  have "str_answer c s1 m1 t1 (str_step c s1 m1)" using held by (intro str_step_answers) simp_all
  then have "keeps s1 m1 s2 m2 \<and> str_is s2 m2 t1"
    using held.hyps(3-5) by (auto simp: str_answer_def str_done_def str_failed_def split: if_splits)
  then show ?case using held keeps_trans by blast
qed

lemma string_destroy_all:
  assumes k: "keeps s m s' m'" and s: "mem_frame {i} m0 m" "mem_heap m - buf_foot s = mem_heap m0" "buf_foot s \<inter> dom (mem_blocks m0) \<subseteq> {i}"
  shows "\<exists>d md. tt_string_destroy s' m' = Inr (d, md) \<and> mem_heap md = mem_heap m0 \<and> mem_frame {i} m0 md"
proof -
  note K = keepsD [OF k]
  obtain d md where d: "tt_buf_destroy s' m' = Inr (d, md)" "mem_frame (buf_foot s') m' md"
    "mem_heap md = (if buf_readonly s' then mem_heap m' else mem_heap m' - buf_foot s')" using K(1) by (rule buf_destroy_ok)
  have fr: "mem_frame {i} m0 m'" using s(1) K(4) s(3) by (rule frame_compose)
  have "buf_foot s' \<inter> dom (mem_blocks m0) \<subseteq> {i}" using K(5) s(3) frame_dom [OF s(1)] by blast
  with fr d(2) have "mem_frame {i} m0 md" by (rule frame_compose)
  then show ?thesis using d(1,3) K(2,6) s(2) by (simp add: tt_string_destroy_def)
qed

text \<open>
  C19: From a successful \<^verbatim>\<open>tt_string_create\<close>, through any sequence of the calls \<open>str_call\<close> with arguments as
  \<open>str_allowed\<close> demands, a string is the text the specification computes: its C string and its length say so, and the
  next such call answers as specified, exactly when it has room for its characters and the null in the storage, through
  the growth of the spring and from the allocator. There is room whenever the specified text with its null ends within
  the storage. Without room the call stops in an assertion or reports \<^verbatim>\<open>TT_FAIL\<close>, and then \<^verbatim>\<open>tt_string_append\<close>,
  \<^verbatim>\<open>tt_string_append_c\<close>, \<^verbatim>\<open>tt_string_set_range\<close> and the insertions leave the text alone. Whatever a call reported,
  destroying the string then frees all it has allocated and touches nothing else. The calls are setting (whole, a part,
  from a position, a character, a range), clearing, removing (a range, the head, the tail), appending (a C string, a
  character, repeated, a part), replacing, changing case, trimming and inserting; the C strings are free of nulls, no
  character becomes a null, a range does not end beyond 32 bits, and a text in which characters are replaced is shorter
  than \<open>2 ^ 31\<close>. Not among them are \<^verbatim>\<open>tt_string_append_f\<close>,
  \<^verbatim>\<open>tt_string_copy\<close>, \<^verbatim>\<open>tt_string_swap\<close>, \<^verbatim>\<open>tt_string_substr\<close> and the restoring of positions.
\<close>

theorem string_refines_text:
  assumes "buf_raw b0 m0" "buf_attr_ok (Some (string_attr attr))" "cstr_arg cs"
    and "tt_string_create b0 cs attr m0 = Inr (TT_SUCCESS, s, m)"
    and "str_calls s m (cs, False) s' m' t" "str_allowed c t"
  shows "cstr_load m' (buf_p s') (tt_string_cstr s') = Inr (fst t) \<and> unat (tt_string_len s') = length (fst t)
    \<and> (if fst (str_spec c t) = TT_SUCCESS \<and> \<not> str_room c s' m'
       then unat (buf_size s') < str_end s' (snd (str_spec c t)) \<and> str_failed s' m' (str_holds c) t (str_step c s' m')
       else str_done s' m' (str_spec c t) (str_step c s' m'))
    \<and> (\<forall>r s2 m2. str_step c s' m' = Inr (r, s2, m2) \<longrightarrow>
         (\<exists>d md. tt_string_destroy s2 m2 = Inr (d, md) \<and> mem_heap md = mem_heap m0 \<and> mem_frame {buf_initbuf b0} m0 md))"
proof -
  note C = string_create_ok [OF assms(1-4)]
  have st: "str_is s' m' t" and k: "keeps s m s' m'" using str_calls_is [OF assms(5) C(1)] by simp_all
  obtain xs sh where t: "t = (xs, sh)" by (cases t)
  have a: "str_answer c s' m' t (str_step c s' m')" using st assms(6) by (rule str_step_answers)
  have "keeps s m s2 m2" if "str_step c s' m' = Inr (r, s2, m2)" for r s2 m2
    using a that k keeps_trans by (fastforce simp: str_answer_def str_done_def str_failed_def split: if_splits)
  then show ?thesis
    using a st str_load_all [of s' m' xs sh] str_isD(5) [of s' m' xs sh] string_destroy_all [OF _ C(3-5)]
    unfolding str_answer_def t by auto
qed

section \<open>A concrete string\<close>

text \<open>The string \<^verbatim>\<open>ab\<close>, then \<^verbatim>\<open>xab\<close>, in the array of the struct.\<close>

definition demo_ab :: bmem where "demo_ab = demo_with [97, 98, 0]"

definition demo_xab :: bmem where "demo_xab = demo_with [120, 97, 98, 0]"

lemma demo_string:
  "tt_string_create demo_raw [97, 98] None demo_mem = Inr (TT_SUCCESS, demo_at 0 3, demo_ab)"
  "str_step (StrInsert 0 [120]) (demo_at 0 3) demo_ab = Inr (TT_SUCCESS, demo_at 0 4, demo_xab)"
  by (simp_all add: tt_string_create_def tt_strlen_def tt_buf_create_copy_def tt_buf_create_def string_attr_def
      tt_string_attr_default_def tt_buf_attr_default_def tt_memspg_init_def demo_raw_def demo_mem_def demo_at_def demo_buf_def
      demo_with_def demo_ab_def demo_xab_def mem_store_def overwrite_def Let_def TT_BUF_INIT_SIZE_def tt_buf_put_def tt_buf_reserve_def
      TT_BUF_WLEN_def TT_BUF_RLEN_def TT_BUF_CHECK_def src_bytes_def tt_string_insert_def tt_buf_insert_def tt_string_len_def
      tt_memmove_def mem_load_def)

theorem string_refines_text_witness:
  "str_calls (demo_at 0 3) demo_ab ([97, 98], False) (demo_at 0 4) demo_xab ([120, 97, 98], False)
    \<and> cstr_load demo_xab (buf_p (demo_at 0 4)) (tt_string_cstr (demo_at 0 4)) = Inr [120, 97, 98]"
proof -
  have a: "str_allowed (StrInsert 0 [120]) ([97, 98], False)" by (simp add: cstr_arg_def)
  have s: "str_step (StrInsert 0 [120]) (demo_at 0 3) demo_ab = Inr (fst (str_spec (StrInsert 0 [120]) ([97, 98], False)), demo_at 0 4, demo_xab)"
    using demo_string(2) by simp
  have c: "str_calls (demo_at 0 3) demo_ab ([97, 98], False) (demo_at 0 4) demo_xab ([120, 97, 98], False)"
    using str_calls.call [OF str_calls.none a s] by simp
  have at: "buf_attr_ok (Some (string_attr None))"
    by (simp add: buf_attr_ok_def string_attr_def tt_string_attr_default_def tt_buf_attr_default_def memspg_ok_def)
  have cs: "cstr_arg [97, 98]" and t: "str_allowed StrTrim ([120, 97, 98], False)" by (simp_all add: cstr_arg_def)
  from string_refines_text [OF demo_raw_ok(1) at cs demo_string(1) c t] c show ?thesis by simp
qed

section \<open>Searches\<close>

text \<open>
  C25: The queries, in every state \<^verbatim>\<open>tt_string_create\<close> and a sequence of allowed calls lead to. The searches for a
  substring or a character report the first occurrence, from a given position on if there is one, and those from the end the
  last one, before a given position; the terminating null counts as a character behind the last. \<^verbatim>\<open>TT_POS_NULL\<close> means
  that there is none. Prefix, suffix, equality, emptiness and single characters are those of the text.
\<close>

theorem string_queries:
  assumes "buf_raw b0 m0" "buf_attr_ok (Some (string_attr attr))" "cstr_arg cs"
    and "tt_string_create b0 cs attr m0 = Inr (TT_SUCCESS, s0, m1)"
    and "str_calls s0 m1 (cs, False) s m (xs, sh)" "cstr_arg ys"
  shows "(\<exists>r. tt_string_find s ys m = Inr (pos_word r) \<and> first_pos (occurs ys xs) (Suc (length xs)) r)
    \<and> (\<exists>r. tt_string_findfrom s f ys m = Inr (pos_word r) \<and> first_from (occurs ys xs) (unat f) (Suc (length xs)) r)
    \<and> (\<exists>r. tt_string_find_c s c m = Inr (pos_word r) \<and> first_pos (\<lambda>i. (xs @ [0]) ! i = c) (Suc (length xs)) r)
    \<and> (\<exists>r. tt_string_findfrom_c s f c m = Inr (pos_word r) \<and> first_from (\<lambda>i. (xs @ [0]) ! i = c) (unat f) (Suc (length xs)) r)
    \<and> (\<exists>r. tt_string_rfind_c s c m = Inr (pos_word r) \<and> last_pos (\<lambda>i. (xs @ [0]) ! i = c) (Suc (length xs)) r)
    \<and> (\<exists>r. tt_string_rfindfrom_c s f c m = Inr (pos_word r) \<and> last_pos (\<lambda>i. xs ! i = c) (min (unat f) (length xs)) r)
    \<and> tt_string_startwith s ys m = Inr (\<exists>zs. xs = ys @ zs) \<and> tt_string_endwith s ys m = Inr (\<exists>zs. xs = zs @ ys)
    \<and> (\<exists>d. tt_string_cmp s ys m = Inr d \<and> (d = 0 \<longleftrightarrow> xs = ys))
    \<and> tt_string_getchar s f m = Inr (if unat f < length xs then xs ! unat f else 0) \<and> (tt_string_empty s \<longleftrightarrow> xs = [])
    \<and> length xs < unat TT_POS_NULL"
proof -
  have "str_is s m (xs, sh)" using str_calls_is [OF assms(5) string_create_ok(1) [OF assms(1-4)]] by blast
  then have ok: "str_ok s m xs" by simp
  from find_ok [OF ok] findfrom_ok [OF ok] rfindfrom_ok [OF ok] compare_ok [OF ok assms(6)] getchar_ok [OF ok] str_okD(7) [OF ok]
  show ?thesis by simp
qed

theorem string_queries_witness:
  "tt_string_startwith (demo_at 0 3) [97] demo_ab = Inr True \<and> tt_string_empty (demo_at 0 3) = False"
proof -
  have at: "buf_attr_ok (Some (string_attr None))"
    by (simp add: buf_attr_ok_def string_attr_def tt_string_attr_default_def tt_buf_attr_default_def memspg_ok_def)
  have cs: "cstr_arg [97, 98]" "cstr_arg [97]" by (simp_all add: cstr_arg_def)
  from string_queries [OF demo_raw_ok(1) at cs(1) demo_string(1) str_calls.none cs(2)] show ?thesis by simp
qed

end
