(* ===== verification/TT_RWBuffer.thy ===== *)
theory TT_RWBuffer
  imports TT_Buffer_Props
begin

text \<open>
  The read buffer and the write buffer of \<^verbatim>\<open>algorithm/tt_read_buffer.c\<close> and
  \<^verbatim>\<open>algorithm/tt_write_buffer.c\<close>: streams of bytes that callbacks of the client cut into messages,
  with a decoder or an encoder between the stream and the messages; and the accessors of
  \<^verbatim>\<open>algorithm/tt_buffer.h\<close> for addresses in the storage. A callback is a function on the buffers it
  is given, the store, and what its \<^verbatim>\<open>param\<close> and other pointers of the client lead to, a value of
  a type \<open>'e\<close>; an interface has all its callbacks, as \<^verbatim>\<open>tt_rbuf_init\<close> and \<^verbatim>\<open>tt_wbuf_init\<close> assert.
\<close>

section \<open>Addresses in the storage of a buffer\<close>

type_synonym addr = "ptr \<times> nat"

definition tt_buf_get_rptr :: "tt_buf \<Rightarrow> addr \<times> u32" where
  "tt_buf_get_rptr buf = ((buf_p buf, unat (buf_rpos buf)), TT_BUF_RLEN buf)"

definition tt_buf_get_wptr :: "tt_buf \<Rightarrow> addr \<times> u32" where
  "tt_buf_get_wptr buf = ((buf_p buf, unat (buf_wpos buf)), TT_BUF_WLEN buf)"

text \<open>Comparing addresses of different objects is undefined.\<close>

definition tt_buf_set_rptr :: "addr \<Rightarrow> tt_buf \<Rightarrow> tt_buf run" where
  "tt_buf_set_rptr rptr buf =
    (if fst rptr \<noteq> buf_p buf then Inl Undef
     else bindr (TT_ASSERT_ALWAYS (snd rptr \<le> unat (buf_wpos buf))) (\<lambda>_.
       Inr (buf\<lparr>buf_rpos := of_nat (snd rptr)\<rparr>)))"

definition tt_buf_set_wptr :: "addr \<Rightarrow> tt_buf \<Rightarrow> tt_buf run" where
  "tt_buf_set_wptr wptr buf =
    (if fst wptr \<noteq> buf_p buf then Inl Undef
     else bindr (TT_ASSERT_ALWAYS (unat (buf_rpos buf) \<le> snd wptr \<and> snd wptr \<le> unat (buf_size buf))) (\<lambda>_.
       Inr (buf\<lparr>buf_wpos := of_nat (snd wptr)\<rparr>)))"

section \<open>Data\<close>

record 'e tt_rbuf_decode_itf =
  dec_prepare :: "tt_buf \<Rightarrow> u32 \<Rightarrow> bmem \<Rightarrow> 'e \<Rightarrow> (tt_result \<times> u32 \<times> tt_buf \<times> bmem \<times> 'e) run"
  dec_decode :: "tt_buf \<Rightarrow> u32 \<Rightarrow> tt_buf \<Rightarrow> bmem \<Rightarrow> 'e \<Rightarrow> (tt_result \<times> tt_buf \<times> tt_buf \<times> bmem \<times> 'e) run"

text \<open>The \<^verbatim>\<open>void *\<close> that \<^verbatim>\<open>parse\<close> returns, \<^verbatim>\<open>NULL\<close> before, is a value of type \<open>'r option\<close>.\<close>

record ('r, 'e) tt_rbuf_parse_itf =
  par_prepare :: "tt_buf \<Rightarrow> u32 \<Rightarrow> bmem \<Rightarrow> 'e \<Rightarrow> (tt_result \<times> u32 \<times> tt_buf \<times> bmem \<times> 'e) run"
  par_parse :: "tt_buf \<Rightarrow> u32 \<Rightarrow> 'r option \<Rightarrow> bmem \<Rightarrow> 'e \<Rightarrow> (tt_result \<times> 'r option \<times> tt_buf \<times> bmem \<times> 'e) run"
  par_done :: "'r option \<Rightarrow> bmem \<Rightarrow> 'e \<Rightarrow> (bmem \<times> 'e) run"

record tt_rbuf_attr =
  rawbuf_attr :: tt_buf_attr
  decbuf_attr :: tt_buf_attr
  rb_attr_refine_threshold :: u32

record ('r, 'e) tt_rbuf =
  rb_d_itf :: "'e tt_rbuf_decode_itf option"
  rb_p_itf :: "('r, 'e) tt_rbuf_parse_itf option"
  rb_raw :: tt_buf
  rb_dec :: tt_buf
  rb_refine_threshold :: u32

record 'e tt_wbuf_encode_itf =
  enc_prepare :: "tt_buf \<Rightarrow> u32 \<Rightarrow> bmem \<Rightarrow> 'e \<Rightarrow> (tt_result \<times> u32 \<times> tt_buf \<times> bmem \<times> 'e) run"
  enc_encode :: "tt_buf \<Rightarrow> u32 \<Rightarrow> tt_buf \<Rightarrow> bmem \<Rightarrow> 'e \<Rightarrow> (tt_result \<times> tt_buf \<times> tt_buf \<times> bmem \<times> 'e) run"

record ('m, 'e) tt_wbuf_render_itf =
  ren_prepare :: "'m \<Rightarrow> bmem \<Rightarrow> 'e \<Rightarrow> (u32 \<times> bmem \<times> 'e) run"
  ren_render :: "tt_buf \<Rightarrow> u32 \<Rightarrow> 'm \<Rightarrow> bmem \<Rightarrow> 'e \<Rightarrow> (tt_result \<times> tt_buf \<times> bmem \<times> 'e) run"

record tt_wbuf_attr =
  wb_rawbuf_attr :: tt_buf_attr
  encbuf_attr :: tt_buf_attr
  wb_attr_refine_threshold :: u32

record ('m, 'e) tt_wbuf =
  wb_e_itf :: "'e tt_wbuf_encode_itf option"
  wb_r_itf :: "('m, 'e) tt_wbuf_render_itf option"
  wb_raw :: tt_buf
  wb_enc :: tt_buf
  wb_refine_threshold :: u32

section \<open>The read buffer\<close>

definition tt_rbuf_attr_default :: tt_rbuf_attr where
  "tt_rbuf_attr_default = \<lparr>rawbuf_attr = tt_buf_attr_default, decbuf_attr = tt_buf_attr_default,
     rb_attr_refine_threshold = 1024\<rparr>"

definition tt_rbuf_init ::
  "('r, 'e) tt_rbuf \<Rightarrow> 'e tt_rbuf_decode_itf option \<Rightarrow> ('r, 'e) tt_rbuf_parse_itf option
    \<Rightarrow> tt_rbuf_attr option \<Rightarrow> bmem \<Rightarrow> (('r, 'e) tt_rbuf \<times> bmem) run" where
  "tt_rbuf_init rbuf d_itf p_itf attr m =
    bindr (TT_ASSERT (p_itf \<noteq> None)) (\<lambda>_.
    let attr = (case attr of None \<Rightarrow> tt_rbuf_attr_default | Some a \<Rightarrow> a);
        rbuf = rbuf\<lparr>rb_d_itf := d_itf, rb_p_itf := p_itf\<rparr> in
    bindr (tt_buf_init (rb_raw rbuf) (Some (rawbuf_attr attr)) m) (\<lambda>(raw, m).
    bindr (tt_buf_init (rb_dec rbuf) (Some (decbuf_attr attr)) m) (\<lambda>(dec, m).
    Inr (rbuf\<lparr>rb_raw := raw, rb_dec := dec, rb_refine_threshold := rb_attr_refine_threshold attr\<rparr>, m))))"

definition tt_rbuf_destroy :: "('r, 'e) tt_rbuf \<Rightarrow> bmem \<Rightarrow> (('r, 'e) tt_rbuf \<times> bmem) run" where
  "tt_rbuf_destroy rbuf m =
    bindr (tt_buf_destroy (rb_raw rbuf) m) (\<lambda>(raw, m).
    bindr (tt_buf_destroy (rb_dec rbuf) m) (\<lambda>(dec, m).
    Inr (rbuf\<lparr>rb_raw := raw, rb_dec := dec\<rparr>, m)))"

definition tt_rbuf_reserve :: "u32 \<Rightarrow> ('r, 'e) tt_rbuf \<Rightarrow> bmem \<Rightarrow> (tt_result \<times> ('r, 'e) tt_rbuf \<times> bmem) run" where
  "tt_rbuf_reserve n rbuf m =
    bindr (tt_buf_reserve n (rb_raw rbuf) m) (\<lambda>(r, raw, m). Inr (r, rbuf\<lparr>rb_raw := raw\<rparr>, m))"

definition tt_rbuf_clear :: "('r, 'e) tt_rbuf \<Rightarrow> ('r, 'e) tt_rbuf" where
  "tt_rbuf_clear rbuf = rbuf\<lparr>rb_raw := tt_buf_clear (rb_raw rbuf), rb_dec := tt_buf_clear (rb_dec rbuf)\<rparr>"

definition tt_rbuf_get_wptr :: "('r, 'e) tt_rbuf \<Rightarrow> addr \<times> u32" where
  "tt_rbuf_get_wptr rbuf = tt_buf_get_wptr (rb_raw rbuf)"

text \<open>
  The loop of \<^verbatim>\<open>__rbuf_decode\<close>. A \<^verbatim>\<open>break\<close> and the end of the data give \<open>TT_SUCCESS\<close> with
  \<^verbatim>\<open>has_dec\<close>, a \<^verbatim>\<open>return\<close> in the loop its result.
\<close>

partial_function (option) rbuf_decode_loop ::
  "'e tt_rbuf_decode_itf \<Rightarrow> bool \<Rightarrow> tt_buf \<Rightarrow> tt_buf \<Rightarrow> bmem \<Rightarrow> 'e
    \<Rightarrow> (tt_result \<times> bool \<times> tt_buf \<times> tt_buf \<times> bmem \<times> 'e) run option" where
  "rbuf_decode_loop d_itf has_dec raw dec m e =
    (if tt_buf_empty raw then Some (Inr (TT_SUCCESS, has_dec, raw, dec, m, e))
     else case tt_buf_backup_rwp raw of (rp, wp) \<Rightarrow>
       (case dec_prepare d_itf raw 0 m e of
          Inl f \<Rightarrow> Some (Inl f)
        | Inr (result, len, raw, m, e) \<Rightarrow>
          let raw = tt_buf_restore_rwp rp wp raw in
          if result = TT_E_BUF_NOBUFS then Some (Inr (TT_SUCCESS, has_dec, raw, dec, m, e))
          else if \<not> TT_OK result then Some (Inr (TT_FAIL, has_dec, raw, dec, m, e))
          else if \<not> (len \<noteq> 0 \<and> len \<le> TT_BUF_RLEN raw) then Some (Inl Throw)
          else case tt_buf_backup_rwp dec of (d_rp, d_wp) \<Rightarrow>
            (case dec_decode d_itf raw len dec m e of
               Inl f \<Rightarrow> Some (Inl f)
             | Inr (result, raw, dec, m, e) \<Rightarrow>
               if TT_OK result then rbuf_decode_loop d_itf True raw dec m e
               else let raw = snd (tt_buf_inc_rp len (tt_buf_restore_rwp rp wp raw));
                        dec = tt_buf_restore_rwp d_rp d_wp dec in
                 if result \<noteq> TT_E_PROCEED then Some (Inr (TT_FAIL, has_dec, raw, dec, m, e))
                 else rbuf_decode_loop d_itf True raw dec m e)))"

text \<open>\<^verbatim>\<open>data\<close> is the address of one of the two buffers: \<open>True\<close> stands for \<^verbatim>\<open>&rbuf->raw\<close>.\<close>

definition rbuf_decode ::
  "('r, 'e) tt_rbuf \<Rightarrow> bmem \<Rightarrow> 'e \<Rightarrow> (tt_result \<times> bool \<times> ('r, 'e) tt_rbuf \<times> bmem \<times> 'e) run" where
  "rbuf_decode rbuf m e =
    (case rb_d_itf rbuf of
       None \<Rightarrow> Inr (TT_SUCCESS, True, rbuf, m, e)
     | Some d_itf \<Rightarrow>
       bindr (returned (rbuf_decode_loop d_itf False (rb_raw rbuf) (rb_dec rbuf) m e))
         (\<lambda>(result, has_dec, raw, dec, m, e).
       if \<not> TT_OK result then Inr (result, False, rbuf\<lparr>rb_raw := raw, rb_dec := dec\<rparr>, m, e)
       else if has_dec then
         bindr (tt_buf_try_refine (rb_refine_threshold rbuf) raw m) (\<lambda>(n, raw, m).
         Inr (TT_SUCCESS, False, rbuf\<lparr>rb_raw := raw, rb_dec := dec\<rparr>, m, e))
       else Inr (TT_E_BUF_NOBUFS, False, rbuf\<lparr>rb_raw := raw, rb_dec := dec\<rparr>, m, e)))"

text \<open>The loop of \<^verbatim>\<open>__rbuf_parse\<close>.\<close>

partial_function (option) rbuf_parse_loop ::
  "('r, 'e) tt_rbuf_parse_itf \<Rightarrow> bool \<Rightarrow> tt_buf \<Rightarrow> bmem \<Rightarrow> 'e
    \<Rightarrow> (tt_result \<times> bool \<times> tt_buf \<times> bmem \<times> 'e) run option" where
  "rbuf_parse_loop p_itf has_parse data m e =
    (if tt_buf_empty data then Some (Inr (TT_SUCCESS, has_parse, data, m, e))
     else case tt_buf_backup_rwp data of (rp, wp) \<Rightarrow>
       (case par_prepare p_itf data 0 m e of
          Inl f \<Rightarrow> Some (Inl f)
        | Inr (result, len, data, m, e) \<Rightarrow>
          let data = tt_buf_restore_rwp rp wp data in
          if result = TT_E_BUF_NOBUFS then Some (Inr (TT_SUCCESS, has_parse, data, m, e))
          else if \<not> TT_OK result then Some (Inr (TT_FAIL, has_parse, data, m, e))
          else if \<not> (len \<noteq> 0 \<and> len \<le> TT_BUF_RLEN data) then Some (Inl Throw)
          else case par_parse p_itf data len None m e of
              Inl f \<Rightarrow> Some (Inl f)
            | Inr (result, parse_ret, data, m, e) \<Rightarrow>
              if TT_OK result then
                (case par_done p_itf parse_ret m e of
                   Inl f \<Rightarrow> Some (Inl f)
                 | Inr (m, e) \<Rightarrow> rbuf_parse_loop p_itf True data m e)
              else let data = snd (tt_buf_inc_rp len (tt_buf_restore_rwp rp wp data)) in
                if result \<noteq> TT_E_PROCEED then Some (Inr (TT_FAIL, has_parse, data, m, e))
                else rbuf_parse_loop p_itf True data m e))"

definition rbuf_parse ::
  "('r, 'e) tt_rbuf_parse_itf option \<Rightarrow> u32 \<Rightarrow> tt_buf \<Rightarrow> bmem \<Rightarrow> 'e \<Rightarrow> (tt_result \<times> tt_buf \<times> bmem \<times> 'e) run" where
  "rbuf_parse p_itf threshold data m e =
    (case p_itf of None \<Rightarrow> Inl Undef | Some p_itf \<Rightarrow>
       bindr (returned (rbuf_parse_loop p_itf False data m e)) (\<lambda>(result, has_parse, data, m, e).
       if \<not> TT_OK result then Inr (result, data, m, e)
       else if has_parse then
         bindr (tt_buf_try_refine threshold data m) (\<lambda>(n, data, m). Inr (TT_SUCCESS, data, m, e))
       else Inr (TT_E_BUF_NOBUFS, data, m, e)))"

definition tt_rbuf_inc_wp ::
  "u32 \<Rightarrow> ('r, 'e) tt_rbuf \<Rightarrow> bmem \<Rightarrow> 'e \<Rightarrow> (tt_result \<times> ('r, 'e) tt_rbuf \<times> bmem \<times> 'e) run" where
  "tt_rbuf_inc_wp num rbuf m e =
    (let rbuf = rbuf\<lparr>rb_raw := snd (tt_buf_inc_wp num (rb_raw rbuf))\<rparr> in
     bindr (rbuf_decode rbuf m e) (\<lambda>(r, is_raw, rbuf, m, e).
     if \<not> TT_OK r then Inr (r, rbuf, m, e)
     else bindr (rbuf_parse (rb_p_itf rbuf) (rb_refine_threshold rbuf)
                   (if is_raw then rb_raw rbuf else rb_dec rbuf) m e) (\<lambda>(r, data, m, e).
       let rbuf = (if is_raw then rbuf\<lparr>rb_raw := data\<rparr> else rbuf\<lparr>rb_dec := data\<rparr>) in
       if \<not> TT_OK r then Inr (r, rbuf, m, e) else Inr (TT_SUCCESS, rbuf, m, e))))"

section \<open>The write buffer\<close>

definition tt_wbuf_attr_default :: tt_wbuf_attr where
  "tt_wbuf_attr_default = \<lparr>wb_rawbuf_attr = tt_buf_attr_default, encbuf_attr = tt_buf_attr_default,
     wb_attr_refine_threshold = 1024\<rparr>"

definition tt_wbuf_init ::
  "('m, 'e) tt_wbuf \<Rightarrow> 'e tt_wbuf_encode_itf option \<Rightarrow> ('m, 'e) tt_wbuf_render_itf option
    \<Rightarrow> tt_wbuf_attr option \<Rightarrow> bmem \<Rightarrow> (('m, 'e) tt_wbuf \<times> bmem) run" where
  "tt_wbuf_init wbuf e_itf r_itf attr m =
    bindr (TT_ASSERT (r_itf \<noteq> None)) (\<lambda>_.
    let attr = (case attr of None \<Rightarrow> tt_wbuf_attr_default | Some a \<Rightarrow> a);
        wbuf = wbuf\<lparr>wb_e_itf := e_itf, wb_r_itf := r_itf\<rparr> in
    bindr (tt_buf_init (wb_raw wbuf) (Some (wb_rawbuf_attr attr)) m) (\<lambda>(raw, m).
    bindr (tt_buf_init (wb_enc wbuf) (Some (encbuf_attr attr)) m) (\<lambda>(enc, m).
    Inr (wbuf\<lparr>wb_raw := raw, wb_enc := enc, wb_refine_threshold := wb_attr_refine_threshold attr\<rparr>, m))))"

definition tt_wbuf_destroy :: "('m, 'e) tt_wbuf \<Rightarrow> bmem \<Rightarrow> (('m, 'e) tt_wbuf \<times> bmem) run" where
  "tt_wbuf_destroy wbuf m =
    bindr (tt_buf_destroy (wb_raw wbuf) m) (\<lambda>(raw, m).
    bindr (tt_buf_destroy (wb_enc wbuf) m) (\<lambda>(enc, m).
    Inr (wbuf\<lparr>wb_raw := raw, wb_enc := enc\<rparr>, m)))"

definition tt_wbuf_reserve :: "u32 \<Rightarrow> ('m, 'e) tt_wbuf \<Rightarrow> bmem \<Rightarrow> (tt_result \<times> ('m, 'e) tt_wbuf \<times> bmem) run" where
  "tt_wbuf_reserve n wbuf m =
    bindr (tt_buf_reserve n (wb_raw wbuf) m) (\<lambda>(r, raw, m). Inr (r, wbuf\<lparr>wb_raw := raw\<rparr>, m))"

definition tt_wbuf_clear :: "('m, 'e) tt_wbuf \<Rightarrow> ('m, 'e) tt_wbuf" where
  "tt_wbuf_clear wbuf = wbuf\<lparr>wb_raw := tt_buf_clear (wb_raw wbuf), wb_enc := tt_buf_clear (wb_enc wbuf)\<rparr>"

text \<open>
  \<^verbatim>\<open>__wbuf_render\<close>: the address and length of the rendered bytes, \<^verbatim>\<open>None\<close> when it fails.
\<close>

definition wbuf_render ::
  "'m \<Rightarrow> ('m, 'e) tt_wbuf \<Rightarrow> bmem \<Rightarrow> 'e \<Rightarrow> (tt_result \<times> (addr \<times> u32) option \<times> ('m, 'e) tt_wbuf \<times> bmem \<times> 'e) run" where
  "wbuf_render to_render wbuf m e =
    (case wb_r_itf wbuf of None \<Rightarrow> Inl Undef | Some r_itf \<Rightarrow>
     bindr (ren_prepare r_itf to_render m e) (\<lambda>(n, m, e).
     if n = 0 then Inr (TT_FAIL, None, wbuf, m, e)
     else case tt_buf_backup_rwp (wb_raw wbuf) of (rp, wp) \<Rightarrow>
       bindr (ren_render r_itf (wb_raw wbuf) n to_render m e) (\<lambda>(r, raw, m, e).
       if TT_OK r then
         bindr (TT_ASSERT (wp < buf_wpos raw)) (\<lambda>_.
         let n = (if buf_wpos raw - wp \<noteq> n then buf_wpos raw - wp else n) in
         Inr (TT_SUCCESS, Some ((buf_p raw, unat (buf_wpos raw - n)), n), wbuf\<lparr>wb_raw := raw\<rparr>, m, e))
       else Inr (TT_FAIL, None, wbuf\<lparr>wb_raw := tt_buf_restore_rwp rp wp raw\<rparr>, m, e))))"

text \<open>The loop of \<^verbatim>\<open>__wbuf_encode\<close>.\<close>

partial_function (option) wbuf_encode_loop ::
  "'e tt_wbuf_encode_itf \<Rightarrow> bool \<Rightarrow> tt_buf \<Rightarrow> tt_buf \<Rightarrow> bmem \<Rightarrow> 'e
    \<Rightarrow> (tt_result \<times> bool \<times> tt_buf \<times> tt_buf \<times> bmem \<times> 'e) run option" where
  "wbuf_encode_loop e_itf has_enc raw enc m e =
    (if tt_buf_empty raw then Some (Inr (TT_SUCCESS, has_enc, raw, enc, m, e))
     else case tt_buf_backup_rwp raw of (rp, wp) \<Rightarrow>
       (case enc_prepare e_itf raw 0 m e of
          Inl f \<Rightarrow> Some (Inl f)
        | Inr (result, len, raw, m, e) \<Rightarrow>
          let raw = tt_buf_restore_rwp rp wp raw in
          if result = TT_E_BUF_NOBUFS then Some (Inr (TT_SUCCESS, has_enc, raw, enc, m, e))
          else if \<not> TT_OK result then Some (Inr (TT_FAIL, has_enc, raw, enc, m, e))
          else if \<not> (len \<noteq> 0 \<and> len \<le> TT_BUF_RLEN raw) then Some (Inl Throw)
          else case tt_buf_backup_rwp enc of (e_rp, e_wp) \<Rightarrow>
            (case enc_encode e_itf raw len enc m e of
               Inl f \<Rightarrow> Some (Inl f)
             | Inr (result, raw, enc, m, e) \<Rightarrow>
               if TT_OK result then wbuf_encode_loop e_itf True raw enc m e
               else Some (Inr (TT_FAIL, has_enc, tt_buf_restore_rwp rp wp raw,
                                tt_buf_restore_rwp e_rp e_wp enc, m, e)))))"

definition wbuf_encode ::
  "('m, 'e) tt_wbuf \<Rightarrow> bmem \<Rightarrow> 'e \<Rightarrow> (tt_result \<times> ('m, 'e) tt_wbuf \<times> bmem \<times> 'e) run" where
  "wbuf_encode wbuf m e =
    (case wb_e_itf wbuf of
       None \<Rightarrow> Inr (TT_SUCCESS, wbuf, m, e)
     | Some e_itf \<Rightarrow>
       bindr (returned (wbuf_encode_loop e_itf False (wb_raw wbuf) (wb_enc wbuf) m e))
         (\<lambda>(result, has_enc, raw, enc, m, e).
       let wbuf = wbuf\<lparr>wb_raw := raw, wb_enc := enc\<rparr> in
       if \<not> TT_OK result then Inr (result, wbuf, m, e)
       else if has_enc then Inr (TT_SUCCESS, wbuf, m, e)
       else Inr (TT_E_BUF_NOBUFS, wbuf, m, e)))"

definition tt_wbuf_render ::
  "'m \<Rightarrow> ('m, 'e) tt_wbuf \<Rightarrow> bmem \<Rightarrow> 'e \<Rightarrow> (tt_result \<times> (addr \<times> u32) option \<times> ('m, 'e) tt_wbuf \<times> bmem \<times> 'e) run" where
  "tt_wbuf_render to_render wbuf m e =
    bindr (wbuf_render to_render wbuf m e) (\<lambda>(r, rendered, wbuf, m, e).
    if \<not> TT_OK r then Inr (TT_FAIL, rendered, wbuf, m, e)
    else bindr (wbuf_encode wbuf m e) (\<lambda>(r, wbuf, m, e).
      if \<not> TT_OK r then Inr (r, rendered, wbuf, m, e) else Inr (TT_SUCCESS, rendered, wbuf, m, e)))"

definition tt_wbuf_put ::
  "u8 list option \<Rightarrow> u32 \<Rightarrow> ('m, 'e) tt_wbuf \<Rightarrow> bmem \<Rightarrow> 'e \<Rightarrow> (tt_result \<times> ('m, 'e) tt_wbuf \<times> bmem \<times> 'e) run" where
  "tt_wbuf_put data data_len wbuf m e =
    bindr (tt_buf_put data data_len (wb_raw wbuf) m) (\<lambda>(r, raw, m).
    let wbuf = wbuf\<lparr>wb_raw := raw\<rparr> in
    if \<not> TT_OK r then Inr (r, wbuf, m, e)
    else bindr (wbuf_encode wbuf m e) (\<lambda>(r, wbuf, m, e).
      if \<not> TT_OK r then Inr (r, wbuf, m, e) else Inr (TT_SUCCESS, wbuf, m, e)))"

definition tt_wbuf_get_rptr :: "('m, 'e) tt_wbuf \<Rightarrow> addr \<times> u32" where
  "tt_wbuf_get_rptr wbuf =
    (if wb_e_itf wbuf \<noteq> None then tt_buf_get_rptr (wb_enc wbuf) else tt_buf_get_rptr (wb_raw wbuf))"

definition tt_wbuf_inc_rp ::
  "u32 \<Rightarrow> ('m, 'e) tt_wbuf \<Rightarrow> bmem \<Rightarrow> (tt_result \<times> ('m, 'e) tt_wbuf \<times> bmem) run" where
  "tt_wbuf_inc_rp num wbuf m =
    (if wb_e_itf wbuf \<noteq> None then
       let enc = snd (tt_buf_inc_rp num (wb_enc wbuf)) in
       bindr (tt_buf_try_refine (wb_refine_threshold wbuf) (wb_raw wbuf) m) (\<lambda>(n, raw, m).
       bindr (tt_buf_try_refine (wb_refine_threshold wbuf) enc m) (\<lambda>(n, enc, m).
       Inr (TT_SUCCESS, wbuf\<lparr>wb_raw := raw, wb_enc := enc\<rparr>, m)))
     else
       let raw = snd (tt_buf_inc_rp num (wb_raw wbuf)) in
       bindr (tt_buf_try_refine (wb_refine_threshold wbuf) raw m) (\<lambda>(n, raw, m).
       Inr (TT_SUCCESS, wbuf\<lparr>wb_raw := raw\<rparr>, m)))"

end
