(* ===== verification/TT_Stream.thy ===== *)
theory TT_Stream
  imports TT_RWBuffer
begin

text \<open>
  What the read and the write buffer promise: a stream of bytes that a protocol cuts into frames.
  \<open>cut\<close> looks at the bytes that have come and says where the first frame ends, \<open>body\<close> takes one
  frame and the state of the protocol. \<open>stream\<close> is the result of going through the bytes from the
  front; it does not depend on how the bytes were split on their way (\<open>stream_append\<close>). Then what
  the callbacks of a client have to do to implement a protocol.
\<close>

section \<open>Protocols\<close>

datatype verdict = Wait | Bad | Cut nat
datatype 'o outcome = Take 'o | Skip | Refuse

record ('o, 's) protocol =
  cut :: "u8 list \<Rightarrow> verdict"
  body :: "u8 list \<Rightarrow> 's \<Rightarrow> 'o outcome \<times> 's"

definition protocol_ok :: "('o, 's) protocol \<Rightarrow> bool" where
  "protocol_ok P \<longleftrightarrow>
     (\<forall>d n x. cut P d = Cut n \<longrightarrow> 0 < n \<and> n \<le> length d \<and> cut P (d @ x) = Cut n)
     \<and> (\<forall>d x. cut P d = Bad \<longrightarrow> cut P (d @ x) = Bad)"

text \<open>
  The result: whether the bytes are good so far, what the frames carried, the bytes of the unfinished
  frame, the state. A refused frame is dropped, and the bytes behind it are left for the next call.
\<close>

function stream :: "('o, 's) protocol \<Rightarrow> u8 list \<Rightarrow> 's \<Rightarrow> bool \<times> 'o list \<times> u8 list \<times> 's" where
  "stream P d s =
    (if d = [] then (True, [], [], s)
     else case cut P d of
       Wait \<Rightarrow> (True, [], d, s)
     | Bad \<Rightarrow> (False, [], d, s)
     | Cut n \<Rightarrow>
         if n = 0 \<or> length d < n then (False, [], d, s)
         else (case body P (take n d) s of
             (Refuse, s') \<Rightarrow> (False, [], drop n d, s')
           | (Skip, s') \<Rightarrow> stream P (drop n d) s'
           | (Take v, s') \<Rightarrow> (case stream P (drop n d) s' of (k, vs, rest, s'') \<Rightarrow> (k, v # vs, rest, s''))))"
  by pat_completeness auto
termination by (relation "measure (\<lambda>(P, d, s). length d)") auto

declare stream.simps [simp del]

lemma protocol_cut:
  assumes "protocol_ok P" "cut P d = Cut n"
  shows "0 < n" "n \<le> length d" "d \<noteq> []" "cut P (d @ x) = Cut n"
proof -
  show 1: "0 < n" "n \<le> length d" "cut P (d @ x) = Cut n"
    using assms unfolding protocol_ok_def by blast+
  then show "d \<noteq> []" by auto
qed

lemma protocol_bad: "protocol_ok P \<Longrightarrow> cut P d = Bad \<Longrightarrow> cut P (d @ x) = Bad"
  by (simp add: protocol_ok_def)

lemma stream_Nil [simp]: "stream P [] s = (True, [], [], s)"
  by (simp add: stream.simps)

lemma stream_Wait: "cut P d = Wait \<Longrightarrow> stream P d s = (True, [], d, s)"
  by (simp add: stream.simps)

lemma stream_Bad: "cut P d = Bad \<Longrightarrow> d \<noteq> [] \<Longrightarrow> stream P d s = (False, [], d, s)"
  by (simp add: stream.simps)

lemma stream_Cut:
  assumes "protocol_ok P" "cut P d = Cut n"
  shows "stream P d s = (case body P (take n d) s of
             (Refuse, s') \<Rightarrow> (False, [], drop n d, s')
           | (Skip, s') \<Rightarrow> stream P (drop n d) s'
           | (Take v, s') \<Rightarrow> (case stream P (drop n d) s' of (k, vs, rest, s'') \<Rightarrow> (k, v # vs, rest, s'')))"
  using protocol_cut [OF assms] by (subst stream.simps) (simp add: assms)

text \<open>Induction along the frames of a stream.\<close>

lemma stream_induct [consumes 1, case_names Nil Wait Bad Cut]:
  assumes ok: "protocol_ok P"
    and nil: "\<And>s. Q [] s"
    and wait: "\<And>d s. d \<noteq> [] \<Longrightarrow> cut P d = Wait \<Longrightarrow> Q d s"
    and bad: "\<And>d s. d \<noteq> [] \<Longrightarrow> cut P d = Bad \<Longrightarrow> Q d s"
    and cut: "\<And>d s n. d \<noteq> [] \<Longrightarrow> cut P d = Cut n \<Longrightarrow> 0 < n \<Longrightarrow> n \<le> length d \<Longrightarrow> (\<And>s. Q (drop n d) s) \<Longrightarrow> Q d s"
  shows "Q d s"
proof (induction d arbitrary: s rule: length_induct)
  case (1 d)
  show ?case
  proof (cases "d = []")
    case False
    show ?thesis
    proof (cases "cut P d")
      case (Cut n)
      note n = protocol_cut [OF ok Cut]
      have "Q (drop n d) s" for s
        using 1 n by auto
      with cut [OF False Cut] n show ?thesis by blast
    qed (use False wait bad in blast)+
  qed (use nil in blast)
qed

lemma stream_rest_length:
  assumes ok: "protocol_ok P"
  shows "stream P d s = (k, vs, rest, s') \<Longrightarrow> length rest \<le> length d"
  using ok
proof (induction d s arbitrary: k vs rest s' rule: stream_induct)
  case (Cut d s n)
  then show ?case
    using stream_Cut [OF ok Cut(2)]
    by (fastforce split: prod.splits outcome.splits)
qed (auto simp: stream_Wait stream_Bad)

text \<open>How the bytes are split does not matter while they are good.\<close>

lemma stream_append:
  assumes ok: "protocol_ok P"
  shows "stream P d s = (True, vs, rest, s') \<Longrightarrow>
    stream P (d @ x) s = (case stream P (rest @ x) s' of (k, ws, rest', s'') \<Rightarrow> (k, vs @ ws, rest', s''))"
  using ok
proof (induction d s arbitrary: vs rest s' rule: stream_induct)
  case (Cut d s n)
  have c: "cut P (d @ x) = Cut n"
    using protocol_cut [OF ok Cut(2)] by simp
  have t: "take n (d @ x) = take n d" "drop n (d @ x) = drop n d @ x"
    using Cut(4) by simp_all
  note e = stream_Cut [OF ok c, unfolded t] stream_Cut [OF ok Cut(2)]
  obtain w s1 where b: "body P (take n d) s = (w, s1)"
    by fastforce
  show ?case
  proof (cases w)
    case (Take v)
    obtain k vs1 r1 s2 where "stream P (drop n d) s1 = (k, vs1, r1, s2)"
      by (metis prod_cases4)
    with Take show ?thesis
      using Cut.prems Cut.IH [of s1 vs1 r1 s2] b by (auto simp: e split: prod.splits)
  qed (use Cut.prems Cut.IH b in \<open>auto simp: e\<close>)
qed (auto simp: stream_Wait stream_Bad split: prod.splits)

text \<open>What one call with new bytes answers, and a client's view of a sequence of calls.\<close>

definition stream_feed :: "('o, 's) protocol \<Rightarrow> u8 list \<Rightarrow> 's \<Rightarrow> tt_result \<times> u8 list \<times> 's" where
  "stream_feed P d s = (case stream P d s of (good, vs, rest, s') \<Rightarrow>
     (if \<not> good then TT_FAIL else if length rest = length d then TT_E_BUF_NOBUFS else TT_SUCCESS, rest, s'))"

end
