(* ===== verification/TT_RWBuffer_Read.thy ===== *)
theory TT_RWBuffer_Read
  imports TT_Stream
begin

text \<open>
  The read buffer of a client whose callbacks implement protocols: what the callbacks owe, the loops
  that decode and parse, and sequences of calls. The loops end, they keep both buffers apart and
  well-formed, and they go through the stream as the protocols say.
\<close>

section \<open>Two buffers\<close>

definition pair_inv :: "tt_buf \<Rightarrow> tt_buf \<Rightarrow> bmem \<Rightarrow> bool" where
  "pair_inv a b m \<longleftrightarrow> buf_inv a m \<and> \<not> buf_readonly a \<and> buf_inv b m \<and> \<not> buf_readonly b
     \<and> buf_foot a \<inter> buf_foot b = {}"

definition pair_keeps :: "tt_buf \<Rightarrow> tt_buf \<Rightarrow> bmem \<Rightarrow> tt_buf \<Rightarrow> tt_buf \<Rightarrow> bmem \<Rightarrow> bool" where
  "pair_keeps a b m a' b' m' \<longleftrightarrow> pair_inv a' b' m' \<and> buf_initbuf a' = buf_initbuf a
     \<and> buf_initbuf b' = buf_initbuf b \<and> owns_step (buf_foot a \<union> buf_foot b) m (buf_foot a' \<union> buf_foot b') m'"

lemma pair_invD:
  assumes "pair_inv a b m"
  shows "buf_inv a m" "\<not> buf_readonly a" "buf_inv b m" "\<not> buf_readonly b" "buf_foot a \<inter> buf_foot b = {}"
  using assms unfolding pair_inv_def by blast+

lemma pair_inv_commute: "pair_inv a b m = pair_inv b a m"
  by (auto simp: pair_inv_def)

lemma pair_keeps_commute: "pair_keeps a b m a' b' m' = pair_keeps b a m b' a' m'"
  by (auto simp: pair_keeps_def pair_inv_commute Un_commute)

lemma pair_keeps_refl: "pair_inv a b m \<Longrightarrow> pair_keeps a b m a b m"
  by (simp add: pair_keeps_def owns_refl)

lemma pair_keeps_trans: "pair_keeps a b m a1 b1 m1 \<Longrightarrow> pair_keeps a1 b1 m1 a2 b2 m2 \<Longrightarrow> pair_keeps a b m a2 b2 m2"
  by (auto simp: pair_keeps_def intro: owns_trans)

lemma pair_keeps_inv: "pair_keeps a b m a' b' m' \<Longrightarrow> pair_inv a' b' m'"
  by (simp add: pair_keeps_def)

lemma buf_foot_dom: "buf_inv b m \<Longrightarrow> buf_foot b \<subseteq> dom (mem_blocks m)"
  by (auto simp: buf_inv_def buf_foot_def points_to_def split: option.splits)

text \<open>A step of one buffer leaves the other as it is.\<close>

lemma other_buf:
  assumes fr: "mem_frame S m m'" and mi: "mem_inv m'" and inv: "buf_inv c m" and dis: "S \<inter> buf_foot c = {}"
  shows "buf_inv c m'" "buf_data c m' = buf_data c m"
proof -
  obtain i where i: "buf_p c = Some i" "mem_blocks m i = Some (buf_cells c m)"
    "length (buf_cells c m) = unat (buf_size c)"
    using inv by (rule buf_invE)
  obtain ib where ib: "mem_blocks m (buf_initbuf c) = Some ib" "length ib = 16" "buf_initbuf c \<notin> mem_heap m"
    using inv by (auto simp: buf_inv_def)
  have "i \<notin> S" "buf_initbuf c \<notin> S"
    using dis i(1) by (auto simp: buf_foot_def)
  note j = mem_frameD [OF fr i(2) this(1)] mem_frameD [OF fr ib(1) this(2)]
  have c: "buf_cells c m' = buf_cells c m"
    using i j by (simp add: buf_cells_def)
  then show "buf_data c m' = buf_data c m"
    by (simp add: buf_data_def)
  show "buf_inv c m'"
    using inv mi i j ib c by (auto simp: buf_inv_def points_to_def)
qed

lemma keeps_pair:
  assumes k: "keeps a m a' m'" and p: "pair_inv a b m"
  shows "pair_keeps a b m a' b m'" "buf_data b m' = buf_data b m"
proof -
  note p = pair_invD [OF p] and k = keepsD [OF k]
  have mi: "mem_inv m'"
    using k(1) by (simp add: buf_inv_def)
  note o = other_buf [OF k(4) mi p(3,5)]
  show "buf_data b m' = buf_data b m"
    by (rule o(2))
  have "buf_foot a' \<inter> buf_foot b = {}"
    using p(5) k(5) buf_foot_dom [OF p(3)] by blast
  moreover have "owns_step (buf_foot a \<union> buf_foot b) m (buf_foot a' \<union> buf_foot b) m'"
    using k(4-6) by (auto simp: owns_step_def mem_frame_def)
  ultimately show "pair_keeps a b m a' b m'"
    using o(1) k(1-3) p(4) by (simp add: pair_keeps_def pair_inv_def)
qed

lemma keeps_pair2:
  assumes "keeps b m b' m'" "pair_inv a b m"
  shows "pair_keeps a b m a b' m'" "buf_data a m' = buf_data a m"
  using keeps_pair [OF assms(1)] assms(2) by (metis pair_inv_commute pair_keeps_commute)+

section \<open>The same storage at other positions\<close>

definition placed :: "tt_buf \<Rightarrow> tt_buf \<Rightarrow> bool" where
  "placed b b' \<longleftrightarrow> (\<exists>r w. b' = b\<lparr>buf_rpos := r, buf_wpos := w\<rparr>)"

lemma placed_rpos [simp]: "placed b (b\<lparr>buf_rpos := r\<rparr>)"
  unfolding placed_def by (rule exI [of _ r], rule exI [of _ "buf_wpos b"]) simp

lemma placed_refl [simp]: "placed b b"
  using placed_rpos [of b "buf_rpos b"] by simp

lemma positions_commute: "b\<lparr>buf_wpos := w, buf_rpos := r\<rparr> = b\<lparr>buf_rpos := r, buf_wpos := w\<rparr>"
  by (cases b) simp

lemma placed_trans: "placed a b \<Longrightarrow> placed b c \<Longrightarrow> placed a c"
  unfolding placed_def by (cases a) fastforce

lemma restore_placed: "placed b b' \<Longrightarrow> tt_buf_restore_rwp (buf_rpos b) (buf_wpos b) b' = b"
  by (auto simp: placed_def tt_buf_restore_rwp_def)

lemma backup_eq: "tt_buf_backup_rwp b = (buf_rpos b, buf_wpos b)"
  by (simp add: tt_buf_backup_rwp_def)

lemma empty_iff:
  assumes inv: "buf_inv b m"
  shows "tt_buf_empty b \<longleftrightarrow> buf_data b m = []"
proof -
  have "tt_buf_empty b \<longleftrightarrow> length (buf_data b m) = 0"
    using length_buf_data [OF inv] buf_rlen [OF inv] buf_inv_pos(1) [OF inv]
    unfolding tt_buf_empty_def by (metis diff_is_0_eq' diff_self_eq_0 le_antisym word_unat_eq_iff diff_is_0_eq)
  then show ?thesis by simp
qed

lemma skip_len:
  assumes inv: "buf_inv b m" and rw: "\<not> buf_readonly b" and n: "unat len \<le> length (buf_data b m)"
  shows "snd (tt_buf_inc_rp len b) = b\<lparr>buf_rpos := buf_rpos b + len\<rparr>"
    "keeps b m (b\<lparr>buf_rpos := buf_rpos b + len\<rparr>) m"
    "buf_data (b\<lparr>buf_rpos := buf_rpos b + len\<rparr>) m = drop (unat len) (buf_data b m)"
    "buf_inv (b\<lparr>buf_rpos := buf_rpos b + len\<rparr>) m"
proof -
  show 1: "snd (tt_buf_inc_rp len b) = b\<lparr>buf_rpos := buf_rpos b + len\<rparr>"
    using n by (simp add: buf_inc_rp_eq [OF inv])
  show "keeps b m (b\<lparr>buf_rpos := buf_rpos b + len\<rparr>) m"
    using call_keeps_positions(1) [OF inv rw, of len] 1 by simp
  show "buf_data (b\<lparr>buf_rpos := buf_rpos b + len\<rparr>) m = drop (unat len) (buf_data b m)"
    "buf_inv (b\<lparr>buf_rpos := buf_rpos b + len\<rparr>) m"
    by (rule buf_inv_inc_rp [OF inv n])+
qed

text \<open>Going back to the positions before some bytes were appended drops them.\<close>

lemma restore_dropped:
  assumes k: "keeps b m b' m'" and inv: "buf_inv b m" and r: "buf_rpos b' = buf_rpos b"
    and t: "take (length (buf_data b m)) (buf_data b' m') = buf_data b m"
  shows "keeps b m (tt_buf_restore_rwp (buf_rpos b) (buf_wpos b) b') m'"
    "buf_data (tt_buf_restore_rwp (buf_rpos b) (buf_wpos b) b') m' = buf_data b m"
proof -
  note k' = keepsD [OF k] and p = buf_inv_pos [OF inv] and p' = buf_inv_pos [OF keepsD(1) [OF k]]
  let ?b = "tt_buf_restore_rwp (buf_rpos b) (buf_wpos b) b'"
  have l: "length (buf_data b m) = unat (buf_wpos b) - unat (buf_rpos b)"
    using inv by (simp add: length_buf_data buf_rlen)
  have l': "length (buf_data b' m') = unat (buf_wpos b') - unat (buf_rpos b)"
    using k'(1) r by (simp add: length_buf_data buf_rlen)
  have "length (buf_data b m) \<le> length (buf_data b' m')"
    using arg_cong [OF t, of length] by simp
  then have w: "unat (buf_wpos b) \<le> unat (buf_wpos b')"
    using l l' p p' [unfolded r] by linarith
  then have "buf_rpos b \<le> buf_wpos b" "buf_wpos b \<le> buf_size b'"
    using p p' by (simp_all add: word_le_nat_alt)
  from keeps_pos [OF k'(1,2) this] have k2: "keeps b' m' ?b m'"
    by (simp add: tt_buf_restore_rwp_def positions_commute)
  show "keeps b m ?b m'"
    using k k2 by (rule keeps_trans)
  show "buf_data ?b m' = buf_data b m"
  proof -
    let ?r = "unat (buf_rpos b)" and ?w = "unat (buf_wpos b)"
    have "buf_data ?b m' = take (?w - ?r) (drop ?r (buf_cells b' m'))"
      by (simp add: buf_data_def buf_cells_def tt_buf_restore_rwp_def)
    also have "\<dots> = take (?w - ?r) (take (unat (buf_wpos b') - ?r) (drop ?r (buf_cells b' m')))"
      using w by (simp add: min_def)
    also have "\<dots> = take (length (buf_data b m)) (buf_data b' m')"
      using l r by (simp add: buf_data_def)
    finally show ?thesis
      using t by simp
  qed
qed

lemma try_refine_ok:
  assumes inv: "buf_inv b m" and rw: "\<not> buf_readonly b"
  obtains n b' m' where "tt_buf_try_refine t b m = Inr (n, b', m')" "keeps b m b' m'" "buf_data b' m' = buf_data b m"
proof -
  obtain b' m' where r: "tt_buf_refine b m = Inr (buf_rpos b, b', m')" "buf_inv b' m'"
    "buf_data b' m' = buf_data b m" "buf_rpos b' = 0" "buf_size b' = buf_size b"
    "mem_frame (buf_foot b) m m'" "mem_heap m' = mem_heap m" "buf_foot b' = buf_foot b"
    "\<not> buf_readonly b'" "buf_initbuf b' = buf_initbuf b"
    using inv rw by (rule buf_refine_ok)
  show thesis
  proof (cases "tt_buf_empty b \<or> t \<le> TT_BUF_REFINABLE b")
    case True
    then show thesis
      using that [of "buf_rpos b" b' m'] r by (simp add: tt_buf_try_refine_def keeps_def)
  next
    case False
    then show thesis
      using that [of 0 b m] keeps_refl [OF inv rw] by (simp add: tt_buf_try_refine_def)
  qed
qed

section \<open>Obligations of the callbacks\<close>

text \<open>The environment is a pair: what the decoder works on, and what the parser works on.\<close>

definition answers :: "verdict \<Rightarrow> tt_result \<Rightarrow> u32 \<Rightarrow> bool" where
  "answers v r len \<longleftrightarrow> (case v of
     Wait \<Rightarrow> r = TT_E_BUF_NOBUFS
   | Bad \<Rightarrow> r \<noteq> TT_E_BUF_NOBUFS \<and> \<not> TT_OK r
   | Cut n \<Rightarrow> r = TT_SUCCESS \<and> unat len = n)"

definition prepares ::
  "(tt_buf \<Rightarrow> u32 \<Rightarrow> bmem \<Rightarrow> 'e \<Rightarrow> (tt_result \<times> u32 \<times> tt_buf \<times> bmem \<times> 'e) run) \<Rightarrow> (u8 list \<Rightarrow> verdict) \<Rightarrow> bool" where
  "prepares prep c \<longleftrightarrow> (\<forall>b m e. buf_inv b m \<longrightarrow> \<not> buf_readonly b \<longrightarrow> buf_data b m \<noteq> [] \<longrightarrow>
     (\<exists>r len b'. prep b 0 m e = Inr (r, len, b', m, e) \<and> placed b b' \<and> answers (c (buf_data b m)) r len))"

definition decoded ::
  "(u8 list, 's) protocol \<Rightarrow> tt_buf \<Rightarrow> u32 \<Rightarrow> tt_buf \<Rightarrow> bmem \<Rightarrow> 's \<Rightarrow> 't
    \<Rightarrow> (tt_result \<times> tt_buf \<times> tt_buf \<times> bmem \<times> 's \<times> 't) run \<Rightarrow> bool" where
  "decoded P raw n dec m s t out \<longleftrightarrow> (case out of Inl f \<Rightarrow> f = Throw
   | Inr (r, raw', dec', m', s', t') \<Rightarrow> t' = t \<and> placed raw raw' \<and> keeps dec m dec' m'
       \<and> buf_rpos dec' = buf_rpos dec \<and> take (length (buf_data dec m)) (buf_data dec' m') = buf_data dec m
       \<and> (r = TT_SUCCESS \<longrightarrow> raw' = raw\<lparr>buf_rpos := buf_rpos raw + n\<rparr>
            \<and> (\<exists>vs. body P (take (unat n) (buf_data raw m)) s = (Take vs, s') \<and> buf_data dec' m' = buf_data dec m @ vs))
       \<and> (r = TT_E_PROCEED \<longrightarrow> body P (take (unat n) (buf_data raw m)) s = (Skip, s')))"

definition decodes :: "('s \<times> 't) tt_rbuf_decode_itf \<Rightarrow> (u8 list, 's) protocol \<Rightarrow> bool" where
  "decodes itf P \<longleftrightarrow> protocol_ok P \<and> prepares (dec_prepare itf) (cut P)
     \<and> (\<forall>raw dec m s t n. pair_inv raw dec m \<longrightarrow> cut P (buf_data raw m) = Cut (unat n) \<longrightarrow>
          decoded P raw n dec m s t (dec_decode itf raw n dec m (s, t)))"

text \<open>
  The parser does not touch the store, so it fails on refused frames only. What \<^verbatim>\<open>done\<close> does with a
  message is part of the protocol.
\<close>

definition parsed ::
  "('r, 's \<times> 't) tt_rbuf_parse_itf \<Rightarrow> ('o, 't) protocol \<Rightarrow> tt_buf \<Rightarrow> u32 \<Rightarrow> bmem \<Rightarrow> 's \<Rightarrow> 't \<Rightarrow> bool" where
  "parsed itf Q b n m s t \<longleftrightarrow> (\<exists>r ret b' t1.
     par_parse itf b n None m (s, t) = Inr (r, ret, b', m, s, t1) \<and> placed b b' \<and>
     (case body Q (take (unat n) (buf_data b m)) t of
        (Take v, t') \<Rightarrow> r = TT_SUCCESS \<and> b' = b\<lparr>buf_rpos := buf_rpos b + n\<rparr>
          \<and> par_done itf ret m (s, t1) = Inr (m, s, t')
      | (Skip, t') \<Rightarrow> r = TT_E_PROCEED \<and> t1 = t'
      | (Refuse, t') \<Rightarrow> r \<noteq> TT_E_PROCEED \<and> \<not> TT_OK r \<and> t1 = t'))"

definition parses :: "('r, 's \<times> 't) tt_rbuf_parse_itf \<Rightarrow> ('o, 't) protocol \<Rightarrow> bool" where
  "parses itf Q \<longleftrightarrow> protocol_ok Q \<and> prepares (par_prepare itf) (cut Q)
     \<and> (\<forall>b m s t n. buf_inv b m \<longrightarrow> \<not> buf_readonly b \<longrightarrow> cut Q (buf_data b m) = Cut (unat n) \<longrightarrow>
          parsed itf Q b n m s t)"

lemma preparesE:
  assumes "prepares prep c" "buf_inv b m" "\<not> buf_readonly b" "buf_data b m \<noteq> []"
  obtains r len b' where "prep b 0 m e = Inr (r, len, b', m, e)"
    "tt_buf_restore_rwp (buf_rpos b) (buf_wpos b) b' = b" "answers (c (buf_data b m)) r len"
  using assms restore_placed unfolding prepares_def by metis

lemma cut_len:
  assumes "protocol_ok P" "cut P (buf_data b m) = Cut (unat n)" "buf_inv b m"
  shows "n \<noteq> 0" "n \<le> TT_BUF_RLEN b" "unat n \<le> length (buf_data b m)"
  using protocol_cut(1,2) [OF assms(1,2)] length_buf_data [OF assms(3)] by (auto simp: word_le_nat_alt)

lemma parsesE:
  assumes "parses itf Q" "buf_inv b m" "\<not> buf_readonly b" "cut Q (buf_data b m) = Cut (unat n)"
  obtains r ret b' t1 where "par_parse itf b n None m (s, t) = Inr (r, ret, b', m, s, t1)" "placed b b'"
    "case body Q (take (unat n) (buf_data b m)) t of
        (Take v, t') \<Rightarrow> r = TT_SUCCESS \<and> b' = b\<lparr>buf_rpos := buf_rpos b + n\<rparr>
          \<and> par_done itf ret m (s, t1) = Inr (m, s, t')
      | (Skip, t') \<Rightarrow> r = TT_E_PROCEED \<and> t1 = t'
      | (Refuse, t') \<Rightarrow> r \<noteq> TT_E_PROCEED \<and> \<not> TT_OK r \<and> t1 = t'"
proof -
  have "parsed itf Q b n m s t"
    using assms unfolding parses_def by blast
  then show thesis
    unfolding parsed_def using that by (elim exE conjE)
qed

section \<open>Parsing\<close>

definition parse_result ::
  "('o, 't) protocol \<Rightarrow> bool \<Rightarrow> tt_buf \<Rightarrow> bmem \<Rightarrow> 's \<Rightarrow> 't \<Rightarrow> (tt_result \<times> bool \<times> tt_buf \<times> bmem \<times> 's \<times> 't) run \<Rightarrow> bool" where
  "parse_result Q has b m s t out \<longleftrightarrow> (\<exists>has' b' vs good rest t'.
     out = Inr (if good then TT_SUCCESS else TT_FAIL, has', b', m, s, t') \<and> keeps b m b' m \<and> buf_data b' m = rest
     \<and> stream Q (buf_data b m) t = (good, vs, rest, t')
     \<and> (good \<longrightarrow> has' = (has \<or> length rest < length (buf_data b m))))"

lemma parse_result_step:
  assumes ok: "protocol_ok Q" and r: "parse_result Q True b1 m s t1 out" and k: "keeps b m b1 m"
    and lt: "length (buf_data b1 m) < length (buf_data b m)"
    and st: "stream Q (buf_data b m) t = (case stream Q (buf_data b1 m) t1 of (g, vs, rest, t') \<Rightarrow> (g, f vs, rest, t'))"
  shows "parse_result Q has b m s t out"
proof -
  obtain has' b' vs good rest t' where r: "out = Inr (if good then TT_SUCCESS else TT_FAIL, has', b', m, s, t')"
    "keeps b1 m b' m" "buf_data b' m = rest" "stream Q (buf_data b1 m) t1 = (good, vs, rest, t')" "good \<longrightarrow> has'"
    using r unfolding parse_result_def by auto
  have "length rest < length (buf_data b m)"
    using stream_rest_length [OF ok r(4)] lt by simp
  then show ?thesis
    using r st keeps_trans [OF k r(2)] unfolding parse_result_def by auto
qed

lemma parse_loop:
  assumes p: "parses itf Q"
  shows "buf_inv b m \<Longrightarrow> \<not> buf_readonly b \<Longrightarrow>
    \<exists>out. rbuf_parse_loop itf has b m (s, t) = Some out \<and> parse_result Q has b m s t out"
proof (induction "length (buf_data b m)" arbitrary: has b t rule: less_induct)
  case less
  note inv = less.prems(1) and rw = less.prems(2)
  have ok: "protocol_ok Q" using p by (simp add: parses_def)
  show ?case
  proof (cases "buf_data b m = []")
    case True
    then show ?thesis
      using keeps_refl [OF inv rw] empty_iff [OF inv]
      by (subst rbuf_parse_loop.simps) (auto simp: parse_result_def)
  next
    case ne: False
    have prep: "prepares (par_prepare itf) (cut Q)" using p by (simp add: parses_def)
    obtain r len b1 where pr: "par_prepare itf b 0 m (s, t) = Inr (r, len, b1, m, s, t)"
      "tt_buf_restore_rwp (buf_rpos b) (buf_wpos b) b1 = b" "answers (cut Q (buf_data b m)) r len"
      using prep inv rw ne by (rule preparesE)
    note step = rbuf_parse_loop.simps [of itf has b m "(s, t)"]
    show ?thesis
    proof (cases "cut Q (buf_data b m)")
      case Wait
      then show ?thesis
        using pr ne keeps_refl [OF inv rw] empty_iff [OF inv]
        by (subst step) (auto simp: parse_result_def backup_eq answers_def stream_Wait)
    next
      case Bad
      then show ?thesis
        using pr ne keeps_refl [OF inv rw] empty_iff [OF inv]
        by (subst step) (auto simp: parse_result_def backup_eq answers_def stream_Bad)
    next
      case (Cut k)
      then have r: "r = TT_SUCCESS" and c: "cut Q (buf_data b m) = Cut (unat len)"
        using pr(3) by (auto simp: answers_def)
      note n = cut_len [OF ok c inv] and st = stream_Cut [OF ok c, of t]
      obtain r2 ret b2 t1 where ps: "par_parse itf b len None m (s, t) = Inr (r2, ret, b2, m, s, t1)" "placed b b2"
        and bd: "case body Q (take (unat len) (buf_data b m)) t of
          (Take v, t') \<Rightarrow> r2 = TT_SUCCESS \<and> b2 = b\<lparr>buf_rpos := buf_rpos b + len\<rparr>
            \<and> par_done itf ret m (s, t1) = Inr (m, s, t')
        | (Skip, t') \<Rightarrow> r2 = TT_E_PROCEED \<and> t1 = t'
        | (Refuse, t') \<Rightarrow> r2 \<noteq> TT_E_PROCEED \<and> \<not> TT_OK r2 \<and> t1 = t'"
        by (rule parsesE [OF p inv rw c])
      let ?b = "b\<lparr>buf_rpos := buf_rpos b + len\<rparr>"
      note sk = skip_len [OF inv rw n(3)]
      have rw': "\<not> buf_readonly ?b" using rw by simp
      have lt: "length (buf_data ?b m) < length (buf_data b m)"
        using sk(3) n by (simp add: word_neq_0_conv word_less_nat_alt)
      have re: "tt_buf_restore_rwp (buf_rpos b) (buf_wpos b) b2 = b"
        using ps(2) by (rule restore_placed)
      have ne': "\<not> tt_buf_empty b" using ne empty_iff [OF inv] by simp
      note step1 = step [unfolded backup_eq]
      note IH = less.hyps [OF lt sk(4) rw', of True]
      obtain w t2 where w: "body Q (take (unat len) (buf_data b m)) t = (w, t2)"
        by fastforce
      show ?thesis
      proof (cases w)
        case (Take v)
        have eq: "rbuf_parse_loop itf has b m (s, t) = rbuf_parse_loop itf True ?b m (s, t2)"
          using bd w Take by (subst step1) (simp add: ne' pr(1,2) r n ps(1))
        show ?thesis
          unfolding eq using IH [of t2]
          by (auto intro!: parse_result_step [OF ok _ sk(2) lt, where f = "\<lambda>vs. v # vs"] simp: st w Take sk(3)
              split: prod.split)
      next
        case Skip
        have eq: "rbuf_parse_loop itf has b m (s, t) = rbuf_parse_loop itf True ?b m (s, t2)"
          using bd w Skip by (subst step1) (simp add: ne' pr(1,2) r n ps(1) re sk(1) TT_OK_def)
        show ?thesis
          unfolding eq using IH [of t2]
          by (auto intro!: parse_result_step [OF ok _ sk(2) lt, where f = "\<lambda>vs. vs"] simp: st w Skip sk(3)
              split: prod.split)
      next
        case Refuse
        have "rbuf_parse_loop itf has b m (s, t) = Some (Inr (TT_FAIL, has, ?b, m, s, t2))"
          using bd w Refuse by (subst step1) (simp add: ne' pr(1,2) r n ps(1) re sk(1))
        then show ?thesis
          using sk(2,3) st w Refuse by (auto simp: parse_result_def)
      qed
    qed
  qed
qed

section \<open>Decoding\<close>

text \<open>
  While all goes well the decoder has gone through the stream. It fails when the bytes are bad, and
  when memory for the decoded bytes runs out.
\<close>

definition decode_result ::
  "(u8 list, 's) protocol \<Rightarrow> bool \<Rightarrow> tt_buf \<Rightarrow> tt_buf \<Rightarrow> bmem \<Rightarrow> 's \<Rightarrow> 't
    \<Rightarrow> (tt_result \<times> bool \<times> tt_buf \<times> tt_buf \<times> bmem \<times> 's \<times> 't) run \<Rightarrow> bool" where
  "decode_result P has raw dec m s t out \<longleftrightarrow> (case out of Inl f \<Rightarrow> f = Throw
   | Inr (r, has', raw', dec', m', s', t') \<Rightarrow> t' = t \<and> pair_keeps raw dec m raw' dec' m'
       \<and> (r = TT_SUCCESS \<or> r = TT_FAIL)
       \<and> (r = TT_SUCCESS \<longrightarrow> (\<exists>vs. stream P (buf_data raw m) s = (True, vs, buf_data raw' m', s')
            \<and> buf_data dec' m' = buf_data dec m @ concat vs
            \<and> has' = (has \<or> length (buf_data raw' m') < length (buf_data raw m)))))"

lemma decode_result_step:
  assumes ok: "protocol_ok P" and r: "decode_result P True raw1 dec1 m1 s1 t out"
    and k: "pair_keeps raw dec m raw1 dec1 m1"
    and lt: "length (buf_data raw1 m1) < length (buf_data raw m)"
    and d: "buf_data dec1 m1 = buf_data dec m @ concat ws"
    and st: "stream P (buf_data raw m) s = (case stream P (buf_data raw1 m1) s1 of (g, vs, rest, s') \<Rightarrow> (g, ws @ vs, rest, s'))"
  shows "decode_result P has raw dec m s t out"
proof (cases out)
  case (Inl f)
  then show ?thesis using r by (simp add: decode_result_def)
next
  case (Inr x)
  obtain q has' raw' dec' m' s' t' where x: "x = (q, has', raw', dec', m', s', t')"
    by (cases x)
  note r = r [unfolded decode_result_def Inr x, simplified]
  have pk: "pair_keeps raw dec m raw' dec' m'"
    using k r by (blast intro: pair_keeps_trans)
  have "length (buf_data raw' m') < length (buf_data raw m)" if "q = TT_SUCCESS"
    using stream_rest_length [OF ok] r that lt by fastforce
  then show ?thesis
    using r pk st d unfolding decode_result_def Inr x by auto
qed

lemma decodesE:
  assumes "decodes itf P" "pair_inv raw dec m" "cut P (buf_data raw m) = Cut (unat n)"
  obtains (throw) "dec_decode itf raw n dec m (s, t) = Inl Throw"
  | (ret) r raw' dec' m' s' where "dec_decode itf raw n dec m (s, t) = Inr (r, raw', dec', m', s', t)"
      "placed raw raw'" "keeps dec m dec' m'" "buf_rpos dec' = buf_rpos dec"
      "take (length (buf_data dec m)) (buf_data dec' m') = buf_data dec m"
      "r = TT_SUCCESS \<Longrightarrow> raw' = raw\<lparr>buf_rpos := buf_rpos raw + n\<rparr>
            \<and> (\<exists>vs. body P (take (unat n) (buf_data raw m)) s = (Take vs, s') \<and> buf_data dec' m' = buf_data dec m @ vs)"
      "r = TT_E_PROCEED \<Longrightarrow> body P (take (unat n) (buf_data raw m)) s = (Skip, s')"
proof -
  have d: "decoded P raw n dec m s t (dec_decode itf raw n dec m (s, t))"
    using assms unfolding decodes_def by blast
  show thesis
  proof (cases "dec_decode itf raw n dec m (s, t)")
    case (Inl f)
    then show thesis using d throw by (simp add: decoded_def)
  next
    case (Inr x)
    obtain r raw' dec' m' s' t' where x: "x = (r, raw', dec', m', s', t')"
      by (cases x)
    show thesis
      using d ret [of r raw' dec' m' s'] unfolding decoded_def Inr x by simp
  qed
qed

lemma decode_loop:
  assumes p: "decodes itf P"
  shows "pair_inv raw dec m \<Longrightarrow>
    \<exists>out. rbuf_decode_loop itf has raw dec m (s, t) = Some out \<and> decode_result P has raw dec m s t out"
proof (induction "length (buf_data raw m)" arbitrary: has raw dec m s rule: less_induct)
  case less
  note pi = less.prems and inv = pair_invD(1,2) [OF less.prems]
  have ok: "protocol_ok P" using p by (simp add: decodes_def)
  note refl = pair_keeps_refl [OF pi]
  show ?case
  proof (cases "buf_data raw m = []")
    case True
    then show ?thesis
      using refl empty_iff [OF inv(1)]
      by (subst rbuf_decode_loop.simps) (auto simp: decode_result_def)
  next
    case ne: False
    have prep: "prepares (dec_prepare itf) (cut P)" using p by (simp add: decodes_def)
    obtain r len raw1 where pr: "dec_prepare itf raw 0 m (s, t) = Inr (r, len, raw1, m, s, t)"
      "tt_buf_restore_rwp (buf_rpos raw) (buf_wpos raw) raw1 = raw" "answers (cut P (buf_data raw m)) r len"
      using prep inv ne by (rule preparesE)
    have ne': "\<not> tt_buf_empty raw" using ne empty_iff [OF inv(1)] by simp
    note step = rbuf_decode_loop.simps [of itf has raw dec m "(s, t)", unfolded backup_eq]
    show ?thesis
    proof (cases "cut P (buf_data raw m)")
      case Wait
      then show ?thesis
        using pr ne' refl by (subst step) (auto simp: decode_result_def answers_def stream_Wait)
    next
      case Bad
      then show ?thesis
        using pr ne' refl by (subst step) (auto simp: decode_result_def answers_def)
    next
      case (Cut k)
      then have r: "r = TT_SUCCESS" and c: "cut P (buf_data raw m) = Cut (unat len)"
        using pr(3) by (auto simp: answers_def)
      note n = cut_len [OF ok c inv(1)] and st = stream_Cut [OF ok c, of s]
      let ?raw = "raw\<lparr>buf_rpos := buf_rpos raw + len\<rparr>"
      note sk = skip_len [OF inv n(3)]
      have lt: "length (buf_data ?raw m) < length (buf_data raw m)"
        using sk(3) n by (simp add: word_neq_0_conv word_less_nat_alt)
      note k1 = keeps_pair [OF sk(2) pi]
      show ?thesis
        using p pi c
      proof (cases rule: decodesE [where s = s and t = t])
        case throw
        have "rbuf_decode_loop itf has raw dec m (s, t) = Some (Inl Throw)"
          by (subst step) (simp add: ne' pr(1,2) r n throw)
        then show ?thesis by (simp add: decode_result_def)
      next
        case (ret r2 raw2 dec2 m2 s2)
        have re: "tt_buf_restore_rwp (buf_rpos raw) (buf_wpos raw) raw2 = raw"
          using ret(2) by (rule restore_placed)
        let ?dec = "tt_buf_restore_rwp (buf_rpos dec) (buf_wpos dec) dec2"
        note dr = restore_dropped [OF ret(3) pair_invD(3) [OF pi] ret(4,5)]
        note k2 = keeps_pair2 [OF dr(1) pi]
        have pos: "buf_rpos ?raw = buf_rpos raw + len" by simp
        have inv2: "buf_inv raw m2" "buf_data raw m2 = buf_data raw m"
          using k2 by (auto simp: pair_keeps_def pair_inv_def)
        have n2: "unat len \<le> length (buf_data raw m2)" using n inv2 by simp
        note sk2 = skip_len [OF inv2(1) inv(2) n2]
        have after: "pair_keeps raw dec m ?raw d m2" "buf_data ?raw m2 = drop (unat len) (buf_data raw m)"
          if "keeps dec m d m2" for d
        proof -
          note k = keeps_pair2 [OF that pi]
          show "pair_keeps raw dec m ?raw d m2"
            using k(1) keeps_pair(1) [OF sk2(2) pair_keeps_inv [OF k(1)]] by (rule pair_keeps_trans)
          show "buf_data ?raw m2 = drop (unat len) (buf_data raw m)"
            using sk2(3) inv2(2) by simp
        qed
        show ?thesis
        proof (cases "r2 = TT_SUCCESS")
          case True
          note s = ret(6) [OF True]
          obtain vs where vs: "body P (take (unat len) (buf_data raw m)) s = (Take vs, s2)"
            "buf_data dec2 m2 = buf_data dec m @ vs" using s by blast
          have eq: "rbuf_decode_loop itf has raw dec m (s, t) = rbuf_decode_loop itf True ?raw dec2 m2 (s2, t)"
            by (subst step) (simp add: ne' pr(1,2) r n ret(1) True s)
          note a = after [OF ret(3)]
          have lt2: "length (buf_data ?raw m2) < length (buf_data raw m)" using lt sk(3) a(2) by simp
          show ?thesis
            unfolding eq using less.hyps [OF lt2 pair_keeps_inv [OF a(1)], of True s2]
            by (auto intro!: decode_result_step [OF ok _ a(1) lt2, where ws = "[vs]"] simp: st vs a(2)
                split: prod.split)
        next
          case nok: False
          then have nok': "\<not> TT_OK r2" by (simp add: TT_OK_def)
          note a = after [OF dr(1)]
          have lt2: "length (buf_data ?raw m2) < length (buf_data raw m)" using lt sk(3) a(2) by simp
          show ?thesis
          proof (cases "r2 = TT_E_PROCEED")
            case True
            have eq: "rbuf_decode_loop itf has raw dec m (s, t) = rbuf_decode_loop itf True ?raw ?dec m2 (s2, t)"
              by (subst step) (simp add: ne' pr(1,2) r n ret(1) True re sk(1) TT_OK_def)
            show ?thesis
              unfolding eq using less.hyps [OF lt2 pair_keeps_inv [OF a(1)], of True s2]
              by (auto intro!: decode_result_step [OF ok _ a(1) lt2, where ws = "[]"]
                  simp: st ret(7) [OF True] a(2) dr(2) split: prod.split)
          next
            case False
            have "rbuf_decode_loop itf has raw dec m (s, t) = Some (Inr (TT_FAIL, has, ?raw, ?dec, m2, s2, t))"
              by (subst step) (simp add: ne' pr(1,2) r n ret(1) nok' False re sk(1))
            then show ?thesis
              using a(1) by (simp add: decode_result_def)
          qed
        qed
      qed
    qed
  qed
qed

section \<open>Feeding a read buffer\<close>

text \<open>
  How a reader uses the buffer: it reserves room, writes the bytes that came to the address
  \<^verbatim>\<open>tt_rbuf_get_wptr\<close> gives, and calls \<^verbatim>\<open>tt_rbuf_inc_wp\<close>.
\<close>

definition rbuf_feed ::
  "u8 list \<Rightarrow> ('r, 'e) tt_rbuf \<Rightarrow> bmem \<Rightarrow> 'e \<Rightarrow> (tt_result \<times> ('r, 'e) tt_rbuf \<times> bmem \<times> 'e) run" where
  "rbuf_feed bs rbuf m e =
    bindr (tt_rbuf_reserve (of_nat (length bs)) rbuf m) (\<lambda>(r, rbuf, m).
    if \<not> TT_OK r then Inr (r, rbuf, m, e)
    else case tt_rbuf_get_wptr rbuf of ((p, off), n) \<Rightarrow>
      bindr (mem_store 1 m p off bs) (\<lambda>m. tt_rbuf_inc_wp (of_nat (length bs)) rbuf m e))"

primrec rbuf_feeds ::
  "u8 list list \<Rightarrow> ('r, 'e) tt_rbuf \<Rightarrow> bmem \<Rightarrow> 'e \<Rightarrow> (tt_result list \<times> ('r, 'e) tt_rbuf \<times> bmem \<times> 'e) run" where
  "rbuf_feeds [] rbuf m e = Inr ([], rbuf, m, e)"
| "rbuf_feeds (bs # bss) rbuf m e =
    bindr (rbuf_feed bs rbuf m e) (\<lambda>(r, rbuf, m, e).
    bindr (rbuf_feeds bss rbuf m e) (\<lambda>(rs, rbuf, m, e). Inr (r # rs, rbuf, m, e)))"

definition rbuf_keeps :: "('r, 'e) tt_rbuf \<Rightarrow> bmem \<Rightarrow> ('r, 'e) tt_rbuf \<Rightarrow> bmem \<Rightarrow> bool" where
  "rbuf_keeps rb m rb' m' \<longleftrightarrow> rb_d_itf rb' = rb_d_itf rb \<and> rb_p_itf rb' = rb_p_itf rb
     \<and> pair_keeps (rb_raw rb) (rb_dec rb) m (rb_raw rb') (rb_dec rb') m'"

lemma rbuf_keeps_trans: "rbuf_keeps a m b m1 \<Longrightarrow> rbuf_keeps b m1 c m2 \<Longrightarrow> rbuf_keeps a m c m2"
  by (auto simp: rbuf_keeps_def intro: pair_keeps_trans)

lemma rbuf_keeps_inv: "rbuf_keeps a m b m1 \<Longrightarrow> pair_inv (rb_raw b) (rb_dec b) m1"
  by (auto simp: rbuf_keeps_def dest: pair_keeps_inv)

lemma stream_nothing:
  assumes ok: "protocol_ok P" and s: "stream P d s = (True, vs, rest, s')" and l: "length rest = length d"
  shows "vs = [] \<and> rest = d \<and> s' = s"
proof (cases "d = []")
  case ne: False
  show ?thesis
  proof (cases "cut P d")
    case (Cut n)
    note n = protocol_cut(1,2) [OF ok Cut] and st = stream_Cut [OF ok Cut, of s]
    have "length rest \<le> length (drop n d)"
      using s st stream_rest_length [OF ok, of "drop n d"]
      by (auto split: prod.splits outcome.splits)
    then show ?thesis using n l by simp
  qed (use s ne in \<open>auto simp: stream_Wait stream_Bad\<close>)
qed (use s in simp)

text \<open>Parsing what is in one of the buffers: exactly what the protocol says.\<close>

lemma rbuf_parse_ok:
  assumes p: "parses itf Q" and inv: "buf_inv b m" "\<not> buf_readonly b"
  obtains b' m' t' rest r where "rbuf_parse (Some itf) th b m (s, t) = Inr (r, b', m', s, t')"
    "keeps b m b' m'" "buf_data b' m' = rest" "stream_feed Q (buf_data b m) t = (r, rest, t')"
proof -
  obtain out where o: "rbuf_parse_loop itf False b m (s, t) = Some out" "parse_result Q False b m s t out"
    using parse_loop [OF p inv] by blast
  obtain has' b1 vs good rest t' where r: "out = Inr (if good then TT_SUCCESS else TT_FAIL, has', b1, m, s, t')"
    "keeps b m b1 m" "buf_data b1 m = rest" "stream Q (buf_data b m) t = (good, vs, rest, t')"
    "good \<longrightarrow> has' = (length rest < length (buf_data b m))"
    using o(2) unfolding parse_result_def by auto
  have ok: "protocol_ok Q" using p by (simp add: parses_def)
  have le: "length rest \<le> length (buf_data b m)"
    using stream_rest_length [OF ok r(4)] .
  obtain n b2 m2 where rf: "tt_buf_try_refine th b1 m = Inr (n, b2, m2)" "keeps b1 m b2 m2" "buf_data b2 m2 = buf_data b1 m"
    using keepsD(1,2) [OF r(2)] by (rule try_refine_ok)
  show thesis
  proof (cases good)
    case False
    then show thesis
      using that [of TT_FAIL b1 m t' rest] o(1) r by (simp add: rbuf_parse_def stream_feed_def)
  next
    case g: True
    show thesis
    proof (cases "length rest < length (buf_data b m)")
      case True
      then show thesis
        using that [of TT_SUCCESS b2 m2 t' rest] o(1) r rf g keeps_trans [OF r(2) rf(2)]
        by (simp add: rbuf_parse_def stream_feed_def)
    next
      case False
      then show thesis
        using that [of TT_E_BUF_NOBUFS b1 m t' rest] o(1) r g le
        by (simp add: rbuf_parse_def stream_feed_def)
    qed
  qed
qed

text \<open>Decoding what is in the raw buffer.\<close>

lemma rbuf_decode_ok:
  assumes p: "decodes itf P" and d: "rb_d_itf rb = Some itf" and pi: "pair_inv (rb_raw rb) (rb_dec rb) m"
  obtains (throw) "rbuf_decode rb m (s, t) = Inl Throw"
  | (fail) rb' m' s' where "rbuf_decode rb m (s, t) = Inr (TT_FAIL, False, rb', m', s', t)" "rbuf_keeps rb m rb' m'"
  | (good) r rb' m' s' vs where "rbuf_decode rb m (s, t) = Inr (r, False, rb', m', s', t)" "rbuf_keeps rb m rb' m'"
      "r = TT_SUCCESS \<or> r = TT_E_BUF_NOBUFS \<and> vs = []"
      "stream P (buf_data (rb_raw rb) m) s = (True, vs, buf_data (rb_raw rb') m', s')"
      "buf_data (rb_dec rb') m' = buf_data (rb_dec rb) m @ concat vs"
      "rb_refine_threshold rb' = rb_refine_threshold rb"
proof -
  obtain out where o: "rbuf_decode_loop itf False (rb_raw rb) (rb_dec rb) m (s, t) = Some out"
    "decode_result P False (rb_raw rb) (rb_dec rb) m s t out"
    using decode_loop [OF p pi] by blast
  have ok: "protocol_ok P" using p by (simp add: decodes_def)
  show thesis
  proof (cases out)
    case (Inl f)
    then show thesis
      using o d throw by (simp add: decode_result_def rbuf_decode_def)
  next
    case (Inr x)
    obtain r has' raw dec m1 s1 t1 where x: "x = (r, has', raw, dec, m1, s1, t1)" by (cases x)
    note R = o(2) [unfolded Inr x decode_result_def, simplified]
    let ?rb = "rb\<lparr>rb_raw := raw, rb_dec := dec\<rparr>"
    have k: "rbuf_keeps rb m ?rb m1" using R by (simp add: rbuf_keeps_def)
    show thesis
    proof (cases "r = TT_SUCCESS")
      case False
      then show thesis
        using R o(1) d k Inr x fail [of ?rb m1 s1] by (simp add: rbuf_decode_def)
    next
      case True
      then obtain vs where vs: "stream P (buf_data (rb_raw rb) m) s = (True, vs, buf_data raw m1, s1)"
        "buf_data dec m1 = buf_data (rb_dec rb) m @ concat vs"
        "has' = (length (buf_data raw m1) < length (buf_data (rb_raw rb) m))" using R by blast
      show thesis
      proof (cases has')
        case h: True
        have pi1: "pair_inv raw dec m1" using R pair_keeps_inv by blast
        obtain n raw2 m2 where rf: "tt_buf_try_refine (rb_refine_threshold rb) raw m1 = Inr (n, raw2, m2)"
          "keeps raw m1 raw2 m2" "buf_data raw2 m2 = buf_data raw m1"
          using pair_invD(1,2) [OF pi1] by (rule try_refine_ok)
        note k2 = keeps_pair [OF rf(2) pi1]
        have "rbuf_keeps rb m (rb\<lparr>rb_raw := raw2, rb_dec := dec\<rparr>) m2"
          using R pair_keeps_trans [OF _ k2(1)] by (simp add: rbuf_keeps_def)
        then show thesis
          using R o(1) d Inr x True h rf vs k2(2) good [of TT_SUCCESS "rb\<lparr>rb_raw := raw2, rb_dec := dec\<rparr>" m2 s1 vs]
          by (simp add: rbuf_decode_def)
      next
        case False
        then have "vs = []"
          using stream_nothing [OF ok vs(1)] stream_rest_length [OF ok vs(1)] vs(3) by simp
        then show thesis
          using R o(1) d k Inr x True False vs good [of TT_E_BUF_NOBUFS ?rb m1 s1 vs] by (simp add: rbuf_decode_def)
      qed
    qed
  qed
qed

text \<open>The bytes that came, behind those that waited.\<close>

lemma rbuf_feed_arrive:
  assumes pi: "pair_inv (rb_raw rb) (rb_dec rb) m" and len: "length bs < 2 ^ 32"
  obtains (throw) "rbuf_feed bs rb m e = Inl Throw" "\<not> buf_room (of_nat (length bs)) (rb_raw rb) m"
      "2 ^ 32 \<le> unat (buf_size (rb_raw rb)) + length bs"
  | (fail) m' where "rbuf_feed bs rb m e = Inr (TT_FAIL, rb, m', e)" "rbuf_keeps rb m rb m'"
      "buf_data (rb_raw rb) m' = buf_data (rb_raw rb) m" "buf_data (rb_dec rb) m' = buf_data (rb_dec rb) m"
      "\<not> buf_room (of_nat (length bs)) (rb_raw rb) m"
  | (arrive) raw m' where "rbuf_feed bs rb m e = (bindr (rbuf_decode (rb\<lparr>rb_raw := raw\<rparr>) m' e) (\<lambda>(r, is_raw, rbuf, m, e).
     if \<not> TT_OK r then Inr (r, rbuf, m, e)
     else bindr (rbuf_parse (rb_p_itf rbuf) (rb_refine_threshold rbuf)
                   (if is_raw then rb_raw rbuf else rb_dec rbuf) m e) (\<lambda>(r, data, m, e).
       let rbuf = (if is_raw then rbuf\<lparr>rb_raw := data\<rparr> else rbuf\<lparr>rb_dec := data\<rparr>) in
       if \<not> TT_OK r then Inr (r, rbuf, m, e) else Inr (TT_SUCCESS, rbuf, m, e))))"
      "rbuf_keeps rb m (rb\<lparr>rb_raw := raw\<rparr>) m'"
      "buf_data raw m' = buf_data (rb_raw rb) m @ bs" "buf_data (rb_dec rb) m' = buf_data (rb_dec rb) m"
      "buf_room (of_nat (length bs)) (rb_raw rb) m"
proof -
  let ?n = "of_nat (length bs) :: u32"
  have un: "unat ?n = length bs"
    using len by (simp add: take_bit_nat_eq_self unsigned_of_nat)
  note inv = pair_invD [OF pi] and room = buf_reserve_room [OF inv(1,2), of ?n]
  show thesis
    using inv(1,2)
  proof (cases rule: buf_reserve_cases [where n = ?n])
    case throw
    then show thesis
      using that(1) room(1) un by (simp add: rbuf_feed_def tt_rbuf_reserve_def)
  next
    case (fail m')
    have k: "keeps (rb_raw rb) m (rb_raw rb) m'"
      using fail(2,3) inv(2) by (intro keeps_same_store)
    have mi: "mem_inv m'" using fail(2) by (simp add: buf_inv_def)
    have eq: "rbuf_feed bs rb m e = Inr (TT_FAIL, rb, m', e)"
      using fail(1) by (simp add: rbuf_feed_def tt_rbuf_reserve_def)
    show thesis
      using that(2) [OF eq] keeps_pair [OF k pi] same_store_buf(2) [OF fail(3) mi inv(1)] room(2) [OF fail(1)]
      by (simp add: rbuf_keeps_def)
  next
    case (ok raw1 m1)
    have le: "unat (buf_wpos raw1) + unat ?n \<le> unat (buf_size raw1)"
      using ok(5,7) by simp
    obtain m2 where m2: "mem_store 1 m1 (buf_p raw1) (unat (buf_wpos raw1)) bs = Inr m2"
      "buf_inv (raw1\<lparr>buf_wpos := buf_wpos raw1 + ?n\<rparr>) m2"
      "buf_data (raw1\<lparr>buf_wpos := buf_wpos raw1 + ?n\<rparr>) m2 = buf_data raw1 m1 @ bs"
      "mem_frame (buf_foot raw1) m1 m2" "mem_heap m2 = mem_heap m1"
      using ok(2) un [symmetric] le by (rule buf_store_at_wpos)
    let ?raw = "raw1\<lparr>buf_wpos := buf_wpos raw1 + ?n\<rparr>"
    have "mem_frame (buf_foot (rb_raw rb)) m m2"
      using ok(9) m2(4) ok(11) by (rule frame_compose)
    then have k: "keeps (rb_raw rb) m ?raw m2"
      using m2(2,5) ok by (simp add: keeps_def buf_foot_def)
    have w: "snd (tt_buf_inc_wp ?n raw1) = ?raw"
      using le ok(2) by (simp add: tt_buf_inc_wp_def word_le_nat_alt buf_wlen)
    have eq: "rbuf_feed bs rb m e = tt_rbuf_inc_wp ?n (rb\<lparr>rb_raw := raw1\<rparr>) m2 e"
      using ok(1) m2(1) by (simp add: rbuf_feed_def tt_rbuf_reserve_def tt_rbuf_get_wptr_def tt_buf_get_wptr_def)
    show thesis
      using that(3) [of ?raw m2] keeps_pair [OF k pi] m2(3) ok(10) room(3) [OF ok(1)]
      unfolding eq tt_rbuf_inc_wp_def by (simp add: w Let_def rbuf_keeps_def)
  qed
qed

text \<open>After a good call no whole frame is left.\<close>

lemma stream_settled:
  assumes "protocol_ok P" "stream P d s = (True, vs, rest, s')"
  shows "stream P rest s' = (True, [], rest, s')"
  using stream_append [OF assms, of "[]"] assms(2) by (auto split: prod.splits)

lemma feed_decoded:
  assumes p: "decodes itf P" "parses pitf Q" and d: "rb_d_itf rb = Some itf" "rb_p_itf rb = Some pitf"
    and pi: "pair_inv (rb_raw rb) (rb_dec rb) m" and len: "length bs < 2 ^ 32"
  shows "case rbuf_feed bs rb m (s, t) of Inl f \<Rightarrow> f = Throw
    | Inr (r, rb', m', s', t') \<Rightarrow> rbuf_keeps rb m rb' m' \<and>
       (stream Q (buf_data (rb_dec rb) m) t = (True, [], buf_data (rb_dec rb) m, t)
          \<and> (r = TT_SUCCESS \<or> r = TT_E_BUF_NOBUFS) \<longrightarrow> (\<exists>vs ws.
          stream P (buf_data (rb_raw rb) m @ bs) s = (True, vs, buf_data (rb_raw rb') m', s')
          \<and> stream Q (buf_data (rb_dec rb) m @ concat vs) t = (True, ws, buf_data (rb_dec rb') m', t')))"
  using pi len
proof (cases rule: rbuf_feed_arrive [where e = "(s, t)"])
  case throw
  then show ?thesis by simp
next
  case (fail m')
  then show ?thesis by simp
next
  case (arrive raw m1)
  let ?rb = "rb\<lparr>rb_raw := raw\<rparr>"
  have d1: "rb_d_itf ?rb = Some itf" using d by simp
  have pi1: "pair_inv (rb_raw ?rb) (rb_dec ?rb) m1"
    using rbuf_keeps_inv [OF arrive(2)] .
  show ?thesis
    using p(1) d1 pi1
  proof (cases rule: rbuf_decode_ok [where s = s and t = t])
    case throw
    then show ?thesis using arrive(1) by simp
  next
    case (fail rb2 m2 s2)
    then show ?thesis
      using arrive(1) rbuf_keeps_trans [OF arrive(2) fail(2)] by simp
  next
    case (good r rb2 m2 s2 vs)
    note k2 = rbuf_keeps_trans [OF arrive(2) good(2)]
    have p2: "rb_p_itf rb2 = Some pitf" using d k2 by (simp add: rbuf_keeps_def)
    have st: "stream P (buf_data (rb_raw rb) m @ bs) s = (True, vs, buf_data (rb_raw rb2) m2, s2)"
      using good(4) arrive(3) by simp
    have dd: "buf_data (rb_dec rb2) m2 = buf_data (rb_dec rb) m @ concat vs"
      using good(5) arrive(4) by simp
    show ?thesis
    proof (cases "r = TT_SUCCESS")
      case False
      then have r: "r = TT_E_BUF_NOBUFS" "vs = []" using good(3) by auto
      then have "rbuf_feed bs rb m (s, t) = Inr (TT_E_BUF_NOBUFS, rb2, m2, s2, t)"
        using arrive(1) good(1) by simp
      then show ?thesis
        using k2 st dd r by auto
    next
      case True
      note pi2 = rbuf_keeps_inv [OF k2]
      obtain b' m3 t' rest r3 where ps:
        "rbuf_parse (Some pitf) (rb_refine_threshold rb2) (rb_dec rb2) m2 (s2, t) = Inr (r3, b', m3, s2, t')"
        "keeps (rb_dec rb2) m2 b' m3" "buf_data b' m3 = rest" "stream_feed Q (buf_data (rb_dec rb2) m2) t = (r3, rest, t')"
        using p(2) pair_invD(3,4) [OF pi2] by (rule rbuf_parse_ok)
      note k3 = keeps_pair2 [OF ps(2) pi2]
      let ?rb3 = "rb2\<lparr>rb_dec := b'\<rparr>"
      have "rbuf_keeps rb2 m2 ?rb3 m3" using k3 by (simp add: rbuf_keeps_def)
      with k2 have k: "rbuf_keeps rb m ?rb3 m3" by (rule rbuf_keeps_trans)
      have eq: "rbuf_feed bs rb m (s, t) = Inr (r3, ?rb3, m3, s2, t')"
        using arrive(1) good(1) True ps(1) p2 by (simp add: Let_def TT_OK_def)
      show ?thesis
        using k ps(3,4) st dd k3(2) unfolding eq stream_feed_def
        by (auto split: prod.splits if_splits)
    qed
  qed
qed

lemma feeds_decoded:
  assumes p: "decodes itf P" "parses pitf Q"
  shows "rb_d_itf rb = Some itf \<Longrightarrow> rb_p_itf rb = Some pitf \<Longrightarrow> pair_inv (rb_raw rb) (rb_dec rb) m \<Longrightarrow>
    \<forall>bs \<in> set bss. length bs < 2 ^ 32 \<Longrightarrow>
    case rbuf_feeds bss rb m (s, t) of Inl f \<Rightarrow> f = Throw
    | Inr (rs, rb', m', s', t') \<Rightarrow> rbuf_keeps rb m rb' m' \<and>
       (stream P (buf_data (rb_raw rb) m) s = (True, [], buf_data (rb_raw rb) m, s)
          \<and> stream Q (buf_data (rb_dec rb) m) t = (True, [], buf_data (rb_dec rb) m, t)
          \<and> set rs \<subseteq> {TT_SUCCESS, TT_E_BUF_NOBUFS} \<longrightarrow> (\<exists>vs ws.
          stream P (buf_data (rb_raw rb) m @ concat bss) s = (True, vs, buf_data (rb_raw rb') m', s')
          \<and> stream Q (buf_data (rb_dec rb) m @ concat vs) t = (True, ws, buf_data (rb_dec rb') m', t')))"
proof (induction bss arbitrary: rb m s t)
  case Nil
  then show ?case
    by (auto simp: rbuf_keeps_def pair_keeps_refl intro!: exI [of _ "[]"])
next
  case (Cons bs bss)
  have ok: "protocol_ok P" "protocol_ok Q" using p by (auto simp: decodes_def parses_def)
  have len: "length bs < 2 ^ 32" using Cons.prems(4) by simp
  note F = feed_decoded [OF p Cons.prems(1-3) len, where s = s and t = t]
  show ?case
  proof (cases "rbuf_feed bs rb m (s, t)")
    case (Inl f)
    then show ?thesis using F by simp
  next
    case (Inr x)
    obtain r rb1 m1 s1 t1 where x: "x = (r, rb1, m1, s1, t1)" by (cases x)
    note F1 = F [unfolded Inr x, simplified]
    have k1: "rbuf_keeps rb m rb1 m1" using F1 by blast
    then have d1: "rb_d_itf rb1 = Some itf" "rb_p_itf rb1 = Some pitf" "pair_inv (rb_raw rb1) (rb_dec rb1) m1"
      using Cons.prems rbuf_keeps_inv [OF k1] by (auto simp: rbuf_keeps_def)
    have l1: "\<forall>bs \<in> set bss. length bs < 2 ^ 32" using Cons.prems(4) by simp
    note G = Cons.IH [OF d1 l1, where s = s1 and t = t1]
    show ?thesis
    proof (cases "rbuf_feeds bss rb1 m1 (s1, t1)")
      case (Inl f)
      then show ?thesis using G Inr x by simp
    next
      case two: (Inr y)
      obtain rs rb2 m2 s2 t2 where y: "y = (rs, rb2, m2, s2, t2)" by (cases y)
      note G1 = G [unfolded two y, simplified]
      have k2: "rbuf_keeps rb m rb2 m2" using k1 G1 rbuf_keeps_trans by blast
      have eq: "rbuf_feeds (bs # bss) rb m (s, t) = Inr (r # rs, rb2, m2, s2, t2)"
        using Inr x two y by simp
      have "\<exists>vs ws. stream P (buf_data (rb_raw rb) m @ concat (bs # bss)) s = (True, vs, buf_data (rb_raw rb2) m2, s2)
          \<and> stream Q (buf_data (rb_dec rb) m @ concat vs) t = (True, ws, buf_data (rb_dec rb2) m2, t2)"
        if st: "stream Q (buf_data (rb_dec rb) m) t = (True, [], buf_data (rb_dec rb) m, t)"
          and good: "set (r # rs) \<subseteq> {TT_SUCCESS, TT_E_BUF_NOBUFS}"
      proof -
        obtain vs ws where one: "stream P (buf_data (rb_raw rb) m @ bs) s = (True, vs, buf_data (rb_raw rb1) m1, s1)"
          "stream Q (buf_data (rb_dec rb) m @ concat vs) t = (True, ws, buf_data (rb_dec rb1) m1, t1)"
          using F1 st good by auto
        note set = stream_settled [OF ok(1) one(1)] stream_settled [OF ok(2) one(2)]
        obtain vs' ws' where "stream P (buf_data (rb_raw rb1) m1 @ concat bss) s1 = (True, vs', buf_data (rb_raw rb2) m2, s2)"
          "stream Q (buf_data (rb_dec rb1) m1 @ concat vs') t1 = (True, ws', buf_data (rb_dec rb2) m2, t2)"
          using G1 set good by auto
        then show ?thesis
          using stream_append [OF ok(1) one(1), of "concat bss"] stream_append [OF ok(2) one(2), of "concat vs'"]
          by auto
      qed
      then show ?thesis
        unfolding eq using k2 by simp
    qed
  qed
qed

text \<open>Without a decoder every call with room for its bytes is answered as the protocol says.\<close>

lemma feed_plain:
  assumes p: "parses pitf Q" and d: "rb_d_itf rb = None" "rb_p_itf rb = Some pitf"
    and pi: "pair_inv (rb_raw rb) (rb_dec rb) m" and len: "length bs < 2 ^ 32"
  shows "case rbuf_feed bs rb m (s, t) of
      Inl f \<Rightarrow> f = Throw \<and> \<not> buf_room (of_nat (length bs)) (rb_raw rb) m \<and> 2 ^ 32 \<le> unat (buf_size (rb_raw rb)) + length bs
    | Inr (r, rb', m', s', t') \<Rightarrow> rbuf_keeps rb m rb' m' \<and> s' = s \<and>
       (r, buf_data (rb_raw rb') m', t') = (if buf_room (of_nat (length bs)) (rb_raw rb) m
         then stream_feed Q (buf_data (rb_raw rb) m @ bs) t else (TT_FAIL, buf_data (rb_raw rb) m, t))"
  using pi len
proof (cases rule: rbuf_feed_arrive [where e = "(s, t)"])
  case throw
  then show ?thesis by simp
next
  case (fail m')
  then show ?thesis by simp
next
  case (arrive raw m1)
  let ?rb = "rb\<lparr>rb_raw := raw\<rparr>"
  have pi1: "pair_inv raw (rb_dec rb) m1"
    using rbuf_keeps_inv [OF arrive(2)] by simp
  obtain b' m3 t' rest r3 where ps:
    "rbuf_parse (Some pitf) (rb_refine_threshold rb) raw m1 (s, t) = Inr (r3, b', m3, s, t')"
    "keeps raw m1 b' m3" "buf_data b' m3 = rest" "stream_feed Q (buf_data raw m1) t = (r3, rest, t')"
    using p pair_invD(1,2) [OF pi1] by (rule rbuf_parse_ok)
  note k3 = keeps_pair [OF ps(2) pi1]
  let ?rb3 = "rb\<lparr>rb_raw := b'\<rparr>"
  have "rbuf_keeps ?rb m1 ?rb3 m3" using k3 by (simp add: rbuf_keeps_def)
  with arrive(2) have k: "rbuf_keeps rb m ?rb3 m3" by (rule rbuf_keeps_trans)
  have "rbuf_feed bs rb m (s, t) = Inr (r3, ?rb3, m3, s, t')"
    using arrive(1) ps(1) d by (simp add: rbuf_decode_def Let_def TT_OK_def)
  then show ?thesis
    using k ps(3,4) arrive(3,5) by simp
qed

end
