(* ===== verification/TT_RWBuffer_Write.thy ===== *)
theory TT_RWBuffer_Write
  imports TT_RWBuffer_Read
begin

text \<open>
  Creation and destruction of the read and the write buffer, the write buffer of a client whose
  callbacks render and encode, and the stream from a writer to a reader.
\<close>

section \<open>Creation and destruction\<close>

lemma buf_init_ok:
  assumes raw: "buf_raw b m" and a: "buf_attr_ok (Some a)"
  obtains b' m' where "tt_buf_init b (Some a) m = Inr (b', m')" "buf_inv b' m'" "\<not> buf_readonly b'"
    "buf_data b' m' = []" "buf_initbuf b' = buf_initbuf b" "owns_step {buf_initbuf b} m (buf_foot b') m'"
    "mem_frame {buf_initbuf b} m m'"
  using raw a
proof (cases rule: buf_create_cases [where sz = 0])
  case (ok b' m')
  have "mem_heap m - {buf_initbuf b} = mem_heap m"
    using raw by (simp add: buf_raw_def)
  then show thesis
    using that [of b' m'] ok by (simp add: tt_buf_init_def owns_step_def)
qed simp

text \<open>Two structs, as the fields of one: \<open>pair_raw\<close> before and after both are initialised.\<close>

definition pair_raw :: "tt_buf \<Rightarrow> tt_buf \<Rightarrow> bmem \<Rightarrow> bool" where
  "pair_raw a b m \<longleftrightarrow> buf_raw a m \<and> buf_raw b m \<and> buf_initbuf a \<noteq> buf_initbuf b"

lemma pair_init:
  assumes raw: "pair_raw a b m" and attr: "buf_attr_ok (Some x)" "buf_attr_ok (Some y)"
  obtains a' m1 b' m2 where "tt_buf_init a (Some x) m = Inr (a', m1)" "tt_buf_init b (Some y) m1 = Inr (b', m2)"
    "pair_inv a' b' m2" "buf_data a' m2 = []" "buf_data b' m2 = []"
    "owns_step {buf_initbuf a, buf_initbuf b} m (buf_foot a' \<union> buf_foot b') m2"
proof -
  have ra: "buf_raw a m" "buf_raw b m" "buf_initbuf a \<noteq> buf_initbuf b"
    using raw by (auto simp: pair_raw_def)
  obtain a' m1 where a': "tt_buf_init a (Some x) m = Inr (a', m1)" "buf_inv a' m1" "\<not> buf_readonly a'"
    "buf_data a' m1 = []" "buf_initbuf a' = buf_initbuf a" "owns_step {buf_initbuf a} m (buf_foot a') m1"
    "mem_frame {buf_initbuf a} m m1"
    using ra(1) attr(1) by (rule buf_init_ok)
  obtain ib where ib: "mem_blocks m (buf_initbuf b) = Some ib" "length ib = 16" "buf_initbuf b \<notin> mem_heap m"
    using ra(2) by (auto simp: buf_raw_def)
  have nb: "buf_initbuf b \<notin> {buf_initbuf a}" using ra(3) by simp
  have fb: "buf_initbuf b \<notin> buf_foot a'"
    using a'(6) ib(1) nb by (auto simp: owns_step_def)
  have rb: "buf_raw b m1"
    using mem_frameD [OF a'(7) ib(1) nb] ib a'(2) by (simp add: buf_raw_def buf_inv_def)
  obtain b' m2 where b': "tt_buf_init b (Some y) m1 = Inr (b', m2)" "buf_inv b' m2" "\<not> buf_readonly b'"
    "buf_data b' m2 = []" "buf_initbuf b' = buf_initbuf b" "owns_step {buf_initbuf b} m1 (buf_foot b') m2"
    "mem_frame {buf_initbuf b} m1 m2"
    using rb attr(2) by (rule buf_init_ok)
  have mi: "mem_inv m2" using b'(2) by (simp add: buf_inv_def)
  have "{buf_initbuf b} \<inter> buf_foot a' = {}" using fb by simp
  note o = other_buf [OF b'(7) mi a'(2) this]
  have dis: "buf_foot a' \<inter> buf_foot b' = {}"
    using b'(6) fb buf_foot_dom [OF a'(2)] by (auto simp: owns_step_def)
  have s1: "owns_step {buf_initbuf a, buf_initbuf b} m (insert (buf_initbuf b) (buf_foot a')) m1"
    using a'(6) by (auto simp: owns_step_def mem_frame_def)
  have s2: "owns_step (insert (buf_initbuf b) (buf_foot a')) m1 (buf_foot a' \<union> buf_foot b') m2"
    using b'(6) fb by (auto simp: owns_step_def mem_frame_def)
  show thesis
    using that [OF a'(1) b'(1)] o a'(3,4) b'(2-4) dis owns_trans [OF s1 s2] by (simp add: pair_inv_def)
qed

lemma pair_destroy:
  assumes pi: "pair_inv a b m"
  obtains a' m1 b' m2 where "tt_buf_destroy a m = Inr (a', m1)" "tt_buf_destroy b m1 = Inr (b', m2)"
    "mem_heap m2 = mem_heap m - (buf_foot a \<union> buf_foot b)" "mem_frame (buf_foot a \<union> buf_foot b) m m2"
proof -
  note inv = pair_invD [OF pi]
  obtain a' m1 where a': "tt_buf_destroy a m = Inr (a', m1)" "mem_inv m1" "mem_frame (buf_foot a) m m1"
    "mem_heap m1 = (if buf_readonly a then mem_heap m else mem_heap m - buf_foot a)"
    using inv(1) by (rule buf_destroy_ok)
  have b1: "buf_inv b m1"
    using a'(3,2) inv(3,5) by (rule other_buf)
  obtain b' m2 where b': "tt_buf_destroy b m1 = Inr (b', m2)" "mem_inv m2" "mem_frame (buf_foot b) m1 m2"
    "mem_heap m2 = (if buf_readonly b then mem_heap m1 else mem_heap m1 - buf_foot b)"
    using b1 by (rule buf_destroy_ok)
  show thesis
    using that [OF a'(1) b'(1)] a'(4) b'(4) inv(2,4) mem_frame_trans [OF a'(3) b'(3)] by (simp add: Diff_Diff_Int Diff_eq Int_assoc)
qed

text \<open>From the initialisation to the destruction nothing leaks and nobody else is touched.\<close>

lemma pair_life:
  assumes raw: "pair_raw a0 b0 m0"
    and ow: "owns_step {buf_initbuf a0, buf_initbuf b0} m0 (buf_foot a \<union> buf_foot b) m"
    and k: "pair_keeps a b m a' b' m'"
    and d: "mem_heap m2 = mem_heap m' - (buf_foot a' \<union> buf_foot b')" "mem_frame (buf_foot a' \<union> buf_foot b') m' m2"
  shows "mem_heap m2 = mem_heap m0" "mem_frame {buf_initbuf a0, buf_initbuf b0} m0 m2"
proof -
  let ?S = "{buf_initbuf a0, buf_initbuf b0}" and ?T = "buf_foot a' \<union> buf_foot b'"
  have o: "owns_step ?S m0 ?T m'"
    using ow k unfolding pair_keeps_def by (blast intro: owns_trans)
  then have f: "mem_frame ?S m0 m'" "?T \<inter> dom (mem_blocks m0) \<subseteq> ?S" "mem_heap m' - ?T = mem_heap m0 - ?S"
    by (simp_all only: owns_step_def)
  show "mem_frame ?S m0 m2"
    using f(1) d(2) f(2) by (rule frame_compose)
  have "mem_heap m0 - ?S = mem_heap m0"
    using raw by (auto simp: pair_raw_def buf_raw_def)
  then show "mem_heap m2 = mem_heap m0"
    using d(1) f(3) by simp
qed

definition rbuf_attr_ok :: "tt_rbuf_attr option \<Rightarrow> bool" where
  "rbuf_attr_ok attr \<longleftrightarrow> (case attr of None \<Rightarrow> True
     | Some a \<Rightarrow> buf_attr_ok (Some (rawbuf_attr a)) \<and> buf_attr_ok (Some (decbuf_attr a)))"

definition wbuf_attr_ok :: "tt_wbuf_attr option \<Rightarrow> bool" where
  "wbuf_attr_ok attr \<longleftrightarrow> (case attr of None \<Rightarrow> True
     | Some a \<Rightarrow> buf_attr_ok (Some (wb_rawbuf_attr a)) \<and> buf_attr_ok (Some (encbuf_attr a)))"

lemma default_attr_ok: "buf_attr_ok (Some tt_buf_attr_default)"
  by (simp add: buf_attr_ok_def tt_buf_attr_default_def memspg_ok_def)

lemma rbuf_init_ok:
  assumes raw: "pair_raw (rb_raw rb) (rb_dec rb) m" and a: "rbuf_attr_ok attr"
  obtains rb' m' where "tt_rbuf_init rb d (Some p) attr m = Inr (rb', m')" "rb_d_itf rb' = d" "rb_p_itf rb' = Some p"
    "pair_inv (rb_raw rb') (rb_dec rb') m'" "buf_data (rb_raw rb') m' = []" "buf_data (rb_dec rb') m' = []"
    "owns_step {buf_initbuf (rb_raw rb), buf_initbuf (rb_dec rb)} m (buf_foot (rb_raw rb') \<union> buf_foot (rb_dec rb')) m'"
proof -
  let ?a = "case attr of None \<Rightarrow> tt_rbuf_attr_default | Some a \<Rightarrow> a"
  have aa: "buf_attr_ok (Some (rawbuf_attr ?a))" "buf_attr_ok (Some (decbuf_attr ?a))"
    using a default_attr_ok by (auto simp: rbuf_attr_ok_def tt_rbuf_attr_default_def split: option.split)
  from raw aa show thesis
    by (rule pair_init) (rule that, auto simp: tt_rbuf_init_def Let_def)
qed

lemma wbuf_init_ok:
  assumes raw: "pair_raw (wb_raw wb) (wb_enc wb) m" and a: "wbuf_attr_ok attr"
  obtains wb' m' where "tt_wbuf_init wb d (Some p) attr m = Inr (wb', m')" "wb_e_itf wb' = d" "wb_r_itf wb' = Some p"
    "pair_inv (wb_raw wb') (wb_enc wb') m'" "buf_data (wb_raw wb') m' = []" "buf_data (wb_enc wb') m' = []"
    "owns_step {buf_initbuf (wb_raw wb), buf_initbuf (wb_enc wb)} m (buf_foot (wb_raw wb') \<union> buf_foot (wb_enc wb')) m'"
proof -
  let ?a = "case attr of None \<Rightarrow> tt_wbuf_attr_default | Some a \<Rightarrow> a"
  have aa: "buf_attr_ok (Some (wb_rawbuf_attr ?a))" "buf_attr_ok (Some (encbuf_attr ?a))"
    using a default_attr_ok by (auto simp: wbuf_attr_ok_def tt_wbuf_attr_default_def split: option.split)
  from raw aa show thesis
    by (rule pair_init) (rule that, auto simp: tt_wbuf_init_def Let_def)
qed

section \<open>Writing\<close>

text \<open>
  The encoder takes any part of the raw bytes and appends bytes that stand for it: \<open>C x y\<close> says
  which. Nothing else is asked of it; it may choose sizes at random.
\<close>

definition encoded ::
  "(u8 list \<Rightarrow> u8 list \<Rightarrow> bool) \<Rightarrow> tt_buf \<Rightarrow> u32 \<Rightarrow> tt_buf \<Rightarrow> bmem
    \<Rightarrow> (tt_result \<times> tt_buf \<times> tt_buf \<times> bmem \<times> 'e) run \<Rightarrow> bool" where
  "encoded C raw n enc m out \<longleftrightarrow> (case out of Inl f \<Rightarrow> f = Throw
   | Inr (r, raw', enc', m', e') \<Rightarrow> placed raw raw' \<and> keeps enc m enc' m'
       \<and> buf_rpos enc' = buf_rpos enc \<and> take (length (buf_data enc m)) (buf_data enc' m') = buf_data enc m
       \<and> (TT_OK r \<longrightarrow> raw' = raw\<lparr>buf_rpos := buf_rpos raw + n\<rparr>
            \<and> (\<exists>y. C (take (unat n) (buf_data raw m)) y \<and> buf_data enc' m' = buf_data enc m @ y)))"

definition encodes :: "'e tt_wbuf_encode_itf \<Rightarrow> (u8 list \<Rightarrow> u8 list \<Rightarrow> bool) \<Rightarrow> bool" where
  "encodes itf C \<longleftrightarrow>
     (\<forall>b m e. buf_inv b m \<longrightarrow> \<not> buf_readonly b \<longrightarrow> buf_data b m \<noteq> [] \<longrightarrow>
        (\<exists>r len b' e'. enc_prepare itf b 0 m e = Inr (r, len, b', m, e') \<and> placed b b'
           \<and> (TT_OK r \<longrightarrow> 0 < unat len \<and> unat len \<le> length (buf_data b m))))
     \<and> (\<forall>raw enc m e n. pair_inv raw enc m \<longrightarrow> 0 < unat n \<longrightarrow> unat n \<le> length (buf_data raw m) \<longrightarrow>
          encoded C raw n enc m (enc_encode itf raw n enc m e))"

text \<open>The renderer appends bytes that stand for the message.\<close>

definition renders :: "('m, 'e) tt_wbuf_render_itf \<Rightarrow> ('m \<Rightarrow> u8 list \<Rightarrow> bool) \<Rightarrow> bool" where
  "renders itf R \<longleftrightarrow>
     (\<forall>x m e. \<exists>n e'. ren_prepare itf x m e = Inr (n, m, e'))
     \<and> (\<forall>b n x m e. buf_inv b m \<longrightarrow> \<not> buf_readonly b \<longrightarrow> (case ren_render itf b n x m e of Inl f \<Rightarrow> f = Throw
         | Inr (r, b', m', e') \<Rightarrow> keeps b m b' m' \<and> buf_rpos b' = buf_rpos b
             \<and> take (length (buf_data b m)) (buf_data b' m') = buf_data b m
             \<and> (TT_OK r \<longrightarrow> (\<exists>y. y \<noteq> [] \<and> R x y \<and> buf_data b' m' = buf_data b m @ y))))"

text \<open>The encoder has gone through some of the raw bytes, whether it succeeds or fails.\<close>

definition encode_result ::
  "(u8 list \<Rightarrow> u8 list \<Rightarrow> bool) \<Rightarrow> tt_buf \<Rightarrow> tt_buf \<Rightarrow> bmem
    \<Rightarrow> (tt_result \<times> bool \<times> tt_buf \<times> tt_buf \<times> bmem \<times> 'e) run \<Rightarrow> bool" where
  "encode_result C raw enc m out \<longleftrightarrow> (case out of Inl f \<Rightarrow> f = Throw
   | Inr (r, has', raw', enc', m', e') \<Rightarrow> pair_keeps raw enc m raw' enc' m'
       \<and> (\<exists>xs ys. list_all2 C xs ys \<and> buf_data raw m = concat xs @ buf_data raw' m'
            \<and> buf_data enc' m' = buf_data enc m @ concat ys))"

lemma encode_result_step:
  assumes r: "encode_result C raw1 enc1 m1 out" and k: "pair_keeps raw enc m raw1 enc1 m1"
    and d: "buf_data raw m = x @ buf_data raw1 m1" "buf_data enc1 m1 = buf_data enc m @ y" "C x y"
  shows "encode_result C raw enc m out"
proof (cases out)
  case (Inr z)
  obtain q has' raw' enc' m' e' where z: "z = (q, has', raw', enc', m', e')"
    by (cases z)
  obtain xs ys where "list_all2 C xs ys" "buf_data raw1 m1 = concat xs @ buf_data raw' m'"
    "buf_data enc' m' = buf_data enc1 m1 @ concat ys" "pair_keeps raw1 enc1 m1 raw' enc' m'"
    using r unfolding encode_result_def Inr z by auto
  then have "list_all2 C (x # xs) (y # ys) \<and> buf_data raw m = concat (x # xs) @ buf_data raw' m'
      \<and> buf_data enc' m' = buf_data enc m @ concat (y # ys)" "pair_keeps raw enc m raw' enc' m'"
    using d pair_keeps_trans [OF k] by auto
  then show ?thesis
    unfolding encode_result_def Inr z by (simp only: sum.case prod.case) blast
qed (use r in \<open>simp add: encode_result_def\<close>)

lemma encode_loop:
  fixes itf :: "'e tt_wbuf_encode_itf"
  assumes p: "encodes itf C"
  shows "pair_inv raw enc m \<Longrightarrow>
    \<exists>out. wbuf_encode_loop itf has raw enc m e = Some out \<and> encode_result C raw enc m out"
proof (induction "length (buf_data raw m)" arbitrary: has raw enc m e rule: less_induct)
  case less
  note pi = less.prems and inv = pair_invD(1,2) [OF less.prems]
  have refl: "encode_result C raw enc m (Inr (q, has', raw, enc, m, e'))" for q has' and e' :: 'e
    using pair_keeps_refl [OF pi] by (auto simp: encode_result_def intro!: exI [of _ "[]"])
  show ?case
  proof (cases "buf_data raw m = []")
    case True
    then show ?thesis
      using refl empty_iff [OF inv(1)] by (subst wbuf_encode_loop.simps) simp
  next
    case ne: False
    obtain r n raw1 e1 where pr: "enc_prepare itf raw 0 m e = Inr (r, n, raw1, m, e1)" "placed raw raw1"
      and n: "TT_OK r \<Longrightarrow> 0 < unat n \<and> unat n \<le> length (buf_data raw m)"
      using p inv ne unfolding encodes_def by metis
    note re1 = restore_placed [OF pr(2)]
    have ne': "\<not> tt_buf_empty raw" using ne empty_iff [OF inv(1)] by simp
    note step = wbuf_encode_loop.simps [of itf has raw enc m e, unfolded backup_eq]
    show ?thesis
    proof (cases "TT_OK r")
      case False
      then show ?thesis
        using pr(1) re1 ne' refl by (subst step) simp
    next
      case True
      then have r: "r = TT_SUCCESS" by (simp add: TT_OK_def)
      have nn: "n \<noteq> 0" "n \<le> TT_BUF_RLEN raw" "unat n \<le> length (buf_data raw m)"
        using n [OF True] length_buf_data [OF inv(1)] by (auto simp: word_le_nat_alt)
      have E: "encoded C raw n enc m (enc_encode itf raw n enc m e1)"
        using p pi n [OF True] unfolding encodes_def by blast
      show ?thesis
      proof (cases "enc_encode itf raw n enc m e1")
        case (Inl f)
        then show ?thesis
          using E by (subst step) (simp add: ne' pr(1) re1 r nn encoded_def encode_result_def)
      next
        case (Inr x)
        obtain r2 raw2 enc2 m2 e2 where x: "x = (r2, raw2, enc2, m2, e2)" by (cases x)
        note E = E [unfolded encoded_def Inr x, simplified]
        show ?thesis
        proof (cases "TT_OK r2")
          case ok2: True
          let ?raw = "raw\<lparr>buf_rpos := buf_rpos raw + n\<rparr>"
          obtain y where y: "C (take (unat n) (buf_data raw m)) y" "buf_data enc2 m2 = buf_data enc m @ y"
            using E ok2 by blast
          have k: "keeps enc m enc2 m2" using E by blast
          note k2 = keeps_pair2 [OF k pi]
          have inv2: "buf_inv raw m2" using k2 by (auto simp: pair_keeps_def pair_inv_def)
          have n2: "unat n \<le> length (buf_data raw m2)" using nn k2(2) by simp
          note sk2 = skip_len [OF inv2 inv(2) n2]
          have a: "pair_keeps raw enc m ?raw enc2 m2"
            using k2(1) keeps_pair(1) [OF sk2(2) pair_keeps_inv [OF k2(1)]] by (rule pair_keeps_trans)
          have dd: "buf_data ?raw m2 = drop (unat n) (buf_data raw m)"
            using sk2(3) k2(2) by simp
          have lt: "length (buf_data ?raw m2) < length (buf_data raw m)"
            using dd n [OF True] by (simp only: length_drop) linarith
          have eq: "wbuf_encode_loop itf has raw enc m e = wbuf_encode_loop itf True ?raw enc2 m2 e2"
            using E ok2 by (subst step) (simp add: ne' pr(1) re1 r nn Inr x)
          show ?thesis
            unfolding eq using less.hyps [OF lt pair_keeps_inv [OF a], of True e2]
            by (auto intro!: encode_result_step [OF _ a, where x = "take (unat n) (buf_data raw m)" and y = y]
                simp: dd y)
        next
          case False
          have eq: "wbuf_encode_loop itf has raw enc m e = Some (Inr (TT_FAIL, has, raw,
              tt_buf_restore_rwp (buf_rpos enc) (buf_wpos enc) enc2, m2, e2))"
            using E False restore_placed by (subst step) (simp add: ne' pr(1) re1 r nn Inr x)
          have dr: "keeps enc m (tt_buf_restore_rwp (buf_rpos enc) (buf_wpos enc) enc2) m2"
            "buf_data (tt_buf_restore_rwp (buf_rpos enc) (buf_wpos enc) enc2) m2 = buf_data enc m"
            using E pair_invD(3) [OF pi] restore_dropped by blast+
          show ?thesis
            unfolding eq using keeps_pair2 [OF dr(1) pi] dr(2)
            by (auto simp: encode_result_def intro!: exI [of _ "[]"])
        qed
      qed
    qed
  qed
qed

definition wbuf_keeps :: "('m, 'e) tt_wbuf \<Rightarrow> bmem \<Rightarrow> ('m, 'e) tt_wbuf \<Rightarrow> bmem \<Rightarrow> bool" where
  "wbuf_keeps wb m wb' m' \<longleftrightarrow> wb_e_itf wb' = wb_e_itf wb \<and> wb_r_itf wb' = wb_r_itf wb
     \<and> pair_keeps (wb_raw wb) (wb_enc wb) m (wb_raw wb') (wb_enc wb') m'"

lemma wbuf_keeps_trans: "wbuf_keeps a m b m1 \<Longrightarrow> wbuf_keeps b m1 c m2 \<Longrightarrow> wbuf_keeps a m c m2"
  by (auto simp: wbuf_keeps_def intro: pair_keeps_trans)

lemma wbuf_keeps_refl: "pair_inv (wb_raw wb) (wb_enc wb) m \<Longrightarrow> wbuf_keeps wb m wb m"
  by (simp add: wbuf_keeps_def pair_keeps_refl)

lemma wbuf_keeps_inv: "wbuf_keeps a m b m1 \<Longrightarrow> pair_inv (wb_raw b) (wb_enc b) m1"
  by (auto simp: wbuf_keeps_def dest: pair_keeps_inv)

text \<open>Rendering appends the bytes of the message and tells where they are, or changes nothing.\<close>

lemma wbuf_render_ok:
  assumes p: "renders itf R" and d: "wb_r_itf wb = Some itf" and pi: "pair_inv (wb_raw wb) (wb_enc wb) m"
  obtains (throw) "wbuf_render x wb m e = Inl Throw"
  | (fail) wb' m' e' where "wbuf_render x wb m e = Inr (TT_FAIL, None, wb', m', e')" "wbuf_keeps wb m wb' m'"
      "buf_data (wb_raw wb') m' = buf_data (wb_raw wb) m" "buf_data (wb_enc wb') m' = buf_data (wb_enc wb) m"
  | (ok) q off n y wb' m' e' where "wbuf_render x wb m e = Inr (TT_SUCCESS, Some ((q, off), n), wb', m', e')"
      "wbuf_keeps wb m wb' m'" "R x y" "y \<noteq> []"
      "buf_data (wb_raw wb') m' = buf_data (wb_raw wb) m @ y" "buf_data (wb_enc wb') m' = buf_data (wb_enc wb) m"
      "mem_load 1 m' q off (unat n) = Inr y"
proof -
  let ?b = "wb_raw wb"
  note inv = pair_invD [OF pi]
  obtain n e1 where pr: "ren_prepare itf x m e = Inr (n, m, e1)"
    using p unfolding renders_def by blast
  show thesis
  proof (cases "n = 0")
    case True
    then have "wbuf_render x wb m e = Inr (TT_FAIL, None, wb, m, e1)"
      using d pr by (simp add: wbuf_render_def)
    then show thesis using fail wbuf_keeps_refl [OF pi] by blast
  next
    case nz: False
    have R: "case ren_render itf ?b n x m e1 of Inl f \<Rightarrow> f = Throw
         | Inr (r, b', m', e') \<Rightarrow> keeps ?b m b' m' \<and> buf_rpos b' = buf_rpos ?b
             \<and> take (length (buf_data ?b m)) (buf_data b' m') = buf_data ?b m
             \<and> (TT_OK r \<longrightarrow> (\<exists>y. y \<noteq> [] \<and> R x y \<and> buf_data b' m' = buf_data ?b m @ y))"
      using p inv(1,2) unfolding renders_def by blast
    show thesis
    proof (cases "ren_render itf ?b n x m e1")
      case (Inl f)
      then show thesis
        using R d pr nz throw by (simp add: wbuf_render_def tt_buf_backup_rwp_def)
    next
      case (Inr z)
      obtain r b' m' e' where z: "z = (r, b', m', e')" by (cases z)
      note R = R [unfolded Inr z, simplified]
      have k: "keeps ?b m b' m'" using R by blast
      show thesis
      proof (cases "TT_OK r")
        case False
        let ?b' = "tt_buf_restore_rwp (buf_rpos ?b) (buf_wpos ?b) b'"
        have dr: "keeps ?b m ?b' m'" "buf_data ?b' m' = buf_data ?b m"
          using R inv(1) restore_dropped by blast+
        note kp = keeps_pair [OF dr(1) pi]
        have "wbuf_render x wb m e = Inr (TT_FAIL, None, wb\<lparr>wb_raw := ?b'\<rparr>, m', e')"
          using d pr nz Inr z False by (simp add: wbuf_render_def tt_buf_backup_rwp_def)
        then show thesis
          using fail [of "wb\<lparr>wb_raw := ?b'\<rparr>" m' e'] kp dr(2) by (simp add: wbuf_keeps_def)
      next
        case True
        then obtain y where y: "y \<noteq> []" "R x y" "buf_data b' m' = buf_data ?b m @ y" using R by blast
        note kp = keeps_pair [OF k pi]
        have i': "buf_inv b' m'" using k by (simp add: keepsD)
        have rp: "buf_rpos b' = buf_rpos ?b" using R by blast
        note pos = buf_inv_pos [OF inv(1)] and pos' = buf_inv_pos [OF i']
        have "length (buf_data b' m') = length (buf_data ?b m) + length y" using y by simp
        then have w: "unat (buf_wpos b') = unat (buf_wpos ?b) + length y"
          using pos(1) pos'(1) rp by (simp add: length_buf_data [OF i'] length_buf_data [OF inv(1)] buf_rlen [OF i'] buf_rlen [OF inv(1)])
        have l: "buf_wpos ?b < buf_wpos b'" using w y(1) by (simp add: word_less_nat_alt)
        let ?n = "buf_wpos b' - buf_wpos ?b"
        have n: "unat ?n = length y" using w by (simp add: unat_sub_u32)
        have nn: "(if ?n \<noteq> n then ?n else n) = ?n" by simp
        have off: "unat (buf_wpos b' - ?n) = unat (buf_wpos ?b)" by simp
        have ld: "mem_load 1 m' (buf_p b') (unat (buf_wpos ?b)) (length y) = Inr y"
        proof -
          have "unat (buf_wpos ?b) + length y \<le> unat (buf_size b')" using w pos' by linarith
          from buf_load [OF i' this]
          have "mem_load 1 m' (buf_p b') (unat (buf_wpos ?b)) (length y) = Inr (take (length y) (drop (unat (buf_wpos ?b)) (buf_cells b' m')))" .
          moreover have "take (length y) (drop (unat (buf_wpos ?b)) (buf_cells b' m')) = y"
          proof -
            let ?k = "unat (buf_wpos ?b) - unat (buf_rpos ?b)"
            have k1: "length (buf_data ?b m) = ?k" using inv(1) by (simp add: length_buf_data buf_rlen)
            have "y = drop ?k (buf_data b' m')" using y(3) k1 by simp
            also have "\<dots> = drop ?k (take (?k + length y) (drop (unat (buf_rpos ?b)) (buf_cells b' m')))"
              using w rp pos(1) by (simp add: buf_data_def)
            also have "\<dots> = take (length y) (drop (unat (buf_wpos ?b)) (buf_cells b' m'))"
              using pos(1) by (simp add: drop_take)
            finally show ?thesis by simp
          qed
          ultimately show ?thesis by simp
        qed
        have "wbuf_render x wb m e = Inr (TT_SUCCESS, Some ((buf_p b', unat (buf_wpos ?b)), ?n), wb\<lparr>wb_raw := b'\<rparr>, m', e')"
          using d pr nz Inr z True l off by (auto simp: wbuf_render_def tt_buf_backup_rwp_def Let_def)
        then show thesis
          using ok y kp ld n by (simp add: wbuf_keeps_def)
      qed
    qed
  qed
qed

lemma wbuf_encode_ok:
  assumes p: "encodes itf C" and d: "wb_e_itf wb = Some itf" and pi: "pair_inv (wb_raw wb) (wb_enc wb) m"
  obtains (throw) "wbuf_encode wb m e = Inl Throw"
  | (fin) r wb' m' e' xs ys where "wbuf_encode wb m e = Inr (r, wb', m', e')" "wbuf_keeps wb m wb' m'"
      "list_all2 C xs ys" "buf_data (wb_raw wb) m = concat xs @ buf_data (wb_raw wb') m'"
      "buf_data (wb_enc wb') m' = buf_data (wb_enc wb) m @ concat ys"
proof -
  obtain out where o: "wbuf_encode_loop itf False (wb_raw wb) (wb_enc wb) m e = Some out"
    "encode_result C (wb_raw wb) (wb_enc wb) m out"
    using encode_loop [OF p pi] by blast
  show thesis
  proof (cases out)
    case (Inl f)
    then show thesis using o d throw by (simp add: encode_result_def wbuf_encode_def)
  next
    case (Inr z)
    obtain q has' raw' enc' m' e' where z: "z = (q, has', raw', enc', m', e')" by (cases z)
    let ?wb = "wb\<lparr>wb_raw := raw', wb_enc := enc'\<rparr>"
    obtain xs ys where "list_all2 C xs ys" "buf_data (wb_raw wb) m = concat xs @ buf_data raw' m'"
      "buf_data enc' m' = buf_data (wb_enc wb) m @ concat ys" "pair_keeps (wb_raw wb) (wb_enc wb) m raw' enc' m'"
      using o(2) unfolding encode_result_def Inr z by auto
    moreover have "\<exists>r. wbuf_encode wb m e = Inr (r, ?wb, m', e')"
      using o(1) d Inr z by (simp add: wbuf_encode_def Let_def)
    ultimately show thesis
      using fin [of _ ?wb m' e' xs ys] by (auto simp: wbuf_keeps_def)
  qed
qed

lemma wbuf_inc_rp_ok:
  assumes pi: "pair_inv (wb_raw wb) (wb_enc wb) m"
    and n: "unat n \<le> length (buf_data (if wb_e_itf wb \<noteq> None then wb_enc wb else wb_raw wb) m)"
  obtains wb' m' where "tt_wbuf_inc_rp n wb m = Inr (TT_SUCCESS, wb', m')" "wbuf_keeps wb m wb' m'"
    "buf_data (wb_raw wb') m' = (if wb_e_itf wb \<noteq> None then buf_data (wb_raw wb) m else drop (unat n) (buf_data (wb_raw wb) m))"
    "buf_data (wb_enc wb') m' = (if wb_e_itf wb \<noteq> None then drop (unat n) (buf_data (wb_enc wb) m) else buf_data (wb_enc wb) m)"
proof (cases "wb_e_itf wb")
  case None
  let ?b = "(wb_raw wb)\<lparr>buf_rpos := buf_rpos (wb_raw wb) + n\<rparr>"
  have n': "unat n \<le> length (buf_data (wb_raw wb) m)" using n None by simp
  note sk = skip_len [OF pair_invD(1,2) [OF pi] n']
  obtain q b' m' where rf: "tt_buf_try_refine (wb_refine_threshold wb) ?b m = Inr (q, b', m')" "keeps ?b m b' m'"
    "buf_data b' m' = buf_data ?b m"
    using keepsD(1,2) [OF sk(2)] by (rule try_refine_ok)
  note kp = keeps_pair [OF keeps_trans [OF sk(2) rf(2)] pi]
  have "tt_wbuf_inc_rp n wb m = Inr (TT_SUCCESS, wb\<lparr>wb_raw := b'\<rparr>, m')"
    using None sk(1) rf(1) by (simp add: tt_wbuf_inc_rp_def Let_def)
  then show thesis
    using that [of "wb\<lparr>wb_raw := b'\<rparr>" m'] kp rf(3) sk(3) None by (simp add: wbuf_keeps_def)
next
  case (Some itf)
  let ?c = "(wb_enc wb)\<lparr>buf_rpos := buf_rpos (wb_enc wb) + n\<rparr>"
  have n': "unat n \<le> length (buf_data (wb_enc wb) m)" using n Some by simp
  note sk = skip_len [OF pair_invD(3,4) [OF pi] n']
  note k0 = keeps_pair2 [OF sk(2) pi]
  obtain q b' m1 where rf: "tt_buf_try_refine (wb_refine_threshold wb) (wb_raw wb) m = Inr (q, b', m1)"
    "keeps (wb_raw wb) m b' m1" "buf_data b' m1 = buf_data (wb_raw wb) m"
    using pair_invD(1,2) [OF pi] by (rule try_refine_ok)
  note k1 = keeps_pair [OF rf(2) pair_keeps_inv [OF k0(1)]]
  note pi1 = pair_keeps_inv [OF k1(1)]
  obtain q2 c' m2 where rg: "tt_buf_try_refine (wb_refine_threshold wb) ?c m1 = Inr (q2, c', m2)"
    "keeps ?c m1 c' m2" "buf_data c' m2 = buf_data ?c m1"
    using pair_invD(3,4) [OF pi1] by (rule try_refine_ok)
  note k2 = keeps_pair2 [OF rg(2) pi1]
  have k: "pair_keeps (wb_raw wb) (wb_enc wb) m b' c' m2"
    using k0(1) k1(1) k2(1) by (blast intro: pair_keeps_trans)
  have "tt_wbuf_inc_rp n wb m = Inr (TT_SUCCESS, wb\<lparr>wb_raw := b', wb_enc := c'\<rparr>, m2)"
    using Some sk(1) rf(1) rg(1) by (simp add: tt_wbuf_inc_rp_def Let_def)
  then show thesis
    using that [of "wb\<lparr>wb_raw := b', wb_enc := c'\<rparr>" m2] k k1(2) k2(2) rf(3) rg(3) sk(3) Some
    by (simp add: wbuf_keeps_def)
qed

text \<open>
  How a writer uses the buffer: it renders messages, and takes bytes at the address
  \<^verbatim>\<open>tt_wbuf_get_rptr\<close> gives to send them. A message is accepted when its address was assigned.
\<close>

definition wbuf_take :: "u32 \<Rightarrow> ('m, 'e) tt_wbuf \<Rightarrow> bmem \<Rightarrow> (u8 list \<times> ('m, 'e) tt_wbuf \<times> bmem) run" where
  "wbuf_take n wbuf m =
    (case tt_wbuf_get_rptr wbuf of ((p, off), len) \<Rightarrow>
     let k = (if n < len then n else len) in
     bindr (mem_load 1 m p off (unat k)) (\<lambda>bs.
     bindr (tt_wbuf_inc_rp k wbuf m) (\<lambda>(r, wbuf, m). Inr (bs, wbuf, m))))"

inductive wbuf_run ::
  "('m, 'e) tt_wbuf \<Rightarrow> bmem \<Rightarrow> 'e \<Rightarrow> 'm list \<Rightarrow> u8 list \<Rightarrow> ('m, 'e) tt_wbuf \<Rightarrow> bmem \<Rightarrow> 'e \<Rightarrow> bool"
  for wb0 m0 e0 where
  start: "wbuf_run wb0 m0 e0 [] [] wb0 m0 e0"
| render: "wbuf_run wb0 m0 e0 msgs out wb m e \<Longrightarrow> tt_wbuf_render x wb m e = Inr (r, rendered, wb', m', e')
    \<Longrightarrow> wbuf_run wb0 m0 e0 (if rendered = None then msgs else msgs @ [x]) out wb' m' e'"
| take: "wbuf_run wb0 m0 e0 msgs out wb m e \<Longrightarrow> wbuf_take n wb m = Inr (bs, wb', m')
    \<Longrightarrow> wbuf_run wb0 m0 e0 msgs (out @ bs) wb' m' e"

lemma wbuf_render_encode:
  assumes p: "renders r_itf R" "encodes e_itf C" and d: "wb_r_itf wb = Some r_itf" "wb_e_itf wb = Some e_itf"
    and pi: "pair_inv (wb_raw wb) (wb_enc wb) m"
  shows "case tt_wbuf_render x wb m e of Inl f \<Rightarrow> f = Throw
    | Inr (r, rendered, wb', m', e') \<Rightarrow> wbuf_keeps wb m wb' m' \<and> (\<exists>y xs cs.
        (if rendered = None then y = [] else R x y) \<and> list_all2 C xs cs
        \<and> buf_data (wb_raw wb) m @ y = concat xs @ buf_data (wb_raw wb') m'
        \<and> buf_data (wb_enc wb') m' = buf_data (wb_enc wb) m @ concat cs)"
  using p(1) d(1) pi
proof (cases rule: wbuf_render_ok [where x = x and e = e])
  case throw
  then show ?thesis by (simp add: tt_wbuf_render_def)
next
  case (fail wb' m' e')
  have "tt_wbuf_render x wb m e = Inr (TT_FAIL, None, wb', m', e')"
    using fail(1) by (simp add: tt_wbuf_render_def)
  then show ?thesis
    using fail by (auto intro!: exI [of _ "[]"])
next
  case (ok q off n y wb1 m1 e1)
  have d1: "wb_e_itf wb1 = Some e_itf" and pi1: "pair_inv (wb_raw wb1) (wb_enc wb1) m1"
    using ok(2) d wbuf_keeps_inv [OF ok(2)] by (auto simp: wbuf_keeps_def)
  show ?thesis
    using p(2) d1 pi1
  proof (cases rule: wbuf_encode_ok [where e = e1])
    case throw
    then show ?thesis using ok(1) by (simp add: tt_wbuf_render_def)
  next
    case (fin r wb2 m2 e2 xs cs)
    obtain r' where eq: "tt_wbuf_render x wb m e = Inr (r', Some ((q, off), n), wb2, m2, e2)"
      using ok(1) fin(1) by (cases "TT_OK r") (simp_all add: tt_wbuf_render_def)
    have "R x y" "list_all2 C xs cs" "buf_data (wb_raw wb) m @ y = concat xs @ buf_data (wb_raw wb2) m2"
      "buf_data (wb_enc wb2) m2 = buf_data (wb_enc wb) m @ concat cs"
      using ok fin by simp_all
    then show ?thesis
      unfolding eq using wbuf_keeps_trans [OF ok(2) fin(2)] by auto
  qed
qed

lemma wbuf_take_ok:
  assumes d: "wb_e_itf wb = Some e_itf" and pi: "pair_inv (wb_raw wb) (wb_enc wb) m"
  obtains bs wb' m' where "wbuf_take n wb m = Inr (bs, wb', m')" "wbuf_keeps wb m wb' m'"
    "buf_data (wb_raw wb') m' = buf_data (wb_raw wb) m" "buf_data (wb_enc wb) m = bs @ buf_data (wb_enc wb') m'"
proof -
  note inv = pair_invD [OF pi]
  define k where "k = (if n < TT_BUF_RLEN (wb_enc wb) then n else TT_BUF_RLEN (wb_enc wb))"
  have k: "unat k \<le> length (buf_data (wb_enc wb) m)"
    using length_buf_data [OF inv(3)] by (auto simp: k_def word_less_nat_alt)
  have "unat k \<le> length (buf_data (if wb_e_itf wb \<noteq> None then wb_enc wb else wb_raw wb) m)"
    using k d by simp
  with pi obtain wb' m' where w: "tt_wbuf_inc_rp k wb m = Inr (TT_SUCCESS, wb', m')" "wbuf_keeps wb m wb' m'"
    "buf_data (wb_raw wb') m' = (if wb_e_itf wb \<noteq> None then buf_data (wb_raw wb) m else drop (unat k) (buf_data (wb_raw wb) m))"
    "buf_data (wb_enc wb') m' = (if wb_e_itf wb \<noteq> None then drop (unat k) (buf_data (wb_enc wb) m) else buf_data (wb_enc wb) m)"
    by (rule wbuf_inc_rp_ok)
  have rp: "tt_wbuf_get_rptr wb = ((buf_p (wb_enc wb), unat (buf_rpos (wb_enc wb))), TT_BUF_RLEN (wb_enc wb))"
    using d by (simp add: tt_wbuf_get_rptr_def tt_buf_get_rptr_def)
  have "mem_load 1 m (buf_p (wb_enc wb)) (unat (buf_rpos (wb_enc wb))) (unat k)
      = Inr (take (unat k) (buf_data (wb_enc wb) m))"
    using buf_nocopy_bytes [OF inv(3) k] .
  then have "wbuf_take n wb m = Inr (take (unat k) (buf_data (wb_enc wb) m), wb', m')"
    using w(1) unfolding wbuf_take_def rp prod.case Let_def k_def [symmetric] by simp
  moreover have "buf_data (wb_raw wb') m' = buf_data (wb_raw wb) m"
    "buf_data (wb_enc wb) m = take (unat k) (buf_data (wb_enc wb) m) @ buf_data (wb_enc wb') m'"
    using w(3,4) d by simp_all
  ultimately show thesis
    using w(2) that by blast
qed

lemma wbuf_run_ok:
  assumes p: "renders r_itf R" "encodes e_itf C" and d: "wb_r_itf wb0 = Some r_itf" "wb_e_itf wb0 = Some e_itf"
    and pi: "pair_inv (wb_raw wb0) (wb_enc wb0) m0" "buf_data (wb_raw wb0) m0 = []" "buf_data (wb_enc wb0) m0 = []"
    and r: "wbuf_run wb0 m0 e0 msgs out wb m e"
  shows "wbuf_keeps wb0 m0 wb m \<and> (\<exists>ys xs cs. list_all2 R msgs ys \<and> list_all2 C xs cs
    \<and> concat ys = concat xs @ buf_data (wb_raw wb) m \<and> concat cs = out @ buf_data (wb_enc wb) m)"
  using r
proof (induction rule: wbuf_run.induct)
  case start
  then show ?case
    using pi wbuf_keeps_refl by (auto intro!: exI [of _ "[]"])
next
  case (render msgs out wb m e x r rendered wb' m' e')
  obtain ys xs cs where IH: "wbuf_keeps wb0 m0 wb m" "list_all2 R msgs ys" "list_all2 C xs cs"
    "concat ys = concat xs @ buf_data (wb_raw wb) m" "concat cs = out @ buf_data (wb_enc wb) m"
    using render.IH by blast
  have d1: "wb_r_itf wb = Some r_itf" "wb_e_itf wb = Some e_itf" using IH(1) d by (auto simp: wbuf_keeps_def)
  obtain y xs1 cs1 where R: "wbuf_keeps wb m wb' m'" "if rendered = None then y = [] else R x y" "list_all2 C xs1 cs1"
    "buf_data (wb_raw wb) m @ y = concat xs1 @ buf_data (wb_raw wb') m'"
    "buf_data (wb_enc wb') m' = buf_data (wb_enc wb) m @ concat cs1"
    using wbuf_render_encode [OF p d1 wbuf_keeps_inv [OF IH(1)], of x e] render.hyps(2) by auto
  let ?ys = "if rendered = None then ys else ys @ [y]"
  have ys: "concat ?ys = concat ys @ y" using R(2) by simp
  have "list_all2 R (if rendered = None then msgs else msgs @ [x]) ?ys"
    using IH(2) R(2) by (auto intro: list_all2_appendI)
  moreover have "list_all2 C (xs @ xs1) (cs @ cs1)"
    using IH(3) R(3) by (rule list_all2_appendI)
  moreover have "concat ?ys = concat (xs @ xs1) @ buf_data (wb_raw wb') m'"
    unfolding ys using IH(4) R(4) by simp
  moreover have "concat (cs @ cs1) = out @ buf_data (wb_enc wb') m'"
    using IH(5) R(5) by simp
  ultimately show ?case
    using wbuf_keeps_trans [OF IH(1) R(1)] by blast
next
  case (take msgs out wb m e n bs wb' m')
  obtain ys xs cs where IH: "wbuf_keeps wb0 m0 wb m" "list_all2 R msgs ys" "list_all2 C xs cs"
    "concat ys = concat xs @ buf_data (wb_raw wb) m" "concat cs = out @ buf_data (wb_enc wb) m"
    using take.IH by blast
  have d1: "wb_e_itf wb = Some e_itf" using IH(1) d by (auto simp: wbuf_keeps_def)
  obtain bs' wb1 m1 where t: "wbuf_take n wb m = Inr (bs', wb1, m1)" "wbuf_keeps wb m wb1 m1"
    "buf_data (wb_raw wb1) m1 = buf_data (wb_raw wb) m" "buf_data (wb_enc wb) m = bs' @ buf_data (wb_enc wb1) m1"
    using d1 wbuf_keeps_inv [OF IH(1)] by (rule wbuf_take_ok)
  then have "bs' = bs" "wb1 = wb'" "m1 = m'" using take.hyps(2) by auto
  then show ?case
    using IH t wbuf_keeps_trans [OF IH(1) t(2)] by auto
qed

section \<open>From the writer to the reader\<close>

text \<open>Frames that a protocol cuts where they were put together, of which some bytes have come.\<close>

lemma stream_frames:
  assumes ok: "protocol_ok P"
    and cut: "\<And>y z. y \<in> set ys \<Longrightarrow> cut P (y @ z) = Cut (length y)"
    and body: "\<And>y s. y \<in> set ys \<Longrightarrow> fst (body P y s) \<noteq> Refuse"
    and d: "d @ w = concat ys"
  shows "\<exists>k vs p s'. k \<le> length ys \<and> d = concat (take k ys) @ p \<and> stream P d s = (True, vs, p, s')
    \<and> stream P (concat (take k ys)) s = (True, vs, [], s') \<and> (w = [] \<longrightarrow> k = length ys)"
  using cut body d
proof (induction ys arbitrary: d s)
  case Nil
  then show ?case by simp
next
  case (Cons y ys)
  have c: "cut P (y @ z) = Cut (length y)" for z using Cons.prems(1) by simp
  have b: "fst (body P y s) \<noteq> Refuse" using Cons.prems(2) by simp
  show ?case
  proof (cases "length y \<le> length d")
    case False
    then obtain z where z: "y = d @ z" "z \<noteq> []"
      using Cons.prems(3) by (auto simp: append_eq_append_conv2)
    have "stream P d s = (True, [], d, s)"
    proof (cases "d = []")
      case ne: False
      have "cut P d = Wait"
      proof (cases "cut P d")
        case Bad
        then show ?thesis using protocol_bad [OF ok Bad, of z] c [of "[]"] z by simp
      next
        case (Cut n)
        then show ?thesis using protocol_cut(2) [OF ok Cut] protocol_cut(4) [OF ok Cut, of z] c [of "[]"] z by simp
      qed
      then show ?thesis by (rule stream_Wait)
    qed simp
    moreover have "w \<noteq> []" using Cons.prems(3) z by auto
    ultimately show ?thesis
      by (intro exI [of _ 0]) simp
  next
    case True
    then obtain d' where d': "d = y @ d'" "d' @ w = concat ys"
      using Cons.prems(3) by (auto simp: append_eq_append_conv2)
    obtain o1 s1 where o1: "body P y s = (o1, s1)" by fastforce
    obtain k vs p s' where IH: "k \<le> length ys" "d' = concat (take k ys) @ p" "stream P d' s1 = (True, vs, p, s')"
      "stream P (concat (take k ys)) s1 = (True, vs, [], s')" "w = [] \<longrightarrow> k = length ys"
      using Cons.IH [of d' s1] Cons.prems d' by auto
    have "o1 \<noteq> Refuse" using b o1 by simp
    then have "\<exists>vs'. stream P d s = (True, vs', p, s') \<and> stream P (y @ concat (take k ys)) s = (True, vs', [], s')"
      using stream_Cut [OF ok c, of d' s] stream_Cut [OF ok c, of "concat (take k ys)" s] IH o1 d'(1)
      by (cases o1) simp_all
    then obtain vs' where v: "stream P d s = (True, vs', p, s')" "stream P (y @ concat (take k ys)) s = (True, vs', [], s')"
      by blast
    show ?thesis
      using IH v d' by (intro exI [of _ "Suc k"] exI [of _ vs'] exI [of _ p] exI [of _ s']) simp
  qed
qed

end
