(* ===== verification/TT_RWBuffer_Props.thy ===== *)
theory TT_RWBuffer_Props
  imports TT_RWBuffer_Write
begin

text \<open>
  The properties of the read and the write buffer, with the callbacks of the unit test as a client.
\<close>

section \<open>A client\<close>

text \<open>
  The callbacks of \<^verbatim>\<open>algorithm/test_case/tt_ut_read_buf.c\<close>: a frame of the decoder is its length and
  that many bytes; a message is a length \<open>n\<close>, a magic byte, \<open>n\<close> equal bytes and a magic byte. The
  environment holds nothing for the decoder, and \<^verbatim>\<open>__ut_ret\<close> and \<^verbatim>\<open>__ut_seq\<close> for the parser.
\<close>

type_synonym ut_env = "unit \<times> tt_result \<times> u64"

definition ut_dec_pre :: "tt_buf \<Rightarrow> u32 \<Rightarrow> bmem \<Rightarrow> 'e \<Rightarrow> (tt_result \<times> u32 \<times> tt_buf \<times> bmem \<times> 'e) run" where
  "ut_dec_pre raw len m e =
    bindr (tt_buf_get_u8 0 raw m) (\<lambda>(r, n, raw).
    if \<not> TT_OK r then Inr (r, len, raw, m, e)
    else case tt_buf_inc_rp (ucast n) raw of (r, raw) \<Rightarrow>
      if \<not> TT_OK r then Inr (r, len, raw, m, e) else Inr (TT_SUCCESS, ucast n + 1, raw, m, e))"

definition ut_dec ::
  "tt_buf \<Rightarrow> u32 \<Rightarrow> tt_buf \<Rightarrow> bmem \<Rightarrow> 'e \<Rightarrow> (tt_result \<times> tt_buf \<times> tt_buf \<times> bmem \<times> 'e) run" where
  "ut_dec raw len dec m e =
    bindr (tt_buf_get_u8 0 raw m) (\<lambda>(r, n, raw).
    if \<not> TT_OK r then Inr (r, raw, dec, m, e)
    else bindr (TT_ASSERT (len = ucast n + 1)) (\<lambda>_.
      if len \<noteq> 1 then
        bindr (mem_load 1 m (buf_p raw) (unat (buf_rpos raw)) (unat n)) (\<lambda>bs.
        bindr (tt_buf_put (Some bs) (ucast n) dec m) (\<lambda>(r, dec, m).
        if \<not> TT_OK r then Inr (r, raw, dec, m, e)
        else Inr (TT_SUCCESS, snd (tt_buf_inc_rp (ucast n) raw), dec, m, e)))
      else Inr (TT_E_PROCEED, raw, dec, m, e)))"

definition ut_par_pre :: "tt_buf \<Rightarrow> u32 \<Rightarrow> bmem \<Rightarrow> 'e \<Rightarrow> (tt_result \<times> u32 \<times> tt_buf \<times> bmem \<times> 'e) run" where
  "ut_par_pre buf len m e =
    bindr (tt_buf_get_u8 0 buf m) (\<lambda>(r, n, buf).
    if \<not> TT_OK r then Inr (r, len, buf, m, e)
    else case tt_buf_inc_rp (ucast n + 2) buf of (r, buf) \<Rightarrow>
      if \<not> TT_OK r then Inr (r, len, buf, m, e) else Inr (TT_SUCCESS, ucast n + 3, buf, m, e))"

text \<open>The loop over the bytes: \<open>k\<close> are still to come, \<open>v\<close> is the first one.\<close>

primrec ut_par_loop :: "nat \<Rightarrow> bool \<Rightarrow> u8 \<Rightarrow> tt_buf \<Rightarrow> bmem \<Rightarrow> (tt_result \<times> u8 \<times> tt_buf) run" where
  "ut_par_loop 0 first v buf m = Inr (TT_SUCCESS, v, buf)"
| "ut_par_loop (Suc k) first v buf m =
    bindr (tt_buf_get_u8 0 buf m) (\<lambda>(r, t, buf).
    if \<not> TT_OK r then Inr (r, v, buf)
    else if first then ut_par_loop k False t buf m
    else if t \<noteq> v then Inr (TT_FAIL, v, buf)
    else ut_par_loop k False v buf m)"

definition ut_par ::
  "tt_buf \<Rightarrow> u32 \<Rightarrow> u64 option \<Rightarrow> bmem \<Rightarrow> 'e \<Rightarrow> (tt_result \<times> u64 option \<times> tt_buf \<times> bmem \<times> 'e) run" where
  "ut_par buf len parse_ret m e =
    bindr (tt_buf_get_u8 0 buf m) (\<lambda>(r, n, buf).
    if \<not> TT_OK r then Inr (r, parse_ret, buf, m, e)
    else bindr (TT_ASSERT (len = ucast n + 3)) (\<lambda>_.
    bindr (tt_buf_get_u8 0 buf m) (\<lambda>(r, t, buf).
    if \<not> TT_OK r then Inr (r, parse_ret, buf, m, e)
    else if t \<noteq> 0xaa then Inr (TT_FAIL, parse_ret, buf, m, e)
    else bindr (ut_par_loop (unat n) True 0 buf m) (\<lambda>(r, v, buf).
    if \<not> TT_OK r then Inr (r, parse_ret, buf, m, e)
    else bindr (tt_buf_get_u8 0 buf m) (\<lambda>(r, t, buf).
    if \<not> TT_OK r then Inr (r, parse_ret, buf, m, e)
    else if t \<noteq> 0xbb then Inr (TT_FAIL, parse_ret, buf, m, e)
    else if v mod 5 \<noteq> 0 then Inr (TT_SUCCESS, Some (ucast v), buf, m, e)
    else Inr (TT_E_PROCEED, parse_ret, buf, m, e))))))"

definition ut_par_done :: "u64 option \<Rightarrow> bmem \<Rightarrow> ut_env \<Rightarrow> (bmem \<times> ut_env) run" where
  "ut_par_done parse_ret m e =
    (case e of (s, ut_ret, ut_seq) \<Rightarrow>
     let v = (case parse_ret of None \<Rightarrow> 0 | Some v \<Rightarrow> v);
         ut_seq = (if ut_seq mod 5 = 0 then ut_seq + 1 else ut_seq);
         ut_ret = (if v \<noteq> ut_seq then TT_FAIL else ut_ret) in
     Inr (m, s, ut_ret, ut_seq + 1))"

definition ut_d_itf :: "ut_env tt_rbuf_decode_itf" where
  "ut_d_itf = \<lparr>dec_prepare = ut_dec_pre, dec_decode = ut_dec\<rparr>"

definition ut_p_itf :: "(u64, ut_env) tt_rbuf_parse_itf" where
  "ut_p_itf = \<lparr>par_prepare = ut_par_pre, par_parse = ut_par, par_done = ut_par_done\<rparr>"

text \<open>The protocols.\<close>

definition framed :: "nat \<Rightarrow> u8 list \<Rightarrow> verdict" where
  "framed k d = (case d of [] \<Rightarrow> Wait | n # r \<Rightarrow> if length r < unat n + k then Wait else Cut (unat n + k + 1))"

definition ut_frames :: "(u8 list, unit) protocol" where
  "ut_frames = \<lparr>cut = framed 0, body = (\<lambda>y s. (if length y = 1 then Skip else Take (tl y), s))\<rparr>"

definition ut_seen :: "u8 \<Rightarrow> tt_result \<times> u64 \<Rightarrow> tt_result \<times> u64" where
  "ut_seen v t = (let q = (if snd t mod 5 = 0 then snd t + 1 else snd t) in
     (if ucast v \<noteq> q then TT_FAIL else fst t, q + 1))"

definition ut_message :: "u8 list \<Rightarrow> tt_result \<times> u64 \<Rightarrow> u8 outcome \<times> tt_result \<times> u64" where
  "ut_message y t =
    (let v = (if y ! 0 = 0 then 0 else y ! 2); bs = take (unat (y ! 0)) (drop 2 y) in
     if y ! 1 \<noteq> 0xaa \<or> (\<exists>b \<in> set bs. b \<noteq> v) \<or> last y \<noteq> 0xbb then (Refuse, t)
     else if v mod 5 \<noteq> 0 then (Take v, ut_seen v t) else (Skip, t))"

definition ut_messages :: "(u8, tt_result \<times> u64) protocol" where
  "ut_messages = \<lparr>cut = framed 2, body = ut_message\<rparr>"

lemma framed_ok: "framed k d = Cut n \<Longrightarrow> 0 < n \<and> n \<le> length d \<and> framed k (d @ x) = Cut n"
  by (auto simp: framed_def split: list.splits if_splits)

lemma ut_protocols_ok: "protocol_ok ut_frames" "protocol_ok ut_messages"
  using framed_ok by (auto simp: protocol_ok_def ut_frames_def ut_messages_def framed_def split: list.splits if_splits)

lemma get_u8_eq:
  assumes "buf_inv b m" "buf_data b m = v # rest"
  obtains "tt_buf_get_u8 old b m = Inr (TT_SUCCESS, v, b\<lparr>buf_rpos := buf_rpos b + 1\<rparr>)"
    "buf_inv (b\<lparr>buf_rpos := buf_rpos b + 1\<rparr>) m" "buf_data (b\<lparr>buf_rpos := buf_rpos b + 1\<rparr>) m = rest"
proof -
  have l: "unat (1 :: u32) \<le> length (buf_data b m)" using assms by simp
  have "tt_buf_get_u8 old b m = Inr (TT_SUCCESS, v, b\<lparr>buf_rpos := buf_rpos b + 1\<rparr>)"
    using assms by (simp add: tt_buf_get_u8_def buf_get_eq)
  with that show thesis
    using buf_inv_inc_rp [OF assms(1) l] assms(2) by simp
qed

lemma unat_u8_u32: "unat (ucast (n :: u8) :: u32) = unat n"
  using unat_lt_8 [of n] by (simp add: unsigned_ucast_eq take_bit_nat_eq_self)

lemma unat_u8_plus: "k < 2 ^ 16 \<Longrightarrow> unat (ucast (n :: u8) + of_nat k :: u32) = unat n + k"
  using unat_lt_8 [of n] by (subst unat_add_u32) (simp_all add: unat_u8_u32 unsigned_of_nat take_bit_nat_eq_self)

lemma unat_u8_plus123 [simp]:
  "unat (ucast (n :: u8) + 1 :: u32) = unat n + 1" "unat (ucast (n :: u8) + 2 :: u32) = unat n + 2"
  "unat (ucast (n :: u8) + 3 :: u32) = unat n + 3"
  using unat_u8_plus [of 1 n] unat_u8_plus [of 2 n] unat_u8_plus [of 3 n] by simp_all

lemma placed_inc: "placed b (b\<lparr>buf_rpos := buf_rpos b + i\<rparr>)"
  by simp

lemma ut_prepare:
  fixes f g :: "u8 \<Rightarrow> u32"
  assumes inv: "buf_inv b m" and ne: "buf_data b m \<noteq> []"
    and u: "\<And>n. unat (f n) = unat n + k" and u1: "\<And>n. unat (g n) = unat n + k + 1"
  shows "\<exists>r len b'. bindr (tt_buf_get_u8 0 b m) (\<lambda>(r, n, raw). if \<not> TT_OK r then Inr (r, 0, raw, m, e)
      else case tt_buf_inc_rp (f n) raw of (r, raw) \<Rightarrow>
        if \<not> TT_OK r then Inr (r, 0, raw, m, e) else Inr (TT_SUCCESS, g n, raw, m, e))
      = Inr (r, len, b', m, e) \<and> placed b b' \<and> answers (framed k (buf_data b m)) r len"
proof -
  obtain n rest where d: "buf_data b m = n # rest" using ne by (cases "buf_data b m") auto
  let ?b = "b\<lparr>buf_rpos := buf_rpos b + 1\<rparr>"
  obtain g: "tt_buf_get_u8 0 b m = Inr (TT_SUCCESS, n, ?b)" "buf_inv ?b m" "buf_data ?b m = rest"
    using inv d by (rule get_u8_eq)
  show ?thesis
  proof (cases "unat n + k \<le> length rest")
    case True
    have "tt_buf_inc_rp (f n) ?b = (TT_SUCCESS, ?b\<lparr>buf_rpos := buf_rpos ?b + (f n)\<rparr>)"
      using g True u by (simp add: buf_inc_rp_eq)
    then show ?thesis
      using g(1) d True u1 by (simp add: framed_def answers_def)
  next
    case False
    have "tt_buf_inc_rp (f n) ?b = (TT_E_BUF_NOBUFS, ?b)"
      using g False u by (simp add: buf_inc_rp_eq)
    then show ?thesis
      using g(1) d False by (simp add: framed_def answers_def)
  qed
qed

lemma ut_prepares: "prepares ut_dec_pre (framed 0)" "prepares ut_par_pre (framed 2)"
proof -
  show "prepares ut_dec_pre (framed 0)"
    unfolding prepares_def ut_dec_pre_def
    by (intro allI impI ut_prepare [where f = ucast and g = "\<lambda>n. ucast n + 1"]) (simp_all add: unat_u8_u32)
  show "prepares ut_par_pre (framed 2)"
    unfolding prepares_def ut_par_pre_def
    by (intro allI impI ut_prepare [where f = "\<lambda>n. ucast n + 2" and g = "\<lambda>n. ucast n + 3"]) simp_all
qed

lemma ut_decodes: "decodes ut_d_itf ut_frames"
proof -
  have "decoded ut_frames raw n dec m s t (ut_dec raw n dec m (s, t))"
    if pi: "pair_inv raw dec m" and c: "framed 0 (buf_data raw m) = Cut (unat n)"
    for raw dec m n and s :: unit and t :: "tt_result \<times> u64"
  proof -
    note inv = pair_invD [OF pi]
    obtain k rest where d: "buf_data raw m = k # rest" and l: "unat k \<le> length rest" and n: "unat n = unat k + 1"
      using c by (auto simp: framed_def split: list.splits if_splits)
    have nk: "n = ucast k + 1" using n by (simp add: word_unat_eq_iff)
    let ?b = "raw\<lparr>buf_rpos := buf_rpos raw + 1\<rparr>"
    obtain g: "tt_buf_get_u8 0 raw m = Inr (TT_SUCCESS, k, ?b)" "buf_inv ?b m" "buf_data ?b m = rest"
      using inv(1) d by (rule get_u8_eq)
    show ?thesis
    proof (cases "k = 0")
      case True
      then show ?thesis
        using g(1) nk d n keeps_refl [OF inv(3,4)] by (simp add: ut_dec_def decoded_def ut_frames_def TT_OK_def)
    next
      case False
      have k1: "n \<noteq> 1"
      proof
        assume "n = 1"
        then have "unat k = 0" using n by simp
        then show False using False by (simp add: unsigned_eq_0_iff)
      qed
      have lk: "unat (ucast k :: u32) \<le> length (buf_data ?b m)" using g(3) l by (simp add: unat_u8_u32)
      have ld: "mem_load 1 m (buf_p ?b) (unat (buf_rpos ?b)) (unat k) = Inr (take (unat k) rest)"
        using buf_nocopy_bytes [OF g(2) lk] g(3) by (simp add: unat_u8_u32)
      have rp: "snd (tt_buf_inc_rp (ucast k) ?b) = raw\<lparr>buf_rpos := buf_rpos raw + n\<rparr>"
        using lk unfolding buf_inc_rp_eq [OF g(2)] by (simp add: nk add.assoc add.commute)
      have lt: "unat (ucast k :: u32) = length (take (unat k) rest)" using l by (simp add: unat_u8_u32)
      have "appends dec m (take (unat k) rest) (tt_buf_put (Some (take (unat k) rest)) (ucast k) dec m)"
        using inv(3,4) lt by (rule buf_put_all)
      then show ?thesis
      proof (cases rule: appends_cases)
        case throw
        then show ?thesis
          using g(1) nk k1 ld by (simp add: ut_dec_def decoded_def)
      next
        case (ok dec' m')
        have "keeps dec m dec' m'" using ok by (simp add: keeps_def)
        moreover have "0 < unat k" using False by (simp add: unsigned_eq_0_iff flip: neq0_conv)
        ultimately show ?thesis
          using g(1) nk k1 ld ok rp d n False l
          by (simp add: ut_dec_def decoded_def ut_frames_def unat_u8_u32)
      next
        case (fail dec' m' j)
        have "keeps dec m dec' m'" using fail by (simp add: keeps_def)
        then show ?thesis
          using g(1) nk k1 ld fail by (simp add: ut_dec_def decoded_def)
      qed
    qed
  qed
  then show ?thesis
    using ut_protocols_ok(1) ut_prepares(1) by (auto simp: decodes_def ut_d_itf_def ut_frames_def)
qed

lemma par_loop_rest:
  assumes "buf_inv b m" "buf_data b m = bs @ rest"
  shows "\<exists>b'. ut_par_loop (length bs) False v b m = Inr (if \<forall>x \<in> set bs. x = v then TT_SUCCESS else TT_FAIL, v, b')
    \<and> placed b b' \<and> ((\<forall>x \<in> set bs. x = v) \<longrightarrow> b' = b\<lparr>buf_rpos := buf_rpos b + of_nat (length bs)\<rparr>)"
  using assms
proof (induction bs arbitrary: b)
  case (Cons x bs)
  let ?b = "b\<lparr>buf_rpos := buf_rpos b + 1\<rparr>"
  have "buf_data b m = x # bs @ rest" using Cons.prems(2) by simp
  with Cons.prems(1) obtain g: "tt_buf_get_u8 0 b m = Inr (TT_SUCCESS, x, ?b)" "buf_inv ?b m" "buf_data ?b m = bs @ rest"
    by (rule get_u8_eq)
  obtain b' where "ut_par_loop (length bs) False v ?b m = Inr (if \<forall>x \<in> set bs. x = v then TT_SUCCESS else TT_FAIL, v, b')"
    "placed ?b b'" "(\<forall>x \<in> set bs. x = v) \<longrightarrow> b' = ?b\<lparr>buf_rpos := buf_rpos ?b + of_nat (length bs)\<rparr>"
    using Cons.IH [OF g(2,3)] by blast
  then show ?case
    using g(1) placed_trans [OF placed_inc [of b 1]] by (cases "x = v") (auto simp: add.assoc)
qed simp

lemma par_loop_first:
  assumes "buf_inv b m" "buf_data b m = bs @ rest" "v = (if bs = [] then 0 else hd bs)"
  shows "\<exists>b'. ut_par_loop (length bs) True 0 b m = Inr (if \<forall>x \<in> set bs. x = v then TT_SUCCESS else TT_FAIL, v, b')
    \<and> placed b b' \<and> ((\<forall>x \<in> set bs. x = v) \<longrightarrow> b' = b\<lparr>buf_rpos := buf_rpos b + of_nat (length bs)\<rparr>)"
proof (cases bs)
  case Nil
  then show ?thesis using assms by simp
next
  case (Cons x cs)
  let ?b = "b\<lparr>buf_rpos := buf_rpos b + 1\<rparr>"
  have "buf_data b m = x # cs @ rest" using assms(2) Cons by simp
  with assms(1) obtain g: "tt_buf_get_u8 0 b m = Inr (TT_SUCCESS, x, ?b)" "buf_inv ?b m" "buf_data ?b m = cs @ rest"
    by (rule get_u8_eq)
  have v: "v = x" using assms(3) Cons by simp
  show ?thesis
    using par_loop_rest [OF g(2,3), of v] g(1) placed_trans [OF placed_inc [of b 1]]
    unfolding Cons v by (fastforce simp: add.assoc)
qed

lemma ut_parses: "parses ut_p_itf ut_messages"
proof -
  have "parsed ut_p_itf ut_messages b n m s t"
    if inv: "buf_inv b m" and c: "framed 2 (buf_data b m) = Cut (unat n)" for b n m s t
  proof -
    obtain k r where d: "buf_data b m = k # r" and l: "unat k + 2 \<le> length r" and n: "unat n = unat k + 3"
      using c by (auto simp: framed_def split: list.splits if_splits)
    have nk: "n = ucast k + 3" using n by (simp add: word_unat_eq_iff)
    obtain a r1 where r1: "r = a # r1" using l by (cases r) auto
    define bs where "bs = take (unat k) r1"
    have lb: "length bs = unat k" using l r1 by (simp add: bs_def)
    obtain z rest where r2: "r1 = bs @ z # rest"
      using l r1 lb append_take_drop_id [of "unat k" r1] unfolding bs_def
      by (metis One_nat_def add_2_eq_Suc' add_less_cancel_right drop_eq_Nil length_Cons less_Suc_eq_le list.exhaust not_less_eq_eq plus_1_eq_Suc)
    define y where "y = take (unat n) (buf_data b m)"
    have y: "y = k # a # bs @ [z]"
    proof -
      have "buf_data b m = (k # a # bs @ [z]) @ rest" "length (k # a # bs @ [z]) = unat n"
        using d r1 r2 n lb by simp_all
      then show ?thesis unfolding y_def by (metis append_eq_conv_conj)
    qed
    define v where "v = (if bs = [] then 0 else hd bs)"
    have yv: "(if y ! 0 = 0 then 0 else y ! 2) = v"
      using lb by (cases bs) (auto simp: y v_def unsigned_eq_0_iff)
    have yb: "take (unat (y ! 0)) (drop 2 y) = bs" using y lb by simp
    let ?b1 = "b\<lparr>buf_rpos := buf_rpos b + 1\<rparr>"
    obtain g: "tt_buf_get_u8 0 b m = Inr (TT_SUCCESS, k, ?b1)" "buf_inv ?b1 m" "buf_data ?b1 m = r"
      using inv d by (rule get_u8_eq)
    let ?b2 = "?b1\<lparr>buf_rpos := buf_rpos ?b1 + 1\<rparr>"
    have "buf_data ?b1 m = a # r1" using g(3) r1 by simp
    with g(2) obtain h: "tt_buf_get_u8 0 ?b1 m = Inr (TT_SUCCESS, a, ?b2)" "buf_inv ?b2 m" "buf_data ?b2 m = r1"
      by (rule get_u8_eq)
    have ek: "(of_nat (unat k) :: u32) = ucast k"
      using unat_lt_8 [of k]
      by (simp add: word_unat_eq_iff unat_u8_u32 unsigned_of_nat take_bit_nat_eq_self)
    have "buf_data ?b2 m = bs @ z # rest" using h(3) r2 by simp
    from par_loop_first [OF h(2) this v_def] obtain b3 where
      lp: "ut_par_loop (unat k) True 0 ?b2 m = Inr (if \<forall>x \<in> set bs. x = v then TT_SUCCESS else TT_FAIL, v, b3)"
      "placed ?b2 b3" "(\<forall>x \<in> set bs. x = v) \<longrightarrow> b3 = ?b2\<lparr>buf_rpos := buf_rpos ?b2 + ucast k\<rparr>"
      unfolding lb ek by blast
    have pl: "placed b ?b2" "placed b b3"
      using placed_trans [OF _ lp(2)] by simp_all
    have body: "body ut_messages y t = ut_message y t" by (simp add: ut_messages_def)
    note msg = ut_message_def [of y t, unfolded yv yb Let_def]
    show ?thesis
    proof (cases "a = 0xaa \<and> (\<forall>x \<in> set bs. x = v)")
      case False
      then have "ut_message y t = (Refuse, t)" using msg y by auto
      moreover have "\<exists>b'. ut_par b n None m (s, t) = Inr (TT_FAIL, None, b', m, s, t) \<and> placed b b'"
        using False g(1) h(1) lp(1) pl nk by (auto simp: ut_par_def)
      ultimately show ?thesis
        unfolding parsed_def y_def [symmetric] body by (cases t) (auto simp: ut_p_itf_def)
    next
      case True
      let ?b3 = "?b2\<lparr>buf_rpos := buf_rpos ?b2 + ucast k\<rparr>"
      have b3: "b3 = ?b3" using True lp(3) by simp
      have ub: "unat (ucast k :: u32) = unat k" by (rule unat_u8_u32)
      have "unat (ucast k :: u32) \<le> length (buf_data ?b2 m)" using h(3) r2 lb ub by simp
      from buf_inv_inc_rp [OF h(2) this] have i3: "buf_inv ?b3 m" "buf_data ?b3 m = z # rest"
        using h(3) r2 lb ub by simp_all
      let ?b4 = "?b3\<lparr>buf_rpos := buf_rpos ?b3 + 1\<rparr>"
      obtain q: "tt_buf_get_u8 0 ?b3 m = Inr (TT_SUCCESS, z, ?b4)"
        using i3 by (rule get_u8_eq)
      have b4: "?b4 = b\<lparr>buf_rpos := buf_rpos b + n\<rparr>" by (simp add: nk)
      have pr: "ut_par b n None m (s, t) = (if z \<noteq> 0xbb then Inr (TT_FAIL, None, ?b4, m, s, t)
          else if v mod 5 \<noteq> 0 then Inr (TT_SUCCESS, Some (ucast v), ?b4, m, s, t)
          else Inr (TT_E_PROCEED, None, ?b4, m, s, t))"
        using True g(1) h(1) lp(1) nk q b3 by (simp add: ut_par_def)
      have um: "ut_message y t = (if z \<noteq> 0xbb then (Refuse, t) else if v mod 5 \<noteq> 0 then (Take v, ut_seen v t) else (Skip, t))"
        using True msg y by auto
      have dn: "ut_par_done (Some (ucast v)) m (s, t) = Inr (m, s, ut_seen v t)"
        by (cases t) (simp add: ut_par_done_def ut_seen_def Let_def)
      show ?thesis
        unfolding parsed_def y_def [symmetric] body um
        using pr dn b4 by (cases t) (auto simp: ut_p_itf_def TT_OK_def)
    qed
  qed
  then show ?thesis
    using ut_protocols_ok(2) ut_prepares(2) by (auto simp: parses_def ut_p_itf_def ut_messages_def)
qed

section \<open>A writer\<close>

text \<open>
  The encoder and the renderer of the unit test, with the failures of \<^verbatim>\<open>tt_buf_put\<close> handed on, which
  the unit test ignores, and without frames whose length is more than a byte holds. The environment
  is the list of random numbers to come.
\<close>

definition wr_enc_pre :: "tt_buf \<Rightarrow> u32 \<Rightarrow> bmem \<Rightarrow> u32 list \<Rightarrow> (tt_result \<times> u32 \<times> tt_buf \<times> bmem \<times> u32 list) run" where
  "wr_enc_pre raw len m e =
    (let s = (case e of [] \<Rightarrow> 0 | x # xs \<Rightarrow> x) mod 20 + 1 in
     if s \<le> TT_BUF_RLEN raw then Inr (TT_SUCCESS, s, raw, m, tl e) else Inr (TT_E_BUF_NOBUFS, len, raw, m, tl e))"

definition wr_enc :: "tt_buf \<Rightarrow> u32 \<Rightarrow> tt_buf \<Rightarrow> bmem \<Rightarrow> 'e \<Rightarrow> (tt_result \<times> tt_buf \<times> tt_buf \<times> bmem \<times> 'e) run" where
  "wr_enc raw len enc m e =
    (if 255 < len then Inr (TT_FAIL, raw, enc, m, e)
     else bindr (mem_load 1 m (buf_p raw) (unat (buf_rpos raw)) (unat len)) (\<lambda>bs.
     bindr (TT_DO (tt_buf_put_u8 (ucast len) enc m) (\<lambda>(enc, m). tt_buf_put (Some bs) len enc m)) (\<lambda>(r, enc, m).
     if \<not> TT_OK r then Inr (r, raw, enc, m, e) else Inr (TT_SUCCESS, snd (tt_buf_inc_rp len raw), enc, m, e))))"

definition wr_rdr :: "tt_buf \<Rightarrow> u32 \<Rightarrow> u8 \<Rightarrow> bmem \<Rightarrow> 'e \<Rightarrow> (tt_result \<times> tt_buf \<times> bmem \<times> 'e) run" where
  "wr_rdr buf len v m e =
    bindr (TT_DO (tt_buf_put_u8 v buf m) (\<lambda>(buf, m). TT_DO (tt_buf_put_u8 0xaa buf m) (\<lambda>(buf, m).
      TT_DO (tt_buf_put_rep v (ucast v) buf m) (\<lambda>(buf, m). tt_buf_put_u8 0xbb buf m))))
    (\<lambda>(r, buf, m). Inr (r, buf, m, e))"

definition wr_e_itf :: "u32 list tt_wbuf_encode_itf" where
  "wr_e_itf = \<lparr>enc_prepare = wr_enc_pre, enc_encode = wr_enc\<rparr>"

definition wr_r_itf :: "(u8, u32 list) tt_wbuf_render_itf" where
  "wr_r_itf = \<lparr>ren_prepare = (\<lambda>v m e. Inr (ucast v + 3, m, e)), ren_render = wr_rdr\<rparr>"

definition ut_framing :: "u8 list \<Rightarrow> u8 list \<Rightarrow> bool" where
  "ut_framing x y \<longleftrightarrow> 0 < length x \<and> length x < 256 \<and> y = of_nat (length x) # x"

definition ut_rendering :: "u8 \<Rightarrow> u8 list \<Rightarrow> bool" where
  "ut_rendering v y \<longleftrightarrow> y = v # 0xaa # replicate (unat v) v @ [0xbb]"

lemma appends_u8_first:
  assumes "buf_inv b m" "\<not> buf_readonly b"
    "\<And>b' m'. buf_inv b' m' \<Longrightarrow> \<not> buf_readonly b' \<Longrightarrow> appends b' m' ws (k (b', m'))"
  shows "appends b m (v # ws) (TT_DO (tt_buf_put_u8 v b m) k)"
  using appends_TT_DO [OF put_u8_appends [OF assms(1,2)] assms(3)] by simp

lemma appends_rep_first:
  assumes "buf_inv b m" "\<not> buf_readonly b"
    "\<And>b' m'. buf_inv b' m' \<Longrightarrow> \<not> buf_readonly b' \<Longrightarrow> appends b' m' ws (k (b', m'))"
  shows "appends b m (replicate (unat n) v @ ws) (TT_DO (tt_buf_put_rep v n b m) k)"
  by (rule appends_TT_DO [OF buf_put_rep_appends [OF assms(1,2)] assms(3)])

lemma appends_prefix:
  assumes "appends b m vs (Inr (r, b', m'))"
  shows "keeps b m b' m'" "buf_rpos b' = buf_rpos b" "take (length (buf_data b m)) (buf_data b' m') = buf_data b m"
    "TT_OK r \<Longrightarrow> buf_data b' m' = buf_data b m @ vs"
  using assms appends_keeps [OF assms] by (auto simp: appends_def)

lemma wr_renders: "renders wr_r_itf ut_rendering"
proof -
  have "case wr_rdr b n v m e of Inl f \<Rightarrow> f = Throw
      | Inr (r, b', m', e') \<Rightarrow> keeps b m b' m' \<and> buf_rpos b' = buf_rpos b
             \<and> take (length (buf_data b m)) (buf_data b' m') = buf_data b m
             \<and> (TT_OK r \<longrightarrow> (\<exists>y. y \<noteq> [] \<and> ut_rendering v y \<and> buf_data b' m' = buf_data b m @ y))"
    if inv: "buf_inv b m" "\<not> buf_readonly b" for b n v m and e :: "u32 list"
  proof -
    let ?out = "TT_DO (tt_buf_put_u8 v b m) (\<lambda>(buf, m). TT_DO (tt_buf_put_u8 0xaa buf m) (\<lambda>(buf, m).
      TT_DO (tt_buf_put_rep v (ucast v) buf m) (\<lambda>(buf, m). tt_buf_put_u8 0xbb buf m)))"
    have "appends b m (v # 0xaa # replicate (unat (ucast v :: u32)) v @ [0xbb]) ?out"
    proof (rule appends_u8_first [OF inv], unfold prod.case)
      fix b1 m1
      assume 1: "buf_inv b1 m1" "\<not> buf_readonly b1"
      show "appends b1 m1 (0xaa # replicate (unat (ucast v :: u32)) v @ [0xbb])
        (TT_DO (tt_buf_put_u8 0xaa b1 m1) (\<lambda>(buf, m). TT_DO (tt_buf_put_rep v (ucast v) buf m) (\<lambda>(buf, m). tt_buf_put_u8 0xbb buf m)))"
      proof (rule appends_u8_first [OF 1], unfold prod.case)
        fix b2 m2
        assume 2: "buf_inv b2 m2" "\<not> buf_readonly b2"
        show "appends b2 m2 (replicate (unat (ucast v :: u32)) v @ [0xbb])
          (TT_DO (tt_buf_put_rep v (ucast v) b2 m2) (\<lambda>(buf, m). tt_buf_put_u8 0xbb buf m))"
          by (rule appends_rep_first [OF 2]) (simp add: put_u8_appends)
      qed
    qed
    then have a: "appends b m (v # 0xaa # replicate (unat v) v @ [0xbb]) ?out"
      by (simp add: unat_u8_u32)
    show ?thesis
    proof (cases ?out)
      case (Inl f)
      then show ?thesis using a by (simp add: wr_rdr_def appends_def)
    next
      case (Inr x)
      obtain r b' m' where x: "x = (r, b', m')" by (cases x)
      show ?thesis
        using appends_prefix [OF a [unfolded Inr x]] Inr x by (simp add: wr_rdr_def ut_rendering_def)
    qed
  qed
  then show ?thesis by (simp add: renders_def wr_r_itf_def)
qed

lemma wr_encodes: "encodes wr_e_itf ut_framing"
proof -
  have pre: "\<exists>r len b' e'. wr_enc_pre b 0 m e = Inr (r, len, b', m, e') \<and> placed b b'
           \<and> (TT_OK r \<longrightarrow> 0 < unat len \<and> unat len \<le> length (buf_data b m))"
    if inv: "buf_inv b m" for b m e
  proof -
    let ?s = "(case e of [] \<Rightarrow> 0 | x # xs \<Rightarrow> x) mod 20 + 1 :: u32"
    have "unat ((case e of [] \<Rightarrow> 0 | x # xs \<Rightarrow> x) mod 20 :: u32) < 20"
      by (simp add: unat_mod)
    then have "0 < unat ?s"
      by (subst unat_add_u32) simp_all
    then show ?thesis
      using length_buf_data [OF inv] by (auto simp: wr_enc_pre_def Let_def word_le_nat_alt)
  qed
  have enc: "encoded ut_framing raw n enc m (wr_enc raw n enc m e)"
    if pi: "pair_inv raw enc m" and n: "0 < unat n" "unat n \<le> length (buf_data raw m)"
    for raw enc m n and e :: "u32 list"
  proof -
    note inv = pair_invD [OF pi]
    let ?bs = "take (unat n) (buf_data raw m)"
    show ?thesis
    proof (cases "255 < n")
      case True
      then show ?thesis
        using keeps_refl [OF inv(3,4)] by (simp add: wr_enc_def encoded_def)
    next
      case False
      then have n255: "unat n < 256" by (simp add: word_less_nat_alt)
      have ld: "mem_load 1 m (buf_p raw) (unat (buf_rpos raw)) (unat n) = Inr ?bs"
        using buf_nocopy_bytes [OF inv(1) n(2)] .
      have un: "unat n = length ?bs" using n by simp
      have rp: "snd (tt_buf_inc_rp n raw) = raw\<lparr>buf_rpos := buf_rpos raw + n\<rparr>"
        using n by (simp add: buf_inc_rp_eq [OF inv(1)])
      let ?out = "TT_DO (tt_buf_put_u8 (ucast n) enc m) (\<lambda>(enc, m). tt_buf_put (Some ?bs) n enc m)"
      have a: "appends enc m (ucast n # ?bs) ?out"
        using inv(3,4) un by (intro appends_u8_first) (simp_all only: prod.case buf_put_all not_False_eq_True)
      have fr: "ut_framing ?bs (ucast n # ?bs)"
        using n n255 un by (simp add: ut_framing_def word_unat_eq_iff unsigned_ucast_eq unsigned_of_nat)
      show ?thesis
      proof (cases ?out)
        case (Inl f)
        then show ?thesis using a ld False by (simp add: wr_enc_def encoded_def appends_def)
      next
        case (Inr x)
        obtain r enc' m' where x: "x = (r, enc', m')" by (cases x)
        note ap = appends_prefix [OF a [unfolded Inr x]]
        show ?thesis
        proof (cases "TT_OK r")
          case True
          have "wr_enc raw n enc m e = Inr (TT_SUCCESS, raw\<lparr>buf_rpos := buf_rpos raw + n\<rparr>, enc', m', e)"
            using ld False Inr x True rp by (simp add: wr_enc_def)
          then show ?thesis
            using ap(1-3) ap(4) [OF True] fr by (auto simp: encoded_def)
        next
          case nok: False
          have "wr_enc raw n enc m e = Inr (r, raw, enc', m', e)"
            using ld False Inr x nok by (simp add: wr_enc_def)
          then show ?thesis
            using ap(1-3) nok by (simp add: encoded_def)
        qed
      qed
    qed
  qed
  show ?thesis
    unfolding encodes_def wr_e_itf_def using pre enc by simp
qed

section \<open>Properties\<close>

text \<open>Two structs over a store that holds only their arrays.\<close>

definition rw_mem :: bmem where
  "rw_mem = demo_mem\<lparr>mem_blocks := [0 \<mapsto> replicate 16 0, 1 \<mapsto> replicate 16 0], mem_next := 2\<rparr>"

definition rw_raw2 :: tt_buf where "rw_raw2 = demo_raw\<lparr>buf_initbuf := 1\<rparr>"

definition demo_rbuf :: "(u64, ut_env) tt_rbuf" where
  "demo_rbuf = \<lparr>rb_d_itf = None, rb_p_itf = None, rb_raw = demo_raw, rb_dec = rw_raw2, rb_refine_threshold = 0\<rparr>"

definition demo_wbuf :: "(u8, u32 list) tt_wbuf" where
  "demo_wbuf = \<lparr>wb_e_itf = None, wb_r_itf = None, wb_raw = demo_raw, wb_enc = rw_raw2, wb_refine_threshold = 0\<rparr>"

lemma rw_demo_raw: "pair_raw demo_raw rw_raw2 rw_mem" "rbuf_attr_ok None" "wbuf_attr_ok None"
  by (auto simp: pair_raw_def buf_raw_def rw_mem_def rw_raw2_def demo_raw_def demo_mem_def mem_inv_def
      rbuf_attr_ok_def wbuf_attr_ok_def split: if_splits)

text \<open>
  C10: A read buffer with any decoder and any parser goes through the stream of the bytes it is fed,
  in whatever pieces they come: as long as every call answers \<^verbatim>\<open>TT_SUCCESS\<close> or
  \<^verbatim>\<open>TT_E_BUF_NOBUFS\<close>, what decoder and parser have seen is what they see of all bytes at once, and
  the two buffers hold the unfinished frames. In every case the calls return or stop in an assertion,
  and the destruction frees exactly what was allocated and touches no other block.
\<close>

theorem rbuf_reads_stream:
  assumes raw: "pair_raw (rb_raw rb0) (rb_dec rb0) m0" "rbuf_attr_ok attr"
    and p: "decodes d_itf P" "parses p_itf Q" and len: "\<forall>bs \<in> set bss. length bs < 2 ^ 32"
  shows "\<exists>rb m. tt_rbuf_init rb0 (Some d_itf) (Some p_itf) attr m0 = Inr (rb, m)
    \<and> (case rbuf_feeds bss rb m (s, t) of Inl f \<Rightarrow> f = Throw
       | Inr (rs, rb', m', s', t') \<Rightarrow>
         (set rs \<subseteq> {TT_SUCCESS, TT_E_BUF_NOBUFS} \<longrightarrow>
           (\<exists>vs ws. stream P (concat bss) s = (True, vs, buf_data (rb_raw rb') m', s')
              \<and> stream Q (concat vs) t = (True, ws, buf_data (rb_dec rb') m', t')))
         \<and> (\<exists>rb'' m''. tt_rbuf_destroy rb' m' = Inr (rb'', m'') \<and> mem_heap m'' = mem_heap m0
              \<and> mem_frame {buf_initbuf (rb_raw rb0), buf_initbuf (rb_dec rb0)} m0 m''))"
proof -
  obtain rb m where i: "tt_rbuf_init rb0 (Some d_itf) (Some p_itf) attr m0 = Inr (rb, m)" "rb_d_itf rb = Some d_itf"
    "rb_p_itf rb = Some p_itf" "pair_inv (rb_raw rb) (rb_dec rb) m" "buf_data (rb_raw rb) m = []" "buf_data (rb_dec rb) m = []"
    "owns_step {buf_initbuf (rb_raw rb0), buf_initbuf (rb_dec rb0)} m0 (buf_foot (rb_raw rb) \<union> buf_foot (rb_dec rb)) m"
    using raw by (rule rbuf_init_ok)
  note F = feeds_decoded [OF p i(2-4) len, where s = s and t = t]
  show ?thesis
  proof (cases "rbuf_feeds bss rb m (s, t)")
    case (Inl f)
    then show ?thesis using i(1) F by simp
  next
    case (Inr x)
    obtain rs rb' m' s' t' where x: "x = (rs, rb', m', s', t')" by (cases x)
    have k: "pair_keeps (rb_raw rb) (rb_dec rb) m (rb_raw rb') (rb_dec rb') m'"
      using F unfolding Inr x by (simp add: rbuf_keeps_def)
    obtain a' m1 b' m2 where d: "tt_buf_destroy (rb_raw rb') m' = Inr (a', m1)" "tt_buf_destroy (rb_dec rb') m1 = Inr (b', m2)"
      "mem_heap m2 = mem_heap m' - (buf_foot (rb_raw rb') \<union> buf_foot (rb_dec rb'))"
      "mem_frame (buf_foot (rb_raw rb') \<union> buf_foot (rb_dec rb')) m' m2"
      using pair_keeps_inv [OF k] by (rule pair_destroy)
    note life = pair_life [OF raw(1) i(7) k d(3,4)]
    show ?thesis
      using i(1,5,6) F life d(1,2) by (simp add: Inr x tt_rbuf_destroy_def)
  qed
qed

declare memspg_grow.simps [code] rbuf_decode_loop.simps [code] rbuf_parse_loop.simps [code] wbuf_encode_loop.simps [code]

lemma demo_rbuf_run:
  "bindr (tt_rbuf_init demo_rbuf (Some ut_d_itf) (Some ut_p_itf) None rw_mem) (\<lambda>(rb, m).
   bindr (rbuf_feeds [[2, 1], [0xaa, 0, 2, 1, 0xbb]] rb m ((), TT_SUCCESS, 0)) (\<lambda>(rs, rb, m, e). Inr rs))
   = Inr [TT_E_BUF_NOBUFS, TT_SUCCESS]"
  by code_simp

theorem rbuf_reads_stream_witness:
  "\<exists>rb m rb' m'. tt_rbuf_init demo_rbuf (Some ut_d_itf) (Some ut_p_itf) None rw_mem = Inr (rb, m)
    \<and> rbuf_feeds [[2, 1], [0xaa, 0, 2, 1, 0xbb]] rb m ((), TT_SUCCESS, 0)
        = Inr ([TT_E_BUF_NOBUFS, TT_SUCCESS], rb', m', (), TT_SUCCESS, 2)
    \<and> (\<exists>rb'' m''. tt_rbuf_destroy rb' m' = Inr (rb'', m'') \<and> mem_heap m'' = {})"
proof -
  have raw: "pair_raw (rb_raw demo_rbuf) (rb_dec demo_rbuf) rw_mem"
    using rw_demo_raw(1) by (simp add: demo_rbuf_def)
  have len: "\<forall>bs \<in> set [[2, 1], [0xaa, 0, 2, 1, 0xbb]]. length (bs :: u8 list) < 2 ^ 32" by simp
  note T = rbuf_reads_stream [OF raw rw_demo_raw(2) ut_decodes ut_parses len, where s = "()" and t = "(TT_SUCCESS, 0)"]
  obtain rb m where i: "tt_rbuf_init demo_rbuf (Some ut_d_itf) (Some ut_p_itf) None rw_mem = Inr (rb, m)"
    using T by blast
  obtain rb' m' e' where f: "rbuf_feeds [[2, 1], [0xaa, 0, 2, 1, 0xbb]] rb m ((), TT_SUCCESS, 0)
      = Inr ([TT_E_BUF_NOBUFS, TT_SUCCESS], rb', m', e')"
    using demo_rbuf_run i by (auto simp: bindr_eq_Inr_iff)
  obtain s' t' where e': "e' = (s', t')" by (cases e')
  have "t' = (TT_SUCCESS, 2)" "\<exists>rb'' m''. tt_rbuf_destroy rb' m' = Inr (rb'', m'') \<and> mem_heap m'' = {}"
    using T i f e' by (auto simp: stream.simps ut_frames_def ut_messages_def framed_def ut_message_def ut_seen_def
        Let_def rw_mem_def demo_mem_def)
  then show ?thesis
    using i f e' by auto
qed

text \<open>
  What a read buffer without a decoder answers, call by call. A call that has no room for its bytes (\<open>False\<close>) fails, and
  they are lost; every other one answers as the protocol does on the bytes that waited and those that came. Refused
  frames are dropped, and what is behind them is read with the next call.
\<close>

primrec plain_answers :: "('o, 't) protocol \<Rightarrow> (bool \<times> u8 list) list \<Rightarrow> u8 list \<Rightarrow> 't \<Rightarrow> tt_result list \<times> u8 list \<times> 't" where
  "plain_answers Q [] R t = ([], R, t)"
| "plain_answers Q (c # cs) R t =
    (case (if fst c then stream_feed Q (R @ snd c) t else (TT_FAIL, R, t)) of (r, R, t) \<Rightarrow>
     case plain_answers Q cs R t of (rs, R, t) \<Rightarrow> (r # rs, R, t))"

text \<open>Which calls have room in the raw buffer, as the code finds it.\<close>

primrec rooms :: "u8 list list \<Rightarrow> ('r, 'e) tt_rbuf \<Rightarrow> bmem \<Rightarrow> 'e \<Rightarrow> bool list" where
  "rooms [] rb m e = []"
| "rooms (bs # bss) rb m e = buf_room (of_nat (length bs)) (rb_raw rb) m #
    (case rbuf_feed bs rb m e of Inl f \<Rightarrow> [] | Inr (r, rb, m, e) \<Rightarrow> rooms bss rb m e)"

lemma feeds_plain:
  assumes p: "parses pitf Q"
  shows "rb_d_itf rb = None \<Longrightarrow> rb_p_itf rb = Some pitf \<Longrightarrow> pair_inv (rb_raw rb) (rb_dec rb) m \<Longrightarrow>
    \<forall>bs \<in> set bss. length bs < 2 ^ 32 \<Longrightarrow>
    case rbuf_feeds bss rb m (s, t) of Inl f \<Rightarrow> f = Throw \<and> False \<in> set (rooms bss rb m (s, t))
    | Inr (rs, rb', m', s', t') \<Rightarrow> rbuf_keeps rb m rb' m' \<and> s' = s \<and> length (rooms bss rb m (s, t)) = length bss
        \<and> (rs, buf_data (rb_raw rb') m', t') = plain_answers Q (zip (rooms bss rb m (s, t)) bss) (buf_data (rb_raw rb) m) t"
proof (induction bss arbitrary: rb m t)
  case Nil
  then show ?case by (simp add: rbuf_keeps_def pair_keeps_refl)
next
  case (Cons bs bss)
  have len: "length bs < 2 ^ 32" using Cons.prems(4) by simp
  note F = feed_plain [OF p Cons.prems(1-3) len, where s = s and t = t]
  show ?case
  proof (cases "rbuf_feed bs rb m (s, t)")
    case (Inl f)
    then show ?thesis using F by simp
  next
    case (Inr x)
    obtain r rb1 m1 s1 t1 where x: "x = (r, rb1, m1, s1, t1)" by (cases x)
    note F1 = F [unfolded Inr x, simplified]
    have k1: "rbuf_keeps rb m rb1 m1" and s1: "s1 = s" using F1 by auto
    have a1: "(if buf_room (of_nat (length bs)) (rb_raw rb) m then stream_feed Q (buf_data (rb_raw rb) m @ bs) t
        else (TT_FAIL, buf_data (rb_raw rb) m, t)) = (r, buf_data (rb_raw rb1) m1, t1)"
      using F [unfolded Inr x] by simp
    have d1: "rb_d_itf rb1 = None" "rb_p_itf rb1 = Some pitf" "pair_inv (rb_raw rb1) (rb_dec rb1) m1"
      using k1 Cons.prems rbuf_keeps_inv [OF k1] by (auto simp: rbuf_keeps_def)
    have l1: "\<forall>bs \<in> set bss. length bs < 2 ^ 32" using Cons.prems(4) by simp
    note G = Cons.IH [OF d1 l1, where t = t1]
    show ?thesis
    proof (cases "rbuf_feeds bss rb1 m1 (s1, t1)")
      case (Inl f)
      then show ?thesis using G Inr x s1 by simp
    next
      case two: (Inr y)
      obtain rs rb2 m2 s2 t2 where y: "y = (rs, rb2, m2, s2, t2)" by (cases y)
      have G1: "rbuf_keeps rb1 m1 rb2 m2" "s2 = s" "length (rooms bss rb1 m1 (s, t1)) = length bss"
        "plain_answers Q (zip (rooms bss rb1 m1 (s, t1)) bss) (buf_data (rb_raw rb1) m1) t1 = (rs, buf_data (rb_raw rb2) m2, t2)"
        using G [unfolded two [unfolded s1] y] by simp_all
      have "rbuf_keeps rb m rb2 m2" using k1 G1(1) by (rule rbuf_keeps_trans)
      then show ?thesis
        using Inr x two y G1 s1 a1 by (cases "buf_room (of_nat (length bs)) (rb_raw rb) m") auto
    qed
  qed
qed

text \<open>
  C11: Without a decoder every call of a sequence answers exactly as the protocol does, errors
  included, if the raw buffer has room for its bytes: a bad stream and a refused frame answer
  \<^verbatim>\<open>TT_FAIL\<close>, an unfinished frame \<^verbatim>\<open>TT_E_BUF_NOBUFS\<close>, and after a refused frame the reading goes on
  behind it. The answers, the bytes left and the parser's state are those of \<open>plain_answers\<close>, which fails and loses the
  bytes at those calls only that had no room: neither the storage nor the growth of its spring nor the allocator had
  it. No call has undefined behaviour or runs forever; a sequence stops in an assertion only at a call without room.
  After the sequence one more call asserts only when the size of the storage would wrap, and loses its bytes only
  without room.
\<close>

theorem rbuf_answers:
  assumes raw: "pair_raw (rb_raw rb0) (rb_dec rb0) m0" "rbuf_attr_ok attr"
    and p: "parses p_itf Q" and len: "\<forall>bs \<in> set (bs1 # bss). length bs < 2 ^ 32"
  shows "\<exists>rb m. tt_rbuf_init rb0 None (Some p_itf) attr m0 = Inr (rb, m)
    \<and> (case rbuf_feeds bss rb m (s, t) of Inl f \<Rightarrow> f = Throw \<and> False \<in> set (rooms bss rb m (s, t))
       | Inr (rs, rb', m', s', t') \<Rightarrow> s' = s \<and> length (rooms bss rb m (s, t)) = length bss
           \<and> (rs, buf_data (rb_raw rb') m', t') = plain_answers Q (zip (rooms bss rb m (s, t)) bss) [] t
           \<and> (case rbuf_feed bs1 rb' m' (s', t') of
                Inl f \<Rightarrow> f = Throw \<and> \<not> buf_room (of_nat (length bs1)) (rb_raw rb') m'
                  \<and> 2 ^ 32 \<le> unat (buf_size (rb_raw rb')) + length bs1
              | Inr (r, rb'', m'', s'', t'') \<Rightarrow> s'' = s \<and> (r, buf_data (rb_raw rb'') m'', t'')
                  = (if buf_room (of_nat (length bs1)) (rb_raw rb') m'
                     then stream_feed Q (buf_data (rb_raw rb') m' @ bs1) t' else (TT_FAIL, buf_data (rb_raw rb') m', t'))))"
proof -
  obtain rb m where i: "tt_rbuf_init rb0 None (Some p_itf) attr m0 = Inr (rb, m)" "rb_d_itf rb = None"
    "rb_p_itf rb = Some p_itf" "pair_inv (rb_raw rb) (rb_dec rb) m" "buf_data (rb_raw rb) m = []" "buf_data (rb_dec rb) m = []"
    using raw by (rule rbuf_init_ok)
  have l: "\<forall>bs \<in> set bss. length bs < 2 ^ 32" "length bs1 < 2 ^ 32" using len by simp_all
  note F = feeds_plain [OF p i(2-4) l(1), where s = s and t = t]
  show ?thesis
  proof (cases "rbuf_feeds bss rb m (s, t)")
    case (Inl f)
    with F i(1) show ?thesis by auto
  next
    case (Inr x)
    obtain rs rb1 m1 s1 t1 where x: "x = (rs, rb1, m1, s1, t1)" by (cases x)
    note G = F [unfolded Inr x, simplified]
    have k: "rbuf_keeps rb m rb1 m1" and s1: "s1 = s" using G by simp_all
    have d1: "rb_d_itf rb1 = None" "rb_p_itf rb1 = Some p_itf" "pair_inv (rb_raw rb1) (rb_dec rb1) m1"
      using k i rbuf_keeps_inv [OF k] by (auto simp: rbuf_keeps_def)
    note H = feed_plain [OF p d1 l(2), where s = s and t = t1]
    show ?thesis
      using i(1,5) Inr x s1 G H by (intro exI [of _ rb] exI [of _ m]) (auto split: sum.splits)
  qed
qed

abbreviation demo_pieces :: "u8 list list" where
  "demo_pieces \<equiv> [[1, 0xaa, 2, 0xbb, 1, 0xab], [7, 0xbb], []]"

lemma demo_rbuf_errors:
  "bindr (tt_rbuf_init demo_rbuf None (Some ut_p_itf) None rw_mem) (\<lambda>(rb, m).
   bindr (rbuf_feeds demo_pieces rb m ((), TT_SUCCESS, 2)) (\<lambda>(rs, rb', m', e).
   Inr (rs, rooms demo_pieces rb m ((), TT_SUCCESS, 2))))
   = Inr ([TT_SUCCESS, TT_FAIL, TT_E_BUF_NOBUFS], [True, True, True])"
  by code_simp

theorem rbuf_answers_witness:
  "\<exists>rb m rb' m' e'. tt_rbuf_init demo_rbuf None (Some ut_p_itf) None rw_mem = Inr (rb, m)
    \<and> rbuf_feeds demo_pieces rb m ((), TT_SUCCESS, 2) = Inr ([TT_SUCCESS, TT_FAIL, TT_E_BUF_NOBUFS], rb', m', e')
    \<and> ([TT_SUCCESS, TT_FAIL, TT_E_BUF_NOBUFS], buf_data (rb_raw rb') m', snd e')
        = plain_answers ut_messages (map (Pair True) demo_pieces) [] (TT_SUCCESS, 2)"
proof -
  have raw: "pair_raw (rb_raw demo_rbuf) (rb_dec demo_rbuf) rw_mem"
    using rw_demo_raw(1) by (simp add: demo_rbuf_def)
  have len: "\<forall>bs \<in> set ([] # demo_pieces). length (bs :: u8 list) < 2 ^ 32" by simp
  note T = rbuf_answers [OF raw rw_demo_raw(2) ut_parses len, where s = "()" and t = "(TT_SUCCESS, 2)"]
  obtain rb m where i: "tt_rbuf_init demo_rbuf None (Some ut_p_itf) None rw_mem = Inr (rb, m)"
    using T by blast
  obtain rb' m' e' where "rbuf_feeds demo_pieces rb m ((), TT_SUCCESS, 2) = Inr ([TT_SUCCESS, TT_FAIL, TT_E_BUF_NOBUFS], rb', m', e')"
    "rooms demo_pieces rb m ((), TT_SUCCESS, 2) = [True, True, True]"
    using demo_rbuf_errors i by (auto simp: bindr_eq_Inr_iff)
  then show ?thesis
    using T i by (cases e') auto
qed

text \<open>
  The two sides agree: the decoder undoes what the encoder may put together, and the parser takes
  every rendered message, with the effect \<open>deliver\<close>.
\<close>

definition undoes :: "(u8 list, 's) protocol \<Rightarrow> (u8 list \<Rightarrow> u8 list \<Rightarrow> bool) \<Rightarrow> bool" where
  "undoes P C \<longleftrightarrow> (\<forall>x y z s. C x y \<longrightarrow> cut P (y @ z) = Cut (length y) \<and> fst (body P y s) = Take x)"

definition understands :: "('o, 't) protocol \<Rightarrow> ('m \<Rightarrow> u8 list \<Rightarrow> bool) \<Rightarrow> ('m \<Rightarrow> 't \<Rightarrow> 't) \<Rightarrow> bool" where
  "understands Q R deliver \<longleftrightarrow> (\<forall>x y z t. R x y \<longrightarrow> cut Q (y @ z) = Cut (length y)
     \<and> fst (body Q y t) \<noteq> Refuse \<and> snd (body Q y t) = deliver x t)"

lemma stream_undone:
  assumes ok: "protocol_ok P" and u: "undoes P C"
  shows "list_all2 C xs ys \<Longrightarrow> \<exists>s'. stream P (concat ys) s = (True, xs, [], s')"
proof (induction xs ys arbitrary: s rule: list_all2_induct)
  case (Cons x xs y ys)
  have c: "cut P (y @ concat ys) = Cut (length y)" and b: "fst (body P y s) = Take x"
    using u Cons(1) by (auto simp: undoes_def)
  obtain s1 where s1: "body P y s = (Take x, s1)" using b by (cases "body P y s") auto
  show ?case
    using stream_Cut [OF ok c, of s] s1 Cons.IH [of s1] by auto
qed simp

lemma stream_understood:
  assumes ok: "protocol_ok Q" and u: "understands Q R deliver"
  shows "list_all2 R xs ys \<Longrightarrow> \<exists>vs. stream Q (concat ys) t = (True, vs, [], fold deliver xs t)"
proof (induction xs ys arbitrary: t rule: list_all2_induct)
  case (Cons x xs y ys)
  have c: "cut Q (y @ concat ys) = Cut (length y)" and b: "fst (body Q y t) \<noteq> Refuse" "snd (body Q y t) = deliver x t"
    using u Cons(1) by (auto simp: understands_def)
  obtain w where w: "body Q y t = (w, deliver x t)" using b by (cases "body Q y t") auto
  then have "w \<noteq> Refuse" using b by simp
  then show ?case
    using stream_Cut [OF ok c, of t] w Cons.IH [of "deliver x t"] by (cases w) auto
qed simp

text \<open>
  C12: Messages that were rendered into a write buffer, taken out of it in any pieces while its
  encoder cut as it liked, and fed to a read buffer in any other pieces, arrive at the parser in
  their order, none lost, none twice: the parser is in the state after the first \<open>k\<close> of them, and
  after all of them when the write buffer is empty, as long as no call of the reader fails.
\<close>

theorem rw_round_trip:
  assumes w: "pair_raw (wb_raw wb0) (wb_enc wb0) m0" "wbuf_attr_ok wattr"
      "tt_wbuf_init wb0 (Some e_itf) (Some r_itf) wattr m0 = Inr (wb, m)"
      "wbuf_run wb m e msgs out wb' m' e'"
    and r: "pair_raw (rb_raw rb0) (rb_dec rb0) n0" "rbuf_attr_ok rattr"
      "tt_rbuf_init rb0 (Some d_itf) (Some p_itf) rattr n0 = Inr (rb, n)"
      "concat bss = out" "\<forall>bs \<in> set bss. length bs < 2 ^ 32"
      "rbuf_feeds bss rb n (s, t) = Inr (rs, rb', n', s', t')" "set rs \<subseteq> {TT_SUCCESS, TT_E_BUF_NOBUFS}"
    and p: "encodes e_itf C" "renders r_itf R" "decodes d_itf P" "parses p_itf Q" "undoes P C" "understands Q R deliver"
  shows "\<exists>k \<le> length msgs. t' = fold deliver (take k msgs) t
    \<and> (buf_data (wb_raw wb') m' = [] \<and> buf_data (wb_enc wb') m' = [] \<longrightarrow> k = length msgs)"
proof -
  have ok: "protocol_ok P" "protocol_ok Q" using p by (auto simp: decodes_def parses_def)
  obtain wb1 m1 where wi: "tt_wbuf_init wb0 (Some e_itf) (Some r_itf) wattr m0 = Inr (wb1, m1)" "wb_e_itf wb1 = Some e_itf"
    "wb_r_itf wb1 = Some r_itf" "pair_inv (wb_raw wb1) (wb_enc wb1) m1" "buf_data (wb_raw wb1) m1 = []" "buf_data (wb_enc wb1) m1 = []"
    using w(1,2) by (rule wbuf_init_ok)
  have eq: "wb1 = wb" "m1 = m" using wi(1) w(3) by auto
  obtain ys xs cs where W: "list_all2 R msgs ys" "list_all2 C xs cs"
    "concat ys = concat xs @ buf_data (wb_raw wb') m'" "concat cs = out @ buf_data (wb_enc wb') m'"
    using wbuf_run_ok [OF p(2,1) wi(3,2,4,5,6) w(4) [folded eq]] by blast
  obtain rb1 n1 where ri: "tt_rbuf_init rb0 (Some d_itf) (Some p_itf) rattr n0 = Inr (rb1, n1)" "rb_d_itf rb1 = Some d_itf"
    "rb_p_itf rb1 = Some p_itf" "pair_inv (rb_raw rb1) (rb_dec rb1) n1" "buf_data (rb_raw rb1) n1 = []" "buf_data (rb_dec rb1) n1 = []"
    using r(1,2) by (rule rbuf_init_ok)
  have eqr: "rb1 = rb" "n1 = n" using ri(1) r(3) by auto
  obtain vs ws where S: "stream P out s = (True, vs, buf_data (rb_raw rb') n', s')"
    "stream Q (concat vs) t = (True, ws, buf_data (rb_dec rb') n', t')"
    using feeds_decoded [OF p(3,4) ri(2-4) r(5), where s = s and t = t] r(4,6,7) ri(5,6) unfolding eqr by auto
  have fr: "cut P (y @ z) = Cut (length y)" "fst (body P y q) \<noteq> Refuse" if "y \<in> set cs" for y z q
    using p(5) W(2) that by (auto simp: undoes_def list_all2_conv_all_nth in_set_conv_nth)
  obtain i vs1 p1 s1 where F: "i \<le> length cs" "out = concat (take i cs) @ p1" "stream P out s = (True, vs1, p1, s1)"
    "stream P (concat (take i cs)) s = (True, vs1, [], s1)" "buf_data (wb_enc wb') m' = [] \<longrightarrow> i = length cs"
    using stream_frames [OF ok(1) fr W(4) [symmetric], of s] by blast
  obtain s2 where "stream P (concat (take i cs)) s = (True, take i xs, [], s2)"
    using stream_undone [OF ok(1) p(5) list_all2_takeI [OF W(2)]] by blast
  then have vs: "vs = take i xs" using S(1) F(3,4) by simp
  have frq: "cut Q (y @ z) = Cut (length y)" "fst (body Q y q) \<noteq> Refuse" if "y \<in> set ys" for y z q
    using p(6) W(1) that by (auto simp: understands_def list_all2_conv_all_nth in_set_conv_nth)
  have split: "concat vs @ (concat (drop i xs) @ buf_data (wb_raw wb') m') = concat ys"
    using W(3) vs by (metis append_assoc append_take_drop_id concat_append)
  obtain k ws1 p2 t1 where K: "k \<le> length ys" "stream Q (concat vs) t = (True, ws1, p2, t1)"
    "stream Q (concat (take k ys)) t = (True, ws1, [], t1)"
    "concat (drop i xs) @ buf_data (wb_raw wb') m' = [] \<longrightarrow> k = length ys"
    using stream_frames [OF ok(2) frq split, of t] by blast
  obtain ws2 where "stream Q (concat (take k ys)) t = (True, ws2, [], fold deliver (take k msgs) t)"
    using stream_understood [OF ok(2) p(6) list_all2_takeI [OF W(1)]] by blast
  then have "t' = fold deliver (take k msgs) t" using S(2) K(2,3) by simp
  moreover have "k = length msgs" if "buf_data (wb_raw wb') m' = []" "buf_data (wb_enc wb') m' = []"
    using that F(5) K(4) list_all2_lengthD [OF W(1)] list_all2_lengthD [OF W(2)] by simp
  moreover have "k \<le> length msgs" using K(1) list_all2_lengthD [OF W(1)] by simp
  ultimately show ?thesis by blast
qed

lemma ut_undoes: "undoes ut_frames ut_framing"
  by (auto simp: undoes_def ut_framing_def ut_frames_def framed_def unsigned_of_nat take_bit_nat_eq_self)

definition ut_deliver :: "u8 \<Rightarrow> tt_result \<times> u64 \<Rightarrow> tt_result \<times> u64" where
  "ut_deliver v t = (if v mod 5 \<noteq> 0 then ut_seen v t else t)"

lemma ut_understands: "understands ut_messages ut_rendering ut_deliver"
proof -
  have "cut ut_messages (y @ z) = Cut (length y) \<and> fst (body ut_messages y t) \<noteq> Refuse
      \<and> snd (body ut_messages y t) = ut_deliver v t" if y: "ut_rendering v y" for v y z t
  proof -
    have y': "y = v # 0xaa # replicate (unat v) v @ [0xbb]" using y by (simp add: ut_rendering_def)
    have v: "(if y ! 0 = 0 then 0 else y ! 2) = v"
    proof (cases "v = 0")
      case False
      then have "0 < unat v" by (simp add: unsigned_eq_0_iff flip: neq0_conv)
      then show ?thesis using False by (simp add: y' nth_append)
    qed (simp add: y')
    have b: "take (unat (y ! 0)) (drop 2 y) = replicate (unat v) v" by (simp add: y')
    have "ut_message y t = (if v mod 5 \<noteq> 0 then (Take v, ut_seen v t) else (Skip, t))"
      using ut_message_def [of y t, unfolded v b Let_def] by (simp add: y')
    then show ?thesis
      by (simp add: ut_messages_def framed_def y' ut_deliver_def)
  qed
  then show ?thesis by (simp add: understands_def)
qed

text \<open>Three messages, the second of which the parser skips, in frames of 4, 9 and 4 bytes.\<close>

definition demo_sent :: "u8 list" where
  "demo_sent = [4, 1, 0xaa, 1, 0xbb, 9, 5, 0xaa, 5, 5, 5, 5, 5, 0xbb, 2, 4, 0xaa, 2, 2, 0xbb]"

lemma demo_wbuf_run:
  "bindr (tt_wbuf_init demo_wbuf (Some wr_e_itf) (Some wr_r_itf) None rw_mem) (\<lambda>(wb, m).
   bindr (tt_wbuf_render 1 wb m [3, 11, 8, 3]) (\<lambda>(r1, a1, wb, m, e).
   bindr (wbuf_take 2 wb m) (\<lambda>(o1, wb, m).
   bindr (tt_wbuf_render 5 wb m e) (\<lambda>(r2, a2, wb, m, e).
   bindr (tt_wbuf_render 2 wb m e) (\<lambda>(r3, a3, wb, m, e).
   bindr (wbuf_take 100 wb m) (\<lambda>(o2, wb, m).
     Inr (a1 = None, a2 = None, a3 = None, o1 @ o2 = demo_sent, tt_buf_empty (wb_raw wb), tt_buf_empty (wb_enc wb))))))))
   = Inr (False, False, False, True, True, True)"
  by code_simp

lemma demo_sent_run:
  obtains wb m wb' m' e' where "tt_wbuf_init demo_wbuf (Some wr_e_itf) (Some wr_r_itf) None rw_mem = Inr (wb, m)"
    "wbuf_run wb m [3, 11, 8, 3] [1, 5, 2] demo_sent wb' m' e'" "tt_buf_empty (wb_raw wb')" "tt_buf_empty (wb_enc wb')"
proof -
  obtain wb m r1 a1 wb1 m1 e1 o1 wb2 m2 r2 a2 wb3 m3 e3 r3 a3 wb4 m4 e4 o2 wb5 m5 where
    s: "tt_wbuf_init demo_wbuf (Some wr_e_itf) (Some wr_r_itf) None rw_mem = Inr (wb, m)"
    "tt_wbuf_render 1 wb m [3, 11, 8, 3] = Inr (r1, a1, wb1, m1, e1)" "wbuf_take 2 wb1 m1 = Inr (o1, wb2, m2)"
    "tt_wbuf_render 5 wb2 m2 e1 = Inr (r2, a2, wb3, m3, e3)" "tt_wbuf_render 2 wb3 m3 e3 = Inr (r3, a3, wb4, m4, e4)"
    "wbuf_take 100 wb4 m4 = Inr (o2, wb5, m5)" "a1 \<noteq> None" "a2 \<noteq> None" "a3 \<noteq> None" "o1 @ o2 = demo_sent"
    "tt_buf_empty (wb_raw wb5)" "tt_buf_empty (wb_enc wb5)"
    using demo_wbuf_run unfolding bindr_eq_Inr_iff by (clarsimp simp: bindr_eq_Inr_iff)
  have 1: "wbuf_run wb m [3, 11, 8, 3] [1] [] wb1 m1 e1"
    using wbuf_run.render [OF wbuf_run.start s(2)] s(7) by simp
  have 2: "wbuf_run wb m [3, 11, 8, 3] [1] o1 wb2 m2 e1"
    using wbuf_run.take [OF 1 s(3)] by simp
  have 3: "wbuf_run wb m [3, 11, 8, 3] [1, 5] o1 wb3 m3 e3"
    using wbuf_run.render [OF 2 s(4)] s(8) by simp
  have 4: "wbuf_run wb m [3, 11, 8, 3] [1, 5, 2] o1 wb4 m4 e4"
    using wbuf_run.render [OF 3 s(5)] s(9) by simp
  have "wbuf_run wb m [3, 11, 8, 3] [1, 5, 2] demo_sent wb5 m5 e4"
    using wbuf_run.take [OF 4 s(6)] s(10) by simp
  then show thesis
    using that s(1,11,12) by blast
qed

lemma demo_received:
  "bindr (tt_rbuf_init demo_rbuf (Some ut_d_itf) (Some ut_p_itf) None rw_mem) (\<lambda>(rb, m).
   bindr (rbuf_feeds [take 7 demo_sent, drop 7 demo_sent] rb m ((), TT_SUCCESS, 1)) (\<lambda>(rs, rb, m, e). Inr rs))
   = Inr [TT_SUCCESS, TT_SUCCESS]"
  by code_simp

theorem rw_round_trip_witness:
  "\<exists>wb m wb' m' e' rb n rb' n' s'. tt_wbuf_init demo_wbuf (Some wr_e_itf) (Some wr_r_itf) None rw_mem = Inr (wb, m)
    \<and> wbuf_run wb m [3, 11, 8, 3] [1, 5, 2] demo_sent wb' m' e'
    \<and> tt_rbuf_init demo_rbuf (Some ut_d_itf) (Some ut_p_itf) None rw_mem = Inr (rb, n)
    \<and> rbuf_feeds [take 7 demo_sent, drop 7 demo_sent] rb n ((), TT_SUCCESS, 1)
        = Inr ([TT_SUCCESS, TT_SUCCESS], rb', n', s', TT_SUCCESS, 3)"
proof -
  have raw: "pair_raw (rb_raw demo_rbuf) (rb_dec demo_rbuf) rw_mem" "pair_raw (wb_raw demo_wbuf) (wb_enc demo_wbuf) rw_mem"
    using rw_demo_raw(1) by (simp_all add: demo_rbuf_def demo_wbuf_def)
  obtain wb m wb' m' e' where w: "tt_wbuf_init demo_wbuf (Some wr_e_itf) (Some wr_r_itf) None rw_mem = Inr (wb, m)"
    "wbuf_run wb m [3, 11, 8, 3] [1, 5, 2] demo_sent wb' m' e'" "tt_buf_empty (wb_raw wb')" "tt_buf_empty (wb_enc wb')"
    by (rule demo_sent_run)
  obtain rb n rb' n' s' t' where r: "tt_rbuf_init demo_rbuf (Some ut_d_itf) (Some ut_p_itf) None rw_mem = Inr (rb, n)"
    "rbuf_feeds [take 7 demo_sent, drop 7 demo_sent] rb n ((), TT_SUCCESS, 1) = Inr ([TT_SUCCESS, TT_SUCCESS], rb', n', s', t')"
    using demo_received by (clarsimp simp: bindr_eq_Inr_iff)
  have c: "concat [take 7 demo_sent, drop 7 demo_sent] = demo_sent"
    "\<forall>bs \<in> set [take 7 demo_sent, drop 7 demo_sent]. length bs < 2 ^ 32"
    "set [TT_SUCCESS, TT_SUCCESS] \<subseteq> {TT_SUCCESS, TT_E_BUF_NOBUFS}"
    by (simp_all add: demo_sent_def)
  note T = rw_round_trip [OF raw(2) rw_demo_raw(3) w(1,2) raw(1) rw_demo_raw(2) r(1) c(1,2) r(2) c(3)
      wr_encodes wr_renders ut_decodes ut_parses ut_undoes ut_understands]
  have e: "buf_data (wb_raw wb') m' = []" "buf_data (wb_enc wb') m' = []"
    using w(3,4) by (simp_all add: tt_buf_empty_def buf_data_def)
  have "t' = fold ut_deliver [1, 5, 2] (TT_SUCCESS, 1)"
    using T e by auto
  also have "\<dots> = (TT_SUCCESS, 3)" by code_simp
  finally show ?thesis
    using w(1,2) r by blast
qed

end
