(* ===== verification/Spec2Isabelle.thy ===== *)
theory Spec2Isabelle
  imports TT_Buffer_Props TT_Queue_Props TT_Vector_Props TT_PtrHeap_Props TT_BinarySearch TT_HashMap_Props TT_Util_Props TT_Base64_Props TT_Date_Week TT_RBTree_Props TT_List_Props TT_Timer_Props TT_String_Props TT_RWBuffer_Props
begin

text \<open>
  TitanSDK is a C library: a portable platform layer under \<^verbatim>\<open>src/platform\<close>, with its own code in
  \<^verbatim>\<open>source\<close> and \<^verbatim>\<open>include\<close> and third-party libraries in \<^verbatim>\<open>library\<close>. This development models the part of
  that code that carries logic of its own: memory growth, byte buffers and strings, the containers, searching,
  hashing, Base64, dates, and the fibers with their timers. File names below are relative to
  \<^verbatim>\<open>src/platform\<close>.

  \<^bold>\<open>How C is modelled.\<close> A function returns a value of type \<open>'a run\<close> (TT_Prelude): \<open>Inr\<close> its result with the
  changed state, or \<open>Inl\<close> a fault: \<open>Throw\<close> for a failed assertion, \<open>Undef\<close> for undefined behaviour, \<open>Diverge\<close> for a
  loop that does not end. \<^verbatim>\<open>tt_u8_t\<close>, \<^verbatim>\<open>tt_u32_t\<close> and \<^verbatim>\<open>tt_u64_t\<close> are words of their width, so that sums and
  products wrap as in C. Heap memory is a store of blocks (TT_Memory): a block is a list of cells, an allocation takes
  a fresh block or fails as an oracle says, and reading or writing outside a block, or freeing what was not
  allocated, is \<open>Undef\<close>. Structs on the heap are blocks of one cell (TT_Container_Specs); the record of a node that
  is a member of a caller's struct is extensible, which stands for \<^verbatim>\<open>TT_CONTAINER\<close>. A loop whose end is not
  evident is a \<open>partial_function (option)\<close>; \<open>returned\<close> turns \<open>None\<close> into \<open>Diverge\<close>, and the theorems show
  that it returns. No fuel is used. Results of the operating system and of the C library that the source only calls
  (random seeds, the clock, the output of \<^verbatim>\<open>vsnprintf\<close>) are parameters.

  \<^bold>\<open>The parts, in the order in which they rest on each other.\<close>

  \<^item> TT_Prelude, TT_Memory: result codes and control macros of \<^verbatim>\<open>misc/tt_error_def.h\<close> and \<^verbatim>\<open>misc/tt_util.h\<close>; the
    store; the growth of an array in \<^verbatim>\<open>memory/tt_memory_spring.c\<close>. Growing ends, with failure or enough room
    (C8), and neither leaks nor touches other blocks.
  \<^item> TT_Util, TT_Util_Props: the bit and number helpers of \<^verbatim>\<open>misc/tt_util.c\<close> and \<^verbatim>\<open>misc/tt_util.h\<close>, equal to the
    mathematical functions (C33).
  \<^item> TT_Buffer, TT_Buffer_Format, TT_Buffer_Codec, TT_Buffer_Common with the invariant in TT_Buffer_Inv,
    lemmas on single calls in TT_Buffer_Run, and the properties C1 to C6, C8, C9, C13 and C14 in TT_Buffer_Props:
    the byte buffer of \<^verbatim>\<open>algorithm/tt_buffer.c\<close>, \<^verbatim>\<open>tt_buffer_format.c\<close> and \<^verbatim>\<open>tt_buffer_common.c\<close>, with an array
    inside the struct or on the heap, its read and write positions, growing, editing, integers in network order and
    text. C1 and C2 are about sequences of the calls listed in \<open>buf_call\<close>, for which \<open>call_ok\<close> says what their
    arguments must be: those that make the code leave its storage (C14 shows one) are excluded there. \<open>buf_room\<close>
    says exactly when a call that needs more storage gets it.
  \<^item> TT_Container_Specs: what queues and stacks promise, as specifications on lists and locales for their clients.
    TT_Queue, TT_PtrQueue, TT_Stack and the invariants in TT_Queue_Inv, TT_Stack_Inv: \<^verbatim>\<open>algorithm/tt_queue.c\<close>,
    \<^verbatim>\<open>tt_stack.c\<close> and their variants for pointers, lists of frames; properties C15, C17, C18 and C20
    in TT_Queue_Props. C18 says which slot the access by index reads in every queue, right or not.
  \<^item> TT_Array, TT_Vector, TT_Vector_Move, TT_PtrVector with TT_Vector_Inv: \<^verbatim>\<open>algorithm/tt_vector.c\<close> and
    \<^verbatim>\<open>algorithm/ptr/tt_ptr_vector.c\<close>; C23, C24 and C26 in TT_Vector_Props.
  \<^item> TT_PtrHeap with TT_Heap_Order, TT_PtrHeap_Inv, TT_PtrHeap_Ops: the heap of
    \<^verbatim>\<open>algorithm/ptr/tt_ptr_heap.c\<close> as a priority queue whose callers hold handles; C28 to C30 in TT_PtrHeap_Props.
  \<^item> TT_BinarySearch: \<^verbatim>\<open>algorithm/tt_binary_search.c\<close> (C31): the equal object or else the next one on the side asked for.
  \<^item> TT_SList, TT_SList_Inv, TT_HashMap, TT_PtrHashMap, TT_HashMap_Inv, TT_PtrHashMap_Inv with the locale of
    maps: \<^verbatim>\<open>algorithm/tt_single_linked_list.h\<close>, \<^verbatim>\<open>tt_hash.c\<close>, \<^verbatim>\<open>tt_hashmap.c\<close> and
    \<^verbatim>\<open>ptr/tt_ptr_hashmap.c\<close>; C32 in TT_HashMap_Props.
  \<^item> TT_RBTree, TT_RBTree_Edit: \<^verbatim>\<open>algorithm/tt_red_black_tree.c\<close>. TT_RBTree_Shape relates nodes in the store to a
    tree datatype, seen from any of its nodes; TT_RBTree_Balance, TT_RBTree_Unbalance and TT_RBTree_Unlink show
    what the rotations, the loops that restore the colours and the removal of a node do to it; TT_RBTree_Ops and
    TT_RBTree_Refine state it on the list of nodes, in the locale of comparison functions \<open>key_order\<close>,
    which TT_RBTree_Walk interprets with the comparison that the tree uses by default; C7, C22 and C39 in
    TT_RBTree_Props; the comments on the two searches for neighbours promise a strictly larger or smaller node, and
    C39 shows that an equal one is returned.
  \<^item> TT_Base64, TT_Base64_Props: the decoder of \<^verbatim>\<open>misc/tt_base64.c\<close> against the encoding of RFC 4648 (C34, C35), for
    the text that \<open>b64_selects\<close> says is decoded: the one of the given length, or the one between two boundaries.
  \<^item> TT_Date, with TT_Calendar, the Gregorian calendar as a reference, and C36 to C38 in TT_Date_Days, TT_Date_Props
    and TT_Date_Week: \<^verbatim>\<open>time/tt_date.c\<close> and the zones of \<^verbatim>\<open>time/tt_date_def.c\<close>, for
    years up to 65535; the days that the code's leap years lack make an assertion fail, which C36 and C37 state.
  \<^item> TT_RWBuffer: \<^verbatim>\<open>algorithm/tt_read_buffer.c\<close> and \<^verbatim>\<open>tt_write_buffer.c\<close>, which decode and parse, or render and encode,
    with callbacks of the client. TT_Stream states what they promise: the bytes of a stream are cut into
    frames by a protocol, however they were split on their way. TT_RWBuffer_Read and TT_RWBuffer_Write say what callbacks
    owe to implement a protocol, and what sequences of calls then do; C10 to C12 in TT_RWBuffer_Props, with the
    callbacks of \<^verbatim>\<open>test_case/tt_ut_read_buf.c\<close> as a client. What a client's callbacks know of the outside is a
    value that is threaded through the calls; the part of the decoder and that of the parser are separate. C11 is
    about a read buffer without a decoder: bytes are lost in a call exactly when \<open>buf_room\<close> does not hold for them.
  \<^item> TT_Cells, TT_List, TT_DList: the lists of nodes in \<^verbatim>\<open>algorithm/tt_list.h\<close>, \<^verbatim>\<open>tt_list.c\<close> and
    \<^verbatim>\<open>tt_double_linked_list.h\<close>, several lists at once over one store. TT_List_Spec states what they promise and the
    locale \<open>node_lists\<close>, which TT_List_Props interprets with both; C16 and C21 are there.
  \<^item> TT_Fiber, TT_Timer, with the invariant in TT_Timer_Inv and the calls in TT_Timer_Run and TT_Timer_Calls:
    \<^verbatim>\<open>os/tt_fiber.c\<close>, the timers of \<^verbatim>\<open>os/tt_fiber_event.c\<close>, \<^verbatim>\<open>time/tt_timer.c\<close> and \<^verbatim>\<open>time/tt_timer_manager.c\<close>
    for one scheduler and one manager, on top of the lists and the heap of pointers. What another fiber does
    while this one is suspended is the parameter \<open>switch\<close>, and the clock is a sequence of readings. C27 and C40 in
    TT_Timer_Props: the invariant and the effect of all calls on timers, and that a run of the manager returns and
    delivers what is due. Both are for fibers of which none is blocked in a receive (\<open>no_waiter\<close>), so that no other
    code runs within a call and \<open>switch\<close> is not used; the lemmas on the manager's loop in TT_Timer_Run are also for
    blocked fibers, under \<open>fibers_start_none\<close>.
  \<^item> TT_String, TT_String_Ops: \<^verbatim>\<open>algorithm/tt_string.c\<close>, \<^verbatim>\<open>tt_string_common.c\<close> and their inline functions on top of the
    byte buffer; TT_String_Inv and TT_String_Calls with the text a string stands for, what a call may
    answer, and in \<open>str_room\<close> exactly when it has room, TT_String_Change and TT_String_Find with what each call does to it; C19 and C25 in
    TT_String_Props. Functions of the C library on strings are modelled by their documented behaviour.
  \<^bold>\<open>What the lemmas show.\<close> Each component has an invariant of its state that all its operations keep, an
  abstraction (the bytes of a buffer, the list of a container, a multiset, a map, a day number) and lemmas that
  say what each operation does to it on every branch. The properties compose these: any sequence of calls answers as
  the abstraction does, without faults, and the destruction of a container frees exactly what it allocated. Where
  the code departs from what it is meant to do, the theorems state what it does: C13, C14, C18, C26, C35 to C39
  are examples. Arguments for which a sequence of calls leaves what it is meant to do are excluded by the predicates
  of the allowed calls, which the properties name.

  \<^bold>\<open>Bounds.\<close> Sizes are those of a 64-bit build. Properties that need a container to be small enough say so; the limits
  come from 32-bit sizes in bytes in the source. The hashes are modelled for both byte orders.

  \<^bold>\<open>Not modelled.\<close> Output to the console and logging; the memory pools, which compute with addresses of pages; the
  random number generators; the formatting and parsing of dates and Julian dates in floating point; fibers of several schedulers and the events they send each
  other; input and output, files, sockets, threads and processes, which are calls to the operating system;
  cryptography, TLS, SSH, DNS, XML and ZIP, which wrap third-party libraries or depend on them; the command line;
  the registration of components and the configuration; the unit tests.
\<close>

end
